(* ===== verification/Prelude.thy ===== *)
theory Prelude
  imports Complex_Main "HOL-Library.Word" "HOL-Library.Monad_Syntax"
begin

text \<open>
  Shared ground of the development: the machine model (LP64, little endian, as the
  library is built on), the conventions for pointers, allocation and non-termination, the
  C character and string routines that several components call, and the generic lemmas
  their proofs use.

  \<^item> A pointer that may be \<open>NULL\<close> is an option (\<open>ptr\<close>, \<open>None\<close> is \<open>NULL\<close>).
  \<^item> A computation that may run forever, or whose result the C standard leaves undefined, is
    an option as well (\<open>comp\<close>); there \<open>None\<close> means that no defined result exists, and a
    claim that a function returns is the claim that it is \<open>Some\<close>.
  \<^item> \<open>malloc\<close>, \<open>calloc\<close>, \<open>strdup\<close> and \<open>realloc\<close> may fail at any call. The
    outcomes of the next allocations are a list of booleans, consumed from the front; when
    the list is exhausted every allocation succeeds. A theorem for an arbitrary list
    therefore covers every pattern of allocation failures.
  \<^item> A C string is its list of characters without the terminating NUL; a pointer into it is
    a suffix, and \<open>*s == 0\<close> is \<open>s = []\<close>.
\<close>

unbundle bit_operations_syntax

type_synonym u8 = "8 word"
type_synonym u32 = "32 word"
type_synonym u64 = "64 word"
type_synonym 'a ptr = "'a option"
type_synonym 'a comp = "'a option"
type_synonym alloc = "bool list"

abbreviation NULL :: "'a ptr" where "NULL \<equiv> None"

subsection \<open>Allocation\<close>

fun malloc_ok :: "alloc \<Rightarrow> bool \<times> alloc" where
  "malloc_ok [] = (True, [])"
| "malloc_ok (b # bs) = (b, bs)"

subsection \<open>The divergence monad\<close>

lemma bind_eq_SomeE:
  assumes "Option.bind x f = Some y"
  obtains z where "x = Some z" and "f z = Some y"
  using assms by (cases x) auto

lemma bind_SomeI: "x = Some z \<Longrightarrow> f z = r \<Longrightarrow> Option.bind x f = r"
  by simp

subsection \<open>Bytes and characters\<close>

definition byte_of :: "char \<Rightarrow> u8" where
  "byte_of c = of_char c"

definition char_of_byte :: "u8 \<Rightarrow> char" where
  "char_of_byte b = char_of (unat b)"

definition code :: "char \<Rightarrow> nat" where
  "code c = of_char c"

lemma code_less_256 [simp]: "code c < 256"
  by (simp add: code_def)

lemma code_eq_iff [simp]: "code c = code d \<longleftrightarrow> c = d"
  by (simp add: code_def)

lemma char_of_code [simp]: "char_of (code c) = c"
  by (simp add: code_def)

lemma code_char_of: "n < 256 \<Longrightarrow> code (char_of n) = n"
  by (simp add: code_def)

abbreviation NUL :: char where "NUL \<equiv> CHR 0x00"

text \<open>A list of characters that a NUL-terminated buffer can hold.\<close>

definition cstr :: "string \<Rightarrow> bool" where
  "cstr s \<longleftrightarrow> NUL \<notin> set s"

lemma cstr_simps [simp]:
  "cstr []"
  "cstr (c # s) \<longleftrightarrow> c \<noteq> NUL \<and> cstr s"
  "cstr (s @ t) \<longleftrightarrow> cstr s \<and> cstr t"
  by (auto simp: cstr_def)

text \<open>\<open>ctype.h\<close> in the C locale.\<close>

definition isspace :: "char \<Rightarrow> bool" where
  "isspace c \<longleftrightarrow> c \<in> {CHR '' '', CHR 0x09, CHR 0x0A, CHR 0x0B, CHR 0x0C, CHR 0x0D}"

definition isdigit :: "char \<Rightarrow> bool" where
  "isdigit c \<longleftrightarrow> 48 \<le> code c \<and> code c \<le> 57"

definition isprint :: "char \<Rightarrow> bool" where
  "isprint c \<longleftrightarrow> 32 \<le> code c \<and> code c \<le> 126"

definition tolower :: "char \<Rightarrow> char" where
  "tolower c = (if 65 \<le> code c \<and> code c \<le> 90 then char_of (code c + 32) else c)"

definition strcasecmp_eq :: "string \<Rightarrow> string \<Rightarrow> bool" where
  "strcasecmp_eq s t \<longleftrightarrow> map tolower s = map tolower t"

definition digit_val :: "char \<Rightarrow> nat" where
  "digit_val c = code c - 48"

subsection \<open>Suffixes\<close>

lemma length_dropWhile_less: "dropWhile P s \<noteq> s \<Longrightarrow> length (dropWhile P s) < length s"
  by (induction s) (auto intro: le_imp_less_Suc length_dropWhile_le split: if_splits)

subsection \<open>Counting\<close>

lemma length_filter_update:
  "s < length xs \<Longrightarrow>
     length (filter P (xs[s := x])) + of_bool (P (xs ! s)) =
     length (filter P xs) + (of_bool (P x) :: nat)"
proof (induction xs arbitrary: s)
  case (Cons y ys)
  then show ?case by (cases s) auto
qed simp

lemma unat_add_one: "unat (x :: u32) + 1 < 2 ^ 32 \<Longrightarrow> unat (x + 1) = unat x + 1"
  by (simp add: unat_word_ariths)

lemma unat_sub_one: "0 < unat (x :: u32) \<Longrightarrow> unat (x - 1) = unat x - 1"
  by (metis Suc_eq_plus1 Suc_pred add.commute diff_add_cancel gr0_conv_Suc unat_1 unat_minus_one
      unat_0 less_irrefl)

end
