(* ===== verification/Dict_Hash.thy ===== *)
theory Dict_Hash
  imports Prelude
begin

text \<open>
  The hash functions and the probe sequence of the dictionary (\<open>dict.c\<close>). The first part
  is the machine-level code on 32-bit words. The second shows that the probe sequence of
  any hash value visits every slot of a table whose size is a power of two, the fact on
  which the termination of \<open>dict_lookup\<close> rests: once the perturbation has been shifted
  out, the index moves by \<open>i \<mapsto> 5 * i + 1\<close>, a linear congruence of full period.
\<close>

subsection \<open>Hash functions\<close>

fun dobbs_loop :: "u32 \<Rightarrow> string \<Rightarrow> u32" where
  "dobbs_loop hash [] = hash"
| "dobbs_loop hash (c # cs) =
     (let hash = hash + signed (byte_of c);
          hash = hash + push_bit 10 hash;
          hash = hash XOR drop_bit 6 hash
      in dobbs_loop hash cs)"

definition dict_hash_dobbs :: "string \<Rightarrow> u32" where
  "dict_hash_dobbs key =
     (let hash = dobbs_loop 0 key;
          hash = hash + push_bit 3 hash;
          hash = hash XOR drop_bit 11 hash;
          hash = hash + push_bit 15 hash
      in hash)"

definition load32 :: "char \<Rightarrow> char \<Rightarrow> char \<Rightarrow> char \<Rightarrow> u32" where
  "load32 a b c d = unsigned (byte_of a) OR push_bit 8 (unsigned (byte_of b))
      OR push_bit 16 (unsigned (byte_of c)) OR push_bit 24 (unsigned (byte_of d))"

abbreviation murmur_m :: u32 where "murmur_m \<equiv> 0x5bd1e995"

fun murmur_loop :: "u32 \<Rightarrow> string \<Rightarrow> u32" where
  "murmur_loop h (a # b # c # d # data) =
     (let k = load32 a b c d;
          k = k * murmur_m;
          k = k XOR drop_bit 24 k;
          k = k * murmur_m;
          h = h * murmur_m;
          h = h XOR k
      in murmur_loop h data)"
| "murmur_loop h [a, b, c] =
     ((h XOR push_bit 16 (unsigned (byte_of c)) XOR push_bit 8 (unsigned (byte_of b))
         XOR unsigned (byte_of a)) * murmur_m)"
| "murmur_loop h [a, b] =
     ((h XOR push_bit 8 (unsigned (byte_of b)) XOR unsigned (byte_of a)) * murmur_m)"
| "murmur_loop h [a] = (h XOR unsigned (byte_of a)) * murmur_m"
| "murmur_loop h [] = h"

definition dict_hash_murmur :: "string \<Rightarrow> u32" where
  "dict_hash_murmur key =
     (let h = 0x0badcafe XOR of_nat (length key);
          h = murmur_loop h key;
          h = h XOR drop_bit 13 h;
          h = h * murmur_m;
          h = h XOR drop_bit 15 h
      in h)"

definition dict_hash :: "string \<Rightarrow> u32" where
  "dict_hash = dict_hash_murmur"

subsection \<open>The probe sequence\<close>

text \<open>One step of the collision loop: \<open>i = (i << 2) + i + perturb + 1; i &= (d->size - 1)\<close>.\<close>

definition probe_first :: "u32 \<Rightarrow> u32 \<Rightarrow> u32" where
  "probe_first sz hash = hash AND (sz - 1)"

definition probe_next :: "u32 \<Rightarrow> u32 \<Rightarrow> u32 \<Rightarrow> u32" where
  "probe_next sz i perturb = (push_bit 2 i + i + perturb + 1) AND (sz - 1)"

text \<open>The slot and the perturbation after \<open>n\<close> collisions.\<close>

primrec probe_perturb :: "u32 \<Rightarrow> nat \<Rightarrow> u32" where
  "probe_perturb hash 0 = hash"
| "probe_perturb hash (Suc n) = drop_bit 5 (probe_perturb hash n)"

primrec probe_pos :: "u32 \<Rightarrow> u32 \<Rightarrow> nat \<Rightarrow> u32" where
  "probe_pos sz hash 0 = probe_first sz hash"
| "probe_pos sz hash (Suc n) =
     probe_next sz (probe_pos sz hash n) (probe_perturb hash n)"

subsection \<open>A linear congruence of full period\<close>

definition geo5 :: "nat \<Rightarrow> nat" where
  "geo5 n = (\<Sum>i<n. 5 ^ i)"

lemma geo5_0 [simp]: "geo5 0 = 0"
  by (simp add: geo5_def)

lemma geo5_Suc: "geo5 (Suc n) = 5 * geo5 n + 1"
  by (induction n) (simp_all add: geo5_def)

lemma geo5_pow: "4 * geo5 n + 1 = 5 ^ n"
  by (induction n) (simp_all add: geo5_Suc)

lemma odd_geo5: "odd (geo5 n) \<longleftrightarrow> odd n"
  by (induction n) (simp_all add: geo5_Suc)

lemma geo5_double: "geo5 (2 * n) = geo5 n * (5 ^ n + 1)"
proof -
  have "4 * geo5 (2 * n) + 1 = (4 * geo5 n + 1) * (4 * geo5 n + 1)"
    by (simp only: geo5_pow) (simp add: power_mult power2_eq_square mult_2 power_add)
  then have "4 * geo5 (2 * n) = 4 * (geo5 n * ((4 * geo5 n + 1) + 1))"
    by (simp add: algebra_simps)
  then show ?thesis by (simp only: geo5_pow)
qed

lemma geo5_dvd: "2 ^ k dvd geo5 n \<Longrightarrow> 2 ^ k dvd n"
proof (induction k arbitrary: n)
  case 0
  then show ?case by simp
next
  case (Suc k)
  from Suc.prems have "even (geo5 n)" by (auto elim: dvdE)
  then obtain m where n: "n = 2 * m" using odd_geo5 [of n] by (auto elim: evenE)
  have fac: "(5 ^ m + 1 :: nat) = 2 * (2 * geo5 m + 1)"
    using geo5_pow [of m] by simp
  have "geo5 n = 2 * (geo5 m * (2 * geo5 m + 1))"
    unfolding n geo5_double fac by (simp only: mult_ac)
  with Suc.prems have "2 ^ k dvd geo5 m * (2 * geo5 m + 1)"
    by (simp only: power_Suc nat_mult_dvd_cancel_disj) simp
  moreover have "coprime (2 ^ k) (2 * geo5 m + 1)"
    by simp
  ultimately have "2 ^ k dvd geo5 m"
    using coprime_dvd_mult_left_iff by blast
  then show ?case using Suc.IH [of m] n by simp
qed

text \<open>The index sequence without perturbation takes pairwise distinct values for a period.\<close>

lemma lcg_inj:
  assumes eq: "(5 ^ a * x + geo5 a) mod 2 ^ k = (5 ^ b * x + geo5 b) mod (2 ^ k :: nat)"
    and "a \<le> b" and "b < 2 ^ k"
  shows "a = b"
proof -
  from \<open>a \<le> b\<close> obtain d where b: "b = a + d" by (auto simp: le_iff_add)
  have g: "geo5 (a + d) = geo5 a + 5 ^ a * geo5 d"
  proof -
    have "4 * geo5 (a + d) + 1 = (4 * geo5 a + 1) * (4 * geo5 d + 1)"
      by (simp only: geo5_pow power_add)
    also have "\<dots> = 4 * (geo5 a + (4 * geo5 a + 1) * geo5 d) + 1"
      by (simp add: algebra_simps)
    also have "\<dots> = 4 * (geo5 a + 5 ^ a * geo5 d) + 1"
      by (simp only: geo5_pow)
    finally show ?thesis by simp
  qed
  have p: "(5::nat) ^ d * x = x + 4 * geo5 d * x"
    using geo5_pow [of d] by (simp flip: geo5_pow)
  have "5 ^ b * x + geo5 b = (5 ^ a * x + geo5 a) + 5 ^ a * (geo5 d * (4 * x + 1))"
    unfolding b g power_add mult.assoc p by (simp add: algebra_simps)
  with eq have "2 ^ k dvd 5 ^ a * (geo5 d * (4 * x + 1))"
    by (metis mod_eq_dvd_iff_nat add_diff_cancel_left' le_add1)
  moreover have "coprime (2 ^ k) (5 ^ a :: nat)" by simp
  moreover have "coprime (2 ^ k) (4 * x + 1)" by simp
  ultimately have "2 ^ k dvd geo5 d"
    by (meson coprime_dvd_mult_right_iff coprime_dvd_mult_left_iff)
  then have "2 ^ k dvd d" by (rule geo5_dvd)
  with \<open>b < 2 ^ k\<close> b show ?thesis by (auto dest: dvd_imp_le)
qed

lemma lcg_full_period:
  assumes "y < 2 ^ k"
  shows "\<exists>n < 2 ^ k. (5 ^ n * x + geo5 n) mod 2 ^ k = (y::nat)"
proof -
  let ?f = "\<lambda>n. (5 ^ n * x + geo5 n) mod 2 ^ k"
  have "inj_on ?f {..<2 ^ k}"
    using lcg_inj [of _ x k] by (intro inj_onI) (metis lessThan_iff nat_le_linear)
  moreover have "?f ` {..<2 ^ k} \<subseteq> {..<2 ^ k}" by auto
  ultimately have "?f ` {..<2 ^ k} = {..<2 ^ k}"
    by (intro endo_inj_surj) auto
  with assms have "y \<in> ?f ` {..<2 ^ k}" by simp
  then show ?thesis by auto
qed

subsection \<open>The probe sequence visits every slot\<close>

text \<open>Masking with \<open>size - 1\<close> is the remainder modulo a size that is a power of two.\<close>

lemma size_exp_less:
  assumes "unat (sz :: u32) = 2 ^ k"
  shows "k < 32"
proof -
  have "(2::nat) ^ k < 2 ^ 32"
    using unsigned_less [of sz, where 'a = nat] assms by simp
  then show ?thesis by (rule power_less_imp_less_exp [rotated]) simp
qed

lemma unat_and_size:
  fixes x sz :: u32
  assumes "unat sz = 2 ^ k"
  shows "unat (x AND (sz - 1)) = unat x mod 2 ^ k"
proof -
  have k: "k < 32" using assms by (rule size_exp_less)
  have "(2::nat) ^ k < 2 ^ 32" using k by (rule power_strict_increasing) simp
  then have "unat (of_nat (2 ^ k) :: u32) = 2 ^ k"
    by (simp only: unat_of_nat) simp
  then have "sz = of_nat (2 ^ k)"
    using assms by (metis word_unat_eq_iff)
  then have "sz - 1 = mask k"
    by (simp add: mask_eq_exp_minus_1)
  then show ?thesis
    by (simp flip: take_bit_eq_mask take_bit_eq_mod add: unsigned_take_bit_eq)
qed

lemma unat_probe_first:
  "unat sz = 2 ^ k \<Longrightarrow> unat (probe_first sz hash) = unat hash mod 2 ^ k"
  by (simp add: probe_first_def unat_and_size)

lemma unat_probe_next:
  assumes "unat sz = 2 ^ k"
  shows "unat (probe_next sz i p) = (5 * unat i + unat p + 1) mod 2 ^ k"
proof -
  have k: "k \<le> 32" using size_exp_less [OF assms] by simp
  have w: "push_bit 2 i + i + p + 1 = of_nat (5 * unat i + unat p + 1)"
    by (simp add: push_bit_eq_mult algebra_simps)
  have "unat (probe_next sz i p) = (5 * unat i + unat p + 1) mod 2 ^ 32 mod 2 ^ k"
    unfolding probe_next_def unat_and_size [OF assms] w by (simp only: unat_of_nat) simp
  also have "\<dots> = (5 * unat i + unat p + 1) mod 2 ^ k"
    by (rule mod_mod_cancel) (rule le_imp_power_dvd [OF k])
  finally show ?thesis .
qed

lemma probe_pos_less:
  "unat sz = 2 ^ k \<Longrightarrow> unat (probe_pos sz hash n) < unat sz"
  by (cases n) (simp_all add: unat_probe_first unat_probe_next)

lemma probe_perturb_eq: "probe_perturb hash n = drop_bit (5 * n) hash"
  by (induction n) (simp_all add: add.commute)

text \<open>After seven collisions the perturbation is gone.\<close>

lemma probe_perturb_zero: "7 \<le> n \<Longrightarrow> probe_perturb hash n = 0"
  unfolding probe_perturb_eq by (rule bit_eqI) (simp add: bit_drop_bit_eq bit_imp_le_length not_bit_length)

lemma probe_pos_tail:
  assumes "unat sz = 2 ^ k"
  shows "unat (probe_pos sz hash (7 + n)) =
    (5 ^ n * unat (probe_pos sz hash 7) + geo5 n) mod 2 ^ k"
proof (induction n)
  case 0
  then show ?case using probe_pos_less [OF assms] assms by simp
next
  case (Suc n)
  have "unat (probe_pos sz hash (7 + Suc n)) =
      (5 * unat (probe_pos sz hash (7 + n)) + 1) mod 2 ^ k"
    by (simp only: add_Suc_right probe_pos.simps unat_probe_next [OF assms])
      (simp add: probe_perturb_zero)
  also have "\<dots> = (5 * (5 ^ n * unat (probe_pos sz hash 7) + geo5 n) + 1) mod 2 ^ k"
    unfolding Suc.IH by (metis mod_add_left_eq mod_mult_right_eq)
  finally show ?case by (simp add: geo5_Suc algebra_simps)
qed

lemma probe_visits_all:
  assumes "unat sz = 2 ^ k" and "p < unat sz"
  shows "\<exists>n < 7 + unat sz. unat (probe_pos sz hash n) = p"
proof -
  from assms obtain n where "n < 2 ^ k"
    and "(5 ^ n * unat (probe_pos sz hash 7) + geo5 n) mod 2 ^ k = p"
    using lcg_full_period by metis
  then show ?thesis
    using probe_pos_tail [OF assms(1), of hash n] assms(1) by (intro exI [of _ "7 + n"]) simp
qed

end
