(* ===== verification/C_Numbers.thy ===== *)
theory C_Numbers
  imports Prelude "HOL-Library.Log_Nat"
begin

text \<open>
  The numeric part of the C library that the sources call: \<open>strtol\<close>, \<open>strtoll\<close>,
  \<open>strtoull\<close> and \<open>strtod\<close> in base ten with their end pointer and their \<open>ERANGE\<close> report,
  the integer conversions of \<open>printf\<close>, and IEEE 754 binary64/binary32 values with
  round-to-nearest-even. A finite floating point number is its sign bit and its exact
  magnitude as a rational.
\<close>

subsection \<open>Limits (LP64)\<close>

abbreviation INT_MAX :: int where "INT_MAX \<equiv> 2147483647"
abbreviation INT_MIN :: int where "INT_MIN \<equiv> - 2147483648"
abbreviation UINT_MAX :: int where "UINT_MAX \<equiv> 4294967295"
abbreviation LLONG_MAX :: int where "LLONG_MAX \<equiv> 9223372036854775807"
abbreviation LLONG_MIN :: int where "LLONG_MIN \<equiv> - 9223372036854775808"
abbreviation ULLONG_MAX :: int where "ULLONG_MAX \<equiv> 18446744073709551615"

subsection \<open>Decimal scanning and printing\<close>

definition dec_val :: "string \<Rightarrow> nat" where
  "dec_val ds = foldl (\<lambda>n c. 10 * n + digit_val c) 0 ds"

definition scan_sign :: "string \<Rightarrow> bool \<times> string" where
  "scan_sign s =
     (if s \<noteq> [] \<and> hd s = CHR ''-'' then (True, tl s)
      else if s \<noteq> [] \<and> hd s = CHR ''+'' then (False, tl s)
      else (False, s))"

text \<open>
  The result is the value, the end pointer (a suffix of the argument, the argument itself
  when no conversion took place) and whether \<open>errno\<close> was set to \<open>ERANGE\<close>.
\<close>

definition strtoll :: "string \<Rightarrow> int \<times> string \<times> bool" where
  "strtoll s =
     (let (neg, u) = scan_sign (dropWhile isspace s);
          ds = takeWhile isdigit u;
          ep = dropWhile isdigit u;
          v = (if neg then - int (dec_val ds) else int (dec_val ds))
      in if ds = [] then (0, s, False)
         else if v > LLONG_MAX then (LLONG_MAX, ep, True)
         else if v < LLONG_MIN then (LLONG_MIN, ep, True)
         else (v, ep, False))"

text \<open>\<open>strtoull\<close> accepts a minus sign and returns the negation in 64 bits.\<close>

definition strtoull :: "string \<Rightarrow> int \<times> string \<times> bool" where
  "strtoull s =
     (let (neg, u) = scan_sign (dropWhile isspace s);
          ds = takeWhile isdigit u;
          ep = dropWhile isdigit u;
          v = int (dec_val ds)
      in if ds = [] then (0, s, False)
         else if v > ULLONG_MAX then (ULLONG_MAX, ep, True)
         else (if neg then (- v) mod (ULLONG_MAX + 1) else v, ep, False))"

definition digit_char :: "nat \<Rightarrow> char" where
  "digit_char n = char_of (48 + n)"

fun show_nat :: "nat \<Rightarrow> string" where
  "show_nat n =
     (if n < 10 then [digit_char n] else show_nat (n div 10) @ [digit_char (n mod 10)])"

declare show_nat.simps [simp del]

definition show_int :: "int \<Rightarrow> string" where
  "show_int i = (if i < 0 then CHR ''-'' # show_nat (nat (- i)) else show_nat (nat i))"

text \<open>A digit of \<open>%x\<close>.\<close>

definition hex_digit :: "nat \<Rightarrow> char" where
  "hex_digit n = (if n < 10 then char_of (48 + n) else char_of (87 + n))"

lemma code_digit_char: "n < 10 \<Longrightarrow> code (digit_char n) = 48 + n"
  by (simp add: digit_char_def code_char_of)

lemma isdigit_digit_char [simp]: "n < 10 \<Longrightarrow> isdigit (digit_char n)"
  by (simp add: isdigit_def code_digit_char)

lemma digit_val_digit_char [simp]: "n < 10 \<Longrightarrow> digit_val (digit_char n) = n"
  by (simp add: digit_val_def code_digit_char)

lemma dec_val_snoc [simp]: "dec_val (ds @ [c]) = 10 * dec_val ds + digit_val c"
  by (simp add: dec_val_def)

lemma dec_val_Nil [simp]: "dec_val [] = 0"
  by (simp add: dec_val_def)

lemma show_nat_not_Nil [simp]: "show_nat n \<noteq> []"
  by (subst show_nat.simps) simp

lemma show_nat_digits: "c \<in> set (show_nat n) \<Longrightarrow> isdigit c"
proof (induction n rule: show_nat.induct)
  case (1 n)
  then show ?case
    by (cases "n < 10") (auto simp: show_nat.simps [of n])
qed

lemma dec_val_show_nat [simp]: "dec_val (show_nat n) = n"
proof (induction n rule: show_nat.induct)
  case (1 n)
  show ?case
  proof (cases "n < 10")
    case True
    then show ?thesis using dec_val_snoc [of "[]"] by (simp add: show_nat.simps [of n])
  next
    case False
    with "1.IH" show ?thesis by (simp add: show_nat.simps [of n])
  qed
qed

lemma isdigit_not_sign: "isdigit c \<Longrightarrow> c \<noteq> CHR ''-'' \<and> c \<noteq> CHR ''+'' \<and> \<not> isspace c"
  by (auto simp: isdigit_def isspace_def code_def)

lemma show_nat_span:
  assumes "\<not> (r \<noteq> [] \<and> isdigit (hd r))"
  shows "takeWhile isdigit (show_nat n @ r) = show_nat n"
    and "dropWhile isdigit (show_nat n @ r) = r"
  using assms show_nat_digits [of _ n]
  by (auto simp: takeWhile_append dropWhile_append takeWhile_eq_Nil_iff dropWhile_eq_self_iff)

lemma isdigit_hd_show_nat: "isdigit (hd (show_nat n))"
  by (rule show_nat_digits [of _ n]) simp

lemma scan_sign_show_nat [simp]: "scan_sign (show_nat n @ r) = (False, show_nat n @ r)"
  using isdigit_not_sign [OF isdigit_hd_show_nat [of n]] by (auto simp: scan_sign_def)

lemma dropWhile_isspace_show_nat [simp]:
  "dropWhile isspace (show_nat n @ r) = show_nat n @ r"
  using isdigit_not_sign [OF isdigit_hd_show_nat [of n]] show_nat_not_Nil [of n]
  by (cases "show_nat n") auto

lemma strtoll_show_int:
  assumes "LLONG_MIN \<le> i" and "i \<le> LLONG_MAX" and "\<not> (r \<noteq> [] \<and> isdigit (hd r))"
  shows "strtoll (show_int i @ r) = (i, r, False)"
proof (cases "i < 0")
  case True
  then have "scan_sign (dropWhile isspace (show_int i @ r)) = (True, show_nat (nat (- i)) @ r)"
    by (simp add: show_int_def scan_sign_def isspace_def)
  with True assms show ?thesis by (simp add: strtoll_def show_nat_span Let_def)
next
  case False
  then have "scan_sign (dropWhile isspace (show_int i @ r)) = (False, show_nat (nat i) @ r)"
    by (simp add: show_int_def)
  with False assms show ?thesis by (simp add: strtoll_def show_nat_span Let_def)
qed

lemma strtoull_show_nat:
  assumes "int n \<le> ULLONG_MAX" and "\<not> (r \<noteq> [] \<and> isdigit (hd r))"
  shows "strtoull (show_nat n @ r) = (int n, r, False)"
  using assms by (simp add: strtoull_def show_nat_span Let_def)

lemma strtoll_range: "strtoll s = (v, ep, er) \<Longrightarrow> LLONG_MIN \<le> v \<and> v \<le> LLONG_MAX"
  by (auto simp: strtoll_def Let_def split: if_splits prod.splits)

lemma strtoull_range: "strtoull s = (v, ep, er) \<Longrightarrow> 0 \<le> v \<and> v \<le> ULLONG_MAX"
  using pos_mod_bound [of "ULLONG_MAX + 1"]
  by (auto simp: strtoull_def Let_def split: if_splits prod.splits)

subsection \<open>Floating point values\<close>

datatype cdouble = DNaN | DInf bool | DFin bool rat

definition d_val :: "cdouble \<Rightarrow> rat" where
  "d_val d = (case d of DFin s m \<Rightarrow> (if s then - m else m) | _ \<Rightarrow> 0)"

definition d_isfinite :: "cdouble \<Rightarrow> bool" where
  "d_isfinite d \<longleftrightarrow> (case d of DFin _ _ \<Rightarrow> True | _ \<Rightarrow> False)"

text \<open>\<open>x != 0.0\<close> and \<open>x == y\<close>: a NaN differs from everything, the two zeros are equal.\<close>

definition d_nonzero :: "cdouble \<Rightarrow> bool" where
  "d_nonzero d \<longleftrightarrow> (case d of DFin _ m \<Rightarrow> m \<noteq> 0 | _ \<Rightarrow> True)"

definition d_eq :: "cdouble \<Rightarrow> cdouble \<Rightarrow> bool" where
  "d_eq a b \<longleftrightarrow>
     (case (a, b) of
        (DFin _ _, DFin _ _) \<Rightarrow> d_val a = d_val b
      | (DInf s, DInf t) \<Rightarrow> s = t
      | _ \<Rightarrow> False)"

text \<open>Conversion of a finite value to an integer type truncates towards zero.\<close>

definition d_trunc :: "cdouble \<Rightarrow> int" where
  "d_trunc d = (let v = d_val d in if v < 0 then - \<lfloor>- v\<rfloor> else \<lfloor>v\<rfloor>)"

definition pow2 :: "int \<Rightarrow> rat" where
  "pow2 e = (if 0 \<le> e then 2 ^ nat e else 1 / 2 ^ nat (- e))"

definition rnd_half_even :: "rat \<Rightarrow> int" where
  "rnd_half_even q =
     (let f = \<lfloor>q\<rfloor>; r = q - of_int f
      in if r < 1 / 2 then f else if 1 / 2 < r then f + 1 else if even f then f else f + 1)"

definition log2_floor :: "rat \<Rightarrow> int" where
  "log2_floor q =
     (let (a, b) = quotient_of q;
          e = int (floorlog 2 (nat a)) - int (floorlog 2 (nat b))
      in if pow2 e \<le> q then e else e - 1)"

text \<open>
  Round a magnitude to \<open>p\<close> significant bits with least exponent \<open>emin\<close>; magnitudes of at
  least \<open>2 ^ emax\<close> after rounding overflow to infinity.
\<close>

definition round_mag :: "nat \<Rightarrow> int \<Rightarrow> rat \<Rightarrow> rat" where
  "round_mag p emin q =
     (if q = 0 then 0
      else let k = max (log2_floor q - int p + 1) emin
           in of_int (rnd_half_even (q / pow2 k)) * pow2 k)"

definition round_to :: "nat \<Rightarrow> int \<Rightarrow> int \<Rightarrow> bool \<Rightarrow> rat \<Rightarrow> cdouble" where
  "round_to p emin emax s q =
     (let r = round_mag p emin q in if pow2 emax \<le> r then DInf s else DFin s r)"

definition to_double :: "bool \<Rightarrow> rat \<Rightarrow> cdouble" where
  "to_double = round_to 53 (- 1074) 1024"

definition to_float :: "bool \<Rightarrow> rat \<Rightarrow> cdouble" where
  "to_float = round_to 24 (- 149) 128"

definition double_of_int :: "int \<Rightarrow> cdouble" where
  "double_of_int i = to_double (i < 0) (of_int \<bar>i\<bar>)"

definition float_of_double :: "cdouble \<Rightarrow> cdouble" where
  "float_of_double d = (case d of DFin s m \<Rightarrow> to_float s m | _ \<Rightarrow> d)"

subsection \<open>\<open>strtod\<close>\<close>

definition is_hex :: "char \<Rightarrow> bool" where
  "is_hex c \<longleftrightarrow> isdigit c \<or> (97 \<le> code (tolower c) \<and> code (tolower c) \<le> 102)"

definition hex_val :: "char \<Rightarrow> nat" where
  "hex_val c = (if isdigit c then digit_val c else code (tolower c) - 87)"

definition pow10 :: "int \<Rightarrow> rat" where
  "pow10 e = (if 0 \<le> e then 10 ^ nat e else 1 / 10 ^ nat (- e))"

text \<open>An exponent part is consumed only when at least one digit follows the marker.\<close>

definition scan_exp :: "char \<Rightarrow> string \<Rightarrow> int \<times> string" where
  "scan_exp mark r =
     (if r \<noteq> [] \<and> tolower (hd r) = mark then
        let (neg, u) = scan_sign (tl r); ds = takeWhile isdigit u; e = int (dec_val ds)
        in if ds = [] then (0, r) else (if neg then - e else e, dropWhile isdigit u)
      else (0, r))"

definition scan_frac :: "(char \<Rightarrow> bool) \<Rightarrow> string \<Rightarrow> string \<times> string \<times> string" where
  "scan_frac P u =
     (let ip = takeWhile P u; r = dropWhile P u
      in if r \<noteq> [] \<and> hd r = CHR ''.''
         then (ip, takeWhile P (tl r), dropWhile P (tl r)) else (ip, [], r))"

definition scan_decimal :: "string \<Rightarrow> (rat \<times> string) option" where
  "scan_decimal u =
     (let (ip, fp, r) = scan_frac isdigit u; (e, r') = scan_exp (CHR ''e'') r
      in if ip = [] \<and> fp = [] then None
         else Some (of_nat (dec_val (ip @ fp)) * pow10 (e - int (length fp)), r'))"

definition scan_hexadecimal :: "string \<Rightarrow> (rat \<times> string) option" where
  "scan_hexadecimal u =
     (let (ip, fp, r) = scan_frac is_hex (drop 2 u); (e, r') = scan_exp (CHR ''p'') r
      in if map tolower (take 2 u) \<noteq> ''0x'' \<or> ip = [] \<and> fp = [] then None
         else Some (of_nat (foldl (\<lambda>n c. 16 * n + hex_val c) 0 (ip @ fp))
                      * pow2 (e - 4 * int (length fp)), r'))"

definition strip_nan_payload :: "string \<Rightarrow> string" where
  "strip_nan_payload r =
     (let P = (\<lambda>c. isdigit c \<or> c = CHR ''_'' \<or> (97 \<le> code (tolower c) \<and> code (tolower c) \<le> 122));
          t = dropWhile P (tl r)
      in if r \<noteq> [] \<and> hd r = CHR ''('' \<and> t \<noteq> [] \<and> hd t = CHR '')'' then tl t else r)"

text \<open>
  \<open>ERANGE\<close> is reported on overflow, and on underflow: an inexact result whose magnitude,
  rounded to 53 bits without exponent limit, is below the least normal number.
\<close>

definition strtod :: "string \<Rightarrow> cdouble \<times> string \<times> bool" where
  "strtod s =
     (let (neg, u) = scan_sign (dropWhile isspace s);
          low = map tolower u
      in if take 8 low = ''infinity'' then (DInf neg, drop 8 u, False)
         else if take 3 low = ''inf'' then (DInf neg, drop 3 u, False)
         else if take 3 low = ''nan'' then (DNaN, strip_nan_payload (drop 3 u), False)
         else case (case scan_hexadecimal u of None \<Rightarrow> scan_decimal u | Some r \<Rightarrow> Some r) of
             None \<Rightarrow> (DFin False 0, s, False)
           | Some (q, ep) \<Rightarrow>
               let d = to_double neg q;
                   tiny = round_mag 53 (log2_floor q - 60) q < pow2 (- 1022) \<and> \<bar>d_val d\<bar> \<noteq> q
               in (d, ep, q \<noteq> 0 \<and> (\<not> d_isfinite d \<or> tiny)))"

subsection \<open>\<open>printf\<close> of floating point values: \<open>%.Pg\<close>\<close>

definition log10_floor :: "rat \<Rightarrow> int" where
  "log10_floor q =
     (let (a, b) = quotient_of q;
          e = int (length (show_nat (nat a))) - int (length (show_nat (nat b)))
      in if pow10 e \<le> q then e else e - 1)"

definition strip_zeros :: "string \<Rightarrow> string" where
  "strip_zeros ds = rev (dropWhile (\<lambda>c. c = CHR ''0'') (rev ds))"

definition with_frac :: "string \<Rightarrow> string \<Rightarrow> string" where
  "with_frac ip fp = (let f = strip_zeros fp in if f = [] then ip else ip @ ''.'' @ f)"

definition show_exp :: "int \<Rightarrow> string" where
  "show_exp e =
     (let ds = show_nat (nat \<bar>e\<bar>)
      in (if e < 0 then ''e-'' else ''e+'') @ (if length ds < 2 then ''0'' @ ds else ds))"

definition fmt_g_mag :: "nat \<Rightarrow> rat \<Rightarrow> string" where
  "fmt_g_mag P m =
     (if m = 0 then ''0''
      else let x0 = log10_floor m;
               d0 = rnd_half_even (m * pow10 (int P - 1 - x0));
               (x, d) = (if d0 = 10 ^ P then (x0 + 1, 10 ^ (P - 1)) else (x0, d0));
               ds = show_nat (nat d)
           in if - 4 \<le> x \<and> x < int P then
                (if 0 \<le> x then with_frac (take (Suc (nat x)) ds) (drop (Suc (nat x)) ds)
                 else with_frac ''0'' (replicate (nat (- x - 1)) (CHR ''0'') @ ds))
              else with_frac (take 1 ds) (drop 1 ds) @ show_exp x)"

definition fmt_g :: "nat \<Rightarrow> cdouble \<Rightarrow> string" where
  "fmt_g P d =
     (case d of DNaN \<Rightarrow> ''nan''
      | DInf s \<Rightarrow> (if s then ''-inf'' else ''inf'')
      | DFin s m \<Rightarrow> (if s then ''-'' else []) @ fmt_g_mag P m)"

text \<open>\<open>%.Pf\<close>; the sign of a NaN is not represented.\<close>

definition fmt_f :: "nat \<Rightarrow> cdouble \<Rightarrow> string" where
  "fmt_f P d =
     (case d of
        DNaN \<Rightarrow> ''nan''
      | DInf s \<Rightarrow> (if s then ''-inf'' else ''inf'')
      | DFin s m \<Rightarrow>
          (let n = nat (rnd_half_even (m * 10 ^ P)); f = show_nat (n mod 10 ^ P)
           in (if s then ''-'' else []) @ show_nat (n div 10 ^ P) @ ''.'' @ replicate (P - length f) (CHR ''0'') @ f))"

subsection \<open>Arithmetic on doubles\<close>

text \<open>The exact result rounded. An operand that is not finite gives NaN; the callers convert such a
  result to an integer, which is undefined for an infinity as well. A zero result is positive.\<close>

definition d_round :: "rat \<Rightarrow> cdouble" where
  "d_round q = to_double (q < 0) \<bar>q\<bar>"

definition d_op :: "(rat \<Rightarrow> rat \<Rightarrow> rat) \<Rightarrow> cdouble \<Rightarrow> cdouble \<Rightarrow> cdouble" where
  "d_op f a b = (if d_isfinite a \<and> d_isfinite b then d_round (f (d_val a) (d_val b)) else DNaN)"

end
