(* ===== verification/Dict.thy ===== *)
theory Dict
  imports Dict_Hash C_Numbers
begin

text \<open>
  The dictionary object of \<open>dict.c\<close> and \<open>dict.h\<close>: an open-addressing hash table with
  tombstones. This theory holds the data and the operations that read and change the
  table; \<open>Dict_Refine\<close> relates them to finite maps, \<open>Dict_Access\<close> adds the typed
  getters and the whole-dictionary operations.

  The tag \<open>val_type\<close> and the union \<open>val\<close> of a \<open>keypair\<close> are one datatype, with a
  constructor per tag that carries the union member used with that tag. The \<open>metadata\<close>
  time stamps are neither written nor read by the library and are left out. Stored keys and
  strings are private copies, so the pointer comparison \<open>ep->key == key\<close>, a shortcut for
  equal strings, is subsumed by the comparison of hash and characters.
\<close>

subsection \<open>Data\<close>

datatype val_type_t =
    VAL_END | VAL_NULL | VAL_STR | VAL_INT | VAL_UINT | VAL_LONG | VAL_ULONG
  | VAL_LLONG | VAL_ULLONG | VAL_FLOAT | VAL_BOOL | VAL_DOUBLE | VAL_FLOATP
  | VAL_DOUBLEP | VAL_CHAR | VAL_PTR

datatype dict_value =
    V_end
  | V_null
  | V_str "string ptr"
  | V_int u32
  | V_uint u32
  | V_long u64
  | V_ulong u64
  | V_llong u64
  | V_ullong u64
  | V_float cdouble
  | V_bool u32
  | V_double cdouble
  | V_floatp cdouble
  | V_doublep cdouble
  | V_char u8
  | V_ptr u64

fun val_type :: "dict_value \<Rightarrow> val_type_t" where
  "val_type V_end = VAL_END"
| "val_type V_null = VAL_NULL"
| "val_type (V_str _) = VAL_STR"
| "val_type (V_int _) = VAL_INT"
| "val_type (V_uint _) = VAL_UINT"
| "val_type (V_long _) = VAL_LONG"
| "val_type (V_ulong _) = VAL_ULONG"
| "val_type (V_llong _) = VAL_LLONG"
| "val_type (V_ullong _) = VAL_ULLONG"
| "val_type (V_float _) = VAL_FLOAT"
| "val_type (V_bool _) = VAL_BOOL"
| "val_type (V_double _) = VAL_DOUBLE"
| "val_type (V_floatp _) = VAL_FLOATP"
| "val_type (V_doublep _) = VAL_DOUBLEP"
| "val_type (V_char _) = VAL_CHAR"
| "val_type (V_ptr _) = VAL_PTR"

text \<open>The key field of a slot: empty, the tombstone \<open>DUMMY_PTR\<close>, or a string.\<close>

datatype slot_key = KNull | KDummy | KStr string

definition live_key :: "slot_key \<Rightarrow> bool" where
  "live_key k \<longleftrightarrow> k \<noteq> KNull \<and> k \<noteq> KDummy"

lemma live_key_simps [simp]:
  "\<not> live_key KNull" "\<not> live_key KDummy" "live_key (KStr s)"
  by (simp_all add: live_key_def)

lemma live_keyE: "live_key k \<Longrightarrow> (\<And>s. k = KStr s \<Longrightarrow> P) \<Longrightarrow> P"
  by (cases k) simp_all

record keypair =
  kp_key :: slot_key
  kp_val :: dict_value
  kp_hash :: u32

record dict =
  d_fill :: u32
  d_used :: u32
  d_size :: u32
  d_table :: "keypair list"

text \<open>A slot of memory cleared by \<open>calloc\<close>.\<close>

definition empty_slot :: keypair where
  "empty_slot = \<lparr>kp_key = KNull, kp_val = V_end, kp_hash = 0\<rparr>"

abbreviation DICT_MIN_SZ :: u32 where "DICT_MIN_SZ \<equiv> 8"
abbreviation DICT_BIGSZ :: u32 where "DICT_BIGSZ \<equiv> 64000"

subsection \<open>Lookup\<close>

text \<open>
  The collision loop of \<open>dict_lookup\<close>. It ends only at an empty slot or at the key, so it
  runs forever on a table that has neither.
\<close>

partial_function (option) probe_loop ::
    "keypair list \<Rightarrow> u32 \<Rightarrow> string \<Rightarrow> u32 \<Rightarrow> u32 \<Rightarrow> u32 \<Rightarrow> nat ptr \<Rightarrow> nat option" where
  "probe_loop table sz key hash i perturb freeslot =
     (let i = probe_next sz i perturb;
          ep = table ! unat i
      in if kp_key ep = KNull then
           Some (case freeslot of None \<Rightarrow> unat i | Some f \<Rightarrow> f)
         else if kp_hash ep = hash \<and> kp_key ep = KStr key then
           Some (unat i)
         else
           probe_loop table sz key hash i (drop_bit 5 perturb)
             (if kp_key ep = KDummy \<and> freeslot = None then Some (unat i) else freeslot))"

declare probe_loop.simps [code]

definition dict_lookup :: "dict ptr \<Rightarrow> string ptr \<Rightarrow> u32 \<Rightarrow> nat ptr comp" where
  "dict_lookup dp kp hash =
     (case (dp, kp) of
        (Some d, Some key) \<Rightarrow>
          (let i = probe_first (d_size d) hash;
               ep = d_table d ! unat i;
               loop = (\<lambda>freeslot. map_option Some
                 (probe_loop (d_table d) (d_size d) key hash i hash freeslot))
           in if kp_key ep = KNull then Some (Some (unat i))
              else if kp_key ep = KDummy then loop (Some (unat i))
              else if kp_hash ep = hash \<and> kp_key ep = KStr key then Some (Some (unat i))
              else loop None)
      | _ \<Rightarrow> Some NULL)"

subsection \<open>Resizing\<close>

definition dict_add_p :: "dict \<Rightarrow> keypair \<Rightarrow> (int \<times> dict) comp" where
  "dict_add_p d src =
     (case kp_key src of
        KStr key \<Rightarrow>
          (let hash = dict_hash key
           in do {
             slot \<leftarrow> dict_lookup (Some d) (Some key) hash;
             Some (case slot of
                 None \<Rightarrow> (- 1, d)
               | Some s \<Rightarrow>
                   (0, d\<lparr>d_table := (d_table d)[s := src\<lparr>kp_hash := hash\<rparr>],
                         d_used := d_used d + 1, d_fill := d_fill d + 1\<rparr>))
           })
      | _ \<Rightarrow> Some (- 1, d))"

partial_function (option) grow_size :: "u32 \<Rightarrow> u32 \<Rightarrow> u32 option" where
  "grow_size limit newsize =
     (if newsize \<le> limit then grow_size limit (newsize * 2) else Some newsize)"

declare grow_size.simps [code]

fun rehash :: "dict \<Rightarrow> keypair list \<Rightarrow> (int \<times> dict) comp" where
  "rehash d [] = Some (0, d)"
| "rehash d (kp # kps) =
     (if live_key (kp_key kp) then
        do {
          (r, d') \<leftarrow> dict_add_p d kp;
          if r \<noteq> 0 then Some (- 1, d') else rehash d' kps
        }
      else rehash d kps)"

definition dict_resize :: "dict \<Rightarrow> alloc \<Rightarrow> (int \<times> dict \<times> alloc) comp" where
  "dict_resize d a =
     do {
       newsize \<leftarrow> grow_size ((if d_size d > DICT_BIGSZ then 2 else 4) * d_used d) (d_size d);
       if newsize = d_size d then Some (0, d, a)
       else let (ok, a) = malloc_ok a
         in if \<not> ok then Some (- 1, d, a)
            else do {
              (r, d') \<leftarrow> rehash \<lparr>d_fill = 0, d_used = 0, d_size = newsize,
                                 d_table = replicate (unat newsize) empty_slot\<rparr> (d_table d);
              Some (if r = 0 then (0, d', a)
                else (- 1,
                  d\<lparr>d_used := of_nat (length (filter (\<lambda>kp. live_key (kp_key kp)) (d_table d))),
                    d_fill := of_nat (length (filter (\<lambda>kp. kp_key kp \<noteq> KNull) (d_table d)))\<rparr>,
                  a))
            }
     }"

subsection \<open>Storing\<close>

text \<open>The part of \<open>dict_store\<close> that commits the entry to its slot.\<close>

definition dict_commit :: "dict \<Rightarrow> nat \<Rightarrow> string \<Rightarrow> u32 \<Rightarrow> dict_value \<Rightarrow> dict" where
  "dict_commit d s key hash v =
     (let k = kp_key (d_table d ! s);
          d = (if live_key k then d\<lparr>d_used := d_used d - 1\<rparr>
               else if k = KDummy then d\<lparr>d_fill := d_fill d - 1\<rparr>
               else d)
      in d\<lparr>d_table := (d_table d)[s := \<lparr>kp_key = KStr key, kp_val = v, kp_hash = hash\<rparr>],
           d_used := d_used d + 1, d_fill := d_fill d + 1\<rparr>)"

definition dict_store ::
    "dict ptr \<Rightarrow> string ptr \<Rightarrow> dict_value \<Rightarrow> alloc \<Rightarrow> (int \<times> dict ptr \<times> alloc) comp" where
  "dict_store dp kp v a =
     (case (dp, kp) of
        (Some d, Some key) \<Rightarrow>
          (let hash = dict_hash key
           in do {
             slot \<leftarrow> dict_lookup dp kp hash;
             case slot of
               None \<Rightarrow> Some (- 1, dp, a)
             | Some s \<Rightarrow>
                 (let (ok_key, a) = malloc_ok a
                  in if \<not> ok_key then Some (- 1, dp, a)
                  else let (ok_str, a) =
                         (case v of V_str (Some _) \<Rightarrow> malloc_ok a | _ \<Rightarrow> (True, a))
                  in if \<not> ok_str then Some (- 1, dp, a)
                  else if \<not> live_key (kp_key (d_table d ! s))
                      \<and> 3 * (d_fill d + 1) \<ge> d_size d * 2 then
                    do {
                      (r, d', a) \<leftarrow> dict_resize d a;
                      if r \<noteq> 0 then Some (- 1, Some d', a)
                      else do {
                        slot \<leftarrow> dict_lookup (Some d') kp hash;
                        Some (case slot of
                            None \<Rightarrow> (- 1, Some d', a)
                          | Some s \<Rightarrow> (0, Some (dict_commit d' s key hash v), a))
                      }
                    }
                  else Some (0, Some (dict_commit d s key hash v), a))
           })
      | _ \<Rightarrow> Some (- 1, dp, a))"

definition dict_add where
  "dict_add d key val = dict_store d key (V_str val)"

definition dict_add_null where
  "dict_add_null d key = dict_store d key V_null"

definition dict_add_char where
  "dict_add_char d key val = dict_store d key (V_char val)"

definition dict_add_bool where
  "dict_add_bool d key val = dict_store d key (V_bool (if val then 1 else 0))"

definition dict_add_int where
  "dict_add_int d key val = dict_store d key (V_int val)"

definition dict_add_uint where
  "dict_add_uint d key val = dict_store d key (V_uint val)"

definition dict_add_long where
  "dict_add_long d key val = dict_store d key (V_long val)"

definition dict_add_ulong where
  "dict_add_ulong d key val = dict_store d key (V_ulong val)"

definition dict_add_llong where
  "dict_add_llong d key val = dict_store d key (V_llong val)"

definition dict_add_ullong where
  "dict_add_ullong d key val = dict_store d key (V_ullong val)"

definition dict_add_float where
  "dict_add_float d key val = dict_store d key (V_float val)"

definition dict_add_double where
  "dict_add_double d key val = dict_store d key (V_double val)"

definition dict_add_ptr where
  "dict_add_ptr d key val = dict_store d key (V_ptr val)"

lemmas dict_add_defs = dict_add_def dict_add_null_def dict_add_char_def dict_add_bool_def
  dict_add_int_def dict_add_uint_def dict_add_long_def dict_add_ulong_def dict_add_llong_def
  dict_add_ullong_def dict_add_float_def dict_add_double_def dict_add_ptr_def

subsection \<open>Creation, reading and deletion\<close>

definition dict_new :: "alloc \<Rightarrow> dict ptr \<times> alloc" where
  "dict_new a =
     (let (ok, a) = malloc_ok a
      in if \<not> ok then (NULL, a)
         else let (ok, a) = malloc_ok a
         in if \<not> ok then (NULL, a)
            else (Some \<lparr>d_fill = 0, d_used = 0, d_size = DICT_MIN_SZ,
                        d_table = replicate (unat DICT_MIN_SZ) empty_slot\<rparr>, a))"

definition dict_get_kp :: "dict ptr \<Rightarrow> string ptr \<Rightarrow> keypair ptr comp" where
  "dict_get_kp dp kp =
     (case (dp, kp) of
        (Some d, Some key) \<Rightarrow>
          do {
            slot \<leftarrow> dict_lookup dp kp (dict_hash key);
            Some (case slot of
                None \<Rightarrow> NULL
              | Some s \<Rightarrow>
                  (if live_key (kp_key (d_table d ! s)) then Some (d_table d ! s) else NULL))
          }
      | _ \<Rightarrow> Some NULL)"

definition dict_get :: "dict ptr \<Rightarrow> string ptr \<Rightarrow> string ptr \<Rightarrow> string ptr comp" where
  "dict_get dp kp def =
     (case (dp, kp) of
        (Some d, Some key) \<Rightarrow>
          do {
            slot \<leftarrow> dict_lookup dp kp (dict_hash key);
            Some (case slot of
                None \<Rightarrow> def
              | Some s \<Rightarrow>
                  (if live_key (kp_key (d_table d ! s)) then
                     case kp_val (d_table d ! s) of V_str str \<Rightarrow> str | _ \<Rightarrow> def
                   else def))
          }
      | _ \<Rightarrow> Some def)"

definition dict_get_type :: "dict ptr \<Rightarrow> string ptr \<Rightarrow> val_type_t comp" where
  "dict_get_type dp kp =
     (case (dp, kp) of
        (Some d, Some key) \<Rightarrow>
          do {
            slot \<leftarrow> dict_lookup dp kp (dict_hash key);
            Some (case slot of
                None \<Rightarrow> VAL_END
              | Some s \<Rightarrow>
                  (if live_key (kp_key (d_table d ! s)) then val_type (kp_val (d_table d ! s))
                   else VAL_END))
          }
      | _ \<Rightarrow> Some VAL_END)"

definition dict_del :: "dict ptr \<Rightarrow> string ptr \<Rightarrow> (int \<times> dict ptr) comp" where
  "dict_del dp kp =
     (case (dp, kp) of
        (Some d, Some key) \<Rightarrow>
          do {
            slot \<leftarrow> dict_lookup dp kp (dict_hash key);
            Some (case slot of
                None \<Rightarrow> (- 1, dp)
              | Some s \<Rightarrow>
                  (if live_key (kp_key (d_table d ! s)) then
                     (0, Some (d\<lparr>d_table := (d_table d)[s := (d_table d ! s)
                                   \<lparr>kp_key := KDummy, kp_val := V_null\<rparr>],
                                 d_used := d_used d - 1\<rparr>))
                   else (- 1, dp)))
          }
      | _ \<Rightarrow> Some (- 1, dp))"

subsection \<open>Enumeration\<close>

function enum_skip :: "keypair list \<Rightarrow> nat \<Rightarrow> nat" where
  "enum_skip t rank =
     (if rank < length t \<and> \<not> live_key (kp_key (t ! rank)) then enum_skip t (Suc rank) else rank)"
  by pat_completeness auto
termination
  by (relation "measure (\<lambda>(t, rank). length t - rank)") auto

declare enum_skip.simps [simp del]

text \<open>
  The next rank (or \<open>-1\<close>) with the key and the value found there; the out-parameters
  are cleared at the end of the table, as \<open>NULL\<close> here.
\<close>

definition dict_enumerate_typed :: "dict ptr \<Rightarrow> int \<Rightarrow> int \<times> (string \<times> dict_value) ptr" where
  "dict_enumerate_typed dp rank =
     (case dp of
        None \<Rightarrow> (- 1, NULL)
      | Some d \<Rightarrow>
          if rank < 0 then (- 1, NULL)
          else let r = enum_skip (d_table d) (nat rank)
            in if length (d_table d) \<le> r then (- 1, NULL)
               else case kp_key (d_table d ! r) of
                   KStr key \<Rightarrow> (int r + 1, Some (key, kp_val (d_table d ! r)))
                 | _ \<Rightarrow> (- 1, NULL))"

definition dict_enumerate :: "dict ptr \<Rightarrow> int \<Rightarrow> int \<times> (string \<times> string ptr) ptr" where
  "dict_enumerate dp rank =
     (case dict_enumerate_typed dp rank of
        (r, Some (key, v)) \<Rightarrow> (r, Some (key, case v of V_str s \<Rightarrow> s | _ \<Rightarrow> NULL))
      | (r, None) \<Rightarrow> (r, NULL))"

end
