(* ===== verification/Dict_Refine.thy ===== *)
theory Dict_Refine
  imports Dict
begin

text \<open>
  The table invariant of the dictionary and the proof that lookup, insertion, deletion and
  resizing implement a finite map from strings to typed values. The invariant says that
  every stored key is reachable: on its probe sequence no empty slot comes before it. A
  tombstone keeps such paths open, an insertion fills the first gap of its own path.
\<close>

subsection \<open>Invariant and abstraction\<close>

definition slot_at :: "keypair list \<Rightarrow> u32 \<Rightarrow> u32 \<Rightarrow> nat \<Rightarrow> slot_key" where
  "slot_at t sz h n = kp_key (t ! unat (probe_pos sz h n))"

definition open_path :: "keypair list \<Rightarrow> u32 \<Rightarrow> u32 \<Rightarrow> nat \<Rightarrow> bool" where
  "open_path t sz h n \<longleftrightarrow> (\<forall>m < n. slot_at t sz h m \<noteq> KNull)"

text \<open>Slot \<open>i\<close> is reached from the key's hash without crossing an empty slot.\<close>

definition on_path :: "u32 \<Rightarrow> keypair list \<Rightarrow> string \<Rightarrow> nat \<Rightarrow> bool" where
  "on_path sz t key i \<longleftrightarrow>
     (\<exists>n. unat (probe_pos sz (dict_hash key) n) = i \<and> open_path t sz (dict_hash key) n)"

definition size_ok :: "u32 \<Rightarrow> bool" where
  "size_ok sz \<longleftrightarrow> (\<exists>k \<ge> 3. unat sz = 2 ^ k)"

definition reachable_keys :: "u32 \<Rightarrow> keypair list \<Rightarrow> bool" where
  "reachable_keys sz t \<longleftrightarrow>
     (\<forall>i < length t. \<forall>key. kp_key (t ! i) = KStr key \<longrightarrow>
        kp_hash (t ! i) = dict_hash key \<and> on_path sz t key i)"

definition unique_keys :: "keypair list \<Rightarrow> bool" where
  "unique_keys t \<longleftrightarrow>
     (\<forall>i < length t. \<forall>j < length t. \<forall>key.
        kp_key (t ! i) = KStr key \<longrightarrow> kp_key (t ! j) = KStr key \<longrightarrow> i = j)"

definition table_inv :: "u32 \<Rightarrow> keypair list \<Rightarrow> bool" where
  "table_inv sz t \<longleftrightarrow>
     size_ok sz \<and> length t = unat sz \<and> reachable_keys sz t \<and> unique_keys t"

definition has_free :: "keypair list \<Rightarrow> bool" where
  "has_free t \<longleftrightarrow> (\<exists>i < length t. kp_key (t ! i) = KNull)"

definition has_key :: "keypair list \<Rightarrow> string \<Rightarrow> bool" where
  "has_key t key \<longleftrightarrow> (\<exists>i < length t. kp_key (t ! i) = KStr key)"

fun entries :: "keypair list \<Rightarrow> (string \<times> dict_value) list" where
  "entries [] = []"
| "entries (kp # kps) =
     (case kp_key kp of KStr key \<Rightarrow> (key, kp_val kp) # entries kps | _ \<Rightarrow> entries kps)"

definition dict_map :: "dict \<Rightarrow> string \<rightharpoonup> dict_value" where
  "dict_map d = map_of (entries (d_table d))"

lemma size_okD: "size_ok sz \<Longrightarrow> \<exists>k. unat sz = 2 ^ k"
  by (auto simp: size_ok_def)

lemma table_invD:
  assumes "table_inv sz t"
  shows "size_ok sz" and "length t = unat sz" and "reachable_keys sz t" and "unique_keys t"
  using assms by (simp_all add: table_inv_def)

lemma pos_in_table:
  assumes "table_inv sz t"
  shows "unat (probe_pos sz h n) < length t"
  using assms probe_pos_less by (auto simp: table_inv_def dest: size_okD)

lemma unique_keys_Cons:
  "unique_keys (kp # t) \<longleftrightarrow>
     unique_keys t \<and> (\<forall>key. kp_key kp = KStr key \<longrightarrow> \<not> has_key t key)"
proof
  assume u: "unique_keys (kp # t)"
  have "unique_keys t"
    unfolding unique_keys_def
  proof (intro allI impI)
    fix i j key
    assume "i < length t" "j < length t" "kp_key (t ! i) = KStr key" "kp_key (t ! j) = KStr key"
    then have "Suc i = Suc j"
      using u [unfolded unique_keys_def, rule_format, of "Suc i" "Suc j" key] by simp
    then show "i = j" by simp
  qed
  moreover have "\<not> has_key t key" if "kp_key kp = KStr key" for key
  proof
    assume "has_key t key"
    then obtain i where "i < length t" "kp_key (t ! i) = KStr key" by (auto simp: has_key_def)
    with that show False
      using u [unfolded unique_keys_def, rule_format, of 0 "Suc i" key] by simp
  qed
  ultimately show "unique_keys t \<and> (\<forall>key. kp_key kp = KStr key \<longrightarrow> \<not> has_key t key)"
    by blast
next
  assume "unique_keys t \<and> (\<forall>key. kp_key kp = KStr key \<longrightarrow> \<not> has_key t key)"
  then show "unique_keys (kp # t)"
    unfolding unique_keys_def has_key_def by (auto simp: less_Suc_eq_0_disj nth_Cons')
qed

lemma entries_mem:
  "(key, v) \<in> set (entries t) \<longleftrightarrow> (\<exists>i < length t. kp_key (t ! i) = KStr key \<and> kp_val (t ! i) = v)"
proof (induction t)
  case Nil
  then show ?case by simp
next
  case (Cons kp t)
  then show ?case
    by (cases "kp_key kp") (auto simp: less_Suc_eq_0_disj)
qed

lemma fst_entries: "key \<in> fst ` set (entries t) \<longleftrightarrow> has_key t key"
  unfolding has_key_def image_iff Bex_def by (auto simp: entries_mem)

lemma distinct_entries: "unique_keys t \<Longrightarrow> distinct (map fst (entries t))"
proof (induction t)
  case (Cons kp t)
  then show ?case
    by (cases "kp_key kp") (auto simp: unique_keys_Cons fst_entries image_iff has_key_def entries_mem)
qed simp

lemma map_of_entries:
  assumes "unique_keys t"
  shows "map_of (entries t) key = Some v \<longleftrightarrow>
    (\<exists>i < length t. kp_key (t ! i) = KStr key \<and> kp_val (t ! i) = v)"
  using assms distinct_entries [of t] by (simp add: map_of_eq_Some_iff entries_mem)

lemma map_of_entries_None: "map_of (entries t) key = None \<longleftrightarrow> \<not> has_key t key"
  by (simp add: map_of_eq_None_iff fst_entries)

lemma map_eqI: "(\<And>x v. f x = Some v \<longleftrightarrow> g x = Some v) \<Longrightarrow> f = g"
  by (rule ext) (metis not_None_eq)

text \<open>Writing a key into its own slot, or into a dead slot when it is new.\<close>

lemma unique_keys_put:
  assumes "unique_keys t" and "s < length t"
    and "kp_key (t ! s) = KStr key \<or> \<not> live_key (kp_key (t ! s)) \<and> \<not> has_key t key"
    and "kp_key kp = KStr key"
  shows "unique_keys (t[s := kp])"
  using assms unfolding unique_keys_def has_key_def
  by (auto simp: nth_list_update split: if_splits)

lemma entries_put:
  assumes u: "unique_keys t" and s: "s < length t"
    and k: "kp_key (t ! s) = KStr key \<or> \<not> live_key (kp_key (t ! s)) \<and> \<not> has_key t key"
    and kp: "kp_key kp = KStr key"
  shows "map_of (entries (t[s := kp])) = (map_of (entries t))(key \<mapsto> kp_val kp)"
proof (rule map_eqI)
  fix x v
  note u' = unique_keys_put [OF assms]
  show "map_of (entries (t[s := kp])) x = Some v \<longleftrightarrow>
      ((map_of (entries t))(key \<mapsto> kp_val kp)) x = Some v"
  proof (cases "x = key")
    case True
    have "map_of (entries (t[s := kp])) key = Some (kp_val kp)"
      using s kp by (subst map_of_entries [OF u']) (auto intro!: exI [of _ s])
    with True show ?thesis by simp
  next
    case False
    have "kp_key (t ! s) \<noteq> KStr x" using False k by auto
    with False kp s show ?thesis
      by (auto simp: map_of_entries [OF u'] map_of_entries [OF u] nth_list_update)
  qed
qed

lemma unique_keys_kill:
  assumes "unique_keys t" and "s < length t" and "\<not> live_key (kp_key kp)"
  shows "unique_keys (t[s := kp])"
  using assms unfolding unique_keys_def
  by (auto simp: nth_list_update split: if_splits)

lemma entries_kill:
  assumes u: "unique_keys t" and s: "s < length t"
    and k: "kp_key (t ! s) = KStr key" and kp: "\<not> live_key (kp_key kp)"
  shows "map_of (entries (t[s := kp])) = (map_of (entries t))(key := None)"
proof (rule map_eqI)
  fix x v
  note u' = unique_keys_kill [OF u s kp]
  show "map_of (entries (t[s := kp])) x = Some v \<longleftrightarrow>
      ((map_of (entries t))(key := None)) x = Some v"
  proof (cases "x = key")
    case True
    have "\<not> has_key (t[s := kp]) key"
    proof
      assume "has_key (t[s := kp]) key"
      then obtain i where i: "i < length t" "kp_key (t[s := kp] ! i) = KStr key"
        by (auto simp: has_key_def)
      with kp s have "i \<noteq> s" by auto
      with i s have "kp_key (t ! i) = KStr key" by simp
      with u k s i \<open>i \<noteq> s\<close> show False unfolding unique_keys_def by blast
    qed
    with True show ?thesis by (simp add: map_of_entries_None [THEN iffD2])
  next
    case False
    have "kp_key kp \<noteq> KStr x" using kp by auto
    then have "(\<exists>i < length t. kp_key (t[s := kp] ! i) = KStr x \<and> kp_val (t[s := kp] ! i) = v) \<longleftrightarrow>
        (\<exists>i < length t. kp_key (t ! i) = KStr x \<and> kp_val (t ! i) = v)"
      using False k s by (intro ex_cong1) (auto simp: nth_list_update)
    with False show ?thesis by (simp add: map_of_entries [OF u'] map_of_entries [OF u])
  qed
qed

subsection \<open>Lookup\<close>

text \<open>
  What a slot returned by \<open>dict_lookup\<close> is good for: it holds the key, or the key is not
  stored and the slot is dead and reachable on the key's path.
\<close>

definition slot_for :: "u32 \<Rightarrow> keypair list \<Rightarrow> string \<Rightarrow> nat \<Rightarrow> bool" where
  "slot_for sz t key s \<longleftrightarrow>
     s < length t \<and>
     (kp_key (t ! s) = KStr key \<or>
      \<not> has_key t key \<and> \<not> live_key (kp_key (t ! s)) \<and> on_path sz t key s)"

lemma open_path_Suc:
  "open_path t sz h (Suc n) \<longleftrightarrow> open_path t sz h n \<and> slot_at t sz h n \<noteq> KNull"
  by (auto simp: open_path_def less_Suc_eq)

lemma probe_loop_step:
  "probe_loop t sz key h (probe_pos sz h n) (probe_perturb h n) fs =
     (let i = probe_pos sz h (Suc n); ep = t ! unat i
      in if kp_key ep = KNull then Some (case fs of None \<Rightarrow> unat i | Some f \<Rightarrow> f)
         else if kp_hash ep = h \<and> kp_key ep = KStr key then Some (unat i)
         else probe_loop t sz key h i (probe_perturb h (Suc n))
                (if kp_key ep = KDummy \<and> fs = None then Some (unat i) else fs))"
  by (subst probe_loop.simps) (simp add: Let_def)

text \<open>The key is stored: the loop walks the open path to it.\<close>

lemma probe_loop_present:
  assumes "slot_at t sz h N = KStr key" and "kp_hash (t ! unat (probe_pos sz h N)) = h"
    and "\<forall>m < N. slot_at t sz h m \<noteq> KNull \<and> slot_at t sz h m \<noteq> KStr key"
    and "n < N"
  shows "probe_loop t sz key h (probe_pos sz h n) (probe_perturb h n) fs =
    Some (unat (probe_pos sz h N))"
  using assms(4)
proof (induction "N - n" arbitrary: n fs)
  case 0
  then show ?case by simp
next
  case (Suc x)
  show ?case
  proof (cases "Suc n = N")
    case True
    with assms(1,2) show ?thesis
      by (subst probe_loop_step) (simp add: Let_def slot_at_def)
  next
    case False
    with Suc.prems have lt: "Suc n < N" by simp
    with assms(3) have "slot_at t sz h (Suc n) \<noteq> KNull" "slot_at t sz h (Suc n) \<noteq> KStr key"
      by blast+
    moreover have "x = N - Suc n" using Suc.hyps(2) by simp
    ultimately show ?thesis
      using Suc.hyps(1) [OF \<open>x = N - Suc n\<close> lt]
      by (subst probe_loop_step) (simp add: Let_def slot_at_def del: probe_pos.simps probe_perturb.simps)
  qed
qed

text \<open>The key is not stored: the loop ends at the first empty slot of the path.\<close>

definition free_ok :: "keypair list \<Rightarrow> u32 \<Rightarrow> u32 \<Rightarrow> nat ptr \<Rightarrow> bool" where
  "free_ok t sz h fs \<longleftrightarrow>
     (\<forall>f. fs = Some f \<longrightarrow>
        (\<exists>j. f = unat (probe_pos sz h j) \<and> open_path t sz h j \<and> \<not> live_key (slot_at t sz h j)))"

lemma probe_loop_absent:
  assumes inv: "table_inv sz t" and "\<not> has_key t key"
    and "slot_at t sz h N = KNull" and "open_path t sz h N"
    and "n < N" and "free_ok t sz h fs"
  shows "\<exists>j. probe_loop t sz key h (probe_pos sz h n) (probe_perturb h n) fs =
      Some (unat (probe_pos sz h j)) \<and> open_path t sz h j \<and> \<not> live_key (slot_at t sz h j)"
  using assms(5,6)
proof (induction "N - n" arbitrary: n fs)
  case 0
  then show ?case by simp
next
  case (Suc x)
  have nokey: "slot_at t sz h m \<noteq> KStr key" for m
    using assms(2) pos_in_table [OF inv, of h m] by (auto simp: has_key_def slot_at_def)
  show ?case
  proof (cases "Suc n = N")
    case True
    then have "slot_at t sz h (Suc n) = KNull" "open_path t sz h (Suc n)"
      using assms(3,4) by simp_all
    with Suc.prems(2) show ?thesis
      by (subst probe_loop_step)
        (cases fs, auto simp: Let_def slot_at_def free_ok_def simp del: probe_pos.simps intro!: exI [of _ "Suc n"])
  next
    case False
    with Suc.prems have lt: "Suc n < N" by simp
    with assms(4) have nn: "slot_at t sz h (Suc n) \<noteq> KNull" and op: "open_path t sz h (Suc n)"
      by (auto simp: open_path_def)
    define fs' where "fs' = (if slot_at t sz h (Suc n) = KDummy \<and> fs = None
        then Some (unat (probe_pos sz h (Suc n))) else fs)"
    have "free_ok t sz h fs'"
      using Suc.prems(2) op unfolding free_ok_def fs'_def by (auto simp del: probe_pos.simps)
    moreover have "x = N - Suc n" using Suc.hyps(2) by simp
    ultimately show ?thesis
      using Suc.hyps(1) [OF _ lt, of fs'] nn nokey [of "Suc n"]
      by (subst probe_loop_step)
        (simp add: Let_def slot_at_def fs'_def del: probe_pos.simps probe_perturb.simps)
  qed
qed

lemma lookup_present:
  assumes inv: "table_inv (d_size d) (d_table d)" and i: "i < length (d_table d)"
    and key: "kp_key (d_table d ! i) = KStr key"
  shows "dict_lookup (Some d) (Some key) (dict_hash key) = Some (Some i)"
proof -
  let ?sz = "d_size d" and ?t = "d_table d" and ?h = "dict_hash key"
  from inv i key obtain n where hash: "kp_hash (?t ! i) = ?h"
    and n: "unat (probe_pos ?sz ?h n) = i" and op: "open_path ?t ?sz ?h n"
    unfolding table_inv_def reachable_keys_def on_path_def by blast
  define N where "N = (LEAST n. unat (probe_pos ?sz ?h n) = i)"
  have N: "unat (probe_pos ?sz ?h N) = i" unfolding N_def using n by (rule LeastI)
  have "N \<le> n" unfolding N_def using n by (rule Least_le)
  have least: "unat (probe_pos ?sz ?h m) \<noteq> i" if "m < N" for m
    using that unfolding N_def by (rule not_less_Least)
  have path: "\<forall>m < N. slot_at ?t ?sz ?h m \<noteq> KNull \<and> slot_at ?t ?sz ?h m \<noteq> KStr key"
  proof (intro allI impI conjI)
    fix m assume m: "m < N"
    with op \<open>N \<le> n\<close> show "slot_at ?t ?sz ?h m \<noteq> KNull" by (simp add: open_path_def)
    show "slot_at ?t ?sz ?h m \<noteq> KStr key"
      using least [OF m] inv i key pos_in_table [OF inv, of ?h m]
      unfolding table_inv_def unique_keys_def slot_at_def by blast
  qed
  show ?thesis
  proof (cases "N = 0")
    case True
    with N key hash show ?thesis by (simp add: dict_lookup_def Let_def)
  next
    case False
    then have "slot_at ?t ?sz ?h 0 \<noteq> KNull" "slot_at ?t ?sz ?h 0 \<noteq> KStr key"
      using path by auto
    moreover have "probe_loop ?t ?sz key ?h (probe_first ?sz ?h) ?h fs = Some i" for fs
      using probe_loop_present [of ?t ?sz ?h N key 0 fs] path N key hash False
      by (simp add: slot_at_def)
    ultimately show ?thesis
      by (simp add: dict_lookup_def Let_def slot_at_def)
  qed
qed

lemma lookup_absent:
  assumes inv: "table_inv (d_size d) (d_table d)" and free: "has_free (d_table d)"
    and key: "\<not> has_key (d_table d) key"
  shows "\<exists>s. dict_lookup (Some d) (Some key) (dict_hash key) = Some (Some s) \<and>
    slot_for (d_size d) (d_table d) key s"
proof -
  let ?sz = "d_size d" and ?t = "d_table d" and ?h = "dict_hash key"
  from free obtain p where p: "p < length ?t" "kp_key (?t ! p) = KNull"
    by (auto simp: has_free_def)
  obtain k where k: "unat ?sz = 2 ^ k" using inv size_okD by (auto simp: table_inv_def)
  have "p < unat ?sz" using p inv by (simp add: table_inv_def)
  then obtain n where n: "slot_at ?t ?sz ?h n = KNull"
    using probe_visits_all [OF k, of p ?h] p by (auto simp: slot_at_def)
  define N where "N = (LEAST n. slot_at ?t ?sz ?h n = KNull)"
  have N: "slot_at ?t ?sz ?h N = KNull" unfolding N_def using n by (rule LeastI)
  have op: "open_path ?t ?sz ?h N"
    unfolding open_path_def N_def by (auto dest: not_less_Least)
  have slot: "slot_for ?sz ?t key (unat (probe_pos ?sz ?h j))"
    if "open_path ?t ?sz ?h j" "\<not> live_key (slot_at ?t ?sz ?h j)" for j
    using that key pos_in_table [OF inv] unfolding slot_for_def slot_at_def on_path_def by blast
  show ?thesis
  proof (cases "N = 0")
    case True
    then show ?thesis
      using slot [OF op] N by (simp add: dict_lookup_def Let_def slot_at_def)
  next
    case False
    then have nn: "slot_at ?t ?sz ?h 0 \<noteq> KNull" using op by (simp add: open_path_def)
    have loop: "\<exists>s. probe_loop ?t ?sz key ?h (probe_first ?sz ?h) ?h fs = Some s \<and>
        slot_for ?sz ?t key s" if "free_ok ?t ?sz ?h fs" for fs
      using probe_loop_absent [OF inv key N op _ that, of 0] False slot by auto
    have "free_ok ?t ?sz ?h None" by (simp add: free_ok_def)
    from loop [OF this] obtain s1 where s1: "probe_loop ?t ?sz key ?h (probe_first ?sz ?h) ?h None = Some s1"
        "slot_for ?sz ?t key s1" by blast
    show ?thesis
    proof (cases "slot_at ?t ?sz ?h 0 = KDummy")
      case True
      then have "free_ok ?t ?sz ?h (Some (unat (probe_first ?sz ?h)))"
        by (auto simp: free_ok_def open_path_def intro!: exI [of _ 0])
      from loop [OF this] True show ?thesis
        by (auto simp: dict_lookup_def Let_def slot_at_def)
    next
      case False
      moreover have "slot_at ?t ?sz ?h 0 \<noteq> KStr key"
        using key pos_in_table [OF inv, of ?h 0] by (auto simp: has_key_def slot_at_def)
      ultimately show ?thesis
        using s1 nn by (simp add: dict_lookup_def Let_def slot_at_def)
    qed
  qed
qed

text \<open>Lookup always returns when the key is stored or the table has an empty slot.\<close>

lemma lookup_slot:
  assumes "table_inv (d_size d) (d_table d)"
    and "has_free (d_table d) \<or> has_key (d_table d) key"
  obtains s where "dict_lookup (Some d) (Some key) (dict_hash key) = Some (Some s)"
    and "slot_for (d_size d) (d_table d) key s"
proof (cases "has_key (d_table d) key")
  case True
  then obtain i where i: "i < length (d_table d)" "kp_key (d_table d ! i) = KStr key"
    by (auto simp: has_key_def)
  with lookup_present [OF assms(1) i] that [of i] show ?thesis by (simp add: slot_for_def)
next
  case False
  with assms lookup_absent that show ?thesis by blast
qed

lemma slot_for_live:
  assumes "table_inv sz t" and "slot_for sz t key s"
  shows "live_key (kp_key (t ! s)) \<longleftrightarrow> kp_key (t ! s) = KStr key"
    and "live_key (kp_key (t ! s)) \<longleftrightarrow> has_key t key"
  using assms unfolding slot_for_def has_key_def by auto

subsection \<open>Writing a slot\<close>

lemma slot_at_update:
  "s < length t \<Longrightarrow> slot_at (t[s := kp]) sz h n =
    (if unat (probe_pos sz h n) = s then kp_key kp else slot_at t sz h n)"
  by (auto simp: slot_at_def nth_list_update)

lemma open_path_update:
  "s < length t \<Longrightarrow> kp_key kp \<noteq> KNull \<Longrightarrow> open_path t sz h n \<Longrightarrow> open_path (t[s := kp]) sz h n"
  by (simp add: open_path_def slot_at_update)

lemma on_path_update:
  "s < length t \<Longrightarrow> kp_key kp \<noteq> KNull \<Longrightarrow> on_path sz t key i \<Longrightarrow> on_path sz (t[s := kp]) key i"
  unfolding on_path_def by (blast intro: open_path_update)

lemma table_inv_put:
  assumes inv: "table_inv sz t" and slot: "slot_for sz t key s"
    and kp: "kp_key kp = KStr key" "kp_hash kp = dict_hash key"
  shows "table_inv sz (t[s := kp])"
proof -
  note s = slot [unfolded slot_for_def]
  have reach: "on_path sz t key s"
    using s inv unfolding table_inv_def reachable_keys_def by blast
  have "reachable_keys sz (t[s := kp])"
    unfolding reachable_keys_def
  proof (intro allI impI)
    fix i k
    assume i: "i < length (t[s := kp])" and k: "kp_key (t[s := kp] ! i) = KStr k"
    show "kp_hash (t[s := kp] ! i) = dict_hash k \<and> on_path sz (t[s := kp]) k i"
    proof (cases "i = s")
      case True
      with k kp s reach show ?thesis by (auto intro: on_path_update)
    next
      case False
      with i k inv s have "kp_hash (t ! i) = dict_hash k \<and> on_path sz t k i"
        unfolding table_inv_def reachable_keys_def by auto
      with False s kp show ?thesis by (auto intro: on_path_update)
    qed
  qed
  moreover have "unique_keys (t[s := kp])"
    using inv s kp by (auto intro!: unique_keys_put [of t s key kp] simp: table_inv_def)
  ultimately show ?thesis using inv by (simp add: table_inv_def)
qed

lemma entries_slot_for:
  assumes "table_inv sz t" and "slot_for sz t key s" and "kp_key kp = KStr key"
  shows "map_of (entries (t[s := kp])) = (map_of (entries t))(key \<mapsto> kp_val kp)"
  using assms by (intro entries_put) (auto simp: table_inv_def slot_for_def)

lemma table_inv_kill:
  assumes inv: "table_inv sz t" and s: "s < length t" and kp: "kp_key kp = KDummy"
  shows "table_inv sz (t[s := kp])"
proof -
  have "reachable_keys sz (t[s := kp])"
    unfolding reachable_keys_def
  proof (intro allI impI)
    fix i k
    assume i: "i < length (t[s := kp])" and k: "kp_key (t[s := kp] ! i) = KStr k"
    with s kp have "i \<noteq> s" by auto
    with i k inv s have "kp_hash (t ! i) = dict_hash k \<and> on_path sz t k i"
      unfolding table_inv_def reachable_keys_def by auto
    with \<open>i \<noteq> s\<close> s kp show "kp_hash (t[s := kp] ! i) = dict_hash k \<and> on_path sz (t[s := kp]) k i"
      by (auto intro: on_path_update)
  qed
  moreover have "unique_keys (t[s := kp])"
    using inv s kp by (auto intro: unique_keys_kill simp: table_inv_def)
  ultimately show ?thesis using inv by (simp add: table_inv_def)
qed

subsection \<open>Occupancy\<close>

definition live_count :: "keypair list \<Rightarrow> nat" where
  "live_count t = length (filter (\<lambda>kp. live_key (kp_key kp)) t)"

definition occupied :: "keypair list \<Rightarrow> nat" where
  "occupied t = length (filter (\<lambda>kp. kp_key kp \<noteq> KNull) t)"

definition no_dummy :: "keypair list \<Rightarrow> bool" where
  "no_dummy t \<longleftrightarrow> (\<forall>kp \<in> set t. kp_key kp \<noteq> KDummy)"

lemma live_le_occupied: "live_count t \<le> occupied t"
  unfolding live_count_def occupied_def by (induction t) (auto simp: live_key_def)

lemma no_dummy_occupied: "no_dummy t \<Longrightarrow> occupied t = live_count t"
  unfolding live_count_def occupied_def no_dummy_def
  by (intro arg_cong [where f = length] filter_cong) (auto simp: live_key_def)

lemma occupied_le: "occupied t \<le> length t"
  by (simp add: occupied_def)

lemma has_free_iff: "has_free t \<longleftrightarrow> occupied t < length t"
proof
  assume "has_free t"
  then obtain kp where "kp \<in> set t" "kp_key kp = KNull"
    unfolding has_free_def by (meson nth_mem)
  then show "occupied t < length t"
    unfolding occupied_def by (intro length_filter_less) auto
next
  assume "occupied t < length t"
  then show "has_free t"
    unfolding occupied_def has_free_def
    by (metis (mono_tags, lifting) filter_True in_set_conv_nth less_irrefl)
qed

lemma no_dummy_update: "no_dummy t \<Longrightarrow> kp_key kp \<noteq> KDummy \<Longrightarrow> no_dummy (t[s := kp])"
  unfolding no_dummy_def by (auto dest!: set_update_subset_insert [THEN subsetD])

lemma entries_live: "length (entries t) = live_count t"
  unfolding live_count_def by (induction t) (auto split: slot_key.splits)

subsection \<open>The dictionary invariant\<close>

text \<open>
  \<open>used\<close> is exact; \<open>fill\<close> is at least the number of slots that are not empty. It may be
  larger: \<open>dict_store\<close> increments it on every replacement as well.
\<close>

definition dict_inv :: "dict \<Rightarrow> bool" where
  "dict_inv d \<longleftrightarrow>
     table_inv (d_size d) (d_table d) \<and>
     unat (d_used d) = live_count (d_table d) \<and>
     occupied (d_table d) \<le> unat (d_fill d)"

text \<open>A dictionary no entry of which has been deleted since the last rehash.\<close>

definition dict_clean :: "dict \<Rightarrow> bool" where
  "dict_clean d \<longleftrightarrow> dict_inv d \<and> no_dummy (d_table d) \<and> has_free (d_table d)"

text \<open>Headroom of the 32-bit counters: no product of the growth policy wraps around.\<close>

definition dict_room :: "nat \<Rightarrow> dict \<Rightarrow> bool" where
  "dict_room n d \<longleftrightarrow> unat (d_fill d) + n \<le> 2 ^ 28"

lemma dict_cleanD: "dict_clean d \<Longrightarrow> dict_inv d" "dict_clean d \<Longrightarrow> has_free (d_table d)"
  by (simp_all add: dict_clean_def)

lemma dict_room_mono: "dict_room n d \<Longrightarrow> m \<le> n \<Longrightarrow> dict_room m d"
  by (simp add: dict_room_def)

lemma dict_invD:
  assumes "dict_inv d"
  shows "table_inv (d_size d) (d_table d)" and "unat (d_used d) = live_count (d_table d)"
    and "occupied (d_table d) \<le> unat (d_fill d)"
  using assms by (simp_all add: dict_inv_def)

lemma card_dict_map: "dict_inv d \<Longrightarrow> card (dom (dict_map d)) = unat (d_used d)"
proof -
  assume inv: "dict_inv d"
  then have dist: "distinct (map fst (entries (d_table d)))"
    by (intro distinct_entries) (simp add: dict_inv_def table_inv_def)
  have "dom (dict_map d) = set (map fst (entries (d_table d)))"
    by (simp add: dict_map_def dom_map_of_conv_image_fst)
  with distinct_card [OF dist] inv show ?thesis
    by (simp add: entries_live dict_inv_def)
qed

lemma table_inv_length: "table_inv sz t \<Longrightarrow> 8 \<le> length t \<and> length t \<le> 2 ^ 31"
proof -
  assume inv: "table_inv sz t"
  then obtain k where k: "3 \<le> k" "unat sz = 2 ^ k" by (auto simp: table_inv_def size_ok_def)
  have "k \<le> 31" using size_exp_less [OF k(2)] by simp
  then have "(2::nat) ^ k \<le> 2 ^ 31" by (rule power_increasing) simp
  moreover have "(2::nat) ^ 3 \<le> 2 ^ k" using k(1) by (rule power_increasing) simp
  ultimately show ?thesis using inv k by (simp add: table_inv_def)
qed

subsection \<open>Committing an entry\<close>

lemma commit_table:
  "d_table (dict_commit d s key h v) =
     (d_table d)[s := \<lparr>kp_key = KStr key, kp_val = v, kp_hash = h\<rparr>]"
  "d_size (dict_commit d s key h v) = d_size d"
  by (simp_all add: dict_commit_def Let_def)

lemma live_count_put:
  assumes "s < length t" and "live_key (kp_key kp)"
  shows "live_count (t[s := kp]) = live_count t + of_bool (\<not> live_key (kp_key (t ! s)))"
  using length_filter_update [OF assms(1), of "\<lambda>kp. live_key (kp_key kp)" kp] assms(2)
  by (cases "live_key (kp_key (t ! s))") (simp_all add: live_count_def)

lemma occupied_put:
  assumes "s < length t" and "live_key (kp_key kp)"
  shows "occupied (t[s := kp]) = occupied t + of_bool (kp_key (t ! s) = KNull)"
proof -
  have "kp_key kp \<noteq> KNull" using assms(2) by auto
  then show ?thesis
    using length_filter_update [OF assms(1), of "\<lambda>kp. kp_key kp \<noteq> KNull" kp]
    by (cases "kp_key (t ! s) = KNull") (simp_all add: occupied_def)
qed

lemma commit_used:
  assumes inv: "dict_inv d" and s: "s < length (d_table d)"
  shows "unat (d_used (dict_commit d s key h v)) =
    live_count (d_table (dict_commit d s key h v))"
proof -
  have len: "live_count (d_table d) + 1 < 2 ^ 32"
    using table_inv_length [OF dict_invD(1) [OF inv]] live_le_occupied [of "d_table d"]
      occupied_le [of "d_table d"]
    by simp
  show ?thesis
    using inv s len by (simp add: dict_commit_def Let_def live_count_put dict_inv_def unat_add_one)
qed

lemma commit_fill:
  assumes inv: "dict_inv d" and room: "dict_room 1 d" and s: "s < length (d_table d)"
  shows "occupied (d_table (dict_commit d s key h v)) \<le> unat (d_fill (dict_commit d s key h v))"
    and "unat (d_fill (dict_commit d s key h v)) \<le> unat (d_fill d) + 1"
proof -
  have occ: "occupied (d_table d) \<le> unat (d_fill d)" using inv by (simp add: dict_inv_def)
  have ov: "unat (d_fill d) + 1 < 2 ^ 32" using room by (simp add: dict_room_def)
  have pos: "0 < unat (d_fill d)" if "kp_key (d_table d ! s) = KDummy"
  proof -
    have "d_table d ! s \<in> set (filter (\<lambda>kp. kp_key kp \<noteq> KNull) (d_table d))"
      using that s by simp
    then have "0 < occupied (d_table d)" unfolding occupied_def by (rule length_pos_if_in_set)
    with occ show ?thesis by simp
  qed
  show "occupied (d_table (dict_commit d s key h v)) \<le> unat (d_fill (dict_commit d s key h v))"
    and "unat (d_fill (dict_commit d s key h v)) \<le> unat (d_fill d) + 1"
    using occ pos s ov unat_add_one [of "d_fill d"]
    by (auto simp: dict_commit_def Let_def occupied_put)
qed

lemma commit_correct:
  assumes inv: "dict_inv d" and room: "dict_room 1 d"
    and slot: "slot_for (d_size d) (d_table d) key s"
  shows "dict_inv (dict_commit d s key (dict_hash key) v)"
    and "dict_map (dict_commit d s key (dict_hash key) v) = (dict_map d)(key \<mapsto> v)"
proof -
  have s: "s < length (d_table d)" using slot by (simp add: slot_for_def)
  note tinv = dict_invD(1) [OF inv]
  show "dict_inv (dict_commit d s key (dict_hash key) v)"
    unfolding dict_inv_def commit_used [OF inv s]
    using table_inv_put [OF tinv slot] commit_fill [OF inv room s] by (simp add: commit_table)
  show "dict_map (dict_commit d s key (dict_hash key) v) = (dict_map d)(key \<mapsto> v)"
    unfolding dict_map_def commit_table by (subst entries_slot_for [OF tinv slot]) simp_all
qed

subsection \<open>Reading\<close>

lemma dict_map_slot:
  assumes inv: "dict_inv d" and slot: "slot_for (d_size d) (d_table d) key s"
  shows "dict_map d key =
    (if live_key (kp_key (d_table d ! s)) then Some (kp_val (d_table d ! s)) else None)"
proof (cases "live_key (kp_key (d_table d ! s))")
  case True
  with slot have "kp_key (d_table d ! s) = KStr key" "s < length (d_table d)"
    by (auto simp: slot_for_def)
  with True dict_invD(1) [OF inv] show ?thesis
    unfolding dict_map_def by (auto simp: table_inv_def map_of_entries)
next
  case False
  with slot have "\<not> has_key (d_table d) key" by (auto simp: slot_for_def)
  with False show ?thesis by (simp add: dict_map_def map_of_entries_None [THEN iffD2])
qed

lemma has_key_map: "has_key (d_table d) key \<longleftrightarrow> dict_map d key \<noteq> None"
  by (simp add: dict_map_def map_of_entries_None)

lemma dict_lookup_returns:
  assumes "dict_inv d" and "has_free (d_table d) \<or> dict_map d key \<noteq> None"
  obtains s where "dict_lookup (Some d) (Some key) (dict_hash key) = Some (Some s)"
    and "slot_for (d_size d) (d_table d) key s"
  using lookup_slot [OF dict_invD(1) [OF assms(1)], of key] assms(2) by (metis has_key_map)

lemma dict_get_kp_map:
  assumes "dict_inv d" and "has_free (d_table d) \<or> dict_map d key \<noteq> None"
  shows "\<exists>kp. dict_get_kp (Some d) (Some key) = Some kp \<and> map_option kp_val kp = dict_map d key"
proof -
  obtain s where s: "dict_lookup (Some d) (Some key) (dict_hash key) = Some (Some s)"
    and slot: "slot_for (d_size d) (d_table d) key s"
    using dict_lookup_returns [OF assms] .
  show ?thesis using dict_map_slot [OF assms(1) slot] s by (simp add: dict_get_kp_def)
qed

definition value_type :: "dict_value option \<Rightarrow> val_type_t" where
  "value_type v = (case v of None \<Rightarrow> VAL_END | Some w \<Rightarrow> val_type w)"

lemma dict_get_type_map:
  assumes "dict_inv d" and "has_free (d_table d) \<or> dict_map d key \<noteq> None"
  shows "dict_get_type (Some d) (Some key) = Some (value_type (dict_map d key))"
proof -
  obtain s where s: "dict_lookup (Some d) (Some key) (dict_hash key) = Some (Some s)"
    and slot: "slot_for (d_size d) (d_table d) key s"
    using dict_lookup_returns [OF assms] .
  show ?thesis
    using dict_map_slot [OF assms(1) slot] s by (simp add: dict_get_type_def value_type_def)
qed

lemma dict_get_map:
  assumes "dict_inv d" and "has_free (d_table d) \<or> dict_map d key \<noteq> None"
  shows "dict_get (Some d) (Some key) def =
    Some (case dict_map d key of Some (V_str s) \<Rightarrow> s | _ \<Rightarrow> def)"
proof -
  obtain s where s: "dict_lookup (Some d) (Some key) (dict_hash key) = Some (Some s)"
    and slot: "slot_for (d_size d) (d_table d) key s"
    using dict_lookup_returns [OF assms] .
  show ?thesis
    using dict_map_slot [OF assms(1) slot] s by (simp add: dict_get_def split: dict_value.split)
qed

subsection \<open>Deleting\<close>

lemma dict_del_map:
  assumes inv: "dict_inv d" and "has_free (d_table d) \<or> dict_map d key \<noteq> None"
  shows "\<exists>d'. dict_del (Some d) (Some key) =
      Some (if dict_map d key = None then - 1 else 0, Some d') \<and>
    dict_inv d' \<and> dict_map d' = (dict_map d)(key := None) \<and>
    d_fill d' = d_fill d \<and> has_free (d_table d') = has_free (d_table d)"
proof -
  obtain s where s: "dict_lookup (Some d) (Some key) (dict_hash key) = Some (Some s)"
    and slot: "slot_for (d_size d) (d_table d) key s"
    using dict_lookup_returns [OF assms] .
  show ?thesis
  proof (cases "live_key (kp_key (d_table d ! s))")
    case False
    with dict_map_slot [OF inv slot] have "dict_map d key = None" by simp
    then have "(dict_map d)(key := None) = dict_map d" by auto
    with False s inv \<open>dict_map d key = None\<close> show ?thesis by (simp add: dict_del_def)
  next
    case True
    let ?t = "d_table d"
    define kp where "kp = (?t ! s)\<lparr>kp_key := KDummy, kp_val := V_null\<rparr>"
    define d' where "d' = d\<lparr>d_table := ?t[s := kp], d_used := d_used d - 1\<rparr>"
    have kp: "kp_key kp = KDummy" by (simp add: kp_def)
    have len: "s < length ?t" and key: "kp_key (?t ! s) = KStr key"
      using slot True by (auto simp: slot_for_def)
    have "live_count (?t[s := kp]) + 1 = live_count ?t"
      using length_filter_update [OF len, of "\<lambda>kp. live_key (kp_key kp)" kp] kp True
      by (simp add: live_count_def)
    moreover have occ: "occupied (?t[s := kp]) = occupied ?t"
      using length_filter_update [OF len, of "\<lambda>kp. kp_key kp \<noteq> KNull" kp] kp key
      by (simp add: occupied_def)
    ultimately have "dict_inv d'"
      using inv table_inv_kill [OF dict_invD(1) [OF inv] len kp]
      by (simp add: dict_inv_def d'_def unat_sub_one)
    moreover have "dict_map d' = (dict_map d)(key := None)"
      using inv entries_kill [OF _ len key, of kp] kp
      by (simp add: dict_map_def d'_def dict_inv_def table_inv_def)
    moreover have "has_free (d_table d') = has_free ?t"
      using occ by (simp add: has_free_iff d'_def)
    moreover have "dict_del (Some d) (Some key) = Some (0, Some d')"
      using s True by (simp add: dict_del_def d'_def kp_def)
    moreover have "dict_map d key \<noteq> None" using dict_map_slot [OF inv slot] True by simp
    ultimately show ?thesis by (simp add: d'_def)
  qed
qed

subsection \<open>Growing\<close>

lemma grow_size_returns:
  assumes "unat limit < 2 ^ 30" and "unat n = 2 ^ k"
  shows "\<exists>m j. grow_size limit n = Some m \<and> unat m = 2 ^ (k + j) \<and> limit < m"
  using assms(2)
proof (induction "2 ^ 30 - unat n" arbitrary: n k rule: less_induct)
  case less
  show ?case
  proof (cases "n \<le> limit")
    case False
    with less.prems show ?thesis
      by (subst grow_size.simps) (auto intro!: exI [of _ 0])
  next
    case True
    then have le: "unat n < 2 ^ 30" using assms(1) by (simp add: word_le_nat_alt)
    then have dbl: "unat (n * 2) = 2 * unat n" by (simp add: unat_word_ariths)
    moreover have "0 < unat n" using less.prems by simp
    ultimately have "2 ^ 30 - unat (n * 2) < 2 ^ 30 - unat n" using le by linarith
    moreover have "unat (n * 2) = 2 ^ Suc k" using dbl less.prems by simp
    ultimately obtain m j where "grow_size limit (n * 2) = Some m" "unat m = 2 ^ (Suc k + j)" "limit < m"
      using less.hyps by blast
    with True show ?thesis
      by (subst grow_size.simps) (auto intro!: exI [of _ "Suc j"])
  qed
qed

subsection \<open>Rehashing\<close>

definition dict_fresh :: "dict \<Rightarrow> bool" where
  "dict_fresh d \<longleftrightarrow>
     dict_inv d \<and> no_dummy (d_table d) \<and> unat (d_fill d) = occupied (d_table d)"

lemma dict_freshD:
  assumes "dict_fresh d"
  shows "dict_inv d" and "no_dummy (d_table d)" and "unat (d_fill d) = occupied (d_table d)"
  using assms by (simp_all add: dict_fresh_def)

lemma empty_table_inv:
  assumes "size_ok sz"
  shows "dict_fresh \<lparr>d_fill = 0, d_used = 0, d_size = sz, d_table = replicate (unat sz) empty_slot\<rparr>"
    and "dict_map \<lparr>d_fill = 0, d_used = 0, d_size = sz,
           d_table = replicate (unat sz) empty_slot\<rparr> = Map.empty"
    and "occupied (replicate (unat sz) empty_slot) = 0"
proof -
  have none: "entries (replicate n empty_slot) = []" for n
    by (induction n) (simp_all add: empty_slot_def)
  show occ: "occupied (replicate (unat sz) empty_slot) = 0"
    by (simp add: occupied_def empty_slot_def)
  have "live_count (replicate (unat sz) empty_slot) = 0"
    using live_le_occupied [of "replicate (unat sz) empty_slot"] occ by simp
  with assms occ
  show "dict_fresh \<lparr>d_fill = 0, d_used = 0, d_size = sz, d_table = replicate (unat sz) empty_slot\<rparr>"
    by (simp add: dict_fresh_def dict_inv_def table_inv_def reachable_keys_def unique_keys_def
        no_dummy_def empty_slot_def)
  show "dict_map \<lparr>d_fill = 0, d_used = 0, d_size = sz,
      d_table = replicate (unat sz) empty_slot\<rparr> = Map.empty"
    by (simp add: dict_map_def none)
qed

lemma dict_add_p_correct:
  assumes fresh: "dict_fresh d" and key: "kp_key kp = KStr key"
    and new: "dict_map d key = None" and free: "has_free (d_table d)"
  shows "\<exists>d'. dict_add_p d kp = Some (0, d') \<and> dict_fresh d' \<and> d_size d' = d_size d \<and>
    dict_map d' = (dict_map d)(key \<mapsto> kp_val kp) \<and>
    occupied (d_table d') = occupied (d_table d) + 1"
proof -
  note inv = dict_freshD(1) [OF fresh]
  note tinv = dict_invD(1) [OF inv]
  let ?t = "d_table d"
  from free obtain s where s: "dict_lookup (Some d) (Some key) (dict_hash key) = Some (Some s)"
    and slot: "slot_for (d_size d) ?t key s"
    using dict_lookup_returns [OF inv] by blast
  define kp' where "kp' = kp\<lparr>kp_hash := dict_hash key\<rparr>"
  define d' where
    "d' = d\<lparr>d_table := ?t[s := kp'], d_used := d_used d + 1, d_fill := d_fill d + 1\<rparr>"
  have kp': "kp_key kp' = KStr key" "kp_val kp' = kp_val kp" "kp_hash kp' = dict_hash key"
    using key by (simp_all add: kp'_def)
  have len: "s < length ?t" using slot by (simp add: slot_for_def)
  have dead: "\<not> live_key (kp_key (?t ! s))" using dict_map_slot [OF inv slot] new by (auto split: if_splits)
  moreover have "?t ! s \<in> set ?t" using len by simp
  ultimately have null: "kp_key (?t ! s) = KNull"
    using dict_freshD(2) [OF fresh] by (cases "kp_key (?t ! s)") (auto simp: no_dummy_def)
  have cnt: "occupied (?t[s := kp']) = occupied ?t + 1" "live_count (?t[s := kp']) = live_count ?t + 1"
    using len null kp' by (simp_all add: occupied_put live_count_put)
  have ov: "unat (d_fill d) + 1 < 2 ^ 32" "unat (d_used d) + 1 < 2 ^ 32"
    using dict_freshD(3) [OF fresh] dict_invD(2) [OF inv] live_le_occupied [of ?t] occupied_le [of ?t]
      table_inv_length [OF tinv] by simp_all
  have "dict_fresh d'"
    using fresh table_inv_put [OF tinv slot, of kp'] kp' cnt ov
    by (simp add: dict_fresh_def dict_inv_def d'_def no_dummy_update unat_add_one)
  moreover have "dict_map d' = (dict_map d)(key \<mapsto> kp_val kp)"
    using entries_slot_for [OF tinv slot, of kp'] kp' by (simp add: dict_map_def d'_def)
  moreover have "dict_add_p d kp = Some (0, d')"
    using key s by (simp add: dict_add_p_def d'_def kp'_def)
  ultimately show ?thesis using cnt by (simp add: d'_def)
qed

lemma rehash_correct:
  assumes "dict_fresh d" and "unique_keys kps"
    and "\<forall>key. has_key kps key \<longrightarrow> dict_map d key = None"
    and "occupied (d_table d) + live_count kps < length (d_table d)"
  shows "\<exists>d'. rehash d kps = Some (0, d') \<and> dict_fresh d' \<and> d_size d' = d_size d \<and>
    dict_map d' = dict_map d ++ map_of (entries kps) \<and>
    occupied (d_table d') = occupied (d_table d) + live_count kps"
  using assms
proof (induction kps arbitrary: d)
  case Nil
  then show ?case by (simp add: live_count_def)
next
  case (Cons kp kps)
  have uniq: "unique_keys kps" using Cons.prems(2) by (simp add: unique_keys_Cons)
  have tail: "has_key (kp # kps) key" if "has_key kps key" for key
    using that unfolding has_key_def by (metis Suc_less_eq length_Cons nth_Cons_Suc)
  show ?case
  proof (cases "kp_key kp")
    case (KStr key)
    have "has_key (kp # kps) key" using KStr by (auto simp: has_key_def intro!: exI [of _ 0])
    then have new: "dict_map d key = None" using Cons.prems(3) by blast
    have lc: "live_count (kp # kps) = live_count kps + 1" using KStr by (simp add: live_count_def)
    have free: "has_free (d_table d)" using Cons.prems(4) by (simp add: has_free_iff)
    obtain d1 where d1: "dict_add_p d kp = Some (0, d1)" "dict_fresh d1" "d_size d1 = d_size d"
        "dict_map d1 = (dict_map d)(key \<mapsto> kp_val kp)" "occupied (d_table d1) = occupied (d_table d) + 1"
      using dict_add_p_correct [OF Cons.prems(1) KStr new free] by blast
    have "length (d_table d1) = length (d_table d)"
      using d1(2,3) Cons.prems(1) by (auto simp: dict_fresh_def dict_inv_def table_inv_def)
    moreover have "\<forall>k. has_key kps k \<longrightarrow> dict_map d1 k = None"
      using Cons.prems(2,3) tail KStr d1(4) by (auto simp: unique_keys_Cons)
    ultimately obtain d2 where d2: "rehash d1 kps = Some (0, d2)" "dict_fresh d2" "d_size d2 = d_size d1"
        "dict_map d2 = dict_map d1 ++ map_of (entries kps)"
        "occupied (d_table d2) = occupied (d_table d1) + live_count kps"
      using Cons.IH [OF d1(2) uniq] Cons.prems(4) lc d1(5) by auto
    have "map_of (entries kps) key = None"
      using Cons.prems(2) KStr by (simp add: map_of_entries_None unique_keys_Cons)
    then have "dict_map d2 = dict_map d ++ map_of (entries (kp # kps))"
      using d2(4) d1(4) KStr by (auto simp: map_add_def fun_eq_iff split: option.splits)
    then show ?thesis
      using d1(1,3,5) d2(1,2,3,5) KStr lc by (simp del: entries.simps)
  next
    case KNull
    then show ?thesis
      using Cons.IH [OF Cons.prems(1) uniq] Cons.prems(3,4) tail by (simp add: live_count_def)
  next
    case KDummy
    then show ?thesis
      using Cons.IH [OF Cons.prems(1) uniq] Cons.prems(3,4) tail by (simp add: live_count_def)
  qed
qed

subsection \<open>Resizing and storing\<close>

lemma resize_limit:
  assumes "dict_inv d" and "dict_room 1 d"
  defines "limit \<equiv> (if d_size d > DICT_BIGSZ then 2 else 4) * d_used d"
  shows "unat limit < 2 ^ 30" and "2 * live_count (d_table d) \<le> unat limit"
proof -
  have u: "unat (d_used d) < 2 ^ 28"
    using assms dict_invD [OF assms(1)] live_le_occupied [of "d_table d"] by (simp add: dict_room_def)
  then have "unat limit = (if d_size d > DICT_BIGSZ then 2 else 4) * unat (d_used d)"
    by (simp add: limit_def unat_word_ariths)
  with u show "unat limit < 2 ^ 30" "2 * live_count (d_table d) \<le> unat limit"
    using dict_invD(2) [OF assms(1)] by simp_all
qed

lemma dict_resize_correct:
  assumes inv: "dict_inv d" and room: "dict_room 1 d"
  shows "\<exists>r d' a'. dict_resize d a = Some (r, d', a') \<and> dict_inv d' \<and> dict_map d' = dict_map d \<and>
    d_fill d' \<le> d_fill d \<and> (r = 0 \<or> r = - 1) \<and>
    (r \<noteq> 0 \<longrightarrow> d' = d \<and> a \<noteq> []) \<and> (a = [] \<longrightarrow> a' = []) \<and>
    (r = 0 \<longrightarrow> d' = d \<or> no_dummy (d_table d')) \<and>
    (r = 0 \<longrightarrow> 2 * live_count (d_table d') < length (d_table d'))"
proof -
  let ?limit = "(if d_size d > DICT_BIGSZ then 2 else 4) * d_used d"
  note tinv = dict_invD(1) [OF inv]
  note lim = resize_limit [OF inv room]
  obtain k where k: "3 \<le> k" "unat (d_size d) = 2 ^ k"
    using tinv by (auto simp: table_inv_def size_ok_def)
  obtain m j where m: "grow_size ?limit (d_size d) = Some m" "unat m = 2 ^ (k + j)" "?limit < m"
    using grow_size_returns [OF lim(1) k(2)] by blast
  have big: "2 * live_count (d_table d) < unat m"
    using lim(2) m(3) by (simp add: word_less_nat_alt)
  show ?thesis
  proof (cases "m = d_size d")
    case True
    then show ?thesis
      using m inv big tinv by (simp add: dict_resize_def table_inv_def)
  next
    case False
    obtain ok a' where ok: "malloc_ok a = (ok, a')" by (cases "malloc_ok a")
    show ?thesis
    proof (cases ok)
      case False
      then have "a \<noteq> []" using ok by auto
      with False \<open>m \<noteq> d_size d\<close> m ok inv show ?thesis by (simp add: dict_resize_def)
    next
      case True
      let ?e = "\<lparr>d_fill = 0, d_used = 0, d_size = m, d_table = replicate (unat m) empty_slot\<rparr>"
      have "size_ok m" using m(2) k(1) by (auto simp: size_ok_def intro!: exI [of _ "k + j"])
      note e = empty_table_inv [OF this]
      obtain d' where d': "rehash ?e (d_table d) = Some (0, d')" "dict_fresh d'" "d_size d' = m"
          "dict_map d' = dict_map d" "occupied (d_table d') = live_count (d_table d)"
        using rehash_correct [OF e(1), of "d_table d"] e(2,3) tinv big
        by (auto simp: table_inv_def dict_map_def)
      have "unat (d_fill d') \<le> unat (d_fill d)"
        using dict_freshD(3) [OF d'(2)] d'(5) live_le_occupied [of "d_table d"] dict_invD(3) [OF inv]
        by simp
      moreover have "2 * live_count (d_table d') < length (d_table d')"
        using d' big live_le_occupied [of "d_table d'"] dict_freshD(1) [OF d'(2)]
        by (simp add: dict_inv_def table_inv_def)
      moreover have "a = [] \<longrightarrow> a' = []" using ok by auto
      ultimately show ?thesis
        using d' m True ok \<open>m \<noteq> d_size d\<close> dict_freshD [OF d'(2)]
        by (simp add: dict_resize_def word_le_nat_alt)
    qed
  qed
qed

lemma half_full_has_free:
  "no_dummy t \<Longrightarrow> 2 * live_count t < length t \<Longrightarrow> has_free t"
  by (simp add: has_free_iff no_dummy_occupied)

lemma clean_commit:
  assumes clean: "dict_clean d" and room: "dict_room 1 d"
    and slot: "slot_for (d_size d) (d_table d) key s"
    and space: "live_key (kp_key (d_table d ! s)) \<or> occupied (d_table d) + 1 < length (d_table d)"
  shows "dict_clean (dict_commit d s key (dict_hash key) v)"
proof -
  have s: "s < length (d_table d)" using slot by (simp add: slot_for_def)
  have "live_key (kp_key (d_table d ! s)) \<Longrightarrow> kp_key (d_table d ! s) \<noteq> KNull" by auto
  with space clean have "has_free (d_table (dict_commit d s key (dict_hash key) v))"
    by (auto simp: has_free_iff commit_table occupied_put s dict_clean_def)
  with clean commit_correct [OF dict_cleanD(1) [OF clean] room slot] show ?thesis
    by (simp add: dict_clean_def commit_table no_dummy_update)
qed

text \<open>The load check of \<open>dict_store\<close> leaves an empty slot behind when it does not resize.\<close>

lemma load_check:
  assumes inv: "dict_inv d" and room: "dict_room 1 d"
    and "\<not> 3 * (d_fill d + 1) \<ge> d_size d * 2"
  shows "occupied (d_table d) + 1 < length (d_table d)"
proof -
  have "unat (3 * (d_fill d + 1)) = 3 * (unat (d_fill d) + 1)"
    using room by (simp add: dict_room_def unat_word_ariths)
  moreover have "unat (d_size d * 2) \<le> unat (d_size d) * 2"
    by (simp add: unat_word_ariths)
  ultimately have "3 * (unat (d_fill d) + 1) < unat (d_size d) * 2"
    using assms(3) by (simp add: word_le_nat_alt)
  with dict_invD(3) [OF inv] dict_invD(1) [OF inv] show ?thesis
    by (simp add: table_inv_def)
qed

definition store_ok :: "dict \<Rightarrow> string \<Rightarrow> dict_value \<Rightarrow> alloc \<Rightarrow> int \<times> dict ptr \<times> alloc \<Rightarrow> bool" where
  "store_ok d key v a res \<longleftrightarrow>
     (\<exists>d'. fst (snd res) = Some d' \<and> dict_inv d' \<and> unat (d_fill d') \<le> unat (d_fill d) + 1 \<and>
       (fst res = 0 \<and> dict_map d' = (dict_map d)(key \<mapsto> v) \<or> fst res = - 1 \<and> a \<noteq> [] \<and> d' = d) \<and>
       (dict_clean d \<longrightarrow> dict_clean d') \<and> (a = [] \<longrightarrow> snd (snd res) = []))"

lemma store_ok_fail: "dict_inv d \<Longrightarrow> a \<noteq> [] \<Longrightarrow> store_ok d key v a (- 1, Some d, a')"
  by (simp add: store_ok_def)

lemma store_ok_commit:
  assumes inv: "dict_inv d'" and room: "dict_room 1 d" and map: "dict_map d' = dict_map d"
    and fill: "d_fill d' \<le> d_fill d" and slot: "slot_for (d_size d') (d_table d') key s"
    and clean: "dict_clean d \<Longrightarrow> dict_clean d' \<and>
      (live_key (kp_key (d_table d' ! s)) \<or> occupied (d_table d') + 1 < length (d_table d'))"
    and plenty: "a = [] \<Longrightarrow> a' = []"
  shows "store_ok d key v a (0, Some (dict_commit d' s key (dict_hash key) v), a')"
proof -
  have room': "dict_room 1 d'" using room fill by (simp add: dict_room_def word_le_nat_alt)
  have s: "s < length (d_table d')" using slot by (simp add: slot_for_def)
  have "unat (d_fill (dict_commit d' s key (dict_hash key) v)) \<le> unat (d_fill d) + 1"
    using commit_fill(2) [OF inv room' s, of key "dict_hash key" v] fill
    by (simp add: word_le_nat_alt)
  then show ?thesis
    using commit_correct [OF inv room' slot] map clean plenty clean_commit [OF _ room' slot]
    by (simp add: store_ok_def)
qed

lemma store_resized:
  assumes inv: "dict_inv d" and room: "dict_room 1 d" and free: "has_free (d_table d)"
  shows "\<exists>res. (do {
      (r, d', a') \<leftarrow> dict_resize d a;
      if r \<noteq> 0 then Some (- 1, Some d', a')
      else do {
        slot \<leftarrow> dict_lookup (Some d') (Some key) (dict_hash key);
        Some (case slot of None \<Rightarrow> (- 1, Some d', a')
          | Some s \<Rightarrow> (0, Some (dict_commit d' s key (dict_hash key) v), a'))
      }
    }) = Some res \<and> store_ok d key v a res"
proof -
  obtain r d' a' where r: "dict_resize d a = Some (r, d', a')" and inv': "dict_inv d'"
    and map: "dict_map d' = dict_map d" and fill: "d_fill d' \<le> d_fill d"
    and fail: "r \<noteq> 0 \<longrightarrow> d' = d \<and> a \<noteq> []" and plenty: "a = [] \<longrightarrow> a' = []"
    and nd: "r = 0 \<longrightarrow> d' = d \<or> no_dummy (d_table d')"
    and half: "r = 0 \<longrightarrow> 2 * live_count (d_table d') < length (d_table d')"
    using dict_resize_correct [OF inv room, of a] by blast
  show ?thesis
  proof (cases "r = 0")
    case False
    with r fail inv store_ok_fail show ?thesis by simp
  next
    case True
    have free': "has_free (d_table d')" using nd half True free half_full_has_free by blast
    then obtain s where s: "dict_lookup (Some d') (Some key) (dict_hash key) = Some (Some s)"
      and slot: "slot_for (d_size d') (d_table d') key s"
      using dict_lookup_returns [OF inv'] by blast
    have clean: "dict_clean d' \<and> occupied (d_table d') + 1 < length (d_table d')" if "dict_clean d"
    proof -
      have "no_dummy (d_table d')" using nd True that by (auto simp: dict_clean_def)
      moreover from this half True have "2 * occupied (d_table d') < length (d_table d')"
        by (simp add: no_dummy_occupied)
      ultimately show ?thesis
        using inv' free' table_inv_length [OF dict_invD(1) [OF inv']] by (simp add: dict_clean_def)
    qed
    show ?thesis
      using r True s store_ok_commit [OF inv' room map fill slot] clean plenty by simp
  qed
qed

lemma dict_store_correct:
  assumes inv: "dict_inv d" and room: "dict_room 1 d"
    and key: "has_free (d_table d) \<or> dict_map d key \<noteq> None"
  shows "\<exists>res. dict_store (Some d) (Some key) v a = Some res \<and> store_ok d key v a res"
proof -
  obtain s where s: "dict_lookup (Some d) (Some key) (dict_hash key) = Some (Some s)"
    and slot: "slot_for (d_size d) (d_table d) key s"
    using dict_lookup_returns [OF inv key] .
  obtain ok1 a1 where a1: "malloc_ok a = (ok1, a1)" by (cases "malloc_ok a")
  obtain ok2 a2 where a2: "(case v of V_str (Some _) \<Rightarrow> malloc_ok a1 | _ \<Rightarrow> (True, a1)) = (ok2, a2)"
    by (cases "case v of V_str (Some _) \<Rightarrow> malloc_ok a1 | _ \<Rightarrow> (True, a1)")
  have plenty: "a = [] \<Longrightarrow> ok1 \<and> a1 = []" "a1 = [] \<Longrightarrow> ok2 \<and> a2 = []"
    using a1 a2 by (auto split: dict_value.splits option.splits)
  have unfold: "dict_store (Some d) (Some key) v a =
      (if \<not> ok1 then Some (- 1, Some d, a1)
       else if \<not> ok2 then Some (- 1, Some d, a2)
       else if \<not> live_key (kp_key (d_table d ! s)) \<and> 3 * (d_fill d + 1) \<ge> d_size d * 2 then
         do {
           (r, d', a') \<leftarrow> dict_resize d a2;
           if r \<noteq> 0 then Some (- 1, Some d', a')
           else do {
             slot \<leftarrow> dict_lookup (Some d') (Some key) (dict_hash key);
             Some (case slot of None \<Rightarrow> (- 1, Some d', a')
               | Some s \<Rightarrow> (0, Some (dict_commit d' s key (dict_hash key) v), a'))
           }
         }
       else Some (0, Some (dict_commit d s key (dict_hash key) v), a2))"
    by (simp add: dict_store_def s a1 a2 Let_def)
  have weaken: "store_ok d key v a res" if "store_ok d key v a2 res" for res
    using that plenty by (auto simp: store_ok_def)
  show ?thesis
  proof (cases "ok1 \<and> ok2")
    case False
    with plenty have "a \<noteq> []" by auto
    with False inv store_ok_fail show ?thesis by (auto simp: unfold)
  next
    case ok: True
    show ?thesis
    proof (cases "\<not> live_key (kp_key (d_table d ! s)) \<and> 3 * (d_fill d + 1) \<ge> d_size d * 2")
      case True
      then have "dict_map d key = None" using dict_map_slot [OF inv slot] by simp
      with key have "has_free (d_table d)" by simp
      from store_resized [OF inv room this, of a2 key v] ok True weaken show ?thesis
        by (simp only: unfold) auto
    next
      case False
      then have "live_key (kp_key (d_table d ! s)) \<or> occupied (d_table d) + 1 < length (d_table d)"
        using load_check [OF inv room] by blast
      then have "store_ok d key v a (0, Some (dict_commit d s key (dict_hash key) v), a2)"
        using plenty by (intro store_ok_commit [OF inv room refl order_refl slot]) simp_all
      moreover have "dict_store (Some d) (Some key) v a =
          Some (0, Some (dict_commit d s key (dict_hash key) v), a2)"
        using ok False by (simp only: unfold if_False) simp
      ultimately show ?thesis by blast
    qed
  qed
qed

end
