(* ===== verification/Dict_Access.thy ===== *)
theory Dict_Access
  imports Dict_Refine
begin

text \<open>
  The typed getters of \<open>dict.c\<close> with their string parsers, and the operations on whole
  dictionaries: merging, cloning, comparing, dumping and the expansion of configuration
  variables. A loop \<open>while ((rank = dict_enumerate_typed(d, rank, ...)) >= 0)\<close> is a
  recursion over the list of the items it enumerates.
\<close>

subsection \<open>Parsing stored strings\<close>

definition parse_bool_string :: "string ptr \<Rightarrow> bool option" where
  "parse_bool_string sp =
     (case sp of
        None \<Rightarrow> None
      | Some s \<Rightarrow>
          if strcasecmp_eq s ''true'' \<or> strcasecmp_eq s ''yes'' \<or> strcasecmp_eq s ''on'' \<or> s = ''1''
          then Some True
          else if strcasecmp_eq s ''false'' \<or> strcasecmp_eq s ''no'' \<or> strcasecmp_eq s ''off'' \<or> s = ''0''
          then Some False
          else None)"

definition parse_ll :: "string ptr \<Rightarrow> int option" where
  "parse_ll sp =
     (case sp of
        None \<Rightarrow> None
      | Some s \<Rightarrow>
          let (v, ep, erange) = strtoll s;
              ep = dropWhile isspace ep
          in if erange \<or> ep = s \<or> ep \<noteq> [] then None else Some v)"

definition parse_ull :: "string ptr \<Rightarrow> int option" where
  "parse_ull sp =
     (case sp of
        None \<Rightarrow> None
      | Some s \<Rightarrow>
          let (v, ep, erange) = strtoull s;
              ep = dropWhile isspace ep
          in if erange \<or> ep = s \<or> ep \<noteq> [] then None else Some v)"

definition parse_double :: "string ptr \<Rightarrow> cdouble option" where
  "parse_double sp =
     (case sp of
        None \<Rightarrow> None
      | Some s \<Rightarrow>
          let (v, ep, erange) = strtod s;
              ep = dropWhile isspace ep
          in if erange \<or> ep = s \<or> ep \<noteq> [] \<or> \<not> d_isfinite v then None else Some v)"

subsection \<open>Typed getters\<close>

text \<open>
  Each getter is a lookup followed by a \<open>switch\<close> over the type of the entry. The
  \<open>switch\<close> is a function of the default and the stored value.
\<close>

definition bool_of_value :: "bool \<Rightarrow> dict_value \<Rightarrow> bool" where
  "bool_of_value def v =
     (case v of
        V_bool i \<Rightarrow> i \<noteq> 0
      | V_int i \<Rightarrow> i \<noteq> 0
      | V_uint i \<Rightarrow> i \<noteq> 0
      | V_long l \<Rightarrow> l \<noteq> 0
      | V_ulong l \<Rightarrow> l \<noteq> 0
      | V_llong l \<Rightarrow> l \<noteq> 0
      | V_ullong l \<Rightarrow> l \<noteq> 0
      | V_float f \<Rightarrow> d_nonzero f
      | V_double f \<Rightarrow> d_nonzero f
      | V_char c \<Rightarrow> c \<noteq> 0
      | V_str s \<Rightarrow> (case parse_bool_string s of Some b \<Rightarrow> b | None \<Rightarrow> def)
      | _ \<Rightarrow> def)"

definition d_within :: "cdouble \<Rightarrow> rat \<Rightarrow> rat \<Rightarrow> bool" where
  "d_within f lo hi \<longleftrightarrow> d_isfinite f \<and> lo \<le> d_val f \<and> d_val f \<le> hi"

definition d_below :: "cdouble \<Rightarrow> rat \<Rightarrow> rat \<Rightarrow> bool" where
  "d_below f lo hi \<longleftrightarrow> d_isfinite f \<and> lo \<le> d_val f \<and> d_val f < hi"

definition int_of_value :: "u32 \<Rightarrow> dict_value \<Rightarrow> u32" where
  "int_of_value def v =
     (case v of
        V_int i \<Rightarrow> i
      | V_uint i \<Rightarrow> if uint i \<le> INT_MAX then i else def
      | V_long l \<Rightarrow> if INT_MIN \<le> sint l \<and> sint l \<le> INT_MAX then ucast l else def
      | V_ulong l \<Rightarrow> if uint l \<le> INT_MAX then ucast l else def
      | V_llong l \<Rightarrow> if INT_MIN \<le> sint l \<and> sint l \<le> INT_MAX then ucast l else def
      | V_ullong l \<Rightarrow> if uint l \<le> INT_MAX then ucast l else def
      | V_float f \<Rightarrow>
          if d_within f (of_int INT_MIN) (of_int INT_MAX) then word_of_int (d_trunc f) else def
      | V_double f \<Rightarrow>
          if d_within f (of_int INT_MIN) (of_int INT_MAX) then word_of_int (d_trunc f) else def
      | V_char c \<Rightarrow> scast c
      | V_bool i \<Rightarrow> of_bool (i \<noteq> 0)
      | V_str s \<Rightarrow>
          (case parse_ll s of
             Some x \<Rightarrow>
               if INT_MIN \<le> x \<and> x \<le> INT_MAX then word_of_int x
               else (case parse_ull s of
                   Some y \<Rightarrow> if y \<le> INT_MAX then word_of_int y else def | None \<Rightarrow> def)
           | None \<Rightarrow>
               (case parse_ull s of
                  Some y \<Rightarrow> if y \<le> INT_MAX then word_of_int y else def | None \<Rightarrow> def))
      | _ \<Rightarrow> def)"

definition uint_of_value :: "u32 \<Rightarrow> dict_value \<Rightarrow> u32" where
  "uint_of_value def v =
     (case v of
        V_uint i \<Rightarrow> i
      | V_int i \<Rightarrow> if 0 \<le> sint i then i else def
      | V_long l \<Rightarrow> if 0 \<le> sint l \<and> sint l \<le> UINT_MAX then ucast l else def
      | V_ulong l \<Rightarrow> if uint l \<le> UINT_MAX then ucast l else def
      | V_llong l \<Rightarrow> if 0 \<le> sint l \<and> sint l \<le> UINT_MAX then ucast l else def
      | V_ullong l \<Rightarrow> if uint l \<le> UINT_MAX then ucast l else def
      | V_float f \<Rightarrow> if d_within f 0 (of_int UINT_MAX) then word_of_int (d_trunc f) else def
      | V_double f \<Rightarrow> if d_within f 0 (of_int UINT_MAX) then word_of_int (d_trunc f) else def
      | V_bool i \<Rightarrow> of_bool (i \<noteq> 0)
      | V_char c \<Rightarrow> ucast c
      | V_str s \<Rightarrow>
          (case parse_ull s of
             Some y \<Rightarrow>
               if y \<le> UINT_MAX then word_of_int y
               else (case parse_ll s of
                   Some x \<Rightarrow> if 0 \<le> x \<and> x \<le> UINT_MAX then word_of_int x else def | None \<Rightarrow> def)
           | None \<Rightarrow>
               (case parse_ll s of
                  Some x \<Rightarrow> if 0 \<le> x \<and> x \<le> UINT_MAX then word_of_int x else def | None \<Rightarrow> def))
      | _ \<Rightarrow> def)"

text \<open>\<open>(double)(ULONG_MAX / 2 + 1) * 2.0\<close> is \<open>2 ^ 64\<close>; \<open>-(double)LONG_MIN\<close> is \<open>2 ^ 63\<close>.\<close>

definition ulong_of_value :: "u64 \<Rightarrow> dict_value \<Rightarrow> u64" where
  "ulong_of_value def v =
     (case v of
        V_ulong l \<Rightarrow> l
      | V_uint i \<Rightarrow> ucast i
      | V_int i \<Rightarrow> if 0 \<le> sint i then scast i else def
      | V_long l \<Rightarrow> if 0 \<le> sint l then l else def
      | V_llong l \<Rightarrow> if 0 \<le> sint l then l else def
      | V_ullong l \<Rightarrow> l
      | V_float f \<Rightarrow> if d_below f 0 (2 ^ 64) then word_of_int (d_trunc f) else def
      | V_double f \<Rightarrow> if d_below f 0 (2 ^ 64) then word_of_int (d_trunc f) else def
      | V_bool i \<Rightarrow> of_bool (i \<noteq> 0)
      | V_str s \<Rightarrow>
          (case parse_ull s of
             Some y \<Rightarrow> word_of_int y
           | None \<Rightarrow>
               (case parse_ll s of
                  Some x \<Rightarrow> if 0 \<le> x then word_of_int x else def | None \<Rightarrow> def))
      | _ \<Rightarrow> def)"

definition long_of_value :: "u64 \<Rightarrow> dict_value \<Rightarrow> u64" where
  "long_of_value def v =
     (case v of
        V_long l \<Rightarrow> l
      | V_int i \<Rightarrow> scast i
      | V_uint i \<Rightarrow> ucast i
      | V_ulong l \<Rightarrow> if uint l \<le> LLONG_MAX then l else def
      | V_llong l \<Rightarrow> l
      | V_ullong l \<Rightarrow> if uint l \<le> LLONG_MAX then l else def
      | V_float f \<Rightarrow> if d_below f (- (2 ^ 63)) (2 ^ 63) then word_of_int (d_trunc f) else def
      | V_double f \<Rightarrow> if d_below f (- (2 ^ 63)) (2 ^ 63) then word_of_int (d_trunc f) else def
      | V_bool i \<Rightarrow> of_bool (i \<noteq> 0)
      | V_str s \<Rightarrow> (case parse_ll s of Some x \<Rightarrow> word_of_int x | None \<Rightarrow> def)
      | _ \<Rightarrow> def)"

definition llong_of_value :: "u64 \<Rightarrow> dict_value \<Rightarrow> u64" where
  "llong_of_value def v =
     (case v of
        V_llong l \<Rightarrow> l
      | V_int i \<Rightarrow> scast i
      | V_uint i \<Rightarrow> ucast i
      | V_long l \<Rightarrow> l
      | V_ulong l \<Rightarrow> if uint l \<le> LLONG_MAX then l else def
      | V_ullong l \<Rightarrow> if uint l \<le> LLONG_MAX then l else def
      | V_float f \<Rightarrow> if d_below f (- (2 ^ 63)) (2 ^ 63) then word_of_int (d_trunc f) else def
      | V_double f \<Rightarrow> if d_below f (- (2 ^ 63)) (2 ^ 63) then word_of_int (d_trunc f) else def
      | V_bool i \<Rightarrow> of_bool (i \<noteq> 0)
      | V_str s \<Rightarrow>
          (case parse_ll s of
             Some x \<Rightarrow> word_of_int x
           | None \<Rightarrow>
               (case parse_ull s of
                  Some y \<Rightarrow> if y \<le> LLONG_MAX then word_of_int y else def | None \<Rightarrow> def))
      | _ \<Rightarrow> def)"

definition ullong_of_value :: "u64 \<Rightarrow> dict_value \<Rightarrow> u64" where
  "ullong_of_value def v =
     (case v of
        V_ullong l \<Rightarrow> l
      | V_llong l \<Rightarrow> if 0 \<le> sint l then l else def
      | V_int i \<Rightarrow> if 0 \<le> sint i then scast i else def
      | V_uint i \<Rightarrow> ucast i
      | V_long l \<Rightarrow> if 0 \<le> sint l then l else def
      | V_ulong l \<Rightarrow> l
      | V_float f \<Rightarrow> if d_below f 0 (2 ^ 64) then word_of_int (d_trunc f) else def
      | V_double f \<Rightarrow> if d_below f 0 (2 ^ 64) then word_of_int (d_trunc f) else def
      | V_bool i \<Rightarrow> of_bool (i \<noteq> 0)
      | V_char c \<Rightarrow> ucast c
      | V_str s \<Rightarrow> (case parse_ull s of Some y \<Rightarrow> word_of_int y | None \<Rightarrow> def)
      | _ \<Rightarrow> def)"

text \<open>
  The conversion of a floating point number to \<open>char\<close> has no range check: outside the
  range of \<open>char\<close> the C standard gives it no meaning.
\<close>

definition char_of_double :: "cdouble \<Rightarrow> u8 comp" where
  "char_of_double f =
     (if d_isfinite f \<and> - 128 \<le> d_trunc f \<and> d_trunc f \<le> 127
      then Some (word_of_int (d_trunc f)) else None)"

definition char_of_value :: "u8 \<Rightarrow> dict_value \<Rightarrow> u8 comp" where
  "char_of_value def v =
     (case v of
        V_char c \<Rightarrow> Some c
      | V_bool i \<Rightarrow> Some (if i \<noteq> 0 then 1 else 0)
      | V_int i \<Rightarrow> Some (ucast i)
      | V_uint i \<Rightarrow> Some (ucast i)
      | V_long l \<Rightarrow> Some (ucast l)
      | V_ulong l \<Rightarrow> Some (ucast l)
      | V_llong l \<Rightarrow> Some (ucast l)
      | V_ullong l \<Rightarrow> Some (ucast l)
      | V_float f \<Rightarrow> char_of_double f
      | V_double f \<Rightarrow> char_of_double f
      | V_str s \<Rightarrow>
          Some (case parse_ll s of
              Some x \<Rightarrow> word_of_int x
            | None \<Rightarrow> (case s of Some [c] \<Rightarrow> byte_of c | _ \<Rightarrow> def))
      | _ \<Rightarrow> Some def)"

definition double_of_value :: "cdouble \<Rightarrow> dict_value \<Rightarrow> cdouble" where
  "double_of_value def v =
     (case v of
        V_double f \<Rightarrow> f
      | V_float f \<Rightarrow> f
      | V_int i \<Rightarrow> double_of_int (sint i)
      | V_uint i \<Rightarrow> double_of_int (uint i)
      | V_long l \<Rightarrow> double_of_int (sint l)
      | V_ulong l \<Rightarrow> double_of_int (uint l)
      | V_llong l \<Rightarrow> double_of_int (sint l)
      | V_ullong l \<Rightarrow> double_of_int (uint l)
      | V_bool i \<Rightarrow> double_of_int (of_bool (i \<noteq> 0))
      | V_char c \<Rightarrow> double_of_int (sint c)
      | V_str s \<Rightarrow> (case parse_double s of Some f \<Rightarrow> f | None \<Rightarrow> def)
      | _ \<Rightarrow> def)"

definition get_value :: "dict ptr \<Rightarrow> string ptr \<Rightarrow> 'a \<Rightarrow> ('a \<Rightarrow> dict_value \<Rightarrow> 'a) \<Rightarrow> 'a comp" where
  "get_value d key def conv =
     do { kp \<leftarrow> dict_get_kp d key; Some (case kp of None \<Rightarrow> def | Some e \<Rightarrow> conv def (kp_val e)) }"

definition dict_get_bool where
  "dict_get_bool d key def = get_value d key def bool_of_value"

definition dict_get_int where
  "dict_get_int d key def = get_value d key def int_of_value"

definition dict_get_uint where
  "dict_get_uint d key def = get_value d key def uint_of_value"

definition dict_get_ulong where
  "dict_get_ulong d key def = get_value d key def ulong_of_value"

definition dict_get_long where
  "dict_get_long d key def = get_value d key def long_of_value"

definition dict_get_llong where
  "dict_get_llong d key def = get_value d key def llong_of_value"

definition dict_get_time_t where
  "dict_get_time_t d key def = dict_get_llong d key def"

definition dict_get_ullong where
  "dict_get_ullong d key def = get_value d key def ullong_of_value"

definition dict_get_char :: "dict ptr \<Rightarrow> string ptr \<Rightarrow> u8 \<Rightarrow> u8 comp" where
  "dict_get_char d key def =
     do { kp \<leftarrow> dict_get_kp d key;
          case kp of None \<Rightarrow> Some def | Some e \<Rightarrow> char_of_value def (kp_val e) }"

definition dict_get_double where
  "dict_get_double d key def = get_value d key def double_of_value"

text \<open>\<open>FLT_MAX\<close> is \<open>(2 ^ 24 - 1) * 2 ^ 104\<close>.\<close>

definition FLT_MAX :: rat where
  "FLT_MAX = (2 ^ 24 - 1) * 2 ^ 104"

definition dict_get_float :: "dict ptr \<Rightarrow> string ptr \<Rightarrow> cdouble \<Rightarrow> cdouble comp" where
  "dict_get_float d key def =
     do { v \<leftarrow> dict_get_double d key def;
          Some (if \<not> d_isfinite v \<or> d_val v > FLT_MAX \<or> d_val v < - FLT_MAX then def
                else float_of_double v) }"

definition dict_get_ptr :: "dict ptr \<Rightarrow> string ptr \<Rightarrow> u64 \<Rightarrow> u64 comp" where
  "dict_get_ptr d key def =
     get_value d key def (\<lambda>def v. case v of V_ptr p \<Rightarrow> p | _ \<Rightarrow> def)"

subsection \<open>Enumeration loops\<close>

lemma enum_skip_bounds: "rank \<le> length t \<Longrightarrow> rank \<le> enum_skip t rank \<and> enum_skip t rank \<le> length t"
proof (induction t rank rule: enum_skip.induct)
  case (1 t rank)
  then show ?case by (subst (1 2) enum_skip.simps) auto
qed

lemma dict_enumerate_typed_next:
  assumes "dict_enumerate_typed (Some d) rank = (r, kv)" and "0 \<le> r"
  shows "rank < r \<and> r \<le> int (length (d_table d))"
proof -
  have pos: "0 \<le> rank" and lt: "enum_skip (d_table d) (nat rank) < length (d_table d)"
    and r: "r = int (enum_skip (d_table d) (nat rank)) + 1"
    using assms by (auto simp: dict_enumerate_typed_def Let_def split: if_splits slot_key.splits)
  have "nat rank \<le> length (d_table d)"
  proof (rule ccontr)
    assume "\<not> nat rank \<le> length (d_table d)"
    then have "enum_skip (d_table d) (nat rank) = nat rank" by (subst enum_skip.simps) simp
    with lt \<open>\<not> nat rank \<le> length (d_table d)\<close> show False by simp
  qed
  with enum_skip_bounds [OF this] pos r lt show ?thesis by auto
qed

text \<open>The items a loop over \<open>dict_enumerate_typed\<close> visits from a rank on.\<close>

function dict_items :: "dict \<Rightarrow> int \<Rightarrow> (string \<times> dict_value) list" where
  "dict_items d rank =
     (case dict_enumerate_typed (Some d) rank of
        (r, Some kv) \<Rightarrow> if 0 \<le> r then kv # dict_items d r else []
      | (r, None) \<Rightarrow> [])"
  by pat_completeness auto
termination
  by (relation "measure (\<lambda>(d, rank). nat (int (length (d_table d)) - rank))")
    (auto dest: dict_enumerate_typed_next [OF sym])

declare dict_items.simps [simp del]

subsection \<open>Merging, cloning, comparing\<close>

fun store_list ::
    "('d ptr \<Rightarrow> string ptr \<Rightarrow> 'v \<Rightarrow> alloc \<Rightarrow> (int \<times> 'd ptr \<times> alloc) comp) \<Rightarrow>
     'd ptr \<Rightarrow> (string \<times> 'v) list \<Rightarrow> alloc \<Rightarrow> (int \<times> 'd ptr \<times> alloc) comp" where
  "store_list store dst [] a = Some (0, dst, a)"
| "store_list store dst ((key, v) # kvs) a =
     do {
       (r, dst, a) \<leftarrow> store dst (Some key) v a;
       if r \<noteq> 0 then Some (- 1, dst, a) else store_list store dst kvs a
     }"

definition dict_copy_entry where
  "dict_copy_entry dst key v = dict_store dst key v"

definition dict_merge :: "dict ptr \<Rightarrow> dict ptr \<Rightarrow> alloc \<Rightarrow> (int \<times> dict ptr \<times> alloc) comp" where
  "dict_merge dst src a =
     (case (dst, src) of
        (Some _, Some s) \<Rightarrow> store_list dict_copy_entry dst (dict_items s 0) a
      | _ \<Rightarrow> Some (- 1, dst, a))"

definition dict_clone :: "dict ptr \<Rightarrow> alloc \<Rightarrow> (dict ptr \<times> alloc) comp" where
  "dict_clone source a =
     (case source of
        None \<Rightarrow> Some (NULL, a)
      | Some _ \<Rightarrow>
          (case dict_new a of
             (None, a) \<Rightarrow> Some (NULL, a)
           | (Some copy, a) \<Rightarrow>
               do {
                 (r, copy, a) \<leftarrow> dict_merge (Some copy) source a;
                 Some (if r \<noteq> 0 then NULL else copy, a)
               }))"

definition dict_merge_new :: "dict ptr \<Rightarrow> dict ptr \<Rightarrow> alloc \<Rightarrow> (dict ptr \<times> alloc) comp" where
  "dict_merge_new da db a =
     (case (da, db) of
        (Some _, Some _) \<Rightarrow>
          (case dict_new a of
             (None, a) \<Rightarrow> Some (NULL, a)
           | (Some merged, a) \<Rightarrow>
               do {
                 (r, merged, a) \<leftarrow> dict_merge (Some merged) da a;
                 if r \<noteq> 0 then Some (NULL, a)
                 else do {
                   (r, merged, a) \<leftarrow> dict_merge merged db a;
                   Some (if r \<noteq> 0 then NULL else merged, a)
                 }
               })
      | _ \<Rightarrow> Some (NULL, a))"

definition dict_values_equal :: "dict_value \<Rightarrow> dict_value \<Rightarrow> bool" where
  "dict_values_equal x y \<longleftrightarrow>
     (case (x, y) of
        (V_null, V_null) \<Rightarrow> True
      | (V_str s, V_str t) \<Rightarrow> s = t
      | (V_int i, V_int j) \<Rightarrow> i = j
      | (V_uint i, V_uint j) \<Rightarrow> i = j
      | (V_long i, V_long j) \<Rightarrow> i = j
      | (V_ulong i, V_ulong j) \<Rightarrow> i = j
      | (V_llong i, V_llong j) \<Rightarrow> i = j
      | (V_ullong i, V_ullong j) \<Rightarrow> i = j
      | (V_float f, V_float g) \<Rightarrow> d_eq f g
      | (V_double f, V_double g) \<Rightarrow> d_eq f g
      | (V_bool i, V_bool j) \<Rightarrow> (i \<noteq> 0) = (j \<noteq> 0)
      | (V_char c, V_char e) \<Rightarrow> c = e
      | (V_ptr p, V_ptr q) \<Rightarrow> p = q
      | _ \<Rightarrow> False)"

text \<open>The two loops of \<open>dict_diff\<close>: changed entries of \<open>B\<close>, then the keys \<open>B\<close> lost.\<close>

fun diff_changed ::
    "dict ptr \<Rightarrow> dict ptr \<Rightarrow> (string \<times> dict_value) list \<Rightarrow> alloc \<Rightarrow> (int \<times> dict ptr \<times> alloc) comp" where
  "diff_changed da diff [] a = Some (0, diff, a)"
| "diff_changed da diff ((key, v) # kvs) a =
     do {
       old \<leftarrow> dict_get_kp da (Some key);
       if (case old of None \<Rightarrow> True | Some kp \<Rightarrow> \<not> dict_values_equal (kp_val kp) v) then
         do {
           (r, diff, a) \<leftarrow> dict_copy_entry diff (Some key) v a;
           if r \<noteq> 0 then Some (- 1, diff, a) else diff_changed da diff kvs a
         }
       else diff_changed da diff kvs a
     }"

fun diff_removed ::
    "dict ptr \<Rightarrow> dict ptr \<Rightarrow> (string \<times> dict_value) list \<Rightarrow> alloc \<Rightarrow> (int \<times> dict ptr \<times> alloc) comp" where
  "diff_removed db diff [] a = Some (0, diff, a)"
| "diff_removed db diff ((key, v) # kvs) a =
     do {
       found \<leftarrow> dict_get_kp db (Some key);
       if found = None then
         do {
           (r, diff, a) \<leftarrow> dict_add_null diff (Some key) a;
           if r \<noteq> 0 then Some (- 1, diff, a) else diff_removed db diff kvs a
         }
       else diff_removed db diff kvs a
     }"

definition dict_diff :: "dict ptr \<Rightarrow> dict ptr \<Rightarrow> alloc \<Rightarrow> (dict ptr \<times> alloc) comp" where
  "dict_diff da db a =
     (case (da, db) of
        (Some x, Some y) \<Rightarrow>
          (case dict_new a of
             (None, a) \<Rightarrow> Some (NULL, a)
           | (Some diff, a) \<Rightarrow>
               do {
                 (r, diff, a) \<leftarrow> diff_changed da (Some diff) (dict_items y 0) a;
                 if r \<noteq> 0 then Some (NULL, a)
                 else do {
                   (r, diff, a) \<leftarrow> diff_removed db diff (dict_items x 0) a;
                   Some (if r \<noteq> 0 then NULL else diff, a)
                 }
               })
      | _ \<Rightarrow> Some (NULL, a))"

subsection \<open>Dumping\<close>

definition dict_type_name :: "val_type_t \<Rightarrow> string" where
  "dict_type_name t =
     (case t of
        VAL_NULL \<Rightarrow> ''null'' | VAL_STR \<Rightarrow> ''string'' | VAL_INT \<Rightarrow> ''int''
      | VAL_UINT \<Rightarrow> ''uint'' | VAL_LONG \<Rightarrow> ''long'' | VAL_ULONG \<Rightarrow> ''ulong''
      | VAL_LLONG \<Rightarrow> ''llong'' | VAL_ULLONG \<Rightarrow> ''ullong'' | VAL_FLOAT \<Rightarrow> ''float''
      | VAL_BOOL \<Rightarrow> ''bool'' | VAL_DOUBLE \<Rightarrow> ''double'' | VAL_FLOATP \<Rightarrow> ''floatp''
      | VAL_DOUBLEP \<Rightarrow> ''doublep'' | VAL_CHAR \<Rightarrow> ''char'' | VAL_PTR \<Rightarrow> ''ptr''
      | VAL_END \<Rightarrow> ''end'')"

fun show_hex :: "nat \<Rightarrow> string" where
  "show_hex n = (if n < 16 then [hex_digit n] else show_hex (n div 16) @ [hex_digit (n mod 16)])"

declare show_hex.simps [simp del]

text \<open>\<open>snprintf\<close> into a buffer of \<open>len\<close> bytes keeps at most \<open>len - 1\<close> characters.\<close>

definition dict_dump_value :: "dict_value \<Rightarrow> nat \<Rightarrow> string" where
  "dict_dump_value v len = take (len - 1)
     (case v of
        V_null \<Rightarrow> ''null''
      | V_str s \<Rightarrow> (case s of None \<Rightarrow> ''NULL'' | Some str \<Rightarrow> str)
      | V_int i \<Rightarrow> show_int (sint i)
      | V_uint i \<Rightarrow> show_int (uint i)
      | V_long l \<Rightarrow> show_int (sint l)
      | V_ulong l \<Rightarrow> show_int (uint l)
      | V_llong l \<Rightarrow> show_int (sint l)
      | V_ullong l \<Rightarrow> show_int (uint l)
      | V_float f \<Rightarrow> fmt_g 6 f
      | V_floatp f \<Rightarrow> fmt_g 6 f
      | V_double f \<Rightarrow> fmt_g 6 f
      | V_doublep f \<Rightarrow> fmt_g 6 f
      | V_bool i \<Rightarrow> if i \<noteq> 0 then ''true'' else ''false''
      | V_char c \<Rightarrow>
          if isprint (char_of_byte c) then [CHR 0x27, char_of_byte c, CHR 0x27]
          else ''0x'' @ [hex_digit (unat c div 16), hex_digit (unat c mod 16)]
      | V_ptr p \<Rightarrow> if p = 0 then ''(nil)'' else ''0x'' @ show_hex (unat p)
      | V_end \<Rightarrow> ''?'')"

definition pad20 :: "string \<Rightarrow> string" where
  "pad20 s = replicate (20 - length s) (CHR '' '') @ s"

text \<open>The lines \<open>dict_dump\<close> prints.\<close>

definition dict_dump :: "dict ptr \<Rightarrow> string list" where
  "dict_dump dp =
     (case dp of
        None \<Rightarrow> []
      | Some d \<Rightarrow>
          map (\<lambda>(key, v). pad20 key @ ''='' @ dict_dump_value v 256 @ '' ('' @
                 dict_type_name (val_type v) @ '')'') (dict_items d 0))"

subsection \<open>Configuration lookup and variable expansion\<close>

text \<open>\<open>cfg_get\<close> (\<open>config.c\<close>) reads the global \<open>cfg\<close> first and \<open>default_cfg\<close> second.\<close>

definition cfg_get :: "dict ptr \<Rightarrow> dict ptr \<Rightarrow> string ptr \<Rightarrow> string ptr comp" where
  "cfg_get cfg default_cfg key =
     (case key of
        None \<Rightarrow> Some NULL
      | Some _ \<Rightarrow>
          do {
            p \<leftarrow> dict_get cfg key NULL;
            case p of
              Some v \<Rightarrow> Some (Some v)
            | None \<Rightarrow>
                (case default_cfg of None \<Rightarrow> Some NULL | Some _ \<Rightarrow> dict_get default_cfg key NULL)
          })"

abbreviation (input) MAX_CFG_EXP_STRLEN :: nat where "MAX_CFG_EXP_STRLEN \<equiv> 65535"
abbreviation (input) MAX_CFG_EXP_RECURSION :: nat where "MAX_CFG_EXP_RECURSION \<equiv> 6"

text \<open>
  One pass over the buffer: \<open>get\<close> is \<open>cfg_get\<close>, \<open>out\<close> the text written so far. A
  reference \<open>${name}\<close> to an unknown name is dropped; without a closing brace it is copied.
\<close>

function expand_pass :: "(string \<Rightarrow> string ptr comp) \<Rightarrow> string \<Rightarrow> string \<Rightarrow> bool \<Rightarrow> (string \<times> bool) comp" where
  "expand_pass get src out changed =
     (if src = [] \<or> MAX_CFG_EXP_STRLEN - 1 \<le> length out then Some (out, changed)
      else if take 2 src = ''${'' \<and> CHR ''}'' \<in> set (drop 2 src) then
        (let name = takeWhile (\<lambda>c. c \<noteq> CHR ''}'') (drop 2 src);
             rest = drop (length name + 3) src
         in do {
              val \<leftarrow> get (take 255 name);
              case val of
                Some v \<Rightarrow>
                  expand_pass get rest (out @ take (MAX_CFG_EXP_STRLEN - 1 - length out) v) True
              | None \<Rightarrow> expand_pass get rest out changed
            })
      else expand_pass get (tl src) (out @ [hd src]) changed)"
  by pat_completeness auto
termination
  by (relation "measure (\<lambda>(get, src, out, changed). length src)") auto

declare expand_pass.simps [simp del]

fun expand_loop :: "(string \<Rightarrow> string ptr comp) \<Rightarrow> nat \<Rightarrow> string \<Rightarrow> string comp" where
  "expand_loop get 0 buf = Some buf"
| "expand_loop get (Suc depth) buf =
     do {
       (tmp, changed) \<leftarrow> expand_pass get buf [] False;
       if \<not> changed then Some buf
       else expand_loop get depth (take (MAX_CFG_EXP_STRLEN - 1) tmp)
     }"

definition dict_get_exp ::
    "dict ptr \<Rightarrow> dict ptr \<Rightarrow> dict ptr \<Rightarrow> string ptr \<Rightarrow> alloc \<Rightarrow> (string ptr \<times> alloc) comp" where
  "dict_get_exp cfg default_cfg d key a =
     (if d = None \<or> key = None then Some (NULL, a)
      else do {
        p \<leftarrow> dict_get d key NULL;
        case p of
          None \<Rightarrow> Some (NULL, a)
        | Some v \<Rightarrow>
            (let (ok, a) = malloc_ok a
             in if \<not> ok then Some (NULL, a)
                else do {
                  buf \<leftarrow> expand_loop (\<lambda>name. cfg_get cfg default_cfg (Some name))
                           MAX_CFG_EXP_RECURSION (take (MAX_CFG_EXP_STRLEN - 1) v);
                  Some (Some buf, snd (malloc_ok a))
                })
      })"

end
