(* ===== verification/Dict_Contract.thy ===== *)
theory Dict_Contract
  imports Dict_Access
begin

text \<open>
  The interface under which the rest of the library uses the dictionary: a store of typed
  values under string keys that may fail for lack of memory but never loses or invents an
  entry. The clients' lemmas are proved from the laws of the interface; the interpretation
  on the operations of \<open>dict.c\<close> discharges the laws from the table invariant.
\<close>

subsection \<open>Enumeration lists the entries\<close>

lemma entries_enum_skip:
  "n \<le> length t \<Longrightarrow> entries (drop n t) = entries (drop (enum_skip t n) t)"
proof (induction t n rule: enum_skip.induct)
  case (1 t n)
  show ?case
  proof (cases "n < length t \<and> \<not> live_key (kp_key (t ! n))")
    case True
    then have "entries (drop n t) = entries (drop (Suc n) t)"
      by (cases "kp_key (t ! n)") (simp_all add: Cons_nth_drop_Suc [symmetric])
    with True "1.IH" show ?thesis by (simp add: enum_skip.simps [of t n])
  next
    case False
    then show ?thesis by (auto simp: enum_skip.simps [of t n])
  qed
qed

lemma enum_skip_live:
  "enum_skip t n < length t \<Longrightarrow> live_key (kp_key (t ! enum_skip t n))"
proof (induction t n rule: enum_skip.induct)
  case (1 t n)
  then show ?case
    by (cases "n < length t \<and> \<not> live_key (kp_key (t ! n))") (simp_all add: enum_skip.simps [of t n])
qed

lemma dict_items_from: "n \<le> length (d_table d) \<Longrightarrow> dict_items d (int n) = entries (drop n (d_table d))"
proof (induction "length (d_table d) - n" arbitrary: n rule: less_induct)
  case less
  let ?t = "d_table d" and ?r = "enum_skip (d_table d) n"
  have r: "n \<le> ?r" "?r \<le> length ?t" using enum_skip_bounds [OF less.prems] by auto
  show ?case
  proof (cases "?r < length ?t")
    case False
    with r entries_enum_skip [OF less.prems] show ?thesis
      by (subst dict_items.simps) (simp add: dict_enumerate_typed_def)
  next
    case True
    from enum_skip_live [OF True] obtain key where key: "kp_key (?t ! ?r) = KStr key"
      by (rule live_keyE)
    have "dict_items d (int (Suc ?r)) = entries (drop (Suc ?r) ?t)"
      using True r by (intro less.hyps) auto
    with True key show ?thesis
      unfolding entries_enum_skip [OF less.prems] Cons_nth_drop_Suc [OF True, symmetric]
      by (subst dict_items.simps) (simp add: dict_enumerate_typed_def Let_def add.commute)
  qed
qed

lemma dict_items_all: "dict_items d 0 = entries (d_table d)"
  using dict_items_from [of 0 d] by simp

subsection \<open>The interface\<close>

locale typed_store =
  fixes valid :: "'d \<Rightarrow> bool" and load :: "'d \<Rightarrow> nat" and cap :: nat
    and view :: "'d \<Rightarrow> string \<Rightarrow> 'v option"
    and store :: "'d ptr \<Rightarrow> string ptr \<Rightarrow> 'v \<Rightarrow> alloc \<Rightarrow> (int \<times> 'd ptr \<times> alloc) comp"
  assumes store_law: "valid d \<Longrightarrow> load d < cap \<Longrightarrow>
    \<exists>r d' a'. store (Some d) (Some key) v a = Some (r, Some d', a') \<and> valid d' \<and>
      load d' \<le> load d + 1 \<and> (a = [] \<longrightarrow> a' = []) \<and>
      (r = 0 \<and> view d' = (view d)(key \<mapsto> v) \<or> r = - 1 \<and> a \<noteq> [] \<and> view d' = view d)"
begin

lemma store_list_law:
  assumes "valid d" and "load d + length kvs \<le> cap"
  shows "\<exists>r d' a'. store_list store (Some d) kvs a = Some (r, Some d', a') \<and> valid d' \<and>
    load d' \<le> load d + length kvs \<and> (a = [] \<longrightarrow> a' = []) \<and>
    (r = 0 \<and> view d' = view d ++ map_of (rev kvs) \<or> r = - 1 \<and> a \<noteq> [])"
  using assms
proof (induction kvs arbitrary: d a)
  case Nil
  then show ?case by simp
next
  case (Cons kv kvs)
  obtain key v where kv: "kv = (key, v)" by (cases kv)
  obtain r d1 a1 where st: "store (Some d) (Some key) v a = Some (r, Some d1, a1)" "valid d1"
      "load d1 \<le> load d + 1" "a = [] \<longrightarrow> a1 = []"
      "r = 0 \<and> view d1 = (view d)(key \<mapsto> v) \<or> r = - 1 \<and> a \<noteq> [] \<and> view d1 = view d"
    using store_law [OF Cons.prems(1), of key v a] Cons.prems(2) by auto
  show ?case
  proof (cases "r = 0")
    case False
    with st kv show ?thesis by auto
  next
    case True
    obtain r2 d2 a2 where rest: "store_list store (Some d1) kvs a1 = Some (r2, Some d2, a2)" "valid d2"
        "load d2 \<le> load d1 + length kvs" "a1 = [] \<longrightarrow> a2 = []"
        "r2 = 0 \<and> view d2 = view d1 ++ map_of (rev kvs) \<or> r2 = - 1 \<and> a1 \<noteq> []"
      using Cons.IH [OF st(2), of a1] Cons.prems(2) st(3) by auto
    have "view d1 ++ map_of (rev kvs) = view d ++ map_of (rev (kv # kvs))"
      using st(5) True kv by (auto simp: map_add_def fun_eq_iff split: option.splits)
    with st rest True kv show ?thesis by auto
  qed
qed

lemma store_list_distinct:
  assumes "valid d" and "load d + length kvs \<le> cap" and "distinct (map fst kvs)"
  shows "\<exists>r d' a'. store_list store (Some d) kvs a = Some (r, Some d', a') \<and> valid d' \<and>
    load d' \<le> load d + length kvs \<and> (a = [] \<longrightarrow> a' = []) \<and>
    (r = 0 \<and> view d' = view d ++ map_of kvs \<or> r = - 1 \<and> a \<noteq> [])"
proof -
  have "map_of (rev kvs) = map_of kvs"
    using assms(3) by (simp add: map_of_inject_set rev_map [symmetric])
  then show ?thesis using store_list_law [OF assms(1,2)] by simp
qed

end

locale typed_dict = typed_store +
  fixes fresh :: "alloc \<Rightarrow> 'd ptr \<times> alloc"
    and type_at :: "'d ptr \<Rightarrow> string ptr \<Rightarrow> 't comp" and type_of :: "'v option \<Rightarrow> 't"
  assumes fresh_law: "fresh a = (p, a') \<Longrightarrow>
      (p = None \<and> a \<noteq> [] \<or> (\<exists>d. p = Some d \<and> valid d \<and> load d = 0 \<and> view d = Map.empty)) \<and>
      (a = [] \<longrightarrow> a' = [])"
    and type_law: "valid d \<Longrightarrow> type_at (Some d) (Some key) = Some (type_of (view d key))"
begin

text \<open>Filling a new store with a list of entries with distinct keys.\<close>

lemma build_law:
  assumes "fresh a = (Some d, a1)" and "length kvs \<le> cap" and "distinct (map fst kvs)"
  shows "\<exists>r d' a'. store_list store (Some d) kvs a1 = Some (r, Some d', a') \<and> valid d' \<and>
    load d' \<le> length kvs \<and> (a = [] \<longrightarrow> a' = []) \<and>
    (r = 0 \<and> view d' = map_of kvs \<or> r = - 1 \<and> a \<noteq> [])"
proof -
  have d: "valid d" "load d = 0" "view d = Map.empty" "a = [] \<longrightarrow> a1 = []"
    using fresh_law [OF assms(1)] by auto
  then show ?thesis using store_list_distinct [OF d(1) _ assms(3), of a1] assms(2) by auto
qed

end

subsection \<open>The dictionary implements the interface\<close>

lemma dict_clean_store:
  assumes "dict_clean d" and "unat (d_fill d) < 2 ^ 28"
  shows "\<exists>r d' a'. dict_store (Some d) (Some key) v a = Some (r, Some d', a') \<and> dict_clean d' \<and>
    unat (d_fill d') \<le> unat (d_fill d) + 1 \<and> (a = [] \<longrightarrow> a' = []) \<and>
    (r = 0 \<and> dict_map d' = (dict_map d)(key \<mapsto> v) \<or> r = - 1 \<and> a \<noteq> [] \<and> dict_map d' = dict_map d)"
proof -
  have "dict_room 1 d" using assms(2) by (simp add: dict_room_def)
  from dict_store_correct [OF dict_cleanD(1) [OF assms(1)] this] dict_cleanD(2) [OF assms(1)]
  obtain res where "dict_store (Some d) (Some key) v a = Some res" "store_ok d key v a res" by blast
  with assms(1) show ?thesis by (cases res) (auto simp: store_ok_def)
qed

lemma dict_new_fresh:
  assumes "dict_new a = (p, a')"
  shows "(p = None \<and> a \<noteq> [] \<or>
      (\<exists>d. p = Some d \<and> dict_clean d \<and> unat (d_fill d) = 0 \<and> dict_map d = Map.empty)) \<and>
    (a = [] \<longrightarrow> a' = [])"
proof -
  let ?e = "\<lparr>d_fill = 0, d_used = 0, d_size = DICT_MIN_SZ,
      d_table = replicate (unat DICT_MIN_SZ) empty_slot\<rparr>"
  have "size_ok DICT_MIN_SZ" by (auto simp: size_ok_def intro!: exI [of _ 3])
  note e = empty_table_inv [OF this]
  have "has_free (d_table ?e)" using e(3) by (simp add: has_free_iff)
  with e have "dict_clean ?e" "dict_map ?e = Map.empty"
    by (simp_all add: dict_clean_def dict_fresh_def)
  with assms show ?thesis
    by (cases a rule: malloc_ok.cases; cases "tl a" rule: malloc_ok.cases)
      (auto simp: dict_new_def split: if_splits)
qed

lemma dict_clean_type:
  "dict_clean d \<Longrightarrow> dict_get_type (Some d) (Some key) = Some (value_type (dict_map d key))"
  by (rule dict_get_type_map) (simp_all add: dict_clean_def)

interpretation dicts: typed_dict dict_clean "\<lambda>d. unat (d_fill d)" "2 ^ 28" dict_map dict_store
    dict_new dict_get_type value_type
  by unfold_locales (rule dict_clean_store dict_new_fresh dict_clean_type; assumption)+

subsection \<open>Whole-dictionary operations\<close>

lemma dict_copy_entry_store: "dict_copy_entry = dict_store"
  by (simp add: dict_copy_entry_def fun_eq_iff)

lemma dict_items_distinct: "dict_inv d \<Longrightarrow> distinct (map fst (dict_items d 0))"
  by (simp add: dict_items_all distinct_entries dict_inv_def table_inv_def)

lemma dict_items_map: "map_of (dict_items d 0) = dict_map d"
  by (simp add: dict_items_all dict_map_def)

lemma length_dict_items: "dict_inv d \<Longrightarrow> length (dict_items d 0) = unat (d_used d)"
  by (simp add: dict_items_all entries_live dict_inv_def)

lemma dict_merge_correct:
  assumes "dict_clean dst" and "dict_inv src"
    and "unat (d_fill dst) + unat (d_used src) \<le> 2 ^ 28"
  shows "\<exists>r d' a'. dict_merge (Some dst) (Some src) a = Some (r, Some d', a') \<and> dict_clean d' \<and>
    unat (d_fill d') \<le> unat (d_fill dst) + unat (d_used src) \<and> (a = [] \<longrightarrow> a' = []) \<and>
    (r = 0 \<and> dict_map d' = dict_map dst ++ dict_map src \<or> r = - 1 \<and> a \<noteq> [])"
  using dicts.store_list_distinct [OF assms(1), of "dict_items src 0" a] assms(3)
    dict_items_distinct [OF assms(2)]
  by (simp add: dict_merge_def dict_copy_entry_store dict_items_map length_dict_items [OF assms(2)])

lemma dict_clone_correct:
  assumes "dict_inv src" and "unat (d_used src) \<le> 2 ^ 28"
  shows "\<exists>p a'. dict_clone (Some src) a = Some (p, a') \<and> (a = [] \<longrightarrow> a' = []) \<and>
    (case p of None \<Rightarrow> a \<noteq> [] | Some d \<Rightarrow> dict_clean d \<and> dict_map d = dict_map src)"
proof (cases "dict_new a")
  case (Pair p a1)
  show ?thesis
  proof (cases p)
    case None
    with Pair dict_new_fresh [OF Pair] show ?thesis by (simp add: dict_clone_def)
  next
    case (Some d)
    with dict_new_fresh [OF Pair] have d: "dict_clean d" "unat (d_fill d) = 0"
        "dict_map d = Map.empty" "a = [] \<longrightarrow> a1 = []" by auto
    obtain r d' a' where "dict_merge (Some d) (Some src) a1 = Some (r, Some d', a')" "dict_clean d'"
        "a1 = [] \<longrightarrow> a' = []" "r = 0 \<and> dict_map d' = dict_map d ++ dict_map src \<or> r = - 1 \<and> a1 \<noteq> []"
      using dict_merge_correct [OF d(1) assms(1), of a1] d(2) assms(2) by auto
    with Pair Some d show ?thesis by (auto simp: dict_clone_def)
  qed
qed

lemma dict_merge_new_correct:
  assumes "dict_inv da" and "dict_inv db" and "unat (d_used da) + unat (d_used db) \<le> 2 ^ 28"
  shows "\<exists>p a'. dict_merge_new (Some da) (Some db) a = Some (p, a') \<and> (a = [] \<longrightarrow> a' = []) \<and>
    (case p of None \<Rightarrow> a \<noteq> [] | Some d \<Rightarrow> dict_clean d \<and> dict_map d = dict_map da ++ dict_map db)"
proof (cases "dict_new a")
  case (Pair p a1)
  show ?thesis
  proof (cases p)
    case None
    with Pair dict_new_fresh [OF Pair] show ?thesis by (simp add: dict_merge_new_def)
  next
    case (Some d)
    with dict_new_fresh [OF Pair] have d: "dict_clean d" "unat (d_fill d) = 0"
        "dict_map d = Map.empty" "a = [] \<longrightarrow> a1 = []" by auto
    obtain r1 d1 a2 where m1: "dict_merge (Some d) (Some da) a1 = Some (r1, Some d1, a2)" "dict_clean d1"
        "unat (d_fill d1) \<le> unat (d_used da)" "a1 = [] \<longrightarrow> a2 = []"
        "r1 = 0 \<and> dict_map d1 = dict_map da \<or> r1 = - 1 \<and> a1 \<noteq> []"
      using dict_merge_correct [OF d(1) assms(1), of a1] d(2,3) assms(3) by auto
    obtain r2 d2 a3 where m2: "dict_merge (Some d1) (Some db) a2 = Some (r2, Some d2, a3)" "dict_clean d2"
        "a2 = [] \<longrightarrow> a3 = []" "r2 = 0 \<and> dict_map d2 = dict_map d1 ++ dict_map db \<or> r2 = - 1 \<and> a2 \<noteq> []"
      using dict_merge_correct [OF m1(2) assms(2), of a2] m1(3) assms(3) by auto
    from Pair Some d(4) m1 m2 show ?thesis by (auto simp: dict_merge_new_def)
  qed
qed

subsection \<open>Comparison\<close>

definition value_changed :: "dict_value option \<Rightarrow> dict_value \<Rightarrow> bool" where
  "value_changed old v \<longleftrightarrow> (case old of None \<Rightarrow> True | Some w \<Rightarrow> \<not> dict_values_equal w v)"

text \<open>What \<open>dict_diff\<close> promises: the changed entries of \<open>B\<close>, a null for each key it lost.\<close>

definition diff_spec :: "(string \<rightharpoonup> dict_value) \<Rightarrow> (string \<rightharpoonup> dict_value) \<Rightarrow> string \<rightharpoonup> dict_value" where
  "diff_spec ma mb key =
     (case mb key of
        Some v \<Rightarrow> if value_changed (ma key) v then Some v else None
      | None \<Rightarrow> if ma key \<noteq> None then Some V_null else None)"

lemma dict_clean_kp:
  "dict_clean d \<Longrightarrow>
     \<exists>kp. dict_get_kp (Some d) (Some key) = Some kp \<and> map_option kp_val kp = dict_map d key"
  by (rule dict_get_kp_map) (simp_all add: dict_clean_def)

lemma diff_changed_filter:
  assumes "dict_clean da"
  shows "diff_changed (Some da) diff kvs a =
    store_list dict_store diff (filter (\<lambda>(key, v). value_changed (dict_map da key) v) kvs) a"
proof (induction kvs arbitrary: diff a)
  case Nil
  then show ?case by simp
next
  case (Cons kv kvs)
  obtain key v where kv: "kv = (key, v)" by (cases kv)
  obtain kp where kp: "dict_get_kp (Some da) (Some key) = Some kp" "map_option kp_val kp = dict_map da key"
    using dict_clean_kp [OF assms] by blast
  then have "(case kp of None \<Rightarrow> True | Some e \<Rightarrow> \<not> dict_values_equal (kp_val e) v) =
      value_changed (dict_map da key) v"
    by (auto simp: value_changed_def split: option.splits)
  with kp kv Cons.IH show ?case by (simp add: dict_copy_entry_store cong: if_cong)
qed

lemma diff_removed_filter:
  assumes "dict_clean db"
  shows "diff_removed (Some db) diff kvs a =
    store_list dict_store diff
      (map (\<lambda>(key, v). (key, V_null)) (filter (\<lambda>(key, v). dict_map db key = None) kvs)) a"
proof (induction kvs arbitrary: diff a)
  case Nil
  then show ?case by simp
next
  case (Cons kv kvs)
  obtain key v where kv: "kv = (key, v)" by (cases kv)
  obtain kp where kp: "dict_get_kp (Some db) (Some key) = Some kp" "map_option kp_val kp = dict_map db key"
    using dict_clean_kp [OF assms] by blast
  then have "kp = None \<longleftrightarrow> dict_map db key = None" by (metis map_option_is_None)
  with kp kv Cons.IH show ?case by (simp add: dict_add_null_def cong: if_cong)
qed

lemma map_of_filter_distinct:
  assumes "distinct (map fst kvs)"
  shows "map_of (filter P kvs) key =
    (case map_of kvs key of None \<Rightarrow> None | Some v \<Rightarrow> if P (key, v) then Some v else None)"
  using assms
proof (induction kvs)
  case (Cons kv kvs)
  have "map_of kvs (fst kv) = None" using Cons.prems by (simp add: map_of_eq_None_iff)
  with Cons show ?case by (cases kv) auto
qed simp

lemma diff_entries:
  assumes "dict_inv da" and "dict_inv db"
  defines "changed \<equiv> filter (\<lambda>(key, v). value_changed (dict_map da key) v) (dict_items db 0)"
    and "gone \<equiv> map (\<lambda>(key, v). (key, V_null))
      (filter (\<lambda>(key, v). dict_map db key = None) (dict_items da 0))"
  shows "map_of changed ++ map_of gone = diff_spec (dict_map da) (dict_map db)"
    and "distinct (map fst changed)" and "distinct (map fst gone)"
    and "length changed \<le> unat (d_used db)" and "length gone \<le> unat (d_used da)"
proof -
  note da = dict_items_distinct [OF assms(1)] and db = dict_items_distinct [OF assms(2)]
  have g: "map_of gone key =
      (if dict_map db key = None \<and> dict_map da key \<noteq> None then Some V_null else None)" for key
  proof -
    have "gone = map (\<lambda>(key, v). (key, (\<lambda>_. V_null) v))
        (filter (\<lambda>(key, v). dict_map db key = None) (dict_items da 0))"
      by (simp add: gone_def)
    then have "map_of gone key = map_option (\<lambda>_. V_null)
        (map_of (filter (\<lambda>(key, v). dict_map db key = None) (dict_items da 0)) key)"
      by (simp only: map_of_map) simp
    then show ?thesis
      by (auto simp: map_of_filter_distinct [OF da] dict_items_map split: option.splits)
  qed
  show "map_of changed ++ map_of gone = diff_spec (dict_map da) (dict_map db)"
    by (auto simp: fun_eq_iff map_add_def g changed_def map_of_filter_distinct [OF db]
        dict_items_map diff_spec_def split: option.splits)
  show "distinct (map fst changed)" unfolding changed_def by (rule distinct_map_filter [OF db])
  have "map fst gone = map fst (filter (\<lambda>(key, v). dict_map db key = None) (dict_items da 0))"
    by (auto simp: gone_def)
  then show "distinct (map fst gone)" by (simp add: distinct_map_filter [OF da])
  show "length changed \<le> unat (d_used db)"
    using length_dict_items [OF assms(2)] length_filter_le by (auto simp: changed_def simp flip: length_dict_items [OF assms(2)])
  show "length gone \<le> unat (d_used da)"
    by (auto simp: gone_def simp flip: length_dict_items [OF assms(1)])
qed

lemma dict_diff_correct:
  assumes a: "dict_clean da" and b: "dict_clean db"
    and "unat (d_used da) + unat (d_used db) \<le> 2 ^ 28"
  shows "\<exists>p al'. dict_diff (Some da) (Some db) al = Some (p, al') \<and> (al = [] \<longrightarrow> al' = []) \<and>
    (case p of None \<Rightarrow> al \<noteq> []
     | Some d \<Rightarrow> dict_clean d \<and> dict_map d = diff_spec (dict_map da) (dict_map db))"
proof (cases "dict_new al")
  case (Pair p a1)
  note e = diff_entries [OF dict_cleanD(1) [OF a] dict_cleanD(1) [OF b]]
  show ?thesis
  proof (cases p)
    case None
    with Pair dict_new_fresh [OF Pair] show ?thesis by (simp add: dict_diff_def)
  next
    case (Some d)
    note new = Pair [unfolded Some]
    let ?changed = "filter (\<lambda>(key, v). value_changed (dict_map da key) v) (dict_items db 0)"
    let ?gone = "map (\<lambda>(key, v). (key, V_null))
        (filter (\<lambda>(key, v). dict_map db key = None) (dict_items da 0))"
    have len: "length ?changed \<le> 2 ^ 28" using e(4) assms(3) by simp
    obtain r1 d1 a2 where m1: "diff_changed (Some da) (Some d) (dict_items db 0) a1 = Some (r1, Some d1, a2)"
        "dict_clean d1" "unat (d_fill d1) \<le> length ?changed" "al = [] \<longrightarrow> a2 = []"
        "r1 = 0 \<and> dict_map d1 = map_of ?changed \<or> r1 = - 1 \<and> al \<noteq> []"
      using dicts.build_law [OF new len e(2)] unfolding diff_changed_filter [OF a] by blast
    have "unat (d_fill d1) + length ?gone \<le> 2 ^ 28" using m1(3) e(4,5) assms(3) by linarith
    from dicts.store_list_distinct [OF m1(2) this e(3), of a2]
    obtain r2 d2 a3 where m2: "diff_removed (Some db) (Some d1) (dict_items da 0) a2 = Some (r2, Some d2, a3)"
        "dict_clean d2" "a2 = [] \<longrightarrow> a3 = []"
        "r2 = 0 \<and> dict_map d2 = dict_map d1 ++ map_of ?gone \<or> r2 = - 1 \<and> a2 \<noteq> []"
      unfolding diff_removed_filter [OF b] by blast
    from new m1 m2 e(1) show ?thesis by (auto simp: dict_diff_def)
  qed
qed

end
