(* ===== verification/Json_String.thy ===== *)
theory Json_String
  imports C_Numbers
begin

text \<open>
  JSON string literals (\<open>json.c\<close>): \<open>json_escape\<close>, \<open>json_unescape\<close> with its
  \<open>\u\<close> escapes and their UTF-8 encoding, and \<open>json_parse_str\<close>, which delimits a
  literal in a text. The lemmas show that escaping and unescaping are inverse, that the
  buffers the code allocates are large enough, and that what is decoded is a C string again.
\<close>

subsection \<open>Escaping\<close>

abbreviation QUOTE :: char where "QUOTE \<equiv> CHR 0x22"
abbreviation BSLASH :: char where "BSLASH \<equiv> CHR 0x5C"

text \<open>Control characters are written \<open>\u%04x\<close>.\<close>

definition json_escape_char :: "char \<Rightarrow> string" where
  "json_escape_char c =
     (if c = QUOTE then [BSLASH, QUOTE]
      else if c = BSLASH then [BSLASH, BSLASH]
      else if c = CHR 0x08 then [BSLASH, CHR ''b'']
      else if c = CHR 0x0C then [BSLASH, CHR ''f'']
      else if c = CHR 0x0A then [BSLASH, CHR ''n'']
      else if c = CHR 0x0D then [BSLASH, CHR ''r'']
      else if c = CHR 0x09 then [BSLASH, CHR ''t'']
      else if code c < 32 then
        [BSLASH, CHR ''u'', CHR ''0'', CHR ''0'', hex_digit (code c div 16), hex_digit (code c mod 16)]
      else [c])"

definition json_escape :: "string ptr \<Rightarrow> alloc \<Rightarrow> string ptr \<times> alloc" where
  "json_escape sp a =
     (let (ok, a) = malloc_ok a
      in if \<not> ok then (NULL, a)
         else (case sp of
             None \<Rightarrow> (Some [QUOTE, QUOTE], a)
           | Some s \<Rightarrow> (Some (QUOTE # concat (map json_escape_char s) @ [QUOTE]), a)))"

subsection \<open>Unescaping\<close>

definition json_hex_digit :: "char \<Rightarrow> u32 option" where
  "json_hex_digit c =
     (if 48 \<le> code c \<and> code c \<le> 57 then Some (of_nat (code c - 48))
      else if 97 \<le> code c \<and> code c \<le> 102 then Some (of_nat (code c - 97 + 10))
      else if 65 \<le> code c \<and> code c \<le> 70 then Some (of_nat (code c - 65 + 10))
      else None)"

fun hex_loop :: "u32 \<Rightarrow> string \<Rightarrow> u32 option" where
  "hex_loop cp [] = Some cp"
| "hex_loop cp (c # cs) =
     (case json_hex_digit c of
        None \<Rightarrow> None
      | Some digit \<Rightarrow> hex_loop (push_bit 4 cp OR digit) cs)"

text \<open>The characters up to \<open>end\<close> are the argument.\<close>

definition json_hex4 :: "string \<Rightarrow> u32 option" where
  "json_hex4 p = (if length p < 4 then None else hex_loop 0 (take 4 p))"

definition byte_char :: "u32 \<Rightarrow> char" where
  "byte_char w = char_of_byte (ucast w)"

definition utf8_encode :: "u32 \<Rightarrow> string" where
  "utf8_encode cp =
     (if cp < 0x80 then [byte_char cp]
      else if cp < 0x800 then
        [byte_char (0xC0 OR drop_bit 6 cp), byte_char (0x80 OR (cp AND 0x3F))]
      else if cp < 0x10000 then
        [byte_char (0xE0 OR drop_bit 12 cp), byte_char (0x80 OR (drop_bit 6 cp AND 0x3F)),
         byte_char (0x80 OR (cp AND 0x3F))]
      else
        [byte_char (0xF0 OR drop_bit 18 cp), byte_char (0x80 OR (drop_bit 12 cp AND 0x3F)),
         byte_char (0x80 OR (drop_bit 6 cp AND 0x3F)), byte_char (0x80 OR (cp AND 0x3F))])"

text \<open>
  \<open>case 'u'\<close>: the characters after the \<open>u\<close>; the result is the code point and the rest.
\<close>

definition unescape_u :: "string \<Rightarrow> (u32 \<times> string) option" where
  "unescape_u p =
     (case json_hex4 p of
        None \<Rightarrow> None
      | Some cp \<Rightarrow>
          if cp = 0 then None
          else let p = drop 4 p
          in if 0xD800 \<le> cp \<and> cp \<le> 0xDBFF then
               if length p < 6 \<or> p ! 0 \<noteq> BSLASH \<or> p ! 1 \<noteq> CHR ''u'' then None
               else (case json_hex4 (drop 2 p) of
                   None \<Rightarrow> None
                 | Some low \<Rightarrow>
                     if low < 0xDC00 \<or> low > 0xDFFF then None
                     else Some (0x10000 + push_bit 10 (cp - 0xD800) + low - 0xDC00, drop 6 p))
             else if 0xDC00 \<le> cp \<and> cp \<le> 0xDFFF then None
             else Some (cp, p))"

lemma unescape_u_shorter: "unescape_u p = Some (cp, r) \<Longrightarrow> length r + 4 \<le> length p"
  by (auto simp: unescape_u_def json_hex4_def Let_def split: option.splits if_splits)

text \<open>The one-letter escapes.\<close>

definition unescape_simple :: "char \<Rightarrow> char option" where
  "unescape_simple c =
     (if c = QUOTE \<or> c = BSLASH \<or> c = CHR ''/'' then Some c
      else if c = CHR ''b'' then Some (CHR 0x08)
      else if c = CHR ''f'' then Some (CHR 0x0C)
      else if c = CHR ''n'' then Some (CHR 0x0A)
      else if c = CHR ''r'' then Some (CHR 0x0D)
      else if c = CHR ''t'' then Some (CHR 0x09)
      else None)"

text \<open>The loop over the characters between the quotes.\<close>

function (sequential) unescape_loop :: "string \<Rightarrow> string option" where
  "unescape_loop [] = Some []"
| "unescape_loop (c # p) =
     (if code c < 32 \<or> c = QUOTE then None
      else if c \<noteq> BSLASH then map_option ((#) c) (unescape_loop p)
      else (case p of
          [] \<Rightarrow> None
        | e # p \<Rightarrow>
            if e = CHR ''u'' then
              (case unescape_u p of
                 None \<Rightarrow> None
               | Some (cp, p) \<Rightarrow> map_option ((@) (utf8_encode cp)) (unescape_loop p))
            else (case unescape_simple e of
                None \<Rightarrow> None
              | Some c \<Rightarrow> map_option ((#) c) (unescape_loop p))))"
  by pat_completeness auto
termination
  by (relation "measure length") (auto dest: unescape_u_shorter)

definition json_unescape :: "string ptr \<Rightarrow> alloc \<Rightarrow> string ptr \<times> alloc" where
  "json_unescape sp a =
     (case sp of
        None \<Rightarrow> (NULL, a)
      | Some s \<Rightarrow>
          if length s < 2 \<or> hd s \<noteq> QUOTE \<or> last s \<noteq> QUOTE then (NULL, a)
          else let (ok, a) = malloc_ok a
            in if \<not> ok then (NULL, a) else (unescape_loop (butlast (tl s)), a))"

subsection \<open>Delimiting a literal\<close>

text \<open>The loop of \<open>json_parse_str\<close>: the suffix that starts at the closing quote.\<close>

fun str_end :: "string \<Rightarrow> string option" where
  "str_end [] = None"
| "str_end (c # s) =
     (if c = QUOTE then Some (c # s)
      else if code c < 32 then None
      else if c = BSLASH then (case s of [] \<Rightarrow> None | e # s' \<Rightarrow> str_end s')
      else str_end s)"

text \<open>The decoded string and the rest of the text.\<close>

definition json_parse_str :: "string \<Rightarrow> alloc \<Rightarrow> (string \<times> string) ptr \<times> alloc" where
  "json_parse_str s a =
     (if s = [] \<or> hd s \<noteq> QUOTE then (NULL, a)
      else (case str_end (tl s) of
          None \<Rightarrow> (NULL, a)
        | Some e \<Rightarrow>
            let (ok, a) = malloc_ok a
            in if \<not> ok then (NULL, a)
               else (case json_unescape (Some (take (length s - length e + 1) s)) a of
                   (None, a) \<Rightarrow> (NULL, a)
                 | (Some val, a) \<Rightarrow> (Some (val, tl e), a))))"

subsection \<open>Escaping and unescaping are inverse\<close>

declare unescape_loop.simps [simp del]

lemma json_hex_digit_inverse: "n < 16 \<Longrightarrow> json_hex_digit (hex_digit n) = Some (of_nat n)"
  by (simp add: json_hex_digit_def hex_digit_def code_char_of)

lemma nibbles_combine:
  assumes "a < 2" and "b < 16"
  shows "push_bit 4 (of_nat a :: u32) OR of_nat b = of_nat (16 * a + b)"
proof -
  have "a = 0 \<or> a = 1" and "b = 0 \<or> b = 1 \<or> b = 2 \<or> b = 3 \<or> b = 4 \<or> b = 5 \<or> b = 6 \<or> b = 7 \<or> b = 8 \<or>
      b = 9 \<or> b = 10 \<or> b = 11 \<or> b = 12 \<or> b = 13 \<or> b = 14 \<or> b = 15"
    using assms by arith+
  then show ?thesis by (elim disjE) simp_all
qed

lemma json_hex4_control:
  assumes "n < 32"
  shows "json_hex4 (CHR ''0'' # CHR ''0'' # hex_digit (n div 16) # hex_digit (n mod 16) # r) =
    Some (of_nat n)"
proof -
  have "json_hex_digit (CHR ''0'') = Some 0" by (simp add: json_hex_digit_def code_def)
  moreover have "n div 16 < 2" using assms by auto
  ultimately show ?thesis
    using nibbles_combine [of "n div 16" "n mod 16"]
    by (simp add: json_hex4_def json_hex_digit_inverse)
qed

lemma of_nat_small32: "n < 32 \<Longrightarrow> unat (of_nat n :: u32) = n"
  by (simp add: unat_of_nat take_bit_nat_eq_self)

lemma utf8_encode_control: "n < 32 \<Longrightarrow> utf8_encode (of_nat n) = [char_of n]"
  by (simp add: utf8_encode_def byte_char_def char_of_byte_def word_less_nat_alt of_nat_small32
      unsigned_ucast_eq take_bit_nat_eq_self)

lemma unescape_u_control:
  assumes "0 < n" and "n < 32"
  shows "unescape_u (CHR ''0'' # CHR ''0'' # hex_digit (n div 16) # hex_digit (n mod 16) # r) =
    Some (of_nat n, r)"
proof -
  have "(of_nat n :: u32) \<noteq> 0" "\<not> 0xD800 \<le> (of_nat n :: u32)" "\<not> 0xDC00 \<le> (of_nat n :: u32)"
    using assms of_nat_small32 [of n] by (simp_all add: word_le_nat_alt unat_eq_0 [symmetric])
  then show ?thesis by (simp add: unescape_u_def json_hex4_control [OF assms(2)])
qed

lemma unescape_steps:
  "unescape_loop [] = Some []"
  "code c < 32 \<or> c = QUOTE \<Longrightarrow> unescape_loop (c # p) = None"
  "32 \<le> code c \<Longrightarrow> c \<noteq> QUOTE \<Longrightarrow> c \<noteq> BSLASH \<Longrightarrow> unescape_loop (c # p) = map_option ((#) c) (unescape_loop p)"
  "unescape_loop [BSLASH] = None"
  "unescape_loop (BSLASH # CHR ''u'' # p) =
     (case unescape_u p of None \<Rightarrow> None
      | Some (cp, p) \<Rightarrow> map_option ((@) (utf8_encode cp)) (unescape_loop p))"
  "e \<noteq> CHR ''u'' \<Longrightarrow> unescape_loop (BSLASH # e # p) =
     (case unescape_simple e of None \<Rightarrow> None | Some c \<Rightarrow> map_option ((#) c) (unescape_loop p))"
  by (simp_all add: unescape_loop.simps code_def)

text \<open>Induction over successful runs of the loop.\<close>

lemma unescape_induct [consumes 1, case_names Nil plain simple unicode]:
  assumes "unescape_loop p = Some out"
    and "P [] []"
    and "\<And>c p out. 32 \<le> code c \<Longrightarrow> c \<noteq> QUOTE \<Longrightarrow> c \<noteq> BSLASH \<Longrightarrow> P p out \<Longrightarrow> P (c # p) (c # out)"
    and "\<And>e c p out. unescape_simple e = Some c \<Longrightarrow> P p out \<Longrightarrow> P (BSLASH # e # p) (c # out)"
    and "\<And>p cp r out. unescape_u p = Some (cp, r) \<Longrightarrow> P r out \<Longrightarrow>
      P (BSLASH # CHR ''u'' # p) (utf8_encode cp @ out)"
  shows "P p out"
  using assms(1)
proof (induction "length p" arbitrary: p out rule: less_induct)
  case less
  show ?case
  proof (cases p)
    case Nil
    with less.prems assms(2) show ?thesis by (simp add: unescape_steps)
  next
    case (Cons c p1)
    then have "\<not> (code c < 32 \<or> c = QUOTE)" using less.prems unescape_steps(2) [of c p1] by auto
    then have c: "32 \<le> code c" "c \<noteq> QUOTE" by simp_all
    show ?thesis
    proof (cases "c = BSLASH")
      case False
      with less Cons c show ?thesis by (auto simp: unescape_steps intro!: assms(3))
    next
      case True
      with Cons less.prems obtain e p2 where p: "p = BSLASH # e # p2"
        by (cases p1) (auto simp: unescape_steps)
      show ?thesis
      proof (cases "e = CHR ''u''")
        case False
        with less p show ?thesis
          by (auto simp: unescape_steps split: option.splits intro!: assms(4))
      next
        case u: True
        with less.prems p obtain cp r out' where r: "unescape_u p2 = Some (cp, r)"
            "unescape_loop r = Some out'" "out = utf8_encode cp @ out'"
          by (auto simp: unescape_steps split: option.splits)
        moreover have "length r < length p" using unescape_u_shorter [OF r(1)] p by simp
        ultimately show ?thesis using less.hyps [of r out'] p u by (auto intro: assms(5))
      qed
    qed
  qed
qed

definition short_escape :: "char \<Rightarrow> char option" where
  "short_escape c = map_of [(QUOTE, QUOTE), (BSLASH, BSLASH), (CHR 0x08, CHR ''b''), (CHR 0x0C, CHR ''f''),
     (CHR 0x0A, CHR ''n''), (CHR 0x0D, CHR ''r''), (CHR 0x09, CHR ''t'')] c"

lemma json_escape_char_alt:
  "json_escape_char c = (case short_escape c of
     Some e \<Rightarrow> [BSLASH, e]
   | None \<Rightarrow> if code c < 32 then [BSLASH, CHR ''u'', CHR ''0'', CHR ''0'',
         hex_digit (code c div 16), hex_digit (code c mod 16)] else [c])"
  by (simp add: json_escape_char_def short_escape_def)

lemma short_escape_unescape: "short_escape c = Some e \<Longrightarrow> e \<noteq> CHR ''u'' \<and> unescape_simple e = Some c"
  by (auto simp: short_escape_def unescape_simple_def split: if_splits)

lemma short_escape_None: "short_escape c = None \<Longrightarrow> c \<noteq> QUOTE \<and> c \<noteq> BSLASH"
  by (auto simp: short_escape_def)

lemma escape_char_cases:
  obtains (control) "code c < 32" and "json_escape_char c =
      [BSLASH, CHR ''u'', CHR ''0'', CHR ''0'', hex_digit (code c div 16), hex_digit (code c mod 16)]"
    | (simple) e where "e \<noteq> CHR ''u''" and "unescape_simple e = Some c" and "json_escape_char c = [BSLASH, e]"
    | (plain) "32 \<le> code c" and "c \<noteq> QUOTE" and "c \<noteq> BSLASH" and "json_escape_char c = [c]"
proof (cases "short_escape c")
  case None
  show ?thesis
  proof (cases "code c < 32")
    case True
    with None show ?thesis by (intro control) (simp_all add: json_escape_char_alt)
  next
    case False
    with None short_escape_None [OF None] show ?thesis
      by (intro plain) (simp_all add: json_escape_char_alt)
  qed
next
  case (Some e)
  with short_escape_unescape [OF Some] show ?thesis
    by (intro simple [of e]) (simp_all add: json_escape_char_alt)
qed

lemma unescape_escape_char:
  assumes "c \<noteq> NUL"
  shows "unescape_loop (json_escape_char c @ r) = map_option ((#) c) (unescape_loop r)"
proof (cases c rule: escape_char_cases)
  case control
  have "0 < code c" using assms code_eq_iff [of c NUL] by (simp add: code_def [of NUL])
  with control show ?thesis
    using unescape_u_control [of "code c" r] utf8_encode_control [of "code c"]
    by (cases "unescape_loop r") (simp_all add: unescape_steps)
next
  case (simple e)
  then show ?thesis by (simp add: unescape_steps)
next
  case plain
  then show ?thesis by (simp add: unescape_steps)
qed

lemma unescape_escape: "cstr s \<Longrightarrow> unescape_loop (concat (map json_escape_char s)) = Some s"
  by (induction s) (auto simp: unescape_escape_char unescape_steps)

lemma hex_digit_plain:
  assumes "n < 16"
  shows "hex_digit n \<noteq> QUOTE" "hex_digit n \<noteq> BSLASH" "32 \<le> code (hex_digit n)"
proof -
  have "48 \<le> code (hex_digit n)" "code (hex_digit n) \<noteq> 0x5C"
    using assms by (auto simp: hex_digit_def code_char_of)
  then show "hex_digit n \<noteq> QUOTE" "hex_digit n \<noteq> BSLASH" "32 \<le> code (hex_digit n)"
    by (auto simp: code_def)
qed

lemma str_end_steps:
  "c \<noteq> QUOTE \<Longrightarrow> c \<noteq> BSLASH \<Longrightarrow> 32 \<le> code c \<Longrightarrow> str_end (c # s) = str_end s"
  "str_end (BSLASH # e # s) = str_end s"
  "str_end (CHR ''0'' # s) = str_end s"
  by (simp_all add: code_def)

lemma str_end_escape_char: "str_end (json_escape_char c @ r) = str_end r"
proof (cases c rule: escape_char_cases)
  case control
  then have "code c div 16 < 16" "code c mod 16 < 16" by auto
  with control show ?thesis
    by (simp add: str_end_steps hex_digit_plain del: str_end.simps(2))
next
  case (simple e)
  then show ?thesis by (simp add: str_end_steps del: str_end.simps(2))
next
  case plain
  then show ?thesis by (simp add: str_end_steps del: str_end.simps(2))
qed

lemma str_end_escape: "str_end (concat (map json_escape_char s) @ QUOTE # r) = Some (QUOTE # r)"
  by (induction s) (simp_all add: str_end_escape_char)

text \<open>The literal that \<open>json_escape\<close> writes, read back from a text.\<close>

definition json_literal :: "string \<Rightarrow> string" where
  "json_literal s = QUOTE # concat (map json_escape_char s) @ [QUOTE]"

lemma json_unescape_literal:
  "cstr s \<Longrightarrow> json_unescape (Some (json_literal s)) [] = (Some s, [])"
  by (simp add: json_unescape_def json_literal_def unescape_escape)

lemma json_parse_literal:
  assumes "cstr s"
  shows "json_parse_str (json_literal s @ r) [] = (Some (s, r), [])"
proof -
  have "take (length (json_literal s @ r) - length (QUOTE # r) + 1) (json_literal s @ r) = json_literal s"
    by (simp add: json_literal_def)
  then show ?thesis
    using str_end_escape [of s r] json_unescape_literal [OF assms]
    by (simp add: json_parse_str_def json_literal_def)
qed

subsection \<open>Buffer sizes and shapes\<close>

lemma json_escape_char_length: "length (json_escape_char c) \<le> 6"
  by (simp add: json_escape_char_def)

lemma json_literal_length: "length (json_literal s) \<le> 6 * length s + 2"
proof (induction s)
  case (Cons c s)
  then show ?case using json_escape_char_length [of c] by (simp add: json_literal_def)
qed (simp add: json_literal_def)

lemma utf8_encode_length: "length (utf8_encode cp) \<le> 4"
  by (simp add: utf8_encode_def)

lemma unescape_loop_length: "unescape_loop p = Some out \<Longrightarrow> length out \<le> length p"
proof (induction rule: unescape_induct)
  case (unicode p cp r out)
  then show ?case using unescape_u_shorter [of p cp r] utf8_encode_length [of cp] by simp
qed simp_all

lemma code_byte_char: "code (byte_char w) = unat (ucast w :: u8)"
proof -
  have "unat (ucast w :: u8) < 2 ^ 8" using take_bit_nat_less_exp [of 8 "unat w"] by (simp add: unsigned_ucast_eq)
  then show ?thesis by (simp add: byte_char_def char_of_byte_def code_char_of)
qed

lemma byte_char_bit7:
  assumes "bit w 7"
  shows "byte_char w \<noteq> NUL"
proof
  assume "byte_char w = NUL"
  then have "unat (ucast w :: u8) = 0" using code_byte_char [of w] by (simp add: code_def)
  then have "(ucast w :: u8) = 0" by (simp add: unat_eq_0)
  with assms bit_ucast_iff [of w 7, where 'a = 8] show False by simp
qed

lemma utf8_encode_cstr:
  assumes "cp \<noteq> 0"
  shows "cstr (utf8_encode cp)"
proof (cases "cp < 0x80")
  case True
  then have "unat (ucast cp :: u8) = unat cp"
    by (simp add: unsigned_ucast_eq word_less_nat_alt take_bit_nat_eq_self)
  with assms have "code (byte_char cp) \<noteq> code NUL"
    by (simp add: code_byte_char code_def [of NUL] unat_eq_0)
  with True show ?thesis by (simp add: utf8_encode_def)
next
  case False
  have "bit (0xC0 OR w) 7" "bit (0x80 OR w) 7" "bit (0xE0 OR w) 7" "bit (0xF0 OR w) 7" for w :: u32
    by (simp_all add: bit_or_iff)
  with False show ?thesis by (simp add: utf8_encode_def byte_char_bit7)
qed

lemma surrogate_value:
  assumes "0xD800 \<le> hi" "hi \<le> 0xDBFF" "0xDC00 \<le> low" "low \<le> 0xDFFF"
  shows "uint (0x10000 + push_bit 10 (hi - 0xD800) + low - 0xDC00 :: u32) =
    0x10000 + (uint hi - 0xD800) * 1024 + (uint low - 0xDC00)"
proof -
  have range: "0xD800 \<le> uint hi" "uint hi \<le> 0xDBFF" "0xDC00 \<le> uint low" "uint low \<le> 0xDFFF"
    using assms by (simp_all add: word_le_def)
  have "0x10000 + push_bit 10 (hi - 0xD800) + low - 0xDC00 =
      (word_of_int (0x10000 + (uint hi - 0xD800) * 1024 + uint low - 0xDC00) :: u32)"
    by (simp add: push_bit_eq_mult)
  also have "uint \<dots> = 0x10000 + (uint hi - 0xD800) * 1024 + uint low - 0xDC00"
    unfolding uint_word_of_int by (rule mod_pos_pos_trivial) (use range in simp_all)
  finally show ?thesis by simp
qed

lemma unescape_u_nonzero: "unescape_u p = Some (cp, r) \<Longrightarrow> cp \<noteq> 0"
proof -
  assume u: "unescape_u p = Some (cp, r)"
  then obtain hi where hi: "json_hex4 p = Some hi" "hi \<noteq> 0"
    by (auto simp: unescape_u_def split: option.splits if_splits)
  show "cp \<noteq> 0"
  proof (cases "0xD800 \<le> hi \<and> hi \<le> 0xDBFF")
    case False
    with u hi show ?thesis by (auto simp: unescape_u_def Let_def split: if_splits)
  next
    case True
    with u hi obtain low where low: "0xDC00 \<le> low" "low \<le> 0xDFFF"
        "cp = 0x10000 + push_bit 10 (hi - 0xD800) + low - 0xDC00"
      by (auto simp: unescape_u_def Let_def not_less split: if_splits option.splits)
    have "0xD800 \<le> uint hi" "0xDC00 \<le> uint low" using True low by (simp_all add: word_le_def)
    then have "uint cp \<noteq> 0" using surrogate_value [of hi low] True low by simp
    then show ?thesis by auto
  qed
qed

lemma unescape_loop_cstr: "unescape_loop p = Some out \<Longrightarrow> cstr out"
proof (induction rule: unescape_induct)
  case (plain c p out)
  then show ?case by (auto simp: code_def)
next
  case (simple e c p out)
  then show ?case by (auto simp: unescape_simple_def split: if_splits)
next
  case (unicode p cp r out)
  then show ?case using unescape_u_nonzero utf8_encode_cstr by auto
qed simp

subsection \<open>UTF-8\<close>

text \<open>The encoding forms of the Unicode standard, on numbers.\<close>

definition utf8_bytes :: "nat \<Rightarrow> nat list" where
  "utf8_bytes n =
     (if n < 128 then [n]
      else if n < 2048 then [192 + n div 64, 128 + n mod 64]
      else if n < 65536 then [224 + n div 4096, 128 + n div 64 mod 64, 128 + n mod 64]
      else [240 + n div 262144, 128 + n div 4096 mod 64, 128 + n div 64 mod 64, 128 + n mod 64])"

lemma or_low_bits: "x < 2 ^ k \<Longrightarrow> m * 2 ^ k OR x = m * 2 ^ k + (x :: nat)"
proof -
  assume "x < 2 ^ k"
  then have x: "take_bit k x = x" by (simp add: take_bit_nat_eq_self)
  have "push_bit k m AND take_bit k x = 0" by (rule bit_eqI) (auto simp: bit_simps)
  then have "push_bit k m + x = push_bit k m OR x" using x by (simp add: disjunctive_add_eq_or)
  then show ?thesis by (simp add: push_bit_eq_mult)
qed

lemma and_63: "n AND 63 = n mod (64 :: nat)"
  using take_bit_eq_mask [of 6 n] by (simp add: take_bit_eq_mod mask_eq_exp_minus_1)

lemma byte_char_nat: "byte_char w = char_of (unat w)"
  by (simp add: byte_char_def char_of_byte_def unsigned_ucast_eq char_of_def bit_take_bit_iff)

lemma tail_byte: "unat (0x80 OR (w AND 0x3F) :: u32) = 128 + unat w mod 64"
  using or_low_bits [of "unat w mod 64" 6 2] by (simp add: unsigned_or_eq unsigned_and_eq and_63)

lemma lead_byte:
  "unat w < 32 \<Longrightarrow> unat (0xC0 OR w :: u32) = 192 + unat w"
  "unat w < 16 \<Longrightarrow> unat (0xE0 OR w :: u32) = 224 + unat w"
  "unat w < 8 \<Longrightarrow> unat (0xF0 OR w :: u32) = 240 + unat w"
  using or_low_bits [of "unat w" 5 6] or_low_bits [of "unat w" 4 14] or_low_bits [of "unat w" 3 30]
  by (simp_all add: unsigned_or_eq)

lemma unat_drop_bit: "unat (drop_bit k w :: u32) = unat w div 2 ^ k"
  using unsigned_less [where 'a = nat, of w] unfolding unsigned_drop_bit_eq
  by (simp add: drop_bit_eq_div take_bit_nat_eq_self)

lemma utf8_encode_bytes:
  assumes "cp \<le> 0x10FFFF"
  shows "utf8_encode cp = map char_of (utf8_bytes (unat cp))"
proof -
  have "unat cp \<le> 0x10FFFF" using assms by (simp add: word_le_nat_alt)
  moreover have "unat cp < 2048 \<Longrightarrow> unat (drop_bit 6 cp) < 32"
    "unat cp < 65536 \<Longrightarrow> unat (drop_bit 12 cp) < 16" "unat cp \<le> 0x10FFFF \<Longrightarrow> unat (drop_bit 18 cp) < 8"
    by (simp_all add: unat_drop_bit less_mult_imp_div_less)
  ultimately show ?thesis
    by (simp add: utf8_encode_def utf8_bytes_def byte_char_nat tail_byte lead_byte
       word_less_nat_alt) (simp add: unat_drop_bit)
qed

lemma json_hex_digit_less: "json_hex_digit c = Some d \<Longrightarrow> unat d < 16"
  by (auto simp: json_hex_digit_def unat_of_nat take_bit_nat_eq_self simp del: of_nat_diff of_nat_add
      split: if_splits)

lemma hex_step:
  assumes "unat cp < 2 ^ 28" and "unat d < 16"
  shows "unat (push_bit 4 cp OR d :: u32) = unat cp * 16 + unat d"
proof -
  have "unat (push_bit 4 cp) = unat cp * 16"
    using assms(1) unfolding unsigned_push_bit_eq
    by (simp add: push_bit_eq_mult take_bit_nat_eq_self mult.commute)
  then show ?thesis using or_low_bits [of "unat d" 4 "unat cp"] assms(2) by (simp add: unsigned_or_eq)
qed

lemma hex_loop_less:
  "hex_loop cp cs = Some r \<Longrightarrow> unat cp < 16 ^ j \<Longrightarrow> j + length cs \<le> 7 \<Longrightarrow> unat r < 16 ^ (j + length cs)"
proof (induction cs arbitrary: cp j)
  case (Cons c cs)
  then obtain d where d: "json_hex_digit c = Some d" "hex_loop (push_bit 4 cp OR d) cs = Some r"
    by (auto split: option.splits)
  have "unat cp < 2 ^ 28"
    using Cons.prems(2,3) power_increasing [of j 7 "16 :: nat"] by simp
  then have "unat (push_bit 4 cp OR d) < 16 ^ Suc j"
    using hex_step json_hex_digit_less [OF d(1)] Cons.prems(2) by simp
  from Cons.IH [OF d(2) this] Cons.prems(3) show ?case by simp
qed simp

lemma json_hex4_less: "json_hex4 p = Some cp \<Longrightarrow> unat cp < 0x10000"
  using hex_loop_less [of 0 "take 4 p" cp 0] by (auto simp: json_hex4_def split: if_splits)

lemma surrogate_range:
  fixes h l :: int
  assumes "0xD800 \<le> h" "h \<le> 0xDBFF" "0xDC00 \<le> l" "l \<le> 0xDFFF"
  shows "0x10000 \<le> 0x10000 + (h - 0xD800) * 1024 + (l - 0xDC00)"
    and "0x10000 + (h - 0xD800) * 1024 + (l - 0xDC00) \<le> 0x10FFFF"
  using assms by auto

lemma unescape_u_scalar:
  assumes "unescape_u p = Some (cp, r)"
  shows "unat cp \<le> 0x10FFFF \<and> \<not> (0xD800 \<le> unat cp \<and> unat cp \<le> 0xDFFF)"
proof -
  obtain hi where hi: "json_hex4 p = Some hi" "unat hi < 0x10000"
    using assms json_hex4_less by (auto simp: unescape_u_def split: option.splits)
  show ?thesis
  proof (cases "0xD800 \<le> hi \<and> hi \<le> 0xDBFF")
    case False
    with assms hi have "cp = hi" "\<not> (0xDC00 \<le> hi \<and> hi \<le> 0xDFFF)"
      by (auto simp: unescape_u_def Let_def split: if_splits)
    with False hi(2) show ?thesis by (auto simp: word_le_nat_alt)
  next
    case True
    with assms hi obtain low where low: "0xDC00 \<le> low" "low \<le> 0xDFFF"
        "cp = 0x10000 + push_bit 10 (hi - 0xD800) + low - 0xDC00"
      by (auto simp: unescape_u_def Let_def not_less split: if_splits option.splits)
    then have "uint cp = 0x10000 + (uint hi - 0xD800) * 1024 + (uint low - 0xDC00)"
      using surrogate_value [of hi low] True by simp
    moreover have "0xD800 \<le> uint hi" "uint hi \<le> 0xDBFF" "0xDC00 \<le> uint low" "uint low \<le> 0xDFFF"
      using True low by (simp_all add: word_le_def)
    ultimately have "0x10000 \<le> uint cp" "uint cp \<le> 0x10FFFF"
      using surrogate_range [of "uint hi" "uint low"] by (simp_all only:)
    moreover have "uint cp = int (unat cp)" by simp
    ultimately show ?thesis by linarith
  qed
qed

text \<open>A \<open>\u\<close> escape (or surrogate pair of them) that \<open>json_unescape\<close> accepts denotes a
  Unicode scalar value other than \<open>U+0000\<close>, and the bytes written for it are its UTF-8
  encoding.\<close>

theorem json_unicode_escapes:
  assumes "unescape_u p = Some (cp, r)"
  shows "0 < unat cp \<and> unat cp \<le> 0x10FFFF \<and> \<not> (0xD800 \<le> unat cp \<and> unat cp \<le> 0xDFFF) \<and>
    utf8_encode cp = map char_of (utf8_bytes (unat cp))"
  using unescape_u_scalar [OF assms] unescape_u_nonzero [OF assms] utf8_encode_bytes [of cp]
  by (simp add: word_le_nat_alt unat_gt_0)

theorem json_unicode_escapes_witness:
  "unescape_u ''20aC!'' = Some (0x20AC, ''!'') \<and> utf8_encode 0x20AC = map char_of (utf8_bytes 0x20AC)"
proof -
  have u: "unescape_u ''20aC!'' = Some (0x20AC, ''!'')" by code_simp
  from json_unicode_escapes [OF u] show ?thesis using u by simp
qed

lemma json_escape_literal: "json_escape (Some s) [] = (Some (json_literal s), [])"
  by (simp add: json_escape_def json_literal_def)

text \<open>What \<open>json_escape\<close> writes for a C string is read back as the same string, by
  \<open>json_unescape\<close> and by \<open>json_parse_str\<close>, which finds the end of the literal in whatever
  text follows it.\<close>

theorem json_string_roundtrip:
  assumes "cstr s" and "json_escape (Some s) [] = (Some lit, a)"
  shows "json_unescape (Some lit) [] = (Some s, []) \<and> json_parse_str (lit @ rest) [] = (Some (s, rest), [])"
  using assms json_unescape_literal json_parse_literal by (auto simp: json_escape_literal)

theorem json_string_roundtrip_witness:
  "json_parse_str (json_literal [QUOTE, CHR 0x01, CHR 0xE9] @ '':1'') [] =
     (Some ([QUOTE, CHR 0x01, CHR 0xE9], '':1''), [])"
  using json_string_roundtrip [of "[QUOTE, CHR 0x01, CHR 0xE9]" "json_literal [QUOTE, CHR 0x01, CHR 0xE9]"
      "[]" "'':1''"]
  by (simp add: json_escape_literal)

text \<open>The buffers of the two conversions are large enough for every input: the literal and its
  NUL fit in the \<open>6 * len + 3\<close> bytes \<open>json_escape\<close> allocates, the decoded string and its NUL in
  the \<open>len\<close> bytes \<open>json_unescape\<close> allocates; the decoded string contains no NUL.\<close>

theorem json_string_buffers:
  assumes "json_escape (Some s) a = (Some lit, a1)" and "json_unescape (Some t) b = (Some out, b1)"
  shows "length lit + 1 \<le> 6 * length s + 3 \<and> length out + 1 \<le> length t \<and> cstr out"
proof -
  have "length lit + 1 \<le> 6 * length s + 3"
    using assms(1) json_literal_length [of s]
    by (auto simp: json_escape_def json_literal_def split: prod.splits if_splits)
  moreover have "2 \<le> length t" "unescape_loop (butlast (tl t)) = Some out"
    using assms(2) by (auto simp: json_unescape_def split: prod.splits if_splits)
  ultimately show ?thesis
    using unescape_loop_length [of "butlast (tl t)" out] unescape_loop_cstr by auto
qed

theorem json_string_buffers_witness:
  "length (json_literal [CHR 0x01]) + 1 = 6 * length [CHR 0x01] + 3 \<and>
   length [CHR 0x01] + 1 \<le> length (json_literal [CHR 0x01])"
proof -
  have u: "json_unescape (Some (json_literal [CHR 0x01])) [] = (Some [CHR 0x01], [])"
    by (rule json_unescape_literal) simp
  have "length (json_literal [CHR 0x01]) + 1 = 6 * length [CHR 0x01] + 3"
    by (simp add: json_literal_def json_escape_char_def code_def)
  with json_string_buffers [OF json_escape_literal u] show ?thesis by simp
qed

end
