(* ===== verification/Json.thy ===== *)
theory Json
  imports Dict_Contract Json_String
begin

text \<open>
  The JSON reader and writer of \<open>json.c\<close>. The reader flattens a JSON text into a
  dictionary whose keys are the paths of the values (\<open>a.b[0]\<close>); the writer splits the
  keys at the dots, builds a tree and prints it into a growing buffer.

  A position in the text is the suffix that starts there. The three parsing functions call
  one another; their recursion carries fuel, and running out of fuel is the result
  \<open>None\<close>, as is a dictionary operation that does not return. \<open>Json_Properties\<close> shows that
  the fuel \<open>json2dict\<close> gives is always enough.
\<close>

subsection \<open>Scanning\<close>

definition path_append :: "string ptr \<Rightarrow> string ptr \<Rightarrow> alloc \<Rightarrow> string ptr \<times> alloc" where
  "path_append bp sp a =
     (case (bp, sp) of
        (Some base, Some suffix) \<Rightarrow>
          let (ok, a) = malloc_ok a
          in if \<not> ok then (NULL, a)
             else if suffix \<noteq> [] \<and> hd suffix = CHR ''['' then (Some (base @ suffix), a)
             else if base \<noteq> [] then (Some (base @ CHR ''.'' # suffix), a)
             else (Some suffix, a)
      | _ \<Rightarrow> (NULL, a))"

definition json_ws :: "char \<Rightarrow> bool" where
  "json_ws c \<longleftrightarrow> c \<in> {CHR '' '', CHR 0x09, CHR 0x0D, CHR 0x0A}"

definition skip_ws :: "string \<Rightarrow> string" where
  "skip_ws s = dropWhile json_ws s"

text \<open>\<open>*s == c\<close>\<close>

definition at_char :: "char \<Rightarrow> string \<Rightarrow> bool" where
  "at_char c s \<longleftrightarrow> s \<noteq> [] \<and> hd s = c"

definition primitive_end :: "char \<Rightarrow> bool" where
  "primitive_end c \<longleftrightarrow> c \<in> {CHR '','', CHR '']'', CHR ''}''} \<or> json_ws c"

definition json_parse_primitive :: "string \<Rightarrow> alloc \<Rightarrow> (string \<times> string) ptr \<times> alloc" where
  "json_parse_primitive s a =
     (let val = takeWhile (\<lambda>c. \<not> primitive_end c) s;
          rest = dropWhile (\<lambda>c. \<not> primitive_end c) s
      in if val = [] then (NULL, a)
         else let (ok, a) = malloc_ok a
           in if \<not> ok then (NULL, a) else (Some (val, rest), a))"

subsection \<open>Numbers\<close>

definition skip_digits :: "string \<Rightarrow> string" where
  "skip_digits s = dropWhile isdigit s"

definition starts_digit :: "string \<Rightarrow> bool" where
  "starts_digit s \<longleftrightarrow> s \<noteq> [] \<and> isdigit (hd s)"

text \<open>The three parts of a number; \<open>None\<close> is \<open>goto fail\<close>.\<close>

definition scan_int_part :: "string \<Rightarrow> string option" where
  "scan_int_part val =
     (let number = (if at_char (CHR ''-'') val then tl val else val)
      in if at_char (CHR ''0'') number then Some (tl number)
         else if starts_digit number then Some (skip_digits number)
         else None)"

definition scan_frac :: "string \<Rightarrow> string option" where
  "scan_frac number =
     (if at_char (CHR ''.'') number then
        (if starts_digit (tl number) then Some (skip_digits (tl number)) else None)
      else Some number)"

definition scan_exp :: "string \<Rightarrow> string option" where
  "scan_exp number =
     (if at_char (CHR ''e'') number \<or> at_char (CHR ''E'') number then
        (let number = tl number;
             number = (if at_char (CHR ''+'') number \<or> at_char (CHR ''-'') number then tl number else number)
         in if starts_digit number then Some (skip_digits number) else None)
      else Some number)"

definition json_number_ok :: "string \<Rightarrow> bool" where
  "json_number_ok val \<longleftrightarrow>
     do { number \<leftarrow> scan_int_part val; number \<leftarrow> scan_frac number; scan_exp number } = Some []"

definition json_number_is_integer :: "string \<Rightarrow> bool" where
  "json_number_is_integer s \<longleftrightarrow> CHR ''.'' \<notin> set s \<and> CHR ''e'' \<notin> set s \<and> CHR ''E'' \<notin> set s"

text \<open>
  The value a primitive token is stored as. The calls \<open>dict_add_int\<close>, \<open>dict_add_long\<close>
  and so on of the code store exactly these values.
\<close>

definition json_number_value :: "string \<Rightarrow> dict_value option" where
  "json_number_value val =
     (if json_number_is_integer val then
        (let (ll, ep, erange) = strtoll val
         in if \<not> erange \<and> ep \<noteq> val \<and> ep = [] then
              Some (if INT_MIN \<le> ll \<and> ll \<le> INT_MAX then V_int (word_of_int ll)
                else if LLONG_MIN \<le> ll \<and> ll \<le> LLONG_MAX then V_long (word_of_int ll)
                else V_llong (word_of_int ll))
            else if \<not> at_char (CHR ''-'') val then
              (let (ull, ep, erange) = strtoull val
               in if erange \<or> ep = val \<or> ep \<noteq> [] then None
                  else Some (if ull \<le> UINT_MAX then V_uint (word_of_int ull)
                    else if ull \<le> ULLONG_MAX then V_ulong (word_of_int ull)
                    else V_ullong (word_of_int ull)))
            else None)
      else
        (let (v, ep, erange) = strtod val
         in if erange \<or> ep = val \<or> ep \<noteq> [] \<or> \<not> d_isfinite v then None else Some (V_double v)))"

definition json_primitive_value :: "string \<Rightarrow> dict_value option" where
  "json_primitive_value val =
     (if val = ''null'' then Some V_null
      else if val = ''true'' then Some (V_bool 1)
      else if val = ''false'' then Some (V_bool 0)
      else if json_number_ok val then json_number_value val
      else None)"

subsection \<open>The reader\<close>

abbreviation JSON_MAX_DEPTH :: nat where "JSON_MAX_DEPTH \<equiv> 64"

type_synonym parse_result = "(string ptr \<times> dict ptr \<times> alloc) comp"

definition json_parse_string_value :: "string \<Rightarrow> string \<Rightarrow> dict ptr \<Rightarrow> alloc \<Rightarrow> parse_result" where
  "json_parse_string_value s path d a =
     (case json_parse_str s a of
        (None, a) \<Rightarrow> Some (NULL, d, a)
      | (Some (val, s), a) \<Rightarrow>
          do {
            (r, d, a) \<leftarrow> dict_add d (Some path) (Some val) a;
            Some (if r \<noteq> 0 then NULL else Some s, d, a)
          })"

definition json_parse_primitive_value :: "string \<Rightarrow> string \<Rightarrow> dict ptr \<Rightarrow> alloc \<Rightarrow> parse_result" where
  "json_parse_primitive_value s path d a =
     (case json_parse_primitive s a of
        (None, a) \<Rightarrow> Some (NULL, d, a)
      | (Some (val, s), a) \<Rightarrow>
          (case json_primitive_value val of
             None \<Rightarrow> Some (NULL, d, a)
           | Some v \<Rightarrow>
               do {
                 (r, d, a) \<leftarrow> dict_store d (Some path) v a;
                 Some (if r \<noteq> 0 then NULL else Some s, d, a)
               }))"

text \<open>
  The bodies of the three parsing functions, with the functions they call as parameters
  (\<open>json_obj_loop\<close> and \<open>json_array_loop\<close> are the \<open>while\<close> loops of
  \<open>json_parse_obj\<close> and \<open>json_parse_array\<close>); the recursion is tied below.
\<close>

type_synonym value_parser = "string \<Rightarrow> string \<Rightarrow> dict ptr \<Rightarrow> nat \<Rightarrow> alloc \<Rightarrow> parse_result"
type_synonym obj_parser = "string \<Rightarrow> string \<Rightarrow> dict ptr \<Rightarrow> dict ptr \<Rightarrow> nat \<Rightarrow> alloc \<Rightarrow> parse_result"
type_synonym array_parser = "string \<Rightarrow> string \<Rightarrow> dict ptr \<Rightarrow> u32 \<Rightarrow> nat \<Rightarrow> alloc \<Rightarrow> parse_result"

definition json_parse_obj :: "obj_parser \<Rightarrow> value_parser" where
  "json_parse_obj obj_loop s path d depth a =
     (let s = skip_ws (tl s)
      in if at_char (CHR ''}'') s then Some (Some (tl s), d, a)
         else (case dict_new a of
             (None, a) \<Rightarrow> Some (NULL, d, a)
           | (Some keys, a) \<Rightarrow> obj_loop s path d (Some keys) depth a))"

definition json_parse_array :: "array_parser \<Rightarrow> value_parser" where
  "json_parse_array array_loop s path d depth a =
     (let s = skip_ws (tl s)
      in if at_char (CHR '']'') s then Some (Some (tl s), d, a)
         else array_loop s path d 0 depth a)"

definition json_value_body :: "obj_parser \<Rightarrow> array_parser \<Rightarrow> value_parser" where
  "json_value_body obj_loop array_loop s path d depth a =
     (let s = skip_ws s
      in if s = [] \<or> depth > JSON_MAX_DEPTH then Some (NULL, d, a)
         else do {
           ty \<leftarrow> dict_get_type d (Some path);
           if ty \<noteq> VAL_END then Some (NULL, d, a)
           else if at_char QUOTE s then json_parse_string_value s path d a
           else if at_char (CHR ''{'') s then json_parse_obj obj_loop s path d depth a
           else if at_char (CHR ''['') s then json_parse_array array_loop s path d depth a
           else json_parse_primitive_value s path d a
         })"

text \<open>
  What follows a member or an element: the closing bracket, or a comma and another one. The
  result tells where to go on: at the end (\<open>Inl\<close>), or at the next member.
\<close>

definition json_separator :: "char \<Rightarrow> string \<Rightarrow> (string ptr + string)" where
  "json_separator close s =
     (let s = skip_ws s
      in if at_char close s then Inl (Some (tl s))
         else if \<not> at_char (CHR '','') s then Inl NULL
         else let s = skip_ws (tl s)
         in if at_char close s then Inl NULL else Inr s)"

definition json_obj_body :: "value_parser \<Rightarrow> obj_parser \<Rightarrow> obj_parser" where
  "json_obj_body parse_value obj_loop s path d keys depth a =
     (if s = [] then Some (NULL, d, a)
      else (case json_parse_str s a of
          (None, a) \<Rightarrow> Some (NULL, d, a)
        | (Some (key, s), a) \<Rightarrow>
            do {
              ty \<leftarrow> dict_get_type keys (Some key);
              if ty \<noteq> VAL_END then Some (NULL, d, a)
              else do {
                (r, keys, a) \<leftarrow> dict_add_bool keys (Some key) True a;
                if r \<noteq> 0 \<or> \<not> at_char (CHR '':'') (skip_ws s) then Some (NULL, d, a)
                else (case path_append (Some path) (Some key) a of
                    (None, a) \<Rightarrow> Some (NULL, d, a)
                  | (Some newpath, a) \<Rightarrow>
                      do {
                        (e, d, a) \<leftarrow> parse_value (tl (skip_ws s)) newpath d (depth + 1) a;
                        (case e of
                           None \<Rightarrow> Some (NULL, d, a)
                         | Some s \<Rightarrow>
                             (case json_separator (CHR ''}'') s of
                                Inl r \<Rightarrow> Some (r, d, a)
                              | Inr s \<Rightarrow> obj_loop s path d keys depth a))
                      })
              }
            }))"

definition json_array_body :: "value_parser \<Rightarrow> array_parser \<Rightarrow> array_parser" where
  "json_array_body parse_value array_loop s path d idx depth a =
     (if s = [] then Some (NULL, d, a)
      else (case path_append (Some path) (Some (''['' @ show_nat (unat idx) @ '']'')) a of
          (None, a) \<Rightarrow> Some (NULL, d, a)
        | (Some newpath, a) \<Rightarrow>
            do {
              (e, d, a) \<leftarrow> parse_value s newpath d (depth + 1) a;
              (case e of
                 None \<Rightarrow> Some (NULL, d, a)
               | Some s \<Rightarrow>
                   (case json_separator (CHR '']'') s of
                      Inl r \<Rightarrow> Some (r, d, a)
                    | Inr s \<Rightarrow> array_loop s path d (idx + 1) depth a))
            }))"

fun json_parse_value :: "nat \<Rightarrow> value_parser"
  and json_obj_loop :: "nat \<Rightarrow> obj_parser"
  and json_array_loop :: "nat \<Rightarrow> array_parser"
where
  "json_parse_value 0 s path d depth a = None"
| "json_parse_value (Suc fuel) s path d depth a =
     json_value_body (json_obj_loop fuel) (json_array_loop fuel) s path d depth a"
| "json_obj_loop 0 s path d keys depth a = None"
| "json_obj_loop (Suc fuel) s path d keys depth a =
     json_obj_body (json_parse_value fuel) (json_obj_loop fuel) s path d keys depth a"
| "json_array_loop 0 s path d idx depth a = None"
| "json_array_loop (Suc fuel) s path d idx depth a =
     json_array_body (json_parse_value fuel) (json_array_loop fuel) s path d idx depth a"

definition json2dict :: "string ptr \<Rightarrow> alloc \<Rightarrow> (dict ptr \<times> alloc) comp" where
  "json2dict jp a =
     (case jp of
        None \<Rightarrow> Some (NULL, a)
      | Some json \<Rightarrow>
          if json = [] then Some (NULL, a)
          else (case dict_new a of
              (None, a) \<Rightarrow> Some (NULL, a)
            | (Some d, a) \<Rightarrow>
                do {
                  (res, d, a) \<leftarrow> json_parse_value (2 * length json + 1) json [] (Some d) 0 a;
                  Some (case res of
                      None \<Rightarrow> (NULL, a)
                    | Some s \<Rightarrow> if skip_ws s \<noteq> [] then (NULL, a) else (d, a))
                }))"

definition json_parse_and_flatten :: "string ptr \<Rightarrow> dict ptr \<Rightarrow> alloc \<Rightarrow> (dict ptr \<times> alloc) comp" where
  "json_parse_and_flatten jp dp a =
     (case (jp, dp) of
        (Some json, Some _) \<Rightarrow>
          do {
            (res, d, a) \<leftarrow> json_parse_value (2 * length json + 1) json [] dp 0 a;
            Some (d, a)
          }
      | _ \<Rightarrow> Some (dp, a))"

end
