(* ===== verification/Json_Write.thy ===== *)
theory Json_Write
  imports Json
begin

text \<open>
  The JSON writer of \<open>json.c\<close> (\<open>dict2json\<close>): the tree of \<open>json_node\<close>s built from the
  dotted keys, the growing string buffer \<open>sbuf\<close>, and the printing of the tree into it; and
  the variadic importer \<open>dict_import_va\<close>.

  A node's list of children is the chain of its \<open>next\<close> pointers. The buffer records the
  size of the block it really owns beside the capacity it believes to have: a store outside
  the block is undefined behaviour, so the writing operations are computations that may have
  no defined result. The arithmetic of \<open>size_t\<close> on lengths does not wrap.
\<close>

subsection \<open>The tree\<close>

datatype json_node = json_node (jn_key: string) (jn_value: "string ptr") (jn_child: "json_node list")

definition json_make_node :: "string \<Rightarrow> alloc \<Rightarrow> json_node ptr \<times> alloc" where
  "json_make_node key a =
     (let (ok, a) = malloc_ok a
      in if \<not> ok then (NULL, a)
         else let (ok, a) = malloc_ok a
           in if \<not> ok then (NULL, a) else (Some (json_node key NULL []), a))"

text \<open>
  \<open>find_child\<close> returns a pointer into the child list. Here it returns the list, with a new
  node in front when the key is not there, and the position of the child.
\<close>

definition find_child :: "json_node list \<Rightarrow> string \<Rightarrow> alloc \<Rightarrow> (json_node list \<times> nat) ptr \<times> alloc" where
  "find_child cs key a =
     (let i = length (takeWhile (\<lambda>c. jn_key c \<noteq> key) cs)
      in if i < length cs then (Some (cs, i), a)
         else (case json_make_node key a of
             (None, a) \<Rightarrow> (NULL, a)
           | (Some n, a) \<Rightarrow> (Some (n # cs, 0), a)))"

text \<open>
  The descent of \<open>json_insert\<close> along the tokens of the key. A failure leaves the nodes made
  so far in the tree.
\<close>

fun insert_at :: "json_node \<Rightarrow> string list \<Rightarrow> string \<Rightarrow> alloc \<Rightarrow> int \<times> json_node \<times> alloc" where
  "insert_at (json_node k v cs) [] jsonval a = (0, json_node k (Some jsonval) cs, a)"
| "insert_at (json_node k v cs) (tok # toks) jsonval a =
     (case find_child cs tok a of
        (None, a) \<Rightarrow> (- 1, json_node k v cs, a)
      | (Some (cs, i), a) \<Rightarrow>
          (let (r, c, a) = insert_at (cs ! i) toks jsonval a
           in (r, json_node k v (cs[i := c]), a)))"

text \<open>\<open>strtok_r\<close> with the delimiter \<open>.\<close>: the non-empty runs of other characters.\<close>

function strtok_dots :: "string \<Rightarrow> string list" where
  "strtok_dots s =
     (let t = dropWhile (\<lambda>c. c = CHR ''.'') s
      in if t = [] then []
         else takeWhile (\<lambda>c. c \<noteq> CHR ''.'') t # strtok_dots (dropWhile (\<lambda>c. c \<noteq> CHR ''.'') t))"
  by pat_completeness auto
termination
proof (relation "measure length", simp)
  fix s t :: string
  assume t: "t = dropWhile (\<lambda>c. c = CHR ''.'') s" and "t \<noteq> []"
  then have "hd t \<noteq> CHR ''.''" using hd_dropWhile [of "\<lambda>c. c = CHR ''.''" s] by simp
  with \<open>t \<noteq> []\<close> have "length (dropWhile (\<lambda>c. c \<noteq> CHR ''.'') t) < length t"
    by (cases t) (auto intro: le_imp_less_Suc length_dropWhile_le)
  also have "\<dots> \<le> length s" by (simp add: t length_dropWhile_le)
  finally show "(dropWhile (\<lambda>c. c \<noteq> CHR ''.'') t, s) \<in> measure length" by simp
qed

declare strtok_dots.simps [simp del]

text \<open>The JSON text of a value; a \<open>float\<close> is widened to \<open>double\<close> before printing.\<close>

definition json_value_text :: "dict_value \<Rightarrow> alloc \<Rightarrow> string ptr \<times> alloc" where
  "json_value_text v a =
     (let plain = (\<lambda>t. let (ok, a) = malloc_ok a in (if ok then Some t else NULL, a))
      in case v of
        V_null \<Rightarrow> plain ''null''
      | V_str s \<Rightarrow> json_escape s a
      | V_char c \<Rightarrow> json_escape (Some (if c = 0 then [] else [char_of_byte c])) a
      | V_bool i \<Rightarrow> plain (if i \<noteq> 0 then ''true'' else ''false'')
      | V_int i \<Rightarrow> plain (show_int (sint i))
      | V_uint i \<Rightarrow> plain (show_nat (unat i))
      | V_long l \<Rightarrow> plain (show_int (sint l))
      | V_ulong l \<Rightarrow> plain (show_nat (unat l))
      | V_llong l \<Rightarrow> plain (show_int (sint l))
      | V_ullong l \<Rightarrow> plain (show_nat (unat l))
      | V_float f \<Rightarrow> plain (fmt_g 9 f)
      | V_floatp f \<Rightarrow> plain (fmt_g 9 f)
      | V_double f \<Rightarrow> plain (fmt_g 17 f)
      | V_doublep f \<Rightarrow> plain (fmt_g 17 f)
      | V_ptr p \<Rightarrow> plain ''null''
      | V_end \<Rightarrow> plain ''null'')"

definition json_insert :: "json_node \<Rightarrow> string \<Rightarrow> dict_value \<Rightarrow> alloc \<Rightarrow> int \<times> json_node \<times> alloc" where
  "json_insert rt fullkey v a =
     (let (ok, a) = malloc_ok a
      in if \<not> ok then (- 1, rt, a)
         else (case json_value_text v a of
             (None, a) \<Rightarrow> (- 1, rt, a)
           | (Some jsonval, a) \<Rightarrow> insert_at rt (strtok_dots fullkey) jsonval a))"

subsection \<open>The string buffer\<close>

record sbuf =
  sb_text :: string \<comment> \<open>the first \<open>len\<close> bytes of \<open>buf\<close>\<close>
  sb_cap :: nat
  sb_size :: nat \<comment> \<open>the size of the block \<open>buf\<close> points to\<close>

definition sbuf_init :: "alloc \<Rightarrow> sbuf ptr \<times> alloc" where
  "sbuf_init a =
     (let (ok, a) = malloc_ok a
      in (if ok then Some \<lparr>sb_text = [], sb_cap = 256, sb_size = 256\<rparr> else NULL, a))"

text \<open>\<open>memcpy\<close> and the terminating NUL.\<close>

definition sbuf_write :: "sbuf \<Rightarrow> string \<Rightarrow> sbuf comp" where
  "sbuf_write b s =
     (if length (sb_text b) + length s + 1 \<le> sb_size b
      then Some (b\<lparr>sb_text := sb_text b @ s\<rparr>) else None)"

definition sbuf_realloc :: "sbuf \<Rightarrow> nat \<Rightarrow> alloc \<Rightarrow> bool \<times> sbuf \<times> alloc" where
  "sbuf_realloc b cap a =
     (let (ok, a) = malloc_ok a
      in if ok then (True, b\<lparr>sb_cap := cap, sb_size := cap\<rparr>, a) else (False, b\<lparr>sb_cap := cap\<rparr>, a))"

definition sbuf_putc :: "sbuf \<Rightarrow> char \<Rightarrow> alloc \<Rightarrow> (bool \<times> sbuf \<times> alloc) comp" where
  "sbuf_putc b c a =
     (if length (sb_text b) + 2 > sb_cap b then
        (let (ok, b, a) = sbuf_realloc b (2 * sb_cap b) a
         in if \<not> ok then Some (True, b, a)
            else do { b \<leftarrow> sbuf_write b [c]; Some (False, b, a) })
      else do { b \<leftarrow> sbuf_write b [c]; Some (False, b, a) })"

text \<open>The loop that doubles the capacity; a capacity of \<open>0\<close> never grows.\<close>

partial_function (option) sbuf_grow :: "nat \<Rightarrow> nat \<Rightarrow> nat comp" where
  "sbuf_grow need cap = (if need > cap then sbuf_grow need (2 * cap) else Some cap)"

declare sbuf_grow.simps [code]

definition sbuf_puts :: "sbuf \<Rightarrow> string ptr \<Rightarrow> alloc \<Rightarrow> (bool \<times> sbuf \<times> alloc) comp" where
  "sbuf_puts b sp a =
     (case sp of
        None \<Rightarrow> Some (True, b, a)
      | Some s \<Rightarrow>
          if length (sb_text b) + length s + 1 > sb_cap b then
            do {
              cap \<leftarrow> sbuf_grow (length (sb_text b) + length s + 1) (sb_cap b);
              (let (ok, b, a) = sbuf_realloc b cap a
               in if \<not> ok then Some (True, b, a)
                  else do { b \<leftarrow> sbuf_write b s; Some (False, b, a) })
            }
          else do { b \<leftarrow> sbuf_write b s; Some (False, b, a) })"

subsection \<open>Printing\<close>

text \<open>The callers ignore what \<open>sbuf_putc\<close> and \<open>sbuf_puts\<close> return.\<close>

definition discard :: "(bool \<times> sbuf \<times> alloc) comp \<Rightarrow> (sbuf \<times> alloc) comp" where
  "discard res = map_option snd res"

fun dump_json :: "json_node \<Rightarrow> sbuf \<Rightarrow> alloc \<Rightarrow> (sbuf \<times> alloc) comp"
  and dump_children :: "json_node list \<Rightarrow> sbuf \<Rightarrow> alloc \<Rightarrow> (sbuf \<times> alloc) comp"
where
  "dump_json (json_node k v cs) out a =
     do {
       (out, a) \<leftarrow> discard (sbuf_putc out (CHR ''{'') a);
       (out, a) \<leftarrow> dump_children cs out a;
       discard (sbuf_putc out (CHR ''}'') a)
     }"
| "dump_children [] out a = Some (out, a)"
| "dump_children (c # cs) out a =
     (let (key, a) = json_escape (Some (jn_key c)) a
      in do {
        (out, a) \<leftarrow> (case key of None \<Rightarrow> Some (out, a) | Some _ \<Rightarrow> discard (sbuf_puts out key a));
        (out, a) \<leftarrow> discard (sbuf_putc out (CHR '':'') a);
        (out, a) \<leftarrow>
          (if jn_value c \<noteq> NULL \<and> jn_child c = [] then discard (sbuf_puts out (jn_value c) a)
           else dump_json c out a);
        (out, a) \<leftarrow> (if cs \<noteq> [] then discard (sbuf_putc out (CHR '','') a) else Some (out, a));
        dump_children cs out a
      })"

fun insert_items :: "json_node \<Rightarrow> (string \<times> dict_value) list \<Rightarrow> alloc \<Rightarrow> json_node ptr \<times> alloc" where
  "insert_items rt [] a = (Some rt, a)"
| "insert_items rt ((key, v) # kvs) a =
     (case json_insert rt key v a of
        (r, rt, a) \<Rightarrow> if r \<noteq> 0 then (NULL, a) else insert_items rt kvs a)"

definition dict2json :: "dict ptr \<Rightarrow> alloc \<Rightarrow> (string ptr \<times> alloc) comp" where
  "dict2json dp a =
     (case dp of
        None \<Rightarrow> Some (NULL, a)
      | Some d \<Rightarrow>
          (case insert_items (json_node [] NULL []) (dict_items d 0) a of
             (None, a) \<Rightarrow> Some (NULL, a)
           | (Some rt, a) \<Rightarrow>
               (case sbuf_init a of
                  (None, a) \<Rightarrow> Some (NULL, a)
                | (Some out, a) \<Rightarrow>
                    do { (out, a) \<leftarrow> dump_json rt out a; Some (Some (sb_text out), a) })))"

subsection \<open>Importing argument lists\<close>

text \<open>
  The variable arguments of \<open>dict_import_va\<close> as a list of keys and tagged values (the tag
  \<open>VAL_END\<close> ends the list; the precision of \<open>VAL_FLOATP\<close> and \<open>VAL_DOUBLEP\<close> is read and
  dropped). The results of the single additions are ignored.
\<close>

definition import_one :: "dict ptr \<Rightarrow> string ptr \<Rightarrow> dict_value \<Rightarrow> alloc \<Rightarrow> (int \<times> dict ptr \<times> alloc) comp" where
  "import_one d key v a =
     (case v of
        V_null \<Rightarrow> dict_add_null d key a
      | V_str s \<Rightarrow> dict_add d key s a
      | V_char c \<Rightarrow> dict_add_char d key c a
      | V_int i \<Rightarrow> dict_add_int d key i a
      | V_uint i \<Rightarrow> dict_add_uint d key i a
      | V_long l \<Rightarrow> dict_add_long d key l a
      | V_ulong l \<Rightarrow> dict_add_ulong d key l a
      | V_llong l \<Rightarrow> dict_add_llong d key l a
      | V_ullong l \<Rightarrow> dict_add_ullong d key l a
      | V_float f \<Rightarrow> dict_add_float d key (float_of_double f) a
      | V_double f \<Rightarrow> dict_add_double d key f a
      | V_bool i \<Rightarrow> dict_add_bool d key (i \<noteq> 0) a
      | V_floatp f \<Rightarrow> dict_add_float d key (float_of_double f) a
      | V_doublep f \<Rightarrow> dict_add_double d key f a
      | V_ptr p \<Rightarrow> dict_add_null d key a
      | V_end \<Rightarrow> Some (0, d, a))"

fun dict_import_va :: "dict ptr \<Rightarrow> (string ptr \<times> dict_value) list \<Rightarrow> alloc \<Rightarrow> (dict ptr \<times> alloc) comp" where
  "dict_import_va d [] a = Some (d, a)"
| "dict_import_va d ((key, v) # args) a =
     do { (_, d, a) \<leftarrow> import_one d key v a; dict_import_va d args a }"

definition dict2json_mkstr_real :: "(string ptr \<times> dict_value) list \<Rightarrow> alloc \<Rightarrow> (string ptr \<times> alloc) comp" where
  "dict2json_mkstr_real args a =
     (let (d, a) = dict_new a
      in do { (d, a) \<leftarrow> dict_import_va d args a; dict2json d a })"

end
