(* ===== verification/Dict_Properties.thy ===== *)
theory Dict_Properties
  imports Dict_Contract
begin

text \<open>
  The promises of the dictionary, stated over the operations of \<open>dict.c\<close>, and the limits
  that the code has: when a lookup cannot end, and how the counter \<open>fill\<close> drifts.
\<close>

subsection \<open>Concrete dictionaries\<close>

definition dict_empty :: dict where
  "dict_empty = \<lparr>d_fill = 0, d_used = 0, d_size = DICT_MIN_SZ,
     d_table = replicate (unat DICT_MIN_SZ) empty_slot\<rparr>"

definition sample_dict :: dict where
  "sample_dict = the (fst (snd (the
     (dict_store (Some dict_empty) (Some ''foo'') (V_str (Some ''bar'')) []))))"

lemma dict_new_plenty: "dict_new [] = (Some dict_empty, [])"
  by (simp add: dict_new_def dict_empty_def)

lemma dict_empty_clean: "dict_clean dict_empty" "dict_map dict_empty = Map.empty"
    "unat (d_fill dict_empty) = 0" "d_used dict_empty = 0"
  using dict_new_fresh [OF dict_new_plenty] by (auto simp: dict_empty_def)

lemma sample_dict_clean: "dict_clean sample_dict"
    "dict_map sample_dict = [''foo'' \<mapsto> V_str (Some ''bar'')]" "unat (d_fill sample_dict) \<le> 1"
proof -
  obtain r d a' where "dict_store (Some dict_empty) (Some ''foo'') (V_str (Some ''bar'')) [] =
      Some (r, Some d, a')" "dict_clean d" "unat (d_fill d) \<le> 1"
      "dict_map d = [''foo'' \<mapsto> V_str (Some ''bar'')]"
    using dicts.store_law [OF dict_empty_clean(1), of "''foo''" "V_str (Some ''bar'')" "[]"]
      dict_empty_clean by auto
  then show "dict_clean sample_dict" "dict_map sample_dict = [''foo'' \<mapsto> V_str (Some ''bar'')]"
      "unat (d_fill sample_dict) \<le> 1"
    by (simp_all add: sample_dict_def)
qed

lemma sample_dict_used: "unat (d_used sample_dict) = 1"
  using card_dict_map [OF dict_cleanD(1) [OF sample_dict_clean(1)]] sample_dict_clean(2) by simp

lemmas sample_facts = sample_dict_clean sample_dict_used dict_cleanD [OF sample_dict_clean(1)]

subsection \<open>Lookups that cannot end\<close>

definition table_stuck :: "keypair list \<Rightarrow> u32 \<Rightarrow> string \<Rightarrow> bool" where
  "table_stuck t sz key \<longleftrightarrow>
     size_ok sz \<and> length t = unat sz \<and>
     (\<forall>kp \<in> set t. kp_key kp \<noteq> KNull \<and> kp_key kp \<noteq> KStr key)"

lemma probe_loop_stuck:
  assumes "probe_loop t sz key h i p fs = Some r"
  shows "\<not> table_stuck t sz key"
proof (rule probe_loop.raw_induct [where P = "\<lambda>t sz key h i p fs r. \<not> table_stuck t sz key", OF _ assms])
  fix f t sz key h i p fs r
  assume IH: "\<And>t sz key h i p fs r. f t sz key h i p fs = Some r \<Longrightarrow> \<not> table_stuck t sz key"
    and eq: "(let i = probe_next sz i p; ep = t ! unat i
        in if kp_key ep = KNull then Some (case fs of None \<Rightarrow> unat i | Some f \<Rightarrow> f)
           else if kp_hash ep = h \<and> kp_key ep = KStr key then Some (unat i)
           else f t sz key h i (drop_bit 5 p)
                  (if kp_key ep = KDummy \<and> fs = None then Some (unat i) else fs)) = Some r"
  show "\<not> table_stuck t sz key"
  proof
    assume stuck: "table_stuck t sz key"
    then obtain k where k: "unat sz = 2 ^ k" by (auto simp: table_stuck_def size_ok_def)
    have "unat (probe_next sz i p) < length t"
      using stuck k unat_probe_next [OF k, of i p] by (simp add: table_stuck_def)
    then have "t ! unat (probe_next sz i p) \<in> set t" by simp
    with stuck have "kp_key (t ! unat (probe_next sz i p)) \<noteq> KNull"
        "kp_key (t ! unat (probe_next sz i p)) \<noteq> KStr key"
      by (auto simp: table_stuck_def)
    with eq have "\<exists>i p fs. f t sz key h i p fs = Some r" by (auto simp: Let_def)
    with IH stuck show False by blast
  qed
qed

lemma dict_lookup_stuck:
  assumes "table_stuck (d_table d) (d_size d) key"
  shows "dict_lookup (Some d) (Some key) (dict_hash key) = None"
proof -
  obtain k where k: "unat (d_size d) = 2 ^ k" using assms by (auto simp: table_stuck_def size_ok_def)
  have none: "probe_loop (d_table d) (d_size d) key h i p fs = None" for h i p fs
    using probe_loop_stuck [of "d_table d" "d_size d" key h i p fs] assms by (metis not_None_eq)
  have "d_table d ! unat (probe_first (d_size d) (dict_hash key)) \<in> set (d_table d)"
    using assms unat_probe_first [OF k] k by (simp add: table_stuck_def)
  with assms show ?thesis
    by (auto simp: dict_lookup_def Let_def none table_stuck_def)
qed

lemma no_free_stuck:
  assumes "dict_inv d" and "\<not> has_free (d_table d)" and "dict_map d key = None"
  shows "table_stuck (d_table d) (d_size d) key"
proof -
  have "kp_key kp \<noteq> KNull \<and> kp_key kp \<noteq> KStr key" if kp: "kp \<in> set (d_table d)" for kp
  proof -
    obtain i where "i < length (d_table d)" "kp = d_table d ! i"
      using kp by (metis in_set_conv_nth)
    then show ?thesis
      using assms(2,3) has_key_map [of d key] by (auto simp: has_free_def has_key_def)
  qed
  with dict_invD(1) [OF assms(1)] show ?thesis
    by (simp add: table_stuck_def table_inv_def)
qed

subsection \<open>Reading\<close>

text \<open>C2: on a table that satisfies the invariant and has an empty slot, \<open>dict_get\<close> and
  \<open>dict_get_type\<close> always return, and they return what the abstract map holds: the string
  stored under the key or the default, and the type tag or \<open>VAL_END\<close>.\<close>

theorem dict_read_correct:
  assumes "dict_inv d" and "has_free (d_table d)"
  shows "dict_get (Some d) (Some key) def =
      Some (case dict_map d key of Some (V_str s) \<Rightarrow> s | _ \<Rightarrow> def) \<and>
    dict_get_type (Some d) (Some key) = Some (value_type (dict_map d key))"
  using assms dict_get_map dict_get_type_map by blast

theorem dict_read_correct_witness:
  "dict_inv sample_dict \<and> has_free (d_table sample_dict) \<and>
   dict_get (Some sample_dict) (Some ''foo'') NULL = Some (Some ''bar'') \<and>
   dict_get_type (Some sample_dict) (Some ''nope'') = Some VAL_END"
  using dict_read_correct [of sample_dict "''foo''" NULL] dict_read_correct [of sample_dict "''nope''" NULL]
  by (simp add: sample_facts value_type_def)

subsection \<open>Storing and deleting\<close>

text \<open>C1: \<open>dict_store\<close> refines the map update under every pattern of allocation failures.
  From a valid table with an empty slot it returns; on success the map is updated at the key
  and nowhere else; on failure, which needs a failed allocation, it returns \<open>-1\<close> and the
  dictionary is untouched; the invariant holds afterwards.\<close>

theorem dict_store_refines:
  assumes "dict_inv d" and "has_free (d_table d)" and "unat (d_fill d) < 2 ^ 28"
  shows "\<exists>r d' a'. dict_store (Some d) (Some key) v a = Some (r, Some d', a') \<and> dict_inv d' \<and>
    (r = 0 \<and> dict_map d' = (dict_map d)(key \<mapsto> v) \<or> r = - 1 \<and> a \<noteq> [] \<and> d' = d)"
proof -
  have "dict_room 1 d" using assms(3) by (simp add: dict_room_def)
  from dict_store_correct [OF assms(1) this] assms(2)
  obtain res where "dict_store (Some d) (Some key) v a = Some res" "store_ok d key v a res" by blast
  then show ?thesis by (cases res) (auto simp: store_ok_def)
qed

theorem dict_store_refines_witness:
  "\<exists>r d' a'. dict_store (Some sample_dict) (Some ''k'') (V_int 7) [True, False] =
      Some (r, Some d', a') \<and> dict_inv d' \<and>
    (r = 0 \<and> dict_map d' = (dict_map sample_dict)(''k'' \<mapsto> V_int 7) \<or>
     r = - 1 \<and> [True, False] \<noteq> [] \<and> d' = sample_dict)"
  by (rule dict_store_refines) (use sample_facts in auto)

text \<open>C3: \<open>dict_del\<close> refines the removal of a key: it returns 0 exactly when the key is
  stored and \<open>-1\<close> otherwise, and afterwards the map lacks the key and is unchanged
  elsewhere; the invariant is kept, and so is the number of empty slots being positive.\<close>

theorem dict_del_refines:
  assumes "dict_inv d" and "has_free (d_table d)"
  shows "\<exists>d'. dict_del (Some d) (Some key) = Some (if dict_map d key = None then - 1 else 0, Some d') \<and>
    dict_inv d' \<and> has_free (d_table d') \<and> dict_map d' = (dict_map d)(key := None)"
  using dict_del_map [OF assms(1), of key] assms(2) by metis

theorem dict_del_refines_witness:
  "\<exists>d'. dict_del (Some sample_dict) (Some ''foo'') = Some (0, Some d') \<and> dict_inv d' \<and>
    has_free (d_table d') \<and> dict_map d' = Map.empty"
  using dict_del_refines [of sample_dict "''foo''"] sample_facts by auto

text \<open>C4: a dictionary that is only ever added to never blocks. Any sequence of up to
  \<open>2 ^ 28\<close> insertions into a new dictionary runs to its end, and with memory available the
  result maps every key to the value inserted last.\<close>

theorem dict_insertions_total:
  assumes "length kvs \<le> 2 ^ 28"
  shows "\<exists>d. store_list dict_store (fst (dict_new [])) kvs [] = Some (0, Some d, []) \<and>
    dict_clean d \<and> dict_map d = map_of (rev kvs)"
  using dicts.store_list_law [OF dict_empty_clean(1), of kvs "[]"] assms dict_empty_clean
  by (fastforce simp: dict_new_plenty)

theorem dict_insertions_total_witness:
  "\<exists>d. store_list dict_store (fst (dict_new [])) [(''a'', V_int 1), (''b'', V_null), (''a'', V_int 2)] [] =
      Some (0, Some d, []) \<and> dict_clean d \<and>
    dict_map d = map_of (rev [(''a'', V_int 1), (''b'', V_null), (''a'', V_int 2)])"
  by (rule dict_insertions_total) simp

subsection \<open>Deleted entries can fill the table\<close>

text \<open>On a table without an empty slot a lookup of a key that is not stored never
  returns, and neither does any operation that begins with it.\<close>

theorem dict_full_never_returns:
  assumes "dict_inv d" and "\<not> has_free (d_table d)" and "dict_map d key = None"
  shows "dict_get (Some d) (Some key) def = None \<and> dict_get_type (Some d) (Some key) = None \<and>
    dict_del (Some d) (Some key) = None \<and> dict_store (Some d) (Some key) v a = None"
  using dict_lookup_stuck [OF no_free_stuck [OF assms]]
  by (simp add: dict_get_def dict_get_type_def dict_del_def dict_store_def)

text \<open>Adding and deleting one key after the other.\<close>

fun churn :: "dict ptr \<Rightarrow> string list \<Rightarrow> dict ptr comp" where
  "churn d [] = Some d"
| "churn d (key # keys) =
     do {
       (r, d, a) \<leftarrow> dict_add_null d (Some key) [];
       (r, d) \<leftarrow> dict_del d (Some key);
       churn d keys
     }"

definition churn_keys :: "string list" where
  "churn_keys = [''x'', ''o'', ''c'', ''f'', ''b'', ''e'', ''z'', ''a'']"

definition tombstones :: dict where
  "tombstones = \<lparr>d_fill = 8, d_used = 0, d_size = 8,
     d_table = map (\<lambda>key. \<lparr>kp_key = KDummy, kp_val = V_null, kp_hash = dict_hash key\<rparr>) churn_keys\<rparr>"

lemma churn_tombstones: "churn (Some dict_empty) churn_keys = Some (Some tombstones)"
  by code_simp

lemma tombstones_inv: "dict_inv tombstones" "\<not> has_free (d_table tombstones)"
    "dict_map tombstones = Map.empty"
proof -
  have dummy: "kp_key (d_table tombstones ! i) = KDummy" if "i < length (d_table tombstones)" for i
    using that by (simp add: tombstones_def)
  have len: "length (d_table tombstones) = 8" by (simp add: tombstones_def churn_keys_def)
  show "\<not> has_free (d_table tombstones)" using dummy by (auto simp: has_free_def)
  have "size_ok (d_size tombstones)"
    by (auto simp: tombstones_def size_ok_def intro!: exI [of _ 3])
  then have "table_inv (d_size tombstones) (d_table tombstones)"
    using dummy len by (auto simp: table_inv_def reachable_keys_def unique_keys_def tombstones_def)
  moreover have "live_count (d_table tombstones) = 0" "occupied (d_table tombstones) \<le> 8"
    using occupied_le [of "d_table tombstones"] len
    by (simp_all add: live_count_def tombstones_def churn_keys_def)
  ultimately show "dict_inv tombstones" by (simp add: dict_inv_def) (simp add: tombstones_def)
  have "\<not> has_key (d_table tombstones) key" for key using dummy by (auto simp: has_key_def)
  then show "dict_map tombstones = Map.empty"
    by (simp add: dict_map_def fun_eq_iff map_of_entries_None)
qed

theorem dict_full_never_returns_witness:
  "dict_inv tombstones \<and> \<not> has_free (d_table tombstones) \<and>
   dict_get (Some tombstones) (Some ''missing'') (Some ''default'') = None"
  using dict_full_never_returns [OF tombstones_inv(1,2), of "''missing''" "Some ''default''" V_null "[]"]
    tombstones_inv by simp

text \<open>C37: the blocked state is reachable through the public interface. Eight keys that are
  each added to a new dictionary and deleted again leave a table of tombstones, because
  \<open>dict_resize\<close> rebuilds the table only when it has to grow; the next lookup of an absent
  key runs forever, although the dictionary is empty.\<close>

theorem dict_churn_livelock:
  "\<exists>d. churn (fst (dict_new [])) churn_keys = Some (Some d) \<and> dict_map d = Map.empty \<and>
    (\<forall>key def. dict_get (Some d) (Some key) def = None)"
proof -
  have "dict_get (Some tombstones) (Some key) def = None" for key def
    using dict_lookup_stuck [OF no_free_stuck [OF tombstones_inv(1,2), of key]] tombstones_inv(3)
    by (simp add: dict_get_def)
  then show ?thesis using churn_tombstones tombstones_inv(3) by (auto simp: dict_new_plenty)
qed

subsection \<open>The counters\<close>

text \<open>\<open>used\<close> counts the entries exactly, and \<open>fill\<close> never undercounts the slots
  that are not empty; with the slot count a power of two they bound the table's load.\<close>

theorem dict_counters:
  assumes "dict_inv d"
  shows "unat (d_used d) = card (dom (dict_map d)) \<and> occupied (d_table d) \<le> unat (d_fill d) \<and>
    length (d_table d) = unat (d_size d) \<and> (\<exists>k \<ge> 3. unat (d_size d) = 2 ^ k)"
  using card_dict_map [OF assms] assms by (simp add: dict_inv_def table_inv_def size_ok_def)

theorem dict_counters_witness:
  "dict_inv sample_dict \<and> unat (d_used sample_dict) = card (dom (dict_map sample_dict))"
  using dict_counters [of sample_dict] sample_facts by simp

text \<open>Replacing the value of a stored key occupies no new slot, yet it increments
  \<open>fill\<close>: the counter drifts away from the number of slots in use.\<close>

theorem dict_replace_fill_drift:
  assumes inv: "dict_inv d" and key: "dict_map d key \<noteq> None"
  shows "\<exists>d'. dict_store (Some d) (Some key) v [] = Some (0, Some d', []) \<and>
    occupied (d_table d') = occupied (d_table d) \<and> d_used d' = d_used d \<and>
    d_fill d' = d_fill d + 1"
proof -
  obtain s where s: "dict_lookup (Some d) (Some key) (dict_hash key) = Some (Some s)"
    and slot: "slot_for (d_size d) (d_table d) key s"
    using dict_lookup_returns [OF inv] key by blast
  have live: "live_key (kp_key (d_table d ! s))"
    using dict_map_slot [OF inv slot] key by (auto split: if_splits)
  then have nn: "kp_key (d_table d ! s) \<noteq> KNull" by auto
  have len: "s < length (d_table d)" using slot by (simp add: slot_for_def)
  have "(case v of V_str (Some _) \<Rightarrow> malloc_ok [] | _ \<Rightarrow> (True, [])) = (True, [])"
    by (simp split: dict_value.split option.split)
  then have "dict_store (Some d) (Some key) v [] =
      Some (0, Some (dict_commit d s key (dict_hash key) v), [])"
    using s live by (simp add: dict_store_def Let_def)
  moreover have "occupied (d_table (dict_commit d s key (dict_hash key) v)) = occupied (d_table d)"
    using occupied_put [OF len] nn by (simp add: commit_table)
  ultimately show ?thesis
    using live by (auto simp: dict_commit_def Let_def)
qed

theorem dict_replace_fill_drift_witness:
  "\<exists>d'. dict_store (Some sample_dict) (Some ''foo'') V_null [] = Some (0, Some d', []) \<and>
    occupied (d_table d') = occupied (d_table sample_dict) \<and> d_used d' = d_used sample_dict \<and>
    d_fill d' = d_fill sample_dict + 1"
  by (rule dict_replace_fill_drift) (simp_all add: sample_facts)

subsection \<open>Enumeration and whole-dictionary operations\<close>

text \<open>A loop over \<open>dict_enumerate_typed\<close> from rank 0 visits every entry exactly once:
  the visited keys are distinct and the visited pairs are the map.\<close>

theorem dict_enumeration_exact:
  assumes "dict_inv d"
  shows "distinct (map fst (dict_items d 0)) \<and> map_of (dict_items d 0) = dict_map d \<and>
    length (dict_items d 0) = unat (d_used d)"
  using dict_items_distinct [OF assms] dict_items_map length_dict_items [OF assms] by blast

theorem dict_enumeration_exact_witness:
  "dict_inv sample_dict \<and> map_of (dict_items sample_dict 0) = dict_map sample_dict \<and>
   length (dict_items sample_dict 0) = 1"
  using dict_enumeration_exact [of sample_dict] sample_facts by simp

text \<open>\<open>dict_merge\<close> overwrites: with memory available the destination becomes its old
  map overridden by the source, types included.\<close>

theorem dict_merge_overrides:
  assumes "dict_clean dst" and "dict_inv src"
    and "unat (d_fill dst) + unat (d_used src) \<le> 2 ^ 28"
  shows "\<exists>d'. dict_merge (Some dst) (Some src) [] = Some (0, Some d', []) \<and> dict_clean d' \<and>
    dict_map d' = dict_map dst ++ dict_map src"
  using dict_merge_correct [OF assms, of "[]"] by auto

theorem dict_merge_overrides_witness:
  "\<exists>d'. dict_merge (Some dict_empty) (Some sample_dict) [] = Some (0, Some d', []) \<and>
    dict_clean d' \<and> dict_map d' = dict_map dict_empty ++ dict_map sample_dict"
  by (rule dict_merge_overrides) (simp_all add: sample_facts dict_empty_clean)

text \<open>\<open>dict_clone\<close> and \<open>dict_merge_new\<close> always return. The result is \<open>NULL\<close> only
  after a failed allocation; otherwise the clone has the source's map, and the merged
  dictionary has the second map override the first.\<close>

theorem dict_clone_merge_new:
  assumes "dict_inv x" and "dict_inv y" and "unat (d_used x) + unat (d_used y) \<le> 2 ^ 28"
  shows "(\<exists>p a'. dict_clone (Some x) a = Some (p, a') \<and>
      (case p of None \<Rightarrow> a \<noteq> [] | Some d \<Rightarrow> dict_clean d \<and> dict_map d = dict_map x)) \<and>
    (\<exists>p a'. dict_merge_new (Some x) (Some y) a = Some (p, a') \<and>
      (case p of None \<Rightarrow> a \<noteq> [] | Some d \<Rightarrow> dict_clean d \<and> dict_map d = dict_map x ++ dict_map y))"
proof -
  have "unat (d_used x) \<le> 2 ^ 28" using assms(3) by simp
  then show ?thesis
    using dict_clone_correct [OF assms(1), of a] dict_merge_new_correct [OF assms, of a] by blast
qed

theorem dict_clone_merge_new_witness:
  "\<exists>p a'. dict_clone (Some sample_dict) [True, False] = Some (p, a') \<and>
    (case p of None \<Rightarrow> [True, False] \<noteq> [] | Some d \<Rightarrow> dict_clean d \<and> dict_map d = dict_map sample_dict)"
  using dict_clone_merge_new [of sample_dict sample_dict "[True, False]"] sample_facts by simp

text \<open>\<open>dict_diff\<close> returns exactly the entries of the second dictionary whose type or
  value differs from the first, and a null for every key that only the first one has.\<close>

theorem dict_diff_exact:
  assumes "dict_clean da" and "dict_clean db" and "unat (d_used da) + unat (d_used db) \<le> 2 ^ 28"
  shows "\<exists>p a'. dict_diff (Some da) (Some db) a = Some (p, a') \<and>
    (case p of None \<Rightarrow> a \<noteq> []
     | Some d \<Rightarrow> dict_clean d \<and> dict_map d = diff_spec (dict_map da) (dict_map db))"
  using dict_diff_correct [OF assms, of a] by blast

theorem dict_diff_exact_witness:
  "\<exists>p a'. dict_diff (Some sample_dict) (Some dict_empty) [] = Some (p, a') \<and>
    (case p of None \<Rightarrow> ([] :: alloc) \<noteq> []
     | Some d \<Rightarrow> dict_clean d \<and> dict_map d = diff_spec (dict_map sample_dict) (dict_map dict_empty))"
  by (rule dict_diff_exact) (simp_all add: sample_facts dict_empty_clean)

end
