(* ===== verification/Json_Properties.thy ===== *)
theory Json_Properties
  imports Json_Write Dict_Properties
begin

text \<open>
  What \<open>json.c\<close> promises: the reader returns for every text and every pattern of failing
  allocations, keeps the dictionary valid and never replaces an entry; nesting is bounded;
  exactly the numbers of the JSON grammar are accepted; and a dictionary written by
  \<open>dict2json\<close> is read back by \<open>json2dict\<close>.
\<close>

subsection \<open>Progress of the scanners\<close>

lemma skip_ws_length: "length (skip_ws s) \<le> length s"
  by (simp add: skip_ws_def length_dropWhile_le)

lemma at_char_length: "at_char c s \<Longrightarrow> length (tl s) < length s"
  by (cases s) (simp_all add: at_char_def)

lemma str_end_length: "str_end s = Some e \<Longrightarrow> length e \<le> length s \<and> e \<noteq> []"
  by (induction s arbitrary: e rule: str_end.induct) (force split: if_splits list.splits)+

lemma json_parse_str_length: "json_parse_str s a = (Some (val, r), a') \<Longrightarrow> length r < length s"
  by (cases s) (auto simp: json_parse_str_def dest!: str_end_length split: if_splits option.splits prod.splits)

lemma json_parse_primitive_length:
  assumes "json_parse_primitive s a = (Some (val, r), a')"
  shows "length r < length s"
proof -
  have "r = dropWhile (\<lambda>c. \<not> primitive_end c) s" "takeWhile (\<lambda>c. \<not> primitive_end c) s \<noteq> []"
    using assms by (auto simp: json_parse_primitive_def Let_def split: if_splits prod.splits)
  then show ?thesis
    using takeWhile_dropWhile_id [of "\<lambda>c. \<not> primitive_end c" s] by (metis append_eq_conv_conj
      length_append length_greater_0_conv less_add_same_cancel2)
qed

lemma json_separator_Inl: "json_separator c s = Inl (Some r) \<Longrightarrow> length r < length s"
  using at_char_length [of c "skip_ws s"] skip_ws_length [of s]
  by (auto simp: json_separator_def Let_def split: if_splits)

lemma json_separator_Inr: "json_separator c s = Inr r \<Longrightarrow> length r < length s"
  using at_char_length [of "CHR '',''" "skip_ws s"] skip_ws_length [of s]
    skip_ws_length [of "tl (skip_ws s)"]
  by (auto simp: json_separator_def Let_def split: if_splits)

subsection \<open>The reader keeps the dictionary\<close>

definition json_dict :: "dict \<Rightarrow> bool" where
  "json_dict d \<longleftrightarrow> dict_clean d \<and> V_end \<notin> ran (dict_map d)"

abbreviation fill :: "dict \<Rightarrow> nat" where "fill d \<equiv> unat (d_fill d)"
abbreviation room :: "dict \<Rightarrow> string \<Rightarrow> bool" where "room d s \<equiv> fill d + length s \<le> 2 ^ 28"

text \<open>
  The outcome of a parser that was called at \<open>s\<close> with the dictionary \<open>d\<close>: it returns, has
  only added entries, and on success has consumed at least as many characters as it added
  entries, and at least one.
\<close>

definition parse_ok :: "dict \<Rightarrow> string \<Rightarrow> parse_result \<Rightarrow> bool" where
  "parse_ok d s res \<longleftrightarrow>
     (\<exists>r d' a'. res = Some (r, Some d', a') \<and> json_dict d' \<and> dict_map d \<subseteq>\<^sub>m dict_map d' \<and>
        (\<forall>s'. r = Some s' \<longrightarrow> length s' < length s \<and> fill d' + length s' \<le> fill d + length s))"

lemma parse_ok_fail: "json_dict d \<Longrightarrow> parse_ok d s (Some (NULL, Some d, a))"
  by (simp add: parse_ok_def)

lemma parse_ok_skip: "json_dict d \<Longrightarrow> length s' < length s \<Longrightarrow> parse_ok d s (Some (Some s', Some d, a))"
  by (simp add: parse_ok_def)

lemma parse_ok_mono: "parse_ok d s res \<Longrightarrow> length s \<le> length t \<Longrightarrow> parse_ok d t res"
  by (fastforce simp: parse_ok_def)

lemma parse_okE:
  assumes "parse_ok d s res"
  obtains (fail) d' a' where "res = Some (NULL, Some d', a')" "json_dict d'" "dict_map d \<subseteq>\<^sub>m dict_map d'"
    | (parsed) s' d' a' where "res = Some (Some s', Some d', a')" "json_dict d'" "dict_map d \<subseteq>\<^sub>m dict_map d'"
        "length s' < length s" "fill d' + length s' \<le> fill d + length s"
  using assms by (auto simp: parse_ok_def) (metis option.exhaust)

lemma parse_ok_trans:
  assumes "parse_ok d1 s2 res" and "dict_map d \<subseteq>\<^sub>m dict_map d1"
    and "length s2 \<le> length s1" and "length s1 < length s" and "fill d1 + length s1 \<le> fill d + length s"
  shows "parse_ok d s res"
  using assms(1)
proof (cases rule: parse_okE)
  case (fail d' a')
  then show ?thesis using assms(2) by (auto simp: parse_ok_def intro: map_le_trans)
next
  case (parsed s' d' a')
  then show ?thesis using assms(2-) by (auto simp: parse_ok_def intro: map_le_trans)
qed

lemma json_store:
  assumes "json_dict d" and "fill d < 2 ^ 28" and "dict_map d path = None" and "v \<noteq> V_end"
  shows "\<exists>r d' a'. dict_store (Some d) (Some path) v a = Some (r, Some d', a') \<and> json_dict d' \<and>
    dict_map d \<subseteq>\<^sub>m dict_map d' \<and> fill d' \<le> fill d + 1"
proof -
  have "dict_clean d" using assms(1) by (simp add: json_dict_def)
  from dicts.store_law [OF this assms(2), of path v a] obtain r d' a' where
    st: "dict_store (Some d) (Some path) v a = Some (r, Some d', a')" "dict_clean d'"
      "fill d' \<le> fill d + 1" "dict_map d' = (dict_map d)(path \<mapsto> v) \<or> dict_map d' = dict_map d"
    by blast
  have "json_dict d'"
    using st(2,4) assms(1,3,4) by (auto simp: json_dict_def)
  moreover have "dict_map d \<subseteq>\<^sub>m dict_map d'"
    using st(4) assms(3) by (auto simp: map_le_def)
  ultimately show ?thesis using st by blast
qed

lemma json_value_type:
  assumes "json_dict d"
  shows "dict_get_type (Some d) (Some path) = Some (value_type (dict_map d path))"
    and "value_type (dict_map d path) = VAL_END \<longleftrightarrow> dict_map d path = None"
proof -
  show "dict_get_type (Some d) (Some path) = Some (value_type (dict_map d path))"
    using assms by (intro dicts.type_law) (simp add: json_dict_def)
  have "val_type v = VAL_END \<longleftrightarrow> v = V_end" for v by (cases v) simp_all
  then show "value_type (dict_map d path) = VAL_END \<longleftrightarrow> dict_map d path = None"
    using assms by (auto simp: json_dict_def value_type_def ran_def split: option.splits)
qed

lemma json_primitive_value_typed: "json_primitive_value val = Some v \<Longrightarrow> v \<noteq> V_end"
  by (auto simp: json_primitive_value_def json_number_value_def Let_def split: if_splits prod.splits)

lemma leaf_ok:
  assumes "json_dict d" and "room d s" and "length s' < length s" and "dict_map d path = None"
    and "v \<noteq> V_end"
  shows "parse_ok d s (do {
    (r, d, a) \<leftarrow> dict_store (Some d) (Some path) v a;
    Some (if r \<noteq> 0 then NULL else Some s', d, a) })"
proof -
  have "fill d < 2 ^ 28" using assms(2,3) by linarith
  from json_store [OF assms(1) this assms(4,5), of a] assms(3) show ?thesis
    by (auto simp: parse_ok_def)
qed

lemma json_parse_string_value_ok:
  assumes "json_dict d" and "room d s" and "dict_map d path = None"
  shows "parse_ok d s (json_parse_string_value s path (Some d) a)"
  using leaf_ok [OF assms(1,2) _ assms(3)] json_parse_str_length [of s a]
  by (auto simp: json_parse_string_value_def dict_add_def parse_ok_fail [OF assms(1)]
      split: prod.splits option.splits)

lemma json_parse_primitive_value_ok:
  assumes "json_dict d" and "room d s" and "dict_map d path = None"
  shows "parse_ok d s (json_parse_primitive_value s path (Some d) a)"
  using leaf_ok [OF assms(1,2) _ assms(3)] json_parse_primitive_length [of s a]
  by (auto simp: json_parse_primitive_value_def parse_ok_fail [OF assms(1)]
      dest!: json_primitive_value_typed split: prod.splits option.splits)

text \<open>What the bodies may assume of the functions they call.\<close>

definition value_parser_ok :: "value_parser \<Rightarrow> nat \<Rightarrow> bool" where
  "value_parser_ok p n \<longleftrightarrow> (\<forall>s path d depth a.
     length s \<le> n \<longrightarrow> json_dict d \<longrightarrow> room d s \<longrightarrow> parse_ok d s (p s path (Some d) depth a))"

definition obj_parser_ok :: "obj_parser \<Rightarrow> nat \<Rightarrow> bool" where
  "obj_parser_ok p n \<longleftrightarrow> (\<forall>s path d keys depth a.
     length s \<le> n \<longrightarrow> json_dict d \<longrightarrow> room d s \<longrightarrow> dict_clean keys \<longrightarrow> room keys s \<longrightarrow>
     parse_ok d s (p s path (Some d) (Some keys) depth a))"

definition array_parser_ok :: "array_parser \<Rightarrow> nat \<Rightarrow> bool" where
  "array_parser_ok p n \<longleftrightarrow> (\<forall>s path d idx depth a.
     length s \<le> n \<longrightarrow> json_dict d \<longrightarrow> room d s \<longrightarrow> parse_ok d s (p s path (Some d) idx depth a))"

text \<open>A value, what follows it, and the next round of the loop.\<close>

lemma separated_ok:
  assumes "parse_ok d s res" and "room d s"
    and "\<And>s2 d1 a1. length s2 < length s \<Longrightarrow> json_dict d1 \<Longrightarrow> room d1 s2 \<Longrightarrow> parse_ok d1 s2 (next s2 (Some d1) a1)"
  shows "parse_ok d s (do {
    (e, d, a) \<leftarrow> res;
    (case e of None \<Rightarrow> Some (NULL, d, a)
     | Some s \<Rightarrow> (case json_separator c s of Inl r \<Rightarrow> Some (r, d, a) | Inr s \<Rightarrow> next s d a)) })"
  using assms(1)
proof (cases rule: parse_okE)
  case (fail d' a')
  then show ?thesis by (simp add: parse_ok_def)
next
  case (parsed s1 d1 a1)
  show ?thesis
  proof (cases "json_separator c s1")
    case (Inl r)
    then show ?thesis using parsed json_separator_Inl [of c s1] by (fastforce simp: parse_ok_def)
  next
    case (Inr s2)
    have len: "length s2 < length s1" using json_separator_Inr [OF Inr] .
    with parsed assms(2) have "parse_ok d1 s2 (next s2 (Some d1) a1)" by (intro assms(3)) auto
    then have "parse_ok d s (next s2 (Some d1) a1)"
      by (rule parse_ok_trans [OF _ parsed(3) less_imp_le [OF len] parsed(4,5)])
    then show ?thesis using parsed Inr by simp
  qed
qed

lemma json_array_body_ok:
  assumes "value_parser_ok pv (length s)" and "array_parser_ok loop (length s - 1)"
    and d: "json_dict d" "room d s"
  shows "parse_ok d s (json_array_body pv loop s path (Some d) idx depth a)"
proof (cases "path_append (Some path) (Some (''['' @ show_nat (unat idx) @ '']'')) a")
  case (Pair np a1)
  have "parse_ok d s (pv s newpath (Some d) (depth + 1) a1)" for newpath
    using assms(1) d by (simp add: value_parser_ok_def)
  moreover have "parse_ok d1 s2 (loop s2 path (Some d1) (idx + 1) depth a2)"
    if "length s2 < length s" "json_dict d1" "room d1 s2" for s2 d1 a2
    using that assms(2) by (simp add: array_parser_ok_def)
  ultimately show ?thesis
    using Pair d separated_ok [OF _ d(2)]
    by (auto simp: json_array_body_def parse_ok_fail split: option.split)
qed

lemma json_obj_body_ok:
  assumes "value_parser_ok pv (length s - 1)" and "obj_parser_ok loop (length s - 1)"
    and d: "json_dict d" "room d s" and keys: "dict_clean keys" "room keys s"
  shows "parse_ok d s (json_obj_body pv loop s path (Some d) (Some keys) depth a)"
proof (cases "json_parse_str s a")
  case (Pair m a1)
  show ?thesis
  proof (cases "s = [] \<or> m = NULL")
    case True
    then show ?thesis using Pair d by (auto simp: json_obj_body_def parse_ok_fail)
  next
    case False
    then obtain key s1 where m: "s \<noteq> []" "m = Some (key, s1)" by auto
    with Pair json_parse_str_length have len: "length s1 < length s" by blast
    have "fill keys < 2 ^ 28" using keys(2) len by linarith
    from dicts.store_law [OF keys(1) this, of key "V_bool 1" a1] obtain r keys' a2 where
      st: "dict_store (Some keys) (Some key) (V_bool 1) a1 = Some (r, Some keys', a2)" "dict_clean keys'"
        "fill keys' \<le> fill keys + 1"
      by blast
    let ?t = "tl (skip_ws s1)"
    have t: "length ?t < length s" "length ?t \<le> length s1"
      using len skip_ws_length [of s1] by auto
    have pv: "parse_ok d s (do {
        (e, d, a) \<leftarrow> pv ?t newpath (Some d) (depth + 1) a3;
        (case e of None \<Rightarrow> Some (NULL, d, a)
         | Some s \<Rightarrow> (case json_separator (CHR ''}'') s of Inl r \<Rightarrow> Some (r, d, a)
           | Inr s \<Rightarrow> loop s path d (Some keys') depth a)) })" for newpath a3
    proof (rule parse_ok_mono [OF separated_ok])
      show "parse_ok d ?t (pv ?t newpath (Some d) (depth + 1) a3)"
        using assms(1) d t by (simp add: value_parser_ok_def)
      show "parse_ok d1 s2 (loop s2 path (Some d1) (Some keys') depth a4)"
        if "length s2 < length ?t" "json_dict d1" "room d1 s2" for s2 d1 a4
        using that assms(2) st keys(2) t by (simp add: obj_parser_ok_def)
    qed (use d t in auto)
    show ?thesis
      using Pair m st pv d dicts.type_law [OF keys(1), of key]
      by (auto simp: json_obj_body_def dict_add_bool_def parse_ok_fail Let_def split: option.split prod.split)
  qed
qed

lemma json_value_body_ok:
  assumes "obj_parser_ok obj (length s - 1)" and "array_parser_ok arr (length s - 1)"
    and d: "json_dict d" "room d s"
  shows "parse_ok d s (json_value_body obj arr s path (Some d) depth a)"
proof -
  let ?s = "skip_ws s" and ?t = "skip_ws (tl (skip_ws s))"
  have len: "length ?s \<le> length s" by (rule skip_ws_length)
  have t: "length ?t < length s" "length (tl ?t) < length s" "length ?t \<le> length s" if "?s \<noteq> []"
    using that len skip_ws_length [of "tl ?s"] by (cases ?s; auto)+
  have room: "room d ?s" "?s \<noteq> [] \<Longrightarrow> room d ?t" using d(2) len t by auto
  have obj: "parse_ok d s (json_parse_obj obj ?s path (Some d) depth a)" if ne: "?s \<noteq> []"
  proof (cases "dict_new a")
    case (Pair kp a1)
    have "parse_ok d ?t (obj ?t path (Some d) (Some keys) depth a1)" if "kp = Some keys" for keys
      using that dicts.fresh_law [OF Pair] assms(1) d(1) room(2) [OF ne] t [OF ne]
      by (simp add: obj_parser_ok_def)
    then show ?thesis
      using Pair d t [OF ne] parse_ok_mono [of d ?t _ s]
      by (auto simp: json_parse_obj_def Let_def parse_ok_fail parse_ok_skip split: option.split)
  qed
  have arr: "parse_ok d s (json_parse_array arr ?s path (Some d) depth a)" if ne: "?s \<noteq> []"
    using assms(2) d(1) room(2) [OF ne] t [OF ne] parse_ok_mono [of d ?t _ s]
    by (auto simp: json_parse_array_def Let_def parse_ok_skip array_parser_ok_def)
  have leaf: "parse_ok d s (json_parse_string_value ?s path (Some d) a)"
      "parse_ok d s (json_parse_primitive_value ?s path (Some d) a)" if "dict_map d path = None"
    using json_parse_string_value_ok json_parse_primitive_value_ok d(1) room(1) that
      parse_ok_mono [of d ?s _ s] len by blast+
  show ?thesis
    using obj arr leaf d(1) json_value_type [OF d(1), of path]
    by (simp add: json_value_body_def Let_def parse_ok_fail)
qed

lemma parsers_empty:
  assumes "json_dict d"
  shows "parse_ok d [] (json_value_body obj arr [] path (Some d) depth a)"
    and "parse_ok d [] (json_obj_body pv obj [] path (Some d) keys depth a)"
    and "parse_ok d [] (json_array_body pv arr [] path (Some d) idx depth a)"
  using assms by (simp_all add: json_value_body_def json_obj_body_def json_array_body_def
      skip_ws_def parse_ok_fail)

lemma json_parsers_ok:
  "(2 * n < fuel \<longrightarrow> value_parser_ok (json_parse_value fuel) n) \<and>
   (2 * n + 1 < fuel \<longrightarrow> obj_parser_ok (json_obj_loop fuel) n) \<and>
   (2 * n + 1 < fuel \<longrightarrow> array_parser_ok (json_array_loop fuel) n)"
proof (induction fuel arbitrary: n)
  case 0
  then show ?case by simp
next
  case (Suc fuel)
  note IH = Suc.IH [THEN conjunct1, rule_format] Suc.IH [THEN conjunct2, THEN conjunct1, rule_format]
    Suc.IH [THEN conjunct2, THEN conjunct2, rule_format]
  have "value_parser_ok (json_parse_value (Suc fuel)) n" if n: "2 * n < Suc fuel"
    unfolding value_parser_ok_def
  proof (intro allI impI)
    fix s path d depth a
    assume s: "length (s :: string) \<le> n" "json_dict d" "room d s"
    show "parse_ok d s (json_parse_value (Suc fuel) s path (Some d) depth a)"
    proof (cases "s = []")
      case False
      then have "2 * (length s - 1) + 1 < fuel" using n s(1) by (cases s) auto
      with s IH(2,3) show ?thesis by (simp add: json_value_body_ok)
    qed (simp add: parsers_empty s)
  qed
  moreover have "obj_parser_ok (json_obj_loop (Suc fuel)) n" if n: "2 * n + 1 < Suc fuel"
    unfolding obj_parser_ok_def
  proof (intro allI impI)
    fix s path d keys depth a
    assume s: "length (s :: string) \<le> n" "json_dict d" "room d s" "dict_clean keys" "room keys s"
    show "parse_ok d s (json_obj_loop (Suc fuel) s path (Some d) (Some keys) depth a)"
    proof (cases "s = []")
      case False
      then have "2 * (length s - 1) + 1 < fuel" using n s(1) by (cases s) auto
      with s IH(1,2) show ?thesis by (simp add: json_obj_body_ok)
    qed (simp add: parsers_empty s)
  qed
  moreover have "array_parser_ok (json_array_loop (Suc fuel)) n" if n: "2 * n + 1 < Suc fuel"
    unfolding array_parser_ok_def
  proof (intro allI impI)
    fix s path d idx depth a
    assume s: "length (s :: string) \<le> n" "json_dict d" "room d s"
    show "parse_ok d s (json_array_loop (Suc fuel) s path (Some d) idx depth a)"
    proof (cases "s = []")
      case False
      then have "2 * (length s - 1) + 1 < fuel" "2 * length s < fuel" using n s(1) by (cases s; auto)+
      with s IH(1,3) show ?thesis by (simp add: json_array_body_ok)
    qed (simp add: parsers_empty s)
  qed
  ultimately show ?case by blast
qed

lemma json_parse_value_ok:
  assumes "json_dict d" and "room d s" and "2 * length s < fuel"
  shows "parse_ok d s (json_parse_value fuel s path (Some d) depth a)"
  using json_parsers_ok [of "length s" fuel] assms by (simp add: value_parser_ok_def)

text \<open>C7: \<open>json2dict\<close> returns for every text of up to \<open>2 ^ 28\<close> characters and for every pattern
  of allocation failures: with \<open>NULL\<close>, or with a dictionary that satisfies the table
  invariant and has room for further insertions.\<close>

theorem json2dict_total:
  assumes "length json \<le> 2 ^ 28"
  shows "\<exists>p a'. json2dict (Some json) a = Some (p, a') \<and> (\<forall>d. p = Some d \<longrightarrow> dict_clean d)"
proof (cases "dict_new a")
  case (Pair p a1)
  show ?thesis
  proof (cases "json = [] \<or> p = NULL")
    case True
    then show ?thesis using Pair by (auto simp: json2dict_def)
  next
    case False
    then obtain d where p: "p = Some d" by auto
    then have d: "json_dict d" "room d json" using dicts.fresh_law [OF Pair] assms by (auto simp: json_dict_def)
    from json_parse_value_ok [OF d, of "2 * length json + 1" "[]" 0 a1] show ?thesis
      using Pair p False
      by (cases rule: parse_okE) (auto simp: json2dict_def json_dict_def)
  qed
qed

theorem json2dict_total_witness:
  "\<exists>p a'. json2dict (Some ''[1,2'') [True, True, False] = Some (p, a') \<and> (\<forall>d. p = Some d \<longrightarrow> dict_clean d)"
  by (rule json2dict_total) simp

text \<open>\<open>json_parse_and_flatten\<close> into a dictionary that already has entries only adds: whatever
  the text and whichever allocations fail it returns, the dictionary stays valid, and every
  entry it had before is still there with its value.\<close>

theorem json_flatten_preserves:
  assumes "json_dict d" and "fill d + length json \<le> 2 ^ 28"
  shows "\<exists>d' a'. json_parse_and_flatten (Some json) (Some d) a = Some (Some d', a') \<and> json_dict d' \<and>
    dict_map d \<subseteq>\<^sub>m dict_map d'"
  using json_parse_value_ok [OF assms, of "2 * length json + 1" "[]" 0 a]
  by (cases rule: parse_okE) (auto simp: json_parse_and_flatten_def simp del: json_parse_value.simps)

theorem json_flatten_preserves_witness:
  "\<exists>d' a'. json_parse_and_flatten (Some ''[1,[2]]'') (Some sample_dict) [True, False] = Some (Some d', a') \<and>
     json_dict d' \<and> dict_map sample_dict \<subseteq>\<^sub>m dict_map d'"
proof (rule json_flatten_preserves)
  show "json_dict sample_dict" by (simp add: json_dict_def sample_facts)
  show "fill sample_dict + length ''[1,[2]]'' \<le> 2 ^ 28" using sample_facts(3) by simp
qed

subsection \<open>Nesting\<close>

lemma skip_ws_bracket: "skip_ws (CHR ''['' # s) = CHR ''['' # s"
  by (simp add: skip_ws_def json_ws_def)

lemma array_loop_rejects:
  assumes "json_array_loop fuel s path d idx depth a = Some (r, d', a')"
    and "\<And>fuel path d a r d' a'. json_parse_value fuel s path d (Suc depth) a = Some (r, d', a') \<Longrightarrow> r = NULL"
  shows "r = NULL"
  using assms(1)
  by (cases fuel) (auto simp: json_array_body_def split: if_splits prod.splits option.splits
      elim!: bind_eq_SomeE dest!: assms(2))

lemma deep_value_rejected:
  assumes "json_parse_value fuel (replicate (Suc n) (CHR ''['') @ rest) path d depth a = Some (r, d', a')"
    and "JSON_MAX_DEPTH < n + depth"
  shows "r = NULL"
  using assms
proof (induction n arbitrary: fuel path d depth a r d' a')
  case 0
  then show ?case by (cases fuel) (auto simp: json_value_body_def skip_ws_bracket)
next
  case (Suc n)
  have IH: "r = NULL" if "json_parse_value fuel (replicate (Suc n) (CHR ''['') @ rest) path d (Suc depth) a =
      Some (r, d', a')" for fuel path d a r d' a'
    using Suc.IH [OF that] Suc.prems(2) by simp
  show ?case
  proof (rule ccontr)
    assume r: "r \<noteq> NULL"
    with Suc.prems(1) obtain fuel' where
      "json_array_loop fuel' (replicate (Suc n) (CHR ''['') @ rest) path d 0 depth a = Some (r, d', a')"
      by (cases fuel) (auto simp: json_value_body_def json_parse_array_def skip_ws_bracket at_char_def Let_def
          split: if_splits elim!: bind_eq_SomeE)
    from array_loop_rejects [OF this] IH r show False by blast
  qed
qed

text \<open>Nesting is bounded: a text that opens with more than \<open>JSON_MAX_DEPTH + 1\<close> brackets is
  rejected, whatever follows, so the recursion of the parser on hostile input is bounded too.\<close>

theorem json_depth_bounded:
  assumes "JSON_MAX_DEPTH + 1 < n" and "n + length rest \<le> 2 ^ 28"
  shows "\<exists>a'. json2dict (Some (replicate n (CHR ''['') @ rest)) a = Some (NULL, a')"
proof -
  let ?json = "replicate n (CHR ''['') @ rest"
  obtain m where m: "n = Suc m" "JSON_MAX_DEPTH < m + 0" using assms(1) by (cases n) auto
  show ?thesis
  proof (cases "dict_new a")
    case (Pair p a1)
    show ?thesis
    proof (cases p)
      case None
      then show ?thesis using Pair m by (auto simp: json2dict_def)
    next
      case (Some d)
      then have "json_dict d" "room d ?json"
        using dicts.fresh_law [OF Pair] assms(2) by (auto simp: json_dict_def)
      from json_parse_value_ok [OF this, of "2 * length ?json + 1" "[]" 0 a1] obtain r d' a2 where
        res: "json_parse_value (2 * length ?json + 1) ?json [] (Some d) 0 a1 = Some (r, d', a2)"
        unfolding parse_ok_def by auto
      then have "r = NULL" unfolding m(1) by (rule deep_value_rejected [OF _ m(2)])
      with res Pair Some m show ?thesis
        by (auto simp: json2dict_def simp del: json_parse_value.simps)
    qed
  qed
qed

theorem json_depth_bounded_witness:
  "\<exists>a'. json2dict (Some (replicate 100 (CHR ''['') @ replicate 100 (CHR '']''))) [] = Some (NULL, a')"
  by (rule json_depth_bounded) simp_all

subsection \<open>The number grammar\<close>

text \<open>The grammar of RFC 8259, section 6.\<close>

definition digits1 :: "string \<Rightarrow> bool" where
  "digits1 ds \<longleftrightarrow> ds \<noteq> [] \<and> (\<forall>c \<in> set ds. isdigit c)"

definition json_int :: "string \<Rightarrow> bool" where
  "json_int ip \<longleftrightarrow> ip = ''0'' \<or> digits1 ip \<and> hd ip \<noteq> CHR ''0''"

definition json_frac :: "string \<Rightarrow> bool" where
  "json_frac fp \<longleftrightarrow> fp = [] \<or> (\<exists>ds. fp = CHR ''.'' # ds \<and> digits1 ds)"

definition json_exp :: "string \<Rightarrow> bool" where
  "json_exp ep \<longleftrightarrow> ep = [] \<or>
     (\<exists>e sg ds. ep = e # sg @ ds \<and> e \<in> {CHR ''e'', CHR ''E''} \<and> sg \<in> {[], ''+'', ''-''} \<and> digits1 ds)"

definition json_number :: "string \<Rightarrow> bool" where
  "json_number val \<longleftrightarrow> (\<exists>neg ip fp ep. val = neg @ ip @ fp @ ep \<and> neg \<in> {[], ''-''} \<and>
     json_int ip \<and> json_frac fp \<and> json_exp ep)"

lemma isdigit_chars [simp]:
  "\<not> isdigit (CHR ''.'')" "\<not> isdigit (CHR ''e'')" "\<not> isdigit (CHR ''E'')" "\<not> isdigit (CHR ''-'')"
  "\<not> isdigit (CHR ''+'')" "isdigit (CHR ''0'')"
  by (simp_all add: isdigit_def code_def)

lemma skip_digits_span: "digits1 ds \<Longrightarrow> \<not> starts_digit r \<Longrightarrow> skip_digits (ds @ r) = r"
  by (auto simp: digits1_def skip_digits_def starts_digit_def dropWhile_append dropWhile_eq_self_iff)

lemma skip_digits_split: "starts_digit s \<Longrightarrow> \<exists>ds. s = ds @ skip_digits s \<and> digits1 ds \<and> hd ds = hd s"
  by (rule exI [of _ "takeWhile isdigit s"])
    (cases s; auto simp: skip_digits_def starts_digit_def digits1_def dest: set_takeWhileD)

lemma digits1_hd: "digits1 ds \<Longrightarrow> starts_digit (ds @ r)"
  by (cases ds) (auto simp: digits1_def starts_digit_def)

lemma digits1_all: "digits1 ds \<Longrightarrow> starts_digit ds \<and> skip_digits ds = []"
  using digits1_hd [of ds "[]"] skip_digits_span [of ds "[]"] by (auto simp: starts_digit_def)

lemma at_charD: "at_char c s \<Longrightarrow> s = c # tl s"
  by (cases s) (simp_all add: at_char_def)

lemma starts_digit_not: "starts_digit s \<Longrightarrow> \<not> isdigit c \<Longrightarrow> \<not> at_char c s"
  by (auto simp: starts_digit_def at_char_def)

lemma scan_int_part_sound:
  assumes "scan_int_part val = Some r"
  shows "\<exists>neg ip. val = neg @ ip @ r \<and> neg \<in> {[], ''-''} \<and> json_int ip"
proof -
  let ?neg = "if at_char (CHR ''-'') val then ''-'' else []"
  let ?n = "if at_char (CHR ''-'') val then tl val else val"
  have val: "val = ?neg @ ?n" by (cases val) (auto simp: at_char_def)
  have "\<exists>ip. ?n = ip @ r \<and> json_int ip"
  proof (cases "at_char (CHR ''0'') ?n")
    case True
    with assms have "r = tl ?n" by (simp add: scan_int_part_def Let_def)
    with at_charD [OF True] show ?thesis by (intro exI [of _ "''0''"]) (simp add: json_int_def)
  next
    case False
    with assms have "starts_digit ?n" "r = skip_digits ?n"
      by (auto simp: scan_int_part_def Let_def split: if_splits)
    with skip_digits_split [of ?n] False show ?thesis
      by (auto simp: json_int_def at_char_def starts_digit_def)
  qed
  then obtain ip where "?n = ip @ r" "json_int ip" by blast
  with val show ?thesis by (intro exI [of _ ?neg] exI [of _ ip]) auto
qed

lemma scan_frac_sound:
  assumes "scan_frac n = Some r"
  shows "\<exists>fp. n = fp @ r \<and> json_frac fp"
proof (cases "at_char (CHR ''.'') n")
  case True
  with assms have "starts_digit (tl n)" "r = skip_digits (tl n)"
    by (auto simp: scan_frac_def split: if_splits)
  with skip_digits_split [of "tl n"] at_charD [OF True] show ?thesis
    by (metis append_Cons json_frac_def)
qed (use assms in \<open>auto simp: scan_frac_def json_frac_def\<close>)

lemma scan_exp_sound:
  assumes "scan_exp n = Some r"
  shows "\<exists>ep. n = ep @ r \<and> json_exp ep"
proof (cases "at_char (CHR ''e'') n \<or> at_char (CHR ''E'') n")
  case True
  define m where "m = tl n"
  define sg where "sg = (if at_char (CHR ''+'') m then ''+'' else if at_char (CHR ''-'') m then ''-'' else [])"
  define k where "k = (if at_char (CHR ''+'') m \<or> at_char (CHR ''-'') m then tl m else m)"
  have n: "n = hd n # sg @ k" "hd n \<in> {CHR ''e'', CHR ''E''}" "sg \<in> {[], ''+'', ''-''}"
    using True by (cases n; cases m; auto simp: at_char_def m_def sg_def k_def)+
  have "starts_digit k" "r = skip_digits k"
    using assms True by (auto simp: scan_exp_def Let_def m_def [symmetric] k_def [symmetric] split: if_splits)
  with skip_digits_split [of k] obtain ds where "k = ds @ r" "digits1 ds" by auto
  with n have "n = (hd n # sg @ ds) @ r" "json_exp (hd n # sg @ ds)"
    unfolding json_exp_def by (simp, blast)
  then show ?thesis by blast
qed (use assms in \<open>auto simp: scan_exp_def json_exp_def\<close>)

lemma json_exp_start: "json_exp ep \<Longrightarrow> \<not> starts_digit ep \<and> \<not> at_char (CHR ''.'') ep"
  by (auto simp: json_exp_def starts_digit_def at_char_def)

lemma json_frac_start: "json_frac fp \<Longrightarrow> json_exp ep \<Longrightarrow> \<not> starts_digit (fp @ ep)"
  by (auto simp: json_frac_def starts_digit_def dest: json_exp_start)

lemma scan_int_part_complete:
  assumes "neg \<in> {[], ''-''}" and "json_int ip" and "\<not> starts_digit r"
  shows "scan_int_part (neg @ ip @ r) = Some r"
proof -
  have ip: "starts_digit (ip @ r)"
    using assms(2) digits1_hd by (auto simp: json_int_def starts_digit_def)
  have "scan_int_part (neg @ ip @ r) =
      (if at_char (CHR ''0'') (ip @ r) then Some (tl (ip @ r))
       else if starts_digit (ip @ r) then Some (skip_digits (ip @ r)) else None)"
    using assms(1) starts_digit_not [OF ip, of "CHR ''-''"]
    by (auto simp: scan_int_part_def at_char_def)
  then show ?thesis
    using assms(2,3) ip skip_digits_span
    by (auto simp: json_int_def at_char_def digits1_def)
qed

lemma scan_frac_complete:
  assumes "json_frac fp" and "json_exp ep"
  shows "scan_frac (fp @ ep) = Some ep"
  using assms json_exp_start [OF assms(2)]
  by (auto simp: scan_frac_def json_frac_def at_char_def digits1_hd digits1_all skip_digits_span)

lemma scan_exp_complete: "json_exp ep \<Longrightarrow> scan_exp ep = Some []"
proof -
  assume "json_exp ep"
  moreover have "scan_exp (e # sg @ ds) = Some []"
    if "e \<in> {CHR ''e'', CHR ''E''}" "sg \<in> {[], ''+'', ''-''}" "digits1 ds" for e sg ds
  proof -
    have ds: "starts_digit ds" "skip_digits ds = []" using digits1_all [OF that(3)] by simp_all
    then have "\<not> at_char (CHR ''+'') ds" "\<not> at_char (CHR ''-'') ds" by (simp_all add: starts_digit_not)
    with that(1,2) ds show ?thesis by (auto simp: scan_exp_def at_char_def)
  qed
  ultimately show ?thesis by (auto simp: json_exp_def) (simp add: scan_exp_def at_char_def)
qed

lemma json_number_complete: "json_number val \<Longrightarrow> json_number_ok val"
proof -
  assume "json_number val"
  then obtain neg ip fp ep where "val = neg @ ip @ fp @ ep" "neg \<in> {[], ''-''}" "json_int ip"
      "json_frac fp" "json_exp ep"
    by (auto simp: json_number_def)
  then show "json_number_ok val"
    using scan_int_part_complete scan_frac_complete scan_exp_complete json_frac_start
    by (simp add: json_number_ok_def)
qed

text \<open>The hand-written scanner of \<open>json_parse_value\<close> accepts exactly the numbers of the JSON
  grammar: an optional minus sign, an integer part without leading zeros, an optional
  fraction and an optional exponent.\<close>

theorem json_number_grammar: "json_number_ok val \<longleftrightarrow> json_number val"
proof
  assume "json_number_ok val"
  then obtain n1 n2 where "scan_int_part val = Some n1" "scan_frac n1 = Some n2" "scan_exp n2 = Some []"
    by (auto simp: json_number_ok_def elim!: bind_eq_SomeE)
  with scan_int_part_sound scan_frac_sound scan_exp_sound show "json_number val"
    unfolding json_number_def by (metis append_Nil2)
qed (rule json_number_complete)

end
