(* ===== verification/Dict_Convert.thy ===== *)
theory Dict_Convert
  imports Dict_Properties
begin

text \<open>
  The conversions of the typed getters (\<open>dict.c\<close>, \<open>dict_get_bool\<close> to
  \<open>dict_get_ptr\<close>). For entries of the integer types the getters never change the number:
  they return it when it fits and the default otherwise. For strings they agree with the
  decimal text, except at the corners shown at the end.
\<close>

subsection \<open>Integers\<close>

text \<open>The number an entry of an integer type stands for.\<close>

definition value_int :: "dict_value \<Rightarrow> int option" where
  "value_int v =
     (case v of
        V_int i \<Rightarrow> Some (sint i)
      | V_uint i \<Rightarrow> Some (uint i)
      | V_long l \<Rightarrow> Some (sint l)
      | V_ulong l \<Rightarrow> Some (uint l)
      | V_llong l \<Rightarrow> Some (sint l)
      | V_ullong l \<Rightarrow> Some (uint l)
      | V_bool i \<Rightarrow> Some (of_bool (i \<noteq> 0))
      | _ \<Rightarrow> None)"

lemma uint_range32: "0 \<le> uint (w :: u32) \<and> uint w \<le> UINT_MAX"
  using uint_lt2p [of w] by simp

lemma sint_range32: "INT_MIN \<le> sint (w :: u32) \<and> sint w \<le> INT_MAX"
  using sint_ge [of w] sint_lt [of w] by simp

lemma uint_range64: "0 \<le> uint (w :: u64) \<and> uint w \<le> ULLONG_MAX"
  using uint_lt2p [of w] by simp

lemma sint_range64: "LLONG_MIN \<le> sint (w :: u64) \<and> sint w \<le> LLONG_MAX"
  using sint_ge [of w] sint_lt [of w] by simp

lemmas word_ranges = uint_range32 sint_range32 uint_range64 sint_range64

text \<open>\<open>in_range lo hi def z\<close>: the number when it fits, the default otherwise.\<close>

definition in_range :: "int \<Rightarrow> int \<Rightarrow> 'a::len word \<Rightarrow> int \<Rightarrow> 'a word" where
  "in_range lo hi def z = (if lo \<le> z \<and> z \<le> hi then word_of_int z else def)"

lemma scast_is_ucast: "(scast (w :: u64) :: u32) = ucast w"
  by (rule bit_word_eqI) (simp add: bit_simps)

lemma in_range_simps:
  "in_range lo hi def (sint (w :: u32)) = (if lo \<le> sint w \<and> sint w \<le> hi then w else def)"
  "in_range lo hi def (uint (w :: u32)) = (if lo \<le> uint w \<and> uint w \<le> hi then w else def)"
  "in_range lo hi def (sint (x :: u64)) = (if lo \<le> sint x \<and> sint x \<le> hi then ucast x else def)"
  "in_range lo hi def (uint (x :: u64)) = (if lo \<le> uint x \<and> uint x \<le> hi then ucast x else def)"
  "in_range lo hi def' (sint (w :: u32)) = (if lo \<le> sint w \<and> sint w \<le> hi then scast w else def')"
  "in_range lo hi def' (uint (w :: u32)) = (if lo \<le> uint w \<and> uint w \<le> hi then ucast w else def')"
  "in_range lo hi def' (sint (x :: u64)) = (if lo \<le> sint x \<and> sint x \<le> hi then x else def')"
  "in_range lo hi def' (uint (x :: u64)) = (if lo \<le> uint x \<and> uint x \<le> hi then x else def')"
  "in_range lo hi def (of_bool b) = (if lo \<le> of_bool b \<and> of_bool b \<le> hi then of_bool b else def)"
  "in_range lo hi def' (of_bool b) = (if lo \<le> of_bool b \<and> of_bool b \<le> hi then of_bool b else def')"
  for def :: u32 and def' :: u64
  by (simp_all add: in_range_def scast_is_ucast)

lemma uint_above: "INT_MIN \<le> uint w" "LLONG_MIN \<le> uint w" "0 \<le> uint w"
  using uint_ge_0 [of w] by linarith+

lemma word_bounds:
  "INT_MIN \<le> sint (w :: u32)" "sint w \<le> INT_MAX" "uint w \<le> UINT_MAX"
  "LLONG_MIN \<le> sint w" "sint w \<le> LLONG_MAX" "sint w \<le> UINT_MAX" "sint w \<le> ULLONG_MAX"
  "uint w \<le> LLONG_MAX" "uint w \<le> ULLONG_MAX"
  "LLONG_MIN \<le> sint (x :: u64)" "sint x \<le> LLONG_MAX" "sint x \<le> ULLONG_MAX" "uint x \<le> ULLONG_MAX"
  using sint_range32 [of w] uint_range32 [of w] sint_range64 [of x] uint_range64 [of x]
  by linarith+

lemma value_int_cases:
  assumes "value_int v = Some z"
  obtains (int) i where "v = V_int i" "z = sint i"
    | (uint) i where "v = V_uint i" "z = uint i"
    | (long) l where "v = V_long l" "z = sint l"
    | (ulong) l where "v = V_ulong l" "z = uint l"
    | (llong) l where "v = V_llong l" "z = sint l"
    | (ullong) l where "v = V_ullong l" "z = uint l"
    | (bool) i where "v = V_bool i" "z = of_bool (i \<noteq> 0)"
  using assms by (cases v) (auto simp: value_int_def)

lemmas conversion_simps = in_range_simps uint_above word_bounds

lemma int_of_value_exact:
  "value_int v = Some z \<Longrightarrow> int_of_value def v = in_range INT_MIN INT_MAX def z"
  by (erule value_int_cases) (simp_all add: int_of_value_def conversion_simps)

lemma uint_of_value_exact:
  "value_int v = Some z \<Longrightarrow> uint_of_value def v = in_range 0 UINT_MAX def z"
  by (erule value_int_cases) (simp_all add: uint_of_value_def conversion_simps)

lemma long_of_value_exact:
  "value_int v = Some z \<Longrightarrow> long_of_value def v = in_range LLONG_MIN LLONG_MAX def z"
  by (erule value_int_cases) (simp_all add: long_of_value_def conversion_simps)

lemma ulong_of_value_exact:
  "value_int v = Some z \<Longrightarrow> ulong_of_value def v = in_range 0 ULLONG_MAX def z"
  by (erule value_int_cases) (simp_all add: ulong_of_value_def conversion_simps)

lemma llong_of_value_exact:
  "value_int v = Some z \<Longrightarrow> llong_of_value def v = in_range LLONG_MIN LLONG_MAX def z"
  by (erule value_int_cases) (simp_all add: llong_of_value_def conversion_simps)

lemma ullong_of_value_exact:
  "value_int v = Some z \<Longrightarrow> ullong_of_value def v = in_range 0 ULLONG_MAX def z"
  by (erule value_int_cases) (simp_all add: ullong_of_value_def conversion_simps)

lemmas of_value_exact = int_of_value_exact uint_of_value_exact long_of_value_exact
  ulong_of_value_exact llong_of_value_exact ullong_of_value_exact

lemma get_value_map:
  assumes "dict_inv d" and "dict_map d key = Some v"
  shows "get_value (Some d) (Some key) def conv = Some (conv def v)"
proof -
  obtain kp where "dict_get_kp (Some d) (Some key) = Some kp" "map_option kp_val kp = Some v"
    using dict_get_kp_map [OF assms(1), of key] assms(2) by auto
  then show ?thesis by (auto simp: get_value_def)
qed

lemmas getter_defs = dict_get_int_def dict_get_uint_def dict_get_long_def dict_get_ulong_def
  dict_get_llong_def dict_get_ullong_def dict_get_bool_def dict_get_double_def

text \<open>On an entry of an integer or boolean type every integer getter returns the stored
  number when the result type can represent it and the caller's default otherwise: no getter
  truncates or changes the sign.\<close>

theorem dict_getters_exact:
  assumes "dict_inv d" and "dict_map d key = Some v" and "value_int v = Some z"
  shows "dict_get_int (Some d) (Some key) d1 = Some (in_range INT_MIN INT_MAX d1 z) \<and>
    dict_get_uint (Some d) (Some key) d2 = Some (in_range 0 UINT_MAX d2 z) \<and>
    dict_get_long (Some d) (Some key) d3 = Some (in_range LLONG_MIN LLONG_MAX d3 z) \<and>
    dict_get_ulong (Some d) (Some key) d4 = Some (in_range 0 ULLONG_MAX d4 z) \<and>
    dict_get_llong (Some d) (Some key) d5 = Some (in_range LLONG_MIN LLONG_MAX d5 z) \<and>
    dict_get_ullong (Some d) (Some key) d6 = Some (in_range 0 ULLONG_MAX d6 z)"
  using assms(3) by (simp add: getter_defs get_value_map [OF assms(1,2)] of_value_exact)

text \<open>A dictionary with one entry, for the examples.\<close>

definition single_dict :: "dict_value \<Rightarrow> dict" where
  "single_dict v =
     the (fst (snd (the (dict_store (Some dict_empty) (Some ''k'') v []))))"

lemma single_dict_facts: "dict_clean (single_dict v)" "dict_map (single_dict v) = [''k'' \<mapsto> v]"
proof -
  obtain r d a' where "dict_store (Some dict_empty) (Some ''k'') v [] = Some (r, Some d, a')"
      "dict_clean d" "dict_map d = [''k'' \<mapsto> v]"
    using dicts.store_law [OF dict_empty_clean(1), of "''k''" v "[]"] dict_empty_clean by auto
  then show "dict_clean (single_dict v)" "dict_map (single_dict v) = [''k'' \<mapsto> v]"
    by (simp_all add: single_dict_def)
qed

lemmas single_facts = single_dict_facts dict_cleanD [OF single_dict_facts(1)]

theorem dict_getters_exact_witness:
  "dict_get_int (Some (single_dict (V_ullong 4294967296))) (Some ''k'') 9 = Some 9 \<and>
   dict_get_long (Some (single_dict (V_ullong 4294967296))) (Some ''k'') 9 = Some 4294967296"
  using dict_getters_exact [of "single_dict (V_ullong 4294967296)" "''k''" "V_ullong 4294967296"
      4294967296 9 0 9 0 0 0]
  by (simp add: single_facts value_int_def in_range_def)

subsection \<open>Strings\<close>

lemma scan_sign_show_int:
  "scan_sign (dropWhile isspace (show_int z)) = (z < 0, show_nat (nat \<bar>z\<bar>))"
proof (cases "z < 0")
  case True
  then show ?thesis by (simp add: show_int_def scan_sign_def isspace_def)
next
  case False
  then show ?thesis
    using scan_sign_show_nat [of "nat z" "[]"] dropWhile_isspace_show_nat [of "nat z" "[]"]
    by (simp add: show_int_def del: dropWhile_eq_Nil_conv)
qed

lemma show_int_not_Nil [simp]: "show_int z \<noteq> []"
  by (simp add: show_int_def)

lemma show_nat_span0: "takeWhile isdigit (show_nat n) = show_nat n" "dropWhile isdigit (show_nat n) = []"
  using show_nat_span [of "[]" n] by (simp_all del: dropWhile_eq_Nil_conv)

lemma parse_ll_show_int:
  "parse_ll (Some (show_int z)) = (if LLONG_MIN \<le> z \<and> z \<le> LLONG_MAX then Some z else None)"
  by (simp add: parse_ll_def strtoll_def scan_sign_show_int show_nat_span0 Let_def eq_sym_conv [of "[]"])

lemma parse_ull_show_int:
  "parse_ull (Some (show_int z)) = (if \<bar>z\<bar> \<le> ULLONG_MAX then Some (z mod 2 ^ 64) else None)"
  by (auto simp: parse_ull_def strtoull_def scan_sign_show_int show_nat_span0 Let_def eq_sym_conv [of "[]"])

lemma mod_negative: "- (2 ^ 64) < z \<Longrightarrow> z < 0 \<Longrightarrow> z mod 2 ^ 64 = (z :: int) + 2 ^ 64"
  using mod_pos_pos_trivial [of "z + 2 ^ 64" "2 ^ 64"] by simp

text \<open>Decimal text reads back as the number it denotes: for a string entry holding the
  decimal text of a number of the range of \<open>long long\<close>, the getters for \<open>int\<close>,
  \<open>unsigned\<close>, \<open>long\<close> and \<open>long long\<close> return the number when it fits and the
  default otherwise.\<close>

theorem dict_getters_text:
  assumes "dict_inv d" and "dict_map d key = Some (V_str (Some (show_int z)))"
    and "LLONG_MIN \<le> z" and "z \<le> LLONG_MAX"
  shows "dict_get_int (Some d) (Some key) d1 = Some (in_range INT_MIN INT_MAX d1 z) \<and>
    dict_get_uint (Some d) (Some key) d2 = Some (in_range 0 UINT_MAX d2 z) \<and>
    dict_get_long (Some d) (Some key) d3 = Some (in_range LLONG_MIN LLONG_MAX d3 z) \<and>
    dict_get_llong (Some d) (Some key) d4 = Some (in_range LLONG_MIN LLONG_MAX d4 z)"
proof -
  have "z < 0 \<Longrightarrow> \<bar>z\<bar> \<le> ULLONG_MAX \<and> z mod 2 ^ 64 = z + 2 ^ 64"
    and "0 \<le> z \<Longrightarrow> \<bar>z\<bar> \<le> ULLONG_MAX \<and> z mod 2 ^ 64 = z"
    using assms(3,4) mod_negative [of z] by auto
  then show ?thesis
    using assms(3,4) by (cases "z < 0") (simp_all add: getter_defs get_value_map [OF assms(1,2)]
      int_of_value_def uint_of_value_def long_of_value_def llong_of_value_def
      parse_ll_show_int parse_ull_show_int in_range_def)
qed

theorem dict_getters_text_witness:
  "dict_get_int (Some (single_dict (V_str (Some (show_int (- 42)))))) (Some ''k'') 0 = Some (- 42) \<and>
   dict_get_uint (Some (single_dict (V_str (Some (show_int (- 42)))))) (Some ''k'') 7 = Some 7"
  using dict_getters_text [of "single_dict (V_str (Some (show_int (- 42))))" "''k''" "- 42" 0 7 0 0]
  by (simp add: single_facts in_range_def)

text \<open>The unsigned getters and the fallback of the signed ones accept a minus sign and
  wrap: the text of \<open>-n\<close> is never rejected by \<open>dict_get_ulong\<close> and
  \<open>dict_get_ullong\<close> (they return \<open>2 ^ 64 - n\<close>), and a number below the range of
  \<open>long long\<close> is returned by \<open>dict_get_llong\<close> as the positive number
  \<open>2 ^ 64 - n\<close> instead of the default.\<close>

theorem dict_getters_negative_wrap:
  assumes "dict_inv d" and "dict_map d key = Some (V_str (Some (show_int (- n))))"
    and "0 < n" and "n < 2 ^ 64"
  shows "dict_get_ulong (Some d) (Some key) d1 = Some (word_of_int (2 ^ 64 - n)) \<and>
    dict_get_ullong (Some d) (Some key) d2 = Some (word_of_int (2 ^ 64 - n)) \<and>
    (2 ^ 63 < n \<longrightarrow> dict_get_llong (Some d) (Some key) d3 = Some (word_of_int (2 ^ 64 - n)) \<and>
       dict_get_long (Some d) (Some key) d4 = Some d4)"
proof -
  have "(- n) mod 2 ^ 64 = 2 ^ 64 - n" using assms(3,4) mod_negative [of "- n"] by simp
  then show ?thesis
    using assms(3,4) by (simp add: getter_defs get_value_map [OF assms(1,2)]
      ulong_of_value_def ullong_of_value_def long_of_value_def llong_of_value_def
      parse_ll_show_int parse_ull_show_int)
qed

theorem dict_getters_negative_wrap_witness:
  "dict_get_llong (Some (single_dict (V_str (Some (show_int (- 18446744073709551615)))))) (Some ''k'') 0
     = Some 1"
  using dict_getters_negative_wrap [of "single_dict (V_str (Some (show_int (- 18446744073709551615))))"
      "''k''" 18446744073709551615 0 0 0 0]
  by (simp add: single_facts)

text \<open>A string of white space only is not a number, yet the parsers accept it as \<open>0\<close>:
  the test that a conversion took place compares the end pointer after the trailing white
  space was skipped.\<close>

theorem parse_accepts_blank:
  assumes "s \<noteq> []" and "\<forall>c \<in> set s. isspace c"
  shows "parse_ll (Some s) = Some 0 \<and> parse_ull (Some s) = Some 0"
proof -
  have "dropWhile isspace s = []" using assms(2) by simp
  then show ?thesis
    using assms(1) by (simp add: parse_ll_def parse_ull_def strtoll_def strtoull_def scan_sign_def
      del: dropWhile_eq_Nil_conv)
qed

theorem parse_accepts_blank_witness: "parse_ll (Some ''  '') = Some 0 \<and> parse_ll (Some []) = None"
  using parse_accepts_blank [of "''  ''"] by (simp add: isspace_def parse_ll_def strtoll_def scan_sign_def)

end
