(* ===== verification/Json_Roundtrip.thy ===== *)
theory Json_Roundtrip
  imports Json_Properties Dict_Convert
begin

text \<open>
  The writer of \<open>json.c\<close> and its inverse. When memory suffices the buffer holds exactly the
  text of the tree; reading that text back gives the dictionary again, with every value in
  the type the reader chooses for it. When memory does not suffice the buffer believes to be
  larger than it is.
\<close>

subsection \<open>The buffer\<close>

definition sbuf_ok :: "sbuf \<Rightarrow> bool" where
  "sbuf_ok b \<longleftrightarrow> length (sb_text b) < sb_cap b \<and> sb_size b = sb_cap b"

lemma sbuf_grow_returns: "0 < cap \<Longrightarrow> \<exists>c. sbuf_grow need cap = Some c \<and> need \<le> c \<and> cap \<le> c"
proof (induction "need - cap" arbitrary: cap rule: less_induct)
  case less
  show ?case
  proof (cases "need > cap")
    case True
    then obtain c where "sbuf_grow need (2 * cap) = Some c" "need \<le> c" "2 * cap \<le> c"
      using less.hyps [of "2 * cap"] less.prems True by fastforce
    then show ?thesis using True by (subst sbuf_grow.simps) auto
  qed (subst sbuf_grow.simps, auto)
qed

text \<open>An operation that appends a text when memory suffices.\<close>

definition appends :: "(sbuf \<times> alloc) comp \<Rightarrow> sbuf \<Rightarrow> string \<Rightarrow> bool" where
  "appends res b t \<longleftrightarrow> (\<exists>b'. res = Some (b', []) \<and> sbuf_ok b' \<and> sb_text b' = sb_text b @ t)"

lemma appends_nothing: "sbuf_ok b \<Longrightarrow> appends (Some (b, [])) b []"
  by (simp add: appends_def)

lemma appends_bind:
  assumes "appends res b t1" and "\<And>b'. sbuf_ok b' \<Longrightarrow> appends (f b' []) b' t2"
  shows "appends (do { (out, a) \<leftarrow> res; f out a }) b (t1 @ t2)"
  using assms by (fastforce simp: appends_def)

lemma putc_appends: "sbuf_ok b \<Longrightarrow> appends (discard (sbuf_putc b c [])) b [c]"
  by (auto simp: appends_def discard_def sbuf_ok_def sbuf_putc_def sbuf_realloc_def sbuf_write_def)

lemma puts_appends:
  assumes "sbuf_ok b"
  shows "appends (discard (sbuf_puts b (Some s) [])) b s"
proof -
  let ?need = "length (sb_text b) + length s + 1"
  have cap: "0 < sb_cap b" "sb_size b = sb_cap b" using assms by (auto simp: sbuf_ok_def)
  obtain c where c: "sbuf_grow ?need (sb_cap b) = Some c" "?need \<le> c"
    using sbuf_grow_returns [OF cap(1), of ?need] by blast
  show ?thesis
  proof (cases "?need > sb_cap b")
    case True
    then have "discard (sbuf_puts b (Some s) []) =
        Some (b\<lparr>sb_cap := c, sb_size := c, sb_text := sb_text b @ s\<rparr>, [])"
      using c by (simp add: discard_def sbuf_puts_def sbuf_realloc_def sbuf_write_def)
    then show ?thesis using c(2) by (simp add: appends_def sbuf_ok_def)
  next
    case False
    then have "discard (sbuf_puts b (Some s) []) = Some (b\<lparr>sb_text := sb_text b @ s\<rparr>, [])"
      using cap by (simp add: discard_def sbuf_puts_def sbuf_write_def)
    then show ?thesis using False cap by (simp add: appends_def sbuf_ok_def)
  qed
qed

subsection \<open>The text of a tree\<close>

fun node_text :: "json_node \<Rightarrow> string"
  and children_text :: "json_node list \<Rightarrow> string"
where
  "node_text (json_node k v cs) = ''{'' @ children_text cs @ ''}''"
| "children_text [] = []"
| "children_text (c # cs) =
     json_literal (jn_key c) @ '':'' @
     (if jn_value c \<noteq> NULL \<and> jn_child c = [] then the (jn_value c) else node_text c) @
     (if cs \<noteq> [] then '','' else []) @ children_text cs"

lemma dump_appends:
  "sbuf_ok b \<Longrightarrow> appends (dump_json n b []) b (node_text n)"
  "sbuf_ok b \<Longrightarrow> appends (dump_children cs b []) b (children_text cs)"
proof (induction n and cs arbitrary: b and b rule: node_text_children_text.induct)
  case (1 k v cs)
  then show ?case
    unfolding node_text.simps dump_json.simps by (intro appends_bind putc_appends)
next
  case 2
  then show ?case by (simp add: appends_nothing)
next
  case (3 c cs)
  have leaf: "appends (if jn_value c \<noteq> NULL \<and> jn_child c = [] then discard (sbuf_puts b1 (jn_value c) [])
      else dump_json c b1 []) b1
      (if jn_value c \<noteq> NULL \<and> jn_child c = [] then the (jn_value c) else node_text c)" if "sbuf_ok b1" for b1
    using puts_appends [OF that, of "the (jn_value c)"] "3.IH"(1) [OF _ that] by auto
  have comma: "appends (if cs \<noteq> [] then discard (sbuf_putc b1 (CHR '','') []) else Some (b1, [])) b1
      (if cs \<noteq> [] then '','' else [])" if "sbuf_ok b1" for b1
    using putc_appends [OF that] appends_nothing [OF that] by simp
  show ?case
    unfolding children_text.simps dump_children.simps json_escape_literal Let_def prod.case option.case
    by (intro appends_bind puts_appends putc_appends leaf comma "3.IH"(2) "3.prems")
qed

subsection \<open>Dictionaries with undotted keys\<close>

definition flat_key :: "string \<Rightarrow> bool" where
  "flat_key k \<longleftrightarrow> k \<noteq> [] \<and> CHR ''.'' \<notin> set k \<and> cstr k"

lemma strtok_flat: "flat_key k \<Longrightarrow> strtok_dots k = [k]"
proof -
  assume k: "flat_key k"
  then have "dropWhile (\<lambda>c. c = CHR ''.'') k = k"
    by (cases k) (auto simp: flat_key_def)
  moreover have "takeWhile (\<lambda>c. c \<noteq> CHR ''.'') k = k" "dropWhile (\<lambda>c. c \<noteq> CHR ''.'') k = []"
    using k by (auto simp: flat_key_def takeWhile_eq_all_conv)
  ultimately show ?thesis
    using k by (simp add: strtok_dots.simps [of k] strtok_dots.simps [of "[]"] flat_key_def
        del: dropWhile_eq_Nil_conv)
qed

definition value_text :: "dict_value \<Rightarrow> string" where
  "value_text v = the (fst (json_value_text v []))"

lemma json_value_text_plenty: "json_value_text v [] = (Some (value_text v), [])"
  by (cases v) (simp_all add: value_text_def json_value_text_def json_escape_def split: option.split)

abbreviation leaf :: "string \<times> dict_value \<Rightarrow> json_node" where
  "leaf kv \<equiv> json_node (fst kv) (Some (value_text (snd kv))) []"

lemma find_child_new:
  assumes "k \<notin> jn_key ` set cs"
  shows "find_child cs k [] = (Some (json_node k NULL [] # cs, 0), [])"
proof -
  have "takeWhile (\<lambda>c. jn_key c \<noteq> k) cs = cs" using assms by (auto simp: takeWhile_eq_all_conv)
  then show ?thesis by (simp add: find_child_def json_make_node_def del: takeWhile_eq_all_conv)
qed

lemma insert_items_flat:
  "\<forall>(k, v) \<in> set kvs. flat_key k \<Longrightarrow> distinct (map fst kvs) \<Longrightarrow> fst ` set kvs \<inter> jn_key ` set cs = {} \<Longrightarrow>
     insert_items (json_node [] NULL cs) kvs [] = (Some (json_node [] NULL (rev (map leaf kvs) @ cs)), [])"
proof (induction kvs arbitrary: cs)
  case (Cons kv kvs)
  obtain k v where kv: "kv = (k, v)" by (cases kv)
  have "json_insert (json_node [] NULL cs) k v [] = (0, json_node [] NULL (leaf kv # cs), [])"
    using Cons.prems kv find_child_new [of k cs]
    by (simp add: json_insert_def json_value_text_plenty strtok_flat)
  moreover have "insert_items (json_node [] NULL (leaf kv # cs)) kvs [] =
      (Some (json_node [] NULL (rev (map leaf kvs) @ leaf kv # cs)), [])"
    using Cons.prems kv by (intro Cons.IH) auto
  ultimately show ?case by (simp add: kv)
qed simp

text \<open>The members of the object that is written.\<close>

fun members_text :: "(string \<times> dict_value) list \<Rightarrow> string" where
  "members_text [] = []"
| "members_text (kv # kvs) =
     json_literal (fst kv) @ '':'' @ value_text (snd kv) @ (if kvs \<noteq> [] then '','' else []) @ members_text kvs"

lemma children_text_leaves: "children_text (map leaf kvs) = members_text kvs"
  by (induction kvs) simp_all

lemma dict2json_flat:
  assumes "dict_inv d" and "\<And>k v. dict_map d k = Some v \<Longrightarrow> flat_key k"
  shows "dict2json (Some d) [] = Some (Some (''{'' @ members_text (rev (dict_items d 0)) @ ''}''), [])"
proof -
  let ?kvs = "dict_items d 0"
  have dist: "distinct (map fst ?kvs)" by (rule dict_items_distinct [OF assms(1)])
  then have "\<forall>(k, v) \<in> set ?kvs. flat_key k"
    using assms(2) dict_items_map [of d] by (auto dest: map_of_is_SomeI)
  with dist have "insert_items (json_node [] NULL []) ?kvs [] = (Some (json_node [] NULL (map leaf (rev ?kvs))), [])"
    by (subst insert_items_flat) (auto simp: rev_map)
  moreover have "sbuf_ok \<lparr>sb_text = [], sb_cap = 256, sb_size = 256\<rparr>" by (simp add: sbuf_ok_def)
  ultimately show ?thesis
    using dump_appends(1) [of "\<lparr>sb_text = [], sb_cap = 256, sb_size = 256\<rparr>" "json_node [] NULL (map leaf (rev ?kvs))"]
    by (auto simp: dict2json_def sbuf_init_def appends_def children_text_leaves simp del: dump_json.simps)
qed

subsection \<open>Reading the values back\<close>

text \<open>The value that is read back; a number comes back in the smallest type that holds it.\<close>

definition int_back :: "int \<Rightarrow> dict_value" where
  "int_back z =
     (if INT_MIN \<le> z \<and> z \<le> INT_MAX then V_int (word_of_int z)
      else if z \<le> LLONG_MAX then V_long (word_of_int z)
      else V_ulong (word_of_int z))"

definition json_back :: "dict_value \<Rightarrow> dict_value" where
  "json_back v =
     (case v of
        V_str None \<Rightarrow> V_str (Some [])
      | V_str (Some s) \<Rightarrow> V_str (Some s)
      | V_char c \<Rightarrow> V_str (Some (if c = 0 then [] else [char_of_byte c]))
      | V_bool i \<Rightarrow> V_bool (if i \<noteq> 0 then 1 else 0)
      | V_int i \<Rightarrow> V_int i
      | V_uint i \<Rightarrow> int_back (uint i)
      | V_long l \<Rightarrow> int_back (sint l)
      | V_ulong l \<Rightarrow> int_back (uint l)
      | V_llong l \<Rightarrow> int_back (sint l)
      | V_ullong l \<Rightarrow> int_back (uint l)
      | _ \<Rightarrow> V_null)"

text \<open>Values the theorem covers: strings without NUL, and no floating point numbers.\<close>

definition plain_value :: "dict_value \<Rightarrow> bool" where
  "plain_value v =
     (case v of
        V_str (Some s) \<Rightarrow> cstr s
      | V_float _ \<Rightarrow> False | V_floatp _ \<Rightarrow> False | V_double _ \<Rightarrow> False | V_doublep _ \<Rightarrow> False
      | _ \<Rightarrow> True)"

lemma show_nat_hd: "0 < n \<Longrightarrow> hd (show_nat n) \<noteq> CHR ''0''"
proof (induction n rule: show_nat.induct)
  case (1 n)
  show ?case
  proof (cases "n < 10")
    case True
    have "code (digit_char n) \<noteq> code (CHR ''0'')"
      using True "1.prems" by (simp add: code_digit_char) (simp add: code_def)
    with True show ?thesis by (auto simp: show_nat.simps [of n])
  next
    case False
    with "1.IH" show ?thesis by (simp add: show_nat.simps [of n])
  qed
qed

lemma json_int_show_nat: "json_int (show_nat n)"
proof (cases "n = 0")
  case True
  have "char_of (48 :: nat) = CHR ''0''" by code_simp
  with True show ?thesis by (simp add: json_int_def show_nat.simps [of 0] digit_char_def)
next
  case False
  then show ?thesis using show_nat_hd [of n] show_nat_digits [of _ n] by (auto simp: json_int_def digits1_def)
qed

lemma json_number_show_int: "json_number_ok (show_int z)"
proof (rule json_number_complete)
  have "json_frac []" "json_exp []" by (simp_all add: json_frac_def json_exp_def)
  then show "json_number (show_int z)"
    unfolding json_number_def using json_int_show_nat [of "nat (- z)"] json_int_show_nat [of "nat z"]
    by (intro exI [of _ "if z < 0 then ''-'' else []"] exI [of _ "show_nat (nat \<bar>z\<bar>)"] exI [of _ "[]"])
      (auto simp: show_int_def)
qed

lemma show_int_chars: "c \<in> set (show_int z) \<Longrightarrow> isdigit c \<or> c = CHR ''-''"
  using show_nat_digits by (auto simp: show_int_def split: if_splits)

lemma strtoll_show: "strtoll (show_int z) =
    (if z > LLONG_MAX then (LLONG_MAX, [], True) else if z < LLONG_MIN then (LLONG_MIN, [], True)
     else (z, [], False))"
  by (simp add: strtoll_def scan_sign_show_int show_nat_span0 Let_def)

lemma strtoull_show: "0 \<le> z \<Longrightarrow> z \<le> ULLONG_MAX \<Longrightarrow> strtoull (show_int z) = (z, [], False)"
  by (simp add: strtoull_def scan_sign_show_int show_nat_span0 Let_def)

lemma json_number_value_show:
  assumes "LLONG_MIN \<le> z" and "z \<le> ULLONG_MAX"
  shows "json_number_value (show_int z) = Some (int_back z)"
proof -
  have int: "json_number_is_integer (show_int z)"
    using show_int_chars [of _ z] by (fastforce simp: json_number_is_integer_def)
  have "\<not> at_char (CHR ''-'') (show_int z)" if "0 \<le> z"
    using that isdigit_hd_show_nat [of "nat z"] by (auto simp: at_char_def show_int_def)
  with int assms show ?thesis
    by (auto simp: json_number_value_def strtoll_show strtoull_show int_back_def eq_sym_conv [of "[]"])
qed

lemma json_primitive_show:
  assumes "LLONG_MIN \<le> z" and "z \<le> ULLONG_MAX"
  shows "json_primitive_value (show_int z) = Some (int_back z)"
proof -
  have "show_int z \<noteq> s" if "s \<in> {''null'', ''true'', ''false''}" for s
    using that show_int_chars [of "hd s" z] by (auto simp: isdigit_def code_def)
  then show ?thesis
    by (simp add: json_primitive_value_def json_number_show_int json_number_value_show [OF assms])
qed

text \<open>A token that the reader takes as a primitive.\<close>

definition token :: "string \<Rightarrow> dict_value \<Rightarrow> bool" where
  "token t v \<longleftrightarrow> t \<noteq> [] \<and> (\<forall>c \<in> set t. \<not> primitive_end c) \<and> hd t \<notin> {QUOTE, CHR ''{'', CHR ''[''} \<and>
     json_primitive_value t = Some v"

lemma token_show:
  assumes "LLONG_MIN \<le> z" and "z \<le> ULLONG_MAX"
  shows "token (show_int z) (int_back z)"
proof -
  have chars: "48 \<le> code c \<and> code c \<le> 57 \<or> c = CHR ''-''" if "c \<in> set (show_int z)" for c
    using show_int_chars [OF that] by (simp add: isdigit_def)
  have "\<not> primitive_end c \<and> c \<notin> {QUOTE, CHR ''{'', CHR ''[''}" if "c \<in> set (show_int z)" for c
    using chars [OF that] by (auto simp: primitive_end_def json_ws_def code_def)
  then show ?thesis
    using json_primitive_show [OF assms] hd_in_set [of "show_int z"] by (auto simp: token_def)
qed

lemma token_words: "token ''null'' V_null" "token ''true'' (V_bool 1)" "token ''false'' (V_bool 0)"
  by (simp_all add: token_def primitive_end_def json_ws_def json_primitive_value_def)

lemma show_nat_int: "show_nat (unat w) = show_int (uint w)"
  by (simp add: show_int_def)

lemma int_back_int: "int_back (sint (i :: u32)) = V_int i"
  using sint_range32 [of i] by (simp add: int_back_def)

lemma token_ints:
  "token (show_int (sint (i :: u32))) (V_int i)" "token (show_nat (unat i)) (int_back (uint i))"
  "token (show_int (sint (l :: u64))) (int_back (sint l))" "token (show_nat (unat l)) (int_back (uint l))"
  using token_show [of "sint i"] token_show [of "uint i"] token_show [of "sint l"] token_show [of "uint l"]
  by (simp_all add: show_nat_int int_back_int word_bounds uint_above)

lemma token_value:
  "plain_value v \<Longrightarrow> val_type v \<noteq> VAL_STR \<Longrightarrow> val_type v \<noteq> VAL_CHAR \<Longrightarrow> token (value_text v) (json_back v)"
  by (cases v) (simp_all add: plain_value_def value_text_def json_value_text_def json_back_def
      token_words token_ints)

lemma value_text_cases:
  assumes "plain_value v"
  obtains (string) s where "cstr s" and "value_text v = json_literal s" and "json_back v = V_str (Some s)"
    | (token) "token (value_text v) (json_back v)"
proof (cases v)
  case (V_str s)
  with assms show ?thesis
    by (intro string [of "case s of None \<Rightarrow> [] | Some t \<Rightarrow> t"])
      (auto simp: plain_value_def value_text_def json_value_text_def json_escape_def json_literal_def
        json_back_def split: option.splits)
next
  case (V_char c)
  have "code (char_of_byte c) = unat c"
    using unsigned_less [where 'a = nat, of c] by (simp add: char_of_byte_def code_char_of)
  then have "char_of_byte c \<noteq> NUL" if "c \<noteq> 0"
    using that by (auto simp: code_def [of NUL] unat_eq_0)
  with V_char show ?thesis
    by (intro string [of "if c = 0 then [] else [char_of_byte c]"])
      (auto simp: value_text_def json_value_text_def json_escape_literal json_back_def)
qed (use token token_value [OF assms] in auto)

lemma parse_token:
  assumes "token t v" and "primitive_end c" and "depth \<le> JSON_MAX_DEPTH"
    and "json_dict d" and "dict_map d path = None"
  shows "json_parse_value (Suc f) (t @ c # r) path (Some d) depth [] =
    do { (e, d, a) \<leftarrow> dict_store (Some d) (Some path) v []; Some (if e \<noteq> 0 then NULL else Some (c # r), d, a) }"
proof -
  obtain h t' where t: "t = h # t'" using assms(1) by (cases t) (auto simp: token_def)
  then have h: "\<not> json_ws h" "h \<noteq> QUOTE" "h \<noteq> CHR ''{''" "h \<noteq> CHR ''[''"
    using assms(1) by (auto simp: token_def primitive_end_def)
  have "takeWhile (\<lambda>c. \<not> primitive_end c) (t @ c # r) = t" "dropWhile (\<lambda>c. \<not> primitive_end c) (t @ c # r) = c # r"
    using assms(1,2) by (auto simp: token_def takeWhile_append2 dropWhile_append2)
  then have "json_parse_primitive (t @ c # r) [] = (Some (t, c # r), [])"
    using assms(1) by (simp add: json_parse_primitive_def token_def)
  moreover have "skip_ws (t @ c # r) = t @ c # r" using t h by (simp add: skip_ws_def)
  ultimately show ?thesis
    using t h assms json_value_type [OF assms(4), of path]
    by (simp add: json_value_body_def at_char_def json_parse_primitive_value_def token_def)
qed

lemma parse_literal:
  assumes "cstr s" and "depth \<le> JSON_MAX_DEPTH" and "json_dict d" and "dict_map d path = None"
  shows "json_parse_value (Suc f) (json_literal s @ r) path (Some d) depth [] =
    do { (e, d, a) \<leftarrow> dict_store (Some d) (Some path) (V_str (Some s)) [];
         Some (if e \<noteq> 0 then NULL else Some r, d, a) }"
proof -
  have "skip_ws (json_literal s @ r) = json_literal s @ r" "at_char QUOTE (json_literal s @ r)"
      "json_literal s \<noteq> []"
    by (simp_all add: json_literal_def skip_ws_def json_ws_def at_char_def)
  then show ?thesis
    using assms json_value_type [OF assms(3), of path]
    by (simp add: json_value_body_def json_parse_string_value_def json_parse_literal dict_add_def)
qed

text \<open>A dictionary operation that succeeds because memory suffices.\<close>

lemma store_plenty:
  assumes "json_dict d" and "fill d < 2 ^ 28" and "v \<noteq> V_end"
  shows "\<exists>d'. dict_store (Some d) (Some key) v [] = Some (0, Some d', []) \<and> json_dict d' \<and>
    dict_map d' = (dict_map d)(key \<mapsto> v) \<and> fill d' \<le> fill d + 1"
proof -
  have "dict_clean d" using assms(1) by (simp add: json_dict_def)
  from dicts.store_law [OF this assms(2), of key v "[]"] obtain d' where
    "dict_store (Some d) (Some key) v [] = Some (0, Some d', [])" "dict_clean d'"
    "dict_map d' = (dict_map d)(key \<mapsto> v)" "fill d' \<le> fill d + 1" by blast
  then show ?thesis using assms(1,3) by (fastforce simp: json_dict_def ran_def)
qed

lemma json_back_typed: "json_back v \<noteq> V_end"
  by (cases v) (auto simp: json_back_def int_back_def split: option.splits)

lemma parse_value_text:
  assumes "plain_value v" and "primitive_end c" and "depth \<le> JSON_MAX_DEPTH"
    and "json_dict d" and "dict_map d path = None" and "fill d < 2 ^ 28"
  shows "\<exists>d'. json_parse_value (Suc f) (value_text v @ c # r) path (Some d) depth [] =
      Some (Some (c # r), Some d', []) \<and> json_dict d' \<and>
    dict_map d' = (dict_map d)(path \<mapsto> json_back v) \<and> fill d' \<le> fill d + 1"
proof -
  obtain d' where st: "dict_store (Some d) (Some path) (json_back v) [] = Some (0, Some d', [])" "json_dict d'"
      "dict_map d' = (dict_map d)(path \<mapsto> json_back v)" "fill d' \<le> fill d + 1"
    using store_plenty [OF assms(4,6) json_back_typed, of path v] by blast
  from assms(1) have "json_parse_value (Suc f) (value_text v @ c # r) path (Some d) depth [] =
      Some (Some (c # r), Some d', [])"
  proof (cases rule: value_text_cases)
    case (string s)
    then show ?thesis
      using parse_literal [OF string(1) assms(3-5), of f "c # r"] st(1)
      by (simp del: json_parse_value.simps)
  next
    case token
    then show ?thesis using parse_token [OF token assms(2-5), of f r] st(1) by (simp del: json_parse_value.simps)
  qed
  with st show ?thesis by blast
qed

subsection \<open>Reading the object back\<close>

lemma path_append_top: "path_append (Some []) (Some k) [] = (Some k, [])"
  by (simp add: path_append_def)

lemma members_start: "kvs \<noteq> [] \<Longrightarrow> \<exists>r. members_text kvs = QUOTE # r"
  by (cases kvs) (simp_all add: json_literal_def)

lemma separator_close: "json_separator (CHR ''}'') (CHR ''}'' # r) = Inl (Some r)"
  by (simp add: json_separator_def skip_ws_def json_ws_def at_char_def)

lemma separator_comma:
  "kvs \<noteq> [] \<Longrightarrow> json_separator (CHR ''}'') (CHR '','' # members_text kvs @ r) = Inr (members_text kvs @ r)"
  using members_start [of kvs]
  by (auto simp: json_separator_def skip_ws_def json_ws_def at_char_def)

text \<open>One round of the member loop.\<close>

lemma obj_loop_member:
  assumes "cstr k" and "plain_value v" and "primitive_end c"
    and d: "json_dict d" "fill d < 2 ^ 28" "dict_map d k = None"
    and keys: "json_dict keys" "fill keys < 2 ^ 28" "dict_map keys k = None"
  shows "\<exists>d' keys'. json_obj_loop (Suc (Suc f)) (json_literal k @ '':'' @ value_text v @ c # r) [] (Some d)
      (Some keys) 0 [] =
      (case json_separator (CHR ''}'') (c # r) of
         Inl e \<Rightarrow> Some (e, Some d', [])
       | Inr s \<Rightarrow> json_obj_loop (Suc f) s [] (Some d') (Some keys') 0 []) \<and>
    json_dict d' \<and> dict_map d' = (dict_map d)(k \<mapsto> json_back v) \<and> fill d' \<le> fill d + 1 \<and>
    json_dict keys' \<and> dict_map keys' = (dict_map keys)(k \<mapsto> V_bool 1) \<and> fill keys' \<le> fill keys + 1"
proof -
  obtain keys' where k: "dict_store (Some keys) (Some k) (V_bool 1) [] = Some (0, Some keys', [])"
      "json_dict keys'" "dict_map keys' = (dict_map keys)(k \<mapsto> V_bool 1)" "fill keys' \<le> fill keys + 1"
    using store_plenty [OF keys(1,2), of "V_bool 1" k] by auto
  obtain d' where v: "json_parse_value (Suc f) (value_text v @ c # r) k (Some d) 1 [] =
        Some (Some (c # r), Some d', [])" "json_dict d'"
      "dict_map d' = (dict_map d)(k \<mapsto> json_back v)" "fill d' \<le> fill d + 1"
    using parse_value_text [OF assms(2,3) _ d(1) d(3,2), of 1 f r] by auto
  have "json_literal k \<noteq> []" by (simp add: json_literal_def)
  moreover have "skip_ws (CHR '':'' # s) = CHR '':'' # s" "at_char (CHR '':'') (CHR '':'' # s)" for s
    by (simp_all add: skip_ws_def json_ws_def at_char_def)
  ultimately have "json_obj_loop (Suc (Suc f)) (json_literal k @ '':'' @ value_text v @ c # r) [] (Some d)
      (Some keys) 0 [] =
      (case json_separator (CHR ''}'') (c # r) of
         Inl e \<Rightarrow> Some (e, Some d', [])
       | Inr s \<Rightarrow> json_obj_loop (Suc f) s [] (Some d') (Some keys') 0 [])"
    using k(1) v(1) json_value_type [OF keys(1), of k] keys(3)
    by (simp add: json_obj_loop.simps(2) [of "Suc f"] json_obj_body_def json_parse_literal [OF assms(1)]
        dict_add_bool_def path_append_top del: json_parse_value.simps json_obj_loop.simps)
  with k v show ?thesis by blast
qed

abbreviation back_map :: "(string \<times> dict_value) list \<Rightarrow> string \<Rightarrow> dict_value option" where
  "back_map kvs \<equiv> map_of (map (\<lambda>kv. (fst kv, json_back (snd kv))) kvs)"

lemma obj_loop_members:
  assumes "kvs \<noteq> []" and "\<forall>kv \<in> set kvs. cstr (fst kv) \<and> plain_value (snd kv)" and "distinct (map fst kvs)"
    and "json_dict d" and "fst ` set kvs \<inter> dom (dict_map d) = {}" and "fill d + length kvs \<le> 2 ^ 28"
    and "json_dict keys" and "fst ` set kvs \<inter> dom (dict_map keys) = {}" and "fill keys + length kvs \<le> 2 ^ 28"
    and "length kvs < fuel"
  shows "\<exists>d'. json_obj_loop fuel (members_text kvs @ ''}'') [] (Some d) (Some keys) 0 [] =
      Some (Some [], Some d', []) \<and> json_dict d' \<and> dict_map d' = dict_map d ++ back_map kvs"
  using assms
proof (induction kvs arbitrary: d keys fuel)
  case (Cons kv kvs)
  obtain f where f: "fuel = Suc (Suc f)" using Cons.prems(10) by (cases fuel; cases "fuel - 1") auto
  let ?k = "fst kv" and ?v = "snd kv"
  obtain c r where cr: "(if kvs \<noteq> [] then '','' else []) @ members_text kvs @ ''}'' = c # r" "primitive_end c"
    by (cases "kvs = []") (auto simp: primitive_end_def)
  have shape: "members_text (kv # kvs) @ ''}'' = json_literal ?k @ '':'' @ value_text ?v @ c # r"
    using cr(1) by simp
  have fresh: "dict_map d ?k = None" "dict_map keys ?k = None" "cstr ?k" "plain_value ?v"
      "fill d < 2 ^ 28" "fill keys < 2 ^ 28"
    using Cons.prems by (auto simp: disjoint_iff dom_def)
  obtain d1 keys1 where step: "json_obj_loop fuel (members_text (kv # kvs) @ ''}'') [] (Some d) (Some keys) 0 [] =
        (case json_separator (CHR ''}'') (c # r) of
           Inl e \<Rightarrow> Some (e, Some d1, [])
         | Inr s \<Rightarrow> json_obj_loop (Suc f) s [] (Some d1) (Some keys1) 0 [])"
      "json_dict d1" "dict_map d1 = (dict_map d)(?k \<mapsto> json_back ?v)" "fill d1 \<le> fill d + 1"
      "json_dict keys1" "dict_map keys1 = (dict_map keys)(?k \<mapsto> V_bool 1)" "fill keys1 \<le> fill keys + 1"
    unfolding shape f
    using obj_loop_member [OF fresh(3,4) cr(2) Cons.prems(4) fresh(5,1) Cons.prems(7) fresh(6,2), of f r]
    by blast
  show ?case
  proof (cases "kvs = []")
    case True
    then have "c # r = ''}''" using cr(1) by simp
    with step True separator_close [of r] show ?thesis by (auto simp: map_add_def fun_eq_iff)
  next
    case False
    then have "c # r = CHR '','' # members_text kvs @ ''}''" using cr(1) by simp
    then have next_call: "json_obj_loop fuel (members_text (kv # kvs) @ ''}'') [] (Some d) (Some keys) 0 [] =
        json_obj_loop (Suc f) (members_text kvs @ ''}'') [] (Some d1) (Some keys1) 0 []"
      using step(1) separator_comma [OF False] by simp
    have disj: "fst ` set kvs \<inter> dom (dict_map d1) = {}" "fst ` set kvs \<inter> dom (dict_map keys1) = {}"
      using Cons.prems(3,5,8) step(3,6) by (simp_all add: Int_insert_right)
    have "\<exists>d'. json_obj_loop (Suc f) (members_text kvs @ ''}'') [] (Some d1) (Some keys1) 0 [] =
        Some (Some [], Some d', []) \<and> json_dict d' \<and> dict_map d' = dict_map d1 ++ back_map kvs"
      using False Cons.prems(2,3,6,9,10) step(4,7) f by (intro Cons.IH step(2,5) disj) auto
    moreover have "dict_map d1 ++ back_map kvs = dict_map d ++ back_map (kv # kvs)"
    proof -
      have "back_map kvs ?k = None" using Cons.prems(3) by (simp add: map_of_eq_None_iff image_image)
      then show ?thesis using step(3) by (auto simp: map_add_def fun_eq_iff split: option.split)
    qed
    ultimately show ?thesis unfolding next_call by metis
  qed
qed simp

lemma members_text_length: "length kvs \<le> length (members_text kvs)"
  by (induction kvs) (auto simp: json_literal_def)

lemma json2dict_members:
  assumes "\<forall>kv \<in> set kvs. cstr (fst kv) \<and> plain_value (snd kv)" and "distinct (map fst kvs)"
    and "length kvs \<le> 2 ^ 28"
  shows "\<exists>d'. json2dict (Some (''{'' @ members_text kvs @ ''}'')) [] = Some (Some d', []) \<and> dict_clean d' \<and>
    dict_map d' = back_map kvs"
proof -
  let ?json = "''{'' @ members_text kvs @ ''}''" and ?fuel = "2 * length (''{'' @ members_text kvs @ ''}'')"
  have empty: "json_dict dict_empty" "fill dict_empty = 0" "dict_map dict_empty = Map.empty"
    using dict_empty_clean by (simp_all add: json_dict_def)
  have ws: "skip_ws (c # s) = c # s" if "c \<in> {CHR ''{'', CHR ''}'', QUOTE}" for c s
    using that by (auto simp: skip_ws_def json_ws_def)
  have start: "json_parse_value (Suc ?fuel) ?json [] (Some dict_empty) 0 [] =
      (if kvs = [] then Some (Some [], Some dict_empty, [])
       else json_obj_loop ?fuel (members_text kvs @ ''}'') [] (Some dict_empty) (Some dict_empty) 0 [])"
    using members_start [of kvs] json_value_type [OF empty(1), of "[]"] empty(3)
    by (auto simp: json_value_body_def json_parse_obj_def at_char_def dict_new_plenty ws)
  have "\<exists>d'. json_parse_value (Suc ?fuel) ?json [] (Some dict_empty) 0 [] = Some (Some [], Some d', []) \<and>
      json_dict d' \<and> dict_map d' = back_map kvs"
  proof (cases "kvs = []")
    case True
    with start empty show ?thesis by simp
  next
    case False
    have "\<exists>d'. json_obj_loop ?fuel (members_text kvs @ ''}'') [] (Some dict_empty) (Some dict_empty) 0 [] =
        Some (Some [], Some d', []) \<and> json_dict d' \<and> dict_map d' = dict_map dict_empty ++ back_map kvs"
      using False assms empty members_text_length [of kvs] by (intro obj_loop_members) simp_all
    with False start empty show ?thesis by simp
  qed
  then obtain d' where "json_parse_value (Suc ?fuel) ?json [] (Some dict_empty) 0 [] = Some (Some [], Some d', [])"
      "json_dict d'" "dict_map d' = back_map kvs" by blast
  then show ?thesis
    by (simp add: json2dict_def dict_new_plenty json_dict_def skip_ws_def del: json_parse_value.simps)
qed

lemma card_dict_items: "dict_inv d \<Longrightarrow> length (dict_items d 0) = card (dom (dict_map d))"
  using distinct_card [OF dict_items_distinct] dict_items_map [of d] dom_map_of_conv_image_fst [of "dict_items d 0"]
  by (metis length_map set_map)

text \<open>C6: writing and reading back, for a valid dictionary of at most 2^28 entries whose keys are not
  empty and have no dots and whose values are not floating point: \<open>dict2json\<close> writes a text, when
  memory suffices, which \<open>json2dict\<close> accepts, and the dictionary read has the same keys, each with
  what JSON keeps of its value (\<open>json_back\<close>): a string comes back as it is, a boolean as true or
  false, a number in the smallest type that holds it, a character as a string of one character (the
  character 0 as the empty string), a \<open>NULL\<close> string as the empty string, and a pointer or a null
  value as null.\<close>

theorem json_roundtrip:
  assumes "dict_inv d" and "card (dom (dict_map d)) \<le> 2 ^ 28"
    and "\<And>k v. dict_map d k = Some v \<Longrightarrow> flat_key k \<and> plain_value v"
  shows "\<exists>json d'. dict2json (Some d) [] = Some (Some json, []) \<and> json2dict (Some json) [] = Some (Some d', []) \<and>
    dict_clean d' \<and> dict_map d' = map_option json_back \<circ> dict_map d"
proof -
  let ?kvs = "rev (dict_items d 0)"
  note items = dict_items_distinct [OF assms(1)] dict_items_map [of d] card_dict_items [OF assms(1)]
  have "\<forall>kv \<in> set ?kvs. cstr (fst kv) \<and> plain_value (snd kv)"
    using items(1,2) assms(3) map_of_is_SomeI by (fastforce simp: flat_key_def)
  then obtain d' where d': "json2dict (Some (''{'' @ members_text ?kvs @ ''}'')) [] = Some (Some d', [])"
      "dict_clean d'" "dict_map d' = back_map ?kvs"
    using json2dict_members [of ?kvs] items assms(2) by (auto simp flip: rev_map)
  have "map_of (map (\<lambda>kv. (fst kv, json_back (snd kv))) ?kvs) = map_option json_back \<circ> map_of ?kvs"
    by (simp add: map_of_map [symmetric] case_prod_unfold)
  moreover have "map_of ?kvs = dict_map d"
    using items(1,2) by (simp add: map_of_inject_set rev_map [symmetric] flip: items(2))
  ultimately have "dict_map d' = map_option json_back \<circ> dict_map d" using d'(3) by simp
  with d' dict2json_flat [OF assms(1)] assms(3) show ?thesis by blast
qed

theorem json_roundtrip_witness:
  "\<exists>json d'. dict2json (Some sample_dict) [] = Some (Some json, []) \<and>
     json2dict (Some json) [] = Some (Some d', []) \<and> dict_map d' ''foo'' = Some (V_str (Some ''bar''))"
proof -
  have "\<exists>json d'. dict2json (Some sample_dict) [] = Some (Some json, []) \<and>
      json2dict (Some json) [] = Some (Some d', []) \<and> dict_clean d' \<and>
      dict_map d' = map_option json_back \<circ> dict_map sample_dict"
    by (rule json_roundtrip) (auto simp: sample_facts flat_key_def plain_value_def split: if_splits)
  then show ?thesis by (auto simp: sample_facts json_back_def)
qed

subsection \<open>Where the writer goes wrong\<close>

text \<open>A failed \<open>realloc\<close> corrupts the buffer: \<open>sbuf_puts\<close> has raised the capacity before
  it asks for memory and keeps it raised on failure, the caller does not look at the
  result, and a later text that fits the capacity but not the block is stored out of
  bounds (the model has no result for it).\<close>

theorem sbuf_failed_growth:
  assumes "sbuf_ok b" and "sb_cap b \<le> length (sb_text b) + length s"
  shows "\<exists>b'. sbuf_puts b (Some s) (False # a) = Some (True, b', a) \<and> sb_text b' = sb_text b \<and>
    length (sb_text b) + length s < sb_cap b' \<and> sb_size b' = sb_size b \<and>
    (\<forall>t. sb_size b' \<le> length (sb_text b) + length t \<and> length (sb_text b) + length t < sb_cap b' \<longrightarrow>
       sbuf_puts b' (Some t) a = None)"
proof -
  let ?need = "length (sb_text b) + length s + 1"
  have "0 < sb_cap b" using assms(1) by (simp add: sbuf_ok_def)
  then obtain c where "sbuf_grow ?need (sb_cap b) = Some c" "?need \<le> c"
    using sbuf_grow_returns by blast
  with assms have "sbuf_puts b (Some s) (False # a) = Some (True, b\<lparr>sb_cap := c\<rparr>, a)" "?need \<le> c"
    by (simp_all add: sbuf_puts_def sbuf_realloc_def)
  then show ?thesis by (auto simp: sbuf_puts_def sbuf_write_def)
qed

theorem sbuf_failed_growth_witness:
  "\<exists>b'. sbuf_puts \<lparr>sb_text = replicate 200 (CHR ''x''), sb_cap = 256, sb_size = 256\<rparr>
       (Some (replicate 100 (CHR ''y''))) [False] = Some (True, b', []) \<and>
     sbuf_puts b' (Some (replicate 90 (CHR ''z''))) [] = None"
proof -
  let ?b = "\<lparr>sb_text = replicate 200 (CHR ''x''), sb_cap = 256, sb_size = 256\<rparr>"
  have "sbuf_ok ?b" "sb_cap ?b \<le> length (sb_text ?b) + length (replicate 100 (CHR ''y''))"
    by (simp_all add: sbuf_ok_def)
  from sbuf_failed_growth [OF this, of "[]"] show ?thesis by fastforce
qed

text \<open>A double that is not finite is written as a word that is not JSON: \<open>json2dict\<close> rejects
  the text that \<open>dict2json\<close> writes for it.\<close>

theorem json_nonfinite_rejected:
  assumes "\<not> d_isfinite f"
  shows "json_primitive_value (value_text (V_double f)) = None"
proof -
  have "value_text (V_double f) \<in> {''inf'', ''-inf'', ''nan''}"
    using assms by (cases f) (auto simp: value_text_def json_value_text_def fmt_g_def d_isfinite_def)
  then show ?thesis
    by (auto simp: json_primitive_value_def json_number_ok_def scan_int_part_def starts_digit_def at_char_def
        isdigit_def code_def)
qed

theorem json_nonfinite_rejected_witness: "json_primitive_value (value_text (V_double (DInf True))) = None"
  by (rule json_nonfinite_rejected) (simp add: d_isfinite_def)

end
