(* ===== verification/Config_Text.thy ===== *)
theory Config_Text
  imports Prelude
begin

text \<open>
  The text layer of \<open>config.c\<close>: how \<open>cfg_load_depth\<close> turns the characters of a file
  into logical lines (\<open>fgets\<close>, continuation lines, escaped and C-style comments), how
  \<open>cfg_write_wrapped\<close> lays out one setting, and the escapes of formatting keys.

  A file opened for reading is the text not yet read. The line buffer of 32768 bytes is the
  C string it holds; all bytes behind its end are zero, so a stale pointer \<open>buf + k\<close> reads
  \<open>drop k buf\<close>.
\<close>

abbreviation BACKSLASH :: char where "BACKSLASH \<equiv> CHR 0x5C"
abbreviation NEWLINE :: char where "NEWLINE \<equiv> CHR 0x0A"
abbreviation SPACE :: char where "SPACE \<equiv> CHR '' ''"

subsection \<open>String helpers of the C library\<close>

definition rtrim :: "(char \<Rightarrow> bool) \<Rightarrow> string \<Rightarrow> string" where
  "rtrim P s = rev (dropWhile P (rev s))"

definition is_blank :: "char \<Rightarrow> bool" where
  "is_blank c \<longleftrightarrow> c = SPACE \<or> c = CHR 0x09"

definition is_eol :: "char \<Rightarrow> bool" where
  "is_eol c \<longleftrightarrow> c = CHR 0x0D \<or> c = NEWLINE"

text \<open>At most \<open>n\<close> characters of the stream, up to and including a newline.\<close>

fun get_line :: "nat \<Rightarrow> string \<Rightarrow> string \<times> string" where
  "get_line 0 s = ([], s)"
| "get_line (Suc n) [] = ([], [])"
| "get_line (Suc n) (c # s) =
     (if c = NEWLINE then ([c], s) else let (l, r) = get_line n s in (c # l, r))"

text \<open>\<open>fgets(buf, size, fp)\<close>: the C string in \<open>buf\<close> and the rest, \<open>NULL\<close> at the end of the file.\<close>

definition fgets :: "nat \<Rightarrow> string \<Rightarrow> (string \<times> string) ptr" where
  "fgets sz s =
     (if s = [] then NULL
      else let (l, r) = get_line (sz - 1) s in Some (takeWhile (\<lambda>c. c \<noteq> NUL) l, r))"

text \<open>\<open>strncat(buf, s, size - strlen(buf) - 1)\<close> and \<open>strlcat(buf, s, size)\<close>.\<close>

definition append_within :: "nat \<Rightarrow> string \<Rightarrow> string \<Rightarrow> string" where
  "append_within sz buf s = buf @ take (sz - length buf - 1) s"

abbreviation CFG_BUF :: nat where "CFG_BUF \<equiv> 32768"

lemma get_line_length: "get_line n s = (l, r) \<Longrightarrow> length l + length r = length s"
  by (induction n s arbitrary: l r rule: get_line.induct) (auto split: if_splits prod.splits)

lemma get_line_progress: "get_line (Suc n) s = (l, r) \<Longrightarrow> s \<noteq> [] \<Longrightarrow> length r < length s"
  using get_line_length by (cases s) (fastforce split: if_splits prod.splits)+

lemma fgets_progress: "fgets (Suc (Suc n)) s = Some (l, r) \<Longrightarrow> length r < length s"
  by (auto simp: fgets_def get_line_progress split: if_splits prod.splits)

subsection \<open>Continuation lines\<close>

text \<open>
  The loop after the first read: while the buffer ends in a backslash, the backslash and the
  blanks before it are dropped and the next line is appended without its surrounding white
  space, behind one space when a space preceded the backslash. The result is the buffer, the
  unread text and the line number.
\<close>

function cont_loop :: "string \<Rightarrow> string \<Rightarrow> int \<Rightarrow> string \<times> string \<times> int" where
  "cont_loop buf fp line =
     (let buf = rtrim is_blank (rtrim is_eol buf)
      in if buf = [] \<or> last buf \<noteq> BACKSLASH then (buf, fp, line)
         else let space_before = (1 < length buf \<and> buf ! (length buf - 2) = SPACE);
                  buf = rtrim is_blank (butlast buf)
           in case fgets CFG_BUF fp of
                None \<Rightarrow> (buf, fp, line)
              | Some (contbuf, fp) \<Rightarrow>
                  (let cont = rtrim isspace (dropWhile isspace contbuf);
                       buf = (if space_before \<and> buf \<noteq> [] then append_within CFG_BUF buf '' '' else buf)
                   in cont_loop (append_within CFG_BUF buf cont) fp (line + 1)))"
  by pat_completeness auto
termination
proof (relation "measure (\<lambda>(buf, fp, line). length fp)", goal_cases)
  case (2 buf fp line buf1 sb buf2 x contbuf fp' cont buf3)
  then show ?case using fgets_progress [of 32766 fp contbuf fp'] by simp
qed simp

declare cont_loop.simps [simp del]

subsection \<open>Escaped comment characters\<close>

definition escapes_comment :: "string \<Rightarrow> bool" where
  "escapes_comment s \<longleftrightarrow>
     s \<noteq> [] \<and> hd s = BACKSLASH \<and> tl s \<noteq> [] \<and>
     (hd (tl s) \<in> {CHR ''#'', CHR '';'', BACKSLASH} \<or> take 2 (tl s) = ''//'')"

fun unescape_marks :: "string \<Rightarrow> string" where
  "unescape_marks [] = []"
| "unescape_marks (c # s) =
     (if c = BACKSLASH \<and> s \<noteq> [] \<and> hd s \<in> {CHR ''#'', CHR '';'', BACKSLASH}
      then hd s # unescape_marks (tl s)
      else c # unescape_marks s)"

text \<open>\<open>k\<close> is the offset of \<open>skip\<close>, computed before the continuation lines were joined.\<close>

definition unescape_line :: "nat \<Rightarrow> string \<Rightarrow> bool \<times> string" where
  "unescape_line k buf =
     (if escapes_comment (drop k buf)
      then (True, take k buf @ unescape_marks (tl (drop k buf)))
      else (False, buf))"

definition comment_start :: "string \<Rightarrow> bool" where
  "comment_start s \<longleftrightarrow> take 2 s = ''//'' \<or> (s \<noteq> [] \<and> hd s \<in> {CHR ''#'', CHR '';''})"

subsection \<open>Block comments\<close>

text \<open>The scanner over \<open>src\<close>: the kept text and whether a block comment is still open.\<close>

fun strip_comments :: "bool \<Rightarrow> char ptr \<Rightarrow> string \<Rightarrow> string \<times> bool" where
  "strip_comments in_comment quote [] = ([], in_comment)"
| "strip_comments in_comment quote (c # s) =
     (if in_comment then
        (if c = CHR ''*'' \<and> s \<noteq> [] \<and> hd s = CHR ''/'' then strip_comments False quote (tl s)
         else strip_comments True quote s)
      else case quote of
        Some q \<Rightarrow>
          if c = BACKSLASH \<and> s \<noteq> [] then
            (let (t, ic) = strip_comments False quote (tl s) in (c # hd s # t, ic))
          else
            (let (t, ic) = strip_comments False (if c = q then NULL else quote) s in (c # t, ic))
      | None \<Rightarrow>
          if c = CHR 0x22 \<or> c = CHR 0x27 then
            (let (t, ic) = strip_comments False (Some c) s in (c # t, ic))
          else if c = CHR ''/'' \<and> s \<noteq> [] \<and> hd s = CHR ''*'' then strip_comments True NULL (tl s)
          else (let (t, ic) = strip_comments False NULL s in (c # t, ic)))"

subsection \<open>A logical line\<close>

text \<open>
  What one turn of the read loop makes of the file: the buffer at the point where the line
  is classified, split at \<open>skip\<close> (its leading white space and the rest), with
  \<open>escaped_comment\<close>; \<open>NULL\<close> when the turn ends early with \<open>continue\<close>.
\<close>

definition logical_line ::
    "bool \<Rightarrow> nat \<Rightarrow> string \<Rightarrow> (bool \<times> string \<times> string) ptr \<times> bool" where
  "logical_line in_comment k buf =
     (let (escaped_comment, buf) = unescape_line k buf;
          lead = takeWhile isspace buf;
          skip = dropWhile isspace buf
      in if \<not> in_comment \<and> \<not> escaped_comment \<and> comment_start skip then (NULL, in_comment)
         else let (text, in_comment) = strip_comments in_comment NULL skip;
                  text = rtrim isspace text
           in if text = [] then (NULL, in_comment)
              else (Some (escaped_comment, lead, text), in_comment))"

definition read_logical ::
    "bool \<Rightarrow> int \<Rightarrow> string \<Rightarrow> ((bool \<times> string \<times> string) ptr \<times> bool \<times> string \<times> int) ptr" where
  "read_logical in_comment line fp =
     (case fgets (CFG_BUF - 1) fp of
        None \<Rightarrow> NULL
      | Some (raw, fp) \<Rightarrow>
          (let line = line + 1;
               k = length (takeWhile isspace raw);
               buf = rtrim (\<lambda>c. is_eol c \<or> is_blank c) raw
           in if drop k buf = [] \<and> \<not> in_comment then Some (NULL, in_comment, fp, line)
              else let (buf, fp, line) = cont_loop buf fp line;
                       (text, in_comment) = logical_line in_comment k buf
                in Some (text, in_comment, fp, line)))"

subsection \<open>Writing a setting\<close>

text \<open>
  \<open>cfg_write_wrapped\<close>: the setting on lines of at most 80 columns, continued with a
  backslash and indented to the column behind the equals sign.
\<close>

function wrap_lines :: "nat \<Rightarrow> nat \<Rightarrow> string \<Rightarrow> string" where
  "wrap_lines indent capacity str =
     (let chunk = (if length str > capacity then (if capacity > 1 then capacity - 1 else 1)
                   else length str)
      in if length str > chunk
         then take chunk str @ [BACKSLASH, NEWLINE] @ replicate indent SPACE @
              wrap_lines indent capacity (drop chunk str)
         else str @ [NEWLINE])"
  by pat_completeness auto
termination
  by (relation "measure (\<lambda>(indent, capacity, str). length str)") (auto split: if_splits)

declare wrap_lines.simps [simp del]

definition cfg_write_wrapped :: "string \<Rightarrow> string ptr \<Rightarrow> string" where
  "cfg_write_wrapped key value =
     (let str = (case value of Some v \<Rightarrow> v | None \<Rightarrow> []);
          indent = length key + 1;
          capacity = (if indent < 80 then 80 - indent else 1)
      in key @ ''='' @ wrap_lines indent capacity str)"

subsection \<open>Formatting keys\<close>

definition cfg_formatting_key :: "string \<Rightarrow> bool" where
  "cfg_formatting_key key \<longleftrightarrow>
     take 6 key = ''theme.'' \<or> take 9 key = ''ui.theme.'' \<or> key = ''tui.status-line'' \<or>
     key = ''tui.room-status-line''"

text \<open>The control character of an escape letter, 0 when there is none.\<close>

definition format_control :: "char \<Rightarrow> nat" where
  "format_control c =
     (if c = CHR ''B'' then 0x02 else if c = CHR ''C'' then 0x03 else if c = CHR ''I'' then 0x1d
      else if c = CHR ''O'' then 0x0f else if c = CHR ''R'' then 0x16
      else if c = CHR ''S'' then 0x1e else if c = CHR ''U'' then 0x1f
      else if c = CHR ''M'' then 0x11 else 0)"

text \<open>The digits copied behind a colour code: up to two, and after a comma up to two more.\<close>

definition two_digits :: "string \<Rightarrow> string" where
  "two_digits s = takeWhile isdigit (take 2 s)"

definition colour_digits :: "string \<Rightarrow> string" where
  "colour_digits s =
     (let fg = two_digits s; r = drop (length fg) s
      in if r \<noteq> [] \<and> hd r = CHR '','' \<and> tl r \<noteq> [] \<and> isdigit (hd (tl r))
         then fg @ '','' @ two_digits (tl r) else fg)"

function cfg_expand_format_escapes :: "string \<Rightarrow> string" where
  "cfg_expand_format_escapes [] = []"
| "cfg_expand_format_escapes (c # s) =
     (if c = BACKSLASH \<and> s \<noteq> [] then
        (if hd s = BACKSLASH then BACKSLASH # cfg_expand_format_escapes (tl s)
         else if format_control (hd s) \<noteq> 0 then
           (let ds = (if format_control (hd s) = 0x03 then colour_digits (tl s) else [])
            in char_of (format_control (hd s)) # ds @
               cfg_expand_format_escapes (drop (length ds) (tl s)))
         else c # cfg_expand_format_escapes s)
      else c # cfg_expand_format_escapes s)"
  by pat_completeness auto
termination
  by (relation "measure length") (auto simp: le_imp_less_Suc)

declare cfg_expand_format_escapes.simps(2) [simp del]

end
