(* ===== verification/Util_Mem.thy ===== *)
theory Util_Mem
  imports Prelude
begin

text \<open>
  Model of \<open>util.mem.c\<close>: allocation that ends the process when memory runs out, and the
  composition of procedures that allocate. A procedure consumes allocation outcomes, may end
  the process with \<open>exit\<close>, and may have no defined result.
\<close>

text \<open>A function that may end the process with \<open>exit\<close>.\<close>

datatype 'a run = Exit int | Done 'a

abbreviation (input) ENOMEM :: int where "ENOMEM \<equiv> 12"
abbreviation (input) EXIT_FAILURE :: int where "EXIT_FAILURE \<equiv> 1"

text \<open>\<open>abort\<close> ends the process by \<open>SIGABRT\<close>, a status of 128 + 6 to a shell.\<close>

abbreviation (input) ABORTED :: int where "ABORTED \<equiv> 134"

type_synonym 'a proc = "alloc \<Rightarrow> ('a run \<times> alloc) comp"

definition ret :: "'a \<Rightarrow> 'a proc" where
  "ret x a = Some (Done x, a)"

definition andthen :: "'a proc \<Rightarrow> ('a \<Rightarrow> 'b proc) \<Rightarrow> 'b proc" where
  "andthen m f a =
     do {
       (r, a) \<leftarrow> m a;
       case r of Exit e \<Rightarrow> Some (Exit e, a) | Done x \<Rightarrow> f x a
     }"

definition lift :: "'a comp \<Rightarrow> 'a proc" where
  "lift c a = do { x \<leftarrow> c; Some (Done x, a) }"

definition oom_fatal :: "'a run" where
  "oom_fatal = Exit ENOMEM"

definition xmalloc :: "unit proc" where
  "xmalloc a = (let (ok, a) = malloc_ok a in Some (if ok then Done () else oom_fatal, a))"

definition xcalloc :: "unit proc" where
  "xcalloc a = (let (ok, a) = malloc_ok a in Some (if ok then Done () else oom_fatal, a))"

definition xrealloc :: "unit proc" where
  "xrealloc a = (let (ok, a) = malloc_ok a in Some (if ok then Done () else oom_fatal, a))"

definition xstrdup :: "string \<Rightarrow> string proc" where
  "xstrdup s a = (let (ok, a) = malloc_ok a in Some (if ok then Done s else oom_fatal, a))"

lemmas xalloc_defs = xmalloc_def xcalloc_def xrealloc_def xstrdup_def oom_fatal_def

text \<open>What a procedure does when memory suffices.\<close>

lemma plenty [simp]:
  "ret x a = Some (Done x, a)"
  "xmalloc [] = Some (Done (), [])"
  "xcalloc [] = Some (Done (), [])"
  "xrealloc [] = Some (Done (), [])"
  "xstrdup s [] = Some (Done s, [])"
  by (simp_all add: ret_def xalloc_defs)

lemma andthen_simps [simp]:
  "m a = Some (Done x, a') \<Longrightarrow> andthen m f a = f x a'"
  "m a = Some (Exit e, a') \<Longrightarrow> andthen m f a = Some (Exit e, a')"
  "m a = None \<Longrightarrow> andthen m f a = None"
  by (simp_all add: andthen_def)

lemma lift_simps [simp]: "lift (Some x) a = Some (Done x, a)" "lift None a = None"
  by (simp_all add: lift_def)

end
