(* ===== verification/Config_Load.thy ===== *)
theory Config_Load
  imports Config_Text Dict_Contract Util_Mem
begin

text \<open>
  The loader of \<open>config.c\<close>: section callbacks, includes, and \<open>cfg_load\<close>.

  What the loader finds outside is a record \<open>cfg_env\<close>: which paths exist, the text of the
  files that can be opened, \<open>fnmatch\<close>, what the registered callbacks do (a callback
  receives the dictionary under construction, which the global \<open>cfg\<close> points to during a
  load, and returns it changed) and the setting \<open>cfg_ignore_unknown_sections\<close>. Messages to
  the log are not modelled; the counter of warnings is kept.
\<close>

subsection \<open>Section callbacks\<close>

record cfg_cb =
  cb_section :: string
  cb_path :: "string ptr"
  cb_callback :: nat

text \<open>The arguments are the path, the line number, the section and the buffer.\<close>

type_synonym section_cb = "string \<Rightarrow> int \<Rightarrow> string \<Rightarrow> string \<Rightarrow> dict ptr \<Rightarrow> (bool \<times> dict ptr) proc"

record cfg_env =
  ce_exists :: "string \<Rightarrow> bool"
  ce_text :: "string \<Rightarrow> string ptr"
  ce_fnmatch :: "string \<Rightarrow> string \<Rightarrow> bool"
  ce_callbacks :: "cfg_cb list"
  ce_call :: "nat \<Rightarrow> section_cb"
  ce_ignore_unknown :: bool

definition cfg_set_ignore_unknown_sections :: "bool \<Rightarrow> cfg_env \<Rightarrow> cfg_env" where
  "cfg_set_ignore_unknown_sections ignore env = env\<lparr>ce_ignore_unknown := ignore\<rparr>"

definition or_abort :: "unit proc" where
  "or_abort a = (let (ok, a) = malloc_ok a in Some (if ok then Done () else Exit ABORTED, a))"

definition cfg_add_callback ::
    "string ptr \<Rightarrow> string ptr \<Rightarrow> nat ptr \<Rightarrow> cfg_env \<Rightarrow> (bool \<times> cfg_env) proc" where
  "cfg_add_callback path section cb env =
     (case (section, cb) of
        (Some s, Some f) \<Rightarrow>
          andthen or_abort (\<lambda>_.
          andthen (if path = NULL then ret () else or_abort) (\<lambda>_.
          andthen or_abort (\<lambda>_.
          ret (True, env\<lparr>ce_callbacks :=
            ce_callbacks env @ [\<lparr>cb_section = s, cb_path = path, cb_callback = f\<rparr>]\<rparr>))))
      | _ \<Rightarrow> ret (False, env))"

definition cb_matches :: "cfg_env \<Rightarrow> string \<Rightarrow> string \<Rightarrow> cfg_cb \<Rightarrow> bool" where
  "cb_matches env path section cb \<longleftrightarrow>
     ce_fnmatch env (cb_section cb) section \<and>
     (case cb_path cb of None \<Rightarrow> True | Some p \<Rightarrow> ce_fnmatch env p path)"

fun dispatch_loop ::
    "cfg_env \<Rightarrow> string \<Rightarrow> int \<Rightarrow> string \<Rightarrow> string \<Rightarrow> cfg_cb list \<Rightarrow> bool \<Rightarrow> dict ptr \<Rightarrow>
     (bool \<times> dict ptr) proc" where
  "dispatch_loop env path line section buf [] matched d = ret (matched, d)"
| "dispatch_loop env path line section buf (cb # cbs) matched d =
     (if \<not> cb_matches env path section cb then dispatch_loop env path line section buf cbs matched d
      else andthen (ce_call env (cb_callback cb) path line section buf d) (\<lambda>(ok, d).
        if \<not> ok then ret (False, d) else dispatch_loop env path line section buf cbs True d))"

definition cfg_dispatch_callback where
  "cfg_dispatch_callback env path line section buf d =
     dispatch_loop env path line section buf (ce_callbacks env) False d"

subsection \<open>Merging an included file\<close>

text \<open>A dictionary operation as a step of a procedure.\<close>

definition dict_call :: "(alloc \<Rightarrow> (int \<times> dict ptr \<times> alloc) comp) \<Rightarrow> (int \<times> dict ptr) proc" where
  "dict_call f a = do { (r, d, a) \<leftarrow> f a; Some (Done (r, d), a) }"

text \<open>True means failure.\<close>

definition cfg_merge_dict :: "dict ptr \<Rightarrow> dict ptr \<Rightarrow> (bool \<times> dict ptr) proc" where
  "cfg_merge_dict dst src = andthen (dict_call (dict_merge dst src)) (\<lambda>(r, d). ret (r \<noteq> 0, d))"

subsection \<open>Include lines\<close>

definition cut_last :: "char \<Rightarrow> string \<Rightarrow> string" where
  "cut_last q s = (if q \<in> set s then rev (tl (dropWhile (\<lambda>c. c \<noteq> q) (rev s))) else s)"

text \<open>Whether a line is an include, whether it is optional, and the path it names.\<close>

definition include_line :: "string \<Rightarrow> (bool \<times> string) option" where
  "include_line skip =
     (let word = strcasecmp_eq (take 7 (tl skip)) ''include'';
          optional = (skip \<noteq> [] \<and> hd skip = CHR ''!'' \<and> word);
          mandatory = (skip \<noteq> [] \<and> hd skip = CHR ''.'' \<and> word);
          rest = drop 8 skip
      in if (optional \<or> mandatory) \<and> (rest = [] \<or> is_blank (hd rest) \<or> hd rest = CHR ''='')
         then let p = dropWhile (\<lambda>c. is_blank c \<or> c = CHR ''='') rest
           in Some (optional,
                if p \<noteq> [] \<and> hd p \<in> {CHR 0x22, CHR 0x27} then cut_last (hd p) (tl p) else p)
         else None)"

text \<open>\<open>dirname\<close> of the C library.\<close>

definition is_slash :: "char \<Rightarrow> bool" where
  "is_slash c \<longleftrightarrow> c = CHR ''/''"

definition dirname :: "string \<Rightarrow> string" where
  "dirname path =
     (let stem = rtrim is_slash path;
          up = (if stem = [] then path else rtrim (\<lambda>c. \<not> is_slash c) stem);
          dir = rtrim is_slash up
      in if up = [] then ''.''
         else if dir = [] then (if length up = 2 then ''//'' else ''/'')
         else dir)"

abbreviation (input) PATH_MAX :: nat where "PATH_MAX \<equiv> 4096"

definition include_resolve :: "string \<Rightarrow> string \<Rightarrow> string" where
  "include_resolve path include_path =
     take (PATH_MAX - 1)
       (if include_path \<noteq> [] \<and> hd include_path = CHR ''/'' then include_path
        else dirname (take (PATH_MAX - 1) path) @ ''/'' @ include_path)"

subsection \<open>The state of a load\<close>

record load_state =
  ls_section :: string
  ls_errors :: int
  ls_cfg :: "dict ptr"

definition cfg_error :: "load_state \<Rightarrow> load_state" where
  "cfg_error st = st\<lparr>ls_errors := ls_errors st + 1\<rparr>"

text \<open>A problem with an include: counted when it is optional, the end of the process otherwise.\<close>

definition include_problem :: "bool \<Rightarrow> load_state \<Rightarrow> load_state proc" where
  "include_problem optional st a =
     Some (if optional then Done (cfg_error st) else Exit EXIT_FAILURE, a)"

text \<open>\<open>load\<close> is the recursive call, \<open>NULL\<close> when the depth limit is reached.\<close>

definition cfg_include ::
    "cfg_env \<Rightarrow> (string \<Rightarrow> dict ptr proc) ptr \<Rightarrow> string \<Rightarrow> bool \<Rightarrow> string \<Rightarrow> load_state \<Rightarrow> load_state proc"
    where
  "cfg_include env load path optional include_path st =
     (if include_path = [] then include_problem optional st
      else case load of
        None \<Rightarrow> include_problem optional st
      | Some ld \<Rightarrow>
          (let resolved = include_resolve path include_path
           in if \<not> ce_exists env resolved then
                (if optional then ret st else include_problem optional st)
              else andthen (ld resolved) (\<lambda>included.
                case included of
                  None \<Rightarrow> include_problem optional st
                | Some _ \<Rightarrow>
                    andthen (cfg_merge_dict (ls_cfg st) included) (\<lambda>(failed, d).
                      if failed then include_problem optional (st\<lparr>ls_cfg := d\<rparr>)
                      else ret (st\<lparr>ls_cfg := d\<rparr>)))))"

subsection \<open>Settings\<close>

definition split_setting :: "string \<Rightarrow> (string \<times> string) option" where
  "split_setting skip =
     (if CHR ''='' \<in> set skip then
        Some (takeWhile (\<lambda>c. c \<noteq> CHR ''='') skip,
              dropWhile is_blank (tl (dropWhile (\<lambda>c. c \<noteq> CHR ''='') skip)))
      else None)"

text \<open>A setting of \<open>[general]\<close>.\<close>

definition cfg_general :: "string \<Rightarrow> load_state \<Rightarrow> load_state proc" where
  "cfg_general skip st =
     (case split_setting skip of
        None \<Rightarrow> ret st
      | Some (key, val) \<Rightarrow>
          (let key = rtrim is_blank key;
               val = (if cfg_formatting_key key then cfg_expand_format_escapes val else val)
           in andthen (dict_call (dict_add (ls_cfg st) (Some key) (Some val))) (\<lambda>(r, d).
                ret (let st = st\<lparr>ls_cfg := d\<rparr> in if r \<noteq> 0 then cfg_error st else st))))"

abbreviation (input) FULLKEY :: nat where "FULLKEY \<equiv> 256"

text \<open>Storing under a composed key; the result of \<open>dict_add\<close> is not looked at.\<close>

definition store_fullkey :: "string \<Rightarrow> string \<Rightarrow> load_state \<Rightarrow> load_state proc" where
  "store_fullkey fullkey val st =
     andthen (dict_call (dict_add (ls_cfg st) (Some fullkey) (Some val))) (\<lambda>(r, d).
       ret (st\<lparr>ls_cfg := d\<rparr>))"

definition is_theme :: "string \<Rightarrow> bool" where
  "is_theme section \<longleftrightarrow> strcasecmp_eq (take 6 section) ''theme:''"

definition is_server :: "string \<Rightarrow> bool" where
  "is_server section \<longleftrightarrow> strcasecmp_eq (take 7 section) ''server:''"

definition cfg_named_section :: "string \<Rightarrow> load_state \<Rightarrow> load_state proc" where
  "cfg_named_section skip st =
     (case split_setting skip of
        None \<Rightarrow> ret st
      | Some (key, val) \<Rightarrow>
          (let theme = is_theme (ls_section st);
               fullkey = (if theme then ''theme:'' else ''server:'');
               fullkey = append_within FULLKEY fullkey (drop (if theme then 6 else 7) (ls_section st));
               fullkey = append_within FULLKEY fullkey ''.'';
               fullkey = append_within FULLKEY fullkey key
           in store_fullkey fullkey val st))"

text \<open>The sections \<open>[callsign-lookup]\<close> and \<open>[site]\<close>.\<close>

definition cfg_prefix_section :: "string \<Rightarrow> string \<Rightarrow> load_state \<Rightarrow> load_state proc" where
  "cfg_prefix_section prefix skip st =
     (case split_setting skip of
        None \<Rightarrow> ret st
      | Some (key, val) \<Rightarrow>
          (let key = rtrim is_blank key
           in if key = [] then ret st
              else store_fullkey (append_within FULLKEY prefix key) val st))"

text \<open>A section left to the callbacks.\<close>

definition cfg_callback_section ::
    "cfg_env \<Rightarrow> string \<Rightarrow> int \<Rightarrow> string \<Rightarrow> load_state \<Rightarrow> load_state proc" where
  "cfg_callback_section env path line buf st =
     (if list_ex (cb_matches env path (ls_section st)) (ce_callbacks env) then
        andthen (cfg_dispatch_callback env path line (ls_section st) buf (ls_cfg st)) (\<lambda>(ok, d).
          ret (let st = st\<lparr>ls_cfg := d\<rparr> in if ok then st else cfg_error st))
      else ret (if ce_ignore_unknown env then st else cfg_error st))"

definition cfg_setting ::
    "cfg_env \<Rightarrow> string \<Rightarrow> int \<Rightarrow> string \<Rightarrow> string \<Rightarrow> load_state \<Rightarrow> load_state proc" where
  "cfg_setting env path line lead skip st =
     (let section = ls_section st
      in if section = [] then ret (cfg_error st)
         else if strcasecmp_eq section ''general'' then cfg_general skip st
         else if is_server section \<or> is_theme section then cfg_named_section skip st
         else if strcasecmp_eq section ''callsign-lookup'' then
           cfg_prefix_section ''callsign-lookup:'' skip st
         else if strcasecmp_eq section ''site'' then cfg_prefix_section ''site:'' skip st
         else cfg_callback_section env path line (lead @ skip) st)"

subsection \<open>Lines and files\<close>

text \<open>An orphaned line of a documentation header.\<close>

definition star_line :: "string \<Rightarrow> bool" where
  "star_line skip \<longleftrightarrow>
     skip \<noteq> [] \<and> hd skip = CHR ''*'' \<and> tl skip \<noteq> [] \<and>
     (hd (tl skip) = CHR ''/'' \<or> isspace (hd (tl skip)))"

definition cfg_line ::
    "cfg_env \<Rightarrow> (string \<Rightarrow> dict ptr proc) ptr \<Rightarrow> string \<Rightarrow> int \<Rightarrow> bool \<times> string \<times> string \<Rightarrow>
     load_state \<Rightarrow> load_state proc" where
  "cfg_line env load path line l st =
     (case l of (escaped_comment, lead, skip) \<Rightarrow>
        if ls_section st = [] \<and> star_line skip then ret st
        else if \<not> escaped_comment \<and> comment_start skip then ret st
        else case include_line skip of
          Some (optional, include_path) \<Rightarrow> cfg_include env load path optional include_path st
        | None \<Rightarrow>
            if skip \<noteq> [] \<and> hd skip = CHR ''['' \<and> last skip = CHR '']'' then
              ret (st\<lparr>ls_section := take 127 (butlast (tl skip))\<rparr>)
            else cfg_setting env path line lead skip st)"

lemma read_logical_progress:
  "read_logical in_comment line fp = Some (text, in_comment', fp', line') \<Longrightarrow> length fp' < length fp"
proof -
  have cont: "length (fst (snd (cont_loop buf fp line))) \<le> length fp" for buf fp line
  proof (induction buf fp line rule: cont_loop.induct)
    case (1 buf fp line)
    show ?case
      using "1.IH" fgets_progress [of 32766 fp]
      by (subst cont_loop.simps) (fastforce simp: Let_def split: option.split)
  qed
  assume "read_logical in_comment line fp = Some (text, in_comment', fp', line')"
  then obtain raw fp1 where g: "fgets (Suc (Suc 32765)) fp = Some (raw, fp1)"
    and le: "fp' = fp1 \<or> (\<exists>buf l x y. cont_loop buf fp1 l = (x, fp', y))"
    by (auto simp: read_logical_def Let_def split: option.splits if_splits prod.splits)
  from le have "length fp' \<le> length fp1" using cont by (metis fst_conv le_refl snd_conv)
  with fgets_progress [OF g] show ?thesis by simp
qed

function load_loop ::
    "cfg_env \<Rightarrow> (string \<Rightarrow> dict ptr proc) ptr \<Rightarrow> string \<Rightarrow> bool \<Rightarrow> int \<Rightarrow> string \<Rightarrow> load_state \<Rightarrow>
     load_state proc" where
  "load_loop env load path in_comment line fp st =
     (case read_logical in_comment line fp of
        None \<Rightarrow> ret st
      | Some (text, in_comment', fp', line') \<Rightarrow>
          andthen (case text of None \<Rightarrow> ret st | Some l \<Rightarrow> cfg_line env load path line' l st)
            (\<lambda>st. load_loop env load path in_comment' line' fp' st))"
  by pat_completeness auto
termination
  by (relation "measure (\<lambda>(env, load, path, in_comment, line, fp, st). length fp)")
    (auto dest: read_logical_progress)

declare load_loop.simps [simp del]

definition cfg_load_file ::
    "cfg_env \<Rightarrow> (string \<Rightarrow> dict ptr proc) ptr \<Rightarrow> string \<Rightarrow> dict ptr proc" where
  "cfg_load_file env load path a =
     (if \<not> ce_exists env path then Some (Done NULL, a)
      else case dict_new a of
        (None, a) \<Rightarrow> Some (Exit EXIT_FAILURE, a)
      | (Some newcfg, a) \<Rightarrow>
          (case ce_text env path of
             None \<Rightarrow> Some (Done NULL, a)
           | Some fp \<Rightarrow>
               andthen (load_loop env load path False 0 fp
                          \<lparr>ls_section = [], ls_errors = 0, ls_cfg = Some newcfg\<rparr>)
                 (\<lambda>st. ret (ls_cfg st)) a))"

text \<open>\<open>n\<close> more levels of includes are allowed: \<open>depth\<close> of the source is \<open>4 - n\<close>.\<close>

primrec cfg_load_level :: "cfg_env \<Rightarrow> nat \<Rightarrow> string \<Rightarrow> dict ptr proc" where
  "cfg_load_level env 0 = cfg_load_file env NULL"
| "cfg_load_level env (Suc n) = cfg_load_file env (Some (cfg_load_level env n))"

definition cfg_load_depth :: "cfg_env \<Rightarrow> string \<Rightarrow> nat \<Rightarrow> dict ptr proc" where
  "cfg_load_depth env path depth = cfg_load_level env (4 - depth) path"

definition cfg_load :: "cfg_env \<Rightarrow> string \<Rightarrow> dict ptr proc" where
  "cfg_load env path = cfg_load_depth env path 0"

end
