(* ===== verification/Config_Lines.thy ===== *)
theory Config_Lines
  imports Config_Text
begin

text \<open>
  Reading back what \<open>cfg_write_wrapped\<close> wrote: the lemmas on trimming and reading, the
  join of continuation lines, and the line the loader classifies.
\<close>

subsection \<open>Trimming\<close>

lemma rtrim_snoc [simp]: "rtrim P (s @ [c]) = (if P c then rtrim P s else s @ [c])"
  by (simp add: rtrim_def)

lemma rtrim_Nil [simp]: "rtrim P [] = []"
  by (simp add: rtrim_def)

lemma rtrim_id: "s = [] \<or> \<not> P (last s) \<Longrightarrow> rtrim P s = s"
  by (cases s rule: rev_cases) simp_all

lemma rtrim_all: "\<forall>c \<in> set s. P c \<Longrightarrow> rtrim P s = []"
  by (simp add: rtrim_def)

lemma blank_simps [simp]:
  "isspace SPACE" "isspace NEWLINE" "\<not> isspace BACKSLASH" "\<not> isspace (CHR ''='')"
  "\<not> is_blank BACKSLASH" "\<not> is_eol BACKSLASH" "is_eol NEWLINE" "is_blank SPACE"
  "\<not> is_eol (CHR ''='')" "\<not> is_blank (CHR ''='')"
  by (simp_all add: isspace_def is_blank_def is_eol_def)

lemma isspace_cover: "is_blank c \<Longrightarrow> isspace c" "is_eol c \<Longrightarrow> isspace c"
  by (auto simp: isspace_def is_blank_def is_eol_def)

subsection \<open>Reading a line\<close>

lemma get_line_whole:
  "NEWLINE \<notin> set l \<Longrightarrow> length l < n \<Longrightarrow> get_line n (l @ NEWLINE # r) = (l @ [NEWLINE], r)"
proof (induction l arbitrary: n)
  case Nil
  then show ?case by (cases n) auto
next
  case (Cons c l)
  then obtain m where "n = Suc m" by (cases n) auto
  with Cons show ?case by auto
qed

lemma fgets_whole:
  assumes "NEWLINE \<notin> set l" and "cstr l" and "length l + 2 \<le> n"
  shows "fgets n (l @ NEWLINE # r) = Some (l @ [NEWLINE], r)"
proof -
  have "takeWhile (\<lambda>c. c \<noteq> NUL) (l @ [NEWLINE]) = l @ [NEWLINE]"
    using assms(2) by (subst takeWhile_eq_all_conv) (auto simp: cstr_def)
  then show ?thesis using assms get_line_whole [of l "n - 1" r] by (auto simp: fgets_def)
qed

subsection \<open>Wrapped lines\<close>

text \<open>A character that the line reader keeps wherever it stands in a value.\<close>

definition solid :: "char \<Rightarrow> bool" where
  "solid c \<longleftrightarrow> \<not> isspace c \<and> c \<noteq> BACKSLASH \<and> c \<noteq> NUL"

lemma solidD: "solid c \<Longrightarrow> c \<noteq> NEWLINE \<and> c \<noteq> SPACE \<and> \<not> is_blank c \<and> \<not> is_eol c"
  using isspace_cover [of c] by (auto simp: solid_def)

lemma solid_list: "\<forall>c \<in> set s. solid c \<Longrightarrow> NEWLINE \<notin> set s \<and> cstr s"
  using solidD by (auto simp: solid_def cstr_def)

lemma dropWhile_indent:
  "t \<noteq> [] \<Longrightarrow> \<not> isspace (hd t) \<Longrightarrow> dropWhile isspace (replicate n SPACE @ t) = t"
  by (induction n) (cases t, auto)

text \<open>The loop after a chunk that ends in a backslash, when the next line is \<open>cont\<close>.\<close>

lemma cont_loop_joins:
  assumes buf: "buf \<noteq> []" "solid (last buf)"
    and cont: "cont \<noteq> []" "\<not> isspace (hd cont)" "\<not> isspace (last cont)" "NEWLINE \<notin> set cont" "cstr cont"
    and fits: "indent + length cont + 2 \<le> CFG_BUF" "length buf + length cont < CFG_BUF"
  shows "cont_loop (buf @ [BACKSLASH]) (replicate indent SPACE @ cont @ NEWLINE # fp) line =
    cont_loop (buf @ cont) fp (line + 1)"
proof -
  have "fgets CFG_BUF ((replicate indent SPACE @ cont) @ NEWLINE # fp) =
      Some ((replicate indent SPACE @ cont) @ [NEWLINE], fp)"
    using cont fits by (intro fgets_whole) (auto simp: cstr_def)
  then have get: "fgets CFG_BUF (replicate indent SPACE @ cont @ NEWLINE # fp) =
      Some (replicate indent SPACE @ cont @ [NEWLINE], fp)" by simp
  have trim: "rtrim isspace (dropWhile isspace (replicate indent SPACE @ cont @ [NEWLINE])) = cont"
    using cont rtrim_id [of cont isspace] by (subst dropWhile_indent) (auto simp flip: append_assoc)
  have app: "append_within CFG_BUF buf cont = buf @ cont"
    using fits by (simp add: append_within_def)
  have last: "(buf @ [BACKSLASH]) ! (length (buf @ [BACKSLASH]) - 2) = last buf"
    using buf(1) by (simp add: nth_append last_conv_nth numeral_2_eq_2)
  show ?thesis
    using buf solidD [OF buf(2)] last
    by (subst cont_loop.simps) (simp add: Let_def get trim app rtrim_id)
qed

lemma cont_loop_ends:
  assumes "buf \<noteq> []" "\<not> isspace (last buf)" "last buf \<noteq> BACKSLASH"
  shows "cont_loop buf fp line = (buf, fp, line)"
proof -
  have "rtrim is_blank (rtrim is_eol buf) = buf"
    using assms isspace_cover [of "last buf"] by (metis rtrim_id)
  then show ?thesis using assms(3) by (subst cont_loop.simps) (simp add: Let_def)
qed

lemma wrap_lines_last:
  "length str \<le> capacity \<or> length str \<le> 1 \<Longrightarrow> wrap_lines indent capacity str = str @ [NEWLINE]"
  by (auto simp: wrap_lines.simps [of indent capacity str])

lemma wrap_lines_more:
  assumes "capacity < length str" and "1 < length str"
  obtains chunk where "0 < chunk" and "chunk < length str"
    and "wrap_lines indent capacity str =
      take chunk str @ [BACKSLASH, NEWLINE] @ replicate indent SPACE @
      wrap_lines indent capacity (drop chunk str)"
proof (rule that)
  let ?chunk = "if capacity > 1 then capacity - 1 else 1"
  show "0 < ?chunk" and "?chunk < length str" using assms by auto
  then show "wrap_lines indent capacity str =
      take ?chunk str @ [BACKSLASH, NEWLINE] @ replicate indent SPACE @
      wrap_lines indent capacity (drop ?chunk str)"
    using assms(1) by (subst wrap_lines.simps) (simp add: Let_def)
qed

lemma wrap_lines_joins:
  assumes "str \<noteq> []" and "\<forall>c \<in> set str. solid c" and "buf \<noteq> []" and "solid (last buf)"
    and "indent + length str + 2 \<le> CFG_BUF" and "length buf + length str + 1 < CFG_BUF"
  shows "\<exists>line'. cont_loop (buf @ [BACKSLASH]) (replicate indent SPACE @
      wrap_lines indent capacity str @ fp) line = (buf @ str, fp, line')"
  using assms
proof (induction "length str" arbitrary: str buf line rule: less_induct)
  case less
  note ok = solid_list [OF less.prems(2)]
  have sol: "solid (hd str)" "solid (last str)" using less.prems(1,2) by auto
  show ?case
  proof (cases "length str \<le> capacity \<or> length str \<le> 1")
    case True
    have "cont_loop (buf @ [BACKSLASH]) (replicate indent SPACE @ str @ NEWLINE # fp) line =
        (buf @ str, fp, line + 1)"
      using less.prems ok sol
      by (subst cont_loop_joins) (auto simp: cont_loop_ends solid_def)
    with wrap_lines_last [OF True] show ?thesis by simp
  next
    case False
    then obtain chunk where More: "0 < chunk" "chunk < length str"
      "wrap_lines indent capacity str =
         take chunk str @ [BACKSLASH, NEWLINE] @ replicate indent SPACE @
         wrap_lines indent capacity (drop chunk str)"
      by (metis not_le wrap_lines_more)
    let ?c = "take chunk str" and ?d = "drop chunk str"
    have c: "?c \<noteq> []" "hd ?c = hd str" "solid (last ?c)" "NEWLINE \<notin> set ?c" "cstr ?c"
      using More less.prems(1,2) ok in_set_takeD [of _ chunk str]
      by (auto simp: cstr_def intro: last_in_set)
    have "cont_loop (buf @ [BACKSLASH]) (replicate indent SPACE @ (?c @ [BACKSLASH]) @ NEWLINE #
        (replicate indent SPACE @ wrap_lines indent capacity ?d @ fp)) line =
        cont_loop (buf @ ?c @ [BACKSLASH]) (replicate indent SPACE @ wrap_lines indent capacity ?d @ fp) (line + 1)"
      using less.prems c More(1,2) sol(1) by (intro cont_loop_joins) (auto simp: solid_def)
    moreover have "\<exists>line'. cont_loop ((buf @ ?c) @ [BACKSLASH]) (replicate indent SPACE @
        wrap_lines indent capacity ?d @ fp) (line + 1) = ((buf @ ?c) @ ?d, fp, line')"
      using More less.prems c in_set_dropD [of _ chunk str] by (intro less.hyps) auto
    ultimately show ?thesis using More(3) by simp
  qed
qed

subsection \<open>Block comments\<close>

fun block_free :: "string \<Rightarrow> bool" where
  "block_free [] \<longleftrightarrow> True"
| "block_free (c # s) \<longleftrightarrow> \<not> (c = CHR ''/'' \<and> s \<noteq> [] \<and> hd s = CHR ''*'') \<and> block_free s"

lemma block_free_tl: "block_free s \<Longrightarrow> block_free (tl s)"
  by (cases s) auto

lemma strip_comments_id: "block_free s \<Longrightarrow> strip_comments False quote s = (s, False)"
proof (induction s arbitrary: quote rule: length_induct)
  case (1 s)
  then have IH: "strip_comments False q t = (t, False)" if "length t < length s" "block_free t" for q t
    using that by blast
  show ?case
  proof (cases s)
    case (Cons c t)
    have "strip_comments False q t = (t, False)" "strip_comments False q (tl t) = (tl t, False)" for q
      using Cons 1(2) block_free_tl [of t] by (auto intro!: IH)
    then show ?thesis using Cons 1(2) by (auto simp: Let_def split: option.split)
  qed simp
qed

subsection \<open>One setting\<close>

text \<open>
  A key and a value that one line can carry: the key is solid and does not look like a
  comment, the value has no white space at its ends and either fits on the first line or
  needs no white space at all.
\<close>

definition plain_key :: "string \<Rightarrow> bool" where
  "plain_key key \<longleftrightarrow> key \<noteq> [] \<and> (\<forall>c \<in> set key. solid c \<and> c \<noteq> CHR ''='') \<and> \<not> comment_start key"

definition plain_value :: "string \<Rightarrow> string \<Rightarrow> bool" where
  "plain_value key v \<longleftrightarrow>
     NEWLINE \<notin> set v \<and> BACKSLASH \<notin> set v \<and> cstr v \<and>
     (v \<noteq> [] \<longrightarrow> \<not> isspace (hd v) \<and> \<not> isspace (last v)) \<and>
     (length key + 1 + length v \<le> 80 \<or> (\<forall>c \<in> set v. solid c)) \<and>
     block_free (key @ ''='' @ v) \<and> length key + length v + 5 \<le> CFG_BUF"

lemma plain_keyD:
  assumes "plain_key key"
  shows "key \<noteq> []" "solid (hd key)" "NEWLINE \<notin> set key" "BACKSLASH \<notin> set key" "cstr key"
    "CHR ''='' \<notin> set key" "\<not> isspace (hd key)"
  using assms solid_list [of key] hd_in_set [of key] by (auto simp: plain_key_def solid_def)

text \<open>A buffer without comments and escapes is its own logical line.\<close>

lemma logical_line_plain:
  assumes "buf \<noteq> []" "\<not> isspace (hd buf)" "\<not> isspace (last buf)" "hd buf \<noteq> BACKSLASH"
    "\<not> comment_start buf" "block_free buf"
  shows "logical_line False 0 buf = (Some (False, [], buf), False)"
proof -
  have "unescape_line 0 buf = (False, buf)"
    using assms(4) by (simp add: unescape_line_def escapes_comment_def)
  moreover have "takeWhile isspace buf = []" "dropWhile isspace buf = buf"
    using assms(1,2) by (cases buf; simp)+
  ultimately show ?thesis
    using assms by (simp add: logical_line_def Let_def strip_comments_id rtrim_id)
qed

lemma logical_line_setting:
  assumes k: "plain_key key" and v: "plain_value key v"
  shows "logical_line False 0 (key @ ''='' @ v) = (Some (False, [], key @ ''='' @ v), False)"
proof (rule logical_line_plain)
  note kd = plain_keyD [OF k]
  show "\<not> isspace (hd (key @ ''='' @ v))" "hd (key @ ''='' @ v) \<noteq> BACKSLASH"
    using kd by (auto simp: solid_def)
  show "\<not> comment_start (key @ ''='' @ v)"
    using k by (cases key; cases "tl key") (auto simp: comment_start_def plain_key_def)
  show "\<not> isspace (last (key @ ''='' @ v))" "block_free (key @ ''='' @ v)"
    using v by (auto simp: plain_value_def)
qed simp

text \<open>The first line of a written setting is \<open>head\<close>; the rest is left to the continuation loop.\<close>

lemma read_logical_head:
  assumes head: "NEWLINE \<notin> set head" "cstr head" "head \<noteq> []" "\<not> isspace (hd head)" "\<not> isspace (last head)"
      "length head + 2 \<le> CFG_BUF - 1"
    and loop: "cont_loop head fp (line + 1) = (buf, fp', line')"
  shows "read_logical False line (head @ NEWLINE # fp) =
    (let (l, ic) = logical_line False 0 buf in Some (l, ic, fp', line'))"
proof -
  have get: "fgets (CFG_BUF - 1) (head @ NEWLINE # fp) = Some (head @ [NEWLINE], fp)"
    using head by (intro fgets_whole) auto
  have k: "takeWhile isspace (head @ [NEWLINE]) = []" using head(3,4) by (cases head) auto
  have buf: "rtrim (\<lambda>c. is_eol c \<or> is_blank c) head = head"
    using head(5) isspace_cover [of "last head"] rtrim_id [of head "\<lambda>c. is_eol c \<or> is_blank c"] by auto
  have "drop 0 head \<noteq> []" using head(3) by simp
  then show ?thesis
    unfolding read_logical_def get by (simp add: Let_def k buf loop split: prod.split)
qed

theorem read_wrapped:
  assumes k: "plain_key key" and v: "plain_value key v"
  shows "\<exists>line'. read_logical False line (cfg_write_wrapped key (Some v) @ fp) =
    Some (Some (False, [], key @ ''='' @ v), False, fp, line')"
proof -
  define indent where "indent = length key + 1"
  define capacity where "capacity = (if indent < 80 then 80 - indent else 1)"
  note kd = plain_keyD [OF k] and vd = v [unfolded plain_value_def]
  have written: "cfg_write_wrapped key (Some v) = key @ ''='' @ wrap_lines indent capacity v"
    by (simp add: cfg_write_wrapped_def indent_def capacity_def Let_def)
  have start: "hd (key @ ''='' @ t) = hd key" for t using kd by simp
  obtain head rest line' where layout: "cfg_write_wrapped key (Some v) = head @ NEWLINE # rest"
    and head: "NEWLINE \<notin> set head" "cstr head" "head \<noteq> []" "\<not> isspace (hd head)" "\<not> isspace (last head)"
      "length head + 2 \<le> CFG_BUF - 1"
    and loop: "cont_loop head (rest @ fp) (line + 1) = (key @ ''='' @ v, fp, line')"
  proof (cases "length v \<le> capacity \<or> length v \<le> 1")
    case True
    have "v \<noteq> [] \<Longrightarrow> last v \<noteq> BACKSLASH" using vd last_in_set [of v] by metis
    then have "last (key @ ''='' @ v) \<noteq> BACKSLASH" "\<not> isspace (last (key @ ''='' @ v))"
      using vd by auto
    then show ?thesis
      using that [of "key @ ''='' @ v" "[]" "line + 1"] wrap_lines_last [OF True] written kd vd start
      by (auto simp: cont_loop_ends)
  next
    case False
    then have solid: "\<forall>c \<in> set v. solid c" using vd by (auto simp: capacity_def indent_def)
    obtain chunk where chunk: "0 < chunk" "chunk < length v"
      "wrap_lines indent capacity v = take chunk v @ [BACKSLASH, NEWLINE] @ replicate indent SPACE @
         wrap_lines indent capacity (drop chunk v)"
      using False wrap_lines_more [of capacity v indent] by (metis not_le)
    let ?b = "key @ ''='' @ take chunk v"
    have b: "solid (last ?b)" "NEWLINE \<notin> set ?b" "cstr ?b" "hd (?b @ [BACKSLASH]) = hd key"
      using chunk solid kd vd in_set_takeD [of _ chunk v] last_in_set [of "take chunk v"]
      by (auto simp: cstr_def)
    have "\<exists>l. cont_loop (?b @ [BACKSLASH]) (replicate indent SPACE @
        wrap_lines indent capacity (drop chunk v) @ fp) (line + 1) = (?b @ drop chunk v, fp, l)"
      using chunk solid b vd in_set_dropD [of _ chunk v]
      by (intro wrap_lines_joins) (auto simp: indent_def)
    then obtain l where "cont_loop (?b @ [BACKSLASH]) (replicate indent SPACE @
        wrap_lines indent capacity (drop chunk v) @ fp) (line + 1) = (key @ ''='' @ v, fp, l)"
      by auto
    then show ?thesis
      using that [of "?b @ [BACKSLASH]" "replicate indent SPACE @ wrap_lines indent capacity (drop chunk v)"]
        written chunk b kd vd by auto
  qed
  show ?thesis
    using read_logical_head [OF head loop] logical_line_setting [OF k v] layout by simp
qed

end
