(* ===== verification/Config_Save.thy ===== *)
theory Config_Save
  imports Config_Lines Dict_Contract Util_Mem
begin

text \<open>
  Saving a configuration (\<open>config.c\<close>): the registry of save callbacks, the selection and
  the order of the entries, the layout of the sections, and \<open>cfg_save\<close> with its backup of
  the previous file. A file system is a map from paths to texts; whether a \<open>rename\<close> or an
  \<open>fopen\<close> succeeds is given by the environment. \<open>qsort\<close> is an insertion sort: the keys of
  a dictionary are distinct and the comparison separates distinct keys, so the sorted order
  is unique.
\<close>

subsection \<open>Save callbacks\<close>

record cfg_save_cb_entry =
  sc_name :: "string ptr"
  sc_callback :: nat
  sc_owns_key :: "nat ptr"

type_synonym save_cbs = "cfg_save_cb_entry list"

definition cfg_add_save_callback :: "string ptr \<Rightarrow> nat ptr \<Rightarrow> save_cbs \<Rightarrow> (bool \<times> save_cbs) proc" where
  "cfg_add_save_callback name callback cbs =
     (case callback of
        None \<Rightarrow> ret (False, cbs)
      | Some f \<Rightarrow>
          if list_ex (\<lambda>cb. sc_callback cb = f) cbs then ret (False, cbs)
          else (\<lambda>a. let (ok, a) = malloc_ok a
            in Some (if ok then Done (True, cbs @ [\<lparr>sc_name = name, sc_callback = f, sc_owns_key = NULL\<rparr>])
                     else Exit ABORTED, a)))"

fun set_owner :: "nat \<Rightarrow> nat ptr \<Rightarrow> save_cbs \<Rightarrow> bool \<times> save_cbs" where
  "set_owner f owns [] = (False, [])"
| "set_owner f owns (cb # cbs) =
     (if sc_callback cb = f then (True, cb\<lparr>sc_owns_key := owns\<rparr> # cbs)
      else let (r, cbs) = set_owner f owns cbs in (r, cb # cbs))"

definition cfg_add_owned_save_callback ::
    "string ptr \<Rightarrow> nat ptr \<Rightarrow> nat ptr \<Rightarrow> save_cbs \<Rightarrow> (bool \<times> save_cbs) proc" where
  "cfg_add_owned_save_callback name callback owns cbs =
     (if owns = NULL then ret (False, cbs)
      else andthen (cfg_add_save_callback name callback cbs) (\<lambda>(ok, cbs).
        ret (if \<not> ok then (False, cbs) else set_owner (the callback) owns cbs)))"

fun remove_callback :: "nat \<Rightarrow> save_cbs \<Rightarrow> bool \<times> save_cbs" where
  "remove_callback f [] = (False, [])"
| "remove_callback f (cb # cbs) =
     (if sc_callback cb = f then (True, cbs)
      else let (r, cbs) = remove_callback f cbs in (r, cb # cbs))"

definition cfg_remove_save_callback :: "nat ptr \<Rightarrow> save_cbs \<Rightarrow> bool \<times> save_cbs" where
  "cfg_remove_save_callback callback cbs =
     (case callback of None \<Rightarrow> (False, cbs) | Some f \<Rightarrow> remove_callback f cbs)"

text \<open>
  What saving finds outside: the defaults, the callbacks with their effect (whether they
  succeed and the text they write) and their ownership filters, the date, and the outcome of
  the system calls.
\<close>

record save_env =
  se_default :: "dict ptr"
  se_callbacks :: save_cbs
  se_call :: "nat \<Rightarrow> string \<Rightarrow> bool \<times> string"
  se_owns :: "nat \<Rightarrow> string \<Rightarrow> bool"
  se_date :: "nat \<times> nat \<times> nat"
  se_rename_ok :: bool
  se_open_ok :: bool

text \<open>All callbacks run, even after one failed; the result is the text they write.\<close>

definition cfg_run_save_callbacks :: "save_env \<Rightarrow> string \<Rightarrow> bool \<times> string" where
  "cfg_run_save_callbacks env path =
     (let rs = map (\<lambda>cb. se_call env (sc_callback cb) path) (se_callbacks env)
      in (list_all fst rs, concat (map snd rs)))"

subsection \<open>Selecting and ordering entries\<close>

type_synonym save_entry = "string \<times> string ptr"

definition cfg_save_entry_is_skipped :: "save_env \<Rightarrow> string \<Rightarrow> bool" where
  "cfg_save_entry_is_skipped env key \<longleftrightarrow>
     take 7 key = ''server:'' \<or> take 8 key = ''network.'' \<or>
     list_ex (\<lambda>cb. case sc_owns_key cb of None \<Rightarrow> False | Some f \<Rightarrow> se_owns env f key) (se_callbacks env) \<or>
     key = ''ui.gtk.css''"

text \<open>The sign of \<open>strcmp\<close>, which compares bytes as unsigned.\<close>

fun strcmp :: "string \<Rightarrow> string \<Rightarrow> int" where
  "strcmp [] [] = 0"
| "strcmp [] (d # t) = - 1"
| "strcmp (c # s) [] = 1"
| "strcmp (c # s) (d # t) = (if c = d then strcmp s t else if code c < code d then - 1 else 1)"

definition strncmp :: "string \<Rightarrow> string \<Rightarrow> nat \<Rightarrow> int" where
  "strncmp s t n = strcmp (take n s) (take n t)"

abbreviation COLON :: char where "COLON \<equiv> CHR '':''"

definition section_len :: "string \<Rightarrow> nat" where
  "section_len key = length (takeWhile (\<lambda>c. c \<noteq> COLON) key)"

definition cfg_save_entry_compare :: "string \<Rightarrow> string \<Rightarrow> int" where
  "cfg_save_entry_compare a b =
     (if COLON \<notin> set a \<and> COLON \<in> set b then - 1
      else if COLON \<in> set a \<and> COLON \<notin> set b then 1
      else if COLON \<notin> set a \<and> COLON \<notin> set b then strcmp a b
      else let la = section_len a; lb = section_len b; common = min la lb;
               section_cmp = strncmp a b common
        in if section_cmp \<noteq> 0 then section_cmp
           else if la \<noteq> lb then (if la < lb then - 1 else 1)
           else strcmp (drop (la + 1) a) (drop (lb + 1) b))"

fun insert_entry :: "save_entry \<Rightarrow> save_entry list \<Rightarrow> save_entry list" where
  "insert_entry e [] = [e]"
| "insert_entry e (f # fs) =
     (if cfg_save_entry_compare (fst e) (fst f) \<le> 0 then e # f # fs else f # insert_entry e fs)"

definition qsort_entries :: "save_entry list \<Rightarrow> save_entry list" where
  "qsort_entries es = foldr insert_entry es []"

definition cfg_save_entry_same_section :: "string \<Rightarrow> string \<Rightarrow> nat \<Rightarrow> bool" where
  "cfg_save_entry_same_section key section len \<longleftrightarrow>
     COLON \<in> set key \<and> section_len key = len \<and> strncmp key section len = 0"

text \<open>The string a loop over \<open>dict_enumerate\<close> sees: \<open>NULL\<close> for every other type.\<close>

definition str_value :: "dict_value \<Rightarrow> string ptr" where
  "str_value v = (case v of V_str s \<Rightarrow> s | _ \<Rightarrow> NULL)"

definition dict_strings :: "dict ptr \<Rightarrow> save_entry list" where
  "dict_strings dp =
     (case dp of None \<Rightarrow> [] | Some d \<Rightarrow> map (\<lambda>(k, v). (k, str_value v)) (dict_items d 0))"

text \<open>
  Collecting into an array that doubles from 64 entries on; \<open>NULL\<close> when it cannot grow.
\<close>

fun collect_entries ::
    "save_entry list \<Rightarrow> nat \<Rightarrow> save_entry list \<Rightarrow> alloc \<Rightarrow> save_entry list ptr \<times> alloc" where
  "collect_entries [] cap es a = (Some es, a)"
| "collect_entries (kv # kvs) cap es a =
     (if length es = cap then
        let (ok, a) = malloc_ok a
        in if \<not> ok then (NULL, a)
           else collect_entries kvs (if cap \<noteq> 0 then cap * 2 else 64) (es @ [kv]) a
      else collect_entries kvs cap (es @ [kv]) a)"

subsection \<open>Layout\<close>

definition write_entries :: "nat \<Rightarrow> save_entry list \<Rightarrow> string" where
  "write_entries n es = concat (map (\<lambda>(k, v). cfg_write_wrapped (drop n k) v) es)"

text \<open>The loop over the entries behind the first one with a colon.\<close>

definition theme_dot :: "string \<Rightarrow> nat" where
  "theme_dot key = 6 + length (takeWhile (\<lambda>c. c \<noteq> CHR ''.'') (drop 6 key))"

function write_sections :: "save_entry list \<Rightarrow> string" where
  "write_sections [] = []"
| "write_sections ((key, v) # es) =
     (if COLON \<notin> set key then write_sections es
      else if take 6 key = ''theme:'' then
        (if CHR ''.'' \<notin> set (drop 6 key) then write_sections es
         else let n = theme_dot key + 1;
                  same = (\<lambda>(k, v). take n k = take n key)
           in [NEWLINE] @ ''[theme:'' @ take (n - 7) (drop 6 key) @ '']'' @ [NEWLINE] @
              write_entries n ((key, v) # takeWhile same es) @
              write_sections (dropWhile same es))
      else let n = section_len key;
               section_name = (if take n key = ''pipeline'' then ''pipelines'' else take n key);
               same = (\<lambda>(k, v). cfg_save_entry_same_section k key n)
        in [NEWLINE] @ ''['' @ section_name @ '']'' @ [NEWLINE] @
           write_entries (n + 1) ((key, v) # takeWhile same es) @
           write_sections (dropWhile same es))"
  by pat_completeness auto
termination
  by (relation "measure length") (auto simp: le_imp_less_Suc length_dropWhile_le)

declare write_sections.simps(2) [simp del]

subsection \<open>Server sections\<close>

fun strstr :: "string \<Rightarrow> string \<Rightarrow> nat ptr" where
  "strstr pat [] = (if pat = [] then Some 0 else NULL)"
| "strstr pat (c # s) =
     (if take (length pat) (c # s) = pat then Some 0 else map_option Suc (strstr pat s))"

definition has_suffix :: "string \<Rightarrow> string \<Rightarrow> bool" where
  "has_suffix s suf \<longleftrightarrow> length suf < length s \<and> drop (length s - length suf) s = suf"

text \<open>The length of the server name at the start of \<open>s\<close>, the key behind \<open>server:\<close>.\<close>

definition server_name_len :: "string \<Rightarrow> nat ptr" where
  "server_name_len s =
     (case strstr ''.server.'' s of
        Some n \<Rightarrow> Some n
      | None \<Rightarrow>
          if has_suffix s ''.autojoin.rig'' then Some (length s - length ''.autojoin.rig'')
          else if has_suffix s ''.autojoin'' then Some (length s - length ''.autojoin'')
          else if CHR ''.'' \<in> set s then Some (length (takeWhile (\<lambda>c. c \<noteq> CHR ''.'') s))
          else NULL)"

definition server_block :: "save_entry list \<Rightarrow> string \<Rightarrow> string" where
  "server_block items name =
     ''[server:'' @ name @ '']'' @ [NEWLINE] @
     concat (map (\<lambda>(k, v).
       if take 7 k = ''server:'' \<and> take (length name + 1) (drop 7 k) = name @ ''.''
       then cfg_write_wrapped (drop (7 + length name + 1) k) v else []) items) @ [NEWLINE]"

fun server_loop :: "save_entry list \<Rightarrow> save_entry list \<Rightarrow> dict ptr \<Rightarrow> alloc \<Rightarrow> (string \<times> alloc) comp" where
  "server_loop items [] seen a = Some ([], a)"
| "server_loop items ((key, v) # kvs) seen a =
     (case (if take 7 key = ''server:'' then server_name_len (drop 7 key) else NULL) of
        None \<Rightarrow> server_loop items kvs seen a
      | Some n \<Rightarrow>
          if 512 \<le> n then server_loop items kvs seen a
          else let name = take n (drop 7 key)
            in do {
                 found \<leftarrow> dict_get seen (Some name) NULL;
                 if found \<noteq> NULL then server_loop items kvs seen a
                 else do {
                   (_, seen, a) \<leftarrow> dict_add seen (Some name) (Some ''1'') a;
                   (rest, a) \<leftarrow> server_loop items kvs seen a;
                   Some (server_block items name @ rest, a)
                 }
               })"

definition cfg_print_servers :: "dict ptr \<Rightarrow> alloc \<Rightarrow> (string \<times> alloc) comp" where
  "cfg_print_servers dp a =
     (if dp = NULL then Some ([], a)
      else let (seen, a) = dict_new a in server_loop (dict_strings dp) (dict_strings dp) seen a)"

subsection \<open>Saving\<close>

type_synonym fs = "string \<rightharpoonup> string"

definition pad0 :: "nat \<Rightarrow> nat \<Rightarrow> string" where
  "pad0 n k = (let s = show_nat k in replicate (n - length s) (CHR ''0'') @ s)"

definition backup_name :: "save_env \<Rightarrow> string \<Rightarrow> nat \<Rightarrow> string" where
  "backup_name env path sequence =
     (case se_date env of (y, m, d) \<Rightarrow>
        path @ ''.'' @ pad0 4 y @ pad0 2 m @ pad0 2 d @ ''.'' @ pad0 2 sequence @ ''.cfg.old'')"

text \<open>
  The sequence numbers still to try, up to 99. The result is whether the old file was moved,
  and the file system.
\<close>

fun backup_loop :: "save_env \<Rightarrow> fs \<Rightarrow> string \<Rightarrow> nat list \<Rightarrow> bool \<times> fs" where
  "backup_loop env fs path [] = (False, fs)"
| "backup_loop env fs path (sequence # rest) =
     (let backup = backup_name env path sequence
      in if 4096 \<le> length backup then (False, fs)
         else if fs backup \<noteq> None then backup_loop env fs path rest
         else if se_rename_ok env then (True, fs(backup := fs path, path := None))
         else (False, fs))"

text \<open>The text \<open>cfg_save_values\<close> writes once its entries are collected.\<close>

definition save_layout ::
    "save_env \<Rightarrow> dict ptr \<Rightarrow> string \<Rightarrow> bool \<Rightarrow> save_entry list \<Rightarrow> alloc \<Rightarrow> (string \<times> alloc) comp" where
  "save_layout env d path full es a =
     (let es = qsort_entries es;
          plain = (\<lambda>(k, v). COLON \<notin> set k)
      in do {
           (servers, a) \<leftarrow> cfg_print_servers d a;
           Some (''[general]'' @ [NEWLINE] @ write_entries 0 (takeWhile plain es) @
                 write_sections (dropWhile plain es) @ servers @
                 (if full then snd (cfg_run_save_callbacks env path) else []), a)
         })"

definition cfg_save_values ::
    "save_env \<Rightarrow> fs \<Rightarrow> dict ptr \<Rightarrow> string \<Rightarrow> bool \<Rightarrow> alloc \<Rightarrow> (bool \<times> fs \<times> alloc) comp" where
  "cfg_save_values env fs d path full a =
     (let (backed_up, fs) = (if fs path \<noteq> None then backup_loop env fs path [1..<100] else (True, fs))
      in if \<not> backed_up \<or> \<not> se_open_ok env then Some (False, fs, a)
         else do {
           (merged, a) \<leftarrow> dict_merge_new (if full then se_default env else d) d a;
           (case collect_entries (filter (\<lambda>(k, v). \<not> cfg_save_entry_is_skipped env k) (dict_strings merged)) 0 [] a of
              (None, a) \<Rightarrow> Some (False, fs(path \<mapsto> []), a)
            | (Some es, a) \<Rightarrow>
                do {
                  (out, a) \<leftarrow> save_layout env d path full es a;
                  Some (True, fs(path \<mapsto> out), a)
                })
         })"

definition cfg_save where
  "cfg_save env fs d path = cfg_save_values env fs d path True"

definition cfg_save_overrides where
  "cfg_save_overrides env fs d path = cfg_save_values env fs d path False"

end
