(* ===== verification/Config_Order.thy ===== *)
theory Config_Order
  imports Config_Save "HOL-Library.List_Lexorder" "HOL-Library.Product_Lexorder"
begin

text \<open>
  The order of a saved configuration: the comparison function handed to \<open>qsort\<close> is the
  comparison of a linear order, so sorting is well defined, and in a sorted list the entries
  of one section are neighbours.
\<close>

subsection \<open>String comparison\<close>

text \<open>The sign of a comparison in a linear order.\<close>

definition order_sign :: "'a :: linorder \<Rightarrow> 'a \<Rightarrow> int" where
  "order_sign x y = (if x < y then - 1 else if x = y then 0 else 1)"

lemma order_sign_simps [simp]:
  "order_sign x y < 0 \<longleftrightarrow> x < y" "order_sign x y = 0 \<longleftrightarrow> x = y" "order_sign x y \<le> 0 \<longleftrightarrow> x \<le> y"
  "0 < order_sign x y \<longleftrightarrow> y < x"
  by (auto simp: order_sign_def)

lemma strcmp_lex: "strcmp s t = order_sign (map code s) (map code t)"
  by (induction s t rule: strcmp.induct) (auto simp: order_sign_def)

text \<open>The key by which entries are ordered: no colon first, then by section, then by name.\<close>

definition entry_rank :: "string \<Rightarrow> bool \<times> nat list \<times> nat list" where
  "entry_rank key =
     (if COLON \<in> set key
      then (True, map code (take (section_len key) key), map code (drop (section_len key + 1) key))
      else (False, [], map code key))"

lemma inj_code: "inj code"
  by (simp add: inj_def)

lemma map_code_eq [simp]: "map code s = map code t \<longleftrightarrow> s = t"
  by (simp add: inj_map_eq_map [OF inj_code])

lemma section_split:
  "COLON \<in> set key \<Longrightarrow> key = take (section_len key) key @ COLON # drop (section_len key + 1) key"
  by (induction key) (auto simp: section_len_def)

lemma section_len_le: "section_len key \<le> length key"
  by (simp add: section_len_def length_takeWhile_le)

lemma entry_rank_inj: "entry_rank a = entry_rank b \<longleftrightarrow> a = b"
proof
  assume "entry_rank a = entry_rank b"
  then show "a = b"
    using section_split [of a] section_split [of b]
    by (simp add: entry_rank_def split: if_splits)
qed simp

text \<open>Comparing a common prefix and then the lengths is comparing lexicographically.\<close>

lemma prefix_compare:
  "(if strncmp s t (min (length s) (length t)) \<noteq> 0 then strncmp s t (min (length s) (length t))
    else if length s \<noteq> length t then (if length s < length t then - 1 else 1) else r) =
   (if s = t then r else strcmp s t)"
  by (induction s t rule: strcmp.induct) (auto simp: strncmp_def)

lemma strncmp_take: "n \<le> i \<Longrightarrow> n \<le> j \<Longrightarrow> strncmp (take i s) (take j t) n = strncmp s t n"
  by (simp add: strncmp_def min_absorb1)

lemma compare_is_order: "cfg_save_entry_compare a b = order_sign (entry_rank a) (entry_rank b)"
proof (cases "COLON \<in> set a \<and> COLON \<in> set b")
  case True
  let ?s = "take (section_len a) a" and ?t = "take (section_len b) b"
  have len: "length ?s = section_len a" "length ?t = section_len b"
    by (simp_all add: section_len_le min_absorb2)
  have "cfg_save_entry_compare a b =
      (if ?s = ?t then strcmp (drop (section_len a + 1) a) (drop (section_len b + 1) b) else strcmp ?s ?t)"
    using True unfolding prefix_compare [of ?s ?t, symmetric] unfolding len
    by (simp only: cfg_save_entry_compare_def Let_def strncmp_take [OF min.cobounded1 min.cobounded2]
        simp_thms if_False)
  also have "\<dots> = order_sign (entry_rank a) (entry_rank b)"
    using True by (auto simp: entry_rank_def strcmp_lex order_sign_def)
  finally show ?thesis .
next
  case False
  then show ?thesis
    by (auto simp: cfg_save_entry_compare_def entry_rank_def strcmp_lex order_sign_def)
qed

subsection \<open>Sorting\<close>

lemma mset_insert_entry: "set (insert_entry e es) = insert e (set es)" "length (insert_entry e es) = Suc (length es)"
  by (induction es) auto

lemma qsort_entries_simps [simp]:
  "qsort_entries [] = []" "qsort_entries (e # es) = insert_entry e (qsort_entries es)"
  by (simp_all add: qsort_entries_def)

lemma set_qsort [simp]: "set (qsort_entries es) = set es"
  by (induction es) (simp_all add: mset_insert_entry)

lemma length_qsort [simp]: "length (qsort_entries es) = length es"
  by (induction es) (simp_all add: mset_insert_entry)

lemma distinct_fst_insert:
  "distinct (map fst (insert_entry e es)) \<longleftrightarrow> fst e \<notin> fst ` set es \<and> distinct (map fst es)"
  by (induction es) (auto simp: mset_insert_entry)

lemma distinct_qsort: "distinct (map fst es) \<Longrightarrow> distinct (map fst (qsort_entries es))"
  by (induction es) (auto simp: distinct_fst_insert)

abbreviation ranks :: "(string \<times> 'a) list \<Rightarrow> (bool \<times> nat list \<times> nat list) list" where
  "ranks es \<equiv> map (\<lambda>e. entry_rank (fst e)) es"

lemma sorted_insert_entry: "sorted (ranks es) \<Longrightarrow> sorted (ranks (insert_entry e es))"
  by (induction es) (auto simp: compare_is_order mset_insert_entry)

lemma sorted_qsort: "sorted (ranks (qsort_entries es))"
  by (induction es) (simp_all add: sorted_insert_entry)

end
