(* ===== verification/Config_Roundtrip.thy ===== *)
theory Config_Roundtrip
  imports Config_Load Config_Order
begin

text \<open>
  What \<open>cfg_save\<close> writes, \<open>cfg_load\<close> reads: the effect of a piece of text on a load, for
  one setting, for a section, and for a whole saved file.
\<close>

subsection \<open>The effect of a text\<close>

definition stored :: "(string \<times> string) list \<Rightarrow> string \<rightharpoonup> dict_value" where
  "stored kvs = map_of (rev (map (\<lambda>(k, v). (k, V_str (Some v))) kvs))"

lemma stored_append: "stored (xs @ ys) = stored xs ++ stored ys"
  by (simp add: stored_def)

lemma stored_Nil [simp]: "stored [] = Map.empty"
  by (simp add: stored_def)

text \<open>
  With memory available, \<open>t\<close> takes a load from section \<open>s\<close> to section \<open>s'\<close> and stores
  \<open>kvs\<close>, in this order, whatever follows in the file and whatever is stored already.
\<close>

definition reads :: "string \<Rightarrow> string \<Rightarrow> string \<Rightarrow> (string \<times> string) list \<Rightarrow> bool" where
  "reads t s s' kvs \<longleftrightarrow>
     (\<forall>env load path line fp d e.
       dict_clean d \<longrightarrow> unat (d_fill d) + length kvs \<le> 2 ^ 28 \<longrightarrow>
       (\<exists>line' d'.
         load_loop env load path False line (t @ fp) \<lparr>ls_section = s, ls_errors = e, ls_cfg = Some d\<rparr> [] =
         load_loop env load path False line' fp \<lparr>ls_section = s', ls_errors = e, ls_cfg = Some d'\<rparr> [] \<and>
         dict_clean d' \<and> unat (d_fill d') \<le> unat (d_fill d) + length kvs \<and>
         dict_map d' = dict_map d ++ stored kvs))"

lemma reads_empty [simp]: "reads [] s s []"
  by (auto simp: reads_def)

lemma reads_append:
  assumes "reads t s s1 xs" and "reads u s1 s' ys"
  shows "reads (t @ u) s s' (xs @ ys)"
  unfolding reads_def
proof (intro allI impI)
  fix env load path line fp d e
  assume d: "dict_clean d" "unat (d_fill d) + length (xs @ ys) \<le> 2 ^ 28"
  then have "unat (d_fill d) + length xs \<le> 2 ^ 28" by simp
  with assms(1) d obtain line1 d1 where 1:
    "load_loop env load path False line (t @ u @ fp) \<lparr>ls_section = s, ls_errors = e, ls_cfg = Some d\<rparr> [] =
     load_loop env load path False line1 (u @ fp) \<lparr>ls_section = s1, ls_errors = e, ls_cfg = Some d1\<rparr> []"
    "dict_clean d1" "unat (d_fill d1) \<le> unat (d_fill d) + length xs" "dict_map d1 = dict_map d ++ stored xs"
    unfolding reads_def by blast
  then have "unat (d_fill d1) + length ys \<le> 2 ^ 28" using d by simp
  with assms(2) 1(2) obtain line2 d2 where 2:
    "load_loop env load path False line1 (u @ fp) \<lparr>ls_section = s1, ls_errors = e, ls_cfg = Some d1\<rparr> [] =
     load_loop env load path False line2 fp \<lparr>ls_section = s', ls_errors = e, ls_cfg = Some d2\<rparr> []"
    "dict_clean d2" "unat (d_fill d2) \<le> unat (d_fill d1) + length ys" "dict_map d2 = dict_map d1 ++ stored ys"
    unfolding reads_def by blast
  show "\<exists>line' d'.
      load_loop env load path False line ((t @ u) @ fp) \<lparr>ls_section = s, ls_errors = e, ls_cfg = Some d\<rparr> [] =
      load_loop env load path False line' fp \<lparr>ls_section = s', ls_errors = e, ls_cfg = Some d'\<rparr> [] \<and>
      dict_clean d' \<and> unat (d_fill d') \<le> unat (d_fill d) + length (xs @ ys) \<and>
      dict_map d' = dict_map d ++ stored (xs @ ys)"
    using 1 2 by (intro exI [of _ line2] exI [of _ d2]) (auto simp: stored_append)
qed

text \<open>A turn of the loop over one logical line that stores at most one setting.\<close>

lemma reads_line:
  assumes read: "\<And>line fp. \<exists>line'. read_logical False line (t @ fp) = Some (l, False, fp, line')"
    and step: "\<And>env load path line d e. dict_clean d \<Longrightarrow> unat (d_fill d) + length kvs \<le> 2 ^ 28 \<Longrightarrow>
      \<exists>d'. (case l of None \<Rightarrow> ret \<lparr>ls_section = s, ls_errors = e, ls_cfg = Some d\<rparr>
           | Some x \<Rightarrow> cfg_line env load path line x \<lparr>ls_section = s, ls_errors = e, ls_cfg = Some d\<rparr>) [] =
        Some (Done \<lparr>ls_section = s', ls_errors = e, ls_cfg = Some d'\<rparr>, []) \<and>
        dict_clean d' \<and> unat (d_fill d') \<le> unat (d_fill d) + length kvs \<and>
        dict_map d' = dict_map d ++ stored kvs"
  shows "reads t s s' kvs"
  unfolding reads_def
proof (intro allI impI)
  fix env load path line fp d e
  assume d: "dict_clean d" "unat (d_fill d) + length kvs \<le> 2 ^ 28"
  obtain line' where r: "read_logical False line (t @ fp) = Some (l, False, fp, line')"
    using read by blast
  from step [OF d, of e env load path line'] r
  show "\<exists>line' d'.
      load_loop env load path False line (t @ fp) \<lparr>ls_section = s, ls_errors = e, ls_cfg = Some d\<rparr> [] =
      load_loop env load path False line' fp \<lparr>ls_section = s', ls_errors = e, ls_cfg = Some d'\<rparr> [] \<and>
      dict_clean d' \<and> unat (d_fill d') \<le> unat (d_fill d) + length kvs \<and>
      dict_map d' = dict_map d ++ stored kvs"
    by (subst load_loop.simps) fastforce
qed

lemma reads_blank: "reads [NEWLINE] s s []"
proof (rule reads_line [where l = NULL])
  fix line fp
  show "\<exists>line'. read_logical False line ([NEWLINE] @ fp) = Some (NULL, False, fp, line')"
    using fgets_whole [of "[]" "CFG_BUF - 1" fp]
    by (simp add: read_logical_def rtrim_def)
qed auto

subsection \<open>Section headers\<close>

definition plain_section :: "string \<Rightarrow> bool" where
  "plain_section s \<longleftrightarrow> s \<noteq> [] \<and> (\<forall>c \<in> set s. solid c) \<and> block_free (s @ '']'') \<and> length s \<le> 127"

lemma reads_header:
  assumes s: "plain_section s"
  shows "reads (''['' @ s @ '']'' @ [NEWLINE]) s0 s []"
proof (rule reads_line [where l = "Some (False, [], ''['' @ s @ '']'')"])
  fix line fp
  let ?h = "''['' @ s @ '']''"
  have ok: "\<forall>c \<in> set s. solid c" and len: "length s \<le> 127" using s by (auto simp: plain_section_def)
  have nsp: "\<not> isspace (CHR ''['')" "\<not> isspace (CHR '']'')" by (simp_all add: isspace_def)
  have "read_logical False line (?h @ NEWLINE # fp) =
      (let (l, ic) = logical_line False 0 ?h in Some (l, ic, fp, line + 1))"
    using solid_list [OF ok] nsp len
    by (intro read_logical_head cont_loop_ends) auto
  moreover have "logical_line False 0 ?h = (Some (False, [], ?h), False)"
    using s nsp by (intro logical_line_plain) (auto simp: comment_start_def plain_section_def)
  ultimately show "\<exists>line'. read_logical False line ((''['' @ s @ '']'' @ [NEWLINE]) @ fp) =
      Some (Some (False, [], ''['' @ s @ '']''), False, fp, line')"
    by simp
next
  fix env load path line d e
  assume "dict_clean d"
  then show "\<exists>d'. (case Some (False, [], ''['' @ s @ '']'') of None \<Rightarrow> ret \<lparr>ls_section = s0, ls_errors = e, ls_cfg = Some d\<rparr>
      | Some x \<Rightarrow> cfg_line env load path line x \<lparr>ls_section = s0, ls_errors = e, ls_cfg = Some d\<rparr>) [] =
        Some (Done \<lparr>ls_section = s, ls_errors = e, ls_cfg = Some d'\<rparr>, []) \<and>
        dict_clean d' \<and> unat (d_fill d') \<le> unat (d_fill d) + length [] \<and>
        dict_map d' = dict_map d ++ stored []"
    using s by (auto simp: cfg_line_def star_line_def comment_start_def include_line_def Let_def
        plain_section_def)
qed

subsection \<open>Settings\<close>

text \<open>The key under which the loader stores a setting of a section it knows.\<close>

definition section_key :: "string \<Rightarrow> string \<Rightarrow> string option" where
  "section_key s key =
     (if s = ''general'' then Some key
      else if take 6 s = ''theme:'' \<or> take 7 s = ''server:'' then Some (s @ ''.'' @ key)
      else if s = ''site'' \<or> s = ''callsign-lookup'' then Some (s @ '':'' @ key)
      else None)"

definition plain_setting :: "string \<Rightarrow> string \<Rightarrow> bool" where
  "plain_setting key v \<longleftrightarrow>
     plain_key key \<and> plain_value key v \<and> hd key \<notin> {CHR ''!'', CHR ''.'', CHR ''[''}"

lemma expand_no_escape: "BACKSLASH \<notin> set v \<Longrightarrow> cfg_expand_format_escapes v = v"
  by (induction v) (auto simp: cfg_expand_format_escapes.simps(2))

lemma split_setting_plain:
  assumes "plain_setting key v"
  shows "split_setting (key @ ''='' @ v) = Some (key, v)"
proof -
  have k: "plain_key key" and v: "plain_value key v" using assms by (auto simp: plain_setting_def)
  have "\<forall>c \<in> set key. c \<noteq> CHR ''=''" using k by (auto simp: plain_key_def)
  then have "takeWhile (\<lambda>c. c \<noteq> CHR ''='') (key @ ''='' @ v) = key"
    "dropWhile (\<lambda>c. c \<noteq> CHR ''='') (key @ ''='' @ v) = ''='' @ v"
    by (simp_all add: takeWhile_append dropWhile_append)
  moreover have "dropWhile is_blank v = v"
    using v isspace_cover [of "hd v"] by (cases v) (auto simp: plain_value_def)
  ultimately show ?thesis by (simp add: split_setting_def)
qed

lemma rtrim_key:
  assumes "plain_key key"
  shows "rtrim is_blank key = key"
proof (rule rtrim_id)
  have "solid (last key)" using assms by (simp add: plain_key_def)
  then show "key = [] \<or> \<not> is_blank (last key)" using solidD by blast
qed

lemma append_fits: "length (buf @ s) < sz \<Longrightarrow> append_within sz buf s = buf @ s"
  by (simp add: append_within_def)

lemma strcasecmp_eq_refl [simp]: "strcasecmp_eq s s"
  by (simp add: strcasecmp_eq_def)

lemma dict_add_plenty:
  assumes "dict_clean d" and "unat (d_fill d) < 2 ^ 28"
  obtains d' where "dict_call (dict_add (Some d) (Some key) (Some v)) [] = Some (Done (0, Some d'), [])"
    and "dict_clean d'" and "unat (d_fill d') \<le> unat (d_fill d) + 1"
    and "dict_map d' = dict_map d ++ stored [(key, v)]"
  using dict_clean_store [OF assms, of key "V_str (Some v)" "[]"]
  by (auto simp: dict_call_def dict_add_def stored_def)

lemma section_kinds:
  "\<not> strcasecmp_eq (''theme:'' @ n) ''general''" "\<not> strcasecmp_eq (''server:'' @ n) ''general''"
  "is_theme (''theme:'' @ n)" "is_server (''server:'' @ n)" "\<not> is_theme (''server:'' @ n)"
  "\<not> strcasecmp_eq ''site'' ''general''" "\<not> strcasecmp_eq ''callsign-lookup'' ''general''"
  "\<not> strcasecmp_eq ''site'' ''callsign-lookup''"
  "\<not> is_theme ''site''" "\<not> is_server ''site''" "\<not> is_theme ''callsign-lookup''" "\<not> is_server ''callsign-lookup''"
  by (simp_all add: strcasecmp_eq_def is_theme_def is_server_def tolower_def code_def)

lemma cfg_setting_stores:
  assumes p: "plain_setting key v" and full: "section_key s key = Some full" "length full \<le> 255"
    and d: "dict_clean d" "unat (d_fill d) < 2 ^ 28"
  shows "\<exists>d'. cfg_setting env path line lead (key @ ''='' @ v) \<lparr>ls_section = s, ls_errors = e, ls_cfg = Some d\<rparr> [] =
      Some (Done \<lparr>ls_section = s, ls_errors = e, ls_cfg = Some d'\<rparr>, []) \<and>
    dict_clean d' \<and> unat (d_fill d') \<le> unat (d_fill d) + 1 \<and> dict_map d' = dict_map d ++ stored [(full, v)]"
proof -
  have v: "BACKSLASH \<notin> set v" and key: "rtrim is_blank key = key" "key \<noteq> []"
    using p rtrim_key by (auto simp: plain_setting_def plain_value_def plain_key_def)
  obtain d' where d': "dict_call (dict_add (Some d) (Some full) (Some v)) [] = Some (Done (0, Some d'), [])"
    "dict_clean d'" "unat (d_fill d') \<le> unat (d_fill d) + 1" "dict_map d' = dict_map d ++ stored [(full, v)]"
    using dict_add_plenty [OF d] by blast
  note split = split_setting_plain [OF p]
  consider (general) "s = ''general''" "full = key"
    | (theme) n where "s = ''theme:'' @ n" "full = ''theme:'' @ n @ ''.'' @ key"
    | (server) n where "s = ''server:'' @ n" "full = ''server:'' @ n @ ''.'' @ key"
    | (site) "s = ''site''" "full = ''site:'' @ key"
    | (lookup) "s = ''callsign-lookup''" "full = ''callsign-lookup:'' @ key"
  proof -
    have prefix: "\<exists>m. s = p @ m" if "take n s = p" for n p
      using that by (metis append_take_drop_id)
    show ?thesis
    proof (cases "take 6 s = ''theme:'' \<or> take 7 s = ''server:''")
      case True
      then obtain n where "s = ''theme:'' @ n \<or> s = ''server:'' @ n" using prefix by blast
      then show ?thesis using full(1) that(2,3) [of n] by (auto simp: section_key_def)
    next
      case False
      then show ?thesis using full(1) that(1,4,5) by (auto simp: section_key_def split: if_splits)
    qed
  qed
  then have "cfg_setting env path line lead (key @ ''='' @ v) \<lparr>ls_section = s, ls_errors = e, ls_cfg = Some d\<rparr> [] =
      Some (Done \<lparr>ls_section = s, ls_errors = e, ls_cfg = Some d'\<rparr>, [])"
  proof cases
    case general
    then show ?thesis
      using d'(1) split key v by (simp add: cfg_setting_def cfg_general_def expand_no_escape Let_def)
  next
    case theme
    then show ?thesis
      using d'(1) split key full(2)
      by (simp add: cfg_setting_def cfg_named_section_def store_fullkey_def section_kinds [simplified]
          append_fits Let_def)
  next
    case server
    then show ?thesis
      using d'(1) split key full(2)
      by (simp add: cfg_setting_def cfg_named_section_def store_fullkey_def section_kinds [simplified]
          append_fits Let_def)
  next
    case site
    then show ?thesis
      using d'(1) split key full(2)
      by (simp add: cfg_setting_def cfg_prefix_section_def store_fullkey_def section_kinds append_fits Let_def)
  next
    case lookup
    then show ?thesis
      using d'(1) split key full(2)
      by (simp add: cfg_setting_def cfg_prefix_section_def store_fullkey_def section_kinds append_fits Let_def)
  qed
  with d' show ?thesis by blast
qed

lemma reads_setting:
  assumes p: "plain_setting key v" and full: "section_key s key = Some full" "length full \<le> 255"
  shows "reads (cfg_write_wrapped key (Some v)) s s [(full, v)]"
proof (rule reads_line [where l = "Some (False, [], key @ ''='' @ v)"])
  have k: "plain_key key" "plain_value key v" and h: "hd key \<notin> {CHR ''!'', CHR ''.'', CHR ''[''}"
    using p by (auto simp: plain_setting_def)
  then show "\<exists>line'. read_logical False line (cfg_write_wrapped key (Some v) @ fp) =
      Some (Some (False, [], key @ ''='' @ v), False, fp, line')" for line fp
    by (rule_tac read_wrapped)
  fix env load path line d e
  assume "dict_clean d" and "unat (d_fill d) + length [(full, v)] \<le> 2 ^ 28"
  then obtain d' where "cfg_setting env path line [] (key @ ''='' @ v) \<lparr>ls_section = s, ls_errors = e, ls_cfg = Some d\<rparr> [] =
      Some (Done \<lparr>ls_section = s, ls_errors = e, ls_cfg = Some d'\<rparr>, [])"
    "dict_clean d'" "unat (d_fill d') \<le> unat (d_fill d) + 1" "dict_map d' = dict_map d ++ stored [(full, v)]"
    using cfg_setting_stores [OF p full] by fastforce
  moreover have "s \<noteq> []" using full(1) by (auto simp: section_key_def)
  moreover have "\<not> comment_start (key @ ''='' @ v)"
    using k(1) by (cases key; cases "tl key") (auto simp: comment_start_def plain_key_def)
  moreover have "include_line (key @ ''='' @ v) = None" "hd (key @ ''='' @ v) \<noteq> CHR ''[''"
    using h plain_keyD(1) [OF k(1)] by (auto simp: include_line_def Let_def)
  ultimately show "\<exists>d'. (case Some (False, [], key @ ''='' @ v) of
        None \<Rightarrow> ret \<lparr>ls_section = s, ls_errors = e, ls_cfg = Some d\<rparr>
      | Some x \<Rightarrow> cfg_line env load path line x \<lparr>ls_section = s, ls_errors = e, ls_cfg = Some d\<rparr>) [] =
        Some (Done \<lparr>ls_section = s, ls_errors = e, ls_cfg = Some d'\<rparr>, []) \<and>
        dict_clean d' \<and> unat (d_fill d') \<le> unat (d_fill d) + length [(full, v)] \<and>
        dict_map d' = dict_map d ++ stored [(full, v)]"
    by (auto simp: cfg_line_def)
qed

text \<open>Entries whose names are cut at \<open>n\<close>, written into the section they belong to.\<close>

lemma reads_entries:
  assumes "\<forall>(k, v) \<in> set es. plain_setting (drop n k) v \<and> section_key s (drop n k) = Some k \<and> length k \<le> 255"
  shows "reads (write_entries n (map (\<lambda>(k, v). (k, Some v)) es)) s s es"
  using assms
proof (induction es)
  case (Cons e es)
  obtain k v where e: "e = (k, v)" by (cases e)
  have "reads (cfg_write_wrapped (drop n k) (Some v)) s s [(k, v)]"
    using Cons.prems e by (intro reads_setting) auto
  from reads_append [OF this Cons.IH] Cons.prems e show ?case by (simp add: write_entries_def)
qed (simp add: write_entries_def)

lemma reads_section:
  assumes "plain_section s"
    and "\<forall>(k, v) \<in> set es. plain_setting (drop n k) v \<and> section_key s (drop n k) = Some k \<and> length k \<le> 255"
  shows "reads (''['' @ s @ '']'' @ [NEWLINE] @ write_entries n (map (\<lambda>(k, v). (k, Some v)) es)) s0 s es"
  using reads_append [OF reads_header [OF assms(1)] reads_entries [OF assms(2)]] by simp

subsection \<open>Sections of a saved file\<close>

text \<open>
  An entry with a colon that the generic part of \<open>cfg_save\<close> writes so that the loader finds
  it again: a theme setting, or a key of \<open>[site]\<close> or \<open>[callsign-lookup]\<close>.
\<close>

definition section_entry :: "string \<Rightarrow> string \<Rightarrow> bool" where
  "section_entry k v \<longleftrightarrow>
     COLON \<in> set k \<and> length k \<le> 127 \<and>
     (if take 6 k = ''theme:''
      then CHR ''.'' \<in> set (drop 6 k) \<and> plain_section (take (theme_dot k) k) \<and>
        plain_setting (drop (theme_dot k + 1) k) v
      else take (section_len k) k \<in> {''site'', ''callsign-lookup''} \<and>
        plain_setting (drop (section_len k + 1) k) v)"

lemma takeWhile_shorter: "c \<in> set s \<Longrightarrow> length (takeWhile (\<lambda>x. x \<noteq> c) s) < length s"
  by (induction s) auto

lemma theme_split:
  assumes "take 6 k = ''theme:''" and "CHR ''.'' \<in> set (drop 6 k)"
  shows "take (theme_dot k + 1) k = take (theme_dot k) k @ ''.''"
    and "take (theme_dot k) k = ''theme:'' @ take (theme_dot k - 6) (drop 6 k)"
proof -
  let ?n = "length (takeWhile (\<lambda>c. c \<noteq> CHR ''.'') (drop 6 k))"
  have lt: "?n < length (drop 6 k)"
    using assms(2) by (rule takeWhile_shorter)
  have dot: "drop 6 k ! ?n = CHR ''.''" using nth_length_takeWhile [OF lt] by simp
  then have "k ! theme_dot k = CHR ''.''" "theme_dot k < length k"
    using lt by (auto simp: theme_dot_def)
  then show "take (theme_dot k + 1) k = take (theme_dot k) k @ ''.''"
    by (simp add: take_Suc_conv_app_nth)
  have "take (6 + ?n) k = take 6 k @ take ?n (drop 6 k)" by (rule take_add)
  then show "take (theme_dot k) k = ''theme:'' @ take (theme_dot k - 6) (drop 6 k)"
    using assms(1) by (simp add: theme_dot_def)
qed

lemma theme_dot_cong:
  assumes k: "take 6 k = ''theme:''" "CHR ''.'' \<in> set (drop 6 k)"
    and eq: "take (theme_dot k + 1) k' = take (theme_dot k + 1) k"
  shows "theme_dot k' = theme_dot k" and "take 6 k' = ''theme:''" and "CHR ''.'' \<in> set (drop 6 k')"
proof -
  let ?x = "takeWhile (\<lambda>c. c \<noteq> CHR ''.'') (drop 6 k)"
  have x: "take (theme_dot k - 6) (drop 6 k) = ?x"
    by (simp add: theme_dot_def takeWhile_eq_take [symmetric])
  have "take (theme_dot k + 1) k' = ''theme:'' @ ?x @ ''.''"
    using theme_split [OF k] x eq by simp
  then have "k' = ''theme:'' @ ?x @ ''.'' @ drop (theme_dot k + 1) k'"
    by (metis append.assoc append_take_drop_id)
  then obtain z where z: "k' = ''theme:'' @ ?x @ ''.'' @ z" by blast
  then have "drop 6 k' = ?x @ ''.'' @ z" by simp
  moreover have "\<forall>c \<in> set ?x. c \<noteq> CHR ''.''" by (auto dest: set_takeWhileD)
  ultimately have "takeWhile (\<lambda>c. c \<noteq> CHR ''.'') (drop 6 k') = ?x" "CHR ''.'' \<in> set (drop 6 k')"
    by (simp_all add: takeWhile_append)
  then show "theme_dot k' = theme_dot k" "CHR ''.'' \<in> set (drop 6 k')" by (simp_all add: theme_dot_def)
  show "take 6 k' = ''theme:''" using z by simp
qed

lemma strncmp_zero: "strncmp s t n = 0 \<longleftrightarrow> take n s = take n t"
  by (simp add: strncmp_def strcmp_lex)

text \<open>An entry and the entries of its group, in the form \<open>reads_section\<close> needs.\<close>

lemma theme_group:
  assumes k: "section_entry k v" "take 6 k = ''theme:''"
    and k': "section_entry k' v'" "take (theme_dot k + 1) k' = take (theme_dot k + 1) k"
  shows "plain_setting (drop (theme_dot k + 1) k') v'"
    and "section_key (take (theme_dot k) k) (drop (theme_dot k + 1) k') = Some k'"
proof -
  have dot: "CHR ''.'' \<in> set (drop 6 k)" using k by (simp add: section_entry_def)
  note c = theme_dot_cong [OF k(2) dot k'(2)]
  show "plain_setting (drop (theme_dot k + 1) k') v'" using k'(1) c by (simp add: section_entry_def)
  have "take (theme_dot k + 1) k' = take (theme_dot k) k @ ''.''"
    using theme_split(1) [OF k(2) dot] k'(2) by (simp only:)
  then have "(take (theme_dot k) k @ ''.'') @ drop (theme_dot k + 1) k' = k'"
    by (metis append_take_drop_id)
  moreover obtain x where x: "take (theme_dot k) k = ''theme:'' @ x"
    using theme_split(2) [OF k(2) dot] by blast
  ultimately show "section_key (take (theme_dot k) k) (drop (theme_dot k + 1) k') = Some k'"
    unfolding x by (simp add: section_key_def)
qed

lemma section_key_named:
  "s \<in> {''site'', ''callsign-lookup''} \<Longrightarrow> section_key s x = Some (s @ '':'' @ x)"
  by (auto simp: section_key_def)

lemma named_group:
  assumes k: "section_entry k v" "take 6 k \<noteq> ''theme:''"
    and k': "section_entry k' v'" "cfg_save_entry_same_section k' k (section_len k)"
  shows "plain_setting (drop (section_len k + 1) k') v'"
    and "section_key (take (section_len k) k) (drop (section_len k + 1) k') = Some k'"
proof -
  have s: "take (section_len k) k \<in> {''site'', ''callsign-lookup''}"
    using k by (simp add: section_entry_def)
  have c: "section_len k' = section_len k" "take (section_len k) k' = take (section_len k) k" "COLON \<in> set k'"
    using k'(2) by (auto simp: cfg_save_entry_same_section_def strncmp_zero)
  have eq: "k' = take (section_len k) k @ COLON # drop (section_len k + 1) k'"
    using section_split [OF c(3)] c by simp
  from s have "take (section_len k) k = ''site'' \<or> take (section_len k) k = ''callsign-lookup''" by simp
  with eq obtain z where "k' = ''site'' @ COLON # z \<or> k' = ''callsign-lookup'' @ COLON # z" by metis
  then have "take 6 k' \<noteq> ''theme:''" by auto
  then show "plain_setting (drop (section_len k + 1) k') v'" using k'(1) c by (simp add: section_entry_def)
  show "section_key (take (section_len k) k) (drop (section_len k + 1) k') = Some k'"
    unfolding section_key_named [OF s] by (simp only: append_Cons append_Nil eq [symmetric])
qed

abbreviation with_some :: "(string \<times> string) list \<Rightarrow> save_entry list" where
  "with_some es \<equiv> map (\<lambda>(k, v). (k, Some v)) es"

lemma map_group:
  "takeWhile (\<lambda>(k, v). P k) (with_some es) = with_some (takeWhile (\<lambda>(k, v). P k) es)"
  "dropWhile (\<lambda>(k, v). P k) (with_some es) = with_some (dropWhile (\<lambda>(k, v). P k) es)"
  by (induction es) auto

lemma plain_named: "s \<in> {''site'', ''callsign-lookup''} \<Longrightarrow> plain_section s \<and> s \<noteq> ''pipeline''"
  by (auto simp: plain_section_def solid_def isspace_def)

lemma reads_group:
  assumes "plain_section s" and "\<forall>(k, v) \<in> set (e # takeWhile P es). plain_setting (drop n k) v \<and>
      section_key s (drop n k) = Some k \<and> length k \<le> 255"
    and rest: "\<exists>s'. reads (write_sections (with_some (dropWhile P es))) s s' (dropWhile P es)"
  shows "\<exists>s'. reads ([NEWLINE] @ ''['' @ s @ '']'' @ [NEWLINE] @ write_entries n (with_some (e # takeWhile P es)) @
      write_sections (with_some (dropWhile P es))) s0 s' (e # es)"
proof -
  obtain s' where s': "reads (write_sections (with_some (dropWhile P es))) s s' (dropWhile P es)"
    using rest by blast
  from reads_append [OF reads_blank reads_append [OF reads_section [OF assms(1,2)] s']]
  show ?thesis by (intro exI [of _ s']) simp
qed

lemma reads_write_sections:
  "\<forall>(k, v) \<in> set es. section_entry k v \<Longrightarrow> \<exists>s'. reads (write_sections (with_some es)) s0 s' es"
proof (induction "length es" arbitrary: es s0 rule: less_induct)
  case less
  show ?case
  proof (cases es)
    case (Cons e t)
    obtain k v where e: "e = (k, v)" by (cases e)
    have kv: "section_entry k v" and colon: "COLON \<in> set k"
      using less.prems Cons e by (auto simp: section_entry_def)
    have IH: "\<exists>s'. reads (write_sections (with_some (dropWhile P t))) s s' (dropWhile P t)" for P s
      using less.prems Cons
      by (intro less.hyps) (auto simp: le_imp_less_Suc length_dropWhile_le dest: set_dropWhileD)
    have mem: "section_entry k' v' \<and> (k' = k \<or> P k')"
      if "(k', v') \<in> set (e # takeWhile (\<lambda>(k, v). P k) t)" for k' v' P
      using that less.prems Cons e by (auto dest: set_takeWhileD)
    show ?thesis
    proof (cases "take 6 k = ''theme:''")
      case True
      have dot: "CHR ''.'' \<in> set (drop 6 k)" and pl: "plain_section (take (theme_dot k) k)"
        using kv True by (auto simp: section_entry_def)
      let ?P = "\<lambda>(k', v). take (theme_dot k + 1) k' = take (theme_dot k + 1) k"
      have ok: "\<forall>(k', v') \<in> set (e # takeWhile ?P t). plain_setting (drop (theme_dot k + 1) k') v' \<and>
          section_key (take (theme_dot k) k) (drop (theme_dot k + 1) k') = Some k' \<and> length k' \<le> 255"
      proof (clarify, goal_cases)
        case (1 k' v')
        from mem [OF 1] theme_group [OF kv True, of k' v'] show ?case by (auto simp: section_entry_def)
      qed
      have eq: "write_sections (with_some es) = [NEWLINE] @ ''['' @ take (theme_dot k) k @ '']'' @ [NEWLINE] @
          write_entries (theme_dot k + 1) (with_some (e # takeWhile ?P t)) @ write_sections (with_some (dropWhile ?P t))"
        using Cons e True dot colon
        by (subst theme_split(2) [OF True dot]) (simp add: write_sections.simps(2) Let_def map_group)
      show ?thesis unfolding eq unfolding Cons by (rule reads_group [OF pl ok IH])
    next
      case False
      have s: "take (section_len k) k \<in> {''site'', ''callsign-lookup''}"
        using kv False by (simp add: section_entry_def)
      let ?P = "\<lambda>(k', v). cfg_save_entry_same_section k' k (section_len k)"
      have ok: "\<forall>(k', v') \<in> set (e # takeWhile ?P t). plain_setting (drop (section_len k + 1) k') v' \<and>
          section_key (take (section_len k) k) (drop (section_len k + 1) k') = Some k' \<and> length k' \<le> 255"
      proof (clarify, goal_cases)
        case (1 k' v')
        have "cfg_save_entry_same_section k k (section_len k)"
          using colon by (simp add: cfg_save_entry_same_section_def strncmp_zero)
        with mem [OF 1] named_group [OF kv False, of k' v'] show ?case by (auto simp: section_entry_def)
      qed
      have eq: "write_sections (with_some es) = [NEWLINE] @ ''['' @ take (section_len k) k @ '']'' @ [NEWLINE] @
          write_entries (section_len k + 1) (with_some (e # takeWhile ?P t)) @ write_sections (with_some (dropWhile ?P t))"
        using Cons e False colon plain_named [OF s] by (simp add: write_sections.simps(2) Let_def map_group)
      show ?thesis unfolding eq unfolding Cons
        by (rule reads_group [OF conjunct1 [OF plain_named [OF s]] ok IH])
    qed
  qed (auto intro: exI [of _ s0])
qed

subsection \<open>Server sections\<close>

definition server_entry :: "string \<Rightarrow> string \<Rightarrow> bool" where
  "server_entry k v \<longleftrightarrow>
     take 7 k = ''server:'' \<and> length k \<le> 127 \<and> server_name_len (drop 7 k) \<noteq> None \<and>
     (\<forall>i \<in> {7..<length k}. k ! i = CHR ''.'' \<longrightarrow>
        plain_section (take i k) \<and> plain_setting (drop (i + 1) k) v)"

lemma strstr_Some: "strstr pat s = Some n \<Longrightarrow> take (length pat) (drop n s) = pat"
  by (induction s arbitrary: n) (auto split: if_splits)

lemma server_name_dot:
  assumes "server_name_len s = Some n"
  shows "n < length s \<and> s ! n = CHR ''.''"
proof -
  have dot: "n < length s \<and> s ! n = CHR ''.''" if "take (Suc k) (drop n s) = CHR ''.'' # t" for k t
  proof -
    have "drop n s \<noteq> []" "hd (drop n s) = CHR ''.''" using that by (cases "drop n s"; simp)+
    then show ?thesis by (simp add: hd_drop_conv_nth)
  qed
  have suffix: "n < length s \<and> s ! n = CHR ''.''" if "has_suffix s (CHR ''.'' # t)" "n = length s - Suc (length t)" for t
    using that dot [of "length t" t] by (auto simp: has_suffix_def)
  consider "strstr ''.server.'' s = Some n"
    | "has_suffix s ''.autojoin.rig''" "n = length s - 13"
    | "has_suffix s ''.autojoin''" "n = length s - 9"
    | "CHR ''.'' \<in> set s" "n = length (takeWhile (\<lambda>c. c \<noteq> CHR ''.'') s)"
    using assms by (auto simp: server_name_len_def split: option.splits if_splits)
  then show ?thesis
  proof cases
    case 1
    have "take (Suc 7) (drop n s) = CHR ''.'' # ''server.''"
      using strstr_Some [OF 1] by (simp add: eval_nat_numeral)
    then show ?thesis by (rule dot)
  next
    case 2
    with suffix [of "''autojoin.rig''"] show ?thesis by (simp add: eval_nat_numeral)
  next
    case 3
    with suffix [of "''autojoin''"] show ?thesis by (simp add: eval_nat_numeral)
  next
    case 4
    with takeWhile_shorter nth_length_takeWhile show ?thesis by fastforce
  qed
qed

lemma named_server:
  assumes "take 7 k = ''server:''" and "i < length k - 7" and "drop 7 k ! i = CHR ''.''"
  shows "take (7 + i) k = ''server:'' @ take i (drop 7 k)"
    and "take (i + 1) (drop 7 k) = take i (drop 7 k) @ ''.''"
  using assms by (simp_all add: take_add take_Suc_conv_app_nth)

lemma server_section_key:
  assumes "take 7 k = ''server:''" and "take (length name + 1) (drop 7 k) = name @ ''.''"
  shows "section_key (''server:'' @ name) (drop (7 + length name + 1) k) = Some k"
    and "7 + length name < length k" and "k ! (7 + length name) = CHR ''.''"
    and "take (7 + length name) k = ''server:'' @ name"
proof -
  have "drop 7 k = (name @ ''.'') @ drop (length name + 1) (drop 7 k)"
    using assms(2) by (metis append_take_drop_id)
  then obtain z where z: "drop 7 k = (name @ ''.'') @ z" by blast
  have "k = ''server:'' @ drop 7 k" using assms(1) by (metis append_take_drop_id)
  then have k: "k = ''server:'' @ name @ ''.'' @ z" unfolding z by simp
  show "section_key (''server:'' @ name) (drop (7 + length name + 1) k) = Some k"
    "7 + length name < length k" "k ! (7 + length name) = CHR ''.''"
    "take (7 + length name) k = ''server:'' @ name"
    unfolding k by (simp_all add: section_key_def nth_append eval_nat_numeral)
qed

definition of_server :: "string \<Rightarrow> (string \<times> string) list \<Rightarrow> (string \<times> string) list" where
  "of_server name its =
     filter (\<lambda>(k, v). take 7 k = ''server:'' \<and> take (length name + 1) (drop 7 k) = name @ ''.'') its"

lemma concat_filtered:
  "concat (map (\<lambda>(k, v). if P k then f k v else []) (with_some its)) =
     concat (map (\<lambda>(k, v). f k v) (with_some (filter (\<lambda>(k, v). P k) its)))"
  by (induction its) auto

lemma server_block_text:
  "server_block (with_some its) name =
     ''['' @ (''server:'' @ name) @ '']'' @ [NEWLINE] @
     write_entries (7 + length name + 1) (with_some (of_server name its)) @ [NEWLINE]"
  unfolding server_block_def concat_filtered write_entries_def of_server_def by simp

lemma reads_server:
  assumes its: "\<forall>(k, v) \<in> set its. take 7 k = ''server:'' \<longrightarrow> server_entry k v"
    and name: "of_server name its \<noteq> []"
  shows "reads (server_block (with_some its) name) s0 (''server:'' @ name) (of_server name its)"
proof -
  have ok: "plain_section (''server:'' @ name) \<and> plain_setting (drop (7 + length name + 1) k) v \<and>
      section_key (''server:'' @ name) (drop (7 + length name + 1) k) = Some k \<and> length k \<le> 255"
    if kv: "(k, v) \<in> set (of_server name its)" for k v
  proof -
    have k: "take 7 k = ''server:''" "take (length name + 1) (drop 7 k) = name @ ''.''" "server_entry k v"
      using kv its by (auto simp: of_server_def)
    note s = server_section_key [OF k(1,2)]
    have "7 + length name \<in> {7..<length k}" using s(2) by simp
    then have "plain_section (take (7 + length name) k)" "plain_setting (drop (7 + length name + 1) k) v"
      using k(3) s(3) unfolding server_entry_def by blast+
    then show ?thesis using s k(3) by (simp add: server_entry_def)
  qed
  obtain k v where "(k, v) \<in> set (of_server name its)" using name by (cases "of_server name its") auto
  with ok have "plain_section (''server:'' @ name)" by blast
  from reads_append [OF reads_section [OF this] reads_blank] ok
  show ?thesis unfolding server_block_text by fastforce
qed

definition server_name :: "string \<Rightarrow> string" where
  "server_name k = take (the (server_name_len (drop 7 k))) (drop 7 k)"

text \<open>An entry is part of the block of its own server.\<close>

lemma own_server:
  assumes "server_entry k v" and "(k, v) \<in> set its"
  shows "(k, v) \<in> set (of_server (server_name k) its)"
proof -
  obtain n where n: "server_name_len (drop 7 k) = Some n" using assms(1) by (auto simp: server_entry_def)
  note dot = server_name_dot [OF n]
  have "server_name k = take n (drop 7 k)" by (simp add: server_name_def n)
  moreover have "length (take n (drop 7 k)) = n" using dot by simp
  moreover have "take (n + 1) (drop 7 k) = take n (drop 7 k) @ ''.''"
    using dot by (simp add: take_Suc_conv_app_nth)
  ultimately show ?thesis
    using assms by (simp add: of_server_def server_entry_def)
qed

lemma reads_server_loop:
  assumes its: "\<forall>(k, v) \<in> set its. take 7 k = ''server:'' \<longrightarrow> server_entry k v"
    and "set kvs \<subseteq> set its"
    and "dict_clean seen" and "unat (d_fill seen) + length kvs \<le> 2 ^ 28"
    and "\<forall>name w. dict_map seen name = Some w \<longrightarrow> w = V_str (Some ''1'')"
  shows "\<exists>out L. server_loop (with_some its) (with_some kvs) (Some seen) [] = Some (out, []) \<and>
    (\<forall>s0. \<exists>s'. reads out s0 s' L) \<and> set L \<subseteq> set its \<and>
    length L \<le> length kvs * length its \<and>
    (\<forall>(k, v) \<in> set kvs. take 7 k = ''server:'' \<longrightarrow> dict_map seen (server_name k) \<noteq> None \<or> (k, v) \<in> set L)"
  using assms(2-)
proof (induction kvs arbitrary: seen)
  case Nil
  have "\<forall>s0. \<exists>s'. reads [] s0 s' []" using reads_empty by blast
  then show ?case by (intro exI [of _ "[]"]) simp
next
  case (Cons e kvs)
  obtain k v where e: "e = (k, v)" by (cases e)
  have IH: "\<exists>out L. server_loop (with_some its) (with_some kvs) (Some seen) [] = Some (out, []) \<and>
      (\<forall>s0. \<exists>s'. reads out s0 s' L) \<and> set L \<subseteq> set its \<and>
      length L \<le> length kvs * length its \<and>
      (\<forall>(k, v) \<in> set kvs. take 7 k = ''server:'' \<longrightarrow> dict_map seen (server_name k) \<noteq> None \<or> (k, v) \<in> set L)"
    if "dict_clean seen" "unat (d_fill seen) + length kvs \<le> 2 ^ 28"
      "\<forall>name w. dict_map seen name = Some w \<longrightarrow> w = V_str (Some ''1'')" for seen
    using that Cons.prems by (intro Cons.IH) auto
  have skip: ?case
    if same: "server_loop (with_some its) (with_some (e # kvs)) (Some seen) [] =
        server_loop (with_some its) (with_some kvs) (Some seen) []"
      and known: "take 7 k = ''server:'' \<Longrightarrow> dict_map seen (server_name k) \<noteq> None"
  proof -
    obtain out L where "server_loop (with_some its) (with_some kvs) (Some seen) [] = Some (out, [])"
      "\<forall>s0. \<exists>s'. reads out s0 s' L" "set L \<subseteq> set its" "length L \<le> length kvs * length its"
      "\<forall>(k, v) \<in> set kvs. take 7 k = ''server:'' \<longrightarrow> dict_map seen (server_name k) \<noteq> None \<or> (k, v) \<in> set L"
      using IH [of seen] Cons.prems(2-4) by auto
    then show ?case using same known e by (intro exI [of _ out] exI [of _ L]) auto
  qed
  show ?case
  proof (cases "take 7 k = ''server:''")
    case False
    with skip e show ?thesis by simp
  next
    case True
    then have se: "server_entry k v" and mem: "(k, v) \<in> set its" using its Cons.prems e by auto
    then obtain n where n: "server_name_len (drop 7 k) = Some n" by (auto simp: server_entry_def)
    have small: "\<not> 512 \<le> n" using server_name_dot [OF n] se by (auto simp: server_entry_def)
    have name: "take n (drop 7 k) = server_name k" by (simp add: server_name_def n)
    have get: "dict_get (Some seen) (Some (server_name k)) NULL =
        Some (case dict_map seen (server_name k) of Some (V_str s) \<Rightarrow> s | _ \<Rightarrow> NULL)"
      using Cons.prems(2) by (intro dict_get_map) (auto simp: dict_clean_def)
    show ?thesis
    proof (cases "dict_map seen (server_name k)")
      case (Some w)
      have "w = V_str (Some ''1'')" using Some Cons.prems(4) by blast
      then have "dict_get (Some seen) (Some (server_name k)) NULL = Some (Some ''1'')"
        using get Some by simp
      with skip e True n small name Some show ?thesis by simp
    next
      case None
      have lt: "unat (d_fill seen) < 2 ^ 28" using Cons.prems(3) by simp
      obtain seen' where s': "dict_store (Some seen) (Some (server_name k)) (V_str (Some ''1'')) [] = Some (0, Some seen', [])"
        "dict_clean seen'" "unat (d_fill seen') \<le> unat (d_fill seen) + 1"
        "dict_map seen' = (dict_map seen)(server_name k \<mapsto> V_str (Some ''1''))"
        using dict_clean_store [OF Cons.prems(2) lt, of "server_name k" "V_str (Some ''1'')" "[]"] by auto
      obtain out L where IH': "server_loop (with_some its) (with_some kvs) (Some seen') [] = Some (out, [])"
        "\<forall>s0. \<exists>s'. reads out s0 s' L" "set L \<subseteq> set its" "length L \<le> length kvs * length its"
        "\<forall>(k, v) \<in> set kvs. take 7 k = ''server:'' \<longrightarrow> dict_map seen' (server_name k) \<noteq> None \<or> (k, v) \<in> set L"
      proof -
        have "unat (d_fill seen') + length kvs \<le> 2 ^ 28" using s'(3) Cons.prems(3) by simp
        moreover have "\<forall>name w. dict_map seen' name = Some w \<longrightarrow> w = V_str (Some ''1'')"
          using s'(4) Cons.prems(4) by simp
        ultimately show ?thesis using IH [OF s'(2)] that by blast
      qed
      let ?own = "of_server (server_name k) its"
      have own: "?own \<noteq> []" using own_server [OF se mem] by auto
      have "server_loop (with_some its) (with_some (e # kvs)) (Some seen) [] =
          Some (server_block (with_some its) (server_name k) @ out, [])"
        using e True n small name get None s'(1) IH'(1) by (simp add: dict_add_def)
      moreover have "\<exists>s'. reads (server_block (with_some its) (server_name k) @ out) s0 s' (?own @ L)" for s0
        using reads_append [OF reads_server [OF its own]] IH'(2) by blast
      moreover have "set (?own @ L) \<subseteq> set its" using IH'(3) by (auto simp: of_server_def)
      moreover have "length (?own @ L) \<le> length (e # kvs) * length its"
        using IH'(4) by (simp add: of_server_def add_mono)
      moreover have "dict_map seen (server_name k') \<noteq> None \<or> (k', v') \<in> set (?own @ L)"
        if "(k', v') \<in> set (e # kvs)" "take 7 k' = ''server:''" for k' v'
      proof -
        have "(k', v') \<in> set its" using that(1) Cons.prems(1) by blast
        then have "(k', v') \<in> set (of_server (server_name k') its)"
          using own_server its that(2) by blast
        moreover have "k' = k \<or> dict_map seen' (server_name k') \<noteq> None \<or> (k', v') \<in> set L"
          using IH'(5) that e by auto
        ultimately show ?thesis using s'(4) by (auto split: if_splits)
      qed
      ultimately show ?thesis by (intro exI [of _ "server_block (with_some its) (server_name k) @ out"]
          exI [of _ "?own @ L"]) blast
    qed
  qed
qed

subsection \<open>A whole file\<close>

text \<open>An entry that a saved file can carry.\<close>

definition savable :: "save_env \<Rightarrow> string \<Rightarrow> string \<Rightarrow> bool" where
  "savable env k v \<longleftrightarrow>
     (if take 7 k = ''server:'' then server_entry k v
      else \<not> cfg_save_entry_is_skipped env k \<and>
        (if COLON \<in> set k then section_entry k v else plain_setting k v \<and> length k \<le> 255))"

definition savable_dict :: "save_env \<Rightarrow> dict \<Rightarrow> bool" where
  "savable_dict env d \<longleftrightarrow>
     dict_inv d \<and> unat (d_used d) \<le> 2 ^ 13 \<and>
     (\<forall>(k, w) \<in> set (dict_items d 0). case w of V_str (Some v) \<Rightarrow> savable env k v | _ \<Rightarrow> False)"

text \<open>The stored strings.\<close>

definition settings :: "dict \<Rightarrow> (string \<times> string) list" where
  "settings d = map (\<lambda>(k, w). (k, case w of V_str (Some v) \<Rightarrow> v | _ \<Rightarrow> [])) (dict_items d 0)"

definition all_strings :: "dict \<Rightarrow> bool" where
  "all_strings d \<longleftrightarrow> (\<forall>(k, w) \<in> set (dict_items d 0). \<exists>v. w = V_str (Some v))"

lemma dict_strings_settings: "all_strings d \<Longrightarrow> dict_strings (Some d) = with_some (settings d)"
  by (fastforce simp: dict_strings_def settings_def all_strings_def str_value_def)

lemma settings_map:
  assumes "dict_inv d" and "all_strings d"
  shows "(k, v) \<in> set (settings d) \<longleftrightarrow> dict_map d k = Some (V_str (Some v))"
proof -
  have "(k, v) \<in> set (settings d) \<longleftrightarrow> (k, V_str (Some v)) \<in> set (dict_items d 0)"
    using assms(2) by (force simp: settings_def all_strings_def image_iff split: prod.splits)
  also have "\<dots> \<longleftrightarrow> dict_map d k = Some (V_str (Some v))"
    using dict_items_distinct [OF assms(1)] by (simp flip: dict_items_map)
  finally show ?thesis .
qed

lemma stored_complete:
  assumes "\<forall>(k, v) \<in> set L. m k = Some (V_str (Some v))"
    and "\<forall>k w. m k = Some w \<longrightarrow> (\<exists>v. w = V_str (Some v) \<and> (k, v) \<in> set L)"
  shows "stored L = m"
proof
  fix k
  show "stored L k = m k"
  proof (cases "stored L k")
    case None
    then have "k \<notin> fst ` set L" by (auto simp: stored_def map_of_eq_None_iff image_iff split: prod.splits)
    then have "m k = None" using assms(2) by (metis fst_conv image_eqI option.exhaust)
    with None show ?thesis by simp
  next
    case (Some w)
    then have "(k, w) \<in> set (rev (map (\<lambda>(k, v). (k, V_str (Some v))) L))"
      unfolding stored_def by (rule map_of_SomeD)
    with Some assms(1) show ?thesis by auto
  qed
qed

lemma collect_plenty: "collect_entries kvs cap es [] = (Some (es @ kvs), [])"
  by (induction kvs arbitrary: cap es) (auto simp: Let_def)

lemma sorted_plain_first:
  assumes "sorted (ranks es)" and "(k, v) \<in> set (dropWhile (\<lambda>(k, v). COLON \<notin> set k) es)"
  shows "COLON \<in> set k"
  using assms
proof (induction es)
  case (Cons e es)
  show ?case
  proof (cases "COLON \<in> set (fst e)")
    case True
    then have "(k, v) \<in> set (e # es)" using Cons.prems(2) by (auto split: prod.splits)
    then have "entry_rank (fst e) \<le> entry_rank k" using Cons.prems(1) by force
    then show ?thesis using True by (auto simp: entry_rank_def split: if_splits)
  next
    case False
    then show ?thesis using Cons by (auto split: prod.splits)
  qed
qed simp

lemma qsort_with_some: "\<exists>es. qsort_entries (with_some xs) = with_some es \<and> set es = set xs \<and> length es = length xs"
proof -
  have ins: "\<exists>es'. insert_entry (k, Some v) (with_some es) = with_some es'" for k v es
  proof (induction es)
    case Nil
    show ?case by (intro exI [of _ "[(k, v)]"]) simp
  next
    case (Cons e es)
    obtain es' where "insert_entry (k, Some v) (with_some es) = with_some es'" using Cons by blast
    then show ?case
      by (cases e) (auto intro: exI [of _ "(k, v) # e # es"] exI [of _ "e # es'"])
  qed
  have "\<exists>es. qsort_entries (with_some xs) = with_some es"
  proof (induction xs)
    case (Cons x xs)
    then obtain es where "qsort_entries (with_some xs) = with_some es" by blast
    moreover obtain k v where "x = (k, v)" by (cases x)
    ultimately show ?case using ins [of k v es] by simp
  qed (simp add: exI [of _ "[]"])
  then obtain es where es: "qsort_entries (with_some xs) = with_some es" by blast
  have inj: "inj (\<lambda>(k, v). (k, Some v))" by (auto simp: inj_def)
  have "set (with_some es) = set (with_some xs)" "length (with_some es) = length (with_some xs)"
    using set_qsort [of "with_some xs"] length_qsort [of "with_some xs"] es by simp_all
  moreover from this(1) have "set es = set xs"
    using inj_image_eq_iff [OF inj, of "set es" "set xs"] by simp
  ultimately show ?thesis using es by (intro exI [of _ es]) simp
qed

lemma savable_strings:
  assumes "savable_dict env d"
  shows "all_strings d"
  unfolding all_strings_def
proof (clarify)
  fix k w assume "(k, w) \<in> set (dict_items d 0)"
  then have "case w of V_str (Some v) \<Rightarrow> savable env k v | _ \<Rightarrow> False"
    using assms unfolding savable_dict_def by blast
  then show "\<exists>v. w = V_str (Some v)" by (cases w) (auto split: option.splits)
qed

lemma savable_settings:
  assumes "savable_dict env d" and "(k, v) \<in> set (settings d)"
  shows "savable env k v"
proof -
  have "dict_map d k = Some (V_str (Some v))"
    using assms settings_map savable_strings by (auto simp: savable_dict_def)
  then have "(k, V_str (Some v)) \<in> set (dict_items d 0)" by (metis dict_items_map map_of_SomeD)
  then have "case V_str (Some v) of V_str (Some v) \<Rightarrow> savable env k v | _ \<Rightarrow> False"
    using assms(1) unfolding savable_dict_def by blast
  then show ?thesis by simp
qed

lemma plain_general: "plain_section ''general''"
  by (simp add: plain_section_def solid_def isspace_def)

text \<open>The three parts of a saved file: general settings, named sections, servers.\<close>

lemma not_skipped_no_server: "\<not> cfg_save_entry_is_skipped env k \<Longrightarrow> take 7 k \<noteq> ''server:''"
  by (simp add: cfg_save_entry_is_skipped_def)

lemma reads_plain_part:
  assumes "\<forall>(k, v) \<in> set qs. savable env k v \<and> \<not> cfg_save_entry_is_skipped env k"
  defines "p \<equiv> takeWhile (\<lambda>(k, v). COLON \<notin> set k) qs"
  shows "reads (''[general]'' @ [NEWLINE] @ write_entries 0 (with_some p)) s0 ''general'' p"
proof -
  have "plain_setting (drop 0 k) v \<and> section_key ''general'' (drop 0 k) = Some k \<and> length k \<le> 255"
    if "(k, v) \<in> set p" for k v
  proof -
    have "(k, v) \<in> set qs" "COLON \<notin> set k" using that by (auto simp: p_def dest: set_takeWhileD)
    moreover from this(1) have "savable env k v" "take 7 k \<noteq> ''server:''"
      using assms(1) not_skipped_no_server by blast+
    ultimately show ?thesis by (simp add: savable_def section_key_def)
  qed
  then have "\<forall>(k, v) \<in> set p. plain_setting (drop 0 k) v \<and>
      section_key ''general'' (drop 0 k) = Some k \<and> length k \<le> 255" by blast
  from reads_section [OF plain_general this, of s0] show ?thesis by simp
qed

lemma reads_named_part:
  assumes "\<forall>(k, v) \<in> set qs. savable env k v \<and> \<not> cfg_save_entry_is_skipped env k"
    and sorted: "sorted (ranks qs)"
  defines "n \<equiv> dropWhile (\<lambda>(k, v). COLON \<notin> set k) qs"
  shows "\<exists>s'. reads (write_sections (with_some n)) s0 s' n"
proof -
  have "section_entry k v" if kv: "(k, v) \<in> set n" for k v
  proof -
    have "(k, v) \<in> set qs" using kv unfolding n_def by (rule set_dropWhileD)
    then have "savable env k v" "take 7 k \<noteq> ''server:''"
      using assms(1) not_skipped_no_server by blast+
    moreover have "COLON \<in> set k" by (rule sorted_plain_first [OF sorted kv [unfolded n_def]])
    ultimately show ?thesis by (simp add: savable_def)
  qed
  then have "\<forall>(k, v) \<in> set n. section_entry k v" by blast
  then show ?thesis by (rule reads_write_sections)
qed

lemma reads_server_part:
  assumes d: "savable_dict env d"
  shows "\<exists>out L. cfg_print_servers (Some d) [] = Some (out, []) \<and> (\<forall>s0. \<exists>s'. reads out s0 s' L) \<and>
    set L \<subseteq> set (settings d) \<and> length L \<le> length (settings d) * length (settings d) \<and>
    (\<forall>(k, v) \<in> set (settings d). take 7 k = ''server:'' \<longrightarrow> (k, v) \<in> set L)"
proof -
  have servers: "\<forall>(k, v) \<in> set (settings d). take 7 k = ''server:'' \<longrightarrow> server_entry k v"
    using savable_settings [OF d] by (auto simp: savable_def)
  obtain seen where seen: "dict_new [] = (Some seen, [])" "dict_clean seen" "unat (d_fill seen) = 0"
    "dict_map seen = Map.empty"
  proof -
    obtain p a' where new: "dict_new [] = (p, a')" by fastforce
    from dict_new_fresh [OF new] new that show ?thesis by auto
  qed
  have "unat (d_fill seen) + length (settings d) \<le> 2 ^ 28"
    using d length_dict_items [of d] seen(3) by (simp add: savable_dict_def settings_def)
  from reads_server_loop [OF servers order_refl seen(2) this] seen(4)
  have "\<exists>out L. server_loop (with_some (settings d)) (with_some (settings d)) (Some seen) [] = Some (out, []) \<and>
    (\<forall>s0. \<exists>s'. reads out s0 s' L) \<and> set L \<subseteq> set (settings d) \<and>
    length L \<le> length (settings d) * length (settings d) \<and>
    (\<forall>(k, v) \<in> set (settings d). take 7 k = ''server:'' \<longrightarrow> (k, v) \<in> set L)"
    by simp
  then show ?thesis
    by (simp add: cfg_print_servers_def seen(1) dict_strings_settings [OF savable_strings [OF d]])
qed

text \<open>The text saved for a dictionary reads back as all its settings.\<close>

lemma reads_layout:
  assumes d: "savable_dict env d" and es: "set es = set (filter (\<lambda>(k, v). \<not> cfg_save_entry_is_skipped env k) (settings d))"
  shows "\<exists>out L s'. save_layout env (Some d) path False (with_some es) [] = Some (out, []) \<and> reads out [] s' L \<and>
    length L \<le> length es + length (settings d) * length (settings d) \<and> set L = set (settings d)"
proof -
  let ?plain = "\<lambda>(k, v). COLON \<notin> set k"
  obtain qs where qs: "qsort_entries (with_some es) = with_some qs" "set qs = set es" "length qs = length es"
    using qsort_with_some by blast
  have "(k, v) \<in> set qs \<Longrightarrow> savable env k v \<and> \<not> cfg_save_entry_is_skipped env k" for k v
    using qs(2) es savable_settings [OF d] by auto
  then have ok: "\<forall>(k, v) \<in> set qs. savable env k v \<and> \<not> cfg_save_entry_is_skipped env k" by blast
  have "ranks (with_some qs) = ranks qs" by (induction qs) auto
  then have "sorted (ranks qs)" using sorted_qsort [of "with_some es"] qs(1) by metis
  from reads_named_part [OF ok this, of "''general''"] obtain s1
    where named: "reads (write_sections (with_some (dropWhile ?plain qs))) ''general'' s1 (dropWhile ?plain qs)"
    by blast
  obtain out L where serv: "cfg_print_servers (Some d) [] = Some (out, [])" "\<forall>s0. \<exists>s'. reads out s0 s' L"
    "set L \<subseteq> set (settings d)" "length L \<le> length (settings d) * length (settings d)"
    "\<forall>(k, v) \<in> set (settings d). take 7 k = ''server:'' \<longrightarrow> (k, v) \<in> set L"
    using reads_server_part [OF d] by blast
  then obtain s' where s': "reads out s1 s' L" by blast
  let ?text = "''[general]'' @ [NEWLINE] @ write_entries 0 (with_some (takeWhile ?plain qs)) @
      write_sections (with_some (dropWhile ?plain qs)) @ out"
  have lay: "save_layout env (Some d) path False (with_some es) [] = Some (?text, [])"
    unfolding save_layout_def Let_def qs(1) map_group serv(1) by simp
  have "reads ?text [] s' (takeWhile ?plain qs @ dropWhile ?plain qs @ L)"
    using reads_append [OF reads_plain_part [OF ok] reads_append [OF named s']] by simp
  then have rd: "reads ?text [] s' (qs @ L)"
    by (metis append.assoc takeWhile_dropWhile_id)
  have "e \<in> set (qs @ L)" if e: "e \<in> set (settings d)" for e
  proof -
    obtain k v where kv: "e = (k, v)" by (cases e)
    show ?thesis
    proof (cases "take 7 k = ''server:''")
      case True
      then show ?thesis using serv(5) e kv by auto
    next
      case False
      then have "\<not> cfg_save_entry_is_skipped env k"
        using savable_settings [OF d, of k v] e kv by (simp add: savable_def)
      then show ?thesis using qs(2) es e kv by simp
    qed
  qed
  then have "set (qs @ L) = set (settings d)" using qs(2) es serv(3) by auto
  moreover have "length (qs @ L) \<le> length es + length (settings d) * length (settings d)"
    using serv(4) qs(3) by simp
  ultimately show ?thesis using lay rd by blast
qed

lemma cfg_load_top: "\<exists>load. cfg_load env path = cfg_load_file env load path"
  by (simp add: cfg_load_def cfg_load_depth_def numeral_eq_Suc) blast

lemma load_of_reads:
  assumes "reads out [] s' L" and "length L \<le> 2 ^ 28" and "ce_exists env path" and "ce_text env path = Some out"
  shows "\<exists>d'. cfg_load env path [] = Some (Done (Some d'), []) \<and> dict_clean d' \<and> dict_map d' = stored L"
proof -
  obtain load where load: "cfg_load env path = cfg_load_file env load path" using cfg_load_top by blast
  obtain p a' where new: "dict_new [] = (p, a')" by fastforce
  from dict_new_fresh [OF new] new obtain d where d: "dict_new [] = (Some d, [])" "dict_clean d" "unat (d_fill d) = 0"
    "dict_map d = Map.empty" by auto
  with assms(1,2) obtain line' d' where "load_loop env load path False 0 (out @ [])
      \<lparr>ls_section = [], ls_errors = 0, ls_cfg = Some d\<rparr> [] =
      load_loop env load path False line' [] \<lparr>ls_section = s', ls_errors = 0, ls_cfg = Some d'\<rparr> []"
    "dict_clean d'" "dict_map d' = dict_map d ++ stored L"
    unfolding reads_def by (metis add_0)
  then have "load_loop env load path False 0 out \<lparr>ls_section = [], ls_errors = 0, ls_cfg = Some d\<rparr> [] =
      Some (Done \<lparr>ls_section = s', ls_errors = 0, ls_cfg = Some d'\<rparr>, [])"
    by (subst (asm) (2) load_loop.simps) (simp add: read_logical_def fgets_def)
  then show ?thesis
    using load d assms(3,4) \<open>dict_clean d'\<close> \<open>dict_map d' = dict_map d ++ stored L\<close>
    by (simp add: cfg_load_file_def)
qed

lemma map_add_self: "m ++ m = m"
  by (auto simp: map_add_def fun_eq_iff split: option.split)

lemma filter_with_some: "filter (\<lambda>(k, v). P k) (with_some es) = with_some (filter (\<lambda>(k, v). P k) es)"
  by (induction es) auto

lemma settings_cong:
  assumes "savable_dict env d" and "dict_inv m" and "dict_map m = dict_map d"
  shows "all_strings m" and "set (settings m) = set (settings d)" and "length (settings m) = length (settings d)"
proof -
  note str = savable_strings [OF assms(1)]
  have inv: "dict_inv d" using assms(1) by (simp add: savable_dict_def)
  have items: "(k, w) \<in> set (dict_items x 0) \<longleftrightarrow> dict_map x k = Some w" if "dict_inv x" for x k w
    using dict_items_distinct [OF that] by (simp flip: dict_items_map)
  have "set (dict_items m 0) = set (dict_items d 0)"
    using items [OF assms(2)] items [OF inv] assms(3) by auto
  then show m: "all_strings m" using str unfolding all_strings_def by simp
  show "set (settings m) = set (settings d)"
    using settings_map [OF assms(2) m] settings_map [OF inv str] assms(3) by auto
  show "length (settings m) = length (settings d)"
    using card_dict_map [OF assms(2)] card_dict_map [OF inv] length_dict_items [OF assms(2)]
      length_dict_items [OF inv] assms(3) by (simp add: settings_def)
qed

text \<open>C5: saving and loading a configuration is the identity, for the entries that the syntax can carry: a
  dictionary of at most 2^13 strings (general settings, themes, sites, callsign lookups and servers,
  see \<open>savable_dict\<close>). The keys have no white space, backslash or equals sign, are at most 255
  characters long (127 in a section), begin no comment, section or directive (\<open>#\<close>, \<open>;\<close>, \<open>//\<close>, \<open>!\<close>, \<open>.\<close>, \<open>[\<close>), and
  are not among those that are left out when saving (\<open>network.\<close>, \<open>ui.gtk.css\<close>, keys that a callback
  owns). The values have no line feed, no backslash, no block comment, no white space at their ends,
  and fit the line buffer; a value that does not fit on its first line of 80 columns, and so is
  wrapped, has no white space at all (\<open>plain_value\<close>; a long value with spaces may come back changed,
  see \<open>wrap_loses_space\<close>). Then \<open>cfg_save_overrides\<close> succeeds, when memory suffices, the file can be
  opened and an old one can be moved away, and \<open>cfg_load\<close> of the written file returns a dictionary
  with exactly the same entries.\<close>

theorem config_roundtrip:
  assumes d: "savable_dict env d" and opened: "se_open_ok env"
    and old: "fs path = None \<or> fst (backup_loop env fs path [1..<100])"
  shows "\<exists>fs'. cfg_save_overrides env fs (Some d) path [] = Some (True, fs', []) \<and>
    (\<forall>cenv. \<exists>d'. cfg_load (cenv\<lparr>ce_exists := \<lambda>p. fs' p \<noteq> None, ce_text := fs'\<rparr>) path [] =
      Some (Done (Some d'), []) \<and> dict_map d' = dict_map d)"
proof -
  have inv: "dict_inv d" and used: "unat (d_used d) \<le> 2 ^ 13" using d by (simp_all add: savable_dict_def)
  have len: "length (settings d) = unat (d_used d)" by (simp add: settings_def length_dict_items [OF inv])
  have "unat (d_used d) + unat (d_used d) \<le> 2 ^ 28" using used by simp
  from dict_merge_new_correct [OF inv inv this, of "[]"] obtain m
    where m: "dict_merge_new (Some d) (Some d) [] = Some (Some m, [])" "dict_clean m" "dict_map m = dict_map d"
    by (auto simp: map_add_self split: option.splits)
  note same = settings_cong [OF d dict_cleanD(1) [OF m(2)] m(3)]
  let ?es = "filter (\<lambda>(k, v). \<not> cfg_save_entry_is_skipped env k) (settings m)"
  have "set ?es = set (filter (\<lambda>(k, v). \<not> cfg_save_entry_is_skipped env k) (settings d))"
    using same(2) by auto
  from reads_layout [OF d this, of path] obtain out L s' where out:
    "save_layout env (Some d) path False (with_some ?es) [] = Some (out, [])" "reads out [] s' L"
    "length L \<le> length ?es + length (settings d) * length (settings d)" "set L = set (settings d)"
    by blast
  have "length ?es \<le> 2 ^ 13" using same(3) len used length_filter_le le_trans by metis
  moreover have "length (settings d) * length (settings d) \<le> 2 ^ 13 * 2 ^ 13"
    unfolding len using used by (intro mult_le_mono)
  ultimately have cap: "length L \<le> 2 ^ 28" using out(3) by simp
  obtain fs1 where fs1: "(if fs path \<noteq> None then backup_loop env fs path [1..<100] else (True, fs)) = (True, fs1)"
  proof (cases "fs path = None")
    case False
    with old that [of "snd (backup_loop env fs path [1..<100])"] show ?thesis by (simp add: prod_eq_iff)
  qed (use that in simp)
  have "stored L = dict_map d"
  proof (rule stored_complete)
    have str: "all_strings d" by (rule savable_strings [OF d])
    show "\<forall>(k, v) \<in> set L. dict_map d k = Some (V_str (Some v))"
      using settings_map [OF inv str] out(4) by auto
    show "\<forall>k w. dict_map d k = Some w \<longrightarrow> (\<exists>v. w = V_str (Some v) \<and> (k, v) \<in> set L)"
    proof (intro allI impI)
      fix k w assume w: "dict_map d k = Some w"
      then have "(k, w) \<in> set (dict_items d 0)" by (simp add: map_of_SomeD dict_items_map [symmetric])
      then obtain v where "w = V_str (Some v)" using str unfolding all_strings_def by blast
      then show "\<exists>v. w = V_str (Some v) \<and> (k, v) \<in> set L"
        using w settings_map [OF inv str] out(4) by blast
    qed
  qed
  then have loaded: "\<exists>d'. cfg_load (cenv\<lparr>ce_exists := \<lambda>p. (fs1(path \<mapsto> out)) p \<noteq> None, ce_text := fs1(path \<mapsto> out)\<rparr>) path [] =
      Some (Done (Some d'), []) \<and> dict_map d' = dict_map d" (is "\<exists>d'. cfg_load ?E path [] = _ \<and> _") for cenv
    using load_of_reads [OF out(2) cap, of ?E path] by fastforce
  have "cfg_save_overrides env fs (Some d) path [] = Some (True, fs1(path \<mapsto> out), [])"
    using fs1 opened m(1) out(1)
    by (simp add: cfg_save_overrides_def cfg_save_values_def dict_strings_settings [OF same(1)]
        filter_with_some collect_plenty)
  with loaded show ?thesis by blast
qed

text \<open>A small configuration with an entry of every kind, one of them longer than a line.\<close>

definition sample_settings :: "(string \<times> string) list" where
  "sample_settings =
     [(''tx.power'', ''100 W''), (''site:grid'', ''FN20''), (''theme:dark.bg'', ''black''),
      (''server:home.url'', 
        ''wss://radio.example.net:8443/stations/northern-california/remote-operation/control-channel/primary/websocket''), (''callsign-lookup:user'', '''')]"

definition sample_env :: save_env where
  "sample_env = \<lparr>se_default = NULL, se_callbacks = [], se_call = \<lambda>_ _. (True, []), se_owns = \<lambda>_ _. False,
     se_date = (2025, 1, 31), se_rename_ok = True, se_open_ok = True\<rparr>"

lemmas plain_defs = plain_setting_def plain_key_def plain_value_def solid_def isspace_def
  comment_start_def plain_section_def

lemma sample_server:
  "server_entry ''server:home.url''
     ''wss://radio.example.net:8443/stations/northern-california/remote-operation/control-channel/primary/websocket''"
  (is "server_entry ?k ?v")
proof -
  have "i = 11" if "i \<in> {7..<length ?k}" "?k ! i = CHR ''.''" for i
  proof -
    have "i \<in> {7, 8, 9, 10, 11, 12, 13, 14}" using that(1) by auto
    with that(2) show ?thesis by auto
  qed
  moreover have "plain_section (take 11 ?k)" "plain_setting (drop (11 + 1) ?k) ?v"
    by (simp_all add: plain_defs)
  ultimately have "\<forall>i \<in> {7..<length ?k}. ?k ! i = CHR ''.'' \<longrightarrow>
      plain_section (take i ?k) \<and> plain_setting (drop (i + 1) ?k) ?v" by metis
  moreover have "server_name_len (drop 7 ?k) = Some 4"
    by (simp add: server_name_len_def has_suffix_def)
  ultimately show ?thesis unfolding server_entry_def by simp
qed

lemma sample_savable: "list_all (\<lambda>(k, v). savable sample_env k v) sample_settings"
  using sample_server
  by (simp add: sample_settings_def savable_def sample_env_def cfg_save_entry_is_skipped_def plain_defs
      section_entry_def section_len_def theme_dot_def)

lemma sample_stored: "\<exists>d. savable_dict sample_env d \<and> dict_map d = stored sample_settings"
proof -
  obtain p a' where new: "dict_new [] = (p, a')" by fastforce
  from dict_new_fresh [OF new] obtain d0 where d0: "dict_clean d0" "unat (d_fill d0) = 0" "dict_map d0 = Map.empty"
    by auto
  have "\<exists>d. dict_clean d \<and> unat (d_fill d) \<le> length kvs \<and> dict_map d = stored kvs" if "length kvs \<le> 2 ^ 28" for kvs
    using that
  proof (induction kvs rule: rev_induct)
    case Nil
    then show ?case using d0 by auto
  next
    case (snoc kv kvs)
    obtain k v where kv: "kv = (k, v)" by (cases kv)
    obtain d where d: "dict_clean d" "unat (d_fill d) \<le> length kvs" "dict_map d = stored kvs"
      using snoc by auto
    then have "unat (d_fill d) < 2 ^ 28" using snoc.prems by simp
    from dict_add_plenty [OF d(1) this, of k v] obtain d' where "dict_clean d'" "unat (d_fill d') \<le> unat (d_fill d) + 1"
      "dict_map d' = dict_map d ++ stored [(k, v)]" by metis
    with d kv show ?case by (intro exI [of _ d']) (auto simp: stored_append)
  qed
  from this [of sample_settings] obtain d where d: "dict_clean d" "dict_map d = stored sample_settings"
    by (auto simp: sample_settings_def)
  have inv: "dict_inv d" using d(1) by (rule dict_cleanD)
  have "dom (stored sample_settings) \<subseteq> fst ` set sample_settings"
    by (auto simp: stored_def sample_settings_def dom_def split: if_splits)
  then have "card (dom (dict_map d)) \<le> length sample_settings"
    unfolding d(2) by (meson List.finite_set card_image_le card_length card_mono finite_imageI le_trans)
  then have used: "unat (d_used d) \<le> 2 ^ 13"
    using card_dict_map [OF inv] by (simp add: sample_settings_def)
  have "case w of V_str (Some v) \<Rightarrow> savable sample_env k v | _ \<Rightarrow> False" if "(k, w) \<in> set (dict_items d 0)" for k w
  proof -
    have "dict_map d k = Some w"
      using that dict_items_distinct [OF inv] by (simp flip: dict_items_map)
    then have "(k, w) \<in> set (rev (map (\<lambda>(k, v). (k, V_str (Some v))) sample_settings))"
      unfolding d(2) stored_def by (rule map_of_SomeD)
    then show ?thesis using sample_savable by (auto simp: list_all_iff)
  qed
  with d inv used show ?thesis by (auto simp: savable_dict_def)
qed

theorem config_roundtrip_witness:
  "\<exists>d fs'. dict_map d = stored sample_settings \<and>
    cfg_save_overrides sample_env Map.empty (Some d) ''rig.cfg'' [] = Some (True, fs', []) \<and>
    (\<forall>cenv. \<exists>d'. cfg_load (cenv\<lparr>ce_exists := \<lambda>p. fs' p \<noteq> None, ce_text := fs'\<rparr>) ''rig.cfg'' [] =
      Some (Done (Some d'), []) \<and> dict_map d' = dict_map d)"
proof -
  obtain d where "savable_dict sample_env d" "dict_map d = stored sample_settings" using sample_stored by blast
  with config_roundtrip [of sample_env d Map.empty "''rig.cfg''"] show ?thesis by (auto simp: sample_env_def)
qed

end
