(* ===== verification/Config_Properties.thy ===== *)
theory Config_Properties
  imports Config_Roundtrip
begin

text \<open>
  Properties of the configuration files besides the round trip: the escapes of formatting
  keys, the limit on nested includes, the safety of saving, the order of the entries, and
  what saving loses.
\<close>

subsection \<open>Formatting escapes\<close>

definition format_escape :: "string \<Rightarrow> string" where
  "format_escape s = concat (map (\<lambda>c. if c = BACKSLASH then [BACKSLASH, BACKSLASH] else [c]) s)"

lemma two_digits_length: "length (two_digits s) \<le> length s"
  using length_takeWhile_le [of isdigit "take 2 s"] by (simp add: two_digits_def)

lemma colour_digits_length: "length (colour_digits s) \<le> length s"
proof (cases "colour_digits s = two_digits s")
  case False
  then obtain r where r: "drop (length (two_digits s)) s = CHR '','' # r"
    "colour_digits s = two_digits s @ '','' @ two_digits r"
    by (cases "drop (length (two_digits s)) s") (auto simp: colour_digits_def Let_def split: if_splits)
  from arg_cong [OF r(1), of length] two_digits_length [of r] two_digits_length [of s] r(2)
  show ?thesis by simp
qed (simp add: two_digits_length)

lemma expand_length: "length (cfg_expand_format_escapes t) \<le> length t"
proof (induction t rule: cfg_expand_format_escapes.induct)
  case (2 c s)
  show ?case
  proof (cases "c = BACKSLASH \<and> s \<noteq> [] \<and> hd s \<noteq> BACKSLASH \<and> format_control (hd s) \<noteq> 0")
    case True
    define ds where "ds = (if format_control (hd s) = 3 then colour_digits (tl s) else [])"
    have "length (cfg_expand_format_escapes (drop (length ds) (tl s))) \<le> length (tl s) - length ds"
      using 2(2) True by (fastforce simp: ds_def)
    moreover have "length ds \<le> length (tl s)" using colour_digits_length [of "tl s"] by (simp add: ds_def)
    moreover have "cfg_expand_format_escapes (c # s) =
        char_of (format_control (hd s)) # ds @ cfg_expand_format_escapes (drop (length ds) (tl s))"
      using True by (simp add: cfg_expand_format_escapes.simps(2) ds_def Let_def)
    moreover have "0 < length s" using True by simp
    ultimately show ?thesis by simp
  next
    case False
    show ?thesis
    proof (cases "c = BACKSLASH \<and> s \<noteq> [] \<and> hd s = BACKSLASH")
      case True
      with "2.IH"(1) have "length (cfg_expand_format_escapes (tl s)) \<le> length (tl s)" by simp
      with True show ?thesis by (simp add: cfg_expand_format_escapes.simps(2))
    next
      case plain: False
      with False have "cfg_expand_format_escapes (c # s) = c # cfg_expand_format_escapes s"
        by (auto simp: cfg_expand_format_escapes.simps(2))
      moreover have "length (cfg_expand_format_escapes s) \<le> length s"
      proof (cases "c = BACKSLASH \<and> s \<noteq> []")
        case True
        with False plain "2.IH"(3) show ?thesis by auto
      next
        case F: False
        with "2.IH"(4) show ?thesis by auto
      qed
      ultimately show ?thesis by simp
    qed
  qed
qed simp

text \<open>Doubling every backslash protects a text from the expansion of formatting escapes,
  so every text can be written as the value of a formatting key; and the expansion, which
  the code does in place, never makes a value longer.\<close>

theorem format_escapes_roundtrip:
  "cfg_expand_format_escapes (format_escape s) = s \<and>
   length (cfg_expand_format_escapes t) \<le> length t"
proof -
  have "cfg_expand_format_escapes (format_escape s) = s"
    by (induction s) (auto simp: format_escape_def cfg_expand_format_escapes.simps(2))
  then show ?thesis by (simp add: expand_length)
qed

subsection \<open>Nested includes\<close>

text \<open>The line \<open>.include name\<close>.\<close>

lemma include_line_read:
  assumes "name \<noteq> []" and "\<forall>c \<in> set name. solid c \<and> c \<noteq> CHR ''=''" and "hd name \<notin> {CHR 0x22, CHR 0x27}"
    and "block_free name" and "length name \<le> 4000"
  shows "\<exists>line'. read_logical False line (''.include '' @ name @ NEWLINE # fp) =
      Some (Some (False, [], ''.include '' @ name), False, fp, line')"
    and "include_line (''.include '' @ name) = Some (False, name)"
proof -
  have sol: "\<forall>c \<in> set name. solid c" using assms(2) by blast
  have ends: "solid (last name)" "solid (hd name)" using assms(1) sol by auto
  have nsp: "\<not> isspace (CHR ''.'')" by (simp add: isspace_def)
  let ?h = "''.include '' @ name"
  have h: "NEWLINE \<notin> set ?h" "cstr ?h" "\<not> isspace (last ?h)" "last ?h \<noteq> BACKSLASH" "block_free ?h"
    using solid_list [OF sol] assms(1,4) ends by (auto simp: solid_def)
  have "read_logical False line (?h @ NEWLINE # fp) =
      (let (l, ic) = logical_line False 0 ?h in Some (l, ic, fp, line + 1))"
    using h nsp assms(5) by (intro read_logical_head cont_loop_ends) auto
  moreover have "logical_line False 0 ?h = (Some (False, [], ?h), False)"
    using h nsp by (intro logical_line_plain) (auto simp: comment_start_def)
  ultimately show "\<exists>line'. read_logical False line (''.include '' @ name @ NEWLINE # fp) =
      Some (Some (False, [], ''.include '' @ name), False, fp, line')" by simp
  have "dropWhile (\<lambda>c. is_blank c \<or> c = CHR ''='') (CHR '' '' # name) = name"
    using assms(1,2) ends(2) solidD [OF ends(2)] by (cases name) auto
  then show "include_line (''.include '' @ name) = Some (False, name)"
    using assms(3) by (simp add: include_line_def strcasecmp_eq_def Let_def)
qed

text \<open>A file whose first line is a mandatory include of an existing file.\<close>

definition includes_next :: "cfg_env \<Rightarrow> string \<Rightarrow> string \<Rightarrow> bool" where
  "includes_next env path path' \<longleftrightarrow>
     ce_exists env path \<and> (\<exists>name rest. ce_text env path = Some (''.include '' @ name @ NEWLINE # rest) \<and>
       name \<noteq> [] \<and> (\<forall>c \<in> set name. solid c \<and> c \<noteq> CHR ''='') \<and> hd name \<notin> {CHR 0x22, CHR 0x27} \<and>
       block_free name \<and> length name \<le> 4000 \<and> include_resolve path name = path')"

lemma include_first_exits:
  assumes "includes_next env path path'"
    and exits: "\<And>d name. name \<noteq> [] \<Longrightarrow> include_resolve path name = path' \<Longrightarrow>
      cfg_include env load path False name \<lparr>ls_section = [], ls_errors = 0, ls_cfg = Some d\<rparr> [] =
      Some (Exit EXIT_FAILURE, [])"
  shows "cfg_load_file env load path [] = Some (Exit EXIT_FAILURE, [])"
proof -
  obtain name rest where t: "ce_text env path = Some (''.include '' @ name @ NEWLINE # rest)" "ce_exists env path"
    "name \<noteq> []" "\<forall>c \<in> set name. solid c \<and> c \<noteq> CHR ''=''" "hd name \<notin> {CHR 0x22, CHR 0x27}" "block_free name"
    "length name \<le> 4000" "include_resolve path name = path'"
    using assms(1) unfolding includes_next_def by blast
  obtain line' where r: "read_logical False 0 (''.include '' @ name @ NEWLINE # rest) =
      Some (Some (False, [], ''.include '' @ name), False, rest, line')"
    using include_line_read(1) [OF t(3-7)] by blast
  have "cfg_line env load path line' (False, [], ''.include '' @ name)
      \<lparr>ls_section = [], ls_errors = 0, ls_cfg = Some d\<rparr> [] = Some (Exit EXIT_FAILURE, [])" for d
    using exits [OF t(3,8), of d] include_line_read(2) [OF t(3-7)]
    by (simp add: cfg_line_def star_line_def comment_start_def)
  then have "load_loop env load path False 0 (''.include '' @ name @ NEWLINE # rest)
      \<lparr>ls_section = [], ls_errors = 0, ls_cfg = Some d\<rparr> [] = Some (Exit EXIT_FAILURE, [])" for d
    by (subst load_loop.simps) (simp only: r option.case prod.case andthen_simps(2))
  then show ?thesis using t(1,2) by (simp add: cfg_load_file_def dict_new_def)
qed

lemma include_chain_level:
  "\<forall>i \<le> n. includes_next env (f i) (f (Suc i)) \<Longrightarrow>
     cfg_load_level env n (f 0) [] = Some (Exit EXIT_FAILURE, [])"
proof (induction n arbitrary: f)
  case 0
  then have "includes_next env (f 0) (f 1)" by simp
  from include_first_exits [OF this] show ?case by (simp add: cfg_include_def include_problem_def)
next
  case (Suc n)
  have "includes_next env (f 0) (f 1)" "includes_next env (f 1) (f 2)"
    using Suc.prems [rule_format, of 0] Suc.prems [rule_format, of 1] by (simp_all add: numeral_2_eq_2)
  moreover from this(2) have "ce_exists env (f 1)" by (simp add: includes_next_def)
  moreover have "cfg_load_level env n (f 1) [] = Some (Exit EXIT_FAILURE, [])"
    using Suc.IH [of "\<lambda>i. f (Suc i)"] Suc.prems by simp
  ultimately show ?case
    using include_first_exits [of env "f 0" "f 1" "Some (cfg_load_level env n)"] by (simp add: cfg_include_def)
qed

text \<open>C17: nested includes are bounded. When five files in a row, possibly the same one, begin
  with a mandatory include of the next, loading the first ends the process with a failure,
  whatever else the files hold; in particular a file that includes itself never makes the
  loader run forever.\<close>

theorem include_depth_limit:
  assumes "\<forall>i \<le> 4. includes_next env (f i) (f (Suc i))"
  shows "cfg_load env (f 0) [] = Some (Exit EXIT_FAILURE, [])"
  using include_chain_level [OF assms] by (simp add: cfg_load_def cfg_load_depth_def)

definition cyclic_env :: cfg_env where
  "cyclic_env = \<lparr>ce_exists = \<lambda>p. p = ''/etc/rig.cfg'',
     ce_text = \<lambda>p. Some (''.include rig.cfg'' @ [NEWLINE] @ ''[general]''),
     ce_fnmatch = \<lambda>_ _. False, ce_callbacks = [], ce_call = \<lambda>_ _ _ _ _ d. ret (True, d),
     ce_ignore_unknown = True\<rparr>"

theorem include_depth_limit_witness:
  "cfg_load cyclic_env ''/etc/rig.cfg'' [] = Some (Exit EXIT_FAILURE, [])"
proof -
  have "include_resolve ''/etc/rig.cfg'' ''rig.cfg'' = ''/etc/rig.cfg''"
    by (simp add: include_resolve_def dirname_def rtrim_def is_slash_def)
  then have "includes_next cyclic_env ''/etc/rig.cfg'' ''/etc/rig.cfg''"
    unfolding includes_next_def
    by (intro conjI exI [of _ "''rig.cfg''"] exI [of _ "''[general]''"])
      (auto simp: cyclic_env_def solid_def isspace_def)
  then show ?thesis using include_depth_limit [of cyclic_env "\<lambda>_. ''/etc/rig.cfg''"] by simp
qed

subsection \<open>Safety of saving\<close>

lemma backup_name_longer: "length path < length (backup_name env path sequence)"
  by (simp add: backup_name_def split: prod.split)

lemma backup_loop_moves:
  assumes "backup_loop env fs path seqs = (b, fs')" and "fs path = Some old"
  shows "if b then \<exists>q. q \<noteq> path \<and> fs q = None \<and> fs' = fs(q \<mapsto> old, path := None) else fs' = fs"
  using assms
proof (induction env fs path seqs rule: backup_loop.induct)
  case (2 env fs path sequence rest)
  let ?n = "backup_name env path sequence"
  have other: "?n \<noteq> path" using backup_name_longer by (metis less_irrefl)
  consider "4096 \<le> length ?n" | "\<not> 4096 \<le> length ?n" "fs ?n \<noteq> None"
    | "\<not> 4096 \<le> length ?n" "fs ?n = None" by blast
  then show ?case
  proof cases
    case 2
    then show ?thesis using "2.IH" [OF refl 2] "2.prems" by (simp add: Let_def)
  next
    case 3
    then show ?thesis using "2.prems" other
      by (cases "se_rename_ok env") (auto simp: Let_def intro!: exI [of _ ?n])
  qed (use "2.prems" in auto)
qed simp

lemma server_loop_total:
  assumes "case seen of None \<Rightarrow> True | Some s \<Rightarrow> dict_clean s \<and> unat (d_fill s) + length kvs \<le> 2 ^ 28"
  shows "\<exists>out a'. server_loop items kvs seen a = Some (out, a')"
  using assms
proof (induction kvs arbitrary: seen a)
  case (Cons e kvs)
  obtain k v where e: "e = (k, v)" by (cases e)
  have skip: "\<exists>out a'. server_loop items kvs seen a = Some (out, a')" for a
    using Cons.prems by (intro Cons.IH) (auto split: option.splits)
  show ?case
  proof (cases "if take 7 k = ''server:'' then server_name_len (drop 7 k) else NULL")
    case None
    then show ?thesis using skip e by simp
  next
    case (Some n)
    let ?name = "take n (drop 7 k)"
    have "\<exists>found. dict_get seen (Some ?name) NULL = Some found"
    proof (cases seen)
      case (Some s)
      then have "dict_inv s" "has_free (d_table s) \<or> dict_map s ?name \<noteq> None"
        using Cons.prems by (simp_all add: dict_clean_def)
      from dict_get_map [OF this] Some show ?thesis by blast
    qed (simp add: dict_get_def)
    then obtain found where found: "dict_get seen (Some ?name) NULL = Some found" by blast
    have "\<exists>r seen' a'. dict_add seen (Some ?name) (Some ''1'') a = Some (r, seen', a') \<and>
        (case seen' of None \<Rightarrow> True | Some s \<Rightarrow> dict_clean s \<and> unat (d_fill s) + length kvs \<le> 2 ^ 28)"
    proof (cases seen)
      case None
      then show ?thesis by (simp add: dict_add_def dict_store_def)
    next
      case (Some s)
      then have "dict_clean s" "unat (d_fill s) < 2 ^ 28" "unat (d_fill s) + 1 + length kvs \<le> 2 ^ 28"
        using Cons.prems by simp_all
      with dict_clean_store [of s ?name "V_str (Some ''1'')" a] Some show ?thesis
        by (fastforce simp: dict_add_def)
    qed
    then obtain r seen' a' where add: "dict_add seen (Some ?name) (Some ''1'') a = Some (r, seen', a')"
      and ok: "case seen' of None \<Rightarrow> True | Some s \<Rightarrow> dict_clean s \<and> unat (d_fill s) + length kvs \<le> 2 ^ 28"
      by blast
    from Cons.IH [OF ok, of a'] obtain out a2 where "server_loop items kvs seen' a' = Some (out, a2)" by blast
    then show ?thesis using e Some found add skip by (auto simp: Let_def)
  qed
qed simp

lemma cfg_print_servers_total:
  assumes "dict_inv d" and "unat (d_used d) \<le> 2 ^ 28"
  shows "\<exists>out a'. cfg_print_servers (Some d) a = Some (out, a')"
proof -
  obtain seen a1 where new: "dict_new a = (seen, a1)" by fastforce
  have "length (dict_strings (Some d)) \<le> 2 ^ 28"
    using assms by (simp add: dict_strings_def length_dict_items)
  then have "case seen of None \<Rightarrow> True | Some s \<Rightarrow> dict_clean s \<and> unat (d_fill s) + length (dict_strings (Some d)) \<le> 2 ^ 28"
    using dict_new_fresh [OF new] by (auto split: option.splits)
  from server_loop_total [OF this] new show ?thesis by (simp add: cfg_print_servers_def)
qed

lemma dict_merge_new_total:
  assumes "dict_inv d" and "case def of None \<Rightarrow> True | Some x \<Rightarrow> dict_inv x \<and> unat (d_used x) + unat (d_used d) \<le> 2 ^ 28"
  shows "\<exists>m a'. dict_merge_new def (Some d) a = Some (m, a')"
proof (cases "def")
  case (Some x)
  with assms dict_merge_new_correct [of x d a] show ?thesis by auto
qed (simp add: dict_merge_new_def)

lemma cfg_save_values_backed:
  assumes "fs path = Some old" and "backup_loop env fs path [1..<100] = (b, fs1)"
  shows "cfg_save_values env fs d path full a =
    (if \<not> b \<or> \<not> se_open_ok env then Some (False, fs1, a)
     else do {
       (merged, a) \<leftarrow> dict_merge_new (if full then se_default env else d) d a;
       (case collect_entries (filter (\<lambda>(k, v). \<not> cfg_save_entry_is_skipped env k) (dict_strings merged)) 0 [] a of
          (None, a) \<Rightarrow> Some (False, fs1(path \<mapsto> []), a)
        | (Some es, a) \<Rightarrow>
            do { (out, a) \<leftarrow> save_layout env d path full es a; Some (True, fs1(path \<mapsto> out), a) })
     })"
proof -
  have "(if fs path \<noteq> None then backup_loop env fs path [1..<100] else (True, fs)) = (b, fs1)"
    using assms by (simp del: upt_rec_numeral upt.simps)
  then show ?thesis unfolding cfg_save_values_def by (simp only: Let_def prod.case)
qed

text \<open>C16: saving never loses the previous configuration. With any pattern of failing allocations
  and whether or not the rename and the opening of the file succeed, \<open>cfg_save\<close> returns; the
  old text is then still in the file (only when it reports failure) or in a backup that did
  not exist before, and no other file is touched.\<close>

theorem save_keeps_old:
  assumes d: "dict_inv d" "unat (d_used d) \<le> 2 ^ 27"
    and defaults: "case se_default env of None \<Rightarrow> True | Some x \<Rightarrow> dict_inv x \<and> unat (d_used x) \<le> 2 ^ 27"
    and old: "fs path = Some old"
  shows "\<exists>ok fs' a'. cfg_save_values env fs (Some d) path full a = Some (ok, fs', a') \<and>
    (\<exists>q. fs' q = Some old \<and> (if q = path then \<not> ok else fs q = None)) \<and>
    (\<forall>q t. (if q = path then None else fs q) = Some t \<longrightarrow> fs' q = Some t)"
proof -
  obtain b fs1 where b: "backup_loop env fs path [1..<100] = (b, fs1)" by fastforce
  note moved = backup_loop_moves [OF b old]
  show ?thesis
  proof (cases "b \<and> se_open_ok env")
    case False
    then have "cfg_save_values env fs (Some d) path full a = Some (False, fs1, a)"
      by (auto simp: cfg_save_values_backed [OF old b])
    moreover have "\<exists>q. fs1 q = Some old \<and> (if q = path then \<not> False else fs q = None)"
    proof (cases b)
      case True
      then obtain q where "q \<noteq> path" "fs q = None" "fs1 = fs(q \<mapsto> old, path := None)"
        using moved by auto
      then show ?thesis by (intro exI [of _ q]) simp
    next
      case False
      then show ?thesis using moved old by (intro exI [of _ path]) simp
    qed
    moreover have "\<forall>q t. (if q = path then None else fs q) = Some t \<longrightarrow> fs1 q = Some t"
      using moved by (cases b) auto
    ultimately show ?thesis by blast
  next
    case True
    then obtain q where q: "q \<noteq> path" "fs q = None" "fs1 = fs(q \<mapsto> old, path := None)"
      using moved by auto
    have "case (if full then se_default env else Some d) of None \<Rightarrow> True
      | Some x \<Rightarrow> dict_inv x \<and> unat (d_used x) + unat (d_used d) \<le> 2 ^ 28"
      using defaults d by (auto split: option.splits)
    from dict_merge_new_total [OF d(1) this, of a] obtain m a1
      where m: "dict_merge_new (if full then se_default env else Some d) (Some d) a = Some (m, a1)" by blast
    obtain es a2 where es: "collect_entries (filter (\<lambda>(k, v). \<not> cfg_save_entry_is_skipped env k) (dict_strings m)) 0 [] a1 = (es, a2)"
      by fastforce
    obtain out ok a3 where "cfg_save_values env fs (Some d) path full a = Some (ok, fs1(path \<mapsto> out), a3)"
    proof (cases es)
      case None
      then show ?thesis
        using that [of False "[]" a2] True m es by (simp add: cfg_save_values_backed [OF old b])
    next
      case (Some l)
      have "unat (d_used d) \<le> 2 ^ 28" using d(2) by simp
      from cfg_print_servers_total [OF d(1) this, of a2] obtain servers a3
        where "cfg_print_servers (Some d) a2 = Some (servers, a3)" by blast
      then obtain out where "save_layout env (Some d) path full l a2 = Some (out, a3)"
        by (simp add: save_layout_def Let_def)
      with Some show ?thesis
        using that [of True out a3] True m es by (simp add: cfg_save_values_backed [OF old b])
    qed
    moreover have "(fs1(path \<mapsto> out)) q = Some old \<and> (if q = path then \<not> ok else fs q = None)" using q by simp
    moreover have "\<forall>p t. (if p = path then None else fs p) = Some t \<longrightarrow> (fs1(path \<mapsto> out)) p = Some t"
      using q by auto
    ultimately show ?thesis by blast
  qed
qed

theorem save_keeps_old_witness:
  "\<exists>d ok fs' a'. dict_map d = stored sample_settings \<and>
    cfg_save_values sample_env [''rig.cfg'' \<mapsto> ''[general]''] (Some d) ''rig.cfg'' True [False, True] =
      Some (ok, fs', a') \<and>
    (\<exists>q. fs' q = Some ''[general]'' \<and> (if q = ''rig.cfg'' then \<not> ok else [''rig.cfg'' \<mapsto> ''[general]''] q = None))"
proof -
  obtain d where d: "savable_dict sample_env d" "dict_map d = stored sample_settings" using sample_stored by blast
  then have "dict_inv d" "unat (d_used d) \<le> 2 ^ 27" by (simp_all add: savable_dict_def)
  moreover have "case se_default sample_env of None \<Rightarrow> True | Some x \<Rightarrow> dict_inv x \<and> unat (d_used x) \<le> 2 ^ 27"
    and "[''rig.cfg'' \<mapsto> ''[general]''] ''rig.cfg'' = Some ''[general]''" by (simp_all add: sample_env_def)
  ultimately obtain ok fs' a' q where r: "cfg_save_values sample_env [''rig.cfg'' \<mapsto> ''[general]''] (Some d) ''rig.cfg'' True [False, True] =
      Some (ok, fs', a')" "fs' q = Some ''[general]''"
    "if q = ''rig.cfg'' then \<not> ok else [''rig.cfg'' \<mapsto> ''[general]''] q = None"
    using save_keeps_old by blast
  show ?thesis using d(2) r by (intro exI [of _ d] exI [of _ ok] exI [of _ fs'] exI [of _ a'] exI [of _ q] conjI)
qed

subsection \<open>The order of the entries\<close>

text \<open>The comparison function given to \<open>qsort\<close> is the comparison of a linear order on keys:
  plain keys first, then by section name, then by the name within the section. Distinct keys
  never compare equal, so the saved file does not depend on the sorting algorithm.\<close>

theorem compare_is_linear_order:
  "cfg_save_entry_compare a b = order_sign (entry_rank a) (entry_rank b) \<and>
   (cfg_save_entry_compare a b = 0) = (a = b) \<and> sorted (ranks (qsort_entries es))"
  by (simp add: compare_is_order entry_rank_inj sorted_qsort)

subsection \<open>What saving loses\<close>

text \<open>A value of any type but string is written as an empty setting.\<close>

lemma typed_values_lost:
  assumes "val_type v \<noteq> VAL_STR"
  shows "cfg_write_wrapped key (str_value v) = key @ ''='' @ [NEWLINE]"
proof -
  have "str_value v = NULL" using assms by (cases v) (simp_all add: str_value_def)
  then show ?thesis by (simp add: cfg_write_wrapped_def Let_def wrap_lines.simps)
qed

text \<open>Without defaults, \<open>cfg_save\<close> writes no setting of the dictionary and reports success.\<close>

lemma save_without_defaults:
  assumes "se_default env = NULL" and "se_open_ok env" and "fs path = None"
    and "dict_inv d" and "unat (d_used d) \<le> 2 ^ 28"
  shows "\<exists>servers a'. cfg_save env fs (Some d) path a =
    Some (True, fs(path \<mapsto> ''[general]'' @ [NEWLINE] @ servers @ snd (cfg_run_save_callbacks env path)), a')"
proof -
  obtain servers a' where "cfg_print_servers (Some d) a = Some (servers, a')"
    using cfg_print_servers_total [OF assms(4,5)] by blast
  then have "cfg_save env fs (Some d) path a =
      Some (True, fs(path \<mapsto> ''[general]'' @ [NEWLINE] @ servers @ snd (cfg_run_save_callbacks env path)), a')"
    using assms(1-3)
    by (simp add: cfg_save_def cfg_save_values_def dict_merge_new_def dict_strings_def save_layout_def
        write_entries_def)
  then show ?thesis by blast
qed

text \<open>
  A space at the start of a continuation line is taken for indentation: when the 80th column
  falls behind a word, the space after it is lost.
\<close>

theorem wrap_loses_space:
  assumes xs: "length xs = 77" "\<forall>c \<in> set xs. solid c" and ys: "ys \<noteq> []" "\<forall>c \<in> set ys. solid c" "length ys \<le> 70"
    and free: "block_free (''k='' @ xs @ ys)"
  shows "\<exists>line'. read_logical False line (cfg_write_wrapped ''k'' (Some (xs @ '' '' @ ys)) @ fp) =
    Some (Some (False, [], ''k='' @ xs @ ys), False, fp, line')"
proof -
  let ?head = "''k='' @ xs @ [BACKSLASH]"
  have "xs \<noteq> []" using xs(1) by auto
  then have solid: "solid (last xs)" "solid (hd ys)" "solid (last ys)" using xs(2) ys(1,2) by simp_all
  note sx = solid_list [OF xs(2)] and sy = solid_list [OF ys(2)]
  have chunk: "wrap_lines 2 78 (xs @ '' '' @ ys) =
      xs @ [BACKSLASH, NEWLINE] @ replicate 2 SPACE @ wrap_lines 2 78 ('' '' @ ys)"
    using xs(1) ys(1) by (subst wrap_lines.simps) simp
  have "wrap_lines 2 78 ('' '' @ ys) = '' '' @ ys @ [NEWLINE]"
    using ys(3) by (subst wrap_lines_last) auto
  then have written: "cfg_write_wrapped ''k'' (Some (xs @ '' '' @ ys)) @ fp =
      ?head @ NEWLINE # replicate 3 SPACE @ ys @ NEWLINE # fp"
    using chunk by (simp add: cfg_write_wrapped_def Let_def eval_nat_numeral)
  have last: "solid (last (''k='' @ xs))" using solid(1) xs(1) by auto
  have "cont_loop ((''k='' @ xs) @ [BACKSLASH]) (replicate 3 SPACE @ ys @ NEWLINE # fp) (line + 1) =
      cont_loop ((''k='' @ xs) @ ys) fp (line + 2)"
    using cont_loop_joins [OF _ last, of ys 3 fp "line + 1"] xs ys sy solid by (simp add: solid_def add.commute)
  also have "\<dots> = ((''k='' @ xs) @ ys, fp, line + 2)"
    using ys(1) solid(3) by (intro cont_loop_ends) (auto simp: solid_def)
  finally have loop: "cont_loop ?head (replicate 3 SPACE @ ys @ NEWLINE # fp) (line + 1) =
      (''k='' @ xs @ ys, fp, line + 2)" by simp
  have "read_logical False line (?head @ NEWLINE # replicate 3 SPACE @ ys @ NEWLINE # fp) =
      (let (l, ic) = logical_line False 0 (''k='' @ xs @ ys) in Some (l, ic, fp, line + 2))"
    using sx xs(1) loop by (intro read_logical_head) (auto simp: isspace_def)
  moreover have "logical_line False 0 (''k='' @ xs @ ys) = (Some (False, [], ''k='' @ xs @ ys), False)"
    using ys(1) solid(3) free by (intro logical_line_plain) (auto simp: isspace_def comment_start_def solid_def)
  ultimately show ?thesis unfolding written by simp
qed

end
