(* ===== verification/C_Heap.thy ===== *)
theory C_Heap
  imports Prelude
begin

text \<open>
  A heap of records for the linked structures of the library. Addresses are numbers, a block
  is created at an address that was never used before, and reading, writing or freeing
  through \<open>NULL\<close> or through a pointer whose block has been freed has no defined result.
\<close>

record 'n heap =
  h_cells :: "nat \<rightharpoonup> 'n"
  h_next :: nat

definition heap_ok :: "'n heap \<Rightarrow> bool" where
  "heap_ok h \<longleftrightarrow> (\<forall>a \<ge> h_next h. h_cells h a = None)"

definition h_new :: "'n \<Rightarrow> 'n heap \<Rightarrow> nat \<times> 'n heap" where
  "h_new n h = (h_next h, h\<lparr>h_cells := (h_cells h)(h_next h \<mapsto> n), h_next := Suc (h_next h)\<rparr>)"

definition h_read :: "nat ptr \<Rightarrow> 'n heap \<Rightarrow> 'n comp" where
  "h_read p h = (case p of None \<Rightarrow> None | Some a \<Rightarrow> h_cells h a)"

definition h_write :: "nat ptr \<Rightarrow> ('n \<Rightarrow> 'n) \<Rightarrow> 'n heap \<Rightarrow> 'n heap comp" where
  "h_write p f h =
     do { n \<leftarrow> h_read p h; Some (h\<lparr>h_cells := (h_cells h)(the p \<mapsto> f n)\<rparr>) }"

definition h_free :: "nat ptr \<Rightarrow> 'n heap \<Rightarrow> 'n heap comp" where
  "h_free p h =
     (case p of
        None \<Rightarrow> Some h
      | Some a \<Rightarrow> (if h_cells h a = None then None else Some (h\<lparr>h_cells := (h_cells h)(a := None)\<rparr>)))"

lemma heap_ok_next: "heap_ok h \<Longrightarrow> h_cells h (h_next h) = None"
  by (simp add: heap_ok_def)

lemma heap_ok_alloc: "heap_ok h \<Longrightarrow> h_cells h a \<noteq> None \<Longrightarrow> a < h_next h"
  by (meson heap_ok_def not_le)

lemma h_read_Some [simp]: "h_read (Some a) h = h_cells h a" "h_read NULL h = None"
  by (simp_all add: h_read_def)

lemma h_write_Some: "h_cells h a = Some n \<Longrightarrow>
    h_write (Some a) f h = Some (h\<lparr>h_cells := (h_cells h)(a \<mapsto> f n)\<rparr>)"
  by (simp add: h_write_def)

lemma h_free_Some: "h_cells h a = Some n \<Longrightarrow> h_free (Some a) h = Some (h\<lparr>h_cells := (h_cells h)(a := None)\<rparr>)"
  by (simp add: h_free_def)

subsection \<open>Chains\<close>

text \<open>
  \<open>chain nx c p as q\<close>: following \<open>nx\<close> from \<open>p\<close> visits the cells at \<open>as\<close> and ends at \<open>q\<close>.
\<close>

fun chain :: "('n \<Rightarrow> nat ptr) \<Rightarrow> (nat \<rightharpoonup> 'n) \<Rightarrow> nat ptr \<Rightarrow> nat list \<Rightarrow> nat ptr \<Rightarrow> bool" where
  "chain nx c p [] q \<longleftrightarrow> p = q"
| "chain nx c p (a # as) q \<longleftrightarrow> p = Some a \<and> (\<exists>n. c a = Some n \<and> chain nx c (nx n) as q)"

lemma chain_append: "chain nx c p (as @ bs) q \<longleftrightarrow> (\<exists>r. chain nx c p as r \<and> chain nx c r bs q)"
  by (induction as arbitrary: p) auto

lemma chain_frame: "a \<notin> set as \<Longrightarrow> chain nx (c(a := x)) p as q = chain nx c p as q"
  by (induction as arbitrary: p) auto

lemma chain_cells: "chain nx c p as q \<Longrightarrow> a \<in> set as \<Longrightarrow> c a \<noteq> None"
  by (induction as arbitrary: p) auto

lemma chain_head: "chain nx c p as NULL \<Longrightarrow> p = (case as of [] \<Rightarrow> NULL | a # _ \<Rightarrow> Some a)"
  by (cases as) auto

text \<open>Appending a cell behind the last one.\<close>

lemma chain_snoc:
  assumes "chain nx c p (as @ [l]) NULL" and "distinct (as @ [l])"
    and "c a = Some m" and "nx m = NULL" and "a \<notin> set (as @ [l])" and "nx n = Some a"
  shows "chain nx (c(l \<mapsto> n)) p (as @ [l, a]) NULL"
proof -
  have "chain nx c p as (Some l)" using assms(1) by (simp add: chain_append)
  then have "chain nx (c(l \<mapsto> n)) p as (Some l)" using assms(2) by (simp add: chain_frame)
  with assms(3-6) show ?thesis by (auto simp: chain_append)
qed

end
