(* ===== verification/Util_File.thy ===== *)
theory Util_File
  imports Prelude
begin

text \<open>
  The path functions of \<open>util.file.c\<close>, as built for POSIX. The environment variable
  \<open>HOME\<close>, the paths that exist and the outcome of \<open>mkdir\<close> are arguments.
\<close>

definition is_home_rest :: "string \<Rightarrow> bool" where
  "is_home_rest s \<longleftrightarrow> s = [] \<or> hd s = CHR ''/''"

text \<open>\<open>while (suffix[0] == '.' && suffix[1] == '/') suffix += 2\<close>\<close>

fun skip_dot_slash :: "string \<Rightarrow> string" where
  "skip_dot_slash (c # d # s) =
     (if c = CHR ''.'' \<and> d = CHR ''/'' then skip_dot_slash s else c # d # s)"
| "skip_dot_slash s = s"

definition absolute :: "string \<Rightarrow> bool" where
  "absolute s \<longleftrightarrow> take 1 s = ''/''"

text \<open>The part of the path to be put behind \<open>HOME\<close>, \<open>NULL\<close> for an absolute path.\<close>

definition home_suffix :: "string \<Rightarrow> string ptr" where
  "home_suffix path =
     (if take 1 path = ''~'' \<and> is_home_rest (drop 1 path) then Some (drop 2 path)
      else if take 5 path = ''$HOME'' \<and> is_home_rest (drop 5 path) then Some (drop 6 path)
      else if take 7 path = ''${HOME}'' \<and> is_home_rest (drop 7 path) then Some (drop 8 path)
      else if \<not> absolute path then Some (skip_dot_slash path)
      else NULL)"

definition expand_path :: "string ptr \<Rightarrow> string ptr \<Rightarrow> alloc \<Rightarrow> string ptr \<times> alloc" where
  "expand_path home path a =
     (case path of
        None \<Rightarrow> (NULL, a)
      | Some [] \<Rightarrow> (NULL, a)
      | Some p \<Rightarrow>
          (case home_suffix p of
             None \<Rightarrow> (let (ok, a) = malloc_ok a in (if ok then Some p else NULL, a))
           | Some suffix \<Rightarrow>
               (case home of
                  None \<Rightarrow> (NULL, a)
                | Some h \<Rightarrow>
                    if \<not> absolute h then (NULL, a)
                    else let (ok, a) = malloc_ok a
                      in (if ok then Some (if suffix \<noteq> [] then h @ ''/'' @ suffix else h) else NULL, a))))"

text \<open>The first file of the list that exists; \<open>exists\<close> is \<open>file_exists\<close>.\<close>

fun find_file_by_list ::
    "string ptr \<Rightarrow> (string \<Rightarrow> bool) \<Rightarrow> string ptr list \<Rightarrow> alloc \<Rightarrow> string ptr \<times> alloc" where
  "find_file_by_list home exist [] a = (NULL, a)"
| "find_file_by_list home exist (f # fs) a =
     (case f of
        None \<Rightarrow> find_file_by_list home exist fs a
      | Some _ \<Rightarrow>
          (case expand_path home f a of
             (None, a) \<Rightarrow> find_file_by_list home exist fs a
           | (Some fullpath, a) \<Rightarrow>
               if exist fullpath then (Some fullpath, a) else find_file_by_list home exist fs a))"

text \<open>
  \<open>mkdir_p\<close>: the loop over the positions of separators and the end of the path. The state
  \<open>'s\<close> is the file system; \<open>mkdir w s\<close> returns the changed file system, unless it fails
  for another reason than an existing directory. The result is the last file system and
  whether every prefix could be made.
\<close>

definition is_sep :: "char \<Rightarrow> bool" where
  "is_sep c \<longleftrightarrow> c = CHR ''/'' \<or> c = CHR 0x5C"

fun mkdir_loop :: "(string \<Rightarrow> 's \<Rightarrow> 's option) \<Rightarrow> string \<Rightarrow> string \<Rightarrow> 's \<Rightarrow> bool \<times> 's" where
  "mkdir_loop mkdir work rest s =
     (if rest \<noteq> [] \<and> \<not> is_sep (hd rest) then mkdir_loop mkdir (work @ [hd rest]) (tl rest) s
      else case (if work \<noteq> [] \<and> work \<noteq> ''.'' then mkdir work s else Some s) of
        None \<Rightarrow> (False, s)
      | Some s \<Rightarrow> if rest = [] then (True, s) else mkdir_loop mkdir (work @ [hd rest]) (tl rest) s)"

declare mkdir_loop.simps [simp del]

definition mkdir_p :: "(string \<Rightarrow> 's \<Rightarrow> 's option) \<Rightarrow> string ptr \<Rightarrow> 's \<Rightarrow> alloc \<Rightarrow> (bool \<times> 's) \<times> alloc" where
  "mkdir_p mkdir path s a =
     (case path of
        None \<Rightarrow> ((False, s), a)
      | Some [] \<Rightarrow> ((False, s), a)
      | Some p \<Rightarrow>
          (let (ok, a) = malloc_ok a in (if ok then mkdir_loop mkdir [] p s else (False, s), a)))"

subsection \<open>Properties\<close>

lemma absolute_append: "absolute h \<Longrightarrow> absolute (h @ s)"
  by (cases h) (auto simp: absolute_def)

lemma home_suffix_None: "home_suffix p = NULL \<Longrightarrow> absolute p"
  by (simp add: home_suffix_def split: if_splits)

lemma expand_path_absolute:
  assumes "expand_path home path a = (Some p, a')"
  shows "absolute p"
proof -
  obtain q where q: "path = Some q" "q \<noteq> []"
    using assms by (cases path) (auto simp: expand_path_def split: list.splits)
  then obtain c r where cr: "q = c # r" by (cases q) auto
  show ?thesis
  proof (cases "home_suffix q")
    case None
    with assms q cr home_suffix_None [OF None] show ?thesis
      by (auto simp: expand_path_def Let_def split: prod.splits if_splits)
  next
    case (Some s)
    with assms q cr show ?thesis
      by (auto simp: expand_path_def Let_def absolute_append split: option.splits prod.splits if_splits)
  qed
qed

text \<open>A relative path never depends on the working directory: what \<open>find_file_by_list\<close>
  returns is an existing absolute path, the expansion of one of the listed names, and it is
  found whenever memory suffices and some listed name expands to an existing file.\<close>

theorem found_file_absolute:
  "(case fst (find_file_by_list home exist files a) of
      Some p \<Rightarrow> exist p \<and> absolute p \<and> (\<exists>f a. f \<in> set files \<and> fst (expand_path home f a) = Some p)
    | None \<Rightarrow> a \<noteq> [] \<or> (\<forall>f p. fst (expand_path home f []) = Some p \<and> exist p \<longrightarrow> f \<notin> set files))"
proof (induction files arbitrary: a)
  case (Cons f fs)
  obtain q a' where e: "expand_path home f a = (q, a')" by fastforce
  have null: "fst (expand_path home NULL []) = NULL" by (simp add: expand_path_def)
  have plenty: "a = [] \<Longrightarrow> a' = []"
    using e by (auto simp: expand_path_def split: option.splits list.splits if_splits)
  consider (skip) "f = NULL \<or> q = NULL \<or> (\<exists>p. q = Some p \<and> \<not> exist p)" | (hit) p where "f \<noteq> NULL" "q = Some p" "exist p"
    by (cases q; blast)
  then show ?case
  proof cases
    case hit
    with e expand_path_absolute [of home f a p a'] show ?thesis
      by (auto intro!: exI [of _ f] exI [of _ a])
  next
    case skip
    then obtain b where b: "find_file_by_list home exist (f # fs) a = find_file_by_list home exist fs b"
      and ab: "a = [] \<longrightarrow> b = []" "a = [] \<longrightarrow> (\<forall>p. fst (expand_path home f []) = Some p \<longrightarrow> \<not> exist p)"
    proof (cases f)
      case None
      then show ?thesis using that [of a] null by simp
    next
      case (Some g)
      have "a = [] \<longrightarrow> fst (expand_path home f []) = q" using e by auto
      then show ?thesis using that [of a'] e plenty skip Some by (cases q) auto
    qed
    show ?thesis
    proof (cases "fst (find_file_by_list home exist fs b)")
      case None
      with Cons.IH [of b] ab show ?thesis unfolding b by auto
    next
      case (Some p)
      with Cons.IH [of b] show ?thesis unfolding b by auto
    qed
  qed
qed simp

theorem found_file_absolute_witness:
  "find_file_by_list (Some ''/home/op'') (\<lambda>p. p = ''/home/op/rig.cfg'') [NULL, Some ''~/rig.cfg''] [] =
     (Some ''/home/op/rig.cfg'', []) \<and> absolute ''/home/op/rig.cfg''"
  using found_file_absolute [where exist = "\<lambda>p. p = ''/home/op/rig.cfg''" and home = "Some ''/home/op''"
      and files = "[NULL, Some ''~/rig.cfg'']" and a = "[]"]
  by (simp add: expand_path_def home_suffix_def is_home_rest_def absolute_def)

end
