(* ===== verification/Config_State.thy ===== *)
theory Config_State
  imports Config_Load C_Heap Util_File
begin

text \<open>
  The live configuration of \<open>config.c\<close>: the global dictionaries \<open>cfg\<close> and
  \<open>default_cfg\<close> (which may be the same object), the hard-coded defaults, setting a value
  with validation, applying and reloading a configuration, the registry of reload events,
  and the shutdown.

  Dictionaries are blocks of a heap. A reload callback is known by an address; the model
  records each call with its argument in \<open>cg_trace\<close>. The callbacks are taken not to change
  the list of events or the dictionaries while they run. Log messages are not modelled; the
  counters of the final message of \<open>cfg_apply_new\<close> are kept.
\<close>

subsection \<open>State\<close>

datatype defconfig_type =
    DEFCONFIG_STRING | DEFCONFIG_BOOL | DEFCONFIG_INT | DEFCONFIG_UINT | DEFCONFIG_FLOAT
  | DEFCONFIG_PATH | DEFCONFIG_PASSWORD | DEFCONFIG_ENUM

record defconfig =
  def_key :: string
  def_val :: "string ptr"
  def_type :: defconfig_type
  def_choices :: "string ptr"

record reload_event =
  re_id :: nat
  re_key :: "string ptr"
  re_callback :: nat
  re_note :: "string ptr"

record cfg_globals =
  cg_heap :: "dict heap"
  cg_cfg :: "nat ptr"
  cg_default :: "nat ptr"
  cg_file :: "string ptr"
  cg_events :: "reload_event list"
  cg_next :: nat
  cg_trace :: "(nat \<times> string ptr) list"
  cg_counts :: "nat \<times> nat \<times> nat"

subsection \<open>Dictionaries behind pointers\<close>

definition cfg_dict :: "cfg_globals \<Rightarrow> nat ptr \<Rightarrow> dict ptr comp" where
  "cfg_dict g p = (case p of None \<Rightarrow> Some NULL | Some _ \<Rightarrow> map_option Some (h_read p (cg_heap g)))"

text \<open>\<open>dict_add\<close> through a pointer.\<close>

definition dict_add_at :: "nat ptr \<Rightarrow> string \<Rightarrow> string ptr \<Rightarrow> cfg_globals \<Rightarrow> (int \<times> cfg_globals) proc" where
  "dict_add_at p key val g a =
     (case p of
        None \<Rightarrow> Some (Done (- 1, g), a)
      | Some _ \<Rightarrow>
          do {
            d \<leftarrow> h_read p (cg_heap g);
            (r, d', a) \<leftarrow> dict_add (Some d) (Some key) val a;
            h \<leftarrow> h_write p (\<lambda>_. case d' of Some x \<Rightarrow> x | None \<Rightarrow> d) (cg_heap g);
            Some (Done (r, g\<lparr>cg_heap := h\<rparr>), a)
          })"

subsection \<open>Defaults\<close>

definition cfg_set_default :: "nat ptr \<Rightarrow> string ptr \<Rightarrow> string ptr \<Rightarrow> cfg_globals \<Rightarrow> (bool \<times> cfg_globals) proc" where
  "cfg_set_default d key val g =
     (case key of
        None \<Rightarrow> ret (False, g)
      | Some k \<Rightarrow>
          if d = NULL then ret (False, g)
          else andthen (dict_add_at d k val g) (\<lambda>(r, g). ret (r = 0, g)))"

text \<open>The array ends at the first entry without a key. A failed entry is only counted.\<close>

fun set_defaults_loop :: "nat ptr \<Rightarrow> defconfig list \<Rightarrow> nat \<Rightarrow> cfg_globals \<Rightarrow> (nat \<times> cfg_globals) proc" where
  "set_defaults_loop d [] warnings g = ret (warnings, g)"
| "set_defaults_loop d (def # defs) warnings g =
     (if def_val def = NULL then set_defaults_loop d defs warnings g
      else andthen (cfg_set_default d (Some (def_key def)) (def_val def) g) (\<lambda>(ok, g).
        set_defaults_loop d defs (if ok then warnings else warnings + 1) g))"

definition cfg_set_defaults :: "nat ptr \<Rightarrow> defconfig list ptr \<Rightarrow> cfg_globals \<Rightarrow> (bool \<times> cfg_globals) proc" where
  "cfg_set_defaults d defaults g =
     (case defaults of
        None \<Rightarrow> ret (False, g)
      | Some defs \<Rightarrow>
          if d = NULL then ret (False, g)
          else andthen (set_defaults_loop d defs 0 g) (\<lambda>(_, g). ret (True, g)))"

text \<open>The table \<open>defcfg\<close> is a weak symbol: \<open>NULL\<close> when the program defines none.\<close>

definition cfg_defconfig_find :: "defconfig list ptr \<Rightarrow> string \<Rightarrow> defconfig option" where
  "cfg_defconfig_find defcfg key =
     (case defcfg of None \<Rightarrow> None | Some defs \<Rightarrow> find (\<lambda>def. strcasecmp_eq (def_key def) key) defs)"

subsection \<open>Reload events\<close>

definition reload_event_add ::
    "string ptr \<Rightarrow> nat ptr \<Rightarrow> string ptr \<Rightarrow> cfg_globals \<Rightarrow> (nat ptr \<times> cfg_globals) proc" where
  "reload_event_add key callback note g a =
     (case callback of
        None \<Rightarrow> Some (Done (NULL, g), a)
      | Some f \<Rightarrow>
          (let (ok, a) = malloc_ok a
           in if \<not> ok then Some (Done (NULL, g), a)
              else andthen (if key = NULL then ret () else or_abort) (\<lambda>_.
                   andthen (if note = NULL then ret () else or_abort) (\<lambda>_.
                     ret (Some (cg_next g),
                       g\<lparr>cg_events := cg_events g @
                           [\<lparr>re_id = cg_next g, re_key = key, re_callback = f, re_note = note\<rparr>],
                         cg_next := cg_next g + 1\<rparr>))) a))"

definition key_matches :: "string ptr \<Rightarrow> string ptr \<Rightarrow> bool" where
  "key_matches key k \<longleftrightarrow>
     (case (key, k) of (None, None) \<Rightarrow> True | (Some s, Some t) \<Rightarrow> strcasecmp_eq s t | _ \<Rightarrow> False)"

definition reload_event_find :: "string ptr \<Rightarrow> nat ptr \<Rightarrow> cfg_globals \<Rightarrow> reload_event option" where
  "reload_event_find key callback g =
     (if key = NULL \<and> callback = NULL then None
      else find (\<lambda>r. (key = NULL \<or> key_matches key (re_key r)) \<and>
                     (callback = NULL \<or> callback = Some (re_callback r))) (cg_events g))"

definition reload_event_run :: "string ptr \<Rightarrow> cfg_globals \<Rightarrow> bool \<times> cfg_globals" where
  "reload_event_run key g =
     (let rs = filter (\<lambda>r. key_matches key (re_key r)) (cg_events g)
      in (rs \<noteq> [], g\<lparr>cg_trace := cg_trace g @ map (\<lambda>r. (re_callback r, key)) rs\<rparr>))"

fun remove_event :: "nat \<Rightarrow> reload_event list \<Rightarrow> reload_event list ptr" where
  "remove_event i [] = NULL"
| "remove_event i (r # rs) = (if re_id r = i then Some rs else map_option (\<lambda>rs. r # rs) (remove_event i rs))"

definition reload_event_remove :: "nat ptr \<Rightarrow> cfg_globals \<Rightarrow> bool \<times> cfg_globals" where
  "reload_event_remove evt g =
     (case evt of
        None \<Rightarrow> (False, g)
      | Some i \<Rightarrow>
          (case remove_event i (cg_events g) of
             None \<Rightarrow> (False, g) | Some rs \<Rightarrow> (True, g\<lparr>cg_events := rs\<rparr>)))"

subsection \<open>Setting a value\<close>

definition choice_words :: "string \<Rightarrow> string list" where
  "choice_words s = filter (\<lambda>w. w \<noteq> []) (foldr (\<lambda>c ws. if c = CHR ''|'' then [] # ws else (c # hd ws) # tl ws) s [[]])"

text \<open>
  The text to store, \<open>NULL\<close> when the value is refused. A failed \<open>strdup\<close> of the choices
  has no defined result (\<open>strtok_r\<close> is called on a null state).
\<close>

definition cfg_canonical :: "defconfig \<Rightarrow> string \<Rightarrow> alloc \<Rightarrow> (string ptr \<times> alloc) comp" where
  "cfg_canonical def value a =
     (case def_type def of
        DEFCONFIG_BOOL \<Rightarrow>
          Some (if strcasecmp_eq value ''true'' \<or> strcasecmp_eq value ''yes'' \<or> strcasecmp_eq value ''on'' \<or> value = ''1''
                then Some ''true''
                else if strcasecmp_eq value ''false'' \<or> strcasecmp_eq value ''no'' \<or> strcasecmp_eq value ''off'' \<or> value = ''0''
                then Some ''false'' else NULL, a)
      | DEFCONFIG_INT \<Rightarrow>
          (let (n, ep, erange) = strtoll value
           in Some (if erange \<or> ep = value \<or> ep \<noteq> [] then NULL else Some (show_int n), a))
      | DEFCONFIG_UINT \<Rightarrow>
          (if value \<noteq> [] \<and> hd value = CHR ''-'' then Some (NULL, a)
           else let (n, ep, erange) = strtoull value
             in Some (if erange \<or> ep = value \<or> ep \<noteq> [] then NULL else Some (show_int n), a))
      | DEFCONFIG_FLOAT \<Rightarrow>
          (let (n, ep, erange) = strtod value
           in Some (if erange \<or> ep = value \<or> ep \<noteq> [] then NULL else Some (fmt_g 9 n), a))
      | DEFCONFIG_ENUM \<Rightarrow>
          (case def_choices def of
             None \<Rightarrow> Some (Some value, a)
           | Some choices \<Rightarrow>
               if choices = [] then Some (Some value, a)
               else let (ok, a) = malloc_ok a
                 in if \<not> ok then None
                    else Some (if list_ex (\<lambda>p. strcasecmp_eq p value) (choice_words choices)
                               then Some value else NULL, a))
      | _ \<Rightarrow> Some (Some value, a))"

definition cfg_set_value ::
    "defconfig list ptr \<Rightarrow> string \<Rightarrow> string ptr \<Rightarrow> cfg_globals \<Rightarrow> (bool \<times> cfg_globals) proc" where
  "cfg_set_value defcfg key value g a =
     (case (cfg_defconfig_find defcfg key, value) of
        (Some def, Some v) \<Rightarrow>
          if cg_cfg g = NULL then Some (Done (False, g), a)
          else do {
            (stored, a) \<leftarrow> cfg_canonical def v a;
            case stored of
              None \<Rightarrow> Some (Done (False, g), a)
            | Some s \<Rightarrow>
                andthen (dict_add_at (cg_cfg g) key (Some s) g) (\<lambda>(r, g).
                  ret (if r \<noteq> 0 then (False, g)
                       else (True, snd (reload_event_run NULL (snd (reload_event_run (Some key) g)))))) a
          }
      | _ \<Rightarrow> Some (Done (False, g), a))"

subsection \<open>Reading\<close>

definition cfg_get_bool :: "cfg_globals \<Rightarrow> string \<Rightarrow> bool \<Rightarrow> bool comp" where
  "cfg_get_bool g key def = do { d \<leftarrow> cfg_dict g (cg_cfg g); dict_get_bool d (Some key) def }"

definition cfg_get_int :: "cfg_globals \<Rightarrow> string \<Rightarrow> u32 \<Rightarrow> u32 comp" where
  "cfg_get_int g key def = do { d \<leftarrow> cfg_dict g (cg_cfg g); dict_get_int d (Some key) def }"

definition cfg_get_ulong :: "cfg_globals \<Rightarrow> string \<Rightarrow> u64 \<Rightarrow> u64 comp" where
  "cfg_get_ulong g key def = do { d \<leftarrow> cfg_dict g (cg_cfg g); dict_get_ulong d (Some key) def }"

definition cfg_get_exp :: "cfg_globals \<Rightarrow> string \<Rightarrow> alloc \<Rightarrow> (string ptr \<times> alloc) comp" where
  "cfg_get_exp g key a =
     do {
       d \<leftarrow> cfg_dict g (cg_cfg g);
       def \<leftarrow> cfg_dict g (cg_default g);
       dict_get_exp d def d (Some key) a
     }"

definition cfg_get_path :: "string ptr \<Rightarrow> cfg_globals \<Rightarrow> string \<Rightarrow> alloc \<Rightarrow> (string ptr \<times> alloc) comp" where
  "cfg_get_path home g key a =
     do {
       (expanded, a) \<leftarrow> cfg_get_exp g key a;
       Some (case expanded of None \<Rightarrow> (NULL, a) | Some _ \<Rightarrow> expand_path home expanded a)
     }"

subsection \<open>Applying a configuration\<close>

definition cfg_dict_has_key :: "dict \<Rightarrow> string \<Rightarrow> bool" where
  "cfg_dict_has_key d wanted \<longleftrightarrow> list_ex (\<lambda>(key, v). key = wanted) (dict_items d 0)"

text \<open>The loop over the changes: the counters and the events of each key.\<close>

fun apply_loop :: "dict \<Rightarrow> dict \<Rightarrow> (string \<times> dict_value) list \<Rightarrow> cfg_globals \<Rightarrow> cfg_globals" where
  "apply_loop now before [] g = g"
| "apply_loop now before ((key, v) # kvs) g =
     (let (added, changed, removed) = cg_counts g;
          g = g\<lparr>cg_counts :=
                 if \<not> cfg_dict_has_key now key then (added, changed, removed + 1)
                 else if cfg_dict_has_key before key then (added, changed + 1, removed)
                 else (added + 1, changed, removed)\<rparr>
      in apply_loop now before kvs (snd (reload_event_run (Some key) g)))"

text \<open>The swap of the contents with the staged copy, the events, and the release of the rest.\<close>

definition apply_commit ::
    "nat ptr \<Rightarrow> nat ptr \<Rightarrow> dict \<Rightarrow> dict \<Rightarrow> dict \<Rightarrow> cfg_globals \<Rightarrow> cfg_globals comp" where
  "apply_commit oldcfg newcfg live staged changes g =
     do {
       h \<leftarrow> h_write (cg_cfg g) (\<lambda>_. staged) (cg_heap g);
       let g = g\<lparr>cg_heap := h, cg_counts := (0, 0, 0)\<rparr>;
           g = apply_loop staged live (dict_items changes 0) g;
           g = snd (reload_event_run NULL g)
       in do {
         h \<leftarrow> (if oldcfg \<noteq> NULL \<and> oldcfg \<noteq> cg_cfg g \<and> oldcfg \<noteq> newcfg
               then h_free oldcfg (cg_heap g) else Some (cg_heap g));
         h \<leftarrow> h_free newcfg h;
         Some (g\<lparr>cg_heap := h\<rparr>)
       }
     }"

definition cfg_apply_new :: "nat ptr \<Rightarrow> nat ptr \<Rightarrow> cfg_globals \<Rightarrow> (bool \<times> cfg_globals) proc" where
  "cfg_apply_new oldcfg newcfg g a =
     (if cg_cfg g = NULL \<or> newcfg = NULL \<or> newcfg = cg_cfg g then Some (Done (False, g), a)
      else do {
        live \<leftarrow> h_read (cg_cfg g) (cg_heap g);
        new \<leftarrow> h_read newcfg (cg_heap g);
        (changes, a) \<leftarrow> dict_diff (Some live) (Some new) a;
        (case changes of
           None \<Rightarrow> Some (Done (False, g), a)
         | Some ch \<Rightarrow>
             do {
               (staged, a) \<leftarrow> dict_clone (Some new) a;
               (case staged of
                  None \<Rightarrow> Some (Done (False, g), a)
                | Some st \<Rightarrow>
                    do { g \<leftarrow> apply_commit oldcfg newcfg live st ch g; Some (Done (True, g), a) })
             })
      })"

text \<open>The outcome of \<open>cfg_apply_new\<close> is not looked at.\<close>

definition cfg_reload :: "cfg_env \<Rightarrow> string ptr \<Rightarrow> cfg_globals \<Rightarrow> (bool \<times> cfg_globals) proc" where
  "cfg_reload env filename g =
     (case (if filename \<noteq> NULL then filename else cg_file g) of
        None \<Rightarrow> ret (False, g)
      | Some path \<Rightarrow>
          andthen (cfg_load env path) (\<lambda>newcfg.
            case newcfg of
              None \<Rightarrow> ret (False, g)
            | Some d \<Rightarrow>
                (let (p, h) = h_new d (cg_heap g); g = g\<lparr>cg_heap := h\<rparr>
                 in andthen (cfg_apply_new (cg_cfg g) (Some p) g) (\<lambda>(_, g). ret (True, g)))))"

definition cfg_detect_and_load ::
    "string ptr \<Rightarrow> cfg_env \<Rightarrow> string ptr list \<Rightarrow> cfg_globals \<Rightarrow> (bool \<times> cfg_globals) proc" where
  "cfg_detect_and_load home env configs g a =
     (let (fullpath, a) = find_file_by_list home (ce_exists env) configs a;
          (g, a) =
            (if cg_default g \<noteq> NULL then (g, a)
             else case dict_new a of
                 (None, a) \<Rightarrow> (g, a)
               | (Some d, a) \<Rightarrow>
                   (let (p, h) = h_new d (cg_heap g) in (g\<lparr>cg_heap := h, cg_default := Some p\<rparr>, a)))
      in case fullpath of
           None \<Rightarrow> Some (Done (True, g\<lparr>cg_cfg := cg_default g\<rparr>), a)
         | Some path \<Rightarrow>
             andthen or_abort (\<lambda>_.
             andthen (cfg_load env path) (\<lambda>newcfg.
               ret (True, (case newcfg of
                   None \<Rightarrow> g\<lparr>cg_file := Some path, cg_cfg := cg_default g\<rparr>
                 | Some d \<Rightarrow>
                     (let (p, h) = h_new d (cg_heap g)
                      in g\<lparr>cg_file := Some path, cg_heap := h, cg_cfg := Some p\<rparr>))))) a)"

subsection \<open>Shutdown\<close>

definition cfg_fini :: "cfg_globals \<Rightarrow> cfg_globals comp" where
  "cfg_fini g =
     do {
       h \<leftarrow> (if cg_cfg g \<noteq> NULL \<and> cg_cfg g \<noteq> cg_default g then h_free (cg_cfg g) (cg_heap g)
            else Some (cg_heap g));
       h \<leftarrow> (if cg_default g \<noteq> NULL then h_free (cg_default g) h else Some h);
       Some (g\<lparr>cg_heap := h, cg_events := [], cg_cfg := NULL, cg_default := NULL, cg_file := NULL\<rparr>)
     }"

end
