(* ===== verification/Config_Live.thy ===== *)
theory Config_Live
  imports Config_State Dict_Convert
begin

text \<open>
  Properties of the live configuration: applying a new configuration is all or nothing and
  tells exactly the callbacks concerned, a value that was set reads back, and the shutdown
  frees every dictionary once.
\<close>

subsection \<open>Events\<close>

text \<open>The calls \<open>reload_event_run\<close> makes for a key, in the order of registration.\<close>

definition event_calls :: "cfg_globals \<Rightarrow> string ptr \<Rightarrow> (nat \<times> string ptr) list" where
  "event_calls g key =
     map (\<lambda>r. (re_callback r, key)) (filter (\<lambda>r. key_matches key (re_key r)) (cg_events g))"

lemma reload_event_run_calls:
  "snd (reload_event_run key g) = g\<lparr>cg_trace := cg_trace g @ event_calls g key\<rparr>"
  by (simp add: reload_event_run_def event_calls_def Let_def)

lemma event_calls_cong [simp]:
  "event_calls (g\<lparr>cg_trace := t\<rparr>) = event_calls g" "event_calls (g\<lparr>cg_counts := c\<rparr>) = event_calls g"
  "event_calls (g\<lparr>cg_heap := h\<rparr>) = event_calls g"
  by (simp_all add: event_calls_def fun_eq_iff)

subsection \<open>Applying a configuration\<close>

definition live_ptr :: "cfg_globals \<Rightarrow> nat ptr \<Rightarrow> dict \<Rightarrow> bool" where
  "live_ptr g p d \<longleftrightarrow> (\<exists>i. p = Some i \<and> h_cells (cg_heap g) i = Some d) \<and> dict_clean d"

lemma has_key_live:
  assumes "dict_inv d"
  shows "cfg_dict_has_key d key \<longleftrightarrow> dict_map d key \<noteq> None"
  by (force simp: cfg_dict_has_key_def list_ex_iff map_of_eq_None_iff image_iff simp flip: dict_items_map)

definition count_keys :: "(string \<Rightarrow> bool) \<Rightarrow> (string \<times> 'v) list \<Rightarrow> nat" where
  "count_keys P kvs = length (filter (\<lambda>(k, v). P k) kvs)"

lemma apply_loop_effect:
  "apply_loop now before kvs g =
     g\<lparr>cg_trace := cg_trace g @ concat (map (\<lambda>(k, v). event_calls g (Some k)) kvs),
       cg_counts := (case cg_counts g of (x, y, z) \<Rightarrow>
         (x + count_keys (\<lambda>k. cfg_dict_has_key now k \<and> \<not> cfg_dict_has_key before k) kvs,
          y + count_keys (\<lambda>k. cfg_dict_has_key now k \<and> cfg_dict_has_key before k) kvs,
          z + count_keys (\<lambda>k. \<not> cfg_dict_has_key now k) kvs))\<rparr>"
proof (induction kvs arbitrary: g)
  case (Cons kv kvs)
  obtain k v where "kv = (k, v)" by (cases kv)
  then show ?case
    by (cases "cg_counts g") (simp add: Cons.IH reload_event_run_calls count_keys_def Let_def)
qed (simp add: count_keys_def split: prod.split)

lemma count_keys_card:
  assumes "distinct (map fst kvs)"
  shows "count_keys P kvs = card {k \<in> fst ` set kvs. P k}"
proof -
  have "count_keys P kvs = length (map fst (filter (\<lambda>(k, v). P k) kvs))" by (simp add: count_keys_def)
  also have "\<dots> = card (set (map fst (filter (\<lambda>(k, v). P k) kvs)))"
    using assms by (intro distinct_card [symmetric] distinct_map_filter)
  also have "set (map fst (filter (\<lambda>(k, v). P k) kvs)) = {k \<in> fst ` set kvs. P k}" by force
  finally show ?thesis .
qed

text \<open>The keys on which two maps differ.\<close>

definition changed_keys :: "(string \<rightharpoonup> dict_value) \<Rightarrow> (string \<rightharpoonup> dict_value) \<Rightarrow> string set" where
  "changed_keys m n = {k. diff_spec m n k \<noteq> None}"

text \<open>What applying \<open>n\<close> to \<open>m\<close> must do, for the state before and after and the keys reported.\<close>

definition applied :: "cfg_globals \<Rightarrow> cfg_globals \<Rightarrow> dict \<Rightarrow> dict \<Rightarrow> string list \<Rightarrow> bool" where
  "applied g g' m n ks \<longleftrightarrow>
     (\<exists>d. live_ptr g' (cg_cfg g) d \<and> dict_map d = dict_map n) \<and> cg_cfg g' = cg_cfg g \<and>
     distinct ks \<and> set ks = changed_keys (dict_map m) (dict_map n) \<and>
     cg_trace g' = cg_trace g @ concat (map (\<lambda>k. event_calls g (Some k)) ks) @ event_calls g NULL \<and>
     cg_counts g' =
       (card {k \<in> set ks. dict_map n k \<noteq> None \<and> dict_map m k = None},
        card {k \<in> set ks. dict_map n k \<noteq> None \<and> dict_map m k \<noteq> None},
        card {k \<in> set ks. dict_map n k = None})"

lemma map_keys: "map (\<lambda>(k, v). f k) kvs = map f (map fst kvs)"
  by (induction kvs) auto

lemma apply_commit_ok:
  assumes i: "cg_cfg g = Some i" "h_cells (cg_heap g) i = Some m" "dict_clean m"
    and q: "h_cells (cg_heap g) q = Some n" "i \<noteq> q"
    and s: "dict_clean s" "dict_map s = dict_map n"
    and c: "dict_clean c" "dict_map c = diff_spec (dict_map m) (dict_map n)"
  shows "\<exists>g'. apply_commit (Some i) (Some q) m s c g = Some g' \<and> h_cells (cg_heap g') q = None \<and>
    (\<exists>ks. applied g g' m n ks)"
proof -
  define ks where "ks = map fst (dict_items c 0)"
  define h where "h = (cg_heap g)\<lparr>h_cells := (h_cells (cg_heap g))(i \<mapsto> s)\<rparr>"
  define g1 where "g1 = g\<lparr>cg_heap := h, cg_counts := (0, 0, 0)\<rparr>"
  define g2 where "g2 = snd (reload_event_run NULL (apply_loop s m (dict_items c 0) g1))"
  define g3 where "g3 = g2\<lparr>cg_heap := h\<lparr>h_cells := (h_cells h)(q := None)\<rparr>\<rparr>"
  have dist: "distinct ks"
    unfolding ks_def by (rule dict_items_distinct [OF dict_cleanD(1) [OF c(1)]])
  have "set ks = dom (dict_map c)"
    unfolding dict_items_map [symmetric] ks_def by (simp add: dom_map_of_conv_image_fst)
  then have setks: "set ks = changed_keys (dict_map m) (dict_map n)"
    unfolding c(2) changed_keys_def by (simp add: dom_def)
  have cnt: "count_keys P (dict_items c 0) = card {k \<in> set ks. P k}" for P
    using count_keys_card [of "dict_items c 0" P] dist by (simp add: ks_def)
  have has: "cfg_dict_has_key s k = (dict_map n k \<noteq> None)" "cfg_dict_has_key m k = (dict_map m k \<noteq> None)" for k
    using has_key_live [OF dict_cleanD(1) [OF s(1)]] has_key_live [OF dict_cleanD(1) [OF i(3)]] s(2) by simp_all
  have calls: "concat (map (\<lambda>(k, v). event_calls g1 (Some k)) (dict_items c 0)) =
      concat (map (\<lambda>k. event_calls g (Some k)) ks)"
    unfolding map_keys ks_def by (simp add: g1_def)
  have g2: "g2 = g1\<lparr>cg_trace := cg_trace g @ concat (map (\<lambda>k. event_calls g (Some k)) ks) @ event_calls g NULL,
      cg_counts :=
        (card {k \<in> set ks. dict_map n k \<noteq> None \<and> dict_map m k = None},
         card {k \<in> set ks. dict_map n k \<noteq> None \<and> dict_map m k \<noteq> None},
         card {k \<in> set ks. dict_map n k = None})\<rparr>"
    unfolding g2_def reload_event_run_calls apply_loop_effect cnt has calls
    by (simp add: g1_def)
  have heap: "cg_heap g2 = h" "cg_cfg g2 = Some i" using g2 i(1) by (simp_all add: g1_def)
  have free: "h_free (Some q) h = Some (h\<lparr>h_cells := (h_cells h)(q := None)\<rparr>)"
    using q by (intro h_free_Some [of _ _ n]) (simp add: h_def)
  have written: "h_write (Some i) (\<lambda>_. s) (cg_heap g) = Some h"
    using h_write_Some [OF i(2)] by (simp add: h_def)
  have "apply_commit (Some i) (Some q) m s c g = Some g3"
    using heap free unfolding apply_commit_def i(1) written
    by (simp add: Let_def g3_def flip: g1_def g2_def)
  moreover have "applied g g3 m n ks"
    unfolding applied_def live_ptr_def using dist setks s q i(1) g2
    by (simp add: g3_def g1_def h_def)
  moreover have "h_cells (cg_heap g3) q = None" by (simp add: g3_def)
  ultimately show ?thesis by blast
qed

text \<open>C8: applying a configuration is all or nothing. Either an allocation failed and nothing
  has changed, or the live dictionary, at its old address, has exactly the entries of the new
  one, the new dictionary is released, the callbacks of every key that differs (and of no
  other) have run once, followed by those of a complete reload, and the reported counts of
  added, changed and removed keys are the true ones.\<close>

theorem apply_new_atomic:
  assumes m: "live_ptr g (cg_cfg g) m" and n: "live_ptr g (Some q) n" and neq: "Some q \<noteq> cg_cfg g"
    and room: "unat (d_used m) + unat (d_used n) \<le> 2 ^ 28"
  shows "\<exists>ok g' a'. cfg_apply_new (cg_cfg g) (Some q) g a = Some (Done (ok, g'), a') \<and>
    (if ok then h_cells (cg_heap g') q = None \<and> (\<exists>ks. applied g g' m n ks) else g' = g \<and> a \<noteq> [])"
proof -
  obtain i where i: "cg_cfg g = Some i" "h_cells (cg_heap g) i = Some m" "dict_clean m"
    using m by (auto simp: live_ptr_def)
  have nq: "h_cells (cg_heap g) q = Some n" "dict_clean n" using n by (auto simp: live_ptr_def)
  have iq: "i \<noteq> q" using neq i by simp
  obtain ch a1 where diff: "dict_diff (Some m) (Some n) a = Some (ch, a1)" "a = [] \<longrightarrow> a1 = []"
    "case ch of None \<Rightarrow> a \<noteq> [] | Some c \<Rightarrow> dict_clean c \<and> dict_map c = diff_spec (dict_map m) (dict_map n)"
    using dict_diff_correct [OF i(3) nq(2) room, of a] by blast
  show ?thesis
  proof (cases ch)
    case None
    then have "cfg_apply_new (cg_cfg g) (Some q) g a = Some (Done (False, g), a1)"
      using diff(1) i nq neq by (simp add: cfg_apply_new_def)
    with diff(3) None show ?thesis by auto
  next
    case (Some c)
    have nused: "unat (d_used n) \<le> 2 ^ 28" using room by simp
    obtain st a2 where clone: "dict_clone (Some n) a1 = Some (st, a2)"
      "case st of None \<Rightarrow> a1 \<noteq> [] | Some s \<Rightarrow> dict_clean s \<and> dict_map s = dict_map n"
      using dict_clone_correct [OF dict_cleanD(1) [OF nq(2)] nused, of a1] by blast
    show ?thesis
    proof (cases st)
      case None
      then have "cfg_apply_new (cg_cfg g) (Some q) g a = Some (Done (False, g), a2)"
        using diff(1) clone(1) Some i nq neq by (simp add: cfg_apply_new_def)
      with diff(2) clone(2) None show ?thesis by auto
    next
      case (Some s)
      have s: "dict_clean s" "dict_map s = dict_map n" using clone(2) Some by simp_all
      have c: "dict_clean c" "dict_map c = diff_spec (dict_map m) (dict_map n)"
        using diff(3) \<open>ch = Some c\<close> by simp_all
      obtain g' where g': "apply_commit (Some i) (Some q) m s c g = Some g'" "h_cells (cg_heap g') q = None"
        "\<exists>ks. applied g g' m n ks"
        using apply_commit_ok [OF i nq(1) iq s c] by blast
      then have "cfg_apply_new (cg_cfg g) (Some q) g a = Some (Done (True, g'), a2)"
        using diff(1) clone(1) Some \<open>ch = Some c\<close> i nq iq by (simp add: cfg_apply_new_def)
      with g' show ?thesis by auto
    qed
  qed
qed

text \<open>A live configuration with one setting and a new one with another.\<close>

definition heap_two :: "dict \<Rightarrow> dict \<Rightarrow> cfg_globals" where
  "heap_two m n =
     \<lparr>cg_heap = \<lparr>h_cells = [0 \<mapsto> m, 1 \<mapsto> n], h_next = 2\<rparr>, cg_cfg = Some 0, cg_default = NULL, cg_file = NULL,
      cg_events = [\<lparr>re_id = 0, re_key = Some ''Rig'', re_callback = 7, re_note = NULL\<rparr>,
                   \<lparr>re_id = 1, re_key = NULL, re_callback = 8, re_note = NULL\<rparr>],
      cg_next = 2, cg_trace = [], cg_counts = (0, 0, 0)\<rparr>"

lemma dict_with:
  "\<exists>d. dict_clean d \<and> dict_map d = [k \<mapsto> v] \<and> unat (d_used d) \<le> 1 \<and> unat (d_fill d) \<le> 1"
proof -
  obtain p a' where new: "dict_new [] = (p, a')" by fastforce
  from dict_new_fresh [OF new] obtain d0 where d0: "dict_clean d0" "unat (d_fill d0) = 0" "dict_map d0 = Map.empty"
    by auto
  then have "unat (d_fill d0) < 2 ^ 28" by simp
  from dict_clean_store [OF d0(1) this, of k v "[]"] d0 obtain d
    where d: "dict_clean d" "unat (d_fill d) \<le> 1" "dict_map d = [k \<mapsto> v]" by auto
  moreover have "unat (d_used d) \<le> 1"
    using card_dict_map [OF dict_cleanD(1) [OF d(1)]] d(3) by simp
  ultimately show ?thesis by blast
qed

theorem apply_new_atomic_witness:
  "\<exists>m n g' a'. dict_map m = [''rig'' \<mapsto> V_str (Some ''off'')] \<and> dict_map n = [''rig'' \<mapsto> V_str (Some ''on'')] \<and>
    cfg_apply_new (Some 0) (Some 1) (heap_two m n) [] = Some (Done (True, g'), a') \<and>
    cg_trace g' = [(7, Some ''rig''), (8, NULL)] \<and> cg_counts g' = (0, 1, 0)"
proof -
  obtain m where m: "dict_clean m" "dict_map m = [''rig'' \<mapsto> V_str (Some ''off'')]" "unat (d_used m) \<le> 1"
    using dict_with by blast
  obtain n where n: "dict_clean n" "dict_map n = [''rig'' \<mapsto> V_str (Some ''on'')]" "unat (d_used n) \<le> 1"
    using dict_with by blast
  let ?g = "heap_two m n"
  have "live_ptr ?g (cg_cfg ?g) m" "live_ptr ?g (Some 1) n" "Some 1 \<noteq> cg_cfg ?g"
    "unat (d_used m) + unat (d_used n) \<le> 2 ^ 28"
    using m n by (simp_all add: live_ptr_def heap_two_def)
  from apply_new_atomic [OF this, of "[]"] obtain g' a' ks
    where r: "cfg_apply_new (cg_cfg ?g) (Some 1) ?g [] = Some (Done (True, g'), a')" "applied ?g g' m n ks"
    by (auto split: if_splits)
  have "changed_keys (dict_map m) (dict_map n) = {''rig''}"
    unfolding changed_keys_def m(2) n(2)
    by (auto simp: diff_spec_def value_changed_def dict_values_equal_def split: if_splits)
  with r(2) have "set ks = {''rig''}" "distinct ks" by (simp_all add: applied_def)
  then have "length ks = 1" using distinct_card by fastforce
  with \<open>set ks = {''rig''}\<close> have ks: "ks = [''rig'']" by (cases ks) auto
  have "strcasecmp_eq ''rig'' ''Rig''" by code_simp
  then have "event_calls ?g (Some ''rig'') = [(7, Some ''rig'')]" "event_calls ?g NULL = [(8, NULL)]"
    by (simp_all add: event_calls_def heap_two_def key_matches_def)
  moreover have "{k. k = ''rig'' \<and> dict_map n k \<noteq> None \<and> dict_map m k \<noteq> None} = {''rig''}"
    using m(2) n(2) by auto
  ultimately have "cg_trace g' = [(7, Some ''rig''), (8, NULL)]" "cg_counts g' = (0, 1, 0)"
    using r(2) m(2) n(2) unfolding applied_def ks by (auto simp: heap_two_def)
  with m(2) n(2) r(1) show ?thesis
    by (intro exI [of _ m] exI [of _ n] exI [of _ g'] exI [of _ a']) (simp add: heap_two_def)
qed

subsection \<open>Setting a value\<close>

text \<open>The live dictionary accepts another entry.\<close>

definition live_room :: "cfg_globals \<Rightarrow> dict \<Rightarrow> bool" where
  "live_room g d \<longleftrightarrow> live_ptr g (cg_cfg g) d \<and> unat (d_fill d) < 2 ^ 28"

lemma set_value_stores:
  assumes live: "live_room g d"
    and def: "cfg_defconfig_find defcfg key = Some def"
    and canon: "cfg_canonical def v [] = Some (Some s, [])"
  shows "\<exists>g' d'. cfg_set_value defcfg key (Some v) g [] = Some (Done (True, g'), []) \<and>
    live_ptr g' (cg_cfg g) d' \<and> cg_cfg g' = cg_cfg g \<and>
    dict_map d' = (dict_map d)(key \<mapsto> V_str (Some s)) \<and>
    cg_trace g' = cg_trace g @ event_calls g (Some key) @ event_calls g NULL"
proof -
  obtain i where i: "cg_cfg g = Some i" "h_cells (cg_heap g) i = Some d" "dict_clean d" "unat (d_fill d) < 2 ^ 28"
    using live by (auto simp: live_room_def live_ptr_def)
  obtain d' where d': "dict_add (Some d) (Some key) (Some s) [] = Some (0, Some d', [])" "dict_clean d'"
    "dict_map d' = (dict_map d)(key \<mapsto> V_str (Some s))"
    using dict_clean_store [OF i(3,4), of key "V_str (Some s)" "[]"] by (auto simp: dict_add_def)
  define g1 where "g1 = g\<lparr>cg_heap := (cg_heap g)\<lparr>h_cells := (h_cells (cg_heap g))(i \<mapsto> d')\<rparr>\<rparr>"
  have add: "dict_add_at (cg_cfg g) key (Some s) g [] = Some (Done (0, g1), [])"
    using i d'(1) by (simp add: dict_add_at_def h_write_Some g1_def)
  let ?g' = "snd (reload_event_run NULL (snd (reload_event_run (Some key) g1)))"
  have "cfg_set_value defcfg key (Some v) g [] = Some (Done (True, ?g'), [])"
    using i(1) def canon add by (simp add: cfg_set_value_def)
  moreover have "live_ptr ?g' (cg_cfg g) d'" "cg_cfg ?g' = cg_cfg g"
    "cg_trace ?g' = cg_trace g @ event_calls g (Some key) @ event_calls g NULL"
    using i(1) d'(2) by (simp_all add: reload_event_run_calls live_ptr_def g1_def)
  ultimately show ?thesis using d'(3) by blast
qed

text \<open>A getter on the live dictionary.\<close>

lemma live_get:
  assumes "live_ptr g p d" and "dict_map d key = Some v"
  shows "do { x \<leftarrow> cfg_dict g p; get_value x (Some key) dflt conv } = Some (conv dflt v)"
  using assms get_value_map [of d key v dflt conv]
  by (auto simp: live_ptr_def cfg_dict_def dict_clean_def)

text \<open>A value that was set reads back. For an integer setting every text that \<open>strtol\<close>
  converts completely to a number in the range of \<open>int\<close> is accepted, \<open>cfg_get_int\<close> then
  returns this number, no other setting changes, and exactly the callbacks for the key and
  for a complete reload have run.\<close>

theorem set_int_reads_back:
  assumes live: "live_room g d"
    and def: "cfg_defconfig_find defcfg key = Some def" "def_type def = DEFCONFIG_INT"
    and v: "v \<noteq> []" "strtoll v = (n, [], False)" and range: "INT_MIN \<le> n" "n \<le> INT_MAX"
  shows "\<exists>g' d'. cfg_set_value defcfg key (Some v) g [] = Some (Done (True, g'), []) \<and>
    cfg_get_int g' key dflt = Some (word_of_int n) \<and>
    live_ptr g' (cg_cfg g) d' \<and> dict_map d' = (dict_map d)(key \<mapsto> V_str (Some (show_int n))) \<and>
    cg_trace g' = cg_trace g @ event_calls g (Some key) @ event_calls g NULL"
proof -
  have "cfg_canonical def v [] = Some (Some (show_int n), [])"
    using def(2) v by (simp add: cfg_canonical_def)
  from set_value_stores [OF live def(1) this] obtain g' d'
    where g': "cfg_set_value defcfg key (Some v) g [] = Some (Done (True, g'), [])"
      "live_ptr g' (cg_cfg g) d'" "cg_cfg g' = cg_cfg g" "dict_map d' = (dict_map d)(key \<mapsto> V_str (Some (show_int n)))"
      "cg_trace g' = cg_trace g @ event_calls g (Some key) @ event_calls g NULL" by blast
  have "parse_ll (Some (show_int n)) = Some n" using range by (simp add: parse_ll_show_int)
  then have "int_of_value dflt (V_str (Some (show_int n))) = word_of_int n"
    using range by (simp add: int_of_value_def)
  then have "cfg_get_int g' key dflt = Some (word_of_int n)"
    using live_get [OF g'(2), of key "V_str (Some (show_int n))" dflt int_of_value] g'(3,4)
    by (simp add: cfg_get_int_def dict_get_int_def)
  with g' show ?thesis by blast
qed

definition sample_defs :: "defconfig list" where
  "sample_defs = [\<lparr>def_key = ''Rig'', def_val = NULL, def_type = DEFCONFIG_INT, def_choices = NULL\<rparr>]"

theorem set_int_reads_back_witness:
  "\<exists>m n g'. cfg_set_value (Some sample_defs) ''rig'' (Some '' -42'') (heap_two m n) [] = Some (Done (True, g'), []) \<and>
    cfg_get_int g' ''rig'' 0 = Some (- 42)"
proof -
  obtain m where m: "dict_clean m" "unat (d_fill m) \<le> 1" using dict_with by blast
  have "live_room (heap_two m n) m" for n
    using m by (simp add: live_room_def live_ptr_def heap_two_def)
  moreover have "cfg_defconfig_find (Some sample_defs) ''rig'' = Some (hd sample_defs)"
  proof -
    have "strcasecmp_eq ''Rig'' ''rig''" by code_simp
    then show ?thesis by (simp add: cfg_defconfig_find_def sample_defs_def)
  qed
  moreover have "strtoll '' -42'' = (- 42, [], False)" by code_simp
  ultimately show ?thesis
    using set_int_reads_back [of "heap_two m m" m "Some sample_defs" "''rig''" "hd sample_defs" "'' -42''" "- 42" 0]
    by (force simp: sample_defs_def)
qed

text \<open>The minus sign is looked for at the first character only: behind a space it is accepted
  for an unsigned setting and wraps around.\<close>

lemma set_uint_accepts_negative:
  "def_type def = DEFCONFIG_UINT \<Longrightarrow>
     cfg_canonical def ''-5'' a = Some (NULL, a) \<and>
     cfg_canonical def '' -5'' a = Some (Some (show_int (2 ^ 64 - 5)), a)"
proof -
  have "strtoull '' -5'' = (18446744073709551611, [], False)" by code_simp
  moreover assume "def_type def = DEFCONFIG_UINT"
  ultimately show ?thesis by (simp add: cfg_canonical_def)
qed

text \<open>A definition is found without regard to case, but the value is stored under the
  spelling of the caller: the setting in use is not changed.\<close>

lemma set_value_other_spelling:
  assumes live: "live_room g d" and other: "strcasecmp_eq k key" "k \<noteq> key"
    and def: "cfg_defconfig_find defcfg key = Some def" and canon: "cfg_canonical def v [] = Some (Some s, [])"
  shows "\<exists>g' d'. cfg_set_value defcfg key (Some v) g [] = Some (Done (True, g'), []) \<and>
    live_ptr g' (cg_cfg g) d' \<and> dict_map d' k = dict_map d k"
  using set_value_stores [OF live def canon] other(2) by fastforce

subsection \<open>Reloading\<close>

text \<open>\<open>cfg_reload\<close> reports success although \<open>cfg_apply_new\<close> failed.\<close>

lemma reload_hides_failure:
  assumes "cfg_load env path a = Some (Done (Some d), a1)"
    and "cfg_apply_new (cg_cfg g) (Some (h_next (cg_heap g))) (g\<lparr>cg_heap := snd (h_new d (cg_heap g))\<rparr>) a1 =
      Some (Done (False, g'), a2)"
  shows "cfg_reload env (Some path) g a = Some (Done (True, g'), a2)"
  using assms by (simp add: cfg_reload_def h_new_def)

subsection \<open>Shutdown\<close>

text \<open>The shutdown frees the live and the default dictionary exactly once, also when they
  are the same object, forgets every event and pointer, and a second call changes nothing.\<close>

theorem fini_frees_once:
  assumes "case cg_cfg g of None \<Rightarrow> True | Some i \<Rightarrow> h_cells (cg_heap g) i \<noteq> None"
    and "case cg_default g of None \<Rightarrow> True | Some i \<Rightarrow> h_cells (cg_heap g) i \<noteq> None"
  shows "\<exists>g'. cfg_fini g = Some g' \<and> cfg_fini g' = Some g' \<and> cg_events g' = [] \<and> cg_cfg g' = NULL \<and>
    cg_default g' = NULL \<and>
    h_cells (cg_heap g') = (h_cells (cg_heap g)) |` {i. Some i \<noteq> cg_cfg g \<and> Some i \<noteq> cg_default g}"
proof -
  have restrict: "c |` {i. True} = c" for c :: "nat \<rightharpoonup> dict" by (simp add: restrict_map_def)
  show ?thesis
    using assms
    by (cases "cg_cfg g"; cases "cg_default g")
      (auto simp: cfg_fini_def h_free_def restrict restrict_map_def fun_eq_iff)
qed

theorem fini_frees_once_witness:
  "\<forall>m n. \<exists>g'. cfg_fini ((heap_two m n)\<lparr>cg_default := Some 0\<rparr>) = Some g' \<and> cfg_fini g' = Some g' \<and>
    h_cells (cg_heap g') 0 = None"
proof (intro allI)
  fix m n
  show "\<exists>g'. cfg_fini ((heap_two m n)\<lparr>cg_default := Some 0\<rparr>) = Some g' \<and> cfg_fini g' = Some g' \<and>
    h_cells (cg_heap g') 0 = None"
    using fini_frees_once [of "(heap_two m n)\<lparr>cg_default := Some 0\<rparr>"] by (auto simp: heap_two_def)
qed

end
