(* ===== verification/Event_Bus.thy ===== *)
theory Event_Bus
  imports Json_Write C_Heap Util_Mem
begin

text \<open>
  Model of \<open>event-bus.c\<close>, built without \<open>USE_PROFILING\<close>: the registry of listeners by
  event name, registration tokens, execution domains, the owned messages, and the emission of
  events. The registry is the dictionary of \<open>dict.c\<close> whose values point to event entries,
  which live on a heap of their own. Every operation runs under \<open>event_lock\<close> up to its
  callbacks, so it is one function on the state of the bus; what runs outside the lock, the
  callbacks and dispatchers, is a parameter \<open>env\<close> that may change the bus in any way.

  Function pointers and the pointers \<open>user\<close>, \<open>dispatch_user\<close> and \<open>cptr\<close>, which the bus
  only compares and hands on, are 64-bit words with 0 for \<open>NULL\<close>. The array and count of an
  entry's listeners are one list. The list that links all tokens is never read and left out.
\<close>

subsection \<open>Data\<close>

type_synonym handle = u64

record event_listener =
  el_cb :: handle
  el_user :: handle
  el_dispatch :: handle
  el_dispatch_user :: handle
  el_domain_delivery :: bool

record event_binary_listener =
  bl_cb :: handle
  bl_user :: handle
  bl_dispatch :: handle
  bl_dispatch_user :: handle

record event_entry =
  ee_listeners :: "event_listener list"
  ee_binary_listeners :: "event_binary_listener list"
  ee_generation :: u64

record rr_event_token =
  tk_event :: string
  tk_binary :: bool
  tk_cb :: handle
  tk_binary_cb :: handle
  tk_user :: handle
  tk_generation :: u64
  tk_active :: bool
  tk_message :: bool
  tk_executing :: u32

record owned_message_listener =
  ml_token :: nat
  ml_domain :: "string ptr"
  ml_cb :: handle
  ml_user :: handle
  ml_dispatch :: handle
  ml_dispatch_user :: handle

record event_domain =
  ed_name :: string
  ed_dispatch :: handle
  ed_user :: handle

record event_bus =
  eb_store :: "dict ptr"
  eb_entries :: "event_entry heap"
  eb_tokens :: "rr_event_token heap"
  eb_messages :: "owned_message_listener list"
  eb_domains :: "event_domain list"

definition empty_entry :: event_entry where
  "empty_entry = \<lparr>ee_listeners = [], ee_binary_listeners = [], ee_generation = 0\<rparr>"

definition empty_token :: rr_event_token where
  "empty_token = \<lparr>tk_event = [], tk_binary = False, tk_cb = 0, tk_binary_cb = 0, tk_user = 0,
     tk_generation = 0, tk_active = False, tk_message = False, tk_executing = 0\<rparr>"

subsection \<open>Entries\<close>

definition event_lookup_locked :: "event_bus \<Rightarrow> string ptr \<Rightarrow> nat ptr comp" where
  "event_lookup_locked b event =
     (if eb_store b = NULL \<or> event = NULL then Some NULL
      else do {
        p \<leftarrow> dict_get_ptr (eb_store b) event 0;
        Some (if p = 0 then NULL else Some (unat p))
      })"

definition event_entry_free :: "nat ptr \<Rightarrow> event_bus \<Rightarrow> event_bus comp" where
  "event_entry_free p b = do { h \<leftarrow> h_free p (eb_entries b); Some (b\<lparr>eb_entries := h\<rparr>) }"

definition event_get_or_create_locked :: "event_bus \<Rightarrow> string \<Rightarrow> (event_bus \<times> nat ptr) proc" where
  "event_get_or_create_locked b event =
     andthen (lift (event_lookup_locked b (Some event))) (\<lambda>entry.
       if entry \<noteq> NULL then ret (b, entry)
       else andthen xcalloc (\<lambda>_ a.
         let (entry, h) = h_new empty_entry (eb_entries b);
             b = b\<lparr>eb_entries := h\<rparr>
         in do {
           (r, d, a) \<leftarrow> dict_add_ptr (eb_store b) (Some event) (of_nat entry) a;
           if r \<noteq> 0 then do { b \<leftarrow> event_entry_free (Some entry) (b\<lparr>eb_store := d\<rparr>); Some (Done (b, NULL), a) }
           else Some (Done (b\<lparr>eb_store := d\<rparr>, Some entry), a)
         }))"

definition event_remove_if_empty_locked :: "string \<Rightarrow> nat \<Rightarrow> event_bus \<Rightarrow> event_bus comp" where
  "event_remove_if_empty_locked event entry b =
     do {
       e \<leftarrow> h_read (Some entry) (eb_entries b);
       if ee_listeners e \<noteq> [] \<or> ee_binary_listeners e \<noteq> [] then Some b
       else do {
         (r, d) \<leftarrow> dict_del (eb_store b) (Some event);
         event_entry_free (Some entry) (b\<lparr>eb_store := d\<rparr>)
       }
     }"

definition set_entry :: "nat \<Rightarrow> (event_entry \<Rightarrow> event_entry) \<Rightarrow> event_bus \<Rightarrow> event_bus comp" where
  "set_entry entry f b = do { h \<leftarrow> h_write (Some entry) f (eb_entries b); Some (b\<lparr>eb_entries := h\<rparr>) }"

definition event_init :: "event_bus \<Rightarrow> alloc \<Rightarrow> event_bus \<times> alloc" where
  "event_init b a =
     (if eb_store b = NULL then let (d, a) = dict_new a in (b\<lparr>eb_store := d\<rparr>, a) else (b, a))"

subsection \<open>Registration\<close>

text \<open>Appending a listener to the arrays of an entry, after they have been reallocated.\<close>

definition add_listener :: "event_listener \<Rightarrow> event_entry \<Rightarrow> event_entry" where
  "add_listener l e = e\<lparr>ee_listeners := ee_listeners e @ [l], ee_generation := ee_generation e + 1\<rparr>"

definition event_on_dispatch ::
    "event_bus \<Rightarrow> string ptr \<Rightarrow> handle \<Rightarrow> handle \<Rightarrow> handle \<Rightarrow> handle \<Rightarrow> event_bus proc" where
  "event_on_dispatch b ep cb user dispatch dispatch_user =
     (case ep of
        None \<Rightarrow> ret b
      | Some event \<Rightarrow>
          if cb = 0 \<or> eb_store b = NULL then ret b
          else andthen (event_get_or_create_locked b event) (\<lambda>(b, entry).
            case entry of
              None \<Rightarrow> ret b
            | Some e \<Rightarrow>
                andthen xrealloc (\<lambda>_.
                  lift (set_entry e (add_listener
                    \<lparr>el_cb = cb, el_user = user, el_dispatch = dispatch,
                     el_dispatch_user = dispatch_user, el_domain_delivery = False\<rparr>) b))))"

definition event_on :: "event_bus \<Rightarrow> string ptr \<Rightarrow> handle \<Rightarrow> handle \<Rightarrow> event_bus proc" where
  "event_on b event cb user = event_on_dispatch b event cb user 0 0"

text \<open>The binary variant does not count a generation.\<close>

definition event_on_binary_dispatch ::
    "event_bus \<Rightarrow> string ptr \<Rightarrow> handle \<Rightarrow> handle \<Rightarrow> handle \<Rightarrow> handle \<Rightarrow> event_bus proc" where
  "event_on_binary_dispatch b ep cb user dispatch dispatch_user =
     (case ep of
        None \<Rightarrow> ret b
      | Some event \<Rightarrow>
          if cb = 0 \<or> eb_store b = NULL then ret b
          else andthen (event_get_or_create_locked b event) (\<lambda>(b, entry).
            case entry of
              None \<Rightarrow> ret b
            | Some e \<Rightarrow>
                andthen xrealloc (\<lambda>_.
                  lift (set_entry e (\<lambda>x. x\<lparr>ee_binary_listeners := ee_binary_listeners x @
                    [\<lparr>bl_cb = cb, bl_user = user, bl_dispatch = dispatch,
                      bl_dispatch_user = dispatch_user\<rparr>]\<rparr>) b))))"

definition event_on_binary :: "event_bus \<Rightarrow> string ptr \<Rightarrow> handle \<Rightarrow> handle \<Rightarrow> event_bus proc" where
  "event_on_binary b event cb user = event_on_binary_dispatch b event cb user 0 0"

definition event_register_binary :: "event_bus \<Rightarrow> string ptr \<Rightarrow> handle \<Rightarrow> handle \<Rightarrow> event_bus proc" where
  "event_register_binary b event cb user = event_on_binary b event cb user"

text \<open>Allocating a token record and the copy of the event name it owns.\<close>

definition new_token :: "rr_event_token \<Rightarrow> event_bus \<Rightarrow> (event_bus \<times> nat ptr) proc" where
  "new_token t b =
     andthen xcalloc (\<lambda>_.
       andthen (xstrdup (tk_event t)) (\<lambda>event.
         let (token, h) = h_new (t\<lparr>tk_event := event\<rparr>) (eb_tokens b)
         in ret (b\<lparr>eb_tokens := h\<rparr>, Some token)))"

definition event_on_token_dispatch ::
    "event_bus \<Rightarrow> string ptr \<Rightarrow> handle \<Rightarrow> handle \<Rightarrow> handle \<Rightarrow> handle \<Rightarrow> (event_bus \<times> nat ptr) proc" where
  "event_on_token_dispatch b ep cb user dispatch dispatch_user =
     (case ep of
        None \<Rightarrow> ret (b, NULL)
      | Some event \<Rightarrow>
          if cb = 0 \<or> eb_store b = NULL then ret (b, NULL)
          else andthen (event_get_or_create_locked b event) (\<lambda>(b, entry).
            case entry of
              None \<Rightarrow> ret (b, NULL)
            | Some e \<Rightarrow>
                andthen xrealloc (\<lambda>_.
                  andthen (lift (set_entry e (add_listener
                      \<lparr>el_cb = cb, el_user = user, el_dispatch = dispatch,
                       el_dispatch_user = dispatch_user, el_domain_delivery = False\<rparr>) b)) (\<lambda>b.
                    andthen (lift (h_read entry (eb_entries b))) (\<lambda>x.
                      new_token (empty_token\<lparr>tk_event := event, tk_cb := cb, tk_user := user,
                        tk_generation := ee_generation x, tk_active := True\<rparr>) b)))))"

definition event_on_token :: "event_bus \<Rightarrow> string ptr \<Rightarrow> handle \<Rightarrow> handle \<Rightarrow> (event_bus \<times> nat ptr) proc" where
  "event_on_token b event cb user = event_on_token_dispatch b event cb user 0 0"

definition event_on_binary_token_dispatch ::
    "event_bus \<Rightarrow> string ptr \<Rightarrow> handle \<Rightarrow> handle \<Rightarrow> handle \<Rightarrow> handle \<Rightarrow> (event_bus \<times> nat ptr) proc" where
  "event_on_binary_token_dispatch b ep cb user dispatch dispatch_user =
     (case ep of
        None \<Rightarrow> ret (b, NULL)
      | Some event \<Rightarrow>
          if cb = 0 \<or> eb_store b = NULL then ret (b, NULL)
          else andthen (event_get_or_create_locked b event) (\<lambda>(b, entry).
            case entry of
              None \<Rightarrow> ret (b, NULL)
            | Some e \<Rightarrow>
                andthen xrealloc (\<lambda>_.
                  andthen (lift (set_entry e (\<lambda>x. x\<lparr>ee_binary_listeners := ee_binary_listeners x @
                      [\<lparr>bl_cb = cb, bl_user = user, bl_dispatch = dispatch,
                        bl_dispatch_user = dispatch_user\<rparr>],
                      ee_generation := ee_generation x + 1\<rparr>) b)) (\<lambda>b.
                    andthen (lift (h_read entry (eb_entries b))) (\<lambda>x.
                      new_token (empty_token\<lparr>tk_event := event, tk_binary := True, tk_binary_cb := cb,
                        tk_user := user, tk_generation := ee_generation x, tk_active := True\<rparr>) b)))))"

definition event_on_binary_token :: "event_bus \<Rightarrow> string ptr \<Rightarrow> handle \<Rightarrow> handle \<Rightarrow> (event_bus \<times> nat ptr) proc" where
  "event_on_binary_token b event cb user = event_on_binary_token_dispatch b event cb user 0 0"


subsection \<open>Removal\<close>

text \<open>The loop that removes the first element with a property and shifts the rest down.\<close>

fun remove_first :: "('x \<Rightarrow> bool) \<Rightarrow> 'x list \<Rightarrow> 'x list" where
  "remove_first P [] = []"
| "remove_first P (x # xs) = (if P x then xs else x # remove_first P xs)"

definition off_listener :: "rr_event_token \<Rightarrow> event_entry \<Rightarrow> event_entry" where
  "off_listener t e =
     (if tk_binary t then
        (let P = (\<lambda>l. bl_cb l = tk_binary_cb t \<and> bl_user l = tk_user t)
         in if \<exists>l \<in> set (ee_binary_listeners e). P l
            then e\<lparr>ee_binary_listeners := remove_first P (ee_binary_listeners e),
                   ee_generation := ee_generation e + 1\<rparr>
            else e)
      else
        (let P = (\<lambda>l. el_cb l = tk_cb t \<and> el_user l = tk_user t)
         in if \<exists>l \<in> set (ee_listeners e). P l
            then e\<lparr>ee_listeners := remove_first P (ee_listeners e),
                   ee_generation := ee_generation e + 1\<rparr>
            else e))"

definition set_token :: "nat \<Rightarrow> (rr_event_token \<Rightarrow> rr_event_token) \<Rightarrow> event_bus \<Rightarrow> event_bus comp" where
  "set_token token f b = do { h \<leftarrow> h_write (Some token) f (eb_tokens b); Some (b\<lparr>eb_tokens := h\<rparr>) }"

definition event_off_token :: "event_bus \<Rightarrow> nat ptr \<Rightarrow> event_bus comp" where
  "event_off_token b tp =
     (case tp of
        None \<Rightarrow> Some b
      | Some token \<Rightarrow>
          do {
            t \<leftarrow> h_read tp (eb_tokens b);
            if \<not> tk_active t then Some b
            else if tk_message t then
              set_token token (\<lambda>t. t\<lparr>tk_active := False\<rparr>)
                (b\<lparr>eb_messages := remove_first (\<lambda>l. ml_token l = token) (eb_messages b)\<rparr>)
            else do {
              entry \<leftarrow> event_lookup_locked b (Some (tk_event t));
              b \<leftarrow> (case entry of
                    None \<Rightarrow> Some b
                  | Some e \<Rightarrow>
                      do {
                        b \<leftarrow> set_entry e (off_listener t) b;
                        event_remove_if_empty_locked (tk_event t) e b
                      });
              set_token token (\<lambda>t. t\<lparr>tk_active := False\<rparr>) b
            }
          })"

text \<open>Removal by callback and user, where \<open>NULL\<close> matches everything.\<close>

definition off_match :: "handle \<Rightarrow> handle \<Rightarrow> handle \<Rightarrow> handle \<Rightarrow> bool" where
  "off_match cb user l_cb l_user \<longleftrightarrow> (cb = 0 \<or> l_cb = cb) \<and> (user = 0 \<or> l_user = user)"

definition event_off :: "event_bus \<Rightarrow> string ptr \<Rightarrow> handle \<Rightarrow> handle \<Rightarrow> event_bus comp" where
  "event_off b ep cb user =
     (case ep of
        None \<Rightarrow> Some b
      | Some event \<Rightarrow>
          do {
            entry \<leftarrow> event_lookup_locked b ep;
            case entry of
              None \<Rightarrow> Some b
            | Some e \<Rightarrow>
                do {
                  b \<leftarrow> set_entry e (\<lambda>x. x\<lparr>ee_listeners :=
                         filter (\<lambda>l. \<not> off_match cb user (el_cb l) (el_user l)) (ee_listeners x)\<rparr>) b;
                  event_remove_if_empty_locked event e b
                }
          })"

definition event_off_binary :: "event_bus \<Rightarrow> string ptr \<Rightarrow> handle \<Rightarrow> handle \<Rightarrow> event_bus comp" where
  "event_off_binary b ep cb user =
     (case ep of
        None \<Rightarrow> Some b
      | Some event \<Rightarrow>
          do {
            entry \<leftarrow> event_lookup_locked b ep;
            case entry of
              None \<Rightarrow> Some b
            | Some e \<Rightarrow>
                do {
                  b \<leftarrow> set_entry e (\<lambda>x. x\<lparr>ee_binary_listeners :=
                         filter (\<lambda>l. \<not> off_match cb user (bl_cb l) (bl_user l)) (ee_binary_listeners x)\<rparr>) b;
                  event_remove_if_empty_locked event e b
                }
          })"

subsection \<open>Domains\<close>

definition find_domain :: "string \<Rightarrow> event_bus \<Rightarrow> event_domain ptr" where
  "find_domain name b = find (\<lambda>d. ed_name d = name) (eb_domains b)"

definition event_domain_register :: "event_bus \<Rightarrow> string ptr \<Rightarrow> handle \<Rightarrow> handle \<Rightarrow> (event_bus \<times> bool) proc" where
  "event_domain_register b np dispatch user =
     (case np of
        None \<Rightarrow> ret (b, False)
      | Some name \<Rightarrow>
          if name = [] \<or> dispatch = 0 \<or> eb_store b = NULL \<or> find_domain name b \<noteq> NULL then ret (b, False)
          else andthen xcalloc (\<lambda>_.
            andthen (xstrdup name) (\<lambda>name.
              ret (b\<lparr>eb_domains := \<lparr>ed_name = name, ed_dispatch = dispatch, ed_user = user\<rparr> # eb_domains b\<rparr>, True))))"

text \<open>The registry holds a listener that is delivered through the domain.\<close>

definition entry_uses :: "event_domain \<Rightarrow> event_entry \<Rightarrow> bool" where
  "entry_uses d e \<longleftrightarrow>
     (\<exists>l \<in> set (ee_listeners e). el_dispatch l = ed_dispatch d \<and> el_dispatch_user l = ed_user d) \<or>
     (\<exists>l \<in> set (ee_binary_listeners e). bl_dispatch l = ed_dispatch d \<and> bl_dispatch_user l = ed_user d)"

fun registry_uses :: "event_domain \<Rightarrow> event_entry heap \<Rightarrow> (string \<times> dict_value) list \<Rightarrow> bool comp" where
  "registry_uses d h [] = Some False"
| "registry_uses d h ((_, v) # items) =
     (case v of
        V_ptr p \<Rightarrow>
          if p = 0 then registry_uses d h items
          else do {
            e \<leftarrow> h_read (Some (unat p)) h;
            if entry_uses d e then Some True else registry_uses d h items
          }
      | _ \<Rightarrow> registry_uses d h items)"

definition event_domain_unregister :: "event_bus \<Rightarrow> string ptr \<Rightarrow> (event_bus \<times> bool) comp" where
  "event_domain_unregister b np =
     (case np of
        None \<Rightarrow> Some (b, False)
      | Some name \<Rightarrow>
          (case find_domain name b of
             None \<Rightarrow> Some (b, False)
           | Some d \<Rightarrow>
               if \<exists>l \<in> set (eb_messages b). ml_domain l = Some (ed_name d) then Some (b, False)
               else do {
                 used \<leftarrow> registry_uses d (eb_entries b)
                   (case eb_store b of None \<Rightarrow> [] | Some s \<Rightarrow> dict_items s 0);
                 Some (if used then (b, False)
                   else (b\<lparr>eb_domains := remove_first (\<lambda>d. ed_name d = name) (eb_domains b)\<rparr>, True))
               }))"

definition event_on_domain_token ::
    "event_bus \<Rightarrow> string ptr \<Rightarrow> handle \<Rightarrow> handle \<Rightarrow> string ptr \<Rightarrow> (event_bus \<times> nat ptr) proc" where
  "event_on_domain_token b ep cb user dp =
     (case (ep, dp) of
        (Some event, Some domain) \<Rightarrow>
          if cb = 0 then ret (b, NULL)
          else (case find_domain domain b of
              None \<Rightarrow> ret (b, NULL)
            | Some d \<Rightarrow>
                if ed_dispatch d = 0 then ret (b, NULL)
                else andthen (event_on_token_dispatch b ep cb user (ed_dispatch d) (ed_user d)) (\<lambda>(b, token).
                  if token = NULL then ret (b, NULL)
                  else andthen (event_get_or_create_locked b event) (\<lambda>(b, entry).
                    case entry of
                      None \<Rightarrow> ret (b, token)
                    | Some e \<Rightarrow>
                        andthen (lift (set_entry e (\<lambda>x. x\<lparr>ee_listeners := map (\<lambda>l.
                            if el_cb l = cb \<and> el_user l = user \<and> el_dispatch l = ed_dispatch d \<and>
                               el_dispatch_user l = ed_user d
                            then l\<lparr>el_domain_delivery := True\<rparr> else l) (ee_listeners x)\<rparr>) b)) (\<lambda>b.
                          ret (b, token)))))
      | _ \<Rightarrow> ret (b, NULL))"

definition event_on_binary_domain_token ::
    "event_bus \<Rightarrow> string ptr \<Rightarrow> handle \<Rightarrow> handle \<Rightarrow> string ptr \<Rightarrow> (event_bus \<times> nat ptr) proc" where
  "event_on_binary_domain_token b ep cb user dp =
     (case (ep, dp) of
        (Some event, Some domain) \<Rightarrow>
          if cb = 0 then ret (b, NULL)
          else (case find_domain domain b of
              None \<Rightarrow> ret (b, NULL)
            | Some d \<Rightarrow>
                if ed_dispatch d = 0 then ret (b, NULL)
                else event_on_binary_token_dispatch b ep cb user (ed_dispatch d) (ed_user d))
      | _ \<Rightarrow> ret (b, NULL))"

subsection \<open>Emission\<close>

text \<open>The owned copies that wait in a dispatcher, and the calls that leave the bus.\<close>

record queued_event =
  qe_cb :: handle
  qe_user :: handle
  qe_event :: string
  qe_data :: "string ptr"
  qe_cptr :: handle

record queued_binary_event =
  qb_cb :: handle
  qb_user :: handle
  qb_event :: string
  qb_data :: "u8 list ptr"
  qb_len :: nat
  qb_cptr :: handle

record rr_event_message =
  rm_name :: "string ptr"
  rm_sender :: "string ptr"
  rm_payload :: "u8 list ptr"
  rm_length :: nat
  rm_flags :: u32

record pending_message =
  pm_cb :: handle
  pm_token :: nat
  pm_user :: handle
  pm_message :: rr_event_message

datatype work =
    Run_event queued_event
  | Run_binary queued_binary_event
  | Run_message pending_message

datatype effect =
    Call_text handle string "string ptr" handle handle
  | Call_binary handle string "u8 list ptr" nat handle handle
  | Call_message handle rr_event_message handle
  | Dispatch handle handle work

type_synonym env = "effect \<Rightarrow> event_bus \<Rightarrow> event_bus proc"

text \<open>\<open>memcpy\<close> of \<open>len\<close> bytes reads outside its source when that is shorter.\<close>

definition copy_bytes :: "u8 list \<Rightarrow> nat \<Rightarrow> u8 list comp" where
  "copy_bytes bs len = (if len \<le> length bs then Some (take len bs) else None)"

definition event_dispatch_run :: "env \<Rightarrow> queued_event \<Rightarrow> event_bus \<Rightarrow> event_bus proc" where
  "event_dispatch_run env q = env (Call_text (qe_cb q) (qe_event q) (qe_data q) (qe_cptr q) (qe_user q))"

definition event_dispatch_binary_run :: "env \<Rightarrow> queued_binary_event \<Rightarrow> event_bus \<Rightarrow> event_bus proc" where
  "event_dispatch_binary_run env q =
     env (Call_binary (qb_cb q) (qb_event q) (qb_data q) (qb_len q) (qb_cptr q) (qb_user q))"

definition event_fire_listener ::
    "env \<Rightarrow> event_listener \<Rightarrow> string \<Rightarrow> handle \<Rightarrow> string ptr \<Rightarrow> event_bus \<Rightarrow> event_bus proc" where
  "event_fire_listener env l event cptr data b =
     (if el_cb l = 0 then ret b
      else if el_dispatch l = 0 then env (Call_text (el_cb l) event data cptr (el_user l)) b
      else andthen xcalloc (\<lambda>_.
        andthen (xstrdup event) (\<lambda>event.
          andthen (case data of None \<Rightarrow> ret NULL | Some s \<Rightarrow> andthen (xstrdup s) (\<lambda>s. ret (Some s))) (\<lambda>data.
            env (Dispatch (el_dispatch l) (el_dispatch_user l)
              (Run_event \<lparr>qe_cb = el_cb l, qe_user = el_user l, qe_event = event, qe_data = data,
                 qe_cptr = (if el_domain_delivery l then 0 else cptr)\<rparr>)) b))))"

definition event_fire_binary_listener ::
    "env \<Rightarrow> event_binary_listener \<Rightarrow> string \<Rightarrow> handle \<Rightarrow> u8 list ptr \<Rightarrow> nat \<Rightarrow> event_bus \<Rightarrow> event_bus proc" where
  "event_fire_binary_listener env l event cptr data len b =
     (if bl_cb l = 0 then ret b
      else if bl_dispatch l = 0 then env (Call_binary (bl_cb l) event data len cptr (bl_user l)) b
      else andthen xcalloc (\<lambda>_.
        andthen (xstrdup event) (\<lambda>event.
          andthen (case data of
              None \<Rightarrow> ret NULL
            | Some bs \<Rightarrow>
                if len = 0 then ret NULL
                else andthen xmalloc (\<lambda>_. lift (map_option Some (copy_bytes bs len)))) (\<lambda>data.
            env (Dispatch (bl_dispatch l) (bl_dispatch_user l)
              (Run_binary \<lparr>qb_cb = bl_cb l, qb_user = bl_user l, qb_event = event, qb_data = data,
                 qb_len = len, qb_cptr = cptr\<rparr>)) b))))"

text \<open>The snapshot of an entry's listeners, taken under the lock; the copy is allocated only
  when there are any.\<close>

definition event_snapshot_locked :: "nat ptr \<Rightarrow> event_bus \<Rightarrow> event_listener list proc" where
  "event_snapshot_locked entry b =
     (case entry of
        None \<Rightarrow> ret []
      | Some e \<Rightarrow>
          andthen (lift (h_read entry (eb_entries b))) (\<lambda>x.
            if ee_listeners x = [] then ret [] else andthen xmalloc (\<lambda>_. ret (ee_listeners x))))"

definition event_binary_snapshot_locked :: "nat ptr \<Rightarrow> event_bus \<Rightarrow> event_binary_listener list proc" where
  "event_binary_snapshot_locked entry b =
     (case entry of
        None \<Rightarrow> ret []
      | Some e \<Rightarrow>
          andthen (lift (h_read entry (eb_entries b))) (\<lambda>x.
            if ee_binary_listeners x = [] then ret []
            else andthen xmalloc (\<lambda>_. ret (ee_binary_listeners x))))"

text \<open>The loop over a snapshot; the bus is handed on, since callbacks may change it.\<close>

fun fire_all :: "('l \<Rightarrow> event_bus \<Rightarrow> event_bus proc) \<Rightarrow> 'l list \<Rightarrow> event_bus \<Rightarrow> event_bus proc" where
  "fire_all fire [] b = ret b"
| "fire_all fire (l # ls) b = andthen (fire l b) (fire_all fire ls)"

abbreviation EVENT_NOMATCH :: string where "EVENT_NOMATCH \<equiv> ''NOMATCH''"

definition event_emit :: "env \<Rightarrow> event_bus \<Rightarrow> string ptr \<Rightarrow> handle \<Rightarrow> string ptr \<Rightarrow> event_bus proc" where
  "event_emit env b ep cptr data =
     (case ep of
        None \<Rightarrow> ret b
      | Some event \<Rightarrow>
          andthen (lift (event_lookup_locked b ep)) (\<lambda>entry.
            andthen (event_snapshot_locked entry b) (\<lambda>snapshot.
              if snapshot \<noteq> [] then fire_all (\<lambda>l. event_fire_listener env l event cptr data) snapshot b
              else andthen (lift (event_lookup_locked b (Some EVENT_NOMATCH))) (\<lambda>nomatch.
                andthen (event_snapshot_locked nomatch b) (\<lambda>snapshot.
                  fire_all (\<lambda>l. event_fire_listener env l event cptr data) snapshot b)))))"

definition event_emit_binary ::
    "env \<Rightarrow> event_bus \<Rightarrow> string ptr \<Rightarrow> handle \<Rightarrow> u8 list ptr \<Rightarrow> nat \<Rightarrow> event_bus proc" where
  "event_emit_binary env b ep cptr data len =
     (case ep of
        None \<Rightarrow> ret b
      | Some event \<Rightarrow>
          andthen (lift (event_lookup_locked b ep)) (\<lambda>entry.
            andthen (event_binary_snapshot_locked entry b) (\<lambda>snapshot.
              fire_all (\<lambda>l. event_fire_binary_listener env l event cptr data len) snapshot b)))"

definition event_emit_dict :: "env \<Rightarrow> event_bus \<Rightarrow> string ptr \<Rightarrow> handle \<Rightarrow> dict ptr \<Rightarrow> event_bus proc" where
  "event_emit_dict env b event cptr data a =
     (case data of
        None \<Rightarrow> ret b a
      | Some _ \<Rightarrow>
          do {
            (jp, a) \<leftarrow> dict2json data a;
            if jp = NULL then ret b a else event_emit env b event cptr jp a
          })"

subsection \<open>Messages\<close>

definition new_message_listener ::
    "event_bus \<Rightarrow> string \<Rightarrow> handle \<Rightarrow> handle \<Rightarrow> string ptr \<Rightarrow> handle \<Rightarrow> handle \<Rightarrow> (event_bus \<times> nat ptr) proc" where
  "new_message_listener b name cb user domain dispatch dispatch_user =
     andthen (new_token (empty_token\<lparr>tk_event := name, tk_active := True, tk_message := True, tk_user := user\<rparr>) b)
       (\<lambda>(b, token).
         andthen xcalloc (\<lambda>_.
           andthen (case domain of None \<Rightarrow> ret NULL | Some s \<Rightarrow> andthen (xstrdup s) (\<lambda>s. ret (Some s))) (\<lambda>domain.
             ret (b\<lparr>eb_messages := \<lparr>ml_token = the token, ml_domain = domain, ml_cb = cb, ml_user = user,
               ml_dispatch = dispatch, ml_dispatch_user = dispatch_user\<rparr> # eb_messages b\<rparr>, token))))"

definition event_on_message_token ::
    "event_bus \<Rightarrow> string ptr \<Rightarrow> handle \<Rightarrow> handle \<Rightarrow> handle \<Rightarrow> handle \<Rightarrow> (event_bus \<times> nat ptr) proc" where
  "event_on_message_token b np cb user dispatch dispatch_user =
     (case np of
        None \<Rightarrow> ret (b, NULL)
      | Some name \<Rightarrow>
          if cb = 0 \<or> eb_store b = NULL then ret (b, NULL)
          else new_message_listener b name cb user NULL dispatch dispatch_user)"

definition event_on_message_domain_token ::
    "event_bus \<Rightarrow> string ptr \<Rightarrow> handle \<Rightarrow> handle \<Rightarrow> string ptr \<Rightarrow> (event_bus \<times> nat ptr) proc" where
  "event_on_message_domain_token b np cb user dp =
     (case (np, dp) of
        (Some name, Some domain) \<Rightarrow>
          if cb = 0 then ret (b, NULL)
          else (case find_domain domain b of
              None \<Rightarrow> ret (b, NULL)
            | Some d \<Rightarrow>
                if eb_store b = NULL then ret (b, NULL)
                else new_message_listener b name cb user (Some domain) (ed_dispatch d) (ed_user d))
      | _ \<Rightarrow> ret (b, NULL))"

text \<open>
  The two critical sections of \<open>deliver_message\<close>: the decision to run the callback, and the
  note that it has ended.
\<close>

definition deliver_begin :: "nat \<Rightarrow> event_bus \<Rightarrow> (bool \<times> event_bus) comp" where
  "deliver_begin token b =
     do {
       t \<leftarrow> h_read (Some token) (eb_tokens b);
       if tk_active t then do { b \<leftarrow> set_token token (\<lambda>t. t\<lparr>tk_executing := tk_executing t + 1\<rparr>) b; Some (True, b) }
       else Some (False, b)
     }"

definition deliver_end :: "nat \<Rightarrow> event_bus \<Rightarrow> event_bus comp" where
  "deliver_end token b = set_token token (\<lambda>t. t\<lparr>tk_executing := tk_executing t - 1\<rparr>) b"

definition deliver_message :: "env \<Rightarrow> pending_message \<Rightarrow> event_bus \<Rightarrow> event_bus proc" where
  "deliver_message env p b =
     andthen (lift (deliver_begin (pm_token p) b)) (\<lambda>(active, b).
       if active then
         andthen (env (Call_message (pm_cb p) (pm_message p) (pm_user p)) b) (\<lambda>b.
           lift (deliver_end (pm_token p) b))
       else ret b)"

definition message_pending :: "rr_event_message \<Rightarrow> owned_message_listener \<Rightarrow> pending_message proc" where
  "message_pending m l =
     andthen xcalloc (\<lambda>_.
       andthen (xstrdup (the (rm_name m))) (\<lambda>name.
         andthen (xstrdup (case rm_sender m of None \<Rightarrow> [] | Some s \<Rightarrow> s)) (\<lambda>sender.
           andthen (if rm_length m = 0 then ret NULL
             else andthen xmalloc (\<lambda>_. lift (map_option Some (copy_bytes (the (rm_payload m)) (rm_length m))))) (\<lambda>payload.
             ret \<lparr>pm_cb = ml_cb l, pm_token = ml_token l, pm_user = ml_user l,
                  pm_message = \<lparr>rm_name = Some name, rm_sender = Some sender, rm_payload = payload,
                    rm_length = rm_length m, rm_flags = rm_flags m\<rparr>\<rparr>))))"

text \<open>The listeners of a message, one reallocation of the target array for each.\<close>

fun message_targets :: "event_bus \<Rightarrow> string \<Rightarrow> owned_message_listener list \<Rightarrow> owned_message_listener list proc" where
  "message_targets b name [] = ret []"
| "message_targets b name (l # ls) =
     andthen (lift (h_read (Some (ml_token l)) (eb_tokens b))) (\<lambda>t.
       if tk_event t = name then
         andthen xrealloc (\<lambda>_. andthen (message_targets b name ls) (\<lambda>ts. ret (l # ts)))
       else message_targets b name ls)"

definition send_message :: "env \<Rightarrow> rr_event_message \<Rightarrow> owned_message_listener \<Rightarrow> event_bus \<Rightarrow> event_bus proc" where
  "send_message env m l b =
     andthen (message_pending m l) (\<lambda>p.
       if ml_dispatch l \<noteq> 0 then env (Dispatch (ml_dispatch l) (ml_dispatch_user l) (Run_message p)) b
       else deliver_message env p b)"

definition event_emit_message :: "env \<Rightarrow> event_bus \<Rightarrow> rr_event_message ptr \<Rightarrow> event_bus proc" where
  "event_emit_message env b mp =
     (case mp of
        None \<Rightarrow> ret b
      | Some m \<Rightarrow>
          (case rm_name m of
             None \<Rightarrow> ret b
           | Some name \<Rightarrow>
               if rm_payload m = NULL \<and> rm_length m \<noteq> 0 then ret b
               else andthen (message_targets b name (eb_messages b)) (\<lambda>targets.
                 fire_all (send_message env m) targets b)))"

text \<open>Draining returns once no callback of the token runs; \<open>None\<close> stands for waiting on.\<close>

definition event_message_token_drain :: "event_bus \<Rightarrow> nat ptr \<Rightarrow> unit comp" where
  "event_message_token_drain b tp =
     (case tp of
        None \<Rightarrow> Some ()
      | Some token \<Rightarrow>
          do {
            t \<leftarrow> h_read tp (eb_tokens b);
            if tk_message t \<and> tk_executing t \<noteq> 0 then None else Some ()
          })"

subsection \<open>Shutdown\<close>

fun free_entries :: "(string \<times> dict_value) list \<Rightarrow> event_bus \<Rightarrow> event_bus comp" where
  "free_entries [] b = Some b"
| "free_entries ((_, v) # items) b =
     (case v of
        V_ptr p \<Rightarrow>
          do {
            b \<leftarrow> event_entry_free (if p = 0 then NULL else Some (unat p)) b;
            free_entries items b
          }
      | _ \<Rightarrow> free_entries items b)"

fun cancel_messages :: "owned_message_listener list \<Rightarrow> event_bus \<Rightarrow> event_bus comp" where
  "cancel_messages [] b = Some b"
| "cancel_messages (l # ls) b =
     do {
       b \<leftarrow> set_token (ml_token l) (\<lambda>t. t\<lparr>tk_active := False\<rparr>) b;
       cancel_messages ls b
     }"

definition event_shutdown :: "event_bus \<Rightarrow> event_bus comp" where
  "event_shutdown b =
     (case eb_store b of
        None \<Rightarrow> Some b
      | Some d \<Rightarrow>
          do {
            b \<leftarrow> free_entries (dict_items d 0) b;
            b \<leftarrow> cancel_messages (eb_messages b) b;
            Some (b\<lparr>eb_domains := [], eb_messages := [], eb_store := NULL\<rparr>)
          })"

end
