(* ===== verification/Event_Registry.thy ===== *)
theory Event_Registry
  imports Event_Bus Dict_Properties
begin

text \<open>
  The registry of the event bus refines a map from event names to entries. The invariant ties
  the dictionary to the heap of entries; each operation is proved against its counterpart on
  the map, for every pattern of allocation failures.
\<close>

subsection \<open>Abstraction and invariant\<close>

definition event_cell :: "event_bus \<Rightarrow> string \<Rightarrow> nat ptr" where
  "event_cell b ev =
     (case eb_store b of
        None \<Rightarrow> NULL
      | Some d \<Rightarrow> (case dict_map d ev of Some (V_ptr p) \<Rightarrow> Some (unat p) | _ \<Rightarrow> NULL))"

definition entry_of :: "event_bus \<Rightarrow> string \<rightharpoonup> event_entry" where
  "entry_of b ev = (case event_cell b ev of None \<Rightarrow> None | Some a \<Rightarrow> h_cells (eb_entries b) a)"

definition in_use :: "event_entry \<Rightarrow> bool" where
  "in_use e \<longleftrightarrow> ee_listeners e \<noteq> [] \<or> ee_binary_listeners e \<noteq> []"

text \<open>The entries of all events but those of \<open>E\<close> have a listener.\<close>

definition bus_inv :: "string set \<Rightarrow> event_bus \<Rightarrow> bool" where
  "bus_inv E b \<longleftrightarrow>
     heap_ok (eb_entries b) \<and> 0 < h_next (eb_entries b) \<and>
     (\<forall>d. eb_store b = Some d \<longrightarrow> dict_inv d \<and>
        (\<forall>ev v. dict_map d ev = Some v \<longrightarrow>
           (\<exists>p e. v = V_ptr p \<and> p \<noteq> 0 \<and> h_cells (eb_entries b) (unat p) = Some e \<and> (ev \<in> E \<or> in_use e))) \<and>
        (\<forall>ev ev' p. dict_map d ev = Some (V_ptr p) \<longrightarrow> dict_map d ev' = Some (V_ptr p) \<longrightarrow> ev = ev'))"

abbreviation bus_ok :: "event_bus \<Rightarrow> bool" where "bus_ok \<equiv> bus_inv {}"

text \<open>The dictionary has an empty slot, so that lookups end, and neither its counters nor the
  address space are exhausted.\<close>

definition bus_ready :: "event_bus \<Rightarrow> bool" where
  "bus_ready b \<longleftrightarrow>
     (\<exists>d. eb_store b = Some d \<and> has_free (d_table d) \<and> unat (d_fill d) < 2 ^ 28) \<and>
     h_next (eb_entries b) < 2 ^ 64"

text \<open>The parts of the bus that the registry does not touch.\<close>

definition same_rest :: "event_bus \<Rightarrow> event_bus \<Rightarrow> bool" where
  "same_rest b b' \<longleftrightarrow>
     eb_tokens b' = eb_tokens b \<and> eb_messages b' = eb_messages b \<and> eb_domains b' = eb_domains b"

lemma bus_readyE:
  assumes "bus_ready b"
  obtains d where "eb_store b = Some d" "has_free (d_table d)" "unat (d_fill d) < 2 ^ 28"
    "h_next (eb_entries b) < 2 ^ 64"
  using assms by (auto simp: bus_ready_def)

lemma bus_invD:
  assumes "bus_inv E b" and "eb_store b = Some d"
  shows "heap_ok (eb_entries b)" "0 < h_next (eb_entries b)" "dict_inv d"
    "dict_map d ev = Some v \<Longrightarrow>
       \<exists>p e. v = V_ptr p \<and> p \<noteq> 0 \<and> h_cells (eb_entries b) (unat p) = Some e \<and> (ev \<in> E \<or> in_use e)"
    "dict_map d ev = Some (V_ptr p) \<Longrightarrow> dict_map d ev' = Some (V_ptr p) \<Longrightarrow> ev = ev'"
  using assms unfolding bus_inv_def by blast+

lemma bus_invI:
  assumes "heap_ok (eb_entries b)" "0 < h_next (eb_entries b)"
    and "\<And>d. eb_store b = Some d \<Longrightarrow> dict_inv d"
    and "\<And>d ev v. eb_store b = Some d \<Longrightarrow> dict_map d ev = Some v \<Longrightarrow>
       \<exists>p e. v = V_ptr p \<and> p \<noteq> 0 \<and> h_cells (eb_entries b) (unat p) = Some e \<and> (ev \<in> E \<or> in_use e)"
    and "\<And>d ev ev' p. eb_store b = Some d \<Longrightarrow> dict_map d ev = Some (V_ptr p) \<Longrightarrow>
       dict_map d ev' = Some (V_ptr p) \<Longrightarrow> ev = ev'"
  shows "bus_inv E b"
  using assms unfolding bus_inv_def by blast

lemma bus_inv_mono: "bus_inv E b \<Longrightarrow> E \<subseteq> F \<Longrightarrow> bus_inv F b"
  unfolding bus_inv_def by blast

lemma event_cell_map:
  assumes "bus_inv E b" and "eb_store b = Some d"
  shows "dict_map d ev = (case event_cell b ev of None \<Rightarrow> None | Some a \<Rightarrow> Some (V_ptr (of_nat a)))"
  using bus_invD(4) [OF assms, of ev]
  by (cases "dict_map d ev") (auto simp: event_cell_def assms(2))

lemma event_cell_entry:
  assumes "bus_inv E b" and "event_cell b ev = Some a"
  shows "\<exists>e. h_cells (eb_entries b) a = Some e \<and> entry_of b ev = Some e"
proof -
  obtain d where d: "eb_store b = Some d" using assms(2) by (auto simp: event_cell_def split: option.splits)
  with assms(2) obtain p where "dict_map d ev = Some (V_ptr p)" "unat p = a"
    by (auto simp: event_cell_def split: option.splits dict_value.splits)
  with bus_invD(4) [OF assms(1) d] assms(2) show ?thesis by (force simp: entry_of_def)
qed

lemma entry_of_None: "bus_inv E b \<Longrightarrow> entry_of b ev = None \<longleftrightarrow> event_cell b ev = None"
  using event_cell_entry [of E b ev] by (auto simp: entry_of_def split: option.splits)

lemma event_cell_inj:
  assumes "bus_inv E b" and "event_cell b ev = Some a" and "event_cell b ev' = Some a"
  shows "ev = ev'"
proof -
  obtain d where d: "eb_store b = Some d" using assms(2) by (auto simp: event_cell_def split: option.splits)
  show ?thesis
    using event_cell_map [OF assms(1) d, of ev] event_cell_map [OF assms(1) d, of ev'] assms(2,3)
      bus_invD(5) [OF assms(1) d, of ev "of_nat a" ev'] by simp
qed

subsection \<open>Lookup\<close>

lemma event_lookup_cell:
  assumes "bus_inv E b" and "bus_ready b \<or> event_cell b ev \<noteq> NULL"
  shows "event_lookup_locked b (Some ev) = Some (event_cell b ev)"
proof -
  obtain d where d: "eb_store b = Some d" "has_free (d_table d) \<or> dict_map d ev \<noteq> None"
    using assms(2) by (auto simp: bus_ready_def event_cell_def split: option.splits)
  note inv = bus_invD [OF assms(1) d(1)]
  obtain kp where kp: "dict_get_kp (Some d) (Some ev) = Some kp" "map_option kp_val kp = dict_map d ev"
    using dict_get_kp_map [OF inv(3), of ev] d(2) by blast
  show ?thesis
  proof (cases kp)
    case None
    with kp d show ?thesis
      by (simp add: event_lookup_locked_def dict_get_ptr_def get_value_def event_cell_def)
  next
    case (Some e)
    then obtain p where "dict_map d ev = Some (V_ptr p)" "kp_val e = V_ptr p" "p \<noteq> 0"
      using inv(4) [of ev "kp_val e"] kp(2) by force
    with Some kp d show ?thesis
      by (simp add: event_lookup_locked_def dict_get_ptr_def get_value_def event_cell_def)
  qed
qed

subsection \<open>Writing an entry\<close>

lemma set_entry_ok:
  assumes "bus_inv E b" and "event_cell b ev = Some a" and "entry_of b ev = Some x"
  shows "\<exists>b'. set_entry a f b = Some b' \<and> entry_of b' = (entry_of b)(ev \<mapsto> f x) \<and>
    event_cell b' = event_cell b \<and> eb_store b' = eb_store b \<and>
    h_next (eb_entries b') = h_next (eb_entries b) \<and> same_rest b b' \<and>
    bus_inv (if in_use (f x) then E - {ev} else insert ev E) b'"
proof -
  let ?h = "(eb_entries b)\<lparr>h_cells := (h_cells (eb_entries b))(a \<mapsto> f x)\<rparr>"
  let ?b = "b\<lparr>eb_entries := ?h\<rparr>"
  have x: "h_cells (eb_entries b) a = Some x"
    using event_cell_entry [OF assms(1,2)] assms(3) by auto
  obtain d where d: "eb_store b = Some d" using assms(2) by (auto simp: event_cell_def split: option.splits)
  note inv = bus_invD [OF assms(1) d]
  from x have set: "set_entry a f b = Some ?b" by (simp add: set_entry_def h_write_Some)
  have cell: "event_cell ?b = event_cell b" by (simp add: fun_eq_iff event_cell_def)
  have "entry_of ?b ev' = ((entry_of b)(ev \<mapsto> f x)) ev'" for ev'
    using event_cell_inj [OF assms(1), of ev' a ev] assms(2)
    by (cases "ev' = ev") (auto simp: entry_of_def cell split: option.splits)
  then have view: "entry_of ?b = (entry_of b)(ev \<mapsto> f x)" by blast
  have "bus_inv (if in_use (f x) then E - {ev} else insert ev E) ?b"
  proof (rule bus_invI)
    fix d ev' v assume d: "eb_store ?b = Some d" and v: "dict_map d ev' = Some v"
    then obtain p e where p: "v = V_ptr p" "p \<noteq> 0" "h_cells (eb_entries b) (unat p) = Some e" "ev' \<in> E \<or> in_use e"
      using bus_invD(4) [OF assms(1), of d ev' v] by auto
    then have cell': "event_cell b ev' = Some (unat p)" using d v by (simp add: event_cell_def)
    show "\<exists>p e. v = V_ptr p \<and> p \<noteq> 0 \<and> h_cells (eb_entries ?b) (unat p) = Some e \<and>
        (ev' \<in> (if in_use (f x) then E - {ev} else insert ev E) \<or> in_use e)"
    proof (cases "ev' = ev")
      case True
      then have "unat p = a" using cell' assms(2) by simp
      with True p show ?thesis by auto
    next
      case False
      then have "unat p \<noteq> a" using cell' event_cell_inj [OF assms(1,2)] by blast
      with False p show ?thesis by auto
    qed
  qed (use d inv heap_ok_alloc [OF inv(1)] x in \<open>auto simp: heap_ok_def\<close>)
  with set view cell show ?thesis by (auto simp: same_rest_def)
qed

subsection \<open>Creating and removing entries\<close>

text \<open>The registry with an entry for the event, which may still be without listeners.\<close>

definition opened :: "string \<Rightarrow> event_bus \<Rightarrow> nat \<Rightarrow> event_bus \<Rightarrow> bool" where
  "opened ev b e b' \<longleftrightarrow>
     bus_inv {ev} b' \<and> event_cell b' ev = Some e \<and> same_rest b b' \<and> (\<exists>d. eb_store b' = Some d) \<and>
     entry_of b' = (entry_of b)(ev \<mapsto> case entry_of b ev of None \<Rightarrow> empty_entry | Some x \<Rightarrow> x)"

lemma dict_store_bus:
  assumes "bus_ok b" and "bus_ready b" and "eb_store b = Some d"
  obtains r d' a' where "dict_add_ptr (Some d) (Some ev) p a = Some (r, Some d', a')" "dict_inv d'"
    "a = [] \<longrightarrow> a' = []"
    "r = 0 \<and> dict_map d' = (dict_map d)(ev \<mapsto> V_ptr p) \<or> r = - 1 \<and> a \<noteq> [] \<and> d' = d"
proof -
  have "has_free (d_table d)" "unat (d_fill d) < 2 ^ 28" using assms(2,3) by (auto simp: bus_ready_def)
  then obtain res where "dict_store (Some d) (Some ev) (V_ptr p) a = Some res" "store_ok d ev (V_ptr p) a res"
    using dict_store_correct [OF bus_invD(3) [OF assms(1,3)], of ev "V_ptr p" a] by (auto simp: dict_room_def)
  then show thesis by (cases res) (auto simp: store_ok_def dict_add_ptr_def intro: that)
qed

lemma new_entry_opened:
  assumes "bus_ok b" and "bus_ready b" and "eb_store b = Some d" and "event_cell b ev = NULL"
    and "dict_inv d'" and "dict_map d' = (dict_map d)(ev \<mapsto> V_ptr (of_nat (h_next (eb_entries b))))"
  shows "opened ev b (h_next (eb_entries b)) (b\<lparr>eb_entries := snd (h_new empty_entry (eb_entries b)), eb_store := Some d'\<rparr>)"
    (is "opened _ _ ?n ?b")
proof -
  note inv = bus_invD [OF assms(1,3)]
  have n: "unat (of_nat ?n :: u64) = ?n" "(of_nat ?n :: u64) \<noteq> 0"
    using assms(2) inv(2)
    by (auto simp: bus_ready_def unsigned_of_nat take_bit_nat_eq_self word_of_nat_eq_0_iff dest: nat_dvd_not_less)
  have old: "unat p \<noteq> ?n" if "dict_map d ev' = Some (V_ptr p)" for ev' p
    using inv(4) [OF that] heap_ok_next [OF inv(1)] by auto
  have cell: "event_cell ?b = (event_cell b)(ev \<mapsto> ?n)"
    using n by (auto simp: fun_eq_iff event_cell_def assms(3,6))
  have "entry_of ?b = (entry_of b)(ev \<mapsto> empty_entry)"
  proof
    fix ev'
    have "a \<noteq> ?n" if "event_cell b ev' = Some a" for a
      using event_cell_entry [OF assms(1) that] heap_ok_next [OF inv(1)] by auto
    then show "entry_of ?b ev' = ((entry_of b)(ev \<mapsto> empty_entry)) ev'"
      unfolding entry_of_def cell by (auto simp: h_new_def split: option.splits)
  qed
  moreover have "entry_of b ev = None" using assms(4) by (simp add: entry_of_def)
  moreover have "bus_inv {ev} ?b"
  proof (rule bus_invI)
    fix d0 ev' v assume "eb_store ?b = Some d0" "dict_map d0 ev' = Some v"
    then have "dict_map d' ev' = Some v" by simp
    then have v: "((dict_map d)(ev \<mapsto> V_ptr (of_nat ?n))) ev' = Some v" by (simp only: assms(6))
    show "\<exists>p e. v = V_ptr p \<and> p \<noteq> 0 \<and> h_cells (eb_entries ?b) (unat p) = Some e \<and> (ev' \<in> {ev} \<or> in_use e)"
    proof (cases "ev' = ev")
      case True
      with v n show ?thesis by (auto simp: h_new_def)
    next
      case False
      with v inv(4) [of ev' v] old [of ev'] show ?thesis by (auto simp: h_new_def)
    qed
  next
    fix d0 ev1 ev2 p
    assume "eb_store ?b = Some d0" "dict_map d0 ev1 = Some (V_ptr p)" "dict_map d0 ev2 = Some (V_ptr p)"
    then have "dict_map d' ev1 = Some (V_ptr p)" "dict_map d' ev2 = Some (V_ptr p)" by simp_all
    then show "ev1 = ev2"
      using inv(5) [of ev1 p ev2] old [of ev1 p] old [of ev2 p] n by (auto simp: assms(6) split: if_splits)
  qed (use inv assms(5) in \<open>auto simp: h_new_def heap_ok_def\<close>)
  ultimately show ?thesis by (simp add: opened_def cell same_rest_def)
qed

lemma event_get_or_create_ok:
  assumes "bus_ok b" and "bus_ready b"
  shows "\<exists>res a'. event_get_or_create_locked b ev a = Some (res, a') \<and> (a = [] \<longrightarrow> a' = []) \<and>
    (res = Exit ENOMEM \<and> a \<noteq> [] \<or>
     (\<exists>b'. res = Done (b', NULL) \<and> a \<noteq> [] \<and> bus_ok b' \<and> entry_of b' = entry_of b \<and> same_rest b b') \<or>
     (\<exists>b' e. res = Done (b', Some e) \<and> opened ev b e b'))"
proof -
  obtain d where d: "eb_store b = Some d" using assms(2) by (rule bus_readyE)
  note look = event_lookup_cell [OF assms(1) disjI1 [OF assms(2)], of ev] and inv = bus_invD [OF assms(1) d]
  show ?thesis
  proof (cases "event_cell b ev")
    case (Some e)
    then have "opened ev b e b"
      using event_cell_entry [OF assms(1) Some] d bus_inv_mono [OF assms(1), of "{ev}"]
      by (auto simp: opened_def same_rest_def fun_eq_iff)
    with look Some show ?thesis by (auto simp: event_get_or_create_locked_def)
  next
    case None
    show ?thesis
    proof (cases "fst (malloc_ok a)")
      case False
      then have "a \<noteq> []" by auto
      with False look None show ?thesis
        by (cases "malloc_ok a") (auto simp: event_get_or_create_locked_def xalloc_defs)
    next
      case True
      let ?n = "h_next (eb_entries b)" and ?b = "b\<lparr>eb_entries := snd (h_new empty_entry (eb_entries b))\<rparr>"
      obtain a1 where a1: "malloc_ok a = (True, a1)" using True by (cases "malloc_ok a") auto
      then have plenty: "a = [] \<longleftrightarrow> a1 = [] \<and> a = []" "a1 \<noteq> [] \<longrightarrow> a \<noteq> []" by (cases a; simp)+
      obtain r d' a2 where st: "dict_add_ptr (Some d) (Some ev) (of_nat ?n) a1 = Some (r, Some d', a2)" "dict_inv d'"
          "a1 = [] \<longrightarrow> a2 = []"
          "r = 0 \<and> dict_map d' = (dict_map d)(ev \<mapsto> V_ptr (of_nat ?n)) \<or> r = - 1 \<and> a1 \<noteq> [] \<and> d' = d"
        by (rule dict_store_bus [OF assms d])
      have step: "event_get_or_create_locked b ev a =
          (if r \<noteq> 0 then do { b \<leftarrow> event_entry_free (Some ?n) (?b\<lparr>eb_store := Some d'\<rparr>); Some (Done (b, NULL), a2) }
           else Some (Done (?b\<lparr>eb_store := Some d'\<rparr>, Some ?n), a2))"
        using look None a1 d st(1)
        by (simp add: event_get_or_create_locked_def xalloc_defs h_new_def Let_def andthen_def)
      show ?thesis
      proof (cases "r = 0")
        case True
        with st new_entry_opened [OF assms d None st(2)] step plenty show ?thesis by auto
      next
        case False
        let ?c = "b\<lparr>eb_entries := (eb_entries b)\<lparr>h_next := Suc ?n\<rparr>\<rparr>"
        have cells: "(h_cells (eb_entries b))(?n := None) = h_cells (eb_entries b)"
          using heap_ok_next [OF inv(1)] by (simp add: fun_eq_iff)
        have "event_entry_free (Some ?n) (?b\<lparr>eb_store := Some d'\<rparr>) = Some ?c"
          using False st(4) d cells by (simp add: event_entry_free_def h_free_def h_new_def)
        moreover have "bus_ok ?c" by (rule bus_invI) (use d inv in \<open>auto simp: heap_ok_def\<close>)
        moreover have "entry_of ?c = entry_of b"
          by (simp add: fun_eq_iff entry_of_def event_cell_def split: option.split)
        ultimately show ?thesis using step False st(3,4) plenty by (auto simp: same_rest_def)
      qed
    qed
  qed
qed

text \<open>Removing an entry that has lost its last listener.\<close>

definition reg_prune :: "string \<Rightarrow> (string \<rightharpoonup> event_entry) \<Rightarrow> string \<rightharpoonup> event_entry" where
  "reg_prune ev m = (case m ev of None \<Rightarrow> m | Some e \<Rightarrow> if in_use e then m else m(ev := None))"

lemma remove_if_empty_ok:
  assumes "bus_inv {ev} b" and "event_cell b ev = Some e"
  shows "\<exists>b'. event_remove_if_empty_locked ev e b = Some b' \<and> bus_ok b' \<and>
    entry_of b' = reg_prune ev (entry_of b) \<and> same_rest b b'"
proof -
  obtain x where x: "h_cells (eb_entries b) e = Some x" "entry_of b ev = Some x"
    using event_cell_entry [OF assms(1,2)] by auto
  obtain d where d: "eb_store b = Some d" "dict_map d ev \<noteq> None"
    using assms(2) by (auto simp: event_cell_def split: option.splits)
  note inv = bus_invD [OF assms(1) d(1)]
  show ?thesis
  proof (cases "in_use x")
    case True
    have "bus_ok b"
    proof (rule bus_invI)
      fix d0 ev' v assume "eb_store b = Some d0" "dict_map d0 ev' = Some v"
      moreover from this have "ev' = ev \<longrightarrow> v = V_ptr (of_nat e)"
        using event_cell_map [OF assms(1), of d0 ev'] assms(2) by auto
      ultimately show "\<exists>p e. v = V_ptr p \<and> p \<noteq> 0 \<and> h_cells (eb_entries b) (unat p) = Some e \<and> (ev' \<in> {} \<or> in_use e)"
        using inv(4) [of ev' v] d(1) x True assms(2) by (cases "ev' = ev") (auto simp: event_cell_def)
    qed (use d inv in auto)
    with True x show ?thesis
      by (auto simp: event_remove_if_empty_locked_def in_use_def reg_prune_def same_rest_def)
  next
    case False
    obtain d' where del: "dict_del (Some d) (Some ev) = Some (if dict_map d ev = None then - 1 else 0, Some d')"
        "dict_inv d'" "dict_map d' = (dict_map d)(ev := None)"
      using dict_del_map [OF inv(3), of ev] d(2) by auto
    let ?b = "b\<lparr>eb_store := Some d', eb_entries := (eb_entries b)\<lparr>h_cells := (h_cells (eb_entries b))(e := None)\<rparr>\<rparr>"
    have "event_remove_if_empty_locked ev e b = Some ?b"
      using False x d(1) del(1)
      by (simp add: event_remove_if_empty_locked_def in_use_def event_entry_free_def h_free_def)
    moreover have cell: "event_cell ?b = (event_cell b)(ev := None)"
      by (auto simp: fun_eq_iff event_cell_def d(1) del(3))
    moreover have "entry_of ?b = (entry_of b)(ev := None)"
    proof
      fix ev'
      have "event_cell b ev' = Some e \<Longrightarrow> ev' = ev" using event_cell_inj [OF assms(1) _ assms(2)] by blast
      then show "entry_of ?b ev' = ((entry_of b)(ev := None)) ev'"
        by (auto simp: entry_of_def cell split: option.splits)
    qed
    moreover have "bus_ok ?b"
    proof (rule bus_invI)
      fix d0 ev' v assume "eb_store ?b = Some d0" "dict_map d0 ev' = Some v"
      then have "dict_map d' ev' = Some v" by simp
      then have v: "dict_map d ev' = Some v" "ev' \<noteq> ev" by (auto simp: del(3) split: if_splits)
      then obtain p y where p: "v = V_ptr p" "p \<noteq> 0" "h_cells (eb_entries b) (unat p) = Some y" "in_use y"
        using inv(4) [of ev' v] by auto
      then have "event_cell b ev' = Some (unat p)" using v d(1) by (simp add: event_cell_def)
      then have "unat p \<noteq> e" using v(2) event_cell_inj [OF assms(1) _ assms(2)] by blast
      with p show "\<exists>p e. v = V_ptr p \<and> p \<noteq> 0 \<and> h_cells (eb_entries ?b) (unat p) = Some e \<and> (ev' \<in> {} \<or> in_use e)"
        by auto
    next
      fix d0 ev1 ev2 p
      assume "eb_store ?b = Some d0" "dict_map d0 ev1 = Some (V_ptr p)" "dict_map d0 ev2 = Some (V_ptr p)"
      then have "dict_map d' ev1 = Some (V_ptr p)" "dict_map d' ev2 = Some (V_ptr p)" by simp_all
      then show "ev1 = ev2" using inv(5) [of ev1 p ev2] by (auto simp: del(3) split: if_splits)
    qed (use inv del(2) in \<open>auto simp: heap_ok_def\<close>)
    ultimately show ?thesis using x(2) False by (auto simp: reg_prune_def same_rest_def)
  qed
qed

subsection \<open>Operations on the abstract registry\<close>

definition reg_on :: "(event_entry \<Rightarrow> event_entry) \<Rightarrow> string \<Rightarrow> (string \<rightharpoonup> event_entry) \<Rightarrow> string \<rightharpoonup> event_entry" where
  "reg_on f ev m = m(ev \<mapsto> f (case m ev of None \<Rightarrow> empty_entry | Some x \<Rightarrow> x))"

definition reg_change :: "(event_entry \<Rightarrow> event_entry) \<Rightarrow> string \<Rightarrow> (string \<rightharpoonup> event_entry) \<Rightarrow> string \<rightharpoonup> event_entry" where
  "reg_change f ev m = (case m ev of None \<Rightarrow> m | Some x \<Rightarrow> reg_prune ev (m(ev \<mapsto> f x)))"

definition subscribed :: "(event_entry \<Rightarrow> event_entry) \<Rightarrow> string \<Rightarrow> event_bus \<Rightarrow> event_bus \<Rightarrow> bool" where
  "subscribed f ev b b' \<longleftrightarrow> bus_ok b' \<and> entry_of b' = reg_on f ev (entry_of b)"

lemma opened_set:
  assumes "opened ev b e b1" and "\<And>x. in_use (f x)"
  shows "\<exists>b'. set_entry e f b1 = Some b' \<and> subscribed f ev b b' \<and> same_rest b b' \<and>
    event_cell b' ev = Some e"
proof -
  let ?x = "case entry_of b ev of None \<Rightarrow> empty_entry | Some x \<Rightarrow> x"
  have o: "bus_inv {ev} b1" "event_cell b1 ev = Some e" "same_rest b b1" "entry_of b1 = (entry_of b)(ev \<mapsto> ?x)"
    using assms(1) by (auto simp: opened_def)
  from set_entry_ok [OF o(1,2), of ?x f] o(4) assms(2) obtain b' where
    "set_entry e f b1 = Some b'" "entry_of b' = (entry_of b1)(ev \<mapsto> f ?x)" "bus_inv {} b'" "same_rest b1 b'"
    "event_cell b' = event_cell b1"
    by auto
  with o show ?thesis by (auto simp: subscribed_def reg_on_def same_rest_def)
qed

lemma change_ok:
  assumes "bus_ok b" and "event_cell b ev = Some e"
  shows "\<exists>b'. do { b \<leftarrow> set_entry e f b; event_remove_if_empty_locked ev e b } = Some b' \<and> bus_ok b' \<and>
    entry_of b' = reg_change f ev (entry_of b) \<and> same_rest b b'"
proof -
  obtain x where x: "entry_of b ev = Some x" using event_cell_entry [OF assms(1,2)] by auto
  obtain b1 where b1: "set_entry e f b = Some b1" "entry_of b1 = (entry_of b)(ev \<mapsto> f x)" "event_cell b1 = event_cell b"
      "eb_store b1 = eb_store b" "h_next (eb_entries b1) = h_next (eb_entries b)" "same_rest b b1"
      "bus_inv (if in_use (f x) then {} - {ev} else {ev}) b1"
    using set_entry_ok [OF assms(1,2) x, of f] by auto
  have "bus_inv {ev} b1" using b1(7) by (rule bus_inv_mono) auto
  then obtain b' where "event_remove_if_empty_locked ev e b1 = Some b'" "bus_ok b'"
      "entry_of b' = reg_prune ev (entry_of b1)" "same_rest b1 b'"
    using remove_if_empty_ok [of ev b1 e] assms(2) b1(3) by auto
  with b1 x show ?thesis by (auto simp: reg_change_def same_rest_def)
qed

lemma reg_change_absent: "m ev = None \<Longrightarrow> reg_change f ev m = m"
  by (simp add: reg_change_def)

lemma in_use_add: "in_use (add_listener l x)"
  by (simp add: in_use_def add_listener_def)

text \<open>The four registrations share this shape: create the entry, extend its array, go on.\<close>

lemma register_ok:
  assumes "bus_ok b" and "bus_ready b" and "\<And>x. in_use (f x)"
  shows "\<exists>res a'. andthen (event_get_or_create_locked b ev) (\<lambda>(b, entry).
        case entry of None \<Rightarrow> ret b | Some e \<Rightarrow> andthen xrealloc (\<lambda>_. lift (set_entry e f b))) a = Some (res, a') \<and>
    (res = Exit ENOMEM \<and> a \<noteq> [] \<or>
     (\<exists>b'. res = Done b' \<and> same_rest b b' \<and>
        (subscribed f ev b b' \<or> a \<noteq> [] \<and> bus_ok b' \<and> entry_of b' = entry_of b)))"
proof -
  obtain res a1 where g: "event_get_or_create_locked b ev a = Some (res, a1)" "a = [] \<longrightarrow> a1 = []"
      "res = Exit ENOMEM \<and> a \<noteq> [] \<or>
       (\<exists>b'. res = Done (b', NULL) \<and> a \<noteq> [] \<and> bus_ok b' \<and> entry_of b' = entry_of b \<and> same_rest b b') \<or>
       (\<exists>b' e. res = Done (b', Some e) \<and> opened ev b e b')"
    using event_get_or_create_ok [OF assms(1,2), of ev a] by blast
  from g(3) show ?thesis
  proof (elim disjE exE conjE)
    fix b1 e assume r: "res = Done (b1, Some e)" and op: "opened ev b e b1"
    obtain b' where b': "set_entry e f b1 = Some b'" "subscribed f ev b b'" "same_rest b b'"
      using opened_set [OF op, of f] assms(3) by blast
    show ?thesis
    proof (cases "fst (malloc_ok a1)")
      case True
      then obtain a2 where "malloc_ok a1 = (True, a2)" by (cases "malloc_ok a1") auto
      with g(1) r b' show ?thesis by (auto simp: xalloc_defs)
    next
      case False
      then obtain a2 where "malloc_ok a1 = (False, a2)" by (cases "malloc_ok a1") auto
      moreover from False g(2) have "a \<noteq> []" by auto
      ultimately show ?thesis using g(1) r by (auto simp: xalloc_defs)
    qed
  qed (use g(1) in auto)
qed

text \<open>The listeners of an event, in the order of their registration.\<close>

definition listeners :: "event_bus \<Rightarrow> string \<Rightarrow> event_listener list" where
  "listeners b ev = (case entry_of b ev of None \<Rightarrow> [] | Some e \<Rightarrow> ee_listeners e)"

definition binary_listeners :: "event_bus \<Rightarrow> string \<Rightarrow> event_binary_listener list" where
  "binary_listeners b ev = (case entry_of b ev of None \<Rightarrow> [] | Some e \<Rightarrow> ee_binary_listeners e)"

subsection \<open>Concrete buses\<close>

definition bus_off :: event_bus where
  "bus_off = \<lparr>eb_store = NULL, eb_entries = \<lparr>h_cells = Map.empty, h_next = 1\<rparr>,
     eb_tokens = \<lparr>h_cells = Map.empty, h_next = 1\<rparr>, eb_messages = [], eb_domains = []\<rparr>"

definition bus_new :: event_bus where
  "bus_new = fst (event_init bus_off [])"

lemma bus_new_facts: "bus_ok bus_new" "bus_ready bus_new" "entry_of bus_new = Map.empty"
proof -
  have new: "bus_new = bus_off\<lparr>eb_store := Some dict_empty\<rparr>"
    by (simp add: bus_new_def event_init_def dict_new_plenty bus_off_def)
  note e = dict_empty_clean dict_cleanD [OF dict_empty_clean(1)]
  show "bus_ok bus_new" by (rule bus_invI) (auto simp: new bus_off_def heap_ok_def e)
  show "bus_ready bus_new" by (auto simp: new bus_off_def bus_ready_def e)
  show "entry_of bus_new = Map.empty"
    by (simp add: fun_eq_iff new bus_off_def entry_of_def event_cell_def e)
qed

end
