(* ===== verification/Event_Properties.thy ===== *)
theory Event_Properties
  imports Event_Registry
begin

text \<open>
  The promises of the event bus: registration and removal against the abstract registry,
  delivery to a snapshot of the listeners whatever the callbacks do, and the ways in which
  the implementation falls short of its comments.
\<close>

lemma entry_of_cong: "eb_store b = eb_store b' \<Longrightarrow> eb_entries b = eb_entries b' \<Longrightarrow> entry_of b = entry_of b'"
  by (simp add: fun_eq_iff entry_of_def event_cell_def split: option.split)

lemma remove_first_append: "\<forall>x \<in> set xs. \<not> P x \<Longrightarrow> remove_first P (xs @ ys) = xs @ remove_first P ys"
  by (induction xs) auto

lemma remove_first_absent: "\<forall>x \<in> set xs. \<not> P x \<Longrightarrow> remove_first P xs = xs"
  by (induction xs) auto

subsection \<open>A bus with one listener\<close>

definition bus_chat :: event_bus where
  "bus_chat = (case event_on bus_new (Some ''chat'') 7 5 [] of Some (Done b, _) \<Rightarrow> b | _ \<Rightarrow> bus_new)"

abbreviation chat_listener :: event_listener where
  "chat_listener \<equiv> \<lparr>el_cb = 7, el_user = 5, el_dispatch = 0, el_dispatch_user = 0, el_domain_delivery = False\<rparr>"

lemma bus_chat_ready: "bus_ready bus_chat"
proof -
  have "(case eb_store bus_chat of
        Some d \<Rightarrow> list_ex (\<lambda>kp. kp_key kp = KNull) (d_table d) \<and> unat (d_fill d) = 1 | None \<Rightarrow> False) \<and>
      h_next (eb_entries bus_chat) = 2" by code_simp
  then show ?thesis
    by (auto simp: bus_ready_def has_free_def list_ex_iff in_set_conv_nth split: option.splits)
qed

lemma bus_chat_facts: "bus_ok bus_chat" "entry_of bus_chat = [''chat'' \<mapsto> add_listener chat_listener empty_entry]"
proof -
  obtain d where "eb_store bus_new = Some d" using bus_new_facts(2) by (rule bus_readyE)
  then have "\<exists>b' a'. event_on bus_new (Some ''chat'') 7 5 [] = Some (Done b', a') \<and>
      subscribed (add_listener chat_listener) ''chat'' bus_new b'"
    using register_ok [OF bus_new_facts(1,2), of "add_listener chat_listener" "''chat''" "[]", OF in_use_add]
    by (auto simp: event_on_def event_on_dispatch_def)
  then have "subscribed (add_listener chat_listener) ''chat'' bus_new bus_chat"
    by (auto simp: bus_chat_def)
  then show "bus_ok bus_chat" "entry_of bus_chat = [''chat'' \<mapsto> add_listener chat_listener empty_entry]"
    by (simp_all add: subscribed_def reg_on_def bus_new_facts(3))
qed

lemma bus_chat_listeners: "listeners bus_chat = (\<lambda>_. [])(''chat'' := [chat_listener])"
  by (auto simp: fun_eq_iff listeners_def bus_chat_facts(2) add_listener_def empty_entry_def)

lemmas bus_chat = bus_chat_facts(1) bus_chat_ready

subsection \<open>Registration\<close>

text \<open>C35: \<open>event_on_dispatch\<close> appends the listener to those of the event, creating the entry
  if there is none, and changes no other event. When memory runs out it ends the process, or
  it returns with the registry unchanged and the listener silently dropped.\<close>

theorem event_on_refines:
  assumes "bus_ok b" and "bus_ready b" and "cb \<noteq> 0"
  shows "\<exists>res a'. event_on_dispatch b (Some ev) cb user dispatch dispatch_user a = Some (res, a') \<and>
    (res = Exit ENOMEM \<and> a \<noteq> [] \<or>
     (\<exists>b'. res = Done b' \<and> bus_ok b' \<and>
        (listeners b' = (listeners b)(ev := listeners b ev @
             [\<lparr>el_cb = cb, el_user = user, el_dispatch = dispatch,
               el_dispatch_user = dispatch_user, el_domain_delivery = False\<rparr>]) \<and>
           binary_listeners b' = binary_listeners b \<or>
         a \<noteq> [] \<and> entry_of b' = entry_of b)))"
proof -
  let ?l = "\<lparr>el_cb = cb, el_user = user, el_dispatch = dispatch,
               el_dispatch_user = dispatch_user, el_domain_delivery = False\<rparr>"
  obtain d where d: "eb_store b = Some d" using assms(2) by (rule bus_readyE)
  have on: "listeners b' = (listeners b)(ev := listeners b ev @ [?l]) \<and>
      binary_listeners b' = binary_listeners b" if "subscribed (add_listener ?l) ev b b'" for b'
    using that by (auto simp: subscribed_def listeners_def binary_listeners_def fun_eq_iff reg_on_def
        add_listener_def empty_entry_def split: option.splits)
  show ?thesis
    using register_ok [OF assms(1,2), of "add_listener ?l" ev a, OF in_use_add] on d assms(3)
    by (auto simp: event_on_dispatch_def subscribed_def)
qed

theorem event_on_refines_witness:
  "\<exists>b' a'. event_on_dispatch bus_chat (Some ''chat'') 8 0 0 0 [] = Some (Done b', a') \<and>
     map el_cb (listeners b' ''chat'') = [7, 8]"
  using event_on_refines [OF bus_chat, of 8 "''chat''" 0 0 0 "[]"] by (auto simp: bus_chat_listeners)

text \<open>\<open>event_off\<close> removes exactly the listeners of the event that match the callback and
  the user, with \<open>NULL\<close> matching all, keeps the others in order, and leaves every other
  event alone.\<close>

theorem event_off_refines:
  assumes "bus_ok b" and "bus_ready b"
  shows "\<exists>b'. event_off b (Some ev) cb user = Some b' \<and> bus_ok b' \<and>
    listeners b' = (listeners b)(ev := filter (\<lambda>l. \<not> off_match cb user (el_cb l) (el_user l)) (listeners b ev)) \<and>
    binary_listeners b' = binary_listeners b"
proof (cases "event_cell b ev")
  case None
  then have "listeners b ev = []" by (simp add: listeners_def entry_of_def)
  with None event_lookup_cell [OF assms(1) disjI1 [OF assms(2)], of ev] assms(1) show ?thesis
    by (auto simp: event_off_def)
next
  case (Some e)
  let ?f = "\<lambda>x. x\<lparr>ee_listeners := filter (\<lambda>l. \<not> off_match cb user (el_cb l) (el_user l)) (ee_listeners x)\<rparr>"
  obtain b' where b': "do { b \<leftarrow> set_entry e ?f b; event_remove_if_empty_locked ev e b } = Some b'" "bus_ok b'"
      "entry_of b' = reg_change ?f ev (entry_of b)"
    using change_ok [OF assms(1) Some, of ?f] by blast
  have "listeners b' = (listeners b)(ev := filter (\<lambda>l. \<not> off_match cb user (el_cb l) (el_user l)) (listeners b ev)) \<and>
      binary_listeners b' = binary_listeners b"
    using event_cell_entry [OF assms(1) Some]
    by (auto simp: fun_eq_iff listeners_def binary_listeners_def b'(3) reg_change_def reg_prune_def in_use_def)
  with b' Some event_lookup_cell [OF assms(1) disjI1 [OF assms(2)], of ev] show ?thesis by (simp add: event_off_def)
qed

theorem event_off_refines_witness:
  "\<exists>b'. event_off bus_chat (Some ''chat'') 0 5 = Some b' \<and> listeners b' ''chat'' = []"
  using event_off_refines [OF bus_chat, of "''chat''" 0 5] by (auto simp: bus_chat_listeners off_match_def)

subsection \<open>Emission\<close>

text \<open>What an emission does to the outside: the calls and hand-overs, in order.\<close>

fun perform :: "env \<Rightarrow> effect list \<Rightarrow> event_bus \<Rightarrow> event_bus proc" where
  "perform env [] b = ret b"
| "perform env (e # es) b = andthen (env e b) (perform env es)"

definition text_effect :: "string \<Rightarrow> handle \<Rightarrow> string ptr \<Rightarrow> event_listener \<Rightarrow> effect" where
  "text_effect ev cptr data l =
     (if el_dispatch l = 0 then Call_text (el_cb l) ev data cptr (el_user l)
      else Dispatch (el_dispatch l) (el_dispatch_user l)
        (Run_event \<lparr>qe_cb = el_cb l, qe_user = el_user l, qe_event = ev, qe_data = data,
           qe_cptr = (if el_domain_delivery l then 0 else cptr)\<rparr>))"

text \<open>The listeners an event reaches: its own, or those of \<open>NOMATCH\<close> when it has none.\<close>

definition receivers :: "event_bus \<Rightarrow> string \<Rightarrow> event_listener list" where
  "receivers b ev = (if listeners b ev \<noteq> [] then listeners b ev else listeners b EVENT_NOMATCH)"

text \<open>Callbacks that do not themselves use up the memory.\<close>

definition env_plenty :: "env \<Rightarrow> bool" where
  "env_plenty env \<longleftrightarrow> (\<forall>e b r a. env e b [] = Some (r, a) \<longrightarrow> a = [])"

lemma fire_all_perform:
  assumes "env_plenty env"
  shows "fire_all (\<lambda>l. event_fire_listener env l ev cptr data) ls b [] =
    perform env (map (text_effect ev cptr data) (filter (\<lambda>l. el_cb l \<noteq> 0) ls)) b []"
proof (induction ls arbitrary: b)
  case (Cons l ls)
  have fire: "event_fire_listener env l ev cptr data b [] =
      (if el_cb l = 0 then ret b [] else env (text_effect ev cptr data l) b [])"
    by (cases data) (simp_all add: event_fire_listener_def text_effect_def)
  show ?case
  proof (cases "el_cb l = 0")
    case True
    with fire have "event_fire_listener env l ev cptr data b [] = Some (Done b, [])" by simp
    with True Cons.IH show ?thesis by simp
  next
    case False
    then show ?thesis
    proof (cases "env (text_effect ev cptr data l) b []")
      case (Some ra)
      then obtain r where "ra = (r, [])" using assms by (cases ra) (auto simp: env_plenty_def)
      with False Some fire Cons.IH show ?thesis by (cases r) simp_all
    qed (use False fire in simp)
  qed
qed simp

lemma snapshot_plenty:
  assumes "bus_ok b"
  shows "event_snapshot_locked (event_cell b ev) b [] = Some (Done (listeners b ev), [])"
  using event_cell_entry [OF assms, of ev]
  by (cases "event_cell b ev") (auto simp: event_snapshot_locked_def listeners_def entry_of_def)

text \<open>C31: an emission reaches exactly the listeners registered when it starts, each once and in
  the order of registration, or those of \<open>NOMATCH\<close> if there are none. The calls are fixed by
  the state of the bus before the first of them: whatever the callbacks do to the bus,
  removals and registrations included, does not change who is called, and a listener of a
  domain never sees the connection pointer.\<close>

theorem event_emit_snapshot:
  assumes "bus_ok b" and "bus_ready b" and "env_plenty env"
  shows "event_emit env b (Some ev) cptr data [] =
    perform env (map (text_effect ev cptr data) (filter (\<lambda>l. el_cb l \<noteq> 0) (receivers b ev))) b []"
  using event_lookup_cell [OF assms(1) disjI1 [OF assms(2)]] snapshot_plenty [OF assms(1)] fire_all_perform [OF assms(3)]
  by (simp add: event_emit_def receivers_def)

text \<open>An environment whose callbacks remove every listener of the event they are called for.\<close>

definition env_off :: env where
  "env_off e b a =
     (case e of
        Call_text cb ev data cptr user \<Rightarrow> lift (event_off b (Some ev) 0 0) a
      | _ \<Rightarrow> ret b a)"

theorem event_emit_snapshot_witness:
  "env_plenty env_off \<and> event_emit env_off bus_chat (Some ''chat'') 0 (Some ''hi'') [] =
     andthen (env_off (Call_text 7 ''chat'' (Some ''hi'') 0 5) bus_chat) ret []"
proof -
  have env: "env_plenty env_off"
    by (auto simp: env_plenty_def env_off_def lift_def split: effect.splits bind_splits)
  have "perform env [] = ret" for env by (simp add: fun_eq_iff)
  with env show ?thesis
    using event_emit_snapshot [OF bus_chat env, of "''chat''" 0 "Some ''hi''"]
    by (simp add: receivers_def bus_chat_listeners text_effect_def)
qed

subsection \<open>Tokens\<close>

lemma event_off_token_ok:
  assumes "bus_ok b" and "bus_ready b \<or> event_cell b (tk_event t) \<noteq> NULL" and "h_cells (eb_tokens b) token = Some t"
    and "tk_active t" and "\<not> tk_message t" and "\<not> tk_binary t"
  shows "\<exists>b'. event_off_token b (Some token) = Some b' \<and> bus_ok b' \<and>
    listeners b' = (listeners b)(tk_event t :=
      remove_first (\<lambda>l. el_cb l = tk_cb t \<and> el_user l = tk_user t) (listeners b (tk_event t))) \<and>
    binary_listeners b' = binary_listeners b \<and>
    h_cells (eb_tokens b') = (h_cells (eb_tokens b))(token \<mapsto> t\<lparr>tk_active := False\<rparr>)"
proof -
  let ?ev = "tk_event t" and ?P = "\<lambda>l. el_cb l = tk_cb t \<and> el_user l = tk_user t"
  define goal where "goal b1 \<longleftrightarrow> bus_ok b1 \<and> eb_tokens b1 = eb_tokens b \<and>
    listeners b1 = (listeners b)(?ev := remove_first ?P (listeners b ?ev)) \<and>
    binary_listeners b1 = binary_listeners b" for b1
  have off: "ee_listeners (off_listener t x) = remove_first ?P (ee_listeners x) \<and>
      ee_binary_listeners (off_listener t x) = ee_binary_listeners x" for x
    using assms(6) by (auto simp: off_listener_def Let_def remove_first_absent)
  have "\<exists>b1. (case event_cell b ?ev of None \<Rightarrow> Some b
      | Some e \<Rightarrow> do { b \<leftarrow> set_entry e (off_listener t) b; event_remove_if_empty_locked ?ev e b }) = Some b1 \<and> goal b1"
  proof (cases "event_cell b ?ev")
    case None
    then have "listeners b ?ev = []" by (simp add: listeners_def entry_of_def)
    with None assms(1) show ?thesis by (auto simp: goal_def)
  next
    case (Some e)
    obtain b1 where b1: "do { b \<leftarrow> set_entry e (off_listener t) b; event_remove_if_empty_locked ?ev e b } = Some b1"
        "bus_ok b1" "entry_of b1 = reg_change (off_listener t) ?ev (entry_of b)" "same_rest b b1"
      using change_ok [OF assms(1) Some, of "off_listener t"] by blast
    have "goal b1"
      using event_cell_entry [OF assms(1) Some] b1(2,4) off
      by (auto simp: goal_def same_rest_def fun_eq_iff listeners_def binary_listeners_def b1(3)
          reg_change_def reg_prune_def in_use_def)
    with b1 Some show ?thesis by auto
  qed
  then obtain b1 where b1: "(case event_cell b ?ev of None \<Rightarrow> Some b
      | Some e \<Rightarrow> do { b \<leftarrow> set_entry e (off_listener t) b; event_remove_if_empty_locked ?ev e b }) = Some b1" "goal b1"
    by blast
  let ?b = "b1\<lparr>eb_tokens := (eb_tokens b)\<lparr>h_cells := (h_cells (eb_tokens b))(token \<mapsto> t\<lparr>tk_active := False\<rparr>)\<rparr>\<rparr>"
  have "event_off_token b (Some token) = Some ?b"
    using assms(3-5) event_lookup_cell [OF assms(1,2)] b1
    by (simp add: event_off_token_def set_token_def h_write_Some goal_def)
  moreover have "bus_ok ?b" using b1(2) by (simp add: goal_def bus_inv_def)
  moreover have "listeners ?b = listeners b1" "binary_listeners ?b = binary_listeners b1"
    using entry_of_cong [of ?b b1] by (simp_all add: fun_eq_iff listeners_def binary_listeners_def)
  ultimately show ?thesis using b1(2) by (auto simp: goal_def)
qed

definition bus_token :: "event_bus \<times> nat ptr" where
  "bus_token = (case event_on_token bus_new (Some ''chat'') 7 5 [] of Some (Done r, _) \<Rightarrow> r | _ \<Rightarrow> (bus_new, NULL))"

lemma bus_token_code:
  "snd bus_token = Some 1 \<and> listeners (fst bus_token) ''chat'' = [chat_listener] \<and>
   h_cells (eb_tokens (fst bus_token)) 1 = Some (empty_token\<lparr>tk_event := ''chat'', tk_cb := 7, tk_user := 5,
     tk_generation := 1, tk_active := True\<rparr>)"
  by code_simp

definition stale_scenario :: "(event_bus \<times> event_bus) comp" where
  "stale_scenario =
     (let (b, token) = bus_token
      in do {
        b \<leftarrow> event_off b (Some ''chat'') 7 0;
        (r, a) \<leftarrow> event_on b (Some ''chat'') 7 5 [];
        case r of
          Exit _ \<Rightarrow> None
        | Done b \<Rightarrow> do { b' \<leftarrow> event_off_token b token; Some (b, b') }
      })"

lemma stale_scenario_code:
  "map_option (\<lambda>(b, b'). (listeners b ''chat'', listeners b' ''chat'')) stale_scenario = Some ([chat_listener], [])"
  by code_simp

text \<open>\<open>event_off_token\<close> of an active token of a text listener removes the first listener
  of the event with the callback and user of the token, whichever registration it came from,
  removes nothing if there is none, touches no other event, and marks the token inactive.\<close>

theorem event_off_token_refines:
  assumes "bus_ok b" and "bus_ready b" and "h_cells (eb_tokens b) token = Some t"
    and "tk_active t" and "\<not> tk_message t" and "\<not> tk_binary t"
  shows "\<exists>b'. event_off_token b (Some token) = Some b' \<and> bus_ok b' \<and>
    listeners b' = (listeners b)(tk_event t :=
      remove_first (\<lambda>l. el_cb l = tk_cb t \<and> el_user l = tk_user t) (listeners b (tk_event t))) \<and>
    binary_listeners b' = binary_listeners b \<and>
    h_cells (eb_tokens b') = (h_cells (eb_tokens b))(token \<mapsto> t\<lparr>tk_active := False\<rparr>)"
  using assms by (intro event_off_token_ok) simp_all

definition chat_token :: rr_event_token where
  "chat_token = empty_token\<lparr>tk_event := ''chat'', tk_cb := 7, tk_user := 5, tk_generation := 1, tk_active := True\<rparr>"

definition bus_held :: event_bus where
  "bus_held = bus_chat\<lparr>eb_tokens := \<lparr>h_cells = [1 \<mapsto> chat_token], h_next = 2\<rparr>\<rparr>"

lemma bus_held: "bus_ok bus_held" "bus_ready bus_held" "listeners bus_held = listeners bus_chat"
  using bus_chat entry_of_cong [of bus_held bus_chat]
  by (simp_all add: bus_held_def bus_inv_def bus_ready_def listeners_def fun_eq_iff)

theorem event_off_token_refines_witness:
  "\<exists>b'. event_off_token bus_held (Some 1) = Some b' \<and> listeners b' ''chat'' = []"
proof -
  have "h_cells (eb_tokens bus_held) 1 = Some chat_token" "tk_active chat_token" "\<not> tk_message chat_token"
      "\<not> tk_binary chat_token" "tk_event chat_token = ''chat''" "tk_cb chat_token = 7" "tk_user chat_token = 5"
    by (simp_all add: bus_held_def chat_token_def empty_token_def)
  then show ?thesis
    using event_off_token_refines [OF bus_held(1,2), of 1 chat_token] by (auto simp: bus_held bus_chat_listeners)
qed

lemma event_on_token_ok:
  fixes user dispatch dispatch_user :: handle
  assumes "bus_ok b" and "bus_ready b" and "cb \<noteq> 0"
  defines "l \<equiv> \<lparr>el_cb = cb, el_user = user, el_dispatch = dispatch, el_dispatch_user = dispatch_user,
    el_domain_delivery = False\<rparr>"
  shows "\<exists>b' g. event_on_token_dispatch b (Some ev) cb user dispatch dispatch_user [] =
      Some (Done (b', Some (h_next (eb_tokens b))), []) \<and>
    subscribed (add_listener l) ev b b' \<and>
    h_cells (eb_tokens b') = (h_cells (eb_tokens b))(h_next (eb_tokens b) \<mapsto>
      empty_token\<lparr>tk_event := ev, tk_cb := cb, tk_user := user, tk_generation := g, tk_active := True\<rparr>)"
proof -
  obtain d where d: "eb_store b = Some d" using assms(2) by (rule bus_readyE)
  obtain b1 e where g: "event_get_or_create_locked b ev [] = Some (Done (b1, Some e), [])" "opened ev b e b1"
    using event_get_or_create_ok [OF assms(1,2), of ev "[]"] by auto
  obtain b2 where b2: "set_entry e (add_listener l) b1 = Some b2" "subscribed (add_listener l) ev b b2"
      "same_rest b b2" "event_cell b2 ev = Some e"
    using opened_set [OF g(2), of "add_listener l", OF in_use_add] by blast
  obtain x where x: "h_cells (eb_entries b2) e = Some x"
    using event_cell_entry [of "{}" b2 ev e] b2(2,4) by (auto simp: subscribed_def)
  let ?t = "empty_token\<lparr>tk_event := ev, tk_cb := cb, tk_user := user, tk_generation := ee_generation x, tk_active := True\<rparr>"
  let ?b = "b2\<lparr>eb_tokens := snd (h_new ?t (eb_tokens b2))\<rparr>"
  have "event_on_token_dispatch b (Some ev) cb user dispatch dispatch_user [] =
      Some (Done (?b, Some (h_next (eb_tokens b))), [])"
    using assms(3) d g(1) b2(1,3) x
    by (simp add: event_on_token_dispatch_def new_token_def l_def h_new_def same_rest_def empty_token_def)
  moreover have "subscribed (add_listener l) ev b ?b"
    using b2(2) entry_of_cong [of ?b b2] by (simp add: subscribed_def bus_inv_def)
  moreover have "h_cells (eb_tokens ?b) = (h_cells (eb_tokens b))(h_next (eb_tokens b) \<mapsto> ?t)"
    using b2(3) by (simp add: h_new_def same_rest_def)
  ultimately show ?thesis by blast
qed

text \<open>A token undoes its own registration. When the callback and user are not yet
  registered for the event, registering them with a token and removing the token leaves every
  event with the listeners it had before.\<close>

theorem event_token_roundtrip:
  assumes "bus_ok b" and "bus_ready b" and "cb \<noteq> 0"
    and "\<forall>l \<in> set (listeners b ev). \<not> (el_cb l = cb \<and> el_user l = user)"
  shows "\<exists>b1 token. event_on_token_dispatch b (Some ev) cb user dispatch dispatch_user [] = Some (Done (b1, Some token), []) \<and>
    (\<exists>b2. event_off_token b1 (Some token) = Some b2 \<and> bus_ok b2 \<and> listeners b2 = listeners b)"
proof -
  let ?l = "\<lparr>el_cb = cb, el_user = user, el_dispatch = dispatch, el_dispatch_user = dispatch_user, el_domain_delivery = False\<rparr>"
  let ?n = "h_next (eb_tokens b)"
  obtain b1 g where b1: "event_on_token_dispatch b (Some ev) cb user dispatch dispatch_user [] = Some (Done (b1, Some ?n), [])"
      "subscribed (add_listener ?l) ev b b1"
      "h_cells (eb_tokens b1) ?n = Some (empty_token\<lparr>tk_event := ev, tk_cb := cb, tk_user := user,
         tk_generation := g, tk_active := True\<rparr>)" (is "_ = Some ?t")
    using event_on_token_ok [OF assms(1-3), of ev user dispatch dispatch_user] by auto
  have on: "listeners b1 = (listeners b)(ev := listeners b ev @ [?l])"
    using b1(2) by (auto simp: subscribed_def fun_eq_iff listeners_def reg_on_def add_listener_def empty_entry_def
        split: option.splits)
  have t: "tk_active ?t" "\<not> tk_message ?t" "\<not> tk_binary ?t" by (simp_all add: empty_token_def)
  have ok: "bus_ok b1" using b1(2) by (simp add: subscribed_def)
  have "event_cell b1 (tk_event ?t) \<noteq> NULL"
    using entry_of_None [OF ok, of ev] b1(2) by (simp add: subscribed_def reg_on_def)
  then have "\<exists>b2. event_off_token b1 (Some ?n) = Some b2 \<and> bus_ok b2 \<and> listeners b2 = listeners b"
    using event_off_token_ok [OF ok _ b1(3) t] assms(4) by (auto simp: on remove_first_append)
  with b1(1) show ?thesis by blast
qed

theorem event_token_roundtrip_witness:
  "\<exists>b1 token b2. event_on_token_dispatch bus_chat (Some ''chat'') 9 1 0 0 [] = Some (Done (b1, Some token), []) \<and>
     event_off_token b1 (Some token) = Some b2 \<and> listeners b2 ''chat'' = [chat_listener]"
  using event_token_roundtrip [OF bus_chat, of 9 "''chat''" 1 0 0] by (auto simp: bus_chat_listeners)

text \<open>The generation kept in tokens and entries to recognise a listener that is gone is
  never compared. A listener registered with a token and removed by callback leaves the token
  active; when another owner then registers the same callback and user, the old token removes
  that registration, although it does not belong to it.\<close>

theorem stale_token_drops_other:
  "\<exists>b b'. stale_scenario = Some (b, b') \<and> listeners b ''chat'' = [chat_listener] \<and> listeners b' ''chat'' = []"
  using stale_scenario_code by (auto simp: map_option_case split: option.splits)

subsection \<open>The bus and the dictionary\<close>

text \<open>Subscribing to events and unsubscribing again, one event after the other.\<close>

fun bus_churn :: "event_bus \<Rightarrow> string list \<Rightarrow> event_bus comp" where
  "bus_churn b [] = Some b"
| "bus_churn b (ev # evs) =
     do {
       (r, a) \<leftarrow> event_on b (Some ev) 7 5 [];
       case r of
         Exit _ \<Rightarrow> None
       | Done b \<Rightarrow> do { b \<leftarrow> event_off b (Some ev) 7 5; bus_churn b evs }
     }"

lemma bus_churn_code: "map_option eb_store (bus_churn bus_new churn_keys) = Some (Some tombstones)"
  by code_simp

text \<open>The tombstones of the dictionary block the event bus. After eight events have been
  subscribed to and unsubscribed from again, the registry is empty, and every further
  operation that looks up an event runs forever, and does so holding the lock of the bus.\<close>

theorem event_churn_deadlock:
  "\<exists>b. bus_churn bus_new churn_keys = Some b \<and> entry_of b = Map.empty \<and>
    (\<forall>env ev cptr data a. event_emit env b (Some ev) cptr data a = None) \<and>
    (\<forall>ev cb user a. event_on b (Some ev) cb user a = (if cb = 0 then Some (Done b, a) else None)) \<and>
    (\<forall>ev cb user. event_off b (Some ev) cb user = None)"
proof -
  obtain b where b: "bus_churn bus_new churn_keys = Some b" "eb_store b = Some tombstones"
    using bus_churn_code by (auto simp: map_option_case split: option.splits)
  have "dict_get_kp (Some tombstones) (Some ev) = None" for ev
    using dict_lookup_stuck [OF no_free_stuck [OF tombstones_inv(1,2), of ev]] tombstones_inv(3)
    by (simp add: dict_get_kp_def)
  then have "event_lookup_locked b (Some ev) = None" for ev
    by (simp add: event_lookup_locked_def dict_get_ptr_def get_value_def b(2))
  moreover have "entry_of b = Map.empty"
    by (simp add: fun_eq_iff entry_of_def event_cell_def b(2) tombstones_inv(3))
  ultimately show ?thesis
    using b by (auto simp: event_emit_def event_on_def event_on_dispatch_def event_off_def event_get_or_create_locked_def)
qed

subsection \<open>Domains and shutdown\<close>

text \<open>The items of the registry are the cells of the events.\<close>

lemma registry_items:
  assumes "bus_ok b" and "eb_store b = Some d"
  shows "(ev, v) \<in> set (dict_items d 0) \<longleftrightarrow> (\<exists>a. event_cell b ev = Some a \<and> v = V_ptr (of_nat a))"
    and "event_cell b ev = Some a \<Longrightarrow> unat (of_nat a :: u64) = a \<and> (of_nat a :: u64) \<noteq> 0"
proof -
  note inv = bus_invD [OF assms]
  have "(ev, v) \<in> set (dict_items d 0) \<longleftrightarrow> dict_map d ev = Some v"
    using dict_items_distinct [OF inv(3)] dict_items_map [of d] by (metis map_of_eq_Some_iff)
  then show "(ev, v) \<in> set (dict_items d 0) \<longleftrightarrow> (\<exists>a. event_cell b ev = Some a \<and> v = V_ptr (of_nat a))"
    using event_cell_map [OF assms, of ev] by (auto split: option.splits)
  assume "event_cell b ev = Some a"
  then show "unat (of_nat a :: u64) = a \<and> (of_nat a :: u64) \<noteq> 0"
    using inv(4) [of ev] assms(2) by (auto simp: event_cell_def split: option.splits dict_value.splits)
qed

lemma registry_uses_items:
  assumes "\<forall>(ev, v) \<in> set items. \<exists>p e. v = V_ptr p \<and> p \<noteq> 0 \<and> h_cells h (unat p) = Some e"
  shows "registry_uses d h items =
    Some (\<exists>(ev, v) \<in> set items. \<exists>p e. v = V_ptr p \<and> h_cells h (unat p) = Some e \<and> entry_uses d e)"
  using assms by (induction items) auto

text \<open>Somebody is still served by the domain.\<close>

definition domain_used :: "event_domain \<Rightarrow> event_bus \<Rightarrow> bool" where
  "domain_used d b \<longleftrightarrow>
     (\<exists>l \<in> set (eb_messages b). ml_domain l = Some (ed_name d)) \<or>
     (\<exists>ev. \<exists>l \<in> set (listeners b ev). el_dispatch l = ed_dispatch d \<and> el_dispatch_user l = ed_user d) \<or>
     (\<exists>ev. \<exists>l \<in> set (binary_listeners b ev). bl_dispatch l = ed_dispatch d \<and> bl_dispatch_user l = ed_user d)"

lemma registry_uses_domain:
  assumes "bus_ok b" and "eb_store b = Some s"
  shows "registry_uses d (eb_entries b) (dict_items s 0) = Some (\<exists>ev e. entry_of b ev = Some e \<and> entry_uses d e)"
proof -
  have cell: "\<exists>p e. v = V_ptr p \<and> p \<noteq> 0 \<and> h_cells (eb_entries b) (unat p) = Some e"
    if mem: "(ev, v) \<in> set (dict_items s 0)" for ev v
  proof -
    obtain a where a: "event_cell b ev = Some a" "v = V_ptr (of_nat a)" 
      using mem registry_items(1) [OF assms] by blast
    with registry_items(2) [OF assms a(1)] event_cell_entry [OF assms(1) a(1)] show ?thesis by auto
  qed
  have "(\<exists>(ev, v) \<in> set (dict_items s 0). \<exists>p e. v = V_ptr p \<and> h_cells (eb_entries b) (unat p) = Some e \<and> entry_uses d e) \<longleftrightarrow>
      (\<exists>ev e. entry_of b ev = Some e \<and> entry_uses d e)" (is "?L \<longleftrightarrow> ?R")
  proof
    assume ?L
    then obtain ev v p e where ev: "(ev, v) \<in> set (dict_items s 0)" "v = V_ptr p"
        "h_cells (eb_entries b) (unat p) = Some e" "entry_uses d e"
      by blast
    then obtain a where a: "event_cell b ev = Some a" "p = of_nat a"
      unfolding registry_items(1) [OF assms] by auto
    with registry_items(2) [OF assms a(1)] ev have "entry_of b ev = Some e" by (simp add: entry_of_def)
    with ev(4) show ?R by blast
  next
    assume ?R
    then obtain ev e a where "event_cell b ev = Some a" "h_cells (eb_entries b) a = Some e" "entry_uses d e"
      by (auto simp: entry_of_def split: option.splits)
    with registry_items [OF assms, of ev] show ?L by (intro bexI [of _ "(ev, V_ptr (of_nat a))"]) auto
  qed
  moreover have "\<forall>(ev, v) \<in> set (dict_items s 0). \<exists>p e. v = V_ptr p \<and> p \<noteq> 0 \<and> h_cells (eb_entries b) (unat p) = Some e"
    using cell by blast
  ultimately show ?thesis using registry_uses_items [of "dict_items s 0" "eb_entries b" d] by simp
qed

lemma listeners_mem:
  "l \<in> set (listeners b ev) \<longleftrightarrow> (\<exists>e. entry_of b ev = Some e \<and> l \<in> set (ee_listeners e))"
  "k \<in> set (binary_listeners b ev) \<longleftrightarrow> (\<exists>e. entry_of b ev = Some e \<and> k \<in> set (ee_binary_listeners e))"
  by (cases "entry_of b ev"; simp add: listeners_def binary_listeners_def)+

lemma domain_used_alt:
  "domain_used d b \<longleftrightarrow> (\<exists>l \<in> set (eb_messages b). ml_domain l = Some (ed_name d)) \<or>
     (\<exists>ev e. entry_of b ev = Some e \<and> entry_uses d e)"
  unfolding domain_used_def entry_uses_def Bex_def listeners_mem by blast

text \<open>A domain can be unregistered exactly when nobody is served by it: the call always
  returns; it succeeds, and removes the domain, if and only if no message listener and no
  listener of any event is delivered through the dispatcher of the domain, and otherwise the
  bus is unchanged.\<close>

theorem domain_unregister_exact:
  assumes "bus_ok b" and "find_domain name b = Some d"
  shows "event_domain_unregister b (Some name) =
    Some (if domain_used d b then (b, False)
      else (b\<lparr>eb_domains := remove_first (\<lambda>d. ed_name d = name) (eb_domains b)\<rparr>, True))"
proof (cases "eb_store b")
  case None
  then have "entry_of b = Map.empty" by (simp add: fun_eq_iff entry_of_def event_cell_def)
  with None assms(2) show ?thesis by (auto simp: event_domain_unregister_def domain_used_alt)
next
  case (Some s)
  with assms registry_uses_domain [OF assms(1) Some, of d] show ?thesis
    by (auto simp: event_domain_unregister_def domain_used_alt)
qed

definition gtk_domain :: event_domain where
  "gtk_domain = \<lparr>ed_name = ''gtk'', ed_dispatch = 3, ed_user = 0\<rparr>"

theorem domain_unregister_exact_witness:
  "event_domain_unregister (bus_chat\<lparr>eb_domains := [gtk_domain]\<rparr>) (Some ''gtk'') = Some (bus_chat\<lparr>eb_domains := []\<rparr>, True)"
proof -
  let ?b = "bus_chat\<lparr>eb_domains := [gtk_domain]\<rparr>"
  have ok: "bus_ok ?b" using bus_chat(1) by (simp add: bus_inv_def)
  have find: "find_domain ''gtk'' ?b = Some gtk_domain" by (simp add: find_domain_def gtk_domain_def)
  have "entry_of ?b = entry_of bus_chat" by (rule entry_of_cong) simp_all
  moreover have "eb_messages ?b = []" by code_simp
  ultimately have "\<not> domain_used gtk_domain ?b"
    by (auto simp: domain_used_alt bus_chat_facts(2) entry_uses_def add_listener_def empty_entry_def gtk_domain_def
        split: if_splits)
  then show ?thesis using domain_unregister_exact [OF ok find] by (simp add: gtk_domain_def)
qed

text \<open>The addresses that the items of a registry point to.\<close>

definition item_cells :: "(string \<times> dict_value) list \<Rightarrow> nat list" where
  "item_cells items = map (\<lambda>(ev, v). case v of V_ptr p \<Rightarrow> unat p | _ \<Rightarrow> 0) items"

lemma free_entries_items:
  assumes "\<forall>(ev, v) \<in> set items. \<exists>p e. v = V_ptr p \<and> p \<noteq> 0 \<and> h_cells (eb_entries b) (unat p) = Some e"
    and "distinct (item_cells items)"
  shows "\<exists>b'. free_entries items b = Some b' \<and> same_rest b b' \<and>
    h_cells (eb_entries b') = (\<lambda>a. if a \<in> set (item_cells items) then None else h_cells (eb_entries b) a)"
  using assms
proof (induction items arbitrary: b)
  case (Cons kv items)
  then obtain ev p e where kv: "kv = (ev, V_ptr p)" "p \<noteq> 0" "h_cells (eb_entries b) (unat p) = Some e" by auto
  let ?b = "b\<lparr>eb_entries := (eb_entries b)\<lparr>h_cells := (h_cells (eb_entries b))(unat p := None)\<rparr>\<rparr>"
  have notin: "unat p \<notin> set (item_cells items)" "distinct (item_cells items)"
    using Cons.prems(2) by (simp_all add: item_cells_def kv(1))
  have "\<forall>(ev, v) \<in> set items. \<exists>q e. v = V_ptr q \<and> q \<noteq> 0 \<and> h_cells (eb_entries ?b) (unat q) = Some e"
  proof clarify
    fix ev' v assume mem: "(ev', v) \<in> set items"
    then obtain q e' where q: "v = V_ptr q" "q \<noteq> 0" "h_cells (eb_entries b) (unat q) = Some e'" using Cons.prems(1) by auto
    then have "unat q \<in> set (item_cells items)" using mem by (force simp: item_cells_def)
    with notin(1) have "unat q \<noteq> unat p" by metis
    with q show "\<exists>q e. v = V_ptr q \<and> q \<noteq> 0 \<and> h_cells (eb_entries ?b) (unat q) = Some e" by auto
  qed
  from Cons.IH [OF this notin(2)] obtain b' where "free_entries items ?b = Some b'" "same_rest ?b b'"
      "h_cells (eb_entries b') = (\<lambda>a. if a \<in> set (item_cells items) then None else h_cells (eb_entries ?b) a)"
    by blast
  with kv show ?case
    by (auto simp: event_entry_free_def h_free_def same_rest_def item_cells_def fun_eq_iff)
qed (simp add: same_rest_def item_cells_def)

lemma cancel_messages_ok:
  assumes "\<forall>l \<in> set ls. h_cells (eb_tokens b) (ml_token l) \<noteq> None"
  shows "\<exists>b'. cancel_messages ls b = Some b' \<and> eb_entries b' = eb_entries b \<and>
    (\<forall>k t. h_cells (eb_tokens b) k = Some t \<longrightarrow> h_cells (eb_tokens b') k =
       Some (if k \<in> ml_token ` set ls then t\<lparr>tk_active := False\<rparr> else t))"
  using assms
proof (induction ls arbitrary: b)
  case (Cons l ls)
  then obtain t where t: "h_cells (eb_tokens b) (ml_token l) = Some t" by auto
  let ?b = "b\<lparr>eb_tokens := (eb_tokens b)\<lparr>h_cells := (h_cells (eb_tokens b))(ml_token l \<mapsto> t\<lparr>tk_active := False\<rparr>)\<rparr>\<rparr>"
  have "set_token (ml_token l) (\<lambda>t. t\<lparr>tk_active := False\<rparr>) b = Some ?b" using t by (simp add: set_token_def h_write_Some)
  moreover have "\<forall>l \<in> set ls. h_cells (eb_tokens ?b) (ml_token l) \<noteq> None" using Cons.prems by auto
  from Cons.IH [OF this] obtain b' where "cancel_messages ls ?b = Some b'" "eb_entries b' = eb_entries ?b"
      "\<forall>k t. h_cells (eb_tokens ?b) k = Some t \<longrightarrow> h_cells (eb_tokens b') k =
         Some (if k \<in> ml_token ` set ls then t\<lparr>tk_active := False\<rparr> else t)"
    by blast
  moreover from this(3) have "h_cells (eb_tokens b') k =
      Some (if k \<in> ml_token ` set (l # ls) then u\<lparr>tk_active := False\<rparr> else u)"
    if "h_cells (eb_tokens b) k = Some u" for k u
    using that t by (cases "k = ml_token l") auto
  ultimately show ?case by auto
qed simp

text \<open>\<open>event_shutdown\<close> always returns, frees every entry of the registry exactly once and
  no other block, cancels every message listener, and leaves a bus without registry, domains
  and listeners.\<close>

theorem event_shutdown_frees_all:
  assumes "bus_ok b" and "eb_store b \<noteq> NULL"
    and "\<forall>l \<in> set (eb_messages b). h_cells (eb_tokens b) (ml_token l) \<noteq> None"
  shows "\<exists>b'. event_shutdown b = Some b' \<and> eb_store b' = NULL \<and> eb_messages b' = [] \<and> eb_domains b' = [] \<and>
    h_cells (eb_entries b') = (\<lambda>a. if \<exists>ev. event_cell b ev = Some a then None else h_cells (eb_entries b) a) \<and>
    (\<forall>l \<in> set (eb_messages b). \<exists>t. h_cells (eb_tokens b') (ml_token l) = Some t \<and> \<not> tk_active t)"
proof -
  obtain s where s: "eb_store b = Some s" using assms(2) by blast
  note items = registry_items [OF assms(1) s]
  have cell: "\<exists>p e. v = V_ptr p \<and> p \<noteq> 0 \<and> h_cells (eb_entries b) (unat p) = Some e \<and> event_cell b ev = Some (unat p)"
    if mem: "(ev, v) \<in> set (dict_items s 0)" for ev v
  proof -
    obtain a where a: "event_cell b ev = Some a" "v = V_ptr (of_nat a)" using mem items(1) by blast
    with items(2) [OF a(1)] event_cell_entry [OF assms(1) a(1)] show ?thesis by auto
  qed
  have mem: "a \<in> set (item_cells (dict_items s 0)) \<longleftrightarrow> (\<exists>ev. event_cell b ev = Some a)" for a
  proof
    assume "a \<in> set (item_cells (dict_items s 0))"
    then obtain ev v where "(ev, v) \<in> set (dict_items s 0)" "a = (case v of V_ptr p \<Rightarrow> unat p | _ \<Rightarrow> 0)"
      by (auto simp: item_cells_def)
    with cell [of ev v] show "\<exists>ev. event_cell b ev = Some a" by auto
  next
    assume "\<exists>ev. event_cell b ev = Some a"
    then obtain ev where ev: "event_cell b ev = Some a" ..
    then have "(ev, V_ptr (of_nat a)) \<in> set (dict_items s 0)" using items(1) by blast
    then have "unat (of_nat a :: u64) \<in> set (item_cells (dict_items s 0))" by (force simp: item_cells_def)
    then show "a \<in> set (item_cells (dict_items s 0))" using items(2) [OF ev] by simp
  qed
  have "inj_on (\<lambda>(ev, v). case v of V_ptr p \<Rightarrow> unat p | _ \<Rightarrow> 0) (set (dict_items s 0))"
  proof (rule inj_onI, clarify)
    fix ev v ev' v'
    assume m: "(ev, v) \<in> set (dict_items s 0)" "(ev', v') \<in> set (dict_items s 0)"
      and eq: "(case v of V_ptr p \<Rightarrow> unat p | _ \<Rightarrow> 0) = (case v' of V_ptr p \<Rightarrow> unat p | _ \<Rightarrow> 0)"
    from cell [OF m(1)] cell [OF m(2)] eq have "event_cell b ev = event_cell b ev'" "event_cell b ev \<noteq> None" by auto
    then have "ev = ev'" using event_cell_inj [OF assms(1)] by auto
    with cell [OF m(1)] cell [OF m(2)] show "ev = ev' \<and> v = v'" by (auto simp: word_unat_eq_iff)
  qed
  moreover have "distinct (dict_items s 0)"
    using dict_items_distinct [OF bus_invD(3) [OF assms(1) s]] by (simp add: distinct_map)
  ultimately have "distinct (item_cells (dict_items s 0))" by (simp add: item_cells_def distinct_map)
  moreover have "\<forall>(ev, v) \<in> set (dict_items s 0). \<exists>p e. v = V_ptr p \<and> p \<noteq> 0 \<and> h_cells (eb_entries b) (unat p) = Some e"
    using cell by blast
  ultimately obtain b1 where b1: "free_entries (dict_items s 0) b = Some b1" "same_rest b b1"
      "h_cells (eb_entries b1) = (\<lambda>a. if a \<in> set (item_cells (dict_items s 0)) then None else h_cells (eb_entries b) a)"
    using free_entries_items by blast
  obtain b2 where b2: "cancel_messages (eb_messages b1) b1 = Some b2" "eb_entries b2 = eb_entries b1"
      "\<forall>k t. h_cells (eb_tokens b1) k = Some t \<longrightarrow> h_cells (eb_tokens b2) k =
         Some (if k \<in> ml_token ` set (eb_messages b1) then t\<lparr>tk_active := False\<rparr> else t)"
    using cancel_messages_ok [of "eb_messages b1" b1] assms(3) b1(2) by (auto simp: same_rest_def)
  show ?thesis
    using s b1 b2 assms(3) by (fastforce simp: event_shutdown_def same_rest_def mem)
qed

theorem event_shutdown_frees_all_witness:
  "\<exists>b'. event_shutdown bus_chat = Some b' \<and> eb_store b' = NULL"
proof -
  have "eb_messages bus_chat = []" by code_simp
  moreover have "eb_store bus_chat \<noteq> NULL" using bus_chat_ready by (auto simp: bus_ready_def)
  ultimately show ?thesis using event_shutdown_frees_all [OF bus_chat(1)] by auto
qed

end
