(* ===== verification/Event_Messages.thy ===== *)
theory Event_Messages
  imports Event_Registry
begin

text \<open>
  Owned messages under concurrency. Between the critical sections of \<open>event-bus.c\<close> threads
  interleave freely: a message may wait in a dispatcher while its listener is removed, and a
  callback may run while another thread unregisters and drains its token before it unloads
  the module that holds the callback. The state is the bus, the messages that are handed over
  but not yet delivered, and the callbacks that are running, each known by its token; a step
  is one critical section.
\<close>

record msg_world =
  mw_bus :: event_bus
  mw_pending :: "nat list"
  mw_running :: "nat list"

inductive msg_step :: "msg_world \<Rightarrow> msg_world \<Rightarrow> bool" where
  Subscribe: "event_on_message_token (mw_bus w) np cb user dispatch dispatch_user a = Some (Done (b, token), a') \<Longrightarrow>
    msg_step w (w\<lparr>mw_bus := b\<rparr>)"
| Subscribe_domain: "event_on_message_domain_token (mw_bus w) np cb user dp a = Some (Done (b, token), a') \<Longrightarrow>
    msg_step w (w\<lparr>mw_bus := b\<rparr>)"
| Emit: "message_targets (mw_bus w) name (eb_messages (mw_bus w)) a = Some (Done ls, a') \<Longrightarrow>
    msg_step w (w\<lparr>mw_pending := map ml_token ls @ mw_pending w\<rparr>)"
| Begin: "token \<in> set (mw_pending w) \<Longrightarrow> deliver_begin token (mw_bus w) = Some (True, b) \<Longrightarrow>
    msg_step w (w\<lparr>mw_bus := b, mw_pending := remove1 token (mw_pending w),
      mw_running := token # mw_running w\<rparr>)"
| Discard: "token \<in> set (mw_pending w) \<Longrightarrow> deliver_begin token (mw_bus w) = Some (False, b) \<Longrightarrow>
    msg_step w (w\<lparr>mw_bus := b, mw_pending := remove1 token (mw_pending w)\<rparr>)"
| End: "token \<in> set (mw_running w) \<Longrightarrow> deliver_end token (mw_bus w) = Some b \<Longrightarrow>
    msg_step w (w\<lparr>mw_bus := b, mw_running := remove1 token (mw_running w)\<rparr>)"
| Unsubscribe: "event_off_token (mw_bus w) tp = Some b \<Longrightarrow> msg_step w (w\<lparr>mw_bus := b\<rparr>)"
| Registry: "same_rest (mw_bus w) b \<Longrightarrow> msg_step w (w\<lparr>mw_bus := b\<rparr>)"
| Shutdown: "event_shutdown (mw_bus w) = Some b \<Longrightarrow> msg_step w (w\<lparr>mw_bus := b\<rparr>)"

inductive_cases msg_stepE: "msg_step w w'"

subsection \<open>What each step does to the tokens\<close>

text \<open>A token keeps its record; it may only become inactive.\<close>

definition tokens_kept :: "event_bus \<Rightarrow> event_bus \<Rightarrow> bool" where
  "tokens_kept b b' \<longleftrightarrow>
     heap_ok (eb_tokens b') \<and> h_next (eb_tokens b) \<le> h_next (eb_tokens b') \<and>
     (\<forall>k t. h_cells (eb_tokens b) k = Some t \<longrightarrow>
        (\<exists>t'. h_cells (eb_tokens b') k = Some t' \<and> tk_executing t' = tk_executing t \<and>
           (tk_active t' \<longrightarrow> tk_active t))) \<and>
     (\<forall>k t'. h_cells (eb_tokens b) k = None \<longrightarrow> h_cells (eb_tokens b') k = Some t' \<longrightarrow> tk_executing t' = 0)"

lemma tokens_kept_refl: "heap_ok (eb_tokens b) \<Longrightarrow> eb_tokens b' = eb_tokens b \<Longrightarrow> tokens_kept b b'"
  by (auto simp: tokens_kept_def)

lemma tokens_kept_trans: "tokens_kept b b' \<Longrightarrow> tokens_kept b' b'' \<Longrightarrow> tokens_kept b b''"
proof -
  assume b: "tokens_kept b b'" and c: "tokens_kept b' b''"
  have "\<exists>t''. h_cells (eb_tokens b'') k = Some t'' \<and> tk_executing t'' = tk_executing t \<and> (tk_active t'' \<longrightarrow> tk_active t)"
    if "h_cells (eb_tokens b) k = Some t" for k t
    using b c that unfolding tokens_kept_def by (metis (no_types, lifting))
  moreover have "tk_executing t'' = 0"
    if "h_cells (eb_tokens b) k = None" "h_cells (eb_tokens b'') k = Some t''" for k t''
  proof (cases "h_cells (eb_tokens b') k")
    case None
    with c that show ?thesis by (auto simp: tokens_kept_def)
  next
    case (Some t')
    with b that have "tk_executing t' = 0" by (auto simp: tokens_kept_def)
    with c Some that show ?thesis by (fastforce simp: tokens_kept_def)
  qed
  ultimately show ?thesis using b c by (auto simp: tokens_kept_def)
qed

lemma set_token_inactive:
  assumes "set_token k (\<lambda>t. t\<lparr>tk_active := False\<rparr>) b = Some b'" and "heap_ok (eb_tokens b)"
  shows "tokens_kept b b'" and "eb_messages b' = eb_messages b"
  using assms heap_ok_alloc [OF assms(2), of k]
  by (auto simp: set_token_def h_write_def tokens_kept_def heap_ok_def elim!: bind_eq_SomeE split: if_splits)

lemma set_entry_rest: "set_entry e f b = Some b' \<Longrightarrow> same_rest b b'"
  by (auto simp: set_entry_def same_rest_def elim!: bind_eq_SomeE)

lemma event_entry_free_rest: "event_entry_free e b = Some b' \<Longrightarrow> same_rest b b'"
  by (auto simp: event_entry_free_def same_rest_def elim!: bind_eq_SomeE)

lemma remove_if_empty_rest: "event_remove_if_empty_locked ev e b = Some b' \<Longrightarrow> same_rest b b'"
  using event_entry_free_rest
  by (fastforce simp: event_remove_if_empty_locked_def same_rest_def elim!: bind_eq_SomeE split: if_splits prod.splits)

lemma off_token_kept:
  assumes "event_off_token b tp = Some b'" and "heap_ok (eb_tokens b)"
  shows "tokens_kept b b'"
proof (cases tp)
  case None
  with assms show ?thesis by (simp add: event_off_token_def tokens_kept_refl)
next
  case (Some k)
  then obtain t where t: "h_cells (eb_tokens b) k = Some t"
    using assms(1) by (auto simp: event_off_token_def elim!: bind_eq_SomeE)
  consider "b' = b"
    | "set_token k (\<lambda>t. t\<lparr>tk_active := False\<rparr>)
          (b\<lparr>eb_messages := remove_first (\<lambda>l. ml_token l = k) (eb_messages b)\<rparr>) = Some b'"
    | b1 where "same_rest b b1" "set_token k (\<lambda>t. t\<lparr>tk_active := False\<rparr>) b1 = Some b'"
    using assms(1) Some t set_entry_rest remove_if_empty_rest
    by (fastforce simp: event_off_token_def same_rest_def elim!: bind_eq_SomeE split: if_splits option.splits)
  then show ?thesis
  proof cases
    case 2
    then have "tokens_kept (b\<lparr>eb_messages := remove_first (\<lambda>l. ml_token l = k) (eb_messages b)\<rparr>) b'"
      by (rule set_token_inactive) (simp add: assms(2))
    then show ?thesis by (simp add: tokens_kept_def)
  next
    case 3
    then have "tokens_kept b1 b'" by (intro set_token_inactive) (simp_all add: same_rest_def assms(2))
    with 3 show ?thesis by (simp add: tokens_kept_def same_rest_def)
  qed (simp add: tokens_kept_refl assms(2))
qed

lemma free_entries_rest: "free_entries items b = Some b' \<Longrightarrow> same_rest b b'"
proof (induction items b rule: free_entries.induct)
  case (2 k v items b)
  show ?case
  proof (cases "\<exists>p. v = V_ptr p")
    case True
    with 2 event_entry_free_rest show ?thesis by (fastforce simp: same_rest_def elim!: bind_eq_SomeE)
  next
    case False
    with 2 show ?thesis by (cases v) auto
  qed
qed (simp add: same_rest_def)

lemma cancel_messages_kept: "cancel_messages ls b = Some b' \<Longrightarrow> heap_ok (eb_tokens b) \<Longrightarrow> tokens_kept b b'"
proof (induction ls arbitrary: b)
  case (Cons l ls)
  then obtain b1 where b1: "set_token (ml_token l) (\<lambda>t. t\<lparr>tk_active := False\<rparr>) b = Some b1" "cancel_messages ls b1 = Some b'"
    by (auto elim!: bind_eq_SomeE)
  have kept: "tokens_kept b b1" by (rule set_token_inactive [OF b1(1) Cons.prems(2)])
  then have "tokens_kept b1 b'" using Cons.IH [OF b1(2)] by (simp add: tokens_kept_def)
  with kept show ?case by (rule tokens_kept_trans)
qed (simp add: tokens_kept_refl)

lemma shutdown_kept:
  assumes "event_shutdown b = Some b'" and "heap_ok (eb_tokens b)"
  shows "tokens_kept b b'"
proof (cases "eb_store b")
  case None
  with assms show ?thesis by (simp add: event_shutdown_def tokens_kept_refl)
next
  case (Some d)
  then obtain b1 b2 where "free_entries (dict_items d 0) b = Some b1" "cancel_messages (eb_messages b1) b1 = Some b2"
      "eb_tokens b' = eb_tokens b2"
    using assms(1) by (auto simp: event_shutdown_def elim!: bind_eq_SomeE)
  with cancel_messages_kept [of "eb_messages b1" b1 b2] free_entries_rest assms(2) show ?thesis
    by (force simp: tokens_kept_def same_rest_def)
qed

lemma andthen_DoneE:
  assumes "andthen m f a = Some (Done y, a')"
  obtains x a1 where "m a = Some (Done x, a1)" "f x a1 = Some (Done y, a')"
  using assms by (auto simp: andthen_def elim!: bind_eq_SomeE split: run.splits prod.splits)

lemma new_token_kept:
  assumes "new_token t b a = Some (Done (b', token), a')" and "heap_ok (eb_tokens b)" and "tk_executing t = 0"
  shows "tokens_kept b b'"
proof -
  obtain s where "eb_tokens b' = snd (h_new (t\<lparr>tk_event := s\<rparr>) (eb_tokens b))"
    using assms(1) by (auto simp: new_token_def h_new_def elim!: andthen_DoneE)
  with assms(2,3) heap_ok_next [OF assms(2)] show ?thesis
    by (auto simp: tokens_kept_def h_new_def heap_ok_def split: if_splits)
qed

lemma message_listener_kept:
  assumes "new_message_listener b name cb user domain dispatch dispatch_user a = Some (Done (b', token), a')"
    and "heap_ok (eb_tokens b)"
  shows "tokens_kept b b'"
proof -
  obtain b1 k a1 where "new_token (empty_token\<lparr>tk_event := name, tk_active := True, tk_message := True, tk_user := user\<rparr>) b a =
      Some (Done (b1, k), a1)" "eb_tokens b' = eb_tokens b1"
    using assms(1) by (auto simp: new_message_listener_def elim!: andthen_DoneE)
  with new_token_kept [OF _ assms(2)] show ?thesis by (fastforce simp: tokens_kept_def empty_token_def)
qed

lemma on_message_kept:
  assumes "heap_ok (eb_tokens b)"
  shows "event_on_message_token b np cb user dispatch dispatch_user a = Some (Done (b', token), a') \<Longrightarrow> tokens_kept b b'"
    and "event_on_message_domain_token b np cb user dp a = Some (Done (b', token), a') \<Longrightarrow> tokens_kept b b'"
  using message_listener_kept [OF _ assms] tokens_kept_refl [OF assms]
  by (auto simp: event_on_message_token_def event_on_message_domain_token_def split: option.splits if_splits)

subsection \<open>The invariant\<close>

text \<open>Every token counts the callbacks that run for it.\<close>

definition msg_inv :: "msg_world \<Rightarrow> bool" where
  "msg_inv w \<longleftrightarrow>
     heap_ok (eb_tokens (mw_bus w)) \<and>
     (\<forall>k \<in> set (mw_running w). h_cells (eb_tokens (mw_bus w)) k \<noteq> None) \<and>
     (\<forall>k t. h_cells (eb_tokens (mw_bus w)) k = Some t \<longrightarrow> tk_executing t = of_nat (count_list (mw_running w) k))"

lemma msg_inv_kept:
  assumes "msg_inv w" and "tokens_kept (mw_bus w) b"
  shows "msg_inv (w\<lparr>mw_bus := b\<rparr>)"
proof -
  have "tk_executing t' = of_nat (count_list (mw_running w) k)" if "h_cells (eb_tokens b) k = Some t'" for k t'
  proof (cases "h_cells (eb_tokens (mw_bus w)) k")
    case None
    then have "k \<notin> set (mw_running w)" using assms(1) by (auto simp: msg_inv_def)
    then have "count_list (mw_running w) k = 0" by simp
    with None that assms(2) show ?thesis by (auto simp: tokens_kept_def)
  next
    case (Some t)
    with assms that show ?thesis by (fastforce simp: tokens_kept_def msg_inv_def)
  qed
  with assms show ?thesis by (fastforce simp: msg_inv_def tokens_kept_def)
qed

lemma count_list_remove1: "k \<in> set xs \<Longrightarrow> Suc (count_list (remove1 k xs) k) = count_list xs k"
  by (induction xs) auto

lemma count_list_remove1_other: "j \<noteq> k \<Longrightarrow> count_list (remove1 k xs) j = count_list xs j"
  by (induction xs) auto

lemma deliver_beginE:
  assumes "deliver_begin k b = Some (active, b')"
  obtains t where "h_cells (eb_tokens b) k = Some t" "active = tk_active t"
    "eb_tokens b' = (if active then (eb_tokens b)\<lparr>h_cells := (h_cells (eb_tokens b))
       (k \<mapsto> t\<lparr>tk_executing := tk_executing t + 1\<rparr>)\<rparr> else eb_tokens b)"
  using assms by (auto simp: deliver_begin_def set_token_def h_write_def elim!: bind_eq_SomeE split: if_splits)

lemma deliver_endE:
  assumes "deliver_end k b = Some b'"
  obtains t where "h_cells (eb_tokens b) k = Some t"
    "eb_tokens b' = (eb_tokens b)\<lparr>h_cells := (h_cells (eb_tokens b))(k \<mapsto> t\<lparr>tk_executing := tk_executing t - 1\<rparr>)\<rparr>"
  using assms by (auto simp: deliver_end_def set_token_def h_write_def elim!: bind_eq_SomeE)

text \<open>A step either keeps the tokens and the running callbacks, or begins or ends one.\<close>

lemma msg_step_cases:
  assumes "msg_step w w'" and "heap_ok (eb_tokens (mw_bus w))"
  obtains (kept) "tokens_kept (mw_bus w) (mw_bus w')" "mw_running w' = mw_running w"
  | (starts) k b where "deliver_begin k (mw_bus w) = Some (True, b)" "mw_bus w' = b" "mw_running w' = k # mw_running w"
  | (ends) k b where "k \<in> set (mw_running w)" "deliver_end k (mw_bus w) = Some b" "mw_bus w' = b"
      "mw_running w' = remove1 k (mw_running w)"
  using assms(1)
proof cases
  case Subscribe
  with on_message_kept(1) [OF assms(2)] show thesis by (auto intro: kept)
next
  case Subscribe_domain
  with on_message_kept(2) [OF assms(2)] show thesis by (auto intro: kept)
next
  case Emit
  with tokens_kept_refl [OF assms(2)] show thesis by (auto intro: kept)
next
  case (Discard k b)
  from Discard(3) have "eb_tokens b = eb_tokens (mw_bus w)" by (rule deliver_beginE) simp
  with Discard(1) tokens_kept_refl [OF assms(2)] show thesis by (intro kept) simp_all
next
  case Unsubscribe
  with off_token_kept [OF _ assms(2)] show thesis by (auto intro: kept)
next
  case (Registry b)
  with tokens_kept_refl [OF assms(2), of b] show thesis by (auto intro: kept simp: same_rest_def)
next
  case Shutdown
  with shutdown_kept [OF _ assms(2)] show thesis by (auto intro: kept)
qed (auto intro: starts ends)

lemma msg_step_inv:
  assumes "msg_step w w'" and "msg_inv w"
  shows "msg_inv w'"
proof -
  have ok: "heap_ok (eb_tokens (mw_bus w))" using assms(2) by (simp add: msg_inv_def)
  from assms(1) ok show ?thesis
  proof (cases rule: msg_step_cases)
    case kept
    with msg_inv_kept [OF assms(2)] show ?thesis by (simp add: msg_inv_def)
  next
    case (starts k b)
    from starts(1) obtain t where "h_cells (eb_tokens (mw_bus w)) k = Some t"
        "eb_tokens b = (eb_tokens (mw_bus w))\<lparr>h_cells := (h_cells (eb_tokens (mw_bus w)))
          (k \<mapsto> t\<lparr>tk_executing := tk_executing t + 1\<rparr>)\<rparr>"
      by (rule deliver_beginE) simp
    with starts(2,3) assms(2) heap_ok_alloc [OF ok, of k] show ?thesis
      by (auto simp: msg_inv_def heap_ok_def)
  next
    case (ends k b)
    from ends(2) obtain t where t: "h_cells (eb_tokens (mw_bus w)) k = Some t"
        "eb_tokens b = (eb_tokens (mw_bus w))\<lparr>h_cells := (h_cells (eb_tokens (mw_bus w)))
          (k \<mapsto> t\<lparr>tk_executing := tk_executing t - 1\<rparr>)\<rparr>"
      by (rule deliver_endE)
    have "tk_executing t = of_nat (Suc (count_list (remove1 k (mw_running w)) k))"
      using assms(2) t(1) count_list_remove1 [OF ends(1)] by (simp add: msg_inv_def)
    with t ends assms(2) heap_ok_alloc [OF ok, of k] set_remove1_subset [of k "mw_running w"] show ?thesis
      by (auto simp: msg_inv_def heap_ok_def count_list_remove1_other)
  qed
qed

lemma msg_steps_inv: "msg_step\<^sup>*\<^sup>* w w' \<Longrightarrow> msg_inv w \<Longrightarrow> msg_inv w'"
  by (induction rule: rtranclp_induct) (auto intro: msg_step_inv)

text \<open>A token that is unregistered and without a running callback.\<close>

definition quiet :: "nat \<Rightarrow> msg_world \<Rightarrow> bool" where
  "quiet k w \<longleftrightarrow> (\<exists>t. h_cells (eb_tokens (mw_bus w)) k = Some t \<and> \<not> tk_active t) \<and> k \<notin> set (mw_running w)"

lemma quiet_step:
  assumes "msg_step w w'" and "msg_inv w" and "quiet k w"
  shows "quiet k w'"
proof -
  have ok: "heap_ok (eb_tokens (mw_bus w))" using assms(2) by (simp add: msg_inv_def)
  from assms(1) ok show ?thesis
  proof (cases rule: msg_step_cases)
    case kept
    with assms(3) show ?thesis by (fastforce simp: quiet_def tokens_kept_def)
  next
    case (starts j b)
    from starts(1) obtain t where "h_cells (eb_tokens (mw_bus w)) j = Some t" "tk_active t"
        "eb_tokens b = (eb_tokens (mw_bus w))\<lparr>h_cells := (h_cells (eb_tokens (mw_bus w)))
          (j \<mapsto> t\<lparr>tk_executing := tk_executing t + 1\<rparr>)\<rparr>"
      by (rule deliver_beginE) simp
    with starts assms(3) show ?thesis by (auto simp: quiet_def)
  next
    case (ends j b)
    from ends(2) obtain t where "h_cells (eb_tokens (mw_bus w)) j = Some t"
        "eb_tokens b = (eb_tokens (mw_bus w))\<lparr>h_cells := (h_cells (eb_tokens (mw_bus w)))
          (j \<mapsto> t\<lparr>tk_executing := tk_executing t - 1\<rparr>)\<rparr>"
      by (rule deliver_endE)
    with ends assms(3) set_remove1_subset [of j "mw_running w"] show ?thesis by (auto simp: quiet_def)
  qed
qed

lemma quiet_steps:
  assumes "msg_step\<^sup>*\<^sup>* w w'" and "msg_inv w" and "quiet k w"
  shows "quiet k w'"
  using assms
proof (induction rule: rtranclp_induct)
  case (step w1 w2)
  then show ?case using quiet_step msg_steps_inv by blast
qed

definition world_new :: msg_world where
  "world_new = \<lparr>mw_bus = bus_new, mw_pending = [], mw_running = []\<rparr>"

lemma world_new_inv: "msg_inv world_new"
  by (simp add: msg_inv_def world_new_def bus_new_def event_init_def bus_off_def heap_ok_def split: prod.splits)

text \<open>C32: unregistering and draining a message token is enough to unload its callback. In every
  state that the interleaved critical sections can reach, once the token is inactive and
  \<open>event_message_token_drain\<close> has returned for it, no callback of the token runs, and none
  starts later, whatever messages are still queued and whatever the other threads do.\<close>

theorem drained_token_quiet:
  assumes "msg_step\<^sup>*\<^sup>* world_new w" and "length (mw_running w) < 2 ^ 32"
    and "h_cells (eb_tokens (mw_bus w)) k = Some t" and "tk_message t" and "\<not> tk_active t"
    and "event_message_token_drain (mw_bus w) (Some k) = Some ()" and "msg_step\<^sup>*\<^sup>* w w'"
  shows "k \<notin> set (mw_running w) \<and> k \<notin> set (mw_running w')"
proof -
  have inv: "msg_inv w" using msg_steps_inv [OF assms(1) world_new_inv] .
  have "tk_executing t = 0"
    using assms(3,4,6) by (simp add: event_message_token_drain_def split: if_splits)
  then have "(of_nat (count_list (mw_running w) k) :: u32) = 0" using inv assms(3) by (auto simp: msg_inv_def)
  moreover have "count_list (mw_running w) k < 2 ^ 32"
    using count_le_length [of "mw_running w" k] assms(2) by linarith
  ultimately have "count_list (mw_running w) k = 0"
    by (auto simp: word_of_nat_eq_0_iff dest: nat_dvd_not_less)
  then have "k \<notin> set (mw_running w)" by (simp add: count_list_0_iff)
  then have "quiet k w" using assms(3,5) by (simp add: quiet_def)
  with quiet_steps [OF assms(7) inv] \<open>k \<notin> _\<close> show ?thesis by (simp add: quiet_def)
qed

text \<open>A message that is still queued when its listener goes.\<close>

definition news_token :: rr_event_token where
  "news_token = empty_token\<lparr>tk_event := ''news'', tk_active := True, tk_message := True, tk_user := 5\<rparr>"

definition news_bus :: event_bus where
  "news_bus = bus_new\<lparr>eb_tokens := \<lparr>h_cells = [1 \<mapsto> news_token], h_next = 2\<rparr>,
     eb_messages := [\<lparr>ml_token = 1, ml_domain = NULL, ml_cb = 7, ml_user = 5, ml_dispatch = 3, ml_dispatch_user = 0\<rparr>]\<rparr>"

definition quit_bus :: event_bus where
  "quit_bus = news_bus\<lparr>eb_messages := [], eb_tokens := \<lparr>h_cells = [1 \<mapsto> news_token\<lparr>tk_active := False\<rparr>], h_next = 2\<rparr>\<rparr>"

lemma bus_new_parts: "eb_store bus_new = Some dict_empty" "eb_tokens bus_new = \<lparr>h_cells = Map.empty, h_next = 1\<rparr>"
    "eb_messages bus_new = []"
  by (simp_all add: bus_new_def event_init_def dict_new_plenty bus_off_def)

lemma news_run:
  "msg_step world_new \<lparr>mw_bus = news_bus, mw_pending = [], mw_running = []\<rparr>"
  "msg_step \<lparr>mw_bus = news_bus, mw_pending = [], mw_running = []\<rparr> \<lparr>mw_bus = news_bus, mw_pending = [1], mw_running = []\<rparr>"
  "msg_step \<lparr>mw_bus = news_bus, mw_pending = [1], mw_running = []\<rparr> \<lparr>mw_bus = quit_bus, mw_pending = [1], mw_running = []\<rparr>"
  "msg_step \<lparr>mw_bus = quit_bus, mw_pending = [1], mw_running = []\<rparr> \<lparr>mw_bus = quit_bus, mw_pending = [], mw_running = []\<rparr>"
proof -
  have tok: "news_token = \<lparr>tk_event = ''news'', tk_binary = False, tk_cb = 0, tk_binary_cb = 0, tk_user = 5,
      tk_generation = 0, tk_active = True, tk_message = True, tk_executing = 0\<rparr>"
    by (simp add: news_token_def empty_token_def)
  have "event_on_message_token bus_new (Some ''news'') 7 5 3 0 [] = Some (Done (news_bus, Some 1), [])"
    by (simp add: event_on_message_token_def new_message_listener_def new_token_def h_new_def bus_new_parts
        news_bus_def news_token_def empty_token_def)
  then show "msg_step world_new \<lparr>mw_bus = news_bus, mw_pending = [], mw_running = []\<rparr>"
    using msg_step.Subscribe [of world_new "Some ''news''" 7 5 3 0 "[]" news_bus "Some 1" "[]"]
    by (simp add: world_new_def)
  have "message_targets news_bus ''news'' (eb_messages news_bus) [] = Some (Done (eb_messages news_bus), [])"
    by (simp add: news_bus_def tok)
  from msg_step.Emit [of "\<lparr>mw_bus = news_bus, mw_pending = [], mw_running = []\<rparr>" "''news''" "[]" "eb_messages news_bus" "[]"] this
  show "msg_step \<lparr>mw_bus = news_bus, mw_pending = [], mw_running = []\<rparr> \<lparr>mw_bus = news_bus, mw_pending = [1], mw_running = []\<rparr>"
    by (simp add: news_bus_def)
  have "event_off_token news_bus (Some 1) = Some quit_bus"
    by (simp add: event_off_token_def set_token_def h_write_def news_bus_def quit_bus_def tok)
  from msg_step.Unsubscribe [of "\<lparr>mw_bus = news_bus, mw_pending = [1], mw_running = []\<rparr>", OF _, simplified, OF this]
  show "msg_step \<lparr>mw_bus = news_bus, mw_pending = [1], mw_running = []\<rparr> \<lparr>mw_bus = quit_bus, mw_pending = [1], mw_running = []\<rparr>"
    by simp
  have "deliver_begin 1 quit_bus = Some (False, quit_bus)"
    by (simp add: deliver_begin_def quit_bus_def)
  from msg_step.Discard [of 1 "\<lparr>mw_bus = quit_bus, mw_pending = [1], mw_running = []\<rparr>", simplified, OF this [simplified]]
  show "msg_step \<lparr>mw_bus = quit_bus, mw_pending = [1], mw_running = []\<rparr> \<lparr>mw_bus = quit_bus, mw_pending = [], mw_running = []\<rparr>"
    by simp
qed

theorem drained_token_quiet_witness:
  "\<exists>w w'. msg_step\<^sup>*\<^sup>* world_new w \<and> mw_pending w = [1] \<and> msg_step\<^sup>*\<^sup>* w w' \<and> 1 \<notin> set (mw_running w')"
proof -
  let ?w = "\<lparr>mw_bus = quit_bus, mw_pending = [1], mw_running = []\<rparr>"
  let ?w' = "\<lparr>mw_bus = quit_bus, mw_pending = [], mw_running = []\<rparr>"
  let ?t = "news_token\<lparr>tk_active := False\<rparr>"
  have run: "msg_step\<^sup>*\<^sup>* world_new ?w" "msg_step\<^sup>*\<^sup>* ?w ?w'"
    using news_run by (meson converse_rtranclp_into_rtranclp rtranclp.rtrancl_refl)+
  have tok: "h_cells (eb_tokens (mw_bus ?w)) 1 = Some ?t" "tk_message ?t" "\<not> tk_active ?t" "tk_executing ?t = 0"
    by (simp_all add: quit_bus_def news_token_def empty_token_def)
  have "event_message_token_drain (mw_bus ?w) (Some 1) = Some ()"
    using tok by (simp add: event_message_token_drain_def)
  then have "1 \<notin> set (mw_running ?w')"
    using drained_token_quiet [OF run(1) _ tok(1-3) _ run(2)] by simp
  with run show ?thesis by (intro exI [of _ ?w] exI [of _ ?w']) simp
qed

end
