(* ===== verification/Log_Queue.thy ===== *)
theory Log_Queue
  imports Util_Mem
begin

text \<open>
  Model of \<open>log-queue.c\<close>: a bounded queue through which worker threads hand log records to
  the thread that owns the logger. A producer never waits: it gives up when the lock is taken
  or the queue is full, and counts the loss. The outcome of \<open>pthread_mutex_trylock\<close> is an
  argument; the code between lock and unlock is one step. The relaxed atomic counters are
  64-bit words.
\<close>

subsection \<open>Data and operations\<close>

datatype logpriority =
    LOG_NONE | LOG_CRIT | LOG_AUDIT | LOG_WARN | LOG_INFO | LOG_DEBUG | LOG_CRAZY | LOG_BLITZKREIG

text \<open>The value of the enumerator; a smaller one is more important.\<close>

fun prio_num :: "logpriority \<Rightarrow> int" where
  "prio_num LOG_NONE = - 1"
| "prio_num LOG_CRIT = 0"
| "prio_num LOG_AUDIT = 1"
| "prio_num LOG_WARN = 2"
| "prio_num LOG_INFO = 3"
| "prio_num LOG_DEBUG = 4"
| "prio_num LOG_CRAZY = 5"
| "prio_num LOG_BLITZKREIG = 6"

lemma prio_num_inj: "prio_num a = prio_num b \<Longrightarrow> a = b"
  by (cases a; cases b) simp_all

instantiation logpriority :: linorder
begin

definition less_eq_logpriority :: "logpriority \<Rightarrow> logpriority \<Rightarrow> bool" where
  "a \<le> b \<longleftrightarrow> prio_num a \<le> prio_num b"

definition less_logpriority :: "logpriority \<Rightarrow> logpriority \<Rightarrow> bool" where
  "a < b \<longleftrightarrow> prio_num a < prio_num b"

instance
  by standard (auto simp: less_eq_logpriority_def less_logpriority_def intro: prio_num_inj)

end

type_synonym timestamp = "int \<times> int"

record ra_log_record =
  lr_level :: logpriority
  lr_submitted :: timestamp
  lr_subsystem :: string
  lr_message :: string

record ra_log_queue =
  lq_capacity :: u64
  lq_head :: u64
  lq_tail :: u64
  lq_length :: u64
  lq_dropped :: u64
  lq_contention_dropped :: u64
  lq_full_dropped :: u64
  lq_records :: "ra_log_record list"

text \<open>\<open>sizeof(ra_log_queue_t)\<close> and \<open>sizeof(ra_log_record_t)\<close> on LP64 with glibc.\<close>

abbreviation sizeof_queue :: nat where "sizeof_queue \<equiv> 96"
abbreviation sizeof_record :: nat where "sizeof_record \<equiv> 1112"

definition zero_record :: ra_log_record where
  "zero_record = \<lparr>lr_level = LOG_CRIT, lr_submitted = (0, 0), lr_subsystem = [], lr_message = []\<rparr>"

definition ra_log_queue_new :: "u64 \<Rightarrow> bool \<Rightarrow> alloc \<Rightarrow> ra_log_queue ptr \<times> alloc" where
  "ra_log_queue_new capacity mutex_ok a =
     (if capacity = 0 \<or> unat capacity > (2 ^ 64 - 1 - sizeof_queue) div sizeof_record then (NULL, a)
      else let (ok, a) = malloc_ok a
      in if \<not> ok \<or> \<not> mutex_ok then (NULL, a)
         else (Some \<lparr>lq_capacity = capacity, lq_head = 0, lq_tail = 0, lq_length = 0, lq_dropped = 0,
                     lq_contention_dropped = 0, lq_full_dropped = 0,
                     lq_records = replicate (unat capacity) zero_record\<rparr>, a))"

text \<open>\<open>snprintf(buf, n, "%s", s)\<close>\<close>

definition snprintf_s :: "nat \<Rightarrow> string \<Rightarrow> string" where
  "snprintf_s n s = take (n - 1) s"

definition ra_log_queue_push ::
    "ra_log_queue ptr \<Rightarrow> bool \<Rightarrow> timestamp \<Rightarrow> logpriority \<Rightarrow> string ptr \<Rightarrow> string ptr \<Rightarrow> bool \<times> ra_log_queue ptr" where
  "ra_log_queue_push qp lock now level subsys message =
     (case (qp, subsys, message) of
        (Some q, Some s, Some m) \<Rightarrow>
          if \<not> lock then
            (False, Some (q\<lparr>lq_contention_dropped := lq_contention_dropped q + 1, lq_dropped := lq_dropped q + 1\<rparr>))
          else if lq_length q = lq_capacity q then
            (False, Some (q\<lparr>lq_full_dropped := lq_full_dropped q + 1, lq_dropped := lq_dropped q + 1\<rparr>))
          else
            (True, Some (q\<lparr>lq_records := (lq_records q)[unat (lq_tail q) :=
                 \<lparr>lr_level = level, lr_submitted = now, lr_subsystem = snprintf_s 64 s, lr_message = snprintf_s 1024 m\<rparr>],
               lq_tail := (lq_tail q + 1) mod lq_capacity q,
               lq_length := lq_length q + 1\<rparr>))
      | _ \<Rightarrow> (False, qp))"

text \<open>The critical section of \<open>ra_log_queue_drain\<close>.\<close>

definition pop_record :: "ra_log_queue \<Rightarrow> (ra_log_record \<times> ra_log_queue) option" where
  "pop_record q =
     (if lq_length q = 0 then None
      else Some (lq_records q ! unat (lq_head q),
        q\<lparr>lq_head := (lq_head q + 1) mod lq_capacity q, lq_length := lq_length q - 1\<rparr>))"

text \<open>
  The thread-local \<open>delivery_active\<close> and \<open>delivery_timestamp\<close> as one option. While a record
  is delivered, \<open>deliver\<close> stands for \<open>Log\<close>, its callbacks and whatever other threads do to the
  queue meanwhile; it sees the time of submission.
\<close>

definition ra_log_queue_delivery_time :: "timestamp option \<Rightarrow> timestamp option" where
  "ra_log_queue_delivery_time delivery = delivery"

fun drain_loop ::
    "(ra_log_record \<Rightarrow> timestamp option \<Rightarrow> ra_log_queue \<Rightarrow> ra_log_queue) \<Rightarrow> nat \<Rightarrow> ra_log_queue \<Rightarrow> nat \<times> ra_log_queue" where
  "drain_loop deliver 0 q = (0, q)"
| "drain_loop deliver (Suc left) q =
     (case pop_record q of
        None \<Rightarrow> (0, q)
      | Some (item, q) \<Rightarrow>
          let q = deliver item (Some (lr_submitted item)) q;
              (n, q) = drain_loop deliver left q
          in (Suc n, q))"

definition ra_log_queue_drain ::
    "(ra_log_record \<Rightarrow> timestamp option \<Rightarrow> ra_log_queue \<Rightarrow> ra_log_queue) \<Rightarrow> ra_log_queue ptr \<Rightarrow> u64 \<Rightarrow> nat \<times> ra_log_queue ptr" where
  "ra_log_queue_drain deliver qp max_records =
     (case qp of
        None \<Rightarrow> (0, NULL)
      | Some q \<Rightarrow> (let (n, q) = drain_loop deliver (unat max_records) q in (n, Some q)))"

definition ra_log_queue_dropped :: "ra_log_queue ptr \<Rightarrow> u64" where
  "ra_log_queue_dropped qp = (case qp of None \<Rightarrow> 0 | Some q \<Rightarrow> lq_dropped q)"

definition ra_log_queue_contention_dropped :: "ra_log_queue ptr \<Rightarrow> u64" where
  "ra_log_queue_contention_dropped qp = (case qp of None \<Rightarrow> 0 | Some q \<Rightarrow> lq_contention_dropped q)"

definition ra_log_queue_full_dropped :: "ra_log_queue ptr \<Rightarrow> u64" where
  "ra_log_queue_full_dropped qp = (case qp of None \<Rightarrow> 0 | Some q \<Rightarrow> lq_full_dropped q)"

definition ra_log_queue_depth :: "ra_log_queue ptr \<Rightarrow> u64" where
  "ra_log_queue_depth qp = (case qp of None \<Rightarrow> 0 | Some q \<Rightarrow> lq_length q)"

subsection \<open>The ring\<close>

text \<open>The queued records, oldest first.\<close>

definition contents :: "ra_log_queue \<Rightarrow> ra_log_record list" where
  "contents q = map (\<lambda>i. lq_records q ! ((unat (lq_head q) + i) mod unat (lq_capacity q))) [0..<unat (lq_length q)]"

definition queue_ok :: "ra_log_queue \<Rightarrow> bool" where
  "queue_ok q \<longleftrightarrow>
     0 < unat (lq_capacity q) \<and> unat (lq_capacity q) < 2 ^ 63 \<and> length (lq_records q) = unat (lq_capacity q) \<and>
     unat (lq_head q) < unat (lq_capacity q) \<and> unat (lq_length q) \<le> unat (lq_capacity q) \<and>
     unat (lq_tail q) = (unat (lq_head q) + unat (lq_length q)) mod unat (lq_capacity q)"

lemma unat_next:
  assumes "unat (x :: u64) < unat (c :: u64)" and "unat c < 2 ^ 63"
  shows "unat ((x + 1) mod c) = (unat x + 1) mod unat c"
proof -
  have "unat (x + 1) = unat x + 1" using assms by (simp add: unat_word_ariths)
  then show ?thesis by (simp add: unat_mod_distrib)
qed

lemma unat_add1: "unat (x :: u64) < 2 ^ 63 \<Longrightarrow> unat (x + 1) = unat x + 1"
  by (simp add: unat_word_ariths)

lemma unat_sub1: "x \<noteq> 0 \<Longrightarrow> unat (x - 1 :: u64) = unat x - 1"
  by (simp add: unat_minus_one)

lemma length_contents: "length (contents q) = unat (lq_length q)"
  by (simp add: contents_def)

text \<open>The slots of a ring are distinct as long as there are not more than the capacity.\<close>

lemma ring_slots:
  assumes "i < n" and "n < (c :: nat)" and "h < c"
  shows "(h + i) mod c \<noteq> (h + n) mod c"
proof
  assume "(h + i) mod c = (h + n) mod c"
  then have "c dvd (h + n) - (h + i)" using assms(1) by (metis mod_eq_dvd_iff_nat add_le_cancel_left less_imp_le)
  moreover have "0 < n - i" "n - i < c" using assms(1,2) by simp_all
  ultimately show False by (simp add: nat_dvd_not_less)
qed

definition make_record :: "timestamp \<Rightarrow> logpriority \<Rightarrow> string \<Rightarrow> string \<Rightarrow> ra_log_record" where
  "make_record now level s m =
     \<lparr>lr_level = level, lr_submitted = now, lr_subsystem = snprintf_s 64 s, lr_message = snprintf_s 1024 m\<rparr>"

lemma push_contents:
  assumes "queue_ok q" and "length (contents q) < unat (lq_capacity q)"
  shows "\<exists>q'. ra_log_queue_push (Some q) True now level (Some s) (Some m) = (True, Some q') \<and> queue_ok q' \<and>
    contents q' = contents q @ [make_record now level s m] \<and> lq_capacity q' = lq_capacity q \<and>
    lq_dropped q' = lq_dropped q \<and> lq_contention_dropped q' = lq_contention_dropped q \<and>
    lq_full_dropped q' = lq_full_dropped q"
proof -
  let ?r = "make_record now level s m" and ?c = "unat (lq_capacity q)" and ?h = "unat (lq_head q)" and ?n = "unat (lq_length q)"
  let ?q = "q\<lparr>lq_records := (lq_records q)[unat (lq_tail q) := ?r], lq_tail := (lq_tail q + 1) mod lq_capacity q,
      lq_length := lq_length q + 1\<rparr>"
  note ok = assms(1) [unfolded queue_ok_def]
  have n: "?n < ?c" using assms(2) by (simp add: length_contents)
  then have ne: "lq_length q \<noteq> lq_capacity q" by auto
  have len: "unat (lq_length q + 1) = ?n + 1" using n ok by (intro unat_add1) simp
  have tail: "unat (lq_tail q) < ?c" using ok by simp
  have "unat ((lq_tail q + 1) mod lq_capacity q) = (?h + (?n + 1)) mod ?c"
    using unat_next [OF tail] ok by (simp add: mod_Suc_eq)
  then have ok': "queue_ok ?q" using ok n len by (simp add: queue_ok_def)
  have "contents ?q = contents q @ [?r]"
  proof -
    have slot: "(lq_records q)[unat (lq_tail q) := ?r] ! ((?h + i) mod ?c) = lq_records q ! ((?h + i) mod ?c)"
      if "i < ?n" for i
      using ring_slots [OF that n] ok by (intro nth_list_update_neq) metis
    then show ?thesis using ok len by (auto simp: contents_def)
  qed
  with ok' ne show ?thesis by (auto simp: ra_log_queue_push_def make_record_def)
qed

lemma pop_contents:
  assumes "queue_ok q"
  shows "case contents q of [] \<Rightarrow> pop_record q = None
    | r # rs \<Rightarrow> \<exists>q'. pop_record q = Some (r, q') \<and> queue_ok q' \<and> contents q' = rs \<and> lq_capacity q' = lq_capacity q \<and>
        lq_dropped q' = lq_dropped q \<and> lq_contention_dropped q' = lq_contention_dropped q \<and>
        lq_full_dropped q' = lq_full_dropped q"
proof (cases "lq_length q = 0")
  case True
  then show ?thesis by (simp add: contents_def pop_record_def)
next
  case False
  let ?c = "unat (lq_capacity q)" and ?h = "unat (lq_head q)" and ?n = "unat (lq_length q)"
  let ?q = "q\<lparr>lq_head := (lq_head q + 1) mod lq_capacity q, lq_length := lq_length q - 1\<rparr>"
  note ok = assms [unfolded queue_ok_def]
  have n: "0 < ?n" using False by (simp add: unat_gt_0)
  have len: "unat (lq_length q - 1) = ?n - 1" using False by (rule unat_sub1)
  have head: "unat ((lq_head q + 1) mod lq_capacity q) = (?h + 1) mod ?c" using ok by (intro unat_next) auto
  have shift: "((?h + 1) mod ?c + i) mod ?c = (?h + Suc i) mod ?c" for i by (simp add: mod_add_left_eq)
  have cont: "contents q = lq_records q ! ?h # contents ?q"
  proof -
    have "[0..<?n] = 0 # map Suc [0..<?n - 1]" using n by (simp add: upt_conv_Cons map_Suc_upt)
    moreover have "((?h + 1) mod ?c + i) mod ?c = Suc (?h + i) mod ?c" for i using shift by simp
    ultimately show ?thesis using ok unfolding contents_def by (simp add: len head)
  qed
  have "queue_ok ?q" using ok n shift [of "?n - 1"] by (auto simp: queue_ok_def len head)
  with cont False show ?thesis by (auto simp: pop_record_def)
qed

subsection \<open>Queues that may refuse\<close>

text \<open>
  The contract of a queue whose insertion may fail: an accepted element is appended, a refused
  one leaves no trace, and removal takes the oldest. Whatever the sequence of operations,
  nothing accepted is lost, duplicated or reordered.
\<close>

datatype 'a queue_op = Offer 'a | Take

locale refusing_queue =
  fixes ok :: "'q \<Rightarrow> bool" and items :: "'q \<Rightarrow> 'x list" and mk :: "'a \<Rightarrow> 'x"
    and offer :: "'a \<Rightarrow> 'q \<Rightarrow> bool \<times> 'q" and take1 :: "'q \<Rightarrow> ('x \<times> 'q) option"
  assumes offer_law: "ok q \<Longrightarrow> offer x q = (b, q') \<Longrightarrow> ok q' \<and> items q' = items q @ (if b then [mk x] else [])"
    and take_law: "ok q \<Longrightarrow>
      (case items q of [] \<Rightarrow> take1 q = None | y # ys \<Rightarrow> \<exists>q'. take1 q = Some (y, q') \<and> ok q' \<and> items q' = ys)"
begin

text \<open>The accepted elements, the removed ones, and the queue that is left.\<close>

fun run_ops :: "'a queue_op list \<Rightarrow> 'q \<Rightarrow> 'x list \<times> 'x list \<times> 'q" where
  "run_ops [] q = ([], [], q)"
| "run_ops (Offer x # ops) q =
     (case offer x q of (b, q) \<Rightarrow> case run_ops ops q of (acc, del, q) \<Rightarrow> ((if b then mk x # acc else acc), del, q))"
| "run_ops (Take # ops) q =
     (case take1 q of
        None \<Rightarrow> run_ops ops q
      | Some (y, q) \<Rightarrow> case run_ops ops q of (acc, del, q) \<Rightarrow> (acc, y # del, q))"

lemma run_ops_conserve:
  assumes "ok q" and "run_ops ops q = (acc, del, q')"
  shows "ok q' \<and> items q @ acc = del @ items q'"
  using assms
proof (induction ops arbitrary: q acc del q')
  case (Cons op ops)
  show ?case
  proof (cases op)
    case (Offer x)
    obtain b q1 where o: "offer x q = (b, q1)" by (cases "offer x q")
    obtain acc1 del1 q2 where r: "run_ops ops q1 = (acc1, del1, q2)" by (cases "run_ops ops q1")
    note law = offer_law [OF Cons.prems(1) o]
    with Cons.IH [of q1] r have "ok q2 \<and> items q1 @ acc1 = del1 @ items q2" by blast
    with law Cons.prems(2) Offer o r show ?thesis by (auto split: if_splits)
  next
    case Take
    consider "items q = []" | y ys where "items q = y # ys" by (cases "items q")
    then show ?thesis
    proof cases
      case 1
      with take_law [OF Cons.prems(1)] have "take1 q = None" by simp
      with Cons.prems Cons.IH [of q] Take show ?thesis by simp
    next
      case (2 y ys)
      then obtain q1 where t: "take1 q = Some (y, q1)" "ok q1" "items q1 = ys"
        using take_law [OF Cons.prems(1)] by auto
      obtain acc1 del1 q2 where r: "run_ops ops q1 = (acc1, del1, q2)" by (cases "run_ops ops q1")
      from Cons.IH [OF t(2) r] 2 Cons.prems(2) Take t r show ?thesis by auto
    qed
  qed
qed simp

end

text \<open>A submission: whether the lock was free, and what is submitted.\<close>

type_synonym submission = "bool \<times> timestamp \<times> logpriority \<times> string \<times> string"

fun submit :: "submission \<Rightarrow> ra_log_queue \<Rightarrow> bool \<times> ra_log_queue" where
  "submit (lock, now, level, s, m) q =
     (case ra_log_queue_push (Some q) lock now level (Some s) (Some m) of (b, q') \<Rightarrow> (b, the q'))"

fun submitted :: "submission \<Rightarrow> ra_log_record" where
  "submitted (lock, now, level, s, m) = make_record now level s m"

lemma contents_cong:
  "lq_records q' = lq_records q \<Longrightarrow> lq_head q' = lq_head q \<Longrightarrow> lq_length q' = lq_length q \<Longrightarrow>
     lq_capacity q' = lq_capacity q \<Longrightarrow> contents q' = contents q"
  by (simp add: contents_def)

lemma submit_law:
  assumes "queue_ok q" and "submit x q = (b, q')"
  shows "queue_ok q' \<and> contents q' = contents q @ (if b then [submitted x] else []) \<and>
    (b \<longleftrightarrow> fst x \<and> length (contents q) < unat (lq_capacity q)) \<and> lq_capacity q' = lq_capacity q \<and>
    lq_contention_dropped q' = lq_contention_dropped q + of_bool (\<not> fst x) \<and>
    lq_full_dropped q' = lq_full_dropped q + of_bool (fst x \<and> \<not> b) \<and>
    lq_dropped q' = lq_dropped q + of_bool (\<not> b)"
proof -
  obtain lock now level s m where x: "x = (lock, now, level, s, m)" by (metis prod_cases5)
  have le: "length (contents q) \<le> unat (lq_capacity q)" using assms(1) by (simp add: length_contents queue_ok_def)
  show ?thesis
  proof (cases "lock \<and> length (contents q) < unat (lq_capacity q)")
    case True
    with push_contents [OF assms(1), of now level s m] assms(2) x show ?thesis by auto
  next
    case False
    then have full: "lock \<longrightarrow> lq_length q = lq_capacity q" using le by (auto simp: length_contents word_unat_eq_iff)
    let ?q = "if lock then q\<lparr>lq_full_dropped := lq_full_dropped q + 1, lq_dropped := lq_dropped q + 1\<rparr>
      else q\<lparr>lq_contention_dropped := lq_contention_dropped q + 1, lq_dropped := lq_dropped q + 1\<rparr>"
    have q': "b = False" "q' = ?q" using assms(2) full x by (cases lock; simp add: ra_log_queue_push_def)+
    have "contents ?q = contents q" by (rule contents_cong) simp_all
    with assms(1) q' False x show ?thesis by (auto simp: queue_ok_def)
  qed
qed

lemma pop_law:
  "queue_ok q \<Longrightarrow> (case contents q of [] \<Rightarrow> pop_record q = None
     | y # ys \<Rightarrow> \<exists>q'. pop_record q = Some (y, q') \<and> queue_ok q' \<and> contents q' = ys)"
  using pop_contents [of q] by (auto split: list.splits)

interpretation logq: refusing_queue queue_ok contents submitted submit pop_record
  by unfold_locales (use submit_law pop_law in blast)+

subsection \<open>Properties\<close>

text \<open>Any interleaving of submissions by the workers and removals by the owner.\<close>

fun log_run :: "submission queue_op list \<Rightarrow> ra_log_queue \<Rightarrow> ra_log_record list \<times> ra_log_record list \<times> ra_log_queue" where
  "log_run [] q = ([], [], q)"
| "log_run (Offer x # ops) q =
     (case submit x q of (b, q) \<Rightarrow> case log_run ops q of (acc, del, q) \<Rightarrow> ((if b then submitted x # acc else acc), del, q))"
| "log_run (Take # ops) q =
     (case pop_record q of
        None \<Rightarrow> log_run ops q
      | Some (y, q) \<Rightarrow> case log_run ops q of (acc, del, q) \<Rightarrow> (acc, y # del, q))"

lemma log_run_ops: "log_run ops q = logq.run_ops ops q"
  by (induction ops q rule: log_run.induct) (auto simp del: submit.simps submitted.simps split: option.splits prod.splits)

fun offers :: "'a queue_op list \<Rightarrow> nat" where
  "offers [] = 0"
| "offers (Offer x # ops) = Suc (offers ops)"
| "offers (Take # ops) = offers ops"

lemma log_run_counts:
  assumes "queue_ok q" and "log_run ops q = (acc, del, q')"
  shows "of_nat (offers ops) = of_nat (length acc) + (lq_dropped q' - lq_dropped q) \<and>
    lq_dropped q' - lq_dropped q =
      (lq_contention_dropped q' - lq_contention_dropped q) + (lq_full_dropped q' - lq_full_dropped q)"
  using assms
proof (induction ops arbitrary: q acc del q' rule: offers.induct)
  case (2 x ops)
  obtain b q1 where s: "submit x q = (b, q1)" by (cases "submit x q")
  obtain acc1 del1 q2 where r: "log_run ops q1 = (acc1, del1, q2)" by (cases "log_run ops q1")
  note law = submit_law [OF 2(2) s]
  with 2(1) [OF _ r] 2(3) s r show ?case by (cases "fst x"; cases b) (auto simp: algebra_simps)
next
  case (3 ops)
  show ?case
  proof (cases "contents q")
    case Nil
    with pop_contents [OF 3(2)] 3 show ?thesis by simp
  next
    case (Cons y ys)
    then obtain q1 where "pop_record q = Some (y, q1)" "queue_ok q1" "lq_dropped q1 = lq_dropped q"
        "lq_contention_dropped q1 = lq_contention_dropped q" "lq_full_dropped q1 = lq_full_dropped q"
      using pop_contents [OF 3(2)] by auto
    moreover obtain acc1 del1 q2 where "log_run ops q1 = (acc1, del1, q2)" by (cases "log_run ops q1")
    ultimately show ?thesis using 3(1) [of q1 acc1 del1 q2] 3(3) by simp
  qed
qed simp

text \<open>C36: the log queue neither loses nor reorders what it has accepted, and it accounts for what
  it has refused. After any interleaving of submissions, with the lock free or taken, and
  removals, the records delivered followed by those still queued are the records queued at
  first followed by the accepted ones; every submission is accepted or counted as dropped,
  and every drop is counted either as contention or as a full queue.\<close>

theorem log_queue_conserves:
  assumes "queue_ok q" and "log_run ops q = (acc, del, q')"
  shows "queue_ok q' \<and> contents q @ acc = del @ contents q' \<and>
    of_nat (offers ops) = of_nat (length acc) + (lq_dropped q' - lq_dropped q) \<and>
    lq_dropped q' - lq_dropped q =
      (lq_contention_dropped q' - lq_contention_dropped q) + (lq_full_dropped q' - lq_full_dropped q)"
  using logq.run_ops_conserve [OF assms(1)] log_run_counts [OF assms] assms(2) by (auto simp: log_run_ops)

definition small_queue :: ra_log_queue where
  "small_queue = the (fst (ra_log_queue_new 2 True []))"

lemma small_queue_ok: "queue_ok small_queue" "contents small_queue = []" "unat (lq_capacity small_queue) = 2"
  by (simp_all add: small_queue_def ra_log_queue_new_def queue_ok_def contents_def)

abbreviation say :: "bool \<Rightarrow> string \<Rightarrow> submission queue_op" where
  "say lock m \<equiv> Offer (lock, (0, 0), LOG_INFO, ''rig'', m)"

theorem log_queue_conserves_witness:
  "\<exists>acc del q'. log_run [say True ''a'', say False ''b'', say True ''c'', say True ''d'', Take] small_queue = (acc, del, q') \<and>
     contents small_queue @ acc = del @ contents q'"
proof -
  let ?ops = "[say True ''a'', say False ''b'', say True ''c'', say True ''d'', Take]"
  obtain acc del q' where r: "log_run ?ops small_queue = (acc, del, q')" by (cases "log_run ?ops small_queue")
  with log_queue_conserves [OF small_queue_ok(1) r] show ?thesis by blast
qed

text \<open>A submission succeeds exactly when the lock is free and the queue is not full, and it
  never waits; it stores a copy cut to the sizes of the record.\<close>

theorem log_push_succeeds_iff:
  assumes "queue_ok q"
  shows "\<exists>b q'. ra_log_queue_push (Some q) lock now level (Some s) (Some m) = (b, Some q') \<and> queue_ok q' \<and>
    (b \<longleftrightarrow> lock \<and> length (contents q) < unat (lq_capacity q)) \<and>
    contents q' = contents q @ (if b then [make_record now level s m] else [])"
proof -
  obtain b p where p: "ra_log_queue_push (Some q) lock now level (Some s) (Some m) = (b, p)"
    by (cases "ra_log_queue_push (Some q) lock now level (Some s) (Some m)")
  then obtain q' where "p = Some q'" by (auto simp: ra_log_queue_push_def split: if_splits)
  with submit_law [OF assms, of "(lock, now, level, s, m)"] p show ?thesis by auto
qed

theorem log_push_succeeds_iff_witness:
  "\<exists>q'. ra_log_queue_push (Some small_queue) True (1, 2) LOG_WARN (Some ''rig'') (Some ''hot'') = (True, Some q') \<and>
     map lr_message (contents q') = [''hot'']"
  using log_push_succeeds_iff [OF small_queue_ok(1), of True "(1, 2)" LOG_WARN "''rig''" "''hot''"]
  by (auto simp: small_queue_ok make_record_def snprintf_s_def)

text \<open>One call of \<open>ra_log_queue_drain\<close> does a bounded amount of work and always returns, even
  if the delivered records make other threads submit more: it delivers at most as many
  records as asked for. When nobody interferes it delivers exactly the oldest ones.\<close>

theorem log_drain_bounded:
  assumes "queue_ok q"
  shows "fst (ra_log_queue_drain deliver (Some q) max_records) \<le> unat max_records \<and>
    (\<exists>q'. ra_log_queue_drain (\<lambda>_ _ q. q) (Some q) max_records =
        (min (unat max_records) (length (contents q)), Some q') \<and>
      queue_ok q' \<and> contents q' = drop (unat max_records) (contents q))"
proof -
  have le: "fst (drain_loop deliver n q) \<le> n" for n q
    by (induction n arbitrary: q) (auto simp: Let_def case_prod_unfold split: option.split)
  have "\<exists>q'. drain_loop (\<lambda>_ _ q. q) n q = (min n (length (contents q)), q') \<and> queue_ok q' \<and> contents q' = drop n (contents q)"
    if "queue_ok q" for n q
    using that
  proof (induction n arbitrary: q)
    case (Suc n)
    show ?case
    proof (cases "contents q")
      case Nil
      with pop_law [OF Suc.prems] Suc.prems show ?thesis by auto
    next
      case (Cons y ys)
      then obtain q1 where "pop_record q = Some (y, q1)" "queue_ok q1" "contents q1 = ys" using pop_law [OF Suc.prems] by auto
      with Suc.IH [of q1] Cons show ?thesis by auto
    qed
  qed simp
  from this [OF assms, of "unat max_records"] le [of "unat max_records" q] show ?thesis
    by (auto simp: ra_log_queue_drain_def split: prod.splits)
qed

theorem log_drain_bounded_witness:
  "\<exists>q'. ra_log_queue_drain (\<lambda>_ _ q. q) (Some small_queue) 5 = (0, Some q')"
  using log_drain_bounded [OF small_queue_ok(1), of "\<lambda>_ _ q. q" 5] by (auto simp: small_queue_ok)

end
