(* ===== verification/Log_Filter.thy ===== *)
theory Log_Filter
  imports Log_Queue C_Numbers
begin

text \<open>
  The filters of \<open>logger.c\<close>: which messages are shown. A filter gives a pattern of
  subsystems a level and perhaps a rate; the filter with the longest matching pattern
  decides. Rates are counted in a table of 256 fixed windows keyed by subsystem and level.
  \<open>fnmatch\<close> is a parameter. The readers' lock is held around each of these operations, so
  each is one step.
\<close>

subsection \<open>Priorities\<close>

definition s_prio_none :: string where
  "s_prio_none = '' NONE''"

definition log_priorities :: "(logpriority \<times> string) list" where
  "log_priorities =
     [(LOG_AUDIT, ''audit''), (LOG_CRIT, ''crit''), (LOG_WARN, ''warn''), (LOG_INFO, ''info''),
      (LOG_DEBUG, ''debug''), (LOG_CRAZY, ''crazy''), (LOG_BLITZKREIG, ''blitz''), (LOG_NONE, s_prio_none)]"

definition log_priority_from_str :: "string \<Rightarrow> logpriority" where
  "log_priority_from_str priority =
     (case find (\<lambda>(p, msg). strcasecmp_eq msg priority) log_priorities of
        None \<Rightarrow> LOG_NONE
      | Some (p, _) \<Rightarrow> p)"

definition log_priority_to_str :: "logpriority \<Rightarrow> string" where
  "log_priority_to_str priority =
     (case find (\<lambda>(p, msg). p = priority) log_priorities of
        None \<Rightarrow> s_prio_none
      | Some (_, msg) \<Rightarrow> msg)"

subsection \<open>Filters and rates\<close>

record log_filter =
  lf_pattern :: string
  lf_level :: logpriority
  lf_rate_count :: u32
  lf_rate_seconds :: u32

record log_rate_slot =
  rs_subsys :: string
  rs_priority :: logpriority
  rs_emitted :: u32
  rs_suppressed :: u32
  rs_window_start :: int
  rs_used :: bool

abbreviation LOG_RATE_SLOTS :: nat where "LOG_RATE_SLOTS \<equiv> 256"
abbreviation DEFAULT_LOG_LEVEL :: logpriority where "DEFAULT_LOG_LEVEL \<equiv> LOG_DEBUG"

definition zero_slot :: log_rate_slot where
  "zero_slot = \<lparr>rs_subsys = [], rs_priority = LOG_CRIT, rs_emitted = 0, rs_suppressed = 0, rs_window_start = 0, rs_used = False\<rparr>"

text \<open>The index a search loop over the table stops at.\<close>

fun slot_index :: "(log_rate_slot \<Rightarrow> bool) \<Rightarrow> log_rate_slot list \<Rightarrow> nat option" where
  "slot_index P [] = None"
| "slot_index P (s # ss) = (if P s then Some 0 else map_option Suc (slot_index P ss))"

definition slot_is :: "string \<Rightarrow> logpriority \<Rightarrow> log_rate_slot \<Rightarrow> bool" where
  "slot_is subsys level s \<longleftrightarrow> rs_used s \<and> rs_priority s = level \<and> rs_subsys s = subsys"

text \<open>The window of one slot: whether to print, how many messages were skipped before, the slot.\<close>

definition rate_window :: "int \<Rightarrow> u32 \<Rightarrow> u32 \<Rightarrow> log_rate_slot \<Rightarrow> bool \<times> u32 \<times> log_rate_slot" where
  "rate_window t count seconds slot =
     (let (skipped, slot) =
        (if t - rs_window_start slot \<ge> uint seconds \<or> t < rs_window_start slot
         then (rs_suppressed slot, slot\<lparr>rs_emitted := 0, rs_suppressed := 0, rs_window_start := t\<rparr>)
         else (0, slot))
      in if rs_emitted slot \<ge> count then
           (False, skipped, if rs_suppressed slot < 0xFFFFFFFF then slot\<lparr>rs_suppressed := rs_suppressed slot + 1\<rparr> else slot)
         else (True, skipped, slot\<lparr>rs_emitted := rs_emitted slot + 1\<rparr>))"

text \<open>\<open>clock\<close> is the monotonic clock, \<open>NULL\<close> when \<open>clock_gettime\<close> fails.\<close>

definition log_rate_allowed ::
    "int ptr \<Rightarrow> log_rate_slot list \<Rightarrow> string \<Rightarrow> logpriority \<Rightarrow> u32 \<Rightarrow> u32 \<Rightarrow> bool \<times> u32 \<times> log_rate_slot list" where
  "log_rate_allowed clock slots subsys level count seconds =
     (if count = 0 \<or> level \<le> LOG_AUDIT then (True, 0, slots)
      else case clock of
        None \<Rightarrow> (True, 0, slots)
      | Some t \<Rightarrow>
          (case slot_index (slot_is subsys level) slots of
             Some i \<Rightarrow>
               (let (ok, skipped, slot) = rate_window t count seconds (slots ! i) in (ok, skipped, slots[i := slot]))
           | None \<Rightarrow>
               (case slot_index (\<lambda>s. \<not> rs_used s) slots of
                  None \<Rightarrow> (True, 0, slots)
                | Some i \<Rightarrow>
                    (let slot = zero_slot\<lparr>rs_used := True, rs_priority := level, rs_subsys := snprintf_s 128 subsys,
                                  rs_window_start := t\<rparr>;
                         (ok, skipped, slot) = rate_window t count seconds slot
                     in (ok, skipped, slots[i := slot])))))"

text \<open>\<open>unsigned long\<close> has 64 bits, so \<open>strtoul\<close> is \<open>strtoull\<close>.\<close>

definition rate_factor :: "string \<Rightarrow> int" where
  "rate_factor str = (if str = ''s'' then 1 else if str = ''m'' then 60 else if str = ''h'' then 3600 else 0)"

definition rate_duration :: "string \<Rightarrow> int \<times> string" where
  "rate_duration s =
     (if s \<noteq> [] \<and> isdigit (hd s) then (let (d, end, _) = strtoull s in (d, end)) else (1, s))"

definition log_rate_parse :: "string ptr \<Rightarrow> (u32 \<times> u32) option" where
  "log_rate_parse str =
     (case str of
        None \<Rightarrow> None
      | Some s \<Rightarrow>
          if s = [] then None
          else let (n, end, range) = strtoull s in
          if range \<or> n = 0 \<or> n > 1000000 \<or> end = [] \<or> hd end \<noteq> CHR ''/'' then None
          else
            let (duration, s) = rate_duration (tl end);
                factor = rate_factor s
            in if factor = 0 \<or> duration = 0 \<or> duration > 86400 div factor then None
               else Some (word_of_int n, word_of_int (duration * factor)))"

definition log_add_filter_rate ::
    "string \<Rightarrow> logpriority \<Rightarrow> u32 \<Rightarrow> u32 \<Rightarrow> log_filter list \<Rightarrow> alloc \<Rightarrow> bool \<times> log_filter list \<times> alloc" where
  "log_add_filter_rate pattern level count seconds filters a =
     (let (ok, a) = malloc_ok a in
      if \<not> ok then (False, filters, a)
      else let (ok, a) = malloc_ok a in
      if \<not> ok then (False, filters, a)
      else (True, \<lparr>lf_pattern = pattern, lf_level = level, lf_rate_count = count, lf_rate_seconds = seconds\<rparr> # filters, a))"

definition log_add_filter :: "string \<Rightarrow> logpriority \<Rightarrow> log_filter list \<Rightarrow> alloc \<Rightarrow> bool \<times> log_filter list \<times> alloc" where
  "log_add_filter pattern level = log_add_filter_rate pattern level 0 0"

definition log_clear_filters :: "log_filter list \<times> log_rate_slot list" where
  "log_clear_filters = ([], replicate LOG_RATE_SLOTS zero_slot)"

fun matching_loop :: "(string \<Rightarrow> string \<Rightarrow> bool) \<Rightarrow> string \<Rightarrow> log_filter list \<Rightarrow> log_filter ptr \<Rightarrow> log_filter ptr" where
  "matching_loop fnmatch subsys [] best = best"
| "matching_loop fnmatch subsys (f # fs) best =
     matching_loop fnmatch subsys fs
       (if fnmatch (lf_pattern f) subsys \<and>
           (case best of None \<Rightarrow> True | Some b \<Rightarrow> length (lf_pattern f) > length (lf_pattern b))
        then Some f else best)"

definition log_matching_filter :: "(string \<Rightarrow> string \<Rightarrow> bool) \<Rightarrow> log_filter list \<Rightarrow> string \<Rightarrow> log_filter ptr" where
  "log_matching_filter fnmatch filters subsys = matching_loop fnmatch subsys filters NULL"

definition debug_filter :: "(string \<Rightarrow> string \<Rightarrow> bool) \<Rightarrow> log_filter list \<Rightarrow> string ptr \<Rightarrow> logpriority \<Rightarrow> bool" where
  "debug_filter fnmatch filters subsys msg_level =
     (msg_level > (case log_matching_filter fnmatch filters (case subsys of None \<Rightarrow> [] | Some s \<Rightarrow> s) of
        None \<Rightarrow> DEFAULT_LOG_LEVEL
      | Some best \<Rightarrow> lf_level best))"

definition log_dump_log_filters :: "log_filter list \<Rightarrow> string list" where
  "log_dump_log_filters filters =
     map (\<lambda>f. ''  '' @ [CHR 0x27] @ lf_pattern f @ [CHR 0x27] @ '' = '' @ show_int (prio_num (lf_level f)) @ '' ('' @
              log_priority_to_str (lf_level f) @ '')'') filters"

subsection \<open>The setting \<open>log.level\<close>\<close>

definition filter_sep :: "char \<Rightarrow> bool" where
  "filter_sep c \<longleftrightarrow> isspace c \<or> c = CHR '',''"

text \<open>\<open>strchr\<close>: the text before the first \<open>c\<close> and the text after it.\<close>

definition strchr_split :: "char \<Rightarrow> string \<Rightarrow> string \<times> string ptr" where
  "strchr_split c s =
     (takeWhile (\<lambda>x. x \<noteq> c) s,
      case dropWhile (\<lambda>x. x \<noteq> c) s of [] \<Rightarrow> NULL | _ # r \<Rightarrow> Some r)"

text \<open>One token: the filters it adds. \<open>strndup\<close> without memory aborts.\<close>

definition load_token :: "string \<Rightarrow> log_filter list \<Rightarrow> log_filter list proc" where
  "load_token tok filters a =
     (case strchr_split (CHR '':'') tok of
        (_, None) \<Rightarrow> ret filters a
      | (subsys, Some rest) \<Rightarrow>
          let (level_str, rate) = strchr_split (CHR ''@'') rest in
          case (case rate of None \<Rightarrow> Some (0, 0) | Some _ \<Rightarrow> log_rate_parse rate) of
            None \<Rightarrow> ret filters a
          | Some (count, seconds) \<Rightarrow>
              let level = log_priority_from_str level_str in
              if level = LOG_NONE then ret filters a
              else if length subsys \<ge> 2 \<and> drop (length subsys - 2) subsys = ''.*'' then
                (let (ok, a) = malloc_ok a in
                 if \<not> ok then Some (Exit ABORTED, a)
                 else
                   let (_, filters, a) = log_add_filter_rate (take (length subsys - 2) subsys) level count seconds filters a;
                       (_, filters, a) = log_add_filter_rate subsys level count seconds filters a
                   in ret filters a)
              else
                let (_, filters, a) = log_add_filter_rate subsys level count seconds filters a in ret filters a)"

lemma filter_token_shrinks:
  assumes "dropWhile P s \<noteq> []"
  shows "length (drop 1 (dropWhile Q (dropWhile P s))) < length s"
proof -
  have "length (dropWhile Q (dropWhile P s)) \<le> length s"
    using length_dropWhile_le [of Q "dropWhile P s"] length_dropWhile_le [of P s] by simp
  moreover have "0 < length s" using assms by (cases s) auto
  ultimately show ?thesis by (simp only: length_drop)
qed

function load_tokens :: "string \<Rightarrow> log_filter list \<Rightarrow> log_filter list proc" where
  "load_tokens s filters a =
     (let tok = dropWhile filter_sep s in
      if tok = [] then ret filters a
      else andthen (load_token (takeWhile (\<lambda>c. \<not> filter_sep c) tok) filters)
             (load_tokens (drop 1 (dropWhile (\<lambda>c. \<not> filter_sep c) tok))) a)"
  by pat_completeness auto

termination
  by (relation "measure (\<lambda>(s, _, _). length s)") (auto dest: filter_token_shrinks simp del: dropWhile_eq_Nil_conv length_drop)

declare load_tokens.simps [simp del]

text \<open>\<open>cfg\<close> is the value of the setting, \<open>NULL\<close> when there is none.\<close>

definition load_log_filters_from_config :: "string ptr \<Rightarrow> log_filter list \<Rightarrow> log_filter list proc" where
  "load_log_filters_from_config cfg filters a =
     (case cfg of
        None \<Rightarrow> ret filters a
      | Some s \<Rightarrow>
          let (ok, a) = malloc_ok a in
          if \<not> ok then Some (Exit ABORTED, a) else load_tokens s filters a)"

subsection \<open>The deciding filter\<close>

lemma prio_roundtrip: "l \<noteq> LOG_NONE \<Longrightarrow> log_priority_from_str (log_priority_to_str l) = l"
  by (cases l) (simp_all add: log_priority_to_str_def log_priority_from_str_def log_priorities_def s_prio_none_def
      strcasecmp_eq_def tolower_def code_def)

lemma matching_loop_best:
  "case matching_loop fnmatch s fs best of
     None \<Rightarrow> best = None \<and> (\<forall>f \<in> set fs. \<not> fnmatch (lf_pattern f) s)
   | Some b \<Rightarrow>
       (best = Some b \<and> (\<forall>f \<in> set fs. fnmatch (lf_pattern f) s \<longrightarrow> length (lf_pattern f) \<le> length (lf_pattern b)) \<or>
        (\<exists>pre post. fs = pre @ b # post \<and> fnmatch (lf_pattern b) s \<and>
           (\<forall>f \<in> set pre. fnmatch (lf_pattern f) s \<longrightarrow> length (lf_pattern f) < length (lf_pattern b)) \<and>
           (\<forall>f \<in> set post. fnmatch (lf_pattern f) s \<longrightarrow> length (lf_pattern f) \<le> length (lf_pattern b)) \<and>
           (\<forall>b'. best = Some b' \<longrightarrow> length (lf_pattern b') < length (lf_pattern b))))"
proof (induction fs arbitrary: best)
  case Nil
  then show ?case by (cases best) auto
next
  case (Cons f fs)
  let ?new = "fnmatch (lf_pattern f) s \<and> (case best of None \<Rightarrow> True | Some b \<Rightarrow> length (lf_pattern f) > length (lf_pattern b))"
  show ?case
  proof (cases "matching_loop fnmatch s (f # fs) best")
    case None
    with Cons.IH [of "if ?new then Some f else best"] show ?thesis by (auto split: if_splits option.splits)
  next
    case (Some b)
    have r: "matching_loop fnmatch s fs (if ?new then Some f else best) = Some b" using Some by simp
    note ih = Cons.IH [of "if ?new then Some f else best", unfolded r option.case]
    from ih show ?thesis
    proof
      assume a: "(if ?new then Some f else best) = Some b \<and>
        (\<forall>g \<in> set fs. fnmatch (lf_pattern g) s \<longrightarrow> length (lf_pattern g) \<le> length (lf_pattern b))"
      show ?thesis
      proof (cases ?new)
        case True
        with a have "f # fs = [] @ b # fs \<and> fnmatch (lf_pattern b) s" by simp
        with a True show ?thesis unfolding Some option.case by (intro disjI2 exI [of _ "[]"] exI [of _ fs]) auto
      next
        case False
        with a show ?thesis unfolding Some option.case by (intro disjI1) auto
      qed
    next
      assume "\<exists>pre post. fs = pre @ b # post \<and> fnmatch (lf_pattern b) s \<and>
           (\<forall>f \<in> set pre. fnmatch (lf_pattern f) s \<longrightarrow> length (lf_pattern f) < length (lf_pattern b)) \<and>
           (\<forall>f \<in> set post. fnmatch (lf_pattern f) s \<longrightarrow> length (lf_pattern f) \<le> length (lf_pattern b)) \<and>
           (\<forall>b'. (if ?new then Some f else best) = Some b' \<longrightarrow> length (lf_pattern b') < length (lf_pattern b))"
      then obtain pre post where a: "fs = pre @ b # post" "fnmatch (lf_pattern b) s"
        "\<forall>f \<in> set pre. fnmatch (lf_pattern f) s \<longrightarrow> length (lf_pattern f) < length (lf_pattern b)"
        "\<forall>f \<in> set post. fnmatch (lf_pattern f) s \<longrightarrow> length (lf_pattern f) \<le> length (lf_pattern b)"
        "\<forall>b'. (if ?new then Some f else best) = Some b' \<longrightarrow> length (lf_pattern b') < length (lf_pattern b)" by blast
      have "fnmatch (lf_pattern f) s \<longrightarrow> length (lf_pattern f) < length (lf_pattern b)"
        and "\<forall>b'. best = Some b' \<longrightarrow> length (lf_pattern b') < length (lf_pattern b)"
        using a(5) by (auto split: if_splits option.splits)
      with a show ?thesis unfolding Some option.case
        by (intro disjI2 exI [of _ "f # pre"] exI [of _ post]) auto
    qed
  qed
qed

text \<open>The most specific filter decides. A message is held back exactly when its level is
  above that of the deciding filter, or above \<open>LOG_DEBUG\<close> when no pattern matches; the deciding
  filter matches, no matching filter has a longer pattern, and of those with a pattern as long
  it is the one added last.\<close>

theorem most_specific_filter_decides:
  "case log_matching_filter fnmatch filters s of
     None \<Rightarrow> list_all (\<lambda>f. \<not> fnmatch (lf_pattern f) s) filters \<and>
       debug_filter fnmatch filters (Some s) level = (LOG_DEBUG < level)
   | Some b \<Rightarrow> (\<exists>pre post. filters = pre @ b # post \<and> fnmatch (lf_pattern b) s \<and>
       list_all (\<lambda>f. \<not> (fnmatch (lf_pattern f) s \<and> length (lf_pattern b) \<le> length (lf_pattern f))) pre \<and>
       list_all (\<lambda>f. \<not> (fnmatch (lf_pattern f) s \<and> length (lf_pattern b) < length (lf_pattern f))) post) \<and>
       debug_filter fnmatch filters (Some s) level = (lf_level b < level)"
proof (cases "log_matching_filter fnmatch filters s")
  case None
  with matching_loop_best [where fnmatch = fnmatch and s = s and fs = filters and best = NULL] show ?thesis
    by (simp add: log_matching_filter_def debug_filter_def list_all_iff)
next
  case (Some b)
  with matching_loop_best [where fnmatch = fnmatch and s = s and fs = filters and best = NULL] show ?thesis
    by (simp add: log_matching_filter_def debug_filter_def list_all_iff not_le not_less)
qed

subsection \<open>Rates\<close>

lemma slot_index_Some:
  "slot_index P ss = Some i \<longleftrightarrow> i < length ss \<and> P (ss ! i) \<and> (\<forall>j < i. \<not> P (ss ! j))"
proof (induction ss arbitrary: i)
  case (Cons s ss)
  show ?case
  proof (cases i)
    case 0
    then show ?thesis by auto
  next
    case (Suc k)
    then show ?thesis using Cons.IH [of k] by (auto simp: less_Suc_eq_0_disj)
  qed
qed simp

lemma slot_index_None: "slot_index P ss = None \<longleftrightarrow> list_all (\<lambda>s. \<not> P s) ss"
  by (induction ss) auto

lemma rate_window_key:
  "rate_window t c sec s = (ok, sk, s') \<Longrightarrow>
     rs_used s' = rs_used s \<and> rs_priority s' = rs_priority s \<and> rs_subsys s' = rs_subsys s"
  by (auto simp: rate_window_def Let_def split: if_splits)

lemma slot_is_window: "rate_window t c sec s = (ok, sk, s') \<Longrightarrow> slot_is k l s' = slot_is k l s"
  by (auto simp: slot_is_def dest!: rate_window_key)

text \<open>A call for the key of a slot works on that slot.\<close>

lemma rate_same:
  assumes "slot_index (slot_is k l) slots = Some i" and "c \<noteq> 0" and "LOG_AUDIT < l"
    and "rate_window t c sec (slots ! i) = (ok, sk, s)"
  shows "log_rate_allowed (Some t) slots k l c sec = (ok, sk, slots[i := s])"
    and "slot_index (slot_is k l) (slots[i := s]) = Some i" and "slots[i := s] ! i = s"
proof -
  have i: "i < length slots" "slot_is k l (slots ! i)" "\<forall>j < i. \<not> slot_is k l (slots ! j)"
    using assms(1) by (simp_all add: slot_index_Some)
  show "log_rate_allowed (Some t) slots k l c sec = (ok, sk, slots[i := s])"
    using assms by (simp add: log_rate_allowed_def not_le [symmetric])
  show "slot_index (slot_is k l) (slots[i := s]) = Some i" "slots[i := s] ! i = s"
    using i slot_is_window [OF assms(4), of k l] by (simp_all add: slot_index_Some)
qed

text \<open>A call for another key leaves it alone.\<close>

lemma rate_other:
  assumes key: "slot_index (slot_is k l) slots = Some i" and len: "length su \<le> 127" and ne: "(su, lv) \<noteq> (k, l)"
    and r: "log_rate_allowed clock slots su lv c sec = (ok, sk, slots')"
  shows "slot_index (slot_is k l) slots' = Some i \<and> slots' ! i = slots ! i"
proof (cases "slots' = slots")
  case False
  then obtain t where t: "clock = Some t" "\<not> (c = 0 \<or> lv \<le> LOG_AUDIT)"
    using r by (cases clock) (auto simp: log_rate_allowed_def split: if_splits)
  have upd: "slot_index (slot_is k l) (slots[j := x]) = Some i \<and> slots[j := x] ! i = slots ! i"
    if "j \<noteq> i" "\<not> slot_is k l x" for j x
    using key that by (auto simp: slot_index_Some nth_list_update split: if_splits) (metis nth_list_update_eq nth_list_update_neq less_trans)
  show ?thesis
  proof (cases "slot_index (slot_is su lv) slots")
    case (Some j)
    obtain x where x: "rate_window t c sec (slots ! j) = (ok, sk, x)" "slots' = slots[j := x]"
      using r t Some by (auto simp: log_rate_allowed_def Let_def split: prod.splits)
    have sj: "slot_is su lv (slots ! j)" using Some by (simp add: slot_index_Some)
    then have "\<not> slot_is k l (slots ! j)" using ne by (auto simp: slot_is_def)
    moreover have "slot_is k l (slots ! i)" using key by (simp add: slot_index_Some)
    ultimately have "j \<noteq> i" "\<not> slot_is k l x" using slot_is_window [OF x(1), of k l] by auto
    with upd x(2) show ?thesis by simp
  next
    case None
    then obtain j where j: "slot_index (\<lambda>s. \<not> rs_used s) slots = Some j"
      using r t False by (auto simp: log_rate_allowed_def split: option.splits)
    let ?n = "zero_slot\<lparr>rs_used := True, rs_priority := lv, rs_subsys := snprintf_s 128 su, rs_window_start := t\<rparr>"
    obtain x where x: "rate_window t c sec ?n = (ok, sk, x)" "slots' = slots[j := x]"
      using r t None j by (auto simp: log_rate_allowed_def Let_def split: prod.splits)
    have "\<not> slot_is k l ?n" using ne len by (auto simp: slot_is_def snprintf_s_def)
    moreover have "\<not> rs_used (slots ! j)" using j by (simp add: slot_index_Some)
    moreover have "slot_is k l (slots ! i)" using key by (simp add: slot_index_Some)
    ultimately have "j \<noteq> i" "\<not> slot_is k l x" using slot_is_window [OF x(1), of k l] by (auto simp: slot_is_def)
    with upd x(2) show ?thesis by simp
  qed
qed (use key in simp)

text \<open>A history of calls: subsystem, level, time, and the rate of the deciding filter.\<close>

type_synonym rate_call = "string \<times> logpriority \<times> int \<times> u32 \<times> u32"

fun rate_run :: "rate_call list \<Rightarrow> log_rate_slot list \<Rightarrow> (bool \<times> u32) list \<times> log_rate_slot list" where
  "rate_run [] slots = ([], slots)"
| "rate_run ((su, lv, t, c, sec) # cs) slots =
     (let (ok, skipped, slots) = log_rate_allowed (Some t) slots su lv c sec;
          (rs, slots) = rate_run cs slots
      in ((ok, skipped) # rs, slots))"

text \<open>How many messages of a key were printed, and how many were held back.\<close>

fun printed :: "string \<Rightarrow> logpriority \<Rightarrow> rate_call list \<Rightarrow> (bool \<times> u32) list \<Rightarrow> nat" where
  "printed k l ((su, lv, _) # cs) ((ok, _) # rs) = of_bool (su = k \<and> lv = l \<and> ok) + printed k l cs rs"
| "printed k l _ _ = 0"

fun held_back :: "string \<Rightarrow> logpriority \<Rightarrow> rate_call list \<Rightarrow> (bool \<times> u32) list \<Rightarrow> nat" where
  "held_back k l ((su, lv, _) # cs) ((ok, _) # rs) = of_bool (su = k \<and> lv = l \<and> \<not> ok) + held_back k l cs rs"
| "held_back k l _ _ = 0"

text \<open>The suppressed messages that a later printed message of the key announced.\<close>

fun announced :: "string \<Rightarrow> logpriority \<Rightarrow> rate_call list \<Rightarrow> (bool \<times> u32) list \<Rightarrow> nat" where
  "announced k l ((su, lv, _) # cs) ((ok, sk) # rs) = (if su = k \<and> lv = l \<and> ok then unat sk else 0) + announced k l cs rs"
| "announced k l _ _ = 0"

text \<open>Calls in the order of a clock that does not go back, between \<open>t0\<close> and \<open>tn\<close>, with
  names that fit a slot, and with one rate for the key.\<close>

fun calls_ok :: "string \<Rightarrow> logpriority \<Rightarrow> u32 \<Rightarrow> u32 \<Rightarrow> int \<Rightarrow> int \<Rightarrow> rate_call list \<Rightarrow> bool" where
  "calls_ok k l c sec t0 tn [] \<longleftrightarrow> t0 \<le> tn"
| "calls_ok k l c sec t0 tn ((su, lv, t, c', sec') # cs) \<longleftrightarrow>
     t0 \<le> t \<and> t \<le> tn \<and> length su \<le> 127 \<and> (su = k \<and> lv = l \<longrightarrow> c' = c \<and> sec' = sec) \<and> calls_ok k l c sec t tn cs"

text \<open>The number of windows that begin in the time left.\<close>

definition windows_left :: "int \<Rightarrow> int \<Rightarrow> int \<Rightarrow> int" where
  "windows_left sec w tn = (tn - w) div sec + 1"

lemma windows_left_reset:
  assumes "0 < sec" and "w + sec \<le> t" and "t \<le> tn"
  shows "windows_left sec t tn + 1 \<le> windows_left sec w tn"
proof -
  have "(tn - t + sec) div sec = (tn - t) div sec + 1" using assms(1) by simp
  moreover have "(tn - t + sec) div sec \<le> (tn - w) div sec" using assms by (intro zdiv_mono1) auto
  ultimately show ?thesis by (simp add: windows_left_def)
qed

text \<open>One call for the key: what it prints and what it counts.\<close>

lemma rate_window_step:
  assumes "rate_window t c sec s = (ok, sk, s')" and "c \<noteq> 0" and "0 < uint sec"
    and "rs_window_start s \<le> t" and "t \<le> tn" and "rs_emitted s \<le> c" and "unat (rs_suppressed s) < 2 ^ 32 - 1"
  shows "of_bool ok + int (unat c) * windows_left (uint sec) (rs_window_start s') tn - int (unat (rs_emitted s')) \<le>
      int (unat c) * windows_left (uint sec) (rs_window_start s) tn - int (unat (rs_emitted s))"
    and "rs_emitted s' \<le> c" and "rs_window_start s \<le> rs_window_start s'" and "rs_window_start s' \<le> t"
    and "(if ok then unat sk else 0) + unat (rs_suppressed s') = unat (rs_suppressed s) + of_bool (\<not> ok)"
proof -
  have c: "1 \<le> unat c" using assms(2) by (simp add: Suc_leI unat_gt_0)
  have sup: "rs_suppressed s < 0xFFFFFFFF" "unat (rs_suppressed s + 1) = unat (rs_suppressed s) + 1"
    using assms(7) by (simp_all add: word_less_nat_alt unat_add_one)
  have em: "unat (rs_emitted s + 1) = unat (rs_emitted s) + 1" if "rs_emitted s < c"
    using that unsigned_less [of c, where 'a = nat] by (intro unat_add_one) (simp add: word_less_nat_alt)
  have emi: "uint (rs_emitted s + 1) = uint (rs_emitted s) + 1" if "rs_emitted s < c"
    using arg_cong [OF em [OF that], of int] by simp
  show "rs_emitted s' \<le> c" "rs_window_start s \<le> rs_window_start s'" "rs_window_start s' \<le> t"
    "(if ok then unat sk else 0) + unat (rs_suppressed s') = unat (rs_suppressed s) + of_bool (\<not> ok)"
    using assms(1,2,4,6) sup em c
    by (auto simp: rate_window_def Let_def word_le_nat_alt word_less_nat_alt not_le split: if_splits)
  show "of_bool ok + int (unat c) * windows_left (uint sec) (rs_window_start s') tn - int (unat (rs_emitted s')) \<le>
      int (unat c) * windows_left (uint sec) (rs_window_start s) tn - int (unat (rs_emitted s))"
  proof (cases "t - rs_window_start s \<ge> uint sec")
    case True
    have "ok" "rs_window_start s' = t" "unat (rs_emitted s') = 1"
      using assms(1,2) True c by (auto simp: rate_window_def Let_def word_le_nat_alt split: if_splits)
    moreover have "int (unat c) * (windows_left (uint sec) t tn + 1) \<le> int (unat c) * windows_left (uint sec) (rs_window_start s) tn"
      using windows_left_reset [OF assms(3) _ assms(5), of "rs_window_start s"] True by (intro mult_left_mono) auto
    moreover have "uint (rs_emitted s) \<le> uint c" using assms(6) by (simp add: word_le_def)
    ultimately show ?thesis by (simp add: distrib_left)
  next
    case False
    then have "rs_window_start s' = rs_window_start s" "int (unat (rs_emitted s')) = int (unat (rs_emitted s)) + of_bool ok"
      using assms(1,4,6) emi by (auto simp: rate_window_def Let_def not_le order.strict_iff_order split: if_splits)
    then show ?thesis by simp
  qed
qed

lemma rate_window_accepts:
  assumes "rs_emitted s = 0" and "rs_window_start s = t" and "c \<noteq> 0" and "0 < uint sec"
  shows "rate_window t c sec s = (True, 0, s\<lparr>rs_emitted := 1\<rparr>)"
  using assms by (auto simp: rate_window_def Let_def)

text \<open>The rest of a history, from a table in which the key has slot \<open>i\<close>.\<close>

lemma rate_run_bound:
  assumes "calls_ok k l c sec t0 tn cs" and "c \<noteq> 0" and "0 < uint sec" and "LOG_AUDIT < l"
    and "slot_index (slot_is k l) slots = Some i" and "rs_window_start (slots ! i) \<le> t0"
    and "rs_emitted (slots ! i) \<le> c" and "unat (rs_suppressed (slots ! i)) + length cs < 2 ^ 32"
    and "rate_run cs slots = (rs, slots')"
  shows "int (printed k l cs rs) + uint (rs_emitted (slots ! i)) \<le>
      uint c * windows_left (uint sec) (rs_window_start (slots ! i)) tn \<and>
    slot_index (slot_is k l) slots' = Some i \<and>
    announced k l cs rs + unat (rs_suppressed (slots' ! i)) = unat (rs_suppressed (slots ! i)) + held_back k l cs rs"
  using assms
proof (induction cs arbitrary: t0 slots rs)
  case Nil
  then have "0 \<le> (tn - rs_window_start (slots ! i)) div uint sec" by (intro pos_imp_zdiv_nonneg_iff [THEN iffD2]) auto
  then have "uint c * 1 \<le> uint c * windows_left (uint sec) (rs_window_start (slots ! i)) tn"
    by (intro mult_left_mono) (auto simp: windows_left_def)
  moreover have "uint (rs_emitted (slots ! i)) \<le> uint c" using Nil by (simp add: word_le_def)
  ultimately show ?case using Nil by simp
next
  case (Cons call cs)
  obtain su lv t c' sec' where call: "call = (su, lv, t, c', sec')" by (metis prod_cases5)
  obtain ok sk slots1 where r1: "log_rate_allowed (Some t) slots su lv c' sec' = (ok, sk, slots1)"
    by (metis prod_cases3)
  obtain rs1 where r2: "rate_run cs slots1 = (rs1, slots')" and rs: "rs = (ok, sk) # rs1"
    using Cons.prems(9) call r1 by (auto split: prod.splits)
  have ok: "t0 \<le> t" "t \<le> tn" "length su \<le> 127" "su = k \<and> lv = l \<longrightarrow> c' = c \<and> sec' = sec"
    "calls_ok k l c sec t tn cs" using Cons.prems(1) call by auto
  show ?case
  proof (cases "su = k \<and> lv = l")
    case True
    obtain ok' sk' s where w: "rate_window t c sec (slots ! i) = (ok', sk', s)" by (metis prod_cases3)
    note same = rate_same [OF Cons.prems(5,2,4) w]
    have eq: "ok' = ok" "sk' = sk" "slots1 = slots[i := s]" using same(1) r1 True ok(4) by auto
    have w0: "rs_window_start (slots ! i) \<le> t" using Cons.prems(6) ok(1) by simp
    have sup: "unat (rs_suppressed (slots ! i)) < 2 ^ 32 - 1" using Cons.prems(8) by simp
    note step = rate_window_step [OF w Cons.prems(2,3) w0 ok(2) Cons.prems(7) sup, unfolded eq(1,2)]
    have "unat (rs_suppressed s) + length cs < 2 ^ 32" using step(5) Cons.prems(8) by (cases ok) auto
    with Cons.IH [OF ok(5) Cons.prems(2-4) same(2) _ _ _ r2 [unfolded eq(3)]] step(2,4) same(3)
    have ih: "int (printed k l cs rs1) + uint (rs_emitted s) \<le> uint c * windows_left (uint sec) (rs_window_start s) tn \<and>
        slot_index (slot_is k l) slots' = Some i \<and>
        announced k l cs rs1 + unat (rs_suppressed (slots' ! i)) = unat (rs_suppressed s) + held_back k l cs rs1"
      by simp
    have "of_bool ok + uint c * windows_left (uint sec) (rs_window_start s) tn - uint (rs_emitted s) \<le>
        uint c * windows_left (uint sec) (rs_window_start (slots ! i)) tn - uint (rs_emitted (slots ! i))"
      using step(1) by simp
    with ih step(5) True call rs show ?thesis by (auto split: if_splits)
  next
    case False
    then have keep: "slot_index (slot_is k l) slots1 = Some i" "slots1 ! i = slots ! i"
      using rate_other [OF Cons.prems(5) ok(3) _ r1] by auto
    have "rs_window_start (slots ! i) \<le> t" "unat (rs_suppressed (slots ! i)) + length cs < 2 ^ 32"
      using Cons.prems(6,8) ok(1) by auto
    with Cons.IH [OF ok(5) Cons.prems(2-4) keep(1) _ _ _ r2] Cons.prems(7) keep(2) False call rs show ?thesis
      by auto
  qed
qed

text \<open>C30: the rate limit holds and every suppressed message is accounted for. The calls come in the order
  of a clock that does not go back, all subsystem names have at most 127 characters (a longer one is
  not limited at all, see \<open>long_name_disables_rates\<close>), and the subsystem and level in question, a level
  above audit, has one rate all the time, with a count and a length of the window that are not zero.
  If the table has a free slot at its first message, at time \<open>t0\<close>, then up to any time \<open>tn\<close> with no
  later call the messages printed are, in total, at most the configured count times the number of
  windows that fit into the time from \<open>t0\<close> to \<open>tn\<close>, the last one perhaps not full, whatever else is
  logged in between (fewer than 2^32 calls); and the messages held back are those announced by a later
  printed message and those still counted in the slot, none is forgotten or announced twice.\<close>

theorem rate_limit_holds:
  assumes "calls_ok k l c sec t0 tn ((k, l, t0, c, sec) # cs)" and "c \<noteq> 0" and "0 < uint sec" and "LOG_AUDIT < l"
    and "slot_index (slot_is k l) slots = None" and "slot_index (\<lambda>s. \<not> rs_used s) slots = Some i"
    and "length cs < 2 ^ 32" and "rate_run ((k, l, t0, c, sec) # cs) slots = (rs, slots')"
  shows "int (printed k l ((k, l, t0, c, sec) # cs) rs) \<le> uint c * ((tn - t0) div uint sec + 1) \<and>
    announced k l ((k, l, t0, c, sec) # cs) rs + unat (rs_suppressed (slots' ! i)) =
      held_back k l ((k, l, t0, c, sec) # cs) rs"
proof -
  let ?s = "zero_slot\<lparr>rs_used := True, rs_priority := l, rs_subsys := k, rs_window_start := t0\<rparr>"
  let ?s1 = "?s\<lparr>rs_emitted := 1\<rparr>" and ?slots = "slots[i := ?s\<lparr>rs_emitted := 1\<rparr>]"
  have k: "snprintf_s 128 k = k" using assms(1) by (simp add: snprintf_s_def)
  have "rate_window t0 c sec ?s = (True, 0, ?s1)"
    by (rule rate_window_accepts) (use assms(2,3) in \<open>simp_all add: zero_slot_def\<close>)
  then have first: "log_rate_allowed (Some t0) slots k l c sec = (True, 0, ?slots)"
    using assms(2,4,5,6) k by (simp add: log_rate_allowed_def not_le [symmetric])
  obtain rs1 where run: "rate_run cs ?slots = (rs1, slots')" and rs: "rs = (True, 0) # rs1"
    using assms(8) first by (auto split: prod.splits)
  have i: "i < length slots" "\<forall>j < length slots. \<not> slot_is k l (slots ! j)"
    using assms(5,6) by (simp_all add: slot_index_Some slot_index_None list_all_length)
  then have key: "slot_index (slot_is k l) ?slots = Some i" "?slots ! i = ?s1"
    by (simp_all add: slot_index_Some) (auto simp: slot_is_def)
  have ok: "calls_ok k l c sec t0 tn cs" using assms(1) by simp
  have c1: "1 \<le> c" using assms(2) by (simp add: word_le_nat_alt Suc_leI unat_gt_0)
  from rate_run_bound [OF ok assms(2,3,4) key(1) _ _ _ run, unfolded key(2)] assms(7) c1
  show ?thesis by (simp add: rs windows_left_def zero_slot_def)
qed

theorem rate_limit_holds_witness:
  "\<exists>rs slots'. rate_run [(''tx'', LOG_WARN, 5, 1, 10), (''tx'', LOG_WARN, 6, 1, 10), (''rx'', LOG_WARN, 7, 3, 2),
        (''tx'', LOG_WARN, 16, 1, 10)] (snd log_clear_filters) = (rs, slots') \<and>
     printed ''tx'' LOG_WARN [(''tx'', LOG_WARN, 5, 1, 10), (''tx'', LOG_WARN, 6, 1, 10), (''rx'', LOG_WARN, 7, 3, 2),
        (''tx'', LOG_WARN, 16, 1, 10)] rs \<le> 2"
proof -
  let ?cs = "[(''tx'', LOG_WARN, 6, 1, 10), (''rx'', LOG_WARN, 7, 3, 2), (''tx'', LOG_WARN, 16, 1, 10 :: u32)]"
  obtain rs slots' where run: "rate_run ((''tx'', LOG_WARN, 5, 1, 10) # ?cs) (snd log_clear_filters) = (rs, slots')"
    by (meson surj_pair)
  have "int (printed ''tx'' LOG_WARN ((''tx'', LOG_WARN, 5, 1, 10) # ?cs) rs) \<le> uint (1 :: u32) * ((16 - 5) div uint (10 :: u32) + 1)"
    using rate_limit_holds [where tn = 16 and i = 0, OF _ _ _ _ _ _ _ run]
    by (simp add: log_clear_filters_def slot_index_None slot_index_Some zero_slot_def slot_is_def
        less_logpriority_def list_all_iff)
  then show ?thesis using run by auto
qed

subsection \<open>Subsystems whose name does not fit a slot\<close>

text \<open>A slot keeps 127 characters of the name, but is looked up by the whole name.\<close>

definition cut_slot :: "string \<Rightarrow> logpriority \<Rightarrow> int \<Rightarrow> log_rate_slot" where
  "cut_slot su l t = zero_slot\<lparr>rs_used := True, rs_priority := l, rs_subsys := take 127 su, rs_window_start := t, rs_emitted := 1\<rparr>"

lemma cut_slot_simps [simp]:
  "rs_used (cut_slot su l t)" "rs_subsys (cut_slot su l t) = take 127 su"
  "slot_is k l' (cut_slot su l t) \<longleftrightarrow> l' = l \<and> k = take 127 su"
  "\<not> rs_used zero_slot" "\<not> slot_is k l' zero_slot"
  by (auto simp: cut_slot_def zero_slot_def slot_is_def)

lemma cut_slot_step:
  assumes "127 < length su" and "LOG_AUDIT < l" and "c \<noteq> 0" and "0 < uint sec"
  shows "log_rate_allowed (Some t) (replicate n (cut_slot su l t) @ replicate (Suc m) zero_slot) su l c sec =
    (True, 0, replicate (Suc n) (cut_slot su l t) @ replicate m zero_slot)"
proof -
  let ?ss = "replicate n (cut_slot su l t) @ replicate (Suc m) zero_slot"
  have ne: "su \<noteq> take 127 su" using assms(1) by (metis length_take less_irrefl min_less_iff_conj)
  have "slot_index (slot_is su l) ?ss = None"
    using ne by (auto simp: slot_index_None list_all_iff simp del: replicate_Suc)
  moreover have "slot_index (\<lambda>s. \<not> rs_used s) ?ss = Some n" by (auto simp: slot_index_Some nth_append)
  moreover have "rate_window t c sec (zero_slot\<lparr>rs_used := True, rs_priority := l, rs_subsys := take 127 su, rs_window_start := t\<rparr>) =
      (True, 0, cut_slot su l t)"
    using rate_window_accepts assms(3,4) by (simp add: cut_slot_def zero_slot_def)
  moreover have "?ss[n := cut_slot su l t] = replicate (Suc n) (cut_slot su l t) @ replicate m zero_slot"
    by (simp add: list_update_append replicate_append_same)
  ultimately show ?thesis using assms(2,3) by (simp add: log_rate_allowed_def snprintf_s_def not_le [symmetric])
qed

lemma cut_slot_run:
  assumes "127 < length su" and "LOG_AUDIT < l" and "c \<noteq> 0" and "0 < uint sec"
  shows "rate_run (replicate m (su, l, t, c, sec)) (replicate n (cut_slot su l t) @ replicate (m + r) zero_slot) =
    (replicate m (True, 0), replicate (n + m) (cut_slot su l t) @ replicate r zero_slot)"
proof (induction m arbitrary: n)
  case (Suc m)
  from cut_slot_step [OF assms, of t n "m + r"] Suc [of "Suc n"] show ?case by (simp del: append.simps)
qed simp

text \<open>One subsystem with a long name disables rate limiting. A name of 128 characters or more
  is cut when its slot is filled, so its next message does not find the slot and takes
  another one, with a count of its own. None of its messages is ever held back, and after 256
  of them the table is full: from then on no other subsystem without a slot is limited
  either, whatever its configured rate.\<close>

theorem long_name_disables_rates:
  assumes "127 < length su" and "LOG_AUDIT < l" and "c \<noteq> 0" and "0 < uint sec"
    and "k \<noteq> take 127 su"
  shows "fst (rate_run (replicate 256 (su, l, t, c, sec)) (snd log_clear_filters)) = replicate 256 (True, 0) \<and>
    log_rate_allowed clock (snd (rate_run (replicate 256 (su, l, t, c, sec)) (snd log_clear_filters))) k l' c' sec' =
      (True, 0, snd (rate_run (replicate 256 (su, l, t, c, sec)) (snd log_clear_filters)))"
proof -
  have "rate_run (replicate 256 (su, l, t, c, sec)) (snd log_clear_filters) = (replicate 256 (True, 0), replicate 256 (cut_slot su l t))"
    using cut_slot_run [OF assms(1-4), of 256 t 0 0] by (simp only: log_clear_filters_def snd_conv) simp
  moreover have "log_rate_allowed clock (replicate 256 (cut_slot su l t)) k l' c' sec' = (True, 0, replicate 256 (cut_slot su l t))"
  proof -
    have "slot_index (slot_is k l') (replicate 256 (cut_slot su l t)) = None"
      using assms(5) by (simp only: slot_index_None list_all_iff) auto
    moreover have "slot_index (\<lambda>s. \<not> rs_used s) (replicate 256 (cut_slot su l t)) = None"
      by (simp only: slot_index_None list_all_iff) auto
    ultimately show ?thesis by (simp only: log_rate_allowed_def) (simp split: option.split)
  qed
  ultimately show ?thesis by (simp only: fst_conv snd_conv)
qed

theorem long_name_disables_rates_witness:
  "log_rate_allowed (Some 9) (snd (rate_run (replicate 256 (replicate 200 CHR ''x'', LOG_WARN, 9, 1, 60))
     (snd log_clear_filters))) ''tx'' LOG_WARN 1 60 =
   (True, 0, snd (rate_run (replicate 256 (replicate 200 CHR ''x'', LOG_WARN, 9, 1, 60)) (snd log_clear_filters)))"
proof -
  define su where "su = replicate 200 CHR ''x''"
  have len: "length su = 200" unfolding su_def by (rule length_replicate)
  then have "length (take 127 su) = 127" by simp
  moreover have "length ''tx'' = 2" by simp
  ultimately have "''tx'' \<noteq> take 127 su" by force
  with long_name_disables_rates [of su LOG_WARN 1 60 "''tx''" 9 "Some 9" LOG_WARN 1 60] len
  show ?thesis unfolding su_def [symmetric] by (simp add: less_logpriority_def)
qed

subsection \<open>Reading the setting\<close>

lemma rate_parse_show:
  assumes "1 \<le> n" and "n \<le> 1000000" and "1 \<le> d" and "rate_factor [u] \<noteq> 0" and "int d * rate_factor [u] \<le> 86400"
  shows "log_rate_parse (Some (show_nat n @ ''/'' @ show_nat d @ [u])) = Some (of_nat n, of_nat d * of_int (rate_factor [u]))"
proof -
  have f: "0 < rate_factor [u]" "\<not> isdigit u" using assms(4) by (auto simp: rate_factor_def isdigit_def code_def split: if_splits)
  have "int d * 1 \<le> int d * rate_factor [u]" using f(1) by (intro mult_left_mono) auto
  then have d: "int d \<le> 86400" using assms(5) by simp
  have "strtoull (show_nat n @ ''/'' @ show_nat d @ [u]) = (int n, ''/'' @ show_nat d @ [u], False)"
    using assms(2) by (intro strtoull_show_nat) (auto simp: isdigit_def code_def)
  moreover have "strtoull (show_nat d @ [u]) = (int d, [u], False)" using d f(2) by (intro strtoull_show_nat) auto
  moreover have "int d \<le> 86400 div rate_factor [u]" using assms(5) f(1) by (auto simp: rate_factor_def split: if_splits)
  ultimately show ?thesis using assms isdigit_hd_show_nat [of d] by (simp add: log_rate_parse_def rate_duration_def hd_append)
qed

text \<open>A rate that is accepted is sensible: at least one message and at most a million, in a
  window of at least a second and at most a day.\<close>

theorem rate_parse_bounds:
  "case log_rate_parse str of
     None \<Rightarrow> True
   | Some (n, sec) \<Rightarrow> unat n \<in> {1..1000000} \<and> unat sec \<in> {1..86400}"
proof -
  have bounds: "unat (word_of_int x :: u32) \<in> {1..b}" if "1 \<le> x" "x \<le> int b" "b < 2 ^ 32" for x b
    using that by (simp add: unsigned_of_int take_bit_int_eq_self) (auto simp: nat_le_iff)
  have dur: "1 \<le> d * rate_factor u \<and> d * rate_factor u \<le> 86400"
    if "0 \<le> d" "d \<noteq> 0" "rate_factor u \<noteq> 0" "d \<le> 86400 div rate_factor u" for d u
    using that by (auto simp: rate_factor_def split: if_splits)
  show ?thesis
  proof (cases "log_rate_parse str")
    case (Some p)
    then obtain n sec where p: "log_rate_parse str = Some (n, sec)" by (cases p) auto
    moreover obtain v ep r where v: "strtoull (the str) = (v, ep, r)" by (metis prod_cases3)
    moreover obtain d u where d: "rate_duration (tl ep) = (d, u)" by (cases "rate_duration (tl ep)")
    ultimately have ok: "v \<noteq> 0" "v \<le> 1000000" "n = word_of_int v" "d \<noteq> 0" "rate_factor u \<noteq> 0"
        "d \<le> 86400 div rate_factor u" "sec = word_of_int (d * rate_factor u)"
      by (auto simp: log_rate_parse_def Let_def split: option.splits if_splits)
    have "0 \<le> v" using strtoull_range [OF v] by simp
    moreover have "0 \<le> d" using d strtoull_range [of "tl ep"]
      by (cases "strtoull (tl ep)") (auto simp: rate_duration_def split: if_splits)
    ultimately show ?thesis
      using ok dur [of d u] bounds [of v 1000000] bounds [of "d * rate_factor u" 86400] by (simp add: p del: of_int_mult)
  qed simp
qed

text \<open>What an administrator writes: a pattern, a level and perhaps a rate.\<close>

record filter_spec =
  fs_pattern :: string
  fs_level :: logpriority
  fs_rate :: "(nat \<times> nat \<times> char) option"

definition show_spec :: "filter_spec \<Rightarrow> string" where
  "show_spec sp = fs_pattern sp @ '':'' @ log_priority_to_str (fs_level sp) @
     (case fs_rate sp of None \<Rightarrow> [] | Some (n, d, u) \<Rightarrow> ''@'' @ show_nat n @ ''/'' @ show_nat d @ [u])"

definition spec_ok :: "filter_spec \<Rightarrow> bool" where
  "spec_ok sp \<longleftrightarrow> list_all (\<lambda>c. \<not> filter_sep c \<and> c \<noteq> CHR '':'') (fs_pattern sp) \<and> fs_level sp \<noteq> LOG_NONE \<and>
     (case fs_rate sp of None \<Rightarrow> True
      | Some (n, d, u) \<Rightarrow> 1 \<le> n \<and> n \<le> 1000000 \<and> 1 \<le> d \<and> rate_factor [u] \<noteq> 0 \<and> int d * rate_factor [u] \<le> 86400)"

definition spec_filter :: "filter_spec \<Rightarrow> string \<Rightarrow> log_filter" where
  "spec_filter sp pattern =
     (let (count, seconds) = (case fs_rate sp of None \<Rightarrow> (0, 0) | Some (n, d, u) \<Rightarrow> (of_nat n, of_nat d * of_int (rate_factor [u])))
      in \<lparr>lf_pattern = pattern, lf_level = fs_level sp, lf_rate_count = count, lf_rate_seconds = seconds\<rparr>)"

text \<open>A pattern that ends in \<open>.*\<close> stands for the plain subsystem as well.\<close>

definition spec_filters :: "filter_spec \<Rightarrow> log_filter list" where
  "spec_filters sp =
     (let p = fs_pattern sp in
      spec_filter sp p #
      (if length p \<ge> 2 \<and> drop (length p - 2) p = ''.*'' then [spec_filter sp (take (length p - 2) p)] else []))"

lemma strchr_split_simps:
  assumes "c \<notin> set p"
  shows "strchr_split c (p @ c # r) = (p, Some r)" and "strchr_split c p = (p, NULL)"
proof -
  have t: "takeWhile (\<lambda>x. x \<noteq> c) p = p" and d: "dropWhile (\<lambda>x. x \<noteq> c) p = []"
    using assms by (auto simp: takeWhile_eq_all_conv dropWhile_eq_Nil_conv)
  show "strchr_split c (p @ c # r) = (p, Some r)" using assms by (auto simp: strchr_split_def takeWhile_append dropWhile_append)
  show "strchr_split c p = (p, NULL)" unfolding strchr_split_def t d by simp
qed

lemma level_chars:
  "l \<noteq> LOG_NONE \<Longrightarrow> list_all (\<lambda>c. \<not> filter_sep c \<and> c \<noteq> CHR '':'' \<and> c \<noteq> CHR ''@'') (log_priority_to_str l)"
  by (cases l) (simp_all add: log_priority_to_str_def log_priorities_def filter_sep_def isspace_def)

lemma show_nat_no_sep: "c \<in> set (show_nat n) \<Longrightarrow> \<not> filter_sep c"
  using show_nat_digits [of c n] by (auto simp: filter_sep_def isspace_def isdigit_def code_def)

lemma show_spec_no_sep:
  assumes "spec_ok sp"
  shows "list_all (\<lambda>c. \<not> filter_sep c) (show_spec sp)"
proof -
  have "list_all (\<lambda>c. \<not> filter_sep c) (log_priority_to_str (fs_level sp))"
    using assms level_chars [of "fs_level sp"] by (auto simp: spec_ok_def list_all_iff)
  moreover have "list_all (\<lambda>c. \<not> filter_sep c) (show_nat n)" for n by (simp add: list_all_iff show_nat_no_sep)
  moreover have "list_all (\<lambda>c. \<not> filter_sep c) (fs_pattern sp)" using assms by (auto simp: spec_ok_def list_all_iff)
  moreover have "rate_factor [u] \<noteq> 0 \<Longrightarrow> \<not> filter_sep u" for u
    by (auto simp: rate_factor_def filter_sep_def isspace_def)
  moreover have "\<not> filter_sep (CHR '':'')" "\<not> filter_sep (CHR ''@'')" "\<not> filter_sep (CHR ''/'')"
    by (simp_all add: filter_sep_def isspace_def)
  ultimately show ?thesis using assms by (cases "fs_rate sp") (auto simp: show_spec_def spec_ok_def)
qed

lemma load_token_show:
  assumes "spec_ok sp"
  shows "load_token (show_spec sp) filters [] = Some (Done (spec_filters sp @ filters), [])"
proof -
  have col: "CHR '':'' \<notin> set (fs_pattern sp)" and lev: "fs_level sp \<noteq> LOG_NONE" using assms by (auto simp: spec_ok_def list_all_iff)
  have at: "CHR ''@'' \<notin> set (log_priority_to_str (fs_level sp))" using level_chars [OF lev] by (auto simp: list_all_iff)
  show ?thesis
  proof (cases "fs_rate sp")
    case None
    then show ?thesis using col at lev
      by (auto simp: load_token_def show_spec_def strchr_split_simps prio_roundtrip spec_filters_def spec_filter_def Let_def
          log_add_filter_rate_def)
  next
    case (Some r)
    obtain n d u where r: "r = (n, d, u)" by (metis prod_cases3)
    have "log_rate_parse (Some (show_nat n @ ''/'' @ show_nat d @ [u])) = Some (of_nat n, of_nat d * of_int (rate_factor [u]))"
      using assms Some r by (intro rate_parse_show) (auto simp: spec_ok_def)
    then show ?thesis using Some r col at lev
      by (auto simp: load_token_def show_spec_def strchr_split_simps prio_roundtrip spec_filters_def spec_filter_def Let_def
          log_add_filter_rate_def)
  qed
qed

lemma load_tokens_skip: "list_all filter_sep sep \<Longrightarrow> load_tokens (sep @ s) filters a = load_tokens s filters a"
  by (subst (1 2) load_tokens.simps) (simp add: dropWhile_append list_all_iff)

lemma load_tokens_cons:
  assumes "t \<noteq> []" and "list_all (\<lambda>c. \<not> filter_sep c) t" and "sep \<noteq> []" and "list_all filter_sep sep"
  shows "load_tokens (t @ sep @ s) filters a = andthen (load_token t filters) (load_tokens s) a"
proof -
  have "dropWhile filter_sep (t @ sep @ s) = t @ sep @ s" using assms by (cases t) auto
  moreover have "takeWhile (\<lambda>c. \<not> filter_sep c) (t @ sep @ s) = t" "dropWhile (\<lambda>c. \<not> filter_sep c) (t @ sep @ s) = sep @ s"
    using assms by (cases sep; auto simp: takeWhile_append dropWhile_append list_all_iff)+
  moreover have "load_tokens (drop 1 (sep @ s)) = load_tokens s"
    using load_tokens_skip [of "tl sep" s] assms(3,4) by (cases sep) (auto simp: fun_eq_iff)
  ultimately show ?thesis using assms(1) by (subst load_tokens.simps) simp
qed

text \<open>The setting \<open>log.level\<close> is read as it is written. For any list of filter entries, each
  followed by blanks or commas, exactly the filters it describes are installed, with their
  levels and rates, the last entry first; an entry for \<open>x.*\<close> also covers the subsystem \<open>x\<close>
  itself.\<close>

theorem level_setting_roundtrip:
  assumes "list_all (\<lambda>(sp, sep). spec_ok sp \<and> sep \<noteq> [] \<and> list_all filter_sep sep) specs"
  shows "load_log_filters_from_config (Some (concat (map (\<lambda>(sp, sep). show_spec sp @ sep) specs))) filters [] =
    Some (Done (concat (map (\<lambda>(sp, _). spec_filters sp) (rev specs)) @ filters), [])"
proof -
  have "load_tokens (concat (map (\<lambda>(sp, sep). show_spec sp @ sep) specs)) filters [] =
      Some (Done (concat (map (\<lambda>(sp, _). spec_filters sp) (rev specs)) @ filters), [])"
    using assms
  proof (induction specs arbitrary: filters)
    case Nil
    then show ?case by (subst load_tokens.simps) simp
  next
    case (Cons x specs)
    obtain sp sep where x: "x = (sp, sep)" by (cases x)
    then have sp: "spec_ok sp" "sep \<noteq> []" "list_all filter_sep sep" using Cons.prems by auto
    have "show_spec sp \<noteq> []" by (simp add: show_spec_def)
    from load_tokens_cons [OF this show_spec_no_sep [OF sp(1)] sp(2,3)] load_token_show [OF sp(1)] Cons x
    show ?case by simp
  qed
  then show ?thesis by (simp add: load_log_filters_from_config_def)
qed

theorem level_setting_roundtrip_witness:
  "load_log_filters_from_config (Some ''rig.*:debug, gui:warn@5/2m '') [] [] =
     Some (Done ([\<lparr>lf_pattern = ''gui'', lf_level = LOG_WARN, lf_rate_count = 5, lf_rate_seconds = 120\<rparr>,
        \<lparr>lf_pattern = ''rig.*'', lf_level = LOG_DEBUG, lf_rate_count = 0, lf_rate_seconds = 0\<rparr>,
        \<lparr>lf_pattern = ''rig'', lf_level = LOG_DEBUG, lf_rate_count = 0, lf_rate_seconds = 0\<rparr>]), [])"
proof -
  let ?rig = "\<lparr>fs_pattern = ''rig.*'', fs_level = LOG_DEBUG, fs_rate = None\<rparr>"
  let ?gui = "\<lparr>fs_pattern = ''gui'', fs_level = LOG_WARN, fs_rate = Some (5, 2, CHR ''m'')\<rparr>"
  have ok: "list_all (\<lambda>(sp, sep). spec_ok sp \<and> sep \<noteq> [] \<and> list_all filter_sep sep) [(?rig, '', ''), (?gui, '' '')]"
    by (simp add: spec_ok_def filter_sep_def isspace_def rate_factor_def)
  have "show_nat 5 = ''5'' \<and> show_nat 2 = ''2''" by code_simp
  with level_setting_roundtrip [OF ok, of "[]"] show ?thesis
    by (simp add: show_spec_def log_priority_to_str_def log_priorities_def spec_filters_def spec_filter_def rate_factor_def)
qed

end
