(* ===== verification/Logger.thy ===== *)
theory Logger
  imports Log_Filter Config_State
begin

text \<open>
  The logger of \<open>logger.c\<close> itself: \<open>Log\<close>, which queues a message or delivers it to the
  callbacks and the output streams, the list of callbacks, the periodic drain of the queue,
  and start and shutdown, as built without \<open>USE_EEPROM\<close>.

  The state holds the globals of the file and the part of the world they read: the clocks, and
  whether the lock of the queue is free. What is written to a stream is appended to
  \<open>lg_out\<close>, calls of callbacks to \<open>lg_calls\<close>. A format with its arguments is represented by the text it
  prints, \<open>NULL\<close> where \<open>vsnprintf\<close> reports an error. \<open>fnmatch\<close>, the formatting of local time
  and the callbacks are the environment \<open>log_env\<close>; a callback may change the logger. The
  callbacks are blocks of a heap.
\<close>

subsection \<open>State\<close>

datatype stream = Stdout | Stderr | Opened nat

type_synonym message = "string ptr"

abbreviation LOG_CALLBACK_RAW :: int where "LOG_CALLBACK_RAW \<equiv> 0"
abbreviation LOG_CALLBACK_FILTERED :: int where "LOG_CALLBACK_FILTERED \<equiv> 1"

record log_callback =
  cb_callback :: nat
  cb_policy :: int
  cb_next :: "nat ptr"

record logger =
  lg_filters :: "log_filter list"
  lg_slots :: "log_rate_slot list"
  lg_heap :: "log_callback heap"
  lg_callbacks :: "nat ptr"
  lg_raw :: u32
  lg_queue :: "ra_log_queue ptr"
  lg_enabled :: bool
  lg_owner_valid :: bool
  lg_source :: "nat ptr option"
  lg_reported :: u64
  lg_fp :: "stream ptr"
  lg_stdout :: bool
  lg_tui :: bool
  lg_show_ts :: bool
  lg_timestamp :: string
  lg_last_ts :: int
  lg_now :: int
  lg_clock :: "int ptr"
  lg_realtime :: timestamp
  lg_lock :: bool
  lg_out :: "(stream \<times> string) list"
  lg_calls :: "(nat \<times> logpriority \<times> string) list"

record log_env =
  le_fnmatch :: "string \<Rightarrow> string \<Rightarrow> bool"
  le_localtime :: "int \<Rightarrow> string ptr"
  le_invoke :: "nat \<Rightarrow> logpriority \<Rightarrow> string \<Rightarrow> message \<Rightarrow> timestamp option \<Rightarrow> logger \<Rightarrow> alloc \<Rightarrow> (logger \<times> alloc) comp"

abbreviation NL :: string where "NL \<equiv> [CHR 0x0A]"

definition emit :: "stream \<Rightarrow> string \<Rightarrow> logger \<Rightarrow> logger" where
  "emit stream s l = l\<lparr>lg_out := lg_out l @ [(stream, s)]\<rparr>"

subsection \<open>Callbacks\<close>

text \<open>The search for the end of the list.\<close>

partial_function (option) cb_last :: "nat ptr \<Rightarrow> log_callback heap \<Rightarrow> nat ptr comp" where
  "cb_last i h =
     do {
       n \<leftarrow> h_read i h;
       if cb_next n = NULL then Some i else cb_last (cb_next n) h
     }"

definition log_add_callback_token :: "nat \<Rightarrow> int \<Rightarrow> logger \<Rightarrow> alloc \<Rightarrow> (nat ptr \<times> logger \<times> alloc) comp" where
  "log_add_callback_token callback policy l a =
     (if policy \<noteq> LOG_CALLBACK_RAW \<and> policy \<noteq> LOG_CALLBACK_FILTERED then Some (NULL, l, a)
      else let (ok, a) = malloc_ok a in
      if \<not> ok then Some (NULL, emit Stderr (''OOM in log_set_callback!'' @ NL) l, a)
      else
        let (new, h) = h_new \<lparr>cb_callback = callback, cb_policy = policy, cb_next = NULL\<rparr> (lg_heap l);
            l = l\<lparr>lg_heap := h\<rparr>
        in do {
          l \<leftarrow> (case lg_callbacks l of
                  None \<Rightarrow> Some (l\<lparr>lg_callbacks := Some new\<rparr>)
                | Some first \<Rightarrow>
                    do {
                      last \<leftarrow> cb_last (Some first) h;
                      h \<leftarrow> h_write last (\<lambda>n. n\<lparr>cb_next := Some new\<rparr>) h;
                      Some (l\<lparr>lg_heap := h\<rparr>)
                    });
          Some (Some new, if policy = LOG_CALLBACK_RAW then l\<lparr>lg_raw := lg_raw l + 1\<rparr> else l, a)
        })"

definition log_add_callback :: "nat \<Rightarrow> int \<Rightarrow> logger \<Rightarrow> alloc \<Rightarrow> (bool \<times> logger \<times> alloc) comp" where
  "log_add_callback callback policy l a =
     do { (p, l, a) \<leftarrow> log_add_callback_token callback policy l a; Some (p \<noteq> NULL, l, a) }"

partial_function (option) remove_loop :: "nat ptr \<Rightarrow> nat ptr \<Rightarrow> nat ptr \<Rightarrow> logger \<Rightarrow> (bool \<times> logger) comp" where
  "remove_loop token prev i l =
     (if i = NULL then Some (False, l)
      else do {
        n \<leftarrow> h_read i (lg_heap l);
        if i = token then
          do {
            l \<leftarrow> (if prev \<noteq> NULL
                  then do { h \<leftarrow> h_write prev (\<lambda>m. m\<lparr>cb_next := cb_next n\<rparr>) (lg_heap l); Some (l\<lparr>lg_heap := h\<rparr>) }
                  else Some (l\<lparr>lg_callbacks := cb_next n\<rparr>));
            l \<leftarrow> Some (if cb_policy n = LOG_CALLBACK_RAW then l\<lparr>lg_raw := lg_raw l - 1\<rparr> else l);
            h \<leftarrow> h_free i (lg_heap l);
            Some (True, l\<lparr>lg_heap := h\<rparr>)
          }
        else remove_loop token i (cb_next n) l
      })"

definition log_remove_callback :: "nat ptr \<Rightarrow> logger \<Rightarrow> (bool \<times> logger) comp" where
  "log_remove_callback token l = remove_loop token NULL (lg_callbacks l) l"

text \<open>The loop of \<open>Log\<close> over the callbacks; a callback that is \<open>NULL\<close> is 0.\<close>

partial_function (option) cb_loop ::
    "log_env \<Rightarrow> timestamp option \<Rightarrow> bool \<Rightarrow> logpriority \<Rightarrow> string \<Rightarrow> message \<Rightarrow> nat ptr \<Rightarrow> logger \<Rightarrow> alloc \<Rightarrow> (logger \<times> alloc) comp" where
  "cb_loop env delivery allowed priority subsys msg cb l a =
     (if cb = NULL then Some (l, a)
      else do {
        n \<leftarrow> h_read cb (lg_heap l);
        (l, a) \<leftarrow> (if cb_callback n \<noteq> 0 \<and> (cb_policy n = LOG_CALLBACK_RAW \<or> allowed)
                  then le_invoke env (cb_callback n) priority subsys msg delivery
                         (l\<lparr>lg_calls := lg_calls l @ [(cb_callback n, priority, subsys)]\<rparr>) a
                  else Some (l, a));
        n \<leftarrow> h_read cb (lg_heap l);
        cb_loop env delivery allowed priority subsys msg (cb_next n) l a
      })"

subsection \<open>Log\<close>

text \<open>\<open>strftime\<close> into 64 bytes; 0 bytes where the text is empty or does not fit.\<close>

definition update_timestamp :: "log_env \<Rightarrow> logger \<Rightarrow> int \<times> logger" where
  "update_timestamp env l =
     (if lg_last_ts l \<ge> lg_now l then (0, l)
      else
        let l = l\<lparr>lg_last_ts := lg_now l, lg_timestamp := []\<rparr>
        in case le_localtime env (lg_now l) of
             None \<Rightarrow> (1, l)
           | Some s \<Rightarrow>
               (0, l\<lparr>lg_timestamp :=
                  (if s = [] \<or> length s \<ge> 64 then take 63 (''<'' @ show_int (lg_now l mod 2 ^ 64) @ ''>'') else s)\<rparr>))"

definition log_shown :: "log_env \<Rightarrow> logger \<Rightarrow> string \<Rightarrow> logpriority \<Rightarrow> bool" where
  "log_shown env l subsys priority \<longleftrightarrow> \<not> debug_filter (le_fnmatch env) (lg_filters l) (Some subsys) priority"

text \<open>Whether a message passes its filter and its rate, and the summary due with it.\<close>

definition log_allowed :: "log_env \<Rightarrow> logpriority \<Rightarrow> string \<Rightarrow> logger \<Rightarrow> bool \<times> u32 \<times> logger" where
  "log_allowed env priority subsys l =
     (if \<not> log_shown env l subsys priority then (False, 0, l)
      else case log_matching_filter (le_fnmatch env) (lg_filters l) subsys of
        None \<Rightarrow> (True, 0, l)
      | Some f \<Rightarrow>
          (let (ok, suppressed, slots) =
             log_rate_allowed (lg_clock l) (lg_slots l) subsys priority (lf_rate_count f) (lf_rate_seconds f)
           in (ok, suppressed, l\<lparr>lg_slots := slots\<rparr>)))"

text \<open>The time printed with a message; a text that does not fit leaves the buffer undefined.\<close>

definition log_time :: "log_env \<Rightarrow> timestamp option \<Rightarrow> logger \<Rightarrow> (string \<times> logger) comp" where
  "log_time env delivery l =
     (if \<not> lg_show_ts l then Some ([], l)
      else case delivery of
        None \<Rightarrow> (let (_, l) = update_timestamp env l in Some (lg_timestamp l, l))
      | Some t \<Rightarrow>
          (case le_localtime env (fst t) of
             None \<Rightarrow> Some ([], l)
           | Some s \<Rightarrow> if length s \<ge> 64 then None else Some (s, l)))"

definition log_line :: "bool \<Rightarrow> string \<Rightarrow> string \<Rightarrow> logpriority \<Rightarrow> string \<Rightarrow> u32 \<Rightarrow> string" where
  "log_line show_ts ts subsys priority msg suppressed =
     (if show_ts then ''['' @ ts @ ''] '' else []) @ ''<'' @ subsys @ ''@'' @ log_priority_to_str priority @ ''> '' @ msg @
     (if suppressed \<noteq> 0
      then '' [rate limit: '' @ show_nat (unat suppressed) @ '' earlier messages suppressed]'' else []) @ NL"

definition destinations :: "logger \<Rightarrow> stream list" where
  "destinations l =
     (case lg_fp l of None \<Rightarrow> [] | Some st \<Rightarrow> [st]) @
     (if \<not> lg_tui l \<and> (lg_fp l = NULL \<or> lg_stdout l) \<and> lg_fp l \<noteq> Some Stdout then [Stdout] else [])"

definition log_deliver ::
    "log_env \<Rightarrow> timestamp option \<Rightarrow> logpriority \<Rightarrow> string \<Rightarrow> message \<Rightarrow> logger \<Rightarrow> alloc \<Rightarrow> (logger \<times> alloc) comp" where
  "log_deliver env delivery priority subsys msg l a =
     (let (allowed, suppressed, l) = log_allowed env priority subsys l in
      do {
        (l, a) \<leftarrow> (if priority \<noteq> LOG_CRAZY
                  then cb_loop env delivery allowed priority subsys msg (lg_callbacks l) l a
                  else Some (l, a));
        if \<not> allowed then Some (l, a)
        else do {
          (ts, l) \<leftarrow> log_time env delivery l;
          case msg of
            None \<Rightarrow> Some (l, a)
          | Some text \<Rightarrow>
              let (ok, a) = malloc_ok a in
              if \<not> ok then Some (emit Stderr (''Log: out of memory formatting '' @ subsys @ '' message'' @ NL) l, a)
              else Some (fold (\<lambda>st. emit st (log_line (lg_show_ts l) ts subsys priority text suppressed)) (destinations l) l, a)
        }
      })"

definition Log ::
    "log_env \<Rightarrow> timestamp option \<Rightarrow> logpriority \<Rightarrow> string ptr \<Rightarrow> message ptr \<Rightarrow> logger \<Rightarrow> alloc \<Rightarrow> (logger \<times> alloc) comp" where
  "Log env delivery priority subsys fmt l a =
     (case (subsys, fmt) of
        (Some s, Some msg) \<Rightarrow>
          if ra_log_queue_delivery_time delivery = None \<and> lg_owner_valid l then
            (if lg_enabled l \<and> (log_shown env l s priority \<or> lg_raw l \<noteq> 0) then
               (case msg of
                  None \<Rightarrow> None
                | Some text \<Rightarrow>
                    let (_, q) = ra_log_queue_push (lg_queue l) (lg_lock l) (lg_realtime l) priority (Some s) (Some (take 1023 text))
                    in Some (l\<lparr>lg_queue := q\<rparr>, a))
             else Some (l, a))
          else log_deliver env delivery priority s msg l a
      | _ \<Rightarrow> Some (emit Stderr (''Invalid Log request: No subsys/fmt'' @ NL) l, a))"

subsection \<open>The drain\<close>

text \<open>\<open>ra_log_queue_drain\<close> with the logger behind \<open>Log\<close>.\<close>

fun log_drain :: "log_env \<Rightarrow> nat \<Rightarrow> logger \<Rightarrow> alloc \<Rightarrow> (nat \<times> logger \<times> alloc) comp" where
  "log_drain env 0 l a = Some (0, l, a)"
| "log_drain env (Suc left) l a =
     (case lg_queue l of
        None \<Rightarrow> Some (0, l, a)
      | Some q \<Rightarrow>
          (case pop_record q of
             None \<Rightarrow> Some (0, l, a)
           | Some (item, q) \<Rightarrow>
               do {
                 (l, a) \<leftarrow> Log env (Some (lr_submitted item)) (lr_level item) (Some (lr_subsystem item))
                            (Some (Some (lr_message item))) (l\<lparr>lg_queue := Some q\<rparr>) a;
                 (n, l, a) \<leftarrow> log_drain env left l a;
                 Some (Suc n, l, a)
               }))"

definition logger_set_drain_context :: "nat ptr \<Rightarrow> logger \<Rightarrow> logger" where
  "logger_set_drain_context context l = l\<lparr>lg_source := (if lg_enabled l then Some context else None)\<rparr>"

definition show_u64 :: "u64 \<Rightarrow> string" where
  "show_u64 x = show_nat (unat x)"

text \<open>The timer: \<open>drain_us\<close> is the time the drain takes. The result is whether the timer goes on.\<close>

definition logger_drain_tick :: "log_env \<Rightarrow> int \<Rightarrow> logger \<Rightarrow> alloc \<Rightarrow> (bool \<times> logger \<times> alloc) comp" where
  "logger_drain_tick env drain_us l a =
     (if \<not> lg_enabled l then Some (False, l, a)
      else
        let backlog = ra_log_queue_depth (lg_queue l) in
        do {
          (processed, l, a) \<leftarrow> log_drain env 512 l a;
          (l, a) \<leftarrow> (if drain_us > 40000
                    then Log env None LOG_WARN (Some ''logger'')
                      (Some (Some (''Slow worker log drain: '' @ show_nat processed @ '' records in '' @ show_int drain_us @
                         ''us; backlog-before='' @ show_u64 backlog @ '' backlog-after='' @ show_u64 (ra_log_queue_depth (lg_queue l))))) l a
                    else Some (l, a));
          let dropped = ra_log_queue_dropped (lg_queue l);
              delta = dropped - lg_reported l
          in do {
            (l, a) \<leftarrow> (if dropped \<noteq> lg_reported l
                      then Log env None LOG_WARN (Some ''logger'')
                        (Some (Some (''Worker log queue dropped '' @ show_u64 delta @ '' records (total '' @ show_u64 dropped @
                           ''; contention='' @ show_u64 (ra_log_queue_contention_dropped (lg_queue l)) @
                           '' full='' @ show_u64 (ra_log_queue_full_dropped (lg_queue l)) @ '')'')))
                        (l\<lparr>lg_reported := dropped\<rparr>) a
                      else Some (l, a));
            Some (True, l, a)
          }
        })"

subsection \<open>Start and shutdown\<close>

definition logger_set_show_timestamp :: "bool \<Rightarrow> logger \<Rightarrow> logger" where
  "logger_set_show_timestamp enabled l = l\<lparr>lg_show_ts := enabled\<rparr>"

text \<open>\<open>opened\<close> is the result of \<open>fopen\<close>.\<close>

definition open_log :: "nat ptr \<Rightarrow> string \<Rightarrow> logger \<Rightarrow> logger" where
  "open_log opened logfile l =
     (if logfile = ''-'' then l\<lparr>lg_fp := Some Stdout\<rparr>
      else if lg_fp l \<noteq> NULL then l
      else case opened of
        Some f \<Rightarrow> l\<lparr>lg_fp := Some (Opened f)\<rparr>
      | None \<Rightarrow>
          (emit Stderr (''Couldn'' @ [CHR 0x27] @ ''t open log file '' @ logfile @ '', falling back to stdout'' @ NL) l)
            \<lparr>lg_fp := Some Stdout\<rparr>)"

definition start_workers :: "bool \<Rightarrow> logger \<Rightarrow> alloc \<Rightarrow> logger \<times> alloc" where
  "start_workers mutex_ok l a =
     (let (q, a) = (if lg_queue l = NULL then ra_log_queue_new 8192 mutex_ok a else (lg_queue l, a));
          l = l\<lparr>lg_queue := q\<rparr>
      in (if lg_queue l \<noteq> NULL \<and> \<not> lg_enabled l
          then logger_set_drain_context NULL
                 (l\<lparr>lg_owner_valid := True, lg_reported := ra_log_queue_dropped (lg_queue l), lg_enabled := True\<rparr>)
          else l, a))"

definition logger_init ::
    "cfg_globals \<Rightarrow> nat ptr \<Rightarrow> bool \<Rightarrow> string \<Rightarrow> bool \<Rightarrow> logger \<Rightarrow> logger proc" where
  "logger_init g opened mutex_ok logfile tui_mode l a =
     do {
       show_ts \<leftarrow> cfg_get_bool g ''log.show-ts'' True;
       let l = open_log opened logfile (l\<lparr>lg_show_ts := show_ts, lg_tui := tui_mode\<rparr>) in
       do {
         workers \<leftarrow> cfg_get_bool g ''log.async-workers'' True;
         let (l, a) = (if workers then start_workers mutex_ok l a else (l, a)) in
         do {
           (level, a) \<leftarrow> cfg_get_exp g ''log.level'' a;
           andthen (load_log_filters_from_config level (lg_filters l)) (\<lambda>fs. ret (l\<lparr>lg_filters := fs\<rparr>)) a
         }
       }
     }"

partial_function (option) free_callbacks :: "nat ptr \<Rightarrow> log_callback heap \<Rightarrow> log_callback heap comp" where
  "free_callbacks p h =
     (if p = NULL then Some h
      else do {
        n \<leftarrow> h_read p h;
        h \<leftarrow> h_free p h;
        free_callbacks (cb_next n) h
      })"

definition logger_end :: "log_env \<Rightarrow> logger \<Rightarrow> alloc \<Rightarrow> (logger \<times> alloc) comp" where
  "logger_end env l a =
     do {
       (l, a) \<leftarrow> (if lg_queue l \<noteq> NULL
                 then do {
                   (_, l, a) \<leftarrow> log_drain env (2 ^ 64 - 1) (l\<lparr>lg_enabled := False, lg_source := None\<rparr>) a;
                   Some (l, a)
                 }
                 else Some (l, a));
       h \<leftarrow> free_callbacks (lg_callbacks l) (lg_heap l);
       let (filters, slots) = log_clear_filters in
       Some (l\<lparr>lg_fp := NULL, lg_heap := h, lg_callbacks := NULL, lg_raw := 0, lg_filters := filters, lg_slots := slots\<rparr>, a)
     }"

end
