(* ===== verification/Logger_Properties.thy ===== *)
theory Logger_Properties
  imports Logger
begin

text \<open>
  What the logger promises: the registry of callbacks is a list, a delivered message reaches
  every callback that asked for it in order, and a message logged while the queue is used
  is printed by the drain, in order and unchanged up to the size of a record.
\<close>

subsection \<open>The list of callbacks\<close>

definition is_raw :: "log_callback heap \<Rightarrow> nat \<Rightarrow> bool" where
  "is_raw h p \<longleftrightarrow> (case h_cells h p of None \<Rightarrow> False | Some n \<Rightarrow> cb_policy n = LOG_CALLBACK_RAW)"

definition raw_count :: "log_callback heap \<Rightarrow> nat list \<Rightarrow> nat" where
  "raw_count h ps = length (filter (is_raw h) ps)"

definition callbacks_ok :: "logger \<Rightarrow> nat list \<Rightarrow> bool" where
  "callbacks_ok l ps \<longleftrightarrow>
     chain cb_next (h_cells (lg_heap l)) (lg_callbacks l) ps NULL \<and> distinct ps \<and> heap_ok (lg_heap l) \<and>
     lg_raw l = of_nat (raw_count (lg_heap l) ps)"

text \<open>What a callback was registered with.\<close>

definition cb_entry :: "log_callback heap \<Rightarrow> nat \<Rightarrow> (nat \<times> int) option" where
  "cb_entry h p = map_option (\<lambda>n. (cb_callback n, cb_policy n)) (h_cells h p)"

lemma is_raw_entry: "is_raw h p \<longleftrightarrow> (case cb_entry h p of None \<Rightarrow> False | Some (_, pol) \<Rightarrow> pol = LOG_CALLBACK_RAW)"
  by (simp add: is_raw_def cb_entry_def split: option.split)

lemma raw_count_cong: "(\<And>p. p \<in> set ps \<Longrightarrow> cb_entry h p = cb_entry h' p) \<Longrightarrow> raw_count h ps = raw_count h' ps"
  unfolding raw_count_def by (intro arg_cong [where f = length] filter_cong) (simp_all add: is_raw_entry)

lemma cb_last_chain:
  "chain cb_next (h_cells h) p ps NULL \<Longrightarrow> ps \<noteq> [] \<Longrightarrow> cb_last p h = Some (Some (last ps))"
proof (induction ps arbitrary: p)
  case (Cons x ps)
  then obtain n where n: "p = Some x" "h_cells h x = Some n" "chain cb_next (h_cells h) (cb_next n) ps NULL" by auto
  show ?case
  proof (cases ps)
    case Nil
    then show ?thesis using n by (subst cb_last.simps) simp
  next
    case (Cons y ys)
    then have "cb_next n \<noteq> NULL" using n(3) by auto
    then show ?thesis using n Cons Cons.IH [OF n(3)] by (subst cb_last.simps) simp
  qed
qed simp

lemma callback_add:
  assumes ok: "callbacks_ok l ps" and pol: "policy = LOG_CALLBACK_RAW \<or> policy = LOG_CALLBACK_FILTERED"
    and mem: "malloc_ok a = (True, a')"
  shows "\<exists>p l'. log_add_callback_token cb policy l a = Some (Some p, l', a') \<and> callbacks_ok l' (ps @ [p]) \<and> p \<notin> set ps \<and>
    cb_entry (lg_heap l') p = Some (cb, policy) \<and> (\<forall>q. q = p \<or> cb_entry (lg_heap l') q = cb_entry (lg_heap l) q)"
proof -
  let ?new = "h_next (lg_heap l)" and ?n = "\<lparr>cb_callback = cb, cb_policy = policy, cb_next = NULL\<rparr>"
  let ?h = "(lg_heap l)\<lparr>h_cells := (h_cells (lg_heap l))(h_next (lg_heap l) \<mapsto> ?n), h_next := Suc (h_next (lg_heap l))\<rparr>"
  have c: "chain cb_next (h_cells (lg_heap l)) (lg_callbacks l) ps NULL" "distinct ps" "heap_ok (lg_heap l)"
    "lg_raw l = of_nat (raw_count (lg_heap l) ps)" using ok by (simp_all add: callbacks_ok_def)
  have fresh: "?new \<notin> set ps" using chain_cells [OF c(1), of ?new] heap_ok_next [OF c(3)] by auto
  have ch: "chain cb_next (h_cells ?h) (lg_callbacks l) ps NULL" using c(1) fresh by (simp add: chain_frame)
  have heap: "heap_ok ?h" using c(3) by (simp add: heap_ok_def)
  have count: "raw_count h (ps @ [?new]) = raw_count (lg_heap l) ps + of_bool (policy = LOG_CALLBACK_RAW)"
    if "\<And>q. q \<noteq> ?new \<Longrightarrow> cb_entry h q = cb_entry (lg_heap l) q" "cb_entry h ?new = Some (cb, policy)" for h
  proof -
    have "raw_count h ps = raw_count (lg_heap l) ps" using that(1) fresh by (intro raw_count_cong) metis
    then show ?thesis using that(2) by (simp add: raw_count_def is_raw_entry)
  qed
  show ?thesis
  proof (cases ps rule: rev_cases)
    case Nil
    let ?l = "l\<lparr>lg_heap := ?h, lg_callbacks := Some ?new, lg_raw := lg_raw l + of_bool (policy = LOG_CALLBACK_RAW)\<rparr>"
    have "cb_entry ?h q = cb_entry (lg_heap l) q" if "q \<noteq> ?new" for q using that by (simp add: cb_entry_def)
    moreover have "cb_entry ?h ?new = Some (cb, policy)" by (simp add: cb_entry_def)
    ultimately have "callbacks_ok ?l (ps @ [?new])" using Nil heap c(4) count [of ?h] by (simp add: callbacks_ok_def)
    moreover have "log_add_callback_token cb policy l a = Some (Some ?new, ?l, a')"
      using pol mem c(1) Nil by (auto simp: log_add_callback_token_def h_new_def)
    ultimately show ?thesis using fresh by (intro exI [of _ ?new] exI [of _ ?l]) (simp add: cb_entry_def)
  next
    case (snoc qs x)
    obtain m where m: "h_cells (lg_heap l) x = Some m" using chain_cells [OF c(1), of x] snoc by auto
    have x: "x \<noteq> ?new" using fresh snoc by auto
    let ?h' = "?h\<lparr>h_cells := (h_cells ?h)(x \<mapsto> m\<lparr>cb_next := Some ?new\<rparr>)\<rparr>"
    let ?l = "l\<lparr>lg_heap := ?h', lg_raw := lg_raw l + of_bool (policy = LOG_CALLBACK_RAW)\<rparr>"
    obtain first where first: "lg_callbacks l = Some first" using c(1) snoc by (cases qs) auto
    have "cb_last (Some first) ?h = Some (Some x)" using cb_last_chain [OF ch] snoc first by simp
    then have add: "log_add_callback_token cb policy l a = Some (Some ?new, ?l, a')"
      using pol mem first m x by (auto simp: log_add_callback_token_def h_new_def h_write_def)
    have "chain cb_next (h_cells ?h') (lg_callbacks l) (qs @ [x, ?new]) NULL"
      using chain_snoc [of cb_next "h_cells ?h" "lg_callbacks l" qs x ?new ?n "m\<lparr>cb_next := Some ?new\<rparr>"] ch c(2) fresh snoc
      by simp
    moreover have keep: "cb_entry ?h' q = cb_entry (lg_heap l) q" if "q \<noteq> ?new" for q
      using that m by (simp add: cb_entry_def)
    moreover have new: "cb_entry ?h' ?new = Some (cb, policy)" using x by (simp add: cb_entry_def)
    moreover have "heap_ok ?h'" using heap x m c(3) heap_ok_alloc [OF c(3), of x] by (auto simp: heap_ok_def)
    moreover have "raw_count ?h' (ps @ [?new]) = raw_count (lg_heap l) ps + of_bool (policy = LOG_CALLBACK_RAW)"
      using count [OF keep new] .
    ultimately have "callbacks_ok ?l (ps @ [?new])" using c(2,4) fresh snoc by (simp add: callbacks_ok_def)
    with add keep new fresh show ?thesis by (intro exI [of _ ?new] exI [of _ ?l] conjI allI) auto
  qed
qed

text \<open>Unlinking \<open>x\<close> from a list: behind its predecessor, or at the head.\<close>

lemma chain_unlink:
  assumes "chain cb_next c p (ys @ [y, x] @ xs) NULL" and "distinct (ys @ [y, x] @ xs)" and "c x = Some n" and "c y = Some m"
  shows "chain cb_next (c(y \<mapsto> m\<lparr>cb_next := cb_next n\<rparr>, x := None)) p (ys @ [y] @ xs) NULL"
proof -
  have "chain cb_next c p ys (Some y)" "chain cb_next c (cb_next n) xs NULL" using assms by (auto simp: chain_append)
  then have "chain cb_next (c(y \<mapsto> m\<lparr>cb_next := cb_next n\<rparr>, x := None)) p ys (Some y)"
    "chain cb_next (c(y \<mapsto> m\<lparr>cb_next := cb_next n\<rparr>, x := None)) (cb_next n) xs NULL"
    using assms(2) by (simp_all add: chain_frame)
  then show ?thesis using assms(2) by (auto simp: chain_append)
qed

lemma raw_count_remove:
  assumes "distinct (qs @ x # xs)" and "h_cells h x = Some n" and "\<And>q. q \<noteq> x \<Longrightarrow> cb_entry h' q = cb_entry h q"
  shows "of_nat (raw_count h' (qs @ xs)) = (of_nat (raw_count h (qs @ x # xs)) - of_bool (cb_policy n = LOG_CALLBACK_RAW) :: u32)"
proof -
  have "raw_count h' (qs @ xs) = raw_count h (qs @ xs)" using assms(1,3) by (intro raw_count_cong) (metis Un_iff distinct_append IntI distinct.simps(2) empty_iff list.set_intros(1) set_append)
  then show ?thesis using assms(2) by (simp add: raw_count_def is_raw_def)
qed

lemma remove_loop_spec:
  assumes "callbacks_ok l (qs @ rs)" and "p \<notin> set qs"
    and "i = (case rs of [] \<Rightarrow> NULL | r # _ \<Rightarrow> Some r)" and "prev = (if qs = [] then NULL else Some (last qs))"
  shows "\<exists>l'. remove_loop (Some p) prev i l = Some (p \<in> set rs, l') \<and> callbacks_ok l' (qs @ remove1 p rs) \<and>
    (\<forall>q. q = p \<or> cb_entry (lg_heap l') q = cb_entry (lg_heap l) q)"
  using assms
proof (induction rs arbitrary: qs i prev)
  case Nil
  then show ?case by (subst remove_loop.simps) simp
next
  case (Cons x xs)
  let ?c = "h_cells (lg_heap l)"
  have c: "chain cb_next ?c (lg_callbacks l) (qs @ x # xs) NULL" "distinct (qs @ x # xs)" "heap_ok (lg_heap l)"
    "lg_raw l = of_nat (raw_count (lg_heap l) (qs @ x # xs))" using Cons.prems(1) by (simp_all add: callbacks_ok_def)
  obtain n where n: "?c x = Some n" "chain cb_next ?c (cb_next n) xs NULL" using c(1) by (auto simp: chain_append)
  show ?case
  proof (cases "x = p")
    case False
    have "callbacks_ok l ((qs @ [x]) @ xs)" "p \<notin> set (qs @ [x])" using Cons.prems(1,2) False by simp_all
    from Cons.IH [OF this, of "cb_next n" "Some x"] chain_head [OF n(2)] Cons.prems(3) n(1) False
    show ?thesis by (subst remove_loop.simps) simp
  next
    case True
    let ?raw = "lg_raw l - of_bool (cb_policy n = LOG_CALLBACK_RAW)"
    have raw: "?raw = of_nat (raw_count h (qs @ xs))" if "\<And>q. q \<noteq> x \<Longrightarrow> cb_entry h q = cb_entry (lg_heap l) q" for h
      using raw_count_remove [OF c(2) n(1) that] c(4) by simp
    show ?thesis
    proof (cases qs rule: rev_cases)
      case Nil
      let ?h = "(lg_heap l)\<lparr>h_cells := ?c(x := None)\<rparr>"
      let ?l = "l\<lparr>lg_heap := ?h, lg_callbacks := cb_next n, lg_raw := ?raw\<rparr>"
      have "remove_loop (Some p) prev i l = Some (True, ?l)"
        using True Nil Cons.prems(3,4) n(1) by (subst remove_loop.simps) (simp add: h_free_def)
      moreover have keep: "cb_entry ?h q = cb_entry (lg_heap l) q" if "q \<noteq> x" for q using that by (simp add: cb_entry_def)
      moreover have "callbacks_ok ?l xs"
        using n(2) c Nil raw [of ?h] keep by (simp add: callbacks_ok_def chain_frame heap_ok_def)
      ultimately show ?thesis using True Nil by (intro exI [of _ ?l] conjI allI) auto
    next
      case (snoc ys y)
      obtain m where m: "?c y = Some m" using chain_cells [OF c(1), of y] snoc by auto
      have y: "y \<noteq> x" using c(2) snoc by auto
      let ?h = "(lg_heap l)\<lparr>h_cells := ?c(y \<mapsto> m\<lparr>cb_next := cb_next n\<rparr>, x := None)\<rparr>"
      let ?l = "l\<lparr>lg_heap := ?h, lg_raw := ?raw\<rparr>"
      have "remove_loop (Some p) prev i l = Some (True, ?l)"
        using True snoc Cons.prems(3,4) n(1) m y by (subst remove_loop.simps) (simp add: h_free_def h_write_def)
      moreover have keep: "cb_entry ?h q = cb_entry (lg_heap l) q" if "q \<noteq> x" for q using that m by (simp add: cb_entry_def)
      moreover have "chain cb_next (h_cells ?h) (lg_callbacks l) (qs @ xs) NULL"
        using chain_unlink [of ?c "lg_callbacks l" ys y x xs n m] c(1,2) n(1) m snoc by simp
      then have "callbacks_ok ?l (qs @ xs)"
        using c m raw [of ?h] keep heap_ok_alloc [OF c(3), of y] by (auto simp: callbacks_ok_def heap_ok_def)
      ultimately show ?thesis using True snoc by (intro exI [of _ ?l] conjI allI) auto
    qed
  qed
qed

text \<open>The callbacks form a list. Registering appends a callback, or changes nothing when memory
  runs out; removing a token takes exactly that registration out and reports whether there
  was one. The counter of raw subscribers is the number of raw callbacks at every moment, and
  other registrations keep their function and policy.\<close>

theorem callback_registry_refines:
  assumes "callbacks_ok l ps"
  shows "(\<exists>l' p. log_add_callback_token cb (if raw then LOG_CALLBACK_RAW else LOG_CALLBACK_FILTERED) l a =
        Some (if fst (malloc_ok a) then Some p else NULL, l', snd (malloc_ok a)) \<and>
      (if fst (malloc_ok a) then callbacks_ok l' (ps @ [p]) \<and> p \<notin> set ps \<and> fst (the (cb_entry (lg_heap l') p)) = cb
       else callbacks_ok l' ps)) \<and>
    (\<exists>l'. log_remove_callback (Some p) l = Some (p \<in> set ps, l') \<and> callbacks_ok l' (remove1 p ps) \<and>
      (\<forall>q. q = p \<or> cb_entry (lg_heap l') q = cb_entry (lg_heap l) q))"
proof (intro conjI)
  let ?pol = "if raw then LOG_CALLBACK_RAW else LOG_CALLBACK_FILTERED"
  obtain ok a' where m: "malloc_ok a = (ok, a')" by (cases "malloc_ok a")
  show "\<exists>l' p. log_add_callback_token cb ?pol l a = Some (if fst (malloc_ok a) then Some p else NULL, l', snd (malloc_ok a)) \<and>
      (if fst (malloc_ok a) then callbacks_ok l' (ps @ [p]) \<and> p \<notin> set ps \<and> fst (the (cb_entry (lg_heap l') p)) = cb
       else callbacks_ok l' ps)"
  proof (cases ok)
    case True
    have "?pol = LOG_CALLBACK_RAW \<or> ?pol = LOG_CALLBACK_FILTERED" by simp
    from callback_add [OF assms this, of a a' cb] True m show ?thesis by (fastforce simp del: neq0_conv)
  next
    case False
    then show ?thesis using assms m by (auto simp: log_add_callback_token_def emit_def callbacks_ok_def)
  qed
  have "lg_callbacks l = (case ps of [] \<Rightarrow> NULL | r # _ \<Rightarrow> Some r)"
    using assms by (auto simp: callbacks_ok_def dest: chain_head)
  from remove_loop_spec [of l "[]" ps p, OF _ _ this] assms
  show "\<exists>l'. log_remove_callback (Some p) l = Some (p \<in> set ps, l') \<and> callbacks_ok l' (remove1 p ps) \<and>
      (\<forall>q. q = p \<or> cb_entry (lg_heap l') q = cb_entry (lg_heap l) q)"
    by (simp add: log_remove_callback_def)
qed

text \<open>The globals as the program starts with them.\<close>

definition fresh_logger :: logger where
  "fresh_logger = \<lparr>lg_filters = [], lg_slots = replicate LOG_RATE_SLOTS zero_slot, lg_heap = \<lparr>h_cells = Map.empty, h_next = 0\<rparr>,
     lg_callbacks = NULL, lg_raw = 0, lg_queue = NULL, lg_enabled = False, lg_owner_valid = False, lg_source = None,
     lg_reported = 0, lg_fp = NULL, lg_stdout = True, lg_tui = False, lg_show_ts = False, lg_timestamp = [],
     lg_last_ts = 0, lg_now = 0, lg_clock = Some 0, lg_realtime = (0, 0), lg_lock = True, lg_out = [], lg_calls = []\<rparr>"

lemma fresh_callbacks: "callbacks_ok fresh_logger []"
  by (simp add: callbacks_ok_def fresh_logger_def heap_ok_def raw_count_def)

theorem callback_registry_refines_witness:
  "\<exists>l p. log_add_callback_token 7 LOG_CALLBACK_RAW fresh_logger [] = Some (Some p, l, []) \<and>
     callbacks_ok l [p] \<and> fst (the (cb_entry (lg_heap l) p)) = 7"
  using callback_registry_refines [OF fresh_callbacks, where raw = True and a = "[]" and cb = 7] by simp

subsection \<open>Delivery to the callbacks\<close>

text \<open>Callbacks that leave the list of callbacks and the record of calls alone.\<close>

definition calm :: "log_env \<Rightarrow> bool" where
  "calm env \<longleftrightarrow>
     (\<forall>cb prio subsys msg delivery l a. \<exists>l' a'. le_invoke env cb prio subsys msg delivery l a = Some (l', a') \<and>
        lg_heap l' = lg_heap l \<and> lg_callbacks l' = lg_callbacks l \<and> lg_calls l' = lg_calls l)"

definition due :: "bool \<Rightarrow> logpriority \<Rightarrow> string \<Rightarrow> (nat \<times> int) list \<Rightarrow> (nat \<times> logpriority \<times> string) list" where
  "due allowed prio subsys cbs =
     map (\<lambda>(cb, _). (cb, prio, subsys)) (filter (\<lambda>(cb, pol). cb \<noteq> 0 \<and> (pol = LOG_CALLBACK_RAW \<or> allowed)) cbs)"

lemma cb_loop_calls:
  assumes "calm env"
  shows "chain cb_next (h_cells (lg_heap l)) cb ps NULL \<Longrightarrow>
    \<exists>l' a'. cb_loop env delivery allowed prio subsys msg cb l a = Some (l', a') \<and> lg_heap l' = lg_heap l \<and>
      lg_callbacks l' = lg_callbacks l \<and>
      lg_calls l' = lg_calls l @ due allowed prio subsys (map (\<lambda>q. the (cb_entry (lg_heap l) q)) ps)"
proof (induction ps arbitrary: cb l a)
  case Nil
  then show ?case by (subst cb_loop.simps) (simp add: due_def)
next
  case (Cons p ps)
  then obtain n where n: "cb = Some p" "h_cells (lg_heap l) p = Some n" "chain cb_next (h_cells (lg_heap l)) (cb_next n) ps NULL"
    by auto
  then have entry: "cb_entry (lg_heap l) p = Some (cb_callback n, cb_policy n)" by (simp add: cb_entry_def)
  show ?case
  proof (cases "cb_callback n \<noteq> 0 \<and> (cb_policy n = LOG_CALLBACK_RAW \<or> allowed)")
    case True
    let ?l = "l\<lparr>lg_calls := lg_calls l @ [(cb_callback n, prio, subsys)]\<rparr>"
    obtain l1 a1 where i: "le_invoke env (cb_callback n) prio subsys msg delivery ?l a = Some (l1, a1)"
        "lg_heap l1 = lg_heap l" "lg_callbacks l1 = lg_callbacks l" "lg_calls l1 = lg_calls ?l"
      using assms [unfolded calm_def, rule_format, of "cb_callback n" prio subsys msg delivery ?l a] by auto
    obtain l' a' where r: "cb_loop env delivery allowed prio subsys msg (cb_next n) l1 a1 = Some (l', a')"
        "lg_heap l' = lg_heap l1" "lg_callbacks l' = lg_callbacks l1"
        "lg_calls l' = lg_calls l1 @ due allowed prio subsys (map (\<lambda>q. the (cb_entry (lg_heap l1) q)) ps)"
      using Cons.IH [of l1 "cb_next n" a1] n(3) i(2) by auto
    then show ?thesis using True i n entry by (subst cb_loop.simps) (auto simp: due_def)
  next
    case False
    then show ?thesis using Cons.IH [OF n(3), of a] n entry by (subst cb_loop.simps) (auto simp: due_def)
  qed
qed

text \<open>Delivery reaches exactly the callbacks that asked for the message, in the order of their
  registration: the raw ones in any case, the filtered ones when the message passes its
  filter and its rate. The exception is \<open>LOG_CRAZY\<close>, which no callback sees.\<close>

theorem delivery_reaches_callbacks:
  assumes "calm env" and "callbacks_ok l ps"
    and "log_deliver env delivery prio subsys msg l a = Some (l', a')"
  shows "lg_calls l' = lg_calls l @
    (if prio = LOG_CRAZY then []
     else due (fst (log_allowed env prio subsys l)) prio subsys (map (\<lambda>q. the (cb_entry (lg_heap l) q)) ps))"
proof -
  obtain allowed suppressed l1 where al: "log_allowed env prio subsys l = (allowed, suppressed, l1)" by (metis prod_cases3)
  then have l1: "lg_heap l1 = lg_heap l" "lg_callbacks l1 = lg_callbacks l" "lg_calls l1 = lg_calls l"
    by (auto simp: log_allowed_def split: if_splits option.splits prod.splits)
  have ch: "chain cb_next (h_cells (lg_heap l1)) (lg_callbacks l1) ps NULL" using assms(2) l1 by (simp add: callbacks_ok_def)
  obtain l2 a2 where l2: "(if prio \<noteq> LOG_CRAZY then cb_loop env delivery allowed prio subsys msg (lg_callbacks l1) l1 a
        else Some (l1, a)) = Some (l2, a2)"
    "lg_calls l2 = lg_calls l @ (if prio = LOG_CRAZY then [] else due allowed prio subsys (map (\<lambda>q. the (cb_entry (lg_heap l) q)) ps))"
    using cb_loop_calls [OF assms(1) ch, of delivery allowed prio subsys msg a] l1 by (cases "prio = LOG_CRAZY") auto
  have emits: "lg_calls (fold (\<lambda>st. emit st (f st)) sts l) = lg_calls l" for f sts and l :: logger
    by (induction sts arbitrary: l) (simp_all add: emit_def)
  have time: "lg_calls l4 = lg_calls l3" if "log_time env delivery l3 = Some (ts, l4)" for ts l3 l4
    using that by (auto simp: log_time_def update_timestamp_def Let_def split: if_splits option.splits)
  from assms(3) al l2(1) have "lg_calls l' = lg_calls l2"
    by (auto simp: log_deliver_def Let_def emits elim!: bind_eq_SomeE split: if_splits option.splits prod.splits
        dest!: time) (auto simp: emit_def)
  with l2(2) al show ?thesis by simp
qed

text \<open>An environment whose callbacks do nothing, and a logger with one raw callback.\<close>

definition quiet_env :: log_env where
  "quiet_env = \<lparr>le_fnmatch = (=), le_localtime = (\<lambda>_. NULL), le_invoke = (\<lambda>_ _ _ _ _ l a. Some (l, a))\<rparr>"

definition one_callback :: "int \<Rightarrow> logger" where
  "one_callback policy = fresh_logger\<lparr>lg_heap := \<lparr>h_cells = [0 \<mapsto> \<lparr>cb_callback = 9, cb_policy = policy, cb_next = NULL\<rparr>], h_next = 1\<rparr>,
     lg_callbacks := Some 0, lg_raw := of_bool (policy = LOG_CALLBACK_RAW)\<rparr>"

lemma one_callback_ok: "callbacks_ok (one_callback policy) [0]"
  by (simp add: one_callback_def fresh_logger_def callbacks_ok_def heap_ok_def raw_count_def is_raw_def)

lemma quiet_calm: "calm quiet_env"
  by (simp add: calm_def quiet_env_def)

theorem delivery_reaches_callbacks_witness:
  "\<exists>l'. log_deliver quiet_env NULL LOG_WARN ''rig'' (Some ''hot'') (one_callback LOG_CALLBACK_FILTERED) [] = Some (l', []) \<and>
     lg_calls l' = [(9, LOG_WARN, ''rig'')]"
proof -
  have al: "log_allowed quiet_env LOG_WARN ''rig'' (one_callback LOG_CALLBACK_FILTERED) =
      (True, 0, one_callback LOG_CALLBACK_FILTERED)"
    by (simp add: log_allowed_def log_shown_def debug_filter_def log_matching_filter_def one_callback_def fresh_logger_def
        less_logpriority_def)
  moreover have "\<exists>l'. log_deliver quiet_env NULL LOG_WARN ''rig'' (Some ''hot'') (one_callback LOG_CALLBACK_FILTERED) [] =
      Some (l', [])"
    unfolding log_deliver_def al
    by (simp add: cb_loop.simps [where cb = "Some _"] cb_loop.simps [where cb = NULL] one_callback_def fresh_logger_def
        quiet_env_def log_time_def)
  then obtain l' where "log_deliver quiet_env NULL LOG_WARN ''rig'' (Some ''hot'') (one_callback LOG_CALLBACK_FILTERED) [] =
      Some (l', [])" by blast
  from delivery_reaches_callbacks [OF quiet_calm one_callback_ok this] al this show ?thesis
    by (simp add: due_def cb_entry_def one_callback_def fresh_logger_def)
qed

text \<open>A callback must not remove itself. When the function of a registered callback removes
  its own registration, the block is freed while \<open>Log\<close> still has to read the next pointer
  from it: delivery has no defined behaviour, for every message the callback is called for.\<close>

theorem callback_removing_itself:
  assumes "callbacks_ok l [p]" and "cb_entry (lg_heap l) p = Some (cb, LOG_CALLBACK_RAW)" and "cb \<noteq> 0" and "prio \<noteq> LOG_CRAZY"
    and "le_invoke env cb = (\<lambda>prio subsys msg delivery l a. do { (_, l) \<leftarrow> log_remove_callback (Some p) l; Some (l, a) })"
  shows "log_deliver env delivery prio subsys msg l a = None"
proof -
  obtain allowed suppressed l1 where al: "log_allowed env prio subsys l = (allowed, suppressed, l1)" by (metis prod_cases3)
  then have l1: "lg_heap l1 = lg_heap l" "lg_callbacks l1 = lg_callbacks l" "lg_raw l1 = lg_raw l"
    by (auto simp: log_allowed_def split: if_splits option.splits prod.splits)
  let ?l = "l1\<lparr>lg_calls := lg_calls l1 @ [(cb, prio, subsys)]\<rparr>"
  obtain n where n: "h_cells (lg_heap l) p = Some n" "cb_callback n = cb" "cb_policy n = LOG_CALLBACK_RAW"
    "lg_callbacks l = Some p" "cb_next n = NULL"
    using assms(1,2) by (auto simp: callbacks_ok_def cb_entry_def)
  have "\<exists>l2. log_remove_callback (Some p) ?l = Some (True, l2) \<and> h_cells (lg_heap l2) p = None"
    using n l1 by (simp add: log_remove_callback_def remove_loop.simps [where i = "Some p"] h_free_def)
  then have "cb_loop env delivery allowed prio subsys msg (lg_callbacks l1) l1 a = None"
    using n l1 assms(3,5) by (subst cb_loop.simps) auto
  with assms(4) show ?thesis by (simp add: log_deliver_def al)
qed

theorem callback_removing_itself_witness:
  "log_deliver (quiet_env\<lparr>le_invoke := (\<lambda>_ prio subsys msg delivery l a. do { (_, l) \<leftarrow> log_remove_callback (Some 0) l; Some (l, a) })\<rparr>)
     NULL LOG_WARN ''rig'' (Some ''hot'') (one_callback LOG_CALLBACK_RAW) [] = None"
  by (rule callback_removing_itself [OF one_callback_ok, where cb = 9])
    (simp_all add: cb_entry_def one_callback_def fresh_logger_def)

subsection \<open>From a worker to the log file\<close>

text \<open>Logging through the queue, without callbacks, rates and timestamps, the lock of the queue free.\<close>

definition async_ready :: "logger \<Rightarrow> ra_log_queue \<Rightarrow> bool" where
  "async_ready l q \<longleftrightarrow>
     lg_enabled l \<and> lg_owner_valid l \<and> lg_queue l = Some q \<and> queue_ok q \<and> lg_callbacks l = NULL \<and> lg_lock l \<and>
     \<not> lg_show_ts l \<and> list_all (\<lambda>f. lf_rate_count f = 0) (lg_filters l)"

type_synonym log_request = "logpriority \<times> string \<times> string"

fun log_all :: "log_env \<Rightarrow> log_request list \<Rightarrow> logger \<Rightarrow> alloc \<Rightarrow> (logger \<times> alloc) comp" where
  "log_all env [] l a = Some (l, a)"
| "log_all env ((prio, subsys, text) # ms) l a =
     do { (l, a) \<leftarrow> Log env NULL prio (Some subsys) (Some (Some text)) l a; log_all env ms l a }"

definition record_of :: "logger \<Rightarrow> log_request \<Rightarrow> ra_log_record" where
  "record_of l m = (case m of (prio, subsys, text) \<Rightarrow> make_record (lg_realtime l) prio subsys text)"

definition is_queued :: "log_env \<Rightarrow> logger \<Rightarrow> log_request \<Rightarrow> bool" where
  "is_queued env l m = (case m of (prio, subsys, text) \<Rightarrow> log_shown env l subsys prio \<or> lg_raw l \<noteq> 0)"

text \<open>The lines a message is printed as, one for each stream.\<close>

definition printed_as :: "logger \<Rightarrow> logpriority \<Rightarrow> string \<Rightarrow> string \<Rightarrow> (stream \<times> string) list" where
  "printed_as l prio subsys text = map (\<lambda>st. (st, log_line False [] subsys prio text 0)) (destinations l)"

lemma log_shown_queue [simp]: "log_shown env (l\<lparr>lg_queue := q\<rparr>) s p = log_shown env l s p"
  by (simp add: log_shown_def)

lemma log_queues:
  assumes "async_ready l q" and "length (contents q) < unat (lq_capacity q)"
  shows "\<exists>q'. Log env NULL prio (Some s) (Some (Some text)) l a = Some (l\<lparr>lg_queue := Some q'\<rparr>, a) \<and>
    async_ready (l\<lparr>lg_queue := Some q'\<rparr>) q' \<and> lq_capacity q' = lq_capacity q \<and> lq_dropped q' = lq_dropped q \<and>
    contents q' = contents q @ (if is_queued env l (prio, s, text) then [record_of l (prio, s, text)] else [])"
proof (cases "is_queued env l (prio, s, text)")
  case True
  have ok: "queue_ok q" using assms(1) by (simp add: async_ready_def)
  obtain q' where q': "ra_log_queue_push (Some q) True (lg_realtime l) prio (Some s) (Some (take 1023 text)) = (True, Some q')"
      "queue_ok q'" "contents q' = contents q @ [make_record (lg_realtime l) prio s (take 1023 text)]"
      "lq_capacity q' = lq_capacity q" "lq_dropped q' = lq_dropped q"
    using push_contents [OF ok assms(2), of "lg_realtime l" prio s "take 1023 text"] by blast
  have "make_record (lg_realtime l) prio s (take 1023 text) = record_of l (prio, s, text)"
    by (simp add: make_record_def record_of_def snprintf_s_def)
  then show ?thesis using assms(1) True q'
    by (intro exI [of _ q']) (simp add: Log_def async_ready_def is_queued_def ra_log_queue_delivery_time_def)
next
  case False
  have "l\<lparr>lg_queue := Some q\<rparr> = l" using assms(1) by (simp add: async_ready_def)
  then show ?thesis using assms(1) False
    by (intro exI [of _ q]) (simp add: Log_def async_ready_def is_queued_def ra_log_queue_delivery_time_def)
qed

lemma log_all_queues:
  assumes "async_ready l q" and "length (contents q) + length ms \<le> unat (lq_capacity q)"
  shows "\<exists>q'. log_all env ms l a = Some (l\<lparr>lg_queue := Some q'\<rparr>, a) \<and> async_ready (l\<lparr>lg_queue := Some q'\<rparr>) q' \<and>
    lq_dropped q' = lq_dropped q \<and> contents q' = contents q @ map (record_of l) (filter (is_queued env l) ms)"
  using assms
proof (induction ms arbitrary: l q)
  case Nil
  then have "l\<lparr>lg_queue := Some q\<rparr> = l" by (simp add: async_ready_def)
  then show ?case using Nil by (intro exI [of _ q]) simp
next
  case (Cons m ms)
  obtain prio s msg where m: "m = (prio, s, msg)" by (metis prod_cases3)
  obtain q1 where q1: "Log env NULL prio (Some s) (Some (Some msg)) l a = Some (l\<lparr>lg_queue := Some q1\<rparr>, a)"
    "async_ready (l\<lparr>lg_queue := Some q1\<rparr>) q1" "lq_capacity q1 = lq_capacity q" "lq_dropped q1 = lq_dropped q"
    "contents q1 = contents q @ (if is_queued env l (prio, s, msg) then [record_of l (prio, s, msg)] else [])"
    using log_queues [OF Cons.prems(1), of env prio s msg a] Cons.prems(2) by auto
  have "length (contents q1) + length ms \<le> unat (lq_capacity q1)" using Cons.prems(2) q1(3,5) by simp
  from Cons.IH [OF q1(2) this] obtain q' where q': "log_all env ms (l\<lparr>lg_queue := Some q1\<rparr>) a = Some (l\<lparr>lg_queue := Some q'\<rparr>, a)"
      "async_ready (l\<lparr>lg_queue := Some q'\<rparr>) q'" "lq_dropped q' = lq_dropped q1"
      "contents q' = contents q1 @ map (record_of (l\<lparr>lg_queue := Some q1\<rparr>)) (filter (is_queued env (l\<lparr>lg_queue := Some q1\<rparr>)) ms)"
    by auto
  have same: "record_of (l\<lparr>lg_queue := Some q1\<rparr>) = record_of l" "is_queued env (l\<lparr>lg_queue := Some q1\<rparr>) = is_queued env l"
    by (simp_all add: fun_eq_iff record_of_def is_queued_def split: prod.split)
  then have "contents q' = contents q @ map (record_of l) (filter (is_queued env l) (m # ms))" using q'(4) q1(5) m by simp
  then show ?case using q' q1(1,4) m by (intro exI [of _ q']) simp
qed

lemma fold_emit: "fold (\<lambda>st. emit st s) sts l = l\<lparr>lg_out := lg_out l @ map (\<lambda>st. (st, s)) sts\<rparr>"
  by (induction sts arbitrary: l) (simp_all add: emit_def)

lemma deliver_prints:
  assumes "async_ready l q"
  shows "log_deliver env (Some t) prio s (Some text) l [] =
    Some (l\<lparr>lg_out := lg_out l @ (if log_shown env l s prio then printed_as l prio s text else [])\<rparr>, [])"
proof -
  have rate: "lf_rate_count f = 0" if "log_matching_filter fn (lg_filters l) s = Some f" for f fn
    using that assms matching_loop_best [where fnmatch = fn and s = s and fs = "lg_filters l" and best = NULL]
    by (auto simp: log_matching_filter_def async_ready_def list_all_iff)
  have "log_allowed env prio s l = (log_shown env l s prio, 0, l)"
    by (auto simp: log_allowed_def log_rate_allowed_def rate split: option.split)
  moreover have "cb_loop env d al prio s m NULL l a = Some (l, a)" for d al m a by (subst cb_loop.simps) simp
  ultimately show ?thesis using assms
    by (auto simp: log_deliver_def async_ready_def log_time_def fold_emit printed_as_def)
qed

definition record_lines :: "log_env \<Rightarrow> logger \<Rightarrow> ra_log_record \<Rightarrow> (stream \<times> string) list" where
  "record_lines env l r =
     (if log_shown env l (lr_subsystem r) (lr_level r)
      then printed_as l (lr_level r) (lr_subsystem r) (lr_message r) else [])"

lemma record_lines_cong [simp]:
  "record_lines env (l\<lparr>lg_queue := q\<rparr>) = record_lines env l"
  "record_lines env (l\<lparr>lg_out := out\<rparr>) = record_lines env l"
  by (simp_all add: fun_eq_iff record_lines_def printed_as_def log_shown_def destinations_def)

lemma drain_prints:
  assumes "async_ready l q"
  shows "\<exists>q'. log_drain env n l [] = Some (min n (length (contents q)),
      l\<lparr>lg_queue := Some q', lg_out := lg_out l @ concat (map (record_lines env l) (take n (contents q)))\<rparr>, []) \<and>
    contents q' = drop n (contents q) \<and> lq_dropped q' = lq_dropped q"
  using assms
proof (induction n arbitrary: l q)
  case 0
  then have "l\<lparr>lg_queue := Some q\<rparr> = l" by (simp add: async_ready_def)
  then show ?case by (intro exI [of _ q]) simp
next
  case (Suc n)
  have l: "lg_queue l = Some q" "queue_ok q" "l\<lparr>lg_queue := Some q\<rparr> = l" using Suc.prems by (auto simp: async_ready_def)
  show ?case
  proof (cases "contents q")
    case Nil
    then have "pop_record q = None" using pop_contents [OF l(2)] by simp
    with Nil l show ?thesis by (intro exI [of _ q]) simp
  next
    case (Cons r rs)
    then obtain q1 where q1: "pop_record q = Some (r, q1)" "queue_ok q1" "contents q1 = rs" "lq_dropped q1 = lq_dropped q"
      using pop_contents [OF l(2)] by auto
    let ?l = "l\<lparr>lg_queue := Some q1\<rparr>"
    let ?l1 = "?l\<lparr>lg_out := lg_out l @ record_lines env l r\<rparr>"
    have ready: "async_ready ?l q1" "async_ready ?l1 q1" using Suc.prems q1(2) by (simp_all add: async_ready_def)
    have "Log env (Some (lr_submitted r)) (lr_level r) (Some (lr_subsystem r)) (Some (Some (lr_message r))) ?l [] = Some (?l1, [])"
      using deliver_prints [OF ready(1), of env "lr_submitted r" "lr_level r" "lr_subsystem r" "lr_message r"]
      by (simp add: Log_def ra_log_queue_delivery_time_def record_lines_def printed_as_def destinations_def)
    with Suc.IH [OF ready(2)] l q1 Cons show ?thesis by auto
  qed
qed

text \<open>C18: a message logged by a worker ends up in the log. For an enabled logger with a queue, without callbacks,
  time stamps and rate limits (\<open>async_ready\<close>), whose queue is empty and has no drops to report: a list
  of at most 512 messages that the queue has room for, from subsystems with names of at most 63
  characters, prints nothing when it is logged; the next tick of the drain, if it takes at most 40 ms,
  then prints, in the order in which they were logged, exactly those that pass their filter, each
  on every stream, unchanged up to the 1023 characters that a record holds. The lock of the queue is
  free and memory suffices.\<close>

theorem worker_messages_printed:
  assumes "async_ready l q" and "contents q = []" and "length ms \<le> unat (lq_capacity q)" and "length ms \<le> 512"
    and "list_all (\<lambda>(prio, subsys, text). length subsys \<le> 63) ms"
    and "lg_reported l = lq_dropped q" and "drain_us \<le> 40000"
  shows "\<exists>l1 l2. log_all env ms l [] = Some (l1, []) \<and> lg_out l1 = lg_out l \<and>
    logger_drain_tick env drain_us l1 [] = Some (True, l2, []) \<and>
    lg_out l2 = lg_out l @ concat (map (\<lambda>(prio, subsys, text).
      if log_shown env l subsys prio then printed_as l prio subsys (take 1023 text) else []) ms)"
proof -
  obtain q1 where q1: "log_all env ms l [] = Some (l\<lparr>lg_queue := Some q1\<rparr>, [])" "async_ready (l\<lparr>lg_queue := Some q1\<rparr>) q1"
    "lq_dropped q1 = lq_dropped q" "contents q1 = map (record_of l) (filter (is_queued env l) ms)"
    using log_all_queues [OF assms(1), of ms env "[]"] assms(2,3) by auto
  let ?l = "l\<lparr>lg_queue := Some q1\<rparr>"
  have short: "length (contents q1) \<le> 512" using assms(4) by (simp add: q1(4) le_trans [OF length_filter_le])
  obtain q2 where q2: "log_drain env 512 ?l [] = Some (min 512 (length (contents q1)),
      ?l\<lparr>lg_queue := Some q2, lg_out := lg_out l @ concat (map (record_lines env l) (contents q1))\<rparr>, [])"
      "lq_dropped q2 = lq_dropped q1"
    using drain_prints [OF q1(2), of env 512] short by auto
  have "concat (map (record_lines env l) (contents q1)) = concat (map (\<lambda>(prio, subsys, text).
      if log_shown env l subsys prio then printed_as l prio subsys (take 1023 text) else []) ms)"
    using assms(5) unfolding q1(4)
    by (induction ms) (auto simp: record_lines_def record_of_def make_record_def snprintf_s_def is_queued_def)
  then show ?thesis using q1(1,2,3) q2 assms(6,7)
    by (simp add: logger_drain_tick_def async_ready_def ra_log_queue_dropped_def Let_def)
qed

definition worker_logger :: logger where
  "worker_logger = fresh_logger\<lparr>lg_enabled := True, lg_owner_valid := True, lg_queue := Some small_queue,
     lg_fp := Some (Opened 3), lg_stdout := False\<rparr>"

theorem worker_messages_printed_witness:
  "\<exists>l1 l2. log_all quiet_env [(LOG_WARN, ''rig'', ''hot''), (LOG_CRAZY, ''rig'', ''tick'')] worker_logger [] = Some (l1, []) \<and>
     logger_drain_tick quiet_env 10 l1 [] = Some (True, l2, []) \<and>
     lg_out l2 = [(Opened 3, ''<rig@warn> hot'' @ NL)]"
proof -
  have "async_ready worker_logger small_queue" "lg_reported worker_logger = lq_dropped small_queue"
    using small_queue_ok(1) by (simp_all add: async_ready_def worker_logger_def fresh_logger_def small_queue_def ra_log_queue_new_def)
  from worker_messages_printed [OF this(1) small_queue_ok(2) _ _ _ this(2), of "[(LOG_WARN, ''rig'', ''hot''), (LOG_CRAZY, ''rig'', ''tick'')]" 10 quiet_env]
  show ?thesis
    by (auto simp: small_queue_ok(3) log_shown_def debug_filter_def log_matching_filter_def worker_logger_def fresh_logger_def
        less_logpriority_def printed_as_def destinations_def log_line_def log_priority_to_str_def log_priorities_def)
qed

subsection \<open>Shutdown and restart\<close>

lemma free_callbacks_chain:
  assumes "chain cb_next (h_cells h) p ps NULL" and "distinct ps"
  shows "free_callbacks p h = Some (h\<lparr>h_cells := h_cells h |` (- set ps)\<rparr>)"
  using assms
proof (induction ps arbitrary: p h)
  case Nil
  then show ?case by (subst free_callbacks.simps) (simp add: restrict_map_def)
next
  case (Cons x ps)
  then obtain n where n: "p = Some x" "h_cells h x = Some n" "chain cb_next (h_cells h) (cb_next n) ps NULL" by auto
  let ?h = "h\<lparr>h_cells := (h_cells h)(x := None)\<rparr>"
  have "free_callbacks (cb_next n) ?h = Some (?h\<lparr>h_cells := h_cells ?h |` (- set ps)\<rparr>)"
  proof (rule Cons.IH)
    show "chain cb_next (h_cells ?h) (cb_next n) ps NULL"
      using n(3) Cons.prems(2) chain_frame [of x ps cb_next "h_cells h" None] by (simp del: fun_upd_apply)
  qed (use Cons.prems(2) in simp)
  moreover have "h_cells ?h |` (- set ps) = h_cells h |` (- set (x # ps))" by (auto simp: restrict_map_def fun_eq_iff)
  ultimately show ?case using n by (subst free_callbacks.simps) (simp add: h_free_def)
qed

text \<open>The shutdown without a queue frees every callback once and leaves no filter behind.\<close>

theorem logger_end_frees:
  assumes "callbacks_ok l ps" and "lg_queue l = NULL"
  shows "\<exists>l'. logger_end env l a = Some (l', a) \<and> callbacks_ok l' [] \<and> lg_filters l' = [] \<and> lg_fp l' = NULL \<and>
    h_cells (lg_heap l') = h_cells (lg_heap l) |` (- set ps)"
  using free_callbacks_chain [of "lg_heap l" "lg_callbacks l" ps] assms
  by (simp add: logger_end_def callbacks_ok_def log_clear_filters_def heap_ok_def raw_count_def restrict_map_def)

text \<open>The flag that ordinary messages go through the queue is never reset: when the logger was used
  with a queue and is started again without worker logging, every message is dropped, and
  not counted.\<close>

theorem restart_without_workers_silent:
  assumes "cfg_get_bool g ''log.async-workers'' True = Some False" and "lg_owner_valid l" and "\<not> lg_enabled l"
    and "logger_init g opened mutex_ok logfile tui l a = Some (Done l', a')"
  shows "Log env NULL prio (Some subsys) (Some msg) l' b = Some (l', b)"
proof -
  have "lg_owner_valid l' = lg_owner_valid l \<and> lg_enabled l' = lg_enabled l"
    using assms(1,4) by (auto simp: logger_init_def open_log_def emit_def andthen_def ret_def
        elim!: bind_eq_SomeE split: if_splits option.splits run.splits)
  then show ?thesis using assms(2,3) by (simp add: Log_def ra_log_queue_delivery_time_def)
qed

end
