(* ===== verification/Socks.thy ===== *)
theory Socks
  imports C_Numbers
begin

text \<open>
  The SOCKS5 client of \<open>socks.c\<close>: the proxy URL, and the negotiation as the state machine that
  \<open>rr_socks_event\<close> drives. The connection of the network library is its receive buffer, the
  packets sent so far and the closing flag; whether \<open>mg_send\<close> accepts the next packets is a
  list of booleans, as for allocations. \<open>inet_pton\<close> is a parameter for each address family.
\<close>

subsection \<open>Data\<close>

datatype socks_stage = SOCKS_OFF | SOCKS_GREETING | SOCKS_AUTH | SOCKS_CONNECT | SOCKS_READY | SOCKS_FAILED

datatype mg_event = MG_EV_ERROR | MG_EV_POLL | MG_EV_CONNECT | MG_EV_READ | MG_EV_CLOSE | MG_EV_OTHER

type_synonym pton = "string \<Rightarrow> u8 list option"

record rr_socks =
  so_url :: string
  so_host :: string
  so_user :: string
  so_pass :: string
  so_port :: nat
  so_stage :: socks_stage
  so_deadline :: int

record mg_connection =
  mc_recv :: "u8 list"
  mc_sent :: "u8 list list"
  mc_closing :: bool
  mc_sends :: "bool list"
  mc_errors :: "string list"

definition mg_send :: "u8 list \<Rightarrow> mg_connection \<Rightarrow> bool \<times> mg_connection" where
  "mg_send packet c =
     (let (ok, sends) = malloc_ok (mc_sends c)
      in (ok, c\<lparr>mc_sends := sends, mc_sent := mc_sent c @ (if ok then [packet] else [])\<rparr>))"

definition mg_iobuf_del :: "nat \<Rightarrow> mg_connection \<Rightarrow> mg_connection" where
  "mg_iobuf_del n c = c\<lparr>mc_recv := drop n (mc_recv c)\<rparr>"

subsection \<open>The proxy URL\<close>

definition isalnum :: "char \<Rightarrow> bool" where
  "isalnum c \<longleftrightarrow> isdigit c \<or> 65 \<le> code c \<and> code c \<le> 90 \<or> 97 \<le> code c \<and> code c \<le> 122"

definition proxy_char :: "char \<Rightarrow> bool" where
  "proxy_char c \<longleftrightarrow> isalnum c \<or> c = CHR ''.'' \<or> c = CHR ''-''"

definition host_char :: "char \<Rightarrow> bool" where
  "host_char c \<longleftrightarrow> isalnum c \<or> c = CHR ''.'' \<or> c = CHR ''-'' \<or> c = CHR ''_''"

definition strip_scheme :: "string \<Rightarrow> string option" where
  "strip_scheme url =
     (if take 10 url = ''socks5h://'' then Some (drop 10 url)
      else if take 9 url = ''socks5://'' then Some (drop 9 url)
      else None)"

text \<open>The host of the proxy, and what follows it.\<close>

definition proxy_host :: "pton \<Rightarrow> string \<Rightarrow> (bool \<times> string \<times> string) option" where
  "proxy_host pton6 address =
     (let ipv6 = (address \<noteq> [] \<and> hd address = CHR ''['');
          s = (if ipv6 then tl address else address);
          host = takeWhile (\<lambda>c. if ipv6 then c \<noteq> CHR '']'' else c \<noteq> CHR '':'' \<and> c \<noteq> CHR ''/'') s;
          rest = drop (length host) s
      in if ipv6 \<and> rest = [] then None
         else if host = [] \<or> length host \<ge> 256 then None
         else if ipv6 \<and> pton6 host = None then None
         else if \<not> ipv6 \<and> \<not> list_all proxy_char host then None
         else Some (ipv6, host, if ipv6 then tl rest else rest))"

text \<open>The loop over the digits of the port.\<close>

fun port_loop :: "nat \<Rightarrow> string \<Rightarrow> (nat \<times> string) option" where
  "port_loop port [] = Some (port, [])"
| "port_loop port (c # cs) =
     (if isdigit c then
        (let port = port * 10 + digit_val c in if port > 65535 then None else port_loop port cs)
      else Some (port, c # cs))"

definition proxy_port :: "string \<Rightarrow> (nat \<times> string) option" where
  "proxy_port suffix =
     (if suffix \<noteq> [] \<and> hd suffix = CHR '':'' then
        (if tl suffix = [] \<or> \<not> isdigit (hd (tl suffix)) then None
         else case port_loop 0 (tl suffix) of
           None \<Rightarrow> None
         | Some (port, rest) \<Rightarrow> if port = 0 then None else Some (port, rest))
      else Some (1080, suffix))"

definition socks_blank :: rr_socks where
  "socks_blank = \<lparr>so_url = [], so_host = [], so_user = [], so_pass = [], so_port = 0, so_stage = SOCKS_FAILED, so_deadline = 0\<rparr>"

definition rr_socks_init ::
    "pton \<Rightarrow> int \<Rightarrow> string ptr \<Rightarrow> string ptr \<Rightarrow> string ptr \<Rightarrow> string ptr \<Rightarrow> nat \<Rightarrow> bool \<times> rr_socks" where
  "rr_socks_init pton6 mono_ms url user pass host port =
     (case (url, host) of
        (Some url, Some host) \<Rightarrow>
          if url = [] \<or> host = [] \<or> length host > 255 \<or> port = 0 then (False, socks_blank)
          else (case strip_scheme url of
            None \<Rightarrow> (False, socks_blank)
          | Some address \<Rightarrow>
              (case proxy_host pton6 address of
                 None \<Rightarrow> (False, socks_blank)
               | Some (ipv6, proxy, suffix) \<Rightarrow>
                   (case proxy_port suffix of
                      None \<Rightarrow> (False, socks_blank)
                    | Some (pport, rest) \<Rightarrow>
                        let user = (case user of None \<Rightarrow> [] | Some u \<Rightarrow> u);
                            pass = (case pass of None \<Rightarrow> [] | Some p \<Rightarrow> p)
                        in if rest \<noteq> [] \<and> rest \<noteq> ''/'' then (False, socks_blank)
                           else if pton6 host = None \<and> \<not> list_all host_char host then (False, socks_blank)
                           else if length user > 255 \<or> length pass > 255 \<or> (user \<noteq> [] \<longleftrightarrow> pass = []) then (False, socks_blank)
                           else (True, \<lparr>so_url = take 1023 (''tcp://'' @ (if ipv6 then ''['' else []) @ proxy @
                                    (if ipv6 then '']'' else []) @ '':'' @ show_nat pport),
                                  so_host = host, so_user = user, so_pass = pass, so_port = port,
                                  so_stage = SOCKS_GREETING, so_deadline = mono_ms + 30000\<rparr>))))
      | _ \<Rightarrow> (False, socks_blank))"

subsection \<open>The negotiation\<close>

definition fail :: "string \<Rightarrow> rr_socks \<Rightarrow> mg_connection \<Rightarrow> int \<times> rr_socks \<times> mg_connection" where
  "fail error s c =
     (- 1, s\<lparr>so_stage := SOCKS_FAILED\<rparr>, c\<lparr>mc_closing := True, mc_errors := mc_errors c @ [''SOCKS5: '' @ error]\<rparr>)"

definition bytes_of :: "string \<Rightarrow> u8 list" where
  "bytes_of s = map byte_of s"

definition connect_packet :: "pton \<Rightarrow> pton \<Rightarrow> rr_socks \<Rightarrow> u8 list" where
  "connect_packet pton4 pton6 s =
     (case pton4 (so_host s) of
        Some ip \<Rightarrow> [5, 1, 0, 1] @ ip
      | None \<Rightarrow>
          (case pton6 (so_host s) of
             Some ip \<Rightarrow> [5, 1, 0, 4] @ ip
           | None \<Rightarrow> [5, 1, 0, 3, of_nat (length (so_host s))] @ bytes_of (so_host s))) @
     [of_nat (so_port s div 256), of_nat (so_port s)]"

definition connect_request :: "pton \<Rightarrow> pton \<Rightarrow> rr_socks \<Rightarrow> mg_connection \<Rightarrow> bool \<times> rr_socks \<times> mg_connection" where
  "connect_request pton4 pton6 s c =
     (let s = s\<lparr>so_stage := SOCKS_CONNECT\<rparr>;
          (ok, c) = mg_send (connect_packet pton4 pton6 s) c
      in if ok then (True, s, c)
         else let (_, s, c) = fail ''cannot queue CONNECT request'' s c in (False, s, c))"

definition auth_packet :: "rr_socks \<Rightarrow> u8 list" where
  "auth_packet s =
     [1, of_nat (length (so_user s))] @ bytes_of (so_user s) @ [of_nat (length (so_pass s))] @ bytes_of (so_pass s)"

definition socks_method :: "rr_socks \<Rightarrow> u8" where
  "socks_method s = (if so_user s \<noteq> [] then 2 else 0)"

definition connect_errors :: "string list" where
  "connect_errors =
     [''success'', ''proxy failure'', ''connection forbidden'', ''network unreachable'', ''host unreachable'',
      ''connection refused'', ''TTL expired'', ''command unsupported'', ''address unsupported'']"

text \<open>The length of a CONNECT reply: unknown yet, an error, or a number of bytes.\<close>

datatype reply_length = More | Bad string | Bytes nat

definition connect_length :: "u8 list \<Rightarrow> reply_length" where
  "connect_length p =
     (if p ! 3 = 1 then Bytes 10
      else if p ! 3 = 4 then Bytes 22
      else if p ! 3 = 3 then
        (if length p < 5 then More
         else if p ! 4 = 0 then Bad ''empty reply hostname''
         else Bytes (7 + unat (p ! 4)))
      else Bad ''invalid reply address type'')"

definition connect_reply :: "rr_socks \<Rightarrow> mg_connection \<Rightarrow> int \<times> rr_socks \<times> mg_connection" where
  "connect_reply s c =
     (let p = mc_recv c in
      if length p < 4 then (0, s, c)
      else if p ! 0 \<noteq> 5 \<or> p ! 2 \<noteq> 0 then fail ''invalid CONNECT reply'' s c
      else if p ! 1 \<noteq> 0 then
        fail (if unat (p ! 1) < length connect_errors then connect_errors ! unat (p ! 1) else ''CONNECT rejected'') s c
      else case connect_length p of
        More \<Rightarrow> (0, s, c)
      | Bad error \<Rightarrow> fail error s c
      | Bytes n \<Rightarrow>
          if length p < n then (0, s, c)
          else (1, s\<lparr>so_stage := SOCKS_READY\<rparr>, mg_iobuf_del n c))"

text \<open>The loop over the replies in the buffer; every stage that goes on is a later one.\<close>

definition stage_rank :: "socks_stage \<Rightarrow> nat" where
  "stage_rank st = (case st of SOCKS_GREETING \<Rightarrow> 3 | SOCKS_AUTH \<Rightarrow> 2 | SOCKS_CONNECT \<Rightarrow> 1 | _ \<Rightarrow> 0)"

lemma fail_stage: "fail e s c = (r, s', c') \<Longrightarrow> so_stage s' = SOCKS_FAILED"
  by (auto simp: fail_def)

lemma connect_request_stage:
  "connect_request pton4 pton6 s c = (ok, s', c') \<Longrightarrow> so_stage s' = (if ok then SOCKS_CONNECT else SOCKS_FAILED)"
  by (auto simp: connect_request_def Let_def fail_def split: if_splits prod.splits)

function socks_loop :: "pton \<Rightarrow> pton \<Rightarrow> rr_socks \<Rightarrow> mg_connection \<Rightarrow> int \<times> rr_socks \<times> mg_connection" where
  "socks_loop pton4 pton6 s c =
     (let p = mc_recv c in
      if mc_closing c then (- 1, s, c)
      else if so_stage s = SOCKS_GREETING then
        (if length p < 2 then (0, s, c)
         else if p ! 0 \<noteq> 5 \<or> p ! 1 \<noteq> socks_method s then fail ''authentication method rejected'' s c
         else
           let c = mg_iobuf_del 2 c in
           if so_user s \<noteq> [] then
             (let s = s\<lparr>so_stage := SOCKS_AUTH\<rparr>;
                  (ok, c) = mg_send (auth_packet s) c
              in if ok then socks_loop pton4 pton6 s c else fail ''cannot queue authentication'' s c)
           else
             (case connect_request pton4 pton6 s c of
                (True, s, c) \<Rightarrow> socks_loop pton4 pton6 s c
              | (False, s, c) \<Rightarrow> (- 1, s, c)))
      else if so_stage s = SOCKS_AUTH then
        (if length p < 2 then (0, s, c)
         else if p ! 0 \<noteq> 1 \<or> p ! 1 \<noteq> 0 then fail ''authentication failed'' s c
         else
           (case connect_request pton4 pton6 s (mg_iobuf_del 2 c) of
              (True, s, c) \<Rightarrow> socks_loop pton4 pton6 s c
            | (False, s, c) \<Rightarrow> (- 1, s, c)))
      else if so_stage s = SOCKS_CONNECT then connect_reply s c
      else (0, s, c))"
  by pat_completeness auto

termination
  by (relation "measure (\<lambda>(_, _, s, _). stage_rank (so_stage s))")
    (auto simp: stage_rank_def dest!: connect_request_stage [OF sym])

declare socks_loop.simps [simp del]

text \<open>\<open>mono_ms\<close> is the monotonic clock at the time of the event.\<close>

definition rr_socks_event ::
    "pton \<Rightarrow> pton \<Rightarrow> int \<Rightarrow> rr_socks \<Rightarrow> mg_connection \<Rightarrow> mg_event \<Rightarrow> int \<times> rr_socks \<times> mg_connection" where
  "rr_socks_event pton4 pton6 mono_ms s c event =
     (if event = MG_EV_ERROR \<or> event = MG_EV_CLOSE \<or> mc_closing c
      then (- 1, s\<lparr>so_stage := SOCKS_FAILED\<rparr>, c\<lparr>mc_closing := True\<rparr>)
      else if so_stage s = SOCKS_FAILED then (- 1, s, c\<lparr>mc_closing := True\<rparr>)
      else if so_stage s = SOCKS_READY then (0, s, c)
      else if event = MG_EV_POLL \<and> mono_ms \<ge> so_deadline s then fail ''handshake timed out'' s c
      else if event = MG_EV_CONNECT then
        (case mg_send [5, 1, socks_method s] c of
           (True, c) \<Rightarrow> (0, s, c)
         | (False, c) \<Rightarrow> fail ''cannot queue greeting'' s c)
      else if event \<noteq> MG_EV_READ then (0, s, c)
      else socks_loop pton4 pton6 s c)"

subsection \<open>Bytes that arrive later\<close>

definition recv_add :: "u8 list \<Rightarrow> mg_connection \<Rightarrow> mg_connection" where
  "recv_add y c = c\<lparr>mc_recv := mc_recv c @ y\<rparr>"

lemma recv_add_simps [simp]:
  "mc_recv (recv_add y c) = mc_recv c @ y" "mc_closing (recv_add y c) = mc_closing c"
  "mc_sent (recv_add y c) = mc_sent c" "mc_sends (recv_add y c) = mc_sends c"
  by (simp_all add: recv_add_def)

lemma recv_add_fail: "fail e s (recv_add y c) = (case fail e s c of (r, s, c) \<Rightarrow> (r, s, recv_add y c))"
  by (simp add: fail_def recv_add_def)

lemma recv_add_send: "mg_send p (recv_add y c) = (case mg_send p c of (ok, c) \<Rightarrow> (ok, recv_add y c))"
  by (simp add: mg_send_def recv_add_def Let_def split: prod.split)

lemma recv_add_del: "n \<le> length (mc_recv c) \<Longrightarrow> mg_iobuf_del n (recv_add y c) = recv_add y (mg_iobuf_del n c)"
  by (simp add: mg_iobuf_del_def recv_add_def)

lemma recv_add_request:
  "connect_request pton4 pton6 s (recv_add y c) =
     (case connect_request pton4 pton6 s c of (ok, s, c) \<Rightarrow> (ok, s, recv_add y c))"
  by (simp add: connect_request_def Let_def recv_add_send recv_add_fail split: prod.split)

text \<open>A decision, once taken, does not depend on bytes that arrive later; a negotiation that waits
  goes on where it stopped.\<close>

definition goes_on :: "pton \<Rightarrow> pton \<Rightarrow> u8 list \<Rightarrow> rr_socks \<Rightarrow> mg_connection \<Rightarrow> int \<times> rr_socks \<times> mg_connection \<Rightarrow> bool" where
  "goes_on pton4 pton6 y s c res \<longleftrightarrow>
     (case res of (r, s1, c1) \<Rightarrow>
        (r = 0 \<and> \<not> mc_closing c1 \<and> so_stage s1 \<notin> {SOCKS_READY, SOCKS_FAILED} \<and>
           socks_loop pton4 pton6 s (recv_add y c) = socks_loop pton4 pton6 s1 (recv_add y c1)) \<or>
        (r = 1 \<and> \<not> mc_closing c1 \<and> so_stage s1 = SOCKS_READY \<and> socks_loop pton4 pton6 s (recv_add y c) = (1, s1, recv_add y c1)) \<or>
        (r = - 1 \<and> mc_closing c1 \<and> so_stage s1 = SOCKS_FAILED \<and> socks_loop pton4 pton6 s (recv_add y c) = (- 1, s1, recv_add y c1)))"

lemma goes_on_wait:
  "\<not> mc_closing c \<Longrightarrow> so_stage s \<notin> {SOCKS_READY, SOCKS_FAILED} \<Longrightarrow> goes_on pton4 pton6 y s c (0, s, c)"
  by (simp add: goes_on_def)

lemma goes_on_fail:
  assumes "socks_loop pton4 pton6 s (recv_add y c) = fail e s' (recv_add y c')"
  shows "goes_on pton4 pton6 y s c (fail e s' c')"
  using assms by (simp add: goes_on_def recv_add_fail) (simp add: fail_def)

lemma connect_length_append:
  assumes "4 \<le> length p" and "connect_length p \<noteq> More"
  shows "connect_length (p @ y) = connect_length p"
proof -
  have "(p @ y) ! 3 = p ! 3" using assms(1) by (simp add: nth_append)
  moreover have "p ! 3 = 3 \<Longrightarrow> 5 \<le> length p" using assms(2) by (cases "5 \<le> length p") (simp_all add: connect_length_def)
  moreover have "5 \<le> length p \<Longrightarrow> (p @ y) ! 4 = p ! 4" by (simp add: nth_append)
  ultimately show ?thesis by (cases "p ! 3 = 3") (simp_all add: connect_length_def)
qed

lemma connect_reply_add:
  assumes "\<not> mc_closing c" and "so_stage s = SOCKS_CONNECT"
  shows "goes_on pton4 pton6 y s c (connect_reply s c)"
proof -
  let ?p = "mc_recv c"
  have loop: "socks_loop pton4 pton6 s (recv_add y c) = connect_reply s (recv_add y c)"
    using assms by (subst socks_loop.simps) simp
  have wait: "goes_on pton4 pton6 y s c (0, s, c)" using assms by (intro goes_on_wait) auto
  have nth4: "(?p @ y) ! 0 = ?p ! 0" "(?p @ y) ! Suc 0 = ?p ! Suc 0" "(?p @ y) ! 2 = ?p ! 2" if "4 \<le> length ?p"
    using that by (simp_all add: nth_append del: One_nat_def) auto
  consider "length ?p < 4" | "4 \<le> length ?p" "?p ! 0 \<noteq> 5 \<or> ?p ! 2 \<noteq> 0 \<or> ?p ! 1 \<noteq> 0"
    | "4 \<le> length ?p" "?p ! 0 = 5" "?p ! 2 = 0" "?p ! 1 = 0" by linarith
  then show ?thesis
  proof cases
    case 1
    then show ?thesis using wait by (simp add: connect_reply_def)
  next
    case 2
    then have "\<exists>e. connect_reply s c = fail e s c \<and> connect_reply s (recv_add y c) = fail e s (recv_add y c)"
      using 2 nth4 [OF 2(1)] by (cases "?p ! 0 \<noteq> 5 \<or> ?p ! 2 \<noteq> 0") (simp_all add: connect_reply_def, blast+)
    then show ?thesis using goes_on_fail loop by metis
  next
    case 3
    show ?thesis
    proof (cases "connect_length ?p")
      case More
      then show ?thesis using 3 wait by (simp add: connect_reply_def)
    next
      case (Bad e)
      then have "connect_length (?p @ y) = Bad e" using connect_length_append [OF 3(1)] by simp
      then have "connect_reply s c = fail e s c \<and> connect_reply s (recv_add y c) = fail e s (recv_add y c)"
        using 3 Bad nth4 [OF 3(1)] by (simp add: connect_reply_def)
      then show ?thesis using goes_on_fail loop by metis
    next
      case (Bytes n)
      then have eq: "connect_length (?p @ y) = Bytes n" using connect_length_append [OF 3(1)] by simp
      show ?thesis
      proof (cases "length ?p < n")
        case True
        with 3 Bytes wait show ?thesis by (simp add: connect_reply_def)
      next
        case False
        have "connect_reply s c = (1, s\<lparr>so_stage := SOCKS_READY\<rparr>, mg_iobuf_del n c)"
          using 3 Bytes False by (simp add: connect_reply_def)
        moreover have "connect_reply s (recv_add y c) = (1, s\<lparr>so_stage := SOCKS_READY\<rparr>, recv_add y (mg_iobuf_del n c))"
          using 3 nth4 [OF 3(1)] eq False recv_add_del [of n c y] by (simp add: connect_reply_def)
        ultimately show ?thesis using loop assms(1) by (simp add: goes_on_def) (simp add: mg_iobuf_del_def)
      qed
    qed
  qed
qed

lemma goes_on_step:
  assumes "goes_on pton4 pton6 y s' c' res" and "socks_loop pton4 pton6 s (recv_add y c) = socks_loop pton4 pton6 s' (recv_add y c')"
  shows "goes_on pton4 pton6 y s c res"
  using assms by (simp add: goes_on_def)

lemma connect_goes_on:
  assumes "\<not> mc_closing c" and "so_stage s = SOCKS_CONNECT"
  shows "goes_on pton4 pton6 y s c (socks_loop pton4 pton6 s c)"
proof -
  have "socks_loop pton4 pton6 s c = connect_reply s c" using assms by (subst socks_loop.simps) simp
  with connect_reply_add [OF assms] show ?thesis by simp
qed

lemma request_open: "connect_request pton4 pton6 s c = (True, s1, c1) \<Longrightarrow> mc_closing c1 = mc_closing c"
  by (auto simp: connect_request_def Let_def mg_send_def split: if_splits prod.splits)

lemma request_closed:
  "connect_request pton4 pton6 s c = (False, s1, c1) \<Longrightarrow> mc_closing c1 \<and> so_stage s1 = SOCKS_FAILED"
  by (auto simp: connect_request_def Let_def fail_def split: if_splits prod.splits)

lemma request_goes_on:
  assumes "\<not> mc_closing c'"
    and "socks_loop pton4 pton6 s (recv_add y c) =
      (case connect_request pton4 pton6 s (recv_add y c') of
         (True, s, c) \<Rightarrow> socks_loop pton4 pton6 s c | (False, s, c) \<Rightarrow> (- 1, s, c))"
  shows "goes_on pton4 pton6 y s c
    (case connect_request pton4 pton6 s c' of
       (True, s, c) \<Rightarrow> socks_loop pton4 pton6 s c | (False, s, c) \<Rightarrow> (- 1, s, c))"
proof -
  obtain ok s1 c1 where r: "connect_request pton4 pton6 s c' = (ok, s1, c1)" by (metis prod_cases3)
  show ?thesis
  proof (cases ok)
    case True
    with r have "goes_on pton4 pton6 y s1 c1 (socks_loop pton4 pton6 s1 c1)"
      using assms(1) request_open connect_request_stage [OF r] by (intro connect_goes_on) auto
    then show ?thesis using True r assms(2) by (auto simp: recv_add_request intro: goes_on_step)
  next
    case False
    with r request_closed assms(2) show ?thesis by (simp add: recv_add_request goes_on_def)
  qed
qed

lemma auth_goes_on:
  assumes "\<not> mc_closing c" and "so_stage s = SOCKS_AUTH"
  shows "goes_on pton4 pton6 y s c (socks_loop pton4 pton6 s c)"
proof -
  let ?p = "mc_recv c"
  let ?go = "\<lambda>c. case connect_request pton4 pton6 s c of
    (True, s, c) \<Rightarrow> socks_loop pton4 pton6 s c | (False, s, c) \<Rightarrow> (- 1, s, c)"
  have loop: "socks_loop pton4 pton6 s c =
      (if length (mc_recv c) < 2 then (0, s, c)
       else if mc_recv c ! 0 \<noteq> 1 \<or> mc_recv c ! 1 \<noteq> 0 then fail ''authentication failed'' s c
       else ?go (mg_iobuf_del 2 c))" if "\<not> mc_closing c" for c
    using that assms(2) by (subst socks_loop.simps) (simp add: Let_def)
  have nth2: "(?p @ y) ! 0 = ?p ! 0" "(?p @ y) ! 1 = ?p ! 1" if "2 \<le> length ?p"
    using that by (auto simp: nth_append)
  show ?thesis
  proof (cases "length ?p < 2")
    case True
    then show ?thesis using assms by (simp add: loop goes_on_wait)
  next
    case False
    show ?thesis
    proof (cases "?p ! 0 \<noteq> 1 \<or> ?p ! 1 \<noteq> 0")
      case True
      then have "socks_loop pton4 pton6 s (recv_add y c) = fail ''authentication failed'' s (recv_add y c)"
        using False nth2 assms(1) by (subst loop) auto
      from goes_on_fail [OF this] show ?thesis using True False assms(1) by (simp add: loop)
    next
      case ok: False
      then have "socks_loop pton4 pton6 s (recv_add y c) = ?go (recv_add y (mg_iobuf_del 2 c))"
        using False nth2 assms(1) recv_add_del [of 2 c y] by (subst loop) auto
      from request_goes_on [OF _ this] show ?thesis
        using ok False assms(1) by (simp add: loop mg_iobuf_del_def)
    qed
  qed
qed

lemma send_open: "mg_send p c = (ok, c1) \<Longrightarrow> mc_closing c1 = mc_closing c"
  by (auto simp: mg_send_def split: prod.splits)

lemma greeting_goes_on:
  assumes "\<not> mc_closing c" and "so_stage s = SOCKS_GREETING"
  shows "goes_on pton4 pton6 y s c (socks_loop pton4 pton6 s c)"
proof -
  let ?p = "mc_recv c" and ?s = "s\<lparr>so_stage := SOCKS_AUTH\<rparr>"
  let ?go = "\<lambda>c. case connect_request pton4 pton6 s c of
    (True, s, c) \<Rightarrow> socks_loop pton4 pton6 s c | (False, s, c) \<Rightarrow> (- 1, s, c)"
  let ?auth = "\<lambda>c. case mg_send (auth_packet ?s) c of
    (ok, c) \<Rightarrow> if ok then socks_loop pton4 pton6 ?s c else fail ''cannot queue authentication'' ?s c"
  have loop: "socks_loop pton4 pton6 s c =
      (if length (mc_recv c) < 2 then (0, s, c)
       else if mc_recv c ! 0 \<noteq> 5 \<or> mc_recv c ! 1 \<noteq> socks_method s then fail ''authentication method rejected'' s c
       else if so_user s \<noteq> [] then ?auth (mg_iobuf_del 2 c) else ?go (mg_iobuf_del 2 c))" if "\<not> mc_closing c" for c
    using that assms(2) by (subst socks_loop.simps) (simp add: Let_def)
  have nth2: "(?p @ y) ! 0 = ?p ! 0" "(?p @ y) ! 1 = ?p ! 1" if "2 \<le> length ?p"
    using that by (auto simp: nth_append)
  show ?thesis
  proof (cases "length ?p < 2")
    case True
    then show ?thesis using assms by (simp add: loop goes_on_wait)
  next
    case long: False
    show ?thesis
    proof (cases "?p ! 0 \<noteq> 5 \<or> ?p ! 1 \<noteq> socks_method s")
      case True
      then have "socks_loop pton4 pton6 s (recv_add y c) = fail ''authentication method rejected'' s (recv_add y c)"
        using long nth2 assms(1) by (subst loop) auto
      from goes_on_fail [OF this] show ?thesis using True long assms(1) by (simp add: loop)
    next
      case ok: False
      let ?c = "mg_iobuf_del 2 c"
      have later: "socks_loop pton4 pton6 s (recv_add y c) = (if so_user s \<noteq> [] then ?auth (recv_add y ?c) else ?go (recv_add y ?c))"
        using ok long nth2 assms(1) recv_add_del [of 2 c y] by (subst loop) auto
      have now: "socks_loop pton4 pton6 s c = (if so_user s \<noteq> [] then ?auth ?c else ?go ?c)"
        using ok long assms(1) by (subst loop) auto
      have opn: "\<not> mc_closing ?c" using assms(1) by (simp add: mg_iobuf_del_def)
      show ?thesis
      proof (cases "so_user s = []")
        case True
        with request_goes_on [OF opn, of pton4 pton6 s y c] later now show ?thesis by simp
      next
        case False
        obtain sent c1 where snd: "mg_send (auth_packet ?s) ?c = (sent, c1)" by (cases "mg_send (auth_packet ?s) ?c")
        show ?thesis
        proof (cases sent)
          case True
          then have "goes_on pton4 pton6 y ?s c1 (socks_loop pton4 pton6 ?s c1)"
            using send_open [OF snd] opn by (intro auth_goes_on) auto
          then show ?thesis using True snd later now False by (auto simp: recv_add_send intro: goes_on_step)
        next
          case failed: False
          have "socks_loop pton4 pton6 s (recv_add y c) = fail ''cannot queue authentication'' ?s (recv_add y c1)"
            using later snd failed False by (simp add: recv_add_send)
          from goes_on_fail [OF this] show ?thesis using now snd failed False by simp
        qed
      qed
    qed
  qed
qed

lemma socks_loop_goes_on:
  assumes "\<not> mc_closing c" and "so_stage s \<notin> {SOCKS_READY, SOCKS_FAILED}"
  shows "goes_on pton4 pton6 y s c (socks_loop pton4 pton6 s c)"
proof (cases "so_stage s")
  case SOCKS_OFF
  then have "socks_loop pton4 pton6 s c = (0, s, c)" using assms by (subst socks_loop.simps) simp
  then show ?thesis using assms by (simp add: goes_on_wait)
qed (use assms greeting_goes_on auth_goes_on connect_goes_on in auto)

subsection \<open>The order and the size of the reads do not matter\<close>

text \<open>One read event: bytes are appended to the buffer, then the handler runs.\<close>

definition socks_read :: "pton \<Rightarrow> pton \<Rightarrow> int \<Rightarrow> rr_socks \<times> mg_connection \<Rightarrow> u8 list \<Rightarrow> int \<times> rr_socks \<times> mg_connection" where
  "socks_read pton4 pton6 mono_ms sc chunk = rr_socks_event pton4 pton6 mono_ms (fst sc) (recv_add chunk (snd sc)) MG_EV_READ"

fun socks_reads :: "pton \<Rightarrow> pton \<Rightarrow> int \<Rightarrow> rr_socks \<times> mg_connection \<Rightarrow> u8 list list \<Rightarrow> int list \<times> rr_socks \<times> mg_connection" where
  "socks_reads pton4 pton6 mono_ms sc [] = ([], sc)"
| "socks_reads pton4 pton6 mono_ms sc (chunk # chunks) =
     (let (r, sc) = socks_read pton4 pton6 mono_ms sc chunk;
          (rs, sc) = socks_reads pton4 pton6 mono_ms sc chunks
      in (r # rs, sc))"

text \<open>After the decision every further read keeps it.\<close>

lemma stays_failed:
  "so_stage s = SOCKS_FAILED \<Longrightarrow> s\<lparr>so_stage := SOCKS_FAILED\<rparr> = s"
  "mc_closing c \<Longrightarrow> c\<lparr>mc_recv := r, mc_closing := True\<rparr> = c\<lparr>mc_recv := r\<rparr>"
  by (cases s; cases c; simp)+

lemma reads_done:
  assumes "so_stage s = SOCKS_READY \<and> \<not> mc_closing c \<or> so_stage s = SOCKS_FAILED \<and> mc_closing c"
  shows "socks_reads pton4 pton6 ms (s, c) chunks =
      (replicate (length chunks) (if so_stage s = SOCKS_READY then 0 else - 1), s, recv_add (concat chunks) c)"
  using assms
  by (induction chunks arbitrary: c)
    (auto simp: socks_read_def rr_socks_event_def recv_add_def Let_def stays_failed)

lemma reads_concat:
  assumes "\<not> mc_closing c" and "so_stage s \<notin> {SOCKS_READY, SOCKS_FAILED}"
  shows "case socks_loop pton4 pton6 s (recv_add (concat (chunk # chunks)) c) of
    (r, sc) \<Rightarrow> \<exists>rs. socks_reads pton4 pton6 ms (s, c) (chunk # chunks) = (rs, sc) \<and>
      count_list rs 1 = (if r = 1 then 1 else 0) \<and> (- 1 \<in> set rs \<longleftrightarrow> r = - 1)"
  using assms
proof (induction chunks arbitrary: s c chunk)
  case Nil
  obtain r s1 c1 where l: "socks_loop pton4 pton6 s (recv_add chunk c) = (r, s1, c1)" by (metis prod_cases3)
  then have "socks_read pton4 pton6 ms (s, c) chunk = (r, s1, c1)"
    using Nil by (auto simp: socks_read_def rr_socks_event_def)
  then show ?case using l by auto
next
  case (Cons next_chunk chunks)
  let ?y = "concat (next_chunk # chunks)"
  obtain r s1 c1 where l: "socks_loop pton4 pton6 s (recv_add chunk c) = (r, s1, c1)" by (metis prod_cases3)
  then have read: "socks_read pton4 pton6 ms (s, c) chunk = (r, s1, c1)"
    using Cons.prems by (auto simp: socks_read_def rr_socks_event_def)
  have "recv_add (concat (chunk # next_chunk # chunks)) c = recv_add ?y (recv_add chunk c)" by (simp add: recv_add_def)
  moreover have "goes_on pton4 pton6 ?y s (recv_add chunk c) (r, s1, c1)"
    using socks_loop_goes_on [of "recv_add chunk c" s pton4 pton6 ?y, unfolded l] Cons.prems by simp
  ultimately consider
      (wait) "r = 0" "\<not> mc_closing c1" "so_stage s1 \<notin> {SOCKS_READY, SOCKS_FAILED}"
        "socks_loop pton4 pton6 s (recv_add (concat (chunk # next_chunk # chunks)) c) = socks_loop pton4 pton6 s1 (recv_add ?y c1)"
    | (settled) "r = 1 \<and> so_stage s1 = SOCKS_READY \<and> \<not> mc_closing c1 \<or> r = - 1 \<and> so_stage s1 = SOCKS_FAILED \<and> mc_closing c1"
        "socks_loop pton4 pton6 s (recv_add (concat (chunk # next_chunk # chunks)) c) = (r, s1, recv_add ?y c1)"
    by (auto simp: goes_on_def)
  then show ?case
  proof cases
    case wait
    obtain r' sc where l1: "socks_loop pton4 pton6 s1 (recv_add ?y c1) = (r', sc)" by (cases "socks_loop pton4 pton6 s1 (recv_add ?y c1)")
    from Cons.IH [OF wait(2,3), of next_chunk] l1 obtain rs where
      "socks_reads pton4 pton6 ms (s1, c1) (next_chunk # chunks) = (rs, sc)"
      "count_list rs 1 = (if r' = 1 then 1 else 0)" "- 1 \<in> set rs \<longleftrightarrow> r' = - 1" by auto
    with read wait l1 show ?thesis by auto
  next
    case settled
    then have "socks_reads pton4 pton6 ms (s1, c1) (next_chunk # chunks) =
        (replicate (Suc (length chunks)) (if so_stage s1 = SOCKS_READY then 0 else - 1), s1, recv_add ?y c1)"
      using reads_done [of s1 c1 pton4 pton6 ms "next_chunk # chunks"] by auto
    with read settled show ?thesis by (auto simp: count_list_0_iff)
  qed
qed

text \<open>C24: the negotiation does not depend on how the network cuts the stream. However the bytes of
  the proxy are distributed over read events, the final state, the packets sent, the bytes
  left for the application and the outcome are those of a single read of all of them, and
  the opening of the tunnel is reported exactly once.\<close>

theorem socks_reads_independent:
  assumes "\<not> mc_closing c" and "so_stage s \<notin> {SOCKS_READY, SOCKS_FAILED}" and "chunks \<noteq> []"
  shows "\<exists>r rs sc. socks_read pton4 pton6 ms (s, c) (concat chunks) = (r, sc) \<and>
    socks_reads pton4 pton6 ms (s, c) chunks = (rs, sc) \<and>
    count_list rs 1 = (if r = 1 then 1 else 0) \<and> (- 1 \<in> set rs \<longleftrightarrow> r = - 1)"
proof -
  obtain chunk rest where ch: "chunks = chunk # rest" using assms(3) by (cases chunks) auto
  have "socks_read pton4 pton6 ms (s, c) (concat chunks) = socks_loop pton4 pton6 s (recv_add (concat chunks) c)"
    using assms by (auto simp: socks_read_def rr_socks_event_def)
  moreover obtain r sc where l: "socks_loop pton4 pton6 s (recv_add (concat chunks) c) = (r, sc)"
    by (cases "socks_loop pton4 pton6 s (recv_add (concat chunks) c)")
  ultimately show ?thesis
    using reads_concat [OF assms(1,2), where chunk = chunk and chunks = rest and ms = ms and ?pton4.0 = pton4 and ?pton6.0 = pton6]
    unfolding ch [symmetric] l by auto
qed

subsection \<open>When the tunnel opens\<close>

text \<open>A complete reply to CONNECT that reports success.\<close>

definition success_reply :: "u8 list \<Rightarrow> bool" where
  "success_reply p \<longleftrightarrow> 4 \<le> length p \<and> p ! 0 = 5 \<and> p ! 1 = 0 \<and> p ! 2 = 0 \<and> connect_length p = Bytes (length p)"

lemma connect_length_take:
  assumes "4 \<le> length p" and "connect_length p = Bytes n" and "n \<le> length p"
  shows "connect_length (take n p) = Bytes n" and "7 \<le> n"
proof -
  show n: "7 \<le> n" using assms(2) by (auto simp: connect_length_def split: if_splits)
  then have "take n p ! 3 = p ! 3" "take n p ! 4 = p ! 4" "\<not> length (take n p) < 5" using assms(3) by auto
  moreover have "\<not> length p < 5" using n assms(3) by simp
  ultimately show "connect_length (take n p) = Bytes n"
    using assms(2) by (auto simp: connect_length_def split: if_splits)
qed

text \<open>The connection after the packets were sent and the replies consumed.\<close>

definition tunnel :: "u8 list \<Rightarrow> u8 list list \<Rightarrow> mg_connection \<Rightarrow> mg_connection" where
  "tunnel rest packets c = c\<lparr>mc_recv := rest, mc_sent := mc_sent c @ packets\<rparr>"

lemma tunnel_simps:
  "tunnel rest packets (c\<lparr>mc_recv := r\<rparr>) = tunnel rest packets c"
  "tunnel rest packets (c\<lparr>mc_recv := r, mc_sent := mc_sent c @ ps\<rparr>) = tunnel rest (ps @ packets) c"
  by (simp_all add: tunnel_def)

lemma connect_opens:
  assumes "\<not> mc_closing c" and "so_stage s = SOCKS_CONNECT"
  shows "socks_loop pton4 pton6 s c = (1, s', c') \<longleftrightarrow>
    (\<exists>reply rest. mc_recv c = reply @ rest \<and> success_reply reply \<and> s' = s\<lparr>so_stage := SOCKS_READY\<rparr> \<and> c' = tunnel rest [] c)"
    (is "?open \<longleftrightarrow> ?reply")
proof -
  let ?p = "mc_recv c"
  have loop: "socks_loop pton4 pton6 s c = connect_reply s c" using assms by (subst socks_loop.simps) simp
  show ?thesis
  proof
    assume ?open
    with loop obtain n where n: "4 \<le> length ?p" "?p ! 0 = 5" "?p ! 1 = 0" "?p ! 2 = 0" "connect_length ?p = Bytes n" "n \<le> length ?p"
      "s' = s\<lparr>so_stage := SOCKS_READY\<rparr>" "c' = mg_iobuf_del n c"
      by (auto simp: connect_reply_def fail_def Let_def split: if_splits reply_length.splits)
    note t = connect_length_take [OF n(1,5,6)]
    then have "success_reply (take n ?p)" using n by (simp add: success_reply_def min_def)
    with n show ?reply by (intro exI [of _ "take n ?p"] exI [of _ "drop n ?p"]) (simp add: mg_iobuf_del_def tunnel_def)
  next
    assume ?reply
    then obtain reply rest where r: "?p = reply @ rest" "success_reply reply" "s' = s\<lparr>so_stage := SOCKS_READY\<rparr>"
      "c' = tunnel rest [] c" by blast
    then have "connect_length ?p = Bytes (length reply)" using connect_length_append [of reply rest]
      by (auto simp: success_reply_def)
    moreover have "?p ! 0 = 5" "?p ! 1 = 0" "?p ! 2 = 0" "4 \<le> length ?p"
      using r(1,2) by (auto simp: success_reply_def nth_append)
    ultimately show ?open using r loop by (simp add: connect_reply_def mg_iobuf_del_def tunnel_def)
  qed
qed

lemma two_bytes: "2 \<le> length p \<and> p ! 0 = x \<and> p ! 1 = y \<longleftrightarrow> (\<exists>q. p = [x, y] @ q)"
  by (cases p; cases "tl p") auto

lemma connect_packet_stage [simp]: "connect_packet pton4 pton6 (s\<lparr>so_stage := st\<rparr>) = connect_packet pton4 pton6 s"
  by (simp add: connect_packet_def split: option.split)

lemma request_plenty:
  "mc_sends c = [] \<Longrightarrow> connect_request pton4 pton6 s c =
    (True, s\<lparr>so_stage := SOCKS_CONNECT\<rparr>, c\<lparr>mc_sent := mc_sent c @ [connect_packet pton4 pton6 s]\<rparr>)"
  by (cases c) (simp add: connect_request_def mg_send_def Let_def)

lemma auth_opens:
  assumes "\<not> mc_closing c" and "so_stage s = SOCKS_AUTH" and "mc_sends c = []"
  shows "socks_loop pton4 pton6 s c = (1, s', c') \<longleftrightarrow>
    (\<exists>reply rest. mc_recv c = [1, 0] @ reply @ rest \<and> success_reply reply \<and> s' = s\<lparr>so_stage := SOCKS_READY\<rparr> \<and>
       c' = tunnel rest [connect_packet pton4 pton6 s] c)"
proof (cases "\<exists>q. mc_recv c = [1, 0] @ q")
  case True
  then obtain q where q: "mc_recv c = [1, 0] @ q" by blast
  let ?s = "s\<lparr>so_stage := SOCKS_CONNECT\<rparr>" and ?c = "(mg_iobuf_del 2 c)\<lparr>mc_sent := mc_sent c @ [connect_packet pton4 pton6 s]\<rparr>"
  have "connect_request pton4 pton6 s (mg_iobuf_del 2 c) = (True, ?s, ?c)"
    using request_plenty [of "mg_iobuf_del 2 c" pton4 pton6 s] assms(3) by (simp add: mg_iobuf_del_def)
  then have "socks_loop pton4 pton6 s c = socks_loop pton4 pton6 ?s ?c"
    using assms(1,2) q by (subst socks_loop.simps) simp
  moreover have "mc_recv ?c = q" "\<not> mc_closing ?c" using q assms(1) by (simp_all add: mg_iobuf_del_def)
  ultimately show ?thesis using connect_opens [of ?c ?s pton4 pton6 s' c'] q by (simp add: mg_iobuf_del_def tunnel_simps)
next
  case False
  then have "\<not> (2 \<le> length (mc_recv c) \<and> mc_recv c ! 0 = 1 \<and> mc_recv c ! 1 = 0)" by (simp only: two_bytes) simp
  then have "socks_loop pton4 pton6 s c \<noteq> (1, s', c')"
    using assms(1,2) by (subst socks_loop.simps) (auto simp: fail_def Let_def not_less)
  with False show ?thesis by auto
qed

text \<open>What the proxy must have sent, and what was sent to it.\<close>

definition auth_reply :: "rr_socks \<Rightarrow> u8 list" where
  "auth_reply s = (if so_user s \<noteq> [] then [1, 0] else [])"

definition handshake_packets :: "pton \<Rightarrow> pton \<Rightarrow> rr_socks \<Rightarrow> u8 list list" where
  "handshake_packets pton4 pton6 s = (if so_user s \<noteq> [] then [auth_packet s] else []) @ [connect_packet pton4 pton6 s]"

text \<open>C25: the tunnel opens exactly when the proxy has accepted everything. The handler reports an
  open tunnel if and only if the bytes received are the acceptance of the offered method, the
  acceptance of the user name and password when there are any, and a complete CONNECT reply
  that reports success; it has then sent exactly the authentication and the CONNECT request,
  and leaves precisely the bytes behind the reply to the application.\<close>

theorem socks_opens_iff:
  assumes "\<not> mc_closing c" and "so_stage s = SOCKS_GREETING" and "mc_sends c = []"
  shows "rr_socks_event pton4 pton6 ms s c MG_EV_READ = (1, s', c') \<longleftrightarrow>
    (\<exists>reply rest. mc_recv c = [5, socks_method s] @ auth_reply s @ reply @ rest \<and> success_reply reply \<and>
       s' = s\<lparr>so_stage := SOCKS_READY\<rparr> \<and> c' = tunnel rest (handshake_packets pton4 pton6 s) c)"
proof -
  have event: "rr_socks_event pton4 pton6 ms s c MG_EV_READ = socks_loop pton4 pton6 s c"
    using assms(1,2) by (simp add: rr_socks_event_def)
  show ?thesis
  proof (cases "\<exists>q. mc_recv c = [5, socks_method s] @ q")
    case True
    then obtain q where q: "mc_recv c = [5, socks_method s] @ q" by blast
    show ?thesis
    proof (cases "so_user s = []")
      case True
      let ?s = "s\<lparr>so_stage := SOCKS_CONNECT\<rparr>" and ?c = "(mg_iobuf_del 2 c)\<lparr>mc_sent := mc_sent c @ [connect_packet pton4 pton6 s]\<rparr>"
      have "connect_request pton4 pton6 s (mg_iobuf_del 2 c) = (True, ?s, ?c)"
        using request_plenty [of "mg_iobuf_del 2 c" pton4 pton6 s] assms(3) by (simp add: mg_iobuf_del_def)
      then have "socks_loop pton4 pton6 s c = socks_loop pton4 pton6 ?s ?c"
        using assms(1,2) q True by (subst socks_loop.simps) simp
      moreover have "mc_recv ?c = q" "\<not> mc_closing ?c" using q assms(1) by (simp_all add: mg_iobuf_del_def)
      ultimately show ?thesis using connect_opens [of ?c ?s pton4 pton6 s' c'] q True event
        by (simp add: mg_iobuf_del_def tunnel_simps auth_reply_def handshake_packets_def)
    next
      case False
      let ?s = "s\<lparr>so_stage := SOCKS_AUTH\<rparr>" and ?c = "(mg_iobuf_del 2 c)\<lparr>mc_sent := mc_sent c @ [auth_packet s]\<rparr>"
      have "mg_send (auth_packet ?s) (mg_iobuf_del 2 c) = (True, ?c)"
        using assms(3) by (simp add: mg_send_def mg_iobuf_del_def auth_packet_def)
      then have "socks_loop pton4 pton6 s c = socks_loop pton4 pton6 ?s ?c"
        using assms(1,2) q False by (subst socks_loop.simps) simp
      moreover have "mc_recv ?c = q" "\<not> mc_closing ?c" "mc_sends ?c = []" using q assms(1,3) by (simp_all add: mg_iobuf_del_def)
      ultimately show ?thesis using auth_opens [of ?c ?s pton4 pton6 s' c'] q False event
        by (simp add: mg_iobuf_del_def tunnel_simps auth_reply_def handshake_packets_def)
    qed
  next
    case False
    then have "\<not> (2 \<le> length (mc_recv c) \<and> mc_recv c ! 0 = 5 \<and> mc_recv c ! 1 = socks_method s)" by (simp only: two_bytes) simp
    then have "socks_loop pton4 pton6 s c \<noteq> (1, s', c')"
      using assms(1,2) by (subst socks_loop.simps) (auto simp: fail_def Let_def not_less)
    with False event show ?thesis by auto
  qed
qed

text \<open>A client without a password on a proxy that answers in one piece.\<close>

definition plain_client :: rr_socks where
  "plain_client = snd (rr_socks_init (\<lambda>_. None) 0 (Some ''socks5://proxy:9050'') NULL NULL (Some ''irc.example'') 6667)"

definition fresh_connection :: mg_connection where
  "fresh_connection = \<lparr>mc_recv = [], mc_sent = [], mc_closing = False, mc_sends = [], mc_errors = []\<rparr>"

lemma plain_client_simps: "so_stage plain_client = SOCKS_GREETING" "so_user plain_client = []" "so_port plain_client = 6667"
  "so_host plain_client = ''irc.example''"
  by (simp_all add: plain_client_def rr_socks_init_def strip_scheme_def proxy_host_def proxy_port_def proxy_char_def host_char_def
      isalnum_def isdigit_def code_def digit_val_def)

theorem socks_opens_iff_witness:
  "rr_socks_event (\<lambda>_. None) (\<lambda>_. None) 7 plain_client (recv_add ([5, 0, 5, 0, 0, 1, 10, 0, 0, 1, 0, 80] @ [42]) fresh_connection) MG_EV_READ =
     (1, plain_client\<lparr>so_stage := SOCKS_READY\<rparr>, tunnel [42] [connect_packet (\<lambda>_. None) (\<lambda>_. None) plain_client]
        (recv_add [5, 0, 5, 0, 0, 1, 10, 0, 0, 1, 0, 80, 42] fresh_connection))"
proof -
  let ?c = "recv_add [5, 0, 5, 0, 0, 1, 10, 0, 0, 1, 0, 80, 42] fresh_connection"
  have "success_reply [5, 0, 0, 1, 10, 0, 0, 1, 0, 80]" by (simp add: success_reply_def connect_length_def)
  moreover have "mc_recv ?c = [5, socks_method plain_client] @ auth_reply plain_client @ [5, 0, 0, 1, 10, 0, 0, 1, 0, 80] @ [42]"
    by (simp add: fresh_connection_def socks_method_def auth_reply_def plain_client_simps)
  moreover have "handshake_packets (\<lambda>_. None) (\<lambda>_. None) plain_client = [connect_packet (\<lambda>_. None) (\<lambda>_. None) plain_client]"
    by (simp add: handshake_packets_def plain_client_simps)
  ultimately have "rr_socks_event (\<lambda>_. None) (\<lambda>_. None) 7 plain_client ?c MG_EV_READ =
      (1, plain_client\<lparr>so_stage := SOCKS_READY\<rparr>, tunnel [42] [connect_packet (\<lambda>_. None) (\<lambda>_. None) plain_client] ?c)"
    by (intro socks_opens_iff [THEN iffD2] exI [of _ "[5, 0, 0, 1, 10, 0, 0, 1, 0, 80]"] exI [of _ "[42]"])
      (simp_all add: fresh_connection_def plain_client_simps)
  then show ?thesis by simp
qed

theorem socks_reads_independent_witness:
  "\<exists>r rs sc. socks_read (\<lambda>_. None) (\<lambda>_. None) 7 (plain_client, fresh_connection) [5, 0, 5, 0, 0, 1, 10, 0] = (r, sc) \<and>
     socks_reads (\<lambda>_. None) (\<lambda>_. None) 7 (plain_client, fresh_connection) [[5], [0, 5], [0, 0, 1, 10, 0]] = (rs, sc)"
  using socks_reads_independent [of fresh_connection plain_client "[[5], [0, 5], [0, 0, 1, 10, 0]]" "\<lambda>_. None" "\<lambda>_. None" 7]
  by (auto simp: fresh_connection_def plain_client_simps)

subsection \<open>The buffers\<close>

lemma proxy_host_short: "proxy_host pton6 address = Some (ipv6, host, rest) \<Longrightarrow> length host \<le> 255"
  by (auto simp: proxy_host_def Let_def split: if_splits)

lemma port_loop_range: "port \<le> 65535 \<Longrightarrow> port_loop port s = Some (p, rest) \<Longrightarrow> p \<le> 65535"
  by (induction port s rule: port_loop.induct) (auto simp: Let_def split: if_splits)

lemma proxy_port_range: "proxy_port s = Some (p, rest) \<Longrightarrow> p \<le> 65535"
  by (auto simp: proxy_port_def split: if_splits option.splits dest: port_loop_range [of 0, rotated])

lemma length_show_nat: "n < 10 ^ k \<Longrightarrow> 0 < k \<Longrightarrow> length (show_nat n) \<le> k"
proof (induction k arbitrary: n)
  case (Suc k)
  show ?case
  proof (cases "n < 10")
    case True
    then show ?thesis by (subst show_nat.simps) simp
  next
    case False
    then have k: "0 < k" using Suc.prems(1) by (cases k) auto
    have "n div 10 < 10 ^ k" using Suc.prems(1) by (simp add: less_mult_imp_div_less mult.commute)
    with Suc.IH [of "n div 10"] k False show ?thesis by (subst show_nat.simps) simp
  qed
qed simp

lemma init_accepts:
  assumes "rr_socks_init pton6 ms url user pass host port = (True, s)"
  shows "so_stage s = SOCKS_GREETING \<and> so_host s \<noteq> [] \<and> length (so_host s) \<le> 255 \<and> length (so_user s) \<le> 255 \<and>
    length (so_pass s) \<le> 255 \<and> (so_user s = [] \<longleftrightarrow> so_pass s = []) \<and> so_port s = port \<and> port \<noteq> 0"
  using assms by (auto simp: rr_socks_init_def Let_def split: option.splits if_splits prod.splits)

lemma init_url:
  assumes "rr_socks_init pton6 ms url user pass host port = (True, s)"
  shows "\<exists>ipv6 proxy p. so_url s = ''tcp://'' @ (if ipv6 then ''['' else []) @ proxy @ (if ipv6 then '']'' else []) @ '':'' @ show_nat p \<and>
    length proxy \<le> 255 \<and> p \<le> 65535"
proof -
  obtain u h where uh: "url = Some u" "host = Some h"
    using assms by (cases url; cases host) (auto simp: rr_socks_init_def)
  obtain address where ad: "strip_scheme u = Some address"
    using assms uh by (cases "strip_scheme u") (auto simp: rr_socks_init_def split: if_splits)
  obtain ipv6 proxy suffix where a: "proxy_host pton6 address = Some (ipv6, proxy, suffix)"
    using assms uh ad by (cases "proxy_host pton6 address") (auto simp: rr_socks_init_def split: if_splits)
  obtain p rest where b: "proxy_port suffix = Some (p, rest)"
    using assms uh ad a by (cases "proxy_port suffix") (auto simp: rr_socks_init_def split: if_splits)
  have url: "so_url s = take 1023 (''tcp://'' @ (if ipv6 then ''['' else []) @ proxy @ (if ipv6 then '']'' else []) @ '':'' @ show_nat p)"
    using assms uh ad a b by (auto simp: rr_socks_init_def Let_def split: if_splits)
  have len: "length proxy \<le> 255" "p \<le> 65535" using proxy_host_short [OF a] proxy_port_range [OF b] by auto
  then have "length (show_nat p) \<le> 5" by (intro length_show_nat) auto
  with len url show ?thesis by (intro exI [of _ ipv6] exI [of _ proxy] exI [of _ p]) (simp, arith)
qed

text \<open>An accepted configuration fits every buffer of the negotiation. The authentication packet
  has at most 513 and the CONNECT packet at most 262 bytes, the sizes of their buffers; the
  length bytes are the lengths, none is cut to eight bits; and the URL is not truncated.\<close>

theorem socks_packets_fit:
  assumes "\<forall>h ip. pton4 h = Some ip \<longrightarrow> length ip = 4" and "\<forall>h ip. pton6 h = Some ip \<longrightarrow> length ip = 16"
    and "rr_socks_init pton6 ms url user pass host port = (True, s)"
  shows "length (auth_packet s) \<le> 513 \<and> length (connect_packet pton4 pton6 s) \<le> 262 \<and>
    unat (auth_packet s ! 1) = length (so_user s) \<and> unat (auth_packet s ! (2 + length (so_user s))) = length (so_pass s) \<and>
    length (so_url s) < 1023 \<and> length (so_host s) \<le> 255 \<and> so_port s \<noteq> 0"
proof -
  note acc = init_accepts [OF assms(3)]
  have byte: "unat (of_nat n :: u8) = n" if "n \<le> 255" for n using that by (simp add: unsigned_of_nat take_bit_nat_eq_self)
  obtain ipv6 proxy p where "so_url s = ''tcp://'' @ (if ipv6 then ''['' else []) @ proxy @ (if ipv6 then '']'' else []) @ '':'' @ show_nat p"
    "length proxy \<le> 255" "p \<le> 65535" using init_url [OF assms(3)] by blast
  then have "length (so_url s) < 1023" using length_show_nat [of p 5] by simp
  moreover have "length (auth_packet s) \<le> 513" using acc by (simp add: auth_packet_def bytes_of_def)
  moreover have "length (connect_packet pton4 pton6 s) \<le> 262"
    using acc assms(1,2) by (auto simp: connect_packet_def bytes_of_def split: option.split)
  moreover have "auth_packet s ! (2 + length (so_user s)) = of_nat (length (so_pass s))"
    by (simp add: auth_packet_def bytes_of_def nth_append)
  ultimately show ?thesis using acc byte by (auto simp: auth_packet_def)
qed

theorem socks_packets_fit_witness:
  "length (connect_packet (\<lambda>_. None) (\<lambda>_. None) plain_client) \<le> 262 \<and> length (so_url plain_client) < 1023"
proof -
  have "rr_socks_init (\<lambda>_. None) 0 (Some ''socks5://proxy:9050'') NULL NULL (Some ''irc.example'') 6667 = (True, plain_client)"
    by (simp add: plain_client_def rr_socks_init_def strip_scheme_def proxy_host_def proxy_port_def proxy_char_def host_char_def
      isalnum_def isdigit_def code_def digit_val_def)
  from socks_packets_fit [OF _ _ this, of "\<lambda>_. None"] show ?thesis by auto
qed

end
