(* ===== verification/Irc_Format.thy ===== *)
theory Irc_Format
  imports C_Numbers
begin

text \<open>
  The IRC colour codes of \<open>irc.format.c\<close>, shared by the renderers: the palette, the terminal
  colours of the extended indices, and the parser of a colour control with its parameters.
\<close>

subsection \<open>Palette\<close>

definition palette :: "string list" where
  "palette =
     [''#ffffff'', ''#000000'', ''#00007f'', ''#009300'', ''#ff0000'', ''#7f0000'', ''#9c009c'', ''#fc7f00'',
      ''#ffff00'', ''#00fc00'', ''#009393'', ''#00ffff'', ''#0000fc'', ''#ff00ff'', ''#7f7f7f'', ''#d2d2d2'',
      ''#470000'', ''#472100'', ''#474700'', ''#324700'', ''#004700'', ''#00472c'', ''#004747'', ''#002747'',
      ''#000047'', ''#2e0047'', ''#470047'', ''#47002a'', ''#740000'', ''#743a00'', ''#747400'', ''#517400'',
      ''#007400'', ''#007449'', ''#007474'', ''#004074'', ''#000074'', ''#4b0074'', ''#740074'', ''#740045'',
      ''#b50000'', ''#b56300'', ''#b5b500'', ''#7db500'', ''#00b500'', ''#00b571'', ''#00b5b5'', ''#0063b5'',
      ''#0000b5'', ''#7500b5'', ''#b500b5'', ''#b5006b'', ''#ff0000'', ''#ff8c00'', ''#ffff00'', ''#b2ff00'',
      ''#00ff00'', ''#00ffa0'', ''#00ffff'', ''#008cff'', ''#0000ff'', ''#a500ff'', ''#ff00ff'', ''#ff0098'',
      ''#ff5959'', ''#ffb459'', ''#ffff71'', ''#cfff60'', ''#6fff6f'', ''#65ffc9'', ''#6dffff'', ''#59b4ff'',
      ''#5959ff'', ''#c459ff'', ''#ff66ff'', ''#ff59bc'', ''#ff9c9c'', ''#ffd39c'', ''#ffff9c'', ''#e2ff9c'',
      ''#9cff9c'', ''#9cffdb'', ''#9cffff'', ''#9cd3ff'', ''#9c9cff'', ''#dc9cff'', ''#ff9cff'', ''#ff94d3'',
      ''#000000'', ''#131313'', ''#282828'', ''#363636'', ''#4d4d4d'', ''#656565'', ''#818181'', ''#9f9f9f'',
      ''#bcbcbc'', ''#e2e2e2'', ''#ffffff'']"

definition irc_color_rgb :: "nat \<Rightarrow> string ptr" where
  "irc_color_rgb index = (if index < 99 then Some (palette ! index) else NULL)"

definition ansi_extended :: "nat list" where
  "ansi_extended =
     [52, 94, 100, 58, 22, 29, 23, 24, 17, 54, 53, 89,
      88, 130, 142, 64, 28, 35, 30, 25, 18, 91, 90, 125,
      124, 166, 184, 106, 34, 49, 37, 33, 19, 129, 127, 161,
      196, 208, 226, 154, 46, 86, 51, 75, 21, 171, 201, 198,
      203, 215, 227, 191, 83, 122, 87, 111, 63, 177, 207, 205,
      217, 223, 229, 193, 157, 158, 159, 153, 147, 183, 219, 212,
      16, 233, 235, 237, 239, 241, 244, 247, 250, 254, 231]"

definition irc_color_ansi_extended :: "nat \<Rightarrow> nat" where
  "irc_color_ansi_extended index = (if 16 \<le> index \<and> index \<le> 98 then ansi_extended ! (index - 16) else 0)"

subsection \<open>Parsing\<close>

record irc_color =
  ic_hex :: bool
  ic_reset :: bool
  ic_background :: bool
  ic_foreground :: nat
  ic_bg :: nat

text \<open>The value of a digit in the base of the control, if it is one.\<close>

definition color_digit :: "bool \<Rightarrow> char \<Rightarrow> nat option" where
  "color_digit hex c =
     (if isdigit c then Some (code c - 48)
      else if hex \<and> 97 \<le> code c \<and> code c \<le> 102 then Some (code c - 87)
      else if hex \<and> 65 \<le> code c \<and> code c \<le> 70 then Some (code c - 55)
      else None)"

text \<open>The loop over at most \<open>limit\<close> digits: how many there are, and their value.\<close>

fun component_loop :: "bool \<Rightarrow> nat \<Rightarrow> string \<Rightarrow> nat \<Rightarrow> nat \<Rightarrow> nat \<times> nat" where
  "component_loop hex 0 p result count = (count, result)"
| "component_loop hex (Suc limit) [] result count = (count, result)"
| "component_loop hex (Suc limit) (c # p) result count =
     (case color_digit hex c of
        None \<Rightarrow> (count, result)
      | Some digit \<Rightarrow> component_loop hex limit p (result * (if hex then 16 else 10) + digit) (Suc count))"

text \<open>The number of characters, 0 for none, and the value stored.\<close>

definition color_component :: "string \<Rightarrow> bool \<Rightarrow> nat \<Rightarrow> nat \<times> nat" where
  "color_component p hex value =
     (let (count, result) = component_loop hex (if hex then 6 else 2) p 0 0
      in if hex \<and> count \<noteq> 6 then (0, value) else (count, result))"

definition no_color :: irc_color where
  "no_color = \<lparr>ic_hex = False, ic_reset = False, ic_background = False, ic_foreground = 0, ic_bg = 0\<rparr>"

definition irc_color_parse :: "string ptr \<Rightarrow> nat \<times> irc_color" where
  "irc_color_parse input =
     (case input of
        None \<Rightarrow> (0, no_color)
      | Some [] \<Rightarrow> (0, no_color)
      | Some (ctrl # s) \<Rightarrow>
          if ctrl \<noteq> CHR 0x03 \<and> ctrl \<noteq> CHR 0x04 then (0, no_color)
          else
            let color = no_color\<lparr>ic_hex := (ctrl = CHR 0x04)\<rparr>;
                (foreground, fg) = color_component s (ic_hex color) 0
            in if foreground = 0 then (1, color\<lparr>ic_foreground := fg, ic_reset := True\<rparr>)
               else
                 let color = color\<lparr>ic_foreground := fg\<rparr>;
                     used = 1 + foreground;
                     rest = drop foreground s
                 in if rest \<noteq> [] \<and> hd rest = CHR '','' then
                      (let (background, bg) = color_component (tl rest) (ic_hex color) 0
                       in if background \<noteq> 0
                          then (used + 1 + background, color\<lparr>ic_bg := bg, ic_background := True\<rparr>)
                          else (used, color\<lparr>ic_bg := bg\<rparr>))
                    else (used, color))"

subsection \<open>What the parser accepts\<close>

lemma color_digit_bound: "color_digit hex c = Some d \<Longrightarrow> d < (if hex then 16 else 10)"
  by (auto simp: color_digit_def isdigit_def split: if_splits)

lemma component_loop_bounds:
  assumes "component_loop hex limit p result count = (n, v)" and "result < (if hex then 16 else 10) ^ count"
  shows "count \<le> n \<and> n \<le> count + limit \<and> n \<le> count + length p \<and> v < (if hex then 16 else 10) ^ n"
  using assms
proof (induction hex limit p result count rule: component_loop.induct)
  case (3 hex limit c p result count)
  show ?case
  proof (cases "color_digit hex c")
    case (Some d)
    let ?b = "if hex then 16 else 10 :: nat"
    have "d < ?b" using color_digit_bound [OF Some] .
    moreover have "Suc result * ?b \<le> ?b ^ count * ?b" using 3(3) by (intro mult_right_mono) auto
    ultimately have "result * ?b + d < ?b ^ Suc count" by (cases hex) auto
    with 3(1) [OF Some] 3(2) Some show ?thesis by (auto split: if_splits)
  qed (use 3 in auto)
qed auto

lemma color_component_bounds:
  assumes "color_component p hex 0 = (n, v)"
  shows "n \<le> length p \<and> n \<le> 6 \<and> v < 2 ^ 24 \<and> (hex \<or> n \<le> 2 \<and> v \<le> 99)"
proof -
  obtain c r where l: "component_loop hex (if hex then 6 else 2) p 0 0 = (c, r)"
    by (cases "component_loop hex (if hex then 6 else 2) p 0 0")
  from component_loop_bounds [OF this] have b: "c \<le> (if hex then 6 else 2)" "c \<le> length p" "r < (if hex then 16 else 10) ^ c" by auto
  moreover have "(if hex then 16 else 10 :: nat) ^ c \<le> (if hex then 16 ^ 6 else 10 ^ 2)"
    using b(1) power_increasing [of c 6 "16 :: nat"] power_increasing [of c 2 "10 :: nat"] by auto
  ultimately show ?thesis using assms l by (auto simp: color_component_def split: if_splits)
qed

text \<open>A colour control never takes more than it should. The parser takes nothing from a text
  that does not begin with a control, at least the control otherwise, never more characters
  than there are and never more than the control and two components; indices are at most 99
  and colours have 24 bits, so that no table is read out of bounds.\<close>

theorem irc_parse_bounds:
  "case irc_color_parse (Some s) of (used, color) \<Rightarrow>
     used \<le> length s \<and> used \<le> (if ic_hex color then 14 else 6) \<and>
     (used = 0 \<longleftrightarrow> s = [] \<or> hd s \<notin> {CHR 0x03, CHR 0x04}) \<and>
     (if ic_hex color then ic_foreground color < 2 ^ 24 \<and> ic_bg color < 2 ^ 24
      else ic_foreground color \<le> 99 \<and> ic_bg color \<le> 99)"
proof (cases s)
  case Nil
  then show ?thesis by (simp add: irc_color_parse_def no_color_def)
next
  case (Cons ctrl t)
  let ?hex = "ctrl = CHR 0x04"
  obtain n v where f: "color_component t ?hex 0 = (n, v)" by (cases "color_component t ?hex 0")
  obtain m w where g: "color_component (tl (drop n t)) ?hex 0 = (m, w)" by (cases "color_component (tl (drop n t)) ?hex 0")
  note color_component_bounds [OF f] color_component_bounds [OF g]
  with Cons f g show ?thesis
    by (auto simp: irc_color_parse_def no_color_def Let_def split: if_splits)
qed

subsection \<open>Round trip\<close>

definition two_digits_of :: "nat \<Rightarrow> string" where
  "two_digits_of n = [digit_char (n div 10), digit_char (n mod 10)]"

lemma color_digit_char [simp]: "d < 10 \<Longrightarrow> color_digit hex (digit_char d) = Some d"
  by (simp add: color_digit_def code_digit_char isdigit_digit_char)

lemma component_two: "n \<le> 99 \<Longrightarrow> color_component (two_digits_of n @ r) False 0 = (2, n)"
  by (simp add: color_component_def two_digits_of_def numeral_2_eq_2)

text \<open>Colours written with two digits read back, whatever follows them: also a text that
  begins with a digit, or, behind a foreground alone, anything but a comma.\<close>

theorem irc_color_roundtrip:
  assumes "fg \<le> 99" and "bg \<le> 99"
  shows "irc_color_parse (Some ([CHR 0x03] @ two_digits_of fg @ '','' @ two_digits_of bg @ rest)) =
      (6, no_color\<lparr>ic_foreground := fg, ic_bg := bg, ic_background := True\<rparr>)"
    and "rest = [] \<or> hd rest \<noteq> CHR '','' \<Longrightarrow> irc_color_parse (Some ([CHR 0x03] @ two_digits_of fg @ rest)) =
      (3, no_color\<lparr>ic_foreground := fg\<rparr>)"
proof -
  have len: "drop 2 (two_digits_of n @ r) = r" for n r by (simp add: two_digits_of_def)
  show "irc_color_parse (Some ([CHR 0x03] @ two_digits_of fg @ '','' @ two_digits_of bg @ rest)) =
      (6, no_color\<lparr>ic_foreground := fg, ic_bg := bg, ic_background := True\<rparr>)"
    using component_two [OF assms(1), of "'','' @ two_digits_of bg @ rest"] component_two [OF assms(2), of rest]
      len [of fg "'','' @ two_digits_of bg @ rest"]
    by (simp add: irc_color_parse_def no_color_def)
  show "irc_color_parse (Some ([CHR 0x03] @ two_digits_of fg @ rest)) = (3, no_color\<lparr>ic_foreground := fg\<rparr>)"
    if "rest = [] \<or> hd rest \<noteq> CHR '',''"
    using that component_two [OF assms(1), of rest] len [of fg rest] by (auto simp: irc_color_parse_def no_color_def)
qed

end
