(* ===== verification/Tui_Theme.thy ===== *)
theory Tui_Theme
  imports Irc_Format
begin

text \<open>
  The text conversions of \<open>tui.theme.c\<close>: IRC formatting to terminal escapes
  (\<open>irc_to_tui_colors\<close>), style tags in braces (\<open>tui_colorize_string\<close>), and the removal of IRC
  formatting (\<open>strip_mirc_formatting\<close>). The outcome of \<open>malloc\<close> is the first allocation outcome,
  as elsewhere. The buffers are checked separately: the properties bound the length of every
  result by the size its buffer is allocated with.
\<close>

subsection \<open>Tables\<close>

abbreviation ESC :: char where "ESC \<equiv> CHR 0x1B"

definition csi :: "string \<Rightarrow> string" where
  "csi s = ESC # CHR ''['' # s"

definition ansi_table :: "(string \<times> string) list" where
  "ansi_table =
     [(''reset'', csi ''0m''), (''bold'', csi ''1m''), (''dim'', csi ''2m''), (''italic'', csi ''3m''),
      (''underline'', csi ''4m''), (''blink'', csi ''5m''), (''reverse'', csi ''7m''), (''hidden'', csi ''8m''),
      (''strike'', csi ''9m''), (''bold-off'', csi ''22m''), (''dim-off'', csi ''22m''), (''italic-off'', csi ''23m''),
      (''underline-off'', csi ''24m''), (''blink-off'', csi ''25m''), (''reverse-off'', csi ''27m''),
      (''hidden-off'', csi ''28m''), (''strike-off'', csi ''29m'')]"

definition ansi_code :: "string \<Rightarrow> string ptr" where
  "ansi_code tag = map_of ansi_table tag"

definition foreground :: "string list" where
  "foreground =
     [''97'', ''30'', ''34'', ''32'', ''91'', ''38;5;94'', ''35'', ''38;5;208'',
      ''93'', ''92'', ''36'', ''96'', ''94'', ''95'', ''90'', ''37'']"

definition background :: "string list" where
  "background =
     [''107'', ''40'', ''44'', ''42'', ''101'', ''48;5;94'', ''45'', ''48;5;208'',
      ''103'', ''102'', ''46'', ''106'', ''104'', ''105'', ''100'', ''47'']"

subsection \<open>IRC formatting to terminal escapes\<close>

text \<open>The escape of one component: \<open>True\<close> for the background.\<close>

definition color_escape :: "bool \<Rightarrow> irc_color \<Rightarrow> string" where
  "color_escape component color =
     (let value = (if component then ic_bg color else ic_foreground color);
          prefix = (if component then 48 else 38)
      in if ic_hex color then
           csi (show_nat prefix @ '';2;'' @ show_nat (value div 2 ^ 16) @ '';'' @ show_nat (value div 2 ^ 8 mod 256) @ '';'' @
                show_nat (value mod 256) @ ''m'')
         else if value = 99 then csi ((if component then ''49'' else ''39'') @ ''m'')
         else if value < 16 then csi ((if component then background ! value else foreground ! value) @ ''m'')
         else csi (show_nat prefix @ '';5;'' @ show_nat (irc_color_ansi_extended value) @ ''m''))"

definition color_escapes :: "irc_color \<Rightarrow> string" where
  "color_escapes color =
     (if ic_reset color then csi ''39;49m''
      else color_escape False color @ (if ic_background color then color_escape True color else []))"

record irc_style =
  st_bold :: bool
  st_underline :: bool
  st_reverse :: bool
  st_italic :: bool
  st_strike :: bool

definition plain_style :: irc_style where
  "plain_style = \<lparr>st_bold = False, st_underline = False, st_reverse = False, st_italic = False, st_strike = False\<rparr>"

text \<open>A control other than a colour: what is written and the style that follows.\<close>

definition style_control :: "char \<Rightarrow> irc_style \<Rightarrow> string \<times> irc_style" where
  "style_control c st =
     (if c = CHR 0x02 then (csi (if st_bold st then ''22m'' else ''1m''), st\<lparr>st_bold := \<not> st_bold st\<rparr>)
      else if c = CHR 0x0F then (csi ''0m'', plain_style)
      else if c = CHR 0x16 then (csi (if st_reverse st then ''27m'' else ''7m''), st\<lparr>st_reverse := \<not> st_reverse st\<rparr>)
      else if c = CHR 0x1D then (csi (if st_italic st then ''23m'' else ''3m''), st\<lparr>st_italic := \<not> st_italic st\<rparr>)
      else if c = CHR 0x1E then (csi (if st_strike st then ''29m'' else ''9m''), st\<lparr>st_strike := \<not> st_strike st\<rparr>)
      else if c = CHR 0x1F then (csi (if st_underline st then ''24m'' else ''4m''), st\<lparr>st_underline := \<not> st_underline st\<rparr>)
      else if c = CHR 0x11 then ([], st)
      else ([c], st))"

definition is_color :: "char \<Rightarrow> bool" where
  "is_color c \<longleftrightarrow> c = CHR 0x03 \<or> c = CHR 0x04"

function irc_loop :: "irc_style \<Rightarrow> string \<Rightarrow> string" where
  "irc_loop st [] = []"
| "irc_loop st (c # s) =
     (if is_color c then
        (let (used, color) = irc_color_parse (Some (c # s))
         in color_escapes color @ irc_loop st (drop (used - 1) s))
      else
        (let (out, st) = style_control c st in out @ irc_loop st s))"
  by pat_completeness auto

termination by (relation "measure (\<lambda>(st, s). length s)") auto

definition irc_to_tui_colors :: "string ptr \<Rightarrow> alloc \<Rightarrow> string ptr \<times> alloc" where
  "irc_to_tui_colors inp a =
     (case inp of
        None \<Rightarrow> (NULL, a)
      | Some s \<Rightarrow>
          if length s > (2 ^ 64 - 1 - 64) div 32 then (NULL, a)
          else let (ok, a) = malloc_ok a in (if ok then Some (irc_loop plain_style s) else NULL, a))"

subsection \<open>Tags\<close>

definition irc_control :: "char \<Rightarrow> bool" where
  "irc_control c \<longleftrightarrow> c \<in> {CHR 0x03, CHR 0x04, CHR 0x02, CHR 0x11, CHR 0x16, CHR 0x1D, CHR 0x1E, CHR 0x1F, CHR 0x0F}"

definition isalpha :: "char \<Rightarrow> bool" where
  "isalpha c \<longleftrightarrow> 65 \<le> code c \<and> code c \<le> 90 \<or> 97 \<le> code c \<and> code c \<le> 122"

text \<open>A control sequence behind its \<open>[\<close>: up to and with the first letter.\<close>

definition csi_length :: "string \<Rightarrow> nat" where
  "csi_length s =
     (let n = length (takeWhile (\<lambda>c. \<not> isalpha c) s) in if n < length s then Suc n else n)"

text \<open>\<open>colors\<close> is the setting \<open>cfg_tui_colors\<close>; \<open>converted\<close> tells that IRC formatting was converted before.\<close>

function colorize_loop :: "bool \<Rightarrow> bool \<Rightarrow> string \<Rightarrow> string" where
  "colorize_loop colors converted [] = []"
| "colorize_loop colors converted (c # s) =
     (if c = ESC then
        (case s of
           [] \<Rightarrow> []
         | d # t \<Rightarrow>
             if d = CHR ''['' then
               (let n = csi_length t
                in (if converted \<and> colors then csi (take n t) else []) @ colorize_loop colors converted (drop n t))
             else colorize_loop colors converted s)
      else if c = CHR ''{'' then
        (let key = takeWhile (\<lambda>x. x \<noteq> CHR ''}'') s in
         if length key = length s then c # colorize_loop colors converted s
         else case ansi_code (take 63 key) of
           None \<Rightarrow> c # colorize_loop colors converted s
         | Some esc \<Rightarrow>
             (if colors then esc else []) @ colorize_loop colors converted (drop (Suc (length key)) s))
      else c # colorize_loop colors converted s)"
  by pat_completeness auto

termination by (relation "measure (\<lambda>(colors, converted, s). length s)") auto

definition tui_colorize_string :: "bool \<Rightarrow> string ptr \<Rightarrow> alloc \<Rightarrow> string ptr \<times> alloc" where
  "tui_colorize_string colors inp a =
     (case inp of
        None \<Rightarrow> (NULL, a)
      | Some s \<Rightarrow>
          let (irc, a) = (if list_ex irc_control s then irc_to_tui_colors inp a else (NULL, a));
              text = (case irc of Some t \<Rightarrow> t | None \<Rightarrow> s);
              (ok, a) = malloc_ok a
          in (if ok then Some (colorize_loop colors (irc \<noteq> NULL) text) else NULL, a))"

subsection \<open>Removing formatting\<close>

definition strip_control :: "char \<Rightarrow> bool" where
  "strip_control c \<longleftrightarrow> c \<in> {CHR 0x02, CHR 0x1D, CHR 0x1F, CHR 0x0F, CHR 0x11, CHR 0x16, CHR 0x1E}"

function strip_loop :: "string \<Rightarrow> string" where
  "strip_loop [] = []"
| "strip_loop (c # s) =
     (if strip_control c then strip_loop s
      else if is_color c then strip_loop (drop (fst (irc_color_parse (Some (c # s))) - 1) s)
      else c # strip_loop s)"
  by pat_completeness auto

termination by (relation "measure length") auto

definition strip_mirc_formatting :: "string ptr \<Rightarrow> alloc \<Rightarrow> string ptr \<times> alloc" where
  "strip_mirc_formatting input a =
     (case input of
        None \<Rightarrow> (NULL, a)
      | Some s \<Rightarrow> let (ok, a) = malloc_ok a in (if ok then Some (strip_loop s) else NULL, a))"

subsection \<open>Escapes\<close>

text \<open>A terminal escape of this module: no letter before the final \<open>m\<close>.\<close>

definition escape :: "string \<Rightarrow> bool" where
  "escape e \<longleftrightarrow> (\<exists>body. e = csi (body @ ''m'') \<and> list_all (\<lambda>c. \<not> isalpha c) body)"

lemma escapeI: "list_all (\<lambda>c. \<not> isalpha c) body \<Longrightarrow> escape (csi (body @ ''m''))"
  by (auto simp: escape_def)

lemma digit_not_alpha: "isdigit c \<Longrightarrow> \<not> isalpha c"
  by (auto simp: isalpha_def isdigit_def)

lemma digits_not_alpha: "list_all (\<lambda>c. \<not> isalpha c) (show_nat n)"
  unfolding list_all_iff using show_nat_digits digit_not_alpha by blast

lemma table_not_alpha:
  "n < 16 \<Longrightarrow> list_all (\<lambda>c. \<not> isalpha c) (foreground ! n) \<and> list_all (\<lambda>c. \<not> isalpha c) (background ! n) \<and>
     length (foreground ! n) \<le> 8 \<and> length (background ! n) \<le> 8"
proof -
  have ok: "list_all (\<lambda>s. list_all (\<lambda>c. \<not> isalpha c) s \<and> length s \<le> 8) (foreground @ background)"
    by (simp add: foreground_def background_def isalpha_def code_def)
  have "length foreground = 16" "length background = 16" by (simp_all add: foreground_def background_def)
  moreover assume "n < 16"
  ultimately have "foreground ! n \<in> set (foreground @ background)" "background ! n \<in> set (foreground @ background)" by simp_all
  then show ?thesis using ok unfolding list_all_iff by blast
qed

lemma csi_append: "csi (s @ t) = csi s @ t"
  by (simp add: csi_def)

lemma length_show_byte: "n < 256 \<Longrightarrow> length (show_nat n) \<le> 3"
  by (subst show_nat.simps, subst show_nat.simps, subst show_nat.simps) auto

lemma ansi_extended_byte: "irc_color_ansi_extended n < 256"
proof -
  have "list_all (\<lambda>x. x < 256) ansi_extended" by (simp add: ansi_extended_def)
  moreover have "length ansi_extended = 83" by (simp add: ansi_extended_def)
  ultimately show ?thesis by (auto simp: irc_color_ansi_extended_def list_all_length)
qed

lemma color_escape_ok:
  assumes "if ic_hex color then ic_foreground color < 2 ^ 24 \<and> ic_bg color < 2 ^ 24
      else ic_foreground color \<le> 99 \<and> ic_bg color \<le> 99"
  shows "escape (color_escape component color) \<and> length (color_escape component color) \<le> 19"
proof -
  let ?v = "if component then ic_bg color else ic_foreground color" and ?p = "if component then 48 else 38 :: nat"
  have "show_nat 48 = ''48'' \<and> show_nat 38 = ''38''" by code_simp
  then have p: "show_nat ?p = (if component then ''48'' else ''38'')" by simp
  have dig: "\<not> isalpha (CHR '';'')" "\<not> isalpha (CHR ''2'')" "\<not> isalpha (CHR ''3'')" "\<not> isalpha (CHR ''4'')" "\<not> isalpha (CHR ''5'')"
    "\<not> isalpha (CHR ''8'')" "\<not> isalpha (CHR ''9'')" by (simp_all add: isalpha_def code_def)
  consider (hex) "ic_hex color" | (default) "\<not> ic_hex color" "?v = 99" | (low) "\<not> ic_hex color" "?v < 16"
    | (high) "\<not> ic_hex color" "?v \<noteq> 99" "16 \<le> ?v" by linarith
  then show ?thesis
  proof cases
    case hex
    let ?r = "?v div 2 ^ 16" and ?g = "?v div 2 ^ 8 mod 256" and ?b = "?v mod 256"
    have "?v < 2 ^ 24" using assms hex by auto
    then have "?r < 256" by (simp add: less_mult_imp_div_less)
    then have len: "length (show_nat ?r) \<le> 3" "length (show_nat ?g) \<le> 3" "length (show_nat ?b) \<le> 3"
      by (intro length_show_byte; simp)+
    have e: "color_escape component color = csi ((show_nat ?p @ '';2;'' @ show_nat ?r @ '';'' @ show_nat ?g @ '';'' @ show_nat ?b) @ ''m'')"
      using hex by (simp add: color_escape_def Let_def)
    have "escape (color_escape component color)" unfolding e by (rule escapeI) (simp add: digits_not_alpha dig p)
    moreover have "length (color_escape component color) \<le> 19" unfolding e p using len by (cases component) (simp_all add: csi_def)
    ultimately show ?thesis by simp
  next
    case default
    then show ?thesis
      using escapeI [of "''49''"] escapeI [of "''39''"] dig by (auto simp: color_escape_def Let_def csi_def)
  next
    case low
    let ?t = "if component then background ! ?v else foreground ! ?v"
    have e: "color_escape component color = csi (?t @ ''m'')" using low by (simp add: color_escape_def Let_def)
    have "list_all (\<lambda>c. \<not> isalpha c) ?t" "length ?t \<le> 8"
      using table_not_alpha [of "ic_bg color"] table_not_alpha [of "ic_foreground color"] low(2) by (cases component; simp)+
    moreover have "escape (csi (?t @ ''m''))" by (rule escapeI) fact
    ultimately show ?thesis unfolding e csi_def by simp
  next
    case high
    let ?n = "show_nat (irc_color_ansi_extended ?v)"
    have e: "color_escape component color = csi ((show_nat ?p @ '';5;'' @ ?n) @ ''m'')"
      using high by (simp add: color_escape_def Let_def)
    have "escape (color_escape component color)" unfolding e by (rule escapeI) (simp add: digits_not_alpha dig p)
    moreover have "length (color_escape component color) \<le> 19"
      unfolding e p using length_show_byte [OF ansi_extended_byte, of ?v] by (cases component) (simp_all add: csi_def)
    ultimately show ?thesis by simp
  qed
qed

lemma parse_color:
  assumes "is_color c" and "irc_color_parse (Some (c # s)) = (used, color)"
  shows "1 \<le> used \<and> used \<le> Suc (length s) \<and> length (color_escapes color) \<le> 32 * used"
proof -
  have b: "used \<le> Suc (length s)" "used \<noteq> 0"
    "if ic_hex color then ic_foreground color < 2 ^ 24 \<and> ic_bg color < 2 ^ 24 else ic_foreground color \<le> 99 \<and> ic_bg color \<le> 99"
    using irc_parse_bounds [of "c # s"] assms by (auto simp: is_color_def)
  have "ic_background color \<Longrightarrow> 4 \<le> used"
    using assms by (auto simp: irc_color_parse_def no_color_def Let_def is_color_def split: if_splits prod.splits)
  with b color_escape_ok [OF b(3), of True] color_escape_ok [OF b(3), of False]
  show ?thesis by (auto simp: color_escapes_def csi_def)
qed

lemma style_control_out: "style_control c st = (out, st') \<Longrightarrow> length out \<le> 5"
  by (auto simp: style_control_def csi_def split: if_splits)

lemma irc_loop_length: "length (irc_loop st s) \<le> 32 * length s"
proof (induction st s rule: irc_loop.induct)
  case (2 st c s)
  show ?case
  proof (cases "is_color c")
    case True
    obtain used color where p: "irc_color_parse (Some (c # s)) = (used, color)" by (cases "irc_color_parse (Some (c # s))")
    from parse_color [OF True p] have b: "1 \<le> used" "used \<le> Suc (length s)" "length (color_escapes color) \<le> 32 * used" by auto
    have "length (irc_loop st (drop (used - 1) s)) \<le> 32 * length (drop (used - 1) s)" using 2(1) [OF True p [symmetric] refl] .
    then show ?thesis using True p b by simp
  next
    case False
    obtain out st' where p: "style_control c st = (out, st')" by (cases "style_control c st")
    have "length (irc_loop st' s) \<le> 32 * length s" using 2(2) [OF False p [symmetric] refl] .
    then show ?thesis using False p style_control_out [OF p] by simp
  qed
qed simp

lemma ansi_code_length: "ansi_code k = Some e \<Longrightarrow> length e \<le> length k + 2"
  using map_of_SomeD [of ansi_table k e] by (auto simp: ansi_code_def ansi_table_def csi_def)

lemma csi_length_le: "csi_length s \<le> length s"
  using length_takeWhile_le [of "\<lambda>c. \<not> isalpha c" s] by (simp add: csi_length_def Let_def)

text \<open>The cases of \<^const>\<open>colorize_loop\<close>, for inductions on the length.\<close>

lemma colorize_cases:
  obtains (nil) "s = []"
  | (lone) c where "s = [c]" "c = ESC" 
  | (esc) t where "s = ESC # CHR ''['' # t"
      "\<And>conv. colorize_loop colors conv s = (if conv \<and> colors then csi (take (csi_length t) t) else []) @ colorize_loop colors conv (drop (csi_length t) t)"
  | (skip) d t where "s = ESC # d # t" "\<And>conv. colorize_loop colors conv s = colorize_loop colors conv (d # t)"
  | (tag) t key e where "s = CHR ''{'' # t" "key = takeWhile (\<lambda>x. x \<noteq> CHR ''}'') t" "length key < length t"
      "ansi_code (take 63 key) = Some e"
      "\<And>conv. colorize_loop colors conv s = (if colors then e else []) @ colorize_loop colors conv (drop (Suc (length key)) t)"
  | (plain) c t where "s = c # t" "c \<noteq> ESC" "\<And>conv. colorize_loop colors conv s = c # colorize_loop colors conv t"
proof (cases s)
  case Nil
  then show ?thesis by (rule nil)
next
  case s: (Cons c t)
  show ?thesis
  proof (cases "c = ESC")
    case True
    show ?thesis
    proof (cases t)
      case Nil
      then show ?thesis using lone s True by blast
    next
      case (Cons d u)
      show ?thesis
      proof (cases "d = CHR ''[''")
        case True
        then show ?thesis using esc [of u] s Cons \<open>c = ESC\<close> by (simp add: Let_def)
      next
        case False
        then show ?thesis using skip [of d u] s Cons \<open>c = ESC\<close> by simp
      qed
    qed
  next
    case False
    let ?key = "takeWhile (\<lambda>x. x \<noteq> CHR ''}'') t"
    show ?thesis
    proof (cases "c = CHR ''{'' \<and> length ?key \<noteq> length t \<and> ansi_code (take 63 ?key) \<noteq> None")
      case True
      then obtain e where e: "ansi_code (take 63 ?key) = Some e" by blast
      show ?thesis
        by (rule tag [of t ?key e]) (use s True e length_takeWhile_le [of "\<lambda>x. x \<noteq> CHR ''}''" t] in \<open>simp_all add: Let_def\<close>)
    next
      case no_tag: False
      show ?thesis by (rule plain [of c t]) (use s False no_tag in \<open>auto simp: Let_def\<close>)
    qed
  qed
qed

lemma colorize_length: "length (colorize_loop colors conv s) \<le> length s"
proof (induction s rule: length_induct)
  case (1 s)
  then have IH: "length t < length s \<Longrightarrow> length (colorize_loop colors conv t) \<le> length t" for t by blast
  show ?case
  proof (cases rule: colorize_cases [where s = s and colors = colors])
    case (esc t)
    have "length (colorize_loop colors conv (drop (csi_length t) t)) \<le> length (drop (csi_length t) t)"
      by (rule IH) (simp add: esc(1))
    then show ?thesis unfolding esc(2) unfolding esc(1) using csi_length_le [of t] by (cases "conv \<and> colors") (auto simp: csi_def)
  next
    case (tag t key e)
    have "length (colorize_loop colors conv (drop (Suc (length key)) t)) \<le> length (drop (Suc (length key)) t)"
      by (rule IH) (simp add: tag(1))
    then show ?thesis unfolding tag(5) unfolding tag(1) using ansi_code_length [OF tag(4)] tag(3) by (auto simp: min_def split: if_splits)
  next
    case (skip d t)
    show ?thesis unfolding skip(2) using IH [of "d # t"] by (simp add: skip(1))
  next
    case (plain c t)
    show ?thesis unfolding plain(3) using IH [of t] by (simp add: plain(1))
  qed simp_all
qed

lemma csi_length_escape: "list_all (\<lambda>c. \<not> isalpha c) body \<Longrightarrow> csi_length (body @ CHR ''m'' # r) = Suc (length body)"
proof -
  assume "list_all (\<lambda>c. \<not> isalpha c) body"
  then have "takeWhile (\<lambda>c. \<not> isalpha c) (body @ CHR ''m'' # r) = body"
    by (subst takeWhile_append2) (auto simp: list_all_iff isalpha_def code_def)
  then show ?thesis by (simp add: csi_length_def Let_def)
qed

lemma colorize_escape: "escape e \<Longrightarrow> colorize_loop False conv (e @ r) = colorize_loop False conv r"
  unfolding escape_def by (auto simp: csi_def csi_length_escape Let_def)

lemma colorize_escapes: "(if ic_hex color then ic_foreground color < 2 ^ 24 \<and> ic_bg color < 2 ^ 24 else ic_foreground color \<le> 99 \<and> ic_bg color \<le> 99)
  \<Longrightarrow> colorize_loop False conv (color_escapes color @ r) = colorize_loop False conv r"
proof -
  assume b: "if ic_hex color then ic_foreground color < 2 ^ 24 \<and> ic_bg color < 2 ^ 24 else ic_foreground color \<le> 99 \<and> ic_bg color \<le> 99"
  have "escape (csi ''39;49m'')" using escapeI [of "''39;49''"] by (simp add: isalpha_def code_def)
  then show ?thesis using color_escape_ok [OF b] by (simp add: color_escapes_def colorize_escape)
qed

lemma style_escapes: "list_all (\<lambda>e. escape (csi e)) [''0m'', ''1m'', ''22m'', ''27m'', ''7m'', ''23m'', ''3m'', ''29m'', ''9m'', ''24m'', ''4m'']"
proof -
  have d: "list_all (list_all (\<lambda>c. \<not> isalpha c)) [''0'', ''1'', ''22'', ''27'', ''7'', ''23'', ''3'', ''29'', ''9'', ''24'', ''4'']"
    by (simp add: isalpha_def code_def)
  then show ?thesis using escapeI [of "''0''"] escapeI [of "''1''"] escapeI [of "''22''"] escapeI [of "''27''"] escapeI [of "''7''"]
    escapeI [of "''23''"] escapeI [of "''3''"] escapeI [of "''29''"] escapeI [of "''9''"] escapeI [of "''24''"] escapeI [of "''4''"]
    by simp
qed

lemma style_escape:
  assumes "style_control c st = (out, st')"
  shows "if strip_control c then out = [] \<or> escape out else out = [c]"
proof -
  have "fst (style_control c st) = [] \<or> escape (fst (style_control c st))" if "strip_control c"
    using that style_escapes unfolding strip_control_def by (auto simp: style_control_def)
  moreover have "fst (style_control c st) = [c]" if "\<not> strip_control c"
    using that by (simp add: style_control_def strip_control_def)
  ultimately show ?thesis using assms by simp
qed

lemma colorize_no_tags:
  "\<lbrakk>ESC \<notin> set s; CHR ''{'' \<notin> set s\<rbrakk> \<Longrightarrow> colorize_loop colors conv s = s"
  by (induction s) auto

lemma irc_control_cases: "irc_control c \<longleftrightarrow> is_color c \<or> strip_control c"
  by (auto simp: irc_control_def is_color_def strip_control_def)

lemma strip_no_controls: "list_all (\<lambda>c. \<not> irc_control c) s \<Longrightarrow> strip_loop s = s"
  by (induction s) (auto simp: irc_control_cases)

lemma strip_clean: "list_all (\<lambda>c. \<not> irc_control c) (strip_loop s)"
  by (induction s rule: strip_loop.induct) (auto simp: irc_control_cases)

lemma strip_loop_subset: "set (strip_loop s) \<subseteq> set s"
  by (induction s rule: strip_loop.induct) (auto dest: in_set_dropD)

lemma colorize_irc:
  "\<lbrakk>ESC \<notin> set s; CHR ''{'' \<notin> set s\<rbrakk> \<Longrightarrow> colorize_loop False conv (irc_loop st s) = strip_loop s"
proof (induction st s rule: irc_loop.induct)
  case (2 st c s)
  show ?case
  proof (cases "is_color c")
    case True
    obtain used color where p: "irc_color_parse (Some (c # s)) = (used, color)" by (cases "irc_color_parse (Some (c # s))")
    have b: "if ic_hex color then ic_foreground color < 2 ^ 24 \<and> ic_bg color < 2 ^ 24 else ic_foreground color \<le> 99 \<and> ic_bg color \<le> 99"
      using irc_parse_bounds [of "c # s"] p by auto
    have "colorize_loop False conv (irc_loop st (drop (used - 1) s)) = strip_loop (drop (used - 1) s)"
      using 2(1) [OF True p [symmetric] refl] 2(3,4) by (auto dest: in_set_dropD)
    moreover have "\<not> strip_control c" using True by (auto simp: strip_control_def is_color_def)
    ultimately show ?thesis using True p colorize_escapes [OF b] by simp
  next
    case False
    obtain out st' where p: "style_control c st = (out, st')" by (cases "style_control c st")
    have IH: "colorize_loop False conv (irc_loop st' s) = strip_loop s"
      using 2(2) [OF False p [symmetric] refl] 2(3,4) by auto
    show ?thesis
    proof (cases "strip_control c")
      case True
      then have "out = [] \<or> escape out" using style_escape [OF p] by simp
      then show ?thesis using True False p IH by (auto simp: colorize_escape)
    next
      case plain: False
      then have "out = [c]" using style_escape [OF p] by simp
      then show ?thesis using plain False p IH 2(3,4) by auto
    qed
  qed
qed simp

lemma theme_lengths:
  shows "case fst (irc_to_tui_colors (Some s) a) of None \<Rightarrow> True | Some t \<Rightarrow> length t + 1 \<le> 32 * length s + 64"
    and "case fst (tui_colorize_string colors (Some s) a) of None \<Rightarrow> True | Some t \<Rightarrow> length t \<le> 32 * length s"
    and "case fst (strip_mirc_formatting (Some s) a) of None \<Rightarrow> True
      | Some t \<Rightarrow> length t \<le> length s \<and> list_all (\<lambda>c. \<not> irc_control c) t"
proof -
  have strip: "length (strip_loop s) \<le> length s"
  proof (induction s rule: strip_loop.induct)
    case (2 c s)
    then show ?case by (cases "strip_control c"; cases "is_color c") auto
  qed simp
  show "case fst (irc_to_tui_colors (Some s) a) of None \<Rightarrow> True | Some t \<Rightarrow> length t + 1 \<le> 32 * length s + 64"
    using irc_loop_length [of plain_style s] by (auto simp: irc_to_tui_colors_def split: prod.splits)
  show "case fst (tui_colorize_string colors (Some s) a) of None \<Rightarrow> True | Some t \<Rightarrow> length t \<le> 32 * length s"
    using order_trans [OF colorize_length irc_loop_length [of plain_style s]] order_trans [OF colorize_length, of s "32 * length s"]
    by (auto simp: tui_colorize_string_def irc_to_tui_colors_def Let_def split: prod.splits)
  show "case fst (strip_mirc_formatting (Some s) a) of None \<Rightarrow> True
      | Some t \<Rightarrow> length t \<le> length s \<and> list_all (\<lambda>c. \<not> irc_control c) t"
    using strip strip_clean [of s] by (auto simp: strip_mirc_formatting_def split: prod.splits)
qed

text \<open>No text conversion writes behind its buffer: \<open>irc_to_tui_colors\<close> allocates \<open>32 * len + 64\<close> bytes
  and needs at most \<open>32 * len + 1\<close>, whatever colours and style controls the text has; expanding the
  tags never makes a text longer, and \<open>strip_mirc_formatting\<close> leaves a text no longer than its input
  in which no formatting control is left.\<close>

theorem theme_text_fits:
  "(case fst (irc_to_tui_colors (Some s) a) of None \<Rightarrow> True | Some t \<Rightarrow> length t + 1 \<le> 32 * length s + 64) \<and>
    (case fst (tui_colorize_string colors (Some s) a) of None \<Rightarrow> True | Some t \<Rightarrow> length t \<le> 32 * length s) \<and>
    (case fst (strip_mirc_formatting (Some s) a) of None \<Rightarrow> True
      | Some t \<Rightarrow> length t \<le> length s \<and> list_all (\<lambda>c. \<not> irc_control c) t)"
  by (intro conjI theme_lengths)

text \<open>C22: with colours switched off the terminal shows what a log file gets: for a text without terminal
  escapes and style tags, converting the IRC formatting to escapes and then dropping the escapes
  (\<open>tui_colorize_string\<close>) leaves the same text as removing the formatting directly
  (\<open>strip_mirc_formatting\<close>), although the two routines parse it independently.\<close>

theorem colors_off_strips:
  assumes "ESC \<notin> set s" and "CHR ''{'' \<notin> set s" and "length s \<le> 500000000000000000"
  shows "fst (tui_colorize_string False (Some s) []) = fst (strip_mirc_formatting (Some s) [])"
proof (cases "list_ex irc_control s")
  case True
  have "irc_to_tui_colors (Some s) [] = (Some (irc_loop plain_style s), [])"
    using assms(3) by (simp add: irc_to_tui_colors_def)
  then show ?thesis using True colorize_irc [OF assms(1,2)]
    by (simp add: tui_colorize_string_def strip_mirc_formatting_def)
next
  case False
  then have "strip_loop s = s" by (intro strip_no_controls) (simp add: list_all_iff list_ex_iff)
  then show ?thesis using False colorize_no_tags [OF assms(1,2)]
    by (simp add: tui_colorize_string_def strip_mirc_formatting_def)
qed

lemma colors_off_strips_witness:
  "fst (tui_colorize_string False (Some (CHR 0x02 # ''a'' @ [CHR 0x03] @ ''4,1b'')) []) =
     fst (strip_mirc_formatting (Some (CHR 0x02 # ''a'' @ [CHR 0x03] @ ''4,1b'')) [])"
  by (rule colors_off_strips) simp_all

text \<open>The comment in \<open>tui_colorize_string\<close> says foreign control sequences are consumed; one formatting
  control anywhere in the text lets them through to the terminal.\<close>

lemma foreign_sequences_pass:
  assumes "ESC \<notin> set s" and "CHR ''{'' \<notin> set s" and "list_all (\<lambda>c. \<not> irc_control c) s" and "length s \<le> 500000000000000000"
  shows "fst (tui_colorize_string True (Some (CHR 0x02 # csi ''2J'' @ s)) []) = Some (csi ''1m'' @ csi ''2J'' @ s)"
    and "fst (tui_colorize_string True (Some (csi ''2J'' @ s)) []) = Some s"
proof -
  have irc: "irc_loop st r = r" if "list_all (\<lambda>c. \<not> irc_control c) r" for st r
    using that
  proof (induction r arbitrary: st)
    case (Cons c r)
    then show ?case by (auto simp: irc_control_def is_color_def style_control_def)
  qed simp
  have l: "csi_length (CHR ''2'' # CHR ''J'' # r) = 2" "csi_length (CHR ''1'' # CHR ''m'' # r) = 2" for r
    by (simp_all add: csi_length_def isalpha_def code_def)
  have plain: "list_all (\<lambda>c. \<not> irc_control c) (csi ''2J'' @ s)" using assms(3) by (simp add: csi_def irc_control_def)
  have "irc_loop plain_style (CHR 0x02 # csi ''2J'' @ s) = csi ''1m'' @ csi ''2J'' @ s"
    using irc [OF plain] by (simp add: is_color_def style_control_def plain_style_def)
  then show "fst (tui_colorize_string True (Some (CHR 0x02 # csi ''2J'' @ s)) []) = Some (csi ''1m'' @ csi ''2J'' @ s)"
    using assms(4) colorize_no_tags [OF assms(1,2)]
    by (simp add: tui_colorize_string_def irc_to_tui_colors_def irc_control_def csi_def l)
  have "\<not> list_ex irc_control (csi ''2J'' @ s)" using plain by (simp add: list_all_iff list_ex_iff)
  then show "fst (tui_colorize_string True (Some (csi ''2J'' @ s)) []) = Some s"
    using colorize_no_tags [OF assms(1,2)] by (simp add: tui_colorize_string_def csi_def l)
qed
end
