(* ===== verification/Line_Editor.thy ===== *)
theory Line_Editor
  imports Prelude
begin

text \<open>
  The input line of \<open>tui.keys.c\<close>: the buffer of 512 bytes, its length and the cursor, with the
  editing operations that the key handler performs on it. A \<open>memmove\<close> or a store outside the
  buffer has no defined result. The specification is a text with a cursor, a pair of what is
  before and what is behind it; every operation implements its counterpart on that pair.
\<close>

subsection \<open>The buffer\<close>

abbreviation TUI_INPUTLEN :: nat where "TUI_INPUTLEN \<equiv> 512"

record input_line =
  il_buf :: string
  il_len :: nat
  il_cursor :: nat

definition memmove :: "nat \<Rightarrow> nat \<Rightarrow> nat \<Rightarrow> 'a list \<Rightarrow> 'a list comp" where
  "memmove dst src n buf =
     (if dst + n \<le> length buf \<and> src + n \<le> length buf
      then Some (take dst buf @ take n (drop src buf) @ drop (dst + n) buf) else None)"

definition put_char :: "nat \<Rightarrow> char \<Rightarrow> string \<Rightarrow> string comp" where
  "put_char i c buf = (if i < length buf then Some (buf[i := c]) else None)"

text \<open>\<open>strlcpy\<close> into the buffer.\<close>

definition strlcpy :: "string \<Rightarrow> string \<Rightarrow> string" where
  "strlcpy buf s = (let t = take (length buf - 1) s in t @ [NUL] @ drop (Suc (length t)) buf)"

subsection \<open>Operations\<close>

definition le_home :: "input_line \<Rightarrow> input_line" where
  "le_home l = l\<lparr>il_cursor := 0\<rparr>"

definition le_end :: "input_line \<Rightarrow> input_line" where
  "le_end l = l\<lparr>il_cursor := il_len l\<rparr>"

definition le_left :: "input_line \<Rightarrow> input_line" where
  "le_left l = (if il_cursor l > 0 then l\<lparr>il_cursor := il_cursor l - 1\<rparr> else l)"

definition le_right :: "input_line \<Rightarrow> input_line" where
  "le_right l = (if il_cursor l < il_len l then l\<lparr>il_cursor := il_cursor l + 1\<rparr> else l)"

text \<open>The loops that move an index over blanks or over a word.\<close>

fun skip_left :: "(char \<Rightarrow> bool) \<Rightarrow> string \<Rightarrow> nat \<Rightarrow> nat" where
  "skip_left P buf 0 = 0"
| "skip_left P buf (Suc n) = (if P (buf ! n) then skip_left P buf n else Suc n)"

function skip_right :: "(char \<Rightarrow> bool) \<Rightarrow> string \<Rightarrow> nat \<Rightarrow> nat \<Rightarrow> nat" where
  "skip_right P buf len n = (if n < len \<and> P (buf ! n) then skip_right P buf len (Suc n) else n)"
  by pat_completeness auto

termination by (relation "measure (\<lambda>(P, buf, len, n). len - n)") auto

declare skip_right.simps [simp del]

definition word_start :: "string \<Rightarrow> nat \<Rightarrow> nat" where
  "word_start buf n = skip_left (\<lambda>c. c \<noteq> CHR '' '') buf (skip_left (\<lambda>c. c = CHR '' '') buf n)"

definition le_word_left :: "input_line \<Rightarrow> input_line" where
  "le_word_left l = l\<lparr>il_cursor := word_start (il_buf l) (il_cursor l)\<rparr>"

definition le_word_right :: "input_line \<Rightarrow> input_line" where
  "le_word_right l = l\<lparr>il_cursor := skip_right (\<lambda>c. c = CHR '' '') (il_buf l) (il_len l)
     (skip_right (\<lambda>c. c \<noteq> CHR '' '') (il_buf l) (il_len l) (il_cursor l))\<rparr>"

definition le_backspace :: "input_line \<Rightarrow> input_line comp" where
  "le_backspace l =
     (if il_cursor l > 0 then
        do {
          buf \<leftarrow> memmove (il_cursor l - 1) (il_cursor l) (il_len l - il_cursor l + 1) (il_buf l);
          Some \<lparr>il_buf = buf, il_len = il_len l - 1, il_cursor = il_cursor l - 1\<rparr>
        }
      else Some l)"

definition le_delete :: "input_line \<Rightarrow> input_line comp" where
  "le_delete l =
     (if il_cursor l < il_len l then
        do {
          buf \<leftarrow> memmove (il_cursor l) (il_cursor l + 1) (il_len l - il_cursor l) (il_buf l);
          Some (l\<lparr>il_buf := buf, il_len := il_len l - 1\<rparr>)
        }
      else Some l)"

definition le_kill_word :: "input_line \<Rightarrow> input_line comp" where
  "le_kill_word l =
     (if il_cursor l > 0 then
        let start = word_start (il_buf l) (il_cursor l) in
        do {
          buf \<leftarrow> memmove start (il_cursor l) (il_len l - il_cursor l + 1) (il_buf l);
          Some \<lparr>il_buf = buf, il_len = il_len l - (il_cursor l - start), il_cursor = start\<rparr>
        }
      else Some l)"

definition le_kill_end :: "input_line \<Rightarrow> input_line comp" where
  "le_kill_end l =
     do { buf \<leftarrow> put_char (il_cursor l) NUL (il_buf l); Some (l\<lparr>il_buf := buf, il_len := il_cursor l\<rparr>) }"

definition le_clear :: "input_line \<Rightarrow> input_line comp" where
  "le_clear l = do { buf \<leftarrow> put_char 0 NUL (il_buf l); Some \<lparr>il_buf = buf, il_len = 0, il_cursor = 0\<rparr> }"

definition le_insert :: "char \<Rightarrow> input_line \<Rightarrow> input_line comp" where
  "le_insert c l =
     (if il_len l < TUI_INPUTLEN - 1 then
        do {
          buf \<leftarrow> memmove (il_cursor l + 1) (il_cursor l) (il_len l - il_cursor l + 1) (il_buf l);
          buf \<leftarrow> put_char (il_cursor l) c buf;
          Some \<lparr>il_buf = buf, il_len = il_len l + 1, il_cursor = il_cursor l + 1\<rparr>
        }
      else Some l)"

text \<open>Recalling a line of the history: Up takes the length of what was copied, Down that of the line.\<close>

definition le_recall :: "string \<Rightarrow> input_line \<Rightarrow> input_line comp" where
  "le_recall s l =
     (let buf = strlcpy (il_buf l) s; n = length (takeWhile (\<lambda>c. c \<noteq> NUL) buf) in
      do { buf \<leftarrow> put_char n NUL buf; Some \<lparr>il_buf = buf, il_len = n, il_cursor = n\<rparr> })"

definition le_recall_next :: "string \<Rightarrow> input_line \<Rightarrow> input_line comp" where
  "le_recall_next s l =
     (let n = length s in
      do { buf \<leftarrow> put_char n NUL (strlcpy (il_buf l) s); Some \<lparr>il_buf = buf, il_len = n, il_cursor = n\<rparr> })"

subsection \<open>Texts with a cursor\<close>

type_synonym zipper = "string \<times> string"

definition line_ok :: "input_line \<Rightarrow> bool" where
  "line_ok l \<longleftrightarrow>
     length (il_buf l) = TUI_INPUTLEN \<and> il_cursor l \<le> il_len l \<and> il_len l < TUI_INPUTLEN \<and>
     il_buf l ! il_len l = NUL \<and> cstr (take (il_len l) (il_buf l))"

definition view :: "input_line \<Rightarrow> zipper" where
  "view l = (take (il_cursor l) (il_buf l), take (il_len l - il_cursor l) (drop (il_cursor l) (il_buf l)))"

text \<open>A line that is shown as \<open>before @ after\<close>.\<close>

definition shows_as :: "input_line \<Rightarrow> string \<Rightarrow> string \<Rightarrow> bool" where
  "shows_as l before after \<longleftrightarrow>
     (\<exists>rest. il_buf l = before @ after @ NUL # rest \<and> il_len l = length before + length after \<and> il_cursor l = length before \<and>
        length (il_buf l) = TUI_INPUTLEN \<and> cstr before \<and> cstr after)"

lemma shows_as_iff: "shows_as l before after \<longleftrightarrow> line_ok l \<and> view l = (before, after)"
proof
  assume "shows_as l before after"
  then show "line_ok l \<and> view l = (before, after)"
    by (auto simp: shows_as_def line_ok_def view_def nth_append)
next
  assume r: "line_ok l \<and> view l = (before, after)"
  let ?b = "il_buf l" and ?c = "il_cursor l" and ?n = "il_len l"
  have ok: "length ?b = TUI_INPUTLEN" "?c \<le> ?n" "?n < TUI_INPUTLEN" "?b ! ?n = NUL" "cstr (take ?n ?b)"
    and v: "before = take ?c ?b" "after = take (?n - ?c) (drop ?c ?b)"
    using r by (simp_all add: line_ok_def view_def)
  have "take ?n ?b = before @ after" using v ok(2) by (metis le_add_diff_inverse take_add)
  moreover have "?b = take ?n ?b @ NUL # drop (Suc ?n) ?b" using ok id_take_nth_drop [of ?n ?b] by simp
  ultimately show "shows_as l before after" using v ok by (auto simp: shows_as_def)
qed

subsection \<open>Each operation on the text\<close>

lemma shows_asE:
  assumes "shows_as l before after"
  obtains rest where "l = \<lparr>il_buf = before @ after @ NUL # rest, il_len = length before + length after, il_cursor = length before\<rparr>"
    and "length before + length after + length rest = TUI_INPUTLEN - 1" and "cstr before" and "cstr after"
proof -
  obtain rest where r: "il_buf l = before @ after @ NUL # rest" "il_len l = length before + length after"
    "il_cursor l = length before" "length (il_buf l) = TUI_INPUTLEN" "cstr before" "cstr after"
    using assms by (auto simp: shows_as_def)
  have "l = \<lparr>il_buf = il_buf l, il_len = il_len l, il_cursor = il_cursor l\<rparr>" by simp
  with r(1-3) have "l = \<lparr>il_buf = before @ after @ NUL # rest, il_len = length before + length after, il_cursor = length before\<rparr>" by simp
  moreover have "length before + length after + length rest = TUI_INPUTLEN - 1" using r(1,4) by simp
  ultimately show thesis using r(5,6) that by blast
qed

lemma shows_asI:
  "length before + length after + length rest = TUI_INPUTLEN - 1 \<Longrightarrow> cstr before \<Longrightarrow> cstr after \<Longrightarrow>
     n = length before + length after \<Longrightarrow> c = length before \<Longrightarrow> b = before @ after @ NUL # rest \<Longrightarrow>
     shows_as \<lparr>il_buf = b, il_len = n, il_cursor = c\<rparr> before after"
  by (simp add: shows_as_def)

lemma cstr_sub: "cstr s \<Longrightarrow> set t \<subseteq> set s \<Longrightarrow> cstr t"
  by (auto simp: cstr_def)

lemma skip_left_prefix:
  "n \<le> length before \<Longrightarrow> skip_left P (before @ rest) n = length (rev (dropWhile P (rev (take n before))))"
proof (induction n)
  case (Suc n)
  then have "take (Suc n) before = take n before @ [before ! n]" by (simp add: take_Suc_conv_app_nth)
  moreover have "(before @ rest) ! n = before ! n" using Suc.prems by (simp add: nth_append)
  ultimately show ?case using Suc by (simp add: Suc_leD)
qed simp

lemma skip_right_suffix:
  "skip_right P (before @ after @ rest) (length before + length after) (length before) =
    length before + length (takeWhile P after)"
proof (induction after arbitrary: before)
  case Nil
  then show ?case by (subst skip_right.simps) simp
next
  case (Cons x after)
  show ?case
  proof (cases "P x")
    case True
    with Cons.IH [of "before @ [x]"] show ?thesis by (subst skip_right.simps) (simp add: nth_append)
  next
    case False
    then show ?thesis by (subst skip_right.simps) (simp add: nth_append)
  qed
qed

text \<open>The text before the cursor without its last word and the blanks behind it.\<close>

definition drop_word :: "string \<Rightarrow> string" where
  "drop_word before = rev (dropWhile (\<lambda>c. c \<noteq> CHR '' '') (dropWhile (\<lambda>c. c = CHR '' '') (rev before)))"

lemma drop_word_prefix: "\<exists>w. before = drop_word before @ w"
proof -
  let ?P = "\<lambda>c. c \<noteq> CHR '' ''" and ?Q = "\<lambda>c. c = CHR '' ''"
  have "before = rev (takeWhile ?Q (rev before) @ takeWhile ?P (dropWhile ?Q (rev before)) @ dropWhile ?P (dropWhile ?Q (rev before)))"
    by simp
  also have "\<dots> = drop_word before @ rev (takeWhile ?P (dropWhile ?Q (rev before))) @ rev (takeWhile ?Q (rev before))"
    by (simp only: drop_word_def rev_append append_assoc)
  finally show ?thesis by blast
qed

lemma word_start_text: "word_start (before @ rest) (length before) = length (drop_word before)"
proof -
  let ?t = "rev (dropWhile (\<lambda>c. c = CHR '' '') (rev before))"
  have t: "\<exists>w. before = ?t @ w"
    by (metis rev_append rev_rev_ident takeWhile_dropWhile_id)
  then have "take (length ?t) before = ?t" by (metis append_eq_conv_conj)
  moreover have "length ?t \<le> length before" using t by (metis le_add1 length_append)
  ultimately show ?thesis
    using skip_left_prefix [of "length before" before _ rest] skip_left_prefix [of "length ?t" before _ rest]
    by (simp add: word_start_def drop_word_def)
qed

lemma home_shows: "shows_as l b a \<Longrightarrow> shows_as (le_home l) [] (b @ a)"
  by (elim shows_asE) (auto simp: le_home_def intro!: shows_asI)

lemma end_shows: "shows_as l b a \<Longrightarrow> shows_as (le_end l) (b @ a) []"
  by (elim shows_asE) (auto simp: le_end_def intro!: shows_asI)

lemma left_shows: "shows_as l b a \<Longrightarrow> shows_as (le_left l) (butlast b) (drop (length b - 1) b @ a)"
  by (elim shows_asE, cases b rule: rev_cases) (auto simp: le_left_def intro!: shows_asI)

lemma right_shows: "shows_as l b a \<Longrightarrow> shows_as (le_right l) (b @ take 1 a) (tl a)"
  by (elim shows_asE, cases a) (auto simp: le_right_def intro!: shows_asI)

lemma word_left_shows:
  assumes "shows_as l b a"
  shows "shows_as (le_word_left l) (drop_word b) (drop (length (drop_word b)) b @ a)"
proof -
  obtain w where w: "b = drop_word b @ w" using drop_word_prefix by blast
  then have d: "drop (length (drop_word b)) b = w" by (metis append_eq_conv_conj)
  from assms obtain rest where l: "l = \<lparr>il_buf = b @ a @ NUL # rest, il_len = length b + length a, il_cursor = length b\<rparr>"
    and n: "length b + length a + length rest = TUI_INPUTLEN - 1" and c: "cstr b" "cstr a" by (rule shows_asE)
  have len: "length b = length (drop_word b) + length w" using w by (metis length_append)
  have cs: "cstr (drop_word b)" "cstr w" using c(1) w by (metis cstr_simps(3))+
  have "le_word_left l = \<lparr>il_buf = drop_word b @ (w @ a) @ NUL # rest, il_len = length b + length a, il_cursor = length (drop_word b)\<rparr>"
    using w by (simp add: le_word_left_def l word_start_text)
  then show ?thesis unfolding d using n len cs c by (auto intro!: shows_asI)
qed

lemma word_right_shows:
  assumes "shows_as l b a"
  shows "shows_as (le_word_right l)
    (b @ takeWhile (\<lambda>c. c \<noteq> CHR '' '') a @ takeWhile (\<lambda>c. c = CHR '' '') (dropWhile (\<lambda>c. c \<noteq> CHR '' '') a))
    (dropWhile (\<lambda>c. c = CHR '' '') (dropWhile (\<lambda>c. c \<noteq> CHR '' '') a))"
proof -
  let ?x = "takeWhile (\<lambda>c. c \<noteq> CHR '' '') a" and ?y = "dropWhile (\<lambda>c. c \<noteq> CHR '' '') a"
  let ?u = "takeWhile (\<lambda>c. c = CHR '' '') ?y" and ?v = "dropWhile (\<lambda>c. c = CHR '' '') ?y"
  from assms obtain rest where l: "l = \<lparr>il_buf = b @ a @ NUL # rest, il_len = length b + length a, il_cursor = length b\<rparr>"
    and n: "length b + length a + length rest = TUI_INPUTLEN - 1" and c: "cstr b" "cstr a" by (rule shows_asE)
  have a: "a = ?x @ ?u @ ?v" by simp
  have len: "length a = length ?x + length ?y" "length ?y = length ?u + length ?v"
    by (metis length_append takeWhile_dropWhile_id)+
  have "skip_right (\<lambda>c. c \<noteq> CHR '' '') (b @ a @ NUL # rest) (length b + length a) (length b) = length (b @ ?x)"
    using skip_right_suffix [of _ b a "NUL # rest"] by simp
  moreover have "skip_right (\<lambda>c. c = CHR '' '') ((b @ ?x) @ ?y @ NUL # rest) (length (b @ ?x) + length ?y) (length (b @ ?x)) =
      length (b @ ?x) + length ?u"
    by (rule skip_right_suffix)
  then have "skip_right (\<lambda>c. c = CHR '' '') (b @ a @ NUL # rest) (length b + length a) (length (b @ ?x)) =
      length (b @ ?x @ ?u)"
    using len(1) by (simp flip: append_assoc add.assoc) (simp add: add.assoc)
  ultimately have "le_word_right l = \<lparr>il_buf = (b @ ?x @ ?u) @ ?v @ NUL # rest, il_len = length b + length a,
      il_cursor = length (b @ ?x @ ?u)\<rparr>"
    by (simp add: le_word_right_def l)
  moreover have "cstr ?x" "cstr ?u" "cstr ?v" using c(2) a by (metis cstr_simps(3))+
  ultimately show ?thesis using n len c(1) by (auto intro!: shows_asI)
qed

lemma move_down:
  assumes "length p + length q = d"
  shows "memmove (length p) d (length a + 1) (p @ q @ a @ NUL # rest) =
    Some (p @ a @ NUL # drop (length p + length a + 1) (p @ q @ a @ NUL # rest))"
  using assms by (auto simp: memmove_def)

lemma move_up:
  assumes "rest \<noteq> []"
  shows "memmove (length b + 1) (length b) (length a + 1) (b @ a @ NUL # rest) =
    Some (take (length b + 1) (b @ a @ NUL # rest) @ a @ NUL # tl rest)"
  using assms by (cases rest) (auto simp: memmove_def)

lemma backspace_shows:
  assumes "shows_as l b a"
  shows "\<exists>l'. le_backspace l = Some l' \<and> shows_as l' (butlast b) a"
proof (cases b rule: rev_cases)
  case Nil
  then show ?thesis using assms by (auto simp: le_backspace_def elim!: shows_asE intro!: shows_asI)
next
  case (snoc p x)
  from assms obtain rest where l: "l = \<lparr>il_buf = b @ a @ NUL # rest, il_len = length b + length a, il_cursor = length b\<rparr>"
    and n: "length b + length a + length rest = TUI_INPUTLEN - 1" and c: "cstr b" "cstr a" by (rule shows_asE)
  have "le_backspace l = Some \<lparr>il_buf = p @ a @ NUL # drop (length p + length a + 1) (p @ [x] @ a @ NUL # rest),
      il_len = length p + length a, il_cursor = length p\<rparr>"
    using move_down [of p "[x]" "length b" a rest] snoc by (simp add: le_backspace_def l)
  then show ?thesis using n c snoc by (auto intro!: shows_asI)
qed

lemma delete_shows:
  assumes "shows_as l b a"
  shows "\<exists>l'. le_delete l = Some l' \<and> shows_as l' b (tl a)"
proof (cases a)
  case Nil
  then show ?thesis using assms by (auto simp: le_delete_def elim!: shows_asE intro!: shows_asI)
next
  case (Cons x q)
  from assms obtain rest where l: "l = \<lparr>il_buf = b @ a @ NUL # rest, il_len = length b + length a, il_cursor = length b\<rparr>"
    and n: "length b + length a + length rest = TUI_INPUTLEN - 1" and c: "cstr b" "cstr a" by (rule shows_asE)
  have "le_delete l = Some \<lparr>il_buf = b @ q @ NUL # drop (length b + length q + 1) (b @ [x] @ q @ NUL # rest),
      il_len = length b + length q, il_cursor = length b\<rparr>"
    using move_down [of b "[x]" "length b + 1" q rest] Cons by (simp add: le_delete_def l)
  then show ?thesis using n c Cons by (auto intro!: shows_asI)
qed

lemma kill_word_shows:
  assumes "shows_as l b a"
  shows "\<exists>l'. le_kill_word l = Some l' \<and> shows_as l' (drop_word b) a"
proof (cases "b = []")
  case True
  then show ?thesis using assms by (auto simp: le_kill_word_def drop_word_def elim!: shows_asE intro!: shows_asI)
next
  case False
  obtain w where w: "b = drop_word b @ w" using drop_word_prefix by blast
  from assms obtain rest where l: "l = \<lparr>il_buf = b @ a @ NUL # rest, il_len = length b + length a, il_cursor = length b\<rparr>"
    and n: "length b + length a + length rest = TUI_INPUTLEN - 1" and c: "cstr b" "cstr a" by (rule shows_asE)
  let ?d = "drop_word b"
  have len: "length b = length ?d + length w" using w by (metis length_append)
  have cs: "cstr ?d" using c(1) w by (metis cstr_simps(3))
  have mv: "memmove (length ?d) (length b) (length a + 1) (b @ a @ NUL # rest) =
      Some (?d @ a @ NUL # drop (length ?d + length a + 1) (b @ a @ NUL # rest))"
    using move_down [of ?d w "length b" a rest] len w by (metis append_assoc)
  have e: "length b + length a - (length b - length ?d) = length ?d + length a" using len by simp
  have "le_kill_word l = Some \<lparr>il_buf = ?d @ a @ NUL # drop (length ?d + length a + 1) (b @ a @ NUL # rest),
      il_len = length ?d + length a, il_cursor = length ?d\<rparr>"
    using False mv e by (simp add: le_kill_word_def l word_start_text Let_def)
  then show ?thesis using n c(2) cs len by (auto intro!: shows_asI)
qed

lemma kill_end_shows:
  assumes "shows_as l b a"
  shows "\<exists>l'. le_kill_end l = Some l' \<and> shows_as l' b []"
proof -
  from assms obtain rest where l: "l = \<lparr>il_buf = b @ a @ NUL # rest, il_len = length b + length a, il_cursor = length b\<rparr>"
    and n: "length b + length a + length rest = TUI_INPUTLEN - 1" and c: "cstr b" "cstr a" by (rule shows_asE)
  have "(a @ NUL # rest)[0 := NUL] = NUL # tl (a @ NUL # rest)" by (cases a) auto
  then have "le_kill_end l = Some \<lparr>il_buf = b @ [] @ NUL # tl (a @ NUL # rest), il_len = length b, il_cursor = length b\<rparr>"
    by (simp add: le_kill_end_def put_char_def l list_update_append)
  moreover have "length (tl (a @ NUL # rest)) = length a + length rest" by (cases a) auto
  ultimately show ?thesis using n c by (auto intro!: shows_asI)
qed

lemma clear_shows:
  assumes "shows_as l b a"
  shows "\<exists>l'. le_clear l = Some l' \<and> shows_as l' [] []"
proof -
  from assms obtain rest where l: "l = \<lparr>il_buf = b @ a @ NUL # rest, il_len = length b + length a, il_cursor = length b\<rparr>"
    and n: "length b + length a + length rest = TUI_INPUTLEN - 1" by (rule shows_asE)
  let ?buf = "b @ a @ NUL # rest"
  have "?buf[0 := NUL] = NUL # tl ?buf" by (cases ?buf) auto
  then have "le_clear l = Some \<lparr>il_buf = [] @ [] @ NUL # tl ?buf, il_len = 0, il_cursor = 0\<rparr>"
    by (simp add: le_clear_def put_char_def l)
  moreover have "length (tl ?buf) = TUI_INPUTLEN - 1" using n by simp
  ultimately show ?thesis by (auto intro!: shows_asI)
qed

lemma insert_shows:
  assumes "shows_as l b a" and "c \<noteq> NUL"
  shows "\<exists>l'. le_insert c l = Some l' \<and>
    (if length b + length a < TUI_INPUTLEN - 1 then shows_as l' (b @ [c]) a else l' = l)"
proof (cases "length b + length a < TUI_INPUTLEN - 1")
  case True
  from assms(1) obtain rest where l: "l = \<lparr>il_buf = b @ a @ NUL # rest, il_len = length b + length a, il_cursor = length b\<rparr>"
    and n: "length b + length a + length rest = TUI_INPUTLEN - 1" and cs: "cstr b" "cstr a" by (rule shows_asE)
  have rest: "rest \<noteq> []" using True n by auto
  let ?m = "take (length b + 1) (b @ a @ NUL # rest) @ a @ NUL # tl rest"
  have m: "?m = b @ hd (a @ [NUL]) # a @ NUL # tl rest" by (cases a) auto
  have "le_insert c l = Some \<lparr>il_buf = (b @ [c]) @ a @ NUL # tl rest, il_len = length b + length a + 1, il_cursor = length b + 1\<rparr>"
    using True move_up [OF rest, of b a] n unfolding m by (simp add: le_insert_def put_char_def l list_update_append)
  moreover have "length (tl rest) = length rest - 1" "0 < length rest" using rest by auto
  ultimately show ?thesis using True n cs assms(2) by (auto intro!: shows_asI)
next
  case False
  then show ?thesis using assms by (auto simp: le_insert_def shows_as_def)
qed

lemma recall_shows:
  assumes "shows_as l b a" and "cstr s"
  shows "\<exists>l'. le_recall s l = Some l' \<and> shows_as l' (take (TUI_INPUTLEN - 1) s) []"
proof -
  from assms(1) obtain rest where l: "l = \<lparr>il_buf = b @ a @ NUL # rest, il_len = length b + length a, il_cursor = length b\<rparr>"
    and n: "length b + length a + length rest = TUI_INPUTLEN - 1" by (rule shows_asE)
  define buf where "buf = b @ a @ NUL # rest"
  define t where "t = take (TUI_INPUTLEN - 1) s"
  have len: "length buf = TUI_INPUTLEN" using n by (simp add: buf_def)
  have cs: "cstr t" unfolding t_def by (rule cstr_sub [OF assms(2) set_take_subset])
  have short: "length t \<le> TUI_INPUTLEN - 1" by (simp add: t_def)
  have cpy: "strlcpy buf s = t @ [NUL] @ drop (Suc (length t)) buf"
    unfolding strlcpy_def len t_def Let_def by (rule refl)
  have n': "length (takeWhile (\<lambda>c. c \<noteq> NUL) (strlcpy buf s)) = length t"
    using cs unfolding cpy by (simp add: cstr_def takeWhile_append takeWhile_eq_all_conv)
  have "le_recall s l = Some \<lparr>il_buf = t @ [] @ NUL # drop (Suc (length t)) buf, il_len = length t, il_cursor = length t\<rparr>"
    unfolding le_recall_def l input_line.select_convs buf_def [symmetric] Let_def n' unfolding cpy
    by (simp add: put_char_def list_update_append)
  moreover have "length t + length (drop (Suc (length t)) buf) = TUI_INPUTLEN - 1"
    using short unfolding length_drop len by simp
  ultimately show ?thesis using cs unfolding t_def [symmetric] by (auto intro!: shows_asI)
qed

text \<open>Down recalls the same as Up as long as the line fits the buffer, as the lines of the history do;
  a longer one would be terminated behind the buffer.\<close>

lemma recall_next_eq:
  assumes "length (il_buf l) = TUI_INPUTLEN" and "cstr s" and "length s < TUI_INPUTLEN"
  shows "le_recall_next s l = le_recall s l"
proof -
  have "takeWhile (\<lambda>c. c \<noteq> NUL) (strlcpy (il_buf l) s) = s"
    using assms by (simp add: strlcpy_def cstr_def takeWhile_append takeWhile_eq_all_conv)
  then show ?thesis by (simp add: le_recall_next_def le_recall_def)
qed

lemma recall_next_long:
  assumes "length (il_buf l) = TUI_INPUTLEN" and "TUI_INPUTLEN \<le> length s"
  shows "le_recall_next s l = None"
  using assms by (simp add: le_recall_next_def strlcpy_def put_char_def)

subsection \<open>The editor implements the text\<close>

datatype edit =
    Home | End | Left | Right | WordLeft | WordRight
  | Backspace | Delete | KillWord | KillEnd | Clear | Insert char | Recall string

fun line_edit :: "edit \<Rightarrow> input_line \<Rightarrow> input_line comp" where
  "line_edit Home l = Some (le_home l)"
| "line_edit End l = Some (le_end l)"
| "line_edit Left l = Some (le_left l)"
| "line_edit Right l = Some (le_right l)"
| "line_edit WordLeft l = Some (le_word_left l)"
| "line_edit WordRight l = Some (le_word_right l)"
| "line_edit Backspace l = le_backspace l"
| "line_edit Delete l = le_delete l"
| "line_edit KillWord l = le_kill_word l"
| "line_edit KillEnd l = le_kill_end l"
| "line_edit Clear l = le_clear l"
| "line_edit (Insert c) l = le_insert c l"
| "line_edit (Recall s) l = le_recall s l"

text \<open>The specification: what each key does to a text with a cursor.\<close>

fun text_edit :: "edit \<Rightarrow> zipper \<Rightarrow> zipper" where
  "text_edit Home (b, a) = ([], b @ a)"
| "text_edit End (b, a) = (b @ a, [])"
| "text_edit Left (b, a) = (butlast b, drop (length b - 1) b @ a)"
| "text_edit Right (b, a) = (b @ take 1 a, tl a)"
| "text_edit WordLeft (b, a) = (drop_word b, drop (length (drop_word b)) b @ a)"
| "text_edit WordRight (b, a) =
     (b @ takeWhile (\<lambda>c. c \<noteq> CHR '' '') a @ takeWhile (\<lambda>c. c = CHR '' '') (dropWhile (\<lambda>c. c \<noteq> CHR '' '') a),
      dropWhile (\<lambda>c. c = CHR '' '') (dropWhile (\<lambda>c. c \<noteq> CHR '' '') a))"
| "text_edit Backspace (b, a) = (butlast b, a)"
| "text_edit Delete (b, a) = (b, tl a)"
| "text_edit KillWord (b, a) = (drop_word b, a)"
| "text_edit KillEnd (b, a) = (b, [])"
| "text_edit Clear (b, a) = ([], [])"
| "text_edit (Insert c) (b, a) = (if length b + length a < TUI_INPUTLEN - 1 then (b @ [c], a) else (b, a))"
| "text_edit (Recall s) (b, a) = (take (TUI_INPUTLEN - 1) s, [])"

fun edit_ok :: "edit \<Rightarrow> bool" where
  "edit_ok (Insert c) \<longleftrightarrow> c \<noteq> NUL"
| "edit_ok (Recall s) \<longleftrightarrow> cstr s"
| "edit_ok _ \<longleftrightarrow> True"

lemma line_edit_shows:
  assumes "shows_as l b a" and "edit_ok e"
  shows "\<exists>l'. line_edit e l = Some l' \<and> shows_as l' (fst (text_edit e (b, a))) (snd (text_edit e (b, a)))"
proof -
  note shows1 = home_shows end_shows left_shows right_shows word_left_shows word_right_shows
  note shows2 = backspace_shows delete_shows kill_word_shows kill_end_shows clear_shows
  show ?thesis
  proof (cases e)
    case (Insert c)
    then show ?thesis using insert_shows [OF assms(1), of c] assms by auto
  next
    case (Recall s)
    then show ?thesis using recall_shows [OF assms(1), of s] assms by auto
  qed (use shows1 [OF assms(1)] shows2 [OF assms(1)] in simp_all)
qed

fun line_edits :: "edit list \<Rightarrow> input_line \<Rightarrow> input_line comp" where
  "line_edits [] l = Some l"
| "line_edits (e # es) l = do { l \<leftarrow> line_edit e l; line_edits es l }"

lemma line_edits_view:
  assumes "line_ok l" and "list_all edit_ok es"
  shows "\<exists>l'. line_edits es l = Some l' \<and> line_ok l' \<and> view l' = fold text_edit es (view l)"
  using assms
proof (induction es arbitrary: l)
  case (Cons e es)
  obtain b a where v: "view l = (b, a)" by (cases "view l")
  with Cons.prems have "shows_as l b a" by (simp add: shows_as_iff)
  with line_edit_shows Cons.prems(2) obtain l1 where l1: "line_edit e l = Some l1"
    "shows_as l1 (fst (text_edit e (b, a))) (snd (text_edit e (b, a)))" by fastforce
  then have "line_ok l1" "view l1 = text_edit e (b, a)" by (simp_all add: shows_as_iff)
  with Cons.IH [of l1] Cons.prems(2) l1(1) v show ?case by auto
qed simp

text \<open>C14: the input line is a text with a cursor. Whatever sequence of keys is pressed, no edit
  reads or writes outside the buffer of 512 bytes; the buffer stays terminated, the cursor
  stays within the text, and the text and the cursor are what the same edits make of the text
  before. A full line refuses further characters and changes nothing else.\<close>

theorem line_editor_refines:
  assumes "line_ok l" and "list_all edit_ok es"
  shows "\<exists>l'. line_edits es l = Some l' \<and> line_ok l' \<and> view l' = fold text_edit es (view l)"
  by (rule line_edits_view [OF assms])

definition blank_line :: input_line where
  "blank_line = \<lparr>il_buf = replicate TUI_INPUTLEN NUL, il_len = 0, il_cursor = 0\<rparr>"

lemma blank_line_ok: "line_ok blank_line" "view blank_line = ([], [])"
  by (simp_all add: line_ok_def view_def blank_line_def)

theorem line_editor_refines_witness:
  "\<exists>l. line_edits [Recall ''/join #rig'', WordLeft, Insert CHR ''!'', KillEnd, Backspace, Left, Delete] blank_line = Some l \<and>
     view l = (''/join'', [])"
  using line_editor_refines [OF blank_line_ok(1), of "[Recall ''/join #rig'', WordLeft, Insert CHR ''!'', KillEnd, Backspace, Left, Delete]"]
  by (auto simp: blank_line_ok drop_word_def)

end
