(* ===== verification/Util_String.thy ===== *)
theory Util_String
  imports C_Numbers "HOL-Library.Sublist"
begin

text \<open>
  String and number helpers (\<open>util.string.c\<close>, \<open>util.math.c\<close>): HTML escaping, hexadecimal
  hashes, splitting of command lines, visible lengths of coloured text, and the checked
  conversions of numbers.
\<close>

subsection \<open>HTML\<close>

text \<open>The entity of a character, where it has one.\<close>

definition html_entity :: "char \<Rightarrow> string option" where
  "html_entity c =
     (if c = CHR ''<'' then Some ''&lt;''
      else if c = CHR ''>'' then Some ''&gt;''
      else if c = CHR ''&'' then Some ''&amp;''
      else if c = CHR 0x22 then Some ''&quot;''
      else if c = CHR 0x27 then Some ''&#39;''
      else None)"

text \<open>
  The loop over the input with the bytes written so far. \<open>snprintf\<close> writes what fits before
  its NUL and returns the full length; the write pointer is clamped when it passes the end.
\<close>

fun html_loop :: "nat \<Rightarrow> string \<Rightarrow> string \<Rightarrow> string" where
  "html_loop buf_size out [] = out"
| "html_loop buf_size out (c # cs) =
     (let remain = buf_size - length out;
          (written, p) = (case html_entity c of
              Some e \<Rightarrow> (take (remain - 1) e, length out + length e)
            | None \<Rightarrow> ([c], length out + 1))
      in if p \<ge> buf_size then take (buf_size - 1) (out @ written)
         else html_loop buf_size (out @ written) cs)"

definition escape_html :: "string ptr \<Rightarrow> alloc \<Rightarrow> string ptr \<times> alloc" where
  "escape_html sp a =
     (case sp of
        None \<Rightarrow> (NULL, a)
      | Some input \<Rightarrow>
          (let (ok, a) = malloc_ok a
           in if \<not> ok then (NULL, a) else (Some (html_loop (6 * length input + 1) [] input), a)))"

fun unescape_html :: "string \<Rightarrow> string" where
  "unescape_html [] = []"
| "unescape_html (c # r) =
     (if c = CHR ''&'' then
        (if prefix ''lt;'' r then CHR ''<'' # unescape_html (drop 3 r)
         else if prefix ''gt;'' r then CHR ''>'' # unescape_html (drop 3 r)
         else if prefix ''amp;'' r then CHR ''&'' # unescape_html (drop 4 r)
         else if prefix ''quot;'' r then CHR 0x22 # unescape_html (drop 5 r)
         else if prefix ''#39;'' r then CHR 0x27 # unescape_html (drop 4 r)
         else if prefix ''nbsp;'' r then CHR '' '' # unescape_html (drop 5 r)
         else c # unescape_html r)
      else c # unescape_html r)"

subsection \<open>Hashes, booleans, arguments\<close>

text \<open>
  \<open>sizeof(dest)\<close> is the size of a pointer: a hash of more than eight bytes is not converted.
  The result is what is written to \<open>dest\<close>, if anything.
\<close>

definition hash_to_hex :: "bool \<Rightarrow> u8 list ptr \<Rightarrow> string ptr" where
  "hash_to_hex dest hash =
     (case hash of
        None \<Rightarrow> NULL
      | Some bs \<Rightarrow>
          if \<not> dest \<or> bs = [] then NULL
          else if 8 < length bs then NULL
          else Some (concat (map (\<lambda>b. [hex_digit (unat b div 16), hex_digit (unat b mod 16)]) bs)))"

definition parse_bool :: "string ptr \<Rightarrow> bool" where
  "parse_bool sp =
     (case sp of
        None \<Rightarrow> False
      | Some str \<Rightarrow> strcasecmp_eq str ''true'' \<or> strcasecmp_eq str ''yes'' \<or> strcasecmp_eq str ''on''
          \<or> strcasecmp_eq str ''1'')"

text \<open>
  \<open>split_args\<close> collects pointers to the words of the line; the first \<open>malloc\<close> is not checked,
  so that storing a word into a vector that could not be allocated is undefined. \<open>Inl ()\<close> is
  the call of \<open>abort\<close>.
\<close>

function split_loop ::
    "string \<Rightarrow> nat \<Rightarrow> bool \<Rightarrow> string list \<Rightarrow> alloc \<Rightarrow> ((unit + string list) \<times> alloc) comp" where
  "split_loop p cap argv words a =
     (let p = dropWhile isspace p
      in if p = [] then Some (Inr words, a)
         else
           let word = takeWhile (\<lambda>c. \<not> isspace c) p;
               rest = tl (dropWhile (\<lambda>c. \<not> isspace c) p)
           in if length words \<ge> cap then
                (if int cap > INT_MAX div 2 then Some (Inl (), a)
                 else let (ok, a) = malloc_ok a
                   in if \<not> ok then Some (Inl (), a)
                      else split_loop rest (2 * cap) True (words @ [word]) a)
              else if \<not> argv then None
              else split_loop rest cap argv (words @ [word]) a)"
  by pat_completeness auto
termination
proof (relation "measure (\<lambda>(p, _). length p)", simp)
  have shrink: "length (tl (dropWhile (\<lambda>c. \<not> isspace c) q)) < length q" if "q \<noteq> []" for q
  proof -
    have "0 < length q" "length (tl (dropWhile (\<lambda>c. \<not> isspace c) q)) = length (dropWhile (\<lambda>c. \<not> isspace c) q) - 1"
      using that by simp_all
    with length_dropWhile_le [of "\<lambda>c. \<not> isspace c" q] show ?thesis by arith
  qed
  have next_word: "length (tl (dropWhile (\<lambda>c. \<not> isspace c) (dropWhile isspace p))) < length p"
    if "dropWhile isspace p \<noteq> []" for p
    using shrink [OF that] length_dropWhile_le [of isspace p] by linarith
  show "((rest, 2 * cap, True, words @ [word], y), p, cap, argv, words, a) \<in> measure (\<lambda>(p, _). length p)"
    if "x = dropWhile isspace p" "x \<noteq> []" "rest = tl (dropWhile (\<lambda>c. \<not> isspace c) x)" for x rest cap word words y p argv a
    using next_word that by simp
  show "((rest, cap, argv, words @ [word], a), p, cap, argv, words, a) \<in> measure (\<lambda>(p, _). length p)"
    if "x = dropWhile isspace p" "x \<noteq> []" "rest = tl (dropWhile (\<lambda>c. \<not> isspace c) x)" for x rest cap word words p argv a
    using next_word that by simp
qed

declare split_loop.simps [simp del]

definition split_args :: "string \<Rightarrow> alloc \<Rightarrow> ((unit + string list) \<times> alloc) comp" where
  "split_args line a = (let (ok, a) = malloc_ok a in split_loop line 8 ok [] a)"

subsection \<open>Visible lengths\<close>

definition skip_to_m :: "string \<Rightarrow> string" where
  "skip_to_m s = tl (dropWhile (\<lambda>c. c \<noteq> CHR ''m'') s)"

lemma skip_to_m_length: "length (skip_to_m s) \<le> length s"
  using length_dropWhile_le [of "\<lambda>c. c \<noteq> CHR ''m''" s] by (simp add: skip_to_m_def)

function ansi_strlen :: "string \<Rightarrow> nat" where
  "ansi_strlen [] = 0"
| "ansi_strlen (c # s) = (if c = CHR 0x1B then ansi_strlen (skip_to_m s) else 1 + ansi_strlen s)"
  by pat_completeness auto
termination
  by (relation "measure length") (auto simp: le_imp_less_Suc skip_to_m_length)

text \<open>
  A colour markup \<open>{...}\<close> is skipped up to its closing brace, which is then counted.
\<close>

function visible_length :: "string \<Rightarrow> nat" where
  "visible_length [] = 0"
| "visible_length (c # s) =
     (if c = CHR 0x1B \<and> s \<noteq> [] \<and> hd s = CHR ''['' then visible_length (skip_to_m (tl s))
      else if c = CHR ''{'' then visible_length (dropWhile (\<lambda>c. c \<noteq> CHR ''}'') s)
      else 1 + visible_length s)"
  by pat_completeness auto
termination
proof (relation "measure length", simp)
  show "(skip_to_m (tl s), c # s) \<in> measure length" for s and c :: char
    using skip_to_m_length [of "tl s"] by simp
  show "(dropWhile (\<lambda>c. c \<noteq> CHR ''}'') s, c # s) \<in> measure length" for s and c :: char
    using length_dropWhile_le [of "\<lambda>c. c \<noteq> CHR ''}''" s] by simp
qed simp

subsection \<open>Numbers\<close>

definition safe_atol :: "string ptr \<Rightarrow> int" where
  "safe_atol sp =
     (case sp of
        None \<Rightarrow> 0
      | Some s \<Rightarrow> (case strtoll s of (v, end, erange) \<Rightarrow> if end = s \<or> erange then 0 else v))"

definition safe_atoll :: "string ptr \<Rightarrow> int" where
  "safe_atoll sp =
     (case sp of
        None \<Rightarrow> 0
      | Some s \<Rightarrow> (case strtoll s of (v, end, erange) \<Rightarrow> if end = s \<or> erange then 0 else v))"

definition safe_atod :: "string ptr \<Rightarrow> cdouble" where
  "safe_atod sp =
     (case sp of
        None \<Rightarrow> DNaN
      | Some s \<Rightarrow>
          if s = [] then DNaN
          else (case strtod s of (v, end, erange) \<Rightarrow>
              if erange \<or> dropWhile isspace end \<noteq> [] then DNaN else v))"

subsection \<open>HTML escaping is undone\<close>

definition html_text :: "char \<Rightarrow> string" where
  "html_text c = (case html_entity c of Some e \<Rightarrow> e | None \<Rightarrow> [c])"

lemma html_text_length: "length (html_text c) \<le> 6" "0 < length (html_text c)"
  by (simp_all add: html_text_def html_entity_def)

lemma html_loop_fits:
  "length out + 6 * length s < buf_size \<Longrightarrow> html_loop buf_size out s = out @ concat (map html_text s)"
proof (induction s arbitrary: out)
  case (Cons c s)
  have len: "length out + length (html_text c) < buf_size" using Cons.prems html_text_length [of c] by simp
  have "html_loop buf_size out (c # s) = html_loop buf_size (out @ html_text c) s"
  proof (cases "html_entity c")
    case None
    with len show ?thesis by (simp add: html_text_def)
  next
    case (Some e)
    with len have "take (buf_size - length out - 1) e = e" "length out + length e < buf_size"
      by (simp_all add: html_text_def)
    with Some show ?thesis by (simp add: html_text_def Let_def del: take_all_iff)
  qed
  also have "\<dots> = (out @ html_text c) @ concat (map html_text s)"
    using Cons.prems html_text_length(1) [of c] by (intro Cons.IH) simp
  finally show ?case by simp
qed simp

lemma unescape_html_text: "unescape_html (html_text c @ r) = c # unescape_html r"
  by (simp add: html_text_def html_entity_def)

lemma unescape_html_concat: "unescape_html (concat (map html_text s)) = s"
  by (induction s) (simp_all add: unescape_html_text)

lemma html_text_safe: "x \<in> set (html_text c) \<Longrightarrow> x \<notin> {CHR ''<'', CHR ''>'', CHR 0x22, CHR 0x27}"
  by (auto simp: html_text_def html_entity_def split: if_splits)

text \<open>\<open>escape_html\<close> writes a text without angle brackets and quotes that fits its buffer, NUL
  included, without ever being cut, and \<open>unescape_html\<close> turns it back into the original.\<close>

theorem html_roundtrip:
  "\<exists>out. escape_html (Some s) [] = (Some out, []) \<and> length out + 1 \<le> 6 * length s + 1 \<and>
     set out \<inter> {CHR ''<'', CHR ''>'', CHR 0x22, CHR 0x27} = {} \<and> unescape_html out = s"
proof -
  let ?out = "concat (map html_text s)"
  have "escape_html (Some s) [] = (Some ?out, [])" by (simp add: escape_html_def html_loop_fits)
  moreover have "length ?out \<le> 6 * length s"
    using html_text_length(1) by (induction s) (auto intro: add_mono)
  moreover have "set ?out \<inter> {CHR ''<'', CHR ''>'', CHR 0x22, CHR 0x27} = {}" using html_text_safe by fastforce
  ultimately show ?thesis using unescape_html_concat [of s] by auto
qed

end
