(* ===== verification/Tui_Screen.thy ===== *)
theory Tui_Screen
  imports Tui_Theme Line_Editor Util_String
begin

text \<open>
  What \<open>tui.c\<close> computes before it writes to the terminal: the top line, the rows that a
  message wraps to, the part of the scrollback that is shown, and the input line with its
  cursor. Output is the list of strings that are written. A row or column is a natural number,
  as \<open>ws_row\<close> and \<open>ws_col\<close> are unsigned. A store behind the end of a buffer on the stack has
  no defined result.
\<close>

subsection \<open>Control sequences\<close>

text \<open>The final character of a control sequence; bytes from 128 on are negative characters.\<close>

definition csi_final :: "char \<Rightarrow> bool" where
  "csi_final c \<longleftrightarrow> 64 \<le> code c \<and> code c \<le> 126"

text \<open>Behind \<open>ESC [\<close>: the parameters and the final character, if there is one.\<close>

definition csi_end :: "string \<Rightarrow> nat" where
  "csi_end s = (let n = length (takeWhile (\<lambda>c. \<not> csi_final c) s) in if n < length s then Suc n else n)"

lemma csi_end_le [simp]: "csi_end s \<le> length s"
  using length_takeWhile_le [of "\<lambda>c. \<not> csi_final c" s] by (simp add: csi_end_def Let_def)

subsection \<open>The top line\<close>

text \<open>The continuation bytes that follow a leading byte, at most \<open>n\<close>.\<close>

fun utf8_tail :: "nat \<Rightarrow> string \<Rightarrow> nat" where
  "utf8_tail (Suc n) (c # s) = (if 128 \<le> code c \<and> code c < 192 then Suc (utf8_tail n s) else 0)"
| "utf8_tail n s = 0"

definition utf8_expected :: "char \<Rightarrow> nat" where
  "utf8_expected c = (if code c < 224 then 2 else if code c < 240 then 3 else 4)"

lemma utf8_tail_le: "utf8_tail n s \<le> n \<and> utf8_tail n s \<le> length s"
  by (induction n s rule: utf8_tail.induct) auto

function topline_loop :: "string \<Rightarrow> nat \<Rightarrow> string list" where
  "topline_loop p columns =
     (if columns = 0 then []
      else case p of
        [] \<Rightarrow> []
      | c # s \<Rightarrow>
          if c = ESC \<and> s \<noteq> [] \<and> hd s = CHR ''['' then
            (let par = takeWhile (\<lambda>c. \<not> csi_final c) (tl s); final = dropWhile (\<lambda>c. \<not> csi_final c) (tl s) in
             case final of
               [] \<Rightarrow> []
             | e # rest \<Rightarrow> (if e = CHR ''m'' then [csi (par @ [e])] else []) @ topline_loop rest columns)
          else if code c < 32 \<or> code c = 127 then '' '' # topline_loop s (columns - 1)
          else if 194 \<le> code c \<and> code c \<le> 244 then
            (let len = 1 + utf8_tail (utf8_expected c - 1) s in
             if len \<noteq> utf8_expected c then topline_loop (drop (len - 1) s) columns
             else if len > columns then []
             else (c # take (len - 1) s) # topline_loop (drop (len - 1) s) (columns - len))
          else [c] # topline_loop s (columns - 1))"
  by pat_completeness auto

termination
proof (relation "measure (\<lambda>(p, columns). length p)", simp)
  fix columns :: nat and p s par final rest :: string and c e :: char
  assume p: "p = c # s" and f: "final = dropWhile (\<lambda>c. \<not> csi_final c) (tl s)" "final = e # rest"
  have "length final \<le> length (tl s)" unfolding f(1) by (rule length_dropWhile_le)
  with p f(2) show "((rest, columns), (p, columns)) \<in> measure (\<lambda>(p, columns). length p)" by simp
qed auto

declare topline_loop.simps [simp del]

definition tui_print_topline :: "string ptr \<Rightarrow> nat \<Rightarrow> string list" where
  "tui_print_topline text columns =
     (case text of None \<Rightarrow> [] | Some p \<Rightarrow> topline_loop p columns) @ [csi ''0m'' @ csi ''K'']"

subsection \<open>Wrapping\<close>

function line_rows_loop :: "nat \<Rightarrow> string \<Rightarrow> nat \<Rightarrow> nat \<Rightarrow> nat" where
  "line_rows_loop width [] rows col = rows"
| "line_rows_loop width (c # s) rows col =
     (if c = ESC \<and> s \<noteq> [] \<and> hd s = CHR ''['' then line_rows_loop width (drop (csi_end (tl s)) (tl s)) rows col
      else if c = CHR 0x0A then line_rows_loop width s (rows + 1) 0
      else if col + 1 > width then line_rows_loop width s (rows + 1) 1
      else line_rows_loop width s rows (col + 1))"
  by pat_completeness auto

termination by (relation "measure (\<lambda>(width, s, rows, col). length s)") auto

definition tui_line_rows :: "string ptr \<Rightarrow> nat \<Rightarrow> nat" where
  "tui_line_rows s width = (case s of None \<Rightarrow> 1 | Some s \<Rightarrow> if width = 0 then 1 else line_rows_loop width s 1 0)"

text \<open>
  One row of the renderer from \<open>p\<close>, with \<open>col\<close> columns used: how many characters are consumed
  (\<open>n\<close> so far), how many of them belong to the row (\<open>last_break\<close>), and the colour in effect.
\<close>

function row_loop :: "nat \<Rightarrow> string \<Rightarrow> nat \<Rightarrow> nat \<Rightarrow> nat \<Rightarrow> string \<Rightarrow> nat \<times> nat \<times> string" where
  "row_loop width p col n last_break sgr =
     (if p \<noteq> [] \<and> col < width then
        if hd p = ESC \<and> tl p \<noteq> [] \<and> hd (tl p) = CHR ''['' then
          (let k = 2 + csi_end (drop 2 p) in
           row_loop width (drop k p) col (n + k) last_break
             (if p ! (k - 1) = CHR ''m'' \<and> k < 64 then take k p else sgr))
        else if hd p = CHR 0x0A then (n, last_break, sgr)
        else row_loop width (tl p) (col + 1) (n + 1) (n + 1) sgr
      else (n, last_break, sgr))"
  by pat_completeness auto

termination by (relation "measure (\<lambda>(width, p, col, n, last_break, sgr). length p)") (auto simp: Let_def)

declare row_loop.simps [simp del]

text \<open>
  The rows of one message: \<open>skip\<close> rows are discarded first, at most \<open>room\<close> are written,
  each as the colour that is restored and the text. A row that ends at a line feed consumes
  it only when it is written. The result has the rows, and what is left of \<open>skip\<close> and \<open>room\<close>.
\<close>

type_synonym screen_row = "string \<times> string"

function message_rows ::
  "nat \<Rightarrow> string \<Rightarrow> string \<Rightarrow> nat \<Rightarrow> nat \<Rightarrow> nat \<Rightarrow> screen_row list \<times> nat \<times> nat" where
  "message_rows width p sgr rows_done skip room =
     (if p = [] \<or> room = 0 then ([], skip, room)
      else
        let (n, last_break, sgr') = row_loop width p 0 0 0 sgr;
            newline = (n < length p \<and> p ! n = CHR 0x0A)
        in if skip > 0 then message_rows width (drop n p) sgr' (rows_done + 1) (skip - 1) room
           else
             let row = (if rows_done > 0 then sgr' else [], take (if newline then n else last_break) p);
                 (rows, skip, room) =
                   message_rows width (drop (if newline then n + 1 else n) p) sgr' (rows_done + 1) 0 (room - 1)
             in (row # rows, skip, room))"
  by pat_completeness auto

termination by (relation "measure (\<lambda>(width, p, sgr, rows_done, skip, room). skip + room)") auto

declare message_rows.simps [simp del]

fun render_messages :: "nat \<Rightarrow> string ptr list \<Rightarrow> nat \<Rightarrow> nat \<Rightarrow> screen_row list" where
  "render_messages width [] skip room = []"
| "render_messages width (m # ms) skip room =
     (if room = 0 then []
      else case m of
        None \<Rightarrow> render_messages width ms skip room
      | Some p \<Rightarrow>
          (let (rows, skip, room) = message_rows width p [] 0 skip room in rows @ render_messages width ms skip room))"

subsection \<open>The part of the scrollback that is shown\<close>

text \<open>\<open>messages\<close> are the entries of the ring from the oldest to the newest.\<close>

definition total_rows :: "nat \<Rightarrow> string ptr list \<Rightarrow> int" where
  "total_rows width messages = (\<Sum>m\<leftarrow>messages. if m = NULL then 0 else int (tui_line_rows m width))"

definition clamp_scroll :: "int \<Rightarrow> int \<Rightarrow> int \<Rightarrow> int" where
  "clamp_scroll tot area scroll =
     (let max_scroll = (if tot > area then tot - area else 0)
      in if scroll < 0 then 0 else if scroll > max_scroll then max_scroll else scroll)"

definition top_row :: "int \<Rightarrow> int \<Rightarrow> int \<Rightarrow> int" where
  "top_row tot area scroll = (let target = tot - area - scroll in if target < 0 then 0 else target)"

text \<open>The message that contains a row: its position and the rows to skip in it.\<close>

fun find_row :: "nat \<Rightarrow> string ptr list \<Rightarrow> nat \<Rightarrow> int \<Rightarrow> nat option \<times> int" where
  "find_row width [] i skip = (None, skip)"
| "find_row width (m # ms) i skip =
     (if m = NULL then find_row width ms (i + 1) skip
      else if skip < int (tui_line_rows m width) then (Some i, skip)
      else find_row width ms (i + 1) (skip - int (tui_line_rows m width)))"


subsection \<open>Plain messages\<close>

text \<open>The reference: a text cut to pieces of the width of the screen.\<close>

function chunks :: "nat \<Rightarrow> string \<Rightarrow> string list" where
  "chunks width s = (if s = [] \<or> width = 0 then [] else take width s # chunks width (drop width s))"
  by pat_completeness auto

termination by (relation "measure (\<lambda>(width, s). length s)") auto

declare chunks.simps [simp del]

definition plain_message :: "string \<Rightarrow> bool" where
  "plain_message s \<longleftrightarrow> s \<noteq> [] \<and> ESC \<notin> set s \<and> CHR 0x0A \<notin> set s"

lemma chunks_Nil [simp]: "chunks width [] = []"
  by (simp add: chunks.simps)

lemma row_loop_plain:
  "\<lbrakk>ESC \<notin> set p; CHR 0x0A \<notin> set p; col \<le> width\<rbrakk> \<Longrightarrow>
     row_loop width p col n n sgr = (let k = min (width - col) (length p) in (n + k, n + k, sgr))"
proof (induction p arbitrary: col n)
  case Nil
  then show ?case by (simp add: row_loop.simps)
next
  case (Cons c p)
  show ?case
  proof (cases "col < width")
    case True
    have "row_loop width (c # p) col n n sgr = row_loop width p (col + 1) (n + 1) (n + 1) sgr"
      using Cons.prems True by (subst row_loop.simps) auto
    also have "\<dots> = (let k = min (width - (col + 1)) (length p) in (n + 1 + k, n + 1 + k, sgr))"
      using Cons True by (intro Cons.IH) auto
    finally show ?thesis using True by (auto simp: Let_def min_def)
  next
    case False
    then show ?thesis using Cons.prems by (subst row_loop.simps) auto
  qed
qed

lemma line_rows_plain:
  "\<lbrakk>ESC \<notin> set s; CHR 0x0A \<notin> set s; 0 < width; col \<le> width\<rbrakk> \<Longrightarrow>
     line_rows_loop width s rows col = rows + length (chunks width (drop (width - col) s))"
proof (induction s arbitrary: rows col)
  case (Cons c s)
  then have c: "c \<noteq> ESC" "c \<noteq> CHR 0x0A" by auto
  show ?case
  proof (cases "col < width")
    case True
    then have "drop (width - col) (c # s) = drop (width - (col + 1)) s" by (simp add: drop_Cons' Suc_diff_Suc)
    then show ?thesis using True c Cons by simp
  next
    case False
    then have col: "col = width" using Cons.prems by simp
    have "chunks width (c # s) = take width (c # s) # chunks width (drop (width - 1) s)"
      using Cons.prems(3) by (subst chunks.simps) (simp add: drop_Cons')
    then show ?thesis using col c Cons by simp
  qed
qed simp

lemma tui_line_rows_plain: "plain_message s \<Longrightarrow> 0 < width \<Longrightarrow> tui_line_rows (Some s) width = length (chunks width s)"
  using line_rows_plain [of s width 0 1] by (subst chunks.simps) (auto simp: plain_message_def tui_line_rows_def)

lemma message_rows_plain:
  "\<lbrakk>ESC \<notin> set p; CHR 0x0A \<notin> set p; 0 < width; skip = 0 \<or> 0 < room\<rbrakk> \<Longrightarrow>
     message_rows width p [] k skip room =
       (map (Pair []) (take room (drop skip (chunks width p))), skip - length (chunks width p),
        room - (length (chunks width p) - skip))"
proof (induction "skip + room" arbitrary: p k skip room)
  case (Suc m)
  show ?case
  proof (cases "p = [] \<or> room = 0")
    case True
    then show ?thesis using Suc.prems by (subst message_rows.simps) auto
  next
    case False
    let ?n = "min width (length p)" and ?q = "drop width p"
    have row: "row_loop width p 0 0 0 [] = (?n, ?n, [])" using row_loop_plain [of p 0 width 0 "[]"] Suc.prems by (simp add: Let_def)
    have nl: "\<not> (?n < length p \<and> p ! ?n = CHR 0x0A)" using Suc.prems(2) by (auto simp: in_set_conv_nth)
    have rest: "drop ?n p = ?q" "take ?n p = take width p" by (auto simp: min_def)
    have c: "chunks width p = take width p # chunks width ?q" using False Suc.prems(3) by (subst chunks.simps) simp
    have plain: "ESC \<notin> set ?q" "CHR 0x0A \<notin> set ?q" using Suc.prems(1,2) by (auto dest: in_set_dropD)
    show ?thesis
    proof (cases skip)
      case 0
      have m: "m = 0 + (room - 1)" using Suc.hyps(2) 0 False by simp
      have "message_rows width ?q [] (k + 1) 0 (room - 1) =
          (map (Pair []) (take (room - 1) (drop 0 (chunks width ?q))), 0 - length (chunks width ?q),
           room - 1 - (length (chunks width ?q) - 0))"
        by (rule Suc.hyps(1) [OF m plain Suc.prems(3)]) simp
      then show ?thesis using False 0 row nl rest c
        by (subst message_rows.simps) (cases room; auto simp: Let_def)
    next
      case (Suc j)
      have m: "m = j + room" using Suc.hyps(2) Suc by simp
      have "message_rows width ?q [] (k + 1) j room =
          (map (Pair []) (take room (drop j (chunks width ?q))), j - length (chunks width ?q),
           room - (length (chunks width ?q) - j))"
        by (rule Suc.hyps(1) [OF m plain Suc.prems(3)]) (use False in simp)
      then show ?thesis using False Suc row nl rest c
        by (subst message_rows.simps) (auto simp: Let_def)
    qed
  qed
qed (simp add: message_rows.simps)

definition plain_messages :: "string ptr list \<Rightarrow> bool" where
  "plain_messages ms \<longleftrightarrow> list_all (\<lambda>m. case m of None \<Rightarrow> True | Some s \<Rightarrow> plain_message s) ms"

definition message_chunks :: "nat \<Rightarrow> string ptr \<Rightarrow> string list" where
  "message_chunks width m = (case m of None \<Rightarrow> [] | Some s \<Rightarrow> chunks width s)"

definition all_rows :: "nat \<Rightarrow> string ptr list \<Rightarrow> string list" where
  "all_rows width ms = concat (map (message_chunks width) ms)"

lemma plain_messages_simps [simp]:
  "plain_messages []" "plain_messages (None # ms) = plain_messages ms"
  "plain_messages (Some s # ms) \<longleftrightarrow> plain_message s \<and> plain_messages ms"
  "plain_messages (ms @ ns) \<longleftrightarrow> plain_messages ms \<and> plain_messages ns"
  by (simp_all add: plain_messages_def)

lemma all_rows_simps [simp]:
  "all_rows width [] = []" "all_rows width (None # ms) = all_rows width ms"
  "all_rows width (Some s # ms) = chunks width s @ all_rows width ms"
  "all_rows width (ms @ ns) = all_rows width ms @ all_rows width ns"
  by (simp_all add: all_rows_def message_chunks_def)

lemma total_rows_plain:
  "plain_messages ms \<Longrightarrow> 0 < width \<Longrightarrow> total_rows width ms = int (length (all_rows width ms))"
  unfolding total_rows_def
proof (induction ms)
  case (Cons m ms)
  then show ?case by (cases m) (simp_all add: tui_line_rows_plain)
qed simp

lemma render_messages_plain:
  "\<lbrakk>plain_messages ms; 0 < width\<rbrakk> \<Longrightarrow>
     render_messages width ms skip room = map (Pair []) (take room (drop skip (all_rows width ms)))"
proof (induction ms arbitrary: skip room)
  case (Cons m ms)
  show ?case
  proof (cases m)
    case (Some p)
    have "plain_message p" "plain_messages ms" using Cons.prems Some by auto
    then show ?thesis
      using Cons Some message_rows_plain [of p width skip room 0] by (auto simp: plain_message_def)
  qed (use Cons in auto)
qed simp

text \<open>\<open>find_row\<close> splits the row it looks for into the rows before a message and those within it.\<close>

lemma find_row_plain:
  assumes "plain_messages ms" and "0 < width" and "skip < length (all_rows width ms)"
  shows "\<exists>i k. find_row width ms j (int skip) = (Some (j + i), int k) \<and> i < length ms \<and>
    drop skip (all_rows width ms) = drop k (all_rows width (drop i ms)) \<and>
    skip + length (all_rows width (drop i ms)) = k + length (all_rows width ms)"
  using assms
proof (induction ms arbitrary: j skip)
  case (Cons m ms)
  show ?case
  proof (cases m)
    case None
    with Cons.prems Cons.IH [of skip "j + 1"] obtain i k where
      r: "find_row width ms (j + 1) (int skip) = (Some (j + 1 + i), int k)" "i < length ms"
      "drop skip (all_rows width ms) = drop k (all_rows width (drop i ms))"
      "skip + length (all_rows width (drop i ms)) = k + length (all_rows width ms)" by auto
    show ?thesis by (rule exI [of _ "Suc i"], rule exI [of _ k]) (use None r in simp)
  next
    case (Some p)
    then have p: "plain_message p" and ms: "plain_messages ms" using Cons.prems(1) by auto
    let ?n = "length (chunks width p)"
    have rows: "tui_line_rows (Some p) width = ?n" using tui_line_rows_plain [OF p Cons.prems(2)] .
    show ?thesis
    proof (cases "skip < ?n")
      case True
      show ?thesis by (rule exI [of _ 0], rule exI [of _ skip]) (use Some rows True in simp)
    next
      case False
      with Cons.prems(3) Some have "skip - ?n < length (all_rows width ms)" by auto
      from Cons.IH [OF ms Cons.prems(2) this, of "j + 1"] obtain i k where
        r: "find_row width ms (j + 1) (int (skip - ?n)) = (Some (j + 1 + i), int k)" "i < length ms"
        "drop (skip - ?n) (all_rows width ms) = drop k (all_rows width (drop i ms))"
        "skip - ?n + length (all_rows width (drop i ms)) = k + length (all_rows width ms)" by blast
      show ?thesis
        by (rule exI [of _ "Suc i"], rule exI [of _ k]) (use Some rows False r in \<open>simp add: of_nat_diff\<close>)
    qed
  qed
qed simp

subsection \<open>Slices of a coloured line\<close>

text \<open>The length of the control sequence that begins with the \<open>ESC\<close> at the head.\<close>

definition esc_length :: "string \<Rightarrow> nat" where
  "esc_length s = (if tl s \<noteq> [] \<and> hd (tl s) = CHR ''['' then 2 + csi_end (drop 2 s) else 1)"

lemma esc_length_pos [simp]: "0 < esc_length s" "esc_length s \<noteq> 0"
  by (simp_all add: esc_length_def)

lemma esc_length_le: "s \<noteq> [] \<Longrightarrow> esc_length s \<le> length s"
  using csi_end_le [of "drop 2 s"] by (cases s; cases "tl s") (auto simp: esc_length_def simp del: csi_end_le)

function column_offset :: "string \<Rightarrow> nat \<Rightarrow> nat" where
  "column_offset s columns =
     (if s = [] \<or> columns = 0 then 0
      else if hd s = ESC then esc_length s + column_offset (drop (esc_length s) s) columns
      else 1 + column_offset (tl s) (columns - 1))"
  by pat_completeness auto

termination by (relation "measure (\<lambda>(s, columns). length s)") auto

declare column_offset.simps [simp del]

definition ansi_column_offset :: "string ptr \<Rightarrow> nat \<Rightarrow> nat" where
  "ansi_column_offset s column = (case s of None \<Rightarrow> 0 | Some s \<Rightarrow> column_offset s column)"

text \<open>\<open>room\<close> is what is left of the output buffer without the terminating NUL.\<close>

function copy_columns :: "string \<Rightarrow> nat \<Rightarrow> nat \<Rightarrow> string" where
  "copy_columns s columns room =
     (if s = [] \<or> room = 0 \<or> columns = 0 then []
      else if hd s = ESC then
        (let k = esc_length s in take (min k room) s @ copy_columns (drop k s) columns (room - min k room))
      else hd s # copy_columns (tl s) (columns - 1) (room - 1))"
  by pat_completeness auto

termination by (relation "measure (\<lambda>(s, columns, room). length s)") auto

declare copy_columns.simps [simp del]

definition ansi_copy_columns :: "string ptr \<Rightarrow> nat \<Rightarrow> nat \<Rightarrow> string ptr" where
  "ansi_copy_columns s columns out_size =
     (case s of None \<Rightarrow> NULL | Some s \<Rightarrow> if out_size = 0 then NULL else Some (copy_columns s columns (out_size - 1)))"

text \<open>What is visible of a coloured text.\<close>

function ansi_visible :: "string \<Rightarrow> string" where
  "ansi_visible s =
     (if s = [] then []
      else if hd s = ESC then ansi_visible (drop (esc_length s) s)
      else hd s # ansi_visible (tl s))"
  by pat_completeness auto

termination by (relation "measure length") auto

declare ansi_visible.simps [simp del]

lemma ansi_visible_simps [simp]:
  "ansi_visible [] = []"
  "c \<noteq> ESC \<Longrightarrow> ansi_visible (c # s) = c # ansi_visible s"
  by (simp_all add: ansi_visible.simps)

lemma visible_offset: "ansi_visible (drop (column_offset s columns) s) = drop columns (ansi_visible s)"
proof (induction s columns rule: column_offset.induct)
  case (1 s columns)
  show ?case
  proof (cases "s = [] \<or> columns = 0")
    case True
    then show ?thesis by (auto simp: column_offset.simps)
  next
    case False
    then obtain n where n: "columns = Suc n" by (cases columns) auto
    show ?thesis
    proof (cases "hd s = ESC")
      case True
      then have "column_offset s columns = column_offset (drop (esc_length s) s) columns + esc_length s"
        using False by (subst column_offset.simps) simp
      then have "drop (column_offset s columns) s =
          drop (column_offset (drop (esc_length s) s) columns) (drop (esc_length s) s)" by simp
      then have "ansi_visible (drop (column_offset s columns) s) = drop columns (ansi_visible (drop (esc_length s) s))"
        using 1(1) [OF False True] by simp
      moreover have "ansi_visible s = ansi_visible (drop (esc_length s) s)"
        using False True by (subst ansi_visible.simps) simp
      ultimately show ?thesis by simp
    next
      case plain: False
      then have "column_offset s columns = Suc (column_offset (tl s) (columns - 1))" using False by (subst column_offset.simps) simp
      moreover have "ansi_visible s = hd s # ansi_visible (tl s)" using False plain by (subst ansi_visible.simps) simp
      ultimately show ?thesis using 1(2) [OF False plain] n by (simp add: drop_Suc)
    qed
  qed
qed

lemma copy_columns_head: "copy_columns s columns room = c # r \<Longrightarrow> s \<noteq> [] \<and> hd s = c"
proof -
  assume a: "copy_columns s columns room = c # r"
  then have n: "s \<noteq> []" "room \<noteq> 0" "columns \<noteq> 0" by (auto simp: copy_columns.simps [of s] split: if_splits)
  show ?thesis
  proof (cases "hd s = ESC")
    case True
    then have "take (min (esc_length s) room) s @ copy_columns (drop (esc_length s) s) columns (room - min (esc_length s) room) = c # r"
      using a n by (subst (asm) copy_columns.simps) (simp add: Let_def)
    moreover obtain m where "min (esc_length s) room = Suc m" using n(2) by (cases "min (esc_length s) room") (auto simp: min_def split: if_splits)
    ultimately show ?thesis using n(1) by (cases s) auto
  next
    case False
    then show ?thesis using a n by (subst (asm) copy_columns.simps) simp
  qed
qed

lemma visible_escape:
  assumes "s \<noteq> []" and "hd s = ESC" and r: "r = [] \<or> (drop (esc_length s) s \<noteq> [] \<and> hd r = hd (drop (esc_length s) s))"
  shows "ansi_visible (take (esc_length s) s @ r) = ansi_visible r"
proof (cases "tl s \<noteq> [] \<and> hd (tl s) = CHR ''[''")
  case True
  then obtain t where s: "s = ESC # CHR ''['' # t" using assms(1,2) by (cases s; cases "tl s") auto
  let ?w = "takeWhile (\<lambda>c. \<not> csi_final c) t"
  show ?thesis
  proof (cases "length ?w < length t")
    case full: True
    then obtain e u where t: "t = ?w @ e # u" by (metis append_Nil2 less_irrefl list.exhaust takeWhile_dropWhile_id)
    then have e: "csi_final e" by (metis hd_dropWhile list.sel(1) list.distinct(1) same_append_eq takeWhile_dropWhile_id)
    have k: "esc_length s = Suc (Suc (Suc (length ?w)))" using s full by (simp add: esc_length_def csi_end_def Let_def)
    have "take (Suc (length ?w)) (?w @ e # u) = ?w @ [e]" by simp
    then have "take (Suc (length ?w)) t = ?w @ [e]" using t by metis
    then have tk: "take (esc_length s) s = ESC # CHR ''['' # ?w @ [e]" unfolding k by (simp add: s)
    have w: "takeWhile (\<lambda>c. \<not> csi_final c) (?w @ e # r) = ?w" using e by (subst takeWhile_append2) (auto dest: set_takeWhileD)
    have "esc_length (ESC # CHR ''['' # ?w @ e # r) = Suc (Suc (Suc (length ?w)))" by (simp add: esc_length_def csi_end_def w Let_def)
    then show ?thesis unfolding tk by (subst ansi_visible.simps) simp
  next
    case False
    then have "csi_end t = length t" using length_takeWhile_le [of "\<lambda>c. \<not> csi_final c" t] by (simp add: csi_end_def Let_def)
    then have "esc_length s = length s" by (simp add: esc_length_def s)
    then show ?thesis using r assms(1,2) by (auto simp: ansi_visible.simps [of s])
  qed
next
  case False
  then have k: "esc_length s = 1" by (simp add: esc_length_def)
  have "esc_length (ESC # r) = 1" using r False unfolding k by (cases s) (auto simp: esc_length_def)
  moreover have "take (esc_length s) s = [ESC]" using assms(1,2) unfolding k by (cases s) auto
  ultimately show ?thesis by (simp add: ansi_visible.simps [of "ESC # r"])
qed

lemma visible_copy:
  "length s \<le> room \<Longrightarrow> ansi_visible (copy_columns s columns room) = take columns (ansi_visible s)"
proof (induction s columns room rule: copy_columns.induct)
  case (1 s columns room)
  show ?case
  proof (cases "s = [] \<or> room = 0 \<or> columns = 0")
    case True
    then show ?thesis using 1(3) by (auto simp: copy_columns.simps)
  next
    case False
    show ?thesis
    proof (cases "hd s = ESC")
      case True
      let ?k = "esc_length s" and ?r = "copy_columns (drop (esc_length s) s) columns (room - esc_length s)"
      have k: "min ?k room = ?k" using esc_length_le [of s] False 1(3) by simp
      have IH: "ansi_visible ?r = take columns (ansi_visible (drop ?k s))"
        using 1(1) [OF False True refl] 1(3) k by simp
      have "copy_columns s columns room = take ?k s @ ?r"
        using False True k by (subst copy_columns.simps) (simp add: Let_def)
      moreover have "ansi_visible (take ?k s @ ?r) = ansi_visible ?r"
        using visible_escape [of s ?r] False True copy_columns_head [of "drop ?k s" columns "room - ?k"] by (cases ?r) auto
      moreover have "ansi_visible s = ansi_visible (drop ?k s)" using False True by (subst ansi_visible.simps) simp
      ultimately show ?thesis using IH by simp
    next
      case plain: False
      have "copy_columns s columns room = hd s # copy_columns (tl s) (columns - 1) (room - 1)"
        using False plain by (subst copy_columns.simps) simp
      moreover have "ansi_visible s = hd s # ansi_visible (tl s)" using False plain by (subst ansi_visible.simps) simp
      ultimately show ?thesis using 1(2) [OF False plain] 1(3) False plain by (cases columns) auto
    qed
  qed
qed

subsection \<open>The input line\<close>

text \<open>A formatting control is shown as a letter between style tags; a style tag is written with
  \<open>snprintf\<close>, other characters are stored.\<close>

definition input_mark :: "char \<Rightarrow> string option" where
  "input_mark c =
     (if c = CHR 0x02 then Some ''{bold}B{bold-off}''
      else if c = CHR 0x03 then Some ''{reverse}C{reverse-off}''
      else if c = CHR 0x04 then Some ''{reverse}H{reverse-off}''
      else if c = CHR 0x0F then Some ''{reset}''
      else if c = CHR 0x16 then Some ''{reverse}V{reverse-off}''
      else if c = CHR 0x1D then Some ''{italic}I{italic-off}''
      else if c = CHR 0x1F then Some ''{underline}_{underline-off}''
      else None)"

definition input_char :: "char \<Rightarrow> char" where
  "input_char c = (if 32 \<le> code c \<and> code c \<le> 126 then c else CHR ''?'')"

text \<open>
  The buffer of 2048 bytes; \<open>out\<close> is what was written, its length \<open>buf_pos\<close>. \<open>snprintf\<close>
  truncates at the end of the buffer but returns the full length. Once \<open>buf_pos\<close> is larger
  than the buffer, the size that is passed to \<open>snprintf\<close> wraps to a huge one.
\<close>

abbreviation INPUT_BUF :: nat where "INPUT_BUF \<equiv> 2048"

fun display_loop :: "string \<Rightarrow> string \<Rightarrow> string comp" where
  "display_loop [] out = (if length out < INPUT_BUF then Some out else None)"
| "display_loop (c # s) out =
     (case input_mark c of
        Some m \<Rightarrow> if length out \<le> INPUT_BUF then display_loop s (out @ m) else None
      | None \<Rightarrow> if length out < INPUT_BUF then display_loop s (out @ [input_char c]) else None)"

definition cursor_screen_pos :: "nat \<Rightarrow> nat \<Rightarrow> nat" where
  "cursor_screen_pos cursor len =
     (if cursor = 0 then 0 else if cursor < len then cursor else if cursor = len \<and> len > 0 then len + 1 else 0)"

definition input_width :: "nat \<Rightarrow> nat \<Rightarrow> nat" where
  "input_width width prompt_len =
     (let w = int width - int prompt_len - 1 in if w < 1 then 1 else if w \<ge> 2048 then 2047 else nat w)"

definition clamp_line :: "input_line \<Rightarrow> input_line" where
  "clamp_line l =
     (let len = (if il_len l \<ge> TUI_INPUTLEN then TUI_INPUTLEN - 1 else il_len l)
      in l\<lparr>il_len := len, il_cursor := (if il_cursor l > len then len else il_cursor l)\<rparr>)"

text \<open>The line that is drawn behind the prompt: the visible slice and the column of the cursor.\<close>

definition draw_input :: "bool \<Rightarrow> nat \<Rightarrow> string \<Rightarrow> input_line \<Rightarrow> alloc \<Rightarrow> (string \<times> nat \<times> alloc) comp" where
  "draw_input colors width prompt_title l a =
     (let l = clamp_line l;
          prompt_len = visible_length prompt_title + 2;
          pos = cursor_screen_pos (il_cursor l) (il_len l);
          max_width = input_width width prompt_len;
          start_col = (if pos > max_width then pos - max_width else 0)
      in do {
        buf \<leftarrow> display_loop (take (il_len l) (il_buf l)) [];
        let (line, a) = tui_colorize_string colors (Some buf) a in
        case line of
          None \<Rightarrow> None
        | Some t \<Rightarrow>
            (let slice = copy_columns (drop (ansi_column_offset (Some t) start_col) t) max_width (2048 - 1)
             in Some (slice, pos - start_col + (if slice = [] then prompt_len + 1 else prompt_len), a))
      })"

text \<open>What is written: the cleared last row, the prompt and the slice, the cursor.\<close>

definition update_input_line ::
  "bool \<Rightarrow> nat \<Rightarrow> nat \<Rightarrow> string \<Rightarrow> input_line \<Rightarrow> alloc \<Rightarrow> (string list \<times> alloc) comp" where
  "update_input_line colors rows width prompt_title l a =
     do {
       (slice, column, a) \<leftarrow> draw_input colors width prompt_title l a;
       let prompt = take 511 ([CHR 0x03] @ ''11'' @ prompt_title @ [CHR 0x03] @ ''10>'' @ [CHR 0x0F] @ '' '');
           (color_prompt, a) = tui_colorize_string colors (Some prompt) a in
       case color_prompt of
         None \<Rightarrow> None
       | Some p \<Rightarrow>
           Some ([csi (show_nat rows @ '';1H'') @ csi ''2K'', p @ slice, csi (show_nat rows @ '';'' @ show_nat column @ ''H'')], a)
     }"

subsection \<open>When the input line can be drawn\<close>

definition input_piece :: "char \<Rightarrow> string" where
  "input_piece c = (case input_mark c of Some m \<Rightarrow> m | None \<Rightarrow> [input_char c])"

definition input_text :: "string \<Rightarrow> string" where
  "input_text s = concat (map input_piece s)"

lemma input_text_simps [simp]: "input_text [] = []" "input_text (c # s) = input_piece c @ input_text s"
  by (simp_all add: input_text_def)

lemma display_loop_eq:
  "display_loop s out = (if length (out @ input_text s) < INPUT_BUF then Some (out @ input_text s) else None)"
proof (induction s arbitrary: out)
  case (Cons c s)
  show ?case
  proof (cases "input_mark c")
    case None
    then show ?thesis using Cons [of "out @ [input_char c]"] by (simp add: input_piece_def)
  next
    case (Some m)
    then show ?thesis using Cons [of "out @ m"] by (simp add: input_piece_def)
  qed
qed simp

definition typed :: "input_line \<Rightarrow> string" where
  "typed l = take (il_len l) (il_buf l)"

lemma clamp_line_id [simp]: "line_ok l \<Longrightarrow> clamp_line l = l"
  by (simp add: clamp_line_def line_ok_def Let_def)

lemma input_piece_length: "length (input_piece c) \<le> 27"
  by (simp add: input_piece_def input_mark_def)

lemma input_piece_plain: "input_mark c = None \<Longrightarrow> length (input_piece c) = 1"
  by (simp add: input_piece_def)

lemma input_text_length:
  "length (input_text s) \<le> length s + 26 * length (filter (\<lambda>c. input_mark c \<noteq> None) s)"
proof (induction s)
  case (Cons c s)
  then show ?case using input_piece_length [of c] input_piece_plain [of c] by (cases "input_mark c") auto
qed simp

lemma drawn_iff:
  assumes "line_ok l"
  shows "draw_input colors width prompt l [] \<noteq> None \<longleftrightarrow> length (input_text (typed l)) < INPUT_BUF"
proof (cases "length (input_text (typed l)) < INPUT_BUF")
  case True
  have small: "\<not> length (input_text (typed l)) > (2 ^ 64 - 1 - 64) div 32" using True by simp
  have "fst (tui_colorize_string colors (Some (input_text (typed l))) []) \<noteq> None"
    using small by (simp add: tui_colorize_string_def irc_to_tui_colors_def)
  then show ?thesis using True assms
    by (auto simp: draw_input_def display_loop_eq typed_def [symmetric] Let_def split: prod.splits)
next
  case False
  then show ?thesis using assms by (simp add: draw_input_def display_loop_eq typed_def [symmetric] Let_def)
qed

text \<open>When the input line can be drawn. The line with its formatting controls expanded to style tags
  has to fit the buffer of 2048 bytes; otherwise the code stores behind the buffer on the stack.
  A line with at most 59 formatting controls is always drawn.\<close>

theorem input_line_drawn_iff:
  assumes "line_ok l"
  shows "(draw_input colors width prompt l [] \<noteq> None \<longleftrightarrow> length (input_text (typed l)) < INPUT_BUF) \<and>
    (length (filter (\<lambda>c. input_mark c \<noteq> None) (typed l)) \<le> 59 \<longrightarrow> draw_input colors width prompt l [] \<noteq> None)"
proof -
  have "length (typed l) \<le> 511" using assms by (simp add: typed_def line_ok_def)
  then show ?thesis unfolding drawn_iff [OF assms] using input_text_length [of "typed l"] by simp
qed

theorem input_line_drawn_iff_witness:
  "draw_input True 80 ''status'' blank_line [] \<noteq> None"
  using input_line_drawn_iff [OF blank_line_ok(1), of True 80 "''status''"] by (simp add: typed_def blank_line_def)

text \<open>Seventy-six underline controls (Ctrl-underscore held for a few seconds) are enough.\<close>

lemma underlines_overflow:
  "\<exists>l. line_edits (replicate 76 (Insert CHR 0x1F)) blank_line = Some l \<and> line_ok l \<and> draw_input colors width prompt l [] = None"
proof -
  let ?es = "replicate 76 (Insert CHR 0x1F)"
  have step: "fold text_edit (replicate n (Insert CHR 0x1F)) (b, []) = (b @ replicate n (CHR 0x1F), [])" if "length b + n \<le> 511" for n b
    using that
  proof (induction n arbitrary: b)
    case (Suc n)
    then show ?case using Suc.IH [of "b @ [CHR 0x1F]"] by simp
  qed simp
  have ok: "list_all edit_ok ?es" by (simp add: list_all_iff)
  obtain l where l: "line_edits ?es blank_line = Some l" "line_ok l" "view l = fold text_edit ?es (view blank_line)"
    using line_edits_view [OF blank_line_ok(1) ok] by blast
  then have "view l = (replicate 76 (CHR 0x1F), [])" using step [of "[]" 76] by (simp add: blank_line_ok)
  with l(2) have "shows_as l (replicate 76 (CHR 0x1F)) []" by (simp add: shows_as_iff)
  then have "typed l = replicate 76 (CHR 0x1F)" by (auto simp: shows_as_def typed_def)
  moreover have "length (input_text (replicate n (CHR 0x1F))) = 27 * n" for n
    by (induction n) (simp_all add: input_piece_def input_mark_def)
  ultimately have "\<not> length (input_text (typed l)) < INPUT_BUF" by simp
  then have "draw_input colors width prompt l [] = None" using drawn_iff [OF l(2)] by blast
  with l show ?thesis by blast
qed

subsection \<open>What the input line shows\<close>

text \<open>The specification: each character has one glyph; a reset has none.\<close>

definition input_glyph :: "char \<Rightarrow> string" where
  "input_glyph c =
     (if c = CHR 0x02 then ''B'' else if c = CHR 0x03 then ''C'' else if c = CHR 0x04 then ''H''
      else if c = CHR 0x0F then [] else if c = CHR 0x16 then ''V'' else if c = CHR 0x1D then ''I''
      else if c = CHR 0x1F then ''_'' else [input_char c])"

definition input_glyphs :: "string \<Rightarrow> string" where
  "input_glyphs s = concat (map input_glyph s)"

lemma visible_csi1: "\<not> csi_final x \<Longrightarrow> ansi_visible (ESC # CHR ''['' # x # CHR ''m'' # t) = ansi_visible t"
proof -
  assume "\<not> csi_final x"
  moreover have "csi_final (CHR ''m'')" by (simp add: csi_final_def code_def)
  ultimately show ?thesis by (subst ansi_visible.simps) (simp add: esc_length_def csi_end_def Let_def)
qed

lemma visible_csi2: "\<lbrakk>\<not> csi_final x; \<not> csi_final y\<rbrakk> \<Longrightarrow> ansi_visible (ESC # CHR ''['' # x # y # CHR ''m'' # t) = ansi_visible t"
proof -
  assume "\<not> csi_final x" "\<not> csi_final y"
  moreover have "csi_final (CHR ''m'')" by (simp add: csi_final_def code_def)
  ultimately show ?thesis by (subst ansi_visible.simps) (simp add: esc_length_def csi_end_def Let_def)
qed

lemma colorize_char: "\<lbrakk>c \<noteq> ESC; c \<noteq> CHR ''{''\<rbrakk> \<Longrightarrow> colorize_loop colors conv (c # s) = c # colorize_loop colors conv s"
  by simp

lemma colorize_piece:
  assumes "c \<noteq> CHR ''{''"
  shows "\<exists>w. (\<forall>r. colorize_loop colors False (input_piece c @ r) = w @ colorize_loop colors False r) \<and>
      (\<forall>t. ansi_visible (w @ t) = input_glyph c @ ansi_visible t)"
proof -
  have d: "\<not> csi_final (CHR ''0'')" "\<not> csi_final (CHR ''1'')" "\<not> csi_final (CHR ''2'')" "\<not> csi_final (CHR ''3'')"
    "\<not> csi_final (CHR ''4'')" "\<not> csi_final (CHR ''7'')" by (simp_all add: csi_final_def code_def)
  note v = visible_csi1 visible_csi2 d
  have tag: "colorize_loop colors False (CHR ''{'' # key @ CHR ''}'' # r) = (if colors then e else []) @ colorize_loop colors False r"
    if "ansi_code key = Some e" "CHR ''}'' \<notin> set key" "length key \<le> 63" for key e r
  proof -
    have "takeWhile (\<lambda>x. x \<noteq> CHR ''}'') (key @ CHR ''}'' # r) = key" using that(2) by (subst takeWhile_append2) auto
    then show ?thesis using that by (simp add: Let_def)
  qed
  have wrap: ?thesis if p: "input_mark c = Some (CHR ''{'' # k1 @ CHR ''}'' # x # CHR ''{'' # k2 @ ''}'')"
    and g: "input_glyph c = [x]" "x \<noteq> ESC" "x \<noteq> CHR ''{''"
    and k1: "ansi_code k1 = Some e1" "CHR ''}'' \<notin> set k1" "length k1 \<le> 63" "\<forall>t. ansi_visible (e1 @ t) = ansi_visible t"
    and k2: "ansi_code k2 = Some e2" "CHR ''}'' \<notin> set k2" "length k2 \<le> 63" "\<forall>t. ansi_visible (e2 @ t) = ansi_visible t"
    for k1 k2 x e1 e2
    by (rule exI [of _ "(if colors then e1 else []) @ [x] @ (if colors then e2 else [])"])
      (use g k1(4) k2(4) tag [OF k1(1-3)] tag [OF k2(1-3)] in \<open>simp add: input_piece_def p colorize_char del: colorize_loop.simps\<close>)
  have codes: "ansi_code ''bold'' = Some (csi ''1m'')" "ansi_code ''bold-off'' = Some (csi ''22m'')"
    "ansi_code ''reverse'' = Some (csi ''7m'')" "ansi_code ''reverse-off'' = Some (csi ''27m'')"
    "ansi_code ''italic'' = Some (csi ''3m'')" "ansi_code ''italic-off'' = Some (csi ''23m'')"
    "ansi_code ''underline'' = Some (csi ''4m'')" "ansi_code ''underline-off'' = Some (csi ''24m'')"
    "ansi_code ''reset'' = Some (csi ''0m'')" by (simp_all add: ansi_code_def ansi_table_def)
  have vis: "\<forall>t. ansi_visible (csi ''1m'' @ t) = ansi_visible t" "\<forall>t. ansi_visible (csi ''22m'' @ t) = ansi_visible t"
    "\<forall>t. ansi_visible (csi ''7m'' @ t) = ansi_visible t" "\<forall>t. ansi_visible (csi ''27m'' @ t) = ansi_visible t"
    "\<forall>t. ansi_visible (csi ''3m'' @ t) = ansi_visible t" "\<forall>t. ansi_visible (csi ''23m'' @ t) = ansi_visible t"
    "\<forall>t. ansi_visible (csi ''4m'' @ t) = ansi_visible t" "\<forall>t. ansi_visible (csi ''24m'' @ t) = ansi_visible t"
    "\<forall>t. ansi_visible (csi ''0m'' @ t) = ansi_visible t" by (simp_all add: csi_def v)
  consider "c = CHR 0x02" | "c = CHR 0x03" | "c = CHR 0x04" | "c = CHR 0x0F" | "c = CHR 0x16" | "c = CHR 0x1D" | "c = CHR 0x1F"
    | (plain) "input_mark c = None"
    by (cases "input_mark c") (auto simp: input_mark_def split: if_splits)
  then show ?thesis
  proof cases
    case 1 show ?thesis
      by (rule wrap [of "''bold''" "CHR ''B''" "''bold-off''", OF _ _ _ _ codes(1) _ _ vis(1) codes(2) _ _ vis(2)])
        (simp_all add: 1 input_mark_def input_glyph_def)
  next
    case 2 show ?thesis
      by (rule wrap [of "''reverse''" "CHR ''C''" "''reverse-off''", OF _ _ _ _ codes(3) _ _ vis(3) codes(4) _ _ vis(4)])
        (simp_all add: 2 input_mark_def input_glyph_def)
  next
    case 3 show ?thesis
      by (rule wrap [of "''reverse''" "CHR ''H''" "''reverse-off''", OF _ _ _ _ codes(3) _ _ vis(3) codes(4) _ _ vis(4)])
        (simp_all add: 3 input_mark_def input_glyph_def)
  next
    case 4 show ?thesis
      by (rule exI [of _ "if colors then csi ''0m'' else []"])
        (use tag [OF codes(9)] vis(9) in \<open>simp add: 4 input_piece_def input_mark_def input_glyph_def del: colorize_loop.simps\<close>)
  next
    case 5 show ?thesis
      by (rule wrap [of "''reverse''" "CHR ''V''" "''reverse-off''", OF _ _ _ _ codes(3) _ _ vis(3) codes(4) _ _ vis(4)])
        (simp_all add: 5 input_mark_def input_glyph_def)
  next
    case 6 show ?thesis
      by (rule wrap [of "''italic''" "CHR ''I''" "''italic-off''", OF _ _ _ _ codes(5) _ _ vis(5) codes(6) _ _ vis(6)])
        (simp_all add: 6 input_mark_def input_glyph_def)
  next
    case 7 show ?thesis
      by (rule wrap [of "''underline''" "CHR ''_''" "''underline-off''", OF _ _ _ _ codes(7) _ _ vis(7) codes(8) _ _ vis(8)])
        (simp_all add: 7 input_mark_def input_glyph_def)
  next
    case plain
    then have g: "input_glyph c = [input_char c]" by (auto simp: input_mark_def input_glyph_def split: if_splits)
    have "input_char c \<noteq> ESC" "input_char c \<noteq> CHR ''{''" using assms by (auto simp: input_char_def code_def)
    then show ?thesis by (intro exI [of _ "[input_char c]"]) (simp add: input_piece_def plain g)
  qed
qed

lemma visible_input:
  "CHR ''{'' \<notin> set s \<Longrightarrow> ansi_visible (colorize_loop colors False (input_text s)) = input_glyphs s"
proof (induction s)
  case (Cons c s)
  then have "c \<noteq> CHR ''{''" by auto
  from colorize_piece [OF this, of colors] obtain w where
    w: "\<And>r. colorize_loop colors False (input_piece c @ r) = w @ colorize_loop colors False r"
    "\<And>t. ansi_visible (w @ t) = input_glyph c @ ansi_visible t" by blast
  show ?case using Cons by (simp add: w input_glyphs_def)
qed (simp add: input_glyphs_def)

lemma no_controls_in_input: "\<not> list_ex irc_control (input_text s)"
proof (induction s)
  case (Cons c s)
  have "\<not> irc_control (input_char c)" by (auto simp: input_char_def irc_control_def code_def)
  then have "list_all (\<lambda>c. \<not> irc_control c) (input_piece c)"
    by (simp add: input_piece_def input_mark_def irc_control_def)
  with Cons show ?case by (auto simp: list_all_iff list_ex_iff)
qed simp

lemma length_input_glyphs: "CHR 0x0F \<notin> set s \<Longrightarrow> length (input_glyphs s) = length s"
  by (induction s) (auto simp: input_glyphs_def input_glyph_def)

text \<open>C21: what the input line shows, for a line in which no opening brace is typed (it would begin a style
  tag) and whose expanded text fits the buffer. However the line is coloured, the visible characters
  behind the prompt are the glyphs of the typed text from column \<open>first\<close> on, as many as fit into the
  \<open>w\<close> columns that the prompt leaves (a slice never cuts a control sequence). The terminal's cursor is
  \<open>behind\<close> columns behind the prompt (one more when nothing is shown) and inside those \<open>w\<close> columns: on
  the character before the position of the cursor, or right behind the text when the position is its
  end; and the line is scrolled (\<open>first > 0\<close>) only as far as that takes, the cursor being then in the
  last of the columns.\<close>

theorem input_line_shows:
  assumes "line_ok l" and "CHR ''{'' \<notin> set (typed l)" and "length (input_text (typed l)) < INPUT_BUF"
  shows "\<exists>slice first behind a.
    draw_input colors width prompt l [] = Some (slice, visible_length prompt + 2 + behind + (if slice = [] then 1 else 0), a) \<and>
    (let w = nat (max 1 (min 2047 (int width - int (visible_length prompt) - 3)))
     in ansi_visible slice = take w (drop first (input_glyphs (typed l))) \<and>
        behind \<le> w \<and> (first = 0 \<or> behind = w) \<and>
        first + behind = (if 0 < il_len l \<and> il_cursor l = il_len l then il_len l + 1 else il_cursor l))"
proof -
  let ?t = "colorize_loop colors False (input_text (typed l))"
  let ?w = "input_width width (visible_length prompt + 2)" and ?pos = "cursor_screen_pos (il_cursor l) (il_len l)"
  have w: "nat (max 1 (min 2047 (int width - int (visible_length prompt) - 3))) = ?w"
    by (auto simp: input_width_def Let_def)
  have pos: "?pos = (if 0 < il_len l \<and> il_cursor l = il_len l then il_len l + 1 else il_cursor l)"
    using assms(1) by (auto simp: cursor_screen_pos_def line_ok_def)
  have line: "tui_colorize_string colors (Some (input_text (typed l))) [] = (Some ?t, [])"
    using no_controls_in_input by (simp add: tui_colorize_string_def)
  have start: "(if ?pos > ?w then ?pos - ?w else 0) = ?pos - ?w" by simp
  let ?slice = "copy_columns (drop (column_offset ?t (?pos - ?w)) ?t) ?w 2047"
  have "length (drop (column_offset ?t (?pos - ?w)) ?t) \<le> 2047"
    using colorize_length [of colors False "input_text (typed l)"] assms(3) unfolding length_drop by linarith
  then have v: "ansi_visible ?slice = take ?w (drop (?pos - ?w) (input_glyphs (typed l)))"
    using visible_copy visible_offset visible_input [OF assms(2)] by simp
  have col: "d + (if e then n + 2 + 1 else n + 2) = n + 2 + d + (if e then 1 else 0)" for d n :: nat and e by simp
  have "draw_input colors width prompt l [] =
      Some (?slice, ?pos - (?pos - ?w) + (if ?slice = [] then visible_length prompt + 2 + 1 else visible_length prompt + 2), [])"
    using assms(1,3) by (simp add: draw_input_def display_loop_eq typed_def [symmetric] line start Let_def ansi_column_offset_def)
  then have "draw_input colors width prompt l [] =
      Some (?slice, visible_length prompt + 2 + (?pos - (?pos - ?w)) + (if ?slice = [] then 1 else 0), [])" unfolding col .
  moreover have "?pos - (?pos - ?w) \<le> ?w" "?pos - ?w = 0 \<or> ?pos - (?pos - ?w) = ?w" "?pos - ?w + (?pos - (?pos - ?w)) = ?pos"
    by linarith+
  ultimately show ?thesis using v unfolding Let_def w pos [symmetric] by blast
qed

definition typed_hello :: input_line where
  "typed_hello = \<lparr>il_buf = ''hello'' @ replicate 507 NUL, il_len = 5, il_cursor = 5\<rparr>"

lemma input_line_shows_witness:
  "\<exists>slice a. draw_input True 80 ''status'' typed_hello [] = Some (slice, 14, a) \<and> ansi_visible slice = ''hello''"
proof -
  have ok: "line_ok typed_hello" by (simp add: line_ok_def typed_hello_def nth_append)
  have t: "typed typed_hello = ''hello''" by (simp add: typed_def typed_hello_def)
  have n: "visible_length ''status'' = 6" by simp
  have l: "il_len typed_hello = 5" "il_cursor typed_hello = 5" by (simp_all add: typed_hello_def)
  have "input_glyphs ''hello'' = ''hello''" by (simp add: input_glyphs_def input_glyph_def input_char_def code_def)
  moreover have "length (input_text ''hello'') = 5" by (simp add: input_piece_def input_mark_def)
  ultimately show ?thesis using input_line_shows [OF ok, of True 80 "''status''", unfolded t n l Let_def] by auto
qed

text \<open>The cursor is drawn one column to the left of the character it is at, but right behind the
  text at its end: moving left from the end moves it by two columns.\<close>

lemma cursor_jumps:
  "0 < len \<Longrightarrow> cursor_screen_pos len len = len + 1"
  "0 < k \<Longrightarrow> k < len \<Longrightarrow> cursor_screen_pos k len = k"
  by (simp_all add: cursor_screen_pos_def)

text \<open>A wrapped row begins in the colour that it ends with, not in the one that was in effect.\<close>

lemma wrapped_row_wrong_colour:
  "message_rows 2 (csi ''31m'' @ ''abc'' @ csi ''32m'' @ ''d'') [] 0 0 10 =
     ([([], csi ''31m'' @ ''ab''), (csi ''32m'', ''c'' @ csi ''32m'' @ ''d'')], 0, 8)"
  by (simp add: message_rows.simps row_loop.simps csi_def csi_end_def csi_final_def code_def Let_def)

subsection \<open>The log area\<close>

abbreviation LOG_LINES :: nat where "LOG_LINES \<equiv> 500"

definition ring_oldest :: "nat \<Rightarrow> nat \<Rightarrow> nat" where
  "ring_oldest head count = (head + LOG_LINES - count) mod LOG_LINES"

definition ring_from :: "string ptr list \<Rightarrow> nat \<Rightarrow> nat \<Rightarrow> string ptr list" where
  "ring_from buffer start count = map (\<lambda>i. buffer ! ((start + i) mod LOG_LINES)) [0..<count]"

text \<open>The new scroll offset and the rows that are written from row 2 on; the rest is cleared.\<close>

definition draw_log :: "nat \<Rightarrow> nat \<Rightarrow> string ptr list \<Rightarrow> nat \<Rightarrow> nat \<Rightarrow> int \<Rightarrow> int \<times> screen_row list" where
  "draw_log rows cols buffer head count scroll =
     (let area = int rows - 3;
          oldest = ring_oldest head count;
          messages = ring_from buffer oldest count;
          tot = total_rows cols messages;
          scroll = clamp_scroll tot area scroll;
          (found, skip) = find_row cols messages 0 (top_row tot area scroll);
          start = (case found of Some i \<Rightarrow> (oldest + i) mod LOG_LINES | None \<Rightarrow> oldest)
      in (scroll, render_messages cols (ring_from buffer start count) (nat skip) (rows - 3)))"

text \<open>The specification: a window into the wrapped messages.\<close>

definition shown_rows :: "nat \<Rightarrow> nat \<Rightarrow> string ptr list \<Rightarrow> int \<Rightarrow> string list" where
  "shown_rows rows cols messages scroll =
     (let all = all_rows cols messages in take (rows - 3) (drop (length all - (rows - 3) - nat scroll) all))"

lemma render_append:
  "\<lbrakk>plain_messages A; 0 < width; skip = 0 \<or> 0 < room\<rbrakk> \<Longrightarrow>
     render_messages width (A @ B) skip room =
       map (Pair []) (take room (drop skip (all_rows width A))) @
       render_messages width B (skip - length (all_rows width A)) (room - (length (all_rows width A) - skip))"
proof (induction A arbitrary: skip room)
  case (Cons m A)
  have none: "render_messages width C k 0 = []" for C k by (cases C) auto
  show ?case
  proof (cases m)
    case (Some p)
    show ?thesis
    proof (cases "room = 0")
      case True
      then show ?thesis using none by simp
    next
      case False
      have p: "ESC \<notin> set p" "CHR 0x0A \<notin> set p" and A: "plain_messages A" using Cons.prems Some by (auto simp: plain_message_def)
      let ?n = "length (chunks width p)"
      have "skip - ?n = 0 \<or> 0 < room - (?n - skip)" using False by auto
      note IH = Cons.IH [OF A Cons.prems(2) this]
      have "room - (?n - skip) - (length (all_rows width A) - (skip - ?n)) = room - (?n + length (all_rows width A) - skip)" by simp
      then show ?thesis using Some False message_rows_plain [OF p Cons.prems(2,3), of 0] IH by simp
    qed
  qed (use Cons none in \<open>cases "room = 0"; auto\<close>)
qed simp

lemma ring_from_split:
  "i \<le> count \<Longrightarrow> ring_from buffer ((oldest + i) mod LOG_LINES) count =
     drop i (ring_from buffer oldest count) @ map (\<lambda>j. buffer ! ((oldest + i + j) mod LOG_LINES)) [count - i..<count]"
proof -
  assume i: "i \<le> count"
  have "[0..<count] = [0..<count - i] @ [count - i..<count]" using upt_add_eq_append [of 0 "count - i" i] i by simp
  moreover have "drop i (ring_from buffer oldest count) = map (\<lambda>j. buffer ! ((oldest + i + j) mod LOG_LINES)) [0..<count - i]"
    by (rule nth_equalityI) (auto simp: ring_from_def add.assoc)
  ultimately show ?thesis by (simp add: ring_from_def mod_simps add.assoc)
qed

lemma clamp_scroll_bounds: "0 \<le> clamp_scroll tot area scroll \<and> (0 \<le> tot - area \<longrightarrow> clamp_scroll tot area scroll \<le> tot - area) \<and>
    (tot \<le> area \<longrightarrow> clamp_scroll tot area scroll = 0)"
  by (simp add: clamp_scroll_def Let_def)

lemma draw_log_plain:
  fixes scroll :: int and buffer :: "string ptr list" and head count rows cols :: nat
  assumes plain: "plain_messages (ring_from buffer (ring_oldest head count) count)"
    and full: "list_all (\<lambda>m. m \<noteq> NULL) (ring_from buffer (ring_oldest head count) count)"
    and size: "0 < cols" "3 < rows"
  defines "ms \<equiv> ring_from buffer (ring_oldest head count) count"
  defines "s \<equiv> clamp_scroll (int (length (all_rows cols ms))) (int rows - 3) scroll"
  shows "draw_log rows cols buffer head count scroll = (s, map (Pair []) (shown_rows rows cols ms s))"
proof -
  let ?all = "all_rows cols ms" and ?o = "ring_oldest head count" and ?area = "rows - 3"
  let ?target = "length ?all - ?area - nat s"
  have plain: "plain_messages ms" and full: "list_all (\<lambda>m. m \<noteq> NULL) ms" using plain full by (simp_all add: ms_def)
  have tot: "total_rows cols ms = int (length ?all)" using total_rows_plain [OF plain size(1)] .
  have s: "0 \<le> s" "int (length ?all) \<le> int rows - 3 \<Longrightarrow> s = 0" "int rows - 3 \<le> int (length ?all) \<Longrightarrow> s \<le> int (length ?all) - (int rows - 3)"
    using clamp_scroll_bounds [of "int (length ?all)" "int rows - 3" scroll] by (auto simp: s_def)
  have target: "top_row (int (length ?all)) (int rows - 3) s = int ?target"
    using s(1) size(2) by (auto simp: top_row_def Let_def)
  have "\<exists>found skip i k. find_row cols ms 0 (int ?target) = (found, skip) \<and>
      (case found of Some i \<Rightarrow> (?o + i) mod LOG_LINES | None \<Rightarrow> ?o) = (?o + i) mod LOG_LINES \<and> nat skip = k \<and>
      i \<le> count \<and> drop ?target ?all = drop k (all_rows cols (drop i ms)) \<and>
      (i = 0 \<or> ?area \<le> length (all_rows cols (drop i ms)) - k)"
  proof (cases "length ?all = 0")
    case True
    then have "ms = []"
    proof (cases ms)
      case (Cons m r)
      then obtain p where "m = Some p" "plain_message p" using full plain by (cases m) auto
      then show ?thesis using True Cons size(1) by (auto simp: plain_message_def chunks.simps [of cols p])
    qed
    moreover have "?o mod LOG_LINES = ?o" by (simp add: ring_oldest_def)
    ultimately show ?thesis by (intro exI [of _ None] exI [of _ "0 :: int"] exI [of _ "0 :: nat"] conjI) simp_all
  next
    case False
    then have "length ?all - ?area < length ?all" using size(2) by (intro diff_less) simp_all
    moreover have "?target \<le> length ?all - ?area" by simp
    ultimately have "?target < length ?all" by (rule le_less_trans [rotated])
    from find_row_plain [OF plain size(1) this, of 0] obtain i k where
      r: "find_row cols ms 0 (int ?target) = (Some i, int k)" "i < length ms"
      "drop ?target ?all = drop k (all_rows cols (drop i ms))"
      "?target + length (all_rows cols (drop i ms)) = k + length ?all" by auto
    have i: "i \<le> count" using r(2) by (simp add: ms_def ring_from_def)
    have "i = 0 \<or> ?area \<le> length (all_rows cols (drop i ms)) - k"
    proof (cases "length ?all \<le> ?area")
      case True
      then have t: "?target = 0" by simp
      have "ms \<noteq> []" using False by auto
      then obtain p rest where ms: "ms = Some p # rest" using full by (cases ms) auto
      then have "0 < tui_line_rows (Some p) cols"
        using plain size(1) tui_line_rows_plain [of p cols] by (auto simp: plain_message_def chunks.simps [of cols p])
      then show ?thesis using r(1) t ms by simp
    next
      case False
      then have "nat s \<le> length ?all - ?area" using s(1,3) size(2) by linarith
      then have "?target + ?area \<le> length ?all" using False by linarith
      then show ?thesis using r(4) by linarith
    qed
    with r i show ?thesis by (intro exI [of _ "Some i"] exI [of _ "int k"] exI [of _ i] exI [of _ k] conjI) simp_all
  qed
  then obtain found skip i k where f: "find_row cols ms 0 (int ?target) = (found, skip)"
    "(case found of Some i \<Rightarrow> (?o + i) mod LOG_LINES | None \<Rightarrow> ?o) = (?o + i) mod LOG_LINES" "nat skip = k"
    and i: "i \<le> count" and d: "drop ?target ?all = drop k (all_rows cols (drop i ms))"
    and fit: "i = 0 \<or> ?area \<le> length (all_rows cols (drop i ms)) - k"
    by blast
  let ?B = "map (\<lambda>j. buffer ! ((?o + i + j) mod LOG_LINES)) [count - i..<count]"
  have "plain_messages (drop i ms)" using plain append_take_drop_id [of i ms] by (metis plain_messages_simps(4))
  from render_append [OF this size(1), of k ?area ?B] size(2)
  have "render_messages cols (drop i ms @ ?B) k ?area = map (Pair []) (take ?area (drop ?target ?all)) @
      render_messages cols ?B (k - length (all_rows cols (drop i ms))) (?area - (length (all_rows cols (drop i ms)) - k))"
    unfolding d by simp
  moreover have "render_messages cols ?B (k - length (all_rows cols (drop i ms))) (?area - (length (all_rows cols (drop i ms)) - k)) = []"
    using fit by (cases "i = 0"; cases ?B) auto
  ultimately have r: "render_messages cols (ring_from buffer ((?o + i) mod LOG_LINES) count) k ?area = map (Pair []) (take ?area (drop ?target ?all))"
    unfolding ring_from_split [OF i, of buffer ?o, folded ms_def] by simp
  have area: "rows - 3 = ?area" by (rule refl)
  have "draw_log rows cols buffer head count scroll =
      (s, render_messages cols (ring_from buffer ((?o + i) mod LOG_LINES) count) k ?area)"
    unfolding draw_log_def Let_def ms_def [symmetric] tot s_def [symmetric] target f(1) prod.case f(2,3) by (rule refl)
  then show ?thesis unfolding r shown_rows_def Let_def .
qed

definition three_lines :: "string ptr list" where
  "three_lines = [Some ''first'', Some ''second line'', Some ''third''] @ replicate 497 NULL"

text \<open>C19: the log area is a window into the wrapped scrollback. For messages that are not empty and have no
  control sequences and line feeds, on a terminal with more than three rows, the rows on the screen are
  consecutive rows of all messages cut to the width of the terminal: the last ones, or, scrolled back
  by \<open>s\<close> rows, those that end \<open>s\<close> rows before. That \<open>s\<close> is the scroll offset of the window, cut to the
  range from zero to the number of rows above the first screen. The counting of rows, the search for the
  first message and the drawing loop, three separate pieces of code, agree.\<close>

theorem log_area_is_window:
  assumes "plain_messages (ring_from buffer (ring_oldest head count) count)"
    and "list_all (\<lambda>m. m \<noteq> NULL) (ring_from buffer (ring_oldest head count) count)"
    and "0 < cols" and "3 < rows"
  shows "let all = all_rows cols (ring_from buffer (ring_oldest head count) count);
      s = min (max 0 scroll) (max 0 (int (length all) - (int rows - 3)))
    in draw_log rows cols buffer head count scroll =
      (s, map (Pair []) (take (rows - 3) (drop (length all - (rows - 3) - nat s) all)))"
proof -
  let ?all = "all_rows cols (ring_from buffer (ring_oldest head count) count)"
  have "clamp_scroll (int (length ?all)) (int rows - 3) scroll = min (max 0 scroll) (max 0 (int (length ?all) - (int rows - 3)))"
    by (auto simp: clamp_scroll_def Let_def)
  then show ?thesis using draw_log_plain [OF assms, of scroll] unfolding Let_def shown_rows_def by simp
qed

theorem log_area_is_window_witness:
  "draw_log 5 8 three_lines 3 3 1 = (1, [([], ''second l''), ([], ''ine'')])"
proof -
  have m: "ring_from three_lines (ring_oldest 3 3) 3 = [Some ''first'', Some ''second line'', Some ''third'']"
    by (simp add: ring_from_def ring_oldest_def three_lines_def upt_rec numeral_3_eq_3)
  show ?thesis using log_area_is_window [of three_lines 3 3 8 5 1, unfolded m]
    by (simp add: plain_message_def chunks.simps [of 8] Let_def)
qed

text \<open>An empty message is counted as a row but none is drawn for it.\<close>

lemma empty_message_no_row: "tui_line_rows (Some []) width = 1" "message_rows width [] sgr k skip room = ([], skip, room)"
  by (simp_all add: tui_line_rows_def message_rows.simps)

text \<open>A message of exactly the width of the screen that ends with a control sequence is counted
  as one row but takes two.\<close>

lemma trailing_sequence_takes_row:
  "tui_line_rows (Some (''ab'' @ csi ''0m'')) 2 = 1"
  "length (fst (message_rows 2 (''ab'' @ csi ''0m'') [] 0 0 10)) = 2"
  by (simp_all add: tui_line_rows_def message_rows.simps row_loop.simps csi_def csi_end_def csi_final_def code_def Let_def)

subsection \<open>The top line stays on its row\<close>

definition is_sgr :: "string \<Rightarrow> bool" where
  "is_sgr w \<longleftrightarrow> (\<exists>par. w = csi (par @ ''m'') \<and> list_all (\<lambda>c. \<not> csi_final c) par)"

text \<open>One character: a byte that is not a control, or a leading byte with all its continuation bytes.\<close>

definition cell :: "string \<Rightarrow> bool" where
  "cell w \<longleftrightarrow>
     (\<exists>c s. w = c # s \<and> 32 \<le> code c \<and> code c \<noteq> 127 \<and>
        (if 194 \<le> code c \<and> code c \<le> 244 then length w = utf8_expected c \<and> list_all (\<lambda>d. 128 \<le> code d \<and> code d < 192) s else s = []))"

lemma cell_not_sgr: "cell w \<Longrightarrow> \<not> is_sgr w"
  by (auto simp: cell_def is_sgr_def csi_def code_def)

lemma utf8_tail_bytes: "list_all (\<lambda>d. 128 \<le> code d \<and> code d < 192) (take (utf8_tail n s) s)"
  by (induction n s rule: utf8_tail.induct) auto

lemma topline_cases:
  obtains (stop) "topline_loop p n = []"
  | (sgr) par rest where "topline_loop p n = csi (par @ ''m'') # topline_loop rest n" "length rest < length p"
      "list_all (\<lambda>c. \<not> csi_final c) par"
  | (skip) rest where "topline_loop p n = topline_loop rest n" "length rest < length p"
  | (cell) w rest where "topline_loop p n = w # topline_loop rest (n - length w)" "length rest < length p" "cell w" "length w \<le> n"
proof (cases "n = 0 \<or> p = []")
  case True
  then have "topline_loop p n = []" by (subst topline_loop.simps) (auto split: list.splits)
  then show ?thesis by (rule stop)
next
  case False
  then obtain c s where p: "p = c # s" by (cases p) auto
  show ?thesis
  proof (cases "c = ESC \<and> s \<noteq> [] \<and> hd s = CHR ''[''")
    case esc: True
    let ?par = "takeWhile (\<lambda>c. \<not> csi_final c) (tl s)" and ?final = "dropWhile (\<lambda>c. \<not> csi_final c) (tl s)"
    have par: "list_all (\<lambda>c. \<not> csi_final c) ?par" by (auto simp: list_all_iff dest: set_takeWhileD)
    have step: "topline_loop p n =
        (case ?final of [] \<Rightarrow> [] | e # rest \<Rightarrow> (if e = CHR ''m'' then [csi (?par @ [e])] else []) @ topline_loop rest n)"
      using esc False p by (subst topline_loop.simps) (simp add: Let_def)
    show ?thesis
    proof (cases ?final)
      case Nil
      have "topline_loop p n = []" unfolding step Nil by simp
      then show ?thesis by (rule stop)
    next
      case (Cons e rest)
      have "length ?final \<le> length (tl s)" by (rule length_dropWhile_le)
      then have len: "length rest < length p" using Cons p by simp
      show ?thesis
      proof (cases "e = CHR ''m''")
        case True
        have "topline_loop p n = csi (?par @ ''m'') # topline_loop rest n" unfolding step Cons True by simp
        then show ?thesis using sgr len par by blast
      next
        case other: False
        have "topline_loop p n = topline_loop rest n" unfolding step Cons using other by simp
        then show ?thesis using skip len by blast
      qed
    qed
  next
    case no_esc: False
    then have step2: "topline_loop p n =
        (if code c < 32 \<or> code c = 127 then '' '' # topline_loop s (n - 1)
         else if 194 \<le> code c \<and> code c \<le> 244 then
            (let len = 1 + utf8_tail (utf8_expected c - 1) s in
             if len \<noteq> utf8_expected c then topline_loop (drop (len - 1) s) n
             else if len > n then []
             else (c # take (len - 1) s) # topline_loop (drop (len - 1) s) (n - len))
         else [c] # topline_loop s (n - 1))"
      unfolding p using False by (subst topline_loop.simps) (simp only: list.case if_False simp_thms de_Morgan_disj)
    consider (ctrl) "code c < 32 \<or> code c = 127" | (multi) "32 \<le> code c" "code c \<noteq> 127" "194 \<le> code c \<and> code c \<le> 244"
      | (byte) "32 \<le> code c" "code c \<noteq> 127" "\<not> (194 \<le> code c \<and> code c \<le> 244)" by linarith
    then show ?thesis
    proof cases
      case ctrl
      have "cell '' ''" by (auto simp: cell_def code_def)
      then show ?thesis using cell [of "'' ''" s] step2 ctrl False p by simp
    next
      case byte
      then have "cell [c]" by (auto simp: cell_def)
      then show ?thesis using cell [of "[c]" s] step2 byte False p by auto
    next
      case multi
      let ?k = "utf8_tail (utf8_expected c - 1) s"
      have k: "?k \<le> length s" using utf8_tail_le [of "utf8_expected c - 1" s] by simp
      consider "1 + ?k \<noteq> utf8_expected c" | "1 + ?k = utf8_expected c" "n < 1 + ?k" | "1 + ?k = utf8_expected c" "1 + ?k \<le> n" by linarith
      then show ?thesis
      proof cases
        case 1
        then show ?thesis using skip [of "drop ?k s"] step2 multi p by (simp add: Let_def)
      next
        case 2
        then show ?thesis using stop step2 multi by (simp add: Let_def)
      next
        case 3
        obtain m where m: "?k = m" by blast
        have e: "utf8_expected c = Suc m" using 3(1) unfolding m by simp
        have "topline_loop p n = (c # take m s) # topline_loop (drop m s) (n - Suc m)"
          using multi 3(2) m e unfolding step2 Let_def by simp
        moreover have "cell (c # take m s)" using multi k utf8_tail_bytes [of "utf8_expected c - 1" s] unfolding m
          by (auto simp: cell_def e)
        moreover have "length (c # take m s) = Suc m" using k unfolding m by simp
        ultimately show ?thesis using cell [of "c # take m s" "drop m s"] 3(2) p unfolding m by simp
      qed
    qed
  qed
qed

text \<open>The top line stays on its row. Whatever text a renderer supplies, what is written for it
  is a sequence of colour sequences and of whole characters that are no controls (a multibyte
  character is never cut), and the bytes of the characters fit the columns.\<close>

theorem topline_fits:
  "list_all (\<lambda>w. is_sgr w \<or> cell w) (topline_loop p columns) \<and>
     (\<Sum>w\<leftarrow>topline_loop p columns. if is_sgr w then 0 else length w) \<le> columns"
proof (induction "length p" arbitrary: p columns rule: less_induct)
  case less
  show ?case
  proof (cases rule: topline_cases [where p = p and n = columns])
    case (sgr par rest)
    have "is_sgr (csi (par @ ''m''))" using sgr(3) by (auto simp: is_sgr_def)
    then show ?thesis using less [OF sgr(2), of columns] by (simp add: sgr(1))
  next
    case (skip rest)
    then show ?thesis using less [OF skip(2), of columns] by simp
  next
    case (cell w rest)
    then show ?thesis using less [OF cell(2), of "columns - length w"] cell_not_sgr [OF cell(3)] cell(3,4) by (auto simp: cell(1))
  qed simp
qed

text \<open>Inside a colour sequence a control passes, although the comment promises that none moves the cursor.\<close>

lemma topline_passes_newline: "tui_print_topline (Some (csi [CHR 0x0A, CHR ''m''])) 10 = [csi [CHR 0x0A, CHR ''m''], csi ''0m'' @ csi ''K'']"
  by (simp add: tui_print_topline_def topline_loop.simps csi_def csi_final_def code_def Let_def)
end
