(* ===== verification/Tui_Window.thy ===== *)
theory Tui_Window
  imports Tui_Screen "HOL-Library.Signed_Division"
begin

text \<open>
  The windows of the text interface (\<open>tui.window.c\<close>), printing into their scrollback
  (\<open>tui_vprint\<close>) and redrawing (\<open>tui_redraw_screen\<close>). A window has an address; the array
  \<open>tui_windows\<close> is the list of its first \<open>tui_num_windows\<close> entries. Reading a slot that holds
  no window has no defined result, and neither has a window that was freed. Drawing the input line can
  be undefined, so every operation that redraws is partial. The formatted message is an
  argument; terminal size, renderers and view callbacks belong to the surrounding program,
  and the render lock, taken around whole operations, is left out.
\<close>

subsection \<open>State\<close>

record tui_window =
  tw_id :: nat
  tw_buffer :: "string ptr list"
  tw_log_head :: nat
  tw_log_count :: nat
  tw_scroll :: int
  tw_title :: string
  tw_status_line :: string
  tw_history :: "string list"
  tw_history_index :: int
  tw_view_draw :: bool
  tw_view_full_height :: bool

text \<open>\<open>tui_lines\<close> counts the scrollback lines that are allocated, \<open>tui_out\<close> collects the log
  areas that were drawn.\<close>

record tui =
  tui_enabled :: bool
  tui_windows :: "tui_window list"
  tui_active_win :: nat
  tui_next_id :: nat
  tui_redraw_pending :: bool
  tui_redraw_defer_count :: nat
  tui_rows :: nat
  tui_cols :: nat
  tui_colors :: bool
  tui_input :: input_line
  tui_lines :: nat
  tui_out :: "screen_row list list"
  tui_alloc :: alloc

abbreviation TUI_MAX_WINDOWS :: nat where "TUI_MAX_WINDOWS \<equiv> 32"

definition set_window :: "nat \<Rightarrow> tui_window \<Rightarrow> tui \<Rightarrow> tui" where
  "set_window i w st = st\<lparr>tui_windows := (tui_windows st)[i := w]\<rparr>"

fun index_of :: "('a \<Rightarrow> bool) \<Rightarrow> 'a list \<Rightarrow> nat ptr" where
  "index_of P [] = NULL"
| "index_of P (x # xs) = (if P x then Some 0 else map_option Suc (index_of P xs))"

text \<open>The entry of the array at an index; the entries behind the last window are \<open>NULL\<close> and outside the
  array there are none.\<close>

definition window_at :: "int \<Rightarrow> tui \<Rightarrow> tui_window comp" where
  "window_at n st = (if 0 \<le> n \<and> n < int (length (tui_windows st)) then Some (tui_windows st ! nat n) else None)"

text \<open>The window at an address, by its position; a window that is not in the array was freed.\<close>

definition window_index :: "nat \<Rightarrow> tui \<Rightarrow> nat comp" where
  "window_index win st = index_of (\<lambda>w. tw_id w = win) (tui_windows st)"

definition window_ref :: "nat \<Rightarrow> tui \<Rightarrow> tui_window comp" where
  "window_ref win st = do { i \<leftarrow> window_index win st; window_at (int i) st }"

lemma window_at_nth [simp]: "i < length (tui_windows st) \<Longrightarrow> window_at (int i) st = Some (tui_windows st ! i)"
  by (simp add: window_at_def)

lemma window_at_outside [simp]: "n < 0 \<or> int (length (tui_windows st)) \<le> n \<Longrightarrow> window_at n st = None"
  by (auto simp: window_at_def)

lemma window_at_inside: "0 \<le> n \<Longrightarrow> n < int (length (tui_windows st)) \<Longrightarrow> window_at n st = Some (tui_windows st ! nat n)"
  by (simp add: window_at_def)

subsection \<open>Finding and creating\<close>

definition tui_window_find :: "string ptr \<Rightarrow> tui \<Rightarrow> nat ptr" where
  "tui_window_find title st =
     (let tp = (case title of None \<Rightarrow> ''status'' | Some t \<Rightarrow> if t = [] then ''status'' else t)
      in index_of (\<lambda>w. strcasecmp_eq (tw_title w) tp) (tui_windows st))"

text \<open>A new window behind the last one; 63 characters of the title are kept.\<close>

definition new_window :: "nat \<Rightarrow> string \<Rightarrow> tui_window" where
  "new_window n title =
     \<lparr>tw_id = n, tw_buffer = replicate LOG_LINES NULL, tw_log_head = 0, tw_log_count = 0, tw_scroll = 0,
      tw_title = take 63 title, tw_status_line = take 127 title, tw_history = [], tw_history_index = 0,
      tw_view_draw = False, tw_view_full_height = False\<rparr>"

definition add_window :: "string \<Rightarrow> tui \<Rightarrow> nat ptr \<times> tui" where
  "add_window title st =
     (let (ok, a) = malloc_ok (tui_alloc st); st = st\<lparr>tui_alloc := a\<rparr>
      in if \<not> ok then (NULL, st)
         else (Some (length (tui_windows st)),
               st\<lparr>tui_windows := tui_windows st @ [new_window (tui_next_id st) title], tui_next_id := tui_next_id st + 1\<rparr>))"

text \<open>Without any window a first one is created; if that fails, index -1 is read.\<close>

definition tui_active_window :: "tui \<Rightarrow> (nat \<times> tui) comp" where
  "tui_active_window st =
     (let st = (if tui_windows st = [] then (snd (add_window ''status'' st))\<lparr>tui_active_win := 0\<rparr> else st);
          n = int (length (tui_windows st));
          active = (if int (tui_active_win st) \<ge> n then n - 1 else int (tui_active_win st))
      in do { w \<leftarrow> window_at active st; Some (nat active, st\<lparr>tui_active_win := nat active\<rparr>) })"

subsection \<open>Redrawing\<close>

definition tui_update_input_line :: "tui \<Rightarrow> tui comp" where
  "tui_update_input_line st =
     (if \<not> tui_enabled st then Some st
      else do {
        (i, st) \<leftarrow> tui_active_window st;
        w \<leftarrow> window_at (int i) st;
        if tw_view_draw w \<and> tw_view_full_height w then Some st
        else do {
          (out, a) \<leftarrow> update_input_line (tui_colors st) (tui_rows st) (tui_cols st) (tw_title w) (tui_input st) (tui_alloc st);
          Some (st\<lparr>tui_input := clamp_line (tui_input st), tui_alloc := a\<rparr>)
        }
      })"

definition tui_redraw_screen :: "tui \<Rightarrow> tui comp" where
  "tui_redraw_screen st =
     (if \<not> tui_enabled st then Some st
      else do {
        (i, st) \<leftarrow> tui_active_window (st\<lparr>tui_redraw_pending := False\<rparr>);
        w \<leftarrow> window_at (int i) st;
        if tw_view_draw w then (if tw_view_full_height w then Some st else tui_update_input_line st)
        else
          (let (scroll, rows) = draw_log (tui_rows st) (tui_cols st) (tw_buffer w) (tw_log_head w) (tw_log_count w) (tw_scroll w)
           in tui_update_input_line ((set_window i (w\<lparr>tw_scroll := scroll\<rparr>) st)\<lparr>tui_out := tui_out st @ [rows]\<rparr>))
      })"

definition tui_redraw_request :: "tui \<Rightarrow> tui" where
  "tui_redraw_request st = st\<lparr>tui_redraw_pending := True\<rparr>"

definition tui_redraw_if_pending :: "tui \<Rightarrow> tui comp" where
  "tui_redraw_if_pending st =
     (if \<not> tui_enabled st \<or> \<not> tui_redraw_pending st then Some st else tui_redraw_screen st)"

definition tui_redraw_defer :: "tui \<Rightarrow> tui" where
  "tui_redraw_defer st = st\<lparr>tui_redraw_defer_count := tui_redraw_defer_count st + 1\<rparr>"

definition tui_redraw_flush :: "tui \<Rightarrow> tui comp" where
  "tui_redraw_flush st = tui_redraw_if_pending (st\<lparr>tui_redraw_defer_count := 0\<rparr>)"

subsection \<open>Printing\<close>

definition tui_scrollback_appended :: "nat \<Rightarrow> string \<Rightarrow> tui_window \<Rightarrow> tui_window" where
  "tui_scrollback_appended cols line w =
     (if tw_scroll w > 0 then w\<lparr>tw_scroll := tw_scroll w + int (tui_line_rows (Some line) cols)\<rparr> else w)"

text \<open>The line goes to the head of the ring; a line that is there is freed.\<close>

definition append_line :: "nat \<Rightarrow> string \<Rightarrow> tui_window \<Rightarrow> tui_window" where
  "append_line cols line w =
     (let w = tui_scrollback_appended cols line w
      in w\<lparr>tw_buffer := (tw_buffer w)[tw_log_head w := Some line],
           tw_log_head := (tw_log_head w + 1) mod LOG_LINES,
           tw_log_count := (if tw_log_count w < LOG_LINES then tw_log_count w + 1 else tw_log_count w)\<rparr>)"

definition tui_vprint :: "nat ptr \<Rightarrow> string \<Rightarrow> tui \<Rightarrow> tui comp" where
  "tui_vprint win msg st =
     (case win of
        None \<Rightarrow> Some st
      | Some i \<Rightarrow>
          if \<not> tui_enabled st then Some st
          else
            let (colored, a) = tui_colorize_string (tui_colors st) (Some (take 2047 msg)) (tui_alloc st); st = st\<lparr>tui_alloc := a\<rparr> in
            case colored of
              None \<Rightarrow> Some st
            | Some line \<Rightarrow>
                let (ok, a) = malloc_ok (tui_alloc st); st = st\<lparr>tui_alloc := a\<rparr> in
                if \<not> ok then Some st
                else do {
                  w \<leftarrow> window_at (int i) st;
                  let freed = (if tw_buffer w ! tw_log_head w = NULL then 0 else 1);
                      st = (set_window i (append_line (tui_cols st) line w) st)\<lparr>tui_lines := tui_lines st + 1 - freed\<rparr>
                  in do {
                    (active, st) \<leftarrow> tui_active_window st;
                    if i = active then
                      let st = tui_redraw_request st in
                      if tui_redraw_defer_count st = 0 then tui_redraw_if_pending st else Some st
                    else Some st
                  }
                })"

definition tui_print :: "nat ptr \<Rightarrow> string \<Rightarrow> tui \<Rightarrow> tui comp" where
  "tui_print win msg st = (if \<not> tui_enabled st \<or> win = NULL then Some st else tui_vprint win msg st)"

text \<open>\<open>tui_print(tui_active_window(), ...)\<close>\<close>

definition print_active :: "string \<Rightarrow> tui \<Rightarrow> tui comp" where
  "print_active msg st = do { (i, st) \<leftarrow> tui_active_window st; tui_print (Some i) msg st }"

subsection \<open>Operations on windows\<close>

definition tui_window_create :: "string \<Rightarrow> tui \<Rightarrow> (nat ptr \<times> tui) comp" where
  "tui_window_create title st =
     (case tui_window_find (Some title) st of
        Some i \<Rightarrow> Some (Some i, st)
      | None \<Rightarrow>
          if length (tui_windows st) \<ge> TUI_MAX_WINDOWS then
            do { st \<leftarrow> print_active ''No more windows available: TUI_MAX_WINDOWS: 32'' st; Some (NULL, st) }
          else Some (add_window title st))"

definition tui_window_focus :: "string ptr \<Rightarrow> tui \<Rightarrow> (nat ptr \<times> tui) comp" where
  "tui_window_focus title st =
     (case title of
        None \<Rightarrow> Some (NULL, st)
      | Some t \<Rightarrow>
          (case index_of (\<lambda>w. tw_title w = t) (tui_windows st) of
             None \<Rightarrow> Some (NULL, st)
           | Some i \<Rightarrow> do { st \<leftarrow> tui_update_input_line (st\<lparr>tui_active_win := i\<rparr>); Some (Some i, st) }))"

definition invalid_window :: "int \<Rightarrow> nat \<Rightarrow> nat \<Rightarrow> string" where
  "invalid_window n low num =
     [CHR 0x03] @ ''04Invalid window '' @ show_int n @ '', must be between '' @ show_nat low @ '' and '' @ show_nat num @ [CHR 0x0F] @ ''.''"

definition tui_window_focus_id :: "int \<Rightarrow> tui \<Rightarrow> (nat ptr \<times> tui) comp" where
  "tui_window_focus_id n st =
     (let num = length (tui_windows st) in
      if n < 1 \<or> n > int num then do { st \<leftarrow> print_active (invalid_window n 1 num) st; Some (NULL, st) }
      else do { w \<leftarrow> window_at (n - 1) st; tui_window_focus (Some (tw_title w)) st })"

text \<open>The active index after the window at \<open>d\<close> was removed; \<open>num\<close> windows are left.\<close>

definition active_after :: "nat \<Rightarrow> nat \<Rightarrow> nat \<Rightarrow> nat" where
  "active_after num d active =
     (if active \<ge> num \<or> active = d then (if d > 0 then d - 1 else 0)
      else if active > d then active - 1 else active)"

text \<open>\<open>True\<close> reports an error. The lines of the scrollback are not freed.\<close>

definition tui_window_destroy :: "tui_window ptr \<Rightarrow> tui \<Rightarrow> (bool \<times> tui) comp" where
  "tui_window_destroy win st =
     (case win of
        None \<Rightarrow> Some (True, st)
      | Some w \<Rightarrow>
          if strcasecmp_eq (tw_title w) ''status'' then
            do { st \<leftarrow> print_active ([CHR 0x03] @ ''04*** Can't destroy status window! ***'' @ [CHR 0x0F] @ ''.'') st; Some (False, st) }
          else
            (case index_of (\<lambda>v. tw_id v = tw_id w) (tui_windows st) of
              None \<Rightarrow> Some (True, st)
            | Some d \<Rightarrow>
                do {
                  st \<leftarrow> tui_print (tui_window_find (Some ''status'') st)
                     (''* Closed window '' @ show_nat d @ '' ('' @ tw_title w @ '')'') st;
                  let left = take d (tui_windows st) @ drop (Suc d) (tui_windows st);
                      active = active_after (length left) d (tui_active_win st);
                      st = st\<lparr>tui_windows := left, tui_active_win := active\<rparr>
                  in if active < length left
                     then do { (i, st) \<leftarrow> tui_window_focus (Some (tw_title (left ! active))) st; Some (False, st) }
                     else do { st \<leftarrow> tui_redraw_screen st; Some (False, st) }
                }))"

definition tui_window_destroy_id :: "int \<Rightarrow> tui \<Rightarrow> (bool \<times> tui) comp" where
  "tui_window_destroy_id n st =
     (let num = length (tui_windows st) in
      if n < 1 \<or> n > int num then do { st \<leftarrow> print_active (invalid_window n 2 num) st; Some (True, st) }
      else do { w \<leftarrow> window_at (n - 1) st; tui_window_destroy (Some w) st })"

definition tui_window_get_active_title :: "tui \<Rightarrow> (string \<times> tui) comp" where
  "tui_window_get_active_title st =
     do { (i, st) \<leftarrow> tui_active_window st; w \<leftarrow> window_at (int i) st; Some (tw_title w, st) }"

text \<open>Focus the window at a position by its title, then redraw.\<close>

definition focus_at :: "int \<Rightarrow> tui \<Rightarrow> tui comp" where
  "focus_at n st =
     do { w \<leftarrow> window_at n st; (_, st) \<leftarrow> tui_window_focus (Some (tw_title w)) st; tui_redraw_screen st }"

definition tui_window_swap :: "char \<Rightarrow> tui \<Rightarrow> tui comp" where
  "tui_window_swap key st =
     (let num = (if key = CHR ''0'' then 9 else int (code key) - 49)
      in if 0 \<le> num \<and> num < int (length (tui_windows st)) then focus_at num st else Some st)"

definition handle_alt_left :: "tui \<Rightarrow> tui comp" where
  "handle_alt_left st =
     (let n = int (length (tui_windows st)) in
      if n > 0 then focus_at ((int (tui_active_win st) - 1 + n) smod n) st else Some st)"

definition handle_alt_right :: "tui \<Rightarrow> tui comp" where
  "handle_alt_right st =
     (let n = int (length (tui_windows st)) in
      if n > 0 then focus_at ((int (tui_active_win st) + 1) smod n) st else Some st)"

definition tui_clear_scrollback :: "nat ptr \<Rightarrow> tui \<Rightarrow> (bool \<times> tui) comp" where
  "tui_clear_scrollback win st =
     (case win of
        None \<Rightarrow> Some (True, st)
      | Some i \<Rightarrow>
          do {
            w \<leftarrow> window_at (int i) st;
            st \<leftarrow> tui_redraw_screen
              ((set_window i (w\<lparr>tw_buffer := replicate LOG_LINES NULL, tw_log_head := 0, tw_log_count := 0, tw_scroll := 0\<rparr>) st)
                 \<lparr>tui_lines := tui_lines st - length (filter (\<lambda>l. l \<noteq> NULL) (tw_buffer w))\<rparr>);
            Some (False, st)
          })"

definition tui_window_init :: "tui \<Rightarrow> tui comp" where
  "tui_window_init st =
     (if tui_windows st = [] then
        do { (w, st) \<leftarrow> tui_window_create ''status'' st;
             case w of None \<Rightarrow> None
             | Some i \<Rightarrow> do {
                 w \<leftarrow> window_at (int i) st;
                 Some ((set_window 0 (w\<lparr>tw_status_line := ''status''\<rparr>) st)\<lparr>tui_active_win := 0\<rparr>) } }
      else Some st)"

definition tui_window_fini :: "tui \<Rightarrow> tui" where
  "tui_window_fini st =
     st\<lparr>tui_windows := [], tui_active_win := 0,
        tui_lines := tui_lines st - (\<Sum>w\<leftarrow>tui_windows st. length (filter (\<lambda>l. l \<noteq> NULL) (tw_buffer w)))\<rparr>"


subsection \<open>The scrollback of a window\<close>

definition window_ok :: "tui_window \<Rightarrow> bool" where
  "window_ok w \<longleftrightarrow>
     length (tw_buffer w) = LOG_LINES \<and> tw_log_head w < LOG_LINES \<and> tw_log_count w \<le> LOG_LINES \<and>
     (tw_log_count w < LOG_LINES \<longrightarrow> tw_log_head w = tw_log_count w) \<and>
     (\<forall>j < LOG_LINES. tw_buffer w ! j \<noteq> NULL \<longleftrightarrow> j < tw_log_count w) \<and> length (tw_title w) \<le> 63"

text \<open>The messages from the oldest to the newest.\<close>

definition scrollback :: "tui_window \<Rightarrow> string ptr list" where
  "scrollback w = ring_from (tw_buffer w) (ring_oldest (tw_log_head w) (tw_log_count w)) (tw_log_count w)"

lemma ring_from_nth: "j < count \<Longrightarrow> ring_from buffer start count ! j = buffer ! ((start + j) mod LOG_LINES)"
  by (simp add: ring_from_def)

lemma length_ring_from [simp]: "length (ring_from buffer start count) = count"
  by (simp add: ring_from_def)

lemma scrollback_eq:
  assumes "window_ok w"
  shows "scrollback w = (if tw_log_count w < LOG_LINES then take (tw_log_count w) (tw_buffer w)
      else drop (tw_log_head w) (tw_buffer w) @ take (tw_log_head w) (tw_buffer w))"
proof (cases "tw_log_count w < LOG_LINES")
  case True
  have w: "tw_log_head w = tw_log_count w" "length (tw_buffer w) = LOG_LINES" using assms True by (auto simp: window_ok_def)
  then have "ring_oldest (tw_log_head w) (tw_log_count w) = 0" by (simp add: ring_oldest_def)
  then show ?thesis using True w(2) by (auto simp: scrollback_def ring_from_def intro!: nth_equalityI)
next
  case False
  then have w: "tw_log_count w = LOG_LINES" "length (tw_buffer w) = LOG_LINES" "tw_log_head w < LOG_LINES"
    using assms by (auto simp: window_ok_def)
  have o: "ring_oldest (tw_log_head w) (tw_log_count w) = tw_log_head w" using w by (simp add: ring_oldest_def)
  have "ring_from (tw_buffer w) (tw_log_head w) LOG_LINES ! j =
      (drop (tw_log_head w) (tw_buffer w) @ take (tw_log_head w) (tw_buffer w)) ! j" if "j < LOG_LINES" for j
  proof (cases "j < LOG_LINES - tw_log_head w")
    case True
    then show ?thesis using w that by (simp add: ring_from_nth nth_append)
  next
    case False
    then have "LOG_LINES \<le> tw_log_head w + j" "tw_log_head w + j - LOG_LINES < LOG_LINES" using that w(3) by linarith+
    then have "(tw_log_head w + j) mod LOG_LINES = tw_log_head w + j - LOG_LINES" by (simp add: le_mod_geq)
    then show ?thesis using False that w by (simp add: ring_from_nth nth_append add.commute [of j])
  qed
  then have "ring_from (tw_buffer w) (tw_log_head w) LOG_LINES = drop (tw_log_head w) (tw_buffer w) @ take (tw_log_head w) (tw_buffer w)"
    using w by (intro nth_equalityI) auto
  then show ?thesis using False w(1) o by (simp add: scrollback_def)
qed

lemma scrollback_full: "window_ok w \<Longrightarrow> list_all (\<lambda>m. m \<noteq> NULL) (scrollback w)"
  by (auto simp: scrollback_def ring_from_def list_all_iff window_ok_def ring_oldest_def)

lemma append_line_fields [simp]:
  "tw_id (append_line cols line w) = tw_id w" "tw_title (append_line cols line w) = tw_title w"
  "tw_view_draw (append_line cols line w) = tw_view_draw w"
  "tw_view_full_height (append_line cols line w) = tw_view_full_height w"
  "tw_buffer (append_line cols line w) = (tw_buffer w)[tw_log_head w := Some line]"
  "tw_log_head (append_line cols line w) = (tw_log_head w + 1) mod LOG_LINES"
  "tw_log_count (append_line cols line w) = (if tw_log_count w < LOG_LINES then tw_log_count w + 1 else tw_log_count w)"
  "tw_scroll (append_line cols line w) = (if tw_scroll w > 0 then tw_scroll w + int (tui_line_rows (Some line) cols) else tw_scroll w)"
  by (simp_all add: append_line_def tui_scrollback_appended_def Let_def)

lemma append_line_ok: "window_ok w \<Longrightarrow> window_ok (append_line cols line w)"
  by (auto simp: window_ok_def nth_list_update less_Suc_eq mod_if)

lemma append_line_scrollback:
  assumes "window_ok w"
  shows "scrollback (append_line cols line w) =
    (let s = scrollback w @ [Some line] in drop (length s - LOG_LINES) s)"
proof -
  note ok = assms append_line_ok [OF assms, of cols line]
  have len: "length (tw_buffer w) = LOG_LINES" and head: "tw_log_head w < LOG_LINES" and count: "tw_log_count w \<le> LOG_LINES"
    using assms by (auto simp: window_ok_def)
  let ?b = "tw_buffer w" and ?h = "tw_log_head w"
  consider (room) "tw_log_count w + 1 < LOG_LINES" | (last) "tw_log_count w + 1 = LOG_LINES" | (full) "tw_log_count w = LOG_LINES"
    using count by linarith
  then show ?thesis
  proof cases
    case room
    then have "?h = tw_log_count w" using assms by (simp add: window_ok_def)
    then show ?thesis using room len scrollback_eq [OF ok(1)] scrollback_eq [OF ok(2)]
      by (simp add: Let_def take_Suc_conv_app_nth)
  next
    case last
    then have h: "?h = LOG_LINES - 1" "tw_log_count w = LOG_LINES - 1" using assms by (simp_all add: window_ok_def)
    have "?b[499 := Some line] = take 499 ?b @ Some line # drop (Suc 499) ?b"
      by (rule upd_conv_take_nth_drop) (simp add: len)
    moreover have "drop (Suc 499) ?b = []" using len by simp
    ultimately have u: "?b[499 := Some line] = take 499 ?b @ [Some line]" by (simp only:)
    have "scrollback (append_line cols line w) = ?b[499 := Some line]" using h scrollback_eq [OF ok(2)] by simp
    moreover have "scrollback w = take 499 ?b" using h scrollback_eq [OF ok(1)] by simp
    ultimately show ?thesis unfolding u by (simp add: Let_def len)
  next
    case full
    have s: "scrollback w = drop ?h ?b @ take ?h ?b" using scrollback_eq [OF ok(1)] full by simp
    have u: "?b[?h := Some line] = take ?h ?b @ Some line # drop (Suc ?h) ?b" using len head by (simp add: upd_conv_take_nth_drop)
    have a: "scrollback (append_line cols line w) =
        drop ((?h + 1) mod LOG_LINES) (?b[?h := Some line]) @ take ((?h + 1) mod LOG_LINES) (?b[?h := Some line])"
      using scrollback_eq [OF ok(2)] full by simp
    have r: "(let s = scrollback w @ [Some line] in drop (length s - LOG_LINES) s) = drop (Suc ?h) ?b @ take ?h ?b @ [Some line]"
      using s len head by (simp add: Let_def drop_Suc tl_drop)
    show ?thesis
    proof (cases "?h + 1 < LOG_LINES")
      case True
      then show ?thesis unfolding a r using len head by (simp add: u)
    next
      case False
      then have h: "?h = LOG_LINES - 1" using head by simp
      show ?thesis unfolding a r u using len h by simp
    qed
  qed
qed

text \<open>The scrollback of a window is the list of the last 500 messages: printing a line appends it and
  drops the oldest one when there are more, whatever position the ring is at, and the new
  state of the window is consistent again.\<close>

theorem scrollback_refines:
  assumes "window_ok w"
  shows "window_ok (append_line cols line w) \<and>
    scrollback (append_line cols line w) = (let s = scrollback w @ [Some line] in drop (length s - LOG_LINES) s)"
  using append_line_ok [OF assms] append_line_scrollback [OF assms] ..

lemma new_window_ok: "window_ok (new_window n title)"
  by (simp add: window_ok_def new_window_def)

theorem scrollback_refines_witness:
  "window_ok (append_line 80 ''one'' (new_window 0 ''status'')) \<and> scrollback (append_line 80 ''one'' (new_window 0 ''status'')) = [Some ''one'']"
  using scrollback_refines [OF new_window_ok [of 0 "''status''"], of 80 "''one''"]
  by (simp add: scrollback_def new_window_def ring_from_def)

text \<open>C20: a reader who scrolled back keeps the rows in view when a further message arrives, as long as the
  ring is not full: the offset grows by the rows of the new message and the same rows are drawn. This
  is for plain messages, the stored ones and the new one: not empty and without escape sequences and
  line feeds (coloured output is not covered, see \<open>empty_message_no_row\<close> and
  \<open>trailing_sequence_takes_row\<close> for messages whose rows are counted and drawn differently), on a
  terminal of more than three rows, with a scroll offset that is inside its range.\<close>

theorem reading_position_kept:
  assumes "window_ok w" and "tw_log_count w < LOG_LINES" and "0 < cols" and "3 < rows"
    and "plain_messages (scrollback w)" and "plain_message line"
    and "0 < tw_scroll w" and "tw_scroll w \<le> total_rows cols (scrollback w) - (int rows - 3)"
  shows "snd (draw_log rows cols (tw_buffer (append_line cols line w)) (tw_log_head (append_line cols line w))
      (tw_log_count (append_line cols line w)) (tw_scroll (append_line cols line w))) =
    snd (draw_log rows cols (tw_buffer w) (tw_log_head w) (tw_log_count w) (tw_scroll w))"
proof -
  let ?v = "append_line cols line w"
  have v: "window_ok ?v" by (rule append_line_ok [OF assms(1)])
  have n: "length (scrollback w) = tw_log_count w" by (simp add: scrollback_def ring_from_def)
  have s: "scrollback ?v = scrollback w @ [Some line]"
    using append_line_scrollback [OF assms(1), of cols line] assms(2) n by (simp add: Let_def)
  have pv: "plain_messages (scrollback ?v)" unfolding s using assms(5,6) by simp
  let ?rw = "all_rows cols (scrollback w)" and ?rl = "chunks cols line"
  have tot: "total_rows cols (scrollback w) = int (length ?rw)" using total_rows_plain [OF assms(5,3)] .
  have rl: "tui_line_rows (Some line) cols = length ?rl" using tui_line_rows_plain [OF assms(6,3)] .
  have rv: "all_rows cols (scrollback ?v) = ?rw @ ?rl" unfolding s by simp
  have cw: "clamp_scroll (int (length ?rw)) (int rows - 3) (tw_scroll w) = tw_scroll w"
    using assms(7,8) tot by (simp add: clamp_scroll_def Let_def)
  have cv: "clamp_scroll (int (length (?rw @ ?rl))) (int rows - 3) (tw_scroll ?v) = tw_scroll w + int (length ?rl)"
    using assms(7,8) tot rl by (simp add: clamp_scroll_def Let_def)
  have dw: "snd (draw_log rows cols (tw_buffer w) (tw_log_head w) (tw_log_count w) (tw_scroll w)) =
      map (Pair []) (shown_rows rows cols (scrollback w) (tw_scroll w))"
    using draw_log_plain [OF assms(5) [unfolded scrollback_def] scrollback_full [OF assms(1), unfolded scrollback_def] assms(3,4),
        of "tw_scroll w", folded scrollback_def] cw by simp
  have dv: "snd (draw_log rows cols (tw_buffer ?v) (tw_log_head ?v) (tw_log_count ?v) (tw_scroll ?v)) =
      map (Pair []) (shown_rows rows cols (scrollback ?v) (tw_scroll w + int (length ?rl)))"
    using draw_log_plain [OF pv [unfolded scrollback_def] scrollback_full [OF v, unfolded scrollback_def] assms(3,4),
        of "tw_scroll ?v", folded scrollback_def] cv rv by simp
  let ?top = "length ?rw - (rows - 3) - nat (tw_scroll w)"
  have top: "length (?rw @ ?rl) - (rows - 3) - nat (tw_scroll w + int (length ?rl)) = ?top"
    using assms(7) by (simp add: nat_add_distrib)
  have "?top + (rows - 3) \<le> length ?rw" using assms(4,7,8) tot by linarith
  then have "take (rows - 3) (drop ?top (?rw @ ?rl)) = take (rows - 3) (drop ?top ?rw)" by simp
  then show ?thesis unfolding dw dv shown_rows_def Let_def rv top by simp
qed

definition two_lines :: tui_window where
  "two_lines = append_line 80 ''two'' (append_line 80 ''one'' (new_window 0 ''status''))\<lparr>tw_scroll := 1\<rparr>"

lemma window_ok_scroll [simp]: "window_ok (w\<lparr>tw_scroll := s\<rparr>) = window_ok w" "scrollback (w\<lparr>tw_scroll := s\<rparr>) = scrollback w"
  by (simp_all add: window_ok_def scrollback_def)

lemma two_lines_scrollback: "window_ok two_lines" "scrollback two_lines = [Some ''one'', Some ''two'']"
proof -
  let ?n = "new_window 0 ''status''"
  have "window_ok (append_line 80 ''one'' ?n)" by (rule append_line_ok [OF new_window_ok])
  moreover have "scrollback (append_line 80 ''one'' ?n) = [Some ''one'']"
    using append_line_scrollback [OF new_window_ok [of 0 "''status''"], of 80 "''one''"]
    by (simp_all add: scrollback_def new_window_def ring_from_def)
  ultimately show "window_ok two_lines" "scrollback two_lines = [Some ''one'', Some ''two'']"
    using append_line_ok append_line_scrollback [of "append_line 80 ''one'' ?n" 80 "''two''"] by (simp_all add: two_lines_def)
qed

theorem reading_position_kept_witness:
  "snd (draw_log 4 80 (tw_buffer (append_line 80 ''three'' two_lines)) (tw_log_head (append_line 80 ''three'' two_lines))
      (tw_log_count (append_line 80 ''three'' two_lines)) (tw_scroll (append_line 80 ''three'' two_lines))) =
    snd (draw_log 4 80 (tw_buffer two_lines) (tw_log_head two_lines) (tw_log_count two_lines) (tw_scroll two_lines))"
proof (rule reading_position_kept)
  have "length (scrollback two_lines) = tw_log_count two_lines" by (simp add: scrollback_def ring_from_def)
  then show "tw_log_count two_lines < LOG_LINES" by (simp add: two_lines_scrollback(2))
  have p: "plain_messages (scrollback two_lines)"
    unfolding two_lines_scrollback(2) by (simp add: plain_messages_def plain_message_def)
  then show "plain_messages (scrollback two_lines)" .
  show "tw_scroll two_lines \<le> total_rows 80 (scrollback two_lines) - (int 4 - 3)"
    using total_rows_plain [OF p, of 80] unfolding two_lines_scrollback(2) by (simp add: chunks.simps two_lines_def)
  show "0 < tw_scroll two_lines" by (simp add: two_lines_def)
qed (simp_all add: two_lines_scrollback(1) plain_message_def)

subsection \<open>Consistent states\<close>

definition key_of :: "tui_window \<Rightarrow> nat \<times> string" where
  "key_of w = (tw_id w, tw_title w)"

definition tui_keys :: "tui \<Rightarrow> (nat \<times> string) list" where
  "tui_keys st = map key_of (tui_windows st)"

definition keys_ok :: "(nat \<times> string) list \<Rightarrow> nat \<Rightarrow> nat \<Rightarrow> bool" where
  "keys_ok ks active next_id \<longleftrightarrow>
     length ks \<le> TUI_MAX_WINDOWS \<and> active < length ks \<and> distinct (map fst ks) \<and> list_all (\<lambda>k. fst k < next_id) ks \<and>
     list_ex (\<lambda>k. strcasecmp_eq (snd k) ''status'') ks"

text \<open>A state in which memory suffices, the input line can be drawn, and the windows are consistent.\<close>

definition tui_ok :: "tui \<Rightarrow> bool" where
  "tui_ok st \<longleftrightarrow>
     list_all window_ok (tui_windows st) \<and> keys_ok (tui_keys st) (tui_active_win st) (tui_next_id st) \<and>
     tui_alloc st = [] \<and> line_ok (tui_input st) \<and> length (input_text (typed (tui_input st))) < INPUT_BUF"

definition same_windows :: "tui \<Rightarrow> tui \<Rightarrow> bool" where
  "same_windows st st' \<longleftrightarrow> tui_keys st' = tui_keys st \<and> tui_active_win st' = tui_active_win st \<and> tui_next_id st' = tui_next_id st \<and>
     tui_enabled st' = tui_enabled st \<and> tui_input st' = tui_input st"

lemma same_windows_refl [simp]: "same_windows st st"
  by (simp add: same_windows_def)

lemma same_windows_trans: "same_windows a b \<Longrightarrow> same_windows b c \<Longrightarrow> same_windows a c"
  by (simp add: same_windows_def)

lemma length_tui_keys [simp]: "length (tui_keys st) = length (tui_windows st)"
  by (simp add: tui_keys_def)

lemma colorize_plenty: "\<exists>t. tui_colorize_string colors (Some s) [] = (Some t, [])"
  by (simp add: tui_colorize_string_def irc_to_tui_colors_def)

lemma update_input_plenty:
  assumes "line_ok l" and "length (input_text (typed l)) < INPUT_BUF"
  shows "\<exists>out. update_input_line colors rows width title l [] = Some (out, [])"
proof -
  obtain t where t: "tui_colorize_string colors (Some (input_text (typed l))) [] = (Some t, [])" using colorize_plenty by blast
  have "\<exists>slice column. draw_input colors width title l [] = Some (slice, column, [])"
    using assms by (simp add: draw_input_def display_loop_eq typed_def [symmetric] t Let_def)
  then obtain slice column where d: "draw_input colors width title l [] = Some (slice, column, [])" by blast
  let ?p = "take 511 ([CHR 0x03] @ ''11'' @ title @ [CHR 0x03] @ ''10>'' @ [CHR 0x0F] @ '' '')"
  obtain p where "tui_colorize_string colors (Some ?p) [] = (Some p, [])" using colorize_plenty by blast
  then show ?thesis using d by (simp add: update_input_line_def)
qed

lemma ok_active:
  "tui_ok st \<Longrightarrow> tui_active_window st = Some (tui_active_win st, st) \<and> tui_active_win st < length (tui_windows st)"
  by (auto simp: tui_ok_def keys_ok_def tui_active_window_def Let_def)

lemma ok_update_input:
  assumes "tui_ok st"
  shows "tui_update_input_line st = Some st"
proof -
  let ?w = "tui_windows st ! tui_active_win st"
  have l: "line_ok (tui_input st)" "length (input_text (typed (tui_input st))) < INPUT_BUF" "tui_alloc st = []"
    using assms by (simp_all add: tui_ok_def)
  obtain out where "update_input_line (tui_colors st) (tui_rows st) (tui_cols st) (tw_title ?w) (tui_input st) [] = Some (out, [])"
    using update_input_plenty [OF l(1,2)] by blast
  moreover have "st\<lparr>tui_input := tui_input st, tui_alloc := []\<rparr> = st" using l(3) by simp
  ultimately show ?thesis using ok_active [OF assms] l by (simp add: tui_update_input_line_def Let_def)
qed

lemma ok_set_window:
  assumes "tui_ok st" and "i < length (tui_windows st)" and "window_ok w" and "key_of w = key_of (tui_windows st ! i)"
  shows "tui_ok (set_window i w st) \<and> same_windows st (set_window i w st)"
proof -
  have "tui_keys (set_window i w st) = tui_keys st"
    using assms(2,4) by (simp add: tui_keys_def set_window_def map_update list_update_same_conv)
  moreover have "list_all window_ok ((tui_windows st)[i := w])"
    using assms(1,3) set_update_subset_insert [of "tui_windows st" i w] by (auto simp: tui_ok_def list_all_iff)
  ultimately show ?thesis using assms(1) by (simp add: tui_ok_def same_windows_def set_window_def)
qed

lemma tui_ok_frame [simp]:
  "tui_ok (st\<lparr>tui_redraw_pending := p\<rparr>) = tui_ok st" "tui_ok (st\<lparr>tui_redraw_defer_count := d\<rparr>) = tui_ok st"
  "tui_ok (st\<lparr>tui_lines := n\<rparr>) = tui_ok st" "tui_ok (st\<lparr>tui_out := out\<rparr>) = tui_ok st"
  "same_windows a (st\<lparr>tui_redraw_pending := p\<rparr>) = same_windows a st"
  "same_windows a (st\<lparr>tui_redraw_defer_count := d\<rparr>) = same_windows a st"
  "same_windows a (st\<lparr>tui_lines := n\<rparr>) = same_windows a st" "same_windows a (st\<lparr>tui_out := out\<rparr>) = same_windows a st"
  by (simp_all add: tui_ok_def same_windows_def tui_keys_def)

lemma ok_window: "tui_ok st \<Longrightarrow> i < length (tui_windows st) \<Longrightarrow> window_ok (tui_windows st ! i)"
  by (simp add: tui_ok_def list_all_length)

lemma ok_redraw:
  assumes "tui_ok st"
  shows "\<exists>st'. tui_redraw_screen st = Some st' \<and> tui_ok st' \<and> same_windows st st'"
proof (cases "tui_enabled st")
  case True
  let ?st = "st\<lparr>tui_redraw_pending := False\<rparr>" and ?i = "tui_active_win st"
  let ?w = "tui_windows st ! ?i"
  have a: "tui_active_window ?st = Some (?i, ?st)" "?i < length (tui_windows st)"
    using ok_active [of ?st] assms by auto
  have upd: "tui_update_input_line ?st = Some ?st" using ok_update_input assms by simp
  obtain scroll rows where d: "draw_log (tui_rows st) (tui_cols st) (tw_buffer ?w) (tw_log_head ?w) (tw_log_count ?w) (tw_scroll ?w) = (scroll, rows)"
    by (cases "draw_log (tui_rows st) (tui_cols st) (tw_buffer ?w) (tw_log_head ?w) (tw_log_count ?w) (tw_scroll ?w)")
  let ?s = "(set_window ?i (?w\<lparr>tw_scroll := scroll\<rparr>) ?st)\<lparr>tui_out := tui_out st @ [rows]\<rparr>"
  have "window_ok (?w\<lparr>tw_scroll := scroll\<rparr>)" using ok_window [OF assms a(2)] by (simp add: window_ok_def)
  then have "tui_ok (set_window ?i (?w\<lparr>tw_scroll := scroll\<rparr>) ?st) \<and> same_windows ?st (set_window ?i (?w\<lparr>tw_scroll := scroll\<rparr>) ?st)"
    using assms a(2) by (intro ok_set_window) (simp_all add: key_of_def)
  then have s: "tui_ok ?s" "same_windows st ?s" by (simp_all add: same_windows_def tui_keys_def)
  show ?thesis
    using True assms a upd d s ok_update_input [OF s(1)] by (simp add: tui_redraw_screen_def Let_def)
qed (simp add: tui_redraw_screen_def assms)

lemma ok_redraw_if_pending:
  "tui_ok st \<Longrightarrow> \<exists>st'. tui_redraw_if_pending st = Some st' \<and> tui_ok st' \<and> same_windows st st'"
  using ok_redraw [of st] by (simp add: tui_redraw_if_pending_def)

lemma ok_vprint:
  assumes "tui_ok st" and "\<And>i. win = Some i \<Longrightarrow> i < length (tui_windows st)"
  shows "\<exists>st'. tui_vprint win msg st = Some st' \<and> tui_ok st' \<and> same_windows st st'"
proof (cases "win = NULL \<or> \<not> tui_enabled st")
  case True
  then show ?thesis using assms(1) by (cases win) (auto simp: tui_vprint_def)
next
  case False
  then obtain i where i: "win = Some i" "i < length (tui_windows st)" and en: "tui_enabled st" using assms(2) by auto
  have al: "tui_alloc st = []" using assms(1) by (simp add: tui_ok_def)
  obtain line where line: "tui_colorize_string (tui_colors st) (Some (take 2047 msg)) [] = (Some line, [])" using colorize_plenty by blast
  let ?w = "append_line (tui_cols st) line (tui_windows st ! i)"
  have same: "st\<lparr>tui_alloc := []\<rparr> = st" using al by simp
  have w: "window_ok ?w" "key_of ?w = key_of (tui_windows st ! i)"
    using append_line_ok ok_window [OF assms(1) i(2)] by (simp_all add: key_of_def)
  define s where "s = (set_window i ?w st)\<lparr>tui_lines := tui_lines st + 1 - (if tw_buffer (tui_windows st ! i) ! tw_log_head (tui_windows st ! i) = NULL then 0 else 1)\<rparr>"
  have s: "tui_ok s" "same_windows st s" using ok_set_window [OF assms(1) i(2) w] by (simp_all add: s_def)
  have r: "tui_ok (tui_redraw_request s)" "same_windows st (tui_redraw_request s)" using s by (simp_all add: tui_redraw_request_def)
  obtain st' where st': "tui_redraw_if_pending (tui_redraw_request s) = Some st'" "tui_ok st'" "same_windows (tui_redraw_request s) st'"
    using ok_redraw_if_pending [OF r(1)] by blast
  have "tui_vprint win msg st = Option.bind (tui_active_window s) (\<lambda>(active, st).
      if i = active then
        let st = tui_redraw_request st in if tui_redraw_defer_count st = 0 then tui_redraw_if_pending st else Some st
      else Some st)"
    unfolding tui_vprint_def s_def by (simp add: i(1) window_at_nth [OF i(2)] en al line same Let_def)
  then have "tui_vprint win msg st = (if i = tui_active_win s then
      if tui_redraw_defer_count (tui_redraw_request s) = 0 then tui_redraw_if_pending (tui_redraw_request s) else Some (tui_redraw_request s)
      else Some s)"
    using ok_active [OF s(1)] by (simp add: Let_def)
  then show ?thesis using s r st' same_windows_trans [OF r(2) st'(3)] by auto
qed

lemma ok_print:
  "tui_ok st \<Longrightarrow> (\<And>i. win = Some i \<Longrightarrow> i < length (tui_windows st)) \<Longrightarrow>
     \<exists>st'. tui_print win msg st = Some st' \<and> tui_ok st' \<and> same_windows st st'"
  using ok_vprint [of st win msg] by (simp add: tui_print_def)

lemma ok_print_active: "tui_ok st \<Longrightarrow> \<exists>st'. print_active msg st = Some st' \<and> tui_ok st' \<and> same_windows st st'"
  using ok_active [of st] ok_print [of st "Some (tui_active_win st)" msg] by (simp add: print_active_def)

lemma index_of_Some: "index_of P xs = Some i \<Longrightarrow> i < length xs \<and> P (xs ! i) \<and> (\<forall>j < i. \<not> P (xs ! j))"
proof (induction xs arbitrary: i)
  case (Cons x xs)
  then show ?case by (cases i) (auto simp: less_Suc_eq_0_disj split: if_splits)
qed simp

lemma index_of_None: "index_of P xs = None \<longleftrightarrow> list_all (\<lambda>x. \<not> P x) xs"
  by (induction xs) auto

subsection \<open>Every operation keeps the state consistent\<close>

lemma ok_add_window:
  assumes "tui_ok st" and "length (tui_windows st) < TUI_MAX_WINDOWS"
  shows "tui_ok (snd (add_window title st))"
proof -
  have "tui_keys (snd (add_window title st)) = tui_keys st @ [(tui_next_id st, take 63 title)]"
    using assms(1) by (simp add: add_window_def tui_keys_def key_of_def new_window_def tui_ok_def)
  moreover have "tui_windows (snd (add_window title st)) = tui_windows st @ [new_window (tui_next_id st) title]"
    "tui_next_id (snd (add_window title st)) = tui_next_id st + 1" "tui_active_win (snd (add_window title st)) = tui_active_win st"
    "tui_alloc (snd (add_window title st)) = []" "tui_input (snd (add_window title st)) = tui_input st"
    using assms(1) by (simp_all add: add_window_def tui_ok_def)
  ultimately show ?thesis using assms new_window_ok by (auto simp: tui_ok_def keys_ok_def list_all_iff)
qed

lemma find_less: "tui_window_find title st = Some i \<Longrightarrow> i < length (tui_windows st)"
  using index_of_Some by (auto simp: tui_window_find_def Let_def)

lemma ok_create:
  assumes "tui_ok st"
  shows "\<exists>r st'. tui_window_create title st = Some (r, st') \<and> tui_ok st'"
proof (cases "tui_window_find (Some title) st")
  case None
  show ?thesis
  proof (cases "length (tui_windows st) < TUI_MAX_WINDOWS")
    case True
    then show ?thesis using None ok_add_window [OF assms True, of title]
      by (cases "add_window title st") (simp add: tui_window_create_def)
  next
    case False
    obtain st' where "print_active ''No more windows available: TUI_MAX_WINDOWS: 32'' st = Some st'" "tui_ok st'"
      using ok_print_active [OF assms] by blast
    with False None show ?thesis by (simp add: tui_window_create_def)
  qed
qed (use assms in \<open>simp add: tui_window_create_def\<close>)

lemma tui_ok_active:
  "tui_ok st \<Longrightarrow> i < length (tui_windows st) \<Longrightarrow> tui_ok (st\<lparr>tui_active_win := i\<rparr>)"
  by (simp add: tui_ok_def keys_ok_def tui_keys_def)

lemma focus_eq:
  assumes "tui_ok st"
  shows "tui_window_focus title st =
    (case title of None \<Rightarrow> Some (NULL, st)
     | Some t \<Rightarrow> (case index_of (\<lambda>w. tw_title w = t) (tui_windows st) of None \<Rightarrow> Some (NULL, st)
        | Some i \<Rightarrow> Some (Some i, st\<lparr>tui_active_win := i\<rparr>)))"
proof (cases title)
  case (Some t)
  show ?thesis
  proof (cases "index_of (\<lambda>w. tw_title w = t) (tui_windows st)")
    case (Some i)
    then have "tui_ok (st\<lparr>tui_active_win := i\<rparr>)" using tui_ok_active [OF assms] index_of_Some by blast
    then show ?thesis using Some \<open>title = Some t\<close> ok_update_input by (simp add: tui_window_focus_def)
  qed (use Some in \<open>simp add: tui_window_focus_def\<close>)
qed (simp add: tui_window_focus_def)

lemma tui_keys_active [simp]: "tui_keys (st\<lparr>tui_active_win := i\<rparr>) = tui_keys st"
  by (simp add: tui_keys_def)

text \<open>Focusing moves the active index only; it keeps the windows and the input line.\<close>

definition same_keys :: "tui \<Rightarrow> tui \<Rightarrow> bool" where
  "same_keys st st' \<longleftrightarrow> tui_keys st' = tui_keys st \<and> tui_input st' = tui_input st"

lemma same_keys_refl [simp]: "same_keys st st"
  by (simp add: same_keys_def)

lemma same_keys_trans: "same_keys a b \<Longrightarrow> same_keys b c \<Longrightarrow> same_keys a c"
  by (simp add: same_keys_def)

lemma same_windows_keys: "same_windows st st' \<Longrightarrow> same_keys st st'"
  by (simp add: same_windows_def same_keys_def)

lemma ok_focus:
  assumes "tui_ok st"
  shows "\<exists>r st'. tui_window_focus title st = Some (r, st') \<and> tui_ok st' \<and> same_keys st st'"
proof -
  have "index_of P (tui_windows st) = Some i \<Longrightarrow> tui_ok (st\<lparr>tui_active_win := i\<rparr>)" for P i
    using tui_ok_active [OF assms] index_of_Some by blast
  then show ?thesis unfolding focus_eq [OF assms] using assms by (auto simp: same_keys_def split: option.splits)
qed

lemma ok_focus_id:
  assumes "tui_ok st"
  shows "\<exists>r st'. tui_window_focus_id n st = Some (r, st') \<and> tui_ok st' \<and> same_keys st st'"
proof (cases "n < 1 \<or> n > int (length (tui_windows st))")
  case True
  obtain st' where "print_active (invalid_window n 1 (length (tui_windows st))) st = Some st'" "tui_ok st'" "same_windows st st'"
    using ok_print_active [OF assms] by blast
  with True show ?thesis by (auto simp: tui_window_focus_id_def Let_def same_windows_keys)
next
  case False
  have "window_at (n - 1) st = Some (tui_windows st ! nat (n - 1))" by (rule window_at_inside) (use False in simp_all)
  then show ?thesis using False ok_focus [OF assms, of "Some (tw_title (tui_windows st ! nat (n - 1)))"]
    by (simp add: tui_window_focus_id_def)
qed

lemma ok_focus_at:
  assumes "tui_ok st" and "0 \<le> n" and "n < int (length (tui_windows st))"
  shows "\<exists>st'. focus_at n st = Some st' \<and> tui_ok st' \<and> same_keys st st'"
proof -
  obtain r st1 where f: "tui_window_focus (Some (tw_title (tui_windows st ! nat n))) st = Some (r, st1)" "tui_ok st1" "same_keys st st1"
    using ok_focus [OF assms(1)] by blast
  show ?thesis using ok_redraw [OF f(2)] f(1,3) window_at_inside [OF assms(2,3)]
    by (auto simp: focus_at_def intro: same_keys_trans same_windows_keys)
qed

lemma keys_ok_remove:
  assumes "keys_ok ks active n" and "d < length ks" and "\<not> strcasecmp_eq (snd (ks ! d)) ''status''"
  shows "keys_ok (take d ks @ drop (Suc d) ks) (active_after (length ks - 1) d active) n"
proof -
  obtain A x B where ks: "ks = A @ x # B" and d: "length A = d"
    using assms(2) id_take_nth_drop [OF assms(2)] by (metis length_take min.absorb4)
  have l: "take d ks @ drop (Suc d) ks = A @ B" "ks ! d = x" "length ks - 1 = length (A @ B)" using ks d by auto
  have k: "distinct (map fst (A @ B))" "list_all (\<lambda>k. fst k < n) (A @ B)" "list_ex (\<lambda>k. strcasecmp_eq (snd k) ''status'') (A @ B)"
    using assms(1,3) unfolding l(2) by (auto simp: keys_ok_def ks)
  then have "0 < length (A @ B)" by (cases "A @ B") auto
  then have "active_after (length (A @ B)) d active < length (A @ B)"
    using d unfolding active_after_def length_append by (simp split: if_splits; linarith)
  then show ?thesis using assms(1) k unfolding l by (simp add: keys_ok_def ks)
qed

lemma index_of_key:
  assumes "distinct (map f xs)" and "i < length xs"
  shows "index_of (\<lambda>x. f x = f (xs ! i)) xs = Some i"
proof (cases "index_of (\<lambda>x. f x = f (xs ! i)) xs")
  case None
  then show ?thesis using assms(2) by (auto simp: index_of_None list_all_length)
next
  case (Some j)
  then have "j < length xs" "f (xs ! j) = f (xs ! i)" using index_of_Some by blast+
  then show ?thesis using Some assms by (metis length_map nth_eq_iff_index_eq nth_map)
qed

text \<open>What a successful destroy does: print, remove, choose a window, focus it by its title.\<close>

lemma ok_destroy:
  assumes "tui_ok st" and "d < length (tui_windows st)" and "\<not> strcasecmp_eq (tw_title (tui_windows st ! d)) ''status''"
  shows "\<exists>st1 st'. tui_window_destroy (Some (tui_windows st ! d)) st = Some (False, st') \<and> tui_ok st' \<and> same_windows st st1 \<and>
    (let left = take d (tui_windows st1) @ drop (Suc d) (tui_windows st1); a = active_after (length left) d (tui_active_win st)
     in tui_windows st' = left \<and> a < length left \<and> index_of (\<lambda>w. tw_title w = tw_title (left ! a)) left = Some (tui_active_win st'))"
proof -
  let ?w = "tui_windows st ! d"
  have ids: "distinct (map tw_id (tui_windows st))"
    using assms(1) by (simp add: tui_ok_def keys_ok_def tui_keys_def key_of_def comp_def)
  have idx: "index_of (\<lambda>v. tw_id v = tw_id ?w) (tui_windows st) = Some d" by (rule index_of_key [OF ids assms(2)])
  obtain st1 where p: "tui_print (tui_window_find (Some ''status'') st) (''* Closed window '' @ show_nat d @ '' ('' @ tw_title ?w @ '')'') st = Some st1"
    "tui_ok st1" "same_windows st st1" using ok_print [OF assms(1)] find_less by blast
  let ?left = "take d (tui_windows st1) @ drop (Suc d) (tui_windows st1)"
  have n: "length (tui_windows st1) = length (tui_windows st)" using p(3) length_tui_keys by (metis same_windows_def)
  have k: "tui_keys st1 = tui_keys st" "tui_active_win st1 = tui_active_win st" "tui_next_id st1 = tui_next_id st"
    using p(3) by (simp_all add: same_windows_def)
  let ?a = "active_after (length ?left) d (tui_active_win st1)"
  define st2 where "st2 = st1\<lparr>tui_windows := ?left, tui_active_win := ?a\<rparr>"
  have "keys_ok (take d (tui_keys st) @ drop (Suc d) (tui_keys st)) (active_after (length (tui_keys st) - 1) d (tui_active_win st)) (tui_next_id st)"
    using assms by (intro keys_ok_remove) (simp_all add: tui_ok_def tui_keys_def key_of_def)
  moreover have "tui_keys st2 = take d (tui_keys st) @ drop (Suc d) (tui_keys st)"
    unfolding k(1) [symmetric] by (simp add: tui_keys_def st2_def take_map drop_map)
  moreover have "length ?left = length (tui_keys st) - 1" using n assms(2) by simp
  ultimately have keys: "keys_ok (tui_keys st2) (tui_active_win st2) (tui_next_id st2)" by (simp add: st2_def k)
  have "list_all window_ok ?left" using p(2) by (auto simp: tui_ok_def list_all_iff dest: in_set_takeD in_set_dropD)
  with keys have ok2: "tui_ok st2" using p(2) by (simp add: tui_ok_def st2_def)
  have a: "?a < length ?left" using keys by (simp add: keys_ok_def st2_def)
  obtain i where i: "index_of (\<lambda>w. tw_title w = tw_title (?left ! ?a)) ?left = Some i"
    using a by (cases "index_of (\<lambda>w. tw_title w = tw_title (?left ! ?a)) ?left") (auto simp: index_of_None list_all_length)
  have w2: "tui_windows st2 = ?left" by (simp add: st2_def)
  have f: "tui_window_focus (Some (tw_title (?left ! ?a))) st2 = Some (Some i, st2\<lparr>tui_active_win := i\<rparr>)"
    unfolding focus_eq [OF ok2] w2 using i by simp
  have "tui_ok (st2\<lparr>tui_active_win := i\<rparr>)" using tui_ok_active [OF ok2] index_of_Some [OF i] w2 by simp
  moreover have "tui_window_destroy (Some ?w) st = Some (False, st2\<lparr>tui_active_win := i\<rparr>)"
    using assms(3) idx p(1) a f by (simp add: tui_window_destroy_def Let_def st2_def)
  ultimately show ?thesis using p(3) k(2) a i w2 unfolding Let_def by (intro exI [of _ st1] exI [of _ "st2\<lparr>tui_active_win := i\<rparr>"]) simp
qed

subsection \<open>Sequences of operations\<close>

text \<open>What a program does with windows; a window is named by its title, as the callers do.\<close>

datatype window_op =
    CreateWindow string | FocusWindow string | FocusId int | DestroyWindow string | DestroyId int
  | SwapKey char | AltLeft | AltRight | PrintTo string string | ClearWindow string
  | DeferRedraw | FlushRedraw | RequestRedraw | RedrawIfPending

definition window_named :: "string \<Rightarrow> tui \<Rightarrow> tui_window ptr" where
  "window_named title st = map_option (\<lambda>i. tui_windows st ! i) (tui_window_find (Some title) st)"

fun window_step :: "window_op \<Rightarrow> tui \<Rightarrow> tui comp" where
  "window_step (CreateWindow t) st = map_option snd (tui_window_create t st)"
| "window_step (FocusWindow t) st = map_option snd (tui_window_focus (Some t) st)"
| "window_step (FocusId n) st = map_option snd (tui_window_focus_id n st)"
| "window_step (DestroyWindow t) st = map_option snd (tui_window_destroy (window_named t st) st)"
| "window_step (DestroyId n) st = map_option snd (tui_window_destroy_id n st)"
| "window_step (SwapKey c) st = tui_window_swap c st"
| "window_step AltLeft st = handle_alt_left st"
| "window_step AltRight st = handle_alt_right st"
| "window_step (PrintTo t msg) st = tui_print (tui_window_find (Some t) st) msg st"
| "window_step (ClearWindow t) st = map_option snd (tui_clear_scrollback (tui_window_find (Some t) st) st)"
| "window_step DeferRedraw st = Some (tui_redraw_defer st)"
| "window_step FlushRedraw st = tui_redraw_flush st"
| "window_step RequestRedraw st = Some (tui_redraw_request st)"
| "window_step RedrawIfPending st = tui_redraw_if_pending st"

fun window_steps :: "window_op list \<Rightarrow> tui \<Rightarrow> tui comp" where
  "window_steps [] st = Some st"
| "window_steps (x # xs) st = do { st \<leftarrow> window_step x st; window_steps xs st }"

lemma ok_destroy_any:
  assumes "tui_ok st" and "d < length (tui_windows st)"
  shows "\<exists>r st'. tui_window_destroy (Some (tui_windows st ! d)) st = Some (r, st') \<and> tui_ok st'"
proof (cases "strcasecmp_eq (tw_title (tui_windows st ! d)) ''status''")
  case True
  let ?msg = "[CHR 0x03] @ ''04*** Can't destroy status window! ***'' @ [CHR 0x0F] @ ''.''"
  obtain st' where "print_active ?msg st = Some st'" "tui_ok st'" using ok_print_active [OF assms(1)] by blast
  with True show ?thesis by (auto simp: tui_window_destroy_def)
next
  case False
  show ?thesis using ok_destroy [OF assms False] by blast
qed

lemma ok_destroy_id:
  assumes "tui_ok st"
  shows "\<exists>r st'. tui_window_destroy_id n st = Some (r, st') \<and> tui_ok st'"
proof (cases "n < 1 \<or> n > int (length (tui_windows st))")
  case True
  obtain st' where "print_active (invalid_window n 2 (length (tui_windows st))) st = Some st'" "tui_ok st'"
    using ok_print_active [OF assms] by blast
  with True show ?thesis by (auto simp: tui_window_destroy_id_def)
next
  case False
  then have "nat (n - 1) < length (tui_windows st)" by linarith
  moreover have "window_at (n - 1) st = Some (tui_windows st ! nat (n - 1))" by (rule window_at_inside) (use False in simp_all)
  ultimately show ?thesis using False ok_destroy_any [OF assms] by (simp add: tui_window_destroy_id_def)
qed

lemma ok_clear:
  assumes "tui_ok st" and "\<And>i. win = Some i \<Longrightarrow> i < length (tui_windows st)"
  shows "\<exists>r st'. tui_clear_scrollback win st = Some (r, st') \<and> tui_ok st'"
proof (cases win)
  case (Some i)
  let ?w = "(tui_windows st ! i)\<lparr>tw_buffer := replicate LOG_LINES NULL, tw_log_head := 0, tw_log_count := 0, tw_scroll := 0\<rparr>"
  have i: "i < length (tui_windows st)" using assms(2) Some by simp
  have "window_ok ?w" using ok_window [OF assms(1) i] by (simp add: window_ok_def)
  then have "tui_ok (set_window i ?w st)" using ok_set_window [OF assms(1) i, of ?w] by (simp add: key_of_def)
  then have "tui_ok ((set_window i ?w st)\<lparr>tui_lines := tui_lines st - length (filter (\<lambda>l. l \<noteq> NULL) (tw_buffer (tui_windows st ! i)))\<rparr>)" by simp
  from ok_redraw [OF this] Some show ?thesis by (auto simp: tui_clear_scrollback_def window_at_nth [OF i])
qed (use assms(1) in \<open>auto simp: tui_clear_scrollback_def\<close>)

lemma smod_range: "0 \<le> a \<Longrightarrow> 0 < (n :: int) \<Longrightarrow> 0 \<le> a smod n \<and> a smod n < n"
  by (cases "a = 0") (simp_all add: signed_modulo_int_def)

lemma ok_focus_if:
  assumes "tui_ok st" and "b \<Longrightarrow> 0 \<le> n \<and> n < int (length (tui_windows st))"
  shows "\<exists>st'. (if b then focus_at n st else Some st) = Some st' \<and> tui_ok st' \<and> same_keys st st'"
  using ok_focus_at [OF assms(1)] assms by simp

text \<open>An operation with a result and a new state, as a step.\<close>

lemma step_of_result: "\<exists>r st'. f = Some (r, st') \<and> P st' \<Longrightarrow> \<exists>st'. map_option snd f = Some st' \<and> P st'"
  by auto

lemma step_destroy:
  assumes "tui_ok st"
  shows "\<exists>r st'. tui_window_destroy (window_named t st) st = Some (r, st') \<and> tui_ok st'"
proof (cases "tui_window_find (Some t) st")
  case None
  then show ?thesis using assms by (auto simp: window_named_def tui_window_destroy_def)
next
  case (Some d)
  show ?thesis unfolding window_named_def Some option.map by (rule ok_destroy_any [OF assms find_less [OF Some]])
qed

lemma step_focus_id: "tui_ok st \<Longrightarrow> \<exists>r st'. tui_window_focus_id n st = Some (r, st') \<and> tui_ok st'"
  using ok_focus_id by blast

lemma step_focus: "tui_ok st \<Longrightarrow> \<exists>r st'. tui_window_focus t st = Some (r, st') \<and> tui_ok st'"
  using ok_focus by blast

lemma step_print: "tui_ok st \<Longrightarrow> \<exists>st'. tui_print (tui_window_find t st) msg st = Some st' \<and> tui_ok st'"
  using ok_print [of st "tui_window_find t st" msg] find_less by blast

lemma step_redraw_if_pending: "tui_ok st \<Longrightarrow> \<exists>st'. tui_redraw_if_pending st = Some st' \<and> tui_ok st'"
  using ok_redraw_if_pending by blast

lemma step_key:
  "tui_ok st \<Longrightarrow> \<exists>st'. tui_window_swap c st = Some st' \<and> tui_ok st' \<and> same_keys st st'"
  "tui_ok st \<Longrightarrow> \<exists>st'. handle_alt_left st = Some st' \<and> tui_ok st' \<and> same_keys st st'"
  "tui_ok st \<Longrightarrow> \<exists>st'. handle_alt_right st = Some st' \<and> tui_ok st' \<and> same_keys st st'"
proof -
  show "tui_ok st \<Longrightarrow> \<exists>st'. tui_window_swap c st = Some st' \<and> tui_ok st' \<and> same_keys st st'"
    unfolding tui_window_swap_def Let_def by (rule ok_focus_if)
  have range: "0 < int (length (tui_windows st)) \<Longrightarrow> 0 \<le> a \<Longrightarrow>
      0 \<le> a smod int (length (tui_windows st)) \<and> a smod int (length (tui_windows st)) < int (length (tui_windows st))" for a
    by (rule smod_range)
  show "tui_ok st \<Longrightarrow> \<exists>st'. handle_alt_left st = Some st' \<and> tui_ok st' \<and> same_keys st st'"
    unfolding handle_alt_left_def Let_def by (rule ok_focus_if, assumption, rule range; linarith)
  show "tui_ok st \<Longrightarrow> \<exists>st'. handle_alt_right st = Some st' \<and> tui_ok st' \<and> same_keys st st'"
    unfolding handle_alt_right_def Let_def by (rule ok_focus_if, assumption, rule range; linarith)
qed

lemma window_step_ok:
  assumes ok: "tui_ok st"
  shows "\<exists>st'. window_step x st = Some st' \<and> tui_ok st'"
proof (cases x)
  case (CreateWindow t) show ?thesis unfolding CreateWindow window_step.simps by (rule step_of_result, rule ok_create, rule ok)
next
  case (FocusWindow t) show ?thesis unfolding FocusWindow window_step.simps by (rule step_of_result, rule step_focus, rule ok)
next
  case (FocusId n) show ?thesis unfolding FocusId window_step.simps by (rule step_of_result, rule step_focus_id, rule ok)
next
  case (DestroyWindow t) show ?thesis unfolding DestroyWindow window_step.simps by (rule step_of_result, rule step_destroy, rule ok)
next
  case (DestroyId n) show ?thesis unfolding DestroyId window_step.simps by (rule step_of_result, rule ok_destroy_id, rule ok)
next
  case (SwapKey c) show ?thesis unfolding SwapKey window_step.simps using step_key [OF ok] by blast
next
  case AltLeft show ?thesis unfolding AltLeft window_step.simps using step_key [OF ok] by blast
next
  case AltRight show ?thesis unfolding AltRight window_step.simps using step_key [OF ok] by blast
next
  case (PrintTo t msg) show ?thesis unfolding PrintTo window_step.simps by (rule step_print, rule ok)
next
  case (ClearWindow t) show ?thesis unfolding ClearWindow window_step.simps
    by (rule step_of_result, rule ok_clear, rule ok, rule find_less)
next
  case DeferRedraw show ?thesis unfolding DeferRedraw window_step.simps tui_redraw_defer_def using ok by simp
next
  case FlushRedraw show ?thesis unfolding FlushRedraw window_step.simps tui_redraw_flush_def
    by (rule step_redraw_if_pending) (use ok in simp)
next
  case RequestRedraw show ?thesis unfolding RequestRedraw window_step.simps tui_redraw_request_def using ok by simp
next
  case RedrawIfPending show ?thesis unfolding RedrawIfPending window_step.simps by (rule step_redraw_if_pending, rule ok)
qed

text \<open>C15: no sequence of window operations breaks the interface: starting from a consistent state with
  an input line that can be drawn and with memory that suffices, every operation has a defined
  result (it reads no entry of the array that is outside of it or holds no window: see \<open>window_at\<close>,
  through which every access by an index goes), and afterwards there are at most 32 windows, one of
  them the status window, the active index is one of them, and every scrollback ring is intact.
  Windows are named by their titles or numbers, as the callers do.\<close>

theorem window_ops_safe:
  assumes "tui_ok st"
  shows "\<exists>st'. window_steps ops st = Some st' \<and> tui_ok st'"
  using assms
proof (induction ops arbitrary: st)
  case (Cons x ops)
  then show ?case using window_step_ok [OF Cons.prems, of x] by auto
qed simp

definition tui_start :: tui where
  "tui_start = \<lparr>tui_enabled = True, tui_windows = [new_window 0 ''status''], tui_active_win = 0, tui_next_id = 1,
     tui_redraw_pending = False, tui_redraw_defer_count = 0, tui_rows = 24, tui_cols = 80, tui_colors = True,
     tui_input = blank_line, tui_lines = 0, tui_out = [], tui_alloc = []\<rparr>"

lemma tui_start_ok: "tui_ok tui_start"
  using blank_line_ok new_window_ok [of 0 "''status''"]
  by (simp add: tui_ok_def keys_ok_def tui_keys_def key_of_def tui_start_def typed_def blank_line_def strcasecmp_eq_def new_window_def)

lemma window_ops_safe_witness:
  "\<exists>st. window_steps [CreateWindow ''#rig'', PrintTo ''#rig'' ''hello'', AltRight, DestroyId 2, DestroyId 1] tui_start = Some st \<and> tui_ok st"
  by (rule window_ops_safe) (rule tui_start_ok)

lemma destroy_focus_eq:
  assumes "tui_ok st" and "distinct (map snd (tui_keys st))" and "d < length (tui_windows st)"
    and "\<not> strcasecmp_eq (tw_title (tui_windows st ! d)) ''status''"
  shows "\<exists>st'. tui_window_destroy (Some (tui_windows st ! d)) st = Some (False, st') \<and>
    tui_keys st' = take d (tui_keys st) @ drop (Suc d) (tui_keys st) \<and>
    tui_keys st' ! tui_active_win st' =
      (if tui_active_win st \<noteq> d \<and> tui_active_win st < length (tui_windows st) - 1 then tui_keys st ! tui_active_win st
       else if d > 0 then tui_keys st ! (d - 1) else tui_keys st ! 1)"
proof -
  from ok_destroy [OF assms(1,3,4)] obtain st1 st' where
    r: "tui_window_destroy (Some (tui_windows st ! d)) st = Some (False, st')" "tui_ok st'" "same_windows st st1"
    and l: "tui_windows st' = take d (tui_windows st1) @ drop (Suc d) (tui_windows st1)"
    and a: "active_after (length (tui_windows st')) d (tui_active_win st) < length (tui_windows st')"
    and i: "index_of (\<lambda>w. tw_title w = tw_title (tui_windows st' ! active_after (length (tui_windows st')) d (tui_active_win st))) (tui_windows st') = Some (tui_active_win st')"
    by (auto simp: Let_def)
  let ?a = "active_after (length (tui_windows st')) d (tui_active_win st)"
  have keys: "tui_keys st' = take d (tui_keys st) @ drop (Suc d) (tui_keys st)"
    using r(3) l by (simp add: tui_keys_def same_windows_def take_map [symmetric] drop_map [symmetric])
  obtain A x B where ks: "tui_keys st = A @ x # B" and d: "length A = d"
    using id_take_nth_drop [of d "tui_keys st"] assms(3) by (metis length_take length_tui_keys min.absorb4)
  have k': "tui_keys st' = A @ B" unfolding keys using ks d by auto
  have "distinct (map snd (A @ B))" using assms(2) by (simp add: ks)
  then have "distinct (map tw_title (tui_windows st'))" unfolding k' [symmetric] by (simp add: tui_keys_def key_of_def comp_def)
  from index_of_key [OF this a] have act: "tui_active_win st' = ?a" using i by simp
  have n: "length (tui_windows st') = length A + length B" "length (tui_windows st) = length A + length B + 1"
    using arg_cong [OF k', of length] arg_cong [OF ks, of length] by simp_all
  have "tui_active_win st < length A + length B + 1" using assms(1) n(2) by (simp add: tui_ok_def keys_ok_def)
  moreover have "length A + length B \<noteq> 0" using a n(1) by auto
  ultimately have "(A @ B) ! ?a = (if tui_active_win st \<noteq> d \<and> tui_active_win st < length (tui_windows st) - 1 then (A @ x # B) ! tui_active_win st
       else if d > 0 then (A @ x # B) ! (d - 1) else (A @ x # B) ! 1)"
    using d by (auto simp: active_after_def n nth_append nth_Cons' not_less)
  then show ?thesis using r(1) keys k' act ks by auto
qed

text \<open>What closing a window does to the focus. The window is removed and the others keep their order.
  When the closed window was in the background, the active window stays active, unless it is the
  last one of the array: then, as when the active window itself is closed, the window before the
  closed one becomes active.\<close>

theorem destroy_focus:
  assumes "tui_ok st" and "distinct (map snd (tui_keys st))" and "d < length (tui_windows st)"
    and "\<not> strcasecmp_eq (tw_title (tui_windows st ! d)) ''status''"
  shows "\<exists>st'. tui_window_destroy (Some (tui_windows st ! d)) st = Some (False, st') \<and>
    tui_keys st' = take d (tui_keys st) @ drop (Suc d) (tui_keys st) \<and>
    tui_keys st' ! tui_active_win st' =
      (if tui_active_win st \<noteq> d \<and> tui_active_win st < length (tui_windows st) - 1 then tui_keys st ! tui_active_win st
       else if d > 0 then tui_keys st ! (d - 1) else tui_keys st ! 1)"
  by (rule destroy_focus_eq [OF assms])

definition tui_three :: tui where
  "tui_three = tui_start\<lparr>tui_windows := [new_window 0 ''status'', new_window 1 ''#rig'', new_window 2 ''#dx''],
     tui_next_id := 3, tui_active_win := 2\<rparr>"

lemma tui_three_keys: "tui_keys tui_three = [(0, ''status''), (1, ''#rig''), (2, ''#dx'')]" "tui_active_win tui_three = 2"
  by (simp_all add: tui_three_def tui_keys_def key_of_def new_window_def)

lemma tui_three_ok: "tui_ok tui_three"
proof -
  have "list_all window_ok (tui_windows tui_three)" by (simp add: tui_three_def new_window_ok)
  moreover have "keys_ok (tui_keys tui_three) (tui_active_win tui_three) (tui_next_id tui_three)"
    unfolding tui_three_keys by (simp add: keys_ok_def tui_three_def strcasecmp_eq_def)
  ultimately show ?thesis using tui_start_ok by (simp add: tui_ok_def tui_three_def)
qed

lemma destroy_focus_witness:
  "\<exists>st. tui_window_destroy (Some (tui_windows tui_three ! 1)) tui_three = Some (False, st) \<and>
     tui_keys st = [(0, ''status''), (2, ''#dx'')] \<and> tui_keys st ! tui_active_win st = (0, ''status'')"
proof -
  have w: "1 < length (tui_windows tui_three)" "tw_title (tui_windows tui_three ! 1) = ''#rig''" "length (tui_windows tui_three) = 3"
    by (simp_all add: tui_three_def new_window_def)
  have "distinct (map snd (tui_keys tui_three))" by (simp add: tui_three_keys)
  moreover have "\<not> strcasecmp_eq (tw_title (tui_windows tui_three ! 1)) ''status''"
    unfolding w(2) by (simp add: strcasecmp_eq_def)
  ultimately show ?thesis using destroy_focus [OF tui_three_ok _ w(1)] by (simp add: w tui_three_keys)
qed

text \<open>Closing a window in the background takes the focus from the last window, although it is still there.\<close>

lemma last_window_loses_focus:
  assumes "tui_ok st" and "distinct (map snd (tui_keys st))" and "0 < d" and "tui_active_win st = length (tui_windows st) - 1"
    and "d < tui_active_win st" and "\<not> strcasecmp_eq (tw_title (tui_windows st ! d)) ''status''"
  shows "\<exists>st'. tui_window_destroy (Some (tui_windows st ! d)) st = Some (False, st') \<and>
    tui_keys st' ! tui_active_win st' = tui_keys st ! (d - 1) \<and> tui_keys st ! tui_active_win st \<in> set (tui_keys st')"
proof -
  have d: "d < length (tui_windows st)" using assms(4,5) by simp
  have "tui_keys st ! tui_active_win st \<in> set (drop (Suc d) (tui_keys st))"
  proof -
    have eq: "Suc d + (tui_active_win st - Suc d) = tui_active_win st" using assms(5) by simp
    have "drop (Suc d) (tui_keys st) ! (tui_active_win st - Suc d) = tui_keys st ! (Suc d + (tui_active_win st - Suc d))"
      by (rule nth_drop) (use assms(4,5) in simp)
    then have "drop (Suc d) (tui_keys st) ! (tui_active_win st - Suc d) = tui_keys st ! tui_active_win st" unfolding eq .
    moreover have "tui_active_win st - Suc d < length (drop (Suc d) (tui_keys st))" using assms(4,5) by simp
    ultimately show ?thesis by (metis nth_mem)
  qed
  then show ?thesis using destroy_focus_eq [OF assms(1,2) d assms(6)] assms(3,4) by auto
qed

text \<open>A title longer than 63 characters is stored truncated but looked up in full: it is never
  found, and every \<open>tui_window_create\<close> with it makes another window of the same title, of which
  only the first can be focused.\<close>

lemma long_title_never_found: "tui_ok st \<Longrightarrow> 63 < length t \<Longrightarrow> tui_window_find (Some t) st = NULL"
proof -
  assume st: "tui_ok st" and t: "63 < length t"
  have "\<not> strcasecmp_eq (tw_title w) t" if "w \<in> set (tui_windows st)" for w
  proof
    assume "strcasecmp_eq (tw_title w) t"
    then have "length (tw_title w) = length t" unfolding strcasecmp_eq_def by (rule map_eq_imp_length_eq)
    moreover have "length (tw_title w) \<le> 63" using st that by (auto simp: tui_ok_def list_all_iff window_ok_def)
    ultimately show False using t by simp
  qed
  then show ?thesis using t by (auto simp: tui_window_find_def index_of_None list_all_iff)
qed

end
