(* ===== verification/Tui_Keys.thy ===== *)
theory Tui_Keys
  imports Tui_Window
begin

text \<open>
  The keyboard of the text interface (\<open>tui.keys.c\<close>): the input history, scrolling by pages,
  the table of hotkeys, and the dispatch of one key, which edits the input line of
  \<open>Line_Editor\<close> or operates on the windows of \<open>Tui_Window\<close>. A key is what the terminal library
  decodes. The callbacks of the application (hotkeys, structured views, completion, the reader
  of submitted lines) are parameters that may change the whole state. The handler keeps the
  address of the window that was active when the key arrived; when a callback has closed that window,
  reading it has no defined result, and neither has asking a terminal library that a callback closed.
\<close>

subsection \<open>State\<close>

text \<open>\<open>kb_tk\<close> says whether the terminal library is open.\<close>

abbreviation HISTORY_LINES :: nat where "HISTORY_LINES \<equiv> 50"
abbreviation TUI_HOTKEY_MAX :: nat where "TUI_HOTKEY_MAX \<equiv> 32"

record hotkey =
  hk_key :: nat
  hk_mods :: u32
  hk_callback :: "nat ptr"
  hk_user :: nat

record keyboard =
  kb_tui :: tui
  kb_history :: "string list"
  kb_index :: int
  kb_shared :: bool
  kb_hotkeys :: "hotkey list"
  kb_tk :: bool

definition no_hotkey :: hotkey where
  "no_hotkey = \<lparr>hk_key = 0, hk_mods = 0, hk_callback = NULL, hk_user = 0\<rparr>"

definition set_tui :: "tui \<Rightarrow> keyboard \<Rightarrow> keyboard" where
  "set_tui t kb = kb\<lparr>kb_tui := t\<rparr>"

definition set_line :: "input_line \<Rightarrow> keyboard \<Rightarrow> keyboard" where
  "set_line l kb = kb\<lparr>kb_tui := (kb_tui kb)\<lparr>tui_input := l\<rparr>\<rparr>"

abbreviation kb_line :: "keyboard \<Rightarrow> input_line" where
  "kb_line kb \<equiv> tui_input (kb_tui kb)"

subsection \<open>History\<close>

definition tui_set_shared_input_history :: "bool \<Rightarrow> keyboard \<Rightarrow> keyboard" where
  "tui_set_shared_input_history shared kb =
     kb\<lparr>kb_shared := shared, kb_index := (if shared then int (length (kb_history kb)) else -1)\<rparr>"

text \<open>The history in use, its index, and the window it belongs to when it is not the shared one.\<close>

definition active_history :: "keyboard \<Rightarrow> (string list \<times> int \<times> nat ptr \<times> keyboard) comp" where
  "active_history kb =
     do {
       (i, t) \<leftarrow> tui_active_window (kb_tui kb);
       let kb = set_tui t kb in
       if kb_shared kb then Some (kb_history kb, kb_index kb, NULL, kb)
       else do { w \<leftarrow> window_at (int i) t; Some (tw_history w, tw_history_index w, Some i, kb) }
     }"

definition put_history :: "string list \<Rightarrow> int \<Rightarrow> nat ptr \<Rightarrow> keyboard \<Rightarrow> keyboard comp" where
  "put_history h index win kb =
     (case win of
        None \<Rightarrow> Some (kb\<lparr>kb_history := h, kb_index := index\<rparr>)
      | Some i \<Rightarrow>
          do {
            w \<leftarrow> window_at (int i) (kb_tui kb);
            Some (set_tui (set_window i (w\<lparr>tw_history := h, tw_history_index := index\<rparr>) (kb_tui kb)) kb)
          })"

text \<open>The slots from the count on are \<open>NULL\<close>.\<close>

definition history_at :: "string list \<Rightarrow> int \<Rightarrow> string ptr" where
  "history_at h index = (if 0 \<le> index \<and> index < int (length h) then Some (h ! nat index) else NULL)"

definition prev_index :: "nat \<Rightarrow> int \<Rightarrow> int" where
  "prev_index count index = (if index < 0 then int count - 1 else if index > 0 then index - 1 else index)"

definition history_prev :: "keyboard \<Rightarrow> (string ptr \<times> keyboard) comp" where
  "history_prev kb =
     do {
       (h, index, win, kb) \<leftarrow> active_history kb;
       if h = [] then Some (NULL, kb)
       else let index = prev_index (length h) index in map_option (Pair (history_at h index)) (put_history h index win kb)
     }"

definition history_next :: "keyboard \<Rightarrow> (string ptr \<times> keyboard) comp" where
  "history_next kb =
     do {
       (h, index, win, kb) \<leftarrow> active_history kb;
       if h = [] \<or> index < 0 then Some (NULL, kb)
       else if index + 1 \<ge> int (length h) then map_option (Pair (Some [])) (put_history h (-1) win kb)
       else map_option (Pair (history_at h (index + 1))) (put_history h (index + 1) win kb)
     }"

definition history_push :: "string \<Rightarrow> string list \<Rightarrow> bool \<Rightarrow> string list \<times> bool" where
  "history_push line h ok =
     (let h = (if length h \<ge> HISTORY_LINES then tl h else h)
      in if ok then (h @ [take (TUI_INPUTLEN - 1) line], True) else (h, False))"

definition history_add :: "string ptr \<Rightarrow> keyboard \<Rightarrow> keyboard comp" where
  "history_add line kb =
     (case line of
        None \<Rightarrow> Some kb
      | Some s \<Rightarrow>
          if s = [] then Some kb
          else do {
            (h, index, win, kb) \<leftarrow> active_history kb;
            let (ok, a) = malloc_ok (tui_alloc (kb_tui kb)); kb = set_tui ((kb_tui kb)\<lparr>tui_alloc := a\<rparr>) kb;
                (h, added) = history_push s h ok in
            put_history h (if added then int (length h) else index) win kb
          })"

subsection \<open>Scrolling by pages\<close>

definition page_size :: "tui \<Rightarrow> int" where
  "page_size t = (let page = int (tui_rows t) - 3 in if page < 1 then 1 else page)"

definition pgup_scroll :: "int \<Rightarrow> nat \<Rightarrow> int \<Rightarrow> int" where
  "pgup_scroll page count scroll =
     (let max_scroll = (if int count > page then int count - page else 0)
      in if scroll + page > max_scroll then max_scroll else scroll + page)"

definition handle_pgup :: "tui \<Rightarrow> tui comp" where
  "handle_pgup t =
     do {
       (i, t) \<leftarrow> tui_active_window t;
       w \<leftarrow> window_at (int i) t;
       tui_redraw_screen (set_window i (w\<lparr>tw_scroll := pgup_scroll (page_size t) (tw_log_count w) (tw_scroll w)\<rparr>) t)
     }"

definition handle_pgdn :: "tui \<Rightarrow> tui comp" where
  "handle_pgdn t =
     do {
       (i, t) \<leftarrow> tui_active_window t;
       w \<leftarrow> window_at (int i) t;
       let page = page_size t in
       tui_redraw_screen (set_window i (w\<lparr>tw_scroll := (if tw_scroll w - page < 0 then 0 else tw_scroll w - page)\<rparr>) t)
     }"

definition handle_ptt_button :: "tui \<Rightarrow> tui comp" where
  "handle_ptt_button t = do { (i, t) \<leftarrow> tui_active_window t; tui_print (Some i) ''* F13 (PTT) pressed!'' t }"

subsection \<open>Hotkeys\<close>

definition tui_hotkey_register :: "nat \<Rightarrow> u32 \<Rightarrow> nat ptr \<Rightarrow> nat \<Rightarrow> hotkey list \<Rightarrow> bool \<times> hotkey list" where
  "tui_hotkey_register key modifiers callback user hs =
     (if callback = NULL then (False, hs)
      else
        let b = \<lparr>hk_key = key, hk_mods = modifiers, hk_callback = callback, hk_user = user\<rparr> in
        case index_of (\<lambda>h. hk_callback h \<noteq> NULL \<and> hk_key h = key \<and> hk_mods h = modifiers) hs of
          Some i \<Rightarrow> (True, hs[i := b])
        | None \<Rightarrow> (case index_of (\<lambda>h. hk_callback h = NULL) hs of Some i \<Rightarrow> (True, hs[i := b]) | None \<Rightarrow> (False, hs)))"

definition tui_hotkey_unregister :: "nat \<Rightarrow> u32 \<Rightarrow> nat ptr \<Rightarrow> nat \<Rightarrow> hotkey list \<Rightarrow> bool \<times> hotkey list" where
  "tui_hotkey_unregister key modifiers callback user hs =
     (case index_of (\<lambda>h. hk_callback h = callback \<and> hk_user h = user \<and> hk_key h = key \<and> hk_mods h = modifiers) hs of
        Some i \<Rightarrow> (True, hs[i := (hs ! i)\<lparr>hk_callback := NULL\<rparr>])
      | None \<Rightarrow> (False, hs))"

text \<open>The binding that a key press selects: the first one whose modifiers are all pressed.\<close>

definition hotkey_for :: "nat \<Rightarrow> u32 \<Rightarrow> hotkey list \<Rightarrow> hotkey ptr" where
  "hotkey_for key modifiers hs =
     find (\<lambda>h. hk_callback h \<noteq> NULL \<and> hk_key h = key \<and> modifiers AND hk_mods h = hk_mods h) hs"

subsection \<open>Keys\<close>

datatype key_code = is_Unicode: Unicode nat | Keysym nat | Mouse | OtherKey

record key =
  key_type :: key_code
  key_mods :: u32

text \<open>A result that is an error leaves in the key structure what was there, \<open>NULL\<close> when it was never
  filled.\<close>

datatype key_result = ResKey key | ResNone | ResEof | ResAgain | ResError "key ptr"

text \<open>A callback that gets a window gets its address.\<close>

record callbacks =
  cb_hotkey :: "nat \<Rightarrow> nat \<Rightarrow> nat \<Rightarrow> u32 \<Rightarrow> nat \<Rightarrow> keyboard \<Rightarrow> bool \<times> keyboard"
  cb_view_key :: "tui_window \<Rightarrow> (nat \<Rightarrow> u32 \<Rightarrow> keyboard \<Rightarrow> bool \<times> keyboard) ptr"
  cb_view_mouse :: "tui_window \<Rightarrow> (key \<Rightarrow> keyboard \<Rightarrow> bool \<times> keyboard) ptr"
  cb_complete :: "nat \<Rightarrow> keyboard \<Rightarrow> (bool \<times> keyboard) comp"
  cb_blocked :: "(string \<Rightarrow> keyboard \<Rightarrow> bool \<times> keyboard) ptr"
  cb_readline :: "(string \<Rightarrow> keyboard \<Rightarrow> keyboard) ptr"

abbreviation SYM_TAB :: nat where "SYM_TAB \<equiv> 2"
abbreviation SYM_DELETE :: nat where "SYM_DELETE \<equiv> 14"
abbreviation MOD_SHIFT :: u32 where "MOD_SHIFT \<equiv> 1"
abbreviation MOD_ALT :: u32 where "MOD_ALT \<equiv> 2"
abbreviation MOD_CTRL :: u32 where "MOD_CTRL \<equiv> 4"

definition has_mod :: "u32 \<Rightarrow> u32 \<Rightarrow> bool" where
  "has_mod modifiers m \<longleftrightarrow> modifiers AND m \<noteq> 0"

definition tui_hotkey_dispatch :: "callbacks \<Rightarrow> nat \<Rightarrow> nat \<Rightarrow> u32 \<Rightarrow> keyboard \<Rightarrow> bool \<times> keyboard" where
  "tui_hotkey_dispatch cb win key modifiers kb =
     (case hotkey_for key modifiers (kb_hotkeys kb) of
        None \<Rightarrow> (False, kb)
      | Some h \<Rightarrow> cb_hotkey cb (the (hk_callback h)) win key modifiers (hk_user h) kb)"

definition on_tui :: "(tui \<Rightarrow> tui comp) \<Rightarrow> keyboard \<Rightarrow> keyboard comp" where
  "on_tui f kb = map_option (\<lambda>t. set_tui t kb) (f (kb_tui kb))"

definition on_line :: "(input_line \<Rightarrow> input_line comp) \<Rightarrow> keyboard \<Rightarrow> keyboard comp" where
  "on_line f kb = map_option (\<lambda>l. set_line l kb) (f (kb_line kb))"

text \<open>The text of the input buffer up to its NUL.\<close>

definition line_text :: "input_line \<Rightarrow> string" where
  "line_text l = takeWhile (\<lambda>c. c \<noteq> NUL) (il_buf l)"

text \<open>Whether the application refuses the line, and its submission.\<close>

definition enter_blocked :: "callbacks \<Rightarrow> keyboard \<Rightarrow> bool \<times> keyboard" where
  "enter_blocked cb kb =
     (if il_len (kb_line kb) > 0
      then (case cb_blocked cb of None \<Rightarrow> (False, kb) | Some f \<Rightarrow> f (line_text (kb_line kb)) kb) else (False, kb))"

definition submit_line :: "callbacks \<Rightarrow> keyboard \<Rightarrow> keyboard comp" where
  "submit_line cb kb =
     (if il_len (kb_line kb) > 0 then
        do {
          kb \<leftarrow> history_add (Some (line_text (kb_line kb))) kb;
          let kb = (case cb_readline cb of None \<Rightarrow> kb | Some f \<Rightarrow> f (line_text (kb_line kb)) kb) in
          do { buf \<leftarrow> put_char 0 NUL (il_buf (kb_line kb)); Some (set_line ((kb_line kb)\<lparr>il_buf := buf, il_len := 0\<rparr>) kb) }
        }
      else Some kb)"

definition handle_enter_key :: "callbacks \<Rightarrow> keyboard \<Rightarrow> keyboard comp" where
  "handle_enter_key cb kb =
     do {
       buf \<leftarrow> put_char (il_len (kb_line kb)) NUL (il_buf (kb_line kb));
       let (blocked, kb) = enter_blocked cb (set_line ((kb_line kb)\<lparr>il_buf := buf\<rparr>) kb) in
       if blocked then on_tui tui_update_input_line kb
       else do { kb \<leftarrow> submit_line cb kb; on_tui tui_update_input_line kb }
     }"

text \<open>Recall a line of the history into the input buffer, if there is one.\<close>

definition recall :: "(string \<Rightarrow> input_line \<Rightarrow> input_line comp) \<Rightarrow> string ptr \<times> keyboard \<Rightarrow> keyboard comp" where
  "recall f r = (case r of (None, kb) \<Rightarrow> Some kb | (Some s, kb) \<Rightarrow> on_line (f s) kb)"

subsection \<open>Dispatch of a key\<close>

definition key_char :: "key_code \<Rightarrow> nat" where
  "key_char k =
     (case k of
        Unicode cp \<Rightarrow> cp
      | Keysym ks \<Rightarrow> if ks = 1 then 8 else if ks = SYM_DELETE then SYM_DELETE else if ks = 3 then 10 else ks
      | _ \<Rightarrow> 0)"

definition plain_key :: "u32 \<Rightarrow> bool" where
  "plain_key m \<longleftrightarrow> m AND (MOD_CTRL OR MOD_ALT OR MOD_SHIFT) = 0"

definition unhandled :: "keyboard \<Rightarrow> bool \<times> keyboard" where "unhandled kb = (False, kb)"
definition handled :: "keyboard \<Rightarrow> bool \<times> keyboard" where "handled kb = (True, kb)"

text \<open>The switch over special keys: whether the key was handled. Scrolling and switching windows
  return 0, which is \<open>unhandled\<close>.\<close>

definition special_key :: "callbacks \<Rightarrow> nat \<Rightarrow> nat \<Rightarrow> u32 \<Rightarrow> keyboard \<Rightarrow> (bool \<times> keyboard) comp" where
  "special_key cb win ks m kb =
     (if ks = 3 then
        if has_mod m MOD_ALT then Some (tui_hotkey_dispatch cb win ks m kb)
        else do { kb \<leftarrow> handle_enter_key cb kb; Some (handled (set_line blank_line kb)) }
      else if ks = SYM_TAB then
        if has_mod m MOD_CTRL then Some (tui_hotkey_dispatch cb win SYM_TAB m kb)
        else if plain_key m then cb_complete cb win kb else Some (unhandled kb)
      else if ks = 16 then map_option unhandled (on_tui handle_pgup kb)
      else if ks = 17 then map_option unhandled (on_tui handle_pgdn kb)
      else if ks = 18 then Some (handled (set_line (le_home (kb_line kb)) kb))
      else if ks = 19 then Some (handled (set_line (le_end (kb_line kb)) kb))
      else if ks = 9 then
        if has_mod m MOD_CTRL then Some (handled (set_line (le_word_left (kb_line kb)) kb))
        else if has_mod m MOD_ALT then map_option unhandled (on_tui handle_alt_left kb)
        else Some (handled (set_line (le_left (kb_line kb)) kb))
      else if ks = 10 then
        if has_mod m MOD_CTRL then Some (handled (set_line (le_word_right (kb_line kb)) kb))
        else if has_mod m MOD_ALT then map_option unhandled (on_tui handle_alt_right kb)
        else Some (handled (set_line (le_right (kb_line kb)) kb))
      else if ks = 7 then do { r \<leftarrow> history_prev kb; kb \<leftarrow> recall le_recall r; Some (handled kb) }
      else if ks = 8 then do { r \<leftarrow> history_next kb; kb \<leftarrow> recall le_recall_next r; Some (handled kb) }
      else if has_mod m MOD_ALT \<and> 48 \<le> ks \<and> ks \<le> 57 then
        map_option unhandled (on_tui (tui_window_swap (char_of (ks - 48))) kb)
      else Some (unhandled kb))"

text \<open>\<open>strchr\<close> in the keys of the home row; it finds the terminating NUL as well, and looks at
  the low byte of the code point only.\<close>

definition window_keys :: string where "window_keys = ''qwertyuiop''"

definition window_key :: "nat \<Rightarrow> nat ptr" where
  "window_key cp = index_of (\<lambda>c. c = char_of (cp mod 256)) (window_keys @ [NUL])"

text \<open>Alt and a character: \<open>Inl\<close> when the key is finished.\<close>

definition alt_key :: "callbacks \<Rightarrow> nat \<Rightarrow> nat \<Rightarrow> u32 \<Rightarrow> keyboard \<Rightarrow> (keyboard + bool \<times> keyboard) comp" where
  "alt_key cb win cp m kb =
     (let (done, kb) = tui_hotkey_dispatch cb win cp m kb in
      if done then Some (Inl kb)
      else case window_key cp of
        None \<Rightarrow> Some (Inr (False, kb))
      | Some i \<Rightarrow>
          do {
            (r, t) \<leftarrow> tui_window_focus_id (11 + int i) (kb_tui kb);
            t \<leftarrow> tui_redraw_screen t;
            Some (Inr (True, set_tui t kb))
          })"

definition insert_control :: "char \<Rightarrow> keyboard \<Rightarrow> (bool \<times> keyboard) comp" where
  "insert_control c kb =
     (if il_len (kb_line kb) < TUI_INPUTLEN - 1 then map_option handled (on_line (le_insert c) kb) else Some (unhandled kb))"

definition ctrl_edit :: "nat \<Rightarrow> keyboard \<Rightarrow> (bool \<times> keyboard) comp" where
  "ctrl_edit c kb =
     (if c = 95 then insert_control (CHR 0x1F) kb
      else if c \<in> {65, 97, 1} then Some (handled (set_line (le_home (kb_line kb)) kb))
      else if c \<in> {66, 98} then insert_control (CHR 0x02) kb
      else if c \<in> {67, 99} then insert_control (CHR 0x03) kb
      else if c \<in> {69, 101, 5} then Some (handled (set_line (le_end (kb_line kb)) kb))
      else if c \<in> {73, 105} then insert_control (CHR 0x1D) kb
      else if c \<in> {79, 111} then insert_control (CHR 0x0F) kb
      else if c \<in> {82, 114} then insert_control (CHR 0x16) kb
      else if c \<in> {85, 117} then map_option handled (on_line le_clear kb)
      else if c \<in> {87, 119, 0x17} then map_option handled (on_line le_kill_word kb)
      else if c \<in> {68, 100, 4} then map_option handled (on_line le_delete kb)
      else if c \<in> {75, 107, 11} then map_option handled (on_line le_kill_end kb)
      else if c = 8 then map_option handled (on_line le_backspace kb)
      else Some (unhandled kb))"

definition plain_edit :: "callbacks \<Rightarrow> nat \<Rightarrow> u32 \<Rightarrow> keyboard \<Rightarrow> (bool \<times> keyboard) comp" where
  "plain_edit cb c m kb =
     (if c = 10 then do { kb \<leftarrow> handle_enter_key cb kb; kb \<leftarrow> on_line le_clear kb; Some (handled kb) }
      else if c = 8 \<or> c = 127 then map_option handled (on_line le_backspace kb)
      else if 48 \<le> c \<and> c \<le> 57 then
        if has_mod m MOD_ALT then map_option handled (on_tui (tui_window_swap (char_of c)) kb) else Some (unhandled kb)
      else if c = SYM_DELETE then map_option handled (on_line le_delete kb)
      else Some (unhandled kb))"

text \<open>The part behind the views: editing. A full-height view has no input line. The window is the one
  that was active when the key arrived, read through the pointer that was kept.\<close>

definition edit_key :: "callbacks \<Rightarrow> nat \<Rightarrow> key \<Rightarrow> bool \<times> keyboard \<Rightarrow> keyboard comp" where
  "edit_key cb win k hk =
     (case hk of (h, kb) \<Rightarrow>
        let c = key_char (key_type k); m = key_mods k in
        do {
          w \<leftarrow> window_ref win (kb_tui kb);
          if tw_view_draw w \<and> tw_view_full_height w then Some kb
          else do {
            (h, kb) \<leftarrow> (if \<not> h \<and> has_mod m MOD_CTRL then ctrl_edit c kb else Some (h, kb));
            (h, kb) \<leftarrow> (if \<not> h then plain_edit cb c m kb else Some (h, kb));
            (h, kb) \<leftarrow>
              (if \<not> h \<and> is_Unicode (key_type k) \<and> c \<ge> 32
               then map_option handled (on_line (le_insert (char_of (c mod 256))) kb) else Some (h, kb));
            if h then on_tui tui_update_input_line kb else Some kb
          }
        })"

definition request_redraw :: "keyboard \<Rightarrow> keyboard" where
  "request_redraw kb = set_tui (tui_redraw_request (kb_tui kb)) kb"

text \<open>A key of a window without a view, or one that its view did not use.\<close>

definition key_rest :: "callbacks \<Rightarrow> nat \<Rightarrow> key \<Rightarrow> bool \<times> keyboard \<Rightarrow> keyboard comp" where
  "key_rest cb win k hk =
     do {
       (h, kb) \<leftarrow> (case key_type k of Keysym ks \<Rightarrow> special_key cb win ks (key_mods k) (snd hk) | _ \<Rightarrow> Some hk);
       r \<leftarrow> (case key_type k of
           Unicode cp \<Rightarrow> if \<not> h \<and> has_mod (key_mods k) MOD_ALT then alt_key cb win cp (key_mods k) kb else Some (Inr (h, kb))
         | _ \<Rightarrow> Some (Inr (h, kb)));
       (case r of Inl kb \<Rightarrow> Some kb | Inr hk \<Rightarrow> edit_key cb win k hk)
     }"

definition ctrl_tab :: "callbacks \<Rightarrow> nat \<Rightarrow> key \<Rightarrow> keyboard \<Rightarrow> bool \<times> keyboard" where
  "ctrl_tab cb win k kb =
     (if key_type k = Unicode 9 \<and> has_mod (key_mods k) MOD_CTRL \<and> \<not> has_mod (key_mods k) MOD_ALT
      then tui_hotkey_dispatch cb win SYM_TAB (key_mods k) kb else (False, kb))"

definition mouse_key :: "callbacks \<Rightarrow> nat \<Rightarrow> key \<Rightarrow> keyboard \<Rightarrow> keyboard comp" where
  "mouse_key cb win k kb =
     do {
       w \<leftarrow> window_ref win (kb_tui kb);
       Some (case cb_view_mouse cb w of
          None \<Rightarrow> kb
        | Some f \<Rightarrow> (let (used, kb) = f k kb in if used then request_redraw kb else kb))
     }"

definition view_key :: "callbacks \<Rightarrow> nat \<Rightarrow> key \<Rightarrow> keyboard \<Rightarrow> (bool \<times> keyboard) comp" where
  "view_key cb win k kb =
     do {
       w \<leftarrow> window_ref win (kb_tui kb);
       Some (case cb_view_key cb w of
          None \<Rightarrow> (False, kb)
        | Some f \<Rightarrow>
            if has_mod (key_mods k) MOD_ALT then (False, kb)
            else f (case key_type k of Unicode cp \<Rightarrow> cp | Keysym ks \<Rightarrow> ks | _ \<Rightarrow> 0) (key_mods k) kb)
     }"

definition ctrl_space :: "callbacks \<Rightarrow> nat \<Rightarrow> key \<Rightarrow> keyboard \<Rightarrow> bool \<times> keyboard" where
  "ctrl_space cb win k kb =
     (if (key_type k = Unicode 0 \<or> key_type k = Unicode 32) \<and> has_mod (key_mods k) MOD_CTRL
      then tui_hotkey_dispatch cb win (key_char (key_type k)) (key_mods k) kb else (False, kb))"

definition key_step :: "callbacks \<Rightarrow> key \<Rightarrow> keyboard \<Rightarrow> keyboard comp" where
  "key_step cb k kb =
     do {
       (i, t) \<leftarrow> tui_active_window (kb_tui kb);
       w \<leftarrow> window_at (int i) t;
       let win = tw_id w; (tab, kb) = ctrl_tab cb win k (set_tui t kb) in
       if tab then Some (request_redraw kb)
       else if key_type k = Mouse then mouse_key cb win k kb
       else do {
         (used, kb) \<leftarrow> view_key cb win k kb;
         if used then Some (request_redraw kb)
         else key_rest cb win k (ctrl_space cb win k kb)
       }
     }"

text \<open>The loop over what the terminal library decodes, until it has no more. It is asked before every
  turn, the last one included.\<close>

fun stdin_ev_cb :: "callbacks \<Rightarrow> key_result list \<Rightarrow> keyboard \<Rightarrow> keyboard comp" where
  "stdin_ev_cb cb [] kb = (if kb_tk kb then Some kb else None)"
| "stdin_ev_cb cb (r # rs) kb =
     (if \<not> kb_tk kb then None
      else case r of
        ResNone \<Rightarrow> Some kb
      | ResEof \<Rightarrow> Some kb
      | ResAgain \<Rightarrow> Some kb
      | ResKey k \<Rightarrow> do { kb \<leftarrow> key_step cb k kb; stdin_ev_cb cb rs kb }
      | ResError left \<Rightarrow> do { k \<leftarrow> left; kb \<leftarrow> key_step cb k kb; stdin_ev_cb cb rs kb })"

definition tui_keys_init :: "bool \<Rightarrow> keyboard \<Rightarrow> keyboard" where
  "tui_keys_init opened kb = kb\<lparr>kb_tk := opened\<rparr>"

definition tui_keys_fini :: "keyboard \<Rightarrow> keyboard" where
  "tui_keys_fini kb =
     kb\<lparr>kb_tk := False, kb_history := [], kb_index := -1, kb_hotkeys := replicate TUI_HOTKEY_MAX no_hotkey\<rparr>"

subsection \<open>Lines without formatting controls\<close>

definition plain_text :: "string \<Rightarrow> bool" where
  "plain_text s \<longleftrightarrow> list_all (\<lambda>c. c \<noteq> NUL \<and> input_mark c = None) s"

definition good_line :: "input_line \<Rightarrow> bool" where
  "good_line l \<longleftrightarrow> line_ok l \<and> plain_text (typed l)"

lemma plain_text_subset: "plain_text s \<Longrightarrow> set t \<subseteq> set s \<Longrightarrow> plain_text t"
  by (auto simp: plain_text_def list_all_iff)

lemma plain_text_cstr: "plain_text s \<Longrightarrow> cstr s"
  by (auto simp: plain_text_def list_all_iff cstr_def)

lemma plain_input_text: "plain_text s \<Longrightarrow> length (input_text s) = length s"
  by (induction s) (simp_all add: plain_text_def input_piece_def)

lemma good_line_draws: "good_line l \<Longrightarrow> line_ok l \<and> length (input_text (typed l)) < INPUT_BUF"
  by (simp add: good_line_def plain_input_text) (simp add: typed_def line_ok_def)

lemma typed_view: "line_ok l \<Longrightarrow> typed l = fst (view l) @ snd (view l)"
  unfolding line_ok_def typed_def view_def by (metis fst_conv le_add_diff_inverse snd_conv take_add)

fun edit_adds :: "edit \<Rightarrow> string" where
  "edit_adds (Insert c) = [c]"
| "edit_adds (Recall s) = s"
| "edit_adds _ = []"

lemma drop_word_subset: "set (drop_word b) \<subseteq> set b"
  unfolding drop_word_def by (auto dest!: set_dropWhileD)

lemma in_set_tlD: "x \<in> set (tl a) \<Longrightarrow> x \<in> set a"
  by (cases a) auto

lemma text_edit_subset:
  "set (fst (text_edit e (b, a)) @ snd (text_edit e (b, a))) \<subseteq> set b \<union> set a \<union> set (edit_adds e)"
  by (cases e)
    (auto dest: in_set_butlastD in_set_takeD in_set_dropD set_takeWhileD set_dropWhileD in_set_tlD subsetD [OF drop_word_subset])

lemma edit_ok_plain: "plain_text (edit_adds e) \<Longrightarrow> edit_ok e"
proof (cases e)
  case (Insert c)
  assume "plain_text (edit_adds e)"
  then show ?thesis by (simp add: Insert plain_text_def)
next
  case (Recall s)
  assume "plain_text (edit_adds e)"
  then show ?thesis by (simp add: Recall plain_text_cstr)
qed simp_all

lemma line_edit_view:
  assumes "line_ok l" and "edit_ok e"
  shows "\<exists>l'. line_edit e l = Some l' \<and> line_ok l' \<and> view l' = text_edit e (view l)"
proof -
  from assms(2) have "list_all edit_ok [e]" by simp
  from line_edits_view [OF assms(1) this] obtain l' where l: "line_edits [e] l = Some l'" "line_ok l'"
    "view l' = fold text_edit [e] (view l)" by blast
  obtain l1 where "line_edit e l = Some l1" using l(1) unfolding line_edits.simps by (cases "line_edit e l") simp_all
  moreover from this have "l1 = l'" using l(1) unfolding line_edits.simps by simp
  ultimately show ?thesis using l(2,3) by simp
qed

lemma plain_text_append [simp]: "plain_text (s @ t) \<longleftrightarrow> plain_text s \<and> plain_text t"
  by (auto simp: plain_text_def)

lemma good_edit:
  assumes "good_line l" and "plain_text (edit_adds e)"
  shows "\<exists>l'. line_edit e l = Some l' \<and> good_line l'"
proof -
  have ok: "line_ok l" "plain_text (typed l)" using assms(1) by (simp_all add: good_line_def)
  from line_edit_view [OF ok(1) edit_ok_plain [OF assms(2)]] obtain l' where
    l: "line_edit e l = Some l'" "line_ok l'" "view l' = text_edit e (view l)" by blast
  have "plain_text (fst (view l) @ snd (view l) @ edit_adds e)" using ok(2) assms(2) unfolding typed_view [OF ok(1)] by simp
  moreover have "set (fst (view l') @ snd (view l')) \<subseteq> set (fst (view l) @ snd (view l) @ edit_adds e)"
    using text_edit_subset [of e "fst (view l)" "snd (view l)"] unfolding l(3) by (simp add: Un_assoc)
  ultimately have "plain_text (fst (view l') @ snd (view l'))" by (rule plain_text_subset)
  then have "good_line l'" using l(2) unfolding good_line_def typed_view [OF l(2)] by (rule conjI [rotated])
  with l(1) show ?thesis by blast
qed

lemma good_moves:
  "good_line l \<Longrightarrow> good_line (le_home l)" "good_line l \<Longrightarrow> good_line (le_end l)"
  "good_line l \<Longrightarrow> good_line (le_left l)" "good_line l \<Longrightarrow> good_line (le_right l)"
  "good_line l \<Longrightarrow> good_line (le_word_left l)" "good_line l \<Longrightarrow> good_line (le_word_right l)"
  using good_edit [of l Home] good_edit [of l End] good_edit [of l Left] good_edit [of l Right]
    good_edit [of l WordLeft] good_edit [of l WordRight] by (auto simp: plain_text_def)

lemma good_edits:
  assumes "good_line l"
  shows "\<exists>l'. le_backspace l = Some l' \<and> good_line l'" "\<exists>l'. le_delete l = Some l' \<and> good_line l'"
    "\<exists>l'. le_kill_word l = Some l' \<and> good_line l'" "\<exists>l'. le_kill_end l = Some l' \<and> good_line l'"
    "\<exists>l'. le_clear l = Some l' \<and> good_line l'"
    "plain_text [c] \<Longrightarrow> \<exists>l'. le_insert c l = Some l' \<and> good_line l'"
    "plain_text s \<Longrightarrow> \<exists>l'. le_recall s l = Some l' \<and> good_line l'"
  using good_edit [OF assms, of Backspace] good_edit [OF assms, of Delete] good_edit [OF assms, of KillWord]
    good_edit [OF assms, of KillEnd] good_edit [OF assms, of Clear] good_edit [OF assms, of "Insert c"]
    good_edit [OF assms, of "Recall s"]
  by (simp_all add: plain_text_def)

lemma good_blank: "good_line blank_line"
  using blank_line_ok by (simp add: good_line_def plain_text_def typed_def blank_line_def)

subsection \<open>Typing never fails\<close>

text \<open>The keyboard with the shared history, a plain input line and a plain history, an open terminal
  library, and the windows at the addresses \<open>W\<close> not closed.\<close>

definition window_ids :: "tui \<Rightarrow> nat set" where
  "window_ids t = set (map fst (tui_keys t))"

definition kb_ok :: "nat set \<Rightarrow> keyboard \<Rightarrow> bool" where
  "kb_ok W kb \<longleftrightarrow>
     tui_ok (kb_tui kb) \<and> good_line (kb_line kb) \<and> kb_shared kb \<and> kb_tk kb \<and>
     list_all (\<lambda>s. plain_text s \<and> length s < TUI_INPUTLEN) (kb_history kb) \<and> W \<subseteq> window_ids (kb_tui kb)"

text \<open>Callbacks that keep the state so and close no window. A callback for the mouse, and one of a view
  that has used the key, may close any window but the status window: the handler is then done with
  the key.\<close>

definition callbacks_ok :: "callbacks \<Rightarrow> bool" where
  "callbacks_ok cb \<longleftrightarrow>
     (\<forall>W kb. kb_ok W kb \<longrightarrow>
       (\<forall>f win key m user. kb_ok W (snd (cb_hotkey cb f win key m user kb))) \<and>
       (\<forall>w f key m. cb_view_key cb w = Some f \<longrightarrow> kb_ok (if fst (f key m kb) then {} else W) (snd (f key m kb))) \<and>
       (\<forall>w f k. cb_view_mouse cb w = Some f \<longrightarrow> kb_ok {} (snd (f k kb))) \<and>
       (\<forall>win. \<exists>r. cb_complete cb win kb = Some r \<and> kb_ok W (snd r)) \<and>
       (\<forall>f s. cb_blocked cb = Some f \<longrightarrow> kb_ok W (snd (f s kb))) \<and>
       (\<forall>f s. cb_readline cb = Some f \<longrightarrow> kb_ok W (f s kb)))"

lemma kb_ok_sub: "kb_ok V kb \<Longrightarrow> W \<subseteq> window_ids (kb_tui kb) \<Longrightarrow> kb_ok W kb"
  by (simp add: kb_ok_def)

lemma kb_ok_none: "kb_ok W kb \<Longrightarrow> kb_ok {} kb"
  by (simp add: kb_ok_def)

lemma same_keys_ids: "same_keys t t' \<Longrightarrow> window_ids t' = window_ids t"
  by (simp add: same_keys_def window_ids_def)

lemma window_ids_input [simp]: "window_ids (t\<lparr>tui_input := l\<rparr>) = window_ids t"
  by (simp add: window_ids_def tui_keys_def)

lemma window_ref_ok: "win \<in> window_ids t \<Longrightarrow> \<exists>w. window_ref win t = Some w"
proof -
  assume "win \<in> window_ids t"
  then have "\<not> list_all (\<lambda>w. tw_id w \<noteq> win) (tui_windows t)"
    by (auto simp: window_ids_def tui_keys_def key_of_def list_all_iff)
  then obtain i where i: "window_index win t = Some i"
    unfolding window_index_def by (cases "index_of (\<lambda>w. tw_id w = win) (tui_windows t)") (simp_all add: index_of_None)
  then have "i < length (tui_windows t)" using index_of_Some unfolding window_index_def by blast
  then show ?thesis using i by (simp add: window_ref_def)
qed

lemma window_ref_gone: "win \<notin> window_ids t \<Longrightarrow> window_ref win t = None"
proof -
  assume "win \<notin> window_ids t"
  then have "list_all (\<lambda>w. tw_id w \<noteq> win) (tui_windows t)" by (auto simp: window_ids_def tui_keys_def key_of_def list_all_iff)
  then have "window_index win t = None" unfolding window_index_def index_of_None .
  then show ?thesis by (simp add: window_ref_def)
qed

lemma tui_ok_line:
  "tui_ok t \<Longrightarrow> good_line l \<Longrightarrow> tui_ok (t\<lparr>tui_input := l\<rparr>)"
  using good_line_draws [of l] by (simp add: tui_ok_def tui_keys_def)

lemma kb_ok_line: "kb_ok W kb \<Longrightarrow> good_line l \<Longrightarrow> kb_ok W (set_line l kb)"
  by (simp add: kb_ok_def set_line_def tui_ok_line)

lemma kb_ok_tui: "kb_ok W kb \<Longrightarrow> tui_ok t \<Longrightarrow> same_keys (kb_tui kb) t \<Longrightarrow> kb_ok W (set_tui t kb)"
  using same_keys_ids [of "kb_tui kb" t] by (simp add: kb_ok_def set_tui_def same_keys_def)

lemma kb_ok_on_tui:
  assumes "kb_ok W kb" and f: "\<And>t. tui_ok t \<Longrightarrow> \<exists>t'. f t = Some t' \<and> tui_ok t' \<and> same_keys t t'"
  shows "\<exists>kb'. on_tui f kb = Some kb' \<and> kb_ok W kb'"
proof -
  have "tui_ok (kb_tui kb)" using assms(1) by (simp add: kb_ok_def)
  from f [OF this] obtain t' where "f (kb_tui kb) = Some t'" "tui_ok t'" "same_keys (kb_tui kb) t'" by blast
  then show ?thesis using kb_ok_tui [OF assms(1)] by (simp add: on_tui_def)
qed

lemma kb_ok_on_line:
  "kb_ok W kb \<Longrightarrow> \<exists>l'. f (kb_line kb) = Some l' \<and> good_line l' \<Longrightarrow> \<exists>kb'. on_line f kb = Some kb' \<and> kb_ok W kb'"
  using kb_ok_line by (auto simp: on_line_def)

lemma set_tui_id [simp]: "set_tui (kb_tui kb) kb = kb"
  by (simp add: set_tui_def)

lemma shared_history:
  "tui_ok (kb_tui kb) \<Longrightarrow> kb_shared kb \<Longrightarrow> active_history kb = Some (kb_history kb, kb_index kb, NULL, kb)"
  using ok_active [of "kb_tui kb"] by (simp add: active_history_def)

lemma kb_ok_active_history: "kb_ok W kb \<Longrightarrow> active_history kb = Some (kb_history kb, kb_index kb, NULL, kb)"
  by (rule shared_history) (simp_all add: kb_ok_def)

text \<open>The lines that a history may hold.\<close>

abbreviation stored_ok :: "string \<Rightarrow> bool" where
  "stored_ok s \<equiv> plain_text s \<and> length s < TUI_INPUTLEN"

lemma kb_ok_set_history: "kb_ok W kb \<Longrightarrow> list_all stored_ok h \<Longrightarrow> kb_ok W (kb\<lparr>kb_history := h, kb_index := i\<rparr>)"
  by (simp add: kb_ok_def)

lemma history_at_stored: "list_all stored_ok h \<Longrightarrow> history_at h i = Some s \<Longrightarrow> stored_ok s"
  by (auto simp: history_at_def list_all_length split: if_splits)

lemma kb_ok_history:
  assumes "kb_ok W kb"
  shows "\<exists>r kb'. history_prev kb = Some (r, kb') \<and> kb_ok W kb' \<and> (\<forall>s. r = Some s \<longrightarrow> stored_ok s)"
    and "\<exists>r kb'. history_next kb = Some (r, kb') \<and> kb_ok W kb' \<and> (\<forall>s. r = Some s \<longrightarrow> stored_ok s)"
proof -
  have h: "list_all stored_ok (kb_history kb)" using assms by (simp add: kb_ok_def)
  note p = kb_ok_set_history [OF assms h] history_at_stored [OF h]
  show "\<exists>r kb'. history_prev kb = Some (r, kb') \<and> kb_ok W kb' \<and> (\<forall>s. r = Some s \<longrightarrow> stored_ok s)"
    using p assms by (simp add: history_prev_def kb_ok_active_history Let_def put_history_def)
  show "\<exists>r kb'. history_next kb = Some (r, kb') \<and> kb_ok W kb' \<and> (\<forall>s. r = Some s \<longrightarrow> stored_ok s)"
    using p assms by (simp add: history_next_def kb_ok_active_history Let_def put_history_def plain_text_def)
qed

lemma kb_ok_recall:
  assumes "kb_ok W kb" and "\<And>s. r = Some s \<Longrightarrow> stored_ok s"
  shows "\<exists>kb'. recall le_recall (r, kb) = Some kb' \<and> kb_ok W kb'" and "\<exists>kb'. recall le_recall_next (r, kb) = Some kb' \<and> kb_ok W kb'"
proof -
  have g: "good_line (kb_line kb)" using assms(1) by (simp add: kb_ok_def)
  have "\<exists>kb'. on_line (le_recall s) kb = Some kb' \<and> kb_ok W kb'" if "plain_text s" for s
    by (rule kb_ok_on_line [of W kb "le_recall s", OF assms(1) good_edits(7) [OF g that]])
  moreover have "le_recall_next s (kb_line kb) = le_recall s (kb_line kb)" if "stored_ok s" for s
    using g that by (intro recall_next_eq) (simp_all add: good_line_def line_ok_def plain_text_cstr)
  ultimately show "\<exists>kb'. recall le_recall (r, kb) = Some kb' \<and> kb_ok W kb'"
    and "\<exists>kb'. recall le_recall_next (r, kb) = Some kb' \<and> kb_ok W kb'"
    using assms by (auto simp: recall_def on_line_def split: option.splits)
qed

text \<open>Adding a line to the shared history.\<close>

lemma shared_history_add:
  assumes "tui_ok (kb_tui kb)" and "kb_shared kb" and "s \<noteq> []"
  shows "history_add (Some s) kb =
    (let h = (if length (kb_history kb) \<ge> HISTORY_LINES then tl (kb_history kb) else kb_history kb) @ [take (TUI_INPUTLEN - 1) s]
     in Some (kb\<lparr>kb_history := h, kb_index := int (length h)\<rparr>))"
proof -
  have "tui_alloc (kb_tui kb) = []" using assms(1) by (simp add: tui_ok_def)
  moreover from this have "set_tui (kb_tui kb\<lparr>tui_alloc := []\<rparr>) kb = kb" by (simp add: set_tui_def)
  ultimately show ?thesis using assms(3)
    by (simp add: history_add_def shared_history [OF assms(1,2)] history_push_def Let_def put_history_def)
qed

lemma kb_ok_history_add:
  assumes "kb_ok W kb" and "plain_text s"
  shows "\<exists>kb'. history_add (Some s) kb = Some kb' \<and> kb_ok W kb' \<and> kb_line kb' = kb_line kb"
proof (cases "s = []")
  case False
  have kb: "tui_ok (kb_tui kb)" "kb_shared kb" and h: "list_all stored_ok (kb_history kb)" using assms(1) by (simp_all add: kb_ok_def)
  have "plain_text (take 511 s)" using plain_text_subset [OF assms(2)] by (auto dest: in_set_takeD)
  moreover have "list_all stored_ok (tl (kb_history kb))" using h by (cases "kb_history kb") simp_all
  ultimately show ?thesis unfolding shared_history_add [OF kb False] Let_def using h kb_ok_set_history [OF assms(1)] by simp
qed (use assms in \<open>simp add: history_add_def\<close>)

text \<open>Outcomes that are defined and consistent.\<close>

definition fine :: "nat set \<Rightarrow> keyboard comp \<Rightarrow> bool" where
  "fine W x \<longleftrightarrow> (case x of None \<Rightarrow> False | Some kb \<Rightarrow> kb_ok W kb)"

definition fine_key :: "nat set \<Rightarrow> (bool \<times> keyboard) comp \<Rightarrow> bool" where
  "fine_key W x \<longleftrightarrow> (case x of None \<Rightarrow> False | Some r \<Rightarrow> kb_ok W (snd r))"

lemma fine_iff: "fine W x \<longleftrightarrow> (\<exists>kb. x = Some kb \<and> kb_ok W kb)" "fine_key W y \<longleftrightarrow> (\<exists>h kb. y = Some (h, kb) \<and> kb_ok W kb)"
  by (auto simp: fine_def fine_key_def split: option.splits)

lemma fine_simps [simp]:
  "fine W (Some kb) = kb_ok W kb" "fine_key W (Some (h, kb)) = kb_ok W kb" "fine_key W (Some r) = kb_ok W (snd r)"
  "fine_key W (Some (handled kb)) = kb_ok W kb" "fine_key W (Some (unhandled kb)) = kb_ok W kb"
  "fine_key W (map_option handled x) = fine W x" "fine_key W (map_option unhandled x) = fine W x"
  by (auto simp: fine_def fine_key_def handled_def unhandled_def split: option.splits)

lemma fine_bind: "fine W x \<Longrightarrow> (\<And>kb. kb_ok W kb \<Longrightarrow> fine W (f kb)) \<Longrightarrow> fine W (Option.bind x f)"
  by (cases x) (simp_all add: fine_iff(1))

lemma fine_key_bind: "fine W x \<Longrightarrow> (\<And>kb. kb_ok W kb \<Longrightarrow> fine_key W (f kb)) \<Longrightarrow> fine_key W (Option.bind x f)"
  by (cases x) (simp_all add: fine_iff(1))

lemma fine_bind_key: "fine_key W x \<Longrightarrow> (\<And>h kb. kb_ok W kb \<Longrightarrow> fine W (f (h, kb))) \<Longrightarrow> fine W (Option.bind x f)"
  by (auto simp: fine_iff)

lemma fine_edits:
  assumes "kb_ok W kb"
  shows "fine W (on_line le_backspace kb)" "fine W (on_line le_delete kb)" "fine W (on_line le_kill_word kb)"
    "fine W (on_line le_kill_end kb)" "fine W (on_line le_clear kb)"
    "plain_text [c] \<Longrightarrow> fine W (on_line (le_insert c) kb)" "plain_text s \<Longrightarrow> fine W (on_line (le_recall s) kb)"
proof -
  have g: "good_line (kb_line kb)" using assms by (simp add: kb_ok_def)
  note e = good_edits [OF g]
  show "fine W (on_line le_backspace kb)" using kb_ok_on_line [of W kb "le_backspace", OF assms e(1)] by (simp add: fine_iff)
  show "fine W (on_line le_delete kb)" using kb_ok_on_line [of W kb "le_delete", OF assms e(2)] by (simp add: fine_iff)
  show "fine W (on_line le_kill_word kb)" using kb_ok_on_line [of W kb "le_kill_word", OF assms e(3)] by (simp add: fine_iff)
  show "fine W (on_line le_kill_end kb)" using kb_ok_on_line [of W kb "le_kill_end", OF assms e(4)] by (simp add: fine_iff)
  show "fine W (on_line le_clear kb)" using kb_ok_on_line [of W kb "le_clear", OF assms e(5)] by (simp add: fine_iff)
  show "plain_text [c] \<Longrightarrow> fine W (on_line (le_insert c) kb)" using kb_ok_on_line [of W kb "le_insert c", OF assms e(6)] by (simp add: fine_iff)
  show "plain_text s \<Longrightarrow> fine W (on_line (le_recall s) kb)" using kb_ok_on_line [of W kb "le_recall s", OF assms e(7)] by (simp add: fine_iff)
qed

lemma kb_ok_moves:
  assumes "kb_ok W kb"
  shows "kb_ok W (set_line (le_home (kb_line kb)) kb)" "kb_ok W (set_line (le_end (kb_line kb)) kb)"
    "kb_ok W (set_line (le_left (kb_line kb)) kb)" "kb_ok W (set_line (le_right (kb_line kb)) kb)"
    "kb_ok W (set_line (le_word_left (kb_line kb)) kb)" "kb_ok W (set_line (le_word_right (kb_line kb)) kb)"
    "kb_ok W (set_line blank_line kb)"
proof -
  have "good_line (kb_line kb)" using assms by (simp add: kb_ok_def)
  note m = good_moves [OF this]
  show "kb_ok W (set_line (le_home (kb_line kb)) kb)" by (rule kb_ok_line [OF assms m(1)])
  show "kb_ok W (set_line (le_end (kb_line kb)) kb)" by (rule kb_ok_line [OF assms m(2)])
  show "kb_ok W (set_line (le_left (kb_line kb)) kb)" by (rule kb_ok_line [OF assms m(3)])
  show "kb_ok W (set_line (le_right (kb_line kb)) kb)" by (rule kb_ok_line [OF assms m(4)])
  show "kb_ok W (set_line (le_word_left (kb_line kb)) kb)" by (rule kb_ok_line [OF assms m(5)])
  show "kb_ok W (set_line (le_word_right (kb_line kb)) kb)" by (rule kb_ok_line [OF assms m(6)])
  show "kb_ok W (set_line blank_line kb)" by (rule kb_ok_line [OF assms good_blank])
qed

lemma fine_on_tui:
  "kb_ok W kb \<Longrightarrow> (\<And>t. tui_ok t \<Longrightarrow> \<exists>t'. f t = Some t' \<and> tui_ok t' \<and> same_keys t t') \<Longrightarrow> fine W (on_tui f kb)"
  using kb_ok_on_tui by (simp add: fine_iff)

lemma ok_scroll:
  assumes "tui_ok t"
  shows "\<exists>t'. tui_redraw_screen (set_window (tui_active_win t) ((tui_windows t ! tui_active_win t)\<lparr>tw_scroll := s\<rparr>) t) = Some t' \<and>
    tui_ok t' \<and> same_keys t t'"
proof -
  let ?w = "(tui_windows t ! tui_active_win t)\<lparr>tw_scroll := s\<rparr>"
  have i: "tui_active_win t < length (tui_windows t)" using ok_active [OF assms] by simp
  have "window_ok ?w" using ok_window [OF assms i] by (simp add: window_ok_def)
  from ok_set_window [OF assms i this] have s: "tui_ok (set_window (tui_active_win t) ?w t)"
    "same_windows t (set_window (tui_active_win t) ?w t)" by (simp_all add: key_of_def)
  from ok_redraw [OF s(1)] s(2) show ?thesis by (auto intro: same_windows_keys same_windows_trans)
qed

lemma fine_tui:
  assumes "kb_ok W kb"
  shows "fine W (on_tui handle_pgup kb)" "fine W (on_tui handle_pgdn kb)" "fine W (on_tui handle_alt_left kb)"
    "fine W (on_tui handle_alt_right kb)" "fine W (on_tui (tui_window_swap c) kb)" "fine W (on_tui tui_update_input_line kb)"
proof -
  show "fine W (on_tui handle_pgup kb)"
    by (rule fine_on_tui [OF assms]) (simp add: handle_pgup_def ok_active ok_scroll Let_def)
  show "fine W (on_tui handle_pgdn kb)"
    by (rule fine_on_tui [OF assms]) (simp add: handle_pgdn_def ok_active ok_scroll Let_def)
  show "fine W (on_tui handle_alt_left kb)" by (rule fine_on_tui [OF assms step_key(2)])
  show "fine W (on_tui handle_alt_right kb)" by (rule fine_on_tui [OF assms step_key(3)])
  show "fine W (on_tui (tui_window_swap c) kb)" by (rule fine_on_tui [OF assms step_key(1)])
  show "fine W (on_tui tui_update_input_line kb)" by (rule fine_on_tui [OF assms]) (simp add: ok_update_input)
qed

lemma clamp_idem [simp]: "clamp_line (clamp_line l) = clamp_line l"
  by (simp add: clamp_line_def Let_def)

lemma update_input_clamp:
  "update_input_line colors rows width title l a = update_input_line colors rows width title (clamp_line l) a"
  by (simp add: update_input_line_def draw_input_def Let_def)

lemma line_text_typed: "line_ok l \<Longrightarrow> line_text l = typed l"
proof -
  assume l: "line_ok l"
  then have "il_buf l = typed l @ NUL # drop (Suc (il_len l)) (il_buf l)"
    using id_take_nth_drop [of "il_len l" "il_buf l"] by (simp add: line_ok_def typed_def)
  moreover have "takeWhile (\<lambda>c. c \<noteq> NUL) (typed l @ NUL # r) = typed l" for r
    using l by (subst takeWhile_append2) (auto simp: line_ok_def typed_def cstr_def)
  ultimately show ?thesis unfolding line_text_def by metis
qed

text \<open>Between the submission of a line and its reset the cursor may be behind the end.\<close>

definition loose :: "nat set \<Rightarrow> keyboard \<Rightarrow> bool" where
  "loose W kb \<longleftrightarrow> kb_ok W (set_line blank_line kb) \<and> length (il_buf (kb_line kb)) = TUI_INPUTLEN"

lemma set_line_twice [simp]: "set_line l (set_line m kb) = set_line l kb" "kb_line (set_line l kb) = l"
  "set_line (kb_line kb) kb = kb"
  by (simp_all add: set_line_def)

lemma input_alloc_id: "tui_alloc t = [] \<Longrightarrow> t\<lparr>tui_input := l, tui_alloc := []\<rparr> = t\<lparr>tui_input := l\<rparr>"
  by (cases t) simp

lemma loose_of_ok:
  assumes "kb_ok W kb"
  shows "loose W kb"
  unfolding loose_def using kb_ok_moves(7) [OF assms] assms by (simp add: kb_ok_def good_line_def line_ok_def)

lemma loose_reset: "loose W kb \<Longrightarrow> fine W (on_line le_clear kb)"
proof -
  assume l: "loose W kb"
  then have len: "length (il_buf (kb_line kb)) = TUI_INPUTLEN" by (simp add: loose_def)
  let ?l = "\<lparr>il_buf = (il_buf (kb_line kb))[0 := NUL], il_len = 0, il_cursor = 0\<rparr>"
  have "good_line ?l" using len by (simp add: good_line_def line_ok_def typed_def plain_text_def)
  moreover have "kb_ok W (set_line blank_line kb)" using l by (simp add: loose_def)
  ultimately have "kb_ok W (set_line ?l (set_line blank_line kb))" using kb_ok_line by blast
  then show ?thesis using len by (simp add: on_line_def le_clear_def put_char_def)
qed

lemma loose_update:
  assumes "loose W kb" and "good_line (clamp_line (kb_line kb))"
  shows "\<exists>kb'. on_tui tui_update_input_line kb = Some kb' \<and> loose W kb'"
proof -
  let ?t = "kb_tui kb" and ?l = "kb_line kb"
  have ok: "tui_ok (?t\<lparr>tui_input := blank_line\<rparr>)" and kb: "kb_ok W (set_line blank_line kb)"
    using assms(1) by (simp_all add: loose_def kb_ok_def set_line_def)
  have al: "tui_alloc ?t = []" and i: "tui_active_win ?t < length (tui_windows ?t)"
    using ok by (simp_all add: tui_ok_def keys_ok_def)
  then have act: "tui_active_window ?t = Some (tui_active_win ?t, ?t)" by (auto simp: tui_active_window_def Let_def)
  let ?w = "tui_windows ?t ! tui_active_win ?t"
  obtain out where out: "update_input_line (tui_colors ?t) (tui_rows ?t) (tui_cols ?t) (tw_title ?w) (clamp_line ?l) [] = Some (out, [])"
    using update_input_plenty [OF conjunct1 [OF good_line_draws [OF assms(2)]] conjunct2 [OF good_line_draws [OF assms(2)]]] by blast
  have u: "update_input_line (tui_colors ?t) (tui_rows ?t) (tui_cols ?t) (tw_title ?w) ?l (tui_alloc ?t) = Some (out, [])"
    unfolding al using out update_input_clamp by (rule trans [rotated])
  define fin where "fin = ?t\<lparr>tui_input := clamp_line ?l, tui_alloc := []\<rparr>"
  have fin: "fin = ?t\<lparr>tui_input := clamp_line ?l\<rparr>" unfolding fin_def by (rule input_alloc_id [OF al])
  have "tui_update_input_line ?t = Some ?t \<or> tui_update_input_line ?t = Some fin"
    unfolding tui_update_input_line_def act Option.bind.simps prod.case Let_def window_at_nth [OF i] u fin_def by simp
  then have "tui_update_input_line ?t = Some ?t \<or> tui_update_input_line ?t = Some (?t\<lparr>tui_input := clamp_line ?l\<rparr>)"
    unfolding fin .
  moreover have "on_tui tui_update_input_line kb = Some kb" if "tui_update_input_line ?t = Some ?t"
    using that by (simp add: on_tui_def)
  moreover have "on_tui tui_update_input_line kb = Some (set_line (clamp_line ?l) kb)"
    if "tui_update_input_line ?t = Some (?t\<lparr>tui_input := clamp_line ?l\<rparr>)"
    using that by (simp add: on_tui_def set_line_def set_tui_def)
  moreover have "loose W (set_line (clamp_line ?l) kb)"
    using assms(1) by (simp add: loose_def clamp_line_def Let_def)
  ultimately show ?thesis using assms(1) by blast
qed

lemma blocked_ok: "kb_ok W kb \<Longrightarrow> callbacks_ok cb \<Longrightarrow> kb_ok W (snd (enter_blocked cb kb))"
  by (auto simp: enter_blocked_def callbacks_ok_def split: option.splits)

lemma submit_loose:
  assumes "kb_ok W kb" and "callbacks_ok cb"
  shows "\<exists>k. submit_line cb kb = Some k \<and> loose W k \<and> good_line (clamp_line (kb_line k))"
proof (cases "il_len (kb_line kb) > 0")
  case False
  have "good_line (kb_line kb)" using assms(1) by (simp add: kb_ok_def)
  then show ?thesis using False loose_of_ok [OF assms(1)] by (simp add: submit_line_def good_line_def)
next
  case True
  have "good_line (kb_line kb)" using assms(1) by (simp add: kb_ok_def)
  then have "plain_text (line_text (kb_line kb))" using line_text_typed by (simp add: good_line_def)
  from kb_ok_history_add [OF assms(1) this] obtain kb2 where
    kb2: "history_add (Some (line_text (kb_line kb))) kb = Some kb2" "kb_ok W kb2" by blast
  define k where "k = (case cb_readline cb of None \<Rightarrow> kb2 | Some f \<Rightarrow> f (line_text (kb_line kb2)) kb2)"
  have k: "kb_ok W k" using kb2(2) assms(2) by (auto simp: k_def callbacks_ok_def split: option.splits)
  then have len: "length (il_buf (kb_line k)) = TUI_INPUTLEN" by (simp add: kb_ok_def good_line_def line_ok_def)
  let ?l = "(kb_line k)\<lparr>il_buf := (il_buf (kb_line k))[0 := NUL], il_len := 0\<rparr>"
  have p: "put_char 0 NUL (il_buf (kb_line k)) = Some ((il_buf (kb_line k))[0 := NUL])" using len by (simp add: put_char_def)
  have "clamp_line ?l = ?l\<lparr>il_cursor := 0\<rparr>" by (simp add: clamp_line_def Let_def)
  then have g: "good_line (clamp_line (kb_line (set_line ?l k)))"
    using len by (simp add: good_line_def line_ok_def typed_def plain_text_def)
  have "loose W (set_line ?l k)" using loose_of_ok [OF k] len by (simp add: loose_def)
  moreover have "submit_line cb kb = Some (set_line ?l k)"
    using True kb2(1) p by (simp add: submit_line_def k_def [symmetric] Let_def)
  ultimately show ?thesis using g by blast
qed

lemma enter_loose:
  assumes "kb_ok W kb" and "callbacks_ok cb"
  shows "\<exists>kb'. handle_enter_key cb kb = Some kb' \<and> loose W kb'"
proof -
  have l: "line_ok (kb_line kb)" using assms(1) by (simp add: kb_ok_def good_line_def)
  have put: "put_char (il_len (kb_line kb)) NUL (il_buf (kb_line kb)) = Some (il_buf (kb_line kb))"
    using l by (simp add: put_char_def line_ok_def list_update_same_conv)
  obtain blocked k where b: "enter_blocked cb kb = (blocked, k)" "kb_ok W k"
    using blocked_ok [OF assms] by (cases "enter_blocked cb kb") simp
  obtain k2 where k2: "submit_line cb k = Some k2" "loose W k2" "good_line (clamp_line (kb_line k2))"
    using submit_loose [OF b(2) assms(2)] by blast
  obtain k3 where k3: "on_tui tui_update_input_line k2 = Some k3" "loose W k3" using loose_update [OF k2(2,3)] by blast
  obtain k4 where k4: "on_tui tui_update_input_line k = Some k4" "loose W k4"
    using fine_tui(6) [OF b(2)] loose_of_ok by (auto simp: fine_iff(1))
  have "handle_enter_key cb kb = (if blocked then Some k4 else Some k3)"
    unfolding handle_enter_key_def by (simp add: put b(1) k2(1) k3(1) k4(1))
  then show ?thesis using k3(2) k4(2) by simp
qed

text \<open>A key that puts no formatting control and no NUL into the line.\<close>

definition safe_key :: "key \<Rightarrow> bool" where
  "safe_key k \<longleftrightarrow>
     (let c = key_char (key_type k) in
      (has_mod (key_mods k) MOD_CTRL \<longrightarrow> c \<notin> {95, 66, 98, 67, 99, 73, 105, 79, 111, 82, 114}) \<and>
      (is_Unicode (key_type k) \<and> 32 \<le> c \<longrightarrow> plain_text [char_of (c mod 256)]))"

lemma snd_handled [simp]: "snd (handled kb) = kb" "snd (unhandled kb) = kb"
  by (simp_all add: handled_def unhandled_def)

lemma dispatch_ok: "kb_ok W kb \<Longrightarrow> callbacks_ok cb \<Longrightarrow> kb_ok W (snd (tui_hotkey_dispatch cb win c m kb))"
  by (auto simp: tui_hotkey_dispatch_def callbacks_ok_def split: option.splits)

lemma enter_fine:
  assumes "kb_ok W kb" and "callbacks_ok cb"
  shows "fine_key W (do { kb \<leftarrow> handle_enter_key cb kb; Some (handled (set_line blank_line kb)) })"
    and "fine_key W (do { kb \<leftarrow> handle_enter_key cb kb; kb \<leftarrow> on_line le_clear kb; Some (handled kb) })"
proof -
  obtain k where k: "handle_enter_key cb kb = Some k" "loose W k" using enter_loose [OF assms] by blast
  show "fine_key W (do { kb \<leftarrow> handle_enter_key cb kb; Some (handled (set_line blank_line kb)) })"
    using k by (simp add: loose_def)
  obtain k2 where "on_line le_clear k = Some k2" "kb_ok W k2" using loose_reset [OF k(2)] by (auto simp: fine_iff(1))
  then show "fine_key W (do { kb \<leftarrow> handle_enter_key cb kb; kb \<leftarrow> on_line le_clear kb; Some (handled kb) })"
    using k(1) by simp
qed

lemma recall_fine:
  assumes "kb_ok W kb"
  shows "fine_key W (do { r \<leftarrow> history_prev kb; kb \<leftarrow> recall le_recall r; Some (handled kb) })"
    and "fine_key W (do { r \<leftarrow> history_next kb; kb \<leftarrow> recall le_recall_next r; Some (handled kb) })"
proof -
  obtain r k where p: "history_prev kb = Some (r, k)" "kb_ok W k" "\<And>s. r = Some s \<Longrightarrow> stored_ok s"
    using kb_ok_history(1) [OF assms] by blast
  obtain k2 where "recall le_recall (r, k) = Some k2" "kb_ok W k2" using kb_ok_recall(1) [OF p(2,3)] by blast
  then show "fine_key W (do { r \<leftarrow> history_prev kb; kb \<leftarrow> recall le_recall r; Some (handled kb) })" using p(1) by simp
next
  obtain r k where p: "history_next kb = Some (r, k)" "kb_ok W k" "\<And>s. r = Some s \<Longrightarrow> stored_ok s"
    using kb_ok_history(2) [OF assms] by blast
  obtain k2 where "recall le_recall_next (r, k) = Some k2" "kb_ok W k2" using kb_ok_recall(2) [OF p(2,3)] by blast
  then show "fine_key W (do { r \<leftarrow> history_next kb; kb \<leftarrow> recall le_recall_next r; Some (handled kb) })" using p(1) by simp
qed

lemma fine_if: "(b \<Longrightarrow> fine_key W x) \<Longrightarrow> (\<not> b \<Longrightarrow> fine_key W y) \<Longrightarrow> fine_key W (if b then x else y)"
  by simp

lemma complete_fine: "kb_ok W kb \<Longrightarrow> callbacks_ok cb \<Longrightarrow> fine_key W (cb_complete cb win kb)"
proof -
  assume "kb_ok W kb" "callbacks_ok cb"
  then have "\<exists>r. cb_complete cb win kb = Some r \<and> kb_ok W (snd r)" unfolding callbacks_ok_def by blast
  then show ?thesis by auto
qed

lemma special_key_fine:
  assumes "kb_ok W kb" and "callbacks_ok cb"
  shows "fine_key W (special_key cb win n m kb)"
  unfolding special_key_def
  by (intro fine_if enter_fine recall_fine complete_fine assms)
    (simp_all add: assms dispatch_ok fine_tui kb_ok_moves)

lemma insert_control_unused: "kb_ok W kb \<Longrightarrow> plain_text [c] \<Longrightarrow> fine_key W (insert_control c kb)"
  by (simp add: insert_control_def fine_edits)

lemma ctrl_edit_fine:
  assumes "kb_ok W kb" and "c \<notin> {95, 66, 98, 67, 99, 73, 105, 79, 111, 82, 114}"
  shows "fine_key W (ctrl_edit c kb)"
  unfolding ctrl_edit_def by (intro fine_if) (use assms in \<open>simp_all add: fine_edits kb_ok_moves\<close>)

lemma plain_edit_fine:
  assumes "kb_ok W kb" and "callbacks_ok cb"
  shows "fine_key W (plain_edit cb c m kb)"
  unfolding plain_edit_def by (intro fine_if enter_fine assms) (simp_all add: assms fine_edits fine_tui)

lemma alt_key_fine:
  assumes "kb_ok W kb" and "callbacks_ok cb"
  shows "\<exists>r. alt_key cb win cp m kb = Some r \<and> (case r of Inl kb \<Rightarrow> kb_ok W kb | Inr hk \<Rightarrow> kb_ok W (snd hk))"
proof -
  obtain d k where d: "tui_hotkey_dispatch cb win cp m kb = (d, k)" by (metis prod.collapse)
  have k: "kb_ok W k" using dispatch_ok [OF assms, of win cp m] unfolding d by simp
  consider "d" | "\<not> d" "window_key cp = None" | i where "\<not> d" "window_key cp = Some i" by (cases "window_key cp") blast+
  then show ?thesis
  proof cases
    case 1
    then show ?thesis using d k by (simp add: alt_key_def)
  next
    case 2
    then show ?thesis using d k by (simp add: alt_key_def)
  next
    case 3
    have "tui_ok (kb_tui k)" using k by (simp add: kb_ok_def)
    then obtain r t where t: "tui_window_focus_id (11 + int i) (kb_tui k) = Some (r, t)" "tui_ok t" "same_keys (kb_tui k) t"
      using ok_focus_id by blast
    from ok_redraw [OF t(2)] obtain t' where t': "tui_redraw_screen t = Some t'" "tui_ok t'" "same_windows t t'" by blast
    have "kb_ok W (set_tui t' k)" by (rule kb_ok_tui [OF k t'(2) same_keys_trans [OF t(3) same_windows_keys [OF t'(3)]]])
    then show ?thesis using d 3 t(1) t'(1) by (simp add: alt_key_def)
  qed
qed

text \<open>The window that the key belongs to must not have been closed.\<close>

lemma edit_key_fine:
  assumes "kb_ok W (snd hk)" and "callbacks_ok cb" and "safe_key k" and "win \<in> W"
  shows "fine W (edit_key cb win k hk)"
proof -
  obtain h kb where hk: "hk = (h, kb)" by (cases hk)
  let ?c = "key_char (key_type k)" and ?m = "key_mods k"
  have kb: "kb_ok W kb" using assms(1) hk by simp
  then have "win \<in> window_ids (kb_tui kb)" using assms(4) by (auto simp: kb_ok_def)
  then obtain w where w: "window_ref win (kb_tui kb) = Some w" using window_ref_ok by blast
  have c: "has_mod ?m MOD_CTRL \<Longrightarrow> ?c \<notin> {95, 66, 98, 67, 99, 73, 105, 79, 111, 82, 114}"
    and i: "is_Unicode (key_type k) \<Longrightarrow> 32 \<le> ?c \<Longrightarrow> plain_text [char_of (?c mod 256)]"
    using assms(3) by (simp_all add: safe_key_def Let_def)
  have s1: "fine_key W (if \<not> h \<and> has_mod ?m MOD_CTRL then ctrl_edit ?c kb else Some (h, kb))"
    using ctrl_edit_fine [OF kb c] kb by (simp del: insert_iff)
  have s2: "fine_key W (if \<not> h' then plain_edit cb ?c ?m kb' else Some (h', kb'))" if "kb_ok W kb'" for h' kb'
    using plain_edit_fine [OF that assms(2)] that by simp
  have s3: "fine_key W (if \<not> h' \<and> is_Unicode (key_type k) \<and> ?c \<ge> 32
      then map_option handled (on_line (le_insert (char_of (?c mod 256))) kb') else Some (h', kb'))" if "kb_ok W kb'" for h' kb'
    using fine_edits(6) [OF that i] that by simp
  have s4: "fine W (if h' then on_tui tui_update_input_line kb' else Some kb')" if "kb_ok W kb'" for h' kb'
    using fine_tui(6) [OF that] that by simp
  have "fine W (Option.bind (if \<not> h \<and> has_mod ?m MOD_CTRL then ctrl_edit ?c kb else Some (h, kb))
    (\<lambda>(h, kb). Option.bind (if \<not> h then plain_edit cb ?c ?m kb else Some (h, kb))
    (\<lambda>(h, kb). Option.bind (if \<not> h \<and> is_Unicode (key_type k) \<and> ?c \<ge> 32
        then map_option handled (on_line (le_insert (char_of (?c mod 256))) kb) else Some (h, kb))
    (\<lambda>(h, kb). if h then on_tui tui_update_input_line kb else Some kb))))"
    by (rule fine_bind_key [OF s1], unfold prod.case, rule fine_bind_key [OF s2], assumption,
        unfold prod.case, rule fine_bind_key [OF s3], assumption, unfold prod.case, rule s4)
  moreover have "fine W (Some kb)" using kb by simp
  ultimately show ?thesis unfolding hk edit_key_def prod.case Let_def w Option.bind.simps
    by (rule if_split [THEN iffD2, OF conjI [OF impI impI], rotated])
qed

text \<open>Otherwise the key has no defined result: the window is read after it was freed.\<close>

lemma closed_window_undefined: "win \<notin> window_ids (kb_tui kb) \<Longrightarrow> edit_key cb win k (h, kb) = None"
  by (simp add: edit_key_def window_ref_gone)

lemma kb_ok_request: "kb_ok W kb \<Longrightarrow> kb_ok W (request_redraw kb)"
  by (simp add: request_redraw_def kb_ok_def set_tui_def tui_redraw_request_def window_ids_def tui_keys_def)

lemma hotkeys_ok_kb:
  assumes "kb_ok W kb" and "callbacks_ok cb"
  shows "kb_ok W (snd (ctrl_tab cb win k kb))" "kb_ok W (snd (ctrl_space cb win k kb))"
  using assms dispatch_ok by (simp_all add: ctrl_tab_def ctrl_space_def)

lemma view_ok:
  assumes "kb_ok W kb" and "callbacks_ok cb" and "win \<in> W"
  shows "\<exists>used kb'. view_key cb win k kb = Some (used, kb') \<and> kb_ok (if used then {} else W) kb'"
    and "fine {} (mouse_key cb win k kb)"
proof -
  have "win \<in> window_ids (kb_tui kb)" using assms(1,3) by (auto simp: kb_ok_def)
  then obtain w where w: "window_ref win (kb_tui kb) = Some w" using window_ref_ok by blast
  have cbs: "cb_view_key cb w = Some f \<Longrightarrow> kb_ok (if fst (f key m kb) then {} else W) (snd (f key m kb))"
    "cb_view_mouse cb w = Some g \<Longrightarrow> kb_ok {} (snd (g k kb))" for f g key m
    using assms(1,2) unfolding callbacks_ok_def by blast+
  show "\<exists>used kb'. view_key cb win k kb = Some (used, kb') \<and> kb_ok (if used then {} else W) kb'"
  proof (cases "cb_view_key cb w")
    case (Some f)
    let ?c = "case key_type k of Unicode cp \<Rightarrow> cp | Keysym ks \<Rightarrow> ks | _ \<Rightarrow> 0"
    obtain used k2 where f: "f ?c (key_mods k) kb = (used, k2)" by (cases "f ?c (key_mods k) kb")
    then have "kb_ok (if used then {} else W) k2" using cbs(1) [OF Some, of ?c "key_mods k"] by simp
    then show ?thesis using w Some f assms(1) by (cases "has_mod (key_mods k) MOD_ALT") (auto simp: view_key_def)
  qed (use w assms(1) in \<open>auto simp: view_key_def\<close>)
  show "fine {} (mouse_key cb win k kb)"
  proof (cases "cb_view_mouse cb w")
    case (Some g)
    obtain used k2 where g: "g k kb = (used, k2)" by (cases "g k kb")
    then have "kb_ok {} k2" using cbs(2) [OF Some] by simp
    then show ?thesis using w Some g kb_ok_request by (simp add: mouse_key_def)
  qed (use w assms(1) kb_ok_none in \<open>simp add: mouse_key_def\<close>)
qed

lemma key_rest_fine:
  assumes "kb_ok W (snd hk)" and "callbacks_ok cb" and "safe_key k" and "win \<in> W"
  shows "fine W (key_rest cb win k hk)"
proof -
  let ?m = "key_mods k"
  have "fine_key W (case key_type k of Keysym ks \<Rightarrow> special_key cb win ks ?m (snd hk) | _ \<Rightarrow> Some hk)"
    using special_key_fine [OF assms(1,2)] assms(1) by (simp split: key_code.split)
  then obtain h kb where s: "(case key_type k of Keysym ks \<Rightarrow> special_key cb win ks ?m (snd hk) | _ \<Rightarrow> Some hk) = Some (h, kb)"
    "kb_ok W kb" by (auto simp: fine_iff)
  obtain r where r: "(case key_type k of
      Unicode cp \<Rightarrow> if \<not> h \<and> has_mod ?m MOD_ALT then alt_key cb win cp ?m kb else Some (Inr (h, kb))
    | _ \<Rightarrow> Some (Inr (h, kb))) = Some r" "case r of Inl kb \<Rightarrow> kb_ok W kb | Inr hk \<Rightarrow> kb_ok W (snd hk)"
  proof (cases "\<exists>cp. key_type k = Unicode cp \<and> \<not> h \<and> has_mod ?m MOD_ALT")
    case True
    then obtain cp where cp: "key_type k = Unicode cp" "\<not> h" "has_mod ?m MOD_ALT" by blast
    then show ?thesis using alt_key_fine [OF s(2) assms(2), of win cp ?m] that by auto
  next
    case False
    then show ?thesis using s(2) that [of "Inr (h, kb)"] by (auto split: key_code.split)
  qed
  have "key_rest cb win k hk = (case r of Inl kb \<Rightarrow> Some kb | Inr hk \<Rightarrow> edit_key cb win k hk)"
    unfolding key_rest_def s(1) Option.bind.simps prod.case r(1) ..
  then show ?thesis using r(2) edit_key_fine [OF _ assms(2-4)] by (cases r) simp_all
qed

lemma key_step_fine:
  assumes "kb_ok W kb" and "callbacks_ok cb" and "safe_key k"
  shows "fine {} (key_step cb k kb)"
proof -
  let ?t = "kb_tui kb"
  let ?i = "tui_active_win ?t"
  let ?w = "tui_windows ?t ! ?i"
  let ?win = "tw_id ?w"
  have act: "tui_active_window ?t = Some (?i, ?t)" "?i < length (tui_windows ?t)"
    using assms(1) ok_active by (simp_all add: kb_ok_def)
  then have "?win \<in> window_ids ?t" by (simp add: window_ids_def tui_keys_def key_of_def)
  then have kb: "kb_ok {?win} kb" using kb_ok_sub [OF assms(1)] by simp
  obtain tab k2 where 2: "ctrl_tab cb ?win k kb = (tab, k2)" "kb_ok {?win} k2"
    using hotkeys_ok_kb(1) [OF kb assms(2)] by (metis prod.collapse)
  obtain used k3 where 3: "view_key cb ?win k k2 = Some (used, k3)" "kb_ok (if used then {} else {?win}) k3"
    using view_ok(1) [OF 2(2) assms(2) singletonI] by blast
  have mouse: "fine {} (mouse_key cb ?win k k2)" by (rule view_ok(2) [OF 2(2) assms(2) singletonI])
  have rest: "fine {} (key_rest cb ?win k (ctrl_space cb ?win k k3))" if "\<not> used"
  proof -
    have "kb_ok {?win} k3" using 3(2) that by simp
    from key_rest_fine [OF hotkeys_ok_kb(2) [OF this assms(2), of ?win k] assms(2,3) singletonI] show ?thesis
      using kb_ok_none by (auto simp: fine_iff(1))
  qed
  have "kb_ok {} (request_redraw k2)" "used \<Longrightarrow> kb_ok {} (request_redraw k3)"
    using kb_ok_request [OF kb_ok_none [OF 2(2)]] kb_ok_request [of "{}" k3] 3(2) by simp_all
  then show ?thesis
    using mouse rest unfolding key_step_def act(1) Option.bind.simps prod.case window_at_nth [OF act(2)] set_tui_id Let_def 2(1) 3(1)
    by simp
qed


definition no_callbacks :: callbacks where
  "no_callbacks = \<lparr>cb_hotkey = \<lambda>f win key m user kb. (False, kb), cb_view_key = \<lambda>w. None, cb_view_mouse = \<lambda>w. None,
     cb_complete = \<lambda>win kb. Some (False, kb), cb_blocked = None, cb_readline = Some (\<lambda>s kb. kb)\<rparr>"

definition keys_start :: keyboard where
  "keys_start = \<lparr>kb_tui = tui_start, kb_history = [], kb_index = -1, kb_shared = True,
     kb_hotkeys = replicate TUI_HOTKEY_MAX no_hotkey, kb_tk = True\<rparr>"

lemma keys_start_ok: "kb_ok {} keys_start"
  using tui_start_ok good_blank by (simp add: kb_ok_def keys_start_def tui_start_def)


subsection \<open>Where the handler fails\<close>

text \<open>After an error the key structure is used although nothing was decoded.\<close>

lemma error_key_undefined: "stdin_ev_cb cb (ResError NULL # rs) kb = None"
  by simp

text \<open>A callback that ends the interface: the loop asks the terminal library that was destroyed.\<close>

lemma closed_library_undefined: "\<not> kb_tk kb \<Longrightarrow> stdin_ev_cb cb rs kb = None"
  by (cases rs) simp_all

text \<open>A callback that closes the window the key belongs to: the handler reads the freed window. This is
  so for a line that is submitted, and for a hotkey that reports that it has handled the key.\<close>

lemma closing_submit_undefined:
  assumes "handle_enter_key cb kb = Some kb'" and "win \<notin> window_ids (kb_tui kb')"
  shows "key_rest cb win \<lparr>key_type = Keysym 3, key_mods = 0\<rparr> (h, kb) = None"
  using assms closed_window_undefined [of win "set_line blank_line kb'"]
  by (simp add: key_rest_def special_key_def has_mod_def handled_def set_line_def)

lemma destroy_frees:
  assumes "tui_ok t" and "d < length (tui_windows t)" and "\<not> strcasecmp_eq (tw_title (tui_windows t ! d)) ''status''"
  shows "\<exists>t'. tui_window_destroy (Some (tui_windows t ! d)) t = Some (False, t') \<and> tw_id (tui_windows t ! d) \<notin> window_ids t'"
proof -
  from ok_destroy [OF assms] obtain t1 t' where r: "tui_window_destroy (Some (tui_windows t ! d)) t = Some (False, t')"
    and s: "same_windows t t1" and w: "tui_windows t' = take d (tui_windows t1) @ drop (Suc d) (tui_windows t1)"
    by (auto simp: Let_def)
  let ?ids = "map fst (tui_keys t)"
  have "map fst (tui_keys t') = take d ?ids @ drop (Suc d) ?ids"
    using s unfolding tui_keys_def w same_windows_def by (simp add: take_map [symmetric] drop_map [symmetric])
  moreover have "distinct ?ids" "d < length ?ids" using assms(1,2) by (simp_all add: tui_ok_def keys_ok_def)
  then have "?ids ! d \<notin> set (take d ?ids @ drop (Suc d) ?ids)"
    by (metis distinct.simps(2) distinct_append id_take_nth_drop in_set_conv_decomp not_distinct_conv_prefix set_append Un_iff)
  moreover have "?ids ! d = tw_id (tui_windows t ! d)" using assms(2) by (simp add: tui_keys_def key_of_def)
  ultimately have "tw_id (tui_windows t ! d) \<notin> window_ids t'" unfolding window_ids_def by (simp only: not_False_eq_True)
  then show ?thesis using r by blast
qed

definition closing_hotkey :: callbacks where
  "closing_hotkey = no_callbacks\<lparr>cb_hotkey := \<lambda>f win key m user kb.
     (case do { w \<leftarrow> window_ref win (kb_tui kb); tui_window_destroy (Some w) (kb_tui kb) } of
        None \<Rightarrow> (False, kb)
      | Some (r, t) \<Rightarrow> (True, set_tui t kb))\<rparr>"

lemma closing_hotkey_undefined:
  assumes "tui_ok (kb_tui kb)" and "window_index win (kb_tui kb) = Some d"
    and "\<not> strcasecmp_eq (tw_title (tui_windows (kb_tui kb) ! d)) ''status''"
    and "hotkey_for 3 MOD_ALT (kb_hotkeys kb) = Some hk"
  shows "key_rest closing_hotkey win \<lparr>key_type = Keysym 3, key_mods = MOD_ALT\<rparr> (h, kb) = None"
proof -
  let ?t = "kb_tui kb"
  have d: "d < length (tui_windows ?t)" "tw_id (tui_windows ?t ! d) = win"
    using index_of_Some assms(2) unfolding window_index_def by blast+
  obtain t' where t': "tui_window_destroy (Some (tui_windows ?t ! d)) ?t = Some (False, t')" "win \<notin> window_ids t'"
    using destroy_frees [OF assms(1) d(1) assms(3)] d(2) by auto
  have "window_ref win ?t = Some (tui_windows ?t ! d)" using assms(2) d(1) by (simp add: window_ref_def)
  then have "tui_hotkey_dispatch closing_hotkey win 3 MOD_ALT kb = (True, set_tui t' kb)"
    using t'(1) assms(4) by (simp add: tui_hotkey_dispatch_def closing_hotkey_def)
  then show ?thesis using t'(2) closed_window_undefined [of win "set_tui t' kb"]
    by (simp add: key_rest_def special_key_def has_mod_def set_tui_def)
qed

subsection \<open>Browsing the history\<close>

text \<open>What the \<open>n\<close>-th press of the Up key recalls.\<close>

primrec browse :: "nat \<Rightarrow> keyboard \<Rightarrow> (string ptr \<times> keyboard) comp" where
  "browse 0 kb = Some (NULL, kb)"
| "browse (Suc n) kb = do { r \<leftarrow> browse n kb; history_prev (snd r) }"

lemma shared_history_at:
  "tui_ok (kb_tui kb) \<Longrightarrow> kb_shared kb \<Longrightarrow> active_history (kb\<lparr>kb_index := i\<rparr>) = Some (kb_history kb, i, NULL, kb\<lparr>kb_index := i\<rparr>)"
  using shared_history [of "kb\<lparr>kb_index := i\<rparr>"] by simp

lemma prev_at:
  assumes "tui_ok (kb_tui kb)" and "kb_shared kb" and "kb_history kb \<noteq> []" and "i \<le> length (kb_history kb)"
  shows "history_prev (kb\<lparr>kb_index := int i\<rparr>) = Some (Some (kb_history kb ! (i - 1)), kb\<lparr>kb_index := int (i - 1)\<rparr>)"
proof (cases i)
  case 0
  then show ?thesis using assms(3) shared_history_at [OF assms(1,2)]
    by (simp add: history_prev_def prev_index_def history_at_def put_history_def)
next
  case (Suc m)
  then have "prev_index (length (kb_history kb)) (int i) = int m" by (simp add: prev_index_def)
  moreover have "history_at (kb_history kb) (int m) = Some (kb_history kb ! m)" using Suc assms(4) by (simp add: history_at_def)
  ultimately show ?thesis using Suc assms(3) shared_history_at [OF assms(1,2)]
    by (simp add: history_prev_def put_history_def)
qed

lemma browse_index:
  assumes "tui_ok (kb_tui kb)" and "kb_shared kb" and "kb_history kb \<noteq> []" and "kb_index kb = int (length (kb_history kb))"
  shows "browse (Suc n) kb =
    Some (Some (kb_history kb ! (length (kb_history kb) - Suc n)), kb\<lparr>kb_index := int (length (kb_history kb) - Suc n)\<rparr>)"
proof (induction n)
  case 0
  have "kb\<lparr>kb_index := int (length (kb_history kb))\<rparr> = kb" using assms(4) by (cases kb) simp
  then show ?case using prev_at [OF assms(1-3) order.refl] by simp
next
  case (Suc n)
  have "browse (Suc (Suc n)) kb = history_prev (kb\<lparr>kb_index := int (length (kb_history kb) - Suc n)\<rparr>)"
    unfolding browse.simps(2) [of "Suc n"] Suc.IH by simp
  moreover have "length (kb_history kb) - Suc n - 1 = length (kb_history kb) - Suc (Suc n)" by simp
  ultimately show ?case using prev_at [OF assms(1-3), of "length (kb_history kb) - Suc n"] by (simp only: diff_le_self)
qed

text \<open>C34: the history keeps the last fifty lines, each cut to the length of the input buffer, and the Up
  key walks from the newest to the oldest, where it stays; for the shared history, with memory that
  suffices.\<close>

theorem history_recalls_newest_first:
  assumes "tui_ok (kb_tui kb)" and "kb_shared kb" and "s \<noteq> []" and "length (kb_history kb) \<le> HISTORY_LINES"
  shows "\<exists>k. history_add (Some s) kb = Some k \<and> length (kb_history k) \<le> HISTORY_LINES \<and>
    rev (kb_history k) = take HISTORY_LINES (take 511 s # rev (kb_history kb)) \<and>
    (\<forall>n. map_option fst (browse (Suc n) k) = Some (Some (rev (kb_history k) ! min n (length (kb_history k) - 1))))"
proof -
  define h where "h = (if length (kb_history kb) \<ge> HISTORY_LINES then tl (kb_history kb) else kb_history kb) @ [take 511 s]"
  define k where "k = kb\<lparr>kb_history := h, kb_index := int (length h)\<rparr>"
  have add: "history_add (Some s) kb = Some k"
    using shared_history_add [OF assms(1-3)] by (simp add: k_def h_def Let_def)
  have k: "tui_ok (kb_tui k)" "kb_shared k" using assms(1,2) by (simp_all add: k_def)
  have len: "length h \<le> HISTORY_LINES" using assms(4) by (simp add: h_def)
  have "rev h = take HISTORY_LINES (take 511 s # rev (kb_history kb))"
  proof (cases "length (kb_history kb) \<ge> HISTORY_LINES")
    case True
    then have l: "length (kb_history kb) = HISTORY_LINES" using assms(4) by simp
    then have "rev (tl (kb_history kb)) = take 49 (rev (kb_history kb))" by (simp add: take_rev drop_Suc)
    then show ?thesis using True by (simp add: h_def)
  next
    case False
    then show ?thesis by (simp add: h_def)
  qed
  moreover have "map_option fst (browse (Suc n) k) = Some (Some (rev h ! min n (length h - 1)))" for n
  proof -
    have "h \<noteq> []" by (simp add: h_def)
    then have "rev h ! min n (length h - 1) = h ! (length h - Suc n)"
      by (cases "n < length h") (simp_all add: rev_nth min_absorb1 min_absorb2)
    then show ?thesis using browse_index [OF k, of n] by (simp add: k_def h_def del: browse.simps)
  qed
  ultimately show ?thesis using add len by (auto simp: k_def)
qed

text \<open>Alt and the right arrow switch the window and submit the line that was typed: the code of the
  symbol is that of a newline, and switching the window does not count as handling the key.\<close>

lemma alt_right_submits:
  assumes "kb_ok {win} kb" and "\<And>k w. on_tui handle_alt_right kb = Some k \<Longrightarrow> window_ref win (kb_tui k) = Some w \<Longrightarrow> \<not> tw_view_draw w"
  shows "key_rest cb win \<lparr>key_type = Keysym 10, key_mods = MOD_ALT\<rparr> (False, kb) =
    do { kb \<leftarrow> on_tui handle_alt_right kb; kb \<leftarrow> handle_enter_key cb kb; kb \<leftarrow> on_line le_clear kb; on_tui tui_update_input_line kb }"
proof -
  obtain k where k: "on_tui handle_alt_right kb = Some k" "kb_ok {win} k" using fine_tui(4) [OF assms(1)] by (auto simp: fine_iff)
  then have "win \<in> window_ids (kb_tui k)" by (simp add: kb_ok_def)
  then obtain w where w: "window_ref win (kb_tui k) = Some w" using window_ref_ok by blast
  have "\<not> tw_view_draw w" by (rule assms(2) [OF k(1) w])
  with k w show ?thesis
    by (simp add: key_rest_def special_key_def has_mod_def edit_key_def key_char_def plain_edit_def handled_def unhandled_def
        split: option.split)
qed

definition key_of_char :: "char \<Rightarrow> key_result" where
  "key_of_char c = ResKey \<lparr>key_type = Unicode (of_char c), key_mods = 0\<rparr>"

theorem history_recalls_newest_first_witness:
  "\<exists>k. history_add (Some ''/join #rig'') (keys_start\<lparr>kb_history := [''hello'']\<rparr>) = Some k \<and> length (kb_history k) \<le> HISTORY_LINES \<and>
    rev (kb_history k) = take HISTORY_LINES (take 511 ''/join #rig'' # rev (kb_history (keys_start\<lparr>kb_history := [''hello'']\<rparr>))) \<and>
    (\<forall>n. map_option fst (browse (Suc n) k) = Some (Some (rev (kb_history k) ! min n (length (kb_history k) - 1))))"
  by (rule history_recalls_newest_first) (simp_all add: keys_start_def tui_start_ok)

subsection \<open>The table of hotkeys as a map\<close>

text \<open>What is bound to a key with modifiers, and a table that binds each of them at most once.\<close>

definition entries :: "hotkey list \<Rightarrow> ((nat \<times> u32) \<times> nat \<times> nat) list" where
  "entries hs =
     map (\<lambda>h. ((hk_key h, hk_mods h), the (hk_callback h), hk_user h)) (filter (\<lambda>h. hk_callback h \<noteq> NULL) hs)"

definition bound :: "hotkey list \<Rightarrow> nat \<times> u32 \<rightharpoonup> nat \<times> nat" where
  "bound hs = map_of (entries hs)"

definition hotkeys_ok :: "hotkey list \<Rightarrow> bool" where
  "hotkeys_ok hs \<longleftrightarrow> length hs = TUI_HOTKEY_MAX \<and> distinct (map fst (entries hs))"

lemma entries_simps [simp]:
  "entries [] = []" "entries (xs @ ys) = entries xs @ entries ys"
  "entries (h # hs) = (if hk_callback h = NULL then entries hs
     else ((hk_key h, hk_mods h), the (hk_callback h), hk_user h) # entries hs)"
  by (simp_all add: entries_def)

lemma map_of_middle: "k \<notin> fst ` set xs \<Longrightarrow> map_of (xs @ (k, v) # ys) = (map_of (xs @ ys))(k \<mapsto> v)"
  by (induction xs) (auto simp: fun_upd_twist)

lemma map_of_gone:
  assumes "k \<notin> fst ` set xs" and "k \<notin> fst ` set ys"
  shows "(map_of (xs @ (k, v) # ys))(k := None) = map_of (xs @ ys)"
proof -
  have "map_of (xs @ ys) k = None" using assms by (simp only: map_of_eq_None_iff set_append image_Un Un_iff simp_thms)
  then show ?thesis unfolding map_of_middle [OF assms(1)] by (simp only: fun_upd_upd fun_upd_idem)
qed

lemma card_bound: "hotkeys_ok hs \<Longrightarrow> card (dom (bound hs)) = length (entries hs)"
  unfolding bound_def dom_map_of_conv_image_fst hotkeys_ok_def
  by (metis distinct_card length_map list.set_map)

lemma entry_in: "h \<in> set hs \<Longrightarrow> hk_callback h = Some f \<Longrightarrow> ((hk_key h, hk_mods h), f, hk_user h) \<in> set (entries hs)"
  by (force simp: entries_def)

lemma entries_full: "length (entries hs) = length hs \<longleftrightarrow> list_all (\<lambda>h. hk_callback h \<noteq> NULL) hs"
proof (induction hs)
  case (Cons h hs)
  have "length (entries hs) \<le> length hs" by (simp add: entries_def)
  then show ?case using Cons by auto
qed simp

lemma bound_key:
  assumes "hotkeys_ok hs"
  shows "bound hs (key, m) = Some (f, u) \<longleftrightarrow>
    (\<exists>h \<in> set hs. hk_callback h = Some f \<and> hk_user h = u \<and> hk_key h = key \<and> hk_mods h = m)"
proof -
  have "bound hs (key, m) = Some (f, u) \<longleftrightarrow> ((key, m), f, u) \<in> set (entries hs)"
    unfolding bound_def using assms by (intro map_of_eq_Some_iff) (simp add: hotkeys_ok_def)
  then show ?thesis by (auto simp: entries_def)
qed

lemma split_at: "i < length hs \<Longrightarrow> hs = take i hs @ hs ! i # drop (Suc i) hs \<and> hs[i := b] = take i hs @ b # drop (Suc i) hs"
  using id_take_nth_drop upd_conv_take_nth_drop by metis

lemma register_at:
  assumes "hotkeys_ok (xs @ h # ys)" and "hk_callback b = Some f"
    and "hk_callback h \<noteq> NULL \<and> hk_key h = hk_key b \<and> hk_mods h = hk_mods b \<or>
      hk_callback h = NULL \<and> bound (xs @ h # ys) (hk_key b, hk_mods b) = None"
  shows "hotkeys_ok (xs @ b # ys) \<and> bound (xs @ b # ys) = (bound (xs @ h # ys))((hk_key b, hk_mods b) \<mapsto> (f, hk_user b))"
proof -
  let ?k = "(hk_key b, hk_mods b)"
  have d: "distinct (map fst (entries xs @ entries ys))" and len: "length (xs @ b # ys) = TUI_HOTKEY_MAX"
    and k: "?k \<notin> fst ` set (entries xs)" "?k \<notin> fst ` set (entries ys)"
    using assms by (auto simp: hotkeys_ok_def bound_def map_of_eq_None_iff map_add_None split: if_splits)
  from d k have "hotkeys_ok (xs @ b # ys)" using len assms(2) by (auto simp: hotkeys_ok_def)
  moreover have "bound (xs @ b # ys) = (bound (xs @ h # ys))(?k \<mapsto> (f, hk_user b))"
  proof (cases "hk_callback h")
    case None
    then show ?thesis using assms(2) k(1) by (simp add: bound_def map_of_middle del: map_of_append)
  next
    case (Some g)
    then have "hk_key h = hk_key b" "hk_mods h = hk_mods b" using assms(3) by auto
    then show ?thesis using Some assms(2) k(1) by (simp add: bound_def map_of_middle del: map_of_append)
  qed
  ultimately show ?thesis ..
qed

lemma unregister_at:
  assumes "hotkeys_ok (xs @ h # ys)" and "hk_callback h = Some f"
  shows "hotkeys_ok (xs @ h\<lparr>hk_callback := NULL\<rparr> # ys) \<and>
    bound (xs @ h\<lparr>hk_callback := NULL\<rparr> # ys) = (bound (xs @ h # ys))((hk_key h, hk_mods h) := None)"
  using assms by (auto simp: hotkeys_ok_def bound_def map_of_gone simp del: map_of_append fun_upd_apply)

lemma hotkeys_map:
  assumes "hotkeys_ok hs"
  shows "\<exists>hs'. tui_hotkey_register key m (Some f) u hs = (bound hs (key, m) \<noteq> None \<or> card (dom (bound hs)) < TUI_HOTKEY_MAX, hs') \<and>
      hotkeys_ok hs' \<and>
      bound hs' = (if bound hs (key, m) \<noteq> None \<or> card (dom (bound hs)) < TUI_HOTKEY_MAX
        then (bound hs)((key, m) \<mapsto> (f, u)) else bound hs)"
    and "\<exists>hs'. tui_hotkey_unregister key m (Some f) u hs = (bound hs (key, m) = Some (f, u), hs') \<and> hotkeys_ok hs' \<and>
      bound hs' = (if bound hs (key, m) = Some (f, u) then (bound hs)((key, m) := None) else bound hs)"
proof -
  let ?b = "\<lparr>hk_key = key, hk_mods = m, hk_callback = Some f, hk_user = u\<rparr>"
  let ?P = "\<lambda>h. hk_callback h \<noteq> NULL \<and> hk_key h = key \<and> hk_mods h = m"
  have len: "length hs = TUI_HOTKEY_MAX" using assms by (simp add: hotkeys_ok_def)
  have at: "hotkeys_ok (hs[i := ?b]) \<and> bound (hs[i := ?b]) = (bound hs)((key, m) \<mapsto> (f, u))"
    if "i < length hs" and "?P (hs ! i) \<or> hk_callback (hs ! i) = NULL \<and> bound hs (key, m) = None" for i
    using register_at [of "take i hs" "hs ! i" "drop (Suc i) hs" ?b f] split_at [OF that(1), of ?b] that(2) assms by simp
  show "\<exists>hs'. tui_hotkey_register key m (Some f) u hs = (bound hs (key, m) \<noteq> None \<or> card (dom (bound hs)) < TUI_HOTKEY_MAX, hs') \<and>
      hotkeys_ok hs' \<and>
      bound hs' = (if bound hs (key, m) \<noteq> None \<or> card (dom (bound hs)) < TUI_HOTKEY_MAX
        then (bound hs)((key, m) \<mapsto> (f, u)) else bound hs)"
  proof (cases "index_of ?P hs")
    case (Some i)
    then have i: "i < length hs" "?P (hs ! i)" using index_of_Some by blast+
    then obtain g where "hk_callback (hs ! i) = Some g" by auto
    then have "bound hs (key, m) = Some (g, hk_user (hs ! i))" using i bound_key [OF assms] nth_mem by blast
    then show ?thesis using at [OF i(1)] i(2) Some by (simp add: tui_hotkey_register_def)
  next
    case None
    then have no: "\<not> ?P h" if "h \<in> set hs" for h using that by (simp add: index_of_None list_all_iff)
    have n: "bound hs (key, m) = None"
    proof (rule ccontr)
      assume "bound hs (key, m) \<noteq> None"
      then obtain g v where "bound hs (key, m) = Some (g, v)" by auto
      then obtain h where "h \<in> set hs" "?P h" using bound_key [OF assms] by auto
      then show False using no by blast
    qed
    show ?thesis
    proof (cases "index_of (\<lambda>h. hk_callback h = NULL) hs")
      case (Some i)
      then have i: "i < length hs" "hk_callback (hs ! i) = NULL" using index_of_Some by blast+
      then have "length (entries hs) \<noteq> length hs" using entries_full [of hs] by (auto simp: list_all_length)
      moreover have "length (entries hs) \<le> length hs" by (simp add: entries_def)
      ultimately have "card (dom (bound hs)) < TUI_HOTKEY_MAX" using card_bound [OF assms] len by simp
      then show ?thesis using at [OF i(1)] i(2) n Some None by (simp add: tui_hotkey_register_def)
    next
      case full: None
      then have "length (entries hs) = length hs" using entries_full [of hs] by (simp add: index_of_None)
      then show ?thesis using card_bound [OF assms] len n None full assms by (simp add: tui_hotkey_register_def)
    qed
  qed
  let ?Q = "\<lambda>h. hk_callback h = Some f \<and> hk_user h = u \<and> hk_key h = key \<and> hk_mods h = m"
  show "\<exists>hs'. tui_hotkey_unregister key m (Some f) u hs = (bound hs (key, m) = Some (f, u), hs') \<and> hotkeys_ok hs' \<and>
      bound hs' = (if bound hs (key, m) = Some (f, u) then (bound hs)((key, m) := None) else bound hs)"
  proof (cases "index_of ?Q hs")
    case (Some i)
    then have i: "i < length hs" "?Q (hs ! i)" using index_of_Some by blast+
    then have "bound hs (key, m) = Some (f, u)" using bound_key [OF assms] nth_mem by blast
    then show ?thesis
      using Some i unregister_at [of "take i hs" "hs ! i" "drop (Suc i) hs" f] split_at [OF i(1)] assms
      by (simp add: tui_hotkey_unregister_def)
  next
    case None
    then have "bound hs (key, m) \<noteq> Some (f, u)" using bound_key [OF assms] by (auto simp: index_of_None list_all_iff)
    then show ?thesis using None assms by (simp add: tui_hotkey_unregister_def)
  qed
qed

text \<open>The table of hotkeys is a map of at most 32 entries: registering a callback for a key and its
  modifiers binds it, replacing an earlier one, unless the key is new and the table is full;
  unregistering removes a binding exactly when it is the one named.\<close>

theorem hotkeys_refine_map:
  assumes "hotkeys_ok hs"
  shows "(let free = bound hs (key, m) \<noteq> None \<or> card (dom (bound hs)) < TUI_HOTKEY_MAX;
        (ok, hs') = tui_hotkey_register key m (Some f) u hs in
      ok = free \<and> hotkeys_ok hs' \<and> bound hs' = (if free then (bound hs)((key, m) \<mapsto> (f, u)) else bound hs)) \<and>
    (let named = (bound hs (key, m) = Some (f, u)); (ok, hs') = tui_hotkey_unregister key m (Some f) u hs in
      ok = named \<and> hotkeys_ok hs' \<and> bound hs' = (if named then (bound hs)((key, m) := None) else bound hs))"
  using hotkeys_map(1) [OF assms, of key m f u] hotkeys_map(2) [OF assms, of key m f u] unfolding Let_def by auto

theorem hotkeys_refine_map_witness:
  "(let free = bound (replicate 32 no_hotkey) (9, MOD_CTRL) \<noteq> None \<or> card (dom (bound (replicate 32 no_hotkey))) < TUI_HOTKEY_MAX;
        (ok, hs') = tui_hotkey_register 9 MOD_CTRL (Some 7) 0 (replicate 32 no_hotkey) in
      ok = free \<and> hotkeys_ok hs' \<and>
      bound hs' = (if free then (bound (replicate 32 no_hotkey))((9, MOD_CTRL) \<mapsto> (7, 0)) else bound (replicate 32 no_hotkey))) \<and>
    (let named = (bound (replicate 32 no_hotkey) (9, MOD_CTRL) = Some (7, 0));
        (ok, hs') = tui_hotkey_unregister 9 MOD_CTRL (Some 7) 0 (replicate 32 no_hotkey) in
      ok = named \<and> hotkeys_ok hs' \<and>
      bound hs' = (if named then (bound (replicate 32 no_hotkey))((9, MOD_CTRL) := None) else bound (replicate 32 no_hotkey)))"
  by (rule hotkeys_refine_map) (simp add: hotkeys_ok_def entries_def no_hotkey_def)

end
