(* ===== verification/Tui_Completion.thy ===== *)
theory Tui_Completion
  imports Tui_Window "HOL-Library.Sublist"
begin

text \<open>
  Completion of the word before the cursor (\<open>tui.completion.c\<close>): the registry of providers, the
  collection of their matches, the completion of the common beginning in the input line of
  \<open>Line_Editor\<close>, and the list of candidates that is printed into a window of \<open>Tui_Window\<close>, which is
  given by its address. The providers, the describer and the handler are callbacks of the application.
  A copy beyond the input buffer has no defined result, and neither has printing to a window that the
  handler closed.
\<close>

subsection \<open>Providers\<close>

abbreviation TUI_MAX_COMPLETION_PROVIDERS :: nat where "TUI_MAX_COMPLETION_PROVIDERS \<equiv> 8"
abbreviation TUI_MAX_COMPLETIONS_SHOWN :: nat where "TUI_MAX_COMPLETIONS_SHOWN \<equiv> 32"

text \<open>A handler may complete by itself; a describer rewrites the label of a candidate.\<close>

record completer =
  cp_providers :: "nat list"
  cp_provide :: "nat \<Rightarrow> string \<Rightarrow> string \<Rightarrow> string list ptr"
  cp_describer :: "(string \<Rightarrow> string \<Rightarrow> string \<Rightarrow> string) ptr"
  cp_handler :: "(nat \<Rightarrow> tui \<Rightarrow> bool \<times> tui) ptr"

definition tui_register_completion_provider :: "nat ptr \<Rightarrow> completer \<Rightarrow> bool \<times> completer" where
  "tui_register_completion_provider fn cp =
     (case fn of
        None \<Rightarrow> (False, cp)
      | Some f \<Rightarrow>
          if length (cp_providers cp) \<ge> TUI_MAX_COMPLETION_PROVIDERS then (False, cp)
          else if f \<in> set (cp_providers cp) then (True, cp)
          else (True, cp\<lparr>cp_providers := cp_providers cp @ [f]\<rparr>))"

definition tui_unregister_completion_provider :: "nat ptr \<Rightarrow> completer \<Rightarrow> bool \<times> completer" where
  "tui_unregister_completion_provider fn cp =
     (case fn of
        None \<Rightarrow> (False, cp)
      | Some f \<Rightarrow>
          (case index_of (\<lambda>p. p = f) (cp_providers cp) of
             None \<Rightarrow> (False, cp)
           | Some i \<Rightarrow> (True, cp\<lparr>cp_providers := take i (cp_providers cp) @ drop (Suc i) (cp_providers cp)\<rparr>)))"

text \<open>Every match needs memory; one that gets none is dropped. No match at all is \<open>NULL\<close>.\<close>

fun collect_matches :: "string list \<Rightarrow> string list ptr \<Rightarrow> alloc \<Rightarrow> string list ptr \<times> alloc" where
  "collect_matches [] ms a = (ms, a)"
| "collect_matches (s # ss) ms a =
     (let (ok, a) = malloc_ok a
      in collect_matches ss (if ok then Some ((case ms of None \<Rightarrow> [] | Some m \<Rightarrow> m) @ [s]) else ms) a)"

fun collect_loop ::
  "(nat \<Rightarrow> string \<Rightarrow> string \<Rightarrow> string list ptr) \<Rightarrow> nat list \<Rightarrow> string \<Rightarrow> string \<Rightarrow> string list ptr \<Rightarrow> alloc \<Rightarrow> string list ptr \<times> alloc" where
  "collect_loop provide [] line word ms a = (ms, a)"
| "collect_loop provide (p # ps) line word ms a =
     (case provide p line word of
        None \<Rightarrow> collect_loop provide ps line word ms a
      | Some sub \<Rightarrow> (let (ms, a) = collect_matches sub ms a in collect_loop provide ps line word ms a))"

definition completion_collect :: "completer \<Rightarrow> string \<Rightarrow> string ptr \<Rightarrow> alloc \<Rightarrow> string list ptr \<times> alloc" where
  "completion_collect cp line word a =
     (case word of None \<Rightarrow> (NULL, a) | Some w \<Rightarrow> collect_loop (cp_provide cp) (cp_providers cp) line w NULL a)"

definition completion_describe :: "completer \<Rightarrow> string \<Rightarrow> string ptr \<Rightarrow> nat \<Rightarrow> string" where
  "completion_describe cp line val capacity =
     (let out = take (capacity - 1) (case val of None \<Rightarrow> [] | Some v \<Rightarrow> v) in
      take (capacity - 1) (case (cp_describer cp, val) of (Some f, Some v) \<Rightarrow> f line v out | _ \<Rightarrow> out))"

subsection \<open>The common beginning\<close>

fun common_len :: "string \<Rightarrow> string \<Rightarrow> nat" where
  "common_len (a # as) (b # bs) = (if a = b then Suc (common_len as bs) else 0)"
| "common_len as bs = 0"

definition prefix_len :: "string list \<Rightarrow> nat" where
  "prefix_len ms = fold (\<lambda>m plen. common_len (take plen (hd ms)) m) (tl ms) (length (hd ms))"

subsection \<open>Replacing the word\<close>

definition copy_chars :: "nat \<Rightarrow> string \<Rightarrow> string \<Rightarrow> string comp" where
  "copy_chars dst s buf =
     (if dst + length s \<le> length buf then Some (take dst buf @ s @ drop (dst + length s) buf) else None)"

text \<open>\<open>pl\<close> is the length of the new text with the blank behind a single match.\<close>

definition replace_word :: "nat \<Rightarrow> nat \<Rightarrow> bool \<Rightarrow> string \<Rightarrow> input_line \<Rightarrow> input_line comp" where
  "replace_word start pl single m l =
     do {
       buf \<leftarrow> memmove (start + pl) (il_cursor l) (il_len l - il_cursor l + 1) (il_buf l);
       buf \<leftarrow> copy_chars start (take (if single then pl - 1 else pl) m) buf;
       buf \<leftarrow> (if single then put_char (start + pl - 1) (CHR '' '') buf else Some buf);
       Some \<lparr>il_buf = buf, il_len = il_len l + pl - (il_cursor l - start), il_cursor = start + pl\<rparr>
     }"

subsection \<open>Listing the candidates\<close>

definition pad_to :: "nat \<Rightarrow> string \<Rightarrow> string" where
  "pad_to n s = s @ replicate (n - length s) (CHR '' '')"

fun cells :: "string list \<Rightarrow> nat \<Rightarrow> nat \<Rightarrow> nat \<Rightarrow> nat list \<Rightarrow> string \<Rightarrow> string" where
  "cells labels maxlen rows r [] acc = acc"
| "cells labels maxlen rows r (c # cs) acc =
     (let idx = c * rows + r in
      if idx \<ge> length labels then acc
      else let acc = acc @ pad_to maxlen (labels ! idx) @ ''  '' in
        if length acc \<ge> 1023 then acc else cells labels maxlen rows r cs acc)"

definition candidate_rows :: "nat \<Rightarrow> string list \<Rightarrow> string list" where
  "candidate_rows term_cols labels =
     (let maxlen = fold max (map length labels) 0;
          cols = (if maxlen > 0 then (term_cols - 2) div (maxlen + 2) else 1);
          cols = (if cols < 1 then 1 else cols);
          rows = (length labels + cols - 1) div cols
      in map (\<lambda>r. take 1023 (cells labels maxlen rows r [0..<cols] ''  '')) [0..<rows])"

fun print_rows :: "nat \<Rightarrow> string list \<Rightarrow> tui \<Rightarrow> tui comp" where
  "print_rows win [] st = Some st"
| "print_rows win (s # ss) st = do { i \<leftarrow> window_index win st; st \<leftarrow> tui_print (Some i) s st; print_rows win ss st }"

definition list_candidates :: "completer \<Rightarrow> nat \<Rightarrow> string list \<Rightarrow> tui \<Rightarrow> tui comp" where
  "list_candidates cp win ms st =
     do {
       let labels = map (\<lambda>m. completion_describe cp (takeWhile (\<lambda>c. c \<noteq> NUL) (il_buf (tui_input st))) (Some m) 512)
             (take TUI_MAX_COMPLETIONS_SHOWN ms) in
       do {
         st \<leftarrow> print_rows win (candidate_rows (tui_cols st) labels) st;
         if length ms > TUI_MAX_COMPLETIONS_SHOWN
         then do {
           i \<leftarrow> window_index win st;
           tui_print (Some i) (''  ... and '' @ show_nat (length ms - TUI_MAX_COMPLETIONS_SHOWN) @ '' more'') st
         }
         else Some st
       }
     }"

subsection \<open>Completion\<close>

text \<open>The line and the word before the cursor, as the providers see them.\<close>

definition word_before :: "input_line \<Rightarrow> nat \<times> string \<times> string" where
  "word_before l =
     (let start = skip_left (\<lambda>c. c \<noteq> CHR '' '') (il_buf l) (il_cursor l) in
      (start, take (il_cursor l) (il_buf l), take (il_cursor l - start) (drop start (il_buf l))))"

text \<open>Whether the line changed. Behind a blank the word may be empty.\<close>

definition complete_word :: "completer \<Rightarrow> nat \<Rightarrow> tui \<Rightarrow> (bool \<times> tui) comp" where
  "complete_word cp win st =
     (let l = tui_input st; (start, line, word) = word_before l in
      if word = [] \<and> \<not> (il_cursor l > 0 \<and> il_buf l ! (il_cursor l - 1) = CHR '' '') then Some (False, st)
      else
        let (matches, a) = completion_collect cp line (Some word) (tui_alloc st); st = st\<lparr>tui_alloc := a\<rparr> in
        case matches of
          None \<Rightarrow> Some (False, st)
        | Some [] \<Rightarrow> Some (False, st)
        | Some ms \<Rightarrow>
            let plen = prefix_len ms; single = (length ms = 1) in
            if single \<or> plen > length word then
              let pl = (if single \<and> plen < TUI_INPUTLEN - 1 then plen + 1 else plen) in
              if start + pl < TUI_INPUTLEN
              then map_option (\<lambda>l. (True, st\<lparr>tui_input := l\<rparr>)) (replace_word start pl single (hd ms) l)
              else Some (False, st)
            else map_option (Pair False) (list_candidates cp win ms st))"

definition tui_do_completion :: "completer \<Rightarrow> nat \<Rightarrow> tui \<Rightarrow> (bool \<times> tui) comp" where
  "tui_do_completion cp win st =
     (let (done, st) = (case cp_handler cp of None \<Rightarrow> (False, st) | Some f \<Rightarrow> f win st) in
      if done then Some (True, st)
      else if il_cursor (tui_input st) = 0 then Some (False, st)
      else complete_word cp win st)"

subsection \<open>The common beginning is the longest common prefix\<close>

lemma common_prefix: "prefix p (take (common_len a b) a) \<longleftrightarrow> prefix p a \<and> prefix p b"
proof (induction a b arbitrary: p rule: common_len.induct)
  case (1 x a y b)
  then show ?case by (cases p) auto
qed auto

lemma common_len_le: "common_len a b \<le> length a"
  by (induction a b rule: common_len.induct) auto

lemma prefix_len_step:
  "prefix p (take (common_len (take k f) m) f) \<longleftrightarrow> prefix p (take k f) \<and> prefix p m"
proof -
  have "take (common_len (take k f) m) f = take (common_len (take k f) m) (take k f)"
    using common_len_le [of "take k f" m] by (simp add: min_absorb1)
  then show ?thesis using common_prefix [of p "take k f" m] by simp
qed

lemma prefix_len_fold:
  "prefix p (take (fold (\<lambda>m plen. common_len (take plen f) m) ms k) f) \<longleftrightarrow> prefix p (take k f) \<and> (\<forall>m \<in> set ms. prefix p m)"
  by (induction ms arbitrary: k) (auto simp: prefix_len_step)

lemma prefix_len_fold_le:
  "k \<le> length f \<Longrightarrow> fold (\<lambda>m plen. common_len (take plen f) m) ms k \<le> length f"
proof (induction ms arbitrary: k)
  case (Cons m ms)
  have "common_len (take k f) m \<le> length f" using common_len_le [of "take k f" m] by simp
  then show ?case using Cons.IH by simp
qed simp

lemma prefix_len_lcp:
  assumes "ms \<noteq> []"
  shows "take (prefix_len ms) (hd ms) = Longest_common_prefix (set ms)" and "prefix_len ms = length (Longest_common_prefix (set ms))"
proof -
  let ?t = "take (prefix_len ms) (hd ms)"
  have iff: "prefix p ?t \<longleftrightarrow> (\<forall>m \<in> set ms. prefix p m)" for p
    using prefix_len_fold [of p "hd ms" "tl ms" "length (hd ms)"] assms by (cases ms) (simp_all add: prefix_len_def)
  have "\<forall>m \<in> set ms. prefix ?t m" using iff [of ?t] by simp
  then have "prefix ?t (Longest_common_prefix (set ms))" using assms by (intro Longest_common_prefix_max_prefix) auto
  moreover have "prefix (Longest_common_prefix (set ms)) ?t" unfolding iff by (simp add: Longest_common_prefix_prefix)
  ultimately show "?t = Longest_common_prefix (set ms)" by (rule prefix_order.antisym)
  moreover have "prefix_len ms \<le> length (hd ms)" unfolding prefix_len_def by (rule prefix_len_fold_le) simp
  ultimately show "prefix_len ms = length (Longest_common_prefix (set ms))" by (metis length_take min_absorb2)
qed

subsection \<open>The line after a completion\<close>

lemma replace_shows:
  assumes "shows_as l (b @ w) a" and "pl = length t + (if single then 1 else 0)" and "length b + pl + length a \<le> 511"
    and "t = take (if single then pl - 1 else pl) m" and "cstr t"
  shows "\<exists>l'. replace_word (length b) pl single m l = Some l' \<and> shows_as l' (b @ t @ (if single then '' '' else [])) a"
proof -
  obtain rest where l: "l = \<lparr>il_buf = (b @ w) @ a @ NUL # rest, il_len = length (b @ w) + length a, il_cursor = length (b @ w)\<rparr>"
    and n: "length (b @ w) + length a + length rest = TUI_INPUTLEN - 1" and c: "cstr (b @ w)" "cstr a"
    using assms(1) by (rule shows_asE)
  let ?buf = "(b @ w) @ a @ NUL # rest"
  define x where "x = take pl (w @ a @ NUL # rest)"
  define y where "y = drop (length b + pl + (length a + 1)) ?buf"
  have len: "length ?buf = TUI_INPUTLEN" using n by simp
  have x: "length x = pl" using len assms(3) by (simp add: x_def)
  have m: "memmove (length b + pl) (il_cursor l) (il_len l - il_cursor l + 1) (il_buf l) = Some (b @ x @ a @ NUL # y)"
    using len assms(3) by (simp add: memmove_def l x_def y_def)
  have c1: "copy_chars (length b) t (b @ x @ a @ NUL # y) = Some (b @ t @ drop (length t) x @ a @ NUL # y)"
    using x assms(2) by (simp add: copy_chars_def)
  let ?s = "if single then '' '' else []"
  have p: "(if single then put_char (length b + pl - 1) (CHR '' '') (b @ t @ drop (length t) x @ a @ NUL # y)
      else Some (b @ t @ drop (length t) x @ a @ NUL # y)) = Some (b @ t @ ?s @ a @ NUL # y)"
  proof (cases single)
    case True
    then have "length (drop (length t) x) = 1" using x assms(2) by simp
    then obtain z where z: "drop (length t) x = [z]" by (cases "drop (length t) x") auto
    show ?thesis using True assms(2) by (simp add: put_char_def z list_update_append)
  next
    case False
    then show ?thesis using x assms(2) by simp
  qed
  have y: "length y = TUI_INPUTLEN - (length b + pl + (length a + 1))" using len by (simp add: y_def)
  have "replace_word (length b) pl single m l =
      Some \<lparr>il_buf = b @ t @ ?s @ a @ NUL # y, il_len = length b + pl + length a, il_cursor = length b + pl\<rparr>"
    unfolding replace_word_def m Option.bind.simps assms(4) [symmetric] c1 p by (simp add: l)
  moreover have "shows_as \<lparr>il_buf = b @ t @ ?s @ a @ NUL # y, il_len = length b + pl + length a, il_cursor = length b + pl\<rparr> (b @ t @ ?s) a"
    by (rule shows_asI) (use y c assms(2,3,5) in auto)
  ultimately show ?thesis by blast
qed

lemma word_before_shows:
  assumes "shows_as l (b @ w) a" and "b = [] \<or> last b = CHR '' ''" and "CHR '' '' \<notin> set w"
  shows "word_before l = (length b, b @ w, w)"
proof -
  obtain rest where l: "l = \<lparr>il_buf = (b @ w) @ a @ NUL # rest, il_len = length (b @ w) + length a, il_cursor = length (b @ w)\<rparr>"
    using assms(1) by (rule shows_asE)
  let ?P = "\<lambda>c. c \<noteq> CHR '' ''"
  have "dropWhile ?P (rev w @ rev b) = dropWhile ?P (rev b)" using assms(3) by (intro dropWhile_append2) auto
  also have "\<dots> = rev b" using assms(2) by (cases b rule: rev_cases) auto
  finally have "skip_left ?P ((b @ w) @ a @ NUL # rest) (length (b @ w)) = length b"
    using skip_left_prefix [of "length (b @ w)" "b @ w" ?P "a @ NUL # rest"] by simp
  then show ?thesis unfolding word_before_def l by (simp add: Let_def)
qed

subsection \<open>What printing leaves in the scrollback\<close>

text \<open>The messages of the windows, and what decides how a message is stored.\<close>

definition logs :: "tui \<Rightarrow> string ptr list list" where
  "logs st = map scrollback (tui_windows st)"

definition same_logs :: "tui \<Rightarrow> tui \<Rightarrow> bool" where
  "same_logs st st' \<longleftrightarrow> logs st' = logs st \<and> tui_colors st' = tui_colors st"

definition stored :: "tui \<Rightarrow> string \<Rightarrow> string ptr" where
  "stored st s = fst (tui_colorize_string (tui_colors st) (Some (take 2047 s)) [])"

text \<open>What a scrollback keeps of a list of messages.\<close>

definition last_lines :: "string ptr list \<Rightarrow> string ptr list" where
  "last_lines s = drop (length s - LOG_LINES) s"

lemma last_lines_append: "last_lines (last_lines s @ t) = last_lines (s @ t)"
proof (cases "length s \<le> LOG_LINES")
  case False
  define x where "x = take (length s - LOG_LINES) s"
  define y where "y = drop (length s - LOG_LINES) s"
  have s: "s = x @ y" "length y = LOG_LINES" using False by (simp_all add: x_def y_def)
  then have "last_lines s = y" by (simp add: last_lines_def)
  then show ?thesis using s by (simp add: last_lines_def)
qed (simp add: last_lines_def)

lemma logs_fields [simp]:
  "logs (st\<lparr>tui_redraw_pending := p\<rparr>) = logs st" "logs (st\<lparr>tui_lines := n\<rparr>) = logs st"
  "logs (st\<lparr>tui_out := out\<rparr>) = logs st"
  by (simp_all add: logs_def)

lemma logs_set_window: "logs (set_window i w st) = (logs st)[i := scrollback w]"
  by (simp add: logs_def set_window_def map_update)

lemma redraw_logs:
  assumes "tui_ok st" and "tui_redraw_screen st = Some st'"
  shows "same_logs st st'"
proof (cases "tui_enabled st")
  case True
  let ?st = "st\<lparr>tui_redraw_pending := False\<rparr>" and ?i = "tui_active_win st"
  let ?w = "tui_windows st ! ?i"
  have a: "tui_active_window ?st = Some (?i, ?st)" "?i < length (tui_windows st)" using ok_active [of ?st] assms(1) by auto
  then have w: "window_at (int ?i) ?st = Some ?w" using window_at_nth [of ?i ?st] by simp
  obtain scroll rows where d: "draw_log (tui_rows st) (tui_cols st) (tw_buffer ?w) (tw_log_head ?w) (tw_log_count ?w) (tw_scroll ?w) = (scroll, rows)"
    by (cases "draw_log (tui_rows st) (tui_cols st) (tw_buffer ?w) (tw_log_head ?w) (tw_log_count ?w) (tw_scroll ?w)")
  let ?s = "(set_window ?i (?w\<lparr>tw_scroll := scroll\<rparr>) ?st)\<lparr>tui_out := tui_out st @ [rows]\<rparr>"
  have "window_ok (?w\<lparr>tw_scroll := scroll\<rparr>)" using ok_window [OF assms(1) a(2)] by simp
  then have s: "tui_ok ?s" using ok_set_window [of ?st ?i "?w\<lparr>tw_scroll := scroll\<rparr>"] assms(1) a(2) by (simp add: key_of_def)
  have "logs ?s = logs st" using a(2) by (simp add: logs_set_window) (simp add: logs_def list_update_same_conv)
  moreover have "tui_colors ?s = tui_colors st" by (simp add: set_window_def)
  ultimately have "same_logs st ?st" "same_logs st ?s" by (simp_all add: same_logs_def)
  moreover have "st' = ?st \<or> st' = ?s"
    using assms True a w d ok_update_input [OF s] ok_update_input [of ?st]
    by (auto simp: tui_redraw_screen_def Let_def split: if_splits)
  ultimately show ?thesis by blast
qed (use assms in \<open>simp add: tui_redraw_screen_def same_logs_def\<close>)

lemma print_logs:
  assumes "tui_ok st" and "i < length (tui_windows st)" and "tui_enabled st" and "tui_print (Some i) s st = Some st'"
  shows "logs st' = (logs st)[i := last_lines (logs st ! i @ [stored st s])] \<and> tui_colors st' = tui_colors st"
proof -
  let ?w = "tui_windows st ! i"
  have al: "tui_alloc st = []" using assms(1) by (simp add: tui_ok_def)
  obtain line where line: "tui_colorize_string (tui_colors st) (Some (take 2047 s)) [] = (Some line, [])" using colorize_plenty by blast
  have same: "st\<lparr>tui_alloc := []\<rparr> = st" using al by simp
  have w: "window_ok (append_line (tui_cols st) line ?w)" "key_of (append_line (tui_cols st) line ?w) = key_of ?w"
    using append_line_ok ok_window [OF assms(1,2)] by (simp_all add: key_of_def)
  define u where "u = (set_window i (append_line (tui_cols st) line ?w) st)
    \<lparr>tui_lines := tui_lines st + 1 - (if tw_buffer ?w ! tw_log_head ?w = NULL then 0 else 1)\<rparr>"
  have u: "tui_ok u" using ok_set_window [OF assms(1,2) w] by (simp add: u_def)
  then have r: "tui_ok (tui_redraw_request u)" by (simp add: tui_redraw_request_def)
  have l: "logs u = (logs st)[i := last_lines (logs st ! i @ [stored st s])]" "tui_colors u = tui_colors st"
    using append_line_scrollback [OF ok_window [OF assms(1,2)], of "tui_cols st" line, folded last_lines_def [abs_def], unfolded Let_def] assms(2)
    by (simp_all add: u_def logs_set_window stored_def line last_lines_def Let_def) (simp_all add: logs_def set_window_def)
  have "tui_print (Some i) s st = Option.bind (tui_active_window u) (\<lambda>(active, st).
      if i = active then
        let st = tui_redraw_request st in if tui_redraw_defer_count st = 0 then tui_redraw_if_pending st else Some st
      else Some st)"
    unfolding tui_print_def tui_vprint_def u_def by (simp add: window_at_nth [OF assms(2)] assms(3) al line same Let_def)
  then have "st' = u \<or> st' = tui_redraw_request u \<or> tui_redraw_if_pending (tui_redraw_request u) = Some st'"
    using assms(4) ok_active [OF u] by (auto simp: Let_def split: if_splits)
  then have "same_logs u st'"
    using redraw_logs [OF r, of st'] by (auto simp: same_logs_def tui_redraw_if_pending_def tui_redraw_request_def split: if_splits)
  then show ?thesis using l by (simp add: same_logs_def)
qed

lemma same_windows_length: "same_windows st st' \<Longrightarrow> length (tui_windows st') = length (tui_windows st)"
  unfolding same_windows_def tui_keys_def by (metis length_map)

lemma index_of_map: "index_of P (map f xs) = index_of (\<lambda>x. P (f x)) xs"
  by (induction xs) simp_all

lemma window_index_keys: "window_index win st = index_of (\<lambda>k. fst k = win) (tui_keys st)"
  by (simp add: window_index_def tui_keys_def index_of_map key_of_def)

lemma same_windows_index: "same_windows st st' \<Longrightarrow> window_index win st' = window_index win st"
  by (simp add: window_index_keys same_windows_def)

lemma window_index_less: "window_index win st = Some i \<Longrightarrow> i < length (tui_windows st)"
  unfolding window_index_def using index_of_Some by blast

text \<open>Printing some rows to a window.\<close>

definition printed :: "nat \<Rightarrow> string list \<Rightarrow> tui \<Rightarrow> tui \<Rightarrow> bool" where
  "printed i rows st st' \<longleftrightarrow>
     tui_ok st' \<and> same_windows st st' \<and> tui_colors st' = tui_colors st \<and>
     (tui_enabled st \<longrightarrow> logs st' ! i = last_lines (logs st ! i @ map (stored st) rows))"

lemma logs_short: "tui_ok st \<Longrightarrow> i < length (tui_windows st) \<Longrightarrow> last_lines (logs st ! i) = logs st ! i"
  using ok_window [of st i] by (simp add: logs_def scrollback_def window_ok_def last_lines_def)

lemma printed_none: "tui_ok st \<Longrightarrow> i < length (tui_windows st) \<Longrightarrow> printed i [] st st"
  using logs_short by (simp add: printed_def)

lemma printed_one:
  assumes "tui_ok st" and "i < length (tui_windows st)"
  shows "\<exists>st'. tui_print (Some i) s st = Some st' \<and> printed i [s] st st'"
proof -
  obtain st' where st': "tui_print (Some i) s st = Some st'" "tui_ok st'" "same_windows st st'"
    using ok_print [OF assms(1), of "Some i" s] assms(2) by auto
  have "tui_colors st' = tui_colors st \<and> (tui_enabled st \<longrightarrow> logs st' ! i = last_lines (logs st ! i @ [stored st s]))"
  proof (cases "tui_enabled st")
    case True
    have "i < length (logs st)" using assms(2) by (simp add: logs_def)
    then show ?thesis using print_logs [OF assms True st'(1)] by simp
  qed (use st'(1) in \<open>simp add: tui_print_def\<close>)
  then show ?thesis using st' by (simp add: printed_def)
qed

lemma printed_trans: "printed i r st st1 \<Longrightarrow> printed i r' st1 st2 \<Longrightarrow> printed i (r @ r') st st2"
proof -
  assume a: "printed i r st st1" and b: "printed i r' st1 st2"
  have c: "stored st1 = stored st" using a by (simp add: fun_eq_iff printed_def stored_def)
  have "logs st2 ! i = last_lines (last_lines (logs st ! i @ map (stored st) r) @ map (stored st) r')" if "tui_enabled st"
    using a b that unfolding c by (simp add: printed_def same_windows_def c)
  then show ?thesis using a b by (auto simp: printed_def last_lines_append intro: same_windows_trans)
qed

lemma printed_rows:
  "tui_ok st \<Longrightarrow> window_index win st = Some i \<Longrightarrow> \<exists>st'. print_rows win ss st = Some st' \<and> printed i ss st st'"
proof (induction ss arbitrary: st)
  case Nil
  then show ?case using printed_none window_index_less by simp
next
  case (Cons s ss)
  obtain st1 where s1: "tui_print (Some i) s st = Some st1" "printed i [s] st st1"
    using printed_one [OF Cons.prems(1) window_index_less [OF Cons.prems(2)]] by blast
  then have "tui_ok st1" "window_index win st1 = Some i"
    using Cons.prems(2) same_windows_index by (auto simp: printed_def)
  from Cons.IH [OF this] obtain st2 where s2: "print_rows win ss st1 = Some st2" "printed i ss st1 st2" by blast
  then show ?case using s1 Cons.prems(2) printed_trans [OF s1(2) s2(2)] by simp
qed

subsection \<open>The list of candidates\<close>

lemma pad_to_split: "pad_to n s = s @ replicate (n - length s) (CHR '' '')"
  by (simp add: pad_to_def)

lemma cells_prefix: "\<exists>t. cells labels maxlen rows r cs acc = acc @ t"
proof (induction cs arbitrary: acc)
  case (Cons c cs)
  show ?case
  proof (cases "c * rows + r \<ge> length labels \<or> length (acc @ pad_to maxlen (labels ! (c * rows + r)) @ ''  '') \<ge> 1023")
    case True
    then show ?thesis by (auto simp: Let_def)
  next
    case False
    let ?acc = "acc @ pad_to maxlen (labels ! (c * rows + r)) @ ''  ''"
    obtain t where "cells labels maxlen rows r cs ?acc = ?acc @ t" using Cons.IH by blast
    then show ?thesis using False by (auto simp: Let_def)
  qed
qed simp

text \<open>The label of a column is in its row, and in front of it there is nothing but the columns before.\<close>

lemma cells_contain:
  assumes "list_all (\<lambda>l. length l \<le> maxlen) labels" and "c * rows + r < length labels" and "k \<le> c" and "c < cols"
    and "length acc + (c - k) * (maxlen + 2) < 1023"
  shows "\<exists>p t. cells labels maxlen rows r [k..<cols] acc = p @ labels ! (c * rows + r) @ t \<and> length p = length acc + (c - k) * (maxlen + 2)"
  using assms(3-5)
proof (induction "c - k" arbitrary: k acc)
  case 0
  then have k: "k = c" by simp
  let ?l = "labels ! (c * rows + r)"
  let ?acc = "acc @ pad_to maxlen ?l @ ''  ''"
  have "[k..<cols] = c # [Suc c..<cols]" using 0 k by (simp add: upt_conv_Cons)
  then have "cells labels maxlen rows r [k..<cols] acc =
      (if length ?acc \<ge> 1023 then ?acc else cells labels maxlen rows r [Suc c..<cols] ?acc)"
    using assms(2) by (simp add: Let_def)
  then obtain t where "cells labels maxlen rows r [k..<cols] acc = ?acc @ t"
    using cells_prefix [of labels maxlen rows r "[Suc c..<cols]" ?acc] by (metis append_Nil2)
  then have "cells labels maxlen rows r [k..<cols] acc = acc @ ?l @ replicate (maxlen - length ?l) (CHR '' '') @ ''  '' @ t"
    by (simp add: pad_to_split)
  then show ?case using k by auto
next
  case (Suc m)
  let ?l = "labels ! (k * rows + r)"
  let ?acc = "acc @ pad_to maxlen ?l @ ''  ''"
  have less: "k * rows + r < length labels"
  proof -
    have "k * rows \<le> c * rows" using Suc.prems(1) by simp
    then show ?thesis using assms(2) by linarith
  qed
  then have "length ?l \<le> maxlen" using assms(1) by (simp add: list_all_length)
  then have len: "length ?acc = length acc + (maxlen + 2)" by (simp add: pad_to_split)
  have ck: "c - k = Suc (c - Suc k)" using Suc.hyps(2) by simp
  then have mul: "(c - k) * (maxlen + 2) = (maxlen + 2) + (c - Suc k) * (maxlen + 2)" by simp
  have "\<not> length ?acc \<ge> 1023" using Suc.prems(3) unfolding len mul by linarith
  moreover have "[k..<cols] = k # [Suc k..<cols]" using Suc.prems(1,2) by (simp add: upt_conv_Cons)
  ultimately have step: "cells labels maxlen rows r [k..<cols] acc = cells labels maxlen rows r [Suc k..<cols] ?acc"
    using less by (simp add: Let_def)
  have lt: "length ?acc + (c - Suc k) * (maxlen + 2) < 1023" using Suc.prems(3) unfolding len mul by linarith
  have k: "m = c - Suc k" "Suc k \<le> c" using Suc.hyps(2) by simp_all
  from Suc.hyps(1) [OF k Suc.prems(2) lt] show ?case unfolding step len mul add.assoc .
qed

text \<open>The number of rows is enough for all labels.\<close>

lemma rows_enough: "0 < cols \<Longrightarrow> n \<le> ((n + cols - 1) div cols) * (cols :: nat)"
proof -
  assume c: "0 < cols"
  have "(n + cols - 1) div cols * cols + (n + cols - 1) mod cols = n + cols - 1" by simp
  moreover have "(n + cols - 1) mod cols < cols" using c by simp
  ultimately show ?thesis using c by linarith
qed

lemma candidate_listed:
  assumes "l \<in> set labels" and "list_all (\<lambda>l. length l \<le> 511) labels" and "term_cols \<le> 1023"
  shows "\<exists>row \<in> set (candidate_rows term_cols labels). sublist l row"
proof -
  define maxlen where "maxlen = fold max (map length labels) 0"
  define cols0 where "cols0 = (if maxlen > 0 then (term_cols - 2) div (maxlen + 2) else 1)"
  define cols where "cols = (if cols0 < 1 then 1 else cols0)"
  define rows where "rows = (length labels + cols - 1) div cols"
  have mx: "maxlen = Max (insert 0 (length ` set labels))"
    using Max.set_eq_fold [of 0 "map length labels"] by (simp add: maxlen_def)
  have max: "list_all (\<lambda>l. length l \<le> maxlen) labels" by (auto simp: mx list_all_iff)
  have short: "maxlen \<le> 511" using assms(2) by (auto simp: mx list_all_iff)
  have cols: "0 < cols" by (simp add: cols_def)
  have room: "cols * (maxlen + 2) \<le> term_cols - 2 \<or> cols = 1"
  proof (cases "cols = 1")
    case False
    then have "cols = (term_cols - 2) div (maxlen + 2)" by (auto simp: cols_def cols0_def split: if_splits)
    then show ?thesis using div_times_less_eq_dividend by metis
  qed simp
  obtain idx where idx: "idx < length labels" "labels ! idx = l" using assms(1) by (auto simp: in_set_conv_nth)
  have big: "length labels \<le> cols * rows" unfolding rows_def mult.commute [of cols] by (rule rows_enough [OF cols])
  then have rows: "0 < rows" using idx(1) by (cases rows) simp_all
  define c where "c = idx div rows"
  define r where "r = idx mod rows"
  have rc: "c * rows + r = idx" "r < rows" using rows by (simp_all add: c_def r_def)
  have c: "c < cols"
  proof (rule ccontr)
    assume "\<not> c < cols"
    then have "cols * rows \<le> c * rows" by (intro mult_le_mono1) simp
    then show False using big idx(1) rc(1) by linarith
  qed
  have fits: "2 + c * (maxlen + 2) + maxlen < 1023"
  proof -
    have "Suc c * (maxlen + 2) \<le> cols * (maxlen + 2)" using c by (intro mult_le_mono1) simp
    then have "c * (maxlen + 2) + (maxlen + 2) \<le> cols * (maxlen + 2)" by simp
    then show ?thesis using room short assms(3) c by auto
  qed
  have "\<exists>p t. cells labels maxlen rows r [0..<cols] ''  '' = p @ labels ! (c * rows + r) @ t \<and>
      length p = length ''  '' + (c - 0) * (maxlen + 2)"
    by (rule cells_contain [OF max]) (use c rc idx fits short room assms(3) in \<open>auto\<close>)
  then obtain p t where pt: "cells labels maxlen rows r [0..<cols] ''  '' = p @ l @ t" "length p = 2 + c * (maxlen + 2)"
    unfolding rc(1) idx(2) by auto
  have "length l \<le> maxlen" using max assms(1) by (auto simp: list_all_iff)
  then have "length (p @ l) \<le> 1023" using pt(2) fits by simp
  then have "take 1023 (p @ l @ t) = p @ l @ take (1023 - length (p @ l)) t" by simp
  moreover have "sublist l (p @ l @ u)" for u by (rule sublist_appendI)
  ultimately have "sublist l (take 1023 (cells labels maxlen rows r [0..<cols] ''  ''))" unfolding pt(1) by (simp only:)
  moreover have "take 1023 (cells labels maxlen rows r [0..<cols] ''  '') \<in> set (candidate_rows term_cols labels)"
    unfolding candidate_rows_def Let_def maxlen_def [symmetric] cols0_def [symmetric] cols_def [symmetric] rows_def [symmetric]
    using rc(2) by auto
  ultimately show ?thesis by blast
qed

lemma describe_length: "length (completion_describe cp line val 512) \<le> 511"
  by (simp add: completion_describe_def Let_def)

text \<open>What is printed: the rows of the first 32 candidates, and how many there are more.\<close>

definition listing :: "completer \<Rightarrow> nat \<Rightarrow> string \<Rightarrow> string list \<Rightarrow> string list" where
  "listing cp term_cols line ms =
     candidate_rows term_cols (map (\<lambda>m. completion_describe cp line (Some m) 512) (take TUI_MAX_COMPLETIONS_SHOWN ms)) @
     (if length ms > TUI_MAX_COMPLETIONS_SHOWN
      then [''  ... and '' @ show_nat (length ms - TUI_MAX_COMPLETIONS_SHOWN) @ '' more''] else [])"

lemma list_candidates_prints:
  assumes "tui_ok st" and "window_index win st = Some i" and "takeWhile (\<lambda>c. c \<noteq> NUL) (il_buf (tui_input st)) = line"
  shows "\<exists>st'. list_candidates cp win ms st = Some st' \<and> printed i (listing cp (tui_cols st) line ms) st st'"
proof -
  define rs where "rs = candidate_rows (tui_cols st) (map (\<lambda>m. completion_describe cp line (Some m) 512) (take TUI_MAX_COMPLETIONS_SHOWN ms))"
  obtain st1 where s1: "print_rows win rs st = Some st1" "printed i rs st st1" using printed_rows [OF assms(1,2)] by blast
  then have ok: "tui_ok st1" "window_index win st1 = Some i" using assms(2) same_windows_index by (auto simp: printed_def)
  let ?more = "''  ... and '' @ show_nat (length ms - TUI_MAX_COMPLETIONS_SHOWN) @ '' more''"
  obtain st2 where s2: "tui_print (Some i) ?more st1 = Some st2" "printed i [?more] st1 st2"
    using printed_one [OF ok(1) window_index_less [OF ok(2)]] by blast
  have p2: "printed i (rs @ [?more]) st st2" by (rule printed_trans [OF s1(2) s2(2)])
  show ?thesis
  proof (cases "length ms > TUI_MAX_COMPLETIONS_SHOWN")
    case True
    then have "list_candidates cp win ms st = Some st2"
      using s1(1) s2(1) ok(2) unfolding list_candidates_def Let_def assms(3) rs_def [symmetric] by simp
    moreover have "listing cp (tui_cols st) line ms = rs @ [?more]" using True by (simp add: listing_def rs_def)
    ultimately show ?thesis using p2 by simp
  next
    case False
    then have "list_candidates cp win ms st = Some st1"
      using s1(1) unfolding list_candidates_def Let_def assms(3) rs_def [symmetric] by simp
    moreover have "listing cp (tui_cols st) line ms = rs" using False by (simp add: listing_def rs_def)
    ultimately show ?thesis using s1(2) by simp
  qed
qed

lemma listing_shows:
  assumes "m \<in> set (take TUI_MAX_COMPLETIONS_SHOWN ms)" and "term_cols \<le> 1023"
  shows "\<exists>row \<in> set (listing cp term_cols line ms). sublist (completion_describe cp line (Some m) 512) row"
proof -
  let ?labels = "map (\<lambda>m. completion_describe cp line (Some m) 512) (take TUI_MAX_COMPLETIONS_SHOWN ms)"
  have "completion_describe cp line (Some m) 512 \<in> set ?labels" using assms(1) by auto
  moreover have "list_all (\<lambda>l. length l \<le> 511) ?labels" using describe_length by (auto simp: list_all_iff)
  ultimately obtain row where "row \<in> set (candidate_rows term_cols ?labels)" "sublist (completion_describe cp line (Some m) 512) row"
    using candidate_listed [OF _ _ assms(2)] by blast
  then show ?thesis unfolding listing_def by (intro bexI [of _ row]) simp_all
qed

lemma line_before_nul: "shows_as l b a \<Longrightarrow> takeWhile (\<lambda>c. c \<noteq> NUL) (il_buf l) = b @ a"
proof -
  assume "shows_as l b a"
  then obtain rest where "il_buf l = (b @ a) @ NUL # rest" "cstr b" "cstr a" by (rule shows_asE) simp
  moreover have "takeWhile (\<lambda>c. c \<noteq> NUL) ((b @ a) @ NUL # rest) = (b @ a) @ takeWhile (\<lambda>c. c \<noteq> NUL) (NUL # rest)"
    using calculation by (intro takeWhile_append2) (auto simp: cstr_def)
  ultimately show ?thesis by simp
qed

lemma set_alloc_id: "tui_alloc st = a \<Longrightarrow> st\<lparr>tui_alloc := a\<rparr> = st"
  by (cases st) simp

lemma completion_step:
  assumes "shows_as (tui_input st) (b @ w) a" and "b @ w \<noteq> []" and "b = [] \<or> last b = CHR '' ''" and "CHR '' '' \<notin> set w"
    and "cp_handler cp = None" and "tui_alloc st = []" and "completion_collect cp (b @ w) (Some w) [] = (Some ms, [])" and "ms \<noteq> []"
    and "pl = (if length ms = 1 \<and> length (Longest_common_prefix (set ms)) < TUI_INPUTLEN - 1
      then length (Longest_common_prefix (set ms)) + 1 else length (Longest_common_prefix (set ms)))"
    and "length b + pl < TUI_INPUTLEN"
  shows "tui_do_completion cp win st =
    (if length ms = 1 \<or> length (Longest_common_prefix (set ms)) > length w
     then map_option (\<lambda>l. (True, st\<lparr>tui_input := l\<rparr>)) (replace_word (length b) pl (length ms = 1) (hd ms) (tui_input st))
     else map_option (Pair False) (list_candidates cp win ms st))"
proof -
  let ?l = "tui_input st" and ?c = "Longest_common_prefix (set ms)"
  obtain rest where l: "?l = \<lparr>il_buf = (b @ w) @ a @ NUL # rest, il_len = length (b @ w) + length a, il_cursor = length (b @ w)\<rparr>"
    using assms(1) by (rule shows_asE)
  have pos: "il_cursor ?l > 0" using l assms(2) by simp
  have "w = [] \<Longrightarrow> il_buf ?l ! (il_cursor ?l - 1) = CHR '' ''"
    using assms(2,3) l by (cases b rule: rev_cases) (auto simp: nth_append)
  then have cond: "(w = [] \<and> \<not> (il_cursor ?l > 0 \<and> il_buf ?l ! (il_cursor ?l - 1) = CHR '' '')) = False" using pos by blast
  have fits: "(length b + pl < TUI_INPUTLEN) = True" using assms(10) by simp
  obtain x xs where ms: "ms = x # xs" using assms(8) by (cases ms) simp_all
  have plen: "prefix_len (x # xs) = length ?c" using prefix_len_lcp(2) [OF assms(8)] ms by simp
  have pl: "(if length (x # xs) = 1 \<and> length ?c < TUI_INPUTLEN - 1 then length ?c + 1 else length ?c) = pl"
    unfolding assms(9) ms ..
  have "complete_word cp win st =
    (if length (x # xs) = 1 \<or> length ?c > length w
     then map_option (\<lambda>l. (True, st\<lparr>tui_input := l\<rparr>)) (replace_word (length b) pl (length (x # xs) = 1) (hd (x # xs)) ?l)
     else map_option (Pair False) (list_candidates cp win (x # xs) st))"
    by (simp only: complete_word_def word_before_shows [OF assms(1,3,4)] Let_def prod.case cond if_False assms(6)
        assms(7) [unfolded ms] set_alloc_id [OF assms(6)] option.case list.case plen pl fits if_True)
  then show ?thesis using pos assms(5) unfolding ms by (simp add: tui_do_completion_def)
qed

text \<open>C29: what the Tab key does to the word before the cursor. With the matches that the providers offer
  (and no handler of its own), let \<open>c\<close> be their longest common prefix. A single match, or a \<open>c\<close>
  longer than the word, replaces the word, with a blank behind a single match, and leaves the text
  around it and the cursor behind it. Otherwise the line stays as it is and rows are printed to the
  window, if the interface is enabled: they are appended to its scrollback, which keeps the last 500
  messages; on a terminal of at most 1023 columns the label of each of the first 32 candidates is
  in one of them, and when there are more, the last row says how many. The line has to have room
  for the new text, and memory has to suffice.\<close>

theorem completion_completes_prefix:
  assumes "tui_ok st" and "window_index win st = Some i" and "view (tui_input st) = (b @ w, a)" and "b @ w \<noteq> []"
    and "b = [] \<or> last b = CHR '' ''" and "CHR '' '' \<notin> set w" and "cp_handler cp = None"
    and "completion_collect cp (b @ w) (Some w) [] = (Some ms, [])" and "ms \<noteq> []" and "list_all cstr ms"
    and "length b + length (Longest_common_prefix (set ms)) + 1 + length a \<le> 511"
  shows "if length ms = 1 \<or> length (Longest_common_prefix (set ms)) > length w
    then \<exists>l. tui_do_completion cp win st = Some (True, st\<lparr>tui_input := l\<rparr>) \<and> line_ok l \<and>
      view l = (b @ Longest_common_prefix (set ms) @ (if length ms = 1 then '' '' else []), a)
    else \<exists>st' rows. tui_do_completion cp win st = Some (False, st') \<and> tui_ok st' \<and> same_windows st st' \<and>
      (tui_enabled st \<longrightarrow> scrollback (tui_windows st' ! i) = last_lines (scrollback (tui_windows st ! i) @
         map (\<lambda>row. fst (tui_colorize_string (tui_colors st) (Some (take 2047 row)) [])) rows)) \<and>
      (tui_cols st \<le> 1023 \<longrightarrow> (\<forall>m \<in> set (take 32 ms). \<exists>row \<in> set rows. sublist (completion_describe cp (b @ w @ a) (Some m) 512) row)) \<and>
      (length ms > 32 \<longrightarrow> last rows = ''  ... and '' @ show_nat (length ms - 32) @ '' more'')"
proof -
  let ?l = "tui_input st" and ?c = "Longest_common_prefix (set ms)" and ?single = "length ms = 1"
  have line: "shows_as ?l (b @ w) a" unfolding shows_as_iff using assms(1,3) by (simp add: tui_ok_def)
  have al: "tui_alloc st = []" using assms(1) by (simp add: tui_ok_def)
  note lcp = prefix_len_lcp [OF assms(9)]
  define pl where "pl = (if ?single \<and> length ?c < TUI_INPUTLEN - 1 then length ?c + 1 else length ?c)"
  have pl: "pl = length ?c + (if ?single then 1 else 0)" "length b + pl + length a \<le> 511" using assms(11) by (simp_all add: pl_def)
  have "length b + pl < TUI_INPUTLEN" using pl(2) by simp
  note step = completion_step [OF line assms(4-7) al assms(8,9) pl_def this, of win]
  have m: "?c = take (if ?single then pl - 1 else pl) (hd ms)" using lcp(1) pl(1) lcp(2) by (auto simp: min_def)
  have "cstr (hd ms)" using assms(9,10) by (cases ms) simp_all
  then have "cstr ?c" using lcp(1) by (metis cstr_sub set_take_subset)
  from replace_shows [OF line pl m this] obtain l' where l': "replace_word (length b) pl ?single (hd ms) ?l = Some l'"
    "shows_as l' (b @ ?c @ (if ?single then '' '' else [])) a" by blast
  show ?thesis
  proof (cases "?single \<or> length ?c > length w")
    case True
    then have "tui_do_completion cp win st = Some (True, st\<lparr>tui_input := l'\<rparr>)" using step l'(1) by simp
    then show ?thesis using True l'(2) unfolding shows_as_iff by auto
  next
    case False
    let ?rows = "listing cp (tui_cols st) (b @ w @ a) ms"
    obtain st' where st': "list_candidates cp win ms st = Some st'" "printed i ?rows st st'"
      using list_candidates_prints [OF assms(1,2) line_before_nul [OF line]] by auto
    then have "tui_do_completion cp win st = Some (False, st')" using step False by simp
    moreover have "tui_ok st'" "same_windows st st'" using st'(2) by (simp_all add: printed_def)
    moreover have "scrollback (tui_windows st' ! i) = last_lines (scrollback (tui_windows st ! i) @
         map (\<lambda>row. fst (tui_colorize_string (tui_colors st) (Some (take 2047 row)) [])) ?rows)" if "tui_enabled st"
      using st'(2) that window_index_less [OF assms(2)] same_windows_length [of st st']
      by (simp add: printed_def logs_def stored_def [abs_def])
    moreover have "\<forall>m \<in> set (take 32 ms). \<exists>row \<in> set ?rows. sublist (completion_describe cp (b @ w @ a) (Some m) 512) row"
      if "tui_cols st \<le> 1023" using listing_shows [OF _ that] by blast
    moreover have "last ?rows = ''  ... and '' @ show_nat (length ms - 32) @ '' more''" if "length ms > 32"
      using that by (simp add: listing_def)
    ultimately show ?thesis using False by auto
  qed
qed

text \<open>A completion in the middle of a long line copies the rest of the line beyond the buffer: only the
  end of the new text is compared with the size, not what is moved behind it.\<close>

lemma completion_overruns:
  assumes "shows_as (tui_input st) (b @ w) a" and "b @ w \<noteq> []" and "b = [] \<or> last b = CHR '' ''" and "CHR '' '' \<notin> set w"
    and "cp_handler cp = None" and "tui_alloc st = []" and "completion_collect cp (b @ w) (Some w) [] = (Some [m], [])"
    and "length b + length m + 1 < TUI_INPUTLEN" and "length b + length m + 1 + length a \<ge> TUI_INPUTLEN"
  shows "tui_do_completion cp win st = None"
proof -
  have c: "Longest_common_prefix {m} = m"
    using prefix_len_lcp(1) [of "[m]"] by (simp add: prefix_len_def)
  have "length m < TUI_INPUTLEN - 1" "length b + (length m + 1) < TUI_INPUTLEN" using assms(8) by simp_all
  then have "tui_do_completion cp win st =
      map_option (\<lambda>l. (True, st\<lparr>tui_input := l\<rparr>)) (replace_word (length b) (length m + 1) True m (tui_input st))"
    using completion_step [OF assms(1-7) _ refl, of win] by (simp add: c)
  moreover obtain rest where l: "tui_input st = \<lparr>il_buf = (b @ w) @ a @ NUL # rest, il_len = length (b @ w) + length a, il_cursor = length (b @ w)\<rparr>"
    and n: "length (b @ w) + length a + length rest = TUI_INPUTLEN - 1" using assms(1) by (rule shows_asE)
  have "replace_word (length b) (length m + 1) True m (tui_input st) = None"
    using n assms(9) by (simp add: replace_word_def memmove_def l)
  ultimately show ?thesis by simp
qed

text \<open>The registry is a list of at most eight distinct providers.\<close>

definition providers_ok :: "completer \<Rightarrow> bool" where
  "providers_ok cp \<longleftrightarrow> distinct (cp_providers cp) \<and> length (cp_providers cp) \<le> TUI_MAX_COMPLETION_PROVIDERS"

lemma providers_keep:
  assumes "providers_ok cp"
  shows "providers_ok (snd (tui_register_completion_provider fn cp))" and "providers_ok (snd (tui_unregister_completion_provider fn cp))"
proof -
  show "providers_ok (snd (tui_register_completion_provider fn cp))"
    using assms by (auto simp: providers_ok_def tui_register_completion_provider_def split: option.split)
  have "distinct (take i ps @ drop (Suc i) ps)" if "distinct ps" for i and ps :: "nat list"
    using that set_take_disj_set_drop_if_distinct [OF that, of i "Suc i"] by (simp add: distinct_take distinct_drop)
  then show "providers_ok (snd (tui_unregister_completion_provider fn cp))"
    using assms by (auto simp: providers_ok_def tui_unregister_completion_provider_def split: option.split)
qed

text \<open>When eight providers are registered, registering one of them again reports a failure.\<close>

lemma register_again_full:
  "length (cp_providers cp) = 8 \<Longrightarrow> f \<in> set (cp_providers cp) \<Longrightarrow> tui_register_completion_provider (Some f) cp = (False, cp)"
  by (simp add: tui_register_completion_provider_def)

definition commands :: completer where
  "commands = \<lparr>cp_providers = [0], cp_provide = \<lambda>f line word. Some [''/join'', ''/jump'', ''/jacks''], cp_describer = None, cp_handler = None\<rparr>"

definition typed_j :: tui where
  "typed_j = tui_start\<lparr>tui_input := \<lparr>il_buf = ''/j'' @ replicate 510 NUL, il_len = 2, il_cursor = 2\<rparr>\<rparr>"

lemma typed_j: "tui_ok typed_j" "view (tui_input typed_j) = ([] @ ''/j'', [])" "window_index 0 typed_j = Some 0"
proof -
  have i: "line_ok (tui_input typed_j)" "typed (tui_input typed_j) = ''/j''"
    by (simp_all add: typed_j_def line_ok_def typed_def)
  then show "tui_ok typed_j"
    using tui_start_ok by (simp add: tui_ok_def typed_j_def tui_keys_def input_text_def input_piece_def input_mark_def input_char_def)
  show "view (tui_input typed_j) = ([] @ ''/j'', [])" by (simp add: typed_j_def view_def)
  show "window_index 0 typed_j = Some 0" by (simp add: window_index_def typed_j_def tui_start_def new_window_def)
qed

text \<open>Three commands that begin with what was typed: each is in a row that is printed.\<close>

theorem completion_completes_prefix_witness:
  "\<exists>st rows. tui_do_completion commands 0 typed_j = Some (False, st) \<and>
     scrollback (tui_windows st ! 0) = last_lines (scrollback (tui_windows typed_j ! 0) @
       map (\<lambda>row. fst (tui_colorize_string True (Some (take 2047 row)) [])) rows) \<and>
     (\<forall>m \<in> {''/join'', ''/jump'', ''/jacks''}. \<exists>row \<in> set rows. sublist m row)"
proof -
  let ?ms = "[''/join'', ''/jump'', ''/jacks'']"
  have len: "length (Longest_common_prefix {''/join'', ''/jump'', ''/jacks''}) = 2"
    using prefix_len_lcp(2) [of ?ms] by (simp add: prefix_len_def)
  have c: "completion_collect commands ([] @ ''/j'') (Some ''/j'') [] = (Some ?ms, [])" by (simp add: commands_def completion_collect_def)
  have h: "cp_handler commands = None" "list_all cstr ?ms" by (simp_all add: commands_def)
  have d: "completion_describe commands line (Some m) 512 = take 511 m" for line m
    by (simp add: completion_describe_def commands_def Let_def)
  have s: "tui_enabled typed_j" "tui_cols typed_j = 80" "tui_colors typed_j" by (simp_all add: typed_j_def tui_start_def)
  show ?thesis
    using completion_completes_prefix [OF typed_j(1,3,2) _ _ _ h(1) c _ h(2)] s by (simp add: len d) blast
qed

end
