(* ===== verification/Eeprom.thy ===== *)
theory Eeprom
  imports C_Numbers Util_Mem
begin

text \<open>
  The EEPROM image (\<open>eeprom.c\<close>, built for POSIX hosts without mongoose): lookup of a setting in
  the layout, typed reads from the mapped image, single-byte writes, the CRC-32 over the image
  and its check at start. The layout and the size of the image come from generated headers and
  are arguments, as are the contents of the file that is opened and \<open>inet_ntop\<close>.

  An access outside the mapped image has no defined result. A pointer into the image is its
  offset.
\<close>

subsection \<open>State\<close>

text \<open>The types are those of the generated header that the code names.\<close>

datatype ee_data_type =
    EE_BOOL | EE_CALL | EE_GRID | EE_STR | EE_CHAN_HEADER | EE_CHAN_GROUPS | EE_CHAN_SLOT | EE_CLASS
  | EE_FLOAT | EE_FREQ | EE_INT | EE_IP4 | EE_IP6 | EE_OTHER nat

record eeprom_layout =
  el_key :: string
  el_offset :: nat
  el_size :: nat
  el_type :: ee_data_type

record eeprom =
  ee_mmap :: "u8 list ptr"
  ee_ready :: bool
  ee_dirty :: bool
  ee_corrupted :: bool
  ee_saved :: int
  ee_changed :: int

abbreviation (input) SIZE_MAX :: nat where "SIZE_MAX \<equiv> 18446744073709551615"
abbreviation (input) PIN_LEN :: nat where "PIN_LEN \<equiv> 8"

definition usable :: "eeprom \<Rightarrow> bool" where
  "usable st \<longleftrightarrow> ee_ready st \<and> \<not> ee_corrupted st"

subsection \<open>Lookup in the layout\<close>

text \<open>\<open>strncasecmp\<close> is limited to the length of the key that is looked for.\<close>

definition key_begins :: "string \<Rightarrow> string \<Rightarrow> bool" where
  "key_begins key k \<longleftrightarrow> map tolower (take (length key) k) = map tolower key"

fun find_key :: "string \<Rightarrow> eeprom_layout list \<Rightarrow> u32 \<Rightarrow> u32" where
  "find_key key [] idx = -1"
| "find_key key (e # es) idx = (if key_begins key (el_key e) then idx else find_key key es (idx + 1))"

definition eeprom_offset_index :: "eeprom_layout list \<Rightarrow> string ptr \<Rightarrow> u32" where
  "eeprom_offset_index layout key =
     (case key of None \<Rightarrow> -1 | Some k \<Rightarrow> if layout = [] then -1 else find_key k layout 0)"

definition entry_at :: "eeprom_layout list \<Rightarrow> u32 \<Rightarrow> eeprom_layout comp" where
  "entry_at layout idx = (if unat idx < length layout then Some (layout ! unat idx) else None)"

definition eeprom_offset_name :: "eeprom_layout list \<Rightarrow> u32 \<Rightarrow> string comp" where
  "eeprom_offset_name layout idx = map_option el_key (entry_at layout idx)"

subsection \<open>Opening the image\<close>

text \<open>The outcomes of \<open>open\<close>, \<open>fstat\<close> and \<open>mmap\<close>, and the contents of the file. A failed mapping
  ends the process.\<close>

definition eeprom_init :: "u8 list ptr \<Rightarrow> bool \<Rightarrow> bool \<Rightarrow> eeprom \<Rightarrow> (u32 \<times> eeprom) run" where
  "eeprom_init file stat_ok map_ok st =
     (case file of
        None \<Rightarrow> Done (-1, st)
      | Some bytes \<Rightarrow>
          if \<not> stat_ok then Done (-1, st)
          else if \<not> map_ok then Exit EXIT_FAILURE
          else Done (0, st\<lparr>ee_mmap := Some bytes, ee_ready := True\<rparr>))"

subsection \<open>Access by address\<close>

definition mem_read :: "nat \<Rightarrow> nat \<Rightarrow> eeprom \<Rightarrow> u8 list comp" where
  "mem_read off n st =
     (case ee_mmap st of None \<Rightarrow> None | Some m \<Rightarrow> if off + n \<le> length m then Some (take n (drop off m)) else None)"

text \<open>The loop stores \<open>len + 1\<close> bytes, each the sum of the first byte of the image, the offset and
  the position.\<close>

definition put_byte :: "nat \<Rightarrow> u8 \<Rightarrow> u8 list \<Rightarrow> u8 list comp" where
  "put_byte i b buf = (if i < length buf then Some (buf[i := b]) else None)"

function block_loop :: "nat \<Rightarrow> nat \<Rightarrow> u8 \<Rightarrow> nat \<Rightarrow> u8 list \<Rightarrow> u8 list comp" where
  "block_loop myoff len first offset buf =
     (if myoff \<le> len then
        do { buf \<leftarrow> put_byte myoff (first + of_nat offset + of_nat myoff) buf; block_loop (myoff + 1) len first offset buf }
      else Some buf)"
  by pat_completeness auto
termination by (relation "measure (\<lambda>(myoff, len, first, offset, buf). Suc len - myoff)") auto

declare block_loop.simps [simp del]

definition eeprom_read_block :: "u8 list ptr \<Rightarrow> nat \<Rightarrow> nat \<Rightarrow> eeprom \<Rightarrow> (u32 \<times> u8 list ptr) comp" where
  "eeprom_read_block buf offset len st =
     (if \<not> usable st then Some (-1, buf)
      else case ee_mmap st of
        None \<Rightarrow> Some (0, buf)
      | Some m \<Rightarrow>
          (case buf of
             None \<Rightarrow> Some (-1, buf)
           | Some b \<Rightarrow>
               if offset = 0 \<or> len = 0 then Some (-1, buf)
               else if m = [] then None
               else map_option (\<lambda>b. (0, Some b)) (block_loop 0 len (hd m) offset b)))"

definition eeprom_write :: "nat \<Rightarrow> u8 \<Rightarrow> eeprom \<Rightarrow> (u32 \<times> eeprom) comp" where
  "eeprom_write offset data st =
     (if \<not> usable st then Some (-1, st)
      else case ee_mmap st of
        None \<Rightarrow> Some (1, st)
      | Some m \<Rightarrow> map_option (\<lambda>m. (0, st\<lparr>ee_mmap := Some m\<rparr>)) (put_byte offset data m))"

definition eeprom_read :: "nat \<Rightarrow> eeprom \<Rightarrow> nat ptr" where
  "eeprom_read offset st =
     (if \<not> usable st \<or> offset = 0 then NULL else case ee_mmap st of None \<Rightarrow> NULL | Some m \<Rightarrow> Some offset)"

definition eeprom_write_block :: "eeprom \<Rightarrow> u32" where
  "eeprom_write_block st = -1"

subsection \<open>The checksum\<close>

definition crc_bit :: "u32 \<Rightarrow> u32" where
  "crc_bit c = (if c AND 1 \<noteq> 0 then drop_bit 1 c XOR 0xEDB88320 else drop_bit 1 c)"

definition crc_table :: "u32 list" where
  "crc_table = map (\<lambda>i. (crc_bit ^^ 8) (of_nat i)) [0..<256]"

fun crc_loop :: "u32 \<Rightarrow> u8 list \<Rightarrow> u32" where
  "crc_loop crc [] = crc"
| "crc_loop crc (p # ps) = crc_loop (crc_table ! unat ((crc XOR ucast p) AND 0xFF) XOR drop_bit 8 crc) ps"

definition crc32 :: "u32 \<Rightarrow> u8 list \<Rightarrow> u32" where
  "crc32 crc data = crc_loop (crc XOR 0xFFFFFFFF) data XOR 0xFFFFFFFF"

definition le32 :: "u8 list \<Rightarrow> u32" where
  "le32 bs = ucast (bs ! 0) OR push_bit 8 (ucast (bs ! 1)) OR push_bit 16 (ucast (bs ! 2)) OR push_bit 24 (ucast (bs ! 3))"

definition eeprom_checksum_generate :: "nat \<Rightarrow> eeprom \<Rightarrow> u32 comp" where
  "eeprom_checksum_generate EEPROM_SIZE st =
     (if ee_mmap st = NULL then Some 0
      else if EEPROM_SIZE < 4 then None
      else map_option (crc32 0) (mem_read 0 (EEPROM_SIZE - 4) st))"

text \<open>A wrong checksum ends the process; with nothing mapped both sums are zero.\<close>

definition eeprom_validate_checksum :: "nat \<Rightarrow> eeprom \<Rightarrow> bool run comp" where
  "eeprom_validate_checksum EEPROM_SIZE st =
     (if ee_mmap st = NULL then Some (Done False)
      else do {
        calc_sum \<leftarrow> eeprom_checksum_generate EEPROM_SIZE st;
        curr \<leftarrow> mem_read (EEPROM_SIZE - 4) 4 st;
        Some (if calc_sum \<noteq> le32 curr then Exit EXIT_FAILURE else Done False)
      })"

subsection \<open>Typed reads\<close>

definition eeprom_get_int_i :: "eeprom_layout list \<Rightarrow> u32 \<Rightarrow> eeprom \<Rightarrow> u32 comp" where
  "eeprom_get_int_i layout idx st =
     (if \<not> usable st \<or> idx = -1 then Some (-1)
      else do { e \<leftarrow> entry_at layout idx; bs \<leftarrow> mem_read (el_offset e) 4 st; Some (le32 bs) })"

definition eeprom_get_int :: "eeprom_layout list \<Rightarrow> string ptr \<Rightarrow> eeprom \<Rightarrow> u32 comp" where
  "eeprom_get_int layout key st =
     (if \<not> usable st then Some (-1) else eeprom_get_int_i layout (eeprom_offset_index layout key) st)"

text \<open>The value of the 32 bits of an IEEE single.\<close>

definition float_of_bits :: "u32 \<Rightarrow> cdouble" where
  "float_of_bits w =
     (let s = bit w 31; e = unat (drop_bit 23 w AND 0xFF); m = unat (w AND 0x7FFFFF)
      in if e = 255 then (if m = 0 then DInf s else DNaN)
         else if e = 0 then DFin s (of_nat m * pow2 (- 149))
         else DFin s (of_nat (2 ^ 23 + m) * pow2 (int e - 150)))"

definition eeprom_get_float_i :: "eeprom_layout list \<Rightarrow> u32 \<Rightarrow> eeprom \<Rightarrow> cdouble comp" where
  "eeprom_get_float_i layout idx st =
     (if \<not> usable st \<or> idx = -1 then Some (DFin True 1)
      else do { e \<leftarrow> entry_at layout idx; bs \<leftarrow> mem_read (el_offset e) 4 st; Some (float_of_bits (le32 bs)) })"

definition eeprom_get_float :: "eeprom_layout list \<Rightarrow> string ptr \<Rightarrow> eeprom \<Rightarrow> cdouble comp" where
  "eeprom_get_float layout key st =
     (if \<not> usable st then Some (DFin True 1) else eeprom_get_float_i layout (eeprom_offset_index layout key) st)"

definition bytes_text :: "u8 list \<Rightarrow> string" where
  "bytes_text bs = map char_of_byte (takeWhile (\<lambda>b. b \<noteq> 0) bs)"

text \<open>The static buffer has 256 bytes.\<close>

definition eeprom_get_str_i :: "eeprom_layout list \<Rightarrow> u32 \<Rightarrow> eeprom \<Rightarrow> string ptr comp" where
  "eeprom_get_str_i layout idx st =
     (if \<not> usable st \<or> idx = -1 then Some NULL
      else do {
        e \<leftarrow> entry_at layout idx;
        let len = (if el_size e = SIZE_MAX then 255 else el_size e) in
        if len \<ge> 256 then None
        else do { bs \<leftarrow> mem_read (el_offset e) len st; Some (Some (bytes_text bs)) }
      })"

definition eeprom_get_str :: "eeprom_layout list \<Rightarrow> string ptr \<Rightarrow> eeprom \<Rightarrow> string ptr comp" where
  "eeprom_get_str layout key st =
     (if \<not> usable st then Some NULL else eeprom_get_str_i layout (eeprom_offset_index layout key) st)"

text \<open>The address in network order, as it is stored.\<close>

definition eeprom_get_ip4 :: "eeprom_layout list \<Rightarrow> string ptr \<Rightarrow> u32 ptr \<Rightarrow> eeprom \<Rightarrow> u32 ptr comp" where
  "eeprom_get_ip4 layout key addr st =
     (if addr = NULL \<or> \<not> usable st then Some NULL
      else let idx = eeprom_offset_index layout key in
        if idx = -1 then Some NULL
        else do { e \<leftarrow> entry_at layout idx; bs \<leftarrow> mem_read (el_offset e) 4 st; Some (Some (le32 bs)) })"

definition eeprom_get_bool_i :: "eeprom_layout list \<Rightarrow> u32 \<Rightarrow> eeprom \<Rightarrow> bool comp" where
  "eeprom_get_bool_i layout idx st =
     (if \<not> usable st \<or> idx = -1 then Some False
      else do { e \<leftarrow> entry_at layout idx; bs \<leftarrow> mem_read (el_offset e) 1 st; Some (hd bs \<ge> 1) })"

definition eeprom_get_bool :: "eeprom_layout list \<Rightarrow> string ptr \<Rightarrow> eeprom \<Rightarrow> bool comp" where
  "eeprom_get_bool layout key st =
     (if \<not> usable st then Some False else eeprom_get_bool_i layout (eeprom_offset_index layout key) st)"

definition get_serial_number :: "eeprom_layout list \<Rightarrow> eeprom \<Rightarrow> u32 comp" where
  "get_serial_number layout st = (if \<not> usable st then Some (-1) else eeprom_get_int layout (Some ''dev/serial'') st)"

text \<open>The two PINs that are logged. A missing text has no defined formatting.\<close>

definition show_pin_info :: "eeprom_layout list \<Rightarrow> eeprom \<Rightarrow> (string \<times> string) option comp" where
  "show_pin_info layout st =
     (if \<not> usable st then Some None
      else do {
        show \<leftarrow> eeprom_get_int layout (Some ''pin/show'') st;
        if show = 0 then Some None
        else do {
          m \<leftarrow> eeprom_get_str layout (Some ''pin/master'') st; master \<leftarrow> m;
          r \<leftarrow> eeprom_get_str layout (Some ''pin/reset'') st; reset \<leftarrow> r;
          Some (Some (take PIN_LEN master, take PIN_LEN reset))
        }
      })"

subsection \<open>Loading and saving\<close>

text \<open>The text of a setting, which is cut to the 512 bytes of its buffer. An unknown type ends the
  process.\<close>

definition setting_text :: "eeprom_layout list \<Rightarrow> (u8 list \<Rightarrow> string) \<Rightarrow> u32 \<Rightarrow> eeprom_layout \<Rightarrow> eeprom \<Rightarrow> string run comp" where
  "setting_text layout inet_ntop i e st =
     (case el_type e of
        EE_BOOL \<Rightarrow> map_option (\<lambda>b. Done (if b then ''true'' else ''false'')) (eeprom_get_bool_i layout i st)
      | EE_CALL \<Rightarrow> do { t \<leftarrow> eeprom_get_str_i layout i st; s \<leftarrow> t; Some (Done s) }
      | EE_GRID \<Rightarrow> do { t \<leftarrow> eeprom_get_str_i layout i st; s \<leftarrow> t; Some (Done s) }
      | EE_STR \<Rightarrow> do { t \<leftarrow> eeprom_get_str_i layout i st; s \<leftarrow> t; Some (Done s) }
      | EE_CHAN_HEADER \<Rightarrow> Some (Done [])
      | EE_CHAN_GROUPS \<Rightarrow> Some (Done [])
      | EE_CHAN_SLOT \<Rightarrow> Some (Done [])
      | EE_CLASS \<Rightarrow> do { bs \<leftarrow> mem_read (el_offset e) 2 st; Some (Done (bytes_text bs)) }
      | EE_FLOAT \<Rightarrow> map_option (\<lambda>d. Done (fmt_f 3 d)) (eeprom_get_float_i layout i st)
      | EE_FREQ \<Rightarrow> map_option (\<lambda>d. Done (fmt_f 3 d)) (eeprom_get_float_i layout i st)
      | EE_INT \<Rightarrow> map_option (\<lambda>v. Done (show_nat (unat v) @ ''d'')) (eeprom_get_int_i layout i st)
      | EE_IP4 \<Rightarrow>
          do {
            bs \<leftarrow> mem_read (el_offset e) 4 st;
            Some (Done (concat [show_nat (unat (bs ! 0)), ''.'', show_nat (unat (bs ! 1)), ''.'', show_nat (unat (bs ! 2)), ''.'',
              show_nat (unat (bs ! 3))]))
          }
      | EE_IP6 \<Rightarrow> do { bs \<leftarrow> mem_read (el_offset e) 16 st; Some (Done (inet_ntop bs)) }
      | EE_OTHER n \<Rightarrow> Some (Exit EXIT_FAILURE))"

fun settings_loop :: "eeprom_layout list \<Rightarrow> (u8 list \<Rightarrow> string) \<Rightarrow> u32 \<Rightarrow> eeprom_layout list \<Rightarrow> eeprom \<Rightarrow> string list run comp" where
  "settings_loop layout inet_ntop i [] st = Some (Done [])"
| "settings_loop layout inet_ntop i (e # es) st =
     do {
       r \<leftarrow> setting_text layout inet_ntop i e st;
       (case r of
          Exit x \<Rightarrow> Some (Exit x)
        | Done s \<Rightarrow>
            do {
              rs \<leftarrow> settings_loop layout inet_ntop (i + 1) es st;
              Some (case rs of Exit x \<Rightarrow> Exit x | Done ss \<Rightarrow> Done (s # ss))
            })
     }"

text \<open>The texts are only logged, in builds that ask for it.\<close>

definition eeprom_load_config ::
  "eeprom_layout list \<Rightarrow> nat \<Rightarrow> (u8 list \<Rightarrow> string) \<Rightarrow> eeprom \<Rightarrow> (u32 \<times> string list \<times> eeprom) run comp" where
  "eeprom_load_config layout EEPROM_SIZE inet_ntop st =
     do {
       v \<leftarrow> eeprom_validate_checksum EEPROM_SIZE st;
       (case v of
          Exit x \<Rightarrow> Some (Exit x)
        | Done bad \<Rightarrow>
            if bad then Some (Done (-1, [], st\<lparr>ee_corrupted := True\<rparr>))
            else do {
              r \<leftarrow> settings_loop layout inet_ntop 0 layout st;
              Some (case r of Exit x \<Rightarrow> Exit x | Done ts \<Rightarrow> Done (0, ts, st))
            })
     }"

definition eeprom_write_config :: "nat \<Rightarrow> bool \<Rightarrow> eeprom \<Rightarrow> u32 comp" where
  "eeprom_write_config EEPROM_SIZE force st =
     (if \<not> ee_dirty st then Some 0
      else if ee_corrupted st \<and> \<not> force then Some (-1)
      else do { s \<leftarrow> eeprom_checksum_generate EEPROM_SIZE st; Some 0 })"

definition check_pending_eeprom_changes :: "eeprom \<Rightarrow> bool" where
  "check_pending_eeprom_changes st \<longleftrightarrow> ee_saved st < ee_changed st"

definition get_eeprom_change_age :: "eeprom \<Rightarrow> u32" where
  "get_eeprom_change_age st = 0"

text \<open>Nothing is committed yet.\<close>

definition write_pending_eeprom_changes :: "eeprom \<Rightarrow> bool" where
  "write_pending_eeprom_changes st = False"

subsection \<open>The CRC against its bitwise definition\<close>

text \<open>Eight shifts of the register for every byte.\<close>

definition crc_byte :: "u32 \<Rightarrow> u8 \<Rightarrow> u32" where
  "crc_byte c b = (crc_bit ^^ 8) (c XOR ucast b)"

definition crc_bitwise :: "u32 \<Rightarrow> u8 list \<Rightarrow> u32" where
  "crc_bitwise crc data = fold (\<lambda>b c. crc_byte c b) data (crc XOR 0xFFFFFFFF) XOR 0xFFFFFFFF"

lemma low_bit: "(c :: u32) AND 1 \<noteq> 0 \<longleftrightarrow> bit c 0"
  by (simp add: and_one_eq odd_iff_mod_2_eq_one bit_0)

lemma crc_bit_eq: "crc_bit c = drop_bit 1 c XOR (if bit c 0 then 0xEDB88320 else 0)"
  unfolding crc_bit_def low_bit by simp

lemma crc_bit_xor: "crc_bit (a XOR b) = crc_bit a XOR crc_bit b"
  by (rule bit_eqI) (auto simp: crc_bit_eq bit_xor_iff bit_drop_bit_eq)

lemma crc_bits_xor: "(crc_bit ^^ n) (a XOR b) = (crc_bit ^^ n) a XOR (crc_bit ^^ n) b"
  by (induction n) (simp_all add: crc_bit_xor)

text \<open>Bits that have not reached the end of the register are only shifted.\<close>

lemma crc_bits_shift: "(\<forall>i < n. \<not> bit c i) \<Longrightarrow> (crc_bit ^^ n) c = drop_bit n c"
proof (induction n arbitrary: c)
  case (Suc n)
  have "crc_bit c = drop_bit 1 c" using Suc.prems by (simp add: crc_bit_eq)
  moreover have "\<forall>i < n. \<not> bit (drop_bit 1 c) i" using Suc.prems by (simp add: bit_drop_bit_eq)
  ultimately show ?case using Suc.IH [of "drop_bit 1 c"] by (simp add: funpow_swap1 drop_bit_drop_bit)
qed simp

lemma byte_mask: "(c :: u32) AND 0xFF = take_bit 8 c"
  by (simp add: take_bit_eq_mask mask_eq_exp_minus_1)

lemma split_low: "(c :: u32) = take_bit 8 c XOR push_bit 8 (drop_bit 8 c)"
  by (rule bit_eqI) (auto simp: bit_simps)

lemma crc_table_at: "crc_table ! unat (take_bit 8 (c :: u32)) = (crc_bit ^^ 8) (take_bit 8 c)"
proof -
  have "unat (take_bit 8 c) < 256" using take_bit_nat_less_exp [of 8 "unat c"] by (simp add: unsigned_take_bit_eq)
  then show ?thesis unfolding crc_table_def by (subst nth_map) simp_all
qed

lemma drop_ucast: "drop_bit 8 (c XOR ucast (b :: u8)) = drop_bit 8 (c :: u32)"
  by (rule bit_eqI) (auto simp: bit_simps dest: bit_imp_le_length)

lemma crc_bits_high: "(crc_bit ^^ 8) (push_bit 8 x) = drop_bit 8 (push_bit 8 x)"
  by (rule crc_bits_shift) (simp add: bit_push_bit_iff)

lemma drop_high: "drop_bit 8 (push_bit 8 (drop_bit 8 c)) = drop_bit 8 (c :: u32)"
  by (rule bit_eqI) (auto simp: bit_simps dest: bit_imp_le_length)

lemma table_step: "crc_table ! unat ((c XOR ucast b) AND 0xFF) XOR drop_bit 8 c = crc_byte c b"
proof -
  let ?x = "c XOR ucast b :: u32"
  have "(crc_bit ^^ 8) ?x = (crc_bit ^^ 8) (take_bit 8 ?x) XOR (crc_bit ^^ 8) (push_bit 8 (drop_bit 8 ?x))"
    using split_low [of ?x] crc_bits_xor by metis
  then show ?thesis unfolding crc_byte_def byte_mask crc_table_at crc_bits_high drop_high drop_ucast by (rule sym)
qed

lemma crc_loop_fold: "crc_loop c data = fold (\<lambda>b c. crc_byte c b) data c"
  by (induction data arbitrary: c) (simp_all only: crc_loop.simps table_step fold_simps)

lemma crc32_bitwise: "crc32 crc data = crc_bitwise crc data"
  by (simp add: crc32_def crc_bitwise_def crc_loop_fold)

lemma crc32_append: "crc32 (crc32 crc a) b = crc32 crc (a @ b)"
  by (simp add: crc32_bitwise crc_bitwise_def xor.assoc)

subsection \<open>What the CRC detects\<close>

lemma crc_bit_top: "bit (crc_bit c) 31 \<longleftrightarrow> bit c 0"
  by (auto simp: crc_bit_eq bit_xor_iff bit_drop_bit_eq dest: bit_imp_le_length)

lemma crc_bit_zero: "crc_bit c = 0 \<Longrightarrow> c = 0"
proof -
  assume z: "crc_bit c = 0"
  have no: "\<not> bit c 0" using crc_bit_top [of c] unfolding z by simp
  then have d: "drop_bit 1 c = 0" using z by (simp add: crc_bit_eq)
  show "c = 0"
  proof (rule bit_eqI)
    fix n
    have "bit (drop_bit 1 c) (n - 1) = bit c n" if "n > 0" using that by (simp add: bit_drop_bit_eq)
    then show "bit c n \<longleftrightarrow> bit (0 :: u32) n" using no d by (cases n) auto
  qed
qed

lemma xor_zero: "(a :: u32) XOR b = 0 \<longleftrightarrow> a = b"
  by (auto simp: bit_eq_iff bit_xor_iff)

lemma xor_cancel: "(a :: u32) XOR c = b XOR c \<longleftrightarrow> a = b"
  by (auto simp: bit_eq_iff bit_xor_iff)

lemma crc_bits_zero: "(crc_bit ^^ n) c = 0 \<Longrightarrow> c = 0"
  by (induction n) (auto dest: crc_bit_zero)

lemma crc_bits_inj: "(crc_bit ^^ n) a = (crc_bit ^^ n) b \<longleftrightarrow> a = b"
  using crc_bits_zero [of n "a XOR b"] unfolding crc_bits_xor xor_zero by blast

lemma crc_byte_inj: "crc_byte a p = crc_byte b p \<longleftrightarrow> a = b"
  unfolding crc_byte_def crc_bits_inj xor_cancel ..

lemma fold_crc_inj: "fold (\<lambda>b c. crc_byte c b) data a = fold (\<lambda>b c. crc_byte c b) data b \<longleftrightarrow> a = b"
  by (induction data arbitrary: a b) (simp_all add: crc_byte_inj)

text \<open>Up to four bytes as one word, the first one lowest.\<close>

fun le_word :: "u8 list \<Rightarrow> u32" where
  "le_word [] = 0"
| "le_word (b # bs) = ucast b XOR push_bit 8 (le_word bs)"

lemma le_word_high: "bit (le_word bs) i \<Longrightarrow> i < 8 * length bs"
proof (induction bs arbitrary: i)
  case (Cons b bs)
  show ?case
  proof (rule ccontr)
    assume i: "\<not> i < 8 * length (b # bs)"
    then have "\<not> bit (le_word bs) (i - 8)" using Cons.IH [of "i - 8"] by auto
    moreover have "\<not> bit b i" using i bit_imp_le_length [of b i] by auto
    ultimately show False using Cons.prems by (simp add: bit_simps)
  qed
qed simp

lemma drop_push: "length bs \<le> 3 \<Longrightarrow> drop_bit 8 (push_bit 8 (le_word bs)) = le_word bs"
proof (rule bit_word_eqI)
  fix n
  assume "length bs \<le> 3" "n < LENGTH(32)"
  then show "bit (drop_bit 8 (push_bit 8 (le_word bs))) n = bit (le_word bs) n"
    using le_word_high [of bs n] by (auto simp: bit_simps)
qed

lemma ucast_byte_inj: "ucast (b :: u8) = (ucast d :: u32) \<longleftrightarrow> b = d"
proof
  assume "ucast b = (ucast d :: u32)"
  then have "unat (ucast b :: u32) = unat (ucast d :: u32)" by simp
  moreover have "unat x < 2 ^ 32" for x :: u8 using unsigned_less [of x, where ?'a = nat] by simp
  ultimately show "b = d" by (simp add: unsigned_ucast_eq take_bit_nat_eq_self word_unat_eq_iff)
qed simp

lemma le_word_inj: "length bs = length ds \<Longrightarrow> length bs \<le> 4 \<Longrightarrow> le_word bs = le_word ds \<longleftrightarrow> bs = ds"
proof (induction bs arbitrary: ds)
  case (Cons b bs)
  then obtain d ds' where ds: "ds = d # ds'" by (cases ds) auto
  have parts: "take_bit 8 (le_word (x # xs)) = ucast x" "drop_bit 8 (le_word (x # xs)) = le_word xs" if "length xs \<le> 3" for x xs
  proof -
    show "take_bit 8 (le_word (x # xs)) = ucast x"
      by (rule bit_eqI) (auto simp: bit_simps dest: bit_imp_le_length)
    have "drop_bit 8 (le_word (x # xs)) = drop_bit 8 (push_bit 8 (le_word xs))"
      using drop_ucast [of "push_bit 8 (le_word xs)" x] by (simp add: xor.commute)
    then show "drop_bit 8 (le_word (x # xs)) = le_word xs" using drop_push [OF that] by simp
  qed
  have len: "length bs \<le> 3" "length ds' \<le> 3" "length bs = length ds'" using Cons.prems ds by simp_all
  show ?case
  proof
    assume eq: "le_word (b # bs) = le_word ds"
    have "ucast b = (ucast d :: u32)" using parts(1) [OF len(1)] parts(1) [OF len(2)] eq ds by metis
    then have "b = d" unfolding ucast_byte_inj .
    moreover have "le_word bs = le_word ds'" using parts(2) [OF len(1)] parts(2) [OF len(2)] eq ds by metis
    then have "bs = ds'" using Cons.IH [OF len(3)] len(1) by simp
    ultimately show "b # bs = ds" using ds by simp
  qed simp
qed simp

lemma crc_bits_absorb: "length bs \<le> 3 \<Longrightarrow> (crc_bit ^^ 8) x XOR le_word bs = (crc_bit ^^ 8) (x XOR push_bit 8 (le_word bs))"
  by (simp only: crc_bits_xor crc_bits_high drop_push)

lemma crc_burst: "length bs \<le> 4 \<Longrightarrow> fold (\<lambda>b c. crc_byte c b) bs c = (crc_bit ^^ (8 * length bs)) (c XOR le_word bs)"
proof (induction bs arbitrary: c)
  case (Cons b bs)
  then have len: "length bs \<le> 3" by simp
  have "fold (\<lambda>b c. crc_byte c b) (b # bs) c = (crc_bit ^^ (8 * length bs)) (crc_byte c b XOR le_word bs)"
    using Cons.IH [of "crc_byte c b"] len by simp
  also have "crc_byte c b XOR le_word bs = (crc_bit ^^ 8) (c XOR le_word (b # bs))"
    unfolding crc_byte_def crc_bits_absorb [OF len] by (simp add: xor.assoc)
  also have "(crc_bit ^^ (8 * length bs)) ((crc_bit ^^ 8) (c XOR le_word (b # bs))) =
      (crc_bit ^^ (8 * length (b # bs))) (c XOR le_word (b # bs))"
  proof -
    have "8 * length (b # bs) = 8 * length bs + 8" by simp
    then show ?thesis by (simp only: funpow_add comp_apply)
  qed
  finally show ?case .
qed simp

text \<open>Any change within four consecutive bytes changes the CRC.\<close>

lemma crc_detects:
  assumes "length bad = length good" and "length good \<le> 4" and "bad \<noteq> good"
  shows "crc32 crc (pre @ bad @ post) \<noteq> crc32 crc (pre @ good @ post)"
proof -
  let ?f = "fold (\<lambda>b c. crc_byte c b)" and ?c = "fold (\<lambda>b c. crc_byte c b) pre (crc XOR 0xFFFFFFFF)"
  have "?f bad ?c \<noteq> ?f good ?c"
    using assms le_word_inj [of bad good] by (simp add: crc_burst crc_bits_inj xor.commute [of ?c] xor_cancel)
  then show ?thesis unfolding crc32_def crc_loop_fold xor_cancel fold_append comp_apply fold_crc_inj .
qed

subsection \<open>The check at start\<close>

text \<open>An image that passes the check: its last four bytes are the CRC of the bytes before them.\<close>

lemma validate_eq:
  assumes "ee_mmap st = Some m" and "4 \<le> n" and "n \<le> length m"
  shows "eeprom_validate_checksum n st =
    Some (if crc32 0 (take (n - 4) m) \<noteq> le32 (take 4 (drop (n - 4) m)) then Exit EXIT_FAILURE else Done False)"
  using assms by (simp add: eeprom_validate_checksum_def eeprom_checksum_generate_def mem_read_def)

text \<open>C27: a damaged image is refused. When an image passes the check at start, no image that differs from
  it within four consecutive bytes in front of the stored checksum does: the process ends
  instead of using its settings.\<close>

theorem eeprom_damage_detected:
  assumes "eeprom_validate_checksum n (st\<lparr>ee_mmap := Some (pre @ good @ post)\<rparr>) = Some (Done False)"
    and "length bad = length good" and "length good \<le> 4" and "bad \<noteq> good"
    and "4 \<le> n" and "n \<le> length (pre @ good @ post)" and "length (pre @ good) \<le> n - 4"
  shows "eeprom_validate_checksum n (st\<lparr>ee_mmap := Some (pre @ bad @ post)\<rparr>) = Some (Exit EXIT_FAILURE)"
proof -
  let ?k = "n - 4 - length (pre @ good)"
  have same: "take 4 (drop (n - 4) (pre @ x @ post)) = take 4 (drop ?k post)"
    and data: "take (n - 4) (pre @ x @ post) = pre @ x @ take ?k post" if "length x = length good" for x
    using that assms(7) by (simp_all add: add.assoc)
  have "crc32 0 (pre @ good @ take ?k post) = le32 (take 4 (drop ?k post))"
    using assms(1) validate_eq [OF _ assms(5), of "st\<lparr>ee_mmap := Some (pre @ good @ post)\<rparr>" "pre @ good @ post"] assms(6)
    by (simp only: eeprom.simps same [OF refl] data [OF refl] option.inject if_split_eq1 simp_thms refl) (auto split: if_splits)
  then have "crc32 0 (pre @ bad @ take ?k post) \<noteq> le32 (take 4 (drop ?k post))"
    using crc_detects [OF assms(2-4), of 0 pre "take ?k post"] by simp
  then show ?thesis
    using validate_eq [of "st\<lparr>ee_mmap := Some (pre @ bad @ post)\<rparr>" "pre @ bad @ post" n] same [OF assms(2)] data [OF assms(2)] assms(2,5,6)
    by simp
qed

text \<open>C23: the CRC is the one of the bitwise definition, the table only speeds it up, and a checksum can be
  continued: the CRC of a text is that of its second part started with that of the first.\<close>

theorem crc32_equivalent:
  "crc32 crc data = crc_bitwise crc data \<and> crc32 (crc32 crc data) rest = crc32 crc (data @ rest)"
  by (simp only: crc32_bitwise [symmetric] crc32_append simp_thms)

lemma split_at_byte: "i < length m \<Longrightarrow> m = take i m @ [m ! i] @ drop (Suc i) m \<and> m[i := b] = take i m @ [b] @ drop (Suc i) m"
  using id_take_nth_drop [of i m] upd_conv_take_nth_drop [of i m b] by simp

lemma spoiled:
  assumes "eeprom_validate_checksum n st = Some (Done False)" and "ee_mmap st = Some m" and "4 \<le> n" and "n \<le> length m"
    and "i < n - 4" and "m ! i \<noteq> b"
  shows "eeprom_validate_checksum n (st\<lparr>ee_mmap := Some (m[i := b])\<rparr>) = Some (Exit EXIT_FAILURE)"
proof -
  have i: "i < length m" using assms(4,5) by simp
  have st: "st\<lparr>ee_mmap := Some m\<rparr> = st" using assms(2) by (cases st) simp
  have d: "crc32 0 (take (n - 4) (m[i := b])) \<noteq> crc32 0 (take (n - 4) m)"
  proof -
    let ?d = "take (n - 4) m"
    have "i < length ?d" using assms(3-5) by simp
    from split_at_byte [OF this, of b] have s: "?d = take i ?d @ [?d ! i] @ drop (Suc i) ?d" "?d[i := b] = take i ?d @ [b] @ drop (Suc i) ?d"
      by simp_all
    have "crc32 0 (take i ?d @ [b] @ drop (Suc i) ?d) \<noteq> crc32 0 (take i ?d @ [?d ! i] @ drop (Suc i) ?d)"
      by (rule crc_detects) (use assms(5,6) in auto)
    then show ?thesis using s by (simp add: take_update_swap)
  qed
  have "crc32 0 (take (n - 4) m) = le32 (take 4 (drop (n - 4) m))"
    using assms(1) unfolding validate_eq [OF assms(2-4)] by (simp split: if_splits)
  moreover have "drop (n - 4) (m[i := b]) = drop (n - 4) m" using assms(5) by (simp add: drop_update_cancel)
  ultimately show ?thesis
    using d validate_eq [of "st\<lparr>ee_mmap := Some (m[i := b])\<rparr>" "m[i := b]" n] assms(3,4) by simp
qed

text \<open>A setting that is written cannot be loaded again. A write changes exactly the byte it names;
  saving the configuration, forced or not, does not update the stored checksum; and
  the next load ends the process.\<close>

theorem write_spoils_image:
  assumes "usable st" and "ee_mmap st = Some m" and "4 \<le> n" and "n \<le> length m"
    and "eeprom_validate_checksum n st = Some (Done False)" and "i < n - 4" and "m ! i \<noteq> b"
  shows "\<exists>st'. eeprom_write i b st = Some (0, st') \<and> ee_mmap st' = Some (m[i := b]) \<and>
    eeprom_write_config n force (st'\<lparr>ee_dirty := True\<rparr>) = Some 0 \<and>
    eeprom_load_config layout n inet_ntop st' = Some (Exit EXIT_FAILURE)"
proof -
  let ?s = "st\<lparr>ee_mmap := Some (m[i := b])\<rparr>"
  have "eeprom_write i b st = Some (0, ?s)" using assms by (simp add: eeprom_write_def put_byte_def)
  moreover have "eeprom_write_config n force (?s\<lparr>ee_dirty := True\<rparr>) = Some 0"
    using assms(1,3,4) by (simp add: eeprom_write_config_def usable_def eeprom_checksum_generate_def mem_read_def)
  moreover have "eeprom_load_config layout n inet_ntop ?s = Some (Exit EXIT_FAILURE)"
    unfolding eeprom_load_config_def spoiled [OF assms(5,2-4,6,7)] by simp
  ultimately show ?thesis by force
qed

subsection \<open>Lookup and typed reads\<close>

lemma find_key_first:
  "(\<forall>i < j. \<not> key_begins key (el_key (es ! i))) \<Longrightarrow> j < length es \<Longrightarrow> key_begins key (el_key (es ! j)) \<Longrightarrow>
     find_key key es idx = idx + of_nat j"
proof (induction es arbitrary: j idx)
  case (Cons e es)
  then show ?case
  proof (cases j)
    case (Suc k)
    have "\<not> key_begins key (el_key e)" using Cons.prems(1) Suc by force
    moreover have "find_key key es (idx + 1) = idx + 1 + of_nat k"
      using Cons.IH [of k] Cons.prems Suc by force
    ultimately show ?thesis using Suc by (simp add: add.assoc)
  qed simp
qed simp

lemma find_key_none: "(\<forall>e \<in> set es. \<not> key_begins key (el_key e)) \<Longrightarrow> find_key key es idx = -1"
  by (induction es arbitrary: idx) auto

text \<open>The lookup takes the first entry that begins with the key: an abbreviation finds a setting, and
  a longer name in front of a shorter one hides it.\<close>

lemma longer_name_hides:
  "eeprom_offset_index [\<lparr>el_key = ''pin/master2'', el_offset = 8, el_size = 8, el_type = EE_STR\<rparr>,
     \<lparr>el_key = ''pin/master'', el_offset = 16, el_size = 8, el_type = EE_STR\<rparr>] (Some ''PIN/master'') = 0"
  by code_simp

text \<open>The bytes of the image a setting takes, and the settings that can be read.\<close>

definition setting_bytes :: "eeprom_layout \<Rightarrow> nat" where
  "setting_bytes e =
     (case el_type e of
        EE_BOOL \<Rightarrow> 1 | EE_CLASS \<Rightarrow> 2 | EE_FLOAT \<Rightarrow> 4 | EE_FREQ \<Rightarrow> 4 | EE_INT \<Rightarrow> 4 | EE_IP4 \<Rightarrow> 4 | EE_IP6 \<Rightarrow> 16
      | EE_CHAN_HEADER \<Rightarrow> 0 | EE_CHAN_GROUPS \<Rightarrow> 0 | EE_CHAN_SLOT \<Rightarrow> 0 | EE_OTHER n \<Rightarrow> 0
      | _ \<Rightarrow> if el_size e = SIZE_MAX then 255 else el_size e)"

definition setting_fits :: "nat \<Rightarrow> eeprom_layout \<Rightarrow> bool" where
  "setting_fits n e \<longleftrightarrow>
     el_type e \<in> {EE_CHAN_HEADER, EE_CHAN_GROUPS, EE_CHAN_SLOT} \<or> setting_bytes e \<le> 255 \<and> el_offset e + setting_bytes e \<le> n"

definition known_type :: "eeprom_layout \<Rightarrow> bool" where
  "known_type e \<longleftrightarrow> (case el_type e of EE_OTHER n \<Rightarrow> False | _ \<Rightarrow> True)"

lemma mem_read_fits: "ee_mmap st = Some m \<Longrightarrow> off + k \<le> length m \<Longrightarrow> mem_read off k st = Some (take k (drop off m))"
  by (simp add: mem_read_def)

lemma setting_defined:
  assumes "usable st" and "ee_mmap st = Some m" and "entry_at layout i = Some e" and "i \<noteq> -1"
    and "setting_fits (length m) e" and "known_type e"
  shows "\<exists>s. setting_text layout inet_ntop i e st = Some (Done s)"
proof -
  note g = setting_text_def eeprom_get_str_i_def eeprom_get_int_i_def eeprom_get_bool_i_def eeprom_get_float_i_def
  note r = mem_read_fits [OF assms(2)]
  have f: "setting_bytes e \<le> 255 \<and> el_offset e + setting_bytes e \<le> length m"
    if "el_type e \<notin> {EE_CHAN_HEADER, EE_CHAN_GROUPS, EE_CHAN_SLOT}" using assms(5) that by (simp add: setting_fits_def)
  show ?thesis
    by (cases "el_type e") (use assms(1,3,4,6) f in \<open>auto simp: g r setting_bytes_def known_type_def Let_def split: if_splits\<close>)
qed

lemma settings_defined:
  assumes "usable st" and "ee_mmap st = Some m" and "length layout < 2 ^ 32"
    and "list_all (\<lambda>e. setting_fits (length m) e \<and> known_type e) layout"
  shows "layout = pre @ es \<Longrightarrow> \<exists>ss. settings_loop layout inet_ntop (of_nat (length pre)) es st = Some (Done ss) \<and> length ss = length es"
proof (induction es arbitrary: pre)
  case (Cons e es)
  let ?i = "of_nat (length pre) :: u32"
  have "length pre < 2 ^ 32 - 1" using assms(3) Cons.prems by simp
  then have n: "unat ?i = length pre" by (simp add: unsigned_of_nat take_bit_nat_eq_self)
  have "?i \<noteq> -1"
  proof
    assume "?i = -1"
    then have "unat ?i = unat (-1 :: u32)" by simp
    also have "unat (-1 :: u32) = mask 32" by (simp add: unsigned_minus_1_eq_mask)
    finally have "unat ?i = 2 ^ 32 - 1" by (simp add: mask_eq_exp_minus_1)
    then show False using n \<open>length pre < 2 ^ 32 - 1\<close> by simp
  qed
  moreover have "entry_at layout ?i = Some e" using n Cons.prems by (simp add: entry_at_def)
  moreover have "setting_fits (length m) e" "known_type e" using assms(4) Cons.prems by simp_all
  ultimately obtain s where s: "setting_text layout inet_ntop ?i e st = Some (Done s)"
    using setting_defined [OF assms(1,2)] by blast
  obtain ss where "settings_loop layout inet_ntop (of_nat (length (pre @ [e]))) es st = Some (Done ss)" "length ss = length es"
    using Cons.IH [of "pre @ [e]"] Cons.prems by auto
  then show ?case using s by (simp add: add.commute)
qed simp

text \<open>C28: loading is safe when the layout fits. For an image that passes the check and a layout of known
  types whose settings lie within the image and whose texts have at most 255 bytes, loading
  reads no byte outside the image or the buffer and returns 0 with a text for each setting.\<close>

theorem load_config_defined:
  assumes "usable st" and "ee_mmap st = Some m" and "eeprom_validate_checksum n st = Some (Done False)"
    and "length layout < 2 ^ 32" and "list_all (\<lambda>e. setting_fits (length m) e \<and> known_type e) layout"
  shows "\<exists>ts. eeprom_load_config layout n inet_ntop st = Some (Done (0, ts, st)) \<and> length ts = length layout"
  using settings_defined [OF assms(1,2,4,5), of "[]" layout inet_ntop] assms(3) by (auto simp: eeprom_load_config_def)

text \<open>A text of 256 bytes in the layout overruns the buffer, by the byte of its terminator.\<close>

lemma long_text_overruns:
  "usable st \<Longrightarrow> entry_at layout i = Some e \<Longrightarrow> i \<noteq> -1 \<Longrightarrow> 256 \<le> el_size e \<Longrightarrow> el_size e \<noteq> SIZE_MAX \<Longrightarrow>
     eeprom_get_str_i layout i st = None"
  by (simp add: eeprom_get_str_i_def)

text \<open>Reading a block stores one byte more than was asked for: a buffer of exactly that length is
  overrun. What is stored depends on the first byte of the image only.\<close>

lemma block_loop_overruns: "length buf \<le> len \<Longrightarrow> i \<le> len \<Longrightarrow> block_loop i len first off buf = None"
proof (induction "len - i" arbitrary: i buf)
  case 0
  then have "i = len" by simp
  then show ?case using 0 by (subst block_loop.simps) (simp add: put_byte_def)
next
  case (Suc k)
  then have "block_loop (i + 1) len first off (buf[i := b]) = None" for b by (intro Suc.hyps(1)) auto
  then show ?case using Suc.prems by (subst block_loop.simps) (simp add: put_byte_def)
qed

lemma read_block_overruns:
  "usable st \<Longrightarrow> ee_mmap st = Some (b # m) \<Longrightarrow> 0 < off \<Longrightarrow> 0 < length buf \<Longrightarrow>
     eeprom_read_block (Some buf) off (length buf) st = None"
  by (simp add: eeprom_read_block_def block_loop_overruns)

lemma read_block_ignores_contents:
  "eeprom_read_block buf off len (st\<lparr>ee_mmap := Some (b # m)\<rparr>) = eeprom_read_block buf off len (st\<lparr>ee_mmap := Some (b # m')\<rparr>)"
  by (cases buf) (simp_all add: eeprom_read_block_def usable_def)

text \<open>The conversion \<open>%ud\<close> puts a letter behind a number.\<close>

lemma int_text_has_letter:
  "el_type e = EE_INT \<Longrightarrow> eeprom_get_int_i layout i st = Some v \<Longrightarrow>
     setting_text layout inet_ntop i e st = Some (Done (show_nat (unat v) @ ''d''))"
  by (simp add: setting_text_def)

text \<open>When the setting \<open>pin/show\<close> does not exist, the error value counts as a request to show the PINs.\<close>

lemma missing_show_shows:
  assumes "usable st" and "eeprom_offset_index layout (Some ''pin/show'') = -1"
    and "eeprom_get_str layout (Some ''pin/master'') st = Some (Some p)" and "eeprom_get_str layout (Some ''pin/reset'') st = Some (Some q)"
  shows "show_pin_info layout st = Some (Some (take 8 p, take 8 q))"
  using assms by (simp add: show_pin_info_def eeprom_get_int_def eeprom_get_int_i_def)

subsection \<open>An example image\<close>

text \<open>One byte of data, the letter A, and its checksum.\<close>

definition image_A :: eeprom where
  "image_A = \<lparr>ee_mmap = Some [0x41, 0x8B, 0x9E, 0xD9, 0xD3], ee_ready = True, ee_dirty = False, ee_corrupted = False,
     ee_saved = 0, ee_changed = 0\<rparr>"

lemma crc32_A: "crc32 0 [0x41] = 0xD3D99E8B"
  unfolding crc32_bitwise by code_simp

lemma image_A: "usable image_A" "ee_mmap image_A = Some [0x41, 0x8B, 0x9E, 0xD9, 0xD3]"
    "eeprom_validate_checksum 5 image_A = Some (Done False)"
  by (simp_all add: image_A_def usable_def validate_eq crc32_A) (simp add: le32_def)

theorem eeprom_damage_detected_witness:
  "eeprom_validate_checksum 5 (image_A\<lparr>ee_mmap := Some ([] @ [0x42] @ [0x8B, 0x9E, 0xD9, 0xD3])\<rparr>) = Some (Exit EXIT_FAILURE)"
  by (rule eeprom_damage_detected [where good = "[0x41]"]) (use image_A(3) in \<open>simp_all add: image_A_def\<close>)

theorem write_spoils_image_witness:
  "\<exists>st'. eeprom_write 0 0x42 image_A = Some (0, st') \<and> ee_mmap st' = Some ([0x41, 0x8B, 0x9E, 0xD9, 0xD3][0 := 0x42]) \<and>
    eeprom_write_config 5 True (st'\<lparr>ee_dirty := True\<rparr>) = Some 0 \<and>
    eeprom_load_config [] 5 (\<lambda>bs. []) st' = Some (Exit EXIT_FAILURE)"
  by (rule write_spoils_image [OF image_A(1,2) _ _ image_A(3)]) simp_all

theorem load_config_defined_witness:
  "\<exists>ts. eeprom_load_config [\<lparr>el_key = ''radio/on'', el_offset = 0, el_size = 1, el_type = EE_BOOL\<rparr>] 5 (\<lambda>bs. []) image_A =
      Some (Done (0, ts, image_A)) \<and> length ts = length [\<lparr>el_key = ''radio/on'', el_offset = 0, el_size = 1, el_type = EE_BOOL\<rparr>]"
  by (rule load_config_defined [OF image_A]) (simp_all add: setting_fits_def setting_bytes_def known_type_def)

end
