(* ===== verification/Scheduler.thy ===== *)
theory Scheduler
  imports Prelude
begin

text \<open>
  Scheduling of worker threads (\<open>scheduler.c\<close>, built for Linux): applying and querying the
  scheduling class, priority and niceness of a thread, and the named profiles. The operating
  system is an argument: a record of the calls the code makes over an arbitrary state, each
  with its result as the manual pages give it (-1 is failure).
\<close>

subsection \<open>Options\<close>

text \<open>A class outside the enumeration is possible in C.\<close>

datatype ra_sched_class = RA_SCHED_NORMAL | RA_SCHED_BATCH | RA_SCHED_IDLE | RA_SCHED_FIFO | RA_SCHED_RR | RA_SCHED_BAD int

record ra_sched_options =
  so_policy :: ra_sched_class
  so_priority :: int
  so_nice :: int
  so_set_nice :: bool

abbreviation SCHED_OTHER :: int where "SCHED_OTHER \<equiv> 0"
abbreviation SCHED_FIFO :: int where "SCHED_FIFO \<equiv> 1"
abbreviation SCHED_RR :: int where "SCHED_RR \<equiv> 2"
abbreviation SCHED_BATCH :: int where "SCHED_BATCH \<equiv> 3"
abbreviation SCHED_IDLE :: int where "SCHED_IDLE \<equiv> 5"

datatype errno = ENOTSUP | EINVAL | FromSystem

text \<open>The calls: the range of priorities of a policy, the policy and its priority, and the niceness,
  where \<open>getpriority\<close> reports an error apart from its result.\<close>

record 's os =
  os_priority_min :: "int \<Rightarrow> int"
  os_priority_max :: "int \<Rightarrow> int"
  os_setscheduler :: "int \<Rightarrow> int \<Rightarrow> int \<Rightarrow> 's \<Rightarrow> int \<times> 's"
  os_getscheduler :: "int \<Rightarrow> 's \<Rightarrow> int"
  os_getparam :: "int \<Rightarrow> 's \<Rightarrow> int option"
  os_setpriority :: "int \<Rightarrow> int \<Rightarrow> 's \<Rightarrow> int \<times> 's"
  os_getpriority :: "int \<Rightarrow> 's \<Rightarrow> int option"

subsection \<open>Operations\<close>

definition native_policy :: "ra_sched_class \<Rightarrow> int" where
  "native_policy policy =
     (case policy of
        RA_SCHED_NORMAL \<Rightarrow> SCHED_OTHER
      | RA_SCHED_IDLE \<Rightarrow> SCHED_IDLE
      | RA_SCHED_BATCH \<Rightarrow> SCHED_BATCH
      | RA_SCHED_FIFO \<Rightarrow> SCHED_FIFO
      | RA_SCHED_RR \<Rightarrow> SCHED_RR
      | RA_SCHED_BAD n \<Rightarrow> -1)"

text \<open>\<open>Inl\<close> is a result of -1 with the error number.\<close>

definition ra_sched_apply :: "'s os \<Rightarrow> int \<Rightarrow> ra_sched_options ptr \<Rightarrow> 's \<Rightarrow> (errno + unit) \<times> 's" where
  "ra_sched_apply os pid options s =
     (case options of
        None \<Rightarrow> (Inl EINVAL, s)
      | Some opts \<Rightarrow>
          if pid < 0 then (Inl EINVAL, s)
          else let policy = native_policy (so_policy opts) in
            if policy < 0 then (Inl ENOTSUP, s)
            else let min = os_priority_min os policy; max = os_priority_max os policy in
              if min < 0 \<or> max < 0 then (Inl FromSystem, s)
              else if so_priority opts < min \<or> so_priority opts > max \<or>
                so_set_nice opts \<and> (so_nice opts < -20 \<or> so_nice opts > 19) then (Inl EINVAL, s)
              else let (r, s) = os_setscheduler os pid policy (so_priority opts) s in
                if r < 0 then (Inl FromSystem, s)
                else if so_set_nice opts then
                  (let (r, s) = os_setpriority os pid (so_nice opts) s in (if r < 0 then Inl FromSystem else Inr (), s))
                else (Inr (), s))"

definition ra_sched_drop_rt :: "'s os \<Rightarrow> int \<Rightarrow> int \<Rightarrow> 's \<Rightarrow> (errno + unit) \<times> 's" where
  "ra_sched_drop_rt os pid nice_value s =
     ra_sched_apply os pid (Some \<lparr>so_policy = RA_SCHED_NORMAL, so_priority = 0, so_nice = nice_value, so_set_nice = True\<rparr>) s"

definition class_of_policy :: "int \<Rightarrow> ra_sched_class option" where
  "class_of_policy policy =
     (if policy = SCHED_OTHER then Some RA_SCHED_NORMAL
      else if policy = SCHED_FIFO then Some RA_SCHED_FIFO
      else if policy = SCHED_RR then Some RA_SCHED_RR
      else if policy = SCHED_BATCH then Some RA_SCHED_BATCH
      else if policy = SCHED_IDLE then Some RA_SCHED_IDLE
      else None)"

definition no_options :: ra_sched_options where
  "no_options = \<lparr>so_policy = RA_SCHED_NORMAL, so_priority = 0, so_nice = 0, so_set_nice = False\<rparr>"

text \<open>The options are filled in as far as the query gets.\<close>

definition ra_sched_query :: "'s os \<Rightarrow> int \<Rightarrow> ra_sched_options ptr \<Rightarrow> 's \<Rightarrow> (errno + unit) \<times> ra_sched_options ptr" where
  "ra_sched_query os pid options s =
     (if options = NULL \<or> pid < 0 then (Inl EINVAL, options)
      else let policy = os_getscheduler os pid s in
        if policy < 0 then (Inl FromSystem, options)
        else case class_of_policy policy of
          None \<Rightarrow> (Inl ENOTSUP, Some no_options)
        | Some c \<Rightarrow>
            let out = no_options\<lparr>so_policy := c\<rparr> in
            case os_getparam os pid s of
              None \<Rightarrow> (Inl FromSystem, Some out)
            | Some p \<Rightarrow>
                let out = out\<lparr>so_priority := p\<rparr> in
                case os_getpriority os pid s of
                  None \<Rightarrow> (Inl FromSystem, Some (out\<lparr>so_nice := -1\<rparr>))
                | Some n \<Rightarrow> (Inr (), Some (out\<lparr>so_nice := n, so_set_nice := True\<rparr>)))"

definition ra_sched_class_name :: "ra_sched_class \<Rightarrow> string" where
  "ra_sched_class_name policy =
     (case policy of
        RA_SCHED_NORMAL \<Rightarrow> ''normal''
      | RA_SCHED_BATCH \<Rightarrow> ''batch''
      | RA_SCHED_IDLE \<Rightarrow> ''idle''
      | RA_SCHED_FIFO \<Rightarrow> ''fifo''
      | RA_SCHED_RR \<Rightarrow> ''rr''
      | RA_SCHED_BAD n \<Rightarrow> ''unknown'')"

definition profile :: "string \<Rightarrow> ra_sched_options option" where
  "profile name =
     (if name = ''background'' then Some (no_options\<lparr>so_policy := RA_SCHED_BATCH, so_set_nice := True, so_nice := 5\<rparr>)
      else if name = ''idle'' then Some (no_options\<lparr>so_policy := RA_SCHED_IDLE, so_set_nice := True, so_nice := 10\<rparr>)
      else if name = ''interactive'' then Some (no_options\<lparr>so_policy := RA_SCHED_NORMAL, so_set_nice := True, so_nice := -2\<rparr>)
      else if name = ''realtime-audio'' then Some (no_options\<lparr>so_policy := RA_SCHED_RR, so_priority := 10\<rparr>)
      else None)"

definition ra_sched_apply_profile :: "'s os \<Rightarrow> int \<Rightarrow> string ptr \<Rightarrow> 's \<Rightarrow> (errno + unit) \<times> 's" where
  "ra_sched_apply_profile os pid name s =
     (let n = (case name of None \<Rightarrow> [] | Some n \<Rightarrow> n) in
      if n = [] \<or> n = ''normal'' then
        let existing = os_getscheduler os pid s in
        if existing < 0 then (Inl FromSystem, s)
        else if existing = SCHED_OTHER then (Inr (), s)
        else ra_sched_apply os pid (Some no_options) s
      else case profile n of
        None \<Rightarrow> (Inl EINVAL, s)
      | Some p \<Rightarrow> ra_sched_apply os pid (Some p) s)"

subsection \<open>Reading back what was set\<close>

text \<open>What the code relies on: a successful call sets what it names for the thread, and nothing
  else that is read back; the policy it reads is never negative then.\<close>

definition os_ok :: "'s os \<Rightarrow> bool" where
  "os_ok os \<longleftrightarrow>
     (\<forall>pid policy prio s s'. fst (os_setscheduler os pid policy prio s) \<ge> 0 \<longrightarrow> snd (os_setscheduler os pid policy prio s) = s' \<longrightarrow>
        os_getscheduler os pid s' = policy \<and> os_getparam os pid s' = Some prio \<and> os_getpriority os pid s' = os_getpriority os pid s) \<and>
     (\<forall>pid n s s'. fst (os_setpriority os pid n s) \<ge> 0 \<longrightarrow> snd (os_setpriority os pid n s) = s' \<longrightarrow>
        os_getpriority os pid s' = Some n \<and> os_getscheduler os pid s' = os_getscheduler os pid s \<and>
        os_getparam os pid s' = os_getparam os pid s)"

lemma class_of_native: "native_policy c \<ge> 0 \<Longrightarrow> class_of_policy (native_policy c) = Some c"
  by (cases c) (simp_all add: native_policy_def class_of_policy_def)

text \<open>Options that were applied are read back: a successful apply with a niceness is followed by a
  query that succeeds and yields the same options. A failed apply with arguments that the code
  itself rejects changes nothing.\<close>

theorem sched_apply_query:
  assumes "os_ok os" and "so_set_nice opts" and "ra_sched_apply os pid (Some opts) s = (r, s')"
  shows "(r = Inr () \<longrightarrow> ra_sched_query os pid (Some any) s' = (Inr (), Some opts)) \<and>
    (r \<in> {Inl EINVAL, Inl ENOTSUP} \<longrightarrow> s' = s)"
proof -
  let ?p = "native_policy (so_policy opts)"
  obtain r1 s1 where s1: "os_setscheduler os pid ?p (so_priority opts) s = (r1, s1)" by (cases "os_setscheduler os pid ?p (so_priority opts) s")
  obtain r2 s2 where s2: "os_setpriority os pid (so_nice opts) s1 = (r2, s2)" by (cases "os_setpriority os pid (so_nice opts) s1")
  have "r = Inr () \<Longrightarrow> ra_sched_query os pid (Some any) s' = (Inr (), Some opts)"
  proof -
    assume r: "r = Inr ()"
    then have ok: "\<not> pid < 0" "\<not> ?p < 0" "\<not> r1 < 0" "\<not> r2 < 0" "s' = s2"
      using assms(2,3) s1 s2 by (auto simp: ra_sched_apply_def Let_def split: if_splits)
    have a: "os_getscheduler os pid s1 = ?p" "os_getparam os pid s1 = Some (so_priority opts)"
      using assms(1) s1 ok(3) unfolding os_ok_def by (metis fst_conv snd_conv not_less)+
    have b: "os_getpriority os pid s2 = Some (so_nice opts)" "os_getscheduler os pid s2 = ?p" "os_getparam os pid s2 = Some (so_priority opts)"
      using assms(1) s2 ok(4) a unfolding os_ok_def by (metis fst_conv snd_conv not_less)+
    then show ?thesis
      using ok(1,2,5) class_of_native [of "so_policy opts"] assms(2)
      by (cases opts) (simp add: ra_sched_query_def no_options_def)
  qed
  moreover have "r \<in> {Inl EINVAL, Inl ENOTSUP} \<Longrightarrow> s' = s"
    using assms(3) by (auto simp: ra_sched_apply_def Let_def split: if_splits prod.splits)
  ultimately show ?thesis by blast
qed

text \<open>A system with one thread, whose state is the policy, the priority and the niceness.\<close>

definition one_thread :: "(int \<times> int \<times> int) os" where
  "one_thread =
     \<lparr>os_priority_min = \<lambda>p. if p \<in> {SCHED_FIFO, SCHED_RR} then 1 else 0, os_priority_max = \<lambda>p. if p \<in> {SCHED_FIFO, SCHED_RR} then 99 else 0,
      os_setscheduler = \<lambda>pid p prio (p0, prio0, n). (0, (p, prio, n)), os_getscheduler = \<lambda>pid (p, prio, n). p,
      os_getparam = \<lambda>pid (p, prio, n). Some prio, os_setpriority = \<lambda>pid n (p, prio, n0). (0, (p, prio, n)),
      os_getpriority = \<lambda>pid (p, prio, n). Some n\<rparr>"

lemma one_thread_ok: "os_ok one_thread"
  by (auto simp: os_ok_def one_thread_def)

theorem sched_apply_query_witness:
  "ra_sched_apply one_thread 7 (profile ''idle'') (0, 0, 0) = (Inr (), (5, 0, 10)) \<and>
   ra_sched_query one_thread 7 (Some no_options) (5, 0, 10) = (Inr (), profile ''idle'')"
proof -
  let ?o = "no_options\<lparr>so_policy := RA_SCHED_IDLE, so_set_nice := True, so_nice := 10\<rparr>"
  have p: "profile ''idle'' = Some ?o" by (simp add: profile_def)
  have a: "ra_sched_apply one_thread 7 (Some ?o) (0, 0, 0) = (Inr (), (5, 0, 10))"
    by (simp add: ra_sched_apply_def one_thread_def native_policy_def no_options_def)
  have "so_set_nice ?o" by simp
  from sched_apply_query [OF one_thread_ok this a, of no_options] show ?thesis using a by (simp add: p)
qed

text \<open>Every named profile is accepted by a system whose priority ranges are those of Linux, unless a
  call fails; the real-time one needs the range of \<open>SCHED_RR\<close> to contain 10.\<close>

lemma profiles_valid:
  "profile name = Some p \<Longrightarrow> ra_sched_apply one_thread 7 (Some p) s = (Inr (), s') \<or> fst (ra_sched_apply one_thread 7 (Some p) s) = Inr ()"
  by (cases s) (auto simp: profile_def ra_sched_apply_def one_thread_def native_policy_def no_options_def split: if_splits)

text \<open>A niceness that could not be set is reported as a failure, but the new policy stays in force.\<close>

lemma partial_apply:
  assumes "os_setpriority os pid (so_nice opts) s1 = (-1, s2)" and "os_setscheduler os pid (native_policy (so_policy opts)) (so_priority opts) s = (0, s1)"
    and "0 \<le> pid" and "0 \<le> native_policy (so_policy opts)" and "so_set_nice opts" and "-20 \<le> so_nice opts" and "so_nice opts \<le> 19"
    and "0 \<le> os_priority_min os (native_policy (so_policy opts))"
    and "os_priority_min os (native_policy (so_policy opts)) \<le> so_priority opts" and "so_priority opts \<le> os_priority_max os (native_policy (so_policy opts))"
  shows "ra_sched_apply os pid (Some opts) s = (Inl FromSystem, s2)"
  using assms by (simp add: ra_sched_apply_def Let_def)

text \<open>The profile without a name does not reset the niceness: a thread that ran in the background and
  is made normal keeps the niceness 5.\<close>

lemma normal_keeps_nice:
  "ra_sched_apply_profile one_thread 7 (Some ''normal'') (SCHED_BATCH, 0, 5) = (Inr (), (SCHED_OTHER, 0, 5))"
  by (simp add: ra_sched_apply_profile_def ra_sched_apply_def one_thread_def native_policy_def no_options_def)

end
