(* ===== verification/Subproc.thy ===== *)
theory Subproc
  imports Scheduler C_Numbers
begin

text \<open>
  Child processes (\<open>subproc.c\<close>). The descriptors of a process are a map from numbers to open files
  with their close-on-exec flag, as POSIX has them: a new descriptor is the lowest free number, a
  duplicate made by \<open>dup2\<close> has the flag cleared, \<open>exec\<close> closes the flagged ones. What else the
  system answers is an argument: the outcome of \<open>fork\<close>, allocation, \<open>exec\<close>, signals and waiting.
\<close>

subsection \<open>Descriptors\<close>

datatype open_file = Pipe_Read nat | Pipe_Write nat | File nat

type_synonym fds = "nat \<Rightarrow> (open_file \<times> bool) option"

record kernel =
  k_fds :: fds
  k_limit :: nat
  k_pipes :: nat

definition lowest_free :: "fds \<Rightarrow> nat \<Rightarrow> nat \<Rightarrow> nat option" where
  "lowest_free fds first limit = List.find (\<lambda>n. fds n = None) [first..<limit]"

definition fd_at :: "fds \<Rightarrow> int \<Rightarrow> (open_file \<times> bool) option" where
  "fd_at fds fd = (if fd < 0 then None else fds (nat fd))"

definition close_fd :: "int \<Rightarrow> fds \<Rightarrow> fds" where
  "close_fd fd fds = (if fd < 0 then fds else fds(nat fd := None))"

definition dupfd_cloexec :: "int \<Rightarrow> nat \<Rightarrow> kernel \<Rightarrow> nat option \<times> kernel" where
  "dupfd_cloexec fd first k =
     (case fd_at (k_fds k) fd of
        None \<Rightarrow> (None, k)
      | Some (f, c) \<Rightarrow>
          (case lowest_free (k_fds k) first (k_limit k) of
             None \<Rightarrow> (None, k)
           | Some n \<Rightarrow> (Some n, k\<lparr>k_fds := (k_fds k)(n \<mapsto> (f, True))\<rparr>)))"

definition dup2 :: "nat \<Rightarrow> nat \<Rightarrow> nat \<Rightarrow> fds \<Rightarrow> fds option" where
  "dup2 limit old new fds =
     (case fds old of
        None \<Rightarrow> None
      | Some (f, c) \<Rightarrow> if new \<ge> limit then None else if old = new then Some fds else Some (fds(new \<mapsto> (f, False))))"

text \<open>The read and the write end of a new pipe.\<close>

definition new_pipe :: "kernel \<Rightarrow> (nat \<times> nat) option \<times> kernel" where
  "new_pipe k =
     (case lowest_free (k_fds k) 0 (k_limit k) of
        None \<Rightarrow> (None, k)
      | Some r \<Rightarrow>
          let fds = (k_fds k)(r \<mapsto> (Pipe_Read (k_pipes k), False)) in
          (case lowest_free fds 0 (k_limit k) of
             None \<Rightarrow> (None, k)
           | Some w \<Rightarrow> (Some (r, w), k\<lparr>k_fds := fds(w \<mapsto> (Pipe_Write (k_pipes k), False)), k_pipes := k_pipes k + 1\<rparr>)))"

definition set_cloexec :: "nat \<Rightarrow> fds \<Rightarrow> fds option" where
  "set_cloexec fd fds = (case fds fd of None \<Rightarrow> None | Some (f, c) \<Rightarrow> Some (fds(fd \<mapsto> (f, True))))"

definition exec_fds :: "fds \<Rightarrow> fds" where
  "exec_fds fds = (\<lambda>n. case fds n of Some (f, False) \<Rightarrow> Some (f, False) | _ \<Rightarrow> None)"

subsection \<open>Handles\<close>

record subproc =
  sp_pid :: int
  sp_input :: "nat ptr"
  sp_output :: "nat ptr"
  sp_error_fd :: int
  sp_running :: bool

definition subproc_reset :: "subproc \<Rightarrow> subproc" where
  "subproc_reset p = \<lparr>sp_pid = -1, sp_input = NULL, sp_output = NULL, sp_error_fd = -1, sp_running = False\<rparr>"

definition close_stream :: "nat ptr \<Rightarrow> fds \<Rightarrow> fds" where
  "close_stream s fds = (case s of None \<Rightarrow> fds | Some fd \<Rightarrow> fds(fd := None))"

definition subproc_close :: "subproc \<Rightarrow> kernel \<Rightarrow> subproc \<times> kernel" where
  "subproc_close p k =
     (p\<lparr>sp_input := NULL, sp_output := NULL, sp_error_fd := -1\<rparr>,
      k\<lparr>k_fds := close_fd (sp_error_fd p) (close_stream (sp_output p) (close_stream (sp_input p) (k_fds k)))\<rparr>)"

subsection \<open>Spawning with mappings\<close>

text \<open>The checks of the mappings, and the first number that is no target.\<close>

fun scan_mappings :: "(int \<times> int) list \<Rightarrow> int list \<Rightarrow> int \<Rightarrow> int option" where
  "scan_mappings [] seen first = Some first"
| "scan_mappings ((s, t) # ms) seen first =
     (if s < 0 \<or> t < 0 \<or> t = INT_MAX then None
      else if t \<in> set seen then None
      else scan_mappings ms (seen @ [t]) (if t \<ge> first then t + 1 else first))"

fun dup_sources :: "(int \<times> int) list \<Rightarrow> nat \<Rightarrow> kernel \<Rightarrow> nat list \<times> bool \<times> kernel" where
  "dup_sources [] first k = ([], True, k)"
| "dup_sources ((s, t) # ms) first k =
     (case dupfd_cloexec s first k of
        (None, k) \<Rightarrow> ([], False, k)
      | (Some n, k) \<Rightarrow> let (ds, ok, k) = dup_sources ms first k in (n # ds, ok, k))"

fun dup_targets :: "nat \<Rightarrow> (nat \<times> int) list \<Rightarrow> fds \<Rightarrow> fds option" where
  "dup_targets limit [] fds = Some fds"
| "dup_targets limit ((d, t) # r) fds = Option.bind (dup2 limit d (nat t) fds) (dup_targets limit r)"

definition close_all :: "nat list \<Rightarrow> fds \<Rightarrow> fds" where
  "close_all ds fds = foldl (\<lambda>fds d. fds(d := None)) fds ds"

definition close_listed :: "int list \<Rightarrow> int list \<Rightarrow> fds \<Rightarrow> fds" where
  "close_listed targets cs fds = foldl (\<lambda>fds c. if c \<notin> set targets \<and> c \<ge> 0 then fds(nat c := None) else fds) fds cs"

text \<open>How the child ends up: it exits with a status, or the program runs with its descriptors and
  its state of scheduling.\<close>

datatype 's child = Child_Exit nat | Child_Exec fds 's

record 's spawn_env =
  se_malloc :: bool
  se_fork :: "nat option"
  se_setpgid :: bool
  se_os :: "'s os"
  se_sched :: 's
  se_execv :: bool
  se_fdopen :: "bool \<times> bool"

definition child_run ::
  "'s spawn_env \<Rightarrow> nat \<Rightarrow> nat list \<Rightarrow> (int \<times> int) list \<Rightarrow> int list \<Rightarrow> bool \<Rightarrow> string ptr \<Rightarrow> fds \<Rightarrow> 's child" where
  "child_run env limit sources mappings close_fds grp prof fds =
     (if grp \<and> \<not> se_setpgid env then Child_Exit 126
      else case dup_targets limit (zip sources (map snd mappings)) fds of
        None \<Rightarrow> Child_Exit 126
      | Some fds1 \<Rightarrow>
          let fds3 = close_listed (map snd mappings) close_fds (close_all sources fds1);
              (r, s) = ra_sched_apply_profile (se_os env) 0 prof (se_sched env)
          in if se_execv env then Child_Exec (exec_fds fds3) s else Child_Exit 127)"

text \<open>The arrays are lists with their length; \<open>argv\<close> is the list up to its \<open>NULL\<close>.\<close>

definition subproc_spawn_fds_impl ::
  "'s spawn_env \<Rightarrow> subproc \<Rightarrow> string ptr \<Rightarrow> string list ptr \<Rightarrow> (int \<times> int) list \<Rightarrow> int list \<Rightarrow> bool \<Rightarrow> string ptr \<Rightarrow> kernel \<Rightarrow>
   bool \<times> subproc \<times> kernel \<times> 's child option" where
  "subproc_spawn_fds_impl env p path argv mappings close_fds grp prof k =
     (if sp_pid p > 0 \<or> path = NULL \<or> path = Some [] \<or> argv = NULL \<or> argv = Some [] then (False, p, k, None)
      else case scan_mappings mappings [] 3 of
        None \<Rightarrow> (False, p, k, None)
      | Some first \<Rightarrow>
          if mappings \<noteq> [] \<and> \<not> se_malloc env then (False, p, k, None)
          else
            let (sources, ok, k1) = dup_sources mappings (nat first) k; k2 = k1\<lparr>k_fds := close_all sources (k_fds k1)\<rparr> in
            (case (if ok then se_fork env else None) of
               None \<Rightarrow> (False, p, k2, None)
             | Some pid \<Rightarrow>
                 (True, (subproc_reset p)\<lparr>sp_pid := int pid, sp_running := True\<rparr>, k2,
                  Some (child_run env (k_limit k) sources mappings close_fds grp prof (k_fds k1)))))"

definition subproc_spawn_fds where
  "subproc_spawn_fds env p path argv mappings close_fds k =
     subproc_spawn_fds_impl env p path argv mappings close_fds False NULL k"

definition subproc_spawn_fds_profile where
  "subproc_spawn_fds_profile env p path argv mappings close_fds prof k =
     subproc_spawn_fds_impl env p path argv mappings close_fds False prof k"

subsection \<open>Stopping\<close>

datatype wait_result = W_child | W_none | W_echild | W_eintr | W_error

datatype kill_result = K_ok | K_esrch | K_error

text \<open>The answers to come: two signals, the waits that do not block, and the ones that do.\<close>

record stop_env =
  st_kill :: kill_result
  st_waits :: "wait_result list"
  st_kill9 :: kill_result
  st_last_waits :: "wait_result list"

datatype poll_end = Collected | Gave_up

fun wait_loop :: "nat \<Rightarrow> wait_result list \<Rightarrow> poll_end" where
  "wait_loop 0 ws = Gave_up"
| "wait_loop (Suc i) [] = wait_loop i []"
| "wait_loop (Suc i) (w # ws) =
     (if w = W_child \<or> w = W_echild then Collected
      else if w = W_error then Gave_up
      else wait_loop i ws)"

text \<open>The blocking wait: \<open>None\<close> while it is interrupted or waits on. A wait without \<open>WNOHANG\<close> never
  answers that there is nothing.\<close>

fun blocking_wait :: "wait_result list \<Rightarrow> unit comp" where
  "blocking_wait [] = None"
| "blocking_wait (w # ws) = (if w = W_eintr then blocking_wait ws else Some ())"

definition subproc_stop :: "stop_env \<Rightarrow> subproc \<Rightarrow> kernel \<Rightarrow> (bool \<times> subproc \<times> kernel) comp" where
  "subproc_stop env p k =
     (let (p, k) = subproc_close p k in
      if sp_pid p \<le> 0 then Some (True, subproc_reset p, k)
      else if st_kill env = K_error then Some (False, p, k)
      else if wait_loop 20 (st_waits env) = Collected then Some (True, subproc_reset p, k)
      else if st_kill9 env = K_error then Some (False, p, k)
      else do {
        _ \<leftarrow> blocking_wait (st_last_waits env);
        Some (True, subproc_reset p, k)
      })"

text \<open>\<open>W_child\<close> comes with the status.\<close>

definition subproc_reap :: "wait_result \<Rightarrow> nat \<Rightarrow> subproc \<Rightarrow> bool \<times> subproc \<times> nat option" where
  "subproc_reap w status p =
     (if sp_pid p \<le> 0 then (False, p, None)
      else case w of
        W_none \<Rightarrow> (False, p, None)
      | W_child \<Rightarrow> (True, p\<lparr>sp_pid := -1, sp_running := False\<rparr>, Some status)
      | W_echild \<Rightarrow> (False, p\<lparr>sp_pid := -1, sp_running := False\<rparr>, None)
      | _ \<Rightarrow> (False, p, None))"

subsection \<open>Spawning with pipes\<close>

definition ends :: "(nat \<times> nat) option \<Rightarrow> int list" where
  "ends p = (case p of None \<Rightarrow> [] | Some (r, w) \<Rightarrow> [int r, int w])"

fun set_cloexec_all :: "int list \<Rightarrow> fds \<Rightarrow> fds option" where
  "set_cloexec_all [] fds = Some fds"
| "set_cloexec_all (fd # r) fds = Option.bind (set_cloexec (nat fd) fds) (set_cloexec_all r)"

definition close_ints :: "int list \<Rightarrow> fds \<Rightarrow> fds" where
  "close_ints cs fds = foldl (\<lambda>fds c. close_fd c fds) fds cs"

text \<open>The three pipes as far as they could be opened, and whether all could.\<close>

definition open_pipes :: "bool \<Rightarrow> kernel \<Rightarrow> (nat \<times> nat) option \<times> (nat \<times> nat) option \<times> (nat \<times> nat) option \<times> bool \<times> kernel" where
  "open_pipes merge_stderr k =
     (case new_pipe k of
        (None, k) \<Rightarrow> (None, None, None, False, k)
      | (Some i, k) \<Rightarrow>
          (case new_pipe k of
             (None, k) \<Rightarrow> (Some i, None, None, False, k)
           | (Some u, k) \<Rightarrow>
               if merge_stderr then (Some i, Some u, None, True, k)
               else (case new_pipe k of
                   (None, k) \<Rightarrow> (Some i, Some u, None, False, k)
                 | (Some e, k) \<Rightarrow> (Some i, Some u, Some e, True, k))))"

text \<open>The mappings onto the standard descriptors.\<close>

definition pipe_mappings :: "bool \<Rightarrow> (nat \<times> nat) option \<Rightarrow> (nat \<times> nat) option \<Rightarrow> (nat \<times> nat) option \<Rightarrow> (int \<times> int) list" where
  "pipe_mappings merge_stderr i u e =
     [(int (fst (the i)), 0), (int (snd (the u)), 1), (int (if merge_stderr then snd (the u) else snd (the e)), 2)]"

text \<open>What the parent does with its ends once the child runs.\<close>

definition attach_pipes ::
  "'s spawn_env \<Rightarrow> stop_env \<Rightarrow> bool \<Rightarrow> (nat \<times> nat) option \<Rightarrow> (nat \<times> nat) option \<Rightarrow> (nat \<times> nat) option \<Rightarrow> subproc \<Rightarrow> kernel \<Rightarrow>
   (bool \<times> subproc \<times> kernel) comp" where
  "attach_pipes env stop merge_stderr i u e p k =
     (let k = k\<lparr>k_fds := close_ints ([int (fst (the i)), int (snd (the u))] @ (if merge_stderr then [] else [int (snd (the e))])) (k_fds k)\<rparr>;
          p = p\<lparr>sp_input := (if fst (se_fdopen env) then Some (snd (the i)) else NULL),
                sp_output := (if snd (se_fdopen env) then Some (fst (the u)) else NULL),
                sp_error_fd := (if merge_stderr then -1 else int (fst (the e))),
                sp_running := fst (se_fdopen env) \<and> snd (se_fdopen env)\<rparr>
      in if sp_running p then Some (True, p, k)
      else
        let fds = close_ints ((if sp_input p = NULL then [int (snd (the i))] else []) @
            (if sp_output p = NULL then [int (fst (the u))] else [])) (k_fds k)
        in do {
          (_, p, k) \<leftarrow> subproc_stop stop p (k\<lparr>k_fds := fds\<rparr>);
          Some (False, p, k)
        })"

definition subproc_spawn_pipes ::
  "'s spawn_env \<Rightarrow> stop_env \<Rightarrow> subproc \<Rightarrow> string ptr \<Rightarrow> string list ptr \<Rightarrow> bool \<Rightarrow> bool \<Rightarrow> kernel \<Rightarrow>
   (bool \<times> subproc \<times> kernel \<times> 's child option) comp" where
  "subproc_spawn_pipes env stop p path argv merge_stderr grp k =
     (if sp_pid p > 0 \<or> path = NULL \<or> path = Some [] \<or> argv = NULL \<or> argv = Some [] then Some (False, p, k, None)
      else
        let p = subproc_reset p; (i, u, e, ok, k) = open_pipes merge_stderr k; cs = ends i @ ends u @ ends e in
        if \<not> ok then Some (False, p, k\<lparr>k_fds := close_ints cs (k_fds k)\<rparr>, None)
        else
          (case set_cloexec_all cs (k_fds k) of
             None \<Rightarrow> Some (False, p, k\<lparr>k_fds := close_ints cs (k_fds k)\<rparr>, None)
           | Some fds \<Rightarrow>
               let (started, p, k, c) =
                 subproc_spawn_fds_impl env p path argv (pipe_mappings merge_stderr i u e) cs grp NULL (k\<lparr>k_fds := fds\<rparr>) in
               if \<not> started then Some (False, p, k\<lparr>k_fds := close_ints cs (k_fds k)\<rparr>, c)
               else do {
                 (r, p, k) \<leftarrow> attach_pipes env stop merge_stderr i u e p k;
                 Some (r, p, k, c)
               }))"

definition subproc_spawn where
  "subproc_spawn env stop p path argv merge_stderr k = subproc_spawn_pipes env stop p path argv merge_stderr False k"

definition subproc_spawn_group where
  "subproc_spawn_group env stop p path argv merge_stderr k = subproc_spawn_pipes env stop p path argv merge_stderr True k"

subsection \<open>Lines\<close>

datatype poll_result = Poll_eintr | Poll_error | Poll_timeout | Poll_events bool

text \<open>\<open>Poll_events\<close> tells whether there is input or a hang-up among the events. \<open>None\<close> while the waiting
  is interrupted.\<close>

fun poll_input :: "poll_result list \<Rightarrow> bool comp" where
  "poll_input [] = None"
| "poll_input (r # rs) =
     (case r of
        Poll_eintr \<Rightarrow> poll_input rs
      | Poll_events b \<Rightarrow> Some b
      | _ \<Rightarrow> Some False)"

text \<open>\<open>fgets\<close> on what the stream delivers until its end: the line, or no line, and the rest.\<close>

definition fgets_line :: "nat \<Rightarrow> string \<Rightarrow> string option \<times> string" where
  "fgets_line len s =
     (let l = takeWhile (\<lambda>c. c \<noteq> CHR 0x0A) s; m = (if l = s then length s else length l + 1); n = min m (len - 1) in
      if s = [] then (None, []) else (Some (take n s), drop n s))"

text \<open>\<open>line\<close> is a buffer of \<open>len\<close> bytes, or \<open>NULL\<close>.\<close>

definition subproc_read_line :: "subproc \<Rightarrow> nat ptr \<Rightarrow> poll_result list \<Rightarrow> string \<Rightarrow> (string option \<times> string) comp" where
  "subproc_read_line p line polls stream =
     (if \<not> sp_running p \<or> sp_output p = NULL then Some (None, stream)
      else case line of
        None \<Rightarrow> Some (None, stream)
      | Some len \<Rightarrow>
          if len < 2 then Some (None, stream)
          else do {
            ready \<leftarrow> poll_input polls;
            Some (if ready then fgets_line len stream else (None, stream))
          })"

text \<open>\<open>ok\<close> tells whether the writes succeed.\<close>

definition subproc_write_line :: "subproc \<Rightarrow> string ptr \<Rightarrow> bool \<Rightarrow> bool \<times> string" where
  "subproc_write_line p line ok =
     (if \<not> sp_running p \<or> sp_input p = NULL then (False, [])
      else case line of None \<Rightarrow> (False, []) | Some s \<Rightarrow> (ok, s @ [CHR 0x0A]))"

subsection \<open>Descriptors of the child\<close>

lemma lowest_freeD: "lowest_free fds first limit = Some n \<Longrightarrow> fds n = None \<and> first \<le> n \<and> n < limit"
  by (auto simp: lowest_free_def find_Some_iff)

lemma close_all_at: "close_all ds fds n = (if n \<in> set ds then None else fds n)"
  by (induction ds arbitrary: fds) (auto simp: close_all_def)

lemma close_listed_at:
  "close_listed ts cs fds n = (if int n \<in> set cs \<and> int n \<notin> set ts then None else fds n)"
proof (induction cs arbitrary: fds)
  case (Cons c cs)
  have step: "close_listed ts (c # cs) fds = close_listed ts cs (if c \<notin> set ts \<and> c \<ge> 0 then fds(nat c := None) else fds)"
    by (simp add: close_listed_def)
  show ?case unfolding step Cons.IH by auto
qed (simp add: close_listed_def)

lemma close_ints_at: "close_ints cs fds n = (if int n \<in> set cs then None else fds n)"
proof (induction cs arbitrary: fds)
  case (Cons c cs)
  have step: "close_ints (c # cs) fds = close_ints cs (close_fd c fds)" by (simp add: close_ints_def)
  show ?case unfolding step Cons.IH by (auto simp: close_fd_def)
qed (simp add: close_ints_def)

lemma scan_mappings_ok:
  assumes "scan_mappings ms seen first = Some f"
  shows "first \<le> f" and "\<forall>(s, t) \<in> set ms. 0 \<le> s \<and> 0 \<le> t \<and> t < f"
    and "distinct (map snd ms)" and "set (map snd ms) \<inter> set seen = {}"
proof -
  have "first \<le> f \<and> (\<forall>(s, t) \<in> set ms. 0 \<le> s \<and> 0 \<le> t \<and> t < f) \<and> distinct (map snd ms) \<and> set (map snd ms) \<inter> set seen = {}"
    using assms
  proof (induction ms seen first rule: scan_mappings.induct)
    case (2 s t ms seen first)
    let ?first = "if t \<ge> first then t + 1 else first"
    have c: "0 \<le> s" "0 \<le> t" "t \<notin> set seen" "scan_mappings ms (seen @ [t]) ?first = Some f"
      using "2.prems" by (simp_all split: if_splits)
    have "?first \<le> f \<and> (\<forall>(s, t) \<in> set ms. 0 \<le> s \<and> 0 \<le> t \<and> t < f) \<and> distinct (map snd ms) \<and> set (map snd ms) \<inter> set (seen @ [t]) = {}"
      using "2.IH" "2.prems" c(4) by (auto split: if_splits)
    then show ?case using c by (auto split: if_splits)
  qed simp
  then show "first \<le> f" "\<forall>(s, t) \<in> set ms. 0 \<le> s \<and> 0 \<le> t \<and> t < f" "distinct (map snd ms)" "set (map snd ms) \<inter> set seen = {}"
    by auto
qed

lemma dupfd_cases:
  assumes "dupfd_cloexec s first k = (r, k')"
  shows "k_limit k' = k_limit k" and "k_pipes k' = k_pipes k"
    and "case r of None \<Rightarrow> k' = k | Some n \<Rightarrow> k_fds k n = None \<and> first \<le> n \<and>
      (\<exists>f c. fd_at (k_fds k) s = Some (f, c) \<and> k_fds k' = (k_fds k)(n \<mapsto> (f, True)))"
  using assms by (auto simp: dupfd_cloexec_def dest: lowest_freeD split: option.splits prod.splits)

text \<open>Duplicating adds fresh numbers, one for each source.\<close>

lemma dup_sources_ok:
  assumes "dup_sources ms first k = (ds, ok, k')"
  shows "distinct ds \<and> (\<forall>d \<in> set ds. k_fds k d = None \<and> first \<le> d) \<and> (\<forall>n. n \<notin> set ds \<longrightarrow> k_fds k' n = k_fds k n) \<and>
    k_limit k' = k_limit k \<and> k_pipes k' = k_pipes k \<and>
    (ok \<longrightarrow> (\<forall>(s, t) \<in> set ms. fd_at (k_fds k) s \<noteq> None) \<longrightarrow> length ds = length ms \<and>
      (\<forall>i < length ms. k_fds k' (ds ! i) = Some (fst (the (fd_at (k_fds k) (fst (ms ! i)))), True)))"
  using assms
proof (induction ms first k arbitrary: ds ok k' rule: dup_sources.induct)
  case (2 s t ms first k)
  show ?case
  proof (cases "dupfd_cloexec s first k")
    case (Pair r k1)
    note c = dupfd_cases [OF Pair]
    show ?thesis
    proof (cases r)
      case None
      then show ?thesis using "2.prems" Pair c by simp
    next
      case (Some n)
      obtain ds1 k2 where rec: "dup_sources ms first k1 = (ds1, ok, k2)" "ds = n # ds1" "k' = k2"
        using "2.prems" Pair Some by (auto split: prod.splits)
      obtain f b where n: "k_fds k n = None" "first \<le> n" "fd_at (k_fds k) s = Some (f, b)" "k_fds k1 = (k_fds k)(n \<mapsto> (f, True))"
        using c(3) Some by auto
      note ih = "2.IH" [OF Pair [symmetric] Some rec(1)]
      have nd: "n \<notin> set ds1" using ih n(4) by force
      have same: "fd_at (k_fds k1) x = fd_at (k_fds k) x" if "fd_at (k_fds k) x \<noteq> None" for x
        using that n(1,4) by (auto simp: fd_at_def split: if_splits)
      have fresh: "k_fds k d = None \<and> first \<le> d" if "d \<in> set ds1" for d
        using that ih n(4) by (cases "d = n") auto
      have out: "k_fds k2 m = k_fds k m" if "m \<notin> set ds" for m using that ih n(4) rec(2) by auto
      have top: "k_fds k2 n = Some (f, True)" using ih nd n(4) by auto
      have len: "length ds = length ((s, t) # ms) \<and>
          (\<forall>i < length ((s, t) # ms). k_fds k' (ds ! i) = Some (fst (the (fd_at (k_fds k) (fst (((s, t) # ms) ! i)))), True))"
        if "ok" and src: "\<forall>(s, t) \<in> set ((s, t) # ms). fd_at (k_fds k) s \<noteq> None"
      proof -
        have "\<forall>(s, t) \<in> set ms. fd_at (k_fds k1) s \<noteq> None" using src same by auto
        then have l: "length ds1 = length ms" "\<forall>i < length ms. k_fds k2 (ds1 ! i) = Some (fst (the (fd_at (k_fds k1) (fst (ms ! i)))), True)"
          using ih \<open>ok\<close> by auto
        have "fd_at (k_fds k1) (fst (ms ! i)) = fd_at (k_fds k) (fst (ms ! i))" if "i < length ms" for i
          using src same [of "fst (ms ! i)"] nth_mem [OF that] by (cases "ms ! i") auto
        then show ?thesis using l top n(3) rec(2,3) by (auto simp: nth_Cons split: nat.splits)
      qed
      show ?thesis using nd fresh out len ih n(1,2) c(1,2) rec(2,3) by auto
    qed
  qed
qed simp

lemma dup_targets_at:
  assumes "dup_targets limit (zip ds ts) fds = Some fds'" and "length ds = length ts" and "distinct ts"
    and "\<forall>t \<in> set ts. 0 \<le> t \<and> nat t \<notin> set ds"
  shows "(\<forall>i < length ts. \<exists>f c. fds (ds ! i) = Some (f, c) \<and> fds' (nat (ts ! i)) = Some (f, False)) \<and>
    (\<forall>n. int n \<notin> set ts \<longrightarrow> fds' n = fds n)"
  using assms
proof (induction ts arbitrary: ds fds)
  case (Cons t ts)
  then obtain d ds1 where ds: "ds = d # ds1" by (cases ds) auto
  obtain f c where f: "fds d = Some (f, c)" using Cons.prems(1) by (auto simp: ds dup2_def split: option.splits)
  have dt: "d \<noteq> nat t" using Cons.prems(4) by (auto simp: ds)
  have rec: "dup_targets limit (zip ds1 ts) (fds(nat t \<mapsto> (f, False))) = Some fds'"
    using Cons.prems(1) dt by (auto simp: ds f dup2_def split: if_splits)
  note ih = Cons.IH [OF rec]
  have ih: "\<forall>i < length ts. \<exists>g c. (fds(nat t \<mapsto> (f, False))) (ds1 ! i) = Some (g, c) \<and> fds' (nat (ts ! i)) = Some (g, False)"
    "\<forall>n. int n \<notin> set ts \<longrightarrow> fds' n = (fds(nat t \<mapsto> (f, False))) n"
    using ih Cons.prems(2-4) by (auto simp: ds)
  have keep: "(fds(nat t \<mapsto> (f, False))) (ds1 ! i) = fds (ds1 ! i)" if "i < length ts" for i
  proof -
    have "ds1 ! i \<in> set ds1" using Cons.prems(2) that by (simp add: ds)
    moreover have "nat t \<notin> set ds1" using Cons.prems(4) by (simp add: ds)
    ultimately have "ds1 ! i \<noteq> nat t" by metis
    then show ?thesis by simp
  qed
  have "fds' (nat t) = Some (f, False)" using ih(2) Cons.prems(3,4) by auto
  then show ?case using ih keep f Cons.prems(4) by (auto simp: ds nth_Cons split: nat.splits)
qed simp

text \<open>The descriptors of the program that runs in the child.\<close>

lemma child_descriptors:
  assumes s: "scan_mappings ms [] 3 = Some first" and d: "dup_sources ms (nat first) k = (ds, True, k1)"
    and src: "\<forall>(s, t) \<in> set ms. fd_at (k_fds k) s \<noteq> None"
    and c: "child_run env (k_limit k) ds ms cs grp prof (k_fds k1) = Child_Exec fds z"
  shows "(\<forall>(s, t) \<in> set ms. fds (nat t) = Some (fst (the (fd_at (k_fds k) s)), False)) \<and>
    (\<forall>n. int n \<notin> snd ` set ms \<longrightarrow> fds n = (if int n \<in> set cs then None else exec_fds (k_fds k) n))"
proof -
  note sm = scan_mappings_ok [OF s]
  note dk = dup_sources_ok [OF d]
  have len: "length ds = length ms" and at: "\<forall>i < length ms. k_fds k1 (ds ! i) = Some (fst (the (fd_at (k_fds k) (fst (ms ! i)))), True)"
    using dk src by auto
  obtain fds1 where t: "dup_targets (k_limit k) (zip ds (map snd ms)) (k_fds k1) = Some fds1"
    and e: "fds = exec_fds (close_listed (map snd ms) cs (close_all ds fds1))"
    using c by (auto simp: child_run_def Let_def split: if_splits option.splits prod.splits)
  have apart: "0 \<le> t \<and> nat t \<notin> set ds" if "t \<in> set (map snd ms)" for t
  proof -
    have "0 \<le> t" "t < first" using that sm(2) by auto
    then show ?thesis using dk by force
  qed
  have ta: "\<forall>i < length (map snd ms). \<exists>f c. k_fds k1 (ds ! i) = Some (f, c) \<and> fds1 (nat (map snd ms ! i)) = Some (f, False)"
    "\<forall>n. int n \<notin> set (map snd ms) \<longrightarrow> fds1 n = k_fds k1 n"
    using dup_targets_at [OF t _ sm(3)] len apart by auto
  have tgt: "fds1 (nat (snd (ms ! i))) = Some (fst (the (fd_at (k_fds k) (fst (ms ! i)))), False)" if "i < length ms" for i
    using ta(1) at that by auto
  have "fds (nat t) = Some (fst (the (fd_at (k_fds k) s)), False)" if st: "(s, t) \<in> set ms" for s t
  proof -
    obtain i where i: "i < length ms" "ms ! i = (s, t)" using st by (auto simp: in_set_conv_nth)
    have "t \<in> set (map snd ms)" using st by force
    then show ?thesis using tgt [OF i(1)] apart [of t] i(2) by (simp add: e exec_fds_def close_listed_at close_all_at)
  qed
  moreover have "fds n = (if int n \<in> set cs then None else exec_fds (k_fds k) n)" if n: "int n \<notin> snd ` set ms" for n
  proof -
    have "close_all ds fds1 n = k_fds k n"
      using ta(2) n dk by (auto simp: close_all_at)
    then show ?thesis using n by (simp add: e exec_fds_def close_listed_at)
  qed
  ultimately show ?thesis by auto
qed

text \<open>The parent has the descriptors it had.\<close>

lemma spawn_keeps_parent:
  assumes "subproc_spawn_fds_impl env p path argv ms cs grp prof k = (ok, p', k', c)"
  shows "k' = k"
proof (cases "\<exists>first. scan_mappings ms [] 3 = Some first")
  case True
  then obtain first where s: "scan_mappings ms [] 3 = Some first" by blast
  obtain ds d k1 where dup: "dup_sources ms (nat first) k = (ds, d, k1)" by (cases "dup_sources ms (nat first) k")
  note dk = dup_sources_ok [OF dup]
  have "close_all ds (k_fds k1) n = k_fds k n" for n
    using dk by (cases "n \<in> set ds") (auto simp: close_all_at)
  then have "close_all ds (k_fds k1) = k_fds k" by blast
  then have "k1\<lparr>k_fds := close_all ds (k_fds k1)\<rparr> = k" using dk by (cases k; cases k1) simp
  then show ?thesis using assms s dup
    by (auto simp: subproc_spawn_fds_impl_def Let_def split: if_splits option.splits)
next
  case False
  then show ?thesis using assms by (auto simp: subproc_spawn_fds_impl_def split: if_splits option.splits)
qed

lemma spawn_child:
  assumes "subproc_spawn_fds_impl env p path argv ms cs grp prof k = (ok, p', k', Some (Child_Exec fds z))"
    and "\<forall>(s, t) \<in> set ms. fd_at (k_fds k) s \<noteq> None"
  shows "(\<forall>(s, t) \<in> set ms. fds (nat t) = Some (fst (the (fd_at (k_fds k) s)), False)) \<and>
    (\<forall>n. int n \<notin> snd ` set ms \<longrightarrow> fds n = (if int n \<in> set cs then None else exec_fds (k_fds k) n))"
proof -
  obtain first where s: "scan_mappings ms [] 3 = Some first"
    using assms(1) by (auto simp: subproc_spawn_fds_impl_def split: if_splits option.splits)
  obtain ds d k1 where dup: "dup_sources ms (nat first) k = (ds, d, k1)" by (cases "dup_sources ms (nat first) k")
  have c: "d" "child_run env (k_limit k) ds ms cs grp prof (k_fds k1) = Child_Exec fds z"
    using assms(1) s dup by (auto simp: subproc_spawn_fds_impl_def Let_def split: if_splits option.splits)
  have "dup_sources ms (nat first) k = (ds, True, k1)" using dup c(1) by simp
  then show ?thesis by (rule child_descriptors [OF s _ assms(2) c(2)])
qed

text \<open>A program started with mappings has every target open on the file that its source was in the
  parent, however sources and targets overlap; of the other descriptors it has those of the parent
  without the close-on-exec flag that are not in the list to close; and the parent keeps its own.\<close>

theorem spawn_maps_descriptors:
  assumes "subproc_spawn_fds env p path argv ms cs k = (ok, p', k', Some (Child_Exec fds z))"
    and "\<forall>(s, t) \<in> set ms. fd_at (k_fds k) s \<noteq> None"
  shows "(\<forall>(s, t) \<in> set ms. fds (nat t) = Some (fst (the (fd_at (k_fds k) s)), False)) \<and>
    (\<forall>n. int n \<notin> snd ` set ms \<longrightarrow> fds n = (if int n \<in> set cs then None else exec_fds (k_fds k) n)) \<and> k' = k"
  using spawn_child [OF assms(1) [unfolded subproc_spawn_fds_def] assms(2)]
    spawn_keeps_parent [OF assms(1) [unfolded subproc_spawn_fds_def]] by simp

subsection \<open>Pipes\<close>

lemma new_pipe_cases:
  assumes "new_pipe k = (r, k')"
  shows "k_limit k' = k_limit k \<and> (case r of None \<Rightarrow> k' = k
    | Some (a, b) \<Rightarrow> a \<noteq> b \<and> k_fds k a = None \<and> k_fds k b = None \<and> k_pipes k' = k_pipes k + 1 \<and>
        k_fds k' = (k_fds k)(a \<mapsto> (Pipe_Read (k_pipes k), False), b \<mapsto> (Pipe_Write (k_pipes k), False)))"
  using assms by (auto simp: new_pipe_def Let_def dest!: lowest_freeD split: option.splits if_splits)

text \<open>Descriptors were added, and closing them leaves what was there.\<close>

definition adds :: "kernel \<Rightarrow> int list \<Rightarrow> kernel \<Rightarrow> bool" where
  "adds k cs k' \<longleftrightarrow> (\<forall>n. int n \<in> set cs \<longrightarrow> k_fds k n = None) \<and> (\<forall>n. int n \<notin> set cs \<longrightarrow> k_fds k' n = k_fds k n)"

lemma adds_trans: "adds k cs k1 \<Longrightarrow> adds k1 ds k2 \<Longrightarrow> adds k (cs @ ds) k2"
  unfolding adds_def by (metis Un_iff set_append)

lemma adds_Nil [simp]: "adds k [] k"
  by (simp add: adds_def)

lemma adds_close: "adds k cs k' \<Longrightarrow> close_ints cs (k_fds k') = k_fds k"
  by (auto simp: adds_def close_ints_at fun_eq_iff)

lemma new_pipe_adds: "new_pipe k = (r, k') \<Longrightarrow> adds k (ends r) k'"
  by (drule new_pipe_cases) (auto simp: adds_def ends_def split: option.splits)

lemma open_pipes_close:
  assumes "open_pipes merge k = (i, u, e, ok, k')"
  shows "close_ints (ends i @ ends u @ ends e) (k_fds k') = k_fds k"
proof -
  obtain r1 k1 where p1: "new_pipe k = (r1, k1)" by (cases "new_pipe k")
  obtain r2 k2 where p2: "new_pipe k1 = (r2, k2)" by (cases "new_pipe k1")
  obtain r3 k3 where p3: "new_pipe k2 = (r3, k3)" by (cases "new_pipe k2")
  note a = new_pipe_adds [OF p1] new_pipe_adds [OF p2] new_pipe_adds [OF p3]
  have n: "ends None = []" by (simp add: ends_def)
  consider "r1 = None" | "r1 \<noteq> None" "r2 = None" | "r1 \<noteq> None" "r2 \<noteq> None" "merge" | "r1 \<noteq> None" "r2 \<noteq> None" "\<not> merge" by blast
  then have "adds k (ends i @ ends u @ ends e) k'"
  proof cases
    case 1
    then show ?thesis using assms a(1) by (auto simp: open_pipes_def p1 n)
  next
    case 2
    then show ?thesis using assms adds_trans [OF a(1,2)] by (auto simp: open_pipes_def p1 p2 n)
  next
    case 3
    then show ?thesis using assms adds_trans [OF a(1,2)] by (auto simp: open_pipes_def p1 p2 n)
  next
    case 4
    then show ?thesis using assms adds_trans [OF a(1) adds_trans [OF a(2,3)]]
      by (cases r3) (auto simp: open_pipes_def p1 p2 p3 n)
  qed
  then show ?thesis by (rule adds_close)
qed

lemma open_pipes_ok:
  assumes "open_pipes merge k = (i, u, e, True, k')"
  obtains i0 i1 u0 u1 e0 e1 where "i = Some (i0, i1)" "u = Some (u0, u1)" "e = (if merge then None else Some (e0, e1))"
    "distinct ([i0, i1, u0, u1] @ (if merge then [] else [e0, e1]))"
    "\<forall>n \<in> set ([i0, i1, u0, u1] @ (if merge then [] else [e0, e1])). k_fds k n = None"
    "k_limit k' = k_limit k"
    "k_fds k' = (if merge then k_fds k else (k_fds k)(e0 \<mapsto> (Pipe_Read (k_pipes k + 2), False), e1 \<mapsto> (Pipe_Write (k_pipes k + 2), False)))
      (i0 \<mapsto> (Pipe_Read (k_pipes k), False), i1 \<mapsto> (Pipe_Write (k_pipes k), False),
       u0 \<mapsto> (Pipe_Read (k_pipes k + 1), False), u1 \<mapsto> (Pipe_Write (k_pipes k + 1), False))"
proof -
  obtain r1 k1 where p1: "new_pipe k = (r1, k1)" by (cases "new_pipe k")
  obtain r2 k2 where p2: "new_pipe k1 = (r2, k2)" by (cases "new_pipe k1")
  obtain r3 k3 where p3: "new_pipe k2 = (r3, k3)" by (cases "new_pipe k2")
  note c = new_pipe_cases [OF p1] new_pipe_cases [OF p2] new_pipe_cases [OF p3]
  obtain i0 i1 u0 u1 where r: "r1 = Some (i0, i1)" "r2 = Some (u0, u1)" "i = Some (i0, i1)" "u = Some (u0, u1)"
    using assms by (cases merge; cases r3) (auto simp: open_pipes_def p1 p2 p3 split: option.splits)
  show thesis
  proof (cases merge)
    case True
    then have "e = None" "k' = k2" using assms by (simp_all add: open_pipes_def p1 p2 r)
    then show thesis using that [of i0 i1 u0 u1 undefined undefined] True r c by (auto split: if_splits)
  next
    case False
    then obtain e0 e1 where e: "r3 = Some (e0, e1)" "e = Some (e0, e1)" "k' = k3"
      using assms by (auto simp: open_pipes_def p1 p2 p3 r split: option.splits)
    have c1: "i0 \<noteq> i1" "k_fds k i0 = None" "k_fds k i1 = None"
      "k_fds k1 = (k_fds k)(i0 \<mapsto> (Pipe_Read (k_pipes k), False), i1 \<mapsto> (Pipe_Write (k_pipes k), False))"
      and c2: "u0 \<noteq> u1" "k_fds k1 u0 = None" "k_fds k1 u1 = None"
      "k_fds k2 = (k_fds k1)(u0 \<mapsto> (Pipe_Read (k_pipes k1), False), u1 \<mapsto> (Pipe_Write (k_pipes k1), False))"
      and c3: "e0 \<noteq> e1" "k_fds k2 e0 = None" "k_fds k2 e1 = None"
      using c r e by simp_all
    have u: "k_fds k n = None \<and> n \<noteq> i0 \<and> n \<noteq> i1" if "k_fds k1 n = None" for n
      using that unfolding c1(4) by (auto split: if_splits)
    have v: "k_fds k1 n = None \<and> n \<noteq> u0 \<and> n \<noteq> u1" if "k_fds k2 n = None" for n
      using that unfolding c2(4) by (auto split: if_splits)
    note x = u [OF c2(2)] u [OF c2(3)] v [OF c3(2)] v [OF c3(3)]
    note y = u [OF conjunct1 [OF x(3)]] u [OF conjunct1 [OF x(4)]]
    have d: "e0 \<noteq> e1" "distinct [i0, i1, u0, u1, e0, e1]" "\<forall>n \<in> set [i0, i1, u0, u1, e0, e1]. k_fds k n = None"
      using c1(1-3) c2(1) c3(1) x y by auto
    have f: "k_fds k' = (k_fds k)(e0 \<mapsto> (Pipe_Read (k_pipes k + 2), False), e1 \<mapsto> (Pipe_Write (k_pipes k + 2), False),
        i0 \<mapsto> (Pipe_Read (k_pipes k), False), i1 \<mapsto> (Pipe_Write (k_pipes k), False),
        u0 \<mapsto> (Pipe_Read (k_pipes k + 1), False), u1 \<mapsto> (Pipe_Write (k_pipes k + 1), False))"
      using c r e d(2) by (auto simp: fun_eq_iff)
    show thesis by (rule that [of i0 i1 u0 u1 e0 e1]) (use False r e d c f in auto)
  qed
qed

lemma set_cloexec_all_at:
  assumes "set_cloexec_all cs fds = Some fds'" and "\<forall>c \<in> set cs. 0 \<le> c"
  shows "fds' n = (if int n \<in> set cs then map_option (\<lambda>(f, c). (f, True)) (fds n) else fds n)"
  using assms
proof (induction cs arbitrary: fds)
  case (Cons c cs)
  obtain f b where f: "fds (nat c) = Some (f, b)" "set_cloexec_all cs (fds(nat c \<mapsto> (f, True))) = Some fds'"
    using Cons.prems(1) by (auto simp: set_cloexec_def split: option.splits)
  have "fds' n = (if int n \<in> set cs then map_option (\<lambda>(f, c). (f, True)) ((fds(nat c \<mapsto> (f, True))) n) else (fds(nat c \<mapsto> (f, True))) n)"
    using Cons.IH [OF f(2)] Cons.prems(2) by simp
  then show ?case using f(1) Cons.prems(2) by auto
qed simp

lemma close_all_ints: "close_ints (cs @ ds) fds = close_ints ds (close_ints cs fds)"
  by (simp add: close_ints_def)

lemma stop_fds:
  assumes "subproc_stop st p k = Some (r, p', k')"
  shows "k_fds k' = close_fd (sp_error_fd p) (close_stream (sp_output p) (close_stream (sp_input p) (k_fds k)))"
  using assms by (auto simp: subproc_stop_def subproc_close_def Let_def split: if_splits elim!: bind_eq_SomeE)

text \<open>The ways a start with pipes can end.\<close>

lemma spawn_pipes_cases:
  assumes "subproc_spawn_pipes env st p path argv merge grp k = Some (r, p', k', c)"
  obtains (refused) "\<not> r" "p' = p" "k' = k"
    | (full) i u e k1 where "\<not> r" "open_pipes merge k = (i, u, e, False, k1)" "k_fds k' = close_ints (ends i @ ends u @ ends e) (k_fds k1)"
    | (flags) i u e k1 where "\<not> r" "open_pipes merge k = (i, u, e, True, k1)" "k_fds k' = close_ints (ends i @ ends u @ ends e) (k_fds k1)"
    | (failed) i u e k1 fds p1 k2 where "\<not> r" "open_pipes merge k = (i, u, e, True, k1)"
        "set_cloexec_all (ends i @ ends u @ ends e) (k_fds k1) = Some fds"
        "subproc_spawn_fds_impl env (subproc_reset p) path argv (pipe_mappings merge i u e) (ends i @ ends u @ ends e) grp NULL (k1\<lparr>k_fds := fds\<rparr>) = (False, p1, k2, c)"
        "k_fds k' = close_ints (ends i @ ends u @ ends e) (k_fds k2)"
    | (started) i u e k1 fds p1 k2 where "open_pipes merge k = (i, u, e, True, k1)"
        "set_cloexec_all (ends i @ ends u @ ends e) (k_fds k1) = Some fds"
        "subproc_spawn_fds_impl env (subproc_reset p) path argv (pipe_mappings merge i u e) (ends i @ ends u @ ends e) grp NULL (k1\<lparr>k_fds := fds\<rparr>) = (True, p1, k2, c)"
        "attach_pipes env st merge i u e p1 k2 = Some (r, p', k')"
proof (cases "sp_pid p > 0 \<or> path = NULL \<or> path = Some [] \<or> argv = NULL \<or> argv = Some []")
  case True
  then have "\<not> r" "p' = p" "k' = k" using assms by (simp_all only: subproc_spawn_pipes_def if_True) simp_all
  then show thesis by (rule refused)
next
  case g: False
  obtain i u e ok k1 where o: "open_pipes merge k = (i, u, e, ok, k1)" by (cases "open_pipes merge k") auto
  note d = assms [unfolded subproc_spawn_pipes_def if_not_P [OF g] o Let_def prod.case]
  show thesis
  proof (cases ok)
    case False
    then have "\<not> r" "k_fds k' = close_ints (ends i @ ends u @ ends e) (k_fds k1)" using d by auto
    then show thesis using full [of i u e k1] o False by simp
  next
    case ok: True
    show thesis
    proof (cases "set_cloexec_all (ends i @ ends u @ ends e) (k_fds k1)")
      case None
      then have "\<not> r" "k_fds k' = close_ints (ends i @ ends u @ ends e) (k_fds k1)" using d ok by auto
      then show thesis using flags [of i u e k1] o ok by simp
    next
      case (Some fds)
      obtain s p1 k2 c' where s: "subproc_spawn_fds_impl env (subproc_reset p) path argv (pipe_mappings merge i u e)
          (ends i @ ends u @ ends e) grp NULL (k1\<lparr>k_fds := fds\<rparr>) = (s, p1, k2, c')"
        by (cases "subproc_spawn_fds_impl env (subproc_reset p) path argv (pipe_mappings merge i u e)
          (ends i @ ends u @ ends e) grp NULL (k1\<lparr>k_fds := fds\<rparr>)") auto
      note d = d [unfolded Some option.case s prod.case]
      show thesis
      proof (cases s)
        case False
        then show thesis using d o ok Some s by (auto intro: failed)
      next
        case True
        then have "\<exists>y. attach_pipes env st merge i u e p1 k2 = Some y \<and> (r, p', k') = y \<and> c' = c"
          using d ok by (cases "attach_pipes env st merge i u e p1 k2") (auto split: prod.splits)
        then show thesis using started o ok Some s True by auto
      qed
    qed
  qed
qed

lemma attach_ok:
  assumes "attach_pipes env st merge i u e p k = Some (True, p', k')"
  shows "k_fds k' = close_ints ([int (fst (the i)), int (snd (the u))] @ (if merge then [] else [int (snd (the e))])) (k_fds k)"
    and "sp_input p' = Some (snd (the i))" and "sp_output p' = Some (fst (the u))"
    and "sp_error_fd p' = (if merge then -1 else int (fst (the e)))" and "sp_running p'"
proof -
  have run: "fst (se_fdopen env)" "snd (se_fdopen env)"
  proof -
    have "fst (se_fdopen env) \<and> snd (se_fdopen env)"
    proof (rule ccontr)
      assume "\<not> ?thesis"
      then show False using assms by (auto simp: attach_pipes_def Let_def split del: if_split elim!: bind_eq_SomeE)
    qed
    then show "fst (se_fdopen env)" "snd (se_fdopen env)" by simp_all
  qed
  from assms have e: "p' = p\<lparr>sp_input := Some (snd (the i)), sp_output := Some (fst (the u)),
      sp_error_fd := (if merge then -1 else int (fst (the e))), sp_running := True\<rparr>"
    "k' = k\<lparr>k_fds := close_ints ([int (fst (the i)), int (snd (the u))] @ (if merge then [] else [int (snd (the e))])) (k_fds k)\<rparr>"
    by (simp_all add: attach_pipes_def Let_def run split del: if_split)
  show "k_fds k' = close_ints ([int (fst (the i)), int (snd (the u))] @ (if merge then [] else [int (snd (the e))])) (k_fds k)"
    "sp_input p' = Some (snd (the i))" "sp_output p' = Some (fst (the u))"
    "sp_error_fd p' = (if merge then -1 else int (fst (the e)))" "sp_running p'"
    unfolding e by simp_all
qed

text \<open>C12: a program that is started with pipes reads what the handle writes and is read by the handle, with
  its errors on the same or a pipe of their own. It holds no other end of a pipe, so that each side
  sees the end when the other closes; its other descriptors are those it inherits. The parent
  holds the three opposite ends, closed at the next \<open>exec\<close>, and nothing more than before.\<close>

theorem subproc_spawn_wires:
  assumes "subproc_spawn env st p path argv merge k = Some (True, p', k', Some (Child_Exec fds z))"
  shows "\<exists>i u. sp_input p' = Some i \<and> sp_output p' = Some u \<and> sp_running p' \<and>
    distinct ([i, u] @ (if merge then [] else [nat (sp_error_fd p')])) \<and>
    fds 0 = Some (Pipe_Read (k_pipes k), False) \<and>
    fds 1 = Some (Pipe_Write (k_pipes k + 1), False) \<and>
    fds 2 = Some (Pipe_Write (k_pipes k + (if merge then 1 else 2)), False) \<and>
    (\<forall>n. n > 2 \<longrightarrow> fds n = exec_fds (k_fds k) n) \<and>
    k_fds k' = (if merge then k_fds k else (k_fds k)(nat (sp_error_fd p') \<mapsto> (Pipe_Read (k_pipes k + 2), True)))
      (i \<mapsto> (Pipe_Write (k_pipes k), True), u \<mapsto> (Pipe_Read (k_pipes k + 1), True))"
proof -
  obtain i u e k1 fds1 p1 k2 where
    o: "open_pipes merge k = (i, u, e, True, k1)" and f: "set_cloexec_all (ends i @ ends u @ ends e) (k_fds k1) = Some fds1"
    and s: "subproc_spawn_fds_impl env (subproc_reset p) path argv (pipe_mappings merge i u e)
      (ends i @ ends u @ ends e) False NULL (k1\<lparr>k_fds := fds1\<rparr>) = (True, p1, k2, Some (Child_Exec fds z))"
    and at: "attach_pipes env st merge i u e p1 k2 = Some (True, p', k')"
    using assms unfolding subproc_spawn_def by (rule spawn_pipes_cases) simp_all
  note k' = attach_ok(1) [OF at] and p' = attach_ok(2-5) [OF at]
  obtain i0 i1 u0 u1 e0 e1 where q: "i = Some (i0, i1)" "u = Some (u0, u1)" "e = (if merge then None else Some (e0, e1))"
    "distinct ([i0, i1, u0, u1] @ (if merge then [] else [e0, e1]))"
    "\<forall>n \<in> set ([i0, i1, u0, u1] @ (if merge then [] else [e0, e1])). k_fds k n = None"
    "k_fds k1 = (if merge then k_fds k else (k_fds k)(e0 \<mapsto> (Pipe_Read (k_pipes k + 2), False), e1 \<mapsto> (Pipe_Write (k_pipes k + 2), False)))
      (i0 \<mapsto> (Pipe_Read (k_pipes k), False), i1 \<mapsto> (Pipe_Write (k_pipes k), False),
       u0 \<mapsto> (Pipe_Read (k_pipes k + 1), False), u1 \<mapsto> (Pipe_Write (k_pipes k + 1), False))"
    by (rule open_pipes_ok [OF o])
  let ?cs = "ends i @ ends u @ ends e" and ?all = "[i0, i1, u0, u1] @ (if merge then [] else [e0, e1])"
  have cs: "?cs = map int ?all" by (simp add: ends_def q(1-3))
  have k2: "k2 = k1\<lparr>k_fds := fds1\<rparr>" by (rule spawn_keeps_parent [OF s])
  have f1: "fds1 n = (if n \<in> set ?all then map_option (\<lambda>(f, c). (f, True)) (k_fds k1 n) else k_fds k1 n)" for n
    using set_cloexec_all_at [OF f, of n] unfolding cs by auto
  define w where "w = (if merge then u1 else e1)"
  have at: "fds1 i0 = Some (Pipe_Read (k_pipes k), True)" "fds1 u1 = Some (Pipe_Write (k_pipes k + 1), True)"
    "fds1 w = Some (Pipe_Write (k_pipes k + (if merge then 1 else 2)), True)"
    "fds1 i1 = Some (Pipe_Write (k_pipes k), True)" "fds1 u0 = Some (Pipe_Read (k_pipes k + 1), True)"
    "\<not> merge \<Longrightarrow> fds1 e0 = Some (Pipe_Read (k_pipes k + 2), True)"
    using q(4) unfolding f1 q(6) w_def by (cases merge; simp; metis)+
  have rest: "fds1 n = k_fds k n" if "n \<notin> set ?all" for n using that unfolding f1 q(6) by (auto split: if_splits)
  let ?ms = "[(int i0, 0), (int u1, 1), (int w, 2)]"
  have ms: "pipe_mappings merge i u e = ?ms" by (simp add: pipe_mappings_def q(1-3) w_def)
  have src: "\<forall>(s, t) \<in> set ?ms. fd_at (k_fds (k1\<lparr>k_fds := fds1\<rparr>)) s \<noteq> None"
    using at(1,2,3) by (auto simp: fd_at_def)
  note ch = spawn_child [OF s [unfolded ms] src]
  have ch1: "fds 0 = Some (Pipe_Read (k_pipes k), False)" "fds 1 = Some (Pipe_Write (k_pipes k + 1), False)"
    "fds 2 = Some (Pipe_Write (k_pipes k + (if merge then 1 else 2)), False)"
    using conjunct1 [OF ch] at by (auto simp: fd_at_def)
  have ch2: "fds n = exec_fds (k_fds k) n" if "n > 2" for n
  proof -
    have "int n \<notin> snd ` set ?ms" using that by auto
    then have "fds n = (if n \<in> set ?all then None else exec_fds fds1 n)" using conjunct2 [OF ch, rule_format, of n] unfolding cs by auto
    also have "\<dots> = exec_fds (k_fds k) n" using rest [of n] q(5) by (auto simp: exec_fds_def)
    finally show ?thesis .
  qed
  let ?lost = "[int i0, int u1] @ (if merge then [] else [int e1])"
  have pk: "k_fds k' = close_ints ?lost fds1" unfolding k' k2 using q(1-3) by simp
  have par: "k_fds k' n = ((if merge then k_fds k else (k_fds k)(e0 \<mapsto> (Pipe_Read (k_pipes k + 2), True)))
      (i1 \<mapsto> (Pipe_Write (k_pipes k), True), u0 \<mapsto> (Pipe_Read (k_pipes k + 1), True))) n" for n
  proof (cases "n \<in> set ?all")
    case True
    then show ?thesis using q(4,5) at unfolding pk close_ints_at by (cases merge) (auto split: if_splits)
  next
    case False
    then show ?thesis using rest [OF False] unfolding pk close_ints_at by (cases merge) auto
  qed
  then have par: "k_fds k' = (if merge then k_fds k else (k_fds k)(e0 \<mapsto> (Pipe_Read (k_pipes k + 2), True)))
      (i1 \<mapsto> (Pipe_Write (k_pipes k), True), u0 \<mapsto> (Pipe_Read (k_pipes k + 1), True))" by blast
  have er: "\<not> merge \<Longrightarrow> nat (sp_error_fd p') = e0" using p'(3) q(3) by simp
  show ?thesis
    by (intro exI [of _ i1] exI [of _ u0] conjI) (use p' q(1,2,4) ch1 ch2 par er in auto)
qed

text \<open>A start that fails leaves the descriptors of the parent as they were.\<close>

lemma failed_spawn_keeps_descriptors:
  assumes "subproc_spawn_pipes env st p path argv merge grp k = Some (False, p', k', c)"
  shows "k_fds k' = k_fds k"
  using assms
proof (cases rule: spawn_pipes_cases)
  case refused
  then show ?thesis by simp
next
  case (full i u e k1)
  then show ?thesis using open_pipes_close by metis
next
  case (flags i u e k1)
  then show ?thesis using open_pipes_close by metis
next
  case (failed i u e k1 fds p1 k2)
  let ?cs = "ends i @ ends u @ ends e"
  have k2: "k_fds k2 = fds" using spawn_keeps_parent [OF failed(4)] by simp
  have "\<forall>c \<in> set ?cs. 0 \<le> c" by (auto simp: ends_def split: option.splits)
  then have "close_ints ?cs fds n = close_ints ?cs (k_fds k1) n" for n
    using set_cloexec_all_at [OF failed(3), of n] by (simp add: close_ints_at)
  then have "close_ints ?cs fds = close_ints ?cs (k_fds k1)" by blast
  then show ?thesis using failed(5) open_pipes_close [OF failed(2)] k2 by simp
next
  case (started i u e k1 fds p1 k2)
  obtain i0 i1 u0 u1 e0 e1 where q: "i = Some (i0, i1)" "u = Some (u0, u1)" "e = (if merge then None else Some (e0, e1))"
    by (rule open_pipes_ok [OF started(1)])
  let ?cs = "ends i @ ends u @ ends e"
  have k2: "k_fds k2 = fds" using spawn_keeps_parent [OF started(3)] by simp
  define k3 p3 where "k3 = k2\<lparr>k_fds := close_ints ([int i0, int u1] @ (if merge then [] else [int e1])) fds\<rparr>"
    and "p3 = p1\<lparr>sp_input := (if fst (se_fdopen env) then Some i1 else NULL), sp_output := (if snd (se_fdopen env) then Some u0 else NULL),
      sp_error_fd := (if merge then -1 else int e0), sp_running := fst (se_fdopen env) \<and> snd (se_fdopen env)\<rparr>"
  define fds4 where "fds4 = close_ints ((if sp_input p3 = NULL then [int i1] else []) @ (if sp_output p3 = NULL then [int u0] else [])) (k_fds k3)"
  obtain r p4 k4 where s: "subproc_stop st p3 (k3\<lparr>k_fds := fds4\<rparr>) = Some (r, p4, k4)" "k' = k4"
  proof -
    have "fst (the i) = i0" "snd (the i) = i1" "fst (the u) = u0" "snd (the u) = u1"
      "(if merge then -1 else int (fst (the e))) = (if merge then -1 else int e0)"
      "(if merge then [] else [int (snd (the e))]) = (if merge then [] else [int e1])" using q by simp_all
    note eqs = this
    have "attach_pipes env st merge i u e p1 k2 =
        (if sp_running p3 then Some (True, p3, k3) else do { (_, p, k) \<leftarrow> subproc_stop st p3 (k3\<lparr>k_fds := fds4\<rparr>); Some (False, p, k) })"
      unfolding attach_pipes_def Let_def k2 eqs p3_def [symmetric] k3_def [symmetric] fds4_def [symmetric] by (rule refl)
    then show thesis using that started(4)
      by (cases "subproc_stop st p3 (k3\<lparr>k_fds := fds4\<rparr>)") (auto split: if_splits prod.splits)
  qed
  have nn: "\<forall>c \<in> set ?cs. 0 \<le> c" by (auto simp: ends_def split: option.splits)
  have "k_fds k' n = close_ints ?cs (k_fds k1) n" for n
  proof -
    have "fds n = k_fds k1 n" if "int n \<notin> set ?cs"
      using set_cloexec_all_at [OF started(2) nn, of n] that by simp
    moreover have "k_fds k' n = (if int n \<in> set ?cs then None else fds n)"
      unfolding s(2) stop_fds [OF s(1)] q
      by (cases merge; cases "fst (se_fdopen env)"; cases "snd (se_fdopen env)")
        (auto simp: close_fd_def close_stream_def close_ints_at ends_def fds4_def k3_def p3_def)
    ultimately show ?thesis by (simp add: close_ints_at)
  qed
  then have "k_fds k' = close_ints ?cs (k_fds k1)" by blast
  then show ?thesis using open_pipes_close [OF started(1)] by simp
qed

text \<open>Stopping closes the streams; the child is forgotten only when it was collected or is known to be
  gone, otherwise the handle keeps its number for another attempt.\<close>

lemma stop_result:
  assumes "subproc_stop st p k = Some (r, p', k')"
  shows "sp_input p' = NULL \<and> sp_output p' = NULL \<and> sp_error_fd p' = -1 \<and> (if r then p' = subproc_reset p else sp_pid p' = sp_pid p)"
  using assms by (auto simp: subproc_stop_def subproc_close_def subproc_reset_def Let_def split: if_splits elim!: bind_eq_SomeE)

text \<open>It returns once a wait is not interrupted.\<close>

lemma stop_returns:
  assumes "\<exists>w \<in> set (st_last_waits st). w \<noteq> W_eintr"
  shows "subproc_stop st p k \<noteq> None"
proof -
  have "blocking_wait ws = Some ()" if "\<exists>w \<in> set ws. w \<noteq> W_eintr" for ws using that by (induction ws) auto
  then show ?thesis using assms by (auto simp: subproc_stop_def subproc_close_def Let_def)
qed

subsection \<open>A run\<close>

definition sample_os :: "unit os" where
  "sample_os = \<lparr>os_priority_min = \<lambda>p. 0, os_priority_max = \<lambda>p. 0, os_setscheduler = \<lambda>pid p n s. (-1, s),
     os_getscheduler = \<lambda>pid s. 0, os_getparam = \<lambda>pid s. Some 0, os_setpriority = \<lambda>pid n s. (-1, s),
     os_getpriority = \<lambda>pid s. Some 0\<rparr>"

definition sample_env :: "unit spawn_env" where
  "sample_env = \<lparr>se_malloc = True, se_fork = Some 77, se_setpgid = True, se_os = sample_os, se_sched = (), se_execv = True,
     se_fdopen = (True, True)\<rparr>"

definition sample_stop :: stop_env where
  "sample_stop = \<lparr>st_kill = K_ok, st_waits = [W_child], st_kill9 = K_ok, st_last_waits = [W_child]\<rparr>"

definition idle :: subproc where
  "idle = \<lparr>sp_pid = -1, sp_input = NULL, sp_output = NULL, sp_error_fd = -1, sp_running = False\<rparr>"

text \<open>A process with two of the standard descriptors.\<close>

definition sample_kernel :: kernel where
  "sample_kernel = \<lparr>k_fds = [0 \<mapsto> (File 10, False), 1 \<mapsto> (File 11, True)], k_limit = 16, k_pipes = 0\<rparr>"

lemma sample_profile: "ra_sched_apply_profile sample_os 0 NULL () = (Inr (), ())"
  by (simp add: ra_sched_apply_profile_def sample_os_def)

lemma sample_fds_run:
  "\<exists>p' fds. subproc_spawn_fds sample_env idle (Some ''/bin/cat'') (Some [''cat'']) [(0, 1), (1, 0)] [5] sample_kernel =
    (True, p', sample_kernel, Some (Child_Exec fds ()))"
proof -
  have a: "[3..<16] = 3 # [4..<16]" "[4..<16] = 4 # [5..<16]" by (simp_all add: upt_conv_Cons)
  let ?k1 = "sample_kernel\<lparr>k_fds := (k_fds sample_kernel)(3 \<mapsto> (File 10, True), 4 \<mapsto> (File 11, True))\<rparr>"
  have d: "dup_sources [(0, 1), (1, 0)] 3 sample_kernel = ([3, 4], True, ?k1)"
    by (simp add: dupfd_cloexec_def fd_at_def sample_kernel_def lowest_free_def a)
  have c: "\<exists>fds. child_run sample_env 16 [3, 4] [(0, 1), (1, 0)] [5] False NULL (k_fds ?k1) = Child_Exec fds ()"
    by (simp add: child_run_def dup2_def sample_env_def sample_profile sample_kernel_def)
  have closed: "close_all [3, 4] (k_fds ?k1) = k_fds sample_kernel" by (auto simp: close_all_def sample_kernel_def)
  show ?thesis
  proof -
    have e: "se_fork sample_env = Some 77" "se_malloc sample_env = True" "sp_pid idle = -1" "k_limit sample_kernel = 16"
      by (simp_all add: sample_env_def idle_def sample_kernel_def)
    have k: "?k1\<lparr>k_fds := close_all [3, 4] (k_fds ?k1)\<rparr> = sample_kernel" unfolding closed by simp
    obtain fds where f: "child_run sample_env 16 [3, 4] [(0, 1), (1, 0)] [5] False NULL (k_fds ?k1) = Child_Exec fds ()" using c by blast
    have s: "scan_mappings [(0, 1), (1, 0)] [] 3 = Some 3" "nat 3 = 3" by simp_all
    show ?thesis
      unfolding subproc_spawn_fds_def subproc_spawn_fds_impl_def s option.case d Let_def prod.case k e f by simp
  qed
qed

theorem spawn_maps_descriptors_witness:
  "\<exists>p' fds. subproc_spawn_fds sample_env idle (Some ''/bin/cat'') (Some [''cat'']) [(0, 1), (1, 0)] [5] sample_kernel =
    (True, p', sample_kernel, Some (Child_Exec fds ())) \<and> fds 1 = Some (File 10, False) \<and> fds 0 = Some (File 11, False) \<and> fds 2 = None"
proof -
  obtain p' fds where r: "subproc_spawn_fds sample_env idle (Some ''/bin/cat'') (Some [''cat'']) [(0, 1), (1, 0)] [5] sample_kernel =
    (True, p', sample_kernel, Some (Child_Exec fds ()))" using sample_fds_run by blast
  have "\<forall>(s, t) \<in> set [(0, 1), (1 :: int, 0 :: int)]. fd_at (k_fds sample_kernel) s \<noteq> None" by (auto simp: fd_at_def sample_kernel_def)
  from spawn_maps_descriptors [OF r this] have "fds 1 = Some (File 10, False) \<and> fds 0 = Some (File 11, False) \<and> fds 2 = None"
    by (auto simp: fd_at_def sample_kernel_def exec_fds_def)
  then show ?thesis using r by blast
qed

lemma sample_pipes_run:
  "\<exists>p' k' fds. subproc_spawn sample_env sample_stop idle (Some ''/bin/cat'') (Some [''cat'']) True sample_kernel =
    Some (True, p', k', Some (Child_Exec fds ()))"
proof -
  have a: "[0..<16] = [0, 1, 2, 3, 4, 5, 6, 7, 8, 9, 10, 11, 12, 13, 14, 15]" "[3..<16] = [3, 4, 5, 6, 7, 8, 9, 10, 11, 12, 13, 14, 15]"
    by (simp_all add: upt_conv_Cons)
  define fa where "fa = (k_fds sample_kernel)(2 \<mapsto> (Pipe_Read 0, False), 3 \<mapsto> (Pipe_Write 0, False))"
  define fb where "fb = fa(4 \<mapsto> (Pipe_Read 1, False), 5 \<mapsto> (Pipe_Write 1, False))"
  let ?k1 = "sample_kernel\<lparr>k_fds := fb, k_pipes := 2\<rparr>"
  have "new_pipe sample_kernel = (Some (2, 3), sample_kernel\<lparr>k_fds := fa, k_pipes := 1\<rparr>)"
    by (simp add: new_pipe_def lowest_free_def sample_kernel_def fa_def a)
  moreover have "new_pipe (sample_kernel\<lparr>k_fds := fa, k_pipes := 1\<rparr>) = (Some (4, 5), ?k1)"
    by (simp add: new_pipe_def lowest_free_def sample_kernel_def fa_def fb_def a)
  ultimately have o: "open_pipes True sample_kernel = (Some (2, 3), Some (4, 5), None, True, ?k1)" by (simp add: open_pipes_def)
  define fc where "fc = (k_fds sample_kernel)(2 \<mapsto> (Pipe_Read 0, True), 3 \<mapsto> (Pipe_Write 0, True), 4 \<mapsto> (Pipe_Read 1, True), 5 \<mapsto> (Pipe_Write 1, True))"
  have s: "set_cloexec_all (ends (Some (2, 3)) @ ends (Some (4, 5)) @ ends None) (k_fds ?k1) = Some fc"
    by (simp add: ends_def set_cloexec_def fb_def fa_def fc_def fun_upd_twist)
  let ?k2 = "?k1\<lparr>k_fds := fc\<rparr>"
  define fd where "fd = fc(6 \<mapsto> (Pipe_Read 0, True), 7 \<mapsto> (Pipe_Write 1, True), 8 \<mapsto> (Pipe_Write 1, True))"
  have lim: "k_limit sample_kernel = 16" by (simp add: sample_kernel_def)
  have l: "lowest_free fc 3 16 = Some 6" "lowest_free (fc(6 \<mapsto> x)) 3 16 = Some 7" "lowest_free (fc(6 \<mapsto> x, 7 \<mapsto> y)) 3 16 = Some 8" for x y
    by (simp_all add: lowest_free_def fc_def sample_kernel_def a)
  have at: "fd_at fc 2 = Some (Pipe_Read 0, True)" "fd_at (fc(6 \<mapsto> x)) 5 = Some (Pipe_Write 1, True)"
    "fd_at (fc(6 \<mapsto> x, 7 \<mapsto> y)) 5 = Some (Pipe_Write 1, True)" for x y
    by (simp_all add: fd_at_def fc_def)
  have d: "dup_sources [(2, 0), (5, 1), (5, 2)] 3 ?k2 = ([6, 7, 8], True, ?k2\<lparr>k_fds := fd\<rparr>)"
    by (simp add: dupfd_cloexec_def l at lim fd_def)
  have c: "\<exists>fds. child_run sample_env 16 [6, 7, 8] [(2, 0), (5, 1), (5, 2)] [2, 3, 4, 5] False NULL fd = Child_Exec fds ()"
    by (simp add: child_run_def dup2_def sample_env_def sample_profile fd_def)
  then obtain fds where f: "child_run sample_env 16 [6, 7, 8] [(2, 0), (5, 1), (5, 2)] [2, 3, 4, 5] False NULL fd = Child_Exec fds ()" by blast
  have e: "se_fork sample_env = Some 77" "se_malloc sample_env = True" "sp_pid idle = -1" "sp_pid (subproc_reset idle) = -1"
    "k_limit ?k2 = 16" "se_fdopen sample_env = (True, True)"
    by (simp_all add: sample_env_def idle_def sample_kernel_def subproc_reset_def)
  have sm: "scan_mappings [(2, 0), (5, 1), (5, 2)] [] 3 = Some 3" "nat 3 = 3" by simp_all
  have m: "pipe_mappings True (Some (2, 3)) (Some (4, 5)) None = [(2, 0), (5, 1), (5, 2)]" by (simp add: pipe_mappings_def)
  have i: "\<exists>p1 k3. subproc_spawn_fds_impl sample_env (subproc_reset idle) (Some ''/bin/cat'') (Some [''cat'']) [(2, 0), (5, 1), (5, 2)]
      [2, 3, 4, 5] False NULL ?k2 = (True, p1, k3, Some (Child_Exec fds ()))"
  proof -
    have "k_fds (?k2\<lparr>k_fds := fd\<rparr>) = fd" by simp
    then show ?thesis unfolding subproc_spawn_fds_impl_def sm option.case d Let_def prod.case e by (simp add: f)
  qed
  then obtain p1 k3 where i: "subproc_spawn_fds_impl sample_env (subproc_reset idle) (Some ''/bin/cat'') (Some [''cat'']) [(2, 0), (5, 1), (5, 2)]
      [2, 3, 4, 5] False NULL ?k2 = (True, p1, k3, Some (Child_Exec fds ()))" by blast
  have "\<exists>p' k'. attach_pipes sample_env sample_stop True (Some (2, 3)) (Some (4, 5)) None p1 k3 = Some (True, p', k')"
    by (simp add: attach_pipes_def e)
  then obtain p' k' where t: "attach_pipes sample_env sample_stop True (Some (2, 3)) (Some (4, 5)) None p1 k3 = Some (True, p', k')" by blast
  have en: "ends (Some (2, 3)) @ ends (Some (4, 5)) @ ends None = [2, 3, 4, 5]" by (simp add: ends_def)
  have "subproc_spawn sample_env sample_stop idle (Some ''/bin/cat'') (Some [''cat'']) True sample_kernel =
      Some (True, p', k', Some (Child_Exec fds ()))"
    unfolding subproc_spawn_def subproc_spawn_pipes_def o Let_def prod.case en s [unfolded en] option.case m i t by (simp add: e t)
  then show ?thesis by blast
qed

theorem subproc_spawn_wires_witness:
  "\<exists>p' k' fds i u. subproc_spawn sample_env sample_stop idle (Some ''/bin/cat'') (Some [''cat'']) True sample_kernel =
      Some (True, p', k', Some (Child_Exec fds ())) \<and> sp_input p' = Some i \<and> sp_output p' = Some u \<and>
    fds 0 = Some (Pipe_Read 0, False) \<and> fds 1 = Some (Pipe_Write 1, False) \<and>
    k_fds k' i = Some (Pipe_Write 0, True) \<and> k_fds k' u = Some (Pipe_Read 1, True)"
proof -
  obtain p' k' fds where r: "subproc_spawn sample_env sample_stop idle (Some ''/bin/cat'') (Some [''cat'']) True sample_kernel =
      Some (True, p', k', Some (Child_Exec fds ()))" using sample_pipes_run by blast
  from subproc_spawn_wires [OF r] r show ?thesis by (auto simp: sample_kernel_def)
qed

subsection \<open>Where the code departs from its header\<close>

text \<open>A profile that is unknown or denied does not end the child with status 126.\<close>

lemma denied_profile_runs:
  "\<exists>fds. child_run sample_env 16 [] [] [] False (Some ''no-such-profile'') (k_fds sample_kernel) = Child_Exec fds ()"
  by (simp add: child_run_def sample_env_def ra_sched_apply_profile_def profile_def)

text \<open>A source that is not open can be taken for the duplicate of an earlier one.\<close>

lemma closed_source_accepted:
  "fst (snd (dup_sources [(0, 0), (3, 1)] 3 sample_kernel)) \<and> fd_at (k_fds sample_kernel) 3 = None"
proof -
  have "[3..<16] = 3 # [4..<16]" "[4..<16] = 4 # [5..<16]" by (simp_all add: upt_conv_Cons)
  then show ?thesis by (simp add: dupfd_cloexec_def fd_at_def sample_kernel_def lowest_free_def)
qed

end
