(* ===== verification/Config_Sections.thy ===== *)
theory Config_Sections
  imports Config_Load
begin

text \<open>
  Two sections of the configuration that have callbacks of their own: the loadable modules with
  their options (\<open>cfg.modules.c\<close>), and the serial lines (\<open>cfg.serial.c\<close>). Both store into the
  dictionary under construction.
\<close>

definition trim :: "string \<Rightarrow> string" where
  "trim s = dropWhile isspace (rtrim isspace s)"

definition before_eq :: "string \<Rightarrow> string" where
  "before_eq s = takeWhile (\<lambda>c. c \<noteq> CHR ''='') s"

definition after_eq :: "string \<Rightarrow> string" where
  "after_eq s = tl (dropWhile (\<lambda>c. c \<noteq> CHR ''='') s)"

subsection \<open>Modules\<close>

text \<open>The name without a trailing \<open>.so\<close>.\<close>

definition strip_so :: "string \<Rightarrow> string" where
  "strip_so name =
     (let n = length name in if n > 3 \<and> drop (n - 3) name = ''.so'' then take (n - 3) name else name)"

definition options_key :: "string \<Rightarrow> string" where
  "options_key name = ''module:'' @ name @ ''.options''"

definition cfg_modules_section_cb :: section_cb where
  "cfg_modules_section_cb path line section buf d a =
     (if section \<noteq> ''modules'' then Some (Done (False, d), a)
      else let (ok, a) = malloc_ok a in
        if \<not> ok then Some (Done (False, d), a)
        else if CHR ''='' \<notin> set buf then Some (Done (False, d), a)
        else
          let key = trim (before_eq buf); val = trim (after_eq buf) in
          if key = [] then Some (Done (False, d), a)
          else if length key \<ge> 128 then Some (Done (False, d), a)
          else
            let fullkey = options_key (strip_so key) in
            if length fullkey \<ge> 160 then Some (Done (False, d), a)
            else do {
              (r, d, a) \<leftarrow> dict_add d (Some fullkey) (Some val) a;
              Some (Done (r = 0, d), a)
            })"

definition cfg_modules_init :: "nat \<Rightarrow> cfg_env \<Rightarrow> (bool \<times> cfg_env) proc" where
  "cfg_modules_init section_cb env = cfg_add_callback NULL (Some ''modules'') (Some section_cb) env"

text \<open>The name up to the first \<open>.options\<close>, cut to the static buffer.\<close>

fun strstr_prefix :: "string \<Rightarrow> string \<Rightarrow> string" where
  "strstr_prefix needle [] = []"
| "strstr_prefix needle (c # s) =
     (if take (length needle) (c # s) = needle then [] else c # strstr_prefix needle s)"

definition name_of_key :: "string \<Rightarrow> string" where
  "name_of_key key = take 127 (strstr_prefix ''.options'' (drop 7 key))"

text \<open>The loop over \<open>dict_enumerate\<close> with the number of modules seen.\<close>

fun modules_loop :: "int \<Rightarrow> int \<Rightarrow> (string \<times> dict_value) list \<Rightarrow> (string \<times> string) ptr" where
  "modules_loop index seen [] = NULL"
| "modules_loop index seen ((key, v) # kvs) =
     (if take 7 key \<noteq> ''module:'' then modules_loop index seen kvs
      else if seen < index then modules_loop index (seen + 1) kvs
      else Some (name_of_key key, case v of V_str (Some s) \<Rightarrow> s | _ \<Rightarrow> []))"

definition cfg_modules_get :: "dict ptr \<Rightarrow> int \<Rightarrow> (string \<times> string) ptr" where
  "cfg_modules_get cfg index =
     (case cfg of None \<Rightarrow> NULL | Some d \<Rightarrow> modules_loop index 0 (dict_items d 0))"

definition cfg_modules_options :: "dict ptr \<Rightarrow> string ptr \<Rightarrow> string ptr comp" where
  "cfg_modules_options cfg name =
     (case name of
        None \<Rightarrow> Some NULL
      | Some n \<Rightarrow>
          if n = [] then Some NULL
          else do {
            val \<leftarrow> dict_get cfg (Some (take 159 (options_key n))) NULL;
            Some (Some (case val of None \<Rightarrow> [] | Some v \<Rightarrow> v))
          })"

subsection \<open>Serial lines\<close>

definition serial_config :: section_cb where
  "serial_config path line section buf d a =
     (let (ok, a) = malloc_ok a in
      if \<not> ok then Some (Done (True, d), a)
      else if CHR ''='' \<notin> set buf then Some (Done (False, d), a)
      else
        let key = trim (before_eq buf); val = trim (after_eq buf);
            full = section @ ''.'' @ key;
            full = (if section = ''serial'' \<and> CHR ''.'' \<in> set key then full[6 := CHR '':''] else full) in
        if key \<noteq> [] \<and> length full < 256
        then do {
          (r, d, a) \<leftarrow> dict_add d (Some full) (Some val) a;
          Some (Done (r = 0, d), a)
        }
        else Some (Done (False, d), a))"

definition rr_serial_config_register :: "nat \<Rightarrow> cfg_env \<Rightarrow> (bool \<times> cfg_env) proc" where
  "rr_serial_config_register cb env =
     andthen (cfg_add_callback NULL (Some ''serial'') (Some cb) env) (\<lambda>(ok, env).
       if \<not> ok then ret (False, env) else cfg_add_callback NULL (Some ''serial:*'') (Some cb) env)"

subsection \<open>What is configured is found\<close>

lemma trim_plain: "s \<noteq> [] \<Longrightarrow> \<not> isspace (hd s) \<Longrightarrow> \<not> isspace (last s) \<Longrightarrow> trim s = s"
proof -
  assume s: "s \<noteq> []" "\<not> isspace (hd s)" "\<not> isspace (last s)"
  then have "rtrim isspace s = s" by (cases s rule: rev_cases) (simp_all add: rtrim_def)
  then show ?thesis using s by (simp add: trim_def dropWhile_eq_self_iff)
qed

lemma trim_Nil [simp]: "trim [] = []"
  by (simp add: trim_def rtrim_def)

text \<open>A text that trimming leaves alone.\<close>

definition trimmed :: "string \<Rightarrow> bool" where
  "trimmed s \<longleftrightarrow> s = [] \<or> \<not> isspace (hd s) \<and> \<not> isspace (last s)"

lemma trim_trimmed [simp]: "trimmed s \<Longrightarrow> trim s = s"
  using trim_plain [of s] by (cases "s = []") (auto simp: trimmed_def)

lemma trim_pad:
  assumes "trimmed s" and "list_all isspace l" and "list_all isspace r"
  shows "trim (l @ s @ r) = s"
proof -
  have r: "rtrim isspace (t @ r) = rtrim isspace t" for t
    using assms(3) by (simp add: rtrim_def list_all_iff dropWhile_append)
  have l: "dropWhile isspace (l @ t) = dropWhile isspace t" for t
    using assms(2) by (simp add: list_all_iff dropWhile_append)
  show ?thesis
  proof (cases "s = []")
    case True
    have "rtrim isspace l = []" using assms(2) by (simp add: rtrim_def list_all_iff)
    then show ?thesis using True r [of l] by (simp add: trim_def)
  next
    case False
    then have "rtrim isspace (l @ s) = l @ s" using assms(1)
      by (cases s rule: rev_cases) (auto simp: rtrim_def trimmed_def)
    then show ?thesis using r [of "l @ s"] l [of s] False assms(1)
      by (cases s) (auto simp: trim_def trimmed_def)
  qed
qed

lemma eq_parts [simp]:
  "CHR ''='' \<notin> set k \<Longrightarrow> before_eq (k @ ''='' @ v) = k" "CHR ''='' \<notin> set k \<Longrightarrow> after_eq (k @ ''='' @ v) = v"
  by (simp_all add: before_eq_def after_eq_def takeWhile_append dropWhile_append)

lemma dict_add_clean:
  assumes "dict_clean d" and "unat (d_fill d) < 2 ^ 28"
  obtains d' where "dict_add (Some d) (Some key) (Some v) [] = Some (0, Some d', [])" and "dict_clean d'"
    and "dict_map d' = (dict_map d)(key \<mapsto> V_str (Some v))"
  using dict_clean_store [OF assms, of key "V_str (Some v)" "[]"] by (auto simp: dict_add_def)

text \<open>A line of the section \<open>modules\<close>, with or without the suffix \<open>.so\<close> and with blanks around its
  parts, is found by the name of the module with the options as they were given.\<close>

theorem module_options_roundtrip:
  assumes d: "dict_clean d" "unat (d_fill d) < 2 ^ 28"
    and n: "trimmed (n @ so)" "n \<noteq> []" "so = [] \<and> strip_so n = n \<or> so = ''.so''" "CHR ''='' \<notin> set n" "length (n @ so) < 128"
    and v: "trimmed v" and b: "list_all isspace b1" "list_all isspace b2" "list_all isspace b3" "list_all isspace b4"
  shows "\<exists>d'. cfg_modules_section_cb path line ''modules'' (b1 @ (n @ so) @ b2 @ ''='' @ b3 @ v @ b4) (Some d) [] = Some (Done (True, Some d'), []) \<and>
    dict_clean d' \<and> cfg_modules_options (Some d') (Some n) = Some (Some v) \<and>
    dict_map d' = (dict_map d)(options_key n \<mapsto> V_str (Some v))"
proof -
  obtain d' where add: "dict_add (Some d) (Some (options_key n)) (Some v) [] = Some (0, Some d', [])" "dict_clean d'"
    "dict_map d' = (dict_map d)(options_key n \<mapsto> V_str (Some v))"
    using dict_add_clean [OF d] by blast
  define buf where "buf = b1 @ (n @ so) @ b2 @ ''='' @ b3 @ v @ b4"
  have be: "CHR ''='' \<notin> set b" if "list_all isspace b" for b
  proof -
    have "\<not> isspace (CHR ''='')" by (simp add: isspace_def)
    then show ?thesis using that unfolding list_all_iff by blast
  qed
  have "CHR ''='' \<notin> set so" using n(3) by auto
  then have e: "CHR ''='' \<notin> set (b1 @ (n @ so) @ b2)" using be [OF b(1)] be [OF b(2)] n(4) by simp
  have eq: "buf = (b1 @ (n @ so) @ b2) @ ''='' @ (b3 @ v @ b4)" by (simp add: buf_def)
  have k: "trim (before_eq buf) = n @ so"
    unfolding eq eq_parts(1) [OF e] by (rule trim_pad [OF n(1) b(1,2)])
  have w: "trim (after_eq buf) = v"
    unfolding eq eq_parts(2) [OF e] by (rule trim_pad [OF v b(3,4)])
  have s: "strip_so (n @ so) = n" using n(2,3) by (cases "so = []") (auto simp: strip_so_def Let_def)
  have l: "length (options_key n) < 160" using n(5) by (simp add: options_key_def)
  have "CHR ''='' \<in> set buf" by (simp add: buf_def)
  then have "cfg_modules_section_cb path line ''modules'' buf (Some d) [] = Some (Done (True, Some d'), [])"
    unfolding cfg_modules_section_cb_def k w Let_def s using n(2,5) l add(1) by simp
  moreover have "dict_get (Some d') (Some (options_key n)) NULL = Some (Some v)"
    using dict_get_map [of d' "options_key n" NULL] add(2,3) by (simp add: dict_clean_def)
  then have "cfg_modules_options (Some d') (Some n) = Some (Some v)"
    using n(2) l by (simp add: cfg_modules_options_def)
  ultimately show ?thesis using add(2,3) unfolding buf_def [symmetric] by blast
qed

text \<open>The two ways to write a setting of a serial line are the same.\<close>

theorem serial_forms_agree:
  assumes "CHR ''='' \<notin> set n" and "CHR ''='' \<notin> set k" and "trimmed k" and "k \<noteq> []" and "n \<noteq> []" and "\<not> isspace (hd n)"
  shows "serial_config path line (''serial:'' @ n) (k @ ''='' @ v) d a =
    serial_config path' line' ''serial'' ((n @ ''.'' @ k) @ ''='' @ v) d a"
proof -
  have e: "CHR ''='' \<notin> set (n @ ''.'' @ k)" using assms(1,2) by simp
  have t: "trim (n @ ''.'' @ k) = n @ ''.'' @ k" by (rule trim_plain) (use assms in \<open>auto simp: trimmed_def\<close>)
  have "(''serial'' @ ''.'' @ n @ ''.'' @ k)[6 := CHR '':''] = (''serial:'' @ n) @ ''.'' @ k"
    by (simp add: numeral_eq_Suc)
  then show ?thesis
    unfolding serial_config_def eq_parts [OF assms(2)] eq_parts [OF e] t trim_trimmed [OF assms(3)] Let_def
    using assms(4,5) by (cases "malloc_ok a") simp
qed

theorem module_options_roundtrip_witness:
  "\<exists>d d'. dict_new [] = (Some d, []) \<and>
    cfg_modules_section_cb ''rr.conf'' 3 ''modules'' ('' '' @ (''gtk'' @ ''.so'') @ '' '' @ ''='' @ '' '' @ ''fast'' @ '' '') (Some d) [] = Some (Done (True, Some d'), []) \<and>
    dict_clean d' \<and> cfg_modules_options (Some d') (Some ''gtk'') = Some (Some ''fast'') \<and>
    dict_map d' = (dict_map d)(options_key ''gtk'' \<mapsto> V_str (Some ''fast''))"
proof -
  obtain d where d: "dict_new [] = (Some d, [])" "dict_clean d" "unat (d_fill d) = 0"
    using dict_new_fresh [of "[]"] by (cases "dict_new []") auto
  have sp: "trimmed (''gtk'' @ ''.so'')" "trimmed ''fast''" "list_all isspace '' ''" by (simp_all add: trimmed_def isspace_def)
  have "unat (d_fill d) < 2 ^ 28" using d(3) by simp
  note r = module_options_roundtrip [OF d(2) this sp(1) _ _ _ _ sp(2) sp(3) sp(3) sp(3) sp(3)]
  have "\<exists>d'. cfg_modules_section_cb ''rr.conf'' 3 ''modules'' ('' '' @ (''gtk'' @ ''.so'') @ '' '' @ ''='' @ '' '' @ ''fast'' @ '' '') (Some d) [] = Some (Done (True, Some d'), []) \<and>
    dict_clean d' \<and> cfg_modules_options (Some d') (Some ''gtk'') = Some (Some ''fast'') \<and>
    dict_map d' = (dict_map d)(options_key ''gtk'' \<mapsto> V_str (Some ''fast''))"
    by (rule r) simp_all
  then show ?thesis using d(1) by blast
qed

text \<open>The modules in the order of the dictionary, one for each index.\<close>

definition is_module :: "string \<times> dict_value \<Rightarrow> bool" where
  "is_module kv \<longleftrightarrow> take 7 (fst kv) = ''module:''"

lemma modules_loop_nth:
  "modules_loop (seen + int i) seen kvs =
    (let ms = filter is_module kvs in
     if i < length ms then Some (name_of_key (fst (ms ! i)), case snd (ms ! i) of V_str (Some s) \<Rightarrow> s | _ \<Rightarrow> []) else NULL)"
proof (induction kvs arbitrary: i seen)
  case Nil
  then show ?case by simp
next
  case (Cons kv kvs)
  obtain k v where kv: "kv = (k, v)" by (cases kv)
  show ?case
  proof (cases "is_module kv")
    case False
    then show ?thesis using Cons.IH kv by (simp add: is_module_def)
  next
    case True
    then have m: "take 7 k = ''module:''" by (simp add: is_module_def kv)
    show ?thesis
    proof (cases i)
      case 0
      then show ?thesis using True m kv by (simp add: Let_def)
    next
      case (Suc j)
      then show ?thesis using True m kv Cons.IH [of "seen + 1" j] by (simp add: Let_def algebra_simps)
    qed
  qed
qed

lemma modules_get_nth:
  "cfg_modules_get (Some d) (int i) =
    (let ms = filter is_module (dict_items d 0) in
     if i < length ms then Some (name_of_key (fst (ms ! i)), case snd (ms ! i) of V_str (Some s) \<Rightarrow> s | _ \<Rightarrow> []) else NULL)"
  using modules_loop_nth [of 0 i "dict_items d 0"] by (simp add: cfg_modules_get_def)

text \<open>A name that contains the suffix of the key comes back cut, and its options are not found under it.\<close>

lemma name_cut_at_suffix: "name_of_key (options_key ''a.options.b'') = ''a''"
  by code_simp

end
