(* ===== verification/Module_Registry.thy ===== *)
theory Module_Registry
  imports Config_Sections
begin

text \<open>
  Loadable modules (\<open>module.c\<close>). What the dynamic linker and the modules do is an argument: opening
  and closing a library, and the three entry points of a module, which may change the registry
  themselves. A record of the registry has an identity; the records in the list are the ones that
  are allocated, so that reading or writing another one is undefined.
\<close>

record rr_module =
  m_id :: nat
  mod_path :: string
  mod_name :: string
  mod_events :: bool
  m_dlptr :: nat

record 'w registry =
  modules :: "rr_module list"
  next_id :: nat
  world :: 'w

record 'w loader =
  path_modules :: "'w \<Rightarrow> string ptr"
  dlopen :: "string \<Rightarrow> 'w \<Rightarrow> nat ptr \<times> 'w"
  dlclose :: "nat \<Rightarrow> 'w \<Rightarrow> bool \<times> 'w"
  rr_module_init :: "nat \<Rightarrow> ('w registry \<Rightarrow> bool \<times> 'w registry) ptr"
  rr_module_can_unload :: "nat \<Rightarrow> ('w registry \<Rightarrow> bool \<times> 'w registry) ptr"
  rr_module_shutdown :: "nat \<Rightarrow> ('w registry \<Rightarrow> 'w registry) ptr"
  modexports :: "nat \<Rightarrow> bool"

subsection \<open>Paths\<close>

definition concat_path :: "string \<Rightarrow> string \<Rightarrow> string ptr \<Rightarrow> string proc" where
  "concat_path dir file suffix =
     andthen or_abort (\<lambda>_. ret (take (PATH_MAX - 1)
       (case suffix of Some s \<Rightarrow> dir @ ''/'' @ file @ ''.'' @ s | None \<Rightarrow> dir @ ''/'' @ file)))"

definition contains :: "string \<Rightarrow> string \<Rightarrow> bool" where
  "contains needle s \<longleftrightarrow> strstr_prefix needle s \<noteq> s"

definition rr_find_module :: "string ptr \<Rightarrow> string \<Rightarrow> string ptr proc" where
  "rr_find_module cpath name =
     (case cpath of
        None \<Rightarrow> ret NULL
      | Some dir \<Rightarrow>
          andthen (concat_path dir name (if contains ''.so'' name then NULL else Some ''so'')) (\<lambda>p. ret (Some p)))"

subsection \<open>Loading and unloading\<close>

definition rr_find_loaded_module :: "string ptr \<Rightarrow> 'w registry \<Rightarrow> rr_module ptr" where
  "rr_find_loaded_module name st =
     (case name of None \<Rightarrow> NULL | Some n \<Rightarrow> List.find (\<lambda>m. mod_name m = n) (modules st))"

definition close_library :: "'w loader \<Rightarrow> nat \<Rightarrow> 'w registry \<Rightarrow> bool \<times> 'w registry" where
  "close_library ld dp st = (let (ok, w) = dlclose ld dp (world st) in (ok, st\<lparr>world := w\<rparr>))"

definition register_module :: "rr_module \<Rightarrow> 'w registry \<Rightarrow> 'w registry" where
  "register_module mp st = st\<lparr>modules := modules st @ [mp]\<rparr>"

definition load_opened :: "'w loader \<Rightarrow> string \<Rightarrow> string \<Rightarrow> nat \<Rightarrow> 'w registry \<Rightarrow> (bool \<times> 'w registry) proc" where
  "load_opened ld name path dp st a =
     (let (ok, a) = malloc_ok a in
      if \<not> ok then Some (Done (False, snd (close_library ld dp st)), a)
      else
        let i = next_id st; st = st\<lparr>next_id := i + 1\<rparr> in
        andthen or_abort (\<lambda>_. andthen or_abort (\<lambda>_.
          let (inited, st) = (case rr_module_init ld dp of None \<Rightarrow> (True, st) | Some f \<Rightarrow> f st) in
          if \<not> inited then ret (False, snd (close_library ld dp st))
          else ret (True, register_module
            \<lparr>m_id = i, mod_path = path, mod_name = name, mod_events = modexports ld dp, m_dlptr = dp\<rparr> st))) a)"

definition rr_load_module :: "'w loader \<Rightarrow> string ptr \<Rightarrow> 'w registry \<Rightarrow> (bool \<times> 'w registry) proc" where
  "rr_load_module ld name st =
     (case name of
        None \<Rightarrow> ret (False, st)
      | Some n \<Rightarrow>
          if rr_find_loaded_module name st \<noteq> NULL then ret (True, st)
          else andthen (rr_find_module (path_modules ld (world st)) n) (\<lambda>mod_path.
            case mod_path of
              None \<Rightarrow> ret (False, st)
            | Some path \<Rightarrow>
                let (dp, w) = dlopen ld path (world st); st = st\<lparr>world := w\<rparr> in
                (case dp of
                   None \<Rightarrow> ret (False, st)
                 | Some dp \<Rightarrow> load_opened ld n path dp st)))"

text \<open>The record that holds the link to the module, if it is not the head of the list.\<close>

definition link_holder :: "string \<Rightarrow> rr_module list \<Rightarrow> nat ptr" where
  "link_holder n ms =
     (let front = takeWhile (\<lambda>m. mod_name m \<noteq> n) ms in if front = [] then NULL else Some (m_id (last front)))"

definition allocated :: "nat \<Rightarrow> 'w registry \<Rightarrow> bool" where
  "allocated i st \<longleftrightarrow> i \<in> m_id ` set (modules st)"

definition rr_unload_module :: "'w loader \<Rightarrow> string ptr \<Rightarrow> 'w registry \<Rightarrow> (bool \<times> 'w registry) comp" where
  "rr_unload_module ld name st =
     (case name of
        None \<Rightarrow> Some (False, st)
      | Some n \<Rightarrow>
          (case rr_find_loaded_module name st of
             None \<Rightarrow> Some (False, st)
           | Some mp \<Rightarrow>
               let (can, st1) = (case rr_module_can_unload ld (m_dlptr mp) of None \<Rightarrow> (True, st) | Some f \<Rightarrow> f st) in
               if \<not> can then Some (False, st1)
               else if \<not> allocated (m_id mp) st1 then None
               else
                 let st2 = (case rr_module_shutdown ld (m_dlptr mp) of None \<Rightarrow> st1 | Some f \<Rightarrow> f st1) in
                 if \<not> allocated (m_id mp) st2 \<or> (case link_holder n (modules st) of None \<Rightarrow> False | Some i \<Rightarrow> \<not> allocated i st2)
                 then None
                 else
                   let st3 = st2\<lparr>modules := filter (\<lambda>m. m_id m \<noteq> m_id mp) (modules st2)\<rparr>
                   in Some (close_library ld (m_dlptr mp) st3)))"

subsection \<open>The registry\<close>

definition registry_ok :: "'w registry \<Rightarrow> bool" where
  "registry_ok st \<longleftrightarrow> distinct (map mod_name (modules st)) \<and> distinct (map m_id (modules st)) \<and>
     (\<forall>m \<in> set (modules st). m_id m < next_id st)"

text \<open>Entry points that leave the registry alone.\<close>

definition quiet :: "'w loader \<Rightarrow> bool" where
  "quiet ld \<longleftrightarrow>
     (\<forall>dp f st. rr_module_init ld dp = Some f \<longrightarrow> modules (snd (f st)) = modules st \<and> next_id (snd (f st)) = next_id st) \<and>
     (\<forall>dp f st. rr_module_can_unload ld dp = Some f \<longrightarrow> modules (snd (f st)) = modules st \<and> next_id (snd (f st)) = next_id st) \<and>
     (\<forall>dp f st. rr_module_shutdown ld dp = Some f \<longrightarrow> modules (f st) = modules st \<and> next_id (f st) = next_id st)"

abbreviation names :: "'w registry \<Rightarrow> string list" where
  "names st \<equiv> map mod_name (modules st)"

lemma find_loaded_iff: "rr_find_loaded_module (Some n) st = NULL \<longleftrightarrow> n \<notin> set (names st)"
  by (auto simp: rr_find_loaded_module_def find_None_iff)

lemma close_library_keeps [simp]:
  "modules (snd (close_library ld dp st)) = modules st" "next_id (snd (close_library ld dp st)) = next_id st"
  by (simp_all add: close_library_def split: prod.splits)

lemma or_abort_cases: "or_abort a = Some (Done (), snd (malloc_ok a)) \<or> or_abort a = Some (Exit ABORTED, snd (malloc_ok a))"
  by (auto simp: or_abort_def split: prod.splits)

lemma andthen_or_abort:
  "andthen or_abort f a = (if fst (malloc_ok a) then f () (snd (malloc_ok a)) else Some (Exit ABORTED, snd (malloc_ok a)))"
  by (auto simp: or_abort_def andthen_def split: prod.splits)

text \<open>What a module answers when it is started, and when it is asked whether it may be unloaded; one
  without that entry point agrees.\<close>

definition accepts_start :: "'w loader \<Rightarrow> nat \<Rightarrow> 'w registry \<Rightarrow> bool" where
  "accepts_start ld dp st \<longleftrightarrow> (\<forall>f. rr_module_init ld dp = Some f \<longrightarrow> fst (f st))"

definition accepts_unload :: "'w loader \<Rightarrow> nat \<Rightarrow> 'w registry \<Rightarrow> bool" where
  "accepts_unload ld dp st \<longleftrightarrow> (\<forall>f. rr_module_can_unload ld dp = Some f \<longrightarrow> fst (f st))"

text \<open>The file of a module, and whether it can be loaded: the directory is configured, the linker opens
  the file, and the module starts.\<close>

definition module_path :: "string \<Rightarrow> string \<Rightarrow> string" where
  "module_path dir n = take (PATH_MAX - 1) (if contains ''.so'' n then dir @ ''/'' @ n else dir @ ''/'' @ n @ ''.so'')"

definition loadable :: "'w loader \<Rightarrow> string \<Rightarrow> 'w registry \<Rightarrow> bool" where
  "loadable ld n st \<longleftrightarrow>
     (\<exists>dir dp w. path_modules ld (world st) = Some dir \<and> dlopen ld (module_path dir n) (world st) = (Some dp, w) \<and>
        accepts_start ld dp (st\<lparr>world := w, next_id := next_id st + 1\<rparr>))"

lemma init_quiet:
  assumes "quiet ld" and "(case rr_module_init ld dp of None \<Rightarrow> (True, st) | Some f \<Rightarrow> f st) = (ok, st')"
  shows "modules st' = modules st" and "next_id st' = next_id st"
proof -
  have "modules (snd (case rr_module_init ld dp of None \<Rightarrow> (True, st) | Some f \<Rightarrow> f st)) = modules st \<and>
      next_id (snd (case rr_module_init ld dp of None \<Rightarrow> (True, st) | Some f \<Rightarrow> f st)) = next_id st"
    using assms(1) by (auto simp: quiet_def split: option.splits)
  then show "modules st' = modules st" "next_id st' = next_id st" unfolding assms(2) by simp_all
qed

lemma load_opened_names:
  assumes "quiet ld" and "registry_ok st" and "n \<notin> set (names st)"
  shows "\<exists>r a'. load_opened ld n path dp st a = Some (r, a') \<and>
    (\<forall>ok st'. r = Done (ok, st') \<longrightarrow> registry_ok st' \<and> names st' = (if ok then names st @ [n] else names st) \<and>
      (ok \<longrightarrow> accepts_start ld dp (st\<lparr>next_id := next_id st + 1\<rparr>))) \<and>
    (a = [] \<longrightarrow> (\<exists>st'. r = Done (accepts_start ld dp (st\<lparr>next_id := next_id st + 1\<rparr>), st')))"
proof (cases "fst (malloc_ok a)")
  case False
  then have "a \<noteq> []" by auto
  then show ?thesis using assms(2) False by (auto simp: load_opened_def registry_ok_def split: prod.splits)
next
  case True
  obtain a1 where a1: "malloc_ok a = (True, a1)" using True by (cases "malloc_ok a") auto
  have a0: "a = [] \<Longrightarrow> a1 = []" using a1 by auto
  define s0 where "s0 = st\<lparr>next_id := next_id st + 1\<rparr>"
  obtain inited s1 where i: "(case rr_module_init ld dp of None \<Rightarrow> (True, s0) | Some f \<Rightarrow> f s0) = (inited, s1)"
    by (cases "case rr_module_init ld dp of None \<Rightarrow> (True, s0) | Some f \<Rightarrow> f s0") auto
  note q = init_quiet [OF assms(1) i]
  have s1: "modules s1 = modules st" "next_id s1 = next_id st + 1" using q by (simp_all add: s0_def)
  have start: "inited = accepts_start ld dp s0" using i by (auto simp: accepts_start_def split: option.splits)
  have ok: "registry_ok (snd (close_library ld dp s1))" "registry_ok (register_module
      \<lparr>m_id = next_id st, mod_path = path, mod_name = n, mod_events = modexports ld dp, m_dlptr = dp\<rparr> s1)"
    using assms(2,3) s1 by (fastforce simp: registry_ok_def register_module_def)+
  have l: "load_opened ld n path dp st a =
      (if fst (malloc_ok a1) then
         if fst (malloc_ok (snd (malloc_ok a1))) then
           Some (Done (if inited then (True, register_module
               \<lparr>m_id = next_id st, mod_path = path, mod_name = n, mod_events = modexports ld dp, m_dlptr = dp\<rparr> s1)
             else (False, snd (close_library ld dp s1))), snd (malloc_ok (snd (malloc_ok a1))))
         else Some (Exit ABORTED, snd (malloc_ok (snd (malloc_ok a1))))
       else Some (Exit ABORTED, snd (malloc_ok a1)))"
    by (simp add: load_opened_def a1 Let_def andthen_or_abort i [unfolded s0_def Suc_eq_plus1 [symmetric]] ret_def)
  show ?thesis unfolding l s0_def [symmetric] start [symmetric] using ok s1 a0 by (auto simp: register_module_def)
qed

lemma find_module_path:
  "rr_find_module (Some dir) n a =
    (if fst (malloc_ok a)
     then Some (Done (Some (take (PATH_MAX - 1) (if contains ''.so'' n then dir @ ''/'' @ n else dir @ ''/'' @ n @ ''.so''))), snd (malloc_ok a))
     else Some (Exit ABORTED, snd (malloc_ok a)))"
  unfolding rr_find_module_def concat_path_def option.case
  by (subst andthen_def) (simp add: andthen_or_abort ret_def)

lemma load_known: "n \<in> set (names st) \<Longrightarrow> rr_load_module ld (Some n) st a = Some (Done (True, st), a)"
proof -
  assume "n \<in> set (names st)"
  then have "rr_find_loaded_module (Some n) st \<noteq> NULL" using find_loaded_iff by blast
  then show ?thesis by (simp add: rr_load_module_def ret_def)
qed

lemma load_names:
  assumes "quiet ld" and "registry_ok st" and "n \<notin> set (names st)"
  shows "\<exists>r a'. rr_load_module ld (Some n) st a = Some (r, a') \<and>
    (\<forall>ok st'. r = Done (ok, st') \<longrightarrow> registry_ok st' \<and> names st' = (if ok then names st @ [n] else names st) \<and> (ok \<longrightarrow> loadable ld n st)) \<and>
    (a = [] \<longrightarrow> (\<exists>st'. r = Done (loadable ld n st, st')))"
proof -
  have nf: "rr_find_loaded_module (Some n) st = NULL" using assms(3) find_loaded_iff by blast
  show ?thesis
  proof (cases "path_modules ld (world st)")
    case None
    then show ?thesis using assms(2) nf by (simp add: rr_load_module_def rr_find_module_def ret_def loadable_def)
  next
    case (Some dir)
    show ?thesis
    proof (cases "fst (malloc_ok a)")
      case False
      then have "a \<noteq> []" by auto
      moreover have "rr_find_module (path_modules ld (world st)) n a = Some (Exit ABORTED, snd (malloc_ok a))"
        using False Some by (simp add: find_module_path)
      ultimately show ?thesis using nf by (simp add: rr_load_module_def)
    next
      case True
      have a0: "a = [] \<Longrightarrow> snd (malloc_ok a) = []" by simp
      obtain dp w where d: "dlopen ld (module_path dir n) (world st) = (dp, w)" by (cases "dlopen ld (module_path dir n) (world st)")
      have ok: "registry_ok (st\<lparr>world := w\<rparr>)" "n \<notin> set (names (st\<lparr>world := w\<rparr>))"
        using assms(2,3) by (simp_all add: registry_ok_def)
      have f: "rr_find_module (path_modules ld (world st)) n a = Some (Done (Some (module_path dir n)), snd (malloc_ok a))"
        using True Some by (simp add: find_module_path module_path_def)
      have l: "rr_load_module ld (Some n) st a =
        (case dp of None \<Rightarrow> ret (False, st\<lparr>world := w\<rparr>)
         | Some dp \<Rightarrow> load_opened ld n (module_path dir n) dp (st\<lparr>world := w\<rparr>)) (snd (malloc_ok a))"
        using nf f d by (simp add: rr_load_module_def Let_def split: option.split)
      show ?thesis
      proof (cases dp)
        case None
        then have "\<not> loadable ld n st" using Some d by (simp add: loadable_def)
        then show ?thesis unfolding l using ok None by (simp add: ret_def)
      next
        case (Some dp')
        have la: "loadable ld n st = accepts_start ld dp' ((st\<lparr>world := w\<rparr>)\<lparr>next_id := next_id (st\<lparr>world := w\<rparr>) + 1\<rparr>)"
          using Some d \<open>path_modules ld (world st) = Some dir\<close> by (simp add: loadable_def)
        define start where "start = accepts_start ld dp' ((st\<lparr>world := w\<rparr>)\<lparr>next_id := next_id (st\<lparr>world := w\<rparr>) + 1\<rparr>)"
        obtain r a' where o: "load_opened ld n (module_path dir n) dp' (st\<lparr>world := w\<rparr>) (snd (malloc_ok a)) = Some (r, a')"
          "\<And>ok st'. r = Done (ok, st') \<Longrightarrow> registry_ok st' \<and>
             names st' = (if ok then names (st\<lparr>world := w\<rparr>) @ [n] else names (st\<lparr>world := w\<rparr>)) \<and> (ok \<longrightarrow> start)"
          "snd (malloc_ok a) = [] \<Longrightarrow> \<exists>st'. r = Done (start, st')"
          using load_opened_names [OF assms(1) ok, of "module_path dir n" dp' "snd (malloc_ok a)", folded start_def]
          by (elim exE conjE) (rule that; simp)
        have 1: "rr_load_module ld (Some n) st a = Some (r, a')" unfolding l Some option.case o(1) ..
        have 2: "registry_ok st' \<and> names st' = (if ok then names st @ [n] else names st) \<and> (ok \<longrightarrow> loadable ld n st)"
          if "r = Done (ok, st')" for ok st' using o(2) [OF that] la by (simp add: start_def)
        have 3: "\<exists>st'. r = Done (loadable ld n st, st')" if "a = []" using o(3) [OF a0 [OF that]] unfolding la start_def .
        show ?thesis by (intro exI [of _ r] exI [of _ a'] conjI allI impI 1) (use 2 3 in \<open>simp_all only: simp_thms\<close>)
      qed
    qed
  qed
qed

lemma link_holder_in: "link_holder n ms = Some i \<Longrightarrow> i \<in> m_id ` set ms"
  using last_in_set [of "takeWhile (\<lambda>m. mod_name m \<noteq> n) ms"] set_takeWhileD
  by (fastforce simp: link_holder_def Let_def split: if_splits)

lemma filter_id_names:
  "distinct (map mod_name ms) \<Longrightarrow> distinct (map m_id ms) \<Longrightarrow> m \<in> set ms \<Longrightarrow>
    map mod_name (filter (\<lambda>x. m_id x \<noteq> m_id m) ms) = remove1 (mod_name m) (map mod_name ms)"
proof (induction ms)
  case (Cons x ms)
  show ?case
  proof (cases "m_id x = m_id m")
    case True
    then have "x = m" using Cons.prems by (auto simp: image_iff)
    moreover have "filter (\<lambda>y. m_id y \<noteq> m_id x) ms = ms" using Cons.prems(2) by (auto simp: filter_id_conv image_iff)
    ultimately show ?thesis by simp
  next
    case False
    then have "m \<in> set ms" using Cons.prems(3) by auto
    moreover from this have "mod_name x \<noteq> mod_name m" using Cons.prems(1) by auto
    ultimately show ?thesis using Cons False by simp
  qed
qed simp

lemma unload_unknown: "n \<notin> set (names st) \<Longrightarrow> rr_unload_module ld (Some n) st = Some (False, st)"
  using find_loaded_iff [of n st] by (simp add: rr_unload_module_def)

lemma unload_names:
  assumes "quiet ld" and "registry_ok st" and mp: "mp \<in> set (modules st)" "mod_name mp = n"
  shows "\<exists>ok st'. rr_unload_module ld (Some n) st = Some (ok, st') \<and> registry_ok st' \<and>
    (ok \<longrightarrow> accepts_unload ld (m_dlptr mp) st) \<and>
    names st' = (if accepts_unload ld (m_dlptr mp) st then remove1 n (names st) else names st)"
proof -
  obtain mq where Some: "rr_find_loaded_module (Some n) st = Some mq"
    using mp find_loaded_iff [of n st] by (cases "rr_find_loaded_module (Some n) st") auto
  then have "mq \<in> set (modules st)" "mod_name mq = n" by (auto simp: rr_find_loaded_module_def find_Some_iff)
  then have "mq = mp" using mp assms(2) by (metis registry_ok_def inj_on_def distinct_map)
  note Some = Some [unfolded this]
  obtain can st1 where c: "(case rr_module_can_unload ld (m_dlptr mp) of None \<Rightarrow> (True, st) | Some f \<Rightarrow> f st) = (can, st1)"
    by (cases "case rr_module_can_unload ld (m_dlptr mp) of None \<Rightarrow> (True, st) | Some f \<Rightarrow> f st") auto
  have "modules (snd (case rr_module_can_unload ld (m_dlptr mp) of None \<Rightarrow> (True, st) | Some f \<Rightarrow> f st)) = modules st \<and>
      next_id (snd (case rr_module_can_unload ld (m_dlptr mp) of None \<Rightarrow> (True, st) | Some f \<Rightarrow> f st)) = next_id st"
    using assms(1) by (auto simp: quiet_def split: option.splits)
  moreover have leave: "accepts_unload ld (m_dlptr mp) st = can" using c by (auto simp: accepts_unload_def split: option.splits)
  ultimately have s1: "modules st1 = modules st" "next_id st1 = next_id st" unfolding c by simp_all
  define st2 where "st2 = (case rr_module_shutdown ld (m_dlptr mp) of None \<Rightarrow> st1 | Some f \<Rightarrow> f st1)"
  have s2: "modules st2 = modules st" "next_id st2 = next_id st"
    using assms(1) s1 unfolding st2_def by (auto simp: quiet_def split: option.splits)
  have al: "allocated (m_id mp) st1" "allocated (m_id mp) st2" "\<And>i. link_holder n (modules st) = Some i \<Longrightarrow> allocated i st2"
    using mp(1) s1 s2 link_holder_in by (auto simp: allocated_def)
  define st3 where "st3 = st2\<lparr>modules := filter (\<lambda>m. m_id m \<noteq> m_id mp) (modules st2)\<rparr>"
  have n3: "names st3 = remove1 n (names st)"
    using filter_id_names [OF _ _ mp(1)] assms(2) mp(2) s2 by (simp add: st3_def registry_ok_def)
  have ok3: "registry_ok st3"
    using assms(2) s2 by (auto simp: registry_ok_def st3_def distinct_map intro: inj_on_subset)
  have u: "rr_unload_module ld (Some n) st = (if can then Some (close_library ld (m_dlptr mp) st3) else Some (False, st1))"
    using al by (auto simp: rr_unload_module_def Some c st2_def [symmetric] st3_def Let_def split: option.splits)
  show ?thesis
  proof (cases can)
    case False
    then show ?thesis unfolding u leave using s1 assms(2) by (intro exI [of _ False] exI [of _ st1]) (simp add: registry_ok_def)
  next
    case True
    obtain ok st4 where c4: "close_library ld (m_dlptr mp) st3 = (ok, st4)" by (cases "close_library ld (m_dlptr mp) st3")
    have "modules st4 = modules st3" "next_id st4 = next_id st3"
      using close_library_keeps [of ld "m_dlptr mp" st3] unfolding c4 by simp_all
    then have r: "registry_ok st4" "names st4 = remove1 n (names st)" using ok3 n3 by (simp_all add: registry_ok_def)
    then show ?thesis unfolding u leave c4 using True by (intro exI [of _ ok] exI [of _ st4]) (simp del: set_map)
  qed
qed

lemma load_spec:
  assumes "quiet ld" and "registry_ok st"
  shows "\<exists>r a'. rr_load_module ld (Some n) st a = Some (r, a') \<and>
      (\<forall>ok st'. r = Done (ok, st') \<longrightarrow> registry_ok st' \<and>
         (if n \<in> set (names st) then ok \<and> st' = st
          else (ok \<longrightarrow> loadable ld n st) \<and> names st' = (if ok then names st @ [n] else names st))) \<and>
      (a = [] \<longrightarrow> (\<exists>st'. r = Done (n \<in> set (names st) \<or> loadable ld n st, st')))"
proof (cases "n \<in> set (names st)")
  case True
  have "n \<in> set (names st) \<or> loadable ld n st \<longleftrightarrow> True" using True by blast
  then show ?thesis unfolding load_known [OF True] using True assms(2)
    by (intro exI [of _ "Done (True, st)"] exI [of _ a] conjI allI impI exI [of _ st]) simp_all
next
  case False
  have "n \<in> set (names st) \<or> loadable ld n st \<longleftrightarrow> loadable ld n st" using False by blast
  note eq = this if_not_P [OF False]
  obtain r a' where 1: "rr_load_module ld (Some n) st a = Some (r, a')"
    and 2: "\<forall>ok st'. r = Done (ok, st') \<longrightarrow> registry_ok st' \<and> names st' = (if ok then names st @ [n] else names st) \<and> (ok \<longrightarrow> loadable ld n st)"
    and 3: "a = [] \<longrightarrow> (\<exists>st'. r = Done (loadable ld n st, st'))"
    using load_names [OF assms False, of a] by (elim exE conjE) (rule that)
  show ?thesis unfolding eq by (intro exI [of _ r] exI [of _ a'] conjI 1 3 allI impI) (use 2 in \<open>simp_all only: simp_thms\<close>)
qed

lemma unload_spec:
  assumes "quiet ld" and "registry_ok st"
  shows "\<exists>ok st'. rr_unload_module ld (Some n) st = Some (ok, st') \<and> registry_ok st' \<and>
      (n \<notin> set (names st) \<longrightarrow> \<not> ok \<and> st' = st) \<and>
      (\<forall>mp \<in> set (modules st). mod_name mp = n \<longrightarrow>
         (ok \<longrightarrow> accepts_unload ld (m_dlptr mp) st) \<and>
         names st' = (if accepts_unload ld (m_dlptr mp) st then remove1 n (names st) else names st))"
proof (cases "n \<in> set (names st)")
  case True
  then obtain mp where mp: "mp \<in> set (modules st)" "mod_name mp = n" by auto
  have one: "x = mp" if "x \<in> set (modules st)" "mod_name x = n" for x
    using that mp assms(2) by (metis registry_ok_def inj_on_def distinct_map)
  obtain ok st' where u: "rr_unload_module ld (Some n) st = Some (ok, st')" "registry_ok st'" "ok \<longrightarrow> accepts_unload ld (m_dlptr mp) st"
    "names st' = (if accepts_unload ld (m_dlptr mp) st then remove1 n (names st) else names st)"
    using unload_names [OF assms mp] by (elim exE conjE) (rule that)
  have "(ok \<longrightarrow> accepts_unload ld (m_dlptr x) st) \<and>
      names st' = (if accepts_unload ld (m_dlptr x) st then remove1 n (names st) else names st)"
    if "x \<in> set (modules st)" "mod_name x = n" for x
    using u(3,4) unfolding one [OF that] by (rule conjI)
  then show ?thesis using True u(1,2) by (intro exI [of _ ok] exI [of _ st'] conjI ballI impI) simp_all
next
  case False
  then have no: "mod_name mp \<noteq> n" if "mp \<in> set (modules st)" for mp using that by auto
  show ?thesis using unload_unknown [OF False] assms(2) no
    by (intro exI [of _ False] exI [of _ st] conjI ballI impI) simp_all
qed

text \<open>C33: the registry is a list of names without duplicates, and the modules' answers decide about it.
  Under every pattern of failing allocations, loading a module that is loaded changes nothing;
  loading another one appends its name or leaves the list alone (or ends the process when memory
  runs out), and it is appended only if the module is \<open>loadable\<close>: the directory is configured, the
  linker opens the file and \<open>init\<close>, if the module has one, does not fail. When memory suffices it is
  appended exactly then. Unloading is defined; it removes the name exactly when \<open>can_unload\<close>, if the
  module has one, agrees, and it reports success only then. The entry points may do anything but load
  and unload modules.\<close>

theorem module_registry_refines:
  assumes "quiet ld" and "registry_ok st"
  shows "(\<exists>r a'. rr_load_module ld (Some n) st a = Some (r, a') \<and>
      (\<forall>ok st'. r = Done (ok, st') \<longrightarrow> registry_ok st' \<and>
         (if n \<in> set (names st) then ok \<and> st' = st
          else (ok \<longrightarrow> loadable ld n st) \<and> names st' = (if ok then names st @ [n] else names st))) \<and>
      (a = [] \<longrightarrow> (\<exists>st'. r = Done (n \<in> set (names st) \<or> loadable ld n st, st')))) \<and>
    (\<exists>ok st'. rr_unload_module ld (Some n) st = Some (ok, st') \<and> registry_ok st' \<and>
      (n \<notin> set (names st) \<longrightarrow> \<not> ok \<and> st' = st) \<and>
      (\<forall>mp \<in> set (modules st). mod_name mp = n \<longrightarrow>
         (ok \<longrightarrow> accepts_unload ld (m_dlptr mp) st) \<and>
         names st' = (if accepts_unload ld (m_dlptr mp) st then remove1 n (names st) else names st)))"
  by (rule conjI [OF load_spec [OF assms] unload_spec [OF assms]])

text \<open>A linker that opens everything, and modules without entry points.\<close>

definition plain_loader :: "nat loader" where
  "plain_loader = \<lparr>path_modules = \<lambda>w. Some ''/usr/lib/rr'', dlopen = \<lambda>p w. (Some w, w + 1), dlclose = \<lambda>dp w. (True, w),
     rr_module_init = \<lambda>dp. NULL, rr_module_can_unload = \<lambda>dp. NULL, rr_module_shutdown = \<lambda>dp. NULL, modexports = \<lambda>dp. True\<rparr>"

definition two_modules :: "nat registry" where
  "two_modules = \<lparr>modules =
     [\<lparr>m_id = 0, mod_path = ''/usr/lib/rr/a.so'', mod_name = ''a'', mod_events = True, m_dlptr = 0\<rparr>,
      \<lparr>m_id = 1, mod_path = ''/usr/lib/rr/b.so'', mod_name = ''b'', mod_events = True, m_dlptr = 1\<rparr>],
     next_id = 2, world = 2\<rparr>"

text \<open>A module whose start fails is not registered, and one that refuses stays.\<close>

definition stubborn_loader :: "nat loader" where
  "stubborn_loader = plain_loader\<lparr>rr_module_init := \<lambda>dp. Some (\<lambda>st. (False, st)), rr_module_can_unload := \<lambda>dp. Some (\<lambda>st. (False, st))\<rparr>"

theorem module_registry_refines_witness:
  "(\<exists>st. rr_load_module stubborn_loader (Some ''c'') two_modules [] = Some (Done (False, st), []) \<and> names st = [''a'', ''b'']) \<and>
   (\<exists>st. rr_unload_module stubborn_loader (Some ''b'') two_modules = Some (False, st) \<and> names st = [''a'', ''b''])"
proof -
  have q: "quiet stubborn_loader" "registry_ok two_modules"
    by (auto simp: quiet_def stubborn_loader_def plain_loader_def registry_ok_def two_modules_def)
  have n: "names two_modules = [''a'', ''b'']" by (simp add: two_modules_def)
  have no: "\<not> loadable stubborn_loader ''c'' two_modules" "\<not> accepts_unload stubborn_loader dp two_modules" for dp
    by (auto simp: loadable_def accepts_start_def accepts_unload_def stubborn_loader_def plain_loader_def)
  have b: "\<exists>mp \<in> set (modules two_modules). mod_name mp = ''b''" by (simp add: two_modules_def)
  have "snd (the (rr_load_module stubborn_loader (Some ''c'') two_modules [])) = []"
    by (simp add: rr_load_module_def rr_find_module_def stubborn_loader_def plain_loader_def two_modules_def rr_find_loaded_module_def
        concat_path_def andthen_def or_abort_def ret_def load_opened_def Let_def)
  then show ?thesis
    using module_registry_refines [OF q, of "''c''" "[]"] module_registry_refines [OF q, of "''b''" "[]"] no b unfolding n
    by auto
qed

text \<open>The place of the link is found before the module is shut down: a module that unloads its
  neighbour in the list in the course of its shutdown makes the removal write to freed memory.\<close>

definition neighbour_loader :: "nat loader" where
  "neighbour_loader = plain_loader\<lparr>rr_module_shutdown :=
     \<lambda>dp. if dp = 1 then Some (\<lambda>st. snd (the (rr_unload_module plain_loader (Some ''a'') st))) else NULL\<rparr>"

lemma shutdown_of_neighbour_undefined: "rr_unload_module neighbour_loader (Some ''b'') two_modules = None"
proof -
  have "rr_unload_module plain_loader (Some ''a'') two_modules =
      Some (True, two_modules\<lparr>modules := tl (modules two_modules)\<rparr>)"
    by (simp add: rr_unload_module_def plain_loader_def two_modules_def rr_find_loaded_module_def allocated_def
        link_holder_def close_library_def)
  then show ?thesis
    by (simp add: rr_unload_module_def neighbour_loader_def plain_loader_def two_modules_def rr_find_loaded_module_def
        allocated_def link_holder_def)
qed

end
