(* ===== verification/Transport.thy ===== *)
theory Transport
  imports Prelude
begin

text \<open>
  The transport interface (\<open>transport.c\<close>): a handle over a driver, whose operations are the
  arguments, and the events that it passes on. Nothing follows the call of the callback or of the
  driver in \<open>rr_transport_emit\<close>, \<open>rr_transport_close\<close> and \<open>rr_transport_free\<close>, so what these calls
  do to the handle in turn is the next step of a run, and the runs cover callbacks and drivers that
  call back at will.
\<close>

subsection \<open>The handle\<close>

datatype transport_state = CONNECTING | OPEN | CLOSING | CLOSED

datatype transport_event = EVENT_OPEN | EVENT_MESSAGE | EVENT_DATAGRAM | EVENT_STREAM_DATA | EVENT_CLOSE | EVENT_ERROR
  | EVENT_PONG | EVENT_BINARY_MESSAGE

abbreviation RELIABLE_MESSAGES :: u32 where "RELIABLE_MESSAGES \<equiv> 1"
abbreviation ORDERED_STREAMS :: u32 where "ORDERED_STREAMS \<equiv> 2"
abbreviation DATAGRAMS :: u32 where "DATAGRAMS \<equiv> 4"
abbreviation TLS_AUTHENTICATED :: u32 where "TLS_AUTHENTICATED \<equiv> 8"
abbreviation PEER_SPKI :: u32 where "PEER_SPKI \<equiv> 16"
abbreviation BINARY_MESSAGES :: u32 where "BINARY_MESSAGES \<equiv> 64"

abbreviation T_OK :: int where "T_OK \<equiv> 0"
abbreviation T_UNSUPPORTED :: int where "T_UNSUPPORTED \<equiv> - 1"
abbreviation T_INVALID :: int where "T_INVALID \<equiv> - 2"
abbreviation T_CLOSED_ERROR :: int where "T_CLOSED_ERROR \<equiv> - 3"

text \<open>A buffer and the length given with it.\<close>

type_synonym buffer = "u8 list ptr \<times> nat"

record 'd transport_ops =
  abi_version :: u32
  capabilities :: u32
  op_connection_capabilities :: "('d \<Rightarrow> u32) ptr"
  op_send_message :: "('d \<Rightarrow> buffer \<Rightarrow> int \<times> 'd) ptr"
  op_send_binary_message :: "('d \<Rightarrow> buffer \<Rightarrow> int \<times> 'd) ptr"
  op_queued_bytes :: "('d \<Rightarrow> nat) ptr"
  op_send_datagram :: "('d \<Rightarrow> buffer \<Rightarrow> int \<times> 'd) ptr"
  op_open_stream :: "('d \<Rightarrow> (int \<times> u64) \<times> 'd) ptr"
  op_send_stream :: "('d \<Rightarrow> u64 \<Rightarrow> buffer \<Rightarrow> bool \<Rightarrow> int \<times> 'd) ptr"
  op_peer_spki_sha256 :: "('d \<Rightarrow> u8 list option) ptr"
  op_poll :: "('d \<Rightarrow> int \<Rightarrow> int \<times> 'd) ptr"
  op_close :: "('d \<Rightarrow> 'd) ptr"

record 'd transport =
  t_ops :: "'d transport_ops"
  t_driver :: 'd
  t_callback :: bool
  t_state :: transport_state

definition rr_transport_new :: "bool \<Rightarrow> 'd transport_ops ptr \<Rightarrow> 'd \<Rightarrow> bool \<Rightarrow> 'd transport ptr" where
  "rr_transport_new malloc ops driver callback =
     (case ops of
        None \<Rightarrow> NULL
      | Some o' \<Rightarrow>
          if abi_version o' \<noteq> 3 then NULL
          else if \<not> malloc then NULL
          else Some \<lparr>t_ops = o', t_driver = driver, t_callback = callback, t_state = CONNECTING\<rparr>)"

definition rr_transport_capabilities :: "'d transport ptr \<Rightarrow> u32" where
  "rr_transport_capabilities t =
     (case t of
        None \<Rightarrow> 0
      | Some t \<Rightarrow>
          (case op_connection_capabilities (t_ops t) of
             Some f \<Rightarrow> f (t_driver t) AND capabilities (t_ops t)
           | None \<Rightarrow> capabilities (t_ops t)))"

definition rr_transport_state :: "'d transport ptr \<Rightarrow> transport_state" where
  "rr_transport_state t = (case t of None \<Rightarrow> CLOSED | Some t \<Rightarrow> t_state t)"

definition rr_transport_driver_context :: "'d transport ptr \<Rightarrow> 'd ptr" where
  "rr_transport_driver_context t = map_option t_driver t"

definition check :: "'d transport ptr \<Rightarrow> u32 \<Rightarrow> buffer \<Rightarrow> int" where
  "check t capability b =
     (case t of
        None \<Rightarrow> T_INVALID
      | Some h \<Rightarrow>
          if fst b = NULL \<and> snd b \<noteq> 0 then T_INVALID
          else if t_state h \<noteq> OPEN then T_CLOSED_ERROR
          else if rr_transport_capabilities t AND capability \<noteq> 0 then T_OK else T_UNSUPPORTED)"

text \<open>A call of an operation that the driver may not have; the driver may change.\<close>

definition call_op :: "('d transport_ops \<Rightarrow> ('d \<Rightarrow> int \<times> 'd) ptr) \<Rightarrow> 'd transport \<Rightarrow> int \<times> 'd transport" where
  "call_op f h =
     (case f (t_ops h) of
        None \<Rightarrow> (T_UNSUPPORTED, h)
      | Some g \<Rightarrow> let (r, d) = g (t_driver h) in (r, h\<lparr>t_driver := d\<rparr>))"

definition send_checked ::
  "u32 \<Rightarrow> buffer \<Rightarrow> ('d transport_ops \<Rightarrow> ('d \<Rightarrow> int \<times> 'd) ptr) \<Rightarrow> 'd transport ptr \<Rightarrow> int \<times> 'd transport ptr" where
  "send_checked capability b f t =
     (let r = check t capability b in
      if r \<noteq> 0 then (r, t)
      else case t of None \<Rightarrow> (r, t) | Some h \<Rightarrow> map_prod id Some (call_op f h))"

definition rr_transport_send_message :: "'d transport ptr \<Rightarrow> buffer \<Rightarrow> int \<times> 'd transport ptr" where
  "rr_transport_send_message t b =
     send_checked RELIABLE_MESSAGES b (\<lambda>o'. map_option (\<lambda>f d. f d b) (op_send_message o')) t"

definition rr_transport_send_binary_message :: "'d transport ptr \<Rightarrow> buffer \<Rightarrow> int \<times> 'd transport ptr" where
  "rr_transport_send_binary_message t b =
     send_checked BINARY_MESSAGES b (\<lambda>o'. map_option (\<lambda>f d. f d b) (op_send_binary_message o')) t"

definition rr_transport_send_datagram :: "'d transport ptr \<Rightarrow> buffer \<Rightarrow> int \<times> 'd transport ptr" where
  "rr_transport_send_datagram t b =
     send_checked DATAGRAMS b (\<lambda>o'. map_option (\<lambda>f d. f d b) (op_send_datagram o')) t"

definition rr_transport_send_stream :: "'d transport ptr \<Rightarrow> u64 \<Rightarrow> buffer \<Rightarrow> bool \<Rightarrow> int \<times> 'd transport ptr" where
  "rr_transport_send_stream t i b fin =
     send_checked ORDERED_STREAMS b (\<lambda>o'. map_option (\<lambda>f d. f d i b fin) (op_send_stream o')) t"

text \<open>The stream goes to the variable \<open>id\<close> points to, if it points to one.\<close>

definition rr_transport_open_stream :: "'d transport ptr \<Rightarrow> u64 ptr \<Rightarrow> (int \<times> u64 ptr) \<times> 'd transport ptr" where
  "rr_transport_open_stream t i =
     (let r = check t ORDERED_STREAMS (NULL, 0) in
      if r \<noteq> 0 then ((r, i), t)
      else if i = NULL then ((T_INVALID, i), t)
      else case t of
        None \<Rightarrow> ((r, i), t)
      | Some h \<Rightarrow>
          (case op_open_stream (t_ops h) of
             None \<Rightarrow> ((T_UNSUPPORTED, i), t)
           | Some f \<Rightarrow> let ((r', i'), d) = f (t_driver h) in ((r', Some i'), Some (h\<lparr>t_driver := d\<rparr>))))"

definition rr_transport_queued_bytes :: "'d transport ptr \<Rightarrow> nat" where
  "rr_transport_queued_bytes t =
     (case t of
        None \<Rightarrow> 0
      | Some h \<Rightarrow> (case op_queued_bytes (t_ops h) of None \<Rightarrow> 0 | Some f \<Rightarrow> f (t_driver h)))"

definition rr_transport_poll :: "'d transport ptr \<Rightarrow> int \<Rightarrow> int \<times> 'd transport ptr" where
  "rr_transport_poll t timeout_ms =
     (case t of
        None \<Rightarrow> (T_INVALID, t)
      | Some h \<Rightarrow>
          if timeout_ms < 0 then (T_INVALID, t)
          else if t_state h = CLOSED then (T_CLOSED_ERROR, t)
          else map_prod id Some (call_op (\<lambda>o'. map_option (\<lambda>f d. f d timeout_ms) (op_poll o')) h))"

text \<open>The hash when it was written to the output, \<open>output\<close> tells whether there is one.\<close>

definition rr_transport_peer_spki_sha256 :: "'d transport ptr \<Rightarrow> bool \<Rightarrow> u8 list option" where
  "rr_transport_peer_spki_sha256 t output =
     (case t of
        None \<Rightarrow> None
      | Some h \<Rightarrow>
          if output \<and> t_state h = OPEN \<and> rr_transport_capabilities t AND TLS_AUTHENTICATED \<noteq> 0 \<and>
             rr_transport_capabilities t AND PEER_SPKI \<noteq> 0
          then Option.bind (op_peer_spki_sha256 (t_ops h)) (\<lambda>f. f (t_driver h))
          else None)"

subsection \<open>Events\<close>

text \<open>What leaves the handle: a call of the callback or of the driver.\<close>

datatype effect = Callback transport_event | Driver_Close

definition deliver :: "'d transport \<Rightarrow> transport_event \<Rightarrow> effect list" where
  "deliver h event = (if t_callback h then [Callback event] else [])"

definition rr_transport_emit :: "'d transport ptr \<Rightarrow> transport_event \<Rightarrow> 'd transport ptr \<times> effect list" where
  "rr_transport_emit t event =
     (case t of
        None \<Rightarrow> (t, [])
      | Some h \<Rightarrow>
          if t_state h = CLOSED then (t, [])
          else if event = EVENT_OPEN then
            (if t_state h \<noteq> CONNECTING then (t, []) else (Some (h\<lparr>t_state := OPEN\<rparr>), deliver h event))
          else if event = EVENT_CLOSE then (Some (h\<lparr>t_state := CLOSED\<rparr>), deliver h event)
          else if t_state h \<noteq> OPEN \<and> event \<noteq> EVENT_ERROR then (t, [])
          else (t, deliver h event))"

definition rr_transport_close :: "'d transport ptr \<Rightarrow> 'd transport ptr \<times> effect list" where
  "rr_transport_close t =
     (case t of
        None \<Rightarrow> (t, [])
      | Some h \<Rightarrow>
          if t_state h = CLOSED \<or> t_state h = CLOSING then (t, [])
          else
            let h' = h\<lparr>t_state := CLOSING\<rparr> in
            (case op_close (t_ops h) of
               Some f \<Rightarrow> (Some (h'\<lparr>t_driver := f (t_driver h)\<rparr>), [Driver_Close])
             | None \<Rightarrow> rr_transport_emit (Some h') EVENT_CLOSE))"

text \<open>\<open>NULL\<close> stands for a handle that was freed.\<close>

definition rr_transport_free :: "'d transport ptr \<Rightarrow> 'd transport ptr \<times> effect list" where
  "rr_transport_free t =
     (case t of
        None \<Rightarrow> (t, [])
      | Some h \<Rightarrow> if t_state h \<noteq> CLOSED then rr_transport_close t else (NULL, []))"

subsection \<open>Runs\<close>

text \<open>The life of one handle: the driver emits events, the owner closes and frees.\<close>

inductive transport_run :: "'d transport ptr \<Rightarrow> effect list \<Rightarrow> 'd transport ptr \<Rightarrow> bool" where
  run_start: "rr_transport_new True (Some ops) driver callback = Some h \<Longrightarrow> transport_run (Some h) [] (Some h)"
| run_emit: "transport_run t0 es (Some h) \<Longrightarrow> rr_transport_emit (Some h) event = (t', out) \<Longrightarrow> transport_run t0 (es @ out) t'"
| run_close: "transport_run t0 es (Some h) \<Longrightarrow> rr_transport_close (Some h) = (t', out) \<Longrightarrow> transport_run t0 (es @ out) t'"
| run_free: "transport_run t0 es (Some h) \<Longrightarrow> rr_transport_free (Some h) = (t', out) \<Longrightarrow> transport_run t0 (es @ out) t'"
| run_send: "transport_run t0 es (Some h) \<Longrightarrow>
    (r, t') \<in> {rr_transport_send_message (Some h) b, rr_transport_send_binary_message (Some h) b,
      rr_transport_send_datagram (Some h) b, rr_transport_send_stream (Some h) i b fin} \<Longrightarrow> transport_run t0 es t'"
| run_open_stream: "transport_run t0 es (Some h) \<Longrightarrow> rr_transport_open_stream (Some h) p = (r', t') \<Longrightarrow> transport_run t0 es t'"
| run_poll: "transport_run t0 es (Some h) \<Longrightarrow> rr_transport_poll (Some h) n = (r, t') \<Longrightarrow> transport_run t0 es t'"

text \<open>What holds of the effects so far in each state.\<close>

definition so_far :: "transport_state \<Rightarrow> bool \<Rightarrow> effect list \<Rightarrow> bool" where
  "so_far s callback es \<longleftrightarrow>
     (callback \<longrightarrow> s = OPEN \<longrightarrow> Callback EVENT_OPEN \<in> set es) \<and>
     (s = CONNECTING \<longrightarrow> set es \<subseteq> {Callback EVENT_ERROR}) \<and>
     (s \<in> {CONNECTING, OPEN} \<longrightarrow> Driver_Close \<notin> set es) \<and>
     (s \<noteq> CLOSED \<longrightarrow> Callback EVENT_CLOSE \<notin> set es) \<and>
     (\<not> callback \<longrightarrow> set es \<subseteq> {Driver_Close})"

text \<open>What may follow in the order of effects.\<close>

definition in_order :: "effect list \<Rightarrow> bool" where
  "in_order es \<longleftrightarrow> (\<forall>xs e ys. es = xs @ e # ys \<longrightarrow>
     Callback EVENT_CLOSE \<notin> set xs \<and>
     (e = Callback EVENT_OPEN \<longrightarrow> Callback EVENT_OPEN \<notin> set xs \<and> Driver_Close \<notin> set xs) \<and>
     (e = Driver_Close \<longrightarrow> Driver_Close \<notin> set xs) \<and>
     (e \<notin> {Callback EVENT_OPEN, Callback EVENT_CLOSE, Callback EVENT_ERROR, Driver_Close} \<longrightarrow>
        Callback EVENT_OPEN \<in> set xs \<and> Driver_Close \<notin> set xs))"

lemma in_order_Nil [simp]: "in_order []"
  by (simp add: in_order_def)

lemma in_order_snoc:
  "in_order (es @ [e]) \<longleftrightarrow> in_order es \<and> Callback EVENT_CLOSE \<notin> set es \<and>
     (e = Callback EVENT_OPEN \<longrightarrow> Callback EVENT_OPEN \<notin> set es \<and> Driver_Close \<notin> set es) \<and>
     (e = Driver_Close \<longrightarrow> Driver_Close \<notin> set es) \<and>
     (e \<notin> {Callback EVENT_OPEN, Callback EVENT_CLOSE, Callback EVENT_ERROR, Driver_Close} \<longrightarrow>
        Callback EVENT_OPEN \<in> set es \<and> Driver_Close \<notin> set es)"
  (is "_ \<longleftrightarrow> in_order es \<and> ?P es e")
proof
  assume o: "in_order (es @ [e])"
  have "in_order es"
    unfolding in_order_def
  proof (intro allI impI)
    fix xs a ys
    assume "es = xs @ a # ys"
    then show "?P xs a" using o [unfolded in_order_def, rule_format, of xs a "ys @ [e]"] by simp
  qed
  moreover have "?P es e" using o [unfolded in_order_def, rule_format, of es e "[]"] by simp
  ultimately show "in_order es \<and> ?P es e" by simp
next
  assume o: "in_order es \<and> ?P es e"
  show "in_order (es @ [e])"
    unfolding in_order_def
  proof (intro allI impI)
    fix xs a ys
    assume eq: "es @ [e] = xs @ a # ys"
    show "?P xs a"
    proof (cases ys rule: rev_cases)
      case Nil
      then show ?thesis using eq o by simp
    next
      case (snoc zs z)
      then have "es = xs @ a # zs" using eq by simp
      then show ?thesis using o [THEN conjunct1, unfolded in_order_def, rule_format, of xs a zs] by simp
    qed
  qed
qed

text \<open>An operation that leaves the state and the callback alone, or moves them as an event may.\<close>

lemma emit_keeps:
  assumes "so_far (t_state h) (t_callback h) es" and "in_order es" and "rr_transport_emit (Some h) event = (Some h', out)"
  shows "so_far (t_state h') (t_callback h') (es @ out) \<and> in_order (es @ out)"
  using assms
  by (cases "t_state h"; cases event)
    (auto simp: rr_transport_emit_def deliver_def so_far_def in_order_snoc split: if_splits)

lemma close_keeps:
  assumes "so_far (t_state h) (t_callback h) es" and "in_order es" and "rr_transport_close (Some h) = (Some h', out)"
  shows "so_far (t_state h') (t_callback h') (es @ out) \<and> in_order (es @ out)"
  using assms
  by (cases "t_state h")
    (auto simp: rr_transport_close_def rr_transport_emit_def deliver_def so_far_def in_order_snoc Let_def split: if_splits option.splits)

lemma emit_Some: "\<exists>h' out. rr_transport_emit (Some h) event = (Some h', out)"
  by (simp add: rr_transport_emit_def)

lemma close_Some: "\<exists>h' out. rr_transport_close (Some h) = (Some h', out)"
  using emit_Some by (auto simp: rr_transport_close_def Let_def split: option.splits)

lemma call_op_keeps: "t_state (snd (call_op f h)) = t_state h \<and> t_callback (snd (call_op f h)) = t_callback h"
  by (simp add: call_op_def split: option.splits prod.splits)

lemma send_checked_keeps:
  assumes "send_checked capability b f (Some h) = (r, t')"
  shows "\<exists>h'. t' = Some h' \<and> t_state h' = t_state h \<and> t_callback h' = t_callback h"
  using assms call_op_keeps [of f h] by (cases "call_op f h") (auto simp: send_checked_def Let_def split: if_splits)

lemma open_stream_keeps:
  assumes "rr_transport_open_stream (Some h) p = (r, t')"
  shows "\<exists>h'. t' = Some h' \<and> t_state h' = t_state h \<and> t_callback h' = t_callback h"
  using assms by (auto simp: rr_transport_open_stream_def Let_def split: if_splits option.splits prod.splits)

lemma poll_keeps:
  assumes "rr_transport_poll (Some h) n = (r, t')"
  shows "\<exists>h'. t' = Some h' \<and> t_state h' = t_state h \<and> t_callback h' = t_callback h"
proof -
  let ?c = "call_op (\<lambda>o'. map_option (\<lambda>f d. f d n) (op_poll o')) h"
  have "t_state (snd ?c) = t_state h \<and> t_callback (snd ?c) = t_callback h" by (rule call_op_keeps)
  then show ?thesis using assms by (cases ?c) (auto simp: rr_transport_poll_def split: if_splits)
qed

lemmas send_defs = rr_transport_send_message_def rr_transport_send_binary_message_def rr_transport_send_datagram_def
  rr_transport_send_stream_def

lemma run_invariant:
  assumes "transport_run t0 es t"
  shows "in_order es \<and> (case t of None \<Rightarrow> True | Some h \<Rightarrow> so_far (t_state h) (t_callback h) es)"
  using assms
proof induction
  case (run_start ops driver callback h)
  then show ?case by (auto simp: rr_transport_new_def so_far_def split: if_splits)
next
  case (run_emit t0 es h event t' out)
  then show ?case using emit_Some [of h event] emit_keeps [of h es event] by auto
next
  case (run_close t0 es h t' out)
  then show ?case using close_Some [of h] close_keeps [of h es] by auto
next
  case (run_free t0 es h t' out)
  then show ?case using close_Some [of h] close_keeps [of h es]
    by (auto simp: rr_transport_free_def split: if_splits)
next
  case (run_send t0 es h r t' b i fin)
  then have "\<exists>capability f. send_checked capability b f (Some h) = (r, t')" unfolding send_defs by (elim insertE) (force | simp)+
  then show ?case using send_checked_keeps run_send.IH by fastforce
next
  case (run_open_stream t0 es h p r' t')
  then show ?case using open_stream_keeps [of h p r' t'] by auto
next
  case (run_poll t0 es h n r t')
  then show ?case using poll_keeps [of h n r t'] by auto
qed

text \<open>C26: a handle delivers its events in order, whatever driver and owner do and however they call back:
  at most one open and one close, nothing after the close, messages only between the open and the
  request to close, and the driver is asked to close at most once.\<close>

theorem transport_events_in_order:
  assumes "transport_run t0 es t"
  shows "(\<forall>xs e ys. es = xs @ e # ys \<longrightarrow>
      Callback EVENT_CLOSE \<notin> set xs \<and>
      (e = Callback EVENT_OPEN \<longrightarrow> Callback EVENT_OPEN \<notin> set xs \<and> Driver_Close \<notin> set xs) \<and>
      (e = Driver_Close \<longrightarrow> Driver_Close \<notin> set xs) \<and>
      (e \<notin> {Callback EVENT_OPEN, Callback EVENT_CLOSE, Callback EVENT_ERROR, Driver_Close} \<longrightarrow>
         Callback EVENT_OPEN \<in> set xs \<and> Driver_Close \<notin> set xs))"
  using run_invariant [OF assms] by (simp add: in_order_def)

text \<open>A run with a driver without operations: opened, a message, closed by the owner, freed.\<close>

definition bare_ops :: "unit transport_ops" where
  "bare_ops = \<lparr>abi_version = 3, capabilities = 65, op_connection_capabilities = NULL, op_send_message = NULL,
     op_send_binary_message = NULL, op_queued_bytes = NULL, op_send_datagram = NULL, op_open_stream = NULL,
     op_send_stream = NULL, op_peer_spki_sha256 = NULL, op_poll = NULL, op_close = NULL\<rparr>"

definition bare :: "transport_state \<Rightarrow> unit transport" where
  "bare s = \<lparr>t_ops = bare_ops, t_driver = (), t_callback = True, t_state = s\<rparr>"

lemma bare_run:
  "transport_run (Some (bare CONNECTING)) [Callback EVENT_OPEN, Callback EVENT_MESSAGE, Callback EVENT_CLOSE] NULL"
proof -
  have "transport_run (Some (bare CONNECTING)) [] (Some (bare CONNECTING))"
    by (rule run_start [of bare_ops "()" True]) (simp add: rr_transport_new_def bare_def bare_ops_def)
  from run_emit [OF this, of EVENT_OPEN] have "transport_run (Some (bare CONNECTING)) [Callback EVENT_OPEN] (Some (bare OPEN))"
    by (simp add: rr_transport_emit_def bare_def deliver_def)
  from run_emit [OF this, of EVENT_MESSAGE]
  have "transport_run (Some (bare CONNECTING)) [Callback EVENT_OPEN, Callback EVENT_MESSAGE] (Some (bare OPEN))"
    by (simp add: rr_transport_emit_def bare_def deliver_def)
  from run_close [OF this] have "transport_run (Some (bare CONNECTING))
      [Callback EVENT_OPEN, Callback EVENT_MESSAGE, Callback EVENT_CLOSE] (Some (bare CLOSED))"
    by (simp add: rr_transport_close_def rr_transport_emit_def bare_def bare_ops_def deliver_def)
  from run_free [OF this] show ?thesis by (simp add: rr_transport_free_def bare_def)
qed

theorem transport_events_in_order_witness:
  "\<exists>es. transport_run (Some (bare CONNECTING)) es NULL \<and>
    (\<forall>xs e ys. es = xs @ e # ys \<longrightarrow>
      Callback EVENT_CLOSE \<notin> set xs \<and>
      (e = Callback EVENT_OPEN \<longrightarrow> Callback EVENT_OPEN \<notin> set xs \<and> Driver_Close \<notin> set xs) \<and>
      (e = Driver_Close \<longrightarrow> Driver_Close \<notin> set xs) \<and>
      (e \<notin> {Callback EVENT_OPEN, Callback EVENT_CLOSE, Callback EVENT_ERROR, Driver_Close} \<longrightarrow>
         Callback EVENT_OPEN \<in> set xs \<and> Driver_Close \<notin> set xs))"
  using bare_run transport_events_in_order [OF bare_run] by blast

text \<open>Data reaches the driver only over an open transport with the capability, and otherwise nothing changes.\<close>

lemma send_only_open:
  assumes "send_checked capability b f t = (r, t')" and "t' \<noteq> t"
  shows "\<exists>h. t = Some h \<and> t_state h = OPEN \<and> rr_transport_capabilities t AND capability \<noteq> 0"
  using assms by (auto simp: send_checked_def check_def Let_def split: if_splits option.splits)

text \<open>Whoever frees a handle gets it released once its close was delivered.\<close>

lemma free_after_close: "t_state h = CLOSED \<Longrightarrow> rr_transport_free (Some h) = (NULL, [])"
  by (simp add: rr_transport_free_def)

lemma emit_close_closes:
  "t_state h \<noteq> CLOSED \<Longrightarrow> \<exists>h'. fst (rr_transport_emit (Some h) EVENT_CLOSE) = Some h' \<and> t_state h' = CLOSED"
  by (simp add: rr_transport_emit_def)

end
