(* ===== verification/Serial.thy ===== *)
theory Serial
  imports C_Numbers "HOL-Library.Signed_Division"
begin

text \<open>
  Serial lines (\<open>io.serial.c\<close>): the specification of a line as text, its settings on a terminal,
  and the NMEA sentences that carry a position. A terminal is an argument, the two functions that
  get and set its attributes; opening devices and pseudo terminals only calls the system.
\<close>

subsection \<open>Settings\<close>

record serial_settings =
  s_baud :: nat
  s_bits :: nat
  s_stops :: nat
  s_parity :: char

text \<open>The code of a rate is the rate.\<close>

definition baud_speed :: "nat \<Rightarrow> nat option" where
  "baud_speed baud =
     (if baud \<in> {0, 1200, 2400, 4800, 9600, 19200, 38400, 57600, 115200, 230400, 460800, 921600} then Some baud else None)"

definition rr_serial_mode_parse :: "string ptr \<Rightarrow> serial_settings \<Rightarrow> serial_settings option" where
  "rr_serial_mode_parse mode s =
     (case mode of
        None \<Rightarrow> None
      | Some m \<Rightarrow>
          if length m \<noteq> 3 \<or> code (m ! 0) < 53 \<or> 56 < code (m ! 0) \<or> (m ! 2 \<noteq> CHR ''1'' \<and> m ! 2 \<noteq> CHR ''2'') then None
          else let parity = tolower (m ! 1) in
            if parity \<noteq> CHR ''n'' \<and> parity \<noteq> CHR ''e'' \<and> parity \<noteq> CHR ''o'' then None
            else Some (s\<lparr>s_bits := code (m ! 0) - 48, s_parity := parity, s_stops := code (m ! 2) - 48\<rparr>))"

text \<open>The array of four characters.\<close>

definition rr_serial_mode_format :: "serial_settings \<Rightarrow> char list" where
  "rr_serial_mode_format s = [char_of ((48 + s_bits s) mod 256), s_parity s, char_of ((48 + s_stops s) mod 256), NUL]"

definition c_string :: "char list \<Rightarrow> string" where
  "c_string = takeWhile (\<lambda>c. c \<noteq> NUL)"

subsection \<open>Terminals\<close>

datatype csize = CS5 | CS6 | CS7 | CS8

text \<open>\<open>t_raw\<close>: the input, output and local modes are those that \<open>cfmakeraw\<close> leaves.\<close>

record termios =
  t_raw :: bool
  t_csize :: csize
  t_parenb :: bool
  t_parodd :: bool
  t_cstopb :: bool
  t_crtscts :: bool
  t_clocal :: bool
  t_cread :: bool
  t_vmin :: nat
  t_vtime :: nat
  t_ispeed :: nat
  t_ospeed :: nat

definition cfmakeraw :: "termios \<Rightarrow> termios" where
  "cfmakeraw t = t\<lparr>t_raw := True, t_csize := CS8, t_parenb := False, t_vmin := 1, t_vtime := 0\<rparr>"

definition rr_serial_settings_apply ::
  "('d \<Rightarrow> termios option) \<Rightarrow> (termios \<Rightarrow> 'd \<Rightarrow> 'd option) \<Rightarrow> 'd \<Rightarrow> serial_settings ptr \<Rightarrow> bool \<times> 'd" where
  "rr_serial_settings_apply tcgetattr tcsetattr fd settings =
     (case settings of
        None \<Rightarrow> (False, fd)
      | Some s \<Rightarrow>
          if s_bits s < 5 \<or> s_bits s > 8 \<or> s_stops s < 1 \<or> s_stops s > 2 \<or>
             (s_parity s \<noteq> CHR ''n'' \<and> s_parity s \<noteq> CHR ''e'' \<and> s_parity s \<noteq> CHR ''o'')
          then (False, fd)
          else
           (case baud_speed (s_baud s) of
              None \<Rightarrow> (False, fd)
            | Some rate \<Rightarrow>
                (case tcgetattr fd of
                   None \<Rightarrow> (False, fd)
                 | Some t0 \<Rightarrow>
                     if rr_serial_mode_parse (Some (c_string (rr_serial_mode_format s))) s = None then (False, fd)
                     else
                       let t1 = cfmakeraw t0;
                           t2 = t1\<lparr>t_parenb := False, t_parodd := False, t_cstopb := False, t_crtscts := False\<rparr>;
                           t3 = t2\<lparr>t_csize := [CS5, CS6, CS7, CS8] ! (s_bits s - 5), t_clocal := True, t_cread := True\<rparr>;
                           t4 = (if s_parity s \<noteq> CHR ''n'' then t3\<lparr>t_parenb := True\<rparr> else t3);
                           t5 = (if s_parity s = CHR ''o'' then t4\<lparr>t_parodd := True\<rparr> else t4);
                           t6 = (if s_stops s = 2 then t5\<lparr>t_cstopb := True\<rparr> else t5);
                           t7 = t6\<lparr>t_vmin := 1, t_vtime := 0, t_ispeed := rate, t_ospeed := rate\<rparr>
                       in (case tcsetattr t7 fd of None \<Rightarrow> (False, fd) | Some fd' \<Rightarrow> (True, fd')))))"

definition rr_serial_settings_read :: "('d \<Rightarrow> termios option) \<Rightarrow> 'd \<Rightarrow> serial_settings \<Rightarrow> serial_settings option" where
  "rr_serial_settings_read tcgetattr fd s =
     (case tcgetattr fd of
        None \<Rightarrow> None
      | Some t \<Rightarrow>
          (case List.find (\<lambda>b. baud_speed b = Some (t_ospeed t))
                  [0, 1200, 2400, 4800, 9600, 19200, 38400, 57600, 115200, 230400, 460800, 921600] of
             None \<Rightarrow> None
           | Some baud \<Rightarrow>
               Some (s\<lparr>s_baud := baud,
                 s_bits := (case t_csize t of CS5 \<Rightarrow> 5 | CS6 \<Rightarrow> 6 | CS7 \<Rightarrow> 7 | CS8 \<Rightarrow> 8),
                 s_parity := (if t_parenb t then (if t_parodd t then CHR ''o'' else CHR ''e'') else CHR ''n''),
                 s_stops := (if t_cstopb t then 2 else 1)\<rparr>)))"

subsection \<open>The specification of a line\<close>

text \<open>\<open>strrchr\<close>: what is in front of the last \<open>@\<close>, and what is behind it.\<close>

definition at_split :: "string \<Rightarrow> string \<times> string option" where
  "at_split spec =
     (if CHR ''@'' \<in> set spec
      then let tail = rev (takeWhile (\<lambda>c. c \<noteq> CHR ''@'') (rev spec)) in (take (length spec - length tail - 1) spec, Some tail)
      else (spec, None))"

definition spec_tail :: "string \<Rightarrow> serial_settings \<Rightarrow> serial_settings option" where
  "spec_tail tail s =
     (case rr_serial_mode_parse (Some tail) s of
        Some s' \<Rightarrow> Some s'
      | None \<Rightarrow>
          let (baud, end', er) = strtoull tail in
          if er \<or> end' = tail \<or> baud > 921600 \<or> (end' \<noteq> [] \<and> hd end' \<noteq> CHR '','') then None
          else let s' = s\<lparr>s_baud := nat baud\<rparr> in
            if end' \<noteq> [] then rr_serial_mode_parse (Some (tl end')) s' else Some s')"

definition rr_serial_spec_parse :: "string ptr \<Rightarrow> nat \<Rightarrow> serial_settings \<Rightarrow> (string \<times> serial_settings) option" where
  "rr_serial_spec_parse spec capacity settings =
     (case spec of
        None \<Rightarrow> None
      | Some sp \<Rightarrow>
          if capacity = 0 then None
          else let (target, tail) = at_split sp in
            if target = [] \<or> length target \<ge> capacity then None
            else (case (case tail of None \<Rightarrow> Some settings | Some t \<Rightarrow> spec_tail t settings) of
              None \<Rightarrow> None
            | Some parsed \<Rightarrow> if baud_speed (s_baud parsed) = None then None else Some (target, parsed)))"

subsection \<open>NMEA sentences\<close>

definition isxdigit :: "char \<Rightarrow> bool" where
  "isxdigit c \<longleftrightarrow> isdigit c \<or> (65 \<le> code c \<and> code c \<le> 70) \<or> (97 \<le> code c \<and> code c \<le> 102)"

definition nmea_checksum :: "string \<Rightarrow> nat" where
  "nmea_checksum cs = foldl (\<lambda>k c. k XOR code c) 0 cs"

definition rr_nmea_valid :: "string ptr \<Rightarrow> bool" where
  "rr_nmea_valid line =
     (case line of
        None \<Rightarrow> False
      | Some s \<Rightarrow>
          if s = [] \<or> (hd s \<noteq> CHR ''$'' \<and> hd s \<noteq> CHR ''!'') then False
          else
            let body = takeWhile (\<lambda>c. c \<noteq> CHR ''*'') (tl s); e = dropWhile (\<lambda>c. c \<noteq> CHR ''*'') (tl s) in
            if e = [] \<or> body = [] \<or> length e \<noteq> 3 \<or> \<not> isxdigit (e ! 1) \<or> \<not> isxdigit (e ! 2) then False
            else if \<not> list_all isprint body then False
            else nmea_checksum body = 16 * hex_val (e ! 1) + hex_val (e ! 2))"

definition pad0 :: "nat \<Rightarrow> nat \<Rightarrow> string" where
  "pad0 width n = replicate (width - length (show_nat n)) (CHR ''0'') @ show_nat n"

text \<open>Degrees and millionths of a minute.\<close>

definition nmea_parts :: "int \<Rightarrow> nat \<times> nat" where
  "nmea_parts angle =
     (let absolute = nat \<bar>angle\<bar>; degrees = absolute div 10000000; minutes = ((absolute mod 10000000) * 60 + 5) div 10 in
      if minutes = 60000000 then (degrees + 1, 0) else (degrees, minutes))"

definition nmea_angle :: "int \<Rightarrow> nat \<Rightarrow> nat \<Rightarrow> string" where
  "nmea_angle angle width capacity =
     (let (degrees, minutes) = nmea_parts angle
      in take (capacity - 1) (pad0 width degrees @ pad0 2 (minutes div 1000000) @ ''.'' @ pad0 6 (minutes mod 1000000)))"

text \<open>\<open>gmtime_r\<close> in the Gregorian calendar, counted in years that begin in March; the year has to fit.\<close>

definition civil :: "int \<Rightarrow> int \<times> nat \<times> nat" where
  "civil days =
     (let z = days + 719468; era = z div 146097; doe = z mod 146097;
          yoe = (doe - doe div 1460 + doe div 36524 - doe div 146096) div 365;
          doy = doe - (365 * yoe + yoe div 4 - yoe div 100);
          mp = (5 * doy + 2) div 153; d = doy - (153 * mp + 2) div 5 + 1; m = (if mp < 10 then mp + 3 else mp - 9)
      in (yoe + era * 400 + (if m \<le> 2 then 1 else 0), nat m, nat d))"

text \<open>\<open>%y\<close> of \<open>strftime\<close>, of the years since 1900: the last two digits, and before the year 0 those of
  the absolute value.\<close>

definition short_year :: "int \<Rightarrow> nat" where
  "short_year tm_year =
     (let yy = tm_year smod 100 in nat (if yy < 0 then if tm_year < -1900 then - yy else yy + 100 else yy))"

definition gmtime_texts :: "int \<Rightarrow> (string \<times> string) option" where
  "gmtime_texts utc =
     (let (y, m, d) = civil (utc div 86400); r = nat (utc mod 86400) in
      if y - 1900 < INT_MIN \<or> y - 1900 > INT_MAX then None
      else Some (pad0 2 (r div 3600) @ pad0 2 (r div 60 mod 60) @ pad0 2 (r mod 60), pad0 2 d @ pad0 2 m @ pad0 2 (short_year (y - 1900))))"

definition hex_upper :: "nat \<Rightarrow> char" where
  "hex_upper n = (if n < 10 then char_of (48 + n) else char_of (55 + n))"

text \<open>The text of the sentence up to the checksum.\<close>

definition rmc_text :: "int \<Rightarrow> int \<Rightarrow> nat \<Rightarrow> string \<Rightarrow> string \<Rightarrow> string" where
  "rmc_text latitude longitude flags time date =
     (if flags mod 2 = 1
      then ''$GPRMC,'' @ time @ '',A,'' @ nmea_angle latitude 2 24 @ '','' @ [if latitude < 0 then CHR ''S'' else CHR ''N''] @ '','' @
        nmea_angle longitude 3 24 @ '','' @ [if longitude < 0 then CHR ''W'' else CHR ''E''] @ '',0.0,,'' @ date @ '',,,'' @
        [if flags div 2 mod 2 = 1 then CHR ''M'' else CHR ''A'']
      else ''$GPRMC,'' @ time @ '',V,,,,,0.0,,'' @ date @ '',,,N'')"

text \<open>A \<open>NULL\<close> buffer is one without capacity; \<open>None\<close> is the result 0.\<close>

definition rr_nmea_rmc :: "int \<Rightarrow> int \<Rightarrow> nat \<Rightarrow> int \<Rightarrow> nat \<Rightarrow> string option" where
  "rr_nmea_rmc latitude longitude flags utc capacity =
     (if capacity < 8 \<or> latitude < -900000000 \<or> latitude > 900000000 \<or> longitude < -1800000000 \<or> longitude > 1800000000 \<or> flags > 3 then None
      else case gmtime_texts utc of
        None \<Rightarrow> None
      | Some (time, date) \<Rightarrow>
          let out = rmc_text latitude longitude flags time date in
          if length out + 4 > capacity then None
          else let k = nmea_checksum (tl out) in Some (out @ [CHR ''*'', hex_upper (k div 16), hex_upper (k mod 16)]))"

subsection \<open>Reading a sentence back\<close>

text \<open>The position in a sentence as NMEA 0183 defines it: comma separated fields, degrees in front of
  two digits of minutes, in millionths of a minute.\<close>

fun fields :: "string \<Rightarrow> string list" where
  "fields [] = [[]]"
| "fields (c # s) = (if c = CHR '','' then [] # fields s else (c # hd (fields s)) # tl (fields s))"

definition read_angle :: "nat \<Rightarrow> string \<Rightarrow> int" where
  "read_angle width s =
     int ((dec_val (take width s) * 60 + dec_val (take 2 (drop width s))) * 1000000 + dec_val (drop (width + 3) s))"

definition rmc_position :: "string \<Rightarrow> (int \<times> int) option" where
  "rmc_position s =
     (let fs = fields s in
      if length fs < 7 \<or> fs ! 2 \<noteq> ''A'' then None
      else Some ((if fs ! 4 = ''S'' then - 1 else 1) * read_angle 2 (fs ! 3),
                 (if fs ! 6 = ''W'' then - 1 else 1) * read_angle 3 (fs ! 5)))"

lemma fields_cons: "CHR '','' \<notin> set a \<Longrightarrow> fields (a @ CHR '','' # s) = a # fields s"
  by (induction a) auto

lemma length_show_nat_le: "0 < w \<Longrightarrow> n < 10 ^ w \<Longrightarrow> length (show_nat n) \<le> w"
proof (induction n arbitrary: w rule: show_nat.induct)
  case (1 n)
  show ?case
  proof (cases "n < 10")
    case True
    then show ?thesis using "1.prems" by (simp add: show_nat.simps [of n])
  next
    case False
    then obtain v where v: "w = Suc v" "0 < v" using "1.prems" by (cases w; cases "w - 1") auto
    have "n div 10 < 10 ^ v" using "1.prems"(2) v(1) by (simp add: less_mult_imp_div_less mult.commute)
    then have "length (show_nat (n div 10)) \<le> v" using "1.IH" False v(2) by simp
    then show ?thesis using False v(1) by (simp add: show_nat.simps [of n])
  qed
qed

lemma length_pad0 [simp]: "0 < w \<Longrightarrow> n < 10 ^ w \<Longrightarrow> length (pad0 w n) = w"
  using length_show_nat_le [of w n] by (simp add: pad0_def)

lemma dec_val_pad0 [simp]: "dec_val (pad0 w n) = n"
proof -
  have "dec_val (replicate k (CHR ''0'') @ s) = dec_val s" for k s
    by (induction k) (simp_all add: dec_val_def digit_val_def code_def)
  then show ?thesis by (simp add: pad0_def)
qed

lemma pad0_digits: "c \<in> set (pad0 w n) \<Longrightarrow> isdigit c"
  using show_nat_digits by (auto simp: pad0_def isdigit_def code_def)

lemma pad0_no_comma [simp]: "CHR '','' \<notin> set (pad0 w n)"
  using pad0_digits [of "CHR '',''" w n] by (auto simp: isdigit_def code_def)

text \<open>The angle is exact: a ten-millionth of a degree is six millionths of a minute, and the carry
  into the degrees never happens.\<close>

lemma nmea_parts_exact:
  assumes "nmea_parts a = (d, m)"
  shows "d = nat \<bar>a\<bar> div 10000000" and "m = 6 * (nat \<bar>a\<bar> mod 10000000)" and "m < 60000000"
proof -
  have "(k * 60 + 5) div 10 = 6 * k" for k :: nat by linarith
  then have "((nat \<bar>a\<bar> mod 10000000) * 60 + 5) div 10 = 6 * (nat \<bar>a\<bar> mod 10000000)" .
  moreover have b: "6 * (nat \<bar>a\<bar> mod 10000000) < 60000000" by simp
  ultimately have "nmea_parts a = (nat \<bar>a\<bar> div 10000000, 6 * (nat \<bar>a\<bar> mod 10000000))"
    unfolding nmea_parts_def Let_def by (metis less_irrefl)
  then show "d = nat \<bar>a\<bar> div 10000000" "m = 6 * (nat \<bar>a\<bar> mod 10000000)" "m < 60000000"
    using assms b by (simp_all only: prod.inject)
qed

lemma nmea_angle_text:
  assumes "0 < w" and "w \<le> 3" and "nat \<bar>a\<bar> div 10000000 < 10 ^ w"
  shows "length (nmea_angle a w 24) = w + 9" and "read_angle w (nmea_angle a w 24) = 6 * \<bar>a\<bar>"
    and "\<forall>c \<in> set (nmea_angle a w 24). isdigit c \<or> c = CHR ''.''"
proof -
  obtain d m where dm: "nmea_parts a = (d, m)" by (cases "nmea_parts a")
  note p = nmea_parts_exact [OF dm]
  let ?t = "pad0 w d @ pad0 2 (m div 1000000) @ ''.'' @ pad0 6 (m mod 1000000)"
  have l: "length (pad0 w d) = w" "length (pad0 2 (m div 1000000)) = 2" "length (pad0 6 (m mod 1000000)) = 6"
    by (rule length_pad0; use assms p in \<open>simp add: less_mult_imp_div_less del: mult_Suc_right\<close>)+
  have t: "nmea_angle a w 24 = ?t" using l assms(2) by (simp add: nmea_angle_def dm)
  show "length (nmea_angle a w 24) = w + 9" unfolding t using l by simp
  show "\<forall>c \<in> set (nmea_angle a w 24). isdigit c \<or> c = CHR ''.''" unfolding t using pad0_digits by auto
  have "dec_val (take w ?t) = d" "dec_val (take 2 (drop w ?t)) = m div 1000000" "dec_val (drop (w + 3) ?t) = m mod 1000000"
    using l by (simp_all add: drop_Cons')
  then have "read_angle w ?t = int ((d * 60 + m div 1000000) * 1000000 + m mod 1000000)" by (simp only: read_angle_def)
  also have "(d * 60 + m div 1000000) * 1000000 + m mod 1000000 = d * 60000000 + m"
    using div_mult_mod_eq [of m 1000000] by (simp add: distrib_right)
  also have "\<dots> = 6 * (nat \<bar>a\<bar> div 10000000 * 10000000 + nat \<bar>a\<bar> mod 10000000)" unfolding p(1,2) by (simp only: distrib_left mult.left_commute [of 6] mult.assoc; simp)
  also have "\<dots> = 6 * nat \<bar>a\<bar>" by (simp only: div_mult_mod_eq)
  finally show "read_angle w (nmea_angle a w 24) = 6 * \<bar>a\<bar>" unfolding t by simp
qed

lemma int_div_bounds: "0 < c \<Longrightarrow> c * (x div c) \<le> x \<and> x < c * (x div c) + (c :: int)"
  using pos_mod_bound [of c x] pos_mod_sign [of c x] by (metis add_less_cancel_left le_add_same_cancel1 mult_div_mod_eq)

lemma civil_small:
  assumes "civil days = (y, m, d)"
  shows "m < 100" and "d < 100"
proof -
  define doe where "doe = (days + 719468) mod 146097"
  define a b c where "a = doe div 1460" and "b = doe div 36524" and "c = doe div 146096"
  define yoe where "yoe = (doe - a + b - c) div 365"
  define e f where "e = yoe div 4" and "f = yoe div 100"
  define doy where "doy = doe - (365 * yoe + e - f)"
  define mp where "mp = (5 * doy + 2) div 153"
  define g where "g = (153 * mp + 2) div 5"
  have md: "m = nat (if mp < 10 then mp + 3 else mp - 9)" "d = nat (doy - g + 1)"
    using assms unfolding civil_def Let_def doe_def [symmetric] a_def [symmetric] b_def [symmetric] c_def [symmetric] yoe_def [symmetric]
      e_def [symmetric] f_def [symmetric] doy_def [symmetric] mp_def [symmetric] g_def [symmetric] by simp_all
  have doe: "0 \<le> doe" "doe < 146097" by (simp_all add: doe_def)
  note bounds = int_div_bounds [of 1460 doe, folded a_def] int_div_bounds [of 36524 doe, folded b_def]
    int_div_bounds [of 146096 doe, folded c_def] int_div_bounds [of 365 "doe - a + b - c", folded yoe_def]
    int_div_bounds [of 4 yoe, folded e_def] int_div_bounds [of 100 yoe, folded f_def]
  have "doy < 1000" using doe bounds unfolding doy_def by simp
  moreover note int_div_bounds [of 153 "5 * doy + 2", folded mp_def] int_div_bounds [of 5 "153 * mp + 2", folded g_def]
  ultimately have "mp < 100" "doy - g + 1 < 100" by simp_all
  then have "(if mp < 10 then mp + 3 else mp - 9) < 100" "doy - g + 1 < 100" by simp_all
  then show "m < 100" "d < 100" unfolding md by linarith+
qed

lemma short_year_less: "short_year y < 100"
proof -
  have "\<bar>y smod 100\<bar> < 100" by (simp add: signed_modulo_int_def abs_mult sgn_if)
  then show ?thesis by (auto simp: short_year_def Let_def)
qed

lemma gmtime_texts_ok:
  assumes "gmtime_texts utc = Some (time, date)"
  shows "length time = 6" and "length date = 6" and "\<forall>c \<in> set (time @ date). isdigit c"
proof -
  obtain y m d where c: "civil (utc div 86400) = (y, m, d)" by (cases "civil (utc div 86400)") auto
  let ?r = "nat (utc mod 86400)"
  have t: "time = pad0 2 (?r div 3600) @ pad0 2 (?r div 60 mod 60) @ pad0 2 (?r mod 60)"
    "date = pad0 2 d @ pad0 2 m @ pad0 2 (short_year (y - 1900))"
    using assms by (auto simp: gmtime_texts_def c Let_def split: if_splits)
  have "utc mod 86400 < 86400" by simp
  then have "?r < 86400" by linarith
  then have r: "?r div 3600 < 100" "?r div 60 mod 60 < 100" "?r mod 60 < 100" "short_year (y - 1900) < 100"
    by (simp_all add: less_mult_imp_div_less nat_less_iff short_year_less)
  have l: "length (pad0 2 n) = 2" if "n < 100" for n using that by simp
  show "length time = 6" "length date = 6"
    unfolding t length_append l [OF r(1)] l [OF r(2)] l [OF r(3)] l [OF r(4)] l [OF civil_small(1) [OF c]] l [OF civil_small(2) [OF c]] by simp_all
  show "\<forall>c \<in> set (time @ date). isdigit c" unfolding t using pad0_digits by auto
qed

subsection \<open>What is written can be read\<close>

lemma xor_less_256: "a < 256 \<Longrightarrow> b < 256 \<Longrightarrow> a XOR b < (256 :: nat)"
  using take_bit_xor [of 8 a b] take_bit_nat_less_exp [of 8 "a XOR b"] by (simp add: take_bit_nat_eq_self)

lemma nmea_checksum_less: "nmea_checksum cs < 256"
proof -
  have "foldl (\<lambda>k c. k XOR code c) k cs < 256" if "k < 256" for k
    using that by (induction cs arbitrary: k) (simp_all add: xor_less_256)
  then show ?thesis by (simp add: nmea_checksum_def)
qed

lemma hex_upper_digit: "n < 16 \<Longrightarrow> isxdigit (hex_upper n) \<and> hex_val (hex_upper n) = n"
  by (auto simp: hex_upper_def isxdigit_def hex_val_def isdigit_def digit_val_def tolower_def code_char_of)

text \<open>A sentence without a star, of printable characters, with its checksum behind it.\<close>

lemma checksum_valid:
  assumes "body \<noteq> []" and "\<forall>c \<in> set body. isprint c \<and> c \<noteq> CHR ''*''"
  shows "rr_nmea_valid (Some ((CHR ''$'' # body) @
    [CHR ''*'', hex_upper (nmea_checksum body div 16), hex_upper (nmea_checksum body mod 16)]))"
proof -
  let ?k = "nmea_checksum body"
  have k: "?k div 16 < 16" "?k mod 16 < 16" using nmea_checksum_less [of body] by (simp_all add: less_mult_imp_div_less)
  have s: "takeWhile (\<lambda>c. c \<noteq> CHR ''*'') (body @ CHR ''*'' # r) = body" "dropWhile (\<lambda>c. c \<noteq> CHR ''*'') (body @ CHR ''*'' # r) = CHR ''*'' # r" for r
    using assms(2) by (induction body) simp_all
  have p: "list_all isprint body" using assms(2) by (simp add: list_all_iff)
  show ?thesis using assms(1) hex_upper_digit [OF k(1)] hex_upper_digit [OF k(2)] p
    by (simp add: rr_nmea_valid_def s Let_def)
qed

text \<open>C39: for every position in range, every time that the calendar can express and every buffer of 64
  bytes, the sentence of a valid fix is written, fits the buffer with its terminator, passes the
  validation, and the position read from its fields is exactly the one that was given: latitude and
  longitude are in ten-millionths of a degree, and six millionths of a minute make one of them.\<close>

theorem nmea_position_roundtrip:
  assumes "\<bar>latitude\<bar> \<le> 900000000" and "\<bar>longitude\<bar> \<le> 1800000000" and "flags = 1 \<or> flags = 3"
    and "gmtime_texts utc \<noteq> None" and "64 \<le> capacity"
  shows "\<exists>out. rr_nmea_rmc latitude longitude flags utc capacity = Some out \<and> length out < capacity \<and>
    rr_nmea_valid (Some out) \<and> rmc_position out = Some (6 * latitude, 6 * longitude)"
proof -
  obtain time date where g: "gmtime_texts utc = Some (time, date)" using assms(4) by auto
  note td = gmtime_texts_ok [OF g]
  define la lo where "la = nmea_angle latitude 2 24" and "lo = nmea_angle longitude 3 24"
  have d: "nat \<bar>latitude\<bar> div 10000000 < 10 ^ 2" "nat \<bar>longitude\<bar> div 10000000 < 10 ^ 3"
    using assms(1,2) by (simp_all add: less_mult_imp_div_less nat_less_iff)
  have la: "length la = 11" "read_angle 2 la = 6 * \<bar>latitude\<bar>" "\<forall>c \<in> set la. isdigit c \<or> c = CHR ''.''"
    unfolding la_def using nmea_angle_text [OF _ _ d(1)] by simp_all
  have lo: "length lo = 12" "read_angle 3 lo = 6 * \<bar>longitude\<bar>" "\<forall>c \<in> set lo. isdigit c \<or> c = CHR ''.''"
    unfolding lo_def using nmea_angle_text [OF _ _ d(2)] by simp_all
  define ns ew ma where "ns = (if latitude < 0 then CHR ''S'' else CHR ''N'')" and "ew = (if longitude < 0 then CHR ''W'' else CHR ''E'')"
    and "ma = (if flags div 2 mod 2 = 1 then CHR ''M'' else CHR ''A'')"
  define body where "body = ''GPRMC,'' @ time @ '',A,'' @ la @ '','' @ [ns] @ '','' @ lo @ '','' @ [ew] @ '',0.0,,'' @ date @ '',,,'' @ [ma]"
  have t: "rmc_text latitude longitude flags time date = CHR ''$'' # body"
    using assms(3) by (auto simp: rmc_text_def body_def la_def lo_def ns_def ew_def ma_def)
  have len: "length body = 59" using td la(1) lo(1) by (simp add: body_def)
  let ?out = "(CHR ''$'' # body) @ [CHR ''*'', hex_upper (nmea_checksum body div 16), hex_upper (nmea_checksum body mod 16)]"
  have r: "rr_nmea_rmc latitude longitude flags utc capacity = Some ?out"
    using assms len by (auto simp: rr_nmea_rmc_def g t Let_def)
  have n: "isprint c \<and> c \<noteq> CHR ''*'' \<and> c \<noteq> CHR '',''" if "isdigit c \<or> c = CHR ''.''" for c
    using that by (auto simp: isprint_def isdigit_def code_def)
  have p: "isprint c \<and> c \<noteq> CHR ''*''" if "c \<in> set ''GPRMC,AMNSEW0.''" for c using that by (auto simp: isprint_def code_def)
  have "\<forall>c \<in> set time \<union> set la \<union> set lo \<union> set date. isprint c \<and> c \<noteq> CHR ''*''"
    using n td(3) la(3) lo(3) by (simp add: ball_Un)
  moreover have "set body \<subseteq> set time \<union> set la \<union> set lo \<union> set date \<union> set ''GPRMC,AMNSEW0.''"
    unfolding body_def ns_def ew_def ma_def by auto
  ultimately have "\<forall>c \<in> set body. isprint c \<and> c \<noteq> CHR ''*''" using p by blast
  then have v: "rr_nmea_valid (Some ?out)" by (rule checksum_valid [rotated]) (use len in auto)
  have nc: "CHR '','' \<notin> set time" "CHR '','' \<notin> set date" "CHR '','' \<notin> set la" "CHR '','' \<notin> set lo"
    using td(3) la(3) lo(3) n by auto
  have "\<exists>r. fields ?out = [''$GPRMC'', time, ''A'', la, [ns], lo, [ew]] @ r"
  proof -
    obtain rest where o: "?out = ''$GPRMC'' @ CHR '','' # time @ CHR '','' # ''A'' @ CHR '','' # la @ CHR '','' # [ns] @ CHR '','' # lo @ CHR '','' # [ew] @ CHR '','' # rest"
      by (simp add: body_def)
    show ?thesis unfolding o using nc by (simp only: fields_cons ns_def ew_def) (auto simp: fields_cons)
  qed
  then obtain r where fs: "fields ?out = [''$GPRMC'', time, ''A'', la, [ns], lo, [ew]] @ r" by blast
  have "rmc_position ?out = Some (6 * latitude, 6 * longitude)"
    unfolding rmc_position_def Let_def fs using la(2) lo(2) by (simp add: ns_def ew_def)
  then show ?thesis using r v len assms(5) by auto
qed

lemma gmtime_epoch: "gmtime_texts 0 = Some (pad0 2 0 @ pad0 2 0 @ pad0 2 0, pad0 2 1 @ pad0 2 1 @ pad0 2 70)"
proof -
  have c: "civil 0 = (1970, 1, 1)" by code_simp
  show ?thesis unfolding gmtime_texts_def div_0 mod_0 c Let_def prod.case
    by (simp add: short_year_def signed_modulo_int_def)
qed

theorem nmea_position_roundtrip_witness:
  "\<exists>out. rr_nmea_rmc 381234567 (- 807654321) 3 0 128 = Some out \<and> length out < 128 \<and>
    rr_nmea_valid (Some out) \<and> rmc_position out = Some (6 * 381234567, 6 * (- 807654321))"
  by (rule nmea_position_roundtrip) (simp_all add: gmtime_epoch)

subsection \<open>Settings survive\<close>

definition settings_ok :: "serial_settings \<Rightarrow> bool" where
  "settings_ok s \<longleftrightarrow> baud_speed (s_baud s) \<noteq> None \<and> s_bits s \<in> {5..8} \<and> s_stops s \<in> {1, 2} \<and>
     s_parity s \<in> {CHR ''n'', CHR ''e'', CHR ''o''}"

lemma settings_cases:
  assumes "settings_ok s"
  obtains "s_bits s = 5 \<or> s_bits s = 6 \<or> s_bits s = 7 \<or> s_bits s = 8" and "s_stops s = 1 \<or> s_stops s = 2"
    and "s_parity s = CHR ''n'' \<or> s_parity s = CHR ''e'' \<or> s_parity s = CHR ''o''"
proof -
  have "s_bits s = 5 \<or> s_bits s = 6 \<or> s_bits s = 7 \<or> s_bits s = 8" using assms by (auto simp: settings_ok_def)
  then show thesis using that assms by (auto simp: settings_ok_def)
qed

lemma char_lits:
  "char_of (49 :: nat) = CHR ''1''" "char_of (50 :: nat) = CHR ''2''" "char_of (53 :: nat) = CHR ''5''"
  "char_of (54 :: nat) = CHR ''6''" "char_of (55 :: nat) = CHR ''7''" "char_of (56 :: nat) = CHR ''8''"
  by code_simp+

lemma mode_text:
  assumes "settings_ok s"
  shows "c_string (rr_serial_mode_format s) = [char_of (48 + s_bits s), s_parity s, char_of (48 + s_stops s)]"
  by (rule settings_cases [OF assms]) (auto simp: c_string_def rr_serial_mode_format_def char_lits)

lemma mode_roundtrip:
  assumes "settings_ok s"
  shows "rr_serial_mode_parse (Some (c_string (rr_serial_mode_format s))) s0 =
    Some (s0\<lparr>s_bits := s_bits s, s_parity := s_parity s, s_stops := s_stops s\<rparr>)"
proof -
  have b: "5 \<le> s_bits s" "s_bits s \<le> 8" "s_stops s \<le> 2" using assms by (auto simp: settings_ok_def)
  then have c: "code (char_of (48 + s_bits s)) = 48 + s_bits s" "code (char_of (48 + s_stops s)) = 48 + s_stops s"
    by (simp_all add: code_char_of)
  have st: "char_of (48 + s_stops s) = CHR ''1'' \<or> char_of (48 + s_stops s) = CHR ''2''"
    by (rule settings_cases [OF assms]) (auto simp: char_lits)
  have p: "tolower (s_parity s) = s_parity s" "s_parity s \<in> {CHR ''n'', CHR ''e'', CHR ''o''}"
    using assms by (auto simp: settings_ok_def tolower_def code_def)
  show ?thesis unfolding mode_text [OF assms] rr_serial_mode_parse_def option.case Let_def
    using b c st p by (auto simp: numeral_2_eq_2)
qed

text \<open>The specification \<open>device@baud,mode\<close> of a line, written from valid settings, is read back as the
  device and these settings whatever the settings were before, even when the name of the device has
  an \<open>@\<close> of its own.\<close>

theorem serial_spec_roundtrip:
  assumes "settings_ok s" and "target \<noteq> []" and "length target < capacity"
  shows "rr_serial_spec_parse (Some (target @ ''@'' @ show_nat (s_baud s) @ '','' @ c_string (rr_serial_mode_format s))) capacity s0 =
    Some (target, s)"
proof -
  define mode where "mode = c_string (rr_serial_mode_format s)"
  define tail where "tail = show_nat (s_baud s) @ '','' @ mode"
  have m: "length mode = 3" using mode_text [OF assms(1)] by (simp add: mode_def)
  have nd: "CHR ''@'' \<notin> set (show_nat n)" for n using show_nat_digits [of "CHR ''@''" n] by (auto simp: isdigit_def code_def)
  have nm: "CHR ''@'' \<notin> set mode"
    unfolding mode_def mode_text [OF assms(1)] by (rule settings_cases [OF assms(1)]) (auto simp: char_lits)
  have nt: "CHR ''@'' \<notin> set tail" using nd nm by (simp add: tail_def)
  have tw: "takeWhile (\<lambda>c. c \<noteq> CHR ''@'') (rev (target @ ''@'' @ tail)) = rev tail"
    using nt takeWhile_append2 [of "rev tail" "\<lambda>c. c \<noteq> CHR ''@''" "''@'' @ rev target"] by auto
  have a: "at_split (target @ ''@'' @ tail) = (target, Some tail)"
    unfolding at_split_def Let_def tw by simp
  have b: "baud_speed (s_baud s) = Some (s_baud s)" "s_baud s \<le> 921600"
    using assms(1) by (auto simp: settings_ok_def baud_speed_def split: if_splits)
  have l: "length tail \<noteq> 3" using m by (cases "show_nat (s_baud s)") (simp_all add: tail_def)
  have no: "rr_serial_mode_parse (Some tail) s0 = None" using l by (simp add: rr_serial_mode_parse_def)
  have st: "strtoull tail = (int (s_baud s), '','' @ mode, False)"
    unfolding tail_def by (rule strtoull_show_nat) (use b(2) in \<open>simp_all add: isdigit_def code_def\<close>)
  have ne: "'','' @ mode \<noteq> tail" using arg_cong [of "'','' @ mode" tail length] by (auto simp: tail_def)
  have "spec_tail tail s0 = rr_serial_mode_parse (Some mode) (s0\<lparr>s_baud := s_baud s\<rparr>)"
    unfolding spec_tail_def no option.case st using ne b(2) by simp
  also have "\<dots> = Some s"
    unfolding mode_def mode_roundtrip [OF assms(1)] by simp
  finally show ?thesis
    unfolding tail_def [symmetric] mode_def [symmetric] rr_serial_spec_parse_def option.case a prod.case Let_def
    using assms(2,3) b by simp
qed

theorem serial_spec_roundtrip_witness:
  "rr_serial_spec_parse (Some (''/dev/a@b'' @ ''@'' @ show_nat 19200 @ '','' @
     c_string (rr_serial_mode_format \<lparr>s_baud = 19200, s_bits = 7, s_stops = 2, s_parity = CHR ''e''\<rparr>))) 32
     \<lparr>s_baud = 9600, s_bits = 8, s_stops = 1, s_parity = CHR ''n''\<rparr> =
   Some (''/dev/a@b'', \<lparr>s_baud = 19200, s_bits = 7, s_stops = 2, s_parity = CHR ''e''\<rparr>)"
  using serial_spec_roundtrip [of "\<lparr>s_baud = 19200, s_bits = 7, s_stops = 2, s_parity = CHR ''e''\<rparr>" "''/dev/a@b''" 32
      "\<lparr>s_baud = 9600, s_bits = 8, s_stops = 1, s_parity = CHR ''n''\<rparr>"]
  by (simp add: settings_ok_def baud_speed_def)

text \<open>On a terminal that carries out what it accepts, settings that were applied are read back.\<close>

lemma settings_apply_read:
  assumes "\<And>t d d'. tcsetattr t d = Some d' \<Longrightarrow> tcgetattr d' = Some t"
    and "rr_serial_settings_apply tcgetattr tcsetattr fd (Some s) = (True, fd')"
  shows "rr_serial_settings_read tcgetattr fd' s0 = Some s"
proof -
  have ok: "settings_ok s"
    using assms(2) by (auto simp: rr_serial_settings_apply_def settings_ok_def split: if_splits option.splits)
  obtain t where t: "tcsetattr t fd = Some fd'" "t_ospeed t = s_baud s" "t_csize t = [CS5, CS6, CS7, CS8] ! (s_bits s - 5)"
    "t_parenb t \<longleftrightarrow> s_parity s \<noteq> CHR ''n''" "t_parodd t \<longleftrightarrow> s_parity s = CHR ''o''" "t_cstopb t \<longleftrightarrow> s_stops s = 2"
  proof -
    obtain t0 rate where c: "tcgetattr fd = Some t0" "baud_speed (s_baud s) = Some rate"
      using assms(2) by (auto simp: rr_serial_settings_apply_def split: if_splits option.splits)
    have "rate = s_baud s" using c(2) by (auto simp: baud_speed_def split: if_splits)
    then show thesis using that assms(2) c
      by (simp add: rr_serial_settings_apply_def Let_def cfmakeraw_def split: if_splits option.splits)
  qed
  have g: "tcgetattr fd' = Some t" by (rule assms(1) [OF t(1)])
  have b: "List.find (\<lambda>b. baud_speed b = Some (s_baud s))
      [0, 1200, 2400, 4800, 9600, 19200, 38400, 57600, 115200, 230400, 460800, 921600] = Some (s_baud s)"
    using ok by (auto simp: settings_ok_def baud_speed_def split: if_splits)
  have "(case t_csize t of CS5 \<Rightarrow> 5 | CS6 \<Rightarrow> 6 | CS7 \<Rightarrow> 7 | CS8 \<Rightarrow> 8) = s_bits s"
    unfolding t(3) by (rule settings_cases [OF ok]) (elim disjE; simp)
  moreover have "(if t_cstopb t then 2 else 1) = s_stops s"
    unfolding t(6) using ok by (auto simp: settings_ok_def)
  moreover have "(if t_parenb t then (if t_parodd t then CHR ''o'' else CHR ''e'') else CHR ''n'') = s_parity s"
    unfolding t(4,5) using ok by (auto simp: settings_ok_def)
  ultimately show ?thesis by (simp only: rr_serial_settings_read_def g option.case t(2) b) simp
qed

text \<open>A minus sign wraps the baud rate around: it is checked only after the conversion.\<close>

lemma negative_baud_accepted:
  "rr_serial_spec_parse (Some (''a@-'' @ show_nat 18446744073709550416)) 8 s = Some (''a'', s\<lparr>s_baud := 1200\<rparr>)"
proof -
  define t where "t = CHR ''-'' # show_nat 18446744073709550416"
  have d: "takeWhile isdigit (show_nat n) = show_nat n" "dropWhile isdigit (show_nat n) = []" for n
    using show_nat_digits [of _ n] by simp_all
  have "CHR ''@'' \<notin> set t" using show_nat_digits [of "CHR ''@''"] by (auto simp: t_def isdigit_def code_def)
  then have a: "at_split (CHR ''a'' # CHR ''@'' # t) = (''a'', Some t)"
    using takeWhile_append2 [of "rev t" "\<lambda>c. c \<noteq> CHR ''@''" "''@a''"] by (force simp: at_split_def Let_def)
  have "\<not> isdigit (CHR ''-'')" "\<not> isspace (CHR ''-'')" by (simp_all add: isdigit_def isspace_def code_def)
  then have st: "strtoull t = (1200, [], False)"
    by (simp add: strtoull_def scan_sign_def t_def Let_def d)
  have "rr_serial_mode_parse (Some t) s = None" by (simp add: rr_serial_mode_parse_def t_def code_def)
  then have "spec_tail t s = Some (s\<lparr>s_baud := 1200\<rparr>)" using st by (simp add: spec_tail_def t_def)
  then show ?thesis using a by (simp add: rr_serial_spec_parse_def t_def baud_speed_def)
qed

end
