(* ===== verification/Maidenhead.thy ===== *)
theory Maidenhead
  imports C_Numbers
begin

text \<open>
  Maidenhead locators (\<open>maidenhead.c\<close>): the conversion of a locator to the centre of its square and
  back, the validation of a locator, and the location that is shown to the user. Every operation
  on doubles is rounded, and the coordinates are rounded to single precision where the code stores
  them in a \<open>float\<close>; constants are the nearest doubles. The bearing and the distance of two
  points, which need trigonometric functions, are left out.
\<close>

subsection \<open>Locators to coordinates\<close>

record coordinates =
  c_latitude :: cdouble
  c_longitude :: cdouble
  c_precision :: nat
  c_error :: bool

definition toupper :: "char \<Rightarrow> char" where
  "toupper c = (if 97 \<le> code c \<and> code c \<le> 122 then char_of (code c - 32) else c)"

text \<open>A locator of an even length from 4 to 10, completed to ten characters.\<close>

definition complete_mh :: "string \<Rightarrow> string ptr" where
  "complete_mh locator =
     (if length locator > 10 \<or> length locator < 4 then NULL
      else if length locator mod 2 \<noteq> 0 then NULL
      else Some (locator @ drop (length locator) ''LL55LL55LL''))"

text \<open>A \<open>char\<close> is signed.\<close>

definition signed_code :: "char \<Rightarrow> int" where
  "signed_code c = (if code c < 128 then int (code c) else int (code c) - 256)"

definition letter_val :: "char \<Rightarrow> int" where
  "letter_val c = signed_code (toupper c) - 65"

definition digit_int :: "char \<Rightarrow> int" where
  "digit_int c = signed_code c - 48"

abbreviation d_add :: "cdouble \<Rightarrow> cdouble \<Rightarrow> cdouble" where "d_add \<equiv> d_op (+)"
abbreviation d_sub :: "cdouble \<Rightarrow> cdouble \<Rightarrow> cdouble" where "d_sub \<equiv> d_op (-)"
abbreviation d_mul :: "cdouble \<Rightarrow> cdouble \<Rightarrow> cdouble" where "d_mul \<equiv> d_op (*)"
abbreviation d_div :: "cdouble \<Rightarrow> cdouble \<Rightarrow> cdouble" where "d_div \<equiv> d_op (/)"

text \<open>One coordinate: the scale of the field, the offset, and the five characters that count.\<close>

definition degrees :: "rat \<Rightarrow> rat \<Rightarrow> char \<Rightarrow> char \<Rightarrow> char \<Rightarrow> char \<Rightarrow> char \<Rightarrow> cdouble" where
  "degrees scale offset a b c d e =
     (let field = d_mul (double_of_int (letter_val a)) (d_round (10 * scale));
          square = d_mul (double_of_int (digit_int b)) (d_round scale);
          subsquare = d_div (double_of_int (letter_val c)) (d_round (24 / scale));
          extsquare = d_div (double_of_int (digit_int d)) (d_round (240 / scale));
          precsquare = d_div (double_of_int (letter_val e)) (d_round (5760 / scale))
      in d_sub (d_add (d_add (d_add (d_add field square) subsquare) extsquare) precsquare) (d_round offset))"

definition bad_coordinates :: coordinates where
  "bad_coordinates = \<lparr>c_latitude = DFin False 0, c_longitude = DFin False 0, c_precision = 0, c_error = True\<rparr>"

definition maidenhead2latlon :: "string ptr \<Rightarrow> coordinates" where
  "maidenhead2latlon locator =
     (case locator of
        None \<Rightarrow> bad_coordinates
      | Some s \<Rightarrow>
          if length s > 10 \<or> length s < 4 then bad_coordinates
          else if length s mod 2 \<noteq> 0 then bad_coordinates
          else case (if length s < 10 then complete_mh s else Some s) of
            None \<Rightarrow> bad_coordinates
          | Some lp \<Rightarrow>
              \<lparr>c_latitude = float_of_double (degrees 1 90 (lp ! 1) (lp ! 3) (lp ! 5) (lp ! 7) (lp ! 9)),
               c_longitude = float_of_double (degrees 2 180 (lp ! 0) (lp ! 2) (lp ! 4) (lp ! 6) (lp ! 8)),
               c_precision = length s div 2, c_error = False\<rparr>)"

subsection \<open>Coordinates to locators\<close>

definition d_fmod :: "cdouble \<Rightarrow> cdouble \<Rightarrow> cdouble" where
  "d_fmod a b =
     (if d_isfinite a \<and> d_isfinite b \<and> d_val b \<noteq> 0
      then let q = d_val a / d_val b; t = (if q < 0 then - \<lfloor>- q\<rfloor> else \<lfloor>q\<rfloor>);
               r = d_val a - of_int t * d_val b
           in DFin (d_val a < 0) \<bar>r\<bar>
      else DNaN)"

text \<open>The conversion of a double to \<open>int\<close> or \<open>char\<close> is undefined when the value does not fit.\<close>

definition int_of_double :: "cdouble \<Rightarrow> int comp" where
  "int_of_double d = (if d_isfinite d \<and> - (2 ^ 31) \<le> d_trunc d \<and> d_trunc d < 2 ^ 31 then Some (d_trunc d) else None)"

definition char_of_double :: "cdouble \<Rightarrow> char comp" where
  "char_of_double d = (if d_isfinite d \<and> -128 \<le> d_trunc d \<and> d_trunc d \<le> 127 then Some (char_of (nat (d_trunc d mod 256))) else None)"

definition letterize :: "int \<Rightarrow> char" where
  "letterize x = char_of (nat ((x + 65) mod 256))"

definition locator_steps :: "(rat \<times> rat) list" where
  "locator_steps = [(20, 10), (2, 1), (0.083333, 0.0416665), (0.008333, 0.004166), (0.0003472083333333333, 0.0001735833333333333)]"

fun locator_loop :: "bool \<Rightarrow> (rat \<times> rat) list \<Rightarrow> cdouble \<Rightarrow> cdouble \<Rightarrow> string comp" where
  "locator_loop digits [] lon lat = Some []"
| "locator_loop digits ((lon_f, lat_f) # fs) lon lat =
     do {
       a \<leftarrow> (if digits then char_of_double (d_add (d_div lon (d_round lon_f)) (double_of_int 48))
             else map_option letterize (int_of_double (d_div lon (d_round lon_f))));
       b \<leftarrow> (if digits then char_of_double (d_add (d_div lat (d_round lat_f)) (double_of_int 48))
             else map_option letterize (int_of_double (d_div lat (d_round lat_f))));
       rest \<leftarrow> locator_loop (\<not> digits) fs (d_fmod lon (d_round lon_f)) (d_fmod lat (d_round lat_f));
       Some (a # b # rest)
     }"

definition locator_size :: "nat \<Rightarrow> nat" where
  "locator_size precision = (if precision > 2 \<and> precision \<le> 5 then precision * 2 else if precision \<ge> 5 then 10 else 4)"

text \<open>The static buffer up to its first NUL.\<close>

definition latlon2maidenhead :: "coordinates \<Rightarrow> string comp" where
  "latlon2maidenhead c =
     map_option (takeWhile (\<lambda>c. c \<noteq> NUL))
       (locator_loop False (take (locator_size (c_precision c) div 2) locator_steps)
          (d_add (c_longitude c) (double_of_int 180)) (d_add (c_latitude c) (double_of_int 90)))"

subsection \<open>Locations\<close>

record rr_location =
  l_latitude :: cdouble
  l_longitude :: cdouble
  l_valid :: bool
  l_approximate :: bool
  l_locator :: string

definition grid_char :: "nat \<Rightarrow> char \<Rightarrow> bool" where
  "grid_char i ch =
     (let c = toupper ch in
      if (i div 2) mod 2 = 0 then 65 \<le> code c \<and> code c < 65 + (if i < 2 then 18 else 24)
      else 48 \<le> code c \<and> code c \<le> 57)"

definition rr_grid_valid :: "string ptr \<Rightarrow> bool" where
  "rr_grid_valid grid =
     (case grid of
        None \<Rightarrow> False
      | Some g \<Rightarrow> length g \<in> {4, 6, 8, 10} \<and> list_all (\<lambda>(i, c). grid_char i c) (List.enumerate 0 g))"

text \<open>\<open>sscanf(s, " %lf , %lf %c")\<close> with the result 2. Where \<open>scanf\<close> and \<open>strtod\<close> take a different
  part of a text for a number, as with an incomplete exponent, something is left that neither the
  comma nor the end of the text matches, and the result is not 2 either way.\<close>

definition scan_pair :: "string \<Rightarrow> (cdouble \<times> cdouble) option" where
  "scan_pair s =
     (let u = dropWhile isspace s; (lat, r, er) = strtod u in
      if r = u then None
      else let v = dropWhile isspace r in
        if v = [] \<or> hd v \<noteq> CHR '','' then None
        else let w = dropWhile isspace (tl v); (lon, q, er) = strtod w in
          if q = w then None
          else if dropWhile isspace q \<noteq> [] then None
          else Some (lat, lon))"

definition in_range :: "rat \<Rightarrow> cdouble \<Rightarrow> bool" where
  "in_range b d \<longleftrightarrow> d_isfinite d \<and> - b \<le> d_val d \<and> d_val d \<le> b"

definition measured :: "string ptr \<Rightarrow> (cdouble \<times> cdouble) option" where
  "measured coordinates =
     (case coordinates of
        None \<Rightarrow> None
      | Some s \<Rightarrow>
          (case scan_pair s of
             None \<Rightarrow> None
           | Some (lat, lon) \<Rightarrow> if in_range 90 lat \<and> in_range 180 lon then Some (lat, lon) else None))"

definition no_location :: rr_location where
  "no_location = \<lparr>l_latitude = DFin False 0, l_longitude = DFin False 0, l_valid = False, l_approximate = False, l_locator = []\<rparr>"

text \<open>The point itself, the second component tells whether it is only the centre of a square.\<close>

definition fix_of :: "string ptr \<Rightarrow> string ptr \<Rightarrow> (cdouble \<times> cdouble \<times> bool) option" where
  "fix_of coordinates grid =
     (case measured coordinates of
        Some (lat, lon) \<Rightarrow> Some (lat, lon, False)
      | None \<Rightarrow>
          if \<not> rr_grid_valid grid then None
          else let center = maidenhead2latlon grid in
            if c_error center then None else Some (c_latitude center, c_longitude center, True))"

definition rr_location_resolve :: "string ptr \<Rightarrow> string ptr \<Rightarrow> (bool \<times> rr_location) comp" where
  "rr_location_resolve coordinates grid =
     (case fix_of coordinates grid of
        None \<Rightarrow> Some (False, no_location)
      | Some (lat, lon, approx) \<Rightarrow>
          do {
            locator \<leftarrow> latlon2maidenhead
              \<lparr>c_latitude = float_of_double lat, c_longitude = float_of_double lon, c_precision = 3, c_error = False\<rparr>;
            Some (if length locator \<noteq> 6 then (False, no_location)
              else (True, \<lparr>l_latitude = lat, l_longitude = lon, l_valid = True, l_approximate = approx, l_locator = locator\<rparr>))
          })"

text \<open>The text that fits the buffer, and whether all of it did.\<close>

definition rr_location_format :: "string ptr \<Rightarrow> string ptr \<Rightarrow> bool \<Rightarrow> nat \<Rightarrow> (bool \<times> string) comp" where
  "rr_location_format coordinates grid brief capacity =
     (if capacity = 0 then Some (False, [])
      else do {
        (ok, l) \<leftarrow> rr_location_resolve coordinates grid;
        if \<not> ok then Some (False, [])
        else
          let s = (if brief
                   then (if l_approximate l then ''~'' else []) @ ''('' @ fmt_f 2 (l_latitude l) @ '', '' @ fmt_f 2 (l_longitude l) @ '') ['' @
                     l_locator l @ '']''
                   else (if l_approximate l then ''Approximate '' else []) @ ''Coordinates: '' @ fmt_f 6 (l_latitude l) @ '', '' @
                     fmt_f 6 (l_longitude l) @ '' '' @ [CHR 0xC2, CHR 0xB7] @ '' Grid square: '' @ l_locator l)
          in Some (length s < capacity, take (capacity - 1) s)
      })"

subsection \<open>How far rounding goes\<close>

lemma pow2_add: "pow2 (i + j) = pow2 i * pow2 j"
proof -
  have *: "pow2 k = 2 powi k" for k by (simp add: pow2_def power_int_def field_simps)
  show ?thesis unfolding * by (simp add: power_int_add)
qed

lemma pow2_pos [simp]: "0 < pow2 k"
  by (simp add: pow2_def)

lemma pow2_mono: "i \<le> j \<Longrightarrow> pow2 i \<le> pow2 j"
proof -
  assume "i \<le> j"
  then have "pow2 j = pow2 i * 2 ^ nat (j - i)" using pow2_add [of i "j - i"] by (simp add: pow2_def)
  then show ?thesis by simp
qed

lemma pow2_less_iff: "pow2 i < pow2 j \<longleftrightarrow> i < j"
proof
  assume "pow2 i < pow2 j"
  then show "i < j" using pow2_mono [of j i] by (meson linorder_not_le)
next
  assume "i < j"
  then have "pow2 j = pow2 i * 2 ^ nat (j - i)" "0 < nat (j - i)" using pow2_add [of i "j - i"] by (simp_all add: pow2_def)
  moreover from this have "(1 :: rat) < 2 ^ nat (j - i)" by (intro one_less_power) simp_all
  ultimately show "pow2 i < pow2 j" by simp
qed

lemma log2_floor_le: "0 < q \<Longrightarrow> pow2 (log2_floor q) \<le> q"
proof -
  assume q: "0 < q"
  obtain a b where ab: "quotient_of q = (a, b)" by (cases "quotient_of q")
  have b: "0 < b" and qe: "q = of_int a / of_int b" using quotient_of_denom_pos [OF ab] quotient_of_div [OF ab] by simp_all
  have a: "0 < a" using q qe b by (simp add: zero_less_divide_iff)
  define fa fb where "fa = floorlog 2 (nat a)" and "fb = floorlog 2 (nat b)"
  have "2 ^ (fa - 1) \<le> nat a" "nat b < 2 ^ fb" using floorlog_bounds [of "nat a" 2] floorlog_bounds [of "nat b" 2] a b by (simp_all add: fa_def fb_def)
  then have n: "int (2 ^ (fa - 1)) \<le> a" "b \<le> int (2 ^ fb)" using a b by linarith+
  have "fa > 0" using a by (simp add: fa_def floorlog_def)
  then have "pow2 (int fa - int fb - 1) = pow2 (int (fa - 1) + - int fb)" by (simp add: of_nat_diff algebra_simps)
  also have "\<dots> = 2 ^ (fa - 1) / 2 ^ fb" unfolding pow2_add by (simp add: pow2_def)
  also have "\<dots> \<le> of_int a / of_int b"
  proof (rule frac_le)
    show "(2 :: rat) ^ (fa - 1) \<le> of_int a" using n(1) by (metis of_int_le_iff of_int_of_nat_eq of_nat_numeral of_nat_power)
    show "of_int b \<le> (2 :: rat) ^ fb" using n(2) by (metis of_int_le_iff of_int_of_nat_eq of_nat_numeral of_nat_power)
  qed (use a b in simp_all)
  finally have "pow2 (int fa - int fb - 1) \<le> q" unfolding qe .
  then show ?thesis by (simp add: log2_floor_def ab fa_def fb_def Let_def)
qed

lemma rnd_half_even_err: "\<bar>of_int (rnd_half_even q) - q\<bar> \<le> 1 / 2"
proof -
  have f: "of_int \<lfloor>q\<rfloor> \<le> q" "q < of_int \<lfloor>q\<rfloor> + 1" by linarith+
  consider "q - of_int \<lfloor>q\<rfloor> < 1 / 2" | "1 / 2 < q - of_int \<lfloor>q\<rfloor>" | "q - of_int \<lfloor>q\<rfloor> = 1 / 2" by linarith
  then show ?thesis
  proof cases
    case 1
    then have "rnd_half_even q = \<lfloor>q\<rfloor>" by (simp add: rnd_half_even_def Let_def)
    then show ?thesis using 1 f by (simp add: abs_le_iff)
  next
    case 2
    then have "rnd_half_even q = \<lfloor>q\<rfloor> + 1" by (simp add: rnd_half_even_def Let_def)
    then show ?thesis using 2 f by (simp add: abs_le_iff)
  next
    case 3
    then have "rnd_half_even q \<in> {\<lfloor>q\<rfloor>, \<lfloor>q\<rfloor> + 1}" by (simp add: rnd_half_even_def Let_def)
    then show ?thesis using 3 by (auto simp: abs_le_iff)
  qed
qed

lemma round_mag_err:
  assumes "0 \<le> q" and "q < pow2 m" and "emin \<le> m - int p"
  shows "\<bar>round_mag p emin q - q\<bar> \<le> pow2 (m - int p) / 2"
proof (cases "q = 0")
  case False
  define k where "k = max (log2_floor q - int p + 1) emin"
  have "pow2 (log2_floor q) < pow2 m" using log2_floor_le [of q] assms False by simp
  then have "log2_floor q < m" by (simp add: pow2_less_iff)
  then have k: "k \<le> m - int p" using assms(3) by (simp add: k_def)
  have k0: "pow2 k \<noteq> 0" by (metis pow2_pos less_irrefl)
  have "round_mag p emin q - q = (of_int (rnd_half_even (q / pow2 k)) - q / pow2 k) * pow2 k"
    using False k0 unfolding round_mag_def Let_def k_def [symmetric] by (simp add: field_simps)
  then have "\<bar>round_mag p emin q - q\<bar> = \<bar>of_int (rnd_half_even (q / pow2 k)) - q / pow2 k\<bar> * pow2 k"
    by (simp only: abs_mult abs_of_pos [OF pow2_pos])
  also have "\<dots> \<le> 1 / 2 * pow2 k" by (rule mult_right_mono [OF rnd_half_even_err]) (simp add: less_imp_le)
  also have "\<dots> \<le> pow2 (m - int p) / 2" using pow2_mono [OF k] by simp
  finally show ?thesis .
qed (simp add: round_mag_def less_imp_le)

lemma round_mag_nonneg: "0 \<le> q \<Longrightarrow> 0 \<le> round_mag p emin q"
proof -
  assume q: "0 \<le> q"
  have "0 \<le> rnd_half_even (q / pow2 k)" for k
    using q less_imp_le [OF pow2_pos [of k]] by (auto simp: rnd_half_even_def Let_def zero_le_divide_iff)
  then show ?thesis using less_imp_le [OF pow2_pos] by (simp add: round_mag_def Let_def)
qed

text \<open>A finite double that is close to a number.\<close>

definition near :: "cdouble \<Rightarrow> rat \<Rightarrow> rat \<Rightarrow> bool" where
  "near d a e \<longleftrightarrow> (case d of DFin s m \<Rightarrow> 0 \<le> m | _ \<Rightarrow> False) \<and> \<bar>d_val d - a\<bar> \<le> e"

lemma near_finite: "near d a e \<Longrightarrow> d_isfinite d" "near d a e \<Longrightarrow> \<bar>d_val d - a\<bar> \<le> e"
  by (auto simp: near_def d_isfinite_def split: cdouble.splits)

lemma near_mono: "near d a e \<Longrightarrow> e \<le> e' \<Longrightarrow> near d a e'"
  by (auto simp: near_def)

lemma round_to_near:
  assumes "0 \<le> q" and "q < pow2 m" and "emin \<le> m - int p" and "pow2 (m - int p) \<le> pow2 m" and "m + 1 < emax"
  shows "near (round_to p emin emax s q) (if s then - q else q) (pow2 (m - int p) / 2)"
proof -
  have e: "\<bar>round_mag p emin q - q\<bar> \<le> pow2 (m - int p) / 2" by (rule round_mag_err [OF assms(1-3)])
  have "round_mag p emin q < 2 * pow2 m" using e assms(2,4) pow2_pos [of m] by linarith
  also have "2 * pow2 m = pow2 (m + 1)" using pow2_add [of m 1] by (simp add: pow2_def)
  also have "\<dots> < pow2 emax" using assms(5) by (simp add: pow2_less_iff)
  finally have "\<not> pow2 emax \<le> round_mag p emin q" by simp
  then show ?thesis using e round_mag_nonneg [OF assms(1)] by (auto simp: round_to_def near_def d_val_def Let_def abs_minus_commute)
qed

lemma pow2_10: "pow2 10 = 1024" "pow2 8 = 256" "pow2 (10 - int 53) / 2 \<le> 1 / 10 ^ 12" "pow2 (8 - int 24) / 2 \<le> 8 / 10 ^ 6"
  by (simp_all add: pow2_def)

lemma d_round_near:
  assumes "\<bar>q\<bar> < 1024"
  shows "near (d_round q) q (1 / 10 ^ 12)"
proof -
  have "near (to_double (q < 0) \<bar>q\<bar>) (if q < 0 then - \<bar>q\<bar> else \<bar>q\<bar>) (pow2 (10 - int 53) / 2)"
    unfolding to_double_def by (rule round_to_near) (use assms pow2_10 in \<open>simp_all add: pow2_mono\<close>)
  moreover have "(if q < 0 then - \<bar>q\<bar> else \<bar>q\<bar>) = q" by simp
  ultimately show ?thesis using near_mono [OF _ pow2_10(3)] unfolding d_round_def by simp
qed

lemma float_near:
  assumes d: "near d a e" and b: "\<bar>a\<bar> + e < 256"
  shows "near (float_of_double d) a (e + 8 / 10 ^ 6)"
proof -
  obtain s m where m: "d = DFin s m" "0 \<le> m" using d by (auto simp: near_def split: cdouble.splits)
  let ?v = "if s then - m else m"
  have v: "\<bar>?v - a\<bar> \<le> e" using d m(1) by (simp add: near_def d_val_def)
  have "\<bar>?v\<bar> = m" using m(2) by simp
  then have "m < 256" using v b by linarith
  then have "near (to_float s m) ?v (pow2 (8 - int 24) / 2)"
    unfolding to_float_def by (intro round_to_near) (use m(2) pow2_10 in \<open>simp_all add: pow2_mono\<close>)
  then have f: "near (to_float s m) ?v (8 / 10 ^ 6)" using near_mono [OF _ pow2_10(4)] by blast
  then have "\<bar>d_val (to_float s m) - a\<bar> \<le> e + 8 / 10 ^ 6" using near_finite(2) [OF f] v by linarith
  then show ?thesis using f by (simp add: m(1) float_of_double_def near_def)
qed

lemma d_op_near:
  assumes "near x a e" and "near y b f" and "\<bar>g (d_val x) (d_val y) - c\<bar> \<le> h" and "\<bar>c\<bar> + h < 1024"
  shows "near (d_op g x y) c (h + 1 / 10 ^ 12)"
proof -
  have r: "near (d_round (g (d_val x) (d_val y))) (g (d_val x) (d_val y)) (1 / 10 ^ 12)"
    by (rule d_round_near) (use assms(3,4) in linarith)
  have "\<bar>d_val (d_round (g (d_val x) (d_val y))) - c\<bar> \<le> h + 1 / 10 ^ 12" using near_finite(2) [OF r] assms(3) by linarith
  then show ?thesis using r near_finite(1) [OF assms(1)] near_finite(1) [OF assms(2)] by (simp add: d_op_def near_def)
qed

lemma add_near: "near x a e \<Longrightarrow> near y b f \<Longrightarrow> \<bar>a + b\<bar> + (e + f) < 1024 \<Longrightarrow> near (d_add x y) (a + b) (e + f + 1 / 10 ^ 12)"
  by (rule d_op_near) (assumption | drule near_finite(2) | linarith)+

lemma sub_near: "near x a e \<Longrightarrow> near y b f \<Longrightarrow> \<bar>a - b\<bar> + (e + f) < 1024 \<Longrightarrow> near (d_sub x y) (a - b) (e + f + 1 / 10 ^ 12)"
  by (rule d_op_near) (assumption | drule near_finite(2) | linarith)+

lemma rnd_half_even_int [simp]: "rnd_half_even (of_int n) = n"
  by (simp add: rnd_half_even_def)

lemma round_mag_int:
  assumes "n < 2 ^ 53"
  shows "round_mag 53 (- 1074) (of_nat n) = of_nat n"
proof (cases "n = 0")
  case False
  define k where "k = max (log2_floor (of_nat n) - int 53 + 1) (- 1074)"
  have "(of_nat n :: rat) < 2 ^ 53" using assms by (metis of_nat_less_iff of_nat_numeral of_nat_power)
  then have "of_nat n < pow2 53" by (simp add: pow2_def)
  then have "pow2 (log2_floor (of_nat n)) < pow2 53" using log2_floor_le [of "of_nat n"] False by (simp add: order.strict_trans1)
  then have "log2_floor (of_nat n) < 53" unfolding pow2_less_iff .
  then have k: "k \<le> 0" by (simp add: k_def)
  have k0: "pow2 k \<noteq> 0" by (metis pow2_pos less_irrefl)
  have "(of_nat n :: rat) / pow2 k = of_int (int n * 2 ^ nat (- k))"
    using k by (cases "k = 0") (simp_all add: pow2_def)
  then have "rnd_half_even (of_nat n / pow2 k) = int n * 2 ^ nat (- k)" by (metis rnd_half_even_int)
  moreover have "pow2 (- k) * pow2 k = 1" using pow2_add [of "- k" k] by (simp add: pow2_def)
  moreover have "pow2 (- k) = 2 ^ nat (- k)" using k by (simp add: pow2_def)
  ultimately show ?thesis using False unfolding round_mag_def Let_def k_def [symmetric] by simp
qed (simp add: round_mag_def)

lemma d_round_int: "\<bar>n\<bar> < 2 ^ 53 \<Longrightarrow> d_round (of_int n) = DFin (n < 0) (of_int \<bar>n\<bar>)"
proof -
  assume n: "\<bar>n\<bar> < 2 ^ 53"
  have "round_mag 53 (- 1074) (of_nat (nat \<bar>n\<bar>)) = of_nat (nat \<bar>n\<bar>)" by (rule round_mag_int) (use n in simp)
  then have r: "round_mag 53 (- 1074) \<bar>of_int n\<bar> = \<bar>of_int n\<bar>" by simp
  have "(of_int \<bar>n\<bar> :: rat) < of_int (2 ^ 53)" using n by (simp only: of_int_less_iff)
  then have "(\<bar>of_int n\<bar> :: rat) < pow2 53" by (simp add: pow2_def)
  also have "\<dots> < pow2 1024" by (simp add: pow2_less_iff)
  finally show ?thesis by (simp add: d_round_def to_double_def round_to_def r)
qed

lemma double_of_int_eq: "double_of_int n = d_round (of_int n)"
  by (simp add: double_of_int_def d_round_def)

text \<open>An integer below \<open>2 ^ 53\<close> as a double.\<close>

definition dint :: "int \<Rightarrow> cdouble" where
  "dint n = DFin (n < 0) (of_int \<bar>n\<bar>)"

lemma dint_val [simp]: "d_val (dint n) = of_int n" "d_isfinite (dint n)"
  by (simp_all add: dint_def d_val_def d_isfinite_def)

lemma dint_near: "near (dint n) (of_int n) 0"
  by (simp add: near_def dint_def d_val_def)

lemma dint_ops:
  "\<bar>a + b\<bar> < 2 ^ 53 \<Longrightarrow> d_add (dint a) (dint b) = dint (a + b)"
  "\<bar>a - b\<bar> < 2 ^ 53 \<Longrightarrow> d_sub (dint a) (dint b) = dint (a - b)"
  "\<bar>a * b\<bar> < 2 ^ 53 \<Longrightarrow> d_mul (dint a) (dint b) = dint (a * b)"
  using d_round_int [of "a + b"] d_round_int [of "a - b"] d_round_int [of "a * b"] by (simp_all add: d_op_def) (simp_all add: dint_def)

lemma dint_div: "\<bar>of_int a / of_int b :: rat\<bar> < 1024 \<Longrightarrow> near (d_div (dint a) (dint b)) (of_int a / of_int b) (1 / 10 ^ 12)"
  using d_round_near [of "of_int a / of_int b"] by (simp add: d_op_def)

lemma double_of_int_dint: "\<bar>n\<bar> < 2 ^ 53 \<Longrightarrow> double_of_int n = dint n"
  unfolding double_of_int_eq by (simp add: d_round_int dint_def)

lemma d_round_dint: "\<bar>n\<bar> < 2 ^ 53 \<Longrightarrow> d_round (of_int n) = dint n"
  by (simp add: d_round_int dint_def)

lemma d_round_consts:
  "d_round 1 = dint 1" "d_round 2 = dint 2" "d_round 10 = dint 10" "d_round 12 = dint 12" "d_round 20 = dint 20" "d_round 24 = dint 24"
  "d_round 90 = dint 90" "d_round 120 = dint 120" "d_round 180 = dint 180" "d_round 240 = dint 240" "d_round 2880 = dint 2880"
  "d_round 5760 = dint 5760"
  using d_round_dint [of 1] d_round_dint [of 2] d_round_dint [of 10] d_round_dint [of 12] d_round_dint [of 20] d_round_dint [of 24]
    d_round_dint [of 90] d_round_dint [of 120] d_round_dint [of 180] d_round_dint [of 240] d_round_dint [of 2880] d_round_dint [of 5760]
  by simp_all

subsection \<open>The coordinates of a square\<close>

text \<open>The exact value, for a scale of 1 or 2.\<close>

lemma degrees_near:
  assumes t: "t \<in> {1, 2}" and o: "off \<in> {90, 180}"
    and "letter_val a = A" and "digit_int b = B" and "letter_val c = C" and "digit_int d = D" and "letter_val e = E"
    and "0 \<le> A" "A < 18" "0 \<le> B" "B < 10" "0 \<le> C" "C < 24" "0 \<le> D" "D < 10" "0 \<le> E" "E < 24"
  shows "near (degrees (of_int t) (of_int off) a b c d e)
    (of_int t * (10 * of_int A + of_int B + of_int C / 24 + of_int D / 240 + of_int E / 5760) - of_int off) (1 / 10 ^ 11)"
proof -
  have k: "10 * of_int t = (of_int (10 * t) :: rat)" "24 / of_int t = (of_int (24 div t) :: rat)"
    "240 / of_int t = (of_int (240 div t) :: rat)" "5760 / of_int t = (of_int (5760 div t) :: rat)"
    using t by auto
  define sub where "sub = d_div (dint C) (dint (24 div t))"
  define ext where "ext = d_div (dint D) (dint (240 div t))"
  define prec where "prec = d_div (dint E) (dint (5760 div t))"
  have "degrees (of_int t) (of_int off) a b c d e =
      d_sub (d_add (d_add (d_add (d_add (d_mul (dint A) (dint (10 * t))) (d_mul (dint B) (dint t))) sub) ext) prec) (dint off)"
    unfolding degrees_def Let_def k sub_def ext_def prec_def
    using assms by (auto simp: double_of_int_dint d_round_consts)
  also have "d_add (d_mul (dint A) (dint (10 * t))) (d_mul (dint B) (dint t)) = dint (A * (10 * t) + B * t)"
    using assms by (auto simp: dint_ops)
  finally have eq: "degrees (of_int t) (of_int off) a b c d e = d_sub (d_add (d_add (d_add (dint (A * (10 * t) + B * t)) sub) ext) prec) (dint off)" .
  let ?i = "of_int (A * (10 * t) + B * t) :: rat"
  have s: "near sub (of_int C / of_int (24 div t)) (1 / 10 ^ 12)" "near ext (of_int D / of_int (240 div t)) (1 / 10 ^ 12)"
    "near prec (of_int E / of_int (5760 div t)) (1 / 10 ^ 12)"
    unfolding sub_def ext_def prec_def using assms by (intro dint_div; force simp: abs_if field_simps)+
  have i: "0 \<le> ?i" "?i \<le> 360" using assms by auto
  have b1: "0 \<le> (of_int C / of_int (24 div t) :: rat)" "(of_int C / of_int (24 div t) :: rat) \<le> 2"
    "0 \<le> (of_int D / of_int (240 div t) :: rat)" "(of_int D / of_int (240 div t) :: rat) \<le> 1"
    "0 \<le> (of_int E / of_int (5760 div t) :: rat)" "(of_int E / of_int (5760 div t) :: rat) \<le> 1"
    using assms by auto
  have ob: "0 \<le> (of_int off :: rat)" "(of_int off :: rat) \<le> 180" using o by auto
  note n1 = add_near [OF dint_near s(1), of "A * (10 * t) + B * t"]
  have n1: "near (d_add (dint (A * (10 * t) + B * t)) sub) (?i + of_int C / of_int (24 div t)) (0 + 1 / 10 ^ 12 + 1 / 10 ^ 12)"
    by (rule n1) (use i b1 in simp)
  have n2: "near (d_add (d_add (dint (A * (10 * t) + B * t)) sub) ext) (?i + of_int C / of_int (24 div t) + of_int D / of_int (240 div t))
      (0 + 1 / 10 ^ 12 + 1 / 10 ^ 12 + 1 / 10 ^ 12 + 1 / 10 ^ 12)"
    by (rule add_near [OF n1 s(2)]) (use i b1 in simp)
  have n3: "near (d_add (d_add (d_add (dint (A * (10 * t) + B * t)) sub) ext) prec)
      (?i + of_int C / of_int (24 div t) + of_int D / of_int (240 div t) + of_int E / of_int (5760 div t))
      (0 + 1 / 10 ^ 12 + 1 / 10 ^ 12 + 1 / 10 ^ 12 + 1 / 10 ^ 12 + 1 / 10 ^ 12 + 1 / 10 ^ 12)"
    by (rule add_near [OF n2 s(3)]) (use i b1 in simp)
  have n4: "near (degrees (of_int t) (of_int off) a b c d e)
      (?i + of_int C / of_int (24 div t) + of_int D / of_int (240 div t) + of_int E / of_int (5760 div t) - of_int off)
      (0 + 1 / 10 ^ 12 + 1 / 10 ^ 12 + 1 / 10 ^ 12 + 1 / 10 ^ 12 + 1 / 10 ^ 12 + 1 / 10 ^ 12 + 0 + 1 / 10 ^ 12)"
    unfolding eq by (rule sub_near [OF n3 dint_near]) (use i b1 ob in simp)
  have v: "?i + of_int C / of_int (24 div t) + of_int D / of_int (240 div t) + of_int E / of_int (5760 div t) - of_int off =
    of_int t * (10 * of_int A + of_int B + of_int C / 24 + of_int D / 240 + of_int E / 5760) - (of_int off :: rat)"
    using t by (auto simp: field_simps)
  show ?thesis unfolding v [symmetric] by (rule near_mono [OF n4]) simp
qed

subsection \<open>The locator of a square\<close>

lemma trunc_eq: "of_int n \<le> d_val d \<Longrightarrow> d_val d < of_int n + 1 \<Longrightarrow> 0 \<le> n \<Longrightarrow> d_trunc d = n"
proof -
  assume v: "of_int n \<le> d_val d" "d_val d < of_int n + 1" "0 \<le> n"
  then have "0 \<le> d_val d" by (smt (verit) of_int_nonneg order_trans)
  moreover have "\<lfloor>d_val d\<rfloor> = n" using v by (intro floor_unique)
  ultimately show ?thesis by (simp add: d_trunc_def)
qed

lemma trunc_near: "near d y e \<Longrightarrow> of_int n + e \<le> y \<Longrightarrow> y + e < of_int n + 1 \<Longrightarrow> 0 \<le> n \<Longrightarrow> d_trunc d = n"
proof -
  assume a: "near d y e" "of_int n + e \<le> y" "y + e < of_int n + 1" "0 \<le> n"
  have "\<bar>d_val d - y\<bar> \<le> e" by (rule near_finite(2) [OF a(1)])
  then have "of_int n \<le> d_val d" "d_val d < of_int n + 1" using a(2,3) by linarith+
  then show ?thesis using a(4) by (rule trunc_eq)
qed

text \<open>A quotient that is not close to an integer is truncated as the exact one.\<close>

lemma quotient_trunc:
  assumes "d_isfinite x" and "d_isfinite c" and "of_int n + 1 / 10 ^ 9 \<le> d_val x / d_val c" and "d_val x / d_val c \<le> of_int n + 1 - 1 / 10 ^ 9"
    and "0 \<le> n" and "n < 1000"
  shows "near (d_div x c) (d_val x / d_val c) (1 / 10 ^ 12)" and "d_trunc (d_div x c) = n"
proof -
  have n: "0 \<le> (of_int n :: rat)" "(of_int n :: rat) < 1000" using assms(5,6) by simp_all
  show r: "near (d_div x c) (d_val x / d_val c) (1 / 10 ^ 12)"
    using d_round_near [of "d_val x / d_val c"] n assms by (simp add: d_op_def)
  show "d_trunc (d_div x c) = n"
  proof (rule trunc_near [OF r])
    have "1 / 10 ^ 12 < (1 / 10 ^ 9 :: rat)" by simp
    with assms(3,4) show "of_int n + 1 / 10 ^ 12 \<le> d_val x / d_val c" "d_val x / d_val c + 1 / 10 ^ 12 < of_int n + 1" by linarith+
  qed (rule assms(5))
qed

lemma letter_step:
  assumes "d_isfinite x" and "d_isfinite c" and "of_int n + 1 / 10 ^ 9 \<le> d_val x / d_val c" and "d_val x / d_val c \<le> of_int n + 1 - 1 / 10 ^ 9"
    and "0 \<le> n" and "n < 30"
  shows "map_option letterize (int_of_double (d_div x c)) = Some (char_of (nat (n + 65)))"
proof -
  note q = quotient_trunc [OF assms(1-5)]
  have "d_isfinite (d_div x c)" "d_trunc (d_div x c) = n" using near_finite(1) [OF q(1)] q(2) assms(6) by simp_all
  then show ?thesis using assms(5,6) by (simp add: int_of_double_def letterize_def)
qed

lemma digit_step:
  assumes "d_isfinite x" and "d_isfinite c" and "of_int n + 1 / 10 ^ 9 \<le> d_val x / d_val c" and "d_val x / d_val c \<le> of_int n + 1 - 1 / 10 ^ 9"
    and "0 \<le> n" and "n < 10"
  shows "char_of_double (d_add (d_div x c) (double_of_int 48)) = Some (char_of (nat (n + 48)))"
proof -
  have q: "near (d_div x c) (d_val x / d_val c) (1 / 10 ^ 12)" using quotient_trunc(1) [OF assms(1-5)] assms(6) by simp
  have n: "0 \<le> (of_int n :: rat)" "(of_int n :: rat) < 10" using assms(5,6) by simp_all
  have d: "double_of_int 48 = dint 48" by (rule double_of_int_dint) simp
  have s: "near (d_add (d_div x c) (dint 48)) (d_val x / d_val c + of_int 48) (1 / 10 ^ 12 + 0 + 1 / 10 ^ 12)"
    by (rule add_near [OF q dint_near]) (use n assms(3,4) in \<open>simp add: abs_if\<close>)
  have "d_trunc (d_add (d_div x c) (dint 48)) = n + 48"
    by (rule trunc_near [OF s]) (use assms(3-5) in simp_all)
  then show ?thesis using near_finite(1) [OF s] assms(5,6) unfolding d by (simp add: char_of_double_def)
qed

lemma fmod_step:
  assumes "d_isfinite x" and "d_isfinite c" and "0 < d_val c" and "of_int n \<le> d_val x / d_val c" and "d_val x / d_val c < of_int n + 1" and "0 \<le> n"
  shows "d_isfinite (d_fmod x c)" and "d_val (d_fmod x c) = d_val x - of_int n * d_val c"
proof -
  have q: "0 \<le> d_val x / d_val c" using assms(4,6) by (smt (verit) of_int_nonneg order_trans)
  then have q': "(d_val x / d_val c < 0) = False" by simp
  have x: "0 \<le> d_val x" using q assms(3) by (simp add: zero_le_divide_iff)
  have f: "\<lfloor>d_val x / d_val c\<rfloor> = n" using assms(4,5) by (intro floor_unique)
  have "of_int n * d_val c \<le> d_val x" using assms(3,4) by (simp add: pos_le_divide_eq)
  then have "d_fmod x c = DFin False (d_val x - of_int n * d_val c)"
    using assms(1-3) x f q' by (simp add: d_fmod_def Let_def)
  then show "d_isfinite (d_fmod x c)" "d_val (d_fmod x c) = d_val x - of_int n * d_val c"
    by (simp_all add: d_isfinite_def d_val_def [of "DFin False _"])
qed

lemma nums: "(10 :: rat) ^ 5 = 100000" "(10 :: rat) ^ 6 = 1000000" "(10 :: rat) ^ 9 = 1000000000" "(10 :: rat) ^ 11 = 100000000000"
    "(10 :: rat) ^ 12 = 1000000000000"
  by simp_all

text \<open>One coordinate: the five characters of the exact value come out again. The position within the
  subsquare \<open>W\<close> leaves room for the rounding and for the constants being a little too small.\<close>

lemma pieces:
  assumes x: "d_isfinite x" "\<bar>d_val x - s * (10 * of_int A + of_int B + of_int C / 24 + W)\<bar> \<le> 2 / 100000" and s: "s = 1 \<or> s = 2"
    and c: "d_isfinite c1" "d_val c1 = 10 * s" "d_isfinite c2" "d_val c2 = s" "d_isfinite c3" "\<bar>d_val c3 - s * (416665 / 10000000)\<bar> \<le> 1 / 1000000000000"
    and r: "0 \<le> A" "A < 18" "0 \<le> B" "B < 10" "0 \<le> C" "C < 24" "11 / 5760 \<le> W" "W \<le> 9 / 240 + 11 / 5760"
  shows "map_option letterize (int_of_double (d_div x c1)) = Some (char_of (nat (A + 65)))"
    and "char_of_double (d_add (d_div (d_fmod x c1) c2) (double_of_int 48)) = Some (char_of (nat (B + 48)))"
    and "map_option letterize (int_of_double (d_div (d_fmod (d_fmod x c1) c2) c3)) = Some (char_of (nat (C + 65)))"
proof -
  have A: "0 \<le> (of_int A :: rat)" "(of_int A :: rat) \<le> 17" using r(1,2) by simp_all
  have B: "0 \<le> (of_int B :: rat)" "(of_int B :: rat) \<le> 9" using r(3,4) by simp_all
  have C: "0 \<le> (of_int C :: rat)" "(of_int C :: rat) \<le> 23" using r(5,6) by simp_all
  have s0: "0 < s" "1 \<le> s" using s by auto
  let ?v = "d_val x" and ?y = "10 * of_int A + of_int B + of_int C / 24 + W"
  define u where "u = ?v / s"
  define k where "k = d_val c3 / s"
  have v: "?v = s * u" and c3: "d_val c3 = s * k" using s0 by (simp_all add: u_def k_def)
  have scale: "s * \<bar>p - q\<bar> \<le> e \<Longrightarrow> 0 \<le> e \<Longrightarrow> \<bar>p - q\<bar> \<le> e" for p q e :: rat
    using mult_right_mono [OF s0(2) abs_ge_zero, of "p - q"] by simp
  have "s * \<bar>u - ?y\<bar> = \<bar>s * (u - ?y)\<bar>" using s0(1) by (simp only: abs_mult abs_of_pos)
  also have "s * (u - ?y) = ?v - s * ?y" using v by (simp only: right_diff_distrib)
  finally have "\<bar>u - ?y\<bar> \<le> 2 / 100000" using x(2) by (intro scale) simp_all
  then have u: "?y - 2 / 100000 \<le> u" "u \<le> ?y + 2 / 100000" by linarith+
  have "s * \<bar>k - (416665 / 10000000)\<bar> = \<bar>s * (k - (416665 / 10000000))\<bar>" using s0(1) by (simp only: abs_mult abs_of_pos)
  also have "s * (k - (416665 / 10000000)) = d_val c3 - s * (416665 / 10000000)" using c3 by (simp only: right_diff_distrib)
  finally have "\<bar>k - (416665 / 10000000)\<bar> \<le> 1 / 1000000000000" using c(6) by (intro scale) simp_all
  then have k: "(416665 / 10000000) - 1 / 1000000000000 \<le> k" "k \<le> (416665 / 10000000) + 1 / 1000000000000" by linarith+
  have e1: "?v / d_val c1 = u / 10" unfolding c(2) v using s0(1) by simp
  have d1: "of_int A + 1 / 1000000000 \<le> ?v / d_val c1" "?v / d_val c1 \<le> of_int A + 1 - 1 / 1000000000"
    unfolding e1 using u A B C r(7,8) by linarith+
  show "map_option letterize (int_of_double (d_div x c1)) = Some (char_of (nat (A + 65)))"
    by (rule letter_step [unfolded nums, OF x(1) c(1) d1]) (use r in simp_all)
  have p1: "0 < d_val c1" "?v / d_val c1 < of_int A + 1" "of_int A \<le> ?v / d_val c1" using d1 s0(1) unfolding c(2) by linarith+
  have f1: "d_isfinite (d_fmod x c1)" "d_val (d_fmod x c1) = ?v - of_int A * d_val c1"
    using fmod_step [OF x(1) c(1) p1(1,3,2) r(1)] by simp_all
  have e2: "d_val (d_fmod x c1) / d_val c2 = u - 10 * of_int A" unfolding f1(2) c(2,4) v using s0(1) by (simp add: field_simps)
  have d2: "of_int B + 1 / 1000000000 \<le> d_val (d_fmod x c1) / d_val c2" "d_val (d_fmod x c1) / d_val c2 \<le> of_int B + 1 - 1 / 1000000000"
    unfolding e2 using u A B C r(7,8) by linarith+
  show "char_of_double (d_add (d_div (d_fmod x c1) c2) (double_of_int 48)) = Some (char_of (nat (B + 48)))"
    by (rule digit_step [unfolded nums, OF f1(1) c(3) d2]) (use r in simp_all)
  have p2: "0 < d_val c2" "d_val (d_fmod x c1) / d_val c2 < of_int B + 1" "of_int B \<le> d_val (d_fmod x c1) / d_val c2"
    using d2 s0(1) unfolding c(4) by linarith+
  let ?w = "d_val (d_fmod (d_fmod x c1) c2)"
  have f2: "d_isfinite (d_fmod (d_fmod x c1) c2)" "?w = ?v - of_int A * d_val c1 - of_int B * d_val c2"
    using fmod_step [OF f1(1) c(3) p2(1,3,2) r(3)] f1(2) by simp_all
  let ?z = "u - 10 * of_int A - of_int B"
  have k0: "0 < k" using k(1) by simp
  have e3: "?w / d_val c3 = ?z / k" unfolding f2(2) c(2,4) c3 v using s0(1) k0 by (simp add: field_simps)
  have k': "41666499999 / 1000000000000 \<le> k" "k \<le> 41666500001 / 1000000000000" using k by simp_all
  have m: "k * of_int C \<le> 41666500001 / 1000000000000 * of_int C" "41666499999 / 1000000000000 * of_int C \<le> k * of_int C"
    by (rule mult_right_mono [OF k'(2) C(1)], rule mult_right_mono [OF k'(1) C(1)])
  have "k * of_int C + 1 / 1000000000 * k \<le> ?z" using u m k' C r(7) by linarith
  then have "(of_int C + 1 / 1000000000) * k \<le> ?z" by (simp only: distrib_right mult.commute [of k "of_int C"])
  moreover have "?z \<le> k * of_int C + k - 1 / 1000000000 * k" using u m k' C r(8) by linarith
  then have "?z \<le> (of_int C + 1 - 1 / 1000000000) * k"
    by (simp only: distrib_right left_diff_distrib mult_1_left mult.commute [of k "of_int C"])
  ultimately have d3: "of_int C + 1 / 1000000000 \<le> ?w / d_val c3" "?w / d_val c3 \<le> of_int C + 1 - 1 / 1000000000"
    unfolding e3 using k0 by (simp_all add: pos_le_divide_eq pos_divide_le_eq)
  show "map_option letterize (int_of_double (d_div (d_fmod (d_fmod x c1) c2) c3)) = Some (char_of (nat (C + 65)))"
    by (rule letter_step [unfolded nums, OF f2(1) c(5) d3]) (use r in simp_all)
qed

lemma letter_char:
  assumes "grid_char i ch" and "(i div 2) mod 2 = 0"
  shows "0 \<le> letter_val ch" and "letter_val ch < (if i < 2 then 18 else 24)" and "char_of (nat (letter_val ch + 65)) = toupper ch"
proof -
  have c: "65 \<le> code (toupper ch)" "code (toupper ch) < 65 + (if i < 2 then 18 else 24)"
    using assms by (simp_all add: grid_char_def Let_def)
  then have v: "letter_val ch = int (code (toupper ch)) - 65" by (simp add: letter_val_def signed_code_def split: if_splits)
  then show "0 \<le> letter_val ch" "letter_val ch < (if i < 2 then 18 else 24)" using c by (simp_all split: if_splits)
  show "char_of (nat (letter_val ch + 65)) = toupper ch" unfolding v by simp
qed

lemma digit_char_val:
  assumes "grid_char i ch" and "(i div 2) mod 2 \<noteq> 0"
  shows "0 \<le> digit_int ch" and "digit_int ch < 10" and "char_of (nat (digit_int ch + 48)) = toupper ch"
proof -
  have c: "48 \<le> code (toupper ch)" "code (toupper ch) \<le> 57" using assms by (simp_all add: grid_char_def Let_def)
  have ch: "toupper ch = ch"
  proof (rule ccontr)
    assume "toupper ch \<noteq> ch"
    then have "97 \<le> code ch" "code ch \<le> 122" "toupper ch = char_of (code ch - 32)" by (auto simp: toupper_def split: if_splits)
    then show False using c by (simp add: code_char_of)
  qed
  then have v: "digit_int ch = int (code ch) - 48" using c by (simp add: digit_int_def signed_code_def)
  then show "0 \<le> digit_int ch" "digit_int ch < 10" using c ch by simp_all
  show "char_of (nat (digit_int ch + 48)) = toupper ch" unfolding v ch by simp
qed

text \<open>One coordinate of a square, from its characters through the float and back.\<close>

lemma coordinate_roundtrip:
  assumes t: "t = 1 \<and> off = 90 \<or> t = 2 \<and> off = 180"
    and g: "grid_char i0 a" "i0 < 2" "grid_char i1 b" "i1 \<in> {2, 3}" "grid_char i2 c" "i2 \<in> {4, 5}" "grid_char i3 d" "i3 \<in> {6, 7}"
    and c: "d_isfinite c1" "d_val c1 = 10 * of_int t" "d_isfinite c2" "d_val c2 = of_int t"
    "d_isfinite c3" "\<bar>d_val c3 - of_int t * (416665 / 10000000)\<bar> \<le> 1 / 1000000000000"
    and x: "x = d_add (float_of_double (float_of_double (degrees (of_int t) (of_int off) a b c d (CHR ''L'')))) (double_of_int off)"
  shows "map_option letterize (int_of_double (d_div x c1)) = Some (toupper a)"
    and "char_of_double (d_add (d_div (d_fmod x c1) c2) (double_of_int 48)) = Some (toupper b)"
    and "map_option letterize (int_of_double (d_div (d_fmod (d_fmod x c1) c2) c3)) = Some (toupper c)"
proof -
  have m: "(i0 div 2) mod 2 = 0" "(i1 div 2) mod 2 \<noteq> 0" "(i2 div 2) mod 2 = 0" "(i3 div 2) mod 2 \<noteq> 0" "\<not> i2 < 2"
    using g(2,4,6,8) by auto
  note A = letter_char [OF g(1) m(1)] and B = digit_char_val [OF g(3) m(2)] and C = letter_char [OF g(5) m(3)] and D = digit_char_val [OF g(7) m(4)]
  let ?A = "letter_val a" and ?B = "digit_int b" and ?C = "letter_val c" and ?D = "digit_int d"
  have L: "letter_val (CHR ''L'') = 11" by (simp add: letter_val_def signed_code_def toupper_def code_def)
  have r: "?A < 18" "?C < 24" using A(2) C(2) g(2) m(5) by simp_all
  have ra: "0 \<le> (of_int ?A :: rat)" "(of_int ?A :: rat) \<le> 17" "0 \<le> (of_int ?B :: rat)" "(of_int ?B :: rat) \<le> 9"
    "0 \<le> (of_int ?C :: rat)" "(of_int ?C :: rat) \<le> 23" "0 \<le> (of_int ?D :: rat)" "(of_int ?D :: rat) \<le> 9"
    using A(1) B(1,2) C(1) D(1,2) r by simp_all
  let ?y = "10 * of_int ?A + of_int ?B + of_int ?C / 24 + of_int ?D / 240 + of_int 11 / 5760 :: rat"
  define z where "z = of_int t * ?y - of_int off"
  have "near (degrees (of_int t) (of_int off) a b c d (CHR ''L'')) z (1 / 10 ^ 11)"
    unfolding z_def by (rule degrees_near) (use t L A(1) B(1,2) C(1) D(1,2) r in auto)
  then have n0: "near (degrees (of_int t) (of_int off) a b c d (CHR ''L'')) z (1 / 100000000000)" unfolding nums .
  have z: "\<bar>z\<bar> \<le> 181" using t ra unfolding z_def by (auto simp: abs_le_iff)
  have n1: "near (float_of_double (degrees (of_int t) (of_int off) a b c d (CHR ''L''))) z (1 / 100000000000 + 8 / 1000000)"
    by (rule float_near [unfolded nums, OF n0]) (use z in linarith)
  have n2: "near (float_of_double (float_of_double (degrees (of_int t) (of_int off) a b c d (CHR ''L'')))) z
      (1 / 100000000000 + 8 / 1000000 + 8 / 1000000)"
    by (rule float_near [unfolded nums, OF n1]) (use z in linarith)
  have off: "double_of_int off = dint off" "0 \<le> (of_int off :: rat)" "(of_int off :: rat) \<le> 180"
    using t by (auto simp: double_of_int_dint)
  have n3: "near x (z + of_int off) (1 / 100000000000 + 8 / 1000000 + 8 / 1000000 + 0 + 1 / 1000000000000)"
    unfolding x off(1) by (rule add_near [unfolded nums, OF n2 dint_near]) (use z off(2,3) in linarith)
  then have n4: "near x (z + of_int off) (2 / 100000)" by (rule near_mono) simp
  define W where "W = (of_int ?D / 240 + 11 / 5760 :: rat)"
  have W: "11 / 5760 \<le> W" "W \<le> 9 / 240 + 11 / 5760" using ra(7,8) by (simp_all add: W_def)
  have y: "z + of_int off = of_int t * (10 * of_int ?A + of_int ?B + of_int ?C / 24 + W)" by (simp add: z_def W_def)
  have t2: "(of_int t :: rat) = 1 \<or> (of_int t :: rat) = 2" using t by auto
  note p = pieces [OF near_finite(1) [OF n4] near_finite(2) [OF n4, unfolded y] t2 c A(1) r(1) B(1,2) C(1) r(2) W]
  show "map_option letterize (int_of_double (d_div x c1)) = Some (toupper a)" using p(1) A(3) by simp
  show "char_of_double (d_add (d_div (d_fmod x c1) c2) (double_of_int 48)) = Some (toupper b)" using p(2) B(3) by simp
  show "map_option letterize (int_of_double (d_div (d_fmod (d_fmod x c1) c2) c3)) = Some (toupper c)" using p(3) C(3) by simp
qed

lemma complete_grid:
  assumes "rr_grid_valid (Some g)" and "length g \<le> 8"
  shows "\<exists>c0 c1 c2 c3 c4 c5 c6 c7. g @ drop (length g) ''LL55LL55LL'' = [c0, c1, c2, c3, c4, c5, c6, c7, CHR ''L'', CHR ''L''] \<and>
    grid_char 0 c0 \<and> grid_char 1 c1 \<and> grid_char 2 c2 \<and> grid_char 3 c3 \<and> grid_char 4 c4 \<and> grid_char 5 c5 \<and> grid_char 6 c6 \<and> grid_char 7 c7 \<and>
    take 6 (g @ ''LL'') = [c0, c1, c2, c3, c4, c5]"
proof -
  have L: "grid_char 4 (CHR ''L'')" "grid_char 5 (CHR ''L'')" "grid_char 6 (CHR ''5'')" "grid_char 7 (CHR ''5'')"
    by (simp_all add: grid_char_def toupper_def code_def)
  have "length g \<in> {4, 6, 8}" and c: "list_all (\<lambda>(i, c). grid_char i c) (List.enumerate 0 g)"
    using assms by (auto simp: rr_grid_valid_def)
  then consider "length g = 4" | "length g = 6" | "length g = 8" by auto
  then show ?thesis
  proof cases
    case 1
    then obtain a0 a1 a2 a3 where "g = [a0, a1, a2, a3]" by (auto simp: length_Suc_conv numeral_eq_Suc)
    then show ?thesis using c L by (simp add: numeral_eq_Suc)
  next
    case 2
    then obtain a0 a1 a2 a3 a4 a5 where "g = [a0, a1, a2, a3, a4, a5]" by (auto simp: length_Suc_conv numeral_eq_Suc)
    then show ?thesis using c L by (simp add: numeral_eq_Suc)
  next
    case 3
    then obtain a0 a1 a2 a3 a4 a5 a6 a7 where "g = [a0, a1, a2, a3, a4, a5, a6, a7]" by (auto simp: length_Suc_conv numeral_eq_Suc)
    then show ?thesis using c L by (simp add: numeral_eq_Suc)
  qed
qed

lemma grid_char_not_nul: "grid_char i c \<Longrightarrow> toupper c \<noteq> NUL"
  by (auto simp: grid_char_def Let_def code_def split: if_splits)

text \<open>C40: a locator survives the way through coordinates. A valid locator of four, six or eight characters
  and no usable coordinates resolve to an approximate location whose locator is the one given,
  in capitals, completed to the centre of its square or cut to six characters, although both
  coordinates pass through a \<open>float\<close> and the divisors of the way back are cut decimals.\<close>

theorem grid_resolves_to_itself:
  assumes "measured coordinates = None" and "rr_grid_valid (Some g)" and "length g \<le> 8"
  shows "\<exists>l. rr_location_resolve coordinates (Some g) = Some (True, l) \<and> l_valid l \<and> l_approximate l \<and>
    l_locator l = map toupper (take 6 (g @ ''LL''))"
proof -
  obtain c0 c1 c2 c3 c4 c5 c6 c7 where
    s: "g @ drop (length g) ''LL55LL55LL'' = [c0, c1, c2, c3, c4, c5, c6, c7, CHR ''L'', CHR ''L'']"
    and g: "grid_char 0 c0" "grid_char 1 c1" "grid_char 2 c2" "grid_char 3 c3" "grid_char 4 c4" "grid_char 5 c5" "grid_char 6 c6" "grid_char 7 c7"
    and six: "take 6 (g @ ''LL'') = [c0, c1, c2, c3, c4, c5]"
    using complete_grid [OF assms(2,3)] by blast
  have len: "length g \<in> {4, 6, 8}" using assms(2,3) by (auto simp: rr_grid_valid_def)
  define lat where "lat = float_of_double (degrees 1 90 c1 c3 c5 c7 (CHR ''L''))"
  define lon where "lon = float_of_double (degrees 2 180 c0 c2 c4 c6 (CHR ''L''))"
  have "maidenhead2latlon (Some g) = \<lparr>c_latitude = lat, c_longitude = lon, c_precision = length g div 2, c_error = False\<rparr>"
    using len s by (auto simp: maidenhead2latlon_def complete_mh_def lat_def lon_def)
  then have f: "fix_of coordinates (Some g) = Some (lat, lon, True)" using assms(1,2) by (simp add: fix_of_def Let_def)
  define x where "x = d_add (float_of_double lon) (double_of_int 180)"
  define y where "y = d_add (float_of_double lat) (double_of_int 90)"
  have k: "d_isfinite (dint 20)" "d_val (dint 20) = 10 * of_int 2" "d_isfinite (dint 2)" "d_val (dint 2) = of_int 2"
    "d_isfinite (dint 10)" "d_val (dint 10) = 10 * of_int 1" "d_isfinite (dint 1)" "d_val (dint 1) = of_int 1" by simp_all
  have n: "near (d_round (83333 / 1000000)) (83333 / 1000000) (1 / 1000000000000)" "near (d_round (83333 / 2000000)) (83333 / 2000000) (1 / 1000000000000)"
    using d_round_near [of "83333 / 1000000"] d_round_near [of "83333 / 2000000"] unfolding nums by simp_all
  have k3: "\<bar>d_val (d_round (83333 / 1000000)) - of_int 2 * (416665 / 10000000)\<bar> \<le> 1 / 1000000000000"
    "\<bar>d_val (d_round (83333 / 2000000)) - of_int 1 * (416665 / 10000000)\<bar> \<le> 1 / 1000000000000"
    using near_finite(2) [OF n(1)] near_finite(2) [OF n(2)] by simp_all
  have "x = d_add (float_of_double (float_of_double (degrees (of_int 2) (of_int 180) c0 c2 c4 c6 (CHR ''L'')))) (double_of_int 180)"
    by (simp add: x_def lon_def)
  note X = coordinate_roundtrip [OF disjI2 [OF conjI [OF refl refl]] g(1) _ g(3) _ g(5) _ g(7) _ k(1-4) near_finite(1) [OF n(1)] k3(1) this]
  have "y = d_add (float_of_double (float_of_double (degrees (of_int 1) (of_int 90) c1 c3 c5 c7 (CHR ''L'')))) (double_of_int 90)"
    by (simp add: y_def lat_def)
  note Y = coordinate_roundtrip [OF disjI1 [OF conjI [OF refl refl]] g(2) _ g(4) _ g(6) _ g(8) _ k(5-8) near_finite(1) [OF n(2)] k3(2) this]
  have steps: "take 3 locator_steps = [(20, 10), (2, 1), (83333 / 1000000, 83333 / 2000000)]"
    by (simp add: locator_steps_def numeral_3_eq_3)
  have X': "map_option letterize (int_of_double (d_div x (dint 20))) = Some (toupper c0)"
    "char_of_double (d_add (d_div (d_fmod x (dint 20)) (dint 2)) (double_of_int 48)) = Some (toupper c2)"
    "map_option letterize (int_of_double (d_div (d_fmod (d_fmod x (dint 20)) (dint 2)) (d_round (83333 / 1000000)))) = Some (toupper c4)"
    by (rule X; simp)+
  have Y': "map_option letterize (int_of_double (d_div y (dint 10))) = Some (toupper c1)"
    "char_of_double (d_add (d_div (d_fmod y (dint 10)) (dint 1)) (double_of_int 48)) = Some (toupper c3)"
    "map_option letterize (int_of_double (d_div (d_fmod (d_fmod y (dint 10)) (dint 1)) (d_round (83333 / 2000000)))) = Some (toupper c5)"
    by (rule Y; simp)+
  have "locator_loop False (take 3 locator_steps) x y = Some (map toupper [c0, c1, c2, c3, c4, c5])"
    unfolding steps by (simp only: locator_loop.simps d_round_consts if_False if_True not_False_eq_True not_True_eq_False
      X' Y' Option.bind.simps list.map)
  then have "latlon2maidenhead \<lparr>c_latitude = float_of_double lat, c_longitude = float_of_double lon, c_precision = 3, c_error = False\<rparr> =
      Some (map toupper [c0, c1, c2, c3, c4, c5])"
    using g grid_char_not_nul by (simp add: latlon2maidenhead_def locator_size_def x_def [symmetric] y_def [symmetric])
  then show ?thesis using six by (simp add: rr_location_resolve_def f)
qed

theorem grid_resolves_to_itself_witness:
  "\<exists>l. rr_location_resolve None (Some ''jo62qm'') = Some (True, l) \<and> l_valid l \<and> l_approximate l \<and>
    l_locator l = map toupper (take 6 (''jo62qm'' @ ''LL''))"
  by (rule grid_resolves_to_itself)
    (simp_all add: measured_def rr_grid_valid_def grid_char_def toupper_def code_def Let_def enumerate_eq_zip)

text \<open>Valid coordinates can have a locator that is none: at the north pole the letter behind the
  last field comes out.\<close>

lemma dint_exact:
  assumes "0 < b" and "0 \<le> a" and "a < 2 ^ 20"
  shows "b dvd a \<Longrightarrow> d_div (dint a) (dint b) = dint (a div b)" and "d_fmod (dint a) (dint b) = dint (a mod b)"
proof -
  assume d: "b dvd a"
  then obtain k where k: "a = b * k" by (elim dvdE)
  have kb: "0 \<le> k" "k \<le> a" using assms(1,2) unfolding k by (simp_all add: zero_le_mult_iff mult_le_cancel_right1)
  then have "\<bar>k\<bar> < 2 ^ 53" using assms(3) by simp
  from d_round_dint [OF this] show "d_div (dint a) (dint b) = dint (a div b)"
    using assms(1) by (simp add: d_op_def k)
next
  have q: "\<lfloor>of_int a / of_int b :: rat\<rfloor> = a div b" by (rule floor_divide_of_int_eq)
  have p: "\<not> (of_int a / of_int b :: rat) < 0" using assms(1,2) by (simp add: divide_less_0_iff)
  have "of_int a - of_int (a div b) * of_int b = (of_int (a mod b) :: rat)"
    by (metis of_int_diff of_int_mult minus_div_mult_eq_mod)
  moreover have "0 \<le> a mod b" using assms(1) by simp
  ultimately show "d_fmod (dint a) (dint b) = dint (a mod b)"
    using assms(1,2) p by (simp add: d_fmod_def Let_def q) (simp add: dint_def not_less)
qed

lemma dint_casts:
  "0 \<le> n \<Longrightarrow> n < 128 \<Longrightarrow> int_of_double (dint n) = Some n"
  "0 \<le> n \<Longrightarrow> n < 128 \<Longrightarrow> char_of_double (dint n) = Some (char_of (nat n))"
  by (simp_all add: int_of_double_def char_of_double_def d_trunc_def dint_def d_isfinite_def d_val_def)

lemma pole_has_no_square:
  "latlon2maidenhead \<lparr>c_latitude = dint 90, c_longitude = dint 0, c_precision = 2, c_error = False\<rparr> = Some ''JS00''"
proof -
  have s: "take 2 locator_steps = [(20, 10), (2, 1)]" by (simp add: locator_steps_def numeral_2_eq_2)
  have "locator_loop False (take 2 locator_steps) (dint 180) (dint 180) = Some ''JS00''"
    unfolding s by (simp add: d_round_consts dint_exact dint_casts dint_ops double_of_int_dint letterize_def char_of_def bit_0)
  then show ?thesis
    by (simp add: latlon2maidenhead_def locator_size_def double_of_int_dint dint_ops)
qed

end
