(* ===== verification/Ringbuffer.thy ===== *)
theory Ringbuffer
  imports C_Heap C_Numbers Util_Mem
begin

text \<open>
  \<open>ringbuffer.c\<close>: a bounded FIFO of time-stamped entries as a singly linked list with head and
  tail pointers. The model keeps the heap of nodes explicitly, so that a store through a
  dangling pointer shows. The payload pointers are opaque; those the code frees are recorded.
\<close>

subsection \<open>Data\<close>

type_synonym timespec = "int \<times> int"

record rb_node =
  rb_data :: u64
  rb_needs_freed :: bool
  rb_timestamp :: timespec
  rb_next :: "nat ptr"

record rb_buffer =
  rb_max_size :: u64
  rb_current_size :: u64
  rb_head :: "nat ptr"
  rb_tail :: "nat ptr"
  rb_name :: string

record rb_state =
  rb_heap :: "rb_node heap"
  rb_buf :: rb_buffer
  rb_freed :: "u64 list"

subsection \<open>Operations\<close>

text \<open>
  \<open>sizeof(buffer->name)\<close> is the size of a pointer, so the name is cut to eight characters.
\<close>

definition rb_create :: "int \<Rightarrow> string ptr \<Rightarrow> rb_node heap \<Rightarrow> alloc \<Rightarrow> rb_state run \<times> alloc" where
  "rb_create max_size name h a =
     (let (ok1, a) = malloc_ok a;
          (ok2, a) = malloc_ok a
      in if \<not> ok1 \<or> \<not> ok2 then (Exit ENOMEM, a)
         else (Done \<lparr>rb_heap = h,
                     rb_buf = \<lparr>rb_max_size = word_of_int max_size, rb_current_size = 0, rb_head = NULL,
                       rb_tail = NULL, rb_name = take 8 (case name of None \<Rightarrow> [] | Some s \<Rightarrow> s)\<rparr>,
                     rb_freed = []\<rparr>, a))"

text \<open>Freeing a node with its payload.\<close>

definition rb_drop_node :: "nat ptr \<Rightarrow> rb_state \<Rightarrow> rb_state comp" where
  "rb_drop_node p s =
     do {
       n \<leftarrow> h_read p (rb_heap s);
       h \<leftarrow> h_free p (rb_heap s);
       Some (s\<lparr>rb_heap := h,
               rb_freed := (if rb_needs_freed n \<and> rb_data n \<noteq> 0 then rb_data n # rb_freed s else rb_freed s)\<rparr>)
     }"

text \<open>The branch of \<open>rb_add\<close> for a full buffer.\<close>

definition rb_evict :: "rb_state \<Rightarrow> rb_state comp" where
  "rb_evict s =
     do {
       n \<leftarrow> h_read (rb_head (rb_buf s)) (rb_heap s);
       s \<leftarrow> rb_drop_node (rb_head (rb_buf s)) s;
       Some (s\<lparr>rb_buf := (rb_buf s)\<lparr>rb_head := rb_next n, rb_current_size := rb_current_size (rb_buf s) - 1\<rparr>\<rparr>)
     }"

definition rb_add ::
    "rb_state \<Rightarrow> u64 \<Rightarrow> bool \<Rightarrow> timespec \<Rightarrow> alloc \<Rightarrow> ((rb_state \<times> nat) run \<times> alloc) comp" where
  "rb_add s data needs_freed timestamp a =
     (let (ok, a) = malloc_ok a
      in if \<not> ok then Some (Exit ENOMEM, a)
         else
           let (node, h) = h_new \<lparr>rb_data = data, rb_needs_freed = needs_freed,
                                  rb_timestamp = timestamp, rb_next = NULL\<rparr> (rb_heap s);
               s = s\<lparr>rb_heap := h\<rparr>
           in if rb_current_size (rb_buf s) = 0 then
                Some (Done (s\<lparr>rb_buf := (rb_buf s)\<lparr>rb_head := Some node, rb_tail := Some node,
                  rb_current_size := rb_current_size (rb_buf s) + 1\<rparr>\<rparr>, node), a)
              else do {
                s \<leftarrow> (if rb_current_size (rb_buf s) = rb_max_size (rb_buf s) then rb_evict s else Some s);
                h \<leftarrow> h_write (rb_tail (rb_buf s)) (\<lambda>n. n\<lparr>rb_next := Some node\<rparr>) (rb_heap s);
                Some (Done (s\<lparr>rb_heap := h, rb_buf := (rb_buf s)\<lparr>rb_tail := Some node,
                  rb_current_size := rb_current_size (rb_buf s) + 1\<rparr>\<rparr>, node), a)
              })"

partial_function (option) rb_destroy_loop :: "nat ptr \<Rightarrow> rb_state \<Rightarrow> rb_state comp" where
  "rb_destroy_loop current s =
     (case current of
        None \<Rightarrow> Some s
      | Some c \<Rightarrow>
          do {
            n \<leftarrow> h_read current (rb_heap s);
            s \<leftarrow> rb_drop_node current s;
            rb_destroy_loop (rb_next n) s
          })"

text \<open>What is left of the heap, and the payloads freed.\<close>

definition rb_destroy :: "rb_state ptr \<Rightarrow> (rb_node heap \<times> u64 list) ptr comp" where
  "rb_destroy sp =
     (case sp of
        None \<Rightarrow> Some NULL
      | Some s \<Rightarrow>
          do { s \<leftarrow> rb_destroy_loop (rb_head (rb_buf s)) s; Some (Some (rb_heap s, rb_freed s)) })"

definition ts_later :: "timespec \<Rightarrow> timespec \<Rightarrow> bool" where
  "ts_later t u \<longleftrightarrow> fst t > fst u \<or> fst t = fst u \<and> snd t > snd u"

partial_function (option) most_recent_loop :: "rb_node heap \<Rightarrow> nat ptr \<Rightarrow> nat ptr \<Rightarrow> nat ptr comp" where
  "most_recent_loop h current latest =
     (case current of
        None \<Rightarrow> Some latest
      | Some c \<Rightarrow>
          do {
            n \<leftarrow> h_read current h;
            l \<leftarrow> h_read latest h;
            most_recent_loop h (rb_next n)
              (if ts_later (rb_timestamp n) (rb_timestamp l) then current else latest)
          })"

definition rb_get_most_recent :: "rb_state ptr \<Rightarrow> nat ptr comp" where
  "rb_get_most_recent sp =
     (case sp of
        None \<Rightarrow> Some NULL
      | Some s \<Rightarrow>
          if rb_current_size (rb_buf s) = 0 then Some NULL
          else most_recent_loop (rb_heap s) (rb_head (rb_buf s)) (rb_head (rb_buf s)))"

fun rb_walk :: "rb_node heap \<Rightarrow> nat ptr \<Rightarrow> nat \<Rightarrow> nat ptr comp" where
  "rb_walk h current 0 = Some current"
| "rb_walk h current (Suc i) = do { n \<leftarrow> h_read current h; rb_walk h (rb_next n) i }"

fun rb_collect :: "rb_node heap \<Rightarrow> nat ptr \<Rightarrow> nat \<Rightarrow> u64 list comp" where
  "rb_collect h current 0 = Some []"
| "rb_collect h current (Suc i) =
     do { n \<leftarrow> h_read current h; ds \<leftarrow> rb_collect h (rb_next n) i; Some (rb_data n # ds) }"

text \<open>The sum \<open>start + count\<close> is an \<open>int\<close>; its overflow is undefined.\<close>

definition rb_get_range :: "rb_state \<Rightarrow> int \<Rightarrow> int \<Rightarrow> alloc \<Rightarrow> (u64 list ptr run \<times> alloc) comp" where
  "rb_get_range s start count a =
     (let size = uint (rb_current_size (rb_buf s))
      in if size = 0 then Some (Done NULL, a)
         else if start < 0 \<or> start \<ge> size then Some (Done NULL, a)
         else if count < 1 then Some (Done NULL, a)
         else if start + count > INT_MAX then None
         else if start + count > size then Some (Done NULL, a)
         else let (ok, a) = malloc_ok a
           in if \<not> ok then Some (Exit ENOMEM, a)
              else do {
                current \<leftarrow> rb_walk (rb_heap s) (rb_head (rb_buf s)) (nat start);
                ds \<leftarrow> rb_collect (rb_heap s) current (nat count);
                Some (Done (Some ds), a)
              })"

declare rb_destroy_loop.simps [code] most_recent_loop.simps [code]

subsection \<open>Representation\<close>

type_synonym rb_entry = "u64 \<times> bool \<times> timespec"

definition rb_entry :: "rb_node \<Rightarrow> rb_entry" where
  "rb_entry n = (rb_data n, rb_needs_freed n, rb_timestamp n)"

definition rb_chain :: "rb_state \<Rightarrow> nat list \<Rightarrow> bool" where
  "rb_chain s as \<longleftrightarrow>
     heap_ok (rb_heap s) \<and> distinct as \<and>
     chain rb_next (h_cells (rb_heap s)) (rb_head (rb_buf s)) as NULL \<and>
     (as \<noteq> [] \<longrightarrow> rb_tail (rb_buf s) = Some (last as)) \<and>
     unat (rb_current_size (rb_buf s)) = length as"

definition rb_entries :: "rb_state \<Rightarrow> nat list \<Rightarrow> rb_entry list" where
  "rb_entries s as = map (\<lambda>a. rb_entry (the (h_cells (rb_heap s) a))) as"

definition rb_repr :: "rb_state \<Rightarrow> rb_entry list \<Rightarrow> bool" where
  "rb_repr s xs \<longleftrightarrow> (\<exists>as. rb_chain s as \<and> xs = rb_entries s as)"

lemma rb_reprI: "rb_chain s as \<Longrightarrow> rb_entries s as = xs \<Longrightarrow> rb_repr s xs"
  by (auto simp: rb_repr_def)

subsection \<open>Adding\<close>

text \<open>A buffer with a new node that is not linked yet.\<close>

definition rb_pending :: "rb_state \<Rightarrow> nat \<Rightarrow> rb_entry \<Rightarrow> nat list \<Rightarrow> bool" where
  "rb_pending s node e as \<longleftrightarrow> rb_chain s as \<and> node \<notin> set as \<and>
     (\<exists>m. h_cells (rb_heap s) node = Some m \<and> rb_next m = NULL \<and> rb_entry m = e)"

lemma rb_chain_cells:
  assumes "rb_chain s as" and "a \<in> set as"
  shows "\<exists>n. h_cells (rb_heap s) a = Some n" and "a < h_next (rb_heap s)"
proof -
  have c: "h_cells (rb_heap s) a \<noteq> None" using assms chain_cells by (fastforce simp: rb_chain_def)
  then show "\<exists>n. h_cells (rb_heap s) a = Some n" by blast
  show "a < h_next (rb_heap s)" using heap_ok_alloc [OF _ c] assms(1) by (simp add: rb_chain_def)
qed

lemma rb_new_pending:
  assumes "rb_chain s as" and "h_new m (rb_heap s) = (node, h)" and "rb_next m = NULL"
  shows "rb_pending (s\<lparr>rb_heap := h\<rparr>) node (rb_entry m) as"
    and "rb_entries (s\<lparr>rb_heap := h\<rparr>) as = rb_entries s as"
proof -
  have new: "node = h_next (rb_heap s)" "node \<notin> set as"
    using assms(2) rb_chain_cells(2) [OF assms(1)] by (auto simp: h_new_def)
  with assms show "rb_pending (s\<lparr>rb_heap := h\<rparr>) node (rb_entry m) as"
    by (auto simp: rb_pending_def rb_chain_def h_new_def heap_ok_def chain_frame)
  show "rb_entries (s\<lparr>rb_heap := h\<rparr>) as = rb_entries s as"
    using assms(2) new by (auto simp: rb_entries_def h_new_def)
qed

lemma rb_link:
  assumes "rb_pending s node e as" and "as \<noteq> []" and "length as + 1 < 2 ^ 64"
  shows "\<exists>h. h_write (rb_tail (rb_buf s)) (\<lambda>n. n\<lparr>rb_next := Some node\<rparr>) (rb_heap s) = Some h \<and>
    (let s' = s\<lparr>rb_heap := h, rb_buf := (rb_buf s)\<lparr>rb_tail := Some node,
                rb_current_size := rb_current_size (rb_buf s) + 1\<rparr>\<rparr>
     in rb_chain s' (as @ [node]) \<and> rb_entries s' (as @ [node]) = rb_entries s as @ [e])"
proof -
  obtain bs l where as: "as = bs @ [l]" using assms(2) by (metis rev_exhaust)
  have ch: "rb_chain s as" "node \<notin> set as" using assms(1) by (simp_all add: rb_pending_def)
  obtain m where m: "h_cells (rb_heap s) node = Some m" "rb_next m = NULL" "rb_entry m = e"
    using assms(1) by (auto simp: rb_pending_def)
  obtain n where n: "h_cells (rb_heap s) l = Some n" using rb_chain_cells(1) [OF ch(1)] as by auto
  have tail: "rb_tail (rb_buf s) = Some l" using ch(1) as by (simp add: rb_chain_def)
  let ?c = "(h_cells (rb_heap s))(l \<mapsto> n\<lparr>rb_next := Some node\<rparr>)"
  have "chain rb_next ?c (rb_head (rb_buf s)) (bs @ [l, node]) NULL"
    using ch as m by (intro chain_snoc [where m = m]) (simp_all add: rb_chain_def)
  moreover have "heap_ok ((rb_heap s)\<lparr>h_cells := ?c\<rparr>)"
    using ch(1) rb_chain_cells(2) [OF ch(1), of l] as by (auto simp: rb_chain_def heap_ok_def)
  moreover have "unat (rb_current_size (rb_buf s) + 1) = length as + 1"
    using ch(1) assms(3) by (simp add: rb_chain_def unat_word_ariths)
  moreover have "rb_entry (n\<lparr>rb_next := Some node\<rparr>) = rb_entry n" by (simp add: rb_entry_def)
  ultimately show ?thesis
    using tail n ch as m by (auto simp: h_write_Some rb_chain_def rb_entries_def)
qed

lemma rb_evict_ok:
  assumes "rb_pending s node e (a # as)" and "as \<noteq> []"
  shows "\<exists>s'. rb_evict s = Some s' \<and> rb_pending s' node e as \<and> rb_entries s' as = rb_entries s as \<and>
    rb_max_size (rb_buf s') = rb_max_size (rb_buf s) \<and>
    rb_freed s' = (case rb_entries s [a] of [(data, nf, _)] \<Rightarrow> if nf \<and> data \<noteq> 0 then data # rb_freed s else rb_freed s
      | _ \<Rightarrow> rb_freed s)"
proof -
  have ch: "rb_chain s (a # as)" "node \<noteq> a" "node \<notin> set as" using assms(1) by (simp_all add: rb_pending_def)
  obtain n where n: "h_cells (rb_heap s) a = Some n" using rb_chain_cells(1) [OF ch(1)] by auto
  have hd: "rb_head (rb_buf s) = Some a" "chain rb_next (h_cells (rb_heap s)) (rb_next n) as NULL" "a \<notin> set as"
    using ch(1) n by (auto simp: rb_chain_def)
  have "0 < unat (rb_current_size (rb_buf s))" using ch(1) by (simp add: rb_chain_def)
  then have size: "unat (rb_current_size (rb_buf s) - 1) = length as"
    using ch(1) by (simp add: rb_chain_def unat_sub_if' word_le_nat_alt)
  show ?thesis
    using n hd size ch assms
    by (auto simp: rb_evict_def rb_drop_node_def h_free_def rb_pending_def rb_chain_def heap_ok_def chain_frame
        rb_entries_def rb_entry_def)
qed

text \<open>The bounded queue a ring buffer implements: a full one loses its oldest entry.\<close>

definition push :: "nat \<Rightarrow> 'x \<Rightarrow> 'x list \<Rightarrow> 'x list" where
  "push cap x xs = (if length xs = cap then tl xs else xs) @ [x]"

lemma rb_add_nonempty:
  assumes p: "rb_pending s node e as" and as: "as \<noteq> []"
    and cap: "2 \<le> unat (rb_max_size (rb_buf s))" "length as \<le> unat (rb_max_size (rb_buf s))"
  shows "\<exists>s1 h s'. (if rb_current_size (rb_buf s) = rb_max_size (rb_buf s) then rb_evict s else Some s) = Some s1 \<and>
    h_write (rb_tail (rb_buf s1)) (\<lambda>n. n\<lparr>rb_next := Some node\<rparr>) (rb_heap s1) = Some h \<and>
    s' = s1\<lparr>rb_heap := h, rb_buf := (rb_buf s1)\<lparr>rb_tail := Some node,
           rb_current_size := rb_current_size (rb_buf s1) + 1\<rparr>\<rparr> \<and>
    rb_repr s' (push (unat (rb_max_size (rb_buf s))) e (rb_entries s as)) \<and>
    rb_max_size (rb_buf s') = rb_max_size (rb_buf s)"
proof -
  have len: "unat (rb_current_size (rb_buf s)) = length as"
    using p by (simp add: rb_pending_def rb_chain_def)
  have top: "unat (rb_max_size (rb_buf s)) < 2 ^ 64" using unsigned_less [where 'a = nat, of "rb_max_size (rb_buf s)"] by simp
  have elen: "length (rb_entries s as) = length as" by (simp add: rb_entries_def)
  show ?thesis
  proof (cases "rb_current_size (rb_buf s) = rb_max_size (rb_buf s)")
    case False
    then have "length as \<noteq> unat (rb_max_size (rb_buf s))" using len by (metis unsigned_word_eqI)
    then have "length as + 1 < 2 ^ 64" using cap(2) top by simp
    from rb_link [OF p as this] False \<open>length as \<noteq> _\<close> elen show ?thesis
      by (auto simp: Let_def push_def intro: rb_reprI)
  next
    case True
    with len cap have "2 \<le> length as" by simp
    then obtain a bs where bs: "as = a # bs" "bs \<noteq> []" by (cases as; cases "tl as") auto
    obtain s1 where s1: "rb_evict s = Some s1" "rb_pending s1 node e bs" "rb_entries s1 bs = rb_entries s bs"
        "rb_max_size (rb_buf s1) = rb_max_size (rb_buf s)"
      using rb_evict_ok [of s node e a bs] p bs by auto
    have "length bs + 1 < 2 ^ 64" using True len cap top bs by simp
    from rb_link [OF s1(2) bs(2) this] True s1 len bs elen show ?thesis
      by (auto simp: Let_def push_def rb_entries_def intro!: rb_reprI)
  qed
qed

lemma rb_add_correct:
  assumes "rb_repr s xs" and "2 \<le> unat (rb_max_size (rb_buf s))" and "length xs \<le> unat (rb_max_size (rb_buf s))"
    and "malloc_ok a = (True, a')"
  shows "\<exists>s' node. rb_add s data nf ts a = Some (Done (s', node), a') \<and>
    rb_repr s' (push (unat (rb_max_size (rb_buf s))) (data, nf, ts) xs) \<and>
    rb_max_size (rb_buf s') = rb_max_size (rb_buf s)"
proof -
  obtain as where as: "rb_chain s as" "xs = rb_entries s as" using assms(1) by (auto simp: rb_repr_def)
  define m where "m = \<lparr>rb_data = data, rb_needs_freed = nf, rb_timestamp = ts, rb_next = NULL\<rparr>"
  obtain node h where new: "h_new m (rb_heap s) = (node, h)" by (cases "h_new m (rb_heap s)")
  let ?s = "s\<lparr>rb_heap := h\<rparr>"
  have pend: "rb_pending ?s node (rb_entry m) as" "rb_entries ?s as = xs" "rb_entry m = (data, nf, ts)"
    using rb_new_pending [OF as(1) new] as(2) by (simp_all add: m_def rb_entry_def)
  have len: "length as = length xs" using as(2) by (simp add: rb_entries_def)
  have size: "unat (rb_current_size (rb_buf s)) = length as" using as(1) by (simp add: rb_chain_def)
  show ?thesis
  proof (cases "as = []")
    case True
    let ?t = "?s\<lparr>rb_buf := (rb_buf s)\<lparr>rb_head := Some node, rb_tail := Some node, rb_current_size := 1\<rparr>\<rparr>"
    have "rb_current_size (rb_buf s) = 0" using size True by (simp add: unat_eq_0)
    moreover have "rb_chain ?t [node]" "rb_entries ?t [node] = [(data, nf, ts)]"
      using pend True by (auto simp: rb_pending_def rb_chain_def rb_entries_def)
    ultimately show ?thesis
      using assms(2,4) True len new by (force simp: rb_add_def m_def [symmetric] rb_repr_def push_def)
  next
    case False
    have "rb_current_size (rb_buf s) \<noteq> 0" using size False by auto
    then show ?thesis
      using rb_add_nonempty [OF pend(1) False] assms(2-4) len new pend(2,3)
      by (auto simp: rb_add_def m_def [symmetric])
  qed
qed

subsection \<open>Reading\<close>

lemma most_recent_ok:
  assumes "chain rb_next (h_cells h) p as NULL" and "h_cells h l = Some lc"
  shows "\<exists>b n. most_recent_loop h p (Some l) = Some (Some b) \<and> b \<in> set (l # as) \<and> h_cells h b = Some n \<and>
    (\<forall>a \<in> set (l # as). \<not> ts_later (rb_timestamp (the (h_cells h a))) (rb_timestamp n))"
  using assms
proof (induction as arbitrary: p l lc)
  case Nil
  then show ?case by (subst most_recent_loop.simps) (auto simp: ts_later_def)
next
  case (Cons a as)
  then obtain n where n: "p = Some a" "h_cells h a = Some n" "chain rb_next (h_cells h) (rb_next n) as NULL" by auto
  define k where "k = (if ts_later (rb_timestamp n) (rb_timestamp lc) then a else l)"
  define kn where "kn = (if ts_later (rb_timestamp n) (rb_timestamp lc) then n else lc)"
  have kn: "h_cells h k = Some kn" using n Cons.prems(2) by (simp add: k_def kn_def)
  obtain b m where b: "most_recent_loop h (rb_next n) (Some k) = Some (Some b)" "b \<in> set (k # as)"
      "h_cells h b = Some m"
      "\<forall>a \<in> set (k # as). \<not> ts_later (rb_timestamp (the (h_cells h a))) (rb_timestamp m)"
    using Cons.IH [OF n(3) kn] by blast
  have step: "most_recent_loop h p (Some l) = most_recent_loop h (rb_next n) (Some k)"
    using n Cons.prems(2) by (subst most_recent_loop.simps) (auto simp: k_def)
  have "\<not> ts_later (rb_timestamp kn) (rb_timestamp m)" using b(4) kn by auto
  then have "\<not> ts_later (rb_timestamp n) (rb_timestamp m)" "\<not> ts_later (rb_timestamp lc) (rb_timestamp m)"
    by (auto simp: kn_def ts_later_def split: if_splits)
  with b step n Cons.prems(2) show ?case by (auto simp: k_def split: if_splits)
qed

lemma rb_walk_ok:
  "chain rb_next (h_cells h) p as NULL \<Longrightarrow> i < length as \<Longrightarrow> \<exists>q. rb_walk h p i = Some q \<and>
     chain rb_next (h_cells h) q (drop i as) NULL"
proof (induction as arbitrary: p i)
  case (Cons a as)
  then show ?case by (cases i) auto
qed simp

lemma rb_collect_ok:
  "chain rb_next (h_cells h) p as NULL \<Longrightarrow> n \<le> length as \<Longrightarrow>
     rb_collect h p n = Some (take n (map (\<lambda>a. rb_data (the (h_cells h a))) as))"
proof (induction as arbitrary: p n)
  case (Cons a as)
  then show ?case by (cases n) auto
qed simp

lemma rb_range_ok:
  assumes "rb_chain s as" and "i + n \<le> length as" and "0 < n"
  shows "\<exists>q. rb_walk (rb_heap s) (rb_head (rb_buf s)) i = Some q \<and>
    rb_collect (rb_heap s) q n = Some (map fst (take n (drop i (rb_entries s as))))"
proof -
  have "chain rb_next (h_cells (rb_heap s)) (rb_head (rb_buf s)) as NULL" using assms(1) by (simp add: rb_chain_def)
  from rb_walk_ok [OF this, of i] assms(2,3) obtain q where
    q: "rb_walk (rb_heap s) (rb_head (rb_buf s)) i = Some q" "chain rb_next (h_cells (rb_heap s)) q (drop i as) NULL"
    by auto
  from rb_collect_ok [OF q(2), of n] q(1) assms(2) show ?thesis
    by (simp add: rb_entries_def rb_entry_def take_map drop_map comp_def)
qed

subsection \<open>The queue interface\<close>

text \<open>
  A container of bounded size whose addition drops the oldest element when it is full: after
  any sequence of additions it holds the last elements, in order.
\<close>

locale bounded_queue =
  fixes repr :: "'s \<Rightarrow> 'x list \<Rightarrow> bool" and cap :: "'s \<Rightarrow> nat" and add :: "'s \<Rightarrow> 'x \<Rightarrow> 's comp"
  assumes add_law: "repr s xs \<Longrightarrow> 2 \<le> cap s \<Longrightarrow> length xs \<le> cap s \<Longrightarrow>
    \<exists>s'. add s x = Some s' \<and> repr s' (push (cap s) x xs) \<and> cap s' = cap s"
begin

fun add_all :: "'s \<Rightarrow> 'x list \<Rightarrow> 's comp" where
  "add_all s [] = Some s"
| "add_all s (x # xs) = do { s \<leftarrow> add s x; add_all s xs }"

lemma add_all_window:
  assumes "repr s xs" and "2 \<le> cap s" and "length xs \<le> cap s"
  shows "\<exists>s'. add_all s ys = Some s' \<and> cap s' = cap s \<and> repr s' (drop (length (xs @ ys) - cap s) (xs @ ys))"
  using assms
proof (induction ys arbitrary: s xs)
  case (Cons y ys)
  obtain s1 where s1: "add s y = Some s1" "repr s1 (push (cap s) y xs)" "cap s1 = cap s"
    using add_law [OF Cons.prems] by blast
  let ?xs = "push (cap s) y xs"
  have len: "length ?xs \<le> cap s" using Cons.prems(2,3) by (auto simp: push_def)
  then obtain s' where s': "add_all s1 ys = Some s'" "cap s' = cap s"
      "repr s' (drop (length (?xs @ ys) - cap s) (?xs @ ys))"
    using Cons.IH [OF s1(2)] Cons.prems(2) s1(3) by auto
  have "drop (length (?xs @ ys) - cap s) (?xs @ ys) = drop (length (xs @ y # ys) - cap s) (xs @ y # ys)"
  proof (cases "length xs = cap s")
    case True
    with Cons.prems(2) obtain x xs' where "xs = x # xs'" by (cases xs) auto
    with True show ?thesis by (simp add: push_def flip: True)
  qed (use Cons.prems(3) in \<open>simp add: push_def\<close>)
  with s1 s' show ?case by auto
qed simp

end

definition rb_add_entry :: "rb_state \<Rightarrow> rb_entry \<Rightarrow> rb_state comp" where
  "rb_add_entry s e =
     (case rb_add s (fst e) (fst (snd e)) (snd (snd e)) [] of
        Some (Done (s', _), _) \<Rightarrow> Some s' | _ \<Rightarrow> None)"

lemma rb_add_entry_law:
  assumes "rb_repr s xs" and "2 \<le> unat (rb_max_size (rb_buf s))" and "length xs \<le> unat (rb_max_size (rb_buf s))"
  shows "\<exists>s'. rb_add_entry s e = Some s' \<and> rb_repr s' (push (unat (rb_max_size (rb_buf s))) e xs) \<and>
    unat (rb_max_size (rb_buf s')) = unat (rb_max_size (rb_buf s))"
  using rb_add_correct [OF assms, of "[]" "[]" "fst e" "fst (snd e)" "snd (snd e)"]
  by (auto simp: rb_add_entry_def)

interpretation rb: bounded_queue rb_repr "\<lambda>s. unat (rb_max_size (rb_buf s))" rb_add_entry
  by unfold_locales (rule rb_add_entry_law)

subsection \<open>Properties\<close>

fun rb_add_all :: "rb_state \<Rightarrow> rb_entry list \<Rightarrow> rb_state comp" where
  "rb_add_all s [] = Some s"
| "rb_add_all s (e # es) = do { s \<leftarrow> rb_add_entry s e; rb_add_all s es }"

lemma rb_add_all_queue: "rb_add_all s es = rb.add_all s es"
  by (induction es arbitrary: s) (simp_all split: bind_split)

text \<open>An empty buffer, for the examples.\<close>

definition rb_start :: "int \<Rightarrow> rb_state" where
  "rb_start n = \<lparr>rb_heap = \<lparr>h_cells = Map.empty, h_next = 0\<rparr>,
     rb_buf = \<lparr>rb_max_size = word_of_int n, rb_current_size = 0, rb_head = NULL, rb_tail = NULL, rb_name = []\<rparr>,
     rb_freed = []\<rparr>"

lemma rb_create_start: "rb_create n NULL \<lparr>h_cells = Map.empty, h_next = 0\<rparr> [] = (Done (rb_start n), [])"
  by (simp add: rb_create_def rb_start_def)

lemma rb_start_repr: "rb_repr (rb_start n) []" "rb_max_size (rb_buf (rb_start n)) = word_of_int n"
proof -
  have "rb_chain (rb_start n) []"
    by (simp add: rb_start_def rb_chain_def heap_ok_def)
  then show "rb_repr (rb_start n) []" by (rule rb_reprI) (simp add: rb_entries_def)
qed (simp add: rb_start_def)

text \<open>C9: A ring buffer of at least two slots is a bounded FIFO: \<open>rb_add\<close> ends the process when
  its node cannot be allocated; otherwise it returns and the buffer holds the former entries
  in order, less the oldest if it was full, and the new one.\<close>

theorem rb_add_refines:
  assumes "rb_repr s xs" and "2 \<le> unat (rb_max_size (rb_buf s))" and "length xs \<le> unat (rb_max_size (rb_buf s))"
  shows "if fst (malloc_ok a)
    then \<exists>s' node. rb_add s data nf ts a = Some (Done (s', node), snd (malloc_ok a)) \<and>
      rb_repr s' (push (unat (rb_max_size (rb_buf s))) (data, nf, ts) xs)
    else rb_add s data nf ts a = Some (Exit ENOMEM, snd (malloc_ok a))"
proof (cases "malloc_ok a")
  case (Pair ok a')
  then show ?thesis
    using rb_add_correct [OF assms, of a a' data nf ts] by (cases ok) (auto simp: rb_add_def)
qed

theorem rb_add_refines_witness:
  "\<exists>s' node. rb_add (rb_start 2) 5 False (1, 0) [] = Some (Done (s', node), []) \<and>
     rb_repr s' [(5, False, (1, 0))]"
  using rb_add_refines [OF rb_start_repr(1) [of 2], of "[]" 5 False "(1, 0)"]
  by (simp add: rb_start_repr push_def)

text \<open>After any sequence of additions a ring buffer of at least two slots holds exactly the
  most recent entries, in order, as many as fit.\<close>

theorem rb_keeps_last:
  assumes "rb_repr s xs" and "2 \<le> unat (rb_max_size (rb_buf s))" and "length xs \<le> unat (rb_max_size (rb_buf s))"
  shows "\<exists>s'. rb_add_all s es = Some s' \<and>
    rb_repr s' (drop (length (xs @ es) - unat (rb_max_size (rb_buf s))) (xs @ es))"
  using rb.add_all_window [OF assms, of es] by (auto simp: rb_add_all_queue)

theorem rb_keeps_last_witness:
  "\<exists>s'. rb_add_all (rb_start 2) [(1, False, (0, 0)), (2, False, (1, 0)), (3, False, (2, 0))] = Some s' \<and>
     rb_repr s' [(2, False, (1, 0)), (3, False, (2, 0))]"
  using rb_keeps_last [OF rb_start_repr(1) [of 2], of "[(1, False, (0, 0)), (2, False, (1, 0)), (3, False, (2, 0))]"]
  by (simp add: rb_start_repr)

text \<open>\<open>rb_get_range\<close> returns the payloads of the requested window of entries, oldest first,
  and \<open>NULL\<close> when the window does not lie inside the buffer.\<close>

theorem rb_get_range_correct:
  assumes "rb_repr s xs" and "start + count \<le> INT_MAX"
  shows "rb_get_range s start count [] =
    Some (Done (if 0 \<le> start \<and> 1 \<le> count \<and> start + count \<le> int (length xs)
      then Some (map fst (take (nat count) (drop (nat start) xs))) else NULL), [])"
proof -
  obtain as where as: "rb_chain s as" "xs = rb_entries s as" using assms(1) by (auto simp: rb_repr_def)
  have size: "uint (rb_current_size (rb_buf s)) = int (length xs)"
  proof -
    have "unat (rb_current_size (rb_buf s)) = length xs" using as by (simp add: rb_chain_def rb_entries_def)
    from this [symmetric] show ?thesis by simp
  qed
  show ?thesis
  proof (cases "0 \<le> start \<and> 1 \<le> count \<and> start + count \<le> int (length xs)")
    case True
    then have "nat start + nat count \<le> length as" "0 < nat count" using as by (auto simp: rb_entries_def)
    moreover have "start < int (length xs)" "xs \<noteq> []" using True by auto
    ultimately show ?thesis
      using rb_range_ok [OF as(1), of "nat start" "nat count"] True assms(2) size as(2)
      by (auto simp: rb_get_range_def Let_def)
  next
    case False
    then show ?thesis using assms(2) size by (auto simp: rb_get_range_def Let_def)
  qed
qed

theorem rb_get_range_correct_witness:
  "\<exists>s'. rb_add_all (rb_start 2) [(1, False, (0, 0)), (2, False, (1, 0)), (3, False, (2, 0))] = Some s' \<and>
     rb_get_range s' 0 2 [] = Some (Done (Some [2, 3]), [])"
proof -
  obtain s' where s': "rb_add_all (rb_start 2) [(1, False, (0, 0)), (2, False, (1, 0)), (3, False, (2, 0))] = Some s'"
      "rb_repr s' [(2, False, (1, 0)), (3, False, (2, 0))]"
    using rb.add_all_window [OF rb_start_repr(1) [of 2], of "[(1, False, (0, 0)), (2, False, (1, 0)), (3, False, (2, 0))]"]
    by (auto simp: rb_start_repr simp flip: rb_add_all_queue)
  with rb_get_range_correct [OF s'(2), of 0 2] show ?thesis by (simp add: numeral_2_eq_2)
qed

text \<open>\<open>rb_get_most_recent\<close> finds, in a buffer that is not empty, a node of the buffer such that
  no entry has a later time stamp; it never follows a dangling pointer and always returns.\<close>

theorem rb_most_recent_latest:
  assumes "rb_repr s xs" and "xs \<noteq> []"
  shows "\<exists>b n. rb_get_most_recent (Some s) = Some (Some b) \<and> h_cells (rb_heap s) b = Some n \<and>
    rb_entry n \<in> set xs \<and> (\<forall>x \<in> set xs. \<not> ts_later (snd (snd x)) (rb_timestamp n))"
proof -
  obtain as where as: "rb_chain s as" "xs = rb_entries s as" using assms(1) by (auto simp: rb_repr_def)
  then obtain a bs where bs: "as = a # bs" using assms(2) by (cases as) (auto simp: rb_entries_def)
  then obtain n where n: "rb_head (rb_buf s) = Some a" "h_cells (rb_heap s) a = Some n"
      "chain rb_next (h_cells (rb_heap s)) (rb_head (rb_buf s)) as NULL"
    using as(1) by (auto simp: rb_chain_def)
  have size: "rb_current_size (rb_buf s) \<noteq> 0" using as(1) bs by (auto simp: rb_chain_def)
  obtain b m where b: "most_recent_loop (rb_heap s) (rb_head (rb_buf s)) (Some a) = Some (Some b)" "b \<in> set as"
      "h_cells (rb_heap s) b = Some m"
      "\<forall>a \<in> set as. \<not> ts_later (rb_timestamp (the (h_cells (rb_heap s) a))) (rb_timestamp m)"
    using most_recent_ok [OF n(3,2)] bs by auto
  have "rb_entry m \<in> set xs" using b(2,3) as(2) by (force simp: rb_entries_def)
  with b size n(1) as(2) show ?thesis
    by (auto simp: rb_get_most_recent_def rb_entries_def rb_entry_def)
qed

theorem rb_most_recent_latest_witness:
  "\<exists>s' b n. rb_add_all (rb_start 2) [(1, False, (4, 0)), (2, False, (3, 9))] = Some s' \<and>
     rb_get_most_recent (Some s') = Some (Some b) \<and> h_cells (rb_heap s') b = Some n \<and>
     \<not> ts_later (4, 0) (rb_timestamp n)"
proof -
  obtain s' where s': "rb_add_all (rb_start 2) [(1, False, (4, 0)), (2, False, (3, 9))] = Some s'"
      "rb_repr s' [(1, False, (4, 0)), (2, False, (3, 9))]"
    using rb.add_all_window [OF rb_start_repr(1) [of 2], of "[(1, False, (4, 0)), (2, False, (3, 9))]"]
    by (auto simp: rb_start_repr simp flip: rb_add_all_queue)
  from rb_most_recent_latest [OF s'(2)] s'(1) show ?thesis by auto
qed

text \<open>A ring buffer of one slot is broken: the second \<open>rb_add\<close> frees the only node, which is
  also the tail, and then stores through the dangling tail pointer.\<close>

theorem rb_single_slot_dangling:
  assumes "rb_repr s [x]" and "rb_max_size (rb_buf s) = 1" and "fst (malloc_ok a)"
  shows "rb_add s data nf ts a = None"
proof -
  obtain b where b: "rb_chain s [b]" using assms(1) by (auto simp: rb_repr_def rb_entries_def Cons_eq_map_conv)
  then obtain n where n: "h_cells (rb_heap s) b = Some n" "rb_head (rb_buf s) = Some b" "rb_tail (rb_buf s) = Some b"
    by (auto simp: rb_chain_def)
  have size: "rb_current_size (rb_buf s) = 1"
    using b by (metis length_Cons list.size(3) One_nat_def rb_chain_def unat_1 unsigned_word_eqI)
  have "b \<noteq> h_next (rb_heap s)" using rb_chain_cells(2) [OF b, of b] by simp
  with n size assms(2,3) show ?thesis
    by (cases "malloc_ok a") (auto simp: rb_add_def h_new_def rb_evict_def rb_drop_node_def h_free_def h_write_def)
qed

theorem rb_single_slot_dangling_witness:
  "\<exists>s1 node. rb_add (rb_start 1) 7 False (0, 0) [] = Some (Done (s1, node), []) \<and>
     rb_add s1 8 False (1, 0) [] = None"
proof -
  let ?s = "(rb_start 1)\<lparr>rb_heap := \<lparr>h_cells = [0 \<mapsto> \<lparr>rb_data = 7, rb_needs_freed = False,
        rb_timestamp = (0, 0), rb_next = NULL\<rparr>], h_next = 1\<rparr>,
      rb_buf := (rb_buf (rb_start 1))\<lparr>rb_head := Some 0, rb_tail := Some 0, rb_current_size := 1\<rparr>\<rparr>"
  have one: "rb_add (rb_start 1) 7 False (0, 0) [] = Some (Done (?s, 0), [])"
    by (simp add: rb_start_def rb_add_def h_new_def)
  have "rb_repr ?s [(7, False, (0, 0))]"
    by (rule rb_reprI [of _ "[0]"])
      (simp_all add: rb_start_def rb_chain_def rb_entries_def rb_entry_def heap_ok_def)
  then have "rb_add ?s 8 False (1, 0) [] = None"
    by (rule rb_single_slot_dangling) (simp_all add: rb_start_def)
  with one show ?thesis by blast
qed

subsection \<open>Destruction\<close>

definition owned :: "rb_entry list \<Rightarrow> u64 list" where
  "owned xs = map fst (filter (\<lambda>x. fst (snd x) \<and> fst x \<noteq> 0) xs)"

lemma rb_destroy_loop_ok:
  assumes "chain rb_next (h_cells (rb_heap s)) p as NULL" and "distinct as"
  shows "\<exists>s'. rb_destroy_loop p s = Some s' \<and> h_cells (rb_heap s') = (\<lambda>a. if a \<in> set as then None else h_cells (rb_heap s) a) \<and>
    rb_freed s' = rev (owned (rb_entries s as)) @ rb_freed s"
  using assms
proof (induction as arbitrary: p s)
  case Nil
  then show ?case by (subst rb_destroy_loop.simps) (simp add: owned_def rb_entries_def)
next
  case (Cons a as)
  then obtain n where n: "p = Some a" "h_cells (rb_heap s) a = Some n"
      "chain rb_next (h_cells (rb_heap s)) (rb_next n) as NULL" by auto
  define s1 where "s1 = s\<lparr>rb_heap := (rb_heap s)\<lparr>h_cells := (h_cells (rb_heap s))(a := None)\<rparr>,
    rb_freed := (if rb_needs_freed n \<and> rb_data n \<noteq> 0 then rb_data n # rb_freed s else rb_freed s)\<rparr>"
  have "rb_drop_node p s = Some s1" using n by (simp add: rb_drop_node_def h_free_def s1_def)
  then have step: "rb_destroy_loop p s = rb_destroy_loop (rb_next n) s1"
    using n by (subst rb_destroy_loop.simps) simp
  have "chain rb_next (h_cells (rb_heap s1)) (rb_next n) as NULL"
    using n(3) Cons.prems(2) by (simp add: s1_def chain_frame)
  from Cons.IH [OF this] Cons.prems(2) obtain s' where
    s': "rb_destroy_loop (rb_next n) s1 = Some s'"
      "h_cells (rb_heap s') = (\<lambda>b. if b \<in> set as then None else h_cells (rb_heap s1) b)"
      "rb_freed s' = rev (owned (rb_entries s1 as)) @ rb_freed s1" by auto
  have "rb_entries s1 as = rb_entries s as" using Cons.prems(2) by (auto simp: rb_entries_def s1_def)
  moreover have "rev (owned (rb_entries s as)) @ rb_freed s1 = rev (owned (rb_entries s (a # as))) @ rb_freed s"
    using n(2) by (simp add: s1_def owned_def rb_entries_def rb_entry_def)
  moreover have "h_cells (rb_heap s1) = (h_cells (rb_heap s))(a := None)" by (simp add: s1_def)
  ultimately show ?case using s' step by (auto simp: fun_eq_iff)
qed

text \<open>\<open>rb_destroy\<close> returns, frees every node of the buffer exactly once and nothing else, and
  frees the payloads the buffer owns, each once.\<close>

theorem rb_destroy_frees_all:
  assumes "rb_chain s as"
  shows "\<exists>h. rb_destroy (Some s) = Some (Some (h, rev (owned (rb_entries s as)) @ rb_freed s)) \<and>
    h_cells h = (\<lambda>a. if a \<in> set as then None else h_cells (rb_heap s) a)"
  using rb_destroy_loop_ok [of s "rb_head (rb_buf s)" as] assms
  by (auto simp: rb_destroy_def rb_chain_def)

theorem rb_destroy_frees_all_witness:
  "\<exists>h. rb_destroy (Some (rb_start 3)) = Some (Some (h, [])) \<and> h_cells h = Map.empty"
proof -
  have "rb_chain (rb_start 3) []" by (simp add: rb_start_def rb_chain_def heap_ok_def)
  from rb_destroy_frees_all [OF this] show ?thesis by (simp add: owned_def rb_entries_def rb_start_def)
qed

end
