(* ===== verification/Rrlist.thy ===== *)
theory Rrlist
  imports C_Heap
begin

text \<open>
  \<open>list.c\<close>: the doubly linked list of the library. The list is its head pointer and a heap of
  nodes with links in both directions; the caller's variable that holds the head (\<open>*list\<close>)
  is passed and returned.
\<close>

subsection \<open>Data and operations\<close>

record rrlist =
  rr_ptr :: u64
  rr_prev :: "nat ptr"
  rr_next :: "nat ptr"

abbreviation LIST_TAIL :: int where "LIST_TAIL \<equiv> 0"
abbreviation LIST_HEAD :: int where "LIST_HEAD \<equiv> 1"

partial_function (option) find_loop :: "rrlist heap \<Rightarrow> nat ptr \<Rightarrow> u64 \<Rightarrow> nat ptr comp" where
  "find_loop h p ptr =
     (case p of
        None \<Rightarrow> Some NULL
      | Some a \<Rightarrow> do { n \<leftarrow> h_read p h; if rr_ptr n = ptr then Some p else find_loop h (rr_next n) ptr })"

definition rrlist_find_by_ptr :: "rrlist heap \<Rightarrow> nat ptr \<Rightarrow> u64 \<Rightarrow> nat ptr comp" where
  "rrlist_find_by_ptr h list ptr = (if list = NULL \<or> ptr = 0 then Some NULL else find_loop h list ptr)"

partial_function (option) last_loop :: "rrlist heap \<Rightarrow> nat ptr \<Rightarrow> nat ptr comp" where
  "last_loop h lp =
     do { n \<leftarrow> h_read lp h; if rr_next n = NULL then Some lp else last_loop h (rr_next n) }"

text \<open>
  The result is the new node, the heap and the new head. The outer option of \<open>list\<close> is the
  check of \<open>list\<close> itself.
\<close>

definition rrlist_add ::
    "rrlist heap \<Rightarrow> nat ptr ptr \<Rightarrow> u64 \<Rightarrow> int \<Rightarrow> alloc \<Rightarrow> (nat ptr \<times> rrlist heap \<times> nat ptr ptr \<times> alloc) comp" where
  "rrlist_add h list ptr direction a =
     (case list of
        None \<Rightarrow> Some (NULL, h, list, a)
      | Some first \<Rightarrow>
          if ptr = 0 then Some (NULL, h, list, a)
          else let (ok, a) = malloc_ok a
          in if \<not> ok then Some (NULL, h, list, a)
             else let (np, h1) = h_new \<lparr>rr_ptr = ptr, rr_prev = NULL, rr_next = NULL\<rparr> h
             in if first = NULL then Some (Some np, h1, Some (Some np), a)
                else if direction = LIST_HEAD then
                  do {
                    h2 \<leftarrow> h_write (Some np) (\<lambda>n. n\<lparr>rr_next := first\<rparr>) h1;
                    h3 \<leftarrow> h_write first (\<lambda>n. n\<lparr>rr_prev := Some np\<rparr>) h2;
                    Some (Some np, h3, Some (Some np), a)
                  }
                else if direction = LIST_TAIL then
                  do {
                    lp \<leftarrow> last_loop h1 first;
                    h2 \<leftarrow> h_write lp (\<lambda>n. n\<lparr>rr_next := Some np\<rparr>) h1;
                    h3 \<leftarrow> h_write (Some np) (\<lambda>n. n\<lparr>rr_prev := lp\<rparr>) h2;
                    Some (Some np, h3, list, a)
                  }
                else do { h2 \<leftarrow> h_free (Some np) h1; Some (NULL, h2, list, a) })"

definition rrlist_remove ::
    "rrlist heap \<Rightarrow> nat ptr ptr \<Rightarrow> nat ptr \<Rightarrow> (nat ptr \<times> rrlist heap \<times> nat ptr ptr) comp" where
  "rrlist_remove h list lp =
     (case list of
        None \<Rightarrow> Some (NULL, h, list)
      | Some first \<Rightarrow>
          if first = NULL \<or> lp = NULL then Some (NULL, h, list)
          else do {
            n \<leftarrow> h_read lp h;
            h1 \<leftarrow> (if rr_prev n \<noteq> NULL then h_write (rr_prev n) (\<lambda>m. m\<lparr>rr_next := rr_next n\<rparr>) h else Some h);
            n \<leftarrow> h_read lp h1;
            h2 \<leftarrow> (if rr_next n \<noteq> NULL then h_write (rr_next n) (\<lambda>m. m\<lparr>rr_prev := rr_prev n\<rparr>) h1 else Some h1);
            n \<leftarrow> h_read lp h2;
            h3 \<leftarrow> h_free lp h2;
            Some (rr_next n, h3, Some (if lp = first then rr_next n else first))
          })"

partial_function (option) destroy_loop :: "rrlist heap \<Rightarrow> nat ptr \<Rightarrow> rrlist heap comp" where
  "destroy_loop h p =
     (case p of
        None \<Rightarrow> Some h
      | Some a \<Rightarrow> do { n \<leftarrow> h_read p h; h \<leftarrow> h_free p h; destroy_loop h (rr_next n) })"

definition rrlist_destroy :: "rrlist heap \<Rightarrow> nat ptr ptr \<Rightarrow> (bool \<times> rrlist heap \<times> nat ptr ptr) comp" where
  "rrlist_destroy h list =
     (case list of
        None \<Rightarrow> Some (True, h, list)
      | Some first \<Rightarrow>
          if first = NULL then Some (True, h, list)
          else do { h \<leftarrow> destroy_loop h first; Some (True, h, Some NULL) })"

declare find_loop.simps [code] last_loop.simps [code] destroy_loop.simps [code]

subsection \<open>Segments\<close>

text \<open>
  \<open>seg c pv p as l q\<close>: the cells \<open>as\<close>, entered by the pointer \<open>p\<close> and linked back to \<open>pv\<close>,
  are linked both ways; \<open>l\<close> is the last of them (\<open>pv\<close> if there is none), and its next
  pointer is \<open>q\<close>.
\<close>

fun seg :: "(nat \<rightharpoonup> rrlist) \<Rightarrow> nat ptr \<Rightarrow> nat ptr \<Rightarrow> nat list \<Rightarrow> nat ptr \<Rightarrow> nat ptr \<Rightarrow> bool" where
  "seg c pv p [] l q \<longleftrightarrow> p = q \<and> l = pv"
| "seg c pv p (a # as) l q \<longleftrightarrow>
     p = Some a \<and> (\<exists>n. c a = Some n \<and> rr_prev n = pv \<and> seg c (Some a) (rr_next n) as l q)"

lemma seg_append: "seg c pv p (as @ bs) l q \<longleftrightarrow> (\<exists>m r. seg c pv p as m r \<and> seg c m r bs l q)"
  by (induction as arbitrary: pv p) auto

lemma seg_frame: "a \<notin> set as \<Longrightarrow> seg (c(a := x)) pv p as l q = seg c pv p as l q"
  by (induction as arbitrary: pv p) auto

lemma seg_cells: "seg c pv p as l q \<Longrightarrow> a \<in> set as \<Longrightarrow> c a \<noteq> None"
  by (induction as arbitrary: pv p) auto

lemma seg_last: "seg c pv p as l q \<Longrightarrow> l = (if as = [] then pv else Some (last as))"
  by (induction as arbitrary: pv p) auto

text \<open>Changing the forward link of the last cell, and the backward link of the first.\<close>

lemma seg_set_next:
  assumes "seg c pv p as l r" and "as \<noteq> []" and "distinct as" and "c (last as) = Some n"
  shows "seg (c(last as \<mapsto> n\<lparr>rr_next := r'\<rparr>)) pv p as l r'"
proof -
  obtain xs b where as: "as = xs @ [b]" using assms(2) by (metis rev_exhaust)
  then obtain m s where "seg c pv p xs m s" "seg c m s [b] l r" using assms(1) by (auto simp: seg_append)
  then show ?thesis using assms(3,4) as by (auto simp: seg_append seg_frame)
qed

lemma seg_set_prev:
  assumes "seg c m p (b # ys) l q" and "distinct (b # ys)" and "c b = Some n"
  shows "seg (c(b \<mapsto> n\<lparr>rr_prev := m'\<rparr>)) m' p (b # ys) l q"
  using assms by (auto simp: seg_frame)

subsection \<open>Representation\<close>

definition rr_chain :: "rrlist heap \<Rightarrow> nat ptr \<Rightarrow> nat list \<Rightarrow> bool" where
  "rr_chain h first as \<longleftrightarrow> heap_ok h \<and> distinct as \<and> (\<exists>l. seg (h_cells h) NULL first as l NULL)"

definition rr_values :: "rrlist heap \<Rightarrow> nat list \<Rightarrow> u64 list" where
  "rr_values h as = map (\<lambda>a. rr_ptr (the (h_cells h a))) as"

lemma last_loop_ok:
  "seg (h_cells h) pv p as l NULL \<Longrightarrow> as \<noteq> [] \<Longrightarrow> last_loop h p = Some (Some (last as))"
proof (induction as arbitrary: pv p)
  case (Cons a as)
  then obtain n where n: "p = Some a" "h_cells h a = Some n" "seg (h_cells h) (Some a) (rr_next n) as l NULL" by auto
  show ?case
  proof (cases "as = []")
    case True
    with n show ?thesis by (subst last_loop.simps) simp
  next
    case False
    with n(3) have "rr_next n \<noteq> NULL" by (cases as) auto
    then have "last_loop h p = last_loop h (rr_next n)" using n by (subst last_loop.simps) auto
    with Cons.IH [OF n(3)] False show ?thesis by simp
  qed
qed simp

lemma rr_chain_cells:
  assumes "rr_chain h first as" and "a \<in> set as"
  shows "\<exists>n. h_cells h a = Some n" and "a < h_next h"
proof -
  have c: "h_cells h a \<noteq> None" using assms seg_cells by (fastforce simp: rr_chain_def)
  then show "\<exists>n. h_cells h a = Some n" by blast
  show "a < h_next h" using heap_ok_alloc [OF _ c] assms(1) by (simp add: rr_chain_def)
qed

lemma rr_chain_head: "rr_chain h first as \<Longrightarrow> first = (case as of [] \<Rightarrow> NULL | a # _ \<Rightarrow> Some a)"
  by (cases as) (auto simp: rr_chain_def)

subsection \<open>Adding\<close>

text \<open>The nodes of the list after an addition.\<close>

definition rr_added :: "int \<Rightarrow> nat \<Rightarrow> nat list \<Rightarrow> nat list" where
  "rr_added direction np as = (if direction = LIST_HEAD then np # as else as @ [np])"

lemma seg_push_front:
  assumes "seg c NULL (Some a) (a # bs) l NULL" and "distinct (a # bs)" and "np \<notin> set (a # bs)" and "c a = Some n"
  shows "seg (c(np \<mapsto> m\<lparr>rr_prev := NULL, rr_next := Some a\<rparr>, a \<mapsto> n\<lparr>rr_prev := Some np\<rparr>)) NULL (Some np)
    (np # a # bs) l NULL"
proof -
  have "seg (c(a \<mapsto> n\<lparr>rr_prev := Some np\<rparr>)) (Some np) (Some a) (a # bs) l NULL"
    using seg_set_prev [OF assms(1,2,4)] .
  then have "seg (c(a \<mapsto> n\<lparr>rr_prev := Some np\<rparr>, np \<mapsto> m\<lparr>rr_prev := NULL, rr_next := Some a\<rparr>)) (Some np)
      (Some a) (a # bs) l NULL"
    by (rule seg_frame [OF assms(3), THEN iffD2])
  moreover have "c(np \<mapsto> m\<lparr>rr_prev := NULL, rr_next := Some a\<rparr>, a \<mapsto> n\<lparr>rr_prev := Some np\<rparr>) =
      c(a \<mapsto> n\<lparr>rr_prev := Some np\<rparr>, np \<mapsto> m\<lparr>rr_prev := NULL, rr_next := Some a\<rparr>)"
    using assms(3) by (intro fun_upd_twist) auto
  ultimately show ?thesis by simp
qed

lemma seg_push_back:
  assumes "seg c NULL p as l NULL" and "as \<noteq> []" and "distinct as" and "np \<notin> set as" and "c (last as) = Some n"
  shows "seg (c(last as \<mapsto> n\<lparr>rr_next := Some np\<rparr>, np \<mapsto> m\<lparr>rr_prev := Some (last as), rr_next := NULL\<rparr>)) NULL p
    (as @ [np]) (Some np) NULL"
proof -
  have "seg (c(last as \<mapsto> n\<lparr>rr_next := Some np\<rparr>)) NULL p as l (Some np)"
    using seg_set_next [OF assms(1-3,5)] .
  then have "seg (c(last as \<mapsto> n\<lparr>rr_next := Some np\<rparr>, np \<mapsto> m\<lparr>rr_prev := Some (last as), rr_next := NULL\<rparr>))
      NULL p as l (Some np)"
    by (rule seg_frame [OF assms(4), THEN iffD2])
  moreover have "l = Some (last as)" using seg_last [OF assms(1)] assms(2) by simp
  ultimately show ?thesis by (auto simp: seg_append)
qed

lemma rrlist_add_ok:
  assumes "rr_chain h first as" and "ptr \<noteq> 0" and "direction \<in> {LIST_TAIL, LIST_HEAD}"
  shows "\<exists>np h' first'. rrlist_add h (Some first) ptr direction [] = Some (Some np, h', Some first', []) \<and>
    np \<notin> set as \<and> rr_chain h' first' (rr_added direction np as) \<and>
    rr_values h' as = rr_values h as \<and> rr_values h' [np] = [ptr]"
proof -
  define m :: rrlist where "m = \<lparr>rr_ptr = ptr, rr_prev = NULL, rr_next = NULL\<rparr>"
  define np where "np = h_next h"
  let ?h = "\<lambda>c. h\<lparr>h_cells := c, h_next := Suc np\<rparr>"
  have new: "h_new m h = (np, ?h ((h_cells h)(np \<mapsto> m)))" by (simp add: h_new_def np_def)
  have np: "np \<notin> set as" using rr_chain_cells(2) [OF assms(1)] by (auto simp: np_def)
  obtain l where l: "seg (h_cells h) NULL first as l NULL" "distinct as" "heap_ok h"
    using assms(1) by (auto simp: rr_chain_def)
  have ok: "heap_ok (?h c)" if "\<And>a. a \<noteq> np \<Longrightarrow> a \<notin> set as \<Longrightarrow> c a = h_cells h a" for c
    unfolding heap_ok_def
  proof (intro allI impI)
    fix a assume a: "h_next (?h c) \<le> a"
    then have "a \<noteq> np" "a \<notin> set as" using rr_chain_cells(2) [OF assms(1), of a] by (auto simp: np_def)
    with that l(3) a show "h_cells (?h c) a = NULL" by (simp add: heap_ok_def np_def)
  qed
  consider "as = []" | a bs where "as = a # bs" "direction = LIST_HEAD" | a bs where "as = a # bs" "direction = LIST_TAIL"
    using assms(3) by (cases as) auto
  then show ?thesis
  proof cases
    case 1
    then have "first = NULL" using l(1) by simp
    moreover have "rr_chain (?h ((h_cells h)(np \<mapsto> m))) (Some np) [np]"
      using ok [of "(h_cells h)(np \<mapsto> m)"] by (simp add: rr_chain_def m_def)
    ultimately show ?thesis
      using assms(2) new 1 by (auto simp: rrlist_add_def rr_added_def rr_values_def m_def)
  next
    case (2 a bs)
    then obtain n where n: "h_cells h a = Some n" "first = Some a" "a \<noteq> np"
      using l(1) np by auto
    let ?c = "(h_cells h)(np \<mapsto> m\<lparr>rr_prev := NULL, rr_next := Some a\<rparr>, a \<mapsto> n\<lparr>rr_prev := Some np\<rparr>)"
    have "rr_chain (?h ?c) (Some np) (np # as)"
      using seg_push_front [of "h_cells h" a bs l np n m] l 2 n np ok [of ?c] by (auto simp: rr_chain_def)
    moreover have "rrlist_add h (Some first) ptr direction [] = Some (Some np, ?h ?c, Some (Some np), [])"
      using assms(2) new n 2 by (simp add: rrlist_add_def h_write_def m_def)
    moreover have "rr_values (?h ?c) as = rr_values h as" "rr_values (?h ?c) [np] = [ptr]"
      using n np by (auto simp: rr_values_def m_def)
    ultimately show ?thesis using np 2 by (auto simp: rr_added_def)
  next
    case (3 a bs)
    then obtain n where n: "h_cells h (last as) = Some n" "first \<noteq> NULL" "last as \<noteq> np"
      using l(1) np rr_chain_cells(1) [OF assms(1), of "last as"] by (metis last_in_set list.distinct(1) option.distinct(1) seg.simps(2))
    let ?c = "(h_cells h)(last as \<mapsto> n\<lparr>rr_next := Some np\<rparr>, np \<mapsto> m\<lparr>rr_prev := Some (last as), rr_next := NULL\<rparr>)"
    have "last as \<in> set as" using 3(1) by simp
    then have "heap_ok (?h ?c)" by (intro ok) auto
    moreover have "seg ?c NULL first (as @ [np]) (Some np) NULL"
      using seg_push_back [OF l(1) _ l(2) np n(1), of m] 3(1) by blast
    ultimately have "rr_chain (?h ?c) first (as @ [np])"
      using l(2) np unfolding rr_chain_def by auto
    moreover have "seg (h_cells (?h ((h_cells h)(np \<mapsto> m)))) NULL first as l NULL" using l(1) np by (simp add: seg_frame)
    from last_loop_ok [OF this] 3(1)
    have "last_loop (?h ((h_cells h)(np \<mapsto> m))) first = Some (Some (last as))" by blast
    then have "rrlist_add h (Some first) ptr direction [] = Some (Some np, ?h ?c, Some first, [])"
      using assms(2) new n 3 by (simp add: rrlist_add_def h_write_def m_def fun_upd_twist)
    moreover have "rr_values (?h ?c) as = rr_values h as" "rr_values (?h ?c) [np] = [ptr]"
      using n np by (auto simp: rr_values_def m_def)
    ultimately show ?thesis using np 3 by (auto simp: rr_added_def)
  qed
qed

subsection \<open>Removing\<close>

definition set_next :: "nat ptr \<Rightarrow> nat ptr \<Rightarrow> (nat \<rightharpoonup> rrlist) \<Rightarrow> (nat \<rightharpoonup> rrlist)" where
  "set_next p q c = (case p of None \<Rightarrow> c | Some a \<Rightarrow> c(a \<mapsto> (the (c a))\<lparr>rr_next := q\<rparr>))"

definition set_prev :: "nat ptr \<Rightarrow> nat ptr \<Rightarrow> (nat \<rightharpoonup> rrlist) \<Rightarrow> (nat \<rightharpoonup> rrlist)" where
  "set_prev p q c = (case p of None \<Rightarrow> c | Some a \<Rightarrow> c(a \<mapsto> (the (c a))\<lparr>rr_prev := q\<rparr>))"

text \<open>The list after the node \<open>a\<close> between \<open>xs\<close> and \<open>ys\<close> has been unlinked.\<close>

lemma seg_unlink:
  assumes s: "seg c NULL first (xs @ a # ys) l NULL" and d: "distinct (xs @ a # ys)" and n: "c a = Some n"
  shows "\<exists>l'. seg ((set_prev (rr_next n) (rr_prev n) (set_next (rr_prev n) (rr_next n) c))(a := None)) NULL
    (if xs = [] then rr_next n else first) (xs @ ys) l' NULL"
proof -
  obtain m where m: "seg c NULL first xs m (Some a)" "rr_prev n = m" "seg c (Some a) (rr_next n) ys l NULL"
    using s n by (auto simp: seg_append)
  have ml: "m = (if xs = [] then NULL else Some (last xs))" using seg_last [OF m(1)] by simp
  let ?c1 = "set_next m (rr_next n) c" and ?first = "if xs = [] then rr_next n else first"
  have xs1: "seg ?c1 NULL ?first xs m (rr_next n)"
  proof (cases "xs = []")
    case False
    then obtain nl where nl: "c (last xs) = Some nl" using seg_cells [OF m(1)] by (meson last_in_set not_None_eq)
    from seg_set_next [OF m(1) False _ nl, of "rr_next n"] d False ml nl show ?thesis by (simp add: set_next_def)
  qed (simp add: ml)
  have frame1: "seg ?c1 pv p zs k q = seg c pv p zs k q" if "set xs \<inter> set zs = {}" for zs pv p k q
    using that ml last_in_set [of xs] by (cases "xs = []") (auto simp: set_next_def disjoint_iff intro!: seg_frame)
  have ys1: "seg ?c1 (Some a) (rr_next n) ys l NULL" using m(3) d frame1 [of ys] by auto
  let ?c2 = "set_prev (rr_next n) m ?c1"
  have ys2: "\<exists>l'. seg ?c2 m (rr_next n) ys l' NULL"
  proof (cases ys)
    case Nil
    with ys1 show ?thesis by simp
  next
    case (Cons y zs)
    with ys1 obtain ny where ny: "?c1 y = Some ny" "rr_next n = Some y" by auto
    from seg_set_prev [of ?c1 "Some a" "Some y" y zs l NULL ny m] ys1 ny d Cons show ?thesis
      by (auto simp: set_prev_def)
  qed
  have xs2: "seg ?c2 NULL ?first xs m (rr_next n)"
  proof (cases ys)
    case (Cons y zs)
    with ys1 have "rr_next n = Some y" by simp
    moreover have "y \<notin> set xs" using d Cons by auto
    ultimately show ?thesis using xs1 seg_frame [of y xs] by (simp add: set_prev_def)
  qed (use xs1 ys1 in \<open>simp add: set_prev_def\<close>)
  obtain l' where "seg ?c2 NULL ?first (xs @ ys) l' NULL" using xs2 ys2 by (auto simp: seg_append)
  then have "seg (?c2(a := None)) NULL ?first (xs @ ys) l' NULL"
    using d by (intro seg_frame [THEN iffD2]) auto
  then show ?thesis using m(2) by blast
qed

lemma seg_neighbours:
  assumes "seg c NULL first (xs @ a # ys) l NULL" and "distinct (xs @ a # ys)" and "c a = Some n"
  shows "rr_prev n = (if xs = [] then NULL else Some (last xs))"
    and "rr_next n = (case ys of [] \<Rightarrow> NULL | y # _ \<Rightarrow> Some y)"
    and "first = Some a \<longleftrightarrow> xs = []"
proof -
  obtain m where m: "seg c NULL first xs m (Some a)" "rr_prev n = m" "seg c (Some a) (rr_next n) ys l NULL"
    using assms(1,3) by (auto simp: seg_append)
  show "rr_prev n = (if xs = [] then NULL else Some (last xs))" using seg_last [OF m(1)] m(2) by simp
  show "rr_next n = (case ys of [] \<Rightarrow> NULL | y # _ \<Rightarrow> Some y)" using m(3) by (cases ys) auto
  show "first = Some a \<longleftrightarrow> xs = []" using m(1) assms(2) by (cases xs) auto
qed

lemma rrlist_remove_ok:
  assumes ch: "rr_chain h first (xs @ a # ys)"
  shows "\<exists>h' first'. rrlist_remove h (Some first) (Some a) = Some (case ys of [] \<Rightarrow> NULL | y # _ \<Rightarrow> Some y, h', Some first') \<and>
    rr_chain h' first' (xs @ ys) \<and> h_cells h' a = None \<and> rr_values h' (xs @ ys) = rr_values h (xs @ ys)"
proof -
  obtain l where l: "seg (h_cells h) NULL first (xs @ a # ys) l NULL" "distinct (xs @ a # ys)" "heap_ok h"
    using ch by (auto simp: rr_chain_def)
  obtain n where n: "h_cells h a = Some n" using rr_chain_cells(1) [OF ch] by auto
  note nb = seg_neighbours [OF l(1,2) n]
  let ?c1 = "set_next (rr_prev n) (rr_next n) (h_cells h)"
  let ?c2 = "set_prev (rr_next n) (rr_prev n) ?c1"
  let ?first = "if xs = [] then rr_next n else first"
  have prev: "rr_prev n \<noteq> Some a" "rr_next n \<noteq> Some a" "rr_prev n = NULL \<or> rr_prev n \<noteq> rr_next n"
    using nb(1,2) l(2) last_in_set [of xs] by (auto split: list.splits if_splits)
  have cells: "\<And>b. rr_prev n = Some b \<Longrightarrow> \<exists>k. h_cells h b = Some k" "\<And>b. rr_next n = Some b \<Longrightarrow> \<exists>k. h_cells h b = Some k"
    using rr_chain_cells(1) [OF ch] nb(1,2) last_in_set [of xs] by (auto split: list.splits if_splits)
  have same: "?c1 a = Some n" "?c2 a = Some n"
    using prev n by (auto simp: set_next_def set_prev_def split: option.splits)
  have w1: "(if rr_prev n \<noteq> NULL then h_write (rr_prev n) (\<lambda>m. m\<lparr>rr_next := rr_next n\<rparr>) h else Some h) =
      Some (h\<lparr>h_cells := ?c1\<rparr>)"
    using cells(1) by (cases "rr_prev n") (auto simp: h_write_def set_next_def)
  have "rr_next n \<noteq> NULL \<Longrightarrow> \<exists>k. ?c1 (the (rr_next n)) = Some k"
    using cells(2) by (auto simp: set_next_def split: option.splits)
  then have w2: "(if rr_next n \<noteq> NULL then h_write (rr_next n) (\<lambda>m. m\<lparr>rr_prev := rr_prev n\<rparr>) (h\<lparr>h_cells := ?c1\<rparr>)
      else Some (h\<lparr>h_cells := ?c1\<rparr>)) = Some (h\<lparr>h_cells := ?c2\<rparr>)"
    by (cases "rr_next n") (auto simp: h_write_def set_prev_def)
  let ?h = "h\<lparr>h_cells := ?c2(a := None)\<rparr>"
  have "first \<noteq> NULL" using l(1) by (cases xs) auto
  then have run: "rrlist_remove h (Some first) (Some a) = Some (rr_next n, ?h, Some ?first)"
    using n w1 w2 same nb(3) by (auto simp: rrlist_remove_def h_free_def)
  have "h_cells h b = None \<Longrightarrow> (?c2(a := None)) b = None" for b
    using cells by (auto simp: set_next_def set_prev_def split: option.splits)
  then have "heap_ok ?h" using l(3) by (simp add: heap_ok_def)
  then have "rr_chain ?h ?first (xs @ ys)"
    using seg_unlink [OF l(1,2) n] l(2) by (auto simp: rr_chain_def)
  moreover have "rr_ptr (the (?c2 b)) = rr_ptr (the (h_cells h b))" for b
    using cells by (auto simp: set_next_def set_prev_def split: option.splits)
  then have "rr_values ?h (xs @ ys) = rr_values h (xs @ ys)"
    using l(2) by (auto simp: rr_values_def)
  ultimately show ?thesis using run nb(2) by auto
qed

lemma find_loop_ok:
  "seg (h_cells h) pv p as l NULL \<Longrightarrow>
     find_loop h p ptr = Some (case filter (\<lambda>a. rr_ptr (the (h_cells h a)) = ptr) as of [] \<Rightarrow> NULL | a # _ \<Rightarrow> Some a)"
proof (induction as arbitrary: pv p)
  case Nil
  then show ?case by (subst find_loop.simps) simp
next
  case (Cons a as)
  then obtain n where n: "p = Some a" "h_cells h a = Some n" "seg (h_cells h) (Some a) (rr_next n) as l NULL" by auto
  then show ?case using Cons.IH [OF n(3)] by (subst find_loop.simps) simp
qed

text \<open>\<open>rrlist_add\<close> adds one node at the chosen end and keeps the list well linked in both
  directions: with memory at hand it returns a new node that holds the pointer, all other
  nodes keep their places and pointers.\<close>

theorem rrlist_add_keeps_list:
  assumes "rr_chain h first as" and "ptr \<noteq> 0" and "direction \<in> {LIST_TAIL, LIST_HEAD}"
  shows "\<exists>np h' first'. rrlist_add h (Some first) ptr direction [] = Some (Some np, h', Some first', []) \<and>
    np \<notin> set as \<and> rr_chain h' first' (rr_added direction np as) \<and>
    rr_values h' as = rr_values h as \<and> rr_values h' [np] = [ptr]"
  by (rule rrlist_add_ok [OF assms])

lemma rr_chain_empty: "rr_chain \<lparr>h_cells = Map.empty, h_next = 0\<rparr> NULL []"
  by (simp add: rr_chain_def heap_ok_def)

theorem rrlist_add_keeps_list_witness:
  "\<exists>np h' first'. rrlist_add \<lparr>h_cells = Map.empty, h_next = 0\<rparr> (Some NULL) 7 LIST_TAIL [] =
     Some (Some np, h', Some first', []) \<and> rr_chain h' first' [np] \<and> rr_values h' [np] = [7]"
  using rrlist_add_keeps_list [OF rr_chain_empty, of 7 LIST_TAIL] by (auto simp: rr_added_def)

text \<open>\<open>rrlist_remove\<close> of any node of the list, first, inner or last, unlinks it: the remaining
  nodes are a well linked list in the same order with the same pointers, the node is freed,
  and the result is the node that followed it. No dangling pointer is ever followed.\<close>

theorem rrlist_remove_keeps_list:
  assumes "rr_chain h first (xs @ a # ys)"
  shows "\<exists>h' first'. rrlist_remove h (Some first) (Some a) =
      Some (case ys of [] \<Rightarrow> NULL | y # _ \<Rightarrow> Some y, h', Some first') \<and>
    rr_chain h' first' (xs @ ys) \<and> h_cells h' a = None \<and> rr_values h' (xs @ ys) = rr_values h (xs @ ys)"
  by (rule rrlist_remove_ok [OF assms])

theorem rrlist_remove_keeps_list_witness:
  "\<exists>np h1 first1 h2 first2. rrlist_add \<lparr>h_cells = Map.empty, h_next = 0\<rparr> (Some NULL) 7 LIST_TAIL [] =
       Some (Some np, h1, Some first1, []) \<and>
     rrlist_remove h1 (Some first1) (Some np) = Some (NULL, h2, Some first2) \<and> rr_chain h2 first2 []"
proof -
  obtain np h1 first1 where
    add: "rrlist_add \<lparr>h_cells = Map.empty, h_next = 0\<rparr> (Some NULL) 7 LIST_TAIL [] = Some (Some np, h1, Some first1, [])"
      "rr_chain h1 first1 ([] @ np # [])"
    using rrlist_add_ok [OF rr_chain_empty, of 7 LIST_TAIL] by (auto simp: rr_added_def)
  from rrlist_remove_keeps_list [OF add(2)] add(1) show ?thesis by auto
qed

end
