(* ===== verification/Acl.thy ===== *)
theory Acl
  imports Prelude
begin

text \<open>
  \<open>acl.c\<close>: ordered access rules over network addresses, users and groups. The routine
  \<open>inet_pton\<close> of the C library is a parameter, one function per address family, which
  returns the bytes of the address or \<open>None\<close> when the text is not an address; the group
  membership callback is a field of the subject, as in the code.
\<close>

subsection \<open>Data\<close>

datatype acl_result = ACL_NO_MATCH | ACL_ALLOW | ACL_DENY | ACL_DEFER
datatype acl_principal = ACL_ANY | ACL_USER | ACL_GROUP

type_synonym pton = "string \<Rightarrow> u8 list option"

record acl_rule =
  ar_address :: "u8 list"
  ar_family :: nat
  ar_prefix :: nat
  ar_kind :: acl_principal
  ar_principal :: string
  ar_allow :: bool

text \<open>\<open>in_group\<close> is applied to its context already.\<close>

record acl_subject =
  as_address :: "u8 list"
  as_family :: nat
  as_user :: "string ptr"
  as_in_group :: "(string \<Rightarrow> bool) ptr"
  as_ignore_case :: bool

abbreviation ACL_PRINCIPAL_MAX :: nat where "ACL_PRINCIPAL_MAX \<equiv> 127"

subsection \<open>Parsing\<close>

definition mapped :: "u8 list \<Rightarrow> bool" where
  "mapped address \<longleftrightarrow> take 12 address = replicate 10 0 @ [0xff, 0xff]"

definition address_parse :: "pton \<Rightarrow> pton \<Rightarrow> string \<Rightarrow> (u8 list \<times> nat) option" where
  "address_parse pton4 pton6 ip =
     (case pton4 ip of
        Some bs \<Rightarrow> Some (bs @ replicate 12 0, 4)
      | None \<Rightarrow> (case pton6 ip of Some bs \<Rightarrow> Some (bs, 6) | None \<Rightarrow> None))"

text \<open>\<open>memmove(address, address + 12, 4)\<close>\<close>

definition unmap :: "u8 list \<Rightarrow> u8 list" where
  "unmap address = take 4 (drop 12 address) @ drop 4 address"

text \<open>The loop over the digits after the slash.\<close>

fun prefix_parse :: "nat \<Rightarrow> string \<Rightarrow> nat option" where
  "prefix_parse prefix [] = Some prefix"
| "prefix_parse prefix (c # cs) =
     (if \<not> isdigit c \<or> prefix > 128 then None else prefix_parse (prefix * 10 + digit_val c) cs)"

definition split_slash :: "string \<Rightarrow> string \<times> string ptr" where
  "split_slash s =
     (case dropWhile (\<lambda>c. c \<noteq> CHR ''/'') s of
        [] \<Rightarrow> (s, NULL)
      | _ # t \<Rightarrow> (takeWhile (\<lambda>c. c \<noteq> CHR ''/'') s, Some t))"

text \<open>\<open>None\<close> is the result \<open>false\<close>.\<close>

definition network_parse :: "pton \<Rightarrow> pton \<Rightarrow> acl_rule \<Rightarrow> string \<Rightarrow> acl_rule option" where
  "network_parse pton4 pton6 rule txt =
     (if txt = ''all'' \<or> txt = ''*'' then Some rule
      else if length txt \<ge> 64 then None
      else let (ip, slash) = split_slash txt
      in if slash = Some [] then None
         else (case (case slash of None \<Rightarrow> Some 0 | Some ds \<Rightarrow> prefix_parse 0 ds) of
             None \<Rightarrow> None
           | Some prefix \<Rightarrow>
               (case address_parse pton4 pton6 ip of
                  None \<Rightarrow> None
                | Some (address, family) \<Rightarrow>
                    (let bits = (if family = 4 then 32 else 128);
                         prefix = (if slash \<noteq> NULL then prefix else bits)
                     in if prefix > bits then None
                        else if family = 6 \<and> mapped address \<and> prefix \<ge> 96 then
                          Some (rule\<lparr>ar_address := unmap address, ar_family := 4, ar_prefix := prefix - 96\<rparr>)
                        else
                          Some (rule\<lparr>ar_address := address, ar_family := family, ar_prefix := prefix\<rparr>)))))"

text \<open>\<open>strrchr(copy, '@')\<close>: the text before and after the last at sign.\<close>

definition split_at :: "string \<Rightarrow> (string \<times> string) option" where
  "split_at s =
     (if CHR ''@'' \<in> set s
      then Some (rev (tl (dropWhile (\<lambda>c. c \<noteq> CHR ''@'') (rev s))),
                 rev (takeWhile (\<lambda>c. c \<noteq> CHR ''@'') (rev s)))
      else None)"

text \<open>
  The choice of principal and network. The result \<open>Inl ()\<close> is a selector that is refused;
  the address buffer is the one \<open>address_parse\<close> has written while trying.
\<close>

definition acl_classify ::
    "pton \<Rightarrow> pton \<Rightarrow> string \<Rightarrow> unit + (string ptr \<times> string ptr \<times> u8 list)" where
  "acl_classify pton4 pton6 copy =
     (let zero = replicate 16 0 in
      case split_at copy of
        Some (before, after) \<Rightarrow>
          if before \<noteq> [] then Inr (Some before, Some after, zero)
          else Inr (Some copy, NULL, zero)
      | None \<Rightarrow>
          if copy = ''all'' \<or> copy = ''*'' \<or> CHR ''/'' \<in> set copy \<or> CHR '':'' \<in> set copy
          then Inr (NULL, Some copy, zero)
          else (case address_parse pton4 pton6 copy of
              Some (address, _) \<Rightarrow> Inr (NULL, Some copy, address)
            | None \<Rightarrow>
                if (\<forall>c \<in> set copy. isdigit c \<or> c = CHR ''.'') \<and> CHR ''.'' \<in> set copy then Inl ()
                else Inr (Some copy, NULL, zero)))"

definition principal_parse :: "acl_rule \<Rightarrow> string ptr \<Rightarrow> acl_rule option" where
  "principal_parse parsed p =
     (case p of
        None \<Rightarrow> Some parsed
      | Some pr \<Rightarrow>
          (let group = (pr \<noteq> [] \<and> hd pr = CHR ''@'');
               name = (if group then tl pr else pr)
           in if name = [] \<or> length name > ACL_PRINCIPAL_MAX \<or> CHR ''@'' \<in> set name then None
              else Some (parsed\<lparr>ar_kind := (if group then ACL_GROUP else ACL_USER), ar_principal := name\<rparr>)))"

definition acl_rule_parse :: "pton \<Rightarrow> pton \<Rightarrow> bool \<Rightarrow> string ptr \<Rightarrow> acl_rule option" where
  "acl_rule_parse pton4 pton6 allow sp =
     (case sp of
        None \<Rightarrow> None
      | Some selector \<Rightarrow>
          if selector = [] \<or> length selector \<ge> 256 then None
          else if \<exists>c \<in> set selector. isspace c \<or> c = CHR ''='' then None
          else (case acl_classify pton4 pton6 selector of
              Inl _ \<Rightarrow> None
            | Inr (pr, network, address) \<Rightarrow>
                (case principal_parse \<lparr>ar_address = address, ar_family = 0, ar_prefix = 0,
                    ar_kind = ACL_ANY, ar_principal = [], ar_allow = allow\<rparr> pr of
                   None \<Rightarrow> None
                 | Some parsed \<Rightarrow>
                     (case network of
                        None \<Rightarrow> Some parsed
                      | Some t \<Rightarrow> network_parse pton4 pton6 parsed t))))"

definition acl_subject_init ::
    "pton \<Rightarrow> pton \<Rightarrow> string ptr \<Rightarrow> string ptr \<Rightarrow> (string \<Rightarrow> bool) ptr \<Rightarrow> acl_subject option" where
  "acl_subject_init pton4 pton6 ip user in_group =
     (let subject = \<lparr>as_address = replicate 16 0, as_family = 0, as_user = user, as_in_group = in_group,
                     as_ignore_case = False\<rparr>
      in case ip of
        None \<Rightarrow> Some subject
      | Some text \<Rightarrow>
          (case address_parse pton4 pton6 text of
             None \<Rightarrow> None
           | Some (address, family) \<Rightarrow>
               if family = 6 \<and> mapped address
               then Some (subject\<lparr>as_address := unmap address, as_family := 4\<rparr>)
               else Some (subject\<lparr>as_address := address, as_family := family\<rparr>)))"

subsection \<open>Matching\<close>

text \<open>The comparison of the first \<open>prefix\<close> bits.\<close>

definition prefix_differs :: "nat \<Rightarrow> u8 list \<Rightarrow> u8 list \<Rightarrow> bool" where
  "prefix_differs prefix a b \<longleftrightarrow>
     (let bytes = prefix div 8; bits = prefix mod 8
      in take bytes a \<noteq> take bytes b \<or>
         bits \<noteq> 0 \<and> (ucast (a ! bytes XOR b ! bytes) :: u32) AND push_bit (8 - bits) 0xff \<noteq> 0)"

definition acl_rule_match :: "acl_rule ptr \<Rightarrow> acl_subject ptr \<Rightarrow> acl_result" where
  "acl_rule_match rp sp =
     (case (rp, sp) of
        (Some rule, Some subject) \<Rightarrow>
          (let pending = (ar_family rule \<noteq> 0 \<and> as_family subject = 0)
           in if ar_family rule \<noteq> 0 \<and> as_family subject \<noteq> 0 \<and>
                (ar_family rule \<noteq> 4 \<and> ar_family rule \<noteq> 6
                 \<or> ar_prefix rule > (if ar_family rule = 4 then 32 else 128)
                 \<or> ar_family rule \<noteq> as_family subject
                 \<or> prefix_differs (ar_prefix rule) (ar_address rule) (as_address subject))
              then ACL_NO_MATCH
              else if ar_kind rule \<noteq> ACL_ANY \<and> as_user subject = NULL then ACL_DEFER
              else if ar_kind rule = ACL_USER \<and>
                \<not> (if as_ignore_case subject
                   then strcasecmp_eq (ar_principal rule) (the (as_user subject))
                   else ar_principal rule = the (as_user subject))
              then ACL_NO_MATCH
              else if ar_kind rule = ACL_GROUP \<and>
                \<not> (case as_in_group subject of None \<Rightarrow> False | Some f \<Rightarrow> f (ar_principal rule))
              then ACL_NO_MATCH
              else if pending then ACL_DEFER
              else if ar_allow rule then ACL_ALLOW else ACL_DENY)
      | _ \<Rightarrow> ACL_NO_MATCH)"

fun acl_loop :: "acl_rule list \<Rightarrow> acl_subject ptr \<Rightarrow> acl_result" where
  "acl_loop [] s = ACL_DENY"
| "acl_loop (r # rs) s =
     (let result = acl_rule_match (Some r) s
      in if result \<noteq> ACL_NO_MATCH then result else acl_loop rs s)"

definition acl_check :: "acl_rule list ptr \<Rightarrow> acl_subject ptr \<Rightarrow> acl_result" where
  "acl_check rules subject =
     (case (rules, subject) of
        (Some rs, Some _) \<Rightarrow> acl_loop rs subject
      | _ \<Rightarrow> ACL_DENY)"

subsection \<open>Prefixes are bit strings\<close>

text \<open>The bits of an address, most significant first.\<close>

definition byte_bits :: "u8 \<Rightarrow> bool list" where
  "byte_bits b = map (\<lambda>i. bit b (7 - i)) [0..<8]"

definition addr_bits :: "u8 list \<Rightarrow> bool list" where
  "addr_bits bs = concat (map byte_bits bs)"

lemma length_byte_bits [simp]: "length (byte_bits b) = 8"
  by (simp add: byte_bits_def)

lemma byte_bits_inject: "byte_bits a = byte_bits b \<longleftrightarrow> a = b"
proof
  assume "byte_bits a = byte_bits b"
  then have eq: "bit a (7 - i) = bit b (7 - i)" if "i < 8" for i
    using that by (auto simp: byte_bits_def map_eq_conv)
  show "a = b"
  proof (rule bit_word_eqI)
    fix n assume "n < LENGTH(8)"
    then have "7 - (7 - n) = n" "7 - n < 8" by auto
    with eq [of "7 - n"] show "bit a n = bit b n" by simp
  qed
qed simp

lemma word_zero_bits: "(w :: u32) = 0 \<longleftrightarrow> (\<forall>n < 32. \<not> bit w n)"
proof
  assume "\<forall>n < 32. \<not> bit w n"
  then show "w = 0" by (intro bit_word_eqI) simp
qed simp

lemma mask_bits:
  assumes "0 < k" and "k < 8"
  shows "(ucast (a XOR b :: u8) :: u32) AND push_bit (8 - k) 0xff = 0 \<longleftrightarrow> take k (byte_bits a) = take k (byte_bits b)"
proof -
  have mask: "bit (push_bit (8 - k) 0xff :: u32) n \<longleftrightarrow> 8 - k \<le> n \<and> n < 16 - k" if "n < 32" for n
  proof -
    have "(0xff :: u32) = mask 8" by (simp add: mask_eq_exp_minus_1)
    then show ?thesis using that assms by (simp only: bit_push_bit_iff bit_mask_iff) auto
  qed
  let ?w = "(ucast (a XOR b) :: u32) AND push_bit (8 - k) 0xff"
  have small: "bit (a XOR b) n \<Longrightarrow> n < 8" for n
    using bit_imp_le_length [of "a XOR b" n] by simp
  have bits: "bit ?w n \<longleftrightarrow> bit (a XOR b) n \<and> 8 - k \<le> n" if "n < 32" for n
    using mask [OF that] that small [of n] assms by (auto simp: bit_and_iff bit_ucast_iff)
  have "?w = 0 \<longleftrightarrow> (\<forall>n < 32. \<not> bit ?w n)"
    by (rule word_zero_bits)
  also have "\<dots> \<longleftrightarrow> (\<forall>i < k. bit a (7 - i) = bit b (7 - i))"
  proof (rule iffI; intro allI impI)
    fix i assume *: "\<forall>n < 32. \<not> bit ?w n" "i < k"
    moreover have "7 - i < 32" "8 - k \<le> 7 - i" using *(2) assms by auto
    ultimately have "\<not> bit (a XOR b) (7 - i)" using bits [of "7 - i"] by blast
    then show "bit a (7 - i) = bit b (7 - i)" by (simp add: bit_xor_iff)
  next
    fix n assume *: "\<forall>i < k. bit a (7 - i) = bit b (7 - i)" "n < (32 :: nat)"
    show "\<not> bit ?w n"
    proof
      assume "bit ?w n"
      with bits [OF *(2)] small have n: "bit (a XOR b) n" "8 - k \<le> n" "n < 8" by auto
      then have "7 - n < k" "7 - (7 - n) = n" by auto
      with * n(1) show False by (metis bit_xor_iff)
    qed
  qed
  also have "\<dots> \<longleftrightarrow> take k (byte_bits a) = take k (byte_bits b)"
    using assms by (auto simp: byte_bits_def take_map)
  finally show ?thesis .
qed

lemma take_addr_bits:
  "p = 8 * q + r \<Longrightarrow> r < 8 \<Longrightarrow> q < length bs \<or> r = 0 \<and> q \<le> length bs \<Longrightarrow>
     take p (addr_bits bs) = addr_bits (take q bs) @ take r (if r = 0 then [] else byte_bits (bs ! q))"
proof (induction q arbitrary: p bs)
  case 0
  then show ?case by (cases bs) (auto simp: addr_bits_def)
next
  case (Suc q)
  then obtain b bs' where bs: "bs = b # bs'" by (cases bs) auto
  have "take (8 * q + r) (addr_bits bs') =
      addr_bits (take q bs') @ take r (if r = 0 then [] else byte_bits (bs' ! q))"
    using Suc.prems bs by (intro Suc.IH) auto
  then show ?case using Suc.prems(1) bs by (simp add: addr_bits_def)
qed

lemma addr_bits_inject: "length a = length b \<Longrightarrow> addr_bits a = addr_bits b \<longleftrightarrow> a = b"
proof (induction a b rule: list_induct2)
  case (Cons x xs y ys)
  then show ?case by (auto simp: addr_bits_def byte_bits_inject)
qed simp

lemma prefix_differs_bits:
  assumes "length a = 16" and "length b = 16" and "p \<le> 128"
  shows "prefix_differs p a b \<longleftrightarrow> take p (addr_bits a) \<noteq> take p (addr_bits b)"
proof -
  let ?q = "p div 8" and ?r = "p mod 8"
  have "?q < 16 \<or> ?r = 0 \<and> ?q \<le> 16" using assms(3) by presburger
  then have q: "p = 8 * ?q + ?r" "?r < 8" "?q < 16 \<or> ?r = 0 \<and> ?q \<le> 16" by simp_all
  have bits: "take p (addr_bits c) = addr_bits (take ?q c) @ take ?r (if ?r = 0 then [] else byte_bits (c ! ?q))"
    if "length c = 16" for c
    using take_addr_bits [of p ?q ?r c] q that by simp
  have len: "length (addr_bits (take ?q a)) = length (addr_bits (take ?q b))"
    using assms(1,2) by (simp add: addr_bits_def length_concat sum_list_triv comp_def)
  have "addr_bits (take ?q a) = addr_bits (take ?q b) \<longleftrightarrow> take ?q a = take ?q b"
    using assms(1,2) by (intro addr_bits_inject) simp
  with len show ?thesis
    using mask_bits [of ?r "a ! ?q" "b ! ?q"] q(2)
    by (auto simp: prefix_differs_def bits [OF assms(1)] bits [OF assms(2)])
qed

subsection \<open>Decisions\<close>

text \<open>
  When a rule applies: the first \<open>prefix\<close> bits of the two addresses agree, and the principal
  is the subject's user or one of its groups.
\<close>

definition network_applies :: "acl_rule \<Rightarrow> acl_subject \<Rightarrow> bool" where
  "network_applies rule subject \<longleftrightarrow>
     ar_family rule = 0 \<or>
     ar_family rule = as_family subject \<and>
     take (ar_prefix rule) (addr_bits (ar_address rule)) = take (ar_prefix rule) (addr_bits (as_address subject))"

definition principal_applies :: "acl_rule \<Rightarrow> acl_subject \<Rightarrow> bool" where
  "principal_applies rule subject \<longleftrightarrow>
     (case ar_kind rule of
        ACL_ANY \<Rightarrow> True
      | ACL_USER \<Rightarrow> \<exists>u. as_user subject = Some u \<and>
          (if as_ignore_case subject then strcasecmp_eq (ar_principal rule) u else ar_principal rule = u)
      | ACL_GROUP \<Rightarrow> as_user subject \<noteq> None \<and> (\<exists>f. as_in_group subject = Some f \<and> f (ar_principal rule)))"

definition rule_ok :: "acl_rule \<Rightarrow> bool" where
  "rule_ok r \<longleftrightarrow> length (ar_address r) = 16 \<and> ar_family r \<in> {0, 4, 6} \<and>
     (ar_family r = 4 \<longrightarrow> ar_prefix r \<le> 32) \<and> (ar_family r = 6 \<longrightarrow> ar_prefix r \<le> 128) \<and>
     (ar_kind r \<noteq> ACL_ANY \<longrightarrow> ar_principal r \<noteq> []) \<and> length (ar_principal r) \<le> ACL_PRINCIPAL_MAX \<and>
     CHR ''@'' \<notin> set (ar_principal r)"

definition subject_ok :: "acl_subject \<Rightarrow> bool" where
  "subject_ok s \<longleftrightarrow> length (as_address s) = 16 \<and> as_family s \<in> {0, 4, 6}"

text \<open>The network part of the match, and the part that concerns the principal.\<close>

definition network_refuses :: "acl_rule \<Rightarrow> acl_subject \<Rightarrow> bool" where
  "network_refuses rule subject \<longleftrightarrow>
     ar_family rule \<noteq> 0 \<and> as_family subject \<noteq> 0 \<and>
     (ar_family rule \<noteq> 4 \<and> ar_family rule \<noteq> 6
      \<or> ar_prefix rule > (if ar_family rule = 4 then 32 else 128)
      \<or> ar_family rule \<noteq> as_family subject
      \<or> prefix_differs (ar_prefix rule) (ar_address rule) (as_address subject))"

lemma acl_rule_match_alt:
  "acl_rule_match (Some r) (Some s) =
     (if network_refuses r s then ACL_NO_MATCH
      else if ar_kind r \<noteq> ACL_ANY \<and> as_user s = NULL then ACL_DEFER
      else if \<not> principal_applies r s then ACL_NO_MATCH
      else if ar_family r \<noteq> 0 \<and> as_family s = 0 then ACL_DEFER
      else if ar_allow r then ACL_ALLOW else ACL_DENY)"
  unfolding acl_rule_match_def prod.case option.case Let_def network_refuses_def [symmetric]
  by (cases "ar_kind r"; cases "as_user s"; cases "as_in_group s") (simp_all add: principal_applies_def)

lemma network_refuses_spec:
  assumes "rule_ok r" and "subject_ok s" and "as_family s \<noteq> 0 \<or> ar_family r = 0"
  shows "network_refuses r s \<longleftrightarrow> \<not> network_applies r s"
proof (cases "ar_family r = 0")
  case True
  then show ?thesis by (simp add: network_refuses_def network_applies_def)
next
  case False
  have len: "length (ar_address r) = 16" "length (as_address s) = 16" "ar_prefix r \<le> 128"
    using False assms(1,2) by (auto simp: rule_ok_def subject_ok_def)
  from prefix_differs_bits [OF this] False assms show ?thesis
    by (auto simp: network_refuses_def network_applies_def rule_ok_def)
qed

lemma acl_rule_match_decides:
  assumes "rule_ok r" and "subject_ok s"
    and "as_family s \<noteq> 0 \<or> ar_family r = 0" and "as_user s \<noteq> None \<or> ar_kind r = ACL_ANY"
  shows "acl_rule_match (Some r) (Some s) =
    (if network_applies r s \<and> principal_applies r s then if ar_allow r then ACL_ALLOW else ACL_DENY
     else ACL_NO_MATCH)"
  using network_refuses_spec [OF assms(1-3)] assms(3,4) by (auto simp: acl_rule_match_alt)

text \<open>C10: The decision for a subject whose address and user are known: the first rule that applies
  decides, and without one access is denied. A rule applies when the first \<open>prefix\<close> bits of
  the addresses, of the same family, are equal and the principal is the user or a group.\<close>

theorem acl_check_first_applicable:
  assumes "\<forall>r \<in> set rs. rule_ok r" and "subject_ok s" and "as_family s \<noteq> 0" and "as_user s = Some u"
  shows "acl_check (Some rs) (Some s) =
    (case filter (\<lambda>r. network_applies r s \<and> principal_applies r s) rs of
       [] \<Rightarrow> ACL_DENY | r # _ \<Rightarrow> if ar_allow r then ACL_ALLOW else ACL_DENY)"
proof -
  have "acl_loop rs (Some s) =
      (case filter (\<lambda>r. network_applies r s \<and> principal_applies r s) rs of
         [] \<Rightarrow> ACL_DENY | r # _ \<Rightarrow> if ar_allow r then ACL_ALLOW else ACL_DENY)"
    using assms(1)
  proof (induction rs)
    case (Cons r rs)
    then show ?case using acl_rule_match_decides [of r s] assms(2-4) by auto
  qed simp
  then show ?thesis by (simp add: acl_check_def)
qed

text \<open>Examples: a rule for the network \<open>10.0.0.0/8\<close> and a subject in it.\<close>

definition net10 :: acl_rule where
  "net10 = \<lparr>ar_address = 10 # replicate 15 0, ar_family = 4, ar_prefix = 8, ar_kind = ACL_ANY,
     ar_principal = [], ar_allow = True\<rparr>"

definition joe :: acl_subject where
  "joe = \<lparr>as_address = [10, 1, 2, 3] @ replicate 12 0, as_family = 4, as_user = Some ''joe'',
     as_in_group = NULL, as_ignore_case = False\<rparr>"

theorem acl_check_first_applicable_witness:
  "rule_ok net10 \<and> acl_check (Some [net10]) (Some joe) = ACL_ALLOW"
proof -
  have ok: "\<forall>r \<in> set [net10]. rule_ok r" "subject_ok joe" "as_family joe \<noteq> 0" "as_user joe = Some ''joe''"
    by (simp_all add: rule_ok_def net10_def subject_ok_def joe_def)
  moreover have "network_applies net10 joe" "principal_applies net10 joe" "ar_allow net10"
    by (simp_all add: network_applies_def principal_applies_def net10_def joe_def addr_bits_def)
  ultimately show ?thesis using acl_check_first_applicable [OF ok] by simp
qed

text \<open>A subject about which more is known.\<close>

definition learns :: "acl_subject \<Rightarrow> acl_subject \<Rightarrow> bool" where
  "learns s s' \<longleftrightarrow>
     (as_family s \<noteq> 0 \<longrightarrow> as_family s' = as_family s \<and> as_address s' = as_address s) \<and>
     (as_user s \<noteq> None \<longrightarrow> as_user s' = as_user s) \<and>
     as_in_group s' = as_in_group s \<and> as_ignore_case s' = as_ignore_case s"

lemma acl_rule_match_stable:
  assumes "learns s s'" and "acl_rule_match (Some r) (Some s) \<noteq> ACL_DEFER"
  shows "acl_rule_match (Some r) (Some s') = acl_rule_match (Some r) (Some s)"
proof -
  have user: "as_user s' = as_user s \<and> principal_applies r s' = principal_applies r s"
    if "as_user s \<noteq> None \<or> ar_kind r = ACL_ANY" "as_user s \<noteq> None"
    using that assms(1) by (auto simp: learns_def principal_applies_def split: acl_principal.splits)
  have any: "ar_kind r = ACL_ANY \<Longrightarrow> principal_applies r s' \<and> principal_applies r s"
    by (simp add: principal_applies_def)
  have net: "as_family s \<noteq> 0 \<Longrightarrow> network_refuses r s' = network_refuses r s \<and> as_family s' = as_family s"
      "as_family s = 0 \<Longrightarrow> \<not> network_refuses r s"
    using assms(1) by (auto simp: learns_def network_refuses_def)
  have fam: "ar_family r = 0 \<Longrightarrow> \<not> network_refuses r s'" by (simp add: network_refuses_def)
  show ?thesis
    using assms(2) user any net fam
    by (cases "as_family s = 0"; cases "as_user s"; cases "ar_kind r = ACL_ANY") (auto simp: acl_rule_match_alt split: if_splits)
qed

text \<open>C11: A decision is final: when \<open>acl_check\<close> allows or denies a subject whose address or user is
  still unknown, it gives the same answer once they become known, whatever they turn out to
  be; only \<open>ACL_DEFER\<close> has to be checked again.\<close>

theorem acl_decision_stable:
  assumes "learns s s'" and "acl_check (Some rs) (Some s) \<noteq> ACL_DEFER"
  shows "acl_check (Some rs) (Some s') = acl_check (Some rs) (Some s)"
proof -
  have "acl_loop rs (Some s) \<noteq> ACL_DEFER \<Longrightarrow> acl_loop rs (Some s') = acl_loop rs (Some s)"
  proof (induction rs)
    case (Cons r rs)
    then show ?case using acl_rule_match_stable [OF assms(1), of r] by (auto simp: Let_def split: if_splits)
  qed simp
  with assms(2) show ?thesis by (simp add: acl_check_def)
qed

theorem acl_decision_stable_witness:
  "acl_check (Some [net10]) (Some (joe\<lparr>as_user := NULL\<rparr>)) = ACL_ALLOW \<and>
   acl_check (Some [net10]) (Some joe) = ACL_ALLOW"
proof -
  have "network_refuses net10 (joe\<lparr>as_user := NULL\<rparr>) = False"
    by (simp add: network_refuses_def net10_def joe_def prefix_differs_def)
  then have "acl_check (Some [net10]) (Some (joe\<lparr>as_user := NULL\<rparr>)) = ACL_ALLOW"
    by (simp add: acl_check_def acl_rule_match_alt principal_applies_def) (simp add: net10_def joe_def)
  moreover have "learns (joe\<lparr>as_user := NULL\<rparr>) joe" by (simp add: learns_def)
  ultimately show ?thesis using acl_decision_stable [of "joe\<lparr>as_user := NULL\<rparr>" joe "[net10]"] by simp
qed

subsection \<open>What the parser accepts\<close>

text \<open>What the code relies on of \<open>inet_pton\<close>: the lengths of the addresses it writes.\<close>

definition pton_ok :: "pton \<Rightarrow> pton \<Rightarrow> bool" where
  "pton_ok pton4 pton6 \<longleftrightarrow>
     (\<forall>s bs. pton4 s = Some bs \<longrightarrow> length bs = 4) \<and> (\<forall>s bs. pton6 s = Some bs \<longrightarrow> length bs = 16)"

lemma address_parse_ok:
  "pton_ok pton4 pton6 \<Longrightarrow> address_parse pton4 pton6 ip = Some (bs, f) \<Longrightarrow> length bs = 16 \<and> f \<in> {4, 6}"
  by (auto simp: pton_ok_def address_parse_def split: option.splits)

lemma mapped_iff:
  assumes "length address = 16"
  shows "mapped address \<longleftrightarrow> take 10 address = replicate 10 0 \<and> take 2 (drop 10 address) = [0xff, 0xff]"
proof -
  have "take 12 address = take 10 address @ take 2 (drop 10 address)" using take_add [of 10 2 address] by simp
  then show ?thesis using assms by (simp add: mapped_def)
qed

lemma network_parse_ok:
  assumes "pton_ok pton4 pton6" and "network_parse pton4 pton6 rule txt = Some r" and "rule_ok rule"
    and "ar_family rule = 0"
  shows "rule_ok r \<and> ar_allow r = ar_allow rule \<and>
    (ar_family r = 6 \<longrightarrow> \<not> (mapped (ar_address r) \<and> 96 \<le> ar_prefix r))"
  using assms(2-4)
  by (auto simp: network_parse_def Let_def rule_ok_def unmap_def dest: address_parse_ok [OF assms(1)]
      split: if_splits option.splits prod.splits)

lemma principal_parse_ok:
  "principal_parse rule p = Some r \<Longrightarrow> rule_ok rule \<Longrightarrow>
     rule_ok r \<and> ar_allow r = ar_allow rule \<and> ar_family r = ar_family rule"
  by (auto simp: principal_parse_def Let_def rule_ok_def split: if_splits option.splits)

text \<open>The network part of a selector: behind the last at sign, or the whole selector when it names no
  principal.\<close>

definition network_of :: "pton \<Rightarrow> pton \<Rightarrow> string \<Rightarrow> string ptr" where
  "network_of pton4 pton6 sel = (case acl_classify pton4 pton6 sel of Inl _ \<Rightarrow> NULL | Inr (_, net, _) \<Rightarrow> net)"

text \<open>What a rule has to hold for a network that is not everything: the address before the slash, with the
  number behind it as the prefix, or all bits. A network inside \<open>::ffff:0:0/96\<close> becomes the IPv4 network
  with the last four bytes as its address.\<close>

definition holds_network :: "pton \<Rightarrow> pton \<Rightarrow> string \<Rightarrow> acl_rule \<Rightarrow> bool" where
  "holds_network pton4 pton6 txt r \<longleftrightarrow>
     (\<exists>ip slash address family prefix. split_slash txt = (ip, slash) \<and>
        address_parse pton4 pton6 ip = Some (address, family) \<and>
        (case slash of None \<Rightarrow> prefix = (if family = 4 then 32 else 128) | Some ds \<Rightarrow> prefix_parse 0 ds = Some prefix) \<and>
        (if family = 6 \<and> take 10 address = replicate 10 0 \<and> take 2 (drop 10 address) = [0xff, 0xff] \<and> 96 \<le> prefix
         then ar_family r = 4 \<and> take 4 (ar_address r) = drop 12 address \<and> ar_prefix r = prefix - 96
         else ar_family r = family \<and> ar_address r = address \<and> ar_prefix r = prefix))"

lemma network_parse_holds:
  assumes "pton_ok pton4 pton6" and "network_parse pton4 pton6 rule txt = Some r" and "txt \<noteq> ''all''" and "txt \<noteq> ''*''"
  shows "holds_network pton4 pton6 txt r"
proof -
  obtain ip slash where s: "split_slash txt = (ip, slash)" by (cases "split_slash txt")
  obtain p0 where p0: "(case slash of None \<Rightarrow> Some 0 | Some ds \<Rightarrow> prefix_parse 0 ds) = Some p0"
    using assms(2-4) s by (auto simp: network_parse_def split: if_splits option.splits)
  obtain address family where a: "address_parse pton4 pton6 ip = Some (address, family)"
    using assms(2-4) s p0 by (auto simp: network_parse_def split: if_splits option.splits)
  have len: "length address = 16" using address_parse_ok [OF assms(1) a] by simp
  have m: "mapped address \<longleftrightarrow> take 10 address = replicate 10 0 \<and> take 2 (drop 10 address) = [0xff, 0xff]"
    using len by (rule mapped_iff)
  have u: "take 4 (unmap address) = drop 12 address" using len by (simp add: unmap_def)
  let ?prefix = "if slash \<noteq> NULL then p0 else if family = 4 then 32 else 128"
  have "r = (if family = 6 \<and> mapped address \<and> ?prefix \<ge> 96
      then rule\<lparr>ar_address := unmap address, ar_family := 4, ar_prefix := ?prefix - 96\<rparr>
      else rule\<lparr>ar_address := address, ar_family := family, ar_prefix := ?prefix\<rparr>)"
    using assms(2-4) s p0 a by (auto simp: network_parse_def Let_def split: if_splits)
  moreover have "case slash of None \<Rightarrow> ?prefix = (if family = 4 then 32 else 128) | Some ds \<Rightarrow> prefix_parse 0 ds = Some ?prefix"
    using p0 by (cases slash) simp_all
  ultimately show ?thesis unfolding holds_network_def using s a u m
    by (intro exI [of _ ip] exI [of _ slash] exI [of _ address] exI [of _ family] exI [of _ ?prefix]) auto
qed

text \<open>C38: A rule that \<open>acl_rule_parse\<close> accepts is well formed: its prefix fits the address family,
  its principal fits the buffer, is not empty where one is required and contains no at sign,
  the action is the one asked for; and, when the selector has a network other than all, the rule holds
  it: family, address and prefix are those of the text, and a network of IPv4-mapped addresses has been
  turned into the IPv4 network, with the last four bytes as its address and 96 bits less in its
  prefix.\<close>

theorem acl_rule_parse_well_formed:
  assumes "pton_ok pton4 pton6" and "acl_rule_parse pton4 pton6 allow (Some sel) = Some r"
  shows "rule_ok r \<and> ar_allow r = allow \<and>
    (\<forall>txt. network_of pton4 pton6 sel = Some txt \<and> txt \<noteq> ''all'' \<and> txt \<noteq> ''*'' \<longrightarrow> holds_network pton4 pton6 txt r)"
proof -
  obtain pr net bs where cl: "acl_classify pton4 pton6 sel = Inr (pr, net, bs)"
    using assms(2) by (auto simp: acl_rule_parse_def split: if_splits sum.splits)
  have bs: "length bs = 16"
    using cl address_parse_ok [OF assms(1)]
    by (auto simp: acl_classify_def Let_def split: if_splits option.splits prod.splits)
  let ?rule = "\<lparr>ar_address = bs, ar_family = 0, ar_prefix = 0, ar_kind = ACL_ANY, ar_principal = [], ar_allow = allow\<rparr>"
  obtain p where p: "principal_parse ?rule pr = Some p"
      "(case net of None \<Rightarrow> Some p | Some t \<Rightarrow> network_parse pton4 pton6 p t) = Some r"
    using assms(2) cl by (auto simp: acl_rule_parse_def split: if_splits option.splits)
  have ok: "rule_ok ?rule" using bs by (simp add: rule_ok_def)
  then have "rule_ok p" "ar_allow p = allow" "ar_family p = 0"
    using principal_parse_ok [OF p(1)] by simp_all
  then have "rule_ok r \<and> ar_allow r = allow" using p(2) network_parse_ok [OF assms(1)] by (cases net) auto
  moreover have "holds_network pton4 pton6 s r" if "net = Some s" "s \<noteq> ''all''" "s \<noteq> ''*''" for s
    using p(2) that network_parse_holds [OF assms(1)] by simp
  ultimately show ?thesis by (simp add: network_of_def cl)
qed

theorem acl_rule_parse_well_formed_witness:
  "\<exists>r. acl_rule_parse (\<lambda>s. NULL) (\<lambda>s. if s = ''::ffff:10.0.0.0'' then Some (replicate 10 0 @ [0xff, 0xff, 10, 0, 0, 0]) else NULL) True
       (Some ''::ffff:10.0.0.0/104'') = Some r \<and> rule_ok r \<and> ar_family r = 4 \<and> ar_prefix r = 8 \<and> take 4 (ar_address r) = [10, 0, 0, 0]"
proof -
  let ?ip = "''::ffff:10.0.0.0''" and ?sel = "''::ffff:10.0.0.0/104''"
  let ?p4 = "\<lambda>s :: string. NULL :: u8 list ptr"
  let ?p6 = "\<lambda>s. if s = ?ip then Some (replicate 10 0 @ [0xff, 0xff, 10, 0, 0, 0]) else (NULL :: u8 list ptr)"
  have ok: "pton_ok ?p4 ?p6" by (simp add: pton_ok_def)
  have s: "split_slash ?sel = (?ip, Some ''104'')" by (simp add: split_slash_def)
  have n: "network_of ?p4 ?p6 ?sel = Some ?sel" by (simp add: network_of_def acl_classify_def split_at_def)
  have pre: "prefix_parse 0 ''104'' = Some 104" by (simp add: isdigit_def digit_val_def code_def)
  have a: "address_parse ?p4 ?p6 ?ip = Some (replicate 10 0 @ [0xff, 0xff, 10, 0, 0, 0], 6)" by (simp add: address_parse_def)
  have "\<exists>r. acl_rule_parse ?p4 ?p6 True (Some ?sel) = Some r"
    by (simp add: acl_rule_parse_def acl_classify_def split_at_def principal_parse_def network_parse_def
        split_slash_def address_parse_def mapped_def isspace_def isdigit_def digit_val_def code_def)
  then obtain r where r: "acl_rule_parse ?p4 ?p6 True (Some ?sel) = Some r" by blast
  have h: "rule_ok r" "holds_network ?p4 ?p6 ?sel r" using acl_rule_parse_well_formed [OF ok r] n by simp_all
  have z: "take 10 (replicate 10 0 @ [0xff, 0xff, 10, 0, 0, 0 :: u8]) = replicate 10 0 \<and>
      take 2 (drop 10 (replicate 10 0 @ [0xff, 0xff, 10, 0, 0, 0 :: u8])) = [0xff, 0xff]" by simp
  have "ar_family r = 4 \<and> take 4 (ar_address r) = drop 12 (replicate 10 0 @ [0xff, 0xff, 10, 0, 0, 0]) \<and> ar_prefix r = 8"
    using h(2) unfolding holds_network_def s prod.inject
    by (elim exE conjE) (use a pre z in \<open>simp only: prod.inject option.inject option.case simp_thms if_True\<close>; force)
  then show ?thesis using r h(1) by (intro exI [of _ r]) simp
qed

end
