(* ===== verification/Util_Time.thy ===== *)
theory Util_Time
  imports C_Numbers "HOL-Library.Signed_Division"
begin

text \<open>
  Durations (\<open>util.time.c\<close>): \<open>dhms2time_t\<close> reads texts such as \<open>1d12h\<close>, \<open>time_t2dhms\<close>
  writes them, \<open>timespec_diff_ms\<close> subtracts time stamps. The multiplications of
  \<open>dhms2time_t\<close> are in \<open>int\<close>; a product outside its range is undefined behaviour, the
  result \<open>None\<close> here.
\<close>

subsection \<open>Reading\<close>

text \<open>The unit's factor; an unknown unit adds nothing.\<close>

definition unit_secs :: "char \<Rightarrow> int" where
  "unit_secs unit =
     (if unit = CHR ''y'' then 365 * 24 * 60 * 60
      else if unit = CHR ''w'' then 7 * 24 * 60 * 60
      else if unit = CHR ''d'' then 24 * 60 * 60
      else if unit = CHR ''h'' then 60 * 60
      else if unit = CHR ''m'' then 60
      else if unit = CHR ''s'' then 1
      else 0)"

definition int_mult :: "int \<Rightarrow> int \<Rightarrow> int comp" where
  "int_mult v m = (if INT_MIN \<le> v * m \<and> v * m \<le> INT_MAX then Some (v * m) else None)"

definition time_add :: "int \<Rightarrow> int \<Rightarrow> int comp" where
  "time_add s v = (if LLONG_MIN \<le> s + v \<and> s + v \<le> LLONG_MAX then Some (s + v) else None)"

lemma strtoll_length: "strtoll s = (v, ep, er) \<Longrightarrow> length ep \<le> length s"
proof -
  have "length (snd (scan_sign u)) \<le> length u" for u by (simp add: scan_sign_def)
  then have "length (dropWhile isdigit (snd (scan_sign (dropWhile isspace s)))) \<le> length s"
    by (meson length_dropWhile_le order_trans)
  then show "strtoll s = (v, ep, er) \<Longrightarrow> length ep \<le> length s"
    by (auto simp: strtoll_def Let_def split: prod.splits if_splits)
qed

lemma strtoll_advances: "strtoll s = (v, ep, er) \<Longrightarrow> ep \<noteq> [] \<Longrightarrow> length (tl ep) < length s"
  using strtoll_length [of s v ep er] by (cases ep) simp_all

text \<open>
  The loop; the conversion of the result of \<open>strtol\<close> to \<open>int\<close> keeps the low 32 bits.
\<close>

function dhms_loop :: "string \<Rightarrow> int \<Rightarrow> int comp" where
  "dhms_loop ptr seconds =
     (if ptr = [] then Some seconds
      else (case strtoll ptr of
          (v, p, _) \<Rightarrow>
            (if p = [] then Some seconds
             else do {
               x \<leftarrow> int_mult (sint (word_of_int v :: u32)) (unit_secs (hd p));
               seconds \<leftarrow> time_add seconds x;
               dhms_loop (tl p) seconds
             })))"
  by pat_completeness auto
termination
  by (relation "measure (\<lambda>(ptr, _). length ptr)") (auto dest: strtoll_advances [OF sym])

declare dhms_loop.simps [simp del]

text \<open>\<open>Inl ENOMEM\<close> is the call of \<open>exit\<close> when the copy cannot be allocated.\<close>

definition dhms2time_t :: "string ptr \<Rightarrow> alloc \<Rightarrow> ((int + int) \<times> alloc) comp" where
  "dhms2time_t sp a =
     (case sp of
        None \<Rightarrow> Some (Inr 0, a)
      | Some str \<Rightarrow>
          (let (ok, a) = malloc_ok a
           in if \<not> ok then Some (Inl 12, a)
              else do { s \<leftarrow> dhms_loop str 0; Some (Inr s, a) }))"

subsection \<open>Writing\<close>

fun dhms_parts :: "char list \<Rightarrow> int \<Rightarrow> string" where
  "dhms_parts [] seconds = []"
| "dhms_parts (u # us) seconds =
     (if seconds \<ge> unit_secs u
      then show_int (seconds div unit_secs u) @ [u] @ dhms_parts us (seconds mod unit_secs u)
      else dhms_parts us seconds)"

definition time_t2dhms :: "int \<Rightarrow> alloc \<Rightarrow> string ptr \<times> alloc" where
  "time_t2dhms seconds a =
     (let t = (if seconds \<le> 0 then ''0s'' else dhms_parts ''ywdhms'' seconds);
          (ok, a) = malloc_ok a
      in (if ok then Some t else NULL, a))"

definition timespec_diff_ms :: "int \<times> int \<Rightarrow> int \<times> int \<Rightarrow> int" where
  "timespec_diff_ms a b = (fst a - fst b) * 1000 + (snd a - snd b) sdiv 1000000"

subsection \<open>Round trip\<close>

lemma dhms_step:
  assumes "0 \<le> v" and "v * unit_secs u \<le> INT_MAX" and "v \<le> INT_MAX" and "\<not> isdigit u" and "0 \<le> unit_secs u"
    and "0 \<le> s" and "s + v * unit_secs u \<le> LLONG_MAX"
  shows "dhms_loop (show_int v @ u # rest) s = dhms_loop rest (s + v * unit_secs u)"
proof -
  have "strtoll (show_int v @ u # rest) = (v, u # rest, False)"
    using assms(1,3,4) by (intro strtoll_show_int) auto
  moreover have "sint (word_of_int v :: u32) = v"
    using assms(1,3) by (simp add: signed_of_int signed_take_bit_int_eq_self)
  moreover have "show_int v \<noteq> []" by (simp add: show_int_def)
  moreover have "0 \<le> v * unit_secs u" using assms(1,5) by simp
  then have "INT_MIN \<le> v * unit_secs u" "LLONG_MIN \<le> s + v * unit_secs u" using assms(6) by linarith+
  ultimately show ?thesis
    using assms by (simp add: dhms_loop.simps [of "show_int v @ u # rest"] int_mult_def time_add_def)
qed

text \<open>The units in use, and a duration whose leading product fits an \<open>int\<close>.\<close>

definition dhms_ok :: "char list \<Rightarrow> int \<Rightarrow> bool" where
  "dhms_ok us t \<longleftrightarrow> 0 \<le> t \<and>
     (t \<le> INT_MAX \<or> us \<noteq> [] \<and> t div unit_secs (hd us) * unit_secs (hd us) \<le> INT_MAX) \<and>
     (\<forall>u \<in> set us. 0 < unit_secs u \<and> unit_secs u \<le> INT_MAX \<and> \<not> isdigit u) \<and>
     (if us = [] then t = 0 else unit_secs (last us) = 1)"

lemma dhms_ok_next:
  assumes "dhms_ok (u # us) t"
  shows "dhms_ok us (t mod unit_secs u)" and "t < unit_secs u \<Longrightarrow> dhms_ok us t"
proof -
  have u: "0 < unit_secs u" "unit_secs u \<le> INT_MAX" "us = [] \<Longrightarrow> unit_secs u = 1" "0 \<le> t"
    using assms by (auto simp: dhms_ok_def split: if_splits)
  have "0 \<le> t mod unit_secs u" "t mod unit_secs u < unit_secs u" using u(1) by simp_all
  then have "t mod unit_secs u \<le> INT_MAX" using u(2) by linarith
  with assms u show "dhms_ok us (t mod unit_secs u)" by (auto simp: dhms_ok_def split: if_splits)
  show "dhms_ok us t" if "t < unit_secs u"
    using that assms u by (auto simp: dhms_ok_def split: if_splits)
qed

lemma dhms_parts_read:
  "dhms_ok us t \<Longrightarrow> 0 \<le> s \<Longrightarrow> s + t \<le> LLONG_MAX \<Longrightarrow> dhms_loop (dhms_parts us t @ rest) s = dhms_loop rest (s + t)"
proof (induction us arbitrary: t s)
  case (Cons u us)
  let ?m = "unit_secs u" and ?q = "t div unit_secs u"
  note nxt = dhms_ok_next [OF Cons.prems(1)]
  have u: "0 < ?m" "\<not> isdigit u" "0 \<le> t" using Cons.prems(1) by (auto simp: dhms_ok_def)
  show ?case
  proof (cases "?m \<le> t")
    case False
    then show ?thesis using Cons.IH [OF nxt(2)] Cons.prems(2,3) by simp
  next
    case True
    have split: "?q * ?m + t mod ?m = t" by simp
    have "0 \<le> ?q" "0 \<le> t mod ?m" using u by (simp_all add: pos_imp_zdiv_nonneg_iff)
    with split have q: "0 \<le> ?q" "0 \<le> t mod ?m" "?q * ?m \<le> t" by linarith+
    have prod: "?q * ?m \<le> INT_MAX" using Cons.prems(1) q(3) by (auto simp: dhms_ok_def)
    have "?q \<le> ?q * ?m" using q(1) u(1) by (simp add: mult_le_cancel_left1)
    with prod have "?q \<le> INT_MAX" by linarith
    with q prod u Cons.prems(2,3) have "dhms_loop (show_int ?q @ u # (dhms_parts us (t mod ?m) @ rest)) s =
        dhms_loop (dhms_parts us (t mod ?m) @ rest) (s + ?q * ?m)"
      by (intro dhms_step) auto
    also have "\<dots> = dhms_loop rest (s + ?q * ?m + t mod ?m)"
      using Cons.prems(2,3) q u split by (intro Cons.IH [OF nxt(1)]) auto
    finally show ?thesis using True split by (simp add: add.assoc)
  qed
qed (simp add: dhms_ok_def)

text \<open>Durations survive the round trip: for every duration of less than 69 years the text
  that \<open>time_t2dhms\<close> writes is read back by \<open>dhms2time_t\<close> as the same number of seconds.\<close>

theorem dhms_roundtrip:
  assumes "0 \<le> t" and "t < 69 * 365 * 24 * 60 * 60"
  shows "\<exists>txt. time_t2dhms t [] = (Some txt, []) \<and> dhms2time_t (Some txt) [] = Some (Inr t, [])"
proof (cases "t = 0")
  case True
  have "strtoll ''0s'' = (0, ''s'', False)" using strtoll_show_int [of 0 "''s''"]
    by (simp add: show_int_def show_nat.simps [of 0] digit_char_def isdigit_def code_def) code_simp
  then have "dhms_loop ''0s'' 0 = Some 0"
    by (simp add: dhms_loop.simps [of "''0s''"] dhms_loop.simps [of "[]"] int_mult_def time_add_def)
  with True show ?thesis by (simp add: time_t2dhms_def dhms2time_t_def)
next
  case False
  have "t div 31536000 \<le> 68" using assms by linarith
  then have "dhms_ok ''ywdhms'' t"
    using assms(1) by (simp add: dhms_ok_def unit_secs_def isdigit_def code_def)
  from dhms_parts_read [OF this, of 0 "[]"] assms(2) have "dhms_loop (dhms_parts ''ywdhms'' t) 0 = Some t"
    by (simp add: dhms_loop.simps [of "[]"])
  with False assms(1) show ?thesis by (simp add: time_t2dhms_def dhms2time_t_def)
qed

theorem dhms_roundtrip_witness:
  "\<exists>txt. time_t2dhms 90061 [] = (Some txt, []) \<and> dhms2time_t (Some txt) [] = Some (Inr 90061, [])"
  by (rule dhms_roundtrip) simp_all

text \<open>From 69 years on the multiplication by the seconds of a year overflows \<open>int\<close>, although the
  sum is kept in a \<open>time_t\<close>: reading such a duration is undefined behaviour.\<close>

theorem dhms_years_overflow:
  assumes "69 \<le> n" and "n \<le> INT_MAX"
  shows "dhms2time_t (Some (show_int n @ ''y'' @ rest)) [] = None"
proof -
  have "strtoll (show_int n @ CHR ''y'' # rest) = (n, CHR ''y'' # rest, False)"
    using assms by (intro strtoll_show_int) (auto simp: isdigit_def code_def)
  moreover have "sint (word_of_int n :: u32) = n"
    using assms by (simp add: signed_of_int signed_take_bit_int_eq_self)
  moreover have "show_int n \<noteq> []" by (simp add: show_int_def)
  ultimately have "dhms_loop (show_int n @ CHR ''y'' # rest) 0 = None"
    using assms(1) by (simp add: dhms_loop.simps [of "show_int n @ CHR ''y'' # rest"] int_mult_def unit_secs_def)
  then show ?thesis by (simp add: dhms2time_t_def)
qed

theorem dhms_years_overflow_witness: "dhms2time_t (Some (show_int 70 @ ''y'' @ [])) [] = None"
  by (rule dhms_years_overflow) simp_all

end
