(* ===== verification/Spec2Isabelle.thy ===== *)
theory Spec2Isabelle
  imports Json_Roundtrip Config_Properties Config_Live Event_Properties Event_Messages Log_Queue Logger_Properties Socks Tui_Keys Tui_Completion Eeprom Subproc Module_Registry Transport Serial Maidenhead Ringbuffer Rrlist Acl
    Util_Time Util_String
begin

text \<open>
  librustyaxe is a C library of utilities for the rustyrig programs: a typed dictionary, a JSON
  reader and writer over it, an event bus whose registry is such a dictionary, a configuration
  that is loaded into one, logging with a queue for worker threads, a SOCKS client, an EEPROM
  image, a text interface with windows and an input line, child processes, loadable modules,
  transports, access rules, ring buffers and lists, and helpers for strings, numbers and time. This development models the parts that carry its
  logic and proves what makes them correct, or where they are not.

  \<^bold>\<open>Machine model.\<close> \<open>Prelude\<close> fixes LP64 and little endian, pointers that may be \<open>NULL\<close>
  as options, and computations that may run forever or be undefined as options too, so that
  \<open>f x = Some y\<close> states that the code returns. Every allocation takes its outcome from a list
  of booleans; a theorem for an arbitrary list covers every pattern of failures, and the empty
  list is unlimited memory. \<open>C_Numbers\<close> models decimal text, \<open>strtoll\<close>, \<open>strtoull\<close>, \<open>strtod\<close>
  and doubles as rationals with infinities and NaN; \<open>C_Heap\<close> is a heap with use after free and
  double free as undefined; \<open>Util_Mem\<close> (\<open>util.mem.c\<close>) adds procedures that may end the process.

  \<^bold>\<open>Dictionary\<close> (\<open>dict.c\<close>). \<open>Dict_Hash\<close>: the two hash functions and the probe sequence, which
  visits every slot (\<open>probe_visits_all\<close>). \<open>Dict\<close>: the open-addressing table with tombstones,
  \<open>dict_lookup\<close>, \<open>dict_store\<close>, \<open>dict_resize\<close>, \<open>dict_del\<close>, enumeration. The collision loop and
  the growth loop are partial functions: whether they end is a theorem. \<open>Dict_Refine\<close>: the
  invariant \<open>dict_inv\<close> and the abstraction \<open>dict_map\<close>, each operation against the map.
  \<open>Dict_Access\<close>: typed getters, parsers, merge, clone, diff, dump, expansion.
  \<open>Dict_Contract\<close>: the interface \<open>typed_dict\<close> as a locale, its interpretation on the model, and
  the whole-dictionary operations proved from it. \<open>Dict_Properties\<close> and \<open>Dict_Convert\<close>: the
  properties, among them that a table of tombstones makes lookups run forever.

  \<^bold>\<open>JSON\<close> (\<open>json.c\<close>). \<open>Json_String\<close>: escaping and decoding with UTF-8. \<open>Json\<close>: the recursive
  reader into flat paths, with the functions it calls as parameters of each body and fuel
  \<open>2 * length json + 1\<close> at the top; every nested call consumes a character after at most two
  steps, and \<open>json_parsers_ok\<close> shows that this fuel is always enough. \<open>Json_Write\<close>: the tree, the
  string builder with its capacity and block size apart, \<open>dict2json\<close>, the variadic importers.
  \<open>Json_Properties\<close>, \<open>Json_Roundtrip\<close>: totality, preservation, the number grammar, the round trip.

  \<^bold>\<open>Event bus\<close> (\<open>event-bus.c\<close>, built without \<open>USE_PROFILING\<close>). \<open>Event_Bus\<close>: state and all
  operations; the callbacks and dispatchers are an argument that may change the bus at will.
  \<open>Event_Registry\<close>: invariant and refinement of a map from events to entries.
  \<open>Event_Properties\<close>: registration, removal, tokens, snapshot delivery, domains, shutdown, and
  the livelock the registry inherits from the dictionary. \<open>Event_Messages\<close>: the interleaving of
  the critical sections of message delivery as a step relation, with the guarantee behind
  unloading a module.

  \<^bold>\<open>Configuration\<close> (\<open>config.c\<close>, \<open>util.file.c\<close>). \<open>Config_Text\<close>: logical lines with continuation
  lines, comments and escapes, and their wrapping on output. \<open>Config_Load\<close>: sections, includes to
  a limited depth, callbacks; the contents of files are an argument. \<open>Config_Save\<close>: sorting,
  server blocks, backups, as steps on an abstract directory. \<open>Config_State\<close>: defaults, validated
  setting, reload events, applying a new dictionary. \<open>Config_Lines\<close>, \<open>Config_Order\<close>: lemmas on
  lines and on the order of settings. \<open>Config_Properties\<close>, \<open>Config_Live\<close>, \<open>Config_Roundtrip\<close>: the
  properties, among them that settings that are saved are loaded again, except for long values with
  spaces or backslashes, which the wrapping can change (\<open>wrap_loses_space\<close>). \<open>Util_File\<close>: path expansion,
  search and creation of directories.

  \<^bold>\<open>Logger\<close> (\<open>logger.c\<close>, \<open>log-queue.c\<close>, built without \<open>USE_EEPROM\<close>). \<open>Log_Filter\<close>: priorities,
  patterns, the rate limiter and the \<open>log.level\<close> setting. \<open>Log_Queue\<close>: the bounded queue, an
  interface for queues that may refuse, conservation under any interleaving. \<open>Logger\<close>: callbacks,
  \<open>Log\<close> from the owner and from workers, the drain, start and shutdown. \<open>Logger_Properties\<close>:
  the registry, delivery, and that what a worker logged is printed (without callbacks, timestamps
  and rates, and while the queue has room).

  \<^bold>\<open>Text interface\<close> (\<open>tui.c\<close>, \<open>tui.keys.c\<close>, \<open>tui.theme.c\<close>, \<open>tui.window.c\<close>,
  \<open>tui.completion.c\<close>, \<open>irc.format.c\<close>). \<open>Irc_Format\<close>: colour controls of a text and escape
  sequences of a colour. \<open>Tui_Theme\<close>: style tags, conversion and removal of IRC formatting.
  \<open>Line_Editor\<close>: the input buffer, each edit against a text with a cursor. \<open>Tui_Screen\<close>: the top
  line, wrapping and scrolling of the log area, the visible part of the input line, each with the exact
  offset; stores into the buffers on the stack are checked. \<open>Tui_Window\<close>: the windows as a whole,
  with printing and redrawing; every access to the array of windows goes through \<open>window_at\<close>, which
  is undefined outside of it, and every operation keeps \<open>tui_ok\<close>. A window that is kept across calls
  is its address, and \<open>window_ref\<close> is undefined once the window was freed. \<open>Tui_Completion\<close>: completion of
  a word, and the list of candidates that is printed.
  \<open>Tui_Keys\<close>: history, paging, hotkeys, and one step per key over all of these, with the
  callbacks of the application, the completion among them, as arguments. Typing never fails as
  long as the callbacks keep the windows and the terminal library and that library reports no error;
  otherwise the handler reads a freed window, the closed library or a key that was not filled in
  (\<open>closing_submit_undefined\<close>, \<open>closing_hotkey_undefined\<close>, \<open>closed_library_undefined\<close>,
  \<open>error_key_undefined\<close>).

  \<^bold>\<open>Processes, modules and lines.\<close> \<open>Subproc\<close> (\<open>subproc.c\<close>, over \<open>Scheduler\<close>): descriptor tables of
  parent and child, and what of the pipes each side holds after a start. \<open>Config_Sections\<close>
  (\<open>cfg.modules.c\<close>, \<open>cfg.serial.c\<close>): callbacks of the loader that store modules and serial lines.
  \<open>Module_Registry\<close> (\<open>module.c\<close>): the registry against a list of names and the answers of the
  modules to \<open>init\<close> and \<open>can_unload\<close>, for entry points that leave it alone, and how one that does not
  corrupts it. \<open>Transport\<close> (\<open>transport.c\<close>): the runs of a handle as a
  step relation, with the order of its events. \<open>Serial\<close> (\<open>io.serial.c\<close>): specifications of a line,
  its settings on a terminal, and NMEA sentences that are read back exactly.

  \<^bold>\<open>Other parts.\<close> \<open>Socks\<close> (\<open>socks.c\<close>): the proxy URL and the negotiation as a state machine over
  the receive buffer, independent of how the bytes arrive. \<open>Eeprom\<close> (\<open>eeprom.c\<close>): layout, typed
  reads, and the CRC against its bitwise definition, with the damage it detects. \<open>Scheduler\<close>
  (\<open>scheduler.c\<close>): what is applied is read back. \<open>Maidenhead\<close>
  (\<open>maidenhead.c\<close>): a locator survives the way through rounded coordinates. \<open>Ringbuffer\<close>
  (\<open>ringbuffer.c\<close>): refinement of a bounded FIFO on the heap. \<open>Rrlist\<close> (\<open>list.c\<close>): doubly linked lists. \<open>Acl\<close> (\<open>acl.c\<close>): parsing of access
  rules, with the network a rule holds, and their matching, with \<open>inet_pton\<close> as a parameter. \<open>Util_Time\<close> (\<open>util.time.c\<close>),
  \<open>Util_String\<close> (\<open>util.string.c\<close>, \<open>util.math.c\<close>): durations, HTML, argument splitting, numbers.

  \<^bold>\<open>Bounds.\<close> The 32-bit counters of the dictionary wrap; the theorems about insertion assume that
  \<open>fill\<close> stays below \<open>2 ^ 28\<close>, where no product of the growth policy overflows. The event bus
  assumes addresses below \<open>2 ^ 64\<close> and fewer than \<open>2 ^ 32\<close> running callbacks. Includes nest to the
  depth the loader allows, which is the recursion of the model. The text interface counts rows
  and columns without a bound.

  \<^bold>\<open>Not modelled.\<close> Freeing of plain memory (\<open>dict_free\<close>, \<open>free_json\<close>) has no counterpart where
  values are modelled without a heap. Left out are the key decoder and the terminal drivers
  adapted from libtermkey (\<open>termkey.c\<close>, \<open>tui.driver-csi.c\<close>, \<open>tui.driver-ti.c\<close>), the raw mode and the
  clock of the text interface, the trigonometry of \<open>maidenhead.c\<close>, the profiling counters of the
  event bus, wall-clock formatting, and the parts that only call the operating system: sockets,
  opening of serial devices, daemonisation, privileges.
\<close>

end
